(* ===== verification/Prelude.thy ===== *)
theory Prelude
  imports Main "HOL-Library.Word"
begin

text \<open>
  Shared vocabulary of the development: the error values that stand for the C++
  \<^verbatim>\<open>QD_ASSERT_INFO\<close> / \<^verbatim>\<open>QD_ERROR\<close> raises, sequencing of fallible computations,
  two's complement reading of \<^verbatim>\<open>int32_t\<close> and \<^verbatim>\<open>int64_t\<close> values, the primitive
  integer types with their little-endian loads, and the generic facts on lists that the
  components share.
\<close>

section \<open>Errors and fallible computations\<close>

text \<open>
  One constructor per raise of the modelled code. \<open>Diverges\<close> marks exhausted fuel: a
  recursion over a malformed tree that the C++ would not return from.
\<close>

datatype qd_error =
    NodeIdxOutOfBounds int
  | UnboundVar int
  | NoSnodeId
  | SnodeNotFound int
  | NoLaunchContext
  | EmptyArgPath
  | NoDataPointer int
  | UnsupportedElementType int
  | IterationGuard int
  | UnreachableKind int
  | NullProgram
  | FreeVarsAtRoot
  | TooManyBoundVars nat
  | NestingTooDeep nat
  | RemapMissing int
  | FieldLoadNotFoldable int
  | FieldLoadNotDense int
  | StrideCountMismatch
  | ShapeEscapedFold int
  | TooManyDeviceNodes nat
  | StackCountMismatch
  | NoArgsType
  | ArgBufferOverrun
  | EvalStackOverrun
  | EvalStackUnderrun
  | FlagUnresolved
  | AssertFailed
  | PoolDestroyed
  | MapFailed nat
  | UnmapFailed nat
  | NotPageAligned nat
  | AlreadyAllocated nat
  | NotAllocated nat
  | InvalidDeviceAllocation nat
  | DeallocatedTwice nat
  | AllocationFailed nat
  | NotImplemented
  | ProcessExit
  | Diverges

type_synonym 'a result = "qd_error + 'a"

definition bindE :: "'a result \<Rightarrow> ('a \<Rightarrow> 'b result) \<Rightarrow> 'b result" where
  "bindE m f = (case m of Inl e \<Rightarrow> Inl e | Inr x \<Rightarrow> f x)"

definition guardE :: "bool \<Rightarrow> qd_error \<Rightarrow> 'a result \<Rightarrow> 'a result" where
  "guardE b e k = (if b then k else Inl e)"

named_theorems result_simps \<open>rewriting of fallible computations\<close>

lemma bindE_simps [simp]:
  "bindE (Inl e) f = Inl e"
  "bindE (Inr x) f = f x"
  by (simp_all add: bindE_def)

lemma bindE_eq_Inr [result_simps]:
  "bindE m f = Inr y \<longleftrightarrow> (\<exists>x. m = Inr x \<and> f x = Inr y)"
  by (cases m) simp_all

lemma guardE_simps [simp]:
  "guardE True e k = k"
  "guardE False e k = Inl e"
  by (simp_all add: guardE_def)

lemma guardE_eq_Inr [result_simps]:
  "guardE b e k = Inr y \<longleftrightarrow> b \<and> k = Inr y"
  by (simp add: guardE_def)

fun mapE :: "('a \<Rightarrow> 'b result) \<Rightarrow> 'a list \<Rightarrow> 'b list result" where
  "mapE f [] = Inr []"
| "mapE f (x # xs) = bindE (f x) (\<lambda>y. bindE (mapE f xs) (\<lambda>ys. Inr (y # ys)))"

lemma mapE_length: "mapE f xs = Inr ys \<Longrightarrow> length ys = length xs"
  by (induction xs arbitrary: ys) (auto simp: result_simps)

lemma mapE_nth: "mapE f xs = Inr ys \<Longrightarrow> i < length xs \<Longrightarrow> f (xs ! i) = Inr (ys ! i)"
  by (induction xs arbitrary: ys i) (auto simp: result_simps nth_Cons split: nat.splits)

lemma mapE_cong [fundef_cong]:
  "xs = ys \<Longrightarrow> (\<And>x. x \<in> set ys \<Longrightarrow> f x = g x) \<Longrightarrow> mapE f xs = mapE g ys"
  by (induction xs arbitrary: ys) auto

text \<open>
  \<open>computes P m r\<close>: the stateful computation \<open>m\<close> has the outcome of the pure \<open>r\<close> (the same
  error, or the same value) and leaves a state that satisfies \<open>P\<close>.
\<close>

definition computes :: "('s \<Rightarrow> bool) \<Rightarrow> ('a \<times> 's) result \<Rightarrow> 'a result \<Rightarrow> bool" where
  "computes P m r \<longleftrightarrow> (case r of Inl er \<Rightarrow> m = Inl er | Inr v \<Rightarrow> \<exists>s. m = Inr (v, s) \<and> P s)"

lemma computes_Inr [simp]: "computes P m (Inr v) \<longleftrightarrow> (\<exists>s. m = Inr (v, s) \<and> P s)"
  by (simp add: computes_def)

lemma computes_Inl [simp]: "computes P m (Inl er) \<longleftrightarrow> m = Inl er"
  by (simp add: computes_def)

lemma computes_bind:
  assumes "computes P m r" "\<And>v s. r = Inr v \<Longrightarrow> P s \<Longrightarrow> computes Q (f (v, s)) (g v)"
  shows "computes Q (bindE m f) (bindE r g)"
  using assms by (cases r) auto

lemma computes_guard:
  assumes "b \<Longrightarrow> computes P m r"
  shows "computes P (guardE b er m) (guardE b er r)"
  using assms by (simp add: guardE_def)

lemma computes_mono: "computes P m r \<Longrightarrow> (\<And>s. P s \<Longrightarrow> Q s) \<Longrightarrow> computes Q m r"
  by (cases r) auto

section \<open>Fixed-width integers\<close>

text \<open>
  Signed machine integers are HOL integers kept in range by an explicit two's complement
  wrap after every operation that can leave it.
\<close>

definition wrap32 :: "int \<Rightarrow> int" where
  "wrap32 x = (x + 2 ^ 31) mod 2 ^ 32 - 2 ^ 31"

definition wrap64 :: "int \<Rightarrow> int" where
  "wrap64 x = (x + 2 ^ 63) mod 2 ^ 64 - 2 ^ 63"

definition fits32 :: "int \<Rightarrow> bool" where
  "fits32 x \<longleftrightarrow> - (2 ^ 31) \<le> x \<and> x < 2 ^ 31"

definition fits64 :: "int \<Rightarrow> bool" where
  "fits64 x \<longleftrightarrow> - (2 ^ 63) \<le> x \<and> x < 2 ^ 63"

definition u64 :: "nat \<Rightarrow> nat" where
  "u64 n = n mod 2 ^ 64"

definition u32 :: "nat \<Rightarrow> nat" where
  "u32 n = n mod 2 ^ 32"

lemma wrap32_id [simp]: "fits32 x \<Longrightarrow> wrap32 x = x"
  by (simp add: wrap32_def fits32_def)

lemma wrap64_id [simp]: "fits64 x \<Longrightarrow> wrap64 x = x"
  by (simp add: wrap64_def fits64_def)

lemma fits64_wrap64 [simp]: "fits64 (wrap64 x)"
  using pos_mod_bound [of "2 ^ 64" "x + 2 ^ 63"] pos_mod_sign [of "2 ^ 64" "x + 2 ^ 63"]
  by (simp add: fits64_def wrap64_def)

lemma fits32_wrap32 [simp]: "fits32 (wrap32 x)"
  using pos_mod_bound [of "2 ^ 32" "x + 2 ^ 31"] pos_mod_sign [of "2 ^ 32" "x + 2 ^ 31"]
  by (simp add: fits32_def wrap32_def)

lemma fits32_fits64: "fits32 x \<Longrightarrow> fits64 x"
  by (simp add: fits32_def fits64_def)

text \<open>Two values wrap to the same word exactly when they agree modulo \<open>2 ^ 64\<close>.\<close>

lemma wrap64_eq_iff: "wrap64 a = wrap64 b \<longleftrightarrow> a mod 2 ^ 64 = b mod 2 ^ 64"
proof -
  have "wrap64 a = wrap64 b \<longleftrightarrow> (a + 2 ^ 63) mod 2 ^ 64 = (b + 2 ^ 63) mod 2 ^ 64"
    by (simp add: wrap64_def)
  also have "\<dots> \<longleftrightarrow> a mod 2 ^ 64 = b mod 2 ^ 64"
    by (simp add: mod_eq_dvd_iff)
  finally show ?thesis .
qed

lemma wrap64_mod: "wrap64 a mod 2 ^ 64 = a mod 2 ^ 64"
  by (metis wrap64_eq_iff wrap64_id fits64_wrap64)

lemma wrap64_add_left [simp]: "wrap64 (wrap64 a + b) = wrap64 (a + b)"
  by (metis wrap64_eq_iff wrap64_mod mod_add_left_eq)

lemma wrap64_add_right [simp]: "wrap64 (a + wrap64 b) = wrap64 (a + b)"
  by (metis wrap64_add_left add.commute)

lemma wrap64_mult_left [simp]: "wrap64 (wrap64 a * b) = wrap64 (a * b)"
  by (metis wrap64_eq_iff wrap64_mod mod_mult_left_eq)

lemma wrap64_mult_right [simp]: "wrap64 (a * wrap64 b) = wrap64 (a * b)"
  by (metis wrap64_mult_left mult.commute)

lemma wrap64_wrap64 [simp]: "wrap64 (wrap64 a) = wrap64 a"
  by simp

section \<open>Primitive integer types and byte-addressed loads\<close>

text \<open>
  The integer members of \<^verbatim>\<open>PrimitiveTypeID\<close> (\<^verbatim>\<open>inc/data_type.inc.h\<close>), numbered by their
  position in the enumeration, and the little-endian element load every evaluator performs.
\<close>

datatype prim_ty = I8 | I16 | I32 | I64 | U8 | U16 | U32 | U64

definition prim_of_id :: "int \<Rightarrow> prim_ty option" where
  "prim_of_id d =
     (if d = 3 then Some I8 else if d = 4 then Some I16
      else if d = 5 then Some I32 else if d = 6 then Some I64
      else if d = 8 then Some U8 else if d = 9 then Some U16
      else if d = 10 then Some U32 else if d = 11 then Some U64 else None)"

fun prim_size :: "prim_ty \<Rightarrow> nat" where
  "prim_size I8 = 1" | "prim_size U8 = 1"
| "prim_size I16 = 2" | "prim_size U16 = 2"
| "prim_size I32 = 4" | "prim_size U32 = 4"
| "prim_size I64 = 8" | "prim_size U64 = 8"

type_synonym memory = "int \<Rightarrow> 8 word"

fun load_uint :: "memory \<Rightarrow> int \<Rightarrow> nat \<Rightarrow> int" where
  "load_uint m a 0 = 0"
| "load_uint m a (Suc n) = uint (m a) + 256 * load_uint m (a + 1) n"

text \<open>Reading \<open>n\<close> bytes as a signed value: the top bit is the sign.\<close>

definition sign_extend :: "nat \<Rightarrow> int \<Rightarrow> int" where
  "sign_extend n x = (x + 2 ^ (8 * n - 1)) mod 2 ^ (8 * n) - 2 ^ (8 * n - 1)"

text \<open>
  \<^verbatim>\<open>static_cast<int64_t>(static_cast<T *>(p)[linear])\<close>: an unsigned 64-bit element is
  reinterpreted, every narrower one is zero- or sign-extended.
\<close>

fun load_elem :: "memory \<Rightarrow> int \<Rightarrow> int \<Rightarrow> prim_ty \<Rightarrow> int" where
  "load_elem m p linear U8 = load_uint m (p + linear) 1"
| "load_elem m p linear U16 = load_uint m (p + linear * 2) 2"
| "load_elem m p linear U32 = load_uint m (p + linear * 4) 4"
| "load_elem m p linear U64 = wrap64 (load_uint m (p + linear * 8) 8)"
| "load_elem m p linear I8 = sign_extend 1 (load_uint m (p + linear) 1)"
| "load_elem m p linear I16 = sign_extend 2 (load_uint m (p + linear * 2) 2)"
| "load_elem m p linear I32 = sign_extend 4 (load_uint m (p + linear * 4) 4)"
| "load_elem m p linear I64 = sign_extend 8 (load_uint m (p + linear * 8) 8)"

lemma load_uint_bounds: "0 \<le> load_uint m a n \<and> load_uint m a n < 256 ^ n"
proof (induction n arbitrary: a)
  case (Suc n)
  have "uint (m a) < 256"
    using uint_bounded [of "m a"] by simp
  then show ?case
    using Suc.IH [of "a + 1"] by (auto simp: algebra_simps)
qed simp

lemma sign_extend_bounds:
  assumes "0 < n"
  shows "- (2 ^ (8 * n - 1)) \<le> sign_extend n x \<and> sign_extend n x < 2 ^ (8 * n - 1)"
proof -
  have "(2::int) ^ (8 * n) = 2 * 2 ^ (8 * n - 1)"
    using assms by (simp add: power_eq_if [of 2 "8 * n"])
  then show ?thesis
    using pos_mod_bound [of "2 ^ (8 * n)" "x + 2 ^ (8 * n - 1)"]
      pos_mod_sign [of "2 ^ (8 * n)" "x + 2 ^ (8 * n - 1)"]
    by (simp add: sign_extend_def)
qed

lemma fits64_sign_extend:
  assumes "0 < n" "n \<le> 8"
  shows "fits64 (sign_extend n x)"
proof -
  have "(2::int) ^ (8 * n - 1) \<le> 2 ^ 63"
    using assms by (intro power_increasing) simp_all
  then show ?thesis
    using sign_extend_bounds [OF assms(1), of x] by (simp add: fits64_def)
qed

lemma fits64_load_uint:
  assumes "n < 8"
  shows "fits64 (load_uint m a n)"
proof -
  have "(256::int) ^ n \<le> 256 ^ 7"
    using assms by (intro power_increasing) simp_all
  then show ?thesis
    using load_uint_bounds [of m a n] by (simp add: fits64_def)
qed

lemma fits64_load_elem: "fits64 (load_elem m p linear ty)"
  by (cases ty) (simp_all only: load_elem.simps fits64_wrap64, simp_all only: fits64_sign_extend fits64_load_uint)

section \<open>Bottom-up passes over a post-order node vector\<close>

text \<open>
  Several passes fill a result vector left to right, each entry computed from the node and the
  entries already filled. \<open>scan\<close> is that loop; \<open>at\<close> reads an entry, with the vector's
  initial value where nothing has been stored.
\<close>

definition scan :: "('n \<Rightarrow> 'a list \<Rightarrow> 'a) \<Rightarrow> 'n list \<Rightarrow> 'a list" where
  "scan f ns = foldl (\<lambda>acc n. acc @ [f n acc]) [] ns"

definition at :: "'a \<Rightarrow> 'a list \<Rightarrow> int \<Rightarrow> 'a" where
  "at d xs i = (if 0 \<le> i \<and> i < int (length xs) then xs ! nat i else d)"

lemma scan_Nil [simp]: "scan f [] = []"
  by (simp add: scan_def)

lemma scan_snoc [simp]: "scan f (ns @ [n]) = scan f ns @ [f n (scan f ns)]"
  by (simp add: scan_def)

lemma length_scan [simp]: "length (scan f ns) = length ns"
  by (induction ns rule: rev_induct) simp_all

lemma scan_append_take: "take (length ms) (scan f (ms @ ns)) = scan f ms"
  by (induction ns rule: rev_induct) (simp_all flip: append_assoc)

lemma scan_nth:
  assumes "i < length ns"
  shows "scan f ns ! i = f (ns ! i) (take i (scan f ns))"
proof -
  have split: "ns = take i ns @ [ns ! i] @ drop (Suc i) ns"
    using assms by (simp add: id_take_nth_drop)
  have 1: "take (Suc i) (scan f ns) = scan f (take i ns @ [ns ! i])"
    using scan_append_take [of "take i ns @ [ns ! i]" f "drop (Suc i) ns"] split assms by simp
  have 2: "take i (scan f ns) = scan f (take i ns)"
    using scan_append_take [of "take i ns" f "[ns ! i] @ drop (Suc i) ns"] split assms by simp
  have "scan f ns ! i = take (Suc i) (scan f ns) ! i"
    using assms by simp
  also have "\<dots> = f (ns ! i) (scan f (take i ns))"
    using assms by (simp add: 1 nth_append)
  finally show ?thesis by (simp add: 2)
qed

lemma at_take: "0 \<le> j \<Longrightarrow> j < int i \<Longrightarrow> at d (take i xs) j = at d xs j"
  by (auto simp: at_def nat_less_iff)

lemma at_nth [simp]: "0 \<le> i \<Longrightarrow> i < int (length xs) \<Longrightarrow> at d xs i = xs ! nat i"
  by (simp add: at_def)

lemma at_append: "0 \<le> i \<Longrightarrow> i < int (length xs) \<Longrightarrow> at d (xs @ ys) i = at d xs i"
  by (simp add: at_def nth_append nat_less_iff)

end
