(* ===== verification/SizeExpr.thy ===== *)
theory SizeExpr
  imports Prelude
begin

text \<open>
  The symbolic size expression of an adstack (\<^verbatim>\<open>ir/adstack_size_expr.h\<close>) and its flat,
  post-order serialised form (\<^verbatim>\<open>ir/adstack_size_expr.cpp\<close>). The tree is a datatype, the
  serialised node a record with the source's fields; \<open>represents ns i t\<close> says that node
  \<open>i\<close> of the vector \<open>ns\<close> is the root of a subtree spelling \<open>t\<close>, which is what every
  consumer of a serialised expression relies on and what \<open>serialize\<close> provides.
\<close>

section \<open>Trees and serialised nodes\<close>

text \<open>
  \<^verbatim>\<open>SizeExpr::Kind\<close>, stored as an \<^verbatim>\<open>int32\<close> in a serialised node; \<open>kind_of\<close> is the
  \<^verbatim>\<open>static_cast\<close> back, \<open>None\<close> for a code no enumerator has.
\<close>

datatype size_kind =
    KConst | KFieldLoad | KAdd | KSub | KMul | KMax | KMaxOverRange | KBoundVariable
  | KExternalTensorShape | KExternalTensorRead

fun kind_code :: "size_kind \<Rightarrow> int" where
  "kind_code KConst = 0" | "kind_code KFieldLoad = 1" | "kind_code KAdd = 2"
| "kind_code KSub = 3" | "kind_code KMul = 4" | "kind_code KMax = 5"
| "kind_code KMaxOverRange = 6" | "kind_code KBoundVariable = 7"
| "kind_code KExternalTensorShape = 8" | "kind_code KExternalTensorRead = 9"

definition kind_of :: "int \<Rightarrow> size_kind option" where
  "kind_of c =
     (if c = 0 then Some KConst else if c = 1 then Some KFieldLoad
      else if c = 2 then Some KAdd else if c = 3 then Some KSub
      else if c = 4 then Some KMul else if c = 5 then Some KMax
      else if c = 6 then Some KMaxOverRange else if c = 7 then Some KBoundVariable
      else if c = 8 then Some KExternalTensorShape else if c = 9 then Some KExternalTensorRead
      else None)"

lemma kind_of_code [simp]: "kind_of (kind_code k) = Some k"
  by (cases k) (simp_all add: kind_of_def)

lemma kind_of_numeral [simp]:
  "kind_of 0 = Some KConst" "kind_of 1 = Some KFieldLoad" "kind_of 2 = Some KAdd"
  "kind_of 3 = Some KSub" "kind_of 4 = Some KMul" "kind_of 5 = Some KMax"
  "kind_of 6 = Some KMaxOverRange" "kind_of 7 = Some KBoundVariable"
  "kind_of 8 = Some KExternalTensorShape" "kind_of 9 = Some KExternalTensorRead"
  by (simp_all add: kind_of_def)

lemma kind_code_inj [simp]: "kind_code k = kind_code k' \<longleftrightarrow> k = k'"
  by (metis kind_of_code option.inject)

text \<open>The four binary kinds \<^verbatim>\<open>make_binary\<close> builds.\<close>

datatype bin_op = OpAdd | OpSub | OpMul | OpMax

fun bin_kind :: "bin_op \<Rightarrow> size_kind" where
  "bin_kind OpAdd = KAdd" | "bin_kind OpSub = KSub" | "bin_kind OpMul = KMul"
| "bin_kind OpMax = KMax"

text \<open>
  A null \<^verbatim>\<open>SNode *\<close> is the id \<open>-1\<close>. Index lists hold a constant (non-negative) or
  \<open>-(var_id + 1)\<close> for a loop variable bound by an enclosing \<open>MaxOverRange\<close>.
  \<^verbatim>\<open>source_loop\<close> only keys the fusion in the pre-pass and is dropped on serialisation.
\<close>

datatype size_expr =
    Const int
  | FieldLoad int "int list"
  | Binary bin_op size_expr size_expr
  | MaxOverRange int size_expr size_expr size_expr
  | BoundVariable int
  | ExternalTensorShape "int list" int
  | ExternalTensorRead "int list" "int list" int

record ser_node =
  sn_kind :: int
  sn_const_value :: int
  sn_snode_id :: int
  sn_indices :: "int list"
  sn_operand_a :: int
  sn_operand_b :: int
  sn_var_id :: int
  sn_body_node_idx :: int
  sn_arg_id_path :: "int list"
  sn_arg_shape_axis :: int

type_synonym ser_expr = "ser_node list"

definition default_node :: ser_node where
  "default_node = \<lparr>sn_kind = 0, sn_const_value = 0, sn_snode_id = -1, sn_indices = [],
     sn_operand_a = -1, sn_operand_b = -1, sn_var_id = -1, sn_body_node_idx = -1,
     sn_arg_id_path = [], sn_arg_shape_axis = -1\<rparr>"

text \<open>The first node a \<^verbatim>\<open>flatten_recursive\<close> call fills in, before its operands are known.\<close>

fun node_head :: "size_expr \<Rightarrow> ser_node" where
  "node_head (Const c) = default_node\<lparr>sn_kind := kind_code KConst, sn_const_value := c\<rparr>"
| "node_head (FieldLoad s is) =
     default_node\<lparr>sn_kind := kind_code KFieldLoad, sn_snode_id := s, sn_indices := map wrap32 is\<rparr>"
| "node_head (Binary f a b) = default_node\<lparr>sn_kind := kind_code (bin_kind f)\<rparr>"
| "node_head (MaxOverRange v a b c) =
     default_node\<lparr>sn_kind := kind_code KMaxOverRange, sn_var_id := v\<rparr>"
| "node_head (BoundVariable v) =
     default_node\<lparr>sn_kind := kind_code KBoundVariable, sn_var_id := v\<rparr>"
| "node_head (ExternalTensorShape p ax) =
     default_node\<lparr>sn_kind := kind_code KExternalTensorShape, sn_arg_id_path := p,
       sn_arg_shape_axis := ax\<rparr>"
| "node_head (ExternalTensorRead p is dt) =
     default_node\<lparr>sn_kind := kind_code KExternalTensorRead, sn_arg_id_path := p,
       sn_indices := map wrap32 is, sn_const_value := dt\<rparr>"

fun flatten_recursive :: "size_expr \<Rightarrow> ser_node list \<Rightarrow> int \<times> ser_node list" where
  "flatten_recursive (Binary f a b) out =
     (let (ia, out1) = flatten_recursive a out;
          (ib, out2) = flatten_recursive b out1;
          out3 = out2 @ [(node_head (Binary f a b))\<lparr>sn_operand_a := ia, sn_operand_b := ib\<rparr>]
      in (int (length out3) - 1, out3))"
| "flatten_recursive (MaxOverRange v a b c) out =
     (let (ia, out1) = flatten_recursive a out;
          (ib, out2) = flatten_recursive b out1;
          (ic, out3) = flatten_recursive c out2;
          out4 = out3 @ [(node_head (MaxOverRange v a b c))\<lparr>sn_operand_a := ia,
                   sn_operand_b := ib, sn_body_node_idx := ic\<rparr>]
      in (int (length out4) - 1, out4))"
| "flatten_recursive t out = (int (length out), out @ [node_head t])"

definition serialize :: "size_expr \<Rightarrow> ser_expr" where
  "serialize t = snd (flatten_recursive t [])"

section \<open>What a serialised vector spells\<close>

definition node_at :: "ser_expr \<Rightarrow> int \<Rightarrow> ser_node" where
  "node_at ns i = at default_node ns i"

definition in_range :: "'a list \<Rightarrow> int \<Rightarrow> bool" where
  "in_range ns i \<longleftrightarrow> 0 \<le> i \<and> i < int (length ns)"

text \<open>Unused operand slots hold \<open>-1\<close>, which the passes over the whole vector rely on.\<close>

definition leaf_slots :: "ser_node \<Rightarrow> bool" where
  "leaf_slots n \<longleftrightarrow> sn_operand_a n = -1 \<and> sn_operand_b n = -1 \<and> sn_body_node_idx n = -1"

fun represents :: "ser_expr \<Rightarrow> int \<Rightarrow> size_expr \<Rightarrow> bool" where
  "represents ns i (Const c) \<longleftrightarrow> in_range ns i \<and> leaf_slots (node_at ns i) \<and>
     sn_kind (node_at ns i) = kind_code KConst \<and> sn_const_value (node_at ns i) = c"
| "represents ns i (FieldLoad s is) \<longleftrightarrow> in_range ns i \<and> leaf_slots (node_at ns i) \<and>
     sn_kind (node_at ns i) = kind_code KFieldLoad \<and> sn_snode_id (node_at ns i) = s \<and>
     sn_indices (node_at ns i) = is"
| "represents ns i (Binary f a b) \<longleftrightarrow> in_range ns i \<and> sn_body_node_idx (node_at ns i) = -1 \<and>
     sn_kind (node_at ns i) = kind_code (bin_kind f) \<and>
     sn_operand_a (node_at ns i) < i \<and> represents ns (sn_operand_a (node_at ns i)) a \<and>
     sn_operand_b (node_at ns i) < i \<and> represents ns (sn_operand_b (node_at ns i)) b"
| "represents ns i (MaxOverRange v a b c) \<longleftrightarrow> in_range ns i \<and>
     sn_kind (node_at ns i) = kind_code KMaxOverRange \<and> sn_var_id (node_at ns i) = v \<and>
     sn_operand_a (node_at ns i) < i \<and> represents ns (sn_operand_a (node_at ns i)) a \<and>
     sn_operand_b (node_at ns i) < i \<and> represents ns (sn_operand_b (node_at ns i)) b \<and>
     sn_body_node_idx (node_at ns i) < i \<and> represents ns (sn_body_node_idx (node_at ns i)) c"
| "represents ns i (BoundVariable v) \<longleftrightarrow> in_range ns i \<and> leaf_slots (node_at ns i) \<and>
     sn_kind (node_at ns i) = kind_code KBoundVariable \<and> sn_var_id (node_at ns i) = v"
| "represents ns i (ExternalTensorShape p ax) \<longleftrightarrow> in_range ns i \<and> leaf_slots (node_at ns i) \<and>
     sn_kind (node_at ns i) = kind_code KExternalTensorShape \<and>
     sn_arg_id_path (node_at ns i) = p \<and> sn_arg_shape_axis (node_at ns i) = ax"
| "represents ns i (ExternalTensorRead p is dt) \<longleftrightarrow> in_range ns i \<and> leaf_slots (node_at ns i) \<and>
     sn_kind (node_at ns i) = kind_code KExternalTensorRead \<and>
     sn_arg_id_path (node_at ns i) = p \<and> sn_indices (node_at ns i) = is \<and>
     sn_const_value (node_at ns i) = dt"

text \<open>Index entries survive the \<^verbatim>\<open>static_cast<int32_t>\<close> of the serialiser.\<close>

fun indices_fit :: "size_expr \<Rightarrow> bool" where
  "indices_fit (FieldLoad s is) \<longleftrightarrow> list_all fits32 is"
| "indices_fit (ExternalTensorRead p is dt) \<longleftrightarrow> list_all fits32 is"
| "indices_fit (Binary f a b) \<longleftrightarrow> indices_fit a \<and> indices_fit b"
| "indices_fit (MaxOverRange v a b c) \<longleftrightarrow> indices_fit a \<and> indices_fit b \<and> indices_fit c"
| "indices_fit t \<longleftrightarrow> True"

text \<open>Structural measures and scoping of a tree.\<close>

fun depth :: "size_expr \<Rightarrow> nat" where
  "depth (Binary f a b) = Suc (max (depth a) (depth b))"
| "depth (MaxOverRange v a b c) = Suc (max (depth a) (max (depth b) (depth c)))"
| "depth t = 0"

definition index_vars :: "int list \<Rightarrow> int set" where
  "index_vars is = (\<lambda>r. - (r + 1)) ` {r \<in> set is. r < 0}"

fun fv :: "size_expr \<Rightarrow> int set" where
  "fv (Const c) = {}"
| "fv (FieldLoad s is) = index_vars is"
| "fv (Binary f a b) = fv a \<union> fv b"
| "fv (MaxOverRange v a b c) = fv a \<union> fv b \<union> (fv c - {v})"
| "fv (BoundVariable v) = {v}"
| "fv (ExternalTensorShape p ax) = {}"
| "fv (ExternalTensorRead p is dt) = index_vars is"

fun binders :: "size_expr \<Rightarrow> int set" where
  "binders (Binary f a b) = binders a \<union> binders b"
| "binders (MaxOverRange v a b c) = insert v (binders a \<union> binders b \<union> binders c)"
| "binders t = {}"

text \<open>
  No binder of an earlier evaluated operand captures a variable a later one still reads.
\<close>

fun no_clobber :: "size_expr \<Rightarrow> bool" where
  "no_clobber (Binary f a b) \<longleftrightarrow> no_clobber a \<and> no_clobber b \<and> binders a \<inter> fv b = {}"
| "no_clobber (MaxOverRange v a b c) \<longleftrightarrow> no_clobber a \<and> no_clobber b \<and> no_clobber c \<and>
     binders a \<inter> fv b = {} \<and> (binders a \<union> binders b \<union> binders c) \<inter> (fv c - {v}) = {}"
| "no_clobber t \<longleftrightarrow> True"

lemma represents_in_range: "represents ns i t \<Longrightarrow> in_range ns i"
  by (cases t) simp_all

lemma index_vars_nonneg: "v \<in> index_vars is \<Longrightarrow> 0 \<le> v"
  by (auto simp: index_vars_def)

lemma node_at_append: "in_range ns i \<Longrightarrow> node_at (ns @ ms) i = node_at ns i"
  unfolding node_at_def in_range_def by (rule at_append) simp_all

lemma in_range_append: "in_range ns i \<Longrightarrow> in_range (ns @ ms) i"
  by (simp add: in_range_def)

lemma represents_append: "represents ns i t \<Longrightarrow> represents (ns @ ms) i t"
  by (induction t arbitrary: i) (simp_all add: node_at_append in_range_append)

lemma node_at_snoc [simp]: "node_at (ns @ [n]) (int (length ns)) = n"
  by (simp add: node_at_def at_def)

lemma in_range_snoc [simp]: "in_range (ns @ [n]) (int (length ns))"
  by (simp add: in_range_def)

text \<open>
  The depth of a represented tree is bounded by its root index: the children are strictly
  earlier, so a recursion over a represented subtree descends at most that far.
\<close>

lemma represents_depth: "represents ns i t \<Longrightarrow> int (depth t) \<le> i"
proof (induction t arbitrary: i)
  case (Binary f a b)
  then show ?case by (fastforce simp: max_def)
next
  case (MaxOverRange v a b c)
  then show ?case by (fastforce simp: max_def)
qed (simp_all add: in_range_def)

section \<open>Correctness of the serialiser\<close>

lemma node_head_fields [simp]:
  "sn_kind (node_head (Binary f a b)) = kind_code (bin_kind f)"
  "sn_kind (node_head (MaxOverRange v a b c)) = kind_code KMaxOverRange"
  "sn_var_id (node_head (MaxOverRange v a b c)) = v"
  by simp_all

lemma map_wrap32_id: "list_all fits32 is \<Longrightarrow> map wrap32 is = is"
  by (induction "is") simp_all

lemma represents_Binary_snoc:
  assumes "represents o2 ia a" "represents o2 ib b"
    and "n = (node_head (Binary f a b))\<lparr>sn_operand_a := ia, sn_operand_b := ib\<rparr>"
  shows "represents (o2 @ [n]) (int (length o2)) (Binary f a b)"
  using assms(1,2) [THEN represents_in_range] assms
  by (simp add: represents_append in_range_def default_node_def)

lemma represents_MaxOverRange_snoc:
  assumes "represents o3 ia a" "represents o3 ib b" "represents o3 ic c"
    and "n = (node_head (MaxOverRange v a b c))\<lparr>sn_operand_a := ia, sn_operand_b := ib,
                sn_body_node_idx := ic\<rparr>"
  shows "represents (o3 @ [n]) (int (length o3)) (MaxOverRange v a b c)"
  using assms(1-3) [THEN represents_in_range] assms
  by (simp add: represents_append in_range_def)

lemma flatten_recursive_spec:
  "flatten_recursive t out = (i, out') \<Longrightarrow> indices_fit t \<Longrightarrow>
     \<exists>ms. out' = out @ ms \<and> i = int (length out') - 1 \<and> represents out' i t"
proof (induction t arbitrary: out i out')
  case (Binary f a b)
  obtain ia o1 where a: "flatten_recursive a out = (ia, o1)" by (cases "flatten_recursive a out")
  obtain ib o2 where b: "flatten_recursive b o1 = (ib, o2)" by (cases "flatten_recursive b o1")
  from Binary.IH(1) [OF a] Binary.prems obtain m1 where
    m1: "o1 = out @ m1" "represents o1 ia a" by auto
  from Binary.IH(2) [OF b] Binary.prems obtain m2 where
    m2: "o2 = o1 @ m2" "represents o2 ib b" by auto
  have "represents o2 ia a" using m1(2) m2(1) by (simp add: represents_append)
  from represents_Binary_snoc [OF this m2(2) refl] Binary.prems(1) a b m1(1) m2(1)
  show ?case by (fastforce simp: Let_def simp del: represents.simps node_head.simps)
next
  case (MaxOverRange v a b c)
  obtain ia o1 where a: "flatten_recursive a out = (ia, o1)" by (cases "flatten_recursive a out")
  obtain ib o2 where b: "flatten_recursive b o1 = (ib, o2)" by (cases "flatten_recursive b o1")
  obtain ic o3 where c: "flatten_recursive c o2 = (ic, o3)" by (cases "flatten_recursive c o2")
  from MaxOverRange.IH(1) [OF a] MaxOverRange.prems obtain m1 where
    m1: "o1 = out @ m1" "represents o1 ia a" by auto
  from MaxOverRange.IH(2) [OF b] MaxOverRange.prems obtain m2 where
    m2: "o2 = o1 @ m2" "represents o2 ib b" by auto
  from MaxOverRange.IH(3) [OF c] MaxOverRange.prems obtain m3 where
    m3: "o3 = o2 @ m3" "represents o3 ic c" by auto
  have r2: "represents o2 ia a" using m1(2) m2(1) by (simp add: represents_append)
  have "represents o3 ia a" "represents o3 ib b"
    using r2 m2(2) m3(1) by (simp_all add: represents_append)
  from represents_MaxOverRange_snoc [OF this m3(2) refl] MaxOverRange.prems(1) a b c
    m1(1) m2(1) m3(1)
  show ?case by (fastforce simp: Let_def simp del: represents.simps node_head.simps)
qed (auto simp: map_wrap32_id default_node_def leaf_slots_def)

text \<open>The serialised root is the last node (\<^verbatim>\<open>nodes.back()\<close>).\<close>

lemma serialize_represents:
  assumes "indices_fit t"
  shows "represents (serialize t) (int (length (serialize t)) - 1) t"
  using flatten_recursive_spec [of t "[]" "fst (flatten_recursive t [])" "snd (flatten_recursive t [])"]
    assms by (auto simp: serialize_def)

end
