(* ===== verification/Launch.thy ===== *)
theory Launch
  imports SizeExpr
begin

text \<open>
  The surroundings an evaluator of size expressions reads: the parts of \<^verbatim>\<open>Program\<close> (SNode
  lookup, the host-side \<^verbatim>\<open>read_int\<close> accessor, the architecture, the write generations kept by
  \<^verbatim>\<open>AdStackCache\<close>), the parts of \<^verbatim>\<open>LaunchContextBuilder\<close> (array pointers, the host copy of
  the argument buffer and the layout of the argument struct) and host memory. Pointers are
  integers with \<open>0\<close> for \<^verbatim>\<open>nullptr\<close>; a null \<^verbatim>\<open>Program *\<close> or \<^verbatim>\<open>LaunchContextBuilder *\<close> is
  \<open>None\<close>. The struct layout (\<^verbatim>\<open>StructType::get_element_offset\<close>) and the field contents behind
  \<^verbatim>\<open>read_int\<close> are functions of the records, fixed by whoever builds them.
\<close>

section \<open>Program, launch context, memory\<close>

datatype snode_type = Root | Dense | Pointer | Dynamic | Bitmasked | Place | OtherSNode

record snode =
  sd_id :: int
  sd_type :: snode_type
  sd_is_path_all_dense :: bool
  sd_is_bit_level :: bool
  sd_num_active_indices :: int
  sd_shape_along_axis :: "nat \<Rightarrow> int"
  sd_dt :: int
  sd_ancestors :: "(snode_type \<times> nat) list"

text \<open>
  \<^verbatim>\<open>sd_ancestors\<close> is the parent chain from the direct parent to the root, each with its type
  and number of children. Generation counters are unbounded here: \<open>2 ^ 64\<close> bumps of one
  counter are out of reach.
\<close>

record program =
  pg_get_snode_by_id :: "int \<Rightarrow> snode option"
  pg_read_int :: "int \<Rightarrow> int list \<Rightarrow> int"
  pg_arch_is_cpu :: bool
  pg_snode_write_gen :: "int \<Rightarrow> nat"
  pg_ndarray_data_gen :: "int \<Rightarrow> nat"

datatype dev_alloc_type = AllocNone | AllocNdarray

record launch_ctx =
  lc_array_ptrs :: "int \<Rightarrow> int \<Rightarrow> int option"
  lc_arg_buffer :: int
  lc_arg_buffer_size :: int
  lc_args_type :: "(int list \<Rightarrow> int) option"
  lc_device_allocation_type :: "int \<Rightarrow> dev_alloc_type option"

record env =
  en_prog :: "program option"
  en_ctx :: "launch_ctx option"
  en_mem :: memory

text \<open>\<^verbatim>\<open>TypeFactory::SHAPE_POS_IN_NDARRAY\<close> and \<^verbatim>\<open>DATA_PTR_POS_IN_NDARRAY\<close>.\<close>

definition shape_pos :: int where
  "shape_pos = 0"

definition data_ptr_pos :: int where
  "data_ptr_pos = 1"

text \<open>\<^verbatim>\<open>LaunchContextBuilder::get_struct_arg_host<int32_t>\<close>.\<close>

definition get_struct_arg_host_i32 :: "memory \<Rightarrow> launch_ctx \<Rightarrow> int list \<Rightarrow> int result" where
  "get_struct_arg_host_i32 m ctx arg_indices =
     (case lc_args_type ctx of
        None \<Rightarrow> Inl NoArgsType
      | Some get_element_offset \<Rightarrow>
          (let offset = get_element_offset arg_indices in
           guardE (offset + 4 \<le> lc_arg_buffer_size ctx) ArgBufferOverrun
             (Inr (sign_extend 4 (load_uint m (lc_arg_buffer ctx + offset) 4)))))"

text \<open>The shape slot of an ndarray argument, read the way every evaluator reads it.\<close>

definition shape_at :: "memory \<Rightarrow> launch_ctx \<Rightarrow> int list \<Rightarrow> int \<Rightarrow> int result" where
  "shape_at m ctx arg_id_path axis =
     get_struct_arg_host_i32 m ctx (arg_id_path @ [shape_pos, axis])"

definition data_ptr_of :: "launch_ctx \<Rightarrow> int \<Rightarrow> int option" where
  "data_ptr_of ctx arg_id = lc_array_ptrs ctx arg_id data_ptr_pos"

lemma fits32_shape_at: "shape_at m ctx p ax = Inr v \<Longrightarrow> fits32 v"
  using sign_extend_bounds [of 4]
  by (auto simp: shape_at_def get_struct_arg_host_i32_def fits32_def Let_def result_simps
      split: option.splits)

section \<open>Read observations\<close>

text \<open>
  One input read during an evaluation (\<^verbatim>\<open>AdStackCache::SizeExprReadObservation\<close>). Fields
  the source leaves unset are zero or empty here; nothing reads them.
\<close>

datatype obs_kind = FieldLoadObs | ExternalShapeObs | ExternalReadObs

record read_obs =
  ob_kind :: obs_kind
  ob_snode_id :: int
  ob_indices :: "int list"
  ob_arg_id_path :: "int list"
  ob_arg_shape_axis :: int
  ob_prim_dt :: int
  ob_observed_value :: int
  ob_observed_gen :: nat
  ob_observed_devalloc :: int

definition field_load_obs :: "int \<Rightarrow> int list \<Rightarrow> nat \<Rightarrow> read_obs" where
  "field_load_obs s is g = \<lparr>ob_kind = FieldLoadObs, ob_snode_id = s, ob_indices = is,
     ob_arg_id_path = [], ob_arg_shape_axis = 0, ob_prim_dt = 0, ob_observed_value = 0,
     ob_observed_gen = g, ob_observed_devalloc = 0\<rparr>"

definition external_read_obs :: "int list \<Rightarrow> int list \<Rightarrow> int \<Rightarrow> int \<Rightarrow> nat \<Rightarrow> read_obs" where
  "external_read_obs p is dt ptr g = \<lparr>ob_kind = ExternalReadObs, ob_snode_id = 0,
     ob_indices = is, ob_arg_id_path = p, ob_arg_shape_axis = 0, ob_prim_dt = dt,
     ob_observed_value = 0, ob_observed_gen = g, ob_observed_devalloc = ptr\<rparr>"

definition external_shape_obs :: "int list \<Rightarrow> int \<Rightarrow> int \<Rightarrow> read_obs" where
  "external_shape_obs p ax v = \<lparr>ob_kind = ExternalShapeObs, ob_snode_id = 0, ob_indices = [],
     ob_arg_id_path = p, ob_arg_shape_axis = ax, ob_prim_dt = 0, ob_observed_value = v,
     ob_observed_gen = 0, ob_observed_devalloc = 0\<rparr>"

text \<open>The generation a read snapshots, \<open>0\<close> with no program at hand.\<close>

definition data_gen_of :: "program option \<Rightarrow> int \<Rightarrow> nat" where
  "data_gen_of prog ptr = (case prog of None \<Rightarrow> 0 | Some p \<Rightarrow> pg_ndarray_data_gen p ptr)"

definition snode_gen_of :: "program option \<Rightarrow> int \<Rightarrow> nat" where
  "snode_gen_of prog s = (case prog of None \<Rightarrow> 0 | Some p \<Rightarrow> pg_snode_write_gen p s)"

end
