(* ===== verification/HostEval.thy ===== *)
theory HostEval
  imports Launch
begin

text \<open>
  The host evaluator of size expressions (\<^verbatim>\<open>program/adstack/eval.cpp\<close>): the leaf readers, the
  per-launch read cache, the structural enumeration of read observations and the recursive
  \<^verbatim>\<open>evaluate_node\<close>. The bound-variable map, the thread-local read cache and the observation
  sink are mutated by the source while it walks the tree; here they are threaded as one state.
  A compositional meaning \<open>size_value\<close> of a tree is given first, and the evaluator is shown to
  compute it on every vector that represents the tree.
\<close>

section \<open>The evaluator\<close>

type_synonym bound_vars = "int \<Rightarrow> int option"
type_synonym read_cache = "int \<times> int list \<Rightarrow> int option"

text \<open>
  \<open>es_cache = None\<close> is a null \<^verbatim>\<open>t_launch_read_cache\<close>; \<open>es_reads = None\<close> a null
  \<^verbatim>\<open>ReadSink *\<close>.
\<close>

record eval_state =
  es_bound :: bound_vars
  es_cache :: "read_cache option"
  es_reads :: "read_obs list option"

definition push_obs :: "read_obs \<Rightarrow> eval_state \<Rightarrow> eval_state" where
  "push_obs obs st = st\<lparr>es_reads := map_option (\<lambda>r. r @ [obs]) (es_reads st)\<rparr>"

definition read_field_with_launch_cache ::
  "int \<Rightarrow> int list \<Rightarrow> program \<Rightarrow> eval_state \<Rightarrow> int \<times> eval_state" where
  "read_field_with_launch_cache snode_id indices prog st =
     (case pg_get_snode_by_id prog snode_id of
        None \<Rightarrow> (- (2 ^ 63), st)
      | Some snode \<Rightarrow>
          (case es_cache st of
             None \<Rightarrow> (pg_read_int prog snode_id indices, st)
           | Some m \<Rightarrow>
               (case m (snode_id, indices) of
                  Some v \<Rightarrow> (v, st)
                | None \<Rightarrow>
                    (let v = pg_read_int prog snode_id indices in
                     (v, st\<lparr>es_cache := Some (m((snode_id, indices) \<mapsto> v))\<rparr>)))))"

text \<open>
  Index entries: a non-negative one is a constant, \<open>-(var_id + 1)\<close> names a bound variable.
  A field index is narrowed to \<^verbatim>\<open>int\<close>, an ndarray index is kept at 64 bits.
\<close>

definition resolve_index :: "bound_vars \<Rightarrow> int \<Rightarrow> int result" where
  "resolve_index bv raw =
     (if 0 \<le> raw then Inr raw
      else case bv (- (raw + 1)) of None \<Rightarrow> Inl (UnboundVar (- (raw + 1))) | Some v \<Rightarrow> Inr v)"

definition resolve_index32 :: "bound_vars \<Rightarrow> int \<Rightarrow> int result" where
  "resolve_index32 bv raw =
     (if 0 \<le> raw then Inr raw
      else case bv (- (raw + 1)) of
             None \<Rightarrow> Inl (UnboundVar (- (raw + 1))) | Some v \<Rightarrow> Inr (wrap32 v))"

definition evaluate_field_load :: "ser_node \<Rightarrow> env \<Rightarrow> eval_state \<Rightarrow> (int \<times> eval_state) result" where
  "evaluate_field_load node e st =
     guardE (0 \<le> sn_snode_id node) NoSnodeId
      (case en_prog e of
         None \<Rightarrow> Inl NullProgram
       | Some prog \<Rightarrow>
           guardE (pg_get_snode_by_id prog (sn_snode_id node) \<noteq> None)
                  (SnodeNotFound (sn_snode_id node))
             (bindE (mapE (resolve_index32 (es_bound st)) (sn_indices node)) (\<lambda>indices.
                let (v, st') = read_field_with_launch_cache (sn_snode_id node) indices prog st
                in Inr (v, push_obs (field_load_obs (sn_snode_id node) indices
                             (pg_snode_write_gen prog (sn_snode_id node))) st'))))"

text \<open>
  The C-order linear offset, accumulated from the last axis to the first; the shape of axis 0
  is never read.
\<close>

fun linear_loop :: "(nat \<Rightarrow> int result) \<Rightarrow> int list \<Rightarrow> nat \<Rightarrow> int \<Rightarrow> int \<Rightarrow> int result" where
  "linear_loop shape resolved 0 linear stride = Inr linear"
| "linear_loop shape resolved (Suc k) linear stride =
     (let linear' = wrap64 (linear + wrap64 (resolved ! k * stride)) in
      if 0 < k
      then bindE (shape k) (\<lambda>sh. linear_loop shape resolved k linear' (wrap64 (stride * sh)))
      else Inr linear')"

definition load_element :: "memory \<Rightarrow> int \<Rightarrow> int \<Rightarrow> int \<Rightarrow> int result" where
  "load_element m data_ptr linear dt =
     (case prim_of_id (wrap32 dt) of
        None \<Rightarrow> Inl (UnsupportedElementType dt)
      | Some ty \<Rightarrow> Inr (load_elem m data_ptr linear ty))"

definition evaluate_external_tensor_read ::
  "ser_node \<Rightarrow> env \<Rightarrow> eval_state \<Rightarrow> (int \<times> eval_state) result" where
  "evaluate_external_tensor_read node e st =
     (case en_ctx e of
        None \<Rightarrow> Inl NoLaunchContext
      | Some ctx \<Rightarrow>
          (case sn_arg_id_path node of
             [] \<Rightarrow> Inl EmptyArgPath
           | arg_id # _ \<Rightarrow>
               (case data_ptr_of ctx arg_id of
                  None \<Rightarrow> Inl (NoDataPointer arg_id)
                | Some data_ptr \<Rightarrow>
                    bindE (mapE (resolve_index (es_bound st)) (sn_indices node)) (\<lambda>resolved.
                    bindE (linear_loop (\<lambda>k. shape_at (en_mem e) ctx (sn_arg_id_path node) (int k))
                             resolved (length (sn_indices node)) 0 1) (\<lambda>linear.
                    bindE (load_element (en_mem e) data_ptr linear (sn_const_value node)) (\<lambda>v.
                    Inr (v, push_obs (external_read_obs (sn_arg_id_path node) (map wrap32 resolved)
                               (wrap32 (sn_const_value node)) data_ptr
                               (data_gen_of (en_prog e) data_ptr)) st)))))))"

definition evaluate_external_tensor_shape ::
  "ser_node \<Rightarrow> env \<Rightarrow> eval_state \<Rightarrow> (int \<times> eval_state) result" where
  "evaluate_external_tensor_shape node e st =
     (case en_ctx e of
        None \<Rightarrow> Inl NoLaunchContext
      | Some ctx \<Rightarrow>
          bindE (shape_at (en_mem e) ctx (sn_arg_id_path node) (sn_arg_shape_axis node)) (\<lambda>v.
          Inr (v, push_obs (external_shape_obs (sn_arg_id_path node) (sn_arg_shape_axis node) v) st)))"

text \<open>
  One observation per static leaf of a subtree, whatever the evaluator would visit. The first
  argument is fuel: a well-formed vector's depth suffices.
\<close>

fun enumerate_static_observations ::
  "nat \<Rightarrow> ser_expr \<Rightarrow> int \<Rightarrow> env \<Rightarrow> eval_state \<Rightarrow> eval_state result" where
  "enumerate_static_observations 0 ns i e st = Inl Diverges"
| "enumerate_static_observations (Suc f) ns i e st =
     (if es_reads st = None then Inr st
      else guardE (in_range ns i) (NodeIdxOutOfBounds i)
       (let node = node_at ns i in
        case kind_of (sn_kind node) of
          Some KFieldLoad \<Rightarrow>
            Inr (push_obs (field_load_obs (sn_snode_id node) []
                   (snode_gen_of (en_prog e) (sn_snode_id node))) st)
        | Some KExternalTensorRead \<Rightarrow>
            (case en_ctx e of
               None \<Rightarrow> Inr st
             | Some ctx \<Rightarrow>
                 (case sn_arg_id_path node of
                    [] \<Rightarrow> Inr st
                  | arg_id # _ \<Rightarrow>
                      (case data_ptr_of ctx arg_id of
                         None \<Rightarrow> Inr st
                       | Some ptr \<Rightarrow>
                           Inr (push_obs (external_read_obs (sn_arg_id_path node) []
                                  (wrap32 (sn_const_value node)) ptr
                                  (data_gen_of (en_prog e) ptr)) st))))
        | Some KExternalTensorShape \<Rightarrow>
            bindE (evaluate_external_tensor_shape node e st) (\<lambda>(_, st'). Inr st')
        | Some KMaxOverRange \<Rightarrow>
            bindE (enumerate_static_observations f ns (sn_operand_a node) e st) (\<lambda>st1.
            bindE (enumerate_static_observations f ns (sn_operand_b node) e st1) (\<lambda>st2.
            enumerate_static_observations f ns (sn_body_node_idx node) e st2))
        | Some KConst \<Rightarrow> Inr st
        | Some KBoundVariable \<Rightarrow> Inr st
        | Some _ \<Rightarrow>
            bindE (enumerate_static_observations f ns (sn_operand_a node) e st) (\<lambda>st1.
            enumerate_static_observations f ns (sn_operand_b node) e st1)
        | None \<Rightarrow> Inr st))"

text \<open>The \<^verbatim>\<open>for (i = begin; i < end; ++i)\<close> loop of the range maximum, \<open>n\<close> iterations left.\<close>

fun mor_loop ::
  "(int \<Rightarrow> 's \<Rightarrow> (int \<times> 's) result) \<Rightarrow> nat \<Rightarrow> int \<Rightarrow> int \<Rightarrow> 's \<Rightarrow> (int \<times> 's) result" where
  "mor_loop body 0 i res st = Inr (res, st)"
| "mor_loop body (Suc n) i res st =
     bindE (body i st) (\<lambda>(v, st'). mor_loop body n (i + 1) (if res < v then v else res) st')"

definition binary_value :: "size_kind \<Rightarrow> int \<Rightarrow> int \<Rightarrow> int" where
  "binary_value k a b =
     (case k of
        KAdd \<Rightarrow> wrap64 (a + b)
      | KSub \<Rightarrow> max (wrap64 (a - b)) 0
      | KMul \<Rightarrow> wrap64 (a * b)
      | _ \<Rightarrow> max a b)"

definition max_over_range_iterations :: "env \<Rightarrow> int" where
  "max_over_range_iterations e =
     (if (case en_prog e of None \<Rightarrow> False | Some p \<Rightarrow> pg_arch_is_cpu p) then 2 ^ 32 - 1 else 2 ^ 24)"

fun evaluate_node :: "nat \<Rightarrow> ser_expr \<Rightarrow> int \<Rightarrow> env \<Rightarrow> eval_state \<Rightarrow> (int \<times> eval_state) result" where
  "evaluate_node 0 ns i e st = Inl Diverges"
| "evaluate_node (Suc f) ns i e st =
     guardE (in_range ns i) (NodeIdxOutOfBounds i)
      (let node = node_at ns i in
       case kind_of (sn_kind node) of
         Some KConst \<Rightarrow> Inr (sn_const_value node, st)
       | Some KFieldLoad \<Rightarrow> evaluate_field_load node e st
       | Some KMaxOverRange \<Rightarrow>
           bindE (evaluate_node f ns (sn_operand_a node) e st) (\<lambda>(begin, st1).
           bindE (evaluate_node f ns (sn_operand_b node) e st1) (\<lambda>(end, st2).
           guardE (\<not> (begin < end \<and> max_over_range_iterations e < wrap64 (end - begin)))
                  (IterationGuard (wrap64 (end - begin)))
            (let prev = es_bound st2 (sn_var_id node) in
             bindE (enumerate_static_observations f ns (sn_body_node_idx node) e st2) (\<lambda>st3.
             bindE (mor_loop (\<lambda>i s. evaluate_node f ns (sn_body_node_idx node) e
                                (s\<lparr>es_bound := (es_bound s)(sn_var_id node \<mapsto> i)\<rparr>))
                      (nat (end - begin)) begin 0 (st3\<lparr>es_reads := None\<rparr>)) (\<lambda>(res, st4).
             Inr (res, st4\<lparr>es_bound := (es_bound st4)(sn_var_id node := prev),
                           es_reads := es_reads st3\<rparr>))))))
       | Some KBoundVariable \<Rightarrow>
           (case es_bound st (sn_var_id node) of
              None \<Rightarrow> Inl (UnboundVar (sn_var_id node)) | Some v \<Rightarrow> Inr (v, st))
       | Some KExternalTensorShape \<Rightarrow> evaluate_external_tensor_shape node e st
       | Some KExternalTensorRead \<Rightarrow> evaluate_external_tensor_read node e st
       | Some k \<Rightarrow>
           bindE (evaluate_node f ns (sn_operand_a node) e st) (\<lambda>(a, st1).
           bindE (evaluate_node f ns (sn_operand_b node) e st1) (\<lambda>(b, st2).
           Inr (binary_value k a b, st2)))
       | None \<Rightarrow> Inl (UnreachableKind (sn_kind node)))"

text \<open>
  The public entry points. \<^verbatim>\<open>SizeExprLaunchScope\<close> opens an empty read cache unless an
  enclosing scope is active and drops the one it opened on the way out, so the caller's cache
  (the first component of the result) is \<open>None\<close> again exactly when it was before.
\<close>

definition launch_scope_enter :: "read_cache option \<Rightarrow> read_cache option" where
  "launch_scope_enter c = (case c of None \<Rightarrow> Some Map.empty | Some m \<Rightarrow> Some m)"

definition launch_scope_leave :: "read_cache option \<Rightarrow> read_cache option \<Rightarrow> read_cache option" where
  "launch_scope_leave outer c = (case outer of None \<Rightarrow> None | Some _ \<Rightarrow> c)"

text \<open>A recursion over a vector of well-formed nodes descends at most once per node.\<close>

definition eval_fuel :: "ser_expr \<Rightarrow> nat" where
  "eval_fuel ns = Suc (length ns)"

definition evaluate_root ::
  "ser_expr \<Rightarrow> int \<Rightarrow> env \<Rightarrow> read_cache option \<Rightarrow> read_obs list option \<Rightarrow>
   (int \<times> read_cache option \<times> read_obs list option) result" where
  "evaluate_root ns i e outer reads =
     bindE (evaluate_node (eval_fuel ns) ns i e
              \<lparr>es_bound = Map.empty, es_cache = launch_scope_enter outer, es_reads = reads\<rparr>)
       (\<lambda>(v, st). Inr (v, launch_scope_leave outer (es_cache st), es_reads st))"

definition evaluate_adstack_size_expr_no_cache ::
  "ser_expr \<Rightarrow> env \<Rightarrow> read_cache option \<Rightarrow> (int \<times> read_cache option) result" where
  "evaluate_adstack_size_expr_no_cache ns e outer =
     (if ns = [] then Inr (-1, outer)
      else bindE (evaluate_root ns (int (length ns) - 1) e outer (Some []))
             (\<lambda>(v, c, _). Inr (v, c)))"

definition evaluate_adstack_size_expr_at_node ::
  "ser_expr \<Rightarrow> int \<Rightarrow> env \<Rightarrow> read_cache option \<Rightarrow> (int \<times> read_cache option) result" where
  "evaluate_adstack_size_expr_at_node ns i e outer =
     (if \<not> in_range ns i then Inr (-1, outer)
      else bindE (evaluate_root ns i e outer None) (\<lambda>(v, c, _). Inr (v, c)))"

section \<open>The meaning of a size expression\<close>

text \<open>
  \<open>row_major is shs\<close> is the C-order offset of the index vector \<open>is\<close>, with \<open>shs\<close> the extents
  of every axis but the first.
\<close>

fun row_major :: "int list \<Rightarrow> int list \<Rightarrow> int" where
  "row_major [] shs = 0"
| "row_major (i # is) shs = foldl (\<lambda>acc (sh, j). acc * sh + j) i (zip shs is)"

definition field_value :: "env \<Rightarrow> bound_vars \<Rightarrow> int \<Rightarrow> int list \<Rightarrow> int result" where
  "field_value e bv s is =
     guardE (0 \<le> s) NoSnodeId
      (case en_prog e of
         None \<Rightarrow> Inl NullProgram
       | Some prog \<Rightarrow>
           guardE (pg_get_snode_by_id prog s \<noteq> None) (SnodeNotFound s)
             (bindE (mapE (resolve_index32 bv) is) (\<lambda>ix. Inr (pg_read_int prog s ix))))"

definition external_read_value ::
  "env \<Rightarrow> bound_vars \<Rightarrow> int list \<Rightarrow> int list \<Rightarrow> int \<Rightarrow> int result" where
  "external_read_value e bv p is dt =
     (case en_ctx e of
        None \<Rightarrow> Inl NoLaunchContext
      | Some ctx \<Rightarrow>
          (case p of
             [] \<Rightarrow> Inl EmptyArgPath
           | arg_id # _ \<Rightarrow>
               (case data_ptr_of ctx arg_id of
                  None \<Rightarrow> Inl (NoDataPointer arg_id)
                | Some ptr \<Rightarrow>
                    bindE (mapE (resolve_index bv) is) (\<lambda>ix.
                    bindE (mapE (\<lambda>k. shape_at (en_mem e) ctx p (int k)) (rev [1..<length is]))
                      (\<lambda>rshs. load_element (en_mem e) ptr (wrap64 (row_major ix (rev rshs))) dt)))))"

definition external_shape_value :: "env \<Rightarrow> int list \<Rightarrow> int \<Rightarrow> int result" where
  "external_shape_value e p ax =
     (case en_ctx e of None \<Rightarrow> Inl NoLaunchContext | Some ctx \<Rightarrow> shape_at (en_mem e) ctx p ax)"

text \<open>
  The value of a tree under a valuation of its free variables: a range maximum is the largest
  body value over the range, floored at 0, and is refused above the iteration cap.
\<close>

fun size_value :: "env \<Rightarrow> size_expr \<Rightarrow> bound_vars \<Rightarrow> int result" where
  "size_value e (Const c) bv = Inr c"
| "size_value e (FieldLoad s is) bv = field_value e bv s is"
| "size_value e (Binary f a b) bv =
     bindE (size_value e a bv) (\<lambda>x. bindE (size_value e b bv) (\<lambda>y.
       Inr (binary_value (bin_kind f) x y)))"
| "size_value e (MaxOverRange v a b c) bv =
     bindE (size_value e a bv) (\<lambda>lo. bindE (size_value e b bv) (\<lambda>hi.
       guardE (\<not> (lo < hi \<and> max_over_range_iterations e < wrap64 (hi - lo)))
              (IterationGuard (wrap64 (hi - lo)))
        (bindE (mapE (\<lambda>i. size_value e c (bv(v \<mapsto> i))) [lo..hi - 1])
          (\<lambda>vs. Inr (Max (insert 0 (set vs)))))))"
| "size_value e (BoundVariable v) bv =
     (case bv v of None \<Rightarrow> Inl (UnboundVar v) | Some x \<Rightarrow> Inr x)"
| "size_value e (ExternalTensorShape p ax) bv = external_shape_value e p ax"
| "size_value e (ExternalTensorRead p is dt) bv = external_read_value e bv p is dt"

text \<open>
  A tree is readable when its launch binds every ndarray it names: each shape slot can be
  read and each read argument has a data pointer.
\<close>

fun readable :: "env \<Rightarrow> size_expr \<Rightarrow> bool" where
  "readable e (Binary f a b) \<longleftrightarrow> readable e a \<and> readable e b"
| "readable e (MaxOverRange v a b c) \<longleftrightarrow> readable e a \<and> readable e b \<and> readable e c"
| "readable e (ExternalTensorShape p ax) \<longleftrightarrow>
     (case external_shape_value e p ax of Inl _ \<Rightarrow> False | Inr _ \<Rightarrow> True)"
| "readable e (ExternalTensorRead p is dt) \<longleftrightarrow>
     (case en_ctx e of None \<Rightarrow> False
      | Some ctx \<Rightarrow> (case p of [] \<Rightarrow> False | a # _ \<Rightarrow> data_ptr_of ctx a \<noteq> None))"
| "readable e t \<longleftrightarrow> True"

text \<open>
  \<open>covers e os t\<close>: the observations \<open>os\<close> snapshot every buffer and every shape slot that the
  value of \<open>t\<close> can depend on, as they are in \<open>e\<close>.
\<close>

definition field_covered :: "env \<Rightarrow> read_obs list \<Rightarrow> int \<Rightarrow> bool" where
  "field_covered e os s \<longleftrightarrow>
     list_ex (\<lambda>ob. ob_kind ob = FieldLoadObs \<and> ob_snode_id ob = s \<and>
       ob_observed_gen ob = snode_gen_of (en_prog e) s) os"

definition read_covered :: "env \<Rightarrow> read_obs list \<Rightarrow> int list \<Rightarrow> bool" where
  "read_covered e os p \<longleftrightarrow>
     (case (en_ctx e, p) of
        (Some ctx, a # _) \<Rightarrow>
          list_ex (\<lambda>ob. ob_kind ob = ExternalReadObs \<and> ob_arg_id_path ob = p \<and>
            data_ptr_of ctx a = Some (ob_observed_devalloc ob) \<and>
            ob_observed_gen ob = data_gen_of (en_prog e) (ob_observed_devalloc ob)) os
      | _ \<Rightarrow> False)"

definition shape_covered :: "env \<Rightarrow> read_obs list \<Rightarrow> int list \<Rightarrow> int \<Rightarrow> bool" where
  "shape_covered e os p ax \<longleftrightarrow>
     list_ex (\<lambda>ob. ob_kind ob = ExternalShapeObs \<and> ob_arg_id_path ob = p \<and>
       ob_arg_shape_axis ob = ax \<and> external_shape_value e p ax = Inr (ob_observed_value ob)) os"

fun covers :: "env \<Rightarrow> read_obs list \<Rightarrow> size_expr \<Rightarrow> bool" where
  "covers e os (Binary f a b) \<longleftrightarrow> covers e os a \<and> covers e os b"
| "covers e os (MaxOverRange v a b c) \<longleftrightarrow> covers e os a \<and> covers e os b \<and> covers e os c"
| "covers e os (FieldLoad s is) \<longleftrightarrow> field_covered e os s"
| "covers e os (ExternalTensorShape p ax) \<longleftrightarrow> shape_covered e os p ax"
| "covers e os (ExternalTensorRead p is dt) \<longleftrightarrow> read_covered e os p"
| "covers e os t \<longleftrightarrow> True"

text \<open>
  \<open>recorded e os ts\<close>: besides covering the trees, the shape observations of \<open>os\<close> are all of
  shape leaves of \<open>ts\<close>, so replaying them reads nothing a launch of the trees would not read.
\<close>

fun shape_leaves :: "size_expr \<Rightarrow> (int list \<times> int) set" where
  "shape_leaves (Binary f a b) = shape_leaves a \<union> shape_leaves b"
| "shape_leaves (MaxOverRange v a b c) = shape_leaves a \<union> shape_leaves b \<union> shape_leaves c"
| "shape_leaves (ExternalTensorShape p ax) = {(p, ax)}"
| "shape_leaves t = {}"

definition obs_within :: "size_expr list \<Rightarrow> read_obs \<Rightarrow> bool" where
  "obs_within ts ob \<longleftrightarrow> ob_kind ob = ExternalShapeObs \<longrightarrow>
     (ob_arg_id_path ob, ob_arg_shape_axis ob) \<in> \<Union> (shape_leaves ` set ts)"

definition recorded :: "env \<Rightarrow> read_obs list \<Rightarrow> size_expr list \<Rightarrow> bool" where
  "recorded e os ts \<longleftrightarrow> list_all (covers e os) ts \<and> list_all (obs_within ts) os"

text \<open>The launch read cache only ever holds what a direct read would return.\<close>

definition cache_ok :: "env \<Rightarrow> read_cache option \<Rightarrow> bool" where
  "cache_ok e c \<longleftrightarrow>
     (\<forall>m s is v. c = Some m \<longrightarrow> m (s, is) = Some v \<longrightarrow>
        (\<exists>p. en_prog e = Some p \<and> v = pg_read_int p s is))"

definition eval_post :: "env \<Rightarrow> size_expr list \<Rightarrow> eval_state \<Rightarrow> eval_state \<Rightarrow> bool" where
  "eval_post e ts st st' \<longleftrightarrow>
     es_bound st' = es_bound st \<and> cache_ok e (es_cache st') \<and>
     (es_cache st' = None \<longleftrightarrow> es_cache st = None) \<and>
     (\<exists>os. es_reads st' = map_option (\<lambda>r. r @ os) (es_reads st) \<and>
        (es_reads st \<noteq> None \<longrightarrow> recorded e os ts))"

section \<open>Leaf readers\<close>

lemma row_major_snoc:
  assumes "length is = Suc (length shs)"
  shows "row_major (is @ [i]) (shs @ [sh]) = row_major is shs * sh + i"
  using assms by (cases "is") simp_all

lemma row_major_take_Suc:
  assumes "Suc k < length ix" "length shs = k"
  shows "row_major (take (Suc (Suc k)) ix) (shs @ [sh]) =
     row_major (take (Suc k) ix) shs * sh + ix ! Suc k"
proof -
  have "take (Suc (Suc k)) ix = take (Suc k) ix @ [ix ! Suc k]"
    using assms by (simp add: take_Suc_conv_app_nth)
  then show ?thesis
    using row_major_snoc [of "take (Suc k) ix" shs "ix ! Suc k" sh] assms by simp
qed

lemma linear_loop_correct:
  "k < length ix \<Longrightarrow> linear_loop shape ix (Suc k) lin stride =
     bindE (mapE shape (rev [1..<Suc k]))
       (\<lambda>rshs. Inr (wrap64 (lin + stride * row_major (take (Suc k) ix) (rev rshs))))"
proof (induction k arbitrary: lin stride)
  case 0
  then show ?case by (cases ix) (simp_all add: mult.commute)
next
  case (Suc k)
  have step: "linear_loop shape ix (Suc (Suc k)) lin stride =
      bindE (shape (Suc k)) (\<lambda>sh. linear_loop shape ix (Suc k)
        (wrap64 (lin + ix ! Suc k * stride)) (wrap64 (stride * sh)))"
    by simp
  have eq: "wrap64 (lin + ix ! Suc k * stride + wrap64 (stride * sh) * r) =
      wrap64 (lin + stride * (r * sh + ix ! Suc k))" for sh r
    by (metis (no_types, opaque_lifting) wrap64_add_left wrap64_add_right wrap64_mult_left
        add.assoc add.commute distrib_left mult.assoc mult.commute)
  define R where "R = mapE shape (rev [1..<Suc k])"
  have rest: "linear_loop shape ix (Suc k) l s =
      bindE R (\<lambda>rshs. Inr (wrap64 (l + s * row_major (take (Suc k) ix) (rev rshs))))" for l s
    using Suc.IH [of l s] Suc.prems by (simp only: R_def)
  have whole: "mapE shape (rev [1..<Suc (Suc k)]) =
      bindE (shape (Suc k)) (\<lambda>y. bindE R (\<lambda>ys. Inr (y # ys)))"
    by (simp add: R_def)
  have len: "R = Inr rshs \<Longrightarrow> length (rev rshs) = k" for rshs
    using mapE_length [of shape "rev [1..<Suc k]"] by (simp add: R_def)
  show ?case
    unfolding step rest whole
    using Suc.prems len row_major_take_Suc [of k ix]
    by (cases "shape (Suc k)"; cases R) (auto simp: eq)
qed

lemma linear_loop_row_major:
  assumes "length ix = n"
  shows "linear_loop shape ix n 0 1 =
     bindE (mapE shape (rev [1..<n])) (\<lambda>rshs. Inr (wrap64 (row_major ix (rev rshs))))"
proof (cases n)
  case 0
  then show ?thesis using assms by (simp add: fits64_def)
next
  case (Suc k)
  then show ?thesis using linear_loop_correct [of k ix shape 0 1] assms by simp
qed

lemma covers_append: "covers e os t \<Longrightarrow> covers e (xs @ os @ ys) t"
  by (induction t)
    (auto simp: field_covered_def read_covered_def shape_covered_def
      split: option.splits list.splits)

lemma covers_append1: "covers e os t \<Longrightarrow> covers e (os @ ys) t"
  using covers_append [of e os t "[]" ys] by simp

lemma covers_append2: "covers e os t \<Longrightarrow> covers e (xs @ os) t"
  using covers_append [of e os t xs "[]"] by simp

lemma recorded_append:
  assumes "recorded e o1 ts" "recorded e o2 us"
  shows "recorded e (o1 @ o2) (ts @ us)"
  using assms
  by (auto simp: recorded_def list_all_iff obs_within_def covers_append1 covers_append2)

lemma recorded_node:
  "recorded e os [a, b] \<Longrightarrow> recorded e os [Binary g a b]"
  "recorded e os [a, b, c] \<Longrightarrow> recorded e os [MaxOverRange v a b c]"
  by (auto simp: recorded_def list_all_iff obs_within_def)

lemma recorded_Nil [simp]: "recorded e [] [t] \<longleftrightarrow> covers e [] t"
  by (simp add: recorded_def)

lemma evaluate_field_load_correct:
  assumes "cache_ok e (es_cache st)"
    and "sn_snode_id node = s" "sn_indices node = is"
  shows "computes (eval_post e [FieldLoad s is] st) (evaluate_field_load node e st)
           (field_value e (es_bound st) s is)"
proof (cases "en_prog e")
  case None
  then show ?thesis using assms by (simp add: evaluate_field_load_def field_value_def guardE_def)
next
  case (Some prog)
  have read: "\<exists>c. read_field_with_launch_cache s ix prog st =
        (pg_read_int prog s ix, st\<lparr>es_cache := c\<rparr>) \<and> cache_ok e c \<and>
        (c = None \<longleftrightarrow> es_cache st = None)"
    if "pg_get_snode_by_id prog s \<noteq> None" for ix
  proof (cases "es_cache st")
    case None
    then show ?thesis using that
      by (auto simp: read_field_with_launch_cache_def cache_ok_def intro!: exI [of _ None])
  next
    case cache: (Some m)
    show ?thesis
    proof (cases "m (s, ix)")
      case None
      then show ?thesis using that assms(1) Some cache
        by (auto simp: read_field_with_launch_cache_def cache_ok_def Let_def split: if_splits
            intro!: exI [of _ "Some (m((s, ix) \<mapsto> pg_read_int prog s ix))"])
    next
      case hit: (Some v)
      then show ?thesis using that assms(1) Some cache
        by (auto simp: read_field_with_launch_cache_def cache_ok_def intro!: exI [of _ "Some m"])
    qed
  qed
  have post: "eval_post e [FieldLoad s is] st
      (push_obs (field_load_obs s ix (pg_snode_write_gen prog s)) (st\<lparr>es_cache := c\<rparr>))"
    if "cache_ok e c" "c = None \<longleftrightarrow> es_cache st = None" for ix c
    using that Some
    by (auto simp: eval_post_def recorded_def obs_within_def push_obs_def field_covered_def
        field_load_obs_def snode_gen_of_def
        intro!: exI [of _ "[field_load_obs s ix (pg_snode_write_gen prog s)]"])
  show ?thesis
  proof (cases "mapE (resolve_index32 (es_bound st)) is")
    case (Inl er)
    then show ?thesis using assms Some
      by (simp add: evaluate_field_load_def field_value_def guardE_def)
  next
    case (Inr ix)
    show ?thesis
    proof (cases "0 \<le> s \<and> pg_get_snode_by_id prog s \<noteq> None")
      case True
      then obtain c where "read_field_with_launch_cache s ix prog st =
          (pg_read_int prog s ix, st\<lparr>es_cache := c\<rparr>)" "cache_ok e c"
        "c = None \<longleftrightarrow> es_cache st = None"
        using read by blast
      then show ?thesis
        using True post assms Some Inr by (simp add: evaluate_field_load_def field_value_def)
    next
      case False
      then show ?thesis using assms Some
        by (auto simp: evaluate_field_load_def field_value_def guardE_def)
    qed
  qed
qed

lemma evaluate_external_tensor_shape_correct:
  assumes "cache_ok e (es_cache st)"
    and "sn_arg_id_path node = p" "sn_arg_shape_axis node = ax"
  shows "computes (eval_post e [ExternalTensorShape p ax] st)
           (evaluate_external_tensor_shape node e st) (external_shape_value e p ax)"
proof (cases "external_shape_value e p ax")
  case (Inl er)
  then show ?thesis using assms
    by (auto simp: evaluate_external_tensor_shape_def external_shape_value_def split: option.splits)
next
  case (Inr v)
  then show ?thesis using assms
    by (auto simp: evaluate_external_tensor_shape_def external_shape_value_def eval_post_def
        recorded_def obs_within_def
        push_obs_def shape_covered_def external_shape_obs_def split: option.splits
        intro!: exI [of _ "[external_shape_obs p ax v]"])
qed

lemma evaluate_external_tensor_read_correct:
  assumes "cache_ok e (es_cache st)"
    and "sn_arg_id_path node = p" "sn_indices node = is" "sn_const_value node = dt"
  shows "computes (eval_post e [ExternalTensorRead p is dt] st)
           (evaluate_external_tensor_read node e st) (external_read_value e (es_bound st) p is dt)"
proof -
  consider "en_ctx e = None" | "p = []" | ctx arg rest where "en_ctx e = Some ctx" "p = arg # rest"
      "data_ptr_of ctx arg = None"
    | ctx arg rest ptr where "en_ctx e = Some ctx" "p = arg # rest" "data_ptr_of ctx arg = Some ptr"
    by (cases "en_ctx e"; cases p) (auto, metis option.exhaust)
  then show ?thesis
  proof cases
    case (4 ctx arg rest ptr)
    define sh where "sh = (\<lambda>k. shape_at (en_mem e) ctx p (int k))"
    show ?thesis
    proof (cases "mapE (resolve_index (es_bound st)) is")
      case (Inl er)
      then show ?thesis using assms 4
        by (simp add: evaluate_external_tensor_read_def external_read_value_def)
    next
      case (Inr ix)
      then have len: "length ix = length is" by (rule mapE_length)
      define ob where "ob = external_read_obs p (map wrap32 ix) (wrap32 dt) ptr
        (data_gen_of (en_prog e) ptr)"
      have eval: "evaluate_external_tensor_read node e st =
          bindE (external_read_value e (es_bound st) p is dt) (\<lambda>v. Inr (v, push_obs ob st))"
        using assms 4 Inr linear_loop_row_major [OF len, of sh]
        by (cases "mapE sh (rev [1..<length is])")
          (simp_all add: evaluate_external_tensor_read_def external_read_value_def sh_def ob_def)
      have "eval_post e [ExternalTensorRead p is dt] st (push_obs ob st)"
        using assms(1) 4
        by (auto simp: eval_post_def recorded_def obs_within_def push_obs_def read_covered_def
            external_read_obs_def ob_def
            intro!: exI [of _ "[ob]"])
      then show ?thesis
        unfolding eval by (cases "external_read_value e (es_bound st) p is dt") simp_all
    qed
  qed (use assms in \<open>simp_all add: evaluate_external_tensor_read_def external_read_value_def
      split: option.split\<close>)
qed

section \<open>The evaluator computes the meaning\<close>

lemma enumerate_no_sink [simp]:
  "es_reads st = None \<Longrightarrow> enumerate_static_observations (Suc f) ns i e st = Inr st"
  by simp

lemma enumerate_static_observations_covers:
  "represents ns i t \<Longrightarrow> depth t < f \<Longrightarrow> es_reads st = Some r \<Longrightarrow> readable e t \<Longrightarrow>
     \<exists>os. enumerate_static_observations f ns i e st = Inr (st\<lparr>es_reads := Some (r @ os)\<rparr>) \<and>
       recorded e os [t]"
proof (induction t arbitrary: f i st r)
  case (Binary g a b)
  then obtain f' where f: "f = Suc f'" "depth a < f'" "depth b < f'" by (cases f) auto
  obtain o1 where o1: "recorded e o1 [a]" "enumerate_static_observations f' ns
      (sn_operand_a (node_at ns i)) e st = Inr (st\<lparr>es_reads := Some (r @ o1)\<rparr>)"
    using Binary.IH(1) [of _ f' st r] Binary.prems f by auto
  obtain o2 where o2: "recorded e o2 [b]" "enumerate_static_observations f' ns
      (sn_operand_b (node_at ns i)) e (st\<lparr>es_reads := Some (r @ o1)\<rparr>) =
      Inr (st\<lparr>es_reads := Some (r @ o1 @ o2)\<rparr>)"
    using Binary.IH(2) [of _ f' "st\<lparr>es_reads := Some (r @ o1)\<rparr>" "r @ o1"] Binary.prems f by auto
  have "recorded e (o1 @ o2) [Binary g a b]"
    using recorded_append [OF o1(1) o2(1)] by (simp add: recorded_node)
  then show ?case
    using Binary.prems f o1 o2
    by (cases g) (auto simp: Let_def intro!: exI [of _ "o1 @ o2"])
next
  case (MaxOverRange v a b c)
  then obtain f' where f: "f = Suc f'" "depth a < f'" "depth b < f'" "depth c < f'" by (cases f) auto
  obtain o1 where o1: "recorded e o1 [a]" "enumerate_static_observations f' ns
      (sn_operand_a (node_at ns i)) e st = Inr (st\<lparr>es_reads := Some (r @ o1)\<rparr>)"
    using MaxOverRange.IH(1) [of _ f' st r] MaxOverRange.prems f by auto
  obtain o2 where o2: "recorded e o2 [b]" "enumerate_static_observations f' ns
      (sn_operand_b (node_at ns i)) e (st\<lparr>es_reads := Some (r @ o1)\<rparr>) =
      Inr (st\<lparr>es_reads := Some (r @ o1 @ o2)\<rparr>)"
    using MaxOverRange.IH(2) [of _ f' "st\<lparr>es_reads := Some (r @ o1)\<rparr>" "r @ o1"]
      MaxOverRange.prems f by auto
  obtain o3 where o3: "recorded e o3 [c]" "enumerate_static_observations f' ns
      (sn_body_node_idx (node_at ns i)) e (st\<lparr>es_reads := Some (r @ o1 @ o2)\<rparr>) =
      Inr (st\<lparr>es_reads := Some (r @ o1 @ o2 @ o3)\<rparr>)"
    using MaxOverRange.IH(3) [of _ f' "st\<lparr>es_reads := Some (r @ o1 @ o2)\<rparr>" "r @ o1 @ o2"]
      MaxOverRange.prems f by auto
  have "recorded e (o1 @ o2 @ o3) [MaxOverRange v a b c]"
    using recorded_append [OF recorded_append [OF o1(1) o2(1)] o3(1)] by (simp add: recorded_node)
  then show ?case
    using MaxOverRange.prems f o1 o2 o3
    by (auto simp: Let_def intro!: exI [of _ "o1 @ o2 @ o3"])
next
  case (ExternalTensorShape p ax)
  then obtain f' where "f = Suc f'" by (cases f) auto
  with ExternalTensorShape show ?case
    by (cases "en_ctx e")
      (auto simp: Let_def recorded_def obs_within_def evaluate_external_tensor_shape_def external_shape_value_def push_obs_def
        shape_covered_def external_shape_obs_def split: sum.splits)
next
  case (FieldLoad s ix)
  then obtain f' where "f = Suc f'" by (cases f) auto
  with FieldLoad show ?case
    by (auto simp: Let_def recorded_def obs_within_def push_obs_def field_covered_def field_load_obs_def)
next
  case (ExternalTensorRead p ix dt)
  then obtain f' where "f = Suc f'" by (cases f) auto
  with ExternalTensorRead show ?case
    by (auto simp: Let_def recorded_def obs_within_def push_obs_def read_covered_def external_read_obs_def
        split: option.splits list.splits)
next
  case (Const c)
  then show ?case by (cases f) (auto simp: Let_def intro!: exI [of _ "[]"])
next
  case (BoundVariable v)
  then show ?case by (cases f) (auto simp: Let_def intro!: exI [of _ "[]"])
qed

text \<open>The range loop is the maximum over the list of body values.\<close>

lemma mor_loop_correct:
  assumes "\<And>i s. lo \<le> i \<Longrightarrow> i < lo + int n \<Longrightarrow> P s \<Longrightarrow> computes P (body i s) (val i)"
    and "P s"
  shows "computes P (mor_loop body n lo res s)
           (bindE (mapE val [lo..lo + int n - 1]) (\<lambda>vs. Inr (Max (insert res (set vs)))))"
  using assms
proof (induction n arbitrary: lo res s)
  case 0
  then show ?case by simp
next
  case (Suc n)
  have up: "[lo..lo + int (Suc n) - 1] = lo # [lo + 1..lo + 1 + int n - 1]"
    by (subst upto_rec1) simp_all
  have IH: "computes P (mor_loop body n (lo + 1) res' s')
      (bindE (mapE val [lo + 1..lo + 1 + int n - 1]) (\<lambda>vs. Inr (Max (insert res' (set vs)))))"
    if "P s'" for res' s'
    using that by (intro Suc.IH Suc.prems(1)) auto
  show ?case
  proof (cases "val lo")
    case (Inl er)
    then show ?thesis using Suc.prems(1) [of lo s] Suc.prems(2) up by simp
  next
    case (Inr v)
    then obtain s' where s': "body lo s = Inr (v, s')" "P s'"
      using Suc.prems(1) [of lo s] Suc.prems(2) by auto
    have "Max (insert (if res < v then v else res) A) = Max (insert res (insert v A))"
      if "finite A" for A :: "int set"
      using that by (cases "A = {}") (auto simp: max_def)
    then show ?thesis
      using IH [OF s'(2), of "if res < v then v else res"] s' Inr up
      by (cases "mapE val [lo + 1..lo + 1 + int n - 1]") (auto simp: insert_commute)
  qed
qed

lemma eval_post_refl:
  assumes "cache_ok e (es_cache st)" "covers e [] t"
  shows "eval_post e [t] st st"
  using assms by (cases "es_reads st") (auto simp: eval_post_def intro!: exI [of _ "[]"])

lemma eval_post_trans:
  assumes "eval_post e ts st st1" "eval_post e us st1 st2"
  shows "eval_post e (ts @ us) st st2"
proof -
  obtain o1 where o1: "es_reads st1 = map_option (\<lambda>r. r @ o1) (es_reads st)"
    "es_reads st \<noteq> None \<longrightarrow> recorded e o1 ts"
    using assms(1) by (auto simp: eval_post_def)
  obtain o2 where o2: "es_reads st2 = map_option (\<lambda>r. r @ o2) (es_reads st1)"
    "es_reads st1 \<noteq> None \<longrightarrow> recorded e o2 us"
    using assms(2) by (auto simp: eval_post_def)
  have "es_bound st2 = es_bound st" "cache_ok e (es_cache st2)"
    "es_cache st2 = None \<longleftrightarrow> es_cache st = None"
    using assms by (simp_all add: eval_post_def)
  with o1 o2 show ?thesis
    unfolding eval_post_def
    by (intro conjI exI [of _ "o1 @ o2"], simp_all add: option.map_comp comp_def)
      (auto intro: recorded_append)
qed

lemma eval_post_weaken:
  "eval_post e ts st st' \<Longrightarrow> (\<And>os. recorded e os ts \<Longrightarrow> recorded e os us) \<Longrightarrow>
     eval_post e us st st'"
  unfolding eval_post_def by blast

lemma eval_postD:
  assumes "eval_post e ts st st'"
  shows "es_bound st' = es_bound st" "cache_ok e (es_cache st')"
    "es_reads st' = None \<longleftrightarrow> es_reads st = None"
  using assms by (auto simp: eval_post_def)

lemma evaluate_two_correct:
  assumes "computes (eval_post e [a] st) (ev1 st) ra"
    and "\<And>st1. eval_post e [a] st st1 \<Longrightarrow> computes (eval_post e [b] st1) (ev2 st1) rb"
    and "\<And>x y st2. eval_post e [a, b] st st2 \<Longrightarrow> computes P (k x y st2) (rk x y)"
  shows "computes P (bindE (ev1 st) (\<lambda>(x, st1). bindE (ev2 st1) (\<lambda>(y, st2). k x y st2)))
           (bindE ra (\<lambda>x. bindE rb (\<lambda>y. rk x y)))"
proof (rule computes_bind [OF assms(1)])
  fix x st1 assume p1: "eval_post e [a] st st1"
  show "computes P (case (x, st1) of (x, st1) \<Rightarrow> bindE (ev2 st1) (\<lambda>(y, st2). k x y st2))
      (bindE rb (\<lambda>y. rk x y))"
    unfolding prod.case
  proof (rule computes_bind [OF assms(2) [OF p1]])
    fix y st2 assume "eval_post e [b] st1 st2"
    with p1 have "eval_post e [a, b] st st2" using eval_post_trans by fastforce
    then show "computes P (case (y, st2) of (y, st2) \<Rightarrow> k x y st2) (rk x y)"
      by (simp add: assms(3))
  qed
qed

text \<open>The range arm after its bounds are known: the body runs with no observation sink.\<close>

lemma evaluate_range_correct:
  assumes body: "\<And>s. cache_ok e (es_cache s) \<Longrightarrow> es_reads s = None \<Longrightarrow>
      computes (eval_post e [c] s) (ev s) (size_value e c (es_bound s))"
    and st: "cache_ok e (es_cache st)" "es_reads st = None"
  shows "computes (\<lambda>s. cache_ok e (es_cache s) \<and> (es_cache s = None \<longleftrightarrow> es_cache st = None) \<and>
            (\<forall>x. (es_bound s)(v := x) = (es_bound st)(v := x)))
     (mor_loop (\<lambda>i s. ev (s\<lparr>es_bound := (es_bound s)(v \<mapsto> i)\<rparr>)) (nat (hi - lo)) lo 0 st)
     (bindE (mapE (\<lambda>i. size_value e c ((es_bound st)(v \<mapsto> i))) [lo..hi - 1])
        (\<lambda>vs. Inr (Max (insert 0 (set vs)))))"
proof -
  let ?P = "\<lambda>s. cache_ok e (es_cache s) \<and> (es_cache s = None \<longleftrightarrow> es_cache st = None) \<and>
      es_reads s = None \<and> (\<forall>x. (es_bound s)(v := x) = (es_bound st)(v := x))"
  have "computes ?P (ev (s\<lparr>es_bound := (es_bound s)(v \<mapsto> i)\<rparr>))
      (size_value e c ((es_bound st)(v \<mapsto> i)))" if "?P s" for i s
    using that body [of "s\<lparr>es_bound := (es_bound s)(v \<mapsto> i)\<rparr>"]
    by (auto elim!: computes_mono simp: eval_post_def)
  then have "computes ?P
      (mor_loop (\<lambda>i s. ev (s\<lparr>es_bound := (es_bound s)(v \<mapsto> i)\<rparr>)) (nat (hi - lo)) lo 0 st)
      (bindE (mapE (\<lambda>i. size_value e c ((es_bound st)(v \<mapsto> i))) [lo..lo + int (nat (hi - lo)) - 1])
        (\<lambda>vs. Inr (Max (insert 0 (set vs)))))"
    using st by (intro mor_loop_correct) auto
  moreover have "[lo..lo + int (nat (hi - lo)) - 1] = [lo..hi - 1]"
    by (cases "lo \<le> hi") simp_all
  ultimately show ?thesis by (auto elim: computes_mono)
qed

definition evaluate_range ::
  "nat \<Rightarrow> ser_expr \<Rightarrow> int \<Rightarrow> int \<Rightarrow> env \<Rightarrow> int \<Rightarrow> int \<Rightarrow> eval_state \<Rightarrow> (int \<times> eval_state) result" where
  "evaluate_range f ns body v e lo hi st =
     bindE (enumerate_static_observations f ns body e st) (\<lambda>st3.
     bindE (mor_loop (\<lambda>i s. evaluate_node f ns body e (s\<lparr>es_bound := (es_bound s)(v \<mapsto> i)\<rparr>))
              (nat (hi - lo)) lo 0 (st3\<lparr>es_reads := None\<rparr>)) (\<lambda>(res, st4).
     Inr (res, st4\<lparr>es_bound := (es_bound st4)(v := es_bound st v), es_reads := es_reads st3\<rparr>)))"

lemma evaluate_range_computes:
  assumes IH: "\<And>s. cache_ok e (es_cache s) \<Longrightarrow> es_reads s = None \<Longrightarrow>
      computes (eval_post e [c] s) (evaluate_node f ns body e s) (size_value e c (es_bound s))"
    and rep: "represents ns body c" "depth c < f"
    and st: "cache_ok e (es_cache st)" "es_reads st \<noteq> None \<Longrightarrow> readable e c"
  shows "computes (eval_post e [c] st) (evaluate_range f ns body v e lo hi st)
     (bindE (mapE (\<lambda>i. size_value e c ((es_bound st)(v \<mapsto> i))) [lo..hi - 1])
        (\<lambda>vs. Inr (Max (insert 0 (set vs)))))"
proof -
  obtain os where en: "enumerate_static_observations f ns body e st =
      Inr (st\<lparr>es_reads := map_option (\<lambda>r. r @ os) (es_reads st)\<rparr>)"
    and cov: "es_reads st \<noteq> None \<longrightarrow> recorded e os [c]"
  proof (cases "es_reads st")
    case None
    then show ?thesis using that [of "[]"] rep by (cases f) simp_all
  next
    case (Some r)
    then show ?thesis
      using that enumerate_static_observations_covers [OF rep Some] st(2) by fastforce
  qed
  have loop: "computes (\<lambda>s. cache_ok e (es_cache s) \<and> (es_cache s = None \<longleftrightarrow> es_cache st = None) \<and>
            (\<forall>x. (es_bound s)(v := x) = (es_bound st)(v := x)))
     (mor_loop (\<lambda>i s. evaluate_node f ns body e (s\<lparr>es_bound := (es_bound s)(v \<mapsto> i)\<rparr>))
        (nat (hi - lo)) lo 0 (st\<lparr>es_reads := None\<rparr>))
     (bindE (mapE (\<lambda>i. size_value e c ((es_bound st)(v \<mapsto> i))) [lo..hi - 1])
        (\<lambda>vs. Inr (Max (insert 0 (set vs)))))"
    using evaluate_range_correct [where st = "st\<lparr>es_reads := None\<rparr>", OF IH] st(1) by simp
  show ?thesis
  proof (cases "mapE (\<lambda>i. size_value e c ((es_bound st)(v \<mapsto> i))) [lo..hi - 1]")
    case (Inl er)
    then show ?thesis using loop by (simp add: evaluate_range_def en)
  next
    case (Inr vs)
    then show ?thesis
      using loop cov by (auto simp: evaluate_range_def en eval_post_def)
  qed
qed

theorem evaluate_node_correct:
  "represents ns i t \<Longrightarrow> depth t < f \<Longrightarrow> cache_ok e (es_cache st) \<Longrightarrow>
   (es_reads st \<noteq> None \<Longrightarrow> readable e t) \<Longrightarrow>
     computes (eval_post e [t] st) (evaluate_node f ns i e st) (size_value e t (es_bound st))"
proof (induction t arbitrary: f i st)
  case (Binary g a b)
  then obtain f' where f: "f = Suc f'" "depth a < f'" "depth b < f'" by (cases f) auto
  let ?n = "node_at ns i"
  have ev: "evaluate_node f ns i e st =
      bindE (evaluate_node f' ns (sn_operand_a ?n) e st) (\<lambda>(x, st1).
      bindE (evaluate_node f' ns (sn_operand_b ?n) e st1) (\<lambda>(y, st2).
        Inr (binary_value (bin_kind g) x y, st2)))"
    using Binary.prems f by (cases g) (simp_all add: Let_def)
  show ?case
    unfolding ev size_value.simps
  proof (rule evaluate_two_correct)
    show "computes (eval_post e [a] st) (evaluate_node f' ns (sn_operand_a ?n) e st)
        (size_value e a (es_bound st))"
      using Binary.prems f by (intro Binary.IH(1)) auto
  next
    fix st1 assume "eval_post e [a] st st1"
    from eval_postD [OF this]
    show "computes (eval_post e [b] st1) (evaluate_node f' ns (sn_operand_b ?n) e st1)
        (size_value e b (es_bound st))"
      using Binary.prems f Binary.IH(2) [of "sn_operand_b ?n" f' st1] by auto
  next
    fix x y st2 assume "eval_post e [a, b] st st2"
    then show "computes (eval_post e [Binary g a b] st) (Inr (binary_value (bin_kind g) x y, st2))
        (Inr (binary_value (bin_kind g) x y))"
      by (auto elim: eval_post_weaken intro: recorded_node)
  qed
next
  case (MaxOverRange v a b c)
  then obtain f' where f: "f = Suc f'" "depth a < f'" "depth b < f'" "depth c < f'"
    by (cases f) auto
  let ?n = "node_at ns i"
  have ev: "evaluate_node f ns i e st =
      bindE (evaluate_node f' ns (sn_operand_a ?n) e st) (\<lambda>(lo, st1).
      bindE (evaluate_node f' ns (sn_operand_b ?n) e st1) (\<lambda>(hi, st2).
        guardE (\<not> (lo < hi \<and> max_over_range_iterations e < wrap64 (hi - lo)))
               (IterationGuard (wrap64 (hi - lo)))
         (evaluate_range f' ns (sn_body_node_idx ?n) v e lo hi st2)))"
    using MaxOverRange.prems f by (simp add: Let_def evaluate_range_def)
  show ?case
    unfolding ev size_value.simps
  proof (rule evaluate_two_correct)
    show "computes (eval_post e [a] st) (evaluate_node f' ns (sn_operand_a ?n) e st)
        (size_value e a (es_bound st))"
      using MaxOverRange.prems f by (intro MaxOverRange.IH(1)) auto
  next
    fix st1 assume "eval_post e [a] st st1"
    from eval_postD [OF this]
    show "computes (eval_post e [b] st1) (evaluate_node f' ns (sn_operand_b ?n) e st1)
        (size_value e b (es_bound st))"
      using MaxOverRange.prems f MaxOverRange.IH(2) [of "sn_operand_b ?n" f' st1] by auto
  next
    fix lo hi st2 assume st2: "eval_post e [a, b] st st2"
    have IH: "computes (eval_post e [c] s) (evaluate_node f' ns (sn_body_node_idx ?n) e s)
        (size_value e c (es_bound s))" if "cache_ok e (es_cache s)" "es_reads s = None" for s
      using MaxOverRange.prems f that by (intro MaxOverRange.IH(3)) auto
    have "computes (eval_post e [c] st2) (evaluate_range f' ns (sn_body_node_idx ?n) v e lo hi st2)
       (bindE (mapE (\<lambda>i. size_value e c ((es_bound st2)(v \<mapsto> i))) [lo..hi - 1])
          (\<lambda>vs. Inr (Max (insert 0 (set vs)))))"
      using MaxOverRange.prems f eval_postD [OF st2]
      by (intro evaluate_range_computes IH) auto
    then have "computes (eval_post e [MaxOverRange v a b c] st)
       (evaluate_range f' ns (sn_body_node_idx ?n) v e lo hi st2)
       (bindE (mapE (\<lambda>i. size_value e c ((es_bound st)(v \<mapsto> i))) [lo..hi - 1])
          (\<lambda>vs. Inr (Max (insert 0 (set vs)))))"
      using eval_postD(1) [OF st2]
      by (auto elim!: computes_mono eval_post_weaken [OF eval_post_trans [OF st2]]
          intro: recorded_node)
    then show "computes (eval_post e [MaxOverRange v a b c] st)
       (guardE (\<not> (lo < hi \<and> max_over_range_iterations e < wrap64 (hi - lo)))
               (IterationGuard (wrap64 (hi - lo)))
         (evaluate_range f' ns (sn_body_node_idx ?n) v e lo hi st2))
       (guardE (\<not> (lo < hi \<and> max_over_range_iterations e < wrap64 (hi - lo)))
              (IterationGuard (wrap64 (hi - lo)))
        (bindE (mapE (\<lambda>i. size_value e c ((es_bound st)(v \<mapsto> i))) [lo..hi - 1])
          (\<lambda>vs. Inr (Max (insert 0 (set vs))))))"
      by (rule computes_guard)
  qed
next
  case (ExternalTensorShape p ax)
  then obtain f' where "f = Suc f'" by (cases f) auto
  with ExternalTensorShape show ?case
    by (simp add: Let_def evaluate_external_tensor_shape_correct)
next
  case (FieldLoad s ix)
  then obtain f' where "f = Suc f'" by (cases f) auto
  with FieldLoad show ?case by (simp add: Let_def evaluate_field_load_correct)
next
  case (ExternalTensorRead p ix dt)
  then obtain f' where "f = Suc f'" by (cases f) auto
  with ExternalTensorRead show ?case
    by (simp add: Let_def evaluate_external_tensor_read_correct)
next
  case (Const c)
  then show ?case by (cases f) (auto simp: Let_def eval_post_refl)
next
  case (BoundVariable v)
  then show ?case by (cases f) (auto simp: Let_def eval_post_refl split: option.split)
qed

section \<open>The public entry points\<close>

lemma cache_ok_enter: "cache_ok e outer \<Longrightarrow> cache_ok e (launch_scope_enter outer)"
  by (simp add: launch_scope_enter_def cache_ok_def split: option.split)

lemma cache_ok_leave: "cache_ok e c \<Longrightarrow> cache_ok e (launch_scope_leave outer c)"
  by (simp add: launch_scope_leave_def cache_ok_def split: option.split)

text \<open>\<^verbatim>\<open>evaluate_root\<close> is the shared body of the entry points; a represented root never runs dry.\<close>

lemma evaluate_root_correct:
  assumes "represents ns i t" "cache_ok e outer" "reads \<noteq> None \<Longrightarrow> readable e t"
  shows "computes (\<lambda>(c, rd). cache_ok e c \<and> (c = None \<longleftrightarrow> outer = None) \<and>
            (\<exists>os. rd = map_option (\<lambda>r. r @ os) reads \<and> (reads \<noteq> None \<longrightarrow> recorded e os [t])))
           (evaluate_root ns i e outer reads) (size_value e t Map.empty)"
proof -
  let ?st = "\<lparr>es_bound = Map.empty, es_cache = launch_scope_enter outer, es_reads = reads\<rparr>"
  have "int (depth t) < int (eval_fuel ns)"
    using represents_depth [OF assms(1)] represents_in_range [OF assms(1)]
    by (simp add: eval_fuel_def in_range_def)
  then have ev: "computes (eval_post e [t] ?st) (evaluate_node (eval_fuel ns) ns i e ?st)
      (size_value e t Map.empty)"
    using evaluate_node_correct [OF assms(1), of "eval_fuel ns" e ?st] assms cache_ok_enter by simp
  show ?thesis
  proof (cases "size_value e t Map.empty")
    case (Inl er)
    then show ?thesis using ev by (simp add: evaluate_root_def)
  next
    case (Inr v)
    then obtain st where st: "evaluate_node (eval_fuel ns) ns i e ?st = Inr (v, st)"
        "eval_post e [t] ?st st" using ev by auto
    have "es_cache st \<noteq> None"
      using st(2) by (auto simp: eval_post_def launch_scope_enter_def split: option.splits)
    with st Inr cache_ok_leave show ?thesis
      by (auto simp: evaluate_root_def eval_post_def)
        (auto simp: launch_scope_leave_def split: option.splits)
  qed
qed

lemma serialize_not_Nil [simp]: "serialize t \<noteq> []"
  by (cases t) (auto simp: serialize_def Let_def split: prod.splits)

lemma evaluate_serialized:
  assumes "indices_fit t" "readable e t" "cache_ok e outer"
  shows "computes (\<lambda>c. cache_ok e c \<and> (c = None \<longleftrightarrow> outer = None))
           (evaluate_adstack_size_expr_no_cache (serialize t) e outer) (size_value e t Map.empty)"
  using evaluate_root_correct [OF serialize_represents [OF assms(1)] assms(3), of "Some []"] assms(2)
  by (cases "size_value e t Map.empty") (auto simp: evaluate_adstack_size_expr_no_cache_def)

end
