(* ===== verification/Samples.thy ===== *)
theory Samples
  imports HostEval
begin

text \<open>
  A concrete launch used to instantiate the theorems: one i32 ndarray argument \<open>[3, 1, 4]\<close> at
  address 1000, its shape slot and data pointer in an argument buffer at address 2000 (the
  struct layout puts the shape at offset 0 and the pointer at offset 8), and a program with a
  scalar field 7 that holds 9.
\<close>

definition sample_mem :: memory where
  "sample_mem a =
     (if a = 1000 then 3 else if a = 1004 then 1 else if a = 1008 then 4
      else if a = 2000 then 3 else if a = 2008 then 0xE8 else if a = 2009 then 3 else 0)"

definition sample_snode :: snode where
  "sample_snode = \<lparr>sd_id = 7, sd_type = Place, sd_is_path_all_dense = True,
     sd_is_bit_level = False, sd_num_active_indices = 0, sd_shape_along_axis = (\<lambda>_. 1),
     sd_dt = 5, sd_ancestors = [(Root, 1)]\<rparr>"

definition sample_prog :: program where
  "sample_prog = \<lparr>pg_get_snode_by_id = (\<lambda>s. if s = 7 then Some sample_snode else None),
     pg_read_int = (\<lambda>s is. 9), pg_arch_is_cpu = False,
     pg_snode_write_gen = (\<lambda>_. 2), pg_ndarray_data_gen = (\<lambda>_. 5)\<rparr>"

definition sample_ctx :: launch_ctx where
  "sample_ctx = \<lparr>lc_array_ptrs = (\<lambda>a pos. if a = 0 \<and> pos = data_ptr_pos then Some 1000 else None),
     lc_arg_buffer = 2000, lc_arg_buffer_size = 16,
     lc_args_type = Some (\<lambda>path. if path = [0, data_ptr_pos] then 8 else 0),
     lc_device_allocation_type = (\<lambda>_. Some AllocNone)\<rparr>"

definition sample_env :: env where
  "sample_env = \<lparr>en_prog = Some sample_prog, en_ctx = Some sample_ctx, en_mem = sample_mem\<rparr>"

text \<open>\<open>max_{i < shape(arr)} (arr[i] + 1)\<close>, plus the field.\<close>

definition sample_tree :: size_expr where
  "sample_tree =
     Binary OpAdd
       (MaxOverRange 5 (Const 0) (ExternalTensorShape [0] 0)
         (Binary OpAdd (ExternalTensorRead [0] [-6] 5) (Const 1)))
       (FieldLoad 7 [])"

lemmas sample_defs = sample_mem_def sample_snode_def sample_prog_def sample_ctx_def sample_env_def
  sample_tree_def

lemma sample_fits: "indices_fit sample_tree"
  by (simp add: sample_tree_def fits32_def)

lemma sample_readable: "readable sample_env sample_tree"
  by code_simp

lemma sample_value: "size_value sample_env sample_tree Map.empty = Inr 14"
  by code_simp

lemma cache_ok_None [simp]: "cache_ok e None"
  by (simp add: cache_ok_def)

end
