(* ===== verification/DeviceBytecode.thy ===== *)
theory DeviceBytecode
  imports HostEval
begin

text \<open>
  The host-side encoder that lowers serialised size expressions to the device bytecode
  (\<^verbatim>\<open>program/adstack/device_bytecode.cpp\<close>): the bottom-up passes over the node vector, the dense
  renaming of bound variables, the recursive \<^verbatim>\<open>encode_subtree\<close> with host folding of closed
  subtrees, the per-stack driver and the packing into bytes.
\<close>

section \<open>Device nodes\<close>

text \<open>\<^verbatim>\<open>AdStackSizeExprDeviceKind\<close> by its numeric values.\<close>

definition kConst :: int where "kConst = 0"
definition kAdd :: int where "kAdd = 1"
definition kSub :: int where "kSub = 2"
definition kMul :: int where "kMul = 3"
definition kMax :: int where "kMax = 4"
definition kMaxOverRange :: int where "kMaxOverRange = 5"
definition kBoundVariable :: int where "kBoundVariable = 6"
definition kExternalTensorRead :: int where "kExternalTensorRead = 7"
definition kFieldLoad :: int where "kFieldLoad = 8"

lemmas device_kind_defs = kConst_def kAdd_def kSub_def kMul_def kMax_def kMaxOverRange_def
  kBoundVariable_def kExternalTensorRead_def kFieldLoad_def

record dev_node =
  dn_kind :: int
  dn_operand_a :: int
  dn_operand_b :: int
  dn_body_node_idx :: int
  dn_var_id :: int
  dn_prim_dt :: int
  dn_arg_buffer_offset :: int
  dn_indices_offset :: int
  dn_indices_count :: int
  dn_pad0 :: int
  dn_const_value :: int

record dev_stack_header =
  dh_root_node_idx :: int
  dh_entry_size_bytes :: int
  dh_max_size_compile_time :: int
  dh_heap_kind :: int

definition make_empty_device_node :: "int \<Rightarrow> dev_node" where
  "make_empty_device_node kind = \<lparr>dn_kind = kind, dn_operand_a = -1, dn_operand_b = -1,
     dn_body_node_idx = -1, dn_var_id = -1, dn_prim_dt = -1, dn_arg_buffer_offset = -1,
     dn_indices_offset = 0, dn_indices_count = 0, dn_pad0 = 0, dn_const_value = 0\<rparr>"

text \<open>\<^verbatim>\<open>kAdStackSizeExprDeviceMaxBoundVars\<close> and \<^verbatim>\<open>spirv::kAdStackSizerMaxPendingFrames\<close>.\<close>

definition max_bound_vars :: nat where "max_bound_vars = 32"
definition max_pending_frames :: nat where "max_pending_frames = 16"
definition max_nodes_per_stack_spirv :: nat where "max_nodes_per_stack_spirv = 65536"

section \<open>Bottom-up passes\<close>

definition contains_device_leaf_step :: "bool \<Rightarrow> ser_node \<Rightarrow> bool list \<Rightarrow> bool" where
  "contains_device_leaf_step fieldload_stays node result \<longleftrightarrow>
     (let kind = kind_of (sn_kind node);
          hit = (kind = Some KExternalTensorRead \<or> (fieldload_stays \<and> kind = Some KFieldLoad));
          hit = (if \<not> hit \<and> 0 \<le> sn_operand_a node then at False result (sn_operand_a node) else hit);
          hit = (if \<not> hit \<and> 0 \<le> sn_operand_b node then at False result (sn_operand_b node) else hit)
      in (if \<not> hit \<and> 0 \<le> sn_body_node_idx node then at False result (sn_body_node_idx node) else hit))"

definition compute_contains_device_leaf :: "ser_expr \<Rightarrow> bool \<Rightarrow> bool list" where
  "compute_contains_device_leaf ns fieldload_stays = scan (contains_device_leaf_step fieldload_stays) ns"

definition collect_idx_vars :: "int list \<Rightarrow> int set" where
  "collect_idx_vars indices = set (map (\<lambda>raw. - (raw + 1)) (filter (\<lambda>raw. raw < 0) indices))"

definition free_vars_step :: "ser_node \<Rightarrow> int set list \<Rightarrow> int set" where
  "free_vars_step node result =
     (case kind_of (sn_kind node) of
        Some KBoundVariable \<Rightarrow> {sn_var_id node}
      | Some KFieldLoad \<Rightarrow> collect_idx_vars (sn_indices node)
      | Some KExternalTensorRead \<Rightarrow> collect_idx_vars (sn_indices node)
      | Some KAdd \<Rightarrow> at {} result (sn_operand_a node) \<union> at {} result (sn_operand_b node)
      | Some KSub \<Rightarrow> at {} result (sn_operand_a node) \<union> at {} result (sn_operand_b node)
      | Some KMul \<Rightarrow> at {} result (sn_operand_a node) \<union> at {} result (sn_operand_b node)
      | Some KMax \<Rightarrow> at {} result (sn_operand_a node) \<union> at {} result (sn_operand_b node)
      | Some KMaxOverRange \<Rightarrow>
          at {} result (sn_operand_a node) \<union> at {} result (sn_operand_b node) \<union>
          (at {} result (sn_body_node_idx node) - {sn_var_id node})
      | _ \<Rightarrow> {})"

definition compute_free_vars :: "ser_expr \<Rightarrow> int set list" where
  "compute_free_vars ns = scan free_vars_step ns"

type_synonym var_remap = "(int \<times> int) list"

definition remap_add :: "int \<Rightarrow> var_remap \<Rightarrow> var_remap" where
  "remap_add v remap =
     (if v < 0 \<or> map_of remap v \<noteq> None then remap else remap @ [(v, int (length remap))])"

definition remap_node :: "var_remap \<Rightarrow> ser_node \<Rightarrow> var_remap" where
  "remap_node remap node =
     (let remap' =
        (if kind_of (sn_kind node) = Some KMaxOverRange \<or> kind_of (sn_kind node) = Some KBoundVariable
         then remap_add (sn_var_id node) remap else remap)
      in foldl (\<lambda>m raw. if raw < 0 then remap_add (- (raw + 1)) m else m) remap' (sn_indices node))"

definition build_dense_var_id_remap :: "ser_expr \<Rightarrow> var_remap result" where
  "build_dense_var_id_remap ns =
     (let remap = foldl remap_node [] ns
      in guardE (length remap \<le> max_bound_vars) (TooManyBoundVars (length remap)) (Inr remap))"

text \<open>
  The nesting depth by recursion over child indices; the memo table of the source only avoids
  recomputation. Fuel exhausts on a cyclic vector, where the source does not return.
\<close>

fun mor_visit :: "nat \<Rightarrow> ser_expr \<Rightarrow> int \<Rightarrow> nat result" where
  "mor_visit 0 ns i = Inl Diverges"
| "mor_visit (Suc f) ns i =
     (if \<not> in_range ns i then Inr 0
      else
        (let n = node_at ns i;
             child = (\<lambda>c. if 0 \<le> c then mor_visit f ns c else Inr 0)
         in bindE (child (sn_operand_a n)) (\<lambda>da.
            bindE (child (sn_operand_b n)) (\<lambda>db.
            bindE (child (sn_body_node_idx n)) (\<lambda>dc.
            Inr ((if kind_of (sn_kind n) = Some KMaxOverRange then 1 else 0) +
                 max (max (max 0 da) db) dc))))))"

definition compute_max_mor_nesting :: "ser_expr \<Rightarrow> nat result" where
  "compute_max_mor_nesting ns =
     bindE (mapE (\<lambda>i. mor_visit (eval_fuel ns) ns (int i)) [0..<length ns])
       (\<lambda>ds. Inr (foldl max 0 ds))"

definition remap_var_id :: "var_remap \<Rightarrow> int \<Rightarrow> int result" where
  "remap_var_id remap v =
     (case map_of remap v of None \<Rightarrow> Inl (RemapMissing v) | Some d \<Rightarrow> Inr d)"

section \<open>The recursive encoder\<close>

text \<open>
  \<^verbatim>\<open>FieldLoadDeviceEmitter\<close>: \<open>None\<close> is the default-constructed emitter of the LLVM path, a
  function is the SPIR-V path's \<^verbatim>\<open>fetch\<close>, which yields a base address and one element stride per
  axis or refuses the SNode.
\<close>

type_synonym fl_emitter = "(snode \<Rightarrow> (int \<times> int list) option) option"

record enc_state =
  ec_nodes :: "dev_node list"
  ec_indices :: "int list"
  ec_cache :: "read_cache option"
  ec_reads :: "read_obs list option"

definition emit :: "dev_node \<Rightarrow> enc_state \<Rightarrow> (int \<times> enc_state) result" where
  "emit dn st = Inr (int (length (ec_nodes st)), st\<lparr>ec_nodes := ec_nodes st @ [dn]\<rparr>)"

definition encode_index :: "var_remap \<Rightarrow> int \<Rightarrow> int result" where
  "encode_index remap raw =
     (if raw < 0 then bindE (remap_var_id remap (- (raw + 1))) (\<lambda>dense. Inr (- (dense + 1)))
      else Inr raw)"

text \<open>
  \<^verbatim>\<open>elem_strides\<close> of an ndarray read, filled from the last axis: entry \<open>k\<close> is entry \<open>k + 1\<close>
  times the extent of axis \<open>k + 1\<close>, in 32-bit arithmetic.
\<close>

fun etr_strides :: "(nat \<Rightarrow> int result) \<Rightarrow> nat \<Rightarrow> int list \<Rightarrow> int list result" where
  "etr_strides shape 0 strides = Inr strides"
| "etr_strides shape (Suc k) strides =
     (if k = 0 then Inr strides
      else bindE (shape k) (\<lambda>sh. etr_strides shape k (wrap32 (hd strides * sh) # strides)))"

fun interleave :: "int list \<Rightarrow> int list \<Rightarrow> int list" where
  "interleave (x # xs) (y # ys) = x # y # interleave xs ys"
| "interleave _ _ = []"

definition encode_external_tensor_read ::
  "ser_node \<Rightarrow> var_remap \<Rightarrow> env \<Rightarrow> enc_state \<Rightarrow> (int \<times> enc_state) result" where
  "encode_external_tensor_read node remap e st =
     (case en_ctx e of
        None \<Rightarrow> Inl NoArgsType
      | Some ctx \<Rightarrow>
          (case lc_args_type ctx of
             None \<Rightarrow> Inl NoArgsType
           | Some get_element_offset \<Rightarrow>
               guardE (sn_arg_id_path node \<noteq> []) EmptyArgPath
                (let dn = (make_empty_device_node kExternalTensorRead)
                       \<lparr>dn_arg_buffer_offset :=
                          wrap32 (get_element_offset (sn_arg_id_path node @ [data_ptr_pos])),
                        dn_prim_dt := wrap32 (sn_const_value node),
                        dn_indices_offset := int (length (ec_indices st)),
                        dn_indices_count := int (length (sn_indices node))\<rparr>
                 in bindE (if sn_indices node = [] then Inr []
                           else etr_strides (\<lambda>k. shape_at (en_mem e) ctx (sn_arg_id_path node) (int k))
                                  (length (sn_indices node)) [1]) (\<lambda>strides.
                    bindE (mapE (encode_index remap) (sn_indices node)) (\<lambda>raws.
                    emit dn (st\<lparr>ec_indices := ec_indices st @ interleave raws strides\<rparr>))))))"

definition encode_field_load ::
  "int \<Rightarrow> ser_node \<Rightarrow> var_remap \<Rightarrow> env \<Rightarrow> fl_emitter \<Rightarrow> enc_state \<Rightarrow> (int \<times> enc_state) result" where
  "encode_field_load src_idx node remap e fl st =
     (case fl of
        None \<Rightarrow> Inl (FieldLoadNotFoldable src_idx)
      | Some fetch \<Rightarrow>
          guardE (0 \<le> sn_snode_id node) NoSnodeId
           (case en_prog e of
              None \<Rightarrow> Inl NullProgram
            | Some prog \<Rightarrow>
                (case pg_get_snode_by_id prog (sn_snode_id node) of
                   None \<Rightarrow> Inl (SnodeNotFound (sn_snode_id node))
                 | Some snode \<Rightarrow>
                     (case fetch snode of
                        None \<Rightarrow> Inl (FieldLoadNotDense (sn_snode_id node))
                      | Some (base_psb, elem_strides) \<Rightarrow>
                          guardE (length elem_strides = length (sn_indices node)) StrideCountMismatch
                           (let dn = (make_empty_device_node kFieldLoad)
                                 \<lparr>dn_const_value := wrap64 base_psb, dn_prim_dt := sd_dt snode,
                                  dn_indices_offset := int (length (ec_indices st)),
                                  dn_indices_count := int (length (sn_indices node))\<rparr>
                            in bindE (mapE (encode_index remap) (sn_indices node)) (\<lambda>raws.
                               emit dn (st\<lparr>ec_indices := ec_indices st @ interleave raws elem_strides\<rparr>)))))))"

definition device_bin_kind :: "size_kind \<Rightarrow> int" where
  "device_bin_kind k = (case k of KSub \<Rightarrow> kSub | KMul \<Rightarrow> kMul | KMax \<Rightarrow> kMax | _ \<Rightarrow> kAdd)"

definition encode_cap_ok :: "dev_node list \<Rightarrow> int \<Rightarrow> int \<Rightarrow> bool" where
  "encode_cap_ok nodes a b \<longleftrightarrow>
     (let na = at (make_empty_device_node kConst) nodes a; nb = at (make_empty_device_node kConst) nodes b in
      \<not> (dn_kind na = kConst \<and> dn_kind nb = kConst \<and> dn_const_value na < dn_const_value nb \<and>
          2 ^ 24 < wrap64 (dn_const_value nb - dn_const_value na)))"

fun encode_subtree ::
  "nat \<Rightarrow> ser_expr \<Rightarrow> int \<Rightarrow> bool list \<Rightarrow> int set list \<Rightarrow> var_remap \<Rightarrow> env \<Rightarrow> fl_emitter \<Rightarrow>
   enc_state \<Rightarrow> (int \<times> enc_state) result" where
  "encode_subtree 0 src i cdl fvs remap e fl st = Inl Diverges"
| "encode_subtree (Suc f) src i cdl fvs remap e fl st =
     guardE (in_range src i) (NodeIdxOutOfBounds i)
      (if \<not> at False cdl i \<and> at {} fvs i = {} then
         bindE (evaluate_node (eval_fuel src) src i e
                  \<lparr>es_bound = Map.empty, es_cache = ec_cache st, es_reads = ec_reads st\<rparr>) (\<lambda>(val, s).
           emit ((make_empty_device_node kConst)\<lparr>dn_const_value := val\<rparr>)
                (st\<lparr>ec_cache := es_cache s, ec_reads := es_reads s\<rparr>))
       else
         (let node = node_at src i in
          case kind_of (sn_kind node) of
            Some KConst \<Rightarrow>
              emit ((make_empty_device_node kConst)\<lparr>dn_const_value := sn_const_value node\<rparr>) st
          | Some KBoundVariable \<Rightarrow>
              bindE (remap_var_id remap (sn_var_id node)) (\<lambda>v.
              emit ((make_empty_device_node kBoundVariable)\<lparr>dn_var_id := v\<rparr>) st)
          | Some KMaxOverRange \<Rightarrow>
              bindE (encode_subtree f src (sn_operand_a node) cdl fvs remap e fl st) (\<lambda>(a, st1).
              bindE (encode_subtree f src (sn_operand_b node) cdl fvs remap e fl st1) (\<lambda>(b, st2).
              guardE (encode_cap_ok (ec_nodes st2) a b)
                     (IterationGuard (wrap64
                        (dn_const_value (at (make_empty_device_node kConst) (ec_nodes st2) b) -
                         dn_const_value (at (make_empty_device_node kConst) (ec_nodes st2) a))))
               (bindE (encode_subtree f src (sn_body_node_idx node) cdl fvs remap e fl st2)
                 (\<lambda>(body, st3).
                bindE (remap_var_id remap (sn_var_id node)) (\<lambda>v.
                emit ((make_empty_device_node kMaxOverRange)\<lparr>dn_operand_a := a, dn_operand_b := b,
                        dn_body_node_idx := body, dn_var_id := v\<rparr>) st3)))))
          | Some KExternalTensorRead \<Rightarrow> encode_external_tensor_read node remap e st
          | Some KFieldLoad \<Rightarrow> encode_field_load i node remap e fl st
          | Some KExternalTensorShape \<Rightarrow> Inl (ShapeEscapedFold i)
          | Some k \<Rightarrow>
              bindE (encode_subtree f src (sn_operand_a node) cdl fvs remap e fl st) (\<lambda>(a, st1).
              bindE (encode_subtree f src (sn_operand_b node) cdl fvs remap e fl st1) (\<lambda>(b, st2).
              emit ((make_empty_device_node (device_bin_kind k))\<lparr>dn_operand_a := a,
                      dn_operand_b := b\<rparr>) st2))
          | None \<Rightarrow> Inl (UnreachableKind (sn_kind node))))"

section \<open>The per-stack driver and the byte layout\<close>

text \<open>
  \<^verbatim>\<open>max_nodes_per_stack = 0\<close> switches the per-stack node count check off (the LLVM path). A
  null expression pointer and an empty tree both leave the root at \<open>-1\<close>.
\<close>

definition encode_stack ::
  "env \<Rightarrow> fl_emitter \<Rightarrow> nat \<Rightarrow> dev_stack_header \<times> ser_expr option \<Rightarrow> enc_state \<Rightarrow>
   (dev_stack_header \<times> enc_state) result" where
  "encode_stack e fl max_nodes_per_stack he st =
     (case he of (sh, expr) \<Rightarrow>
        (case expr of
           None \<Rightarrow> Inr (sh\<lparr>dh_root_node_idx := -1\<rparr>, st)
         | Some ns \<Rightarrow>
             if ns = [] then Inr (sh\<lparr>dh_root_node_idx := -1\<rparr>, st)
             else
               (let cdl = compute_contains_device_leaf ns (fl \<noteq> None);
                    fvs = compute_free_vars ns;
                    root = int (length ns) - 1
                in guardE (at {} fvs root = {}) FreeVarsAtRoot
                    (bindE (build_dense_var_id_remap ns) (\<lambda>remap.
                     bindE (compute_max_mor_nesting ns) (\<lambda>mor_depth.
                     guardE (mor_depth \<le> max_pending_frames) (NestingTooDeep mor_depth)
                      (bindE (encode_subtree (eval_fuel ns) ns root cdl fvs remap e fl st)
                        (\<lambda>(idx, st').
                       let per_stack = length (ec_nodes st') - length (ec_nodes st) in
                       guardE (max_nodes_per_stack = 0 \<or> per_stack \<le> max_nodes_per_stack)
                              (TooManyDeviceNodes per_stack)
                        (Inr (sh\<lparr>dh_root_node_idx := idx\<rparr>, st')))))))))) "

fun encode_stacks ::
  "env \<Rightarrow> fl_emitter \<Rightarrow> nat \<Rightarrow> (dev_stack_header \<times> ser_expr option) list \<Rightarrow> enc_state \<Rightarrow>
   (dev_stack_header list \<times> enc_state) result" where
  "encode_stacks e fl mx [] st = Inr ([], st)"
| "encode_stacks e fl mx (he # hes) st =
     bindE (encode_stack e fl mx he st) (\<lambda>(sh, st1).
     bindE (encode_stacks e fl mx hes st1) (\<lambda>(shs, st2). Inr (sh # shs, st2)))"

fun le_bytes :: "nat \<Rightarrow> int \<Rightarrow> 8 word list" where
  "le_bytes 0 x = []"
| "le_bytes (Suc n) x = word_of_int (x mod 256) # le_bytes n (x div 256)"

definition bytes_i32 :: "int \<Rightarrow> 8 word list" where
  "bytes_i32 x = le_bytes 4 (x mod 2 ^ 32)"

definition bytes_i64 :: "int \<Rightarrow> 8 word list" where
  "bytes_i64 x = le_bytes 8 (x mod 2 ^ 64)"

definition pack_header :: "nat \<Rightarrow> nat \<Rightarrow> nat \<Rightarrow> 8 word list" where
  "pack_header n_stacks total_nodes total_indices =
     bytes_i32 (int n_stacks) @ bytes_i32 (int total_nodes) @ bytes_i32 (int total_indices) @ bytes_i32 0"

definition pack_stack_header :: "dev_stack_header \<Rightarrow> 8 word list" where
  "pack_stack_header sh =
     bytes_i32 (dh_root_node_idx sh) @ bytes_i32 (dh_entry_size_bytes sh) @
     bytes_i32 (dh_max_size_compile_time sh) @ bytes_i32 (dh_heap_kind sh)"

definition pack_node :: "dev_node \<Rightarrow> 8 word list" where
  "pack_node n =
     bytes_i32 (dn_kind n) @ bytes_i32 (dn_operand_a n) @ bytes_i32 (dn_operand_b n) @
     bytes_i32 (dn_body_node_idx n) @ bytes_i32 (dn_var_id n) @ bytes_i32 (dn_prim_dt n) @
     bytes_i32 (dn_arg_buffer_offset n) @ bytes_i32 (dn_indices_offset n) @
     bytes_i32 (dn_indices_count n) @ bytes_i32 (dn_pad0 n) @ bytes_i64 (dn_const_value n)"

definition pack_bytecode :: "dev_stack_header list \<Rightarrow> dev_node list \<Rightarrow> int list \<Rightarrow> 8 word list" where
  "pack_bytecode shs nodes indices =
     pack_header (length shs) (length nodes) (length indices) @
     concat (map pack_stack_header shs) @ concat (map pack_node nodes) @
     concat (map bytes_i32 indices)"

definition encode_bytecode_common ::
  "dev_stack_header list \<Rightarrow> ser_expr option list \<Rightarrow> env \<Rightarrow> fl_emitter \<Rightarrow> nat \<Rightarrow>
   read_cache option \<Rightarrow> read_obs list option \<Rightarrow>
   (8 word list \<times> read_cache option \<times> read_obs list option) result" where
  "encode_bytecode_common headers exprs e fl mx cache reads =
     guardE (length exprs = length headers) StackCountMismatch
      (bindE (encode_stacks e fl mx (zip headers exprs)
                \<lparr>ec_nodes = [], ec_indices = [], ec_cache = cache, ec_reads = reads\<rparr>)
        (\<lambda>(shs, st). Inr (pack_bytecode shs (ec_nodes st) (ec_indices st), ec_cache st, ec_reads st)))"

section \<open>Element strides of a dense field\<close>

text \<open>
  \<^verbatim>\<open>compute_dense_snode_strides\<close>: refuses anything but a plain place leaf under single-child
  dense parents, then the C-order strides of its shape, refused when a partial product leaves
  \<^verbatim>\<open>int32\<close>.
\<close>

fun dense_stride :: "int list \<Rightarrow> int \<Rightarrow> int option" where
  "dense_stride [] stride = Some stride"
| "dense_stride (s # ss) stride =
     (let stride' = stride * s in if 2 ^ 31 - 1 < stride' then None else dense_stride ss stride')"

fun dense_strides :: "int list \<Rightarrow> int list option" where
  "dense_strides [] = Some []"
| "dense_strides (s # ss) =
     (case dense_stride ss 1 of
        None \<Rightarrow> None
      | Some x \<Rightarrow> (case dense_strides ss of None \<Rightarrow> None | Some xs \<Rightarrow> Some (x # xs)))"

definition compute_dense_snode_strides :: "snode option \<Rightarrow> int list option" where
  "compute_dense_snode_strides leaf =
     (case leaf of
        None \<Rightarrow> None
      | Some sn \<Rightarrow>
          if sd_type sn \<noteq> Place then None
          else if \<not> sd_is_path_all_dense sn then None
          else if sd_is_bit_level sn then None
          else if list_ex (\<lambda>(ty, n_ch). ty = Dense \<and> 1 < n_ch) (sd_ancestors sn) then None
          else if sd_num_active_indices sn < 0 then None
          else
            (let shape = map (sd_shape_along_axis sn) [0..<nat (sd_num_active_indices sn)] in
             if list_ex (\<lambda>s. s \<le> 0) shape then None else dense_strides shape))"

text \<open>The strides returned are the C-order strides of the shape, all of them positive 32-bit numbers.\<close>

lemma dense_stride_prod:
  assumes "dense_stride ss stride = Some x" "list_all (\<lambda>s. 0 < s) ss" "0 < stride" "stride < 2 ^ 31"
  shows "x = stride * prod_list ss \<and> 0 < x \<and> x < 2 ^ 31"
  using assms
proof (induction ss arbitrary: stride)
  case (Cons s ss)
  have "x = stride * s * prod_list ss \<and> 0 < x \<and> x < 2 ^ 31"
    by (rule Cons.IH) (use Cons.prems in \<open>auto simp: Let_def split: if_splits\<close>)
  then show ?case by (simp add: mult.assoc)
qed simp

lemma dense_strides_nth:
  assumes "dense_strides shape = Some strides" "list_all (\<lambda>s. 0 < s) shape"
  shows "length strides = length shape \<and>
    (\<forall>k < length shape. strides ! k = prod_list (drop (Suc k) shape) \<and> 0 < strides ! k \<and> strides ! k < 2 ^ 31)"
  using assms
proof (induction shape arbitrary: strides)
  case (Cons s ss)
  then obtain x xs where x: "dense_stride ss 1 = Some x" "dense_strides ss = Some xs" "strides = x # xs"
    by (auto split: option.splits)
  with Cons dense_stride_prod [OF x(1)] show ?case by (auto simp: less_Suc_eq_0_disj)
qed simp

lemma dense_strides_correct:
  assumes "compute_dense_snode_strides (Some sn) = Some strides"
  defines "shape \<equiv> map (sd_shape_along_axis sn) [0..<nat (sd_num_active_indices sn)]"
  shows "length strides = length shape \<and>
    (\<forall>k < length shape. strides ! k = prod_list (drop (Suc k) shape) \<and> 0 < strides ! k \<and> strides ! k < 2 ^ 31)"
proof (rule dense_strides_nth)
  show "dense_strides shape = Some strides"
    using assms(1) by (auto simp: compute_dense_snode_strides_def shape_def Let_def split: if_splits)
  show "list_all (\<lambda>s. 0 < s) shape"
    using assms(1) by (auto simp: compute_dense_snode_strides_def shape_def Let_def list_ex_iff list_all_iff
        not_le split: if_splits)
qed

end
