(* ===== verification/DeviceInterp.thy ===== *)
theory DeviceInterp
  imports DeviceBytecode
begin

text \<open>
  The device-side half of adstack sizing (\<^verbatim>\<open>runtime/llvm/runtime_module/adstack_runtime.cpp\<close>): the
  bytecode interpreter, the sizer that publishes capacities, offsets and strides, and the push
  and pop operations of the adstack itself. Device code reads its bytecode through raw
  pointers, so the node and index arrays are total functions of the index here, as they are
  through a C pointer; \<open>node_ptr\<close> and \<open>index_ptr\<close> give them for a byte buffer in memory.
\<close>

section \<open>The bytecode interpreter\<close>

type_synonym scope = "int \<Rightarrow> int"

record dev_env =
  de_mem :: memory
  de_arg_buffer :: int
  de_roots :: "(int \<Rightarrow> int) option"

text \<open>\<open>de_roots = None\<close> stands for a null \<^verbatim>\<open>LLVMRuntime *\<close>.\<close>

definition in_scope :: "int \<Rightarrow> bool" where
  "in_scope var \<longleftrightarrow> 0 \<le> var \<and> var < int max_bound_vars"

definition device_load_element :: "memory \<Rightarrow> int \<Rightarrow> int \<Rightarrow> int \<Rightarrow> int" where
  "device_load_element m data_ptr linear prim_dt =
     (case prim_of_id prim_dt of None \<Rightarrow> 0 | Some ty \<Rightarrow> load_elem m data_ptr linear ty)"

definition scope_index :: "scope \<Rightarrow> int \<Rightarrow> int" where
  "scope_index sc raw =
     (if 0 \<le> raw then raw
      else let var = - (raw + 1) in if in_scope var then sc var else 0)"

fun device_linear :: "(int \<Rightarrow> int) \<Rightarrow> scope \<Rightarrow> int \<Rightarrow> nat \<Rightarrow> int \<Rightarrow> int" where
  "device_linear indices sc off 0 linear = linear"
| "device_linear indices sc off (Suc n) linear =
     device_linear indices sc (off + 2) n
       (wrap64 (linear + wrap64 (scope_index sc (indices off) * indices (off + 1))))"

fun device_eval_node ::
  "nat \<Rightarrow> dev_env \<Rightarrow> (int \<Rightarrow> dev_node) \<Rightarrow> (int \<Rightarrow> int) \<Rightarrow> int \<Rightarrow> scope \<Rightarrow> (int \<times> scope) result" where
  "device_eval_node 0 de nodes indices i sc = Inl Diverges"
| "device_eval_node (Suc f) de nodes indices i sc =
     (let node = nodes i;
          two = (\<lambda>h. bindE (device_eval_node f de nodes indices (dn_operand_a node) sc) (\<lambda>(x, sc1).
                     bindE (device_eval_node f de nodes indices (dn_operand_b node) sc1) (\<lambda>(y, sc2).
                     Inr (h x y, sc2))))
      in
      if dn_kind node = kConst then Inr (dn_const_value node, sc)
      else if dn_kind node = kAdd then two (\<lambda>x y. wrap64 (x + y))
      else if dn_kind node = kSub then two (\<lambda>x y. let diff = wrap64 (x - y) in if 0 < diff then diff else 0)
      else if dn_kind node = kMul then two (\<lambda>x y. wrap64 (x * y))
      else if dn_kind node = kMax then two (\<lambda>x y. if y < x then x else y)
      else if dn_kind node = kMaxOverRange then
        bindE (device_eval_node f de nodes indices (dn_operand_a node) sc) (\<lambda>(begin, sc1).
        bindE (device_eval_node f de nodes indices (dn_operand_b node) sc1) (\<lambda>(end, sc2).
        if begin < end \<and> 2 ^ 24 < wrap64 (end - begin) then Inr (0, sc2)
        else mor_loop (\<lambda>i s. device_eval_node f de nodes indices (dn_body_node_idx node)
                         (if in_scope (dn_var_id node) then s(dn_var_id node := i) else s))
               (nat (end - begin)) begin 0 sc2))
      else if dn_kind node = kBoundVariable then
        Inr (if in_scope (dn_var_id node) then sc (dn_var_id node) else 0, sc)
      else if dn_kind node = kExternalTensorRead then
        (let data_ptr = load_uint (de_mem de) (de_arg_buffer de + dn_arg_buffer_offset node) 8;
             linear = device_linear indices sc (dn_indices_offset node) (nat (dn_indices_count node)) 0
         in Inr (device_load_element (de_mem de) data_ptr linear (dn_prim_dt node), sc))
      else if dn_kind node = kFieldLoad then
        (case de_roots de of
           None \<Rightarrow> Inr (0, sc)
         | Some roots \<Rightarrow>
             if dn_arg_buffer_offset node < 0 then Inr (0, sc)
             else
               (let root_ptr = roots (dn_arg_buffer_offset node);
                    elem_idx = device_linear indices sc (dn_indices_offset node)
                                 (nat (dn_indices_count node)) 0
                in Inr (device_load_element (de_mem de) (root_ptr + dn_const_value node) elem_idx
                          (dn_prim_dt node), sc)))
      else Inr (0, sc))"

section \<open>Bytecode in memory\<close>

definition load_i32 :: "memory \<Rightarrow> int \<Rightarrow> int" where
  "load_i32 m a = sign_extend 4 (load_uint m a 4)"

definition load_u32 :: "memory \<Rightarrow> int \<Rightarrow> int" where
  "load_u32 m a = load_uint m a 4"

definition load_i64 :: "memory \<Rightarrow> int \<Rightarrow> int" where
  "load_i64 m a = sign_extend 8 (load_uint m a 8)"

definition header_ptr :: "memory \<Rightarrow> int \<Rightarrow> int \<Rightarrow> dev_stack_header" where
  "header_ptr m p i =
     (let a = p + 16 * i in
      \<lparr>dh_root_node_idx = load_i32 m a, dh_entry_size_bytes = load_u32 m (a + 4),
       dh_max_size_compile_time = load_u32 m (a + 8), dh_heap_kind = load_u32 m (a + 12)\<rparr>)"

definition node_ptr :: "memory \<Rightarrow> int \<Rightarrow> int \<Rightarrow> dev_node" where
  "node_ptr m p i =
     (let a = p + 48 * i in
      \<lparr>dn_kind = load_i32 m a, dn_operand_a = load_i32 m (a + 4),
       dn_operand_b = load_i32 m (a + 8), dn_body_node_idx = load_i32 m (a + 12),
       dn_var_id = load_i32 m (a + 16), dn_prim_dt = load_i32 m (a + 20),
       dn_arg_buffer_offset = load_i32 m (a + 24), dn_indices_offset = load_i32 m (a + 28),
       dn_indices_count = load_i32 m (a + 32), dn_pad0 = load_i32 m (a + 36),
       dn_const_value = load_i64 m (a + 40)\<rparr>)"

definition index_ptr :: "memory \<Rightarrow> int \<Rightarrow> int \<Rightarrow> int" where
  "index_ptr m p i = load_i32 m (p + 4 * i)"

section \<open>The sizer\<close>

text \<open>The adstack fields of \<^verbatim>\<open>LLVMRuntime\<close> the sizer writes; the two arrays as functions.\<close>

record adstack_runtime =
  ar_max_sizes :: "nat \<Rightarrow> nat"
  ar_offsets :: "nat \<Rightarrow> nat"
  ar_per_thread_stride :: nat
  ar_per_thread_stride_float :: nat
  ar_per_thread_stride_int :: nat

definition align_up_8 :: "nat \<Rightarrow> nat" where
  "align_up_8 n = u64 (n + 7) div 8 * 8"

definition adstack_step :: "nat \<Rightarrow> nat \<Rightarrow> nat" where
  "adstack_step entry_size_bytes max_size = align_up_8 (u64 (8 + u64 (entry_size_bytes * max_size)))"

definition sizer_max_size ::
  "nat \<Rightarrow> dev_env \<Rightarrow> (int \<Rightarrow> dev_node) \<Rightarrow> (int \<Rightarrow> int) \<Rightarrow> dev_stack_header \<Rightarrow> scope \<Rightarrow>
   (nat \<times> scope) result" where
  "sizer_max_size f de nodes indices sh sc =
     (if dh_root_node_idx sh < 0
      then Inr (if 0 < dh_max_size_compile_time sh then nat (dh_max_size_compile_time sh) else 1, sc)
      else bindE (device_eval_node f de nodes indices (dh_root_node_idx sh) sc) (\<lambda>(v, sc').
             Inr (nat (if v < 1 then 1 else v), sc')))"

text \<open>The loop over the stacks, \<open>i\<close> the current one, \<open>n\<close> still to go.\<close>

fun sizer_loop ::
  "nat \<Rightarrow> dev_env \<Rightarrow> (int \<Rightarrow> dev_stack_header) \<Rightarrow> (int \<Rightarrow> dev_node) \<Rightarrow> (int \<Rightarrow> int) \<Rightarrow> nat \<Rightarrow> nat \<Rightarrow>
   scope \<Rightarrow> nat \<Rightarrow> nat \<Rightarrow> adstack_runtime \<Rightarrow> adstack_runtime result" where
  "sizer_loop f de headers nodes indices 0 i sc off_float off_int rt =
     Inr (rt\<lparr>ar_per_thread_stride := off_int, ar_per_thread_stride_float := off_float,
             ar_per_thread_stride_int := off_int\<rparr>)"
| "sizer_loop f de headers nodes indices (Suc n) i sc off_float off_int rt =
     (let sh = headers (int i) in
      bindE (sizer_max_size f de nodes indices sh sc) (\<lambda>(max_size, sc').
        (let step = adstack_step (nat (dh_entry_size_bytes sh)) max_size;
             rt' = rt\<lparr>ar_max_sizes := (ar_max_sizes rt)(i := max_size)\<rparr>
         in if dh_heap_kind sh = 0
            then sizer_loop f de headers nodes indices n (Suc i) sc' (u64 (off_float + step)) off_int
                   (rt'\<lparr>ar_offsets := (ar_offsets rt)(i := off_float)\<rparr>)
            else sizer_loop f de headers nodes indices n (Suc i) sc' off_float (u64 (off_int + step))
                   (rt'\<lparr>ar_offsets := (ar_offsets rt)(i := off_int)\<rparr>))))"

text \<open>
  \<^verbatim>\<open>runtime_eval_adstack_size_expr\<close> on a bytecode blob at address \<open>bytecode\<close>. The number of
  nodes bounds the descent of a well-formed blob and is its fuel.
\<close>

definition runtime_eval_adstack_size_expr ::
  "dev_env \<Rightarrow> int \<Rightarrow> adstack_runtime \<Rightarrow> adstack_runtime result" where
  "runtime_eval_adstack_size_expr de bytecode rt =
     (let m = de_mem de;
          n_stacks = load_u32 m bytecode;
          total_nodes = load_u32 m (bytecode + 4);
          stack_headers = bytecode + 16;
          nodes = stack_headers + 16 * n_stacks;
          indices = nodes + 48 * total_nodes
      in sizer_loop (Suc (nat total_nodes)) de (header_ptr m stack_headers) (node_ptr m nodes)
           (index_ptr m indices) (nat n_stacks) 0 (\<lambda>_. 0) 0 0 rt)"

end
