(* ===== verification/EncoderCorrect.thy ===== *)
theory EncoderCorrect
  imports DeviceInterp
begin

text \<open>
  Correctness of the encoder against the device interpreter: on a vector that represents a
  closed tree, the bytecode the encoder emits on the LLVM path makes the interpreter return the
  meaning of the tree.
\<close>

section \<open>The passes compute what their names say\<close>

fun has_device_leaf :: "bool \<Rightarrow> size_expr \<Rightarrow> bool" where
  "has_device_leaf fl (ExternalTensorRead p is dt) \<longleftrightarrow> True"
| "has_device_leaf fl (FieldLoad s is) \<longleftrightarrow> fl"
| "has_device_leaf fl (Binary f a b) \<longleftrightarrow> has_device_leaf fl a \<or> has_device_leaf fl b"
| "has_device_leaf fl (MaxOverRange v a b c) \<longleftrightarrow>
     has_device_leaf fl a \<or> has_device_leaf fl b \<or> has_device_leaf fl c"
| "has_device_leaf fl t \<longleftrightarrow> False"

lemma at_scan:
  assumes "in_range ns i"
  shows "at d (scan f ns) i = f (node_at ns i) (take (nat i) (scan f ns))"
  using assms by (simp add: in_range_def node_at_def scan_nth nat_less_iff)

lemma represents_child:
  "represents ns j t \<Longrightarrow> j < i \<Longrightarrow> in_range ns i \<Longrightarrow> at d (take (nat i) xs) j = at d xs j"
  using represents_in_range [of ns j t] by (simp add: in_range_def at_take)

lemma represents_nonneg: "represents ns i t \<Longrightarrow> 0 \<le> i"
  using represents_in_range by (auto simp: in_range_def)

lemma contains_device_leaf_correct:
  "represents ns i t \<Longrightarrow> at False (compute_contains_device_leaf ns fl) i \<longleftrightarrow> has_device_leaf fl t"
proof (induction t arbitrary: i)
  case (Binary f a b)
  then have "at False (compute_contains_device_leaf ns fl) i \<longleftrightarrow>
     at False (compute_contains_device_leaf ns fl) (sn_operand_a (node_at ns i)) \<or>
     at False (compute_contains_device_leaf ns fl) (sn_operand_b (node_at ns i))"
    by (cases f) (auto simp: compute_contains_device_leaf_def at_scan contains_device_leaf_step_def
        represents_child represents_nonneg Let_def)
  then show ?case using Binary by simp
next
  case (MaxOverRange v a b c)
  then have "at False (compute_contains_device_leaf ns fl) i \<longleftrightarrow>
     at False (compute_contains_device_leaf ns fl) (sn_operand_a (node_at ns i)) \<or>
     at False (compute_contains_device_leaf ns fl) (sn_operand_b (node_at ns i)) \<or>
     at False (compute_contains_device_leaf ns fl) (sn_body_node_idx (node_at ns i))"
    by (auto simp: compute_contains_device_leaf_def at_scan contains_device_leaf_step_def
        represents_child represents_nonneg Let_def)
  then show ?case using MaxOverRange by simp
qed (auto simp: compute_contains_device_leaf_def at_scan contains_device_leaf_step_def
    leaf_slots_def Let_def)

lemma collect_idx_vars_eq: "collect_idx_vars is = index_vars is"
  by (auto simp: collect_idx_vars_def index_vars_def)

lemma free_vars_correct:
  "represents ns i t \<Longrightarrow> at {} (compute_free_vars ns) i = fv t"
proof (induction t arbitrary: i)
  case (Binary f a b)
  then have "at {} (compute_free_vars ns) i =
     at {} (compute_free_vars ns) (sn_operand_a (node_at ns i)) \<union>
     at {} (compute_free_vars ns) (sn_operand_b (node_at ns i))"
    using represents_child [of ns _ a i "{}" "compute_free_vars ns"]
      represents_child [of ns _ b i "{}" "compute_free_vars ns"]
    by (cases f) (auto simp: compute_free_vars_def at_scan free_vars_step_def)
  then show ?case using Binary by simp
next
  case (MaxOverRange v a b c)
  then have "at {} (compute_free_vars ns) i =
     at {} (compute_free_vars ns) (sn_operand_a (node_at ns i)) \<union>
     at {} (compute_free_vars ns) (sn_operand_b (node_at ns i)) \<union>
     (at {} (compute_free_vars ns) (sn_body_node_idx (node_at ns i)) - {v})"
    using represents_child [of ns _ a i "{}" "compute_free_vars ns"]
      represents_child [of ns _ b i "{}" "compute_free_vars ns"]
      represents_child [of ns _ c i "{}" "compute_free_vars ns"]
    by (simp add: compute_free_vars_def at_scan free_vars_step_def)
  then show ?case using MaxOverRange by simp
qed (simp_all add: compute_free_vars_def at_scan free_vars_step_def collect_idx_vars_eq)

section \<open>The meaning depends on free variables only\<close>

lemma mapE_resolve_cong:
  assumes "\<And>v. v \<in> index_vars is \<Longrightarrow> bv v = bv' v"
  shows "mapE (resolve_index bv) is = mapE (resolve_index bv') is"
    and "mapE (resolve_index32 bv) is = mapE (resolve_index32 bv') is"
  using assms
  by (auto intro!: mapE_cong simp: resolve_index_def resolve_index32_def index_vars_def)

lemma size_value_cong:
  "(\<And>v. v \<in> fv t \<Longrightarrow> bv v = bv' v) \<Longrightarrow> size_value e t bv = size_value e t bv'"
proof (induction t arbitrary: bv bv')
  case (Binary f a b)
  have "size_value e a bv = size_value e a bv'" "size_value e b bv = size_value e b bv'"
    using Binary.prems by (auto intro: Binary.IH)
  then show ?case by simp
next
  case (MaxOverRange v a b c)
  have "size_value e c (bv(v \<mapsto> i)) = size_value e c (bv'(v \<mapsto> i))" for i
    using MaxOverRange.prems by (intro MaxOverRange.IH(3)) auto
  moreover have "size_value e a bv = size_value e a bv'" "size_value e b bv = size_value e b bv'"
    using MaxOverRange.prems by (auto intro: MaxOverRange.IH)
  ultimately show ?case by simp
next
  case (FieldLoad s ix)
  then show ?case using mapE_resolve_cong(2) [of ix bv bv'] by (simp add: field_value_def split: option.split)
next
  case (ExternalTensorRead p ix dt)
  then show ?case using mapE_resolve_cong(1) [of ix bv bv']
    by (simp add: external_read_value_def split: option.split list.split)
qed simp_all

section \<open>Strides\<close>

lemma wrap32_eq_iff: "wrap32 a = wrap32 b \<longleftrightarrow> a mod 2 ^ 32 = b mod 2 ^ 32"
proof -
  have "wrap32 a = wrap32 b \<longleftrightarrow> (a + 2 ^ 31) mod 2 ^ 32 = (b + 2 ^ 31) mod 2 ^ 32"
    by (simp add: wrap32_def)
  also have "\<dots> \<longleftrightarrow> a mod 2 ^ 32 = b mod 2 ^ 32"
    by (simp add: mod_eq_dvd_iff)
  finally show ?thesis .
qed

lemma wrap32_mult_left: "wrap32 (wrap32 a * b) = wrap32 (a * b)"
  by (metis wrap32_eq_iff wrap32_id fits32_wrap32 mod_mult_left_eq)

lemma wrap32_mult_right: "wrap32 (a * wrap32 b) = wrap32 (a * b)"
  by (metis wrap32_mult_left mult.commute)

text \<open>
  The element strides of an ndarray with extents \<open>shs\<close> on every axis but the first: entry \<open>k\<close> is
  the product of the extents after axis \<open>k\<close>.
\<close>

fun elem_strides :: "int list \<Rightarrow> int list" where
  "elem_strides [] = [1]"
| "elem_strides (s # shs) = prod_list (s # shs) # elem_strides shs"

lemma length_elem_strides [simp]: "length (elem_strides shs) = Suc (length shs)"
  by (induction shs) simp_all

lemma etr_strides_gen:
  "etr_strides shape (Suc k) (map wrap32 (elem_strides shs)) =
     bindE (mapE shape (rev [1..<Suc k])) (\<lambda>rshs. Inr (map wrap32 (elem_strides (rev rshs @ shs))))"
proof (induction k arbitrary: shs)
  case 0
  then show ?case by simp
next
  case (Suc k)
  have hd: "wrap32 (hd (map wrap32 (elem_strides shs)) * sh) # map wrap32 (elem_strides shs) =
      map wrap32 (elem_strides (sh # shs))" for sh
    by (cases shs) (simp_all add: wrap32_mult_right mult.commute)
  define R where "R = mapE shape (rev [1..<Suc k])"
  have whole: "mapE shape (rev [1..<Suc (Suc k)]) =
      bindE (shape (Suc k)) (\<lambda>y. bindE R (\<lambda>ys. Inr (y # ys)))"
    by (simp add: R_def)
  have step: "etr_strides shape (Suc (Suc k)) (map wrap32 (elem_strides shs)) =
      bindE (shape (Suc k)) (\<lambda>sh. etr_strides shape (Suc k) (map wrap32 (elem_strides (sh # shs))))"
    by (simp only: etr_strides.simps(2) [of shape "Suc k"] hd) simp
  show ?case
    unfolding step whole Suc.IH R_def [symmetric]
    by (cases "shape (Suc k)"; cases R) simp_all
qed

lemma etr_strides_correct:
  assumes "0 < n"
  shows "etr_strides shape n [1] =
     bindE (mapE shape (rev [1..<n])) (\<lambda>rshs. Inr (map wrap32 (elem_strides (rev rshs))))"
proof -
  obtain k where "n = Suc k" using assms by (cases n) simp_all
  then show ?thesis using etr_strides_gen [of shape k "[]"] by (simp add: fits32_def)
qed

text \<open>The row-major offset is the dot product with the strides.\<close>

lemma row_major_Cons:
  assumes "length is = length shs"
  shows "row_major (i # is) shs = i * prod_list shs + (case is of [] \<Rightarrow> 0 | _ \<Rightarrow> row_major is (tl shs))"
  using assms
proof (induction "is" arbitrary: i shs rule: rev_induct)
  case Nil
  then show ?case by simp
next
  case (snoc j js)
  then obtain ss s where shs: "shs = ss @ [s]" "length ss = length js"
    by (metis length_append_singleton rev_exhaust length_0_conv append_is_Nil_conv not_Cons_self2
        old.nat.inject)
  show ?case
  proof (cases js)
    case Nil
    then show ?thesis using shs by simp
  next
    case (Cons k ks)
    then obtain s0 ss' where ss: "ss = s0 # ss'" using shs by (cases ss) auto
    have "row_major (js @ [j]) (ss' @ [s]) = row_major js ss' * s + j"
      using row_major_snoc [of js ss' j s] Cons shs ss by simp
    moreover have "row_major (i # js @ [j]) (ss @ [s]) = row_major (i # js) ss * s + j"
      using row_major_snoc [of "i # js" ss j s] shs by simp
    ultimately show ?thesis
      using snoc.IH [of ss i] shs ss Cons by (simp add: algebra_simps)
  qed
qed

lemma row_major_dot:
  "length is = Suc (length shs) \<Longrightarrow>
     row_major is shs = sum_list (map2 (*) is (elem_strides shs))"
proof (induction "is" arbitrary: shs)
  case Nil
  then show ?case by simp
next
  case (Cons i js)
  show ?case
  proof (cases shs)
    case Nil
    then show ?thesis using Cons.prems by simp
  next
    case (Cons s ss)
    then obtain k ks where "js = k # ks" using Cons.prems by (cases js) auto
    then show ?thesis
      using row_major_Cons [of js shs i] Cons.IH [of ss] Cons.prems Cons
      by simp
  qed
qed

section \<open>Running one device node\<close>

definition remap_ok :: "var_remap \<Rightarrow> bool" where
  "remap_ok remap \<longleftrightarrow>
     (\<forall>v d. map_of remap v = Some d \<longrightarrow> in_scope d) \<and>
     (\<forall>v w d. map_of remap v = Some d \<longrightarrow> map_of remap w = Some d \<longrightarrow> v = w)"

text \<open>The device scope holds the values of the variables in \<open>V\<close> at their dense slots.\<close>

definition scope_ok :: "var_remap \<Rightarrow> bound_vars \<Rightarrow> scope \<Rightarrow> int set \<Rightarrow> bool" where
  "scope_ok remap bv sc V \<longleftrightarrow> (\<forall>v\<in>V. \<exists>d. map_of remap v = Some d \<and> bv v = Some (sc d))"

text \<open>Only slots of the binders in \<open>B\<close> may have changed: the device does not restore them.\<close>

definition scope_frame :: "var_remap \<Rightarrow> int set \<Rightarrow> scope \<Rightarrow> scope \<Rightarrow> bool" where
  "scope_frame remap B sc sc' \<longleftrightarrow> (\<forall>d. (\<forall>v\<in>B. map_of remap v \<noteq> Some d) \<longrightarrow> sc' d = sc d)"

lemma scope_frame_refl [simp]: "scope_frame remap B sc sc"
  by (simp add: scope_frame_def)

lemma scope_frame_trans:
  "scope_frame remap A sc sc1 \<Longrightarrow> scope_frame remap B sc1 sc2 \<Longrightarrow> scope_frame remap (A \<union> B) sc sc2"
  by (auto simp: scope_frame_def)

lemma scope_frame_mono: "scope_frame remap A sc sc' \<Longrightarrow> A \<subseteq> B \<Longrightarrow> scope_frame remap B sc sc'"
  unfolding scope_frame_def by blast

lemma scope_ok_mono: "scope_ok remap bv sc V \<Longrightarrow> U \<subseteq> V \<Longrightarrow> scope_ok remap bv sc U"
  unfolding scope_ok_def by blast

lemma scope_ok_frame:
  assumes "scope_ok remap bv sc V" "scope_frame remap B sc sc'" "B \<inter> V = {}" "remap_ok remap"
  shows "scope_ok remap bv sc' V"
  unfolding scope_ok_def
proof
  fix v assume v: "v \<in> V"
  then obtain d where d: "map_of remap v = Some d" "bv v = Some (sc d)"
    using assms(1) unfolding scope_ok_def by blast
  have "map_of remap w \<noteq> Some d" if "w \<in> B" for w
    using assms(3,4) d(1) v that unfolding remap_ok_def by blast
  then have "sc' d = sc d" using assms(2) unfolding scope_frame_def by blast
  then show "\<exists>d. map_of remap v = Some d \<and> bv v = Some (sc' d)" using d by auto
qed

lemma scope_ok_bind:
  assumes "scope_ok remap bv sc (V - {v})" "map_of remap v = Some d" "remap_ok remap"
  shows "scope_ok remap (bv(v \<mapsto> i)) (sc(d := i)) V"
  unfolding scope_ok_def
proof
  fix w assume w: "w \<in> V"
  show "\<exists>d'. map_of remap w = Some d' \<and> (bv(v \<mapsto> i)) w = Some ((sc(d := i)) d')"
  proof (cases "w = v")
    case True
    then show ?thesis using assms(2) by simp
  next
    case False
    then obtain d' where d': "map_of remap w = Some d'" "bv w = Some (sc d')"
      using assms(1) w unfolding scope_ok_def by blast
    then have "d' \<noteq> d" using assms(2,3) False unfolding remap_ok_def by blast
    then show ?thesis using d' False by simp
  qed
qed

definition dev_computes ::
  "env \<Rightarrow> dev_env \<Rightarrow> var_remap \<Rightarrow> size_expr \<Rightarrow> (int \<Rightarrow> dev_node) \<Rightarrow> (int \<Rightarrow> int) \<Rightarrow> nat \<Rightarrow> int \<Rightarrow> bool" where
  "dev_computes e de remap t nodes indices fd idx \<longleftrightarrow>
     (\<forall>sc bv val. scope_ok remap bv sc (fv t) \<longrightarrow> size_value e t bv = Inr val \<longrightarrow>
        (\<exists>sc'. device_eval_node fd de nodes indices idx sc = Inr (val, sc') \<and>
               scope_frame remap (binders t) sc sc'))"

lemma dev_computesD:
  assumes "dev_computes e de remap t nodes indices fd idx"
    and "scope_ok remap bv sc (fv t)" "size_value e t bv = Inr val"
  obtains sc' where "device_eval_node fd de nodes indices idx sc = Inr (val, sc')"
    "scope_frame remap (binders t) sc sc'"
  using assms unfolding dev_computes_def by blast

lemma dev_computes_Const:
  assumes "nodes idx = (make_empty_device_node kConst)\<lparr>dn_const_value := c\<rparr>"
    and "\<And>bv val. size_value e t bv = Inr val \<Longrightarrow> val = c"
  shows "dev_computes e de remap t nodes indices (Suc fd) idx"
  using assms by (auto simp: dev_computes_def make_empty_device_node_def)

lemma dev_computes_BoundVariable:
  assumes "nodes idx = (make_empty_device_node kBoundVariable)\<lparr>dn_var_id := d\<rparr>"
    and "map_of remap v = Some d" "remap_ok remap"
  shows "dev_computes e de remap (BoundVariable v) nodes indices (Suc fd) idx"
  using assms
  by (auto simp: dev_computes_def make_empty_device_node_def device_kind_defs scope_ok_def
      remap_ok_def split: option.splits)

lemma dev_computes_Binary:
  assumes node: "nodes idx = (make_empty_device_node (device_bin_kind (bin_kind g)))
      \<lparr>dn_operand_a := ia, dn_operand_b := ib\<rparr>"
    and a: "dev_computes e de remap a nodes indices fd ia"
    and b: "dev_computes e de remap b nodes indices fd ib"
    and ok: "remap_ok remap" "binders a \<inter> fv b = {}"
  shows "dev_computes e de remap (Binary g a b) nodes indices (Suc fd) idx"
  unfolding dev_computes_def
proof (intro allI impI)
  fix sc bv val
  assume sc: "scope_ok remap bv sc (fv (Binary g a b))"
    and val: "size_value e (Binary g a b) bv = Inr val"
  from val obtain x y where xy: "size_value e a bv = Inr x" "size_value e b bv = Inr y"
    "val = binary_value (bin_kind g) x y" by (auto simp: result_simps)
  obtain sc1 where sc1: "device_eval_node fd de nodes indices ia sc = Inr (x, sc1)"
    "scope_frame remap (binders a) sc sc1"
    using dev_computesD [OF a _ xy(1)] sc scope_ok_mono by (metis Un_upper1 fv.simps(3))
  have "scope_ok remap bv sc1 (fv b)"
    using scope_ok_frame [OF scope_ok_mono [OF sc] sc1(2) ok(2,1)] by simp
  then obtain sc2 where sc2: "device_eval_node fd de nodes indices ib sc1 = Inr (y, sc2)"
    "scope_frame remap (binders b) sc1 sc2"
    using dev_computesD [OF b _ xy(2)] by metis
  show "\<exists>sc'. device_eval_node (Suc fd) de nodes indices idx sc = Inr (val, sc') \<and>
      scope_frame remap (binders (Binary g a b)) sc sc'"
    using sc1 sc2 node xy(3) scope_frame_trans [OF sc1(2) sc2(2)]
    by (cases g) (auto simp: make_empty_device_node_def device_bin_kind_def device_kind_defs
        binary_value_def Let_def)
qed

lemma mapE_all: "mapE f xs = Inr ys \<Longrightarrow> x \<in> set xs \<Longrightarrow> \<exists>y. f x = Inr y"
  by (induction xs arbitrary: ys) (auto simp: result_simps)

lemma dev_computes_MaxOverRange:
  assumes node: "nodes idx = (make_empty_device_node kMaxOverRange)
      \<lparr>dn_operand_a := ia, dn_operand_b := ib, dn_body_node_idx := ic, dn_var_id := d\<rparr>"
    and a: "dev_computes e de remap a nodes indices fd ia"
    and b: "dev_computes e de remap b nodes indices fd ib"
    and c: "dev_computes e de remap c nodes indices fd ic"
    and ok: "remap_ok remap" "map_of remap v = Some d" "no_clobber (MaxOverRange v a b c)"
    and cap: "max_over_range_iterations e = 2 ^ 24"
  shows "dev_computes e de remap (MaxOverRange v a b c) nodes indices (Suc fd) idx"
  unfolding dev_computes_def
proof (intro allI impI)
  fix sc bv val
  assume sc: "scope_ok remap bv sc (fv (MaxOverRange v a b c))"
    and val: "size_value e (MaxOverRange v a b c) bv = Inr val"
  from val cap obtain lo hi vs where v: "size_value e a bv = Inr lo" "size_value e b bv = Inr hi"
    "\<not> (lo < hi \<and> 2 ^ 24 < wrap64 (hi - lo))"
    "mapE (\<lambda>i. size_value e c (bv(v \<mapsto> i))) [lo..hi - 1] = Inr vs"
    "val = Max (insert 0 (set vs))" by (auto simp: result_simps)
  have d: "in_scope d" using ok by (auto simp: remap_ok_def)
  obtain sc1 where sc1: "device_eval_node fd de nodes indices ia sc = Inr (lo, sc1)"
    "scope_frame remap (binders a) sc sc1"
    using dev_computesD [OF a scope_ok_mono [OF sc] v(1)] by (metis Un_upper1 Un_assoc fv.simps(4))
  have "scope_ok remap bv sc1 (fv b)"
    using scope_ok_frame [OF scope_ok_mono [OF sc, of "fv b"] sc1(2) _ ok(1)] ok(3) by auto
  then obtain sc2 where sc2: "device_eval_node fd de nodes indices ib sc1 = Inr (hi, sc2)"
    "scope_frame remap (binders b) sc1 sc2"
    using dev_computesD [OF b _ v(2)] by metis
  let ?B = "insert v (binders a \<union> binders b \<union> binders c)"
  let ?P = "\<lambda>s. scope_frame remap ?B sc s \<and> scope_ok remap bv s (fv c - {v})"
  let ?body = "\<lambda>i s. device_eval_node fd de nodes indices ic (if in_scope d then s(d := i) else s)"
  have fr2: "scope_frame remap (binders a \<union> binders b) sc sc2"
    using scope_frame_trans [OF sc1(2) sc2(2)] .
  have P2: "?P sc2"
  proof
    show "scope_frame remap ?B sc sc2" by (rule scope_frame_mono [OF fr2]) auto
    show "scope_ok remap bv sc2 (fv c - {v})"
      using scope_ok_frame [OF scope_ok_mono [OF sc, of "fv c - {v}"] fr2 _ ok(1)] ok(3) by auto
  qed
  have body: "computes ?P (?body i s) (size_value e c (bv(v \<mapsto> i)))"
    if i: "lo \<le> i" "i < lo + int (nat (hi - lo))" and s: "?P s" for i s
  proof -
    have "i \<in> set [lo..hi - 1]" using i by (auto split: if_splits)
    then obtain y where y: "size_value e c (bv(v \<mapsto> i)) = Inr y" using mapE_all [OF v(4)] by blast
    have upd: "scope_ok remap (bv(v \<mapsto> i)) (s(d := i)) (fv c)"
      using scope_ok_bind [OF conjunct2 [OF s] ok(2,1)] .
    then obtain s' where s': "device_eval_node fd de nodes indices ic (s(d := i)) = Inr (y, s')"
      "scope_frame remap (binders c) (s(d := i)) s'"
      using dev_computesD [OF c _ y] by metis
    have fr: "scope_frame remap (insert v (binders c)) s s'"
      using s'(2) ok(2) by (auto simp: scope_frame_def)
    then have "scope_frame remap ?B sc s'"
      using s scope_frame_trans [of remap ?B sc s "insert v (binders c)" s']
      by (auto elim!: scope_frame_mono)
    moreover have "scope_ok remap bv s' (fv c - {v})"
      using scope_ok_frame [OF conjunct2 [OF s] fr _ ok(1)] ok(3) by auto
    ultimately show ?thesis using s'(1) y d by simp
  qed
  have "[lo..lo + int (nat (hi - lo)) - 1] = [lo..hi - 1]"
    by (cases "lo \<le> hi") simp_all
  then obtain sc3 where sc3: "mor_loop ?body (nat (hi - lo)) lo 0 sc2 = Inr (val, sc3)" "?P sc3"
    using mor_loop_correct [of lo "nat (hi - lo)" ?P ?body "\<lambda>i. size_value e c (bv(v \<mapsto> i))" sc2 0,
        OF body P2] v(4,5) by auto
  show "\<exists>sc'. device_eval_node (Suc fd) de nodes indices idx sc = Inr (val, sc') \<and>
      scope_frame remap (binders (MaxOverRange v a b c)) sc sc'"
    using sc1(1) sc2(1) sc3 v(3) node
    by (auto simp: make_empty_device_node_def device_kind_defs Let_def cong: if_cong)
qed

definition reads_as :: "(int \<Rightarrow> 'a) \<Rightarrow> int \<Rightarrow> 'a list \<Rightarrow> bool" where
  "reads_as g off xs \<longleftrightarrow> (\<forall>k < length xs. g (off + int k) = xs ! k)"

lemma reads_as_Cons:
  "reads_as g off (x # xs) \<longleftrightarrow> g off = x \<and> reads_as g (off + 1) xs"
  by (auto simp: reads_as_def nth_Cons algebra_simps split: nat.splits)

lemma reads_as_Nil [simp]: "reads_as g off []"
  by (simp add: reads_as_def)

lemma reads_as_append:
  "reads_as g off (xs @ ys) \<longleftrightarrow> reads_as g off xs \<and> reads_as g (off + int (length xs)) ys"
  by (induction xs arbitrary: off) (simp_all add: reads_as_Cons algebra_simps)

lemma device_linear_interleave:
  assumes "length raws = length strides" "reads_as indices off (interleave raws strides)" "fits64 lin"
  shows "device_linear indices sc off (length raws) lin =
     wrap64 (lin + sum_list (map2 (\<lambda>r s. scope_index sc r * s) raws strides))"
  using assms
proof (induction raws strides arbitrary: off lin rule: list_induct2)
  case Nil
  then show ?case by simp
next
  case (Cons r rs s ss)
  let ?l = "wrap64 (lin + wrap64 (scope_index sc r * s))"
  have "device_linear indices sc (off + 2) (length rs) ?l =
      wrap64 (?l + sum_list (map2 (\<lambda>r s. scope_index sc r * s) rs ss))"
    using Cons.prems by (intro Cons.IH) (auto simp: reads_as_Cons algebra_simps)
  then show ?case
    using Cons.prems by (simp add: reads_as_Cons algebra_simps)
qed

lemma scope_index_encoded:
  assumes "encode_index remap raw = Inr r" "resolve_index bv raw = Inr x"
    and "scope_ok remap bv sc (index_vars is)" "raw \<in> set is" "remap_ok remap"
  shows "scope_index sc r = x"
proof (cases "0 \<le> raw")
  case True
  then show ?thesis using assms by (simp add: encode_index_def resolve_index_def scope_index_def)
next
  case False
  then have "- (raw + 1) \<in> index_vars is" using assms(4) by (auto simp: index_vars_def)
  then obtain d where d: "map_of remap (- (raw + 1)) = Some d" "bv (- (raw + 1)) = Some (sc d)"
    using assms(3) unfolding scope_ok_def by blast
  have "in_scope d" using assms(5) d(1) unfolding remap_ok_def by blast
  then show ?thesis
    using assms(1,2) False d
    by (auto simp: encode_index_def resolve_index_def remap_var_id_def scope_index_def in_scope_def
        Let_def)
qed

lemma scope_indices_encoded:
  assumes "mapE (encode_index remap) is = Inr raws" "mapE (resolve_index bv) is = Inr ix"
    and "scope_ok remap bv sc (index_vars is)" "remap_ok remap"
  shows "map (scope_index sc) raws = ix"
proof (rule nth_equalityI)
  show len: "length (map (scope_index sc) raws) = length ix"
    using assms(1,2) [THEN mapE_length] by simp
  fix k assume "k < length (map (scope_index sc) raws)"
  then have k: "k < length is" using mapE_length [OF assms(1)] by simp
  show "map (scope_index sc) raws ! k = ix ! k"
    using scope_index_encoded [OF mapE_nth [OF assms(1) k] mapE_nth [OF assms(2) k] assms(3) _ assms(4)]
      k mapE_length [OF assms(1)] by simp
qed

text \<open>
  What the device needs of the launch: the argument buffer it is handed carries the data pointers
  the host sees, and element strides stay within the \<^verbatim>\<open>int32\<close> slots of the index table.
\<close>

fun device_ok :: "env \<Rightarrow> dev_env \<Rightarrow> size_expr \<Rightarrow> bool" where
  "device_ok e de (Binary f a b) \<longleftrightarrow> device_ok e de a \<and> device_ok e de b"
| "device_ok e de (MaxOverRange v a b c) \<longleftrightarrow> device_ok e de a \<and> device_ok e de b \<and> device_ok e de c"
| "device_ok e de (ExternalTensorRead p is dt) \<longleftrightarrow>
     (case en_ctx e of
        None \<Rightarrow> False
      | Some ctx \<Rightarrow>
          (case lc_args_type ctx of
             None \<Rightarrow> False
           | Some off \<Rightarrow>
               data_ptr_of ctx (hd p) = Some (load_uint (de_mem de)
                 (de_arg_buffer de + wrap32 (off (p @ [data_ptr_pos]))) 8) \<and>
               (case mapE (\<lambda>k. shape_at (en_mem e) ctx p (int k)) (rev [1..<length is]) of
                  Inl _ \<Rightarrow> False
                | Inr rshs \<Rightarrow> list_all fits32 (elem_strides (rev rshs)))))"
| "device_ok e de t \<longleftrightarrow> True"

lemma dev_computes_ExternalTensorRead:
  assumes node: "nodes idx = (make_empty_device_node kExternalTensorRead)
      \<lparr>dn_arg_buffer_offset := wrap32 (get_off (p @ [data_ptr_pos])), dn_prim_dt := wrap32 dt,
       dn_indices_offset := off, dn_indices_count := int (length is)\<rparr>"
    and ctx: "en_ctx e = Some ctx" "lc_args_type ctx = Some get_off"
    and strides: "(if is = [] then Inr [] else etr_strides
        (\<lambda>k. shape_at (en_mem e) ctx p (int k)) (length is) [1]) = Inr strides"
    and raws: "mapE (encode_index remap) is = Inr raws"
    and reads: "reads_as indices off (interleave raws strides)"
    and ok: "remap_ok remap" "device_ok e de (ExternalTensorRead p is dt)" "de_mem de = en_mem e"
  shows "dev_computes e de remap (ExternalTensorRead p is dt) nodes indices (Suc fd) idx"
  unfolding dev_computes_def
proof (intro allI impI)
  fix sc bv val
  assume sc: "scope_ok remap bv sc (fv (ExternalTensorRead p is dt))"
    and val: "size_value e (ExternalTensorRead p is dt) bv = Inr val"
  let ?shape = "\<lambda>k. shape_at (en_mem e) ctx p (int k)"
  from val ctx ok(2) obtain ptr ix rshs where v: "data_ptr_of ctx (hd p) = Some ptr"
    "mapE (resolve_index bv) is = Inr ix" "mapE ?shape (rev [1..<length is]) = Inr rshs"
    "load_element (en_mem e) ptr (wrap64 (row_major ix (rev rshs))) dt = Inr val"
    "list_all fits32 (elem_strides (rev rshs))"
    "ptr = load_uint (de_mem de) (de_arg_buffer de + wrap32 (get_off (p @ [data_ptr_pos]))) 8"
    by (auto simp: external_read_value_def result_simps split: list.splits option.splits)
  have len: "length ix = length is" "length raws = length is" "length rshs = length is - 1"
    using v(2,3) raws [THEN mapE_length] by (auto dest!: mapE_length)
  have ix: "map (scope_index sc) raws = ix"
    using scope_indices_encoded [OF raws v(2) _ ok(1)] sc by simp
  have st: "strides = (if is = [] then [] else elem_strides (rev rshs))"
  proof (cases "is = []")
    case False
    then show ?thesis
      using strides etr_strides_correct [of "length is" ?shape] v(3,5) map_wrap32_id by simp
  qed (use strides in simp)
  have "sum_list (map2 (\<lambda>r s. scope_index sc r * s) raws strides) = row_major ix (rev rshs)"
  proof (cases "is = []")
    case False
    then have "row_major ix (rev rshs) = sum_list (map2 (*) (map (scope_index sc) raws) strides)"
      using row_major_dot [of ix "rev rshs"] len ix st by simp
    then show ?thesis by (simp add: zip_map1 comp_def case_prod_unfold)
  qed (use len in simp)
  moreover have "length strides = length is"
    using st len by (cases "is") auto
  ultimately have "device_linear indices sc off (length is) 0 = wrap64 (row_major ix (rev rshs))"
    using device_linear_interleave [of raws strides indices off 0 sc] reads len
    by (simp add: fits64_def)
  then show "\<exists>sc'. device_eval_node (Suc fd) de nodes indices idx sc = Inr (val, sc') \<and>
      scope_frame remap (binders (ExternalTensorRead p is dt)) sc sc'"
    using node v(4,6) ok(3)
    by (auto simp: make_empty_device_node_def device_kind_defs device_load_element_def
        load_element_def Let_def split: option.splits)
qed

section \<open>The encoder emits what the interpreter runs\<close>

definition enc_grows :: "enc_state \<Rightarrow> enc_state \<Rightarrow> bool" where
  "enc_grows st st' \<longleftrightarrow>
     (\<exists>ns. ec_nodes st' = ec_nodes st @ ns) \<and> (\<exists>is. ec_indices st' = ec_indices st @ is)"

lemma enc_grows_refl [simp]: "enc_grows st st"
  by (simp add: enc_grows_def)

lemma enc_grows_trans: "enc_grows a b \<Longrightarrow> enc_grows b c \<Longrightarrow> enc_grows a c"
  by (auto simp: enc_grows_def)

text \<open>
  What one \<^verbatim>\<open>encode_subtree\<close> call guarantees: the vectors only grow, the returned root is the last
  node, and any later state of the vectors still runs the root to the meaning of the tree.
\<close>

definition encodes ::
  "env \<Rightarrow> dev_env \<Rightarrow> var_remap \<Rightarrow> size_expr \<Rightarrow> enc_state \<Rightarrow> int \<Rightarrow> enc_state \<Rightarrow> bool" where
  "encodes e de remap t st idx st' \<longleftrightarrow>
     enc_grows st st' \<and> 0 \<le> idx \<and> idx < int (length (ec_nodes st')) \<and>
     cache_ok e (ec_cache st') \<and> (ec_reads st' = None \<longleftrightarrow> ec_reads st = None) \<and>
     (\<forall>nodes indices fd. reads_as nodes 0 (ec_nodes st') \<longrightarrow> reads_as indices 0 (ec_indices st') \<longrightarrow>
        idx < int fd \<longrightarrow> dev_computes e de remap t nodes indices fd idx)"

lemma reads_as_grows:
  assumes "enc_grows st st'"
  shows "reads_as nodes 0 (ec_nodes st') \<Longrightarrow> reads_as nodes 0 (ec_nodes st)"
    and "reads_as indices 0 (ec_indices st') \<Longrightarrow> reads_as indices 0 (ec_indices st)"
  using assms by (auto simp: enc_grows_def reads_as_append)

lemma emit_eq: "emit dn st = Inr (idx, st') \<longleftrightarrow>
    idx = int (length (ec_nodes st)) \<and> st' = st\<lparr>ec_nodes := ec_nodes st @ [dn]\<rparr>"
  by (auto simp: emit_def)

lemma encodes_emit:
  assumes "enc_grows st st1" "cache_ok e (ec_cache st1)" "ec_reads st1 = None \<longleftrightarrow> ec_reads st = None"
    and "emit dn st1 = Inr (idx, st')"
    and "\<And>nodes indices fd. reads_as nodes 0 (ec_nodes st1) \<Longrightarrow> reads_as indices 0 (ec_indices st1) \<Longrightarrow>
      nodes idx = dn \<Longrightarrow> length (ec_nodes st1) \<le> fd \<Longrightarrow> dev_computes e de remap t nodes indices (Suc fd) idx"
  shows "encodes e de remap t st idx st'"
proof -
  have "dev_computes e de remap t nodes indices fd idx"
    if "reads_as nodes 0 (ec_nodes st')" "reads_as indices 0 (ec_indices st')" "idx < int fd"
    for nodes indices fd
    using that assms(4,5) by (cases fd) (auto simp: emit_eq reads_as_append reads_as_Cons)
  then show ?thesis
    using assms by (auto simp: encodes_def emit_eq enc_grows_def)
qed

definition foldable :: "size_expr \<Rightarrow> bool" where
  "foldable t \<longleftrightarrow> \<not> has_device_leaf False t \<and> fv t = {}"

lemma foldable_iff:
  assumes "represents src i t"
  shows "\<not> at False (compute_contains_device_leaf src False) i \<and> at {} (compute_free_vars src) i = {}
     \<longleftrightarrow> foldable t"
  using assms by (simp add: contains_device_leaf_correct free_vars_correct foldable_def)

text \<open>A closed subtree without device leaves becomes one constant: the host evaluator's value.\<close>

lemma encode_foldable:
  assumes rep: "represents src i t" and fold: "foldable t"
    and st: "cache_ok e (ec_cache st)" "ec_reads st \<noteq> None \<Longrightarrow> readable e t"
    and enc: "encode_subtree f src i (compute_contains_device_leaf src False) (compute_free_vars src)
        remap e fl st = Inr (idx, st')"
  shows "encodes e de remap t st idx st'"
proof -
  obtain f' where f: "f = Suc f'" using enc by (cases f) auto
  let ?s = "\<lparr>es_bound = Map.empty, es_cache = ec_cache st, es_reads = ec_reads st\<rparr>"
  obtain val s where ev: "evaluate_node (eval_fuel src) src i e ?s = Inr (val, s)"
    and emit: "emit ((make_empty_device_node kConst)\<lparr>dn_const_value := val\<rparr>)
        (st\<lparr>ec_cache := es_cache s, ec_reads := es_reads s\<rparr>) = Inr (idx, st')"
    using enc rep fold foldable_iff [OF rep] represents_in_range [OF rep]
    by (auto simp: f result_simps)
  have "int (depth t) < int (eval_fuel src)"
    using represents_depth [OF rep] represents_in_range [OF rep]
    by (simp add: eval_fuel_def in_range_def)
  then have "computes (eval_post e [t] ?s) (evaluate_node (eval_fuel src) src i e ?s)
      (size_value e t Map.empty)"
    using evaluate_node_correct [OF rep, of "eval_fuel src" e ?s] st by simp
  then have val: "size_value e t Map.empty = Inr val" and post: "eval_post e [t] ?s s"
    using ev by (cases "size_value e t Map.empty"; simp)+
  have "size_value e t bv = Inr val" for bv
    using val size_value_cong [of t bv Map.empty e] fold by (simp add: foldable_def)
  then show ?thesis
    using eval_postD [OF post]
    by (intro encodes_emit [OF _ _ _ emit] dev_computes_Const) (auto simp: enc_grows_def)
qed

text \<open>Operands emitted before a parent still run to their meaning once the parent is emitted.\<close>

lemma encodes_later:
  assumes "encodes e de remap t st idx st1" "enc_grows st1 st2"
    and "reads_as nodes 0 (ec_nodes st2)" "reads_as indices 0 (ec_indices st2)"
    and "length (ec_nodes st2) \<le> fd"
  shows "dev_computes e de remap t nodes indices fd idx"
proof -
  have "length (ec_nodes st1) \<le> length (ec_nodes st2)" using assms(2) by (auto simp: enc_grows_def)
  then show ?thesis using assms reads_as_grows [OF assms(2)] by (auto simp: encodes_def)
qed

lemma encodesD:
  assumes "encodes e de remap t st idx st'"
  shows "enc_grows st st'" "cache_ok e (ec_cache st')" "ec_reads st' = None \<longleftrightarrow> ec_reads st = None"
  using assms by (simp_all add: encodes_def)

abbreviation encode_llvm ::
  "nat \<Rightarrow> ser_expr \<Rightarrow> int \<Rightarrow> var_remap \<Rightarrow> env \<Rightarrow> enc_state \<Rightarrow> (int \<times> enc_state) result" where
  "encode_llvm f src i remap e st \<equiv> encode_subtree f src i (compute_contains_device_leaf src False)
     (compute_free_vars src) remap e None st"

lemma encode_Binary_cases:
  assumes "represents src i (Binary g a b)" "\<not> foldable (Binary g a b)"
    and "encode_llvm f src i remap e st = Inr (idx, st')"
  obtains f' ia st1 ib st2 where
    "encode_llvm f' src (sn_operand_a (node_at src i)) remap e st = Inr (ia, st1)"
    "encode_llvm f' src (sn_operand_b (node_at src i)) remap e st1 = Inr (ib, st2)"
    "emit ((make_empty_device_node (device_bin_kind (bin_kind g)))\<lparr>dn_operand_a := ia,
        dn_operand_b := ib\<rparr>) st2 = Inr (idx, st')"
proof (cases f)
  case 0
  then show ?thesis using assms(3) by simp
next
  case (Suc f')
  show ?thesis
    using assms(1,3) foldable_iff [OF assms(1)] assms(2) that [of f']
    by (cases g) (auto simp: Suc Let_def result_simps)
qed

lemma encode_MaxOverRange_cases:
  assumes "represents src i (MaxOverRange v a b c)" "\<not> foldable (MaxOverRange v a b c)"
    and "encode_llvm f src i remap e st = Inr (idx, st')"
  obtains f' ia st1 ib st2 ic st3 d where
    "encode_llvm f' src (sn_operand_a (node_at src i)) remap e st = Inr (ia, st1)"
    "encode_llvm f' src (sn_operand_b (node_at src i)) remap e st1 = Inr (ib, st2)"
    "encode_llvm f' src (sn_body_node_idx (node_at src i)) remap e st2 = Inr (ic, st3)"
    "map_of remap v = Some d"
    "emit ((make_empty_device_node kMaxOverRange)\<lparr>dn_operand_a := ia, dn_operand_b := ib,
        dn_body_node_idx := ic, dn_var_id := d\<rparr>) st3 = Inr (idx, st')"
proof (cases f)
  case 0
  then show ?thesis using assms(3) by simp
next
  case (Suc f')
  have "\<exists>ia st1 ib st2 ic st3 d.
    encode_llvm f' src (sn_operand_a (node_at src i)) remap e st = Inr (ia, st1) \<and>
    encode_llvm f' src (sn_operand_b (node_at src i)) remap e st1 = Inr (ib, st2) \<and>
    encode_llvm f' src (sn_body_node_idx (node_at src i)) remap e st2 = Inr (ic, st3) \<and>
    map_of remap v = Some d \<and>
    emit ((make_empty_device_node kMaxOverRange)\<lparr>dn_operand_a := ia, dn_operand_b := ib,
        dn_body_node_idx := ic, dn_var_id := d\<rparr>) st3 = Inr (idx, st')"
    using assms(1,3) foldable_iff [OF assms(1)] assms(2)
    by (auto simp: Suc Let_def result_simps remap_var_id_def split: option.splits)
  then show ?thesis using that by blast
qed

lemma encode_ExternalTensorRead_correct:
  assumes "represents src i (ExternalTensorRead p ix dt)" "device_ok e de (ExternalTensorRead p ix dt)"
    and "cache_ok e (ec_cache st)" "remap_ok remap" "de_mem de = en_mem e"
    and "encode_llvm f src i remap e st = Inr (idx, st')"
  shows "encodes e de remap (ExternalTensorRead p ix dt) st idx st'"
proof -
  obtain f' where f: "f = Suc f'" using assms(6) by (cases f) auto
  have "encode_external_tensor_read (node_at src i) remap e st = Inr (idx, st')"
    using assms(1,6) foldable_iff [OF assms(1)] by (simp add: f foldable_def Let_def)
  then obtain ctx get_off strides raws where enc: "en_ctx e = Some ctx"
    "lc_args_type ctx = Some get_off"
    "(if ix = [] then Inr [] else etr_strides (\<lambda>k. shape_at (en_mem e) ctx p (int k)) (length ix) [1])
       = Inr strides"
    "mapE (encode_index remap) ix = Inr raws"
    "emit ((make_empty_device_node kExternalTensorRead)
       \<lparr>dn_arg_buffer_offset := wrap32 (get_off (p @ [data_ptr_pos])), dn_prim_dt := wrap32 dt,
        dn_indices_offset := int (length (ec_indices st)), dn_indices_count := int (length ix)\<rparr>)
       (st\<lparr>ec_indices := ec_indices st @ interleave raws strides\<rparr>) = Inr (idx, st')"
    using assms(1)
    by (auto simp: encode_external_tensor_read_def result_simps Let_def split: option.splits)
  show ?thesis
    using assms(2-5) enc(1-4)
    by (intro encodes_emit [OF _ _ _ enc(5)] dev_computes_ExternalTensorRead)
      (auto simp: enc_grows_def reads_as_append)
qed

theorem encode_subtree_correct:
  assumes remap: "remap_ok remap"
    and env: "de_mem de = en_mem e" "max_over_range_iterations e = 2 ^ 24"
  shows "represents src i t \<Longrightarrow> no_clobber t \<Longrightarrow> device_ok e de t \<Longrightarrow>
     cache_ok e (ec_cache st) \<Longrightarrow> (ec_reads st \<noteq> None \<Longrightarrow> readable e t) \<Longrightarrow>
     encode_llvm f src i remap e st = Inr (idx, st') \<Longrightarrow> encodes e de remap t st idx st'"
proof (induction t arbitrary: f i st idx st')
  case (Binary g a b)
  show ?case
  proof (cases "foldable (Binary g a b)")
    case True
    then show ?thesis using encode_foldable Binary.prems by blast
  next
    case False
    from Binary.prems(1) False Binary.prems(6) obtain f' ia st1 ib st2 where
      ea: "encode_llvm f' src (sn_operand_a (node_at src i)) remap e st = Inr (ia, st1)" and
      eb: "encode_llvm f' src (sn_operand_b (node_at src i)) remap e st1 = Inr (ib, st2)" and
      em: "emit ((make_empty_device_node (device_bin_kind (bin_kind g)))\<lparr>dn_operand_a := ia,
        dn_operand_b := ib\<rparr>) st2 = Inr (idx, st')"
      by (rule encode_Binary_cases)
    have a: "encodes e de remap a st ia st1"
      using Binary.prems ea by (intro Binary.IH(1)) auto
    have b: "encodes e de remap b st1 ib st2"
      using Binary.prems eb encodesD [OF a] by (intro Binary.IH(2)) auto
    show ?thesis
      using encodesD [OF a] encodesD [OF b] Binary.prems(2)
      by (intro encodes_emit [OF _ _ _ em] dev_computes_Binary)
        (auto intro: enc_grows_trans remap encodes_later [OF a] encodes_later [OF b enc_grows_refl])
  qed
next
  case (MaxOverRange v a b c)
  show ?case
  proof (cases "foldable (MaxOverRange v a b c)")
    case True
    then show ?thesis using encode_foldable MaxOverRange.prems by blast
  next
    case False
    from MaxOverRange.prems(1) False MaxOverRange.prems(6) obtain f' ia st1 ib st2 ic st3 d where
      ea: "encode_llvm f' src (sn_operand_a (node_at src i)) remap e st = Inr (ia, st1)" and
      eb: "encode_llvm f' src (sn_operand_b (node_at src i)) remap e st1 = Inr (ib, st2)" and
      ec: "encode_llvm f' src (sn_body_node_idx (node_at src i)) remap e st2 = Inr (ic, st3)" and
      d: "map_of remap v = Some d" and
      em: "emit ((make_empty_device_node kMaxOverRange)\<lparr>dn_operand_a := ia, dn_operand_b := ib,
        dn_body_node_idx := ic, dn_var_id := d\<rparr>) st3 = Inr (idx, st')"
      by (rule encode_MaxOverRange_cases)
    have a: "encodes e de remap a st ia st1"
      using MaxOverRange.prems ea by (intro MaxOverRange.IH(1)) auto
    have b: "encodes e de remap b st1 ib st2"
      using MaxOverRange.prems eb encodesD [OF a] by (intro MaxOverRange.IH(2)) auto
    have c: "encodes e de remap c st2 ic st3"
      using MaxOverRange.prems ec encodesD [OF a] encodesD [OF b]
      by (intro MaxOverRange.IH(3)) auto
    have gr: "enc_grows st1 st3" "enc_grows st st3"
      using encodesD(1) [OF a] encodesD(1) [OF b] encodesD(1) [OF c] enc_grows_trans by blast+
    show ?thesis
      using encodesD [OF a] encodesD [OF b] encodesD [OF c] MaxOverRange.prems(2)
      by (intro encodes_emit [OF gr(2) _ _ em] dev_computes_MaxOverRange [OF _ _ _ _ remap d _ env(2)])
        (auto intro: encodes_later [OF a gr(1)] encodes_later [OF b encodesD(1) [OF c]]
          encodes_later [OF c enc_grows_refl])
  qed
next
  case (ExternalTensorRead p ix dt)
  then show ?case using encode_ExternalTensorRead_correct [OF _ _ _ remap env(1)] by blast
next
  case (BoundVariable v)
  then obtain f' where f: "f = Suc f'" by (cases f) auto
  from BoundVariable foldable_iff [OF BoundVariable.prems(1)] obtain d where
    "map_of remap v = Some d"
    "emit ((make_empty_device_node kBoundVariable)\<lparr>dn_var_id := d\<rparr>) st = Inr (idx, st')"
    by (auto simp: f foldable_def Let_def remap_var_id_def result_simps split: option.splits)
  then show ?case
    using BoundVariable.prems(4)
    by (intro encodes_emit [of st st] dev_computes_BoundVariable [OF _ _ remap]) auto
next
  case (FieldLoad s ix)
  obtain f' where f: "f = Suc f'" using FieldLoad.prems by (cases f) auto
  have "foldable (FieldLoad s ix)"
    using FieldLoad.prems foldable_iff [OF FieldLoad.prems(1)]
    by (auto simp: f encode_field_load_def Let_def split: if_splits)
  then show ?case using encode_foldable FieldLoad.prems by blast
next
  case (Const c)
  then show ?case using encode_foldable [of src i "Const c"] by (simp add: foldable_def)
next
  case (ExternalTensorShape p ax)
  then show ?case
    using encode_foldable [OF ExternalTensorShape.prems(1) _ ExternalTensorShape.prems(4,5,6)]
    by (simp add: foldable_def)
qed

end
