(* ===== verification/SizerCorrect.thy ===== *)
theory SizerCorrect
  imports EncoderCorrect
begin

text \<open>
  From one tree to a whole task: the per-stack driver of the encoder, the byte layout of the
  blob and the device sizer that reads it back. The closing lemma says that running the sizer on
  an encoded blob publishes, for every stack, the meaning of its size expression.
\<close>

section \<open>The dense renaming\<close>

definition remap_inv :: "var_remap \<Rightarrow> bool" where
  "remap_inv m \<longleftrightarrow> map snd m = map int [0..<length m] \<and> distinct (map fst m)"

lemma remap_inv_add: "remap_inv m \<Longrightarrow> remap_inv (remap_add v m)"
  by (auto simp: remap_inv_def remap_add_def map_of_eq_None_iff)

lemma remap_inv_foldl:
  "remap_inv m \<Longrightarrow> remap_inv (foldl (\<lambda>m raw. if raw < 0 then remap_add (- (raw + 1)) m else m) m xs)"
  by (induction xs arbitrary: m) (simp_all add: remap_inv_add)

lemma remap_inv_node: "remap_inv m \<Longrightarrow> remap_inv (remap_node m n)"
  by (simp add: remap_node_def Let_def remap_inv_foldl remap_inv_add)

lemma remap_inv_nodes: "remap_inv m \<Longrightarrow> remap_inv (foldl remap_node m ns)"
  by (induction ns arbitrary: m) (simp_all add: remap_inv_node)

lemma remap_inv_ok:
  assumes "remap_inv m" "length m \<le> max_bound_vars"
  shows "remap_ok m"
proof -
  have nth: "snd (m ! k) = int k" if "k < length m" for k
  proof -
    have "map snd m ! k = map int [0..<length m] ! k" using assms(1) by (simp add: remap_inv_def)
    then show ?thesis using that by simp
  qed
  have "\<exists>k < length m. m ! k = (v, d)" if "map_of m v = Some d" for v d
    using map_of_SomeD [OF that] by (simp add: in_set_conv_nth)
  then have *: "\<exists>k < length m. m ! k = (v, int k) \<and> d = int k" if "map_of m v = Some d" for v d
    using that nth by (metis snd_conv)
  show ?thesis
    unfolding remap_ok_def
    using * assms(2)
    by (auto simp: in_scope_def) (fastforce dest!: *)+
qed

lemma build_dense_var_id_remap_ok:
  "build_dense_var_id_remap ns = Inr remap \<Longrightarrow> remap_ok remap"
  using remap_inv_ok remap_inv_nodes [of "[]" ns]
  by (auto simp: build_dense_var_id_remap_def Let_def result_simps remap_inv_def)

section \<open>The per-stack driver\<close>

text \<open>The tree a stack's expression slot spells, \<open>None\<close> when no expression was captured.\<close>

definition slot_tree :: "ser_expr option \<Rightarrow> size_expr option \<Rightarrow> bool" where
  "slot_tree x t \<longleftrightarrow>
     (case x of
        None \<Rightarrow> t = None
      | Some ns \<Rightarrow>
          (case t of
             None \<Rightarrow> ns = []
           | Some u \<Rightarrow> ns \<noteq> [] \<and> represents ns (int (length ns) - 1) u))"

definition tree_ok :: "env \<Rightarrow> dev_env \<Rightarrow> size_expr option \<Rightarrow> bool" where
  "tree_ok e de t \<longleftrightarrow>
     (case t of None \<Rightarrow> True | Some u \<Rightarrow> no_clobber u \<and> device_ok e de u \<and> readable e u)"

lemma tree_ok_all:
  "list_all (tree_ok e de) ts \<longleftrightarrow>
     list_all (pred_option no_clobber) ts \<and> list_all (pred_option (device_ok e de)) ts \<and> list_all (pred_option (readable e)) ts"
  by (auto simp: list_all_iff tree_ok_def option.pred_set split: option.splits)

text \<open>What a finished header promises of the final node vector.\<close>

definition root_runs :: "env \<Rightarrow> dev_env \<Rightarrow> enc_state \<Rightarrow> size_expr \<Rightarrow> int \<Rightarrow> bool" where
  "root_runs e de st u root \<longleftrightarrow> fv u = {} \<and> 0 \<le> root \<and>
     (\<exists>remap. \<forall>nodes indices fd.
        reads_as nodes 0 (ec_nodes st) \<longrightarrow> reads_as indices 0 (ec_indices st) \<longrightarrow>
        length (ec_nodes st) \<le> fd \<longrightarrow> dev_computes e de remap u nodes indices fd root)"

definition header_ok ::
  "env \<Rightarrow> dev_env \<Rightarrow> enc_state \<Rightarrow> dev_stack_header \<Rightarrow> dev_stack_header \<times> size_expr option \<Rightarrow> bool" where
  "header_ok e de st sh ht \<longleftrightarrow>
     sh = (fst ht)\<lparr>dh_root_node_idx := dh_root_node_idx sh\<rparr> \<and>
     (case snd ht of
        None \<Rightarrow> dh_root_node_idx sh = -1
      | Some u \<Rightarrow> root_runs e de st u (dh_root_node_idx sh))"

lemma root_runs_grows:
  assumes "root_runs e de st u root" "enc_grows st st'"
  shows "root_runs e de st' u root"
proof -
  have len: "length (ec_nodes st) \<le> length (ec_nodes st')" using assms(2) by (auto simp: enc_grows_def)
  obtain remap where r: "\<And>nodes indices fd. reads_as nodes 0 (ec_nodes st) \<Longrightarrow>
      reads_as indices 0 (ec_indices st) \<Longrightarrow> length (ec_nodes st) \<le> fd \<Longrightarrow>
      dev_computes e de remap u nodes indices fd root"
    using assms(1) unfolding root_runs_def by blast
  have "dev_computes e de remap u nodes indices fd root"
    if "reads_as nodes 0 (ec_nodes st')" "reads_as indices 0 (ec_indices st')"
      "length (ec_nodes st') \<le> fd" for nodes indices fd
    using that len reads_as_grows [OF assms(2)] by (intro r) auto
  then show ?thesis using assms(1) unfolding root_runs_def by blast
qed

lemma header_ok_grows:
  "header_ok e de st sh ht \<Longrightarrow> enc_grows st st' \<Longrightarrow> header_ok e de st' sh ht"
  unfolding header_ok_def by (auto split: option.splits intro: root_runs_grows)

lemma encode_stack_correct:
  assumes enc: "encode_stack e None mx (h, x) st = Inr (sh, st')"
    and tree: "slot_tree x t" "tree_ok e de t"
    and st: "cache_ok e (ec_cache st)"
    and env: "de_mem de = en_mem e" "max_over_range_iterations e = 2 ^ 24"
  shows "header_ok e de st' sh (h, t) \<and> enc_grows st st' \<and> cache_ok e (ec_cache st')"
proof (cases t)
  case None
  then show ?thesis using enc tree(1) st
    by (auto simp: encode_stack_def slot_tree_def header_ok_def split: option.splits)
next
  case (Some u)
  then obtain ns where ns: "x = Some ns" "ns \<noteq> []" "represents ns (int (length ns) - 1) u"
    using tree(1) by (auto simp: slot_tree_def split: option.splits)
  from enc ns obtain remap idx where
    r: "at {} (compute_free_vars ns) (int (length ns) - 1) = {}"
      "build_dense_var_id_remap ns = Inr remap" and
    en: "encode_llvm (eval_fuel ns) ns (int (length ns) - 1) remap e st = Inr (idx, st')" and
    sh: "sh = h\<lparr>dh_root_node_idx := idx\<rparr>"
    by (auto simp: encode_stack_def Let_def result_simps)
  have en': "encodes e de remap u st idx st'"
    using encode_subtree_correct [OF build_dense_var_id_remap_ok [OF r(2)] env ns(3) _ _ st _ en]
      tree(2) Some by (auto simp: tree_ok_def)
  have "fv u = {}" using r(1) free_vars_correct [OF ns(3)] by simp
  then have "root_runs e de st' u idx"
    using en' encodes_later [OF en' enc_grows_refl]
    by (auto simp: root_runs_def encodes_def intro!: exI [of _ remap])
  then show ?thesis
    using sh Some en' by (simp add: header_ok_def encodes_def)
qed

lemma encode_stacks_correct:
  assumes env: "de_mem de = en_mem e" "max_over_range_iterations e = 2 ^ 24"
  shows "encode_stacks e None mx (zip hs xs) st = Inr (shs, st') \<Longrightarrow> length hs = length xs \<Longrightarrow>
     list_all2 slot_tree xs ts \<Longrightarrow> list_all (tree_ok e de) ts \<Longrightarrow> cache_ok e (ec_cache st) \<Longrightarrow>
     list_all2 (header_ok e de st') shs (zip hs ts) \<and> enc_grows st st' \<and> cache_ok e (ec_cache st')"
proof (induction hs arbitrary: xs ts st shs)
  case Nil
  then show ?case by (simp add: emit_def)
next
  case (Cons h hs)
  then obtain x xs' t ts' where xs: "xs = x # xs'" "ts = t # ts'"
    by (cases xs) (auto simp: list_all2_Cons1)
  with Cons.prems obtain sh st1 shs' where
    one: "encode_stack e None mx (h, x) st = Inr (sh, st1)" and
    rest: "encode_stacks e None mx (zip hs xs') st1 = Inr (shs', st')" and shs: "shs = sh # shs'"
    by (auto simp: result_simps)
  have h: "header_ok e de st1 sh (h, t) \<and> enc_grows st st1 \<and> cache_ok e (ec_cache st1)"
    using encode_stack_correct [OF one _ _ _ env] Cons.prems xs by auto
  then have "list_all2 (header_ok e de st') shs' (zip hs ts') \<and> enc_grows st1 st' \<and>
      cache_ok e (ec_cache st')"
    using Cons.IH [OF rest] Cons.prems xs by auto
  then show ?case
    using h shs xs header_ok_grows enc_grows_trans by auto
qed

section \<open>The byte layout\<close>

lemma length_le_bytes [simp]: "length (le_bytes n x) = n"
  by (induction n arbitrary: x) simp_all

lemma length_pack [simp]:
  "length (bytes_i32 x) = 4" "length (bytes_i64 x) = 8" "length (pack_header a b c) = 16"
  "length (pack_stack_header sh) = 16" "length (pack_node n) = 48"
  by (simp_all add: bytes_i32_def bytes_i64_def pack_header_def pack_stack_header_def pack_node_def)

lemma load_le_bytes: "reads_as m a (le_bytes n x) \<Longrightarrow> load_uint m a n = x mod 256 ^ n"
proof (induction n arbitrary: a x)
  case (Suc n)
  have "uint (word_of_int (x mod 256) :: 8 word) = x mod 256"
    by (simp add: uint_word_of_int take_bit_eq_mod)
  moreover have "load_uint m (a + 1) n = x div 256 mod 256 ^ n"
    using Suc by (auto simp: reads_as_Cons)
  ultimately show ?case
    using Suc.prems zmod_zmult2_eq [of "256 ^ n" x 256] by (simp add: reads_as_Cons add.commute)
qed simp

lemma load_bytes_i32: "reads_as m a (bytes_i32 x) \<Longrightarrow> load_i32 m a = wrap32 x"
  using load_le_bytes [of m a 4 "x mod 2 ^ 32"]
  by (simp add: bytes_i32_def load_i32_def sign_extend_def wrap32_def mod_add_left_eq)

lemma load_bytes_u32: "reads_as m a (bytes_i32 x) \<Longrightarrow> load_u32 m a = x mod 2 ^ 32"
  using load_le_bytes [of m a 4 "x mod 2 ^ 32"] by (simp add: bytes_i32_def load_u32_def)

lemma load_bytes_i64: "reads_as m a (bytes_i64 x) \<Longrightarrow> load_i64 m a = wrap64 x"
  using load_le_bytes [of m a 8 "x mod 2 ^ 64"]
  by (simp add: bytes_i64_def load_i64_def sign_extend_def wrap64_def mod_add_left_eq)

text \<open>The C++ field types, as a predicate on the model's integers.\<close>

definition node_fits :: "dev_node \<Rightarrow> bool" where
  "node_fits n \<longleftrightarrow> fits32 (dn_kind n) \<and> fits32 (dn_operand_a n) \<and> fits32 (dn_operand_b n) \<and>
     fits32 (dn_body_node_idx n) \<and> fits32 (dn_var_id n) \<and> fits32 (dn_prim_dt n) \<and>
     fits32 (dn_arg_buffer_offset n) \<and> fits32 (dn_indices_offset n) \<and>
     fits32 (dn_indices_count n) \<and> fits32 (dn_pad0 n) \<and> fits64 (dn_const_value n)"

definition fits_u32 :: "int \<Rightarrow> bool" where
  "fits_u32 x \<longleftrightarrow> 0 \<le> x \<and> x < 2 ^ 32"

definition header_fits :: "dev_stack_header \<Rightarrow> bool" where
  "header_fits sh \<longleftrightarrow> fits32 (dh_root_node_idx sh) \<and> fits_u32 (dh_entry_size_bytes sh) \<and>
     fits_u32 (dh_max_size_compile_time sh) \<and> fits_u32 (dh_heap_kind sh)"

lemma node_ptr_pack:
  assumes "reads_as m (p + 48 * i) (pack_node n)" "node_fits n"
  shows "node_ptr m p i = n"
  using assms
  by (cases n) (auto simp: node_ptr_def pack_node_def reads_as_append node_fits_def Let_def ac_simps
      dest!: load_bytes_i32 load_bytes_i64)

lemma header_ptr_pack:
  assumes "reads_as m (p + 16 * i) (pack_stack_header sh)" "header_fits sh"
  shows "header_ptr m p i = sh"
  using assms
  by (cases sh) (auto simp: header_ptr_def pack_stack_header_def reads_as_append header_fits_def
      fits_u32_def Let_def ac_simps dest: load_bytes_i32 load_bytes_u32)

lemma reads_as_concat:
  assumes "reads_as m a (concat (map f xs))" "\<And>x. length (f x) = c" "k < length xs"
  shows "reads_as m (a + int c * int k) (f (xs ! k))"
  using assms
proof (induction xs arbitrary: a k)
  case (Cons x xs)
  then show ?case
  proof (cases k)
    case 0
    then show ?thesis using Cons.prems by (simp add: reads_as_append)
  next
    case (Suc j)
    then show ?thesis
      using Cons.IH [of "a + int c" j] Cons.prems by (simp add: reads_as_append algebra_simps)
  qed
qed simp

lemma length_concat_map: "(\<And>x. length (f x) = c) \<Longrightarrow> length (concat (map f xs)) = c * length xs"
  by (induction xs) simp_all

text \<open>Reading the packed blob back yields the three arrays that went in.\<close>

lemma unpack_bytecode:
  assumes blob: "reads_as m base (pack_bytecode shs nodes indices)"
    and fits: "list_all header_fits shs" "list_all node_fits nodes" "list_all fits32 indices"
    and len: "length shs < 2 ^ 32" "length nodes < 2 ^ 32"
  shows "load_u32 m base = int (length shs)" "load_u32 m (base + 4) = int (length nodes)"
    "reads_as (header_ptr m (base + 16)) 0 shs"
    "reads_as (node_ptr m (base + 16 + 16 * int (length shs))) 0 nodes"
    "reads_as (index_ptr m (base + 16 + 16 * int (length shs) + 48 * int (length nodes))) 0 indices"
proof -
  let ?nb = "base + 16 + 16 * int (length shs)" and ?p = pack_stack_header
  have l: "length (concat (map ?p shs)) = 16 * length shs"
    "length (concat (map pack_node nodes)) = 48 * length nodes"
    by (rule length_concat_map, simp)+
  have parts: "reads_as m base (pack_header (length shs) (length nodes) (length indices))"
    "reads_as m (base + 16) (concat (map ?p shs))" "reads_as m ?nb (concat (map pack_node nodes))"
    "reads_as m (?nb + 48 * int (length nodes)) (concat (map bytes_i32 indices))"
    using blob by (auto simp: pack_bytecode_def reads_as_append l algebra_simps)
  show "load_u32 m base = int (length shs)" "load_u32 m (base + 4) = int (length nodes)"
    using parts(1) len by (auto simp: pack_header_def reads_as_append dest: load_bytes_u32)
  show "reads_as (header_ptr m (base + 16)) 0 shs"
    using reads_as_concat [OF parts(2)] fits(1)
    by (auto simp: reads_as_def [of "header_ptr m (base + 16)"] list_all_length intro!: header_ptr_pack)
  show "reads_as (node_ptr m ?nb) 0 nodes"
    using reads_as_concat [OF parts(3)] fits(2)
    by (auto simp: reads_as_def [of "node_ptr m ?nb"] list_all_length intro!: node_ptr_pack)
  show "reads_as (index_ptr m (?nb + 48 * int (length nodes))) 0 indices"
    using reads_as_concat [OF parts(4), of 4, THEN load_bytes_i32] fits(3)
    by (auto simp: reads_as_def list_all_length index_ptr_def)
qed

section \<open>The sizer loop\<close>

text \<open>The sizer's bookkeeping once the capacities are known.\<close>

fun publish_layout ::
  "dev_stack_header list \<Rightarrow> nat list \<Rightarrow> nat \<Rightarrow> nat \<Rightarrow> nat \<Rightarrow> adstack_runtime \<Rightarrow> adstack_runtime" where
  "publish_layout (sh # shs) (m # ms) i off_float off_int rt =
     (let step = adstack_step (nat (dh_entry_size_bytes sh)) m;
          rt' = rt\<lparr>ar_max_sizes := (ar_max_sizes rt)(i := m)\<rparr>
      in if dh_heap_kind sh = 0
         then publish_layout shs ms (Suc i) (u64 (off_float + step)) off_int
                (rt'\<lparr>ar_offsets := (ar_offsets rt)(i := off_float)\<rparr>)
         else publish_layout shs ms (Suc i) off_float (u64 (off_int + step))
                (rt'\<lparr>ar_offsets := (ar_offsets rt)(i := off_int)\<rparr>))"
| "publish_layout _ _ i off_float off_int rt =
     rt\<lparr>ar_per_thread_stride := off_int, ar_per_thread_stride_float := off_float,
        ar_per_thread_stride_int := off_int\<rparr>"

lemma sizer_loop_correct:
  assumes "reads_as headers (int i) shs"
    and "list_all2 (\<lambda>sh m. \<forall>sc. \<exists>sc'. sizer_max_size f de nodes indices sh sc = Inr (m, sc')) shs ms"
  shows "sizer_loop f de headers nodes indices (length shs) i sc off_float off_int rt =
     Inr (publish_layout shs ms i off_float off_int rt)"
  using assms
proof (induction shs arbitrary: ms i sc off_float off_int rt)
  case (Cons sh shs)
  then obtain m ms' where ms: "ms = m # ms'" by (auto simp: list_all2_Cons1)
  obtain sc' where "sizer_max_size f de nodes indices sh sc = Inr (m, sc')"
    using Cons.prems(2) ms by (auto dest: spec [of _ sc])
  moreover have "reads_as headers (int (Suc i)) shs" "headers (int i) = sh"
    using Cons.prems(1) by (simp_all add: reads_as_Cons add.commute)
  ultimately show ?case
    using Cons.IH [of "Suc i" ms'] Cons.prems(2) ms by (simp add: Let_def)
qed simp

text \<open>The capacity a stack is given: its tree's value floored at 1, or the compile-time bound.\<close>

definition capacity :: "env \<Rightarrow> dev_stack_header \<Rightarrow> size_expr option \<Rightarrow> nat \<Rightarrow> bool" where
  "capacity e sh t m \<longleftrightarrow>
     (case t of
        None \<Rightarrow> m = (if 0 < dh_max_size_compile_time sh then nat (dh_max_size_compile_time sh) else 1)
      | Some u \<Rightarrow> (\<exists>v. size_value e u Map.empty = Inr v \<and> m = nat (max 1 v)))"

lemma sizer_max_size_correct:
  assumes "header_ok e de st sh (h, t)" "capacity e h t m"
    and "reads_as nodes 0 (ec_nodes st)" "reads_as indices 0 (ec_indices st)" "length (ec_nodes st) \<le> f"
  shows "\<exists>sc'. sizer_max_size f de nodes indices sh sc = Inr (m, sc')"
proof (cases t)
  case None
  moreover have "dh_max_size_compile_time sh = dh_max_size_compile_time h"
    using assms(1) by (metis header_ok_def fst_conv dev_stack_header.select_convs(3)
        dev_stack_header.surjective dev_stack_header.update_convs(1))
  ultimately show ?thesis
    using assms(1,2) by (simp add: sizer_max_size_def header_ok_def capacity_def)
next
  case (Some u)
  then obtain v where v: "size_value e u Map.empty = Inr v" "m = nat (max 1 v)"
    using assms(2) by (auto simp: capacity_def)
  have runs: "root_runs e de st u (dh_root_node_idx sh)"
    using assms(1) Some by (simp add: header_ok_def)
  then have root: "0 \<le> dh_root_node_idx sh" "fv u = {}" by (simp_all add: root_runs_def)
  obtain remap where "dev_computes e de remap u nodes indices f (dh_root_node_idx sh)"
    using runs assms(3-5) unfolding root_runs_def by blast
  with root(2) obtain sc' where
    "device_eval_node f de nodes indices (dh_root_node_idx sh) sc = Inr (v, sc')"
    using v(1) dev_computesD [of e de remap u nodes indices f "dh_root_node_idx sh" Map.empty sc v]
    by (auto simp: scope_ok_def)
  then show ?thesis using root v(2) by (auto simp: sizer_max_size_def max_def)
qed

text \<open>Everything the blob must fit: the C++ field widths and the 32-bit counters of its header.\<close>

definition blob_fits :: "dev_stack_header list \<Rightarrow> enc_state \<Rightarrow> bool" where
  "blob_fits shs st \<longleftrightarrow> list_all header_fits shs \<and> list_all node_fits (ec_nodes st) \<and>
     list_all fits32 (ec_indices st) \<and> length shs < 2 ^ 32 \<and> length (ec_nodes st) < 2 ^ 32"

theorem sizer_correct:
  assumes enc: "encode_stacks e None mx (zip hs xs)
        \<lparr>ec_nodes = [], ec_indices = [], ec_cache = cache, ec_reads = reads\<rparr> = Inr (shs, st)"
    and blob: "reads_as (de_mem de) base (pack_bytecode shs (ec_nodes st) (ec_indices st))"
      "blob_fits shs st"
    and trees: "length hs = length xs" "list_all2 slot_tree xs ts" "list_all (tree_ok e de) ts"
      "list_all2 (\<lambda>(h, t) m. capacity e h t m) (zip hs ts) ms"
    and env: "cache_ok e cache" "de_mem de = en_mem e" "max_over_range_iterations e = 2 ^ 24"
  shows "runtime_eval_adstack_size_expr de base rt = Inr (publish_layout shs ms 0 0 0 rt)"
proof -
  let ?m = "de_mem de"
  let ?nodes = "node_ptr ?m (base + 16 + 16 * int (length shs))"
  let ?idx = "index_ptr ?m (base + 16 + 16 * int (length shs) + 48 * int (length (ec_nodes st)))"
  note un = unpack_bytecode [OF blob(1)]
  have fits: "list_all header_fits shs" "list_all node_fits (ec_nodes st)"
    "list_all fits32 (ec_indices st)" "length shs < 2 ^ 32" "length (ec_nodes st) < 2 ^ 32"
    using blob(2) by (simp_all add: blob_fits_def)
  have hdr: "list_all2 (header_ok e de st) shs (zip hs ts)"
    using encode_stacks_correct [OF env(2,3) enc trees(1-3)] env(1) by simp
  have "list_all2 (\<lambda>sh m. \<forall>sc. \<exists>sc'. sizer_max_size (Suc (length (ec_nodes st))) de ?nodes ?idx sh sc
      = Inr (m, sc')) shs ms"
    by (rule list_all2_trans [OF _ hdr trees(4)])
      (use sizer_max_size_correct un(4,5) [OF fits] in \<open>auto split: prod.splits\<close>)
  then show ?thesis
    using sizer_loop_correct [of "header_ptr ?m (base + 16)" 0 shs] un [OF fits]
    by (simp add: runtime_eval_adstack_size_expr_def Let_def)
qed

end
