(* ===== verification/AdStackLayout.thy ===== *)
theory AdStackLayout
  imports SizerCorrect
begin

text \<open>
  The per-thread slices the sizer hands out: a closed form of the offsets and strides it
  publishes, and the consequences the adstack operations rely on (slices of one heap are
  disjoint, aligned, inside the stride, and large enough for the counter and all entries).
\<close>

section \<open>Closed form of the published layout\<close>

abbreviation is_float :: "dev_stack_header \<Rightarrow> bool" where
  "is_float sh \<equiv> dh_heap_kind sh = 0"

definition slice_bytes :: "dev_stack_header \<Rightarrow> nat \<Rightarrow> nat" where
  "slice_bytes sh m = adstack_step (nat (dh_entry_size_bytes sh)) m"

text \<open>Bytes taken in one heap (\<open>True\<close> float, \<open>False\<close> int) by the stacks listed.\<close>

fun heap_bytes :: "bool \<Rightarrow> dev_stack_header list \<Rightarrow> nat list \<Rightarrow> nat" where
  "heap_bytes b (sh # shs) (m # ms) =
     (if is_float sh = b then slice_bytes sh m else 0) + heap_bytes b shs ms"
| "heap_bytes b _ _ = 0"

lemma heap_bytes_take_mono:
  "j \<le> k \<Longrightarrow> heap_bytes b (take j shs) (take j ms) \<le> heap_bytes b (take k shs) (take k ms)"
proof (induction b shs ms arbitrary: j k rule: heap_bytes.induct)
  case (1 b sh shs m ms)
  then show ?case by (cases j; cases k) auto
qed auto

lemma heap_bytes_take_le: "heap_bytes b (take k shs) (take k ms) \<le> heap_bytes b shs ms"
proof (induction b shs ms arbitrary: k rule: heap_bytes.induct)
  case (1 b sh shs m ms)
  then show ?case by (cases k) auto
qed auto

lemma heap_bytes_take_Suc:
  "k < length shs \<Longrightarrow> length shs = length ms \<Longrightarrow>
     heap_bytes b (take (Suc k) shs) (take (Suc k) ms) =
       heap_bytes b (take k shs) (take k ms) +
       (if is_float (shs ! k) = b then slice_bytes (shs ! k) (ms ! k) else 0)"
proof (induction b shs ms arbitrary: k rule: heap_bytes.induct)
  case (1 b sh shs m ms)
  then show ?case by (cases k) auto
qed auto

definition offset_of :: "nat \<Rightarrow> nat \<Rightarrow> dev_stack_header list \<Rightarrow> nat list \<Rightarrow> nat \<Rightarrow> nat" where
  "offset_of off_float off_int shs ms k =
     (if is_float (shs ! k) then off_float else off_int) +
     heap_bytes (is_float (shs ! k)) (take k shs) (take k ms)"

lemma publish_layout_closed_form:
  assumes "length shs = length ms"
    and "off_float + heap_bytes True shs ms < 2 ^ 64" "off_int + heap_bytes False shs ms < 2 ^ 64"
  shows "(\<forall>k < length shs. ar_max_sizes (publish_layout shs ms i off_float off_int rt) (i + k) = ms ! k \<and>
            ar_offsets (publish_layout shs ms i off_float off_int rt) (i + k) =
              offset_of off_float off_int shs ms k) \<and>
         (\<forall>k < i. ar_max_sizes (publish_layout shs ms i off_float off_int rt) k = ar_max_sizes rt k \<and>
            ar_offsets (publish_layout shs ms i off_float off_int rt) k = ar_offsets rt k) \<and>
         ar_per_thread_stride_float (publish_layout shs ms i off_float off_int rt) =
           off_float + heap_bytes True shs ms \<and>
         ar_per_thread_stride_int (publish_layout shs ms i off_float off_int rt) =
           off_int + heap_bytes False shs ms \<and>
         ar_per_thread_stride (publish_layout shs ms i off_float off_int rt) =
           off_int + heap_bytes False shs ms"
  using assms
proof (induction shs ms i off_float off_int rt rule: publish_layout.induct)
  case (1 sh shs m ms i off_float off_int rt)
  have split: "(\<forall>k < length (sh # shs). P k) \<longleftrightarrow> P 0 \<and> (\<forall>k < length shs. P (Suc k))" for P
    by (auto simp: less_Suc_eq_0_disj)
  have small: "u64 (off_float + slice_bytes sh m) = off_float + slice_bytes sh m" if "is_float sh"
    using that "1.prems" by (simp add: u64_def)
  have small': "u64 (off_int + slice_bytes sh m) = off_int + slice_bytes sh m" if "\<not> is_float sh"
    using that "1.prems" by (simp add: u64_def)
  show ?case
  proof (cases "is_float sh")
    case True
    note IH = "1.IH"(1) [OF refl refl True]
    show ?thesis
      using IH "1.prems" True small
      unfolding split by (simp add: slice_bytes_def offset_of_def Let_def)
  next
    case False
    note IH = "1.IH"(2) [OF refl refl False]
    show ?thesis
      using IH "1.prems" False small'
      unfolding split by (simp add: slice_bytes_def offset_of_def Let_def)
  qed
qed simp_all

section \<open>What the slices guarantee\<close>

lemma align_up_8_props:
  assumes "n + 7 < 2 ^ 64"
  shows "n \<le> align_up_8 n" "align_up_8 n < n + 8" "8 dvd align_up_8 n"
  using assms by (auto simp: align_up_8_def u64_def)

lemma slice_bytes_props:
  assumes "nat (dh_entry_size_bytes sh) * m + 15 < 2 ^ 64"
  shows "8 + nat (dh_entry_size_bytes sh) * m \<le> slice_bytes sh m" "8 dvd slice_bytes sh m"
proof -
  have "slice_bytes sh m = align_up_8 (8 + nat (dh_entry_size_bytes sh) * m)"
    using assms by (simp add: slice_bytes_def adstack_step_def u64_def)
  then show "8 + nat (dh_entry_size_bytes sh) * m \<le> slice_bytes sh m" "8 dvd slice_bytes sh m"
    using assms align_up_8_props [of "8 + nat (dh_entry_size_bytes sh) * m"] by simp_all
qed

lemma heap_bytes_aligned:
  assumes "list_all2 (\<lambda>sh m. nat (dh_entry_size_bytes sh) * m + 15 < 2 ^ 64) shs ms"
  shows "8 dvd heap_bytes b (take k shs) (take k ms)"
  using assms
proof (induction b shs ms arbitrary: k rule: heap_bytes.induct)
  case (1 b sh shs m ms)
  then show ?case by (cases k) (auto simp: slice_bytes_props)
qed auto

lemma offsets_disjoint:
  assumes "length shs = length ms" "j < k" "k < length shs" "is_float (shs ! j) = is_float (shs ! k)"
  shows "offset_of a b shs ms j + slice_bytes (shs ! j) (ms ! j) \<le> offset_of a b shs ms k"
proof -
  let ?b = "is_float (shs ! k)"
  have "heap_bytes ?b (take (Suc j) shs) (take (Suc j) ms) \<le> heap_bytes ?b (take k shs) (take k ms)"
    using assms(2) by (intro heap_bytes_take_mono) simp
  then show ?thesis
    using assms heap_bytes_take_Suc [of j shs ms ?b] by (simp add: offset_of_def)
qed

lemma offset_in_stride:
  assumes "length shs = length ms" "k < length shs"
  shows "offset_of a b shs ms k + slice_bytes (shs ! k) (ms ! k) \<le>
     (if is_float (shs ! k) then a else b) + heap_bytes (is_float (shs ! k)) shs ms"
  using heap_bytes_take_le [of "is_float (shs ! k)" "Suc k" shs ms]
    heap_bytes_take_Suc [OF assms(2,1), of "is_float (shs ! k)"]
  by (simp add: offset_of_def)

section \<open>Every run of the sizer publishes a layout\<close>

lemma sizer_max_size_pos: "sizer_max_size f de nodes indices sh sc = Inr (m, sc') \<Longrightarrow> 1 \<le> m"
  by (auto simp: sizer_max_size_def result_simps split: if_splits)

lemma sizer_loop_publishes:
  "sizer_loop f de headers nodes indices n i sc a b rt = Inr rt' \<Longrightarrow>
     \<exists>ms. length ms = n \<and> list_all (\<lambda>m. 1 \<le> m) ms \<and>
       rt' = publish_layout (map (\<lambda>k. headers (int k)) [i..<i + n]) ms i a b rt"
proof (induction n arbitrary: i sc a b rt)
  case 0
  then show ?case by simp
next
  case (Suc n)
  let ?sh = "headers (int i)"
  obtain m sc' where m: "sizer_max_size f de nodes indices ?sh sc = Inr (m, sc')"
    using Suc.prems by (auto simp: Let_def result_simps)
  let ?step = "adstack_step (nat (dh_entry_size_bytes ?sh)) m"
  let ?a = "if is_float ?sh then u64 (a + ?step) else a"
  let ?b = "if is_float ?sh then b else u64 (b + ?step)"
  let ?rt = "rt\<lparr>ar_max_sizes := (ar_max_sizes rt)(i := m),
      ar_offsets := (ar_offsets rt)(i := if is_float ?sh then a else b)\<rparr>"
  have "sizer_loop f de headers nodes indices n (Suc i) sc' ?a ?b ?rt = Inr rt'"
    using Suc.prems m by (cases "is_float ?sh") (simp_all add: Let_def)
  from Suc.IH [OF this] obtain ms where ms: "length ms = n" "list_all (\<lambda>m. 1 \<le> m) ms"
    "rt' = publish_layout (map (\<lambda>k. headers (int k)) [Suc i..<Suc i + n]) ms (Suc i) ?a ?b ?rt"
    by blast
  have "[i..<i + Suc n] = i # [Suc i..<Suc i + n]"
    by (simp add: upt_conv_Cons)
  then show ?case
    using ms sizer_max_size_pos [OF m]
    by (intro exI [of _ "m # ms"]) (simp add: Let_def)
qed

text \<open>The headers of a blob and the capacities published for them, as lists.\<close>

definition blob_headers :: "memory \<Rightarrow> int \<Rightarrow> dev_stack_header list" where
  "blob_headers m bytecode =
     map (\<lambda>k. header_ptr m (bytecode + 16) (int k)) [0..<nat (load_u32 m bytecode)]"

definition published_sizes :: "adstack_runtime \<Rightarrow> nat \<Rightarrow> nat list" where
  "published_sizes rt n = map (ar_max_sizes rt) [0..<n]"

text \<open>No 64-bit sum of slice sizes wraps.\<close>

definition layout_fits :: "dev_stack_header list \<Rightarrow> nat list \<Rightarrow> bool" where
  "layout_fits shs ms \<longleftrightarrow> heap_bytes True shs ms < 2 ^ 64 \<and> heap_bytes False shs ms < 2 ^ 64 \<and>
     list_all2 (\<lambda>sh m. nat (dh_entry_size_bytes sh) * m + 15 < 2 ^ 64) shs ms"

lemma publish_layout_keeps:
  "j < i \<Longrightarrow> ar_max_sizes (publish_layout shs ms i a b rt) j = ar_max_sizes rt j"
  by (induction shs ms i a b rt rule: publish_layout.induct) (auto simp: Let_def)

lemma publish_layout_sizes:
  "length shs = length ms \<Longrightarrow> k < length shs \<Longrightarrow>
     ar_max_sizes (publish_layout shs ms i a b rt) (i + k) = ms ! k"
proof (induction shs ms i a b rt arbitrary: k rule: publish_layout.induct)
  case (1 sh shs m ms i a b rt)
  then show ?case by (cases k) (auto simp: Let_def publish_layout_keeps)
qed simp_all

lemma sizer_publishes_layout:
  assumes "runtime_eval_adstack_size_expr de bytecode rt = Inr rt'"
  defines "shs \<equiv> blob_headers (de_mem de) bytecode"
  defines "ms \<equiv> published_sizes rt' (length shs)"
  shows "rt' = publish_layout shs ms 0 0 0 rt" "list_all (\<lambda>m. 1 \<le> m) ms"
proof -
  obtain ms' where ms': "length ms' = length shs" "list_all (\<lambda>m. 1 \<le> m) ms'"
    "rt' = publish_layout shs ms' 0 0 0 rt"
    using assms(1) sizer_loop_publishes
    unfolding runtime_eval_adstack_size_expr_def Let_def shs_def blob_headers_def
    by fastforce
  have "ms = ms'"
    using publish_layout_sizes [of shs ms' _ 0] ms' unfolding ms_def published_sizes_def
    by (intro nth_equalityI) auto
  then show "rt' = publish_layout shs ms 0 0 0 rt" "list_all (\<lambda>m. 1 \<le> m) ms" using ms' by auto
qed

text \<open>
  A published stack slot, read off the runtime the way the kernel does.
\<close>

definition slot_ok :: "adstack_runtime \<Rightarrow> dev_stack_header list \<Rightarrow> nat \<Rightarrow> bool" where
  "slot_ok rt shs k \<longleftrightarrow>
     (let sh = shs ! k; m = ar_max_sizes rt k; bytes = slice_bytes sh m in
      1 \<le> m \<and> 8 dvd ar_offsets rt k \<and> 8 + nat (dh_entry_size_bytes sh) * m \<le> bytes \<and>
      ar_offsets rt k + bytes \<le>
        (if is_float sh then ar_per_thread_stride_float rt else ar_per_thread_stride_int rt) \<and>
      list_all (\<lambda>j. is_float (shs ! j) = is_float sh \<longrightarrow>
        ar_offsets rt j + slice_bytes (shs ! j) (ar_max_sizes rt j) \<le> ar_offsets rt k) [0..<k])"

lemma publish_layout_slots:
  assumes len: "length shs = length ms" and fits: "layout_fits shs ms"
    and pos: "list_all (\<lambda>m. 1 \<le> m) ms" and k: "k < length shs"
  shows "slot_ok (publish_layout shs ms 0 0 0 rt) shs k"
proof -
  let ?rt = "publish_layout shs ms 0 0 0 rt"
  have off: "ar_offsets ?rt j = offset_of 0 0 shs ms j" "ar_max_sizes ?rt j = ms ! j"
    if "j < length shs" for j
    using publish_layout_closed_form [OF len, of 0 0 0 rt] that fits
    by (auto simp: layout_fits_def)
  have stride: "ar_per_thread_stride_float ?rt = heap_bytes True shs ms"
    "ar_per_thread_stride_int ?rt = heap_bytes False shs ms"
    using publish_layout_closed_form [OF len, of 0 0 0 rt] fits by (auto simp: layout_fits_def)
  have small: "nat (dh_entry_size_bytes (shs ! k)) * ms ! k + 15 < 2 ^ 64"
    using fits k by (auto simp: layout_fits_def list_all2_conv_all_nth)
  have "8 dvd offset_of 0 0 shs ms k"
    using fits heap_bytes_aligned by (simp add: offset_of_def layout_fits_def)
  then show ?thesis
    using k len pos off offset_in_stride [OF len k, of 0 0] stride slice_bytes_props [OF small]
      offsets_disjoint [OF len _ k, of _ 0 0]
    by (auto simp: slot_ok_def Let_def list_all_length)
qed

end
