(* ===== verification/AdStackOps.thy ===== *)
theory AdStackOps
  imports AdStackLayout
begin

text \<open>
  The local stack operations of the runtime module: an adstack is a 64-bit counter followed by
  entries of two elements (primal, adjoint), living in a slice of the heap that the sizer laid
  out. Overflowing pushes set a flag and a task id in pinned host slots instead of trapping.
\<close>

section \<open>The operations\<close>

definition load_u64 :: "memory \<Rightarrow> int \<Rightarrow> nat" where
  "load_u64 m a = nat (load_uint m a 8)"

definition store_bytes :: "memory \<Rightarrow> int \<Rightarrow> 8 word list \<Rightarrow> memory" where
  "store_bytes m a bs = (\<lambda>x. if a \<le> x \<and> x < a + int (length bs) then bs ! nat (x - a) else m x)"

definition store_u64 :: "memory \<Rightarrow> int \<Rightarrow> nat \<Rightarrow> memory" where
  "store_u64 m a n = store_bytes m a (le_bytes 8 (int (u64 n)))"

text \<open>
  The machine the operations act on: memory, plus the addresses of the two pinned slots
  (\<open>0\<close> when they were never published).
\<close>

record stack_machine =
  sm_mem :: memory
  sm_overflow_flag_ptr :: int
  sm_overflow_task_id_ptr :: int

definition stack_top_primal :: "stack_machine \<Rightarrow> int \<Rightarrow> nat \<Rightarrow> int" where
  "stack_top_primal s stack element_size =
     (let n = load_u64 (sm_mem s) stack; idx = (if 0 < n then n - 1 else 0)
      in stack + 8 + int (idx * 2 * element_size))"

definition stack_top_adjoint :: "stack_machine \<Rightarrow> int \<Rightarrow> nat \<Rightarrow> int" where
  "stack_top_adjoint s stack element_size = stack_top_primal s stack element_size + int element_size"

definition stack_init :: "int \<Rightarrow> stack_machine \<Rightarrow> stack_machine" where
  "stack_init stack s = s\<lparr>sm_mem := store_u64 (sm_mem s) stack 0\<rparr>"

definition stack_pop :: "int \<Rightarrow> stack_machine \<Rightarrow> stack_machine" where
  "stack_pop stack s =
     (let n = load_u64 (sm_mem s) stack in
      if 0 < n then s\<lparr>sm_mem := store_u64 (sm_mem s) stack (n - 1)\<rparr> else s)"

text \<open>The relaxed store and the compare-exchange each act as one step on their slot.\<close>

definition signal_overflow :: "nat \<Rightarrow> stack_machine \<Rightarrow> stack_machine" where
  "signal_overflow task_registry_id s =
     (let m1 = (if sm_overflow_flag_ptr s \<noteq> 0
                then store_u64 (sm_mem s) (sm_overflow_flag_ptr s) 1 else sm_mem s);
          m2 = (if sm_overflow_task_id_ptr s \<noteq> 0 \<and> task_registry_id \<noteq> 0 \<and>
                   load_u64 m1 (sm_overflow_task_id_ptr s) = 0
                then store_u64 m1 (sm_overflow_task_id_ptr s) task_registry_id else m1)
      in s\<lparr>sm_mem := m2\<rparr>)"

definition stack_push :: "int \<Rightarrow> nat \<Rightarrow> nat \<Rightarrow> nat \<Rightarrow> stack_machine \<Rightarrow> stack_machine" where
  "stack_push stack max_num_elements element_size task_registry_id s =
     (let n = load_u64 (sm_mem s) stack in
      if max_num_elements < u64 (n + 1) then signal_overflow task_registry_id s
      else
        (let s1 = s\<lparr>sm_mem := store_u64 (sm_mem s) stack (n + 1)\<rparr>
         in s1\<lparr>sm_mem := store_bytes (sm_mem s1) (stack_top_primal s1 stack element_size)
                           (replicate (element_size * 2) 0)\<rparr>))"

section \<open>Memory\<close>

lemma store_bytes_other: "x < a \<or> a + int (length bs) \<le> x \<Longrightarrow> store_bytes m a bs x = m x"
  by (auto simp: store_bytes_def)

lemma reads_as_store_bytes: "reads_as (store_bytes m a bs) a bs"
  by (simp add: reads_as_def store_bytes_def)

lemma load_store_u64 [simp]: "load_u64 (store_u64 m a n) a = u64 n"
  using load_le_bytes [OF reads_as_store_bytes, of m a 8 "int (u64 n)"]
  by (simp add: load_u64_def store_u64_def u64_def)

lemma store_u64_other: "x < a \<or> a + 8 \<le> x \<Longrightarrow> store_u64 m a n x = m x"
  by (auto simp: store_u64_def store_bytes_other)

lemma load_uint_cong: "(\<And>x. a \<le> x \<Longrightarrow> x < a + int n \<Longrightarrow> m x = m' x) \<Longrightarrow> load_uint m a n = load_uint m' a n"
proof (induction n arbitrary: a)
  case (Suc n)
  have "load_uint m (a + 1) n = load_uint m' (a + 1) n" by (rule Suc.IH) (auto intro: Suc.prems)
  moreover have "m a = m' a" by (rule Suc.prems) auto
  ultimately show ?case by simp
qed simp

lemma load_u64_store_other:
  "a + 8 \<le> b \<or> b + int (length bs) \<le> a \<Longrightarrow> load_u64 (store_bytes m b bs) a = load_u64 m a"
  unfolding load_u64_def by (intro arg_cong [where f = nat] load_uint_cong store_bytes_other) auto

lemma load_u64_bound: "load_u64 m a < 2 ^ 64"
  using load_uint_bounds [of m a 8] by (simp add: load_u64_def nat_less_iff)

section \<open>Invariant of a stack in its slice\<close>

text \<open>
  A stack of capacity \<open>cap\<close> with elements of \<open>esz\<close> bytes occupies \<open>8 + 2 * esz * cap\<close> bytes
  from its base; the pinned slots lie outside.
\<close>

definition slice_end :: "int \<Rightarrow> nat \<Rightarrow> nat \<Rightarrow> int" where
  "slice_end stack cap esz = stack + 8 + int (2 * esz * cap)"

definition slots_outside :: "int \<Rightarrow> nat \<Rightarrow> nat \<Rightarrow> stack_machine \<Rightarrow> bool" where
  "slots_outside stack cap esz s \<longleftrightarrow>
     (\<forall>p \<in> {sm_overflow_flag_ptr s, sm_overflow_task_id_ptr s}.
        p = 0 \<or> p + 8 \<le> stack \<or> slice_end stack cap esz \<le> p)"

definition slots_apart :: "stack_machine \<Rightarrow> bool" where
  "slots_apart s \<longleftrightarrow> sm_overflow_flag_ptr s = 0 \<or> sm_overflow_task_id_ptr s = 0 \<or>
     sm_overflow_flag_ptr s + 8 \<le> sm_overflow_task_id_ptr s \<or>
     sm_overflow_task_id_ptr s + 8 \<le> sm_overflow_flag_ptr s"

definition stack_inv :: "int \<Rightarrow> nat \<Rightarrow> nat \<Rightarrow> stack_machine \<Rightarrow> bool" where
  "stack_inv stack cap esz s \<longleftrightarrow>
     load_u64 (sm_mem s) stack \<le> cap \<and> slots_outside stack cap esz s"

datatype stack_op = Init | Pop | Push

fun run_op :: "int \<Rightarrow> nat \<Rightarrow> nat \<Rightarrow> nat \<Rightarrow> stack_op \<Rightarrow> stack_machine \<Rightarrow> stack_machine" where
  "run_op stack cap esz tid Init s = stack_init stack s"
| "run_op stack cap esz tid Pop s = stack_pop stack s"
| "run_op stack cap esz tid Push s = stack_push stack cap esz tid s"

text \<open>
  Reachability by operations on one stack.
\<close>

inductive stack_reach :: "int \<Rightarrow> nat \<Rightarrow> nat \<Rightarrow> nat \<Rightarrow> stack_machine \<Rightarrow> stack_machine \<Rightarrow> bool"
  for stack cap esz tid where
  start: "stack_reach stack cap esz tid s (stack_init stack s)"
| step: "stack_reach stack cap esz tid s t \<Longrightarrow> stack_reach stack cap esz tid s (run_op stack cap esz tid op t)"

lemma u64_id: "n < 2 ^ 64 \<Longrightarrow> u64 n = n"
  by (simp add: u64_def)

lemma slice_end_ge: "stack + 8 \<le> slice_end stack cap esz"
  by (simp add: slice_end_def)

lemma load_u64_store_u64_other:
  "a + 8 \<le> b \<or> b + 8 \<le> a \<Longrightarrow> load_u64 (store_u64 m b n) a = load_u64 m a"
  by (auto simp: store_u64_def load_u64_store_other)

lemma load_u64_signal:
  assumes "slots_outside stack cap esz s"
  shows "load_u64 (sm_mem (signal_overflow tid s)) stack = load_u64 (sm_mem s) stack"
proof -
  have "p = 0 \<or> p + 8 \<le> stack \<or> stack + 8 \<le> p"
    if "p = sm_overflow_flag_ptr s \<or> p = sm_overflow_task_id_ptr s" for p
    using assms that slice_end_ge [of stack cap esz] unfolding slots_outside_def by force
  from this [of "sm_overflow_flag_ptr s"] this [of "sm_overflow_task_id_ptr s"]
  show ?thesis by (auto simp: signal_overflow_def Let_def load_u64_store_u64_other)
qed

lemma push_room:
  assumes "load_u64 (sm_mem s) stack < cap" "cap < 2 ^ 64 - 1"
  shows "stack_push stack cap esz tid s =
     s\<lparr>sm_mem := store_bytes (store_u64 (sm_mem s) stack (load_u64 (sm_mem s) stack + 1))
        (stack + 8 + int (load_u64 (sm_mem s) stack * 2 * esz)) (replicate (esz * 2) 0)\<rparr>"
  using assms by (simp add: stack_push_def stack_top_primal_def Let_def u64_id)

lemma push_full:
  assumes "stack_inv stack cap esz s" "\<not> load_u64 (sm_mem s) stack < cap" "cap < 2 ^ 64 - 1"
  shows "stack_push stack cap esz tid s = signal_overflow tid s"
  using assms by (simp add: stack_push_def stack_inv_def Let_def u64_id)

lemma push_count:
  assumes "stack_inv stack cap esz s" "cap < 2 ^ 64 - 1"
  shows "load_u64 (sm_mem (stack_push stack cap esz tid s)) stack =
     (if load_u64 (sm_mem s) stack < cap then load_u64 (sm_mem s) stack + 1
      else load_u64 (sm_mem s) stack)"
proof (cases "load_u64 (sm_mem s) stack < cap")
  case True
  then show ?thesis using assms(2) by (simp add: push_room load_u64_store_other u64_id)
next
  case False
  then show ?thesis using assms load_u64_signal [of stack cap esz s] by (simp add: push_full stack_inv_def)
qed

lemma pop_count:
  "load_u64 (sm_mem (stack_pop stack s)) stack = load_u64 (sm_mem s) stack - 1"
  using load_u64_bound [of "sm_mem s" stack] by (auto simp: stack_pop_def Let_def u64_def)

lemma init_count [simp]: "load_u64 (sm_mem (stack_init stack s)) stack = 0"
  by (simp add: stack_init_def u64_def)

lemma op_slots [simp]:
  "sm_overflow_flag_ptr (run_op stack cap esz tid op s) = sm_overflow_flag_ptr s"
  "sm_overflow_task_id_ptr (run_op stack cap esz tid op s) = sm_overflow_task_id_ptr s"
  by (cases op; simp add: stack_init_def stack_pop_def stack_push_def signal_overflow_def Let_def)+

lemma run_op_inv:
  assumes "stack_inv stack cap esz s" "cap < 2 ^ 64 - 1"
  shows "stack_inv stack cap esz (run_op stack cap esz tid op s)"
proof -
  have "load_u64 (sm_mem (run_op stack cap esz tid op s)) stack \<le> cap"
    using assms push_count [OF assms] by (cases op) (auto simp: stack_inv_def pop_count)
  then show ?thesis using assms(1) op_slots [of stack cap esz tid op s]
    by (simp add: stack_inv_def slots_outside_def)
qed

text \<open>Bytes outside the slice change only in the pinned slots.\<close>

definition in_slot :: "stack_machine \<Rightarrow> int \<Rightarrow> bool" where
  "in_slot s x \<longleftrightarrow>
     (sm_overflow_flag_ptr s \<le> x \<and> x < sm_overflow_flag_ptr s + 8) \<or>
     (sm_overflow_task_id_ptr s \<le> x \<and> x < sm_overflow_task_id_ptr s + 8)"

lemma entry_inside:
  assumes "n < cap"
  shows "int (n * 2 * esz) + int (esz * 2) \<le> int (2 * esz * cap)"
proof -
  have "n * 2 * esz + esz * 2 = (n + 1) * (2 * esz)" by (simp add: algebra_simps)
  also have "\<dots> \<le> cap * (2 * esz)" using assms by (intro mult_right_mono) auto
  finally show ?thesis by (simp add: ac_simps flip: of_nat_add of_nat_mult)
qed

lemma run_op_frame:
  assumes "stack_inv stack cap esz s" "cap < 2 ^ 64 - 1"
    and "x < stack \<or> slice_end stack cap esz \<le> x" "\<not> in_slot s x"
  shows "sm_mem (run_op stack cap esz tid op s) x = sm_mem s x"
proof (cases op)
  case Push
  let ?n = "load_u64 (sm_mem s) stack"
  show ?thesis
  proof (cases "?n < cap")
    case True
    have "stack + 8 + int (?n * 2 * esz) + int (esz * 2) \<le> slice_end stack cap esz"
      using entry_inside [OF True, of esz] by (simp add: slice_end_def)
    moreover have "0 \<le> int (?n * 2 * esz)" by simp
    ultimately show ?thesis using True assms(2,3) slice_end_ge [of stack cap esz] Push
      by (auto simp: push_room store_bytes_other store_u64_other simp del: of_nat_mult)
  next
    case False
    then show ?thesis using assms Push
      by (auto simp: push_full signal_overflow_def in_slot_def Let_def store_u64_other)
  qed
qed (use assms(3) slice_end_ge [of stack cap esz] in \<open>auto simp: stack_init_def stack_pop_def Let_def
      store_u64_other\<close>)

lemma stack_reach_inv:
  assumes "stack_reach stack cap esz tid s t" "slots_outside stack cap esz s" "cap < 2 ^ 64 - 1"
  shows "stack_inv stack cap esz t \<and> sm_overflow_flag_ptr t = sm_overflow_flag_ptr s \<and>
     sm_overflow_task_id_ptr t = sm_overflow_task_id_ptr s"
  using assms
proof (induction rule: stack_reach.induct)
  case (start s)
  then show ?case by (simp add: stack_inv_def stack_init_def slots_outside_def u64_def)
next
  case (step s t op)
  then show ?case by (simp add: run_op_inv)
qed

lemma stack_reach_frame:
  assumes "stack_reach stack cap esz tid s t" "slots_outside stack cap esz s" "cap < 2 ^ 64 - 1"
    and "x < stack \<or> slice_end stack cap esz \<le> x" "\<not> in_slot s x"
  shows "sm_mem t x = sm_mem s x"
  using assms
proof (induction rule: stack_reach.induct)
  case (start s)
  then show ?case using slice_end_ge [of stack cap esz]
    by (auto simp: stack_init_def store_u64_other)
next
  case (step s t op)
  have "stack_inv stack cap esz t" "\<not> in_slot t x"
    using stack_reach_inv [OF step.hyps step.prems(1,2)] step.prems(4) by (auto simp: in_slot_def)
  then show ?case using run_op_frame step by metis
qed

text \<open>The top pointers never leave the slice.\<close>

lemma top_in_slice:
  assumes "stack_inv stack cap esz s" "1 \<le> cap"
  shows "stack + 8 \<le> stack_top_primal s stack esz"
    and "stack_top_adjoint s stack esz + int esz \<le> slice_end stack cap esz"
proof -
  let ?n = "load_u64 (sm_mem s) stack"
  let ?idx = "if 0 < ?n then ?n - 1 else 0"
  have "?idx < cap" using assms by (auto simp: stack_inv_def)
  from entry_inside [OF this, of esz]
  show "stack + 8 \<le> stack_top_primal s stack esz"
    and "stack_top_adjoint s stack esz + int esz \<le> slice_end stack cap esz"
    by (auto simp: stack_top_adjoint_def stack_top_primal_def slice_end_def Let_def)
qed

section \<open>The overflow signal\<close>

lemma signal_overflow_slots:
  assumes "slots_apart s" "sm_overflow_flag_ptr s \<noteq> 0" "sm_overflow_task_id_ptr s \<noteq> 0" "tid < 2 ^ 64"
  shows "load_u64 (sm_mem (signal_overflow tid s)) (sm_overflow_flag_ptr s) = 1"
    and "load_u64 (sm_mem (signal_overflow tid s)) (sm_overflow_task_id_ptr s) =
      (if load_u64 (sm_mem s) (sm_overflow_task_id_ptr s) = 0 then tid
       else load_u64 (sm_mem s) (sm_overflow_task_id_ptr s))"
  using assms
  by (auto simp: signal_overflow_def slots_apart_def Let_def u64_id load_u64_store_u64_other)

lemma full_push_signals:
  assumes inv: "stack_inv stack cap esz t \<and> sm_overflow_flag_ptr t = sm_overflow_flag_ptr s \<and>
      sm_overflow_task_id_ptr t = sm_overflow_task_id_ptr s"
    and cap: "cap < 2 ^ 64 - 1" and slots: "slots_apart s" "sm_overflow_flag_ptr s \<noteq> 0"
      "sm_overflow_task_id_ptr s \<noteq> 0" "tid < 2 ^ 64"
    and full: "load_u64 (sm_mem t) stack = cap"
  shows "load_u64 (sm_mem (stack_push stack cap esz tid t)) (sm_overflow_flag_ptr s) = 1"
    and "load_u64 (sm_mem (stack_push stack cap esz tid t)) (sm_overflow_task_id_ptr s) =
       (if load_u64 (sm_mem t) (sm_overflow_task_id_ptr s) = 0 then tid
        else load_u64 (sm_mem t) (sm_overflow_task_id_ptr s))"
    and "stack \<le> x \<Longrightarrow> x < slice_end stack cap esz \<Longrightarrow> sm_mem (stack_push stack cap esz tid t) x = sm_mem t x"
proof -
  have push: "stack_push stack cap esz tid t = signal_overflow tid t"
    using push_full [OF conjunct1 [OF inv] _ cap] full by simp
  have ap: "slots_apart t" using slots(1) inv by (simp add: slots_apart_def)
  show "load_u64 (sm_mem (stack_push stack cap esz tid t)) (sm_overflow_flag_ptr s) = 1"
    "load_u64 (sm_mem (stack_push stack cap esz tid t)) (sm_overflow_task_id_ptr s) =
       (if load_u64 (sm_mem t) (sm_overflow_task_id_ptr s) = 0 then tid
        else load_u64 (sm_mem t) (sm_overflow_task_id_ptr s))"
    unfolding push using signal_overflow_slots [OF ap] slots inv by simp_all
  show "sm_mem (stack_push stack cap esz tid t) x = sm_mem t x"
    if h: "stack \<le> x" "x < slice_end stack cap esz"
  proof -
    have out: "p = 0 \<or> p + 8 \<le> stack \<or> slice_end stack cap esz \<le> p"
      if "p = sm_overflow_flag_ptr t \<or> p = sm_overflow_task_id_ptr t" for p
      using inv that by (auto simp: stack_inv_def slots_outside_def)
    show ?thesis
      using out [of "sm_overflow_flag_ptr t"] out [of "sm_overflow_task_id_ptr t"] h
      unfolding push by (auto simp: signal_overflow_def Let_def store_u64_other)
  qed
qed

end
