(* ===== verification/SizeCache.thy ===== *)
theory SizeCache
  imports HostEval
begin

text \<open>
  \<^verbatim>\<open>AdStackCache\<close> (\<^verbatim>\<open>program/adstack/cache.h\<close>, \<^verbatim>\<open>cache.cpp\<close>): the write-generation counters, the
  observation-validated caches (size expressions, SPIR-V bytecode, max-reducer results) and the
  generation-snapshot caches (per-task metadata for SPIR-V and LLVM, max-reducer launches).
  Maps keyed by a pointer are functions of the address. The cache's counters are what the
  evaluator reads through \<^verbatim>\<open>prog->adstack_cache()\<close>; \<open>with_gens\<close> puts them into an environment.
\<close>

section \<open>State\<close>

type_synonym gen_dep = "int \<times> nat"
type_synonym arg_dep = "int \<times> int \<times> nat"

record per_task_entry =
  pt_metadata :: "nat list"
  pt_stride_float :: nat
  pt_stride_int :: nat
  pt_snode_gens :: "gen_dep list"
  pt_arg_gens :: "arg_dep list"

record llvm_per_task_entry =
  lt_offsets :: "nat list"
  lt_max_sizes :: "nat list"
  lt_stride_combined :: nat
  lt_stride_float :: nat
  lt_stride_int :: nat
  lt_snode_gens :: "gen_dep list"
  lt_arg_gens :: "arg_dep list"

type_synonym max_reducer_results = "(nat \<times> int) list"

record launch_entry =
  le_result :: max_reducer_results
  le_snode_gens :: "gen_dep list"
  le_arg_gens :: "arg_dep list"

record adstack_cache =
  ac_size_expr :: "int \<Rightarrow> (int \<times> read_obs list) option"
  ac_spirv_bytecode :: "int \<Rightarrow> (8 word list \<times> read_obs list) option"
  ac_max_reducer :: "nat \<Rightarrow> (int \<times> read_obs list) option"
  ac_max_reducer_launch :: "int \<Rightarrow> launch_entry option"
  ac_per_task :: "int \<Rightarrow> per_task_entry option"
  ac_llvm_per_task :: "int \<Rightarrow> llvm_per_task_entry option"
  ac_snode_write_gen :: "int \<Rightarrow> nat option"
  ac_ndarray_data_gen :: "int \<Rightarrow> nat option"
  ac_any_recordings :: bool
  ac_observed_snode_ids :: "int set"
  ac_any_external_read_observed :: bool
  ac_observed_devalloc_ptrs :: "int set"
  ac_max_reducer_dispatch_count :: nat

definition empty_cache :: adstack_cache where
  "empty_cache = \<lparr>ac_size_expr = Map.empty, ac_spirv_bytecode = Map.empty,
     ac_max_reducer = Map.empty, ac_max_reducer_launch = Map.empty, ac_per_task = Map.empty,
     ac_llvm_per_task = Map.empty, ac_snode_write_gen = Map.empty, ac_ndarray_data_gen = Map.empty,
     ac_any_recordings = False, ac_observed_snode_ids = {}, ac_any_external_read_observed = False,
     ac_observed_devalloc_ptrs = {}, ac_max_reducer_dispatch_count = 0\<rparr>"

section \<open>Generations\<close>

definition snode_write_gen :: "adstack_cache \<Rightarrow> int \<Rightarrow> nat" where
  "snode_write_gen ac s = (case ac_snode_write_gen ac s of None \<Rightarrow> 0 | Some g \<Rightarrow> g)"

definition ndarray_data_gen :: "adstack_cache \<Rightarrow> int \<Rightarrow> nat" where
  "ndarray_data_gen ac p = (case ac_ndarray_data_gen ac p of None \<Rightarrow> 0 | Some g \<Rightarrow> g)"

definition bump_snode_write_gen :: "int \<Rightarrow> adstack_cache \<Rightarrow> adstack_cache" where
  "bump_snode_write_gen s ac =
     ac\<lparr>ac_snode_write_gen := (ac_snode_write_gen ac)(s \<mapsto> snode_write_gen ac s + 1)\<rparr>"

definition bump_ndarray_data_gen :: "int \<Rightarrow> adstack_cache \<Rightarrow> adstack_cache" where
  "bump_ndarray_data_gen p ac =
     ac\<lparr>ac_ndarray_data_gen := (ac_ndarray_data_gen ac)(p \<mapsto> ndarray_data_gen ac p + 1)\<rparr>"

text \<open>Called from \<^verbatim>\<open>Ndarray::~Ndarray\<close>.\<close>

definition erase_ndarray_data_gen :: "int \<Rightarrow> adstack_cache \<Rightarrow> adstack_cache" where
  "erase_ndarray_data_gen p ac = ac\<lparr>ac_ndarray_data_gen := (ac_ndarray_data_gen ac)(p := None)\<rparr>"

definition with_gens :: "adstack_cache \<Rightarrow> env \<Rightarrow> env" where
  "with_gens ac e = e\<lparr>en_prog := map_option (\<lambda>p. p\<lparr>pg_snode_write_gen := snode_write_gen ac,
     pg_ndarray_data_gen := ndarray_data_gen ac\<rparr>) (en_prog e)\<rparr>"

section \<open>Observations\<close>

definition replay_observation_is_fresh :: "read_obs \<Rightarrow> env \<Rightarrow> bool result" where
  "replay_observation_is_fresh obs e =
     (case ob_kind obs of
        FieldLoadObs \<Rightarrow>
          Inr (case en_prog e of
                 None \<Rightarrow> False
               | Some p \<Rightarrow> pg_snode_write_gen p (ob_snode_id obs) = ob_observed_gen obs)
      | ExternalReadObs \<Rightarrow>
          (case (en_ctx e, ob_arg_id_path obs, en_prog e) of
             (Some ctx, arg_id # _, Some p) \<Rightarrow>
               (case data_ptr_of ctx arg_id of
                  None \<Rightarrow> Inr False
                | Some data_ptr \<Rightarrow>
                    Inr (data_ptr = ob_observed_devalloc obs \<and>
                         pg_ndarray_data_gen p data_ptr = ob_observed_gen obs))
           | _ \<Rightarrow> Inr False)
      | ExternalShapeObs \<Rightarrow>
          (case en_ctx e of
             None \<Rightarrow> Inr False
           | Some ctx \<Rightarrow>
               bindE (shape_at (en_mem e) ctx (ob_arg_id_path obs) (ob_arg_shape_axis obs))
                 (\<lambda>v. Inr (v = ob_observed_value obs))))"

fun replay_all :: "read_obs list \<Rightarrow> env \<Rightarrow> bool result" where
  "replay_all [] e = Inr True"
| "replay_all (obs # os) e =
     bindE (replay_observation_is_fresh obs e) (\<lambda>fresh. if fresh then replay_all os e else Inr False)"

fun note_observations :: "read_obs list \<Rightarrow> adstack_cache \<Rightarrow> adstack_cache" where
  "note_observations [] ac = ac"
| "note_observations (obs # os) ac =
     note_observations os
       (case ob_kind obs of
          FieldLoadObs \<Rightarrow>
            ac\<lparr>ac_observed_snode_ids := insert (ob_snode_id obs) (ac_observed_snode_ids ac)\<rparr>
        | ExternalReadObs \<Rightarrow>
            (let ac' = ac\<lparr>ac_any_external_read_observed := True\<rparr> in
             if ob_observed_devalloc obs \<noteq> 0
             then ac'\<lparr>ac_observed_devalloc_ptrs :=
                    insert (ob_observed_devalloc obs) (ac_observed_devalloc_ptrs ac')\<rparr>
             else ac')
        | ExternalShapeObs \<Rightarrow> ac)"

definition note_per_task_dependencies ::
  "gen_dep list \<Rightarrow> arg_dep list \<Rightarrow> adstack_cache \<Rightarrow> adstack_cache" where
  "note_per_task_dependencies snode_gens arg_gens ac =
     (let ac1 = ac\<lparr>ac_observed_snode_ids := ac_observed_snode_ids ac \<union> set (map fst snode_gens)\<rparr>
      in if arg_gens = [] then ac1
         else ac1\<lparr>ac_any_external_read_observed := True,
                  ac_observed_devalloc_ptrs := ac_observed_devalloc_ptrs ac1 \<union>
                    set (filter (\<lambda>p. p \<noteq> 0) (map (\<lambda>(_, p, _). p) arg_gens))\<rparr>)"

section \<open>Observation-validated caches\<close>

definition try_size_expr_cache_hit ::
  "env \<Rightarrow> int \<Rightarrow> adstack_cache \<Rightarrow> (int option \<times> adstack_cache) result" where
  "try_size_expr_cache_hit e key ac =
     (case ac_size_expr ac key of
        None \<Rightarrow> Inr (None, ac)
      | Some (res, reads) \<Rightarrow>
          bindE (replay_all reads (with_gens ac e)) (\<lambda>fresh.
            if fresh then Inr (Some res, ac)
            else Inr (None, ac\<lparr>ac_size_expr := (ac_size_expr ac)(key := None)\<rparr>)))"

definition record_size_expr_eval :: "int \<Rightarrow> int \<Rightarrow> read_obs list \<Rightarrow> adstack_cache \<Rightarrow> adstack_cache" where
  "record_size_expr_eval key res reads ac =
     (let ac1 = note_observations reads ac
      in ac1\<lparr>ac_size_expr := (ac_size_expr ac1)(key \<mapsto> (res, reads)), ac_any_recordings := True\<rparr>)"

definition try_spirv_bytecode_cache_hit ::
  "env \<Rightarrow> int \<Rightarrow> adstack_cache \<Rightarrow> (8 word list option \<times> adstack_cache) result" where
  "try_spirv_bytecode_cache_hit e key ac =
     (case ac_spirv_bytecode ac key of
        None \<Rightarrow> Inr (None, ac)
      | Some (bytecode, reads) \<Rightarrow>
          bindE (replay_all reads (with_gens ac e)) (\<lambda>fresh.
            if fresh then Inr (Some bytecode, ac)
            else Inr (None, ac\<lparr>ac_spirv_bytecode := (ac_spirv_bytecode ac)(key := None)\<rparr>)))"

definition record_spirv_bytecode_eval ::
  "int \<Rightarrow> 8 word list \<Rightarrow> read_obs list \<Rightarrow> adstack_cache \<Rightarrow> adstack_cache" where
  "record_spirv_bytecode_eval key bytecode reads ac =
     (let ac1 = note_observations reads ac
      in ac1\<lparr>ac_spirv_bytecode := (ac_spirv_bytecode ac1)(key \<mapsto> (bytecode, reads)),
             ac_any_recordings := True\<rparr>)"

text \<open>
  The packed 64-bit key: \<open>registry_id\<close> in the low 32 bits, 16 bits each for the stack and the
  node. A negative id is a 64-bit pattern of ones and keeps its low 16 bits.
\<close>

definition pack_max_reducer_key :: "nat \<Rightarrow> int \<Rightarrow> int \<Rightarrow> nat" where
  "pack_max_reducer_key registry_id stack_id mor_node_idx =
     registry_id mod 2 ^ 32 + nat (stack_id mod 2 ^ 16) * 2 ^ 32 + nat (mor_node_idx mod 2 ^ 16) * 2 ^ 48"

definition try_max_reducer_cache_hit ::
  "env \<Rightarrow> nat \<times> int \<times> int \<Rightarrow> adstack_cache \<Rightarrow> (int option \<times> adstack_cache) result" where
  "try_max_reducer_cache_hit e key ac =
     (case key of (registry_id, stack_id, mor_node_idx) \<Rightarrow>
      let k = pack_max_reducer_key registry_id stack_id mor_node_idx in
      case ac_max_reducer ac k of
        None \<Rightarrow> Inr (None, ac)
      | Some (res, reads) \<Rightarrow>
          bindE (replay_all reads (with_gens ac e)) (\<lambda>fresh.
            if fresh then Inr (Some res, ac)
            else Inr (None, ac\<lparr>ac_max_reducer := (ac_max_reducer ac)(k := None)\<rparr>)))"

definition record_max_reducer_eval ::
  "nat \<times> int \<times> int \<Rightarrow> int \<Rightarrow> read_obs list \<Rightarrow> adstack_cache \<Rightarrow> adstack_cache" where
  "record_max_reducer_eval key res reads ac =
     (case key of (registry_id, stack_id, mor_node_idx) \<Rightarrow>
      let ac1 = note_observations reads ac
      in ac1\<lparr>ac_max_reducer := (ac_max_reducer ac1)
               (pack_max_reducer_key registry_id stack_id mor_node_idx \<mapsto> (res, reads)),
             ac_max_reducer_dispatch_count := ac_max_reducer_dispatch_count ac1 + 1,
             ac_any_recordings := True\<rparr>)"

definition lookup_max_reducer_reads ::
  "nat \<Rightarrow> int \<Rightarrow> int \<Rightarrow> adstack_cache \<Rightarrow> read_obs list option" where
  "lookup_max_reducer_reads registry_id stack_id mor_node_idx ac =
     map_option snd (ac_max_reducer ac (pack_max_reducer_key registry_id stack_id mor_node_idx))"

definition populate_max_reducer_body_observation :: "env \<Rightarrow> adstack_cache option \<Rightarrow> read_obs \<Rightarrow> read_obs" where
  "populate_max_reducer_body_observation e ac obs =
     (case ob_kind obs of
        FieldLoadObs \<Rightarrow>
          (case ac of None \<Rightarrow> obs
           | Some c \<Rightarrow> obs\<lparr>ob_observed_gen := snode_write_gen c (ob_snode_id obs)\<rparr>)
      | ExternalShapeObs \<Rightarrow> obs
      | ExternalReadObs \<Rightarrow>
          (case (ob_arg_id_path obs, en_ctx e) of
             (arg_id # _, Some ctx) \<Rightarrow>
               (case data_ptr_of ctx arg_id of
                  None \<Rightarrow> obs
                | Some p \<Rightarrow>
                    (let obs' = obs\<lparr>ob_observed_devalloc := p\<rparr> in
                     case ac of None \<Rightarrow> obs' | Some c \<Rightarrow> obs'\<lparr>ob_observed_gen := ndarray_data_gen c p\<rparr>))
           | _ \<Rightarrow> obs))"

definition populate_max_reducer_body_observations ::
  "read_obs list \<Rightarrow> env \<Rightarrow> adstack_cache option \<Rightarrow> read_obs list" where
  "populate_max_reducer_body_observations reads e ac =
     map (populate_max_reducer_body_observation e ac) reads"

section \<open>Generation-snapshot caches\<close>

definition current_devalloc :: "launch_ctx option \<Rightarrow> int \<Rightarrow> int" where
  "current_devalloc ctx arg_id =
     (case ctx of
        None \<Rightarrow> 0
      | Some c \<Rightarrow> (case data_ptr_of c arg_id of None \<Rightarrow> 0 | Some p \<Rightarrow> p))"

definition snode_dep_fresh :: "adstack_cache \<Rightarrow> gen_dep \<Rightarrow> bool" where
  "snode_dep_fresh ac d \<longleftrightarrow> (case d of (s, g) \<Rightarrow> snode_write_gen ac s = g)"

definition arg_dep_fresh :: "adstack_cache \<Rightarrow> launch_ctx option \<Rightarrow> arg_dep \<Rightarrow> bool" where
  "arg_dep_fresh ac ctx d \<longleftrightarrow>
     (case d of (a, p, g) \<Rightarrow> current_devalloc ctx a = p \<and> ndarray_data_gen ac p = g)"

definition deps_fresh :: "adstack_cache \<Rightarrow> launch_ctx option \<Rightarrow> gen_dep list \<Rightarrow> arg_dep list \<Rightarrow> bool" where
  "deps_fresh ac ctx sg ag \<longleftrightarrow> list_all (snode_dep_fresh ac) sg \<and> list_all (arg_dep_fresh ac ctx) ag"

definition record_per_task_ad_stack ::
  "int \<Rightarrow> nat list \<Rightarrow> nat \<Rightarrow> nat \<Rightarrow> gen_dep list \<Rightarrow> arg_dep list \<Rightarrow> adstack_cache \<Rightarrow> adstack_cache" where
  "record_per_task_ad_stack key metadata sf si sg ag ac =
     (let ac1 = note_per_task_dependencies sg ag ac
      in ac1\<lparr>ac_per_task := (ac_per_task ac1)(key \<mapsto> \<lparr>pt_metadata = metadata, pt_stride_float = sf,
               pt_stride_int = si, pt_snode_gens = sg, pt_arg_gens = ag\<rparr>), ac_any_recordings := True\<rparr>)"

definition try_per_task_ad_stack_cache_hit ::
  "int \<Rightarrow> launch_ctx option \<Rightarrow> adstack_cache \<Rightarrow> per_task_entry option \<times> adstack_cache" where
  "try_per_task_ad_stack_cache_hit key ctx ac =
     (case ac_per_task ac key of
        None \<Rightarrow> (None, ac)
      | Some entry \<Rightarrow>
          if deps_fresh ac ctx (pt_snode_gens entry) (pt_arg_gens entry) then (Some entry, ac)
          else (None, ac\<lparr>ac_per_task := (ac_per_task ac)(key := None)\<rparr>))"

definition record_llvm_per_task_ad_stack ::
  "int \<Rightarrow> nat list \<Rightarrow> nat list \<Rightarrow> nat \<Rightarrow> nat \<Rightarrow> nat \<Rightarrow> gen_dep list \<Rightarrow> arg_dep list \<Rightarrow>
   adstack_cache \<Rightarrow> adstack_cache" where
  "record_llvm_per_task_ad_stack key offsets max_sizes sc sf si sg ag ac =
     (let ac1 = note_per_task_dependencies sg ag ac
      in ac1\<lparr>ac_llvm_per_task := (ac_llvm_per_task ac1)(key \<mapsto> \<lparr>lt_offsets = offsets,
               lt_max_sizes = max_sizes, lt_stride_combined = sc, lt_stride_float = sf,
               lt_stride_int = si, lt_snode_gens = sg, lt_arg_gens = ag\<rparr>), ac_any_recordings := True\<rparr>)"

definition try_llvm_per_task_ad_stack_cache_hit ::
  "int \<Rightarrow> launch_ctx option \<Rightarrow> adstack_cache \<Rightarrow> llvm_per_task_entry option \<times> adstack_cache" where
  "try_llvm_per_task_ad_stack_cache_hit key ctx ac =
     (case ac_llvm_per_task ac key of
        None \<Rightarrow> (None, ac)
      | Some entry \<Rightarrow>
          if deps_fresh ac ctx (lt_snode_gens entry) (lt_arg_gens entry) then (Some entry, ac)
          else (None, ac\<lparr>ac_llvm_per_task := (ac_llvm_per_task ac)(key := None)\<rparr>))"

text \<open>A launch-cache miss leaves its entry in place.\<close>

definition try_max_reducer_launch_cache_hit ::
  "int \<Rightarrow> launch_ctx option \<Rightarrow> adstack_cache \<Rightarrow> max_reducer_results option" where
  "try_max_reducer_launch_cache_hit key ctx ac =
     (if key = 0 \<or> ctx = None then None
      else
        (case ac_max_reducer_launch ac key of
           None \<Rightarrow> None
         | Some entry \<Rightarrow>
             if deps_fresh ac ctx (le_snode_gens entry) (le_arg_gens entry)
             then Some (le_result entry) else None))"

text \<open>
  \<^verbatim>\<open>record_max_reducer_launch_cache\<close>: the dependencies of every spec of every task, deduplicated.
  A task is given by its registry id and the \<open>(stack, node)\<close> pairs of its specs.
\<close>

definition dep_put :: "'k \<Rightarrow> 'v \<Rightarrow> ('k \<times> 'v) list \<Rightarrow> ('k \<times> 'v) list" where
  "dep_put k v m = filter (\<lambda>(k', _). k' \<noteq> k) m @ [(k, v)]"

definition launch_deps_obs ::
  "adstack_cache \<Rightarrow> launch_ctx \<Rightarrow> read_obs \<Rightarrow> (int \<times> nat) list \<times> (int \<times> int \<times> nat) list \<Rightarrow>
   (int \<times> nat) list \<times> (int \<times> int \<times> nat) list" where
  "launch_deps_obs ac ctx obs deps =
     (case deps of (sg, ag) \<Rightarrow>
      case ob_kind obs of
        FieldLoadObs \<Rightarrow>
          (if 0 \<le> ob_snode_id obs
           then (dep_put (ob_snode_id obs) (snode_write_gen ac (ob_snode_id obs)) sg, ag) else (sg, ag))
      | ExternalReadObs \<Rightarrow>
          (case ob_arg_id_path obs of
             [] \<Rightarrow> (sg, ag)
           | a # _ \<Rightarrow> (let p = current_devalloc (Some ctx) a
                      in (sg, dep_put a (p, ndarray_data_gen ac p) ag)))
      | ExternalShapeObs \<Rightarrow> (sg, ag))"

definition launch_deps_spec ::
  "adstack_cache \<Rightarrow> launch_ctx \<Rightarrow> nat \<Rightarrow> int \<times> int \<Rightarrow> (int \<times> nat) list \<times> (int \<times> int \<times> nat) list \<Rightarrow>
   (int \<times> nat) list \<times> (int \<times> int \<times> nat) list" where
  "launch_deps_spec ac ctx registry_id spec deps =
     (case lookup_max_reducer_reads registry_id (fst spec) (snd spec) ac of
        None \<Rightarrow> deps
      | Some reads \<Rightarrow> fold (launch_deps_obs ac ctx) reads deps)"

definition launch_deps_task ::
  "adstack_cache \<Rightarrow> launch_ctx \<Rightarrow> nat \<times> (int \<times> int) list \<Rightarrow>
   (int \<times> nat) list \<times> (int \<times> int \<times> nat) list \<Rightarrow> (int \<times> nat) list \<times> (int \<times> int \<times> nat) list" where
  "launch_deps_task ac ctx task deps =
     (case task of (registry_id, specs) \<Rightarrow>
      if specs = [] \<or> registry_id = 0 then deps
      else fold (launch_deps_spec ac ctx registry_id) specs deps)"

definition record_max_reducer_launch_cache ::
  "int \<Rightarrow> (nat \<times> (int \<times> int) list) list \<Rightarrow> max_reducer_results \<Rightarrow> launch_ctx option \<Rightarrow>
   adstack_cache \<Rightarrow> adstack_cache" where
  "record_max_reducer_launch_cache key tasks results ctx ac =
     (case ctx of
        None \<Rightarrow> ac
      | Some c \<Rightarrow>
          if key = 0 then ac
          else
            (let (sg, ag) = fold (launch_deps_task ac c) tasks ([], []);
                 ac1 = note_per_task_dependencies sg ag ac
             in ac1\<lparr>ac_max_reducer_launch := (ac_max_reducer_launch ac1)(key \<mapsto>
                      \<lparr>le_result = results, le_snode_gens = sg, le_arg_gens = ag\<rparr>),
                    ac_any_recordings := True\<rparr>))"

definition invalidate_size_expr :: "adstack_cache \<Rightarrow> adstack_cache" where
  "invalidate_size_expr ac = ac\<lparr>ac_size_expr := Map.empty\<rparr>"

definition invalidate_spirv_bytecode :: "adstack_cache \<Rightarrow> adstack_cache" where
  "invalidate_spirv_bytecode ac = ac\<lparr>ac_spirv_bytecode := Map.empty\<rparr>"

definition invalidate_all_per_task :: "adstack_cache \<Rightarrow> adstack_cache" where
  "invalidate_all_per_task ac = ac\<lparr>ac_per_task := Map.empty, ac_llvm_per_task := Map.empty,
     ac_max_reducer := Map.empty, ac_max_reducer_launch := Map.empty\<rparr>"

section \<open>The cached evaluation entry point\<close>

definition evaluate_adstack_size_expr ::
  "int \<Rightarrow> ser_expr \<Rightarrow> env \<Rightarrow> read_cache option \<Rightarrow> adstack_cache \<Rightarrow>
   (int \<times> read_cache option \<times> adstack_cache) result" where
  "evaluate_adstack_size_expr key ns e outer ac =
     (if ns = [] then Inr (-1, outer, ac)
      else
        bindE (if en_prog e = None then Inr (None, ac) else try_size_expr_cache_hit e key ac)
         (\<lambda>(hit, ac1).
          case hit of
            Some v \<Rightarrow> Inr (v, launch_scope_leave outer (launch_scope_enter outer), ac1)
          | None \<Rightarrow>
              bindE (evaluate_root ns (int (length ns) - 1) (with_gens ac1 e) outer (Some []))
                (\<lambda>(v, c, rd).
                 Inr (v, c, if en_prog e = None then ac1
                            else record_size_expr_eval key v (case rd of None \<Rightarrow> [] | Some r \<Rightarrow> r) ac1))))"

end
