(* ===== verification/WriteGen.thy ===== *)
theory WriteGen
  imports SizeCache
begin

text \<open>
  Generation bumps before a kernel launch and the row clip by loop trip count
  (\<^verbatim>\<open>program/adstack/write_gen.cpp\<close>).
\<close>

section \<open>Bumps\<close>

text \<open>The access sets of one offloaded task.\<close>

record task_access =
  ta_snode_writes :: "int list"
  ta_arr_writes :: "int list"
  ta_arr_reads :: "int list"

definition bump_data_ptr :: "launch_ctx \<Rightarrow> int \<Rightarrow> adstack_cache \<Rightarrow> adstack_cache" where
  "bump_data_ptr ctx arg_id ac =
     (case data_ptr_of ctx arg_id of
        None \<Rightarrow> ac
      | Some p \<Rightarrow> if p \<noteq> 0 then bump_ndarray_data_gen p ac else ac)"

definition is_host_array :: "launch_ctx \<Rightarrow> int \<Rightarrow> bool" where
  "is_host_array ctx arg_id \<longleftrightarrow> lc_device_allocation_type ctx arg_id = Some AllocNone"

text \<open>The CUDA / AMDGPU overload: unconditional.\<close>

definition bump_task_llvm :: "launch_ctx \<Rightarrow> task_access \<Rightarrow> adstack_cache \<Rightarrow> adstack_cache" where
  "bump_task_llvm ctx task ac =
     fold (bump_data_ptr ctx) (filter (is_host_array ctx) (ta_arr_reads task))
       (fold (bump_data_ptr ctx) (ta_arr_writes task)
         (fold bump_snode_write_gen (ta_snode_writes task) ac))"

definition bump_writes_for_kernel_llvm_gpu ::
  "launch_ctx \<Rightarrow> task_access list \<Rightarrow> adstack_cache option \<Rightarrow> adstack_cache option" where
  "bump_writes_for_kernel_llvm_gpu ctx tasks ac = map_option (fold (bump_task_llvm ctx) tasks) ac"

text \<open>
  The CPU overload: nothing to do before the first recording, then only ids and buffers that a
  recording has observed.
\<close>

definition bump_observed_snode :: "int \<Rightarrow> adstack_cache \<Rightarrow> adstack_cache" where
  "bump_observed_snode s ac = (if s \<in> ac_observed_snode_ids ac then bump_snode_write_gen s ac else ac)"

definition bump_observed_data_ptr :: "launch_ctx \<Rightarrow> int \<Rightarrow> adstack_cache \<Rightarrow> adstack_cache" where
  "bump_observed_data_ptr ctx arg_id ac =
     (case data_ptr_of ctx arg_id of
        None \<Rightarrow> ac
      | Some p \<Rightarrow> if p \<noteq> 0 \<and> p \<in> ac_observed_devalloc_ptrs ac then bump_ndarray_data_gen p ac else ac)"

definition bump_writes_for_kernel_llvm_cpu ::
  "launch_ctx \<Rightarrow> int list list \<Rightarrow> int list list \<Rightarrow> int list list \<Rightarrow> adstack_cache option \<Rightarrow>
   adstack_cache option" where
  "bump_writes_for_kernel_llvm_cpu ctx snode_writes arr_writes arr_reads prog_cache =
     map_option (\<lambda>ac.
       if \<not> ac_any_recordings ac then ac
       else
         (let ac1 = fold (fold bump_observed_snode) snode_writes ac in
          if \<not> ac_any_external_read_observed ac1 then ac1
          else fold (fold (bump_observed_data_ptr ctx)) (map (filter (is_host_array ctx)) arr_reads)
                 (fold (fold (bump_observed_data_ptr ctx)) arr_writes ac1))) prog_cache"

text \<open>
  The SPIR-V variant. Each \<open>arr_access\<close> entry is an argument path with its access bits (1 read,
  2 write); a path that is not a single argument is an assertion failure.
\<close>

fun bump_access_spirv :: "launch_ctx \<Rightarrow> (int list \<times> nat) list \<Rightarrow> adstack_cache \<Rightarrow> adstack_cache option" where
  "bump_access_spirv ctx [] ac = Some ac"
| "bump_access_spirv ctx ((indices, access) # rest) ac =
     (case indices of
        [arg_id] \<Rightarrow>
          (let kernel_writes = odd (access div 2);
               kone_h2d_blit = (odd access \<and> (case lc_device_allocation_type ctx arg_id of
                                   None \<Rightarrow> True | Some ty \<Rightarrow> ty = AllocNone));
               ac' = (if \<not> kernel_writes \<and> \<not> kone_h2d_blit then ac
                      else case data_ptr_of ctx arg_id of None \<Rightarrow> ac | Some p \<Rightarrow> bump_ndarray_data_gen p ac)
           in bump_access_spirv ctx rest ac')
      | _ \<Rightarrow> None)"

definition bump_writes_for_kernel_spirv ::
  "launch_ctx \<Rightarrow> int list list \<Rightarrow> (int list \<times> nat) list \<Rightarrow> adstack_cache option \<Rightarrow>
   adstack_cache option option" where
  "bump_writes_for_kernel_spirv ctx snode_writes arr_access prog_cache =
     (case prog_cache of
        None \<Rightarrow> Some None
      | Some ac \<Rightarrow>
          map_option Some (bump_access_spirv ctx arr_access (fold (fold bump_snode_write_gen) snode_writes ac)))"

section \<open>Clipping the row count\<close>

record bound_trip =
  bt_loop_iter_static :: int
  bt_loop_iter_size_expr :: ser_expr
  bt_key :: int

definition clip_effective_rows_by_loop_trip_count ::
  "nat \<Rightarrow> bound_trip \<Rightarrow> nat \<Rightarrow> env \<Rightarrow> read_cache option \<Rightarrow> adstack_cache \<Rightarrow>
   (nat \<times> read_cache option \<times> adstack_cache) result" where
  "clip_effective_rows_by_loop_trip_count rows bt ceiling e outer ac =
     (if 0 < bt_loop_iter_static bt then
        Inr (if nat (bt_loop_iter_static bt) \<le> ceiling then min rows (nat (bt_loop_iter_static bt)) else rows,
             outer, ac)
      else if bt_loop_iter_size_expr bt = [] \<or> en_prog e = None \<or> en_ctx e = None then Inr (rows, outer, ac)
      else
        bindE (evaluate_adstack_size_expr (bt_key bt) (bt_loop_iter_size_expr bt) e outer ac)
          (\<lambda>(v, c, ac'). Inr (if 0 < v \<and> nat v \<le> ceiling then min rows (nat v) else rows, c, ac')))"

text \<open>Clipping never raises the row count and respects a static trip count below the ceiling.\<close>

lemma clip_bounds:
  assumes "clip_effective_rows_by_loop_trip_count rows bt ceiling e outer ac = Inr (rows', c, ac')"
  shows "rows' \<le> rows \<and>
    (0 < bt_loop_iter_static bt \<longrightarrow> nat (bt_loop_iter_static bt) \<le> ceiling \<longrightarrow> int rows' \<le> bt_loop_iter_static bt)"
  using assms
  by (auto simp: clip_effective_rows_by_loop_trip_count_def result_simps split: if_splits)

end
