(* ===== verification/WriteBarrier.thy ===== *)
theory WriteBarrier
  imports WriteGen
begin

text \<open>
  What the caches rely on from the pre-launch bumps, as an interface: a bump touches nothing but
  the generation counters, no counter ever goes down, and every SNode or buffer that the launch
  writes and that some recording has observed gets a new generation. The three launch back ends
  (LLVM on a GPU, LLVM on the CPU with its gates, SPIR-V) are shown to provide it.
\<close>

section \<open>Counters move up, nothing else moves\<close>

definition only_gens :: "adstack_cache \<Rightarrow> adstack_cache \<Rightarrow> bool" where
  "only_gens ac ac' \<longleftrightarrow>
     ac' = ac\<lparr>ac_snode_write_gen := ac_snode_write_gen ac', ac_ndarray_data_gen := ac_ndarray_data_gen ac'\<rparr>"

definition bumps :: "adstack_cache \<Rightarrow> adstack_cache \<Rightarrow> bool" where
  "bumps ac ac' \<longleftrightarrow> only_gens ac ac' \<and>
     (\<forall>s. snode_write_gen ac s \<le> snode_write_gen ac' s) \<and>
     (\<forall>p. ndarray_data_gen ac p \<le> ndarray_data_gen ac' p)"

lemma only_gens_simps:
  assumes "only_gens ac ac'"
  shows "ac_size_expr ac' = ac_size_expr ac" "ac_any_recordings ac' = ac_any_recordings ac"
    "ac_observed_snode_ids ac' = ac_observed_snode_ids ac"
    "ac_any_external_read_observed ac' = ac_any_external_read_observed ac"
    "ac_observed_devalloc_ptrs ac' = ac_observed_devalloc_ptrs ac"
  using assms by (cases ac; cases ac'; simp add: only_gens_def)+

lemma bumps_refl [simp]: "bumps ac ac"
  by (simp add: bumps_def only_gens_def)

lemma bumps_trans: "bumps a b \<Longrightarrow> bumps b c \<Longrightarrow> bumps a c"
  by (cases a; cases b; cases c) (auto simp: bumps_def only_gens_def intro: order_trans)

lemma bumps_snode [simp]: "bumps ac (bump_snode_write_gen s ac)"
  by (auto simp: bumps_def only_gens_def bump_snode_write_gen_def snode_write_gen_def ndarray_data_gen_def)

lemma bumps_ndarray [simp]: "bumps ac (bump_ndarray_data_gen p ac)"
  by (auto simp: bumps_def only_gens_def bump_ndarray_data_gen_def snode_write_gen_def ndarray_data_gen_def)

lemma snode_gen_bumped [simp]:
  "snode_write_gen (bump_snode_write_gen s ac) s = Suc (snode_write_gen ac s)"
  by (simp add: bump_snode_write_gen_def snode_write_gen_def)

lemma ndarray_gen_bumped [simp]:
  "ndarray_data_gen (bump_ndarray_data_gen p ac) p = Suc (ndarray_data_gen ac p)"
  by (simp add: bump_ndarray_data_gen_def ndarray_data_gen_def)

lemma bumps_fold: "(\<And>x a. bumps a (f x a)) \<Longrightarrow> bumps ac (fold f xs ac)"
  by (induction xs arbitrary: ac) (auto intro: bumps_trans)

text \<open>
  A loop of bumps raises the counter \<open>g\<close> as soon as one of its rounds does, provided the others
  do not lower it.
\<close>

lemma fold_raises:
  assumes step: "\<And>x a. bumps a (f x a)"
    and mono: "\<And>a b. bumps a b \<Longrightarrow> g a \<le> (g b :: nat)"
    and raise: "\<And>a. bumps ac a \<Longrightarrow> g a < g (f x a)"
    and mem: "x \<in> set xs"
  shows "g ac < g (fold f xs ac)"
proof -
  obtain ys zs where xs: "xs = ys @ x # zs" using mem by (meson split_list)
  let ?a = "fold f ys ac"
  have pre: "bumps ac ?a" by (rule bumps_fold [OF step])
  have "g ac \<le> g ?a" by (rule mono [OF pre])
  also have "\<dots> < g (f x ?a)" by (rule raise [OF pre])
  also have "\<dots> \<le> g (fold f zs (f x ?a))" by (rule mono [OF bumps_fold [OF step]])
  finally show ?thesis by (simp add: xs)
qed

lemma bumps_gens_mono:
  "bumps a b \<Longrightarrow> snode_write_gen a s \<le> snode_write_gen b s"
  "bumps a b \<Longrightarrow> ndarray_data_gen a p \<le> ndarray_data_gen b p"
  by (simp_all add: bumps_def)

lemma bumps_observed:
  assumes "bumps ac a"
  shows "ac_observed_snode_ids a = ac_observed_snode_ids ac"
    "ac_observed_devalloc_ptrs a = ac_observed_devalloc_ptrs ac"
    "ac_any_recordings a = ac_any_recordings ac"
    "ac_any_external_read_observed a = ac_any_external_read_observed ac"
  using assms by (simp_all add: bumps_def only_gens_simps)

lemma fold_raises_snode:
  assumes "\<And>x a. bumps a (f x a)" "\<And>a. bumps ac a \<Longrightarrow> snode_write_gen a s < snode_write_gen (f x a) s"
    and "x \<in> set xs"
  shows "snode_write_gen ac s < snode_write_gen (fold f xs ac) s"
  using fold_raises [of f "\<lambda>a. snode_write_gen a s", OF assms(1) bumps_gens_mono(1) assms(2,3)] .

lemma fold_raises_ptr:
  assumes "\<And>x a. bumps a (f x a)" "\<And>a. bumps ac a \<Longrightarrow> ndarray_data_gen a p < ndarray_data_gen (f x a) p"
    and "x \<in> set xs"
  shows "ndarray_data_gen ac p < ndarray_data_gen (fold f xs ac) p"
  using fold_raises [of f "\<lambda>a. ndarray_data_gen a p", OF assms(1) bumps_gens_mono(2) assms(2,3)] .

section \<open>The interface\<close>

locale write_barrier =
  fixes bump :: "launch_ctx \<Rightarrow> 'l \<Rightarrow> adstack_cache \<Rightarrow> adstack_cache option"
    and written_snodes :: "'l \<Rightarrow> int set"
    and written_ptrs :: "launch_ctx \<Rightarrow> 'l \<Rightarrow> int set"
  assumes bump_bumps: "bump ctx l ac = Some ac' \<Longrightarrow> bumps ac ac'"
    and bump_raises_snode: "bump ctx l ac = Some ac' \<Longrightarrow> ac_any_recordings ac \<Longrightarrow>
      s \<in> written_snodes l \<Longrightarrow> s \<in> ac_observed_snode_ids ac \<Longrightarrow>
      snode_write_gen ac s < snode_write_gen ac' s"
    and bump_raises_ptr: "bump ctx l ac = Some ac' \<Longrightarrow> ac_any_recordings ac \<Longrightarrow>
      ac_any_external_read_observed ac \<Longrightarrow> p \<in> written_ptrs ctx l \<Longrightarrow> p \<noteq> 0 \<Longrightarrow>
      p \<in> ac_observed_devalloc_ptrs ac \<Longrightarrow> ndarray_data_gen ac p < ndarray_data_gen ac' p"
begin

text \<open>A snapshot that still matches after the bump is of something the launch does not write.\<close>

lemma unchanged_snode_not_written:
  assumes "bump ctx l ac = Some ac'" "ac_any_recordings ac" "s \<in> ac_observed_snode_ids ac"
    and "g \<le> snode_write_gen ac s" "g = snode_write_gen ac' s"
  shows "s \<notin> written_snodes l \<and> g = snode_write_gen ac s"
proof
  show "s \<notin> written_snodes l" using bump_raises_snode [OF assms(1,2) _ assms(3)] assms(4,5) by auto
  show "g = snode_write_gen ac s"
    using bumps_gens_mono(1) [OF bump_bumps [OF assms(1)], of s] assms(4,5) by simp
qed

lemma unchanged_ptr_not_written:
  assumes "bump ctx l ac = Some ac'" "ac_any_recordings ac" "ac_any_external_read_observed ac"
    and "p \<in> ac_observed_devalloc_ptrs ac" "p \<noteq> 0" "g \<le> ndarray_data_gen ac p" "g = ndarray_data_gen ac' p"
  shows "p \<notin> written_ptrs ctx l \<and> g = ndarray_data_gen ac p"
proof
  show "p \<notin> written_ptrs ctx l"
    using bump_raises_ptr [OF assms(1-3) _ assms(5,4)] assms(6,7) by auto
  show "g = ndarray_data_gen ac p"
    using bumps_gens_mono(2) [OF bump_bumps [OF assms(1)], of p] assms(6,7) by simp
qed

end

section \<open>The three back ends\<close>

definition gpu_bump :: "launch_ctx \<Rightarrow> task_access list \<Rightarrow> adstack_cache \<Rightarrow> adstack_cache option" where
  "gpu_bump ctx tasks ac = bump_writes_for_kernel_llvm_gpu ctx tasks (Some ac)"

definition gpu_snodes :: "task_access list \<Rightarrow> int set" where
  "gpu_snodes tasks = (\<Union>t \<in> set tasks. set (ta_snode_writes t))"

definition args_ptrs :: "launch_ctx \<Rightarrow> int set \<Rightarrow> int set" where
  "args_ptrs ctx as = {p. \<exists>a \<in> as. data_ptr_of ctx a = Some p}"

definition gpu_ptrs :: "launch_ctx \<Rightarrow> task_access list \<Rightarrow> int set" where
  "gpu_ptrs ctx tasks = args_ptrs ctx (\<Union>t \<in> set tasks.
     set (ta_arr_writes t) \<union> set (filter (is_host_array ctx) (ta_arr_reads t)))"

lemma bumps_data_ptr [simp]: "bumps ac (bump_data_ptr ctx a ac)"
  by (simp add: bump_data_ptr_def split: option.split)

lemma bumps_task_llvm [simp]: "bumps ac (bump_task_llvm ctx t ac)"
  unfolding bump_task_llvm_def by (intro bumps_trans [OF bumps_fold bumps_trans [OF bumps_fold bumps_fold]]) simp_all

lemma bump_task_llvm_snode:
  assumes "s \<in> set (ta_snode_writes t)"
  shows "snode_write_gen ac s < snode_write_gen (bump_task_llvm ctx t ac) s"
proof -
  have "snode_write_gen ac s < snode_write_gen (fold bump_snode_write_gen (ta_snode_writes t) ac) s"
    by (rule fold_raises_snode [where x = s]) (simp_all add: assms)
  also have "\<dots> \<le> snode_write_gen (bump_task_llvm ctx t ac) s"
    unfolding bump_task_llvm_def
    by (rule bumps_gens_mono(1)) (intro bumps_trans [OF bumps_fold bumps_fold], simp_all)
  finally show ?thesis .
qed

lemma bump_task_llvm_ptr:
  assumes "a \<in> set (ta_arr_writes t) \<union> set (filter (is_host_array ctx) (ta_arr_reads t))"
    and "data_ptr_of ctx a = Some p" "p \<noteq> 0"
  shows "ndarray_data_gen ac p < ndarray_data_gen (bump_task_llvm ctx t ac) p"
proof -
  let ?s = "fold bump_snode_write_gen (ta_snode_writes t) ac"
  let ?w = "fold (bump_data_ptr ctx) (ta_arr_writes t) ?s"
  let ?r = "fold (bump_data_ptr ctx) (filter (is_host_array ctx) (ta_arr_reads t)) ?w"
  have le: "ndarray_data_gen ac p \<le> ndarray_data_gen ?s p" "ndarray_data_gen ?s p \<le> ndarray_data_gen ?w p"
    "ndarray_data_gen ?w p \<le> ndarray_data_gen ?r p"
    by (rule bumps_gens_mono(2); rule bumps_fold; simp)+
  have one: "ndarray_data_gen b p < ndarray_data_gen (bump_data_ptr ctx a b) p" for b
    using assms(2,3) by (simp add: bump_data_ptr_def)
  have "ndarray_data_gen ?s p < ndarray_data_gen ?w p" if "a \<in> set (ta_arr_writes t)"
    by (rule fold_raises_ptr [where x = a]) (use that in \<open>simp_all add: one\<close>)
  moreover have "ndarray_data_gen ?w p < ndarray_data_gen ?r p"
    if "a \<in> set (filter (is_host_array ctx) (ta_arr_reads t))"
    by (rule fold_raises_ptr [where x = a]) (use that in \<open>simp_all add: one\<close>)
  ultimately show ?thesis using assms(1) le by (fastforce simp: bump_task_llvm_def)
qed

interpretation gpu: write_barrier gpu_bump gpu_snodes gpu_ptrs
proof
  fix ctx l ac ac' assume b: "gpu_bump ctx l ac = Some ac'"
  then have eq: "ac' = fold (bump_task_llvm ctx) l ac"
    by (simp add: gpu_bump_def bump_writes_for_kernel_llvm_gpu_def)
  show "bumps ac ac'" unfolding eq by (rule bumps_fold) simp
  show "snode_write_gen ac s < snode_write_gen ac' s" if s: "s \<in> gpu_snodes l" for s
  proof -
    obtain t where "t \<in> set l" "s \<in> set (ta_snode_writes t)" using s by (auto simp: gpu_snodes_def)
    then show ?thesis unfolding eq by (intro fold_raises_snode [where x = t]) (simp_all add: bump_task_llvm_snode)
  qed
  show "ndarray_data_gen ac p < ndarray_data_gen ac' p" if p: "p \<in> gpu_ptrs ctx l" "p \<noteq> 0" for p
  proof -
    obtain t a where t: "t \<in> set l"
      "a \<in> set (ta_arr_writes t) \<union> set (filter (is_host_array ctx) (ta_arr_reads t))"
      "data_ptr_of ctx a = Some p"
      using p(1) unfolding gpu_ptrs_def args_ptrs_def by blast
    then show ?thesis unfolding eq
      by (intro fold_raises_ptr [where x = t]) (auto intro: bump_task_llvm_ptr simp: p(2))
  qed
qed

text \<open>The CPU overload: gated on what has been recorded and observed.\<close>

type_synonym cpu_access = "int list list \<times> int list list \<times> int list list"

definition cpu_bump :: "launch_ctx \<Rightarrow> cpu_access \<Rightarrow> adstack_cache \<Rightarrow> adstack_cache option" where
  "cpu_bump ctx l ac =
     (case l of (sw, aw, ar) \<Rightarrow> bump_writes_for_kernel_llvm_cpu ctx sw aw ar (Some ac))"

definition cpu_snodes :: "cpu_access \<Rightarrow> int set" where
  "cpu_snodes l = set (concat (fst l))"

definition cpu_ptrs :: "launch_ctx \<Rightarrow> cpu_access \<Rightarrow> int set" where
  "cpu_ptrs ctx l = args_ptrs ctx (set (concat (fst (snd l))) \<union>
     {a \<in> set (concat (snd (snd l))). is_host_array ctx a})"

lemma bumps_observed_snode [simp]: "bumps ac (bump_observed_snode s ac)"
  by (simp add: bump_observed_snode_def)

lemma bumps_observed_data_ptr [simp]: "bumps ac (bump_observed_data_ptr ctx a ac)"
  by (simp add: bump_observed_data_ptr_def split: option.split)

lemma bumps_fold_fold: "(\<And>x a. bumps a (f x a)) \<Longrightarrow> bumps ac (fold (fold f) xss ac)"
  by (intro bumps_fold)

lemma fold_fold_concat: "fold (fold f) xss = fold f (concat xss)"
  by (induction xss) (auto simp: fun_eq_iff)

lemma cpu_bump_cases:
  assumes "cpu_bump ctx (sw, aw, ar) ac = Some ac'"
  shows "ac' = (if \<not> ac_any_recordings ac then ac
     else if \<not> ac_any_external_read_observed ac then fold bump_observed_snode (concat sw) ac
     else fold (bump_observed_data_ptr ctx) (concat aw @ filter (is_host_array ctx) (concat ar))
            (fold bump_observed_snode (concat sw) ac))"
proof -
  have "bumps ac (fold bump_observed_snode (concat sw) ac)" by (rule bumps_fold) simp
  from bumps_observed(4) [OF this] show ?thesis
    using assms by (auto simp: cpu_bump_def bump_writes_for_kernel_llvm_cpu_def fold_fold_concat
        filter_concat Let_def)
qed

interpretation cpu: write_barrier cpu_bump cpu_snodes cpu_ptrs
proof
  fix ctx and l :: cpu_access and ac ac' assume b: "cpu_bump ctx l ac = Some ac'"
  obtain sw aw ar where l: "l = (sw, aw, ar)" by (cases l)
  note eq = cpu_bump_cases [OF b [unfolded l]]
  let ?s = "fold bump_observed_snode (concat sw) ac"
  let ?as = "concat aw @ filter (is_host_array ctx) (concat ar)"
  let ?w = "fold (bump_observed_data_ptr ctx) ?as ?s"
  have s: "bumps ac ?s" and w: "bumps ?s ?w" by (rule bumps_fold; simp)+
  show "bumps ac ac'" using eq s bumps_trans [OF s w] by (simp split: if_splits)
  show "snode_write_gen ac s < snode_write_gen ac' s"
    if "ac_any_recordings ac" "s \<in> cpu_snodes l" "s \<in> ac_observed_snode_ids ac" for s
  proof -
    have "snode_write_gen ac s < snode_write_gen ?s s"
      using that
      by (intro fold_raises_snode [where x = s]) (auto simp: l cpu_snodes_def bump_observed_snode_def bumps_observed)
    then show ?thesis
      using eq that(1) order_less_le_trans [OF _ bumps_gens_mono(1) [OF w]] by (simp split: if_splits)
  qed
  show "ndarray_data_gen ac p < ndarray_data_gen ac' p"
    if h: "ac_any_recordings ac" "ac_any_external_read_observed ac" "p \<in> cpu_ptrs ctx l" "p \<noteq> 0"
      "p \<in> ac_observed_devalloc_ptrs ac" for p
  proof -
    obtain a where a: "a \<in> set ?as" "data_ptr_of ctx a = Some p"
      using h(3) unfolding cpu_ptrs_def args_ptrs_def l by auto
    have "ndarray_data_gen ?s p < ndarray_data_gen ?w p"
      using a h by (intro fold_raises_ptr [where x = a])
        (auto simp: bump_observed_data_ptr_def bumps_observed [OF bumps_trans [OF s]] split: option.split)
    then show ?thesis using eq h(1,2) bumps_gens_mono(2) [OF s, of p] by simp
  qed
qed

text \<open>SPIR-V: an access list per task, where a path of other than one argument is refused.\<close>

type_synonym spirv_access = "int list list \<times> (int list \<times> nat) list"

definition spirv_bump :: "launch_ctx \<Rightarrow> spirv_access \<Rightarrow> adstack_cache \<Rightarrow> adstack_cache option" where
  "spirv_bump ctx l ac =
     (case bump_writes_for_kernel_spirv ctx (fst l) (snd l) (Some ac) of None \<Rightarrow> None | Some r \<Rightarrow> r)"

definition spirv_snodes :: "spirv_access \<Rightarrow> int set" where
  "spirv_snodes l = set (concat (fst l))"

definition spirv_ptrs :: "launch_ctx \<Rightarrow> spirv_access \<Rightarrow> int set" where
  "spirv_ptrs ctx l = args_ptrs ctx {a. \<exists>access. ([a], access) \<in> set (snd l) \<and>
     (odd (access div 2) \<or> odd access \<and> lc_device_allocation_type ctx a \<in> {None, Some AllocNone})}"

lemma bump_access_spirv_bumps: "bump_access_spirv ctx xs ac = Some ac' \<Longrightarrow> bumps ac ac'"
proof (induction ctx xs ac rule: bump_access_spirv.induct)
  case (2 ctx indices access rest ac)
  then obtain a where i: "indices = [a]" by (auto split: list.splits)
  let ?ac = "if \<not> odd (access div 2) \<and> \<not> (odd access \<and> (case lc_device_allocation_type ctx a of
      None \<Rightarrow> True | Some ty \<Rightarrow> ty = AllocNone)) then ac
    else case data_ptr_of ctx a of None \<Rightarrow> ac | Some p \<Rightarrow> bump_ndarray_data_gen p ac"
  have "bumps ?ac ac'" using 2 i by (simp add: Let_def)
  moreover have "bumps ac ?ac" by (simp split: option.split)
  ultimately show ?case by (rule bumps_trans [rotated])
qed simp

lemma bump_access_spirv_raises:
  assumes "bump_access_spirv ctx xs ac = Some ac'" "([a], access) \<in> set xs"
    and "odd (access div 2) \<or> odd access \<and> lc_device_allocation_type ctx a \<in> {None, Some AllocNone}"
    and "data_ptr_of ctx a = Some p"
  shows "ndarray_data_gen ac p < ndarray_data_gen ac' p"
  using assms(1,2)
proof (induction xs arbitrary: ac)
  case (Cons x xs)
  obtain i acc where x: "x = ([i], acc)" using Cons.prems(1) by (cases x) (auto split: list.splits)
  then obtain b where b: "bump_access_spirv ctx xs b = Some ac'" "bumps ac b"
    and eq: "x = ([a], access) \<Longrightarrow> b = bump_ndarray_data_gen p ac"
    using Cons.prems(1) assms(3,4) by (fastforce simp: Let_def split: if_splits option.splits)
  show ?case
  proof (cases "x = ([a], access)")
    case True
    then show ?thesis
      using bumps_gens_mono(2) [OF bump_access_spirv_bumps [OF b(1)], of p] eq by simp
  next
    case False
    then have "ndarray_data_gen b p < ndarray_data_gen ac' p" using Cons b by auto
    then show ?thesis using bumps_gens_mono(2) [OF b(2), of p] by simp
  qed
qed simp

interpretation spirv: write_barrier spirv_bump spirv_snodes spirv_ptrs
proof
  fix ctx and l :: spirv_access and ac ac' assume b: "spirv_bump ctx l ac = Some ac'"
  let ?s = "fold bump_snode_write_gen (concat (fst l)) ac"
  have eq: "bump_access_spirv ctx (snd l) ?s = Some ac'"
    using b by (simp add: spirv_bump_def bump_writes_for_kernel_spirv_def fold_fold_concat split: option.splits)
  have s: "bumps ac ?s" by (rule bumps_fold) simp
  note w = bump_access_spirv_bumps [OF eq]
  show "bumps ac ac'" by (rule bumps_trans [OF s w])
  show "snode_write_gen ac x < snode_write_gen ac' x" if x: "x \<in> spirv_snodes l" for x
  proof -
    have "snode_write_gen ac x < snode_write_gen ?s x"
      using x by (intro fold_raises_snode [where x = x]) (auto simp: spirv_snodes_def)
    then show ?thesis using bumps_gens_mono(1) [OF w, of x] by simp
  qed
  show "ndarray_data_gen ac p < ndarray_data_gen ac' p" if p: "p \<in> spirv_ptrs ctx l" for p
  proof -
    have "ndarray_data_gen ?s p < ndarray_data_gen ac' p"
      using p bump_access_spirv_raises [OF eq] unfolding spirv_ptrs_def args_ptrs_def by blast
    then show ?thesis using bumps_gens_mono(2) [OF s, of p] by simp
  qed
qed

end
