(* ===== verification/CacheSound.thy ===== *)
theory CacheSound
  imports WriteBarrier
begin

text \<open>
  Soundness of the generation protocol: a cache hit returns what a fresh evaluation would. First
  a relational lemma (two environments that agree on what the observations snapshot give a tree
  the same value), then a step relation of launches and cached evaluations with an invariant that
  ties every entry to the state it was recorded in.
\<close>

section \<open>When two environments give the same value\<close>

text \<open>\<open>ext p\<close> is the size in bytes of the buffer behind the pointer \<open>p\<close>.\<close>

type_synonym extents = "int \<Rightarrow> nat"

definition read_within :: "extents \<Rightarrow> env \<Rightarrow> bound_vars \<Rightarrow> int list \<Rightarrow> int list \<Rightarrow> int \<Rightarrow> bool" where
  "read_within ext e bv p is dt \<longleftrightarrow>
     (case (en_ctx e, p) of
        (Some ctx, a # _) \<Rightarrow>
          (case (data_ptr_of ctx a, mapE (resolve_index bv) is,
                 mapE (\<lambda>k. shape_at (en_mem e) ctx p (int k)) (rev [1..<length is]),
                 prim_of_id (wrap32 dt)) of
             (Some ptr, Inr ix, Inr rshs, Some ty) \<Rightarrow>
               (let linear = wrap64 (row_major ix (rev rshs)) in
                0 \<le> linear \<and> (linear + 1) * int (prim_size ty) \<le> int (ext ptr))
           | _ \<Rightarrow> True)
      | _ \<Rightarrow> True)"

text \<open>Every ndarray element an evaluation reads lies inside its buffer.\<close>

fun reads_within :: "extents \<Rightarrow> env \<Rightarrow> size_expr \<Rightarrow> bound_vars \<Rightarrow> bool" where
  "reads_within ext e (Binary f a b) bv \<longleftrightarrow> reads_within ext e a bv \<and> reads_within ext e b bv"
| "reads_within ext e (MaxOverRange v a b c) bv \<longleftrightarrow>
     reads_within ext e a bv \<and> reads_within ext e b bv \<and>
     (case (size_value e a bv, size_value e b bv) of
        (Inr lo, Inr hi) \<Rightarrow> list_all (\<lambda>i. reads_within ext e c (bv(v \<mapsto> i))) [lo..hi - 1]
      | _ \<Rightarrow> True)"
| "reads_within ext e (ExternalTensorRead p is dt) bv \<longleftrightarrow> read_within ext e bv p is dt"
| "reads_within ext e t bv \<longleftrightarrow> True"

definition field_same :: "env \<Rightarrow> env \<Rightarrow> int \<Rightarrow> bool" where
  "field_same e e' s \<longleftrightarrow>
     (case (en_prog e, en_prog e') of
        (Some p, Some p') \<Rightarrow> (pg_get_snode_by_id p s = None \<longleftrightarrow> pg_get_snode_by_id p' s = None) \<and>
           pg_read_int p s = pg_read_int p' s
      | _ \<Rightarrow> False)"

definition bytes_same :: "extents \<Rightarrow> env \<Rightarrow> env \<Rightarrow> int \<Rightarrow> bool" where
  "bytes_same ext e e' p \<longleftrightarrow> (\<forall>x. p \<le> x \<longrightarrow> x < p + int (ext p) \<longrightarrow> en_mem e x = en_mem e' x)"

fun same_inputs :: "extents \<Rightarrow> env \<Rightarrow> env \<Rightarrow> size_expr \<Rightarrow> bool" where
  "same_inputs ext e e' (Binary f a b) \<longleftrightarrow> same_inputs ext e e' a \<and> same_inputs ext e e' b"
| "same_inputs ext e e' (MaxOverRange v a b c) \<longleftrightarrow>
     same_inputs ext e e' a \<and> same_inputs ext e e' b \<and> same_inputs ext e e' c"
| "same_inputs ext e e' (FieldLoad s is) \<longleftrightarrow> field_same e e' s"
| "same_inputs ext e e' (ExternalTensorShape p ax) \<longleftrightarrow>
     external_shape_value e p ax = external_shape_value e' p ax"
| "same_inputs ext e e' (ExternalTensorRead p is dt) \<longleftrightarrow>
     (\<exists>ctx ctx' a rest ptr. en_ctx e = Some ctx \<and> en_ctx e' = Some ctx' \<and> p = a # rest \<and>
        data_ptr_of ctx a = Some ptr \<and> data_ptr_of ctx' a = Some ptr \<and> bytes_same ext e e' ptr \<and>
        (\<forall>k \<in> {1..<length is}. shape_at (en_mem e) ctx p (int k) = shape_at (en_mem e') ctx' p (int k)))"
| "same_inputs ext e e' t \<longleftrightarrow> True"

lemma load_uint_same:
  "(\<And>x. a \<le> x \<Longrightarrow> x < a + int n \<Longrightarrow> m x = m' x) \<Longrightarrow> load_uint m a n = load_uint m' a n"
proof (induction n arbitrary: a)
  case (Suc n)
  have "load_uint m (a + 1) n = load_uint m' (a + 1) n" by (rule Suc.IH) (auto intro: Suc.prems)
  moreover have "m a = m' a" by (rule Suc.prems) auto
  ultimately show ?case by simp
qed simp

lemma load_elem_same:
  assumes "bytes_same ext e e' p" "0 \<le> linear" "(linear + 1) * int (prim_size ty) \<le> int (ext p)"
  shows "load_elem (en_mem e) p linear ty = load_elem (en_mem e') p linear ty"
proof -
  let ?n = "prim_size ty"
  have lo: "0 \<le> linear * int ?n" using assms(2) by simp
  have "load_uint (en_mem e) (p + linear * int ?n) ?n = load_uint (en_mem e') (p + linear * int ?n) ?n"
  proof (rule load_uint_same)
    fix x assume "p + linear * int ?n \<le> x" "x < p + linear * int ?n + int ?n"
    moreover have "linear * int ?n + int ?n \<le> int (ext p)" using assms(3) by (simp add: algebra_simps)
    ultimately show "en_mem e x = en_mem e' x" using assms(1) lo unfolding bytes_same_def by auto
  qed
  then show ?thesis by (cases ty) simp_all
qed

lemma external_read_value_same:
  assumes same: "same_inputs ext e e' (ExternalTensorRead p is dt)"
    and within: "read_within ext e bv p is dt"
  shows "external_read_value e' bv p is dt = external_read_value e bv p is dt"
proof -
  obtain ctx ctx' a rest ptr where c: "en_ctx e = Some ctx" "en_ctx e' = Some ctx'" "p = a # rest"
    "data_ptr_of ctx a = Some ptr" "data_ptr_of ctx' a = Some ptr" "bytes_same ext e e' ptr"
    "\<forall>k \<in> {1..<length is}. shape_at (en_mem e) ctx p (int k) = shape_at (en_mem e') ctx' p (int k)"
    using same by auto
  let ?sh = "\<lambda>k. shape_at (en_mem e) ctx p (int k)"
  have "mapE (\<lambda>k. shape_at (en_mem e') ctx' p (int k)) (rev [1..<length is]) =
      mapE ?sh (rev [1..<length is])"
    using c(7) by (intro mapE_cong) auto
  then have val': "external_read_value e' bv p is dt =
      bindE (mapE (resolve_index bv) is) (\<lambda>ix. bindE (mapE ?sh (rev [1..<length is]))
        (\<lambda>rshs. load_element (en_mem e') ptr (wrap64 (row_major ix (rev rshs))) dt))"
    using c by (simp add: external_read_value_def)
  have val: "external_read_value e bv p is dt =
      bindE (mapE (resolve_index bv) is) (\<lambda>ix. bindE (mapE ?sh (rev [1..<length is]))
        (\<lambda>rshs. load_element (en_mem e) ptr (wrap64 (row_major ix (rev rshs))) dt))"
    using c by (simp add: external_read_value_def)
  show ?thesis
    unfolding val val'
  proof (cases "mapE (resolve_index bv) is"; cases "mapE ?sh (rev [1..<length is])";
      cases "prim_of_id (wrap32 dt)")
    fix ix rshs ty
    assume r: "mapE (resolve_index bv) is = Inr ix" "mapE ?sh (rev [1..<length is]) = Inr rshs"
      "prim_of_id (wrap32 dt) = Some ty"
    then have "load_elem (en_mem e) ptr (wrap64 (row_major ix (rev rshs))) ty =
        load_elem (en_mem e') ptr (wrap64 (row_major ix (rev rshs))) ty"
      using within c by (intro load_elem_same [OF c(6)]) (auto simp: read_within_def Let_def)
    then show "bindE (mapE (resolve_index bv) is) (\<lambda>ix. bindE (mapE ?sh (rev [1..<length is]))
        (\<lambda>rshs. load_element (en_mem e') ptr (wrap64 (row_major ix (rev rshs))) dt)) =
      bindE (mapE (resolve_index bv) is) (\<lambda>ix. bindE (mapE ?sh (rev [1..<length is]))
        (\<lambda>rshs. load_element (en_mem e) ptr (wrap64 (row_major ix (rev rshs))) dt))"
      using r by (simp add: load_element_def)
  qed (simp_all add: load_element_def)
qed

lemma size_value_same:
  assumes cap: "max_over_range_iterations e' = max_over_range_iterations e"
  shows "same_inputs ext e e' t \<Longrightarrow> reads_within ext e t bv \<Longrightarrow> size_value e' t bv = size_value e t bv"
proof (induction t arbitrary: bv)
  case (Binary f a b)
  then show ?case by simp
next
  case (MaxOverRange v a b c)
  then have ab: "size_value e' a bv = size_value e a bv" "size_value e' b bv = size_value e b bv"
    by auto
  show ?case
  proof (cases "size_value e a bv"; cases "size_value e b bv")
    fix lo hi assume lh: "size_value e a bv = Inr lo" "size_value e b bv = Inr hi"
    have "mapE (\<lambda>i. size_value e' c (bv(v \<mapsto> i))) [lo..hi - 1] =
        mapE (\<lambda>i. size_value e c (bv(v \<mapsto> i))) [lo..hi - 1]"
      using MaxOverRange.prems lh
      by (intro mapE_cong MaxOverRange.IH(3)) (auto simp: list_all_iff simp del: fun_upd_apply)
    then show ?thesis using ab lh cap by simp
  qed (use ab in simp_all)
next
  case (FieldLoad s ix)
  then show ?case by (auto simp: field_same_def field_value_def guardE_def split: option.splits)
next
  case (ExternalTensorRead p ix dt)
  then show ?case by (simp add: external_read_value_same del: same_inputs.simps)
qed simp_all

section \<open>The world of launches\<close>

text \<open>
  Field contents, host-visible memory, the size and the trailing extents of the array behind each
  data pointer, the cache, and what the launch in flight may still write.
\<close>

record world =
  wd_prog :: program
  wd_mem :: memory
  wd_ext :: extents
  wd_shape :: "int \<Rightarrow> nat \<Rightarrow> int"
  wd_cache :: adstack_cache
  wd_pending_snodes :: "int set"
  wd_pending_ptrs :: "int set"

definition env_at :: "world \<Rightarrow> launch_ctx \<Rightarrow> env" where
  "env_at w ctx = \<lparr>en_prog = Some (wd_prog w), en_ctx = Some ctx, en_mem = wd_mem w\<rparr>"

abbreviation genv_at :: "world \<Rightarrow> launch_ctx \<Rightarrow> env" where
  "genv_at w ctx \<equiv> with_gens (wd_cache w) (env_at w ctx)"

abbreviation snode_gen :: "world \<Rightarrow> int \<Rightarrow> nat" where
  "snode_gen w \<equiv> snode_write_gen (wd_cache w)"

abbreviation data_gen :: "world \<Rightarrow> int \<Rightarrow> nat" where
  "data_gen w \<equiv> ndarray_data_gen (wd_cache w)"

definition snode_same :: "world \<Rightarrow> world \<Rightarrow> int \<Rightarrow> bool" where
  "snode_same w w' s \<longleftrightarrow>
     (pg_get_snode_by_id (wd_prog w) s = None \<longleftrightarrow> pg_get_snode_by_id (wd_prog w') s = None) \<and>
     pg_read_int (wd_prog w) s = pg_read_int (wd_prog w') s"

definition buffer_same :: "world \<Rightarrow> world \<Rightarrow> int \<Rightarrow> bool" where
  "buffer_same w w' p \<longleftrightarrow> wd_ext w p = wd_ext w' p \<and> wd_shape w p = wd_shape w' p \<and>
     (\<forall>x. p \<le> x \<longrightarrow> x < p + int (wd_ext w p) \<longrightarrow> wd_mem w x = wd_mem w' x)"

fun tree_snodes :: "size_expr \<Rightarrow> int set" where
  "tree_snodes (Binary f a b) = tree_snodes a \<union> tree_snodes b"
| "tree_snodes (MaxOverRange v a b c) = tree_snodes a \<union> tree_snodes b \<union> tree_snodes c"
| "tree_snodes (FieldLoad s is) = {s}"
| "tree_snodes t = {}"

text \<open>The ndarray reads of a tree: argument path and number of indices.\<close>

fun tree_reads :: "size_expr \<Rightarrow> (int list \<times> nat) set" where
  "tree_reads (Binary f a b) = tree_reads a \<union> tree_reads b"
| "tree_reads (MaxOverRange v a b c) = tree_reads a \<union> tree_reads b \<union> tree_reads c"
| "tree_reads (ExternalTensorRead p is dt) = {(p, length is)}"
| "tree_reads t = {}"

definition tree_ptrs :: "launch_ctx \<Rightarrow> size_expr \<Rightarrow> int set" where
  "tree_ptrs ctx t = {ptr. \<exists>a rest n. (a # rest, n) \<in> tree_reads t \<and> data_ptr_of ctx a = Some ptr}"

text \<open>The launch context describes each array it binds with that array's own extents.\<close>

definition shapes_agree :: "world \<Rightarrow> launch_ctx \<Rightarrow> size_expr \<Rightarrow> bool" where
  "shapes_agree w ctx t \<longleftrightarrow>
     (\<forall>a rest n ptr k. (a # rest, n) \<in> tree_reads t \<longrightarrow> data_ptr_of ctx a = Some ptr \<longrightarrow>
        1 \<le> k \<longrightarrow> k < n \<longrightarrow> shape_at (wd_mem w) ctx (a # rest) (int k) = Inr (wd_shape w ptr k))"

definition can_evaluate :: "world \<Rightarrow> launch_ctx \<Rightarrow> size_expr \<Rightarrow> bool" where
  "can_evaluate w ctx t \<longleftrightarrow>
     indices_fit t \<and> readable (env_at w ctx) t \<and> reads_within (wd_ext w) (env_at w ctx) t Map.empty \<and>
     shapes_agree w ctx t \<and> 0 \<notin> tree_ptrs ctx t \<and>
     tree_snodes t \<inter> wd_pending_snodes w = {} \<and> tree_ptrs ctx t \<inter> wd_pending_ptrs w = {}"

text \<open>Content changes are confined to the given SNodes and buffers.\<close>

definition changes_within :: "int set \<Rightarrow> int set \<Rightarrow> world \<Rightarrow> world \<Rightarrow> bool" where
  "changes_within S P w w' \<longleftrightarrow>
     pg_arch_is_cpu (wd_prog w') = pg_arch_is_cpu (wd_prog w) \<and>
     (\<forall>s. s \<notin> S \<longrightarrow> snode_same w w' s) \<and> (\<forall>p. p \<notin> P \<longrightarrow> buffer_same w w' p)"

section \<open>Generations do not change meanings\<close>

lemma with_gens_fields [simp]:
  "en_ctx (with_gens ac e) = en_ctx e" "en_mem (with_gens ac e) = en_mem e"
  "en_prog (with_gens ac e) = None \<longleftrightarrow> en_prog e = None"
  by (simp_all add: with_gens_def)

lemma with_gens_shape [simp]: "external_shape_value (with_gens ac e) p ax = external_shape_value e p ax"
  by (cases "en_ctx e") (simp_all add: external_shape_value_def)

lemma with_gens_read [simp]: "external_read_value (with_gens ac e) bv p ix dt = external_read_value e bv p ix dt"
  unfolding external_read_value_def with_gens_fields(1,2) by (rule refl)

lemma with_gens_read_within [simp]: "read_within ext (with_gens ac e) bv p ix dt = read_within ext e bv p ix dt"
  by (cases "en_ctx e"; cases p) (simp_all add: read_within_def)

lemma with_gens_field [simp]: "field_value (with_gens ac e) bv s ix = field_value e bv s ix"
  by (simp add: field_value_def with_gens_def split: option.split)

lemma with_gens_value [simp]: "size_value (with_gens ac e) t bv = size_value e t bv"
proof -
  have "max_over_range_iterations (with_gens ac e) = max_over_range_iterations e"
    by (simp add: max_over_range_iterations_def with_gens_def split: option.split)
  then show ?thesis by (induction t arbitrary: bv) simp_all
qed

lemma with_gens_readable [simp]: "readable (with_gens ac e) t = readable e t"
  by (induction t) simp_all

lemma with_gens_reads_within [simp]: "reads_within ext (with_gens ac e) t bv = reads_within ext e t bv"
  by (induction t arbitrary: bv) (simp_all split: sum.split)

lemma with_gens_cache_ok [simp]: "cache_ok (with_gens ac e) c = cache_ok e c"
  by (cases "en_prog e") (auto simp: cache_ok_def with_gens_def)

lemma env_at_fields [simp]:
  "en_prog (env_at w ctx) = Some (wd_prog w)" "en_ctx (env_at w ctx) = Some ctx"
  "en_mem (env_at w ctx) = wd_mem w"
  by (simp_all add: env_at_def)

lemma genv_prog [simp]: "snode_gen_of (en_prog (genv_at w ctx)) = snode_gen w"
  "data_gen_of (en_prog (genv_at w ctx)) = data_gen w"
  by (auto simp: fun_eq_iff with_gens_def snode_gen_of_def data_gen_of_def)

section \<open>What an entry promises\<close>

text \<open>
  An entry was recorded in a world \<open>w0\<close>. Whatever it snapshots is observed, has not gone back to
  an older generation, and as long as the generation is the same it has the content of \<open>w0\<close> and
  no launch in flight may write it.
\<close>

definition linked :: "size_expr \<Rightarrow> launch_ctx \<Rightarrow> world \<Rightarrow> world \<Rightarrow> bool" where
  "linked t ctx0 w0 w \<longleftrightarrow>
     pg_arch_is_cpu (wd_prog w) = pg_arch_is_cpu (wd_prog w0) \<and> ac_any_recordings (wd_cache w) \<and>
     (\<forall>s \<in> tree_snodes t. s \<in> ac_observed_snode_ids (wd_cache w) \<and> snode_gen w0 s \<le> snode_gen w s \<and>
        (snode_gen w0 s = snode_gen w s \<longrightarrow> s \<notin> wd_pending_snodes w \<and> snode_same w0 w s)) \<and>
     (\<forall>p \<in> tree_ptrs ctx0 t. p \<in> ac_observed_devalloc_ptrs (wd_cache w) \<and>
        ac_any_external_read_observed (wd_cache w) \<and> data_gen w0 p \<le> data_gen w p \<and>
        (data_gen w0 p = data_gen w p \<longrightarrow> p \<notin> wd_pending_ptrs w \<and> buffer_same w0 w p))"

definition entry_ok :: "size_expr \<Rightarrow> world \<Rightarrow> int \<times> read_obs list \<Rightarrow> bool" where
  "entry_ok t w entry \<longleftrightarrow>
     (\<exists>w0 ctx0. can_evaluate w0 ctx0 t \<and> recorded (genv_at w0 ctx0) (snd entry) [t] \<and>
        size_value (env_at w0 ctx0) t Map.empty = Inr (fst entry) \<and> linked t ctx0 w0 w)"

definition cache_inv :: "(int \<Rightarrow> size_expr) \<Rightarrow> world \<Rightarrow> bool" where
  "cache_inv T w \<longleftrightarrow> (\<forall>k entry. ac_size_expr (wd_cache w) k = Some entry \<longrightarrow> entry_ok (T k) w entry)"

subsection \<open>A fresh entry sees the inputs it was recorded with\<close>

lemma replay_all_fresh:
  "replay_all os e = Inr True \<Longrightarrow> ob \<in> set os \<Longrightarrow> replay_observation_is_fresh ob e = Inr True"
  by (induction os) (auto simp: result_simps split: if_splits)

lemma fresh_field:
  assumes "linked t ctx0 w0 w" "s \<in> tree_snodes t" "field_covered (genv_at w0 ctx0) os s"
    and "replay_all os (genv_at w ctx) = Inr True"
  shows "field_same (env_at w0 ctx0) (env_at w ctx) s"
proof -
  obtain ob where ob: "ob \<in> set os" "ob_kind ob = FieldLoadObs" "ob_snode_id ob = s"
      "ob_observed_gen ob = snode_gen w0 s"
    using assms(3) by (auto simp: field_covered_def list_ex_iff)
  with replay_all_fresh [OF assms(4) ob(1)] have "snode_gen w s = snode_gen w0 s"
    by (simp add: replay_observation_is_fresh_def with_gens_def)
  with assms(1,2) have "snode_same w0 w s" by (auto simp: linked_def)
  then show ?thesis by (simp add: field_same_def snode_same_def)
qed

lemma fresh_shape:
  assumes "shape_covered (genv_at w0 ctx0) os p ax" "replay_all os (genv_at w ctx) = Inr True"
  shows "external_shape_value (env_at w0 ctx0) p ax = external_shape_value (env_at w ctx) p ax"
proof -
  obtain ob where ob: "ob \<in> set os" "ob_kind ob = ExternalShapeObs" "ob_arg_id_path ob = p"
      "ob_arg_shape_axis ob = ax" "external_shape_value (env_at w0 ctx0) p ax = Inr (ob_observed_value ob)"
    using assms(1) by (auto simp: shape_covered_def list_ex_iff external_shape_value_def)
  with replay_all_fresh [OF assms(2) ob(1)] show ?thesis
    by (simp add: replay_observation_is_fresh_def external_shape_value_def result_simps)
qed

lemma fresh_read:
  assumes link: "linked t ctx0 w0 w" and leaf: "(p, n) \<in> tree_reads t"
    and cov: "read_covered (genv_at w0 ctx0) os p"
    and fresh: "replay_all os (genv_at w ctx) = Inr True"
  shows "\<exists>a rest ptr. p = a # rest \<and> data_ptr_of ctx0 a = Some ptr \<and> data_ptr_of ctx a = Some ptr \<and>
           buffer_same w0 w ptr"
proof -
  obtain a rest ob where ob: "p = a # rest" "ob \<in> set os" "ob_kind ob = ExternalReadObs"
      "ob_arg_id_path ob = p" "data_ptr_of ctx0 a = Some (ob_observed_devalloc ob)"
      "ob_observed_gen ob = data_gen w0 (ob_observed_devalloc ob)"
    using cov by (cases p) (auto simp: read_covered_def list_ex_iff)
  with replay_all_fresh [OF fresh ob(2)]
  have now: "data_ptr_of ctx a = Some (ob_observed_devalloc ob)"
      "data_gen w (ob_observed_devalloc ob) = data_gen w0 (ob_observed_devalloc ob)"
    by (auto simp: replay_observation_is_fresh_def with_gens_def split: option.splits)
  have "ob_observed_devalloc ob \<in> tree_ptrs ctx0 t"
    using leaf ob(1,5) by (auto simp: tree_ptrs_def)
  with link now(2) have "buffer_same w0 w (ob_observed_devalloc ob)" by (auto simp: linked_def)
  with ob now show ?thesis by blast
qed

lemma fresh_same_inputs:
  assumes link: "linked t ctx0 w0 w" and fresh: "replay_all os (genv_at w ctx) = Inr True"
    and sh: "shapes_agree w0 ctx0 t" "shapes_agree w ctx t"
  shows "tree_snodes u \<subseteq> tree_snodes t \<Longrightarrow> tree_reads u \<subseteq> tree_reads t \<Longrightarrow>
     covers (genv_at w0 ctx0) os u \<Longrightarrow>
     same_inputs (wd_ext w0) (env_at w0 ctx0) (env_at w ctx) u"
proof (induction u)
  case (FieldLoad s ix)
  then show ?case using fresh_field [OF link _ _ fresh] by simp
next
  case (ExternalTensorShape p ax)
  then show ?case using fresh_shape [OF _ fresh] by simp
next
  case (ExternalTensorRead p ix dt)
  then obtain a rest ptr where r: "p = a # rest" "data_ptr_of ctx0 a = Some ptr"
      "data_ptr_of ctx a = Some ptr" "buffer_same w0 w ptr"
    using fresh_read [OF link _ _ fresh, of p "length ix"] by auto
  have "bytes_same (wd_ext w0) (env_at w0 ctx0) (env_at w ctx) ptr" "wd_shape w0 ptr = wd_shape w ptr"
    using r(4) by (simp_all add: buffer_same_def bytes_same_def)
  moreover have "(a # rest, length ix) \<in> tree_reads t" using ExternalTensorRead.prems r(1) by simp
  ultimately show ?case using r sh by (auto simp: shapes_agree_def)
qed auto

lemma fresh_value:
  assumes ok: "entry_ok t w (v, os)" and fresh: "replay_all os (genv_at w ctx) = Inr True"
    and now: "can_evaluate w ctx t"
  shows "size_value (env_at w ctx) t Map.empty = Inr v"
proof -
  obtain w0 ctx0 where w0: "can_evaluate w0 ctx0 t" "recorded (genv_at w0 ctx0) os [t]"
      "size_value (env_at w0 ctx0) t Map.empty = Inr v" "linked t ctx0 w0 w"
    using ok by (auto simp: entry_ok_def)
  have "same_inputs (wd_ext w0) (env_at w0 ctx0) (env_at w ctx) t"
    using fresh_same_inputs [OF w0(4) fresh] w0(1,2) now by (auto simp: can_evaluate_def recorded_def)
  moreover have "max_over_range_iterations (env_at w ctx) = max_over_range_iterations (env_at w0 ctx0)"
    using w0(4) by (simp add: max_over_range_iterations_def linked_def)
  ultimately show ?thesis using size_value_same w0(1,3) by (auto simp: can_evaluate_def)
qed

section \<open>Steps\<close>

text \<open>A kernel launch on one of the back ends: its bump and the write sets it declares.\<close>

datatype launch = GpuLaunch "task_access list" | CpuLaunch cpu_access | SpirvLaunch spirv_access

fun launch_bump :: "launch_ctx \<Rightarrow> launch \<Rightarrow> adstack_cache \<Rightarrow> adstack_cache option" where
  "launch_bump ctx (GpuLaunch l) ac = gpu_bump ctx l ac"
| "launch_bump ctx (CpuLaunch l) ac = cpu_bump ctx l ac"
| "launch_bump ctx (SpirvLaunch l) ac = spirv_bump ctx l ac"

fun launch_snodes :: "launch \<Rightarrow> int set" where
  "launch_snodes (GpuLaunch l) = gpu_snodes l"
| "launch_snodes (CpuLaunch l) = cpu_snodes l"
| "launch_snodes (SpirvLaunch l) = spirv_snodes l"

fun launch_ptrs :: "launch_ctx \<Rightarrow> launch \<Rightarrow> int set" where
  "launch_ptrs ctx (GpuLaunch l) = gpu_ptrs ctx l"
| "launch_ptrs ctx (CpuLaunch l) = cpu_ptrs ctx l"
| "launch_ptrs ctx (SpirvLaunch l) = spirv_ptrs ctx l"

interpretation any_launch: write_barrier launch_bump launch_snodes launch_ptrs
proof
  fix ctx l ac ac' assume b: "launch_bump ctx l ac = Some ac'"
  show "bumps ac ac'"
    using b by (cases l) (auto dest: gpu.bump_bumps cpu.bump_bumps spirv.bump_bumps)
  show "snode_write_gen ac s < snode_write_gen ac' s"
    if "ac_any_recordings ac" "s \<in> launch_snodes l" "s \<in> ac_observed_snode_ids ac" for s
    using b that by (cases l)
      (auto dest: gpu.bump_raises_snode cpu.bump_raises_snode spirv.bump_raises_snode)
  show "ndarray_data_gen ac p < ndarray_data_gen ac' p"
    if "ac_any_recordings ac" "ac_any_external_read_observed ac" "p \<in> launch_ptrs ctx l" "p \<noteq> 0"
      "p \<in> ac_observed_devalloc_ptrs ac" for p
    using b that by (cases l) (auto dest: gpu.bump_raises_ptr cpu.bump_raises_ptr spirv.bump_raises_ptr)
qed

text \<open>The other operations of the cache, none of which adds a size-expression entry.\<close>

inductive housekeeping :: "adstack_cache \<Rightarrow> adstack_cache \<Rightarrow> bool" where
  "housekeeping ac (record_spirv_bytecode_eval key bytecode reads ac)"
| "housekeeping ac (record_max_reducer_eval mkey v reads ac)"
| "housekeeping ac (record_per_task_ad_stack key md sf si sg ag ac)"
| "housekeeping ac (record_llvm_per_task_ad_stack key offs ms sc sf si sg ag ac)"
| "housekeeping ac (record_max_reducer_launch_cache key tasks results ctx ac)"
| "try_spirv_bytecode_cache_hit e key ac = Inr (hit, ac') \<Longrightarrow> housekeeping ac ac'"
| "try_max_reducer_cache_hit e mkey ac = Inr (mhit, ac') \<Longrightarrow> housekeeping ac ac'"
| "housekeeping ac (snd (try_per_task_ad_stack_cache_hit key ctx ac))"
| "housekeeping ac (snd (try_llvm_per_task_ad_stack_cache_hit key ctx ac))"
| "housekeeping ac (invalidate_size_expr ac)"
| "housekeeping ac (invalidate_spirv_bytecode ac)"
| "housekeeping ac (invalidate_all_per_task ac)"

text \<open>
  Runs of the host: a launch bumps before anything else and declares what it may write (arrays
  the host owns may have changed before it); its tasks write afterwards, at any time; a host-side
  ndarray write bumps the ndarray; and a task's size expression \<open>T k\<close> is evaluated through the
  cache, provided the launch in flight does not write what the expression reads.
\<close>

inductive cache_run :: "(int \<Rightarrow> size_expr) \<Rightarrow> world \<Rightarrow> bool" for T where
  start: "wd_cache w = empty_cache \<Longrightarrow> cache_run T w"
| launch: "cache_run T w \<Longrightarrow> launch_bump ctx l (wd_cache w) = Some (wd_cache w') \<Longrightarrow>
    wd_pending_snodes w' = launch_snodes l \<Longrightarrow> wd_pending_ptrs w' = launch_ptrs ctx l \<Longrightarrow>
    changes_within {} (launch_ptrs ctx l) w w' \<Longrightarrow> cache_run T w'"
| writes: "cache_run T w \<Longrightarrow> changes_within (wd_pending_snodes w) (wd_pending_ptrs w) w w' \<Longrightarrow>
    wd_cache w' = wd_cache w \<Longrightarrow> wd_pending_snodes w' \<subseteq> wd_pending_snodes w \<Longrightarrow>
    wd_pending_ptrs w' \<subseteq> wd_pending_ptrs w \<Longrightarrow> cache_run T w'"
| host_write: "cache_run T w \<Longrightarrow> changes_within {} {p} w w' \<Longrightarrow>
    wd_cache w' = bump_ndarray_data_gen p (wd_cache w) \<Longrightarrow>
    wd_pending_snodes w' = wd_pending_snodes w \<Longrightarrow> wd_pending_ptrs w' = wd_pending_ptrs w \<Longrightarrow>
    cache_run T w'"
| evaluate: "cache_run T w \<Longrightarrow> can_evaluate w ctx (T k) \<Longrightarrow> cache_ok (env_at w ctx) outer \<Longrightarrow>
    evaluate_adstack_size_expr k (serialize (T k)) (env_at w ctx) outer (wd_cache w) =
      Inr (v, outer', ac') \<Longrightarrow> cache_run T (w\<lparr>wd_cache := ac'\<rparr>)"
| other: "cache_run T w \<Longrightarrow> housekeeping (wd_cache w) ac' \<Longrightarrow> cache_run T (w\<lparr>wd_cache := ac'\<rparr>)"

section \<open>The invariant\<close>

text \<open>\<open>grows ac ac'\<close>: the counters stand still and what has been observed stays observed.\<close>

definition grows :: "adstack_cache \<Rightarrow> adstack_cache \<Rightarrow> bool" where
  "grows ac ac' \<longleftrightarrow>
     snode_write_gen ac' = snode_write_gen ac \<and> ndarray_data_gen ac' = ndarray_data_gen ac \<and>
     ac_observed_snode_ids ac \<subseteq> ac_observed_snode_ids ac' \<and>
     ac_observed_devalloc_ptrs ac \<subseteq> ac_observed_devalloc_ptrs ac' \<and>
     (ac_any_recordings ac \<longrightarrow> ac_any_recordings ac') \<and>
     (ac_any_external_read_observed ac \<longrightarrow> ac_any_external_read_observed ac')"

lemma grows_refl [simp]: "grows ac ac"
  by (simp add: grows_def)

lemma grows_trans: "grows a b \<Longrightarrow> grows b c \<Longrightarrow> grows a c"
  by (auto simp: grows_def)

lemmas gen_fun_defs = snode_write_gen_def [abs_def] ndarray_data_gen_def [abs_def]

lemma note_observations_grows:
  "grows ac (note_observations os ac) \<and> ac_size_expr (note_observations os ac) = ac_size_expr ac"
proof (induction os arbitrary: ac)
  case (Cons ob os)
  let ?ac = "case ob_kind ob of
      FieldLoadObs \<Rightarrow> ac\<lparr>ac_observed_snode_ids := insert (ob_snode_id ob) (ac_observed_snode_ids ac)\<rparr>
    | ExternalReadObs \<Rightarrow> (let ac' = ac\<lparr>ac_any_external_read_observed := True\<rparr> in
        if ob_observed_devalloc ob \<noteq> 0
        then ac'\<lparr>ac_observed_devalloc_ptrs := insert (ob_observed_devalloc ob) (ac_observed_devalloc_ptrs ac')\<rparr>
        else ac')
    | ExternalShapeObs \<Rightarrow> ac"
  have "grows ac ?ac" "ac_size_expr ?ac = ac_size_expr ac"
    by (auto simp: grows_def gen_fun_defs Let_def split: obs_kind.split)
  with Cons.IH [of ?ac] show ?case by (auto intro: grows_trans)
qed simp

lemma note_observations_observes:
  assumes "ob \<in> set os"
  shows "(ob_kind ob = FieldLoadObs \<longrightarrow> ob_snode_id ob \<in> ac_observed_snode_ids (note_observations os ac)) \<and>
    (ob_kind ob = ExternalReadObs \<longrightarrow> ac_any_external_read_observed (note_observations os ac) \<and>
       (ob_observed_devalloc ob \<noteq> 0 \<longrightarrow> ob_observed_devalloc ob \<in> ac_observed_devalloc_ptrs (note_observations os ac)))"
  using assms
proof (induction os arbitrary: ac)
  case (Cons x os)
  show ?case
  proof (cases "ob \<in> set os")
    case True
    then show ?thesis unfolding note_observations.simps by (rule Cons.IH)
  next
    case False
    then have "ob = x" using Cons.prems by simp
    moreover have "s \<in> ac_observed_snode_ids a \<Longrightarrow> s \<in> ac_observed_snode_ids (note_observations os a)"
      "p \<in> ac_observed_devalloc_ptrs a \<Longrightarrow> p \<in> ac_observed_devalloc_ptrs (note_observations os a)"
      "ac_any_external_read_observed a \<Longrightarrow> ac_any_external_read_observed (note_observations os a)" for s p a
      using note_observations_grows [of a os] by (auto simp: grows_def)
    ultimately show ?thesis by (auto simp: Let_def split: obs_kind.split)
  qed
qed simp

lemma linked_grows:
  assumes "linked t ctx0 w0 w" "grows (wd_cache w) ac'"
  shows "linked t ctx0 w0 (w\<lparr>wd_cache := ac'\<rparr>)"
  using assms unfolding linked_def grows_def snode_same_def buffer_same_def by auto

lemma snode_same_trans: "snode_same a b s \<Longrightarrow> snode_same b c s \<Longrightarrow> snode_same a c s"
  by (simp add: snode_same_def)

lemma buffer_same_trans: "buffer_same a b p \<Longrightarrow> buffer_same b c p \<Longrightarrow> buffer_same a c p"
  by (simp add: buffer_same_def)

lemma linked_launch:
  assumes link: "linked t ctx0 w0 w" and nz: "0 \<notin> tree_ptrs ctx0 t"
    and bump: "launch_bump ctx l (wd_cache w) = Some (wd_cache w')"
    and pend: "wd_pending_snodes w' = launch_snodes l" "wd_pending_ptrs w' = launch_ptrs ctx l"
    and ch: "changes_within {} (launch_ptrs ctx l) w w'"
  shows "linked t ctx0 w0 w'"
proof -
  have rec: "ac_any_recordings (wd_cache w)" using link by (simp add: linked_def)
  note b = any_launch.bump_bumps [OF bump]
  note obs = bumps_observed [OF b]
  have sn: "snode_gen w0 s \<le> snode_gen w' s \<and> (snode_gen w0 s = snode_gen w' s \<longrightarrow>
      s \<notin> wd_pending_snodes w' \<and> snode_same w0 w' s)" if s: "s \<in> tree_snodes t" for s
  proof -
    have l: "s \<in> ac_observed_snode_ids (wd_cache w)" "snode_gen w0 s \<le> snode_gen w s"
        "snode_gen w0 s = snode_gen w s \<longrightarrow> snode_same w0 w s"
      using link s by (auto simp: linked_def)
    have "snode_same w w' s" using ch by (simp add: changes_within_def)
    with any_launch.unchanged_snode_not_written [OF bump rec l(1,2)] l pend(1)
      bumps_gens_mono(1) [OF b, of s] show ?thesis by (auto intro: snode_same_trans)
  qed
  have ar: "data_gen w0 p \<le> data_gen w' p \<and> (data_gen w0 p = data_gen w' p \<longrightarrow>
      p \<notin> wd_pending_ptrs w' \<and> buffer_same w0 w' p)" if p: "p \<in> tree_ptrs ctx0 t" for p
  proof -
    have l: "p \<in> ac_observed_devalloc_ptrs (wd_cache w)" "ac_any_external_read_observed (wd_cache w)"
        "data_gen w0 p \<le> data_gen w p" "data_gen w0 p = data_gen w p \<longrightarrow> buffer_same w0 w p"
      using link p by (auto simp: linked_def)
    have "p \<noteq> 0" using nz p by auto
    moreover have "p \<notin> launch_ptrs ctx l \<longrightarrow> buffer_same w w' p" using ch by (simp add: changes_within_def)
    ultimately show ?thesis
      using any_launch.unchanged_ptr_not_written [OF bump rec l(2,1) _ l(3)] l(3,4) pend(2)
        bumps_gens_mono(2) [OF b, of p] by (auto intro: buffer_same_trans)
  qed
  show ?thesis using link sn ar ch by (auto simp: linked_def obs changes_within_def)
qed

lemma linked_writes:
  assumes "linked t ctx0 w0 w" "changes_within (wd_pending_snodes w) (wd_pending_ptrs w) w w'"
    and "wd_cache w' = wd_cache w" "wd_pending_snodes w' \<subseteq> wd_pending_snodes w"
    and "wd_pending_ptrs w' \<subseteq> wd_pending_ptrs w"
  shows "linked t ctx0 w0 w'"
  using assms unfolding linked_def changes_within_def by (auto intro: snode_same_trans buffer_same_trans)

lemma linked_host_write:
  assumes link: "linked t ctx0 w0 w" and ch: "changes_within {} {p} w w'"
    and c: "wd_cache w' = bump_ndarray_data_gen p (wd_cache w)"
    and pend: "wd_pending_snodes w' = wd_pending_snodes w" "wd_pending_ptrs w' = wd_pending_ptrs w"
  shows "linked t ctx0 w0 w'"
proof -
  have sg: "snode_gen w' = snode_gen w"
    by (auto simp: c bump_ndarray_data_gen_def gen_fun_defs)
  have dg: "data_gen w' q = (if q = p then Suc (data_gen w p) else data_gen w q)" for q
    by (simp add: c bump_ndarray_data_gen_def ndarray_data_gen_def)
  note obs = bumps_observed [OF bumps_ndarray [of "wd_cache w" p], folded c]
  show ?thesis
    using link ch unfolding linked_def changes_within_def obs sg dg pend
    by (auto intro: snode_same_trans buffer_same_trans)
qed

lemma note_per_task_grows:
  "grows ac (note_per_task_dependencies sg ag ac) \<and>
   ac_size_expr (note_per_task_dependencies sg ag ac) = ac_size_expr ac"
  by (auto simp: note_per_task_dependencies_def grows_def gen_fun_defs Let_def)

lemma housekeeping_grows:
  "housekeeping ac ac' \<Longrightarrow> grows ac ac' \<and> ac_size_expr ac' \<subseteq>\<^sub>m ac_size_expr ac"
proof (induction rule: housekeeping.induct)
  case (1 ac key bytecode reads)
  then show ?case using note_observations_grows [of ac reads]
    by (auto simp: record_spirv_bytecode_eval_def grows_def gen_fun_defs Let_def)
next
  case (2 ac mkey v reads)
  then show ?case using note_observations_grows [of ac reads]
    by (auto simp: record_max_reducer_eval_def grows_def gen_fun_defs Let_def split: prod.split)
next
  case (3 ac key md sf si sg ag)
  then show ?case using note_per_task_grows [of ac sg ag]
    by (auto simp: record_per_task_ad_stack_def grows_def gen_fun_defs Let_def)
next
  case (4 ac key offs ms sc sf si sg ag)
  then show ?case using note_per_task_grows [of ac sg ag]
    by (auto simp: record_llvm_per_task_ad_stack_def grows_def gen_fun_defs Let_def)
next
  case (5 ac key tasks results ctx)
  then show ?case using note_per_task_grows [of ac]
    by (auto simp: record_max_reducer_launch_cache_def grows_def gen_fun_defs Let_def
        split: option.split prod.split)
next
  case (6 e key ac hit ac')
  then show ?case
    by (auto simp: try_spirv_bytecode_cache_hit_def grows_def gen_fun_defs result_simps
        split: option.splits if_splits)
next
  case (7 e mkey ac mhit ac')
  then show ?case
    by (auto simp: try_max_reducer_cache_hit_def grows_def gen_fun_defs result_simps Let_def
        split: option.splits if_splits prod.splits)
qed (auto simp: try_per_task_ad_stack_cache_hit_def try_llvm_per_task_ad_stack_cache_hit_def
    invalidate_size_expr_def invalidate_spirv_bytecode_def invalidate_all_per_task_def
    grows_def gen_fun_defs map_le_def split: option.splits)

text \<open>A recording in the world of the evaluation is linked to that world.\<close>

lemma recorded_observed:
  assumes rec: "recorded (genv_at w ctx) os [t]" and nz: "0 \<notin> tree_ptrs ctx t"
  shows "tree_snodes t \<subseteq> ac_observed_snode_ids (note_observations os ac) \<and>
    tree_ptrs ctx t \<subseteq> ac_observed_devalloc_ptrs (note_observations os ac) \<and>
    (tree_ptrs ctx t \<noteq> {} \<longrightarrow> ac_any_external_read_observed (note_observations os ac))"
proof -
  note obs = note_observations_observes [of _ os ac]
  have sn: "covers (genv_at w ctx) os u \<Longrightarrow> tree_snodes u \<subseteq> ac_observed_snode_ids (note_observations os ac)" for u
    by (induction u) (use obs in \<open>auto simp: field_covered_def list_ex_iff\<close>)
  have rd: "covers (genv_at w ctx) os u \<Longrightarrow> (a # rest, n) \<in> tree_reads u \<Longrightarrow>
      read_covered (genv_at w ctx) os (a # rest)" for u a rest n
    by (induction u) auto
  have pt: "p \<in> ac_observed_devalloc_ptrs (note_observations os ac) \<and>
      ac_any_external_read_observed (note_observations os ac)" if p: "p \<in> tree_ptrs ctx t" for p
  proof -
    obtain a rest n where a: "(a # rest, n) \<in> tree_reads t" "data_ptr_of ctx a = Some p"
      using p by (auto simp: tree_ptrs_def)
    have "read_covered (genv_at w ctx) os (a # rest)" using rd [OF _ a(1)] rec by (auto simp: recorded_def)
    then obtain ob where "ob \<in> set os" "ob_kind ob = ExternalReadObs" "ob_observed_devalloc ob = p"
      using a(2) by (auto simp: read_covered_def list_ex_iff)
    moreover have "p \<noteq> 0" using nz p by auto
    ultimately show ?thesis using obs by auto
  qed
  show ?thesis using sn pt rec by (auto simp: recorded_def)
qed

lemma linked_recorded:
  assumes can: "can_evaluate w ctx t" and rec: "recorded (genv_at w ctx) os [t]"
    and gr: "grows (wd_cache w) ac"
  shows "linked t ctx w (w\<lparr>wd_cache := record_size_expr_eval k v os ac\<rparr>)"
proof -
  let ?n = "note_observations os ac"
  have g: "grows (wd_cache w) ?n" using grows_trans [OF gr] note_observations_grows by blast
  have o: "tree_snodes t \<subseteq> ac_observed_snode_ids ?n" "tree_ptrs ctx t \<subseteq> ac_observed_devalloc_ptrs ?n"
      "tree_ptrs ctx t \<noteq> {} \<longrightarrow> ac_any_external_read_observed ?n"
    using recorded_observed [OF rec] can by (auto simp: can_evaluate_def)
  show ?thesis
    using g o can
    by (auto simp: linked_def record_size_expr_eval_def Let_def grows_def gen_fun_defs can_evaluate_def
        snode_same_def buffer_same_def)
qed

section \<open>The cached evaluation\<close>

lemma try_size_expr_miss_grows:
  assumes "try_size_expr_cache_hit e k ac = Inr (hit, ac1)"
  shows "grows ac ac1 \<and> with_gens ac1 e = with_gens ac e \<and> ac_size_expr ac1 \<subseteq>\<^sub>m ac_size_expr ac \<and>
    (\<forall>v. hit = Some v \<longrightarrow> ac1 = ac \<and> (\<exists>os. ac_size_expr ac k = Some (v, os) \<and>
       replay_all os (with_gens ac e) = Inr True))"
  using assms
  by (auto simp: try_size_expr_cache_hit_def result_simps grows_def gen_fun_defs with_gens_def map_le_def
      split: option.splits if_splits)

text \<open>Replaying an entry raises nothing in a launch that can read the tree's shapes.\<close>

lemma shape_leaf_readable:
  "readable e t \<Longrightarrow> (p, ax) \<in> shape_leaves t \<Longrightarrow> \<exists>v. external_shape_value e p ax = Inr v"
  by (induction t) (auto split: sum.splits)

lemma replay_all_returns:
  assumes "list_all (obs_within [t]) os" "readable e t"
  shows "\<exists>b. replay_all os e = Inr b"
  using assms(1)
proof (induction os)
  case (Cons ob os)
  have "\<exists>b. replay_observation_is_fresh ob e = Inr b"
  proof (cases "ob_kind ob")
    case ExternalShapeObs
    then have "(ob_arg_id_path ob, ob_arg_shape_axis ob) \<in> shape_leaves t"
      using Cons.prems by (simp add: obs_within_def)
    from shape_leaf_readable [OF assms(2) this] ExternalShapeObs show ?thesis
      by (auto simp: replay_observation_is_fresh_def external_shape_value_def split: option.splits)
  qed (auto simp: replay_observation_is_fresh_def split: option.split list.split)
  then obtain b where "replay_observation_is_fresh ob e = Inr b" by blast
  with Cons show ?case by (cases b) auto
qed (auto intro: exI [of _ True])

lemma try_size_expr_returns:
  assumes "cache_inv T w" "can_evaluate w ctx (T k)"
  shows "\<exists>hit ac1. try_size_expr_cache_hit (env_at w ctx) k (wd_cache w) = Inr (hit, ac1)"
proof (cases "ac_size_expr (wd_cache w) k")
  case (Some entry)
  then have "entry_ok (T k) w entry" using assms(1) by (cases entry) (simp add: cache_inv_def)
  then have "list_all (obs_within [T k]) (snd entry)" by (auto simp: entry_ok_def recorded_def)
  moreover have "readable (genv_at w ctx) (T k)" using assms(2) by (simp add: can_evaluate_def)
  ultimately obtain b where "replay_all (snd entry) (genv_at w ctx) = Inr b"
    using replay_all_returns by blast
  with Some show ?thesis by (cases entry) (auto simp: try_size_expr_cache_hit_def)
qed (simp add: try_size_expr_cache_hit_def)

text \<open>
  The cached entry point computes the meaning of the tree in the current state, whether it finds
  an entry or not, and what it leaves behind satisfies the invariant again.
\<close>

lemma evaluate_cached:
  assumes inv: "cache_inv T w" and can: "can_evaluate w ctx (T k)" and ok: "cache_ok (env_at w ctx) outer"
  shows "computes (\<lambda>(c, ac'). cache_ok (env_at w ctx) c \<and> (c = None \<longleftrightarrow> outer = None) \<and>
            cache_inv T (w\<lparr>wd_cache := ac'\<rparr>))
          (evaluate_adstack_size_expr k (serialize (T k)) (env_at w ctx) outer (wd_cache w))
          (size_value (env_at w ctx) (T k) Map.empty)"
proof -
  obtain hit ac1 where tr: "try_size_expr_cache_hit (env_at w ctx) k (wd_cache w) = Inr (hit, ac1)"
    using try_size_expr_returns [OF inv can] by blast
  have ac1: "grows (wd_cache w) ac1" "with_gens ac1 (env_at w ctx) = genv_at w ctx"
      "ac_size_expr ac1 \<subseteq>\<^sub>m ac_size_expr (wd_cache w)"
    using try_size_expr_miss_grows [OF tr] by auto
  have keep: "entry_ok (T j) (w\<lparr>wd_cache := ac'\<rparr>) entry"
    if "ac_size_expr (wd_cache w) j = Some entry" "grows (wd_cache w) ac'" for j entry ac'
    using inv that linked_grows unfolding cache_inv_def entry_ok_def by blast
  show ?thesis
  proof (cases hit)
    case (Some v)
    then obtain os where os: "ac1 = wd_cache w" "ac_size_expr (wd_cache w) k = Some (v, os)"
        "replay_all os (genv_at w ctx) = Inr True"
      using try_size_expr_miss_grows [OF tr] by auto
    have "entry_ok (T k) w (v, os)" using inv os(2) by (simp add: cache_inv_def)
    from fresh_value [OF this os(3) can]
    have "size_value (env_at w ctx) (T k) Map.empty = Inr v" .
    then show ?thesis
      using tr Some os(1) inv ok
      by (auto simp: evaluate_adstack_size_expr_def launch_scope_leave_def launch_scope_enter_def
          cache_ok_def split: option.splits)
  next
    case None
    let ?run = "evaluate_root (serialize (T k)) (int (length (serialize (T k))) - 1) (genv_at w ctx) outer (Some [])"
    have run: "computes (\<lambda>(c, rd). cache_ok (env_at w ctx) c \<and> (c = None \<longleftrightarrow> outer = None) \<and>
        (\<exists>os. rd = Some os \<and> recorded (genv_at w ctx) os [T k])) ?run (size_value (env_at w ctx) (T k) Map.empty)"
      using evaluate_root_correct [OF serialize_represents, of "T k" "genv_at w ctx" outer "Some []"] can ok
      by (simp add: can_evaluate_def)
    have ev: "evaluate_adstack_size_expr k (serialize (T k)) (env_at w ctx) outer (wd_cache w) =
        bindE ?run (\<lambda>(v, c, rd). Inr (v, c,
          record_size_expr_eval k v (case rd of None \<Rightarrow> [] | Some r \<Rightarrow> r) ac1))"
      using tr None ac1(2) by (simp add: evaluate_adstack_size_expr_def case_prod_unfold)
    show ?thesis
    proof (cases "size_value (env_at w ctx) (T k) Map.empty")
      case (Inr v)
      then obtain c os where c: "?run = Inr (v, c, Some os)" "cache_ok (env_at w ctx) c"
          "c = None \<longleftrightarrow> outer = None" "recorded (genv_at w ctx) os [T k]"
        using run by auto
      let ?ac = "record_size_expr_eval k v os ac1"
      have "entry_ok (T k) (w\<lparr>wd_cache := ?ac\<rparr>) (v, os)"
        using can c(4) Inr linked_recorded [OF can c(4) ac1(1)] unfolding entry_ok_def by auto
      moreover have "grows (wd_cache w) ?ac"
        using grows_trans [OF ac1(1)] note_observations_grows [of ac1 os]
        by (auto simp: record_size_expr_eval_def grows_def gen_fun_defs Let_def)
      moreover have "ac_size_expr ?ac j = (if j = k then Some (v, os) else ac_size_expr ac1 j)" for j
        using note_observations_grows [of ac1 os] by (simp add: record_size_expr_eval_def Let_def)
      ultimately have "cache_inv T (w\<lparr>wd_cache := ?ac\<rparr>)"
        using keep ac1(3) unfolding cache_inv_def by (auto simp: map_le_def dom_def)
      then show ?thesis using Inr c ev by simp
    qed (use run ev in simp)
  qed
qed

theorem cache_run_inv: "cache_run T w \<Longrightarrow> cache_inv T w"
proof (induction rule: cache_run.induct)
  case (start w)
  then show ?case by (simp add: cache_inv_def empty_cache_def)
next
  case (launch w ctx l w')
  have "ac_size_expr (wd_cache w') = ac_size_expr (wd_cache w)"
    using any_launch.bump_bumps [OF launch.hyps(2)] by (simp add: bumps_def only_gens_simps)
  then show ?case
    using launch.IH linked_launch [OF _ _ launch.hyps(2-5)]
    unfolding cache_inv_def entry_ok_def can_evaluate_def by metis
next
  case (writes w w')
  then show ?case
    using linked_writes [OF _ writes.hyps(2-5)] unfolding cache_inv_def entry_ok_def by metis
next
  case (host_write w p w')
  have "ac_size_expr (wd_cache w') = ac_size_expr (wd_cache w)"
    using host_write.hyps(3) by (simp add: bump_ndarray_data_gen_def)
  then show ?case
    using host_write.IH linked_host_write [OF _ host_write.hyps(2-5)]
    unfolding cache_inv_def entry_ok_def by metis
next
  case (evaluate w ctx k outer v outer' ac')
  then show ?case
    using evaluate_cached [OF evaluate.IH evaluate.hyps(2,3)]
    by (cases "size_value (env_at w ctx) (T k) Map.empty") auto
next
  case (other w ac')
  have "grows (wd_cache w) ac'" "ac_size_expr ac' \<subseteq>\<^sub>m ac_size_expr (wd_cache w)"
    using housekeeping_grows [OF other.hyps(2)] by auto
  then show ?case
    using other.IH linked_grows unfolding cache_inv_def entry_ok_def
    by (simp add: map_le_def dom_def) metis
qed

end
