(* ===== verification/CacheLaws.thy ===== *)
theory CacheLaws
  imports CacheSound
begin

text \<open>
  The laws shared by the caches of \<^verbatim>\<open>AdStackCache\<close>: one interface for the three that replay read
  observations on every lookup (size expressions, SPIR-V bytecode, max-reducer results) and one
  for the two per-task metadata caches that compare snapshots of generations.
\<close>

section \<open>Caches that replay observations\<close>

locale replay_cache =
  fixes find :: "'k \<Rightarrow> adstack_cache \<Rightarrow> ('v \<times> read_obs list) option"
    and try_hit :: "env \<Rightarrow> 'k \<Rightarrow> adstack_cache \<Rightarrow> ('v option \<times> adstack_cache) result"
    and record_eval :: "'k \<Rightarrow> 'v \<Rightarrow> read_obs list \<Rightarrow> adstack_cache \<Rightarrow> adstack_cache"
  assumes try_absent: "find k ac = None \<Longrightarrow> try_hit e k ac = Inr (None, ac)"
    and try_fresh: "find k ac = Some (v, os) \<Longrightarrow> replay_all os (with_gens ac e) = Inr True \<Longrightarrow>
      try_hit e k ac = Inr (Some v, ac)"
    and try_stale: "find k ac = Some (v, os) \<Longrightarrow> replay_all os (with_gens ac e) = Inr False \<Longrightarrow>
      \<exists>ac'. try_hit e k ac = Inr (None, ac') \<and> find k ac' = None"
    and try_error: "find k ac = Some (v, os) \<Longrightarrow> replay_all os (with_gens ac e) = Inl er \<Longrightarrow>
      try_hit e k ac = Inl er"
    and try_keeps_gens: "try_hit e k ac = Inr (hit, ac') \<Longrightarrow>
      snode_write_gen ac' = snode_write_gen ac \<and> ndarray_data_gen ac' = ndarray_data_gen ac"
    and record_find: "find k (record_eval k v os ac) = Some (v, os)"
    and record_grows: "grows ac (record_eval k v os ac)"
    and record_any: "ac_any_recordings (record_eval k v os ac)"
begin

lemma with_gens_record [simp]: "with_gens (record_eval k v os ac) e = with_gens ac e"
  using record_grows [of ac k v os] by (simp add: grows_def with_gens_def)

text \<open>A value just recorded is returned while nothing it read has moved.\<close>

lemma try_record:
  "replay_all os (with_gens ac e) = Inr True \<Longrightarrow>
   try_hit e k (record_eval k v os ac) = Inr (Some v, record_eval k v os ac)"
  by (rule try_fresh [OF record_find]) simp

text \<open>A hit certifies the entry: it was there and every observation of it is fresh.\<close>

lemma try_hit_certified:
  assumes "try_hit e k ac = Inr (Some v, ac')"
  shows "ac' = ac \<and> (\<exists>os. find k ac = Some (v, os) \<and> (\<forall>ob \<in> set os.
           replay_observation_is_fresh ob (with_gens ac e) = Inr True))"
proof (cases "find k ac")
  case None
  then show ?thesis using assms try_absent by simp
next
  case (Some entry)
  obtain v' os where e: "entry = (v', os)" by (cases entry)
  show ?thesis
  proof (cases "replay_all os (with_gens ac e)")
    case (Inl er)
    then show ?thesis using assms Some e try_error by simp
  next
    case (Inr b)
    then show ?thesis
      using assms Some e try_fresh try_stale replay_all_fresh by (cases b) fastforce+
  qed
qed

text \<open>Invalidation is permanent: after a stale lookup the key misses until it is recorded again.\<close>

lemma stale_then_absent:
  assumes "find k ac = Some (v, os)" "replay_all os (with_gens ac e) = Inr False"
  shows "\<exists>ac'. try_hit e k ac = Inr (None, ac') \<and> (\<forall>e'. try_hit e' k ac' = Inr (None, ac'))"
  using try_stale [OF assms] try_absent by blast

end

lemma record_size_expr_grows: "grows ac (record_size_expr_eval k v os ac)"
  using note_observations_grows [of ac os]
  by (auto simp: record_size_expr_eval_def grows_def gen_fun_defs Let_def)

interpretation size_expr_cache: replay_cache "\<lambda>k ac. ac_size_expr ac k" try_size_expr_cache_hit
  record_size_expr_eval
  by unfold_locales
    (auto simp: try_size_expr_cache_hit_def record_size_expr_eval_def Let_def gen_fun_defs
      record_size_expr_grows [unfolded record_size_expr_eval_def Let_def] result_simps
      split: option.splits if_splits)

interpretation bytecode_cache: replay_cache "\<lambda>k ac. ac_spirv_bytecode ac k" try_spirv_bytecode_cache_hit
  record_spirv_bytecode_eval
proof unfold_locales
  show "grows ac (record_spirv_bytecode_eval k v os ac)" for ac k v os
    using housekeeping_grows [OF housekeeping.intros(1)] by blast
qed (auto simp: try_spirv_bytecode_cache_hit_def record_spirv_bytecode_eval_def Let_def gen_fun_defs
      result_simps split: option.splits if_splits)

definition max_reducer_key :: "nat \<times> int \<times> int \<Rightarrow> nat" where
  "max_reducer_key key = pack_max_reducer_key (fst key) (fst (snd key)) (snd (snd key))"

lemma try_max_reducer_unfold:
  "try_max_reducer_cache_hit e key ac =
     (case ac_max_reducer ac (max_reducer_key key) of
        None \<Rightarrow> Inr (None, ac)
      | Some (res, reads) \<Rightarrow>
          bindE (replay_all reads (with_gens ac e)) (\<lambda>fresh.
            if fresh then Inr (Some res, ac)
            else Inr (None, ac\<lparr>ac_max_reducer := (ac_max_reducer ac)(max_reducer_key key := None)\<rparr>)))"
  unfolding try_max_reducer_cache_hit_def max_reducer_key_def Let_def by (cases key) (simp only: prod.case fst_conv snd_conv)

lemma find_record_max_reducer:
  "ac_max_reducer (record_max_reducer_eval key v os ac) (max_reducer_key key) = Some (v, os) \<and>
   ac_any_recordings (record_max_reducer_eval key v os ac)"
  by (cases key) (simp add: record_max_reducer_eval_def max_reducer_key_def Let_def)

interpretation max_reducer_cache: replay_cache "\<lambda>key ac. ac_max_reducer ac (max_reducer_key key)"
  try_max_reducer_cache_hit record_max_reducer_eval
proof unfold_locales
  show "grows ac (record_max_reducer_eval k v os ac)" for ac k v os
    using housekeeping_grows [OF housekeeping.intros(2)] by blast
qed (auto simp: try_max_reducer_unfold find_record_max_reducer gen_fun_defs result_simps
      split: option.splits if_splits)

text \<open>
  The packed key is injective on the ids it has room for: 32 bits of registry id, 16 of each index.
\<close>

lemma pack_max_reducer_key_inject:
  assumes "r < 2 ^ 32" "r' < 2 ^ 32" "0 \<le> s" "s < 2 ^ 16" "0 \<le> s'" "s' < 2 ^ 16"
    and "0 \<le> n" "n < 2 ^ 16" "0 \<le> n'" "n' < 2 ^ 16"
    and eq: "pack_max_reducer_key r s n = pack_max_reducer_key r' s' n'"
  shows "r = r' \<and> s = s' \<and> n = n'"
proof -
  have unpack: "r = k mod 2 ^ 32" "s = int (k div 2 ^ 32 mod 2 ^ 16)" "n = int (k div 2 ^ 48)"
    if h: "r < 2 ^ 32" "0 \<le> s" "s < 2 ^ 16" "0 \<le> n" "n < 2 ^ 16" "k = pack_max_reducer_key r s n"
    for r s n k
  proof -
    obtain a b where ab: "s = int a" "n = int b" using h(2,4) by (metis nonneg_int_cases)
    then have k: "k = (b * 2 ^ 16 + a) * 2 ^ 32 + r" and lt: "a < 2 ^ 16"
      using h by (simp_all add: pack_max_reducer_key_def nat_mod_distrib)
    have hi: "k div 2 ^ 32 = b * 2 ^ 16 + a" and "r = k mod 2 ^ 32"
      unfolding k using h(1) by (simp_all only: div_mult_self3 mod_mult_self3) simp_all
    then show "r = k mod 2 ^ 32" "s = int (k div 2 ^ 32 mod 2 ^ 16)" using lt ab by simp_all
    have "k div 2 ^ 48 = k div 2 ^ 32 div 2 ^ 16" by (simp flip: div_mult2_eq)
    then show "n = int (k div 2 ^ 48)" using hi lt ab by simp
  qed
  show ?thesis
    using unpack [OF assms(1,3,4,7,8) refl] unpack [OF assms(2,5,6,9,10) eq] by simp
qed

section \<open>Caches that compare generation snapshots\<close>

locale snapshot_cache =
  fixes find :: "int \<Rightarrow> adstack_cache \<Rightarrow> 'entry option"
    and snode_deps :: "'entry \<Rightarrow> gen_dep list"
    and arg_deps :: "'entry \<Rightarrow> arg_dep list"
    and try_hit :: "int \<Rightarrow> launch_ctx option \<Rightarrow> adstack_cache \<Rightarrow> 'entry option \<times> adstack_cache"
    and put :: "int \<Rightarrow> 'entry \<Rightarrow> adstack_cache \<Rightarrow> adstack_cache"
  assumes try_iff: "fst (try_hit k ctx ac) = Some en \<longleftrightarrow>
      find k ac = Some en \<and> deps_fresh ac ctx (snode_deps en) (arg_deps en)"
    and try_evicts: "find k ac = Some en \<Longrightarrow> \<not> deps_fresh ac ctx (snode_deps en) (arg_deps en) \<Longrightarrow>
      find k (snd (try_hit k ctx ac)) = None"
    and try_keeps: "fst (try_hit k ctx ac) = Some en \<Longrightarrow> snd (try_hit k ctx ac) = ac"
    and put_find: "find k (put k en ac) = Some en"
    and put_grows: "grows ac (put k en ac)"
    and put_observes: "s \<in> fst ` set (snode_deps en) \<Longrightarrow> s \<in> ac_observed_snode_ids (put k en ac)"
      "(a, p, g) \<in> set (arg_deps en) \<Longrightarrow> p \<noteq> 0 \<Longrightarrow> p \<in> ac_observed_devalloc_ptrs (put k en ac)"
begin

lemma put_deps_fresh: "deps_fresh (put k en ac) ctx sg ag = deps_fresh ac ctx sg ag"
  using put_grows [of ac k en]
  by (simp add: deps_fresh_def snode_dep_fresh_def [abs_def] arg_dep_fresh_def [abs_def] grows_def)

text \<open>An entry comes back after it is stored, as long as its snapshot is the current one.\<close>

lemma try_put:
  "deps_fresh ac ctx (snode_deps en) (arg_deps en) \<Longrightarrow>
   try_hit k ctx (put k en ac) = (Some en, put k en ac)"
  using try_iff [of k ctx "put k en ac" en] try_keeps [of k ctx "put k en ac" en]
  by (simp add: put_find put_deps_fresh prod_eq_iff)

text \<open>
  A bump of a dependency evicts the entry, because the snapshot is taken at the current counters.
\<close>

lemma bumped_snode_misses:
  assumes "find k ac = Some en" "(s, g) \<in> set (snode_deps en)" "g < snode_write_gen ac s"
  shows "fst (try_hit k ctx ac) = None \<and> find k (snd (try_hit k ctx ac)) = None"
proof -
  have stale: "\<not> deps_fresh ac ctx (snode_deps en) (arg_deps en)"
    using assms(2,3) by (fastforce simp: deps_fresh_def list_all_iff snode_dep_fresh_def)
  then have "fst (try_hit k ctx ac) \<noteq> Some en'" for en'
    using try_iff [of k ctx ac en'] assms(1) by auto
  then show ?thesis using try_evicts [OF assms(1) stale] by (cases "fst (try_hit k ctx ac)") auto
qed

lemma rebound_arg_misses:
  assumes "find k ac = Some en" "(a, p, g) \<in> set (arg_deps en)"
    and "current_devalloc ctx a \<noteq> p \<or> g < ndarray_data_gen ac p"
  shows "fst (try_hit k ctx ac) = None \<and> find k (snd (try_hit k ctx ac)) = None"
proof -
  have stale: "\<not> deps_fresh ac ctx (snode_deps en) (arg_deps en)"
    using assms(2,3) by (auto simp: deps_fresh_def list_all_iff arg_dep_fresh_def)
  then have "fst (try_hit k ctx ac) \<noteq> Some en'" for en'
    using try_iff [of k ctx ac en'] assms(1) by auto
  then show ?thesis using try_evicts [OF assms(1) stale] by (cases "fst (try_hit k ctx ac)") auto
qed

end

definition put_per_task :: "int \<Rightarrow> per_task_entry \<Rightarrow> adstack_cache \<Rightarrow> adstack_cache" where
  "put_per_task k en = record_per_task_ad_stack k (pt_metadata en) (pt_stride_float en)
     (pt_stride_int en) (pt_snode_gens en) (pt_arg_gens en)"

definition put_llvm_per_task :: "int \<Rightarrow> llvm_per_task_entry \<Rightarrow> adstack_cache \<Rightarrow> adstack_cache" where
  "put_llvm_per_task k en = record_llvm_per_task_ad_stack k (lt_offsets en) (lt_max_sizes en)
     (lt_stride_combined en) (lt_stride_float en) (lt_stride_int en) (lt_snode_gens en) (lt_arg_gens en)"

interpretation per_task: snapshot_cache "\<lambda>k ac. ac_per_task ac k" pt_snode_gens pt_arg_gens
  try_per_task_ad_stack_cache_hit put_per_task
proof unfold_locales
  show "grows ac (put_per_task k en ac)" for ac k en
    unfolding put_per_task_def using housekeeping_grows [OF housekeeping.intros(3)] by blast
qed (auto simp: try_per_task_ad_stack_cache_hit_def put_per_task_def record_per_task_ad_stack_def
      note_per_task_dependencies_def Let_def image_iff split: option.splits if_splits)

interpretation llvm_per_task: snapshot_cache "\<lambda>k ac. ac_llvm_per_task ac k" lt_snode_gens lt_arg_gens
  try_llvm_per_task_ad_stack_cache_hit put_llvm_per_task
proof unfold_locales
  show "grows ac (put_llvm_per_task k en ac)" for ac k en
    unfolding put_llvm_per_task_def using housekeeping_grows [OF housekeeping.intros(4)] by blast
qed (auto simp: try_llvm_per_task_ad_stack_cache_hit_def put_llvm_per_task_def
      record_llvm_per_task_ad_stack_def note_per_task_dependencies_def Let_def image_iff
      split: option.splits if_splits)

end
