(* ===== verification/Registry.thy ===== *)
theory Registry
  imports SizeExpr
begin

unbundle bit_operations_syntax

text \<open>
  The registry of adstack-bearing tasks (\<^verbatim>\<open>AdStackCache::register_adstack_sizing_info\<close> and its
  neighbours in \<^verbatim>\<open>program/adstack/cache.cpp\<close>): an open-addressing table keyed by a content hash
  of the kernel name and the task index, with a reverse map from the identity pointer. Ids are 32
  bits wide and 0 is the sentinel. The probe loop is a partial function: it returns exactly when
  it meets a free slot or a slot of the same content.
\<close>

section \<open>State and operations\<close>

record sizing_info =
  si_identity_key :: int
  si_kernel_name :: string
  si_task_id_in_kernel :: int
  si_allocated_max_sizes :: "int list"
  si_size_exprs :: "ser_expr list"

record registry =
  rg_entries :: "nat \<Rightarrow> sizing_info option"
  rg_id_by_ptr :: "int \<Rightarrow> nat option"

definition empty_registry :: registry where
  "empty_registry = \<lparr>rg_entries = Map.empty, rg_id_by_ptr = Map.empty\<rparr>"

definition fnv_prime :: "64 word" where
  "fnv_prime = 0x100000001b3"

definition fnv_step :: "64 word \<Rightarrow> 64 word \<Rightarrow> 64 word" where
  "fnv_step c h = (h XOR c) * fnv_prime"

definition fnv1a32_for_registry :: "string \<Rightarrow> int \<Rightarrow> nat" where
  "fnv1a32_for_registry kernel_name task_id_in_kernel =
     (let h = fold fnv_step (map of_char kernel_name) 0xcbf29ce484222325;
          h = fnv_step (of_char CHR '':'') h;
          t = word_of_int (task_id_in_kernel mod 2 ^ 32) :: 64 word;
          h = fold fnv_step (map (\<lambda>i. drop_bit (i * 8) t AND 0xFF) [0..<8]) h;
          r = unat (h XOR drop_bit 32 h) mod 2 ^ 32
      in if r = 0 then 1 else r)"

definition next_id :: "nat \<Rightarrow> nat" where
  "next_id i = (let j = (i + 1) mod 2 ^ 32 in if j = 0 then 1 else j)"

definition same_content :: "sizing_info \<Rightarrow> string \<Rightarrow> int \<Rightarrow> bool" where
  "same_content en name task \<longleftrightarrow> si_kernel_name en = name \<and> si_task_id_in_kernel en = task"

text \<open>The probe loop: the slot it stops at and whether that slot already has the content.\<close>

partial_function (option) probe_id ::
  "(nat \<Rightarrow> sizing_info option) \<Rightarrow> string \<Rightarrow> int \<Rightarrow> nat \<Rightarrow> (nat \<times> bool) option" where
  "probe_id entries name task i =
     (case entries i of
        None \<Rightarrow> Some (i, False)
      | Some en \<Rightarrow> if same_content en name task then Some (i, True)
                   else probe_id entries name task (next_id i))"

definition set_sizes :: "int list \<Rightarrow> ser_expr list \<Rightarrow> sizing_info \<Rightarrow> sizing_info" where
  "set_sizes sizes exprs en = en\<lparr>si_allocated_max_sizes := sizes, si_size_exprs := exprs\<rparr>"

text \<open>
  The content-hash path. \<^verbatim>\<open>operator[]\<close> on the identity path default-constructs a missing entry;
  the table invariant rules that case out.
\<close>

definition register_by_content ::
  "int \<Rightarrow> string \<Rightarrow> int \<Rightarrow> int list \<Rightarrow> ser_expr list \<Rightarrow> registry \<Rightarrow> (nat \<times> registry) option" where
  "register_by_content key name task sizes exprs rg =
     (case probe_id (rg_entries rg) name task (fnv1a32_for_registry name task) of
        None \<Rightarrow> None
      | Some (i, found) \<Rightarrow>
          Some (i, \<lparr>rg_entries = (rg_entries rg)(i \<mapsto>
                       (if found then set_sizes sizes exprs (the (rg_entries rg i))
                        else \<lparr>si_identity_key = key, si_kernel_name = name,
                              si_task_id_in_kernel = task, si_allocated_max_sizes = sizes,
                              si_size_exprs = exprs\<rparr>)),
                    rg_id_by_ptr = (rg_id_by_ptr rg)(key \<mapsto> i)\<rparr>))"

definition default_info :: sizing_info where
  "default_info = \<lparr>si_identity_key = 0, si_kernel_name = [], si_task_id_in_kernel = 0,
     si_allocated_max_sizes = [], si_size_exprs = []\<rparr>"

definition register_adstack_sizing_info ::
  "int \<Rightarrow> string \<Rightarrow> int \<Rightarrow> int list \<Rightarrow> ser_expr list \<Rightarrow> registry \<Rightarrow> (nat \<times> registry) option" where
  "register_adstack_sizing_info key name task sizes exprs rg =
     (case rg_id_by_ptr rg key of
        None \<Rightarrow> register_by_content key name task sizes exprs rg
      | Some i \<Rightarrow>
          (let en = (case rg_entries rg i of None \<Rightarrow> default_info | Some en \<Rightarrow> en) in
           if same_content en name task
           then Some (i, rg\<lparr>rg_entries := (rg_entries rg)(i \<mapsto> set_sizes sizes exprs en)\<rparr>)
           else register_by_content key name task sizes exprs
                  \<lparr>rg_entries = (rg_entries rg)(i \<mapsto> en), rg_id_by_ptr = (rg_id_by_ptr rg)(key := None)\<rparr>))"

definition update_adstack_sizing_info_size_exprs :: "nat \<Rightarrow> ser_expr list \<Rightarrow> registry \<Rightarrow> registry" where
  "update_adstack_sizing_info_size_exprs i exprs rg =
     (if i = 0 then rg
      else case rg_entries rg i of
             None \<Rightarrow> rg
           | Some en \<Rightarrow> rg\<lparr>rg_entries := (rg_entries rg)(i \<mapsto> en\<lparr>si_size_exprs := exprs\<rparr>)\<rparr>)"

definition is_adstack_sizing_info_registered :: "int \<Rightarrow> registry \<Rightarrow> bool" where
  "is_adstack_sizing_info_registered key rg \<longleftrightarrow> rg_id_by_ptr rg key \<noteq> None"

definition lookup_adstack_sizing_info :: "nat \<Rightarrow> registry \<Rightarrow> sizing_info option" where
  "lookup_adstack_sizing_info i rg = (if i = 0 then None else rg_entries rg i)"

text \<open>What the re-registration loop reads and writes of an \<^verbatim>\<open>OffloadedTask\<close>.\<close>

record offloaded_ad_stack =
  oa_address :: int
  oa_has_max_reducer_specs :: bool
  oa_kernel_name :: string
  oa_task_id_in_kernel :: int
  oa_max_sizes_compile_time :: "nat list"
  oa_size_exprs :: "ser_expr list"
  oa_registry_id :: nat

definition ensure_registry_id ::
  "offloaded_ad_stack \<Rightarrow> registry \<Rightarrow> (offloaded_ad_stack \<times> registry) option" where
  "ensure_registry_id t rg =
     (if \<not> oa_has_max_reducer_specs t \<or> is_adstack_sizing_info_registered (oa_address t) rg
      then Some (t, rg)
      else case register_adstack_sizing_info (oa_address t) (oa_kernel_name t) (oa_task_id_in_kernel t)
                  (map (\<lambda>n. wrap32 (int n)) (oa_max_sizes_compile_time t)) (oa_size_exprs t) rg of
             None \<Rightarrow> None
           | Some (i, rg') \<Rightarrow>
               Some (if oa_registry_id t = 0 then t\<lparr>oa_registry_id := i\<rparr> else t, rg'))"

fun ensure_runtime_registry_ids_for_max_reducer ::
  "offloaded_ad_stack list \<Rightarrow> registry \<Rightarrow> (offloaded_ad_stack list \<times> registry) option" where
  "ensure_runtime_registry_ids_for_max_reducer [] rg = Some ([], rg)"
| "ensure_runtime_registry_ids_for_max_reducer (t # ts) rg =
     (case ensure_registry_id t rg of
        None \<Rightarrow> None
      | Some (t', rg1) \<Rightarrow>
          (case ensure_runtime_registry_ids_for_max_reducer ts rg1 of
             None \<Rightarrow> None
           | Some (ts', rg2) \<Rightarrow> Some (t' # ts', rg2)))"

section \<open>The hash and the probe sequence\<close>

definition id_ok :: "nat \<Rightarrow> bool" where
  "id_ok i \<longleftrightarrow> 0 < i \<and> i < 2 ^ 32"

lemma fnv1a32_id_ok [simp]: "id_ok (fnv1a32_for_registry name task)"
  by (simp add: fnv1a32_for_registry_def id_ok_def Let_def)

lemma next_id_ok [simp]: "id_ok (next_id i)"
  by (simp add: next_id_def id_ok_def Let_def)

text \<open>How many probes it takes to get from \<open>i\<close> to \<open>j\<close>, around the table if need be.\<close>

definition probe_distance :: "nat \<Rightarrow> nat \<Rightarrow> nat" where
  "probe_distance i j = (if i \<le> j then j - i else 2 ^ 32 - 1 - i + j)"

lemma probe_distance_next:
  assumes "id_ok i" "id_ok j" "i \<noteq> j"
  shows "probe_distance (next_id i) j < probe_distance i j"
  using assms by (auto simp: probe_distance_def next_id_def id_ok_def Let_def mod_if)

text \<open>The loop ends: some slot is free, and the probe sequence visits every slot.\<close>

lemma probe_id_returns:
  assumes "id_ok i" "id_ok j" "entries j = None"
  shows "\<exists>r. probe_id entries name task i = Some r"
  using assms(1)
proof (induction "probe_distance i j" arbitrary: i rule: less_induct)
  case less
  show ?case
  proof (cases "entries i")
    case (Some en)
    then have "i \<noteq> j" using assms(3) by auto
    then have "\<exists>r. probe_id entries name task (next_id i) = Some r"
      using less probe_distance_next assms(2) by simp
    then show ?thesis using Some by (subst probe_id.simps) auto
  qed (subst probe_id.simps, auto)
qed

text \<open>
  \<open>reaches entries name task h i\<close>: the probe sequence from \<open>h\<close> arrives at \<open>i\<close>, and every slot on
  the way is taken by other content.
\<close>

inductive reaches :: "(nat \<Rightarrow> sizing_info option) \<Rightarrow> string \<Rightarrow> int \<Rightarrow> nat \<Rightarrow> nat \<Rightarrow> bool"
  for entries name task where
  here: "reaches entries name task h h"
| probe: "entries h = Some en \<Longrightarrow> \<not> same_content en name task \<Longrightarrow>
    reaches entries name task (next_id h) i \<Longrightarrow> reaches entries name task h i"

lemma probe_id_sound:
  "probe_id entries name task h = Some r \<Longrightarrow>
   reaches entries name task h (fst r) \<and>
   (if snd r then \<exists>en. entries (fst r) = Some en \<and> same_content en name task
    else entries (fst r) = None)"
  by (rule probe_id.raw_induct [where P = "\<lambda>entries name task h r. reaches entries name task h (fst r) \<and>
        (if snd r then \<exists>en. entries (fst r) = Some en \<and> same_content en name task
         else entries (fst r) = None)"])
    (auto split: option.splits if_splits intro: reaches.intros)

lemma probe_id_complete:
  assumes "reaches entries name task h i"
    and "entries i = None \<or> (\<exists>en. entries i = Some en \<and> same_content en name task)"
  shows "probe_id entries name task h = Some (i, entries i \<noteq> None)"
  using assms
proof (induction rule: reaches.induct)
  case (here h)
  then show ?case by (subst probe_id.simps) auto
next
  case (probe h en i)
  then show ?case by (subst probe_id.simps) simp
qed

lemma reaches_id_ok: "reaches entries name task h i \<Longrightarrow> id_ok h \<Longrightarrow> id_ok i"
  by (induction rule: reaches.induct) simp_all

text \<open>Filling a free slot or updating one in place keeps every probe path that exists.\<close>

definition keeps_content :: "(nat \<Rightarrow> sizing_info option) \<Rightarrow> (nat \<Rightarrow> sizing_info option) \<Rightarrow> bool" where
  "keeps_content entries entries' \<longleftrightarrow> (\<forall>i en. entries i = Some en \<longrightarrow> (\<exists>en'. entries' i = Some en' \<and>
     si_kernel_name en' = si_kernel_name en \<and> si_task_id_in_kernel en' = si_task_id_in_kernel en))"

lemma reaches_keeps:
  assumes "reaches entries name task h i" "keeps_content entries entries'"
  shows "reaches entries' name task h i"
  using assms(1)
proof (induction rule: reaches.induct)
  case (probe h en i)
  then obtain en' where "entries' h = Some en'" "\<not> same_content en' name task"
    using assms(2) unfolding keeps_content_def same_content_def by metis
  then show ?case using probe.IH by (rule reaches.probe)
qed (rule reaches.here)

section \<open>The table invariant\<close>

definition registry_inv :: "registry \<Rightarrow> bool" where
  "registry_inv rg \<longleftrightarrow>
     (\<forall>i en. rg_entries rg i = Some en \<longrightarrow> reaches (rg_entries rg) (si_kernel_name en)
        (si_task_id_in_kernel en) (fnv1a32_for_registry (si_kernel_name en) (si_task_id_in_kernel en)) i) \<and>
     (\<forall>key i. rg_id_by_ptr rg key = Some i \<longrightarrow> rg_entries rg i \<noteq> None)"

lemma registry_inv_empty: "registry_inv empty_registry"
  by (simp add: registry_inv_def empty_registry_def)

text \<open>An id names one kernel and task, and a kernel and task has one id.\<close>

lemma registry_content_unique:
  assumes inv: "registry_inv rg"
    and i: "rg_entries rg i = Some en" "same_content en name task"
    and j: "rg_entries rg j = Some en'" "same_content en' name task"
  shows "i = j"
proof -
  let ?h = "fnv1a32_for_registry name task"
  have r: "reaches (rg_entries rg) name task ?h i" "reaches (rg_entries rg) name task ?h j"
    using inv i j unfolding registry_inv_def same_content_def by metis+
  have "probe_id (rg_entries rg) name task ?h = Some (i, True)"
      "probe_id (rg_entries rg) name task ?h = Some (j, True)"
    using probe_id_complete [OF r(1)] probe_id_complete [OF r(2)] i j by auto
  then show ?thesis by simp
qed

lemma registry_id_ok: "registry_inv rg \<Longrightarrow> rg_entries rg i = Some en \<Longrightarrow> id_ok i"
  unfolding registry_inv_def by (metis reaches_id_ok fnv1a32_id_ok)

text \<open>\<open>id_of\<close>: the id a kernel and task is registered under.\<close>

definition has_id :: "registry \<Rightarrow> string \<Rightarrow> int \<Rightarrow> nat \<Rightarrow> bool" where
  "has_id rg name task i \<longleftrightarrow> (\<exists>en. rg_entries rg i = Some en \<and> same_content en name task)"

lemma keeps_content_update:
  assumes "\<And>en. entries i = Some en \<Longrightarrow>
    si_kernel_name en' = si_kernel_name en \<and> si_task_id_in_kernel en' = si_task_id_in_kernel en"
  shows "keeps_content entries (entries(i \<mapsto> en'))"
  using assms by (auto simp: keeps_content_def)

lemma registry_inv_put:
  assumes inv: "registry_inv rg" and keep: "keeps_content (rg_entries rg) ((rg_entries rg)(i \<mapsto> en))"
    and path: "reaches (rg_entries rg) (si_kernel_name en) (si_task_id_in_kernel en)
      (fnv1a32_for_registry (si_kernel_name en) (si_task_id_in_kernel en)) i"
    and ptrs: "\<And>key j. by_ptr key = Some j \<Longrightarrow> j = i \<or> rg_id_by_ptr rg key = Some j"
  shows "registry_inv \<lparr>rg_entries = (rg_entries rg)(i \<mapsto> en), rg_id_by_ptr = by_ptr\<rparr>"
  using inv reaches_keeps [OF path keep] reaches_keeps [OF _ keep] ptrs
  unfolding registry_inv_def by (auto split: if_splits) blast+

text \<open>
  Registering returns the content's id: the one it has, or the free slot its probe sequence
  stops at. Everything else keeps its id.
\<close>

lemma register_by_content_spec:
  assumes inv: "registry_inv rg"
    and reg: "register_by_content key name task sizes exprs rg = Some (i, rg')"
  shows "registry_inv rg' \<and> keeps_content (rg_entries rg) (rg_entries rg') \<and> rg_id_by_ptr rg' key = Some i \<and>
    (\<exists>en. rg_entries rg' i = Some en \<and> same_content en name task \<and>
       si_allocated_max_sizes en = sizes \<and> si_size_exprs en = exprs)"
proof -
  obtain found where pr: "probe_id (rg_entries rg) name task (fnv1a32_for_registry name task) = Some (i, found)"
    using reg by (auto simp: register_by_content_def split: option.splits)
  note sound = probe_id_sound [OF pr, simplified]
  define en where "en = (if found then set_sizes sizes exprs (the (rg_entries rg i))
    else \<lparr>si_identity_key = key, si_kernel_name = name, si_task_id_in_kernel = task,
          si_allocated_max_sizes = sizes, si_size_exprs = exprs\<rparr>)"
  have rg': "rg' = \<lparr>rg_entries = (rg_entries rg)(i \<mapsto> en), rg_id_by_ptr = (rg_id_by_ptr rg)(key \<mapsto> i)\<rparr>"
    using reg pr by (simp add: register_by_content_def en_def)
  have en: "si_kernel_name en = name" "si_task_id_in_kernel en = task"
      "si_allocated_max_sizes en = sizes" "si_size_exprs en = exprs"
    using sound by (auto simp: en_def set_sizes_def same_content_def split: if_splits)
  have keep: "keeps_content (rg_entries rg) ((rg_entries rg)(i \<mapsto> en))"
    using sound en by (intro keeps_content_update) (auto simp: same_content_def split: if_splits)
  have "registry_inv rg'"
    unfolding rg' using sound en by (intro registry_inv_put [OF inv keep]) (auto split: if_splits)
  then show ?thesis using keep en by (simp add: rg' same_content_def)
qed

lemma register_spec:
  assumes inv: "registry_inv rg"
    and reg: "register_adstack_sizing_info key name task sizes exprs rg = Some (i, rg')"
  shows "registry_inv rg' \<and> keeps_content (rg_entries rg) (rg_entries rg') \<and> rg_id_by_ptr rg' key = Some i \<and>
    (\<exists>en. rg_entries rg' i = Some en \<and> same_content en name task \<and>
       si_allocated_max_sizes en = sizes \<and> si_size_exprs en = exprs)"
proof (cases "rg_id_by_ptr rg key")
  case None
  then show ?thesis
    using reg register_by_content_spec [OF inv] by (simp add: register_adstack_sizing_info_def)
next
  case (Some j)
  then obtain en where en: "rg_entries rg j = Some en" using inv unfolding registry_inv_def by blast
  show ?thesis
  proof (cases "same_content en name task")
    case True
    then have r: "i = j" "rg' = rg\<lparr>rg_entries := (rg_entries rg)(j \<mapsto> set_sizes sizes exprs en)\<rparr>"
      using reg Some en by (auto simp: register_adstack_sizing_info_def)
    have keep: "keeps_content (rg_entries rg) ((rg_entries rg)(j \<mapsto> set_sizes sizes exprs en))"
      using en by (intro keeps_content_update) (simp add: set_sizes_def)
    have "registry_inv \<lparr>rg_entries = (rg_entries rg)(j \<mapsto> set_sizes sizes exprs en), rg_id_by_ptr = rg_id_by_ptr rg\<rparr>"
      using inv en by (intro registry_inv_put [OF inv keep]) (auto simp: registry_inv_def set_sizes_def)
    moreover have "rg' = \<lparr>rg_entries = (rg_entries rg)(j \<mapsto> set_sizes sizes exprs en), rg_id_by_ptr = rg_id_by_ptr rg\<rparr>"
      using r(2) by simp
    ultimately have "registry_inv rg'" by simp
    then show ?thesis using keep r True Some by (simp add: set_sizes_def same_content_def)
  next
    case False
    let ?rg = "\<lparr>rg_entries = rg_entries rg, rg_id_by_ptr = (rg_id_by_ptr rg)(key := None)\<rparr>"
    have "(rg_entries rg)(j \<mapsto> en) = rg_entries rg" using en by auto
    then have "register_by_content key name task sizes exprs ?rg = Some (i, rg')"
      using reg Some en False by (simp add: register_adstack_sizing_info_def)
    moreover have "registry_inv ?rg" using inv by (auto simp: registry_inv_def)
    ultimately show ?thesis using register_by_content_spec by fastforce
  qed
qed

section \<open>Stability across a program's lifetime\<close>

text \<open>The operations that change the registry, in any order.\<close>

inductive registry_run :: "registry \<Rightarrow> registry \<Rightarrow> bool" for rg where
  stop: "registry_run rg rg"
| register: "registry_run rg rg1 \<Longrightarrow>
    register_adstack_sizing_info key name task sizes exprs rg1 = Some (i, rg2) \<Longrightarrow> registry_run rg rg2"
| update: "registry_run rg rg1 \<Longrightarrow>
    registry_run rg (update_adstack_sizing_info_size_exprs i exprs rg1)"
| ensure: "registry_run rg rg1 \<Longrightarrow>
    ensure_runtime_registry_ids_for_max_reducer ts rg1 = Some (ts', rg2) \<Longrightarrow> registry_run rg rg2"

lemma keeps_content_refl [simp]: "keeps_content e e"
  by (simp add: keeps_content_def)

lemma keeps_content_trans: "keeps_content a b \<Longrightarrow> keeps_content b c \<Longrightarrow> keeps_content a c"
  unfolding keeps_content_def by metis

lemma update_spec:
  assumes "registry_inv rg"
  shows "registry_inv (update_adstack_sizing_info_size_exprs i exprs rg) \<and>
    keeps_content (rg_entries rg) (rg_entries (update_adstack_sizing_info_size_exprs i exprs rg))"
proof (cases "i = 0 \<or> rg_entries rg i = None")
  case False
  then obtain en where en: "i \<noteq> 0" "rg_entries rg i = Some en" by auto
  let ?en = "en\<lparr>si_size_exprs := exprs\<rparr>"
  have keep: "keeps_content (rg_entries rg) ((rg_entries rg)(i \<mapsto> ?en))"
    using en by (intro keeps_content_update) simp
  have "registry_inv \<lparr>rg_entries = (rg_entries rg)(i \<mapsto> ?en), rg_id_by_ptr = rg_id_by_ptr rg\<rparr>"
    using assms en by (intro registry_inv_put [OF assms keep]) (auto simp: registry_inv_def)
  moreover have "update_adstack_sizing_info_size_exprs i exprs rg =
      \<lparr>rg_entries = (rg_entries rg)(i \<mapsto> ?en), rg_id_by_ptr = rg_id_by_ptr rg\<rparr>"
    using en by (simp add: update_adstack_sizing_info_size_exprs_def)
  ultimately show ?thesis using keep by simp
qed (use assms in \<open>auto simp: update_adstack_sizing_info_size_exprs_def\<close>)

lemma ensure_one_spec:
  assumes "registry_inv rg" "ensure_registry_id t rg = Some (t', rg')"
  shows "registry_inv rg' \<and> keeps_content (rg_entries rg) (rg_entries rg')"
  using assms register_spec
  by (fastforce simp: ensure_registry_id_def split: if_splits option.splits)

lemma ensure_spec:
  "registry_inv rg \<Longrightarrow> ensure_runtime_registry_ids_for_max_reducer ts rg = Some (ts', rg') \<Longrightarrow>
   registry_inv rg' \<and> keeps_content (rg_entries rg) (rg_entries rg')"
proof (induction ts arbitrary: rg ts')
  case (Cons t ts)
  then obtain t1 rg1 ts1 where "ensure_registry_id t rg = Some (t1, rg1)"
      "ensure_runtime_registry_ids_for_max_reducer ts rg1 = Some (ts1, rg')"
    by (auto split: option.splits)
  then show ?case using ensure_one_spec [OF Cons.prems(1)] Cons.IH by (blast intro: keeps_content_trans)
qed simp

lemma registry_run_inv:
  assumes "registry_run rg rg'" "registry_inv rg"
  shows "registry_inv rg' \<and> keeps_content (rg_entries rg) (rg_entries rg')"
  using assms
proof (induction rule: registry_run.induct)
  case (register rg1 key name task sizes exprs i rg2)
  then show ?case using register_spec by (blast intro: keeps_content_trans)
next
  case (update rg1 i exprs)
  then show ?case using update_spec by (blast intro: keeps_content_trans)
next
  case (ensure rg1 ts ts' rg2)
  then show ?case using ensure_spec by (blast intro: keeps_content_trans)
qed simp

text \<open>
  Content stability: once a kernel's task is registered, registering it again after any other
  operations, under whatever identity pointer, gives the same id, and looking the id up gives
  the latest sizes.
\<close>

lemma register_stable:
  assumes inv: "registry_inv rg"
    and first: "register_adstack_sizing_info key name task sizes exprs rg = Some (i, rg1)"
    and run: "registry_run rg1 rg2"
    and again: "register_adstack_sizing_info key' name task sizes' exprs' rg2 = Some (j, rg3)"
  shows "j = i \<and> (\<exists>en. lookup_adstack_sizing_info i rg3 = Some en \<and> si_kernel_name en = name \<and>
    si_task_id_in_kernel en = task \<and> si_allocated_max_sizes en = sizes' \<and> si_size_exprs en = exprs')"
proof -
  note r1 = register_spec [OF inv first]
  have r2: "registry_inv rg2" "keeps_content (rg_entries rg1) (rg_entries rg2)"
    using registry_run_inv [OF run] r1 by auto
  note r3 = register_spec [OF r2(1) again]
  have "keeps_content (rg_entries rg1) (rg_entries rg3)"
    using keeps_content_trans [OF r2(2)] r3 by blast
  then obtain en where "rg_entries rg3 i = Some en" "same_content en name task"
    using r1 unfolding keeps_content_def same_content_def by metis
  then have "j = i" using registry_content_unique r3 by blast
  moreover have "i \<noteq> 0" using registry_id_ok r3 calculation by (fastforce simp: id_ok_def)
  ultimately show ?thesis using r3 by (auto simp: lookup_adstack_sizing_info_def same_content_def)
qed

text \<open>Registration ends whenever the table has a free slot.\<close>

lemma register_returns:
  assumes inv: "registry_inv rg" and free: "id_ok j" "rg_entries rg j = None"
  shows "\<exists>i rg'. register_adstack_sizing_info key name task sizes exprs rg = Some (i, rg')"
proof -
  have content: "\<exists>i rg2. register_by_content key name task sizes exprs rg1 = Some (i, rg2)"
    if "rg_entries rg1 = rg_entries rg" for rg1
    using probe_id_returns [of "fnv1a32_for_registry name task" j "rg_entries rg" name task, OF fnv1a32_id_ok free] that
    by (fastforce simp: register_by_content_def)
  show ?thesis
  proof (cases "rg_id_by_ptr rg key")
    case None
    then show ?thesis using content by (simp add: register_adstack_sizing_info_def)
  next
    case (Some i)
    then obtain en where en: "rg_entries rg i = Some en" using inv unfolding registry_inv_def by blast
    then have "(rg_entries rg)(i \<mapsto> en) = rg_entries rg" by auto
    then show ?thesis using Some en content by (simp add: register_adstack_sizing_info_def)
  qed
qed

text \<open>
  The gate of the re-registration loop looks at the address only: a task that is found at the
  address of another one is not registered, and its id is left as it was.
\<close>

lemma ensure_skips_recycled:
  assumes "oa_address t = key" "rg_id_by_ptr rg key = Some i"
  shows "ensure_runtime_registry_ids_for_max_reducer [t] rg = Some ([t], rg)"
  using assms by (simp add: ensure_registry_id_def is_adstack_sizing_info_registered_def)

end
