(* ===== verification/Diagnose.thy ===== *)
theory Diagnose
  imports SizeCache Registry
begin

text \<open>
  The overflow diagnosis (\<^verbatim>\<open>program/adstack/diagnose.cpp\<close> and
  \<^verbatim>\<open>AdStackCache::diagnose_adstack_overflow\<close> in \<^verbatim>\<open>cache.cpp\<close>): a second evaluator of size
  expressions that reads through a snapshot of the last launch and answers \<open>-1\<close> where it cannot
  resolve a leaf, and the classification of an overflow by rerunning every stack's bound. The
  fixed paragraphs of the message are determined by the cause and not spelt out.
\<close>

section \<open>Snapshot\<close>

record diagnose_snapshot =
  dg_data_ptrs :: "int \<Rightarrow> int option"
  dg_dev_alloc_types :: "int \<Rightarrow> dev_alloc_type option"
  dg_shapes :: "int \<Rightarrow> int list option"

text \<open>
  \<^verbatim>\<open>capture_diagnose_snapshot\<close>: the data-pointer slot of every array, the allocation types and
  the shape vectors (\<^verbatim>\<open>ctx.ndarray_shapes\<close>, narrowed to 32 bits) of a launch.
\<close>

definition capture_diagnose_snapshot :: "launch_ctx \<Rightarrow> (int \<Rightarrow> int list option) \<Rightarrow> diagnose_snapshot" where
  "capture_diagnose_snapshot ctx ndarray_shapes =
     \<lparr>dg_data_ptrs = (\<lambda>arg_id. lc_array_ptrs ctx arg_id data_ptr_pos),
      dg_dev_alloc_types = lc_device_allocation_type ctx,
      dg_shapes = (\<lambda>arg_id. map_option (map wrap32) (ndarray_shapes arg_id))\<rparr>"

section \<open>Reading one element\<close>

text \<open>
  \<open>dev_read ptr offset n\<close> is the staging-buffer copy of \<open>n\<close> bytes of a device allocation, \<open>None\<close>
  when the allocation or the mapping fails: the RHI device behind the handle is not modelled.
\<close>

type_synonym device_reader = "int \<Rightarrow> int \<Rightarrow> nat \<Rightarrow> (nat \<Rightarrow> 8 word) option"

fun diagnose_linear :: "int list \<Rightarrow> int list \<Rightarrow> nat \<Rightarrow> int \<Rightarrow> int \<Rightarrow> int" where
  "diagnose_linear shape resolved 0 linear stride = linear"
| "diagnose_linear shape resolved (Suc k) linear stride =
     diagnose_linear shape resolved k (wrap64 (linear + wrap64 (resolved ! k * stride)))
       (if 0 < k \<and> k < length shape then wrap64 (stride * shape ! k) else stride)"

definition staged :: "memory \<Rightarrow> device_reader \<Rightarrow> dev_alloc_type \<Rightarrow> bool \<Rightarrow> int \<Rightarrow> int \<Rightarrow> nat \<Rightarrow> memory option" where
  "staged m dev_read ty has_prog ptr linear n =
     (case ty of
        AllocNone \<Rightarrow> Some (\<lambda>x. m (ptr + linear * int n + x))
      | AllocNdarray \<Rightarrow>
          if \<not> has_prog then None
          else map_option (\<lambda>bytes x. bytes (nat x)) (dev_read ptr (linear * int n) n))"

definition read_diagnose_external_tensor ::
  "ser_node \<Rightarrow> int list \<Rightarrow> memory \<Rightarrow> device_reader \<Rightarrow> bool \<Rightarrow> diagnose_snapshot \<Rightarrow> int" where
  "read_diagnose_external_tensor node resolved m dev_read has_prog snap =
     (case sn_arg_id_path node of
        [] \<Rightarrow> -1
      | arg_id # _ \<Rightarrow>
          (case (dg_data_ptrs snap arg_id, dg_dev_alloc_types snap arg_id, dg_shapes snap arg_id) of
             (Some ptr, Some ty, Some shape) \<Rightarrow>
               if ptr = 0 \<or> (length shape < length resolved \<and> shape \<noteq> []) then -1
               else
                 (case prim_of_id (wrap32 (sn_const_value node)) of
                    None \<Rightarrow> -1
                  | Some prim \<Rightarrow>
                      (let linear = diagnose_linear shape resolved (length resolved) 0 1 in
                       case staged m dev_read ty has_prog ptr linear (prim_size prim) of
                         None \<Rightarrow> -1
                       | Some bytes \<Rightarrow> load_elem bytes 0 0 prim))
           | _ \<Rightarrow> -1))"

section \<open>The diagnose evaluator\<close>

definition diagnose_binary :: "size_kind \<Rightarrow> int \<Rightarrow> int \<Rightarrow> int" where
  "diagnose_binary k a b = (if a < 0 \<or> b < 0 then -1 else binary_value k a b)"

text \<open>The loop stops at the first body value that is negative.\<close>

fun diagnose_loop ::
  "(int \<Rightarrow> 's \<Rightarrow> (int \<times> 's) result) \<Rightarrow> nat \<Rightarrow> int \<Rightarrow> int \<Rightarrow> 's \<Rightarrow> (int \<times> 's) result" where
  "diagnose_loop body 0 i res st = Inr (res, st)"
| "diagnose_loop body (Suc n) i res st =
     bindE (body i st) (\<lambda>(v, st').
       if v < 0 then Inr (-1, st') else diagnose_loop body n (i + 1) (if res < v then v else res) st')"

fun resolve_indices_diagnose :: "bound_vars \<Rightarrow> int list \<Rightarrow> int list option" where
  "resolve_indices_diagnose bv [] = Some []"
| "resolve_indices_diagnose bv (raw # raws) =
     (case resolve_index bv raw of
        Inl _ \<Rightarrow> None
      | Inr v \<Rightarrow> map_option ((#) v) (resolve_indices_diagnose bv raws))"

fun evaluate_node_for_diagnose ::
  "nat \<Rightarrow> ser_expr \<Rightarrow> int \<Rightarrow> env \<Rightarrow> device_reader \<Rightarrow> diagnose_snapshot \<Rightarrow> eval_state \<Rightarrow>
   (int \<times> eval_state) result" where
  "evaluate_node_for_diagnose 0 ns i e rd snap st = Inl Diverges"
| "evaluate_node_for_diagnose (Suc f) ns i e rd snap st =
     (if \<not> in_range ns i then Inr (-1, st)
      else
       (let node = node_at ns i in
        case kind_of (sn_kind node) of
          Some KConst \<Rightarrow> Inr (sn_const_value node, st)
        | Some KFieldLoad \<Rightarrow> evaluate_field_load node e st
        | Some KMaxOverRange \<Rightarrow>
            bindE (evaluate_node_for_diagnose f ns (sn_operand_a node) e rd snap st) (\<lambda>(begin, st1).
            bindE (evaluate_node_for_diagnose f ns (sn_operand_b node) e rd snap st1) (\<lambda>(end, st2).
            if begin < 0 \<or> end < 0 then Inr (-1, st2)
            else if begin < end \<and> 2 ^ 24 < wrap64 (end - begin) then Inr (-1, st2)
            else
              bindE (diagnose_loop (\<lambda>i s. evaluate_node_for_diagnose f ns (sn_body_node_idx node) e rd snap
                                (s\<lparr>es_bound := (es_bound s)(sn_var_id node \<mapsto> i)\<rparr>))
                       (nat (end - begin)) begin 0 st2) (\<lambda>(res, st3).
              Inr (res, st3\<lparr>es_bound := (es_bound st3)(sn_var_id node := es_bound st2 (sn_var_id node))\<rparr>))))
        | Some KBoundVariable \<Rightarrow>
            Inr (case es_bound st (sn_var_id node) of None \<Rightarrow> -1 | Some v \<Rightarrow> v, st)
        | Some KExternalTensorShape \<Rightarrow>
            Inr (case sn_arg_id_path node of
                   [] \<Rightarrow> -1
                 | arg_id # _ \<Rightarrow>
                     (case dg_shapes snap arg_id of
                        None \<Rightarrow> -1
                      | Some shape \<Rightarrow>
                          if 0 \<le> sn_arg_shape_axis node \<and> sn_arg_shape_axis node < int (length shape)
                          then shape ! nat (sn_arg_shape_axis node) else -1), st)
        | Some KExternalTensorRead \<Rightarrow>
            Inr (case resolve_indices_diagnose (es_bound st) (sn_indices node) of
                   None \<Rightarrow> -1
                 | Some resolved \<Rightarrow>
                     read_diagnose_external_tensor node resolved (en_mem e) rd (en_prog e \<noteq> None) snap, st)
        | Some k \<Rightarrow>
            bindE (evaluate_node_for_diagnose f ns (sn_operand_a node) e rd snap st) (\<lambda>(a, st1).
            bindE (evaluate_node_for_diagnose f ns (sn_operand_b node) e rd snap st1) (\<lambda>(b, st2).
            Inr (diagnose_binary k a b, st2)))
        | None \<Rightarrow> Inr (-1, st)))"

definition evaluate_adstack_size_expr_for_diagnose ::
  "ser_expr \<Rightarrow> env \<Rightarrow> device_reader \<Rightarrow> diagnose_snapshot option \<Rightarrow> read_cache option \<Rightarrow>
   (int \<times> read_cache option) result" where
  "evaluate_adstack_size_expr_for_diagnose ns e rd snap outer =
     (if ns = [] \<or> en_prog e = None then Inr (-1, outer)
      else case snap of
             None \<Rightarrow> Inr (-1, outer)
           | Some sn \<Rightarrow>
               bindE (evaluate_node_for_diagnose (eval_fuel ns) ns (int (length ns) - 1) e rd sn
                        \<lparr>es_bound = Map.empty, es_cache = outer, es_reads = None\<rparr>)
                 (\<lambda>(v, st). Inr (v, es_cache st)))"

section \<open>Classification\<close>

datatype cause = Unknown | DLPackBypass | QuadrantsBug

text \<open>\<^verbatim>\<open>std::to_string\<close>.\<close>

fun digits :: "nat \<Rightarrow> string" where
  "digits n = (if n < 10 then [char_of (48 + n)] else digits (n div 10) @ [char_of (48 + n mod 10)])"

declare digits.simps [simp del]

definition to_string :: "int \<Rightarrow> string" where
  "to_string x = (if x < 0 then CHR ''-'' # digits (nat (- x)) else digits (nat x))"

fun comma_separated :: "string list \<Rightarrow> string" where
  "comma_separated [] = []"
| "comma_separated [s] = s"
| "comma_separated (s # t # ss) = s @ '', '' @ comma_separated (t # ss)"

record stack_rerun =
  sr_required :: int
  sr_known :: bool
  sr_allocated :: int

definition needs_snapshot :: "ser_expr \<Rightarrow> bool" where
  "needs_snapshot ns \<longleftrightarrow>
     list_ex (\<lambda>n. kind_of (sn_kind n) \<in> {Some KExternalTensorShape, Some KExternalTensorRead}) ns"

text \<open>
  The rerun of one stack. A tree without ndarray leaves goes through the cached host evaluator
  with no launch context, any other through the snapshot.
\<close>

definition rerun_stack ::
  "env \<Rightarrow> device_reader \<Rightarrow> diagnose_snapshot option \<Rightarrow> int \<Rightarrow> ser_expr \<Rightarrow> int \<Rightarrow> adstack_cache \<Rightarrow>
   (stack_rerun \<times> adstack_cache) result" where
  "rerun_stack e rd snap key ns allocated ac =
     bindE (if ns = [] then Inr (-1, ac)
            else if \<not> needs_snapshot ns then
              bindE (evaluate_adstack_size_expr key ns (e\<lparr>en_ctx := None\<rparr>) None ac)
                (\<lambda>(v, _, ac'). Inr (v, ac'))
            else
              bindE (evaluate_adstack_size_expr_for_diagnose ns (with_gens ac e) rd snap None)
                (\<lambda>(v, _). Inr (if 0 \<le> v then v else -1, ac)))
       (\<lambda>(v, ac'). Inr (\<lparr>sr_required = v, sr_known = (ns \<noteq> [] \<and> 0 \<le> v), sr_allocated = allocated\<rparr>, ac'))"

fun rerun_stacks ::
  "env \<Rightarrow> device_reader \<Rightarrow> diagnose_snapshot option \<Rightarrow> (int \<times> ser_expr \<times> int) list \<Rightarrow> adstack_cache \<Rightarrow>
   (stack_rerun list \<times> adstack_cache) result" where
  "rerun_stacks e rd snap [] ac = Inr ([], ac)"
| "rerun_stacks e rd snap ((key, ns, allocated) # rest) ac =
     bindE (rerun_stack e rd snap key ns allocated ac) (\<lambda>(r, ac1).
     bindE (rerun_stacks e rd snap rest ac1) (\<lambda>(rs, ac2). Inr (r # rs, ac2)))"

text \<open>
  \<^verbatim>\<open>static_cast<size_t>(v) > allocated_max_sizes[i]\<close>: the allocated size is an \<^verbatim>\<open>int\<close> and is
  converted to 64 unsigned bits too.
\<close>

definition grew :: "stack_rerun \<Rightarrow> bool" where
  "grew r \<longleftrightarrow> sr_known r \<and> sr_allocated r mod 2 ^ 64 < sr_required r"

definition classify :: "stack_rerun list \<Rightarrow> cause" where
  "classify rs =
     (if list_ex grew rs then DLPackBypass
      else if list_all sr_known rs \<and> rs \<noteq> [] then QuadrantsBug else Unknown)"

definition rerun_line :: "stack_rerun list \<Rightarrow> string" where
  "rerun_line rs =
     (if list_ex sr_known rs
      then ''  Synchronous sizer rerun: required max_size = ['' @
           comma_separated (map (\<lambda>r. if sr_known r then to_string (sr_required r) else ''?'') rs) @ ''].'' @
           (if list_ex (\<lambda>r. \<not> sr_known r) rs
            then '' (`?` = sizer rerun could not resolve this stack's bound against the captured launch state).''
            else []) @ [CHR 0x0A]
      else [])"

definition identity_line :: "sizing_info \<Rightarrow> string" where
  "identity_line en =
     ''  Offending task: kernel `'' @ si_kernel_name en @ ''` offload task #'' @
     to_string (si_task_id_in_kernel en) @ ''; per-stack allocated max_size = ['' @
     comma_separated (map to_string (si_allocated_max_sizes en)) @ ''].'' @ [CHR 0x0A]"

record diagnosis =
  dx_identity :: string
  dx_rerun :: string
  dx_cause :: cause
  dx_confirmed_invalid_cache :: bool

text \<open>
  \<open>key_of i\<close> is the address of the entry's \<open>i\<close>-th size expression, the key under which its
  evaluation is cached.
\<close>

definition diagnose_adstack_overflow ::
  "nat \<Rightarrow> registry \<Rightarrow> env \<Rightarrow> device_reader \<Rightarrow> diagnose_snapshot option \<Rightarrow> (nat \<Rightarrow> int) \<Rightarrow>
   adstack_cache \<Rightarrow> (diagnosis \<times> adstack_cache) result" where
  "diagnose_adstack_overflow task_id rg e rd snap key_of ac =
     (case (if task_id = 0 then None else lookup_adstack_sizing_info task_id rg) of
        None \<Rightarrow> Inr (\<lparr>dx_identity = [], dx_rerun = [], dx_cause = Unknown,
                    dx_confirmed_invalid_cache = False\<rparr>, ac)
      | Some en \<Rightarrow>
          bindE (rerun_stacks e rd snap
                   (zip (map key_of [0..<length (si_size_exprs en)])
                        (zip (si_size_exprs en) (si_allocated_max_sizes en))) ac) (\<lambda>(rs, ac').
            let c = classify rs
            in Inr (\<lparr>dx_identity = identity_line en, dx_rerun = rerun_line rs, dx_cause = c,
                    dx_confirmed_invalid_cache = (c = DLPackBypass)\<rparr>, ac')))"

section \<open>Agreement with the launch-time evaluator\<close>

text \<open>
  The snapshot describes the launch: shape vectors are what the argument buffer says, a host array
  is the one the launch binds, and the staging copy of a device allocation returns the bytes at
  the array's address.
\<close>

fun snapshot_agrees :: "env \<Rightarrow> device_reader \<Rightarrow> diagnose_snapshot \<Rightarrow> size_expr \<Rightarrow> bool" where
  "snapshot_agrees e rd snap (Binary f a b) \<longleftrightarrow> snapshot_agrees e rd snap a \<and> snapshot_agrees e rd snap b"
| "snapshot_agrees e rd snap (MaxOverRange v a b c) \<longleftrightarrow>
     snapshot_agrees e rd snap a \<and> snapshot_agrees e rd snap b \<and> snapshot_agrees e rd snap c"
| "snapshot_agrees e rd snap (ExternalTensorShape p ax) \<longleftrightarrow>
     (\<forall>a rest sh. p = a # rest \<longrightarrow> dg_shapes snap a = Some sh \<longrightarrow> 0 \<le> ax \<longrightarrow> ax < int (length sh) \<longrightarrow>
        external_shape_value e p ax = Inr (sh ! nat ax))"
| "snapshot_agrees e rd snap (ExternalTensorRead p is dt) \<longleftrightarrow>
     (\<forall>a rest sh ptr ty. p = a # rest \<longrightarrow> dg_shapes snap a = Some sh \<longrightarrow> dg_data_ptrs snap a = Some ptr \<longrightarrow>
        dg_dev_alloc_types snap a = Some ty \<longrightarrow>
        length is \<le> max 1 (length sh) \<and>
        (\<exists>ctx ptr'. en_ctx e = Some ctx \<and> data_ptr_of ctx a = Some ptr' \<and>
           (\<forall>k. 0 < k \<longrightarrow> k < length is \<longrightarrow> shape_at (en_mem e) ctx p (int k) = Inr (sh ! k)) \<and>
           (ty = AllocNone \<longrightarrow> ptr = ptr') \<and>
           (ty = AllocNdarray \<longrightarrow> (\<forall>off n bytes. rd ptr off n = Some bytes \<longrightarrow>
              (\<forall>x < n. bytes x = en_mem e (ptr' + off + int x))))))"
| "snapshot_agrees e rd snap t \<longleftrightarrow> True"

lemma linear_loop_cong:
  "(\<And>k. 0 < k \<Longrightarrow> k < n \<Longrightarrow> shape k = shape' k) \<Longrightarrow>
   linear_loop shape ix n lin stride = linear_loop shape' ix n lin stride"
  by (induction n arbitrary: lin stride) (simp_all add: Let_def)

lemma diagnose_linear_loop:
  "n \<le> max 1 (length sh) \<Longrightarrow>
   linear_loop (\<lambda>k. Inr (sh ! k)) ix n lin stride = Inr (diagnose_linear sh ix n lin stride)"
  by (induction n arbitrary: lin stride) (auto simp: Let_def)

lemma load_uint_shift: "(\<And>x. x < n \<Longrightarrow> b (c + int x) = m (a + int x)) \<Longrightarrow> load_uint b c n = load_uint m a n"
proof (induction n arbitrary: a c)
  case (Suc n)
  have "load_uint b (c + 1) n = load_uint m (a + 1) n"
    using Suc.prems [of "Suc _"] by (intro Suc.IH) (simp add: algebra_simps)
  moreover have "b c = m a" using Suc.prems [of 0] by simp
  ultimately show ?case by simp
qed simp

lemma staged_load:
  assumes "staged m rd ty hp ptr linear (prim_size prim) = Some bytes"
    and "ty = AllocNone \<Longrightarrow> ptr = ptr'"
    and "\<And>off n bs x. ty = AllocNdarray \<Longrightarrow> rd ptr off n = Some bs \<Longrightarrow> x < n \<Longrightarrow> bs x = m (ptr' + off + int x)"
  shows "load_elem bytes 0 0 prim = load_elem m ptr' linear prim"
proof -
  have "bytes (0 + int x) = m (ptr' + linear * int (prim_size prim) + int x)" if "x < prim_size prim" for x
    using assms that by (cases ty) (auto simp: staged_def split: if_splits)
  then have "load_uint bytes 0 (prim_size prim) = load_uint m (ptr' + linear * int (prim_size prim)) (prim_size prim)"
    by (rule load_uint_shift)
  then show ?thesis by (cases prim) simp_all
qed

lemma resolve_indices_diagnose_eq:
  "resolve_indices_diagnose bv raws = Some ix \<longleftrightarrow> mapE (resolve_index bv) raws = Inr ix"
  by (induction raws arbitrary: ix) (auto simp: result_simps split: sum.splits)

lemma diagnose_read_agrees:
  assumes ag: "snapshot_agrees e rd snap (ExternalTensorRead p is dt)"
    and node: "sn_arg_id_path node = p" "sn_const_value node = dt"
    and ix: "mapE (resolve_index bv) is = Inr ix"
    and v: "read_diagnose_external_tensor node ix (en_mem e) rd hp snap = v" "0 \<le> v"
  shows "external_read_value e bv p is dt = Inr v"
proof -
  obtain a rest ptr ty sh prim bytes where d: "p = a # rest" "dg_data_ptrs snap a = Some ptr"
      "dg_dev_alloc_types snap a = Some ty" "dg_shapes snap a = Some sh" "prim_of_id (wrap32 dt) = Some prim"
      "staged (en_mem e) rd ty hp ptr (diagnose_linear sh ix (length ix) 0 1) (prim_size prim) = Some bytes"
      "v = load_elem bytes 0 0 prim"
    using v node unfolding read_diagnose_external_tensor_def Let_def
    by (auto split: list.splits option.splits if_splits)
  have len: "length ix = length is" using ix by (rule mapE_length)
  obtain ctx ptr' where c: "length is \<le> max 1 (length sh)" "en_ctx e = Some ctx"
      "data_ptr_of ctx a = Some ptr'"
      "\<And>k. 0 < k \<Longrightarrow> k < length is \<Longrightarrow> shape_at (en_mem e) ctx p (int k) = Inr (sh ! k)"
      "ty = AllocNone \<Longrightarrow> ptr = ptr'"
      "\<And>off n bs x. ty = AllocNdarray \<Longrightarrow> rd ptr off n = Some bs \<Longrightarrow> x < n \<Longrightarrow> bs x = en_mem e (ptr' + off + int x)"
    using ag d(1-4) by fastforce
  define linear where "linear = diagnose_linear sh ix (length ix) 0 1"
  let ?shp = "\<lambda>k. shape_at (en_mem e) ctx p (int k)"
  have "linear_loop ?shp ix (length is) 0 1 = linear_loop (\<lambda>k. Inr (sh ! k)) ix (length is) 0 1"
    using c(4) by (intro linear_loop_cong) simp
  also have "\<dots> = Inr linear" using diagnose_linear_loop c(1) len by (simp add: linear_def)
  finally have "bindE (mapE ?shp (rev [1..<length is])) (\<lambda>rshs. Inr (wrap64 (row_major ix (rev rshs)))) = Inr linear"
    using linear_loop_row_major [OF len, of ?shp] by simp
  moreover have "v = load_elem (en_mem e) ptr' linear prim"
    unfolding d(7) linear_def by (rule staged_load [OF d(6)]) (fact c(5), fact c(6))
  ultimately show ?thesis
    using c(2,3) d(1,5) ix by (auto simp: external_read_value_def load_element_def result_simps)
qed

definition diagnosed :: "env \<Rightarrow> size_expr \<Rightarrow> eval_state \<Rightarrow> (int \<times> eval_state) result \<Rightarrow> bool" where
  "diagnosed e t st m \<longleftrightarrow> (\<forall>v st'. m = Inr (v, st') \<longrightarrow>
     es_bound st' = es_bound st \<and> cache_ok e (es_cache st') \<and>
     (0 \<le> v \<longrightarrow> size_value e t (es_bound st) = Inr v))"

text \<open>A loop that ends without a negative body value computed the maximum of them all.\<close>

lemma diagnose_loop_correct:
  assumes body: "\<And>i s v s'. P s \<Longrightarrow> body i s = Inr (v, s') \<Longrightarrow> P s' \<and> (0 \<le> v \<longrightarrow> val i = Inr v)"
  shows "P s \<Longrightarrow> diagnose_loop body n lo res s = Inr (v, s') \<Longrightarrow> 0 \<le> res \<Longrightarrow>
     P s' \<and> (0 \<le> v \<longrightarrow> bindE (mapE val [lo..lo + int n - 1]) (\<lambda>vs. Inr (Max (insert res (set vs)))) = Inr v)"
proof (induction n arbitrary: lo res s)
  case (Suc n)
  have up: "[lo..lo + int (Suc n) - 1] = lo # [lo + 1..lo + 1 + int n - 1]"
    by (subst upto_rec1) simp_all
  obtain x s1 where x: "body lo s = Inr (x, s1)" using Suc.prems(2) by (auto simp: result_simps)
  note b = body [OF Suc.prems(1) x]
  show ?case
  proof (cases "x < 0")
    case True
    then show ?thesis using Suc.prems(2) x b by auto
  next
    case False
    then have "diagnose_loop body n (lo + 1) (if res < x then x else res) s1 = Inr (v, s')"
      using Suc.prems(2) x by simp
    moreover have "Max (insert (if res < x then x else res) A) = Max (insert res (insert x A))"
      if "finite A" for A :: "int set"
      using that by (cases "A = {}") (auto simp: max_def)
    ultimately show ?thesis
      using Suc.IH [of s1 "lo + 1" "if res < x then x else res"] b False Suc.prems(3) up
      by (cases "mapE val [lo + 1..lo + 1 + int n - 1]") (auto simp: insert_commute)
  qed
qed simp

lemma diagnosedD:
  assumes "diagnosed e t st m" "m = Inr (v, st')"
  shows "es_bound st' = es_bound st" "cache_ok e (es_cache st')" "0 \<le> v \<Longrightarrow> size_value e t (es_bound st) = Inr v"
  using assms by (simp_all add: diagnosed_def)

lemma iteration_cap_ge: "2 ^ 24 \<le> max_over_range_iterations e"
  by (simp add: max_over_range_iterations_def split: option.split)

lemma diagnosed_binary:
  assumes A: "\<And>s. cache_ok e (es_cache s) \<Longrightarrow> diagnosed e a s (A s)"
    and B: "\<And>s. cache_ok e (es_cache s) \<Longrightarrow> diagnosed e b s (B s)" and ok: "cache_ok e (es_cache st)"
  shows "diagnosed e (Binary g a b) st (bindE (A st) (\<lambda>(x, st1). bindE (B st1) (\<lambda>(y, st2).
           Inr (diagnose_binary (bin_kind g) x y, st2))))" (is "diagnosed _ _ _ ?m")
  unfolding diagnosed_def
proof (intro allI impI)
  fix v st' assume "?m = Inr (v, st')"
  then obtain x st1 y where x: "A st = Inr (x, st1)" and y: "B st1 = Inr (y, st')"
      and v: "v = diagnose_binary (bin_kind g) x y"
    by (auto simp: result_simps)
  note a = diagnosedD [OF A [OF ok] x]
  note b = diagnosedD [OF B [OF a(2)] y]
  show "es_bound st' = es_bound st \<and> cache_ok e (es_cache st') \<and>
      (0 \<le> v \<longrightarrow> size_value e (Binary g a b) (es_bound st) = Inr v)"
    using a b v by (auto simp: diagnose_binary_def split: if_splits)
qed

text \<open>The range maximum, given operands and a body that are diagnosed.\<close>

definition diagnose_range ::
  "(eval_state \<Rightarrow> (int \<times> eval_state) result) \<Rightarrow> (eval_state \<Rightarrow> (int \<times> eval_state) result) \<Rightarrow>
   (eval_state \<Rightarrow> (int \<times> eval_state) result) \<Rightarrow> int \<Rightarrow> eval_state \<Rightarrow> (int \<times> eval_state) result" where
  "diagnose_range A B C v st =
     bindE (A st) (\<lambda>(begin, st1). bindE (B st1) (\<lambda>(end, st2).
       if begin < 0 \<or> end < 0 then Inr (-1, st2)
       else if begin < end \<and> 2 ^ 24 < wrap64 (end - begin) then Inr (-1, st2)
       else
         bindE (diagnose_loop (\<lambda>i s. C (s\<lparr>es_bound := (es_bound s)(v \<mapsto> i)\<rparr>)) (nat (end - begin)) begin 0 st2)
           (\<lambda>(res, st3). Inr (res, st3\<lparr>es_bound := (es_bound st3)(v := es_bound st2 v)\<rparr>))))"

lemma diagnosed_loop:
  assumes C: "\<And>s. cache_ok e (es_cache s) \<Longrightarrow> diagnosed e c s (C s)" and ok: "cache_ok e (es_cache st)"
    and lp: "diagnose_loop (\<lambda>i s. C (s\<lparr>es_bound := (es_bound s)(v \<mapsto> i)\<rparr>)) n lo 0 st = Inr (r, st')"
  shows "cache_ok e (es_cache st') \<and> (\<exists>x. es_bound st' = (es_bound st)(v := x)) \<and>
    (0 \<le> r \<longrightarrow> bindE (mapE (\<lambda>i. size_value e c ((es_bound st)(v \<mapsto> i))) [lo..lo + int n - 1])
       (\<lambda>vs. Inr (Max (insert 0 (set vs)))) = Inr r)"
proof -
  let ?P = "\<lambda>s. cache_ok e (es_cache s) \<and> (\<exists>x. es_bound s = (es_bound st)(v := x))"
  have "?P st' \<and> (0 \<le> r \<longrightarrow> bindE (mapE (\<lambda>i. size_value e c ((es_bound st)(v \<mapsto> i))) [lo..lo + int n - 1])
       (\<lambda>vs. Inr (Max (insert 0 (set vs)))) = Inr r)"
  proof (rule diagnose_loop_correct [OF _ _ lp])
    fix j s w s' assume s: "?P s" and bd: "C (s\<lparr>es_bound := (es_bound s)(v \<mapsto> j)\<rparr>) = Inr (w, s')"
    then obtain x where "es_bound s = (es_bound st)(v := x)" by blast
    then have "es_bound (s\<lparr>es_bound := (es_bound s)(v \<mapsto> j)\<rparr>) = (es_bound st)(v \<mapsto> j)" by simp
    with diagnosedD [OF C bd] s
    show "?P s' \<and> (0 \<le> w \<longrightarrow> size_value e c ((es_bound st)(v \<mapsto> j)) = Inr w)" by auto
  next
    show "?P st" using ok by (metis fun_upd_triv)
  qed simp
  then show ?thesis by blast
qed

lemma diagnosed_range:
  assumes A: "\<And>s. cache_ok e (es_cache s) \<Longrightarrow> diagnosed e a s (A s)"
    and B: "\<And>s. cache_ok e (es_cache s) \<Longrightarrow> diagnosed e b s (B s)"
    and C: "\<And>s. cache_ok e (es_cache s) \<Longrightarrow> diagnosed e c s (C s)" and ok: "cache_ok e (es_cache st)"
  shows "diagnosed e (MaxOverRange v a b c) st (diagnose_range A B C v st)"
  unfolding diagnosed_def
proof (intro allI impI)
  fix r st' assume ret: "diagnose_range A B C v st = Inr (r, st')"
  then obtain lo st1 hi st2 where lo: "A st = Inr (lo, st1)" and hi: "B st1 = Inr (hi, st2)"
    by (auto simp: diagnose_range_def result_simps)
  note a = diagnosedD [OF A [OF ok] lo]
  note b = diagnosedD [OF B [OF a(2)] hi]
  show "es_bound st' = es_bound st \<and> cache_ok e (es_cache st') \<and>
      (0 \<le> r \<longrightarrow> size_value e (MaxOverRange v a b c) (es_bound st) = Inr r)"
  proof (cases "lo < 0 \<or> hi < 0 \<or> (lo < hi \<and> 2 ^ 24 < wrap64 (hi - lo))")
    case True
    then have "r = -1" "st' = st2" using ret lo hi by (auto simp: diagnose_range_def split: if_splits)
    then show ?thesis using a b by simp
  next
    case False
    then obtain st3 where lp: "diagnose_loop (\<lambda>i s. C (s\<lparr>es_bound := (es_bound s)(v \<mapsto> i)\<rparr>)) (nat (hi - lo)) lo 0 st2 = Inr (r, st3)"
        and st': "st' = st3\<lparr>es_bound := (es_bound st3)(v := es_bound st2 v)\<rparr>"
      using ret lo hi by (auto simp: diagnose_range_def result_simps)
    have up: "[lo..lo + int (nat (hi - lo)) - 1] = [lo..hi - 1]" by (cases "lo \<le> hi") auto
    have "lo < hi \<Longrightarrow> \<not> max_over_range_iterations e < wrap64 (hi - lo)"
      using False iteration_cap_ge [of e] by auto
    then show ?thesis
      using diagnosed_loop [OF C b(2) lp] a b False st' unfolding up by (auto simp: guardE_def)
  qed
qed

text \<open>
  Whatever the diagnose evaluator resolves to a non-negative value is the meaning of the tree; it
  gives up (\<open>-1\<close>) in more cases than the host evaluator, but never answers differently.
\<close>

lemma evaluate_node_for_diagnose_sound:
  "represents ns i t \<Longrightarrow> snapshot_agrees e rd snap t \<Longrightarrow> cache_ok e (es_cache st) \<Longrightarrow>
   diagnosed e t st (evaluate_node_for_diagnose f ns i e rd snap st)"
proof (induction t arbitrary: f i st)
  case (Const c)
  then show ?case by (cases f) (auto simp: diagnosed_def Let_def)
next
  case (FieldLoad s ix)
  have "computes (eval_post e [FieldLoad s ix] st) (evaluate_field_load (node_at ns i) e st)
      (field_value e (es_bound st) s ix)"
    using FieldLoad by (intro evaluate_field_load_correct) auto
  then show ?case
    using FieldLoad by (cases f; cases "field_value e (es_bound st) s ix")
      (auto simp: diagnosed_def Let_def eval_post_def)
next
  case (BoundVariable v)
  then show ?case by (cases f) (auto simp: diagnosed_def Let_def split: option.splits)
next
  case (ExternalTensorShape p ax)
  then show ?case
    by (cases f) (auto simp: diagnosed_def Let_def split: list.splits option.splits if_splits)
next
  case (ExternalTensorRead p ix dt)
  then show ?case
    using diagnose_read_agrees [OF ExternalTensorRead.prems(2)]
    by (cases f) (auto simp: diagnosed_def Let_def resolve_indices_diagnose_eq
        simp del: snapshot_agrees.simps split: option.splits)
next
  case (Binary g a b)
  show ?case
  proof (cases f)
    case (Suc f')
    let ?ev = "\<lambda>j s. evaluate_node_for_diagnose f' ns j e rd snap s"
    have ev: "evaluate_node_for_diagnose f ns i e rd snap st =
        bindE (?ev (sn_operand_a (node_at ns i)) st) (\<lambda>(x, st1).
        bindE (?ev (sn_operand_b (node_at ns i)) st1) (\<lambda>(y, st2).
          Inr (diagnose_binary (bin_kind g) x y, st2)))"
      using Binary.prems Suc by (cases g) (simp_all add: Let_def)
    show ?thesis
      unfolding ev using Binary by (intro diagnosed_binary) auto
  qed (simp add: diagnosed_def)
next
  case (MaxOverRange v a b c)
  show ?case
  proof (cases f)
    case (Suc f')
    let ?ev = "\<lambda>j s. evaluate_node_for_diagnose f' ns j e rd snap s"
    have k: "in_range ns i" "sn_kind (node_at ns i) = 6" and v: "sn_var_id (node_at ns i) = v"
      using MaxOverRange.prems by simp_all
    have ev: "evaluate_node_for_diagnose f ns i e rd snap st =
        diagnose_range (?ev (sn_operand_a (node_at ns i))) (?ev (sn_operand_b (node_at ns i)))
          (?ev (sn_body_node_idx (node_at ns i))) (sn_var_id (node_at ns i)) st"
      using k Suc by (simp add: Let_def diagnose_range_def)
    show ?thesis
      unfolding ev v using MaxOverRange by (intro diagnosed_range) auto
  qed (simp add: diagnosed_def)
qed

text \<open>The classification in terms of what the stacks need.\<close>

lemma classify_bypass: "classify rs = DLPackBypass \<longleftrightarrow> (\<exists>r \<in> set rs. grew r)"
  by (auto simp: classify_def list_ex_iff)

lemma diagnose_sound:
  assumes "indices_fit t" "snapshot_agrees e rd snap t" "en_prog e \<noteq> None"
    and "evaluate_adstack_size_expr_for_diagnose (serialize t) e rd (Some snap) None = Inr (v, c)" "0 \<le> v"
  shows "size_value e t Map.empty = Inr v"
proof -
  let ?st = "\<lparr>es_bound = Map.empty, es_cache = None, es_reads = None\<rparr> :: eval_state"
  obtain st' where "evaluate_node_for_diagnose (eval_fuel (serialize t)) (serialize t)
      (int (length (serialize t)) - 1) e rd snap ?st = Inr (v, st')"
    using assms(3,4) by (auto simp: evaluate_adstack_size_expr_for_diagnose_def result_simps)
  moreover have "diagnosed e t ?st (evaluate_node_for_diagnose (eval_fuel (serialize t)) (serialize t)
      (int (length (serialize t)) - 1) e rd snap ?st)"
    using evaluate_node_for_diagnose_sound [OF serialize_represents [OF assms(1)] assms(2)]
    by (simp add: cache_ok_def)
  ultimately show ?thesis using diagnosedD(3) [of e t ?st] assms(5) by fastforce
qed

text \<open>A stale cache is only confirmed on the evidence of a stack whose re-evaluated bound exceeds its allocation.\<close>

lemma confirmed_has_evidence:
  assumes "diagnose_adstack_overflow task_id rg e rd snap key_of ac = Inr (d, ac')" "dx_confirmed_invalid_cache d"
  shows "\<exists>en rs. lookup_adstack_sizing_info task_id rg = Some en \<and>
    rerun_stacks e rd snap (zip (map key_of [0..<length (si_size_exprs en)])
      (zip (si_size_exprs en) (si_allocated_max_sizes en))) ac = Inr (rs, ac') \<and>
    (\<exists>r \<in> set rs. sr_known r \<and> sr_allocated r mod 2 ^ 64 < sr_required r)"
  using assms classify_bypass
  by (auto simp: diagnose_adstack_overflow_def result_simps Let_def grew_def split: option.splits if_splits)

end
