(* ===== verification/MaxReducer.thy ===== *)
theory MaxReducer
  imports SizeCache EncoderCorrect
begin

text \<open>
  The host side of the max-reducer (\<^verbatim>\<open>program/adstack/max_reducer.cpp\<close>): recognising range maxima
  whose bounds are closed and whose body a device kernel can evaluate, and substituting the
  dispatched results back into a serialised size expression. Recursion over a node vector takes
  fuel; the depth of a represented tree is enough, and running dry counts as not recognised.
\<close>

section \<open>Recognition\<close>

definition index_in_chain :: "int list \<Rightarrow> int \<Rightarrow> bool" where
  "index_in_chain var_ids raw \<longleftrightarrow> 0 \<le> raw \<or> - (raw + 1) \<in> set var_ids"

definition narrow_leaf :: "int \<Rightarrow> bool" where
  "narrow_leaf dt \<longleftrightarrow> prim_of_id (wrap32 dt) \<in> {Some I8, Some I16, Some I32, Some U8, Some U16, Some U32}"

fun max_reducer_body_is_recognizable :: "nat \<Rightarrow> ser_expr \<Rightarrow> int \<Rightarrow> int list \<Rightarrow> bool" where
  "max_reducer_body_is_recognizable 0 ns i var_ids \<longleftrightarrow> False"
| "max_reducer_body_is_recognizable (Suc f) ns i var_ids \<longleftrightarrow>
     in_range ns i \<and>
     (let n = node_at ns i in
      case kind_of (sn_kind n) of
        Some KConst \<Rightarrow> True
      | Some KExternalTensorRead \<Rightarrow>
          sn_indices n \<noteq> [] \<and> narrow_leaf (sn_const_value n) \<and> list_all (index_in_chain var_ids) (sn_indices n)
      | Some KExternalTensorShape \<Rightarrow> True
      | Some KFieldLoad \<Rightarrow> list_all (index_in_chain var_ids) (sn_indices n)
      | Some KMaxOverRange \<Rightarrow> False
      | Some KBoundVariable \<Rightarrow> False
      | Some _ \<Rightarrow> max_reducer_body_is_recognizable f ns (sn_operand_a n) var_ids \<and>
                  max_reducer_body_is_recognizable f ns (sn_operand_b n) var_ids
      | None \<Rightarrow> False)"

text \<open>
  The dependencies found are appended to an output vector as the walk goes, also when it fails
  later on.
\<close>

fun max_reducer_bound_is_closed :: "nat \<Rightarrow> ser_expr \<Rightarrow> int \<Rightarrow> int list \<Rightarrow> int list \<Rightarrow> bool \<times> int list" where
  "max_reducer_bound_is_closed 0 ns i captured deps = (False, deps)"
| "max_reducer_bound_is_closed (Suc f) ns i captured deps =
     (if \<not> in_range ns i then (False, deps)
      else
       (let n = node_at ns i in
        case kind_of (sn_kind n) of
          Some KConst \<Rightarrow> (True, deps)
        | Some KExternalTensorShape \<Rightarrow> (True, deps)
        | Some KMaxOverRange \<Rightarrow> if i \<in> set captured then (True, deps @ [i]) else (False, deps)
        | Some KFieldLoad \<Rightarrow> (False, deps)
        | Some KBoundVariable \<Rightarrow> (False, deps)
        | Some KExternalTensorRead \<Rightarrow> (False, deps)
        | Some _ \<Rightarrow>
            (let (ok, deps1) = max_reducer_bound_is_closed f ns (sn_operand_a n) captured deps
             in if ok then max_reducer_bound_is_closed f ns (sn_operand_b n) captured deps1 else (False, deps1))
        | None \<Rightarrow> (False, deps)))"

text \<open>\<^verbatim>\<open>StaticAdStackMaxReducerSpec\<close>.\<close>

record max_reducer_spec =
  ms_stack_id :: int
  ms_mor_node_idx :: int
  ms_body_node_idx :: int
  ms_axis_var_ids :: "int list"
  ms_axis_begin_node_idxs :: "int list"
  ms_axis_end_node_idxs :: "int list"
  ms_dependent_mor_node_idxs :: "int list"

text \<open>One captured layer: node, variable, begin and end.\<close>

type_synonym chain_axis = "int \<times> int \<times> int \<times> int"

text \<open>
  The greedy descent through nested range maxima with closed bounds. It returns the layers, the
  node it stopped at and the dependencies met, those of a layer that failed included. A node
  index outside the vector would be an out-of-bounds read; no represented tree has one.
\<close>

fun capture_chain ::
  "nat \<Rightarrow> ser_expr \<Rightarrow> int list \<Rightarrow> int \<Rightarrow> chain_axis list \<Rightarrow> int list \<Rightarrow> chain_axis list \<times> int \<times> int list" where
  "capture_chain 0 ns captured cur chain deps = (chain, cur, deps)"
| "capture_chain (Suc f) ns captured cur chain deps =
     (let n = node_at ns cur in
      if kind_of (sn_kind n) \<noteq> Some KMaxOverRange then (chain, cur, deps)
      else
        (let (ok_a, deps1) = max_reducer_bound_is_closed (eval_fuel ns) ns (sn_operand_a n) captured deps in
         if \<not> ok_a then (chain, cur, deps1)
         else
           (let (ok_b, deps2) = max_reducer_bound_is_closed (eval_fuel ns) ns (sn_operand_b n) captured deps1 in
            if \<not> ok_b then (chain, cur, deps2)
            else capture_chain f ns captured (sn_body_node_idx n)
                   (chain @ [(cur, sn_var_id n, sn_operand_a n, sn_operand_b n)]) deps2)))"

text \<open>The state of the walk over one stack's nodes: specs, captured nodes, absorbed nodes.\<close>

type_synonym recognizer_state = "max_reducer_spec list \<times> int list \<times> int list"

definition recognize_node :: "int \<Rightarrow> ser_expr \<Rightarrow> int \<Rightarrow> recognizer_state \<Rightarrow> recognizer_state" where
  "recognize_node stack_id ns n st =
     (case st of (specs, captured, absorbed) \<Rightarrow>
      if kind_of (sn_kind (node_at ns n)) \<noteq> Some KMaxOverRange \<or> n \<in> set absorbed then st
      else
        (let (chain, cur, deps) = capture_chain (eval_fuel ns) ns captured n [] [];
             var_ids = map (\<lambda>(_, v, _, _). v) chain
         in if chain = [] \<or> \<not> max_reducer_body_is_recognizable (eval_fuel ns) ns cur var_ids then st
            else
              (specs @ [\<lparr>ms_stack_id = stack_id, ms_mor_node_idx = fst (hd chain), ms_body_node_idx = cur,
                         ms_axis_var_ids = var_ids, ms_axis_begin_node_idxs = map (\<lambda>(_, _, b, _). b) chain,
                         ms_axis_end_node_idxs = map (\<lambda>(_, _, _, e). e) chain,
                         ms_dependent_mor_node_idxs = deps\<rparr>],
               captured @ [fst (hd chain)], absorbed @ map fst (tl chain))))"

definition recognize_stack :: "int \<Rightarrow> ser_expr \<Rightarrow> max_reducer_spec list \<Rightarrow> max_reducer_spec list" where
  "recognize_stack stack_id ns specs =
     fst (fold (recognize_node stack_id ns) (map int [0..<length ns]) (specs, [], []))"

definition recognize_adstack_max_reducer_specs :: "ser_expr list \<Rightarrow> max_reducer_spec list" where
  "recognize_adstack_max_reducer_specs size_exprs =
     fold (\<lambda>(stack_id, ns). recognize_stack stack_id ns) (zip (map int [0..<length size_exprs]) size_exprs) []"

section \<open>Substitution\<close>

definition substitute_node :: "max_reducer_results \<Rightarrow> nat \<Rightarrow> int \<Rightarrow> nat \<Rightarrow> ser_node \<Rightarrow> ser_node" where
  "substitute_node results registry_id stack_id n node =
     (if kind_of (sn_kind node) \<noteq> Some KMaxOverRange then node
      else case map_of results (pack_max_reducer_key registry_id stack_id (int n)) of
             None \<Rightarrow> node
           | Some v \<Rightarrow> node\<lparr>sn_kind := kind_code KConst, sn_const_value := v, sn_operand_a := -1,
                         sn_operand_b := -1, sn_body_node_idx := -1, sn_var_id := -1\<rparr>)"

definition substitute_precomputed_max_over_range ::
  "ser_expr \<Rightarrow> nat \<Rightarrow> int \<Rightarrow> max_reducer_results \<Rightarrow> ser_expr" where
  "substitute_precomputed_max_over_range ns registry_id stack_id results =
     (if results = [] then ns
      else if \<not> list_ex (\<lambda>(n, node). kind_of (sn_kind node) = Some KMaxOverRange \<and>
                map_of results (pack_max_reducer_key registry_id stack_id (int n)) \<noteq> None)
              (zip [0..<length ns] ns) then ns
      else map2 (substitute_node results registry_id stack_id) [0..<length ns] ns)"

section \<open>Substitution keeps the meaning\<close>

text \<open>The tree whose matched range maxima are replaced by constants.\<close>

fun substituted :: "(int \<Rightarrow> int option) \<Rightarrow> ser_expr \<Rightarrow> int \<Rightarrow> size_expr \<Rightarrow> size_expr" where
  "substituted r ns i (Binary f a b) =
     Binary f (substituted r ns (sn_operand_a (node_at ns i)) a) (substituted r ns (sn_operand_b (node_at ns i)) b)"
| "substituted r ns i (MaxOverRange v a b c) =
     (case r i of
        Some x \<Rightarrow> Const x
      | None \<Rightarrow> MaxOverRange v (substituted r ns (sn_operand_a (node_at ns i)) a)
                  (substituted r ns (sn_operand_b (node_at ns i)) b)
                  (substituted r ns (sn_body_node_idx (node_at ns i)) c))"
| "substituted r ns i t = t"

lemma substitute_alt:
  "substitute_precomputed_max_over_range ns registry_id stack_id results =
   map2 (substitute_node results registry_id stack_id) [0..<length ns] ns"
proof -
  let ?hit = "\<lambda>n node. kind_of (sn_kind node) = Some KMaxOverRange \<and>
    map_of results (pack_max_reducer_key registry_id stack_id (int n)) \<noteq> None"
  have id: "map2 (substitute_node results registry_id stack_id) [0..<length ns] ns = ns"
    if "results = [] \<or> (\<forall>n < length ns. \<not> ?hit n (ns ! n))"
    using that by (intro nth_equalityI) (auto simp: substitute_node_def)
  have miss: "\<forall>n < length ns. \<not> ?hit n (ns ! n)"
    if none: "\<not> list_ex (\<lambda>(n, node). ?hit n node) (zip [0..<length ns] ns)"
  proof (intro allI impI)
    fix n assume n: "n < length ns"
    then have "(n, ns ! n) \<in> set (zip [0..<length ns] ns)" by (auto simp: set_zip intro!: exI [of _ n])
    with none show "\<not> ?hit n (ns ! n)" unfolding list_ex_iff by fastforce
  qed
  show ?thesis
  proof (cases "results = [] \<or> \<not> list_ex (\<lambda>(n, node). ?hit n node) (zip [0..<length ns] ns)")
    case True
    then have "substitute_precomputed_max_over_range ns registry_id stack_id results = ns"
      unfolding substitute_precomputed_max_over_range_def by presburger
    moreover have "results = [] \<or> (\<forall>n < length ns. \<not> ?hit n (ns ! n))" using True miss by blast
    ultimately show ?thesis using id by presburger
  next
    case False
    then show ?thesis unfolding substitute_precomputed_max_over_range_def by presburger
  qed
qed

lemma length_substitute [simp]:
  "length (substitute_precomputed_max_over_range ns rid sid results) = length ns"
  by (simp add: substitute_alt)

lemma node_at_substitute:
  assumes "in_range ns i"
  shows "node_at (substitute_precomputed_max_over_range ns rid sid results) i =
    substitute_node results rid sid (nat i) (node_at ns i)"
  using assms by (simp add: substitute_alt node_at_def in_range_def nat_less_iff)

lemma in_range_substitute [simp]:
  "in_range (substitute_precomputed_max_over_range ns rid sid results) i = in_range ns i"
  by (simp add: in_range_def)

abbreviation matched :: "max_reducer_results \<Rightarrow> nat \<Rightarrow> int \<Rightarrow> int \<Rightarrow> int option" where
  "matched results rid sid i \<equiv> map_of results (pack_max_reducer_key rid sid i)"

lemma represents_substituted:
  "represents ns i t \<Longrightarrow>
   represents (substitute_precomputed_max_over_range ns rid sid results) i
     (substituted (matched results rid sid) ns i t)"
proof (induction t arbitrary: i)
  case (Binary f a b)
  then have r: "in_range ns i" using represents_in_range by blast
  with Binary show ?case
    by (cases f) (simp_all add: node_at_substitute [OF r] substitute_node_def)
next
  case (MaxOverRange v a b c)
  then have r: "in_range ns i" using represents_in_range by blast
  then have "int (nat i) = i" by (simp add: in_range_def)
  with MaxOverRange r show ?case
    by (auto simp: node_at_substitute [OF r] substitute_node_def leaf_slots_def split: option.split)
qed (use represents_in_range in \<open>fastforce simp: node_at_substitute substitute_node_def leaf_slots_def\<close>)+

text \<open>
  Dispatched results are right when each one is the value of its range maximum, whatever the
  bound variables around it.
\<close>

fun results_right :: "env \<Rightarrow> (int \<Rightarrow> int option) \<Rightarrow> ser_expr \<Rightarrow> int \<Rightarrow> size_expr \<Rightarrow> bool" where
  "results_right e r ns i (Binary f a b) \<longleftrightarrow>
     results_right e r ns (sn_operand_a (node_at ns i)) a \<and> results_right e r ns (sn_operand_b (node_at ns i)) b"
| "results_right e r ns i (MaxOverRange v a b c) \<longleftrightarrow>
     (case r i of
        Some x \<Rightarrow> \<forall>bv. size_value e (MaxOverRange v a b c) bv = Inr x
      | None \<Rightarrow> results_right e r ns (sn_operand_a (node_at ns i)) a \<and>
                results_right e r ns (sn_operand_b (node_at ns i)) b \<and>
                results_right e r ns (sn_body_node_idx (node_at ns i)) c)"
| "results_right e r ns i t \<longleftrightarrow> True"

lemma substituted_value:
  "results_right e r ns i t \<Longrightarrow> size_value e (substituted r ns i t) bv = size_value e t bv"
  by (induction t arbitrary: i bv) (auto split: option.splits simp del: fun_upd_apply)

section \<open>What is recognised is closed\<close>

fun body_grammar :: "int list \<Rightarrow> size_expr \<Rightarrow> bool" where
  "body_grammar vs (Binary f a b) \<longleftrightarrow> body_grammar vs a \<and> body_grammar vs b"
| "body_grammar vs (Const c) \<longleftrightarrow> True"
| "body_grammar vs (ExternalTensorShape p ax) \<longleftrightarrow> True"
| "body_grammar vs (ExternalTensorRead p is dt) \<longleftrightarrow>
     is \<noteq> [] \<and> narrow_leaf dt \<and> list_all (index_in_chain vs) is"
| "body_grammar vs (FieldLoad s is) \<longleftrightarrow> list_all (index_in_chain vs) is"
| "body_grammar vs t \<longleftrightarrow> False"

lemma body_is_recognizable_iff:
  "represents ns i t \<Longrightarrow> depth t < f \<Longrightarrow> max_reducer_body_is_recognizable f ns i vs = body_grammar vs t"
proof (induction t arbitrary: f i)
  case (Binary g a b)
  then show ?case by (cases f; cases g) (auto simp: Let_def)
qed (case_tac f; simp add: Let_def)+

lemma body_grammar_fv: "body_grammar vs t \<Longrightarrow> fv t \<subseteq> set vs"
  by (induction t) (auto simp: list_all_iff index_in_chain_def index_vars_def)

lemma bound_is_closed_deps:
  "max_reducer_bound_is_closed f ns i captured deps = (ok, deps') \<Longrightarrow> set deps' \<subseteq> set deps \<union> set captured"
  by (induction f ns i captured deps arbitrary: ok deps' rule: max_reducer_bound_is_closed.induct)
    (fastforce simp: Let_def split: if_splits option.splits size_kind.splits prod.splits)+

definition all_closed :: "ser_expr \<Rightarrow> int list \<Rightarrow> bool" where
  "all_closed ns captured \<longleftrightarrow> (\<forall>k \<in> set captured. \<forall>u. represents ns k u \<longrightarrow> fv u = {})"

lemma bound_is_closed_fv:
  "represents ns i t \<Longrightarrow> fst (max_reducer_bound_is_closed f ns i captured deps) \<Longrightarrow> all_closed ns captured \<Longrightarrow>
   fv t = {}"
proof (induction t arbitrary: f i deps)
  case (Binary g a b)
  then obtain f' where f: "f = Suc f'" by (cases f) auto
  obtain ok deps1 where a: "max_reducer_bound_is_closed f' ns (sn_operand_a (node_at ns i)) captured deps = (ok, deps1)"
    by fastforce
  then have "ok \<and> fst (max_reducer_bound_is_closed f' ns (sn_operand_b (node_at ns i)) captured deps1)"
    using Binary.prems f by (cases g) (auto simp: Let_def split: if_splits)
  then show ?case
    using Binary.IH(1) [of "sn_operand_a (node_at ns i)" f' deps]
      Binary.IH(2) [of "sn_operand_b (node_at ns i)" f' deps1] Binary.prems a by simp
next
  case (MaxOverRange v a b c)
  then have "i \<in> set captured" by (cases f) (auto simp: Let_def split: if_splits)
  then show ?case using MaxOverRange.prems(1,3) unfolding all_closed_def by blast
qed (case_tac f; simp add: Let_def)+

abbreviation axis_var :: "chain_axis \<Rightarrow> int" where
  "axis_var ax \<equiv> fst (snd ax)"

lemma capture_chain_fv:
  "capture_chain f ns captured cur chain deps = (chain', cur', deps') \<Longrightarrow> represents ns cur u \<Longrightarrow>
   all_closed ns captured \<Longrightarrow>
   (\<And>t. represents ns cur' t \<Longrightarrow> fv t \<subseteq> set (map axis_var chain')) \<Longrightarrow> fv u \<subseteq> set (map axis_var chain)"
proof (induction f arbitrary: cur chain deps u)
  case (Suc f)
  let ?n = "node_at ns cur"
  obtain oka d1 where a: "max_reducer_bound_is_closed (eval_fuel ns) ns (sn_operand_a ?n) captured deps = (oka, d1)"
    by fastforce
  obtain okb d2 where b: "max_reducer_bound_is_closed (eval_fuel ns) ns (sn_operand_b ?n) captured d1 = (okb, d2)"
    by fastforce
  show ?case
  proof (cases "kind_of (sn_kind ?n) = Some KMaxOverRange \<and> oka \<and> okb")
    case False
    then have "cur' = cur \<and> chain' = chain" using Suc.prems(1) a b by (auto simp: Let_def split: if_splits)
    then show ?thesis using Suc.prems(2,4) by simp
  next
    case True
    then obtain v ta tb tc where u: "u = MaxOverRange v ta tb tc"
      using Suc.prems(2) by (cases u) (auto, metis bin_kind.simps bin_op.exhaust kind_of_code option.inject size_kind.distinct)
    have rec: "capture_chain f ns captured (sn_body_node_idx ?n)
        (chain @ [(cur, v, sn_operand_a ?n, sn_operand_b ?n)]) d2 = (chain', cur', deps')"
      using Suc.prems(1,2) True a b u by (simp add: Let_def)
    have "fv tc \<subseteq> set (map axis_var (chain @ [(cur, v, sn_operand_a ?n, sn_operand_b ?n)]))"
      using Suc.IH [OF rec _ Suc.prems(3,4)] Suc.prems(2) u by simp
    moreover have "fv ta = {}" "fv tb = {}"
      using bound_is_closed_fv [of ns "sn_operand_a ?n" ta "eval_fuel ns" captured deps]
        bound_is_closed_fv [of ns "sn_operand_b ?n" tb "eval_fuel ns" captured d1]
        Suc.prems(2,3) u a b True by simp_all
    ultimately show ?thesis by (auto simp: u)
  qed
qed simp

lemma capture_chain_deps:
  "capture_chain f ns captured cur chain deps = (chain', cur', deps') \<Longrightarrow>
   set deps' \<subseteq> set deps \<union> set captured \<and> (\<exists>more. chain' = chain @ more)"
proof (induction f arbitrary: cur chain deps)
  case (Suc f)
  then show ?case
    by (fastforce simp: Let_def dest: bound_is_closed_deps split: if_splits prod.splits)
qed auto

text \<open>What a listed spec guarantees about its stack's expression.\<close>

definition spec_ok :: "ser_expr \<Rightarrow> max_reducer_spec \<Rightarrow> bool" where
  "spec_ok ns s \<longleftrightarrow>
     (\<forall>u. represents ns (ms_mor_node_idx s) u \<longrightarrow> fv u = {}) \<and>
     (\<forall>t. represents ns (ms_body_node_idx s) t \<longrightarrow> body_grammar (ms_axis_var_ids s) t) \<and>
     ms_axis_var_ids s \<noteq> [] \<and> length (ms_axis_begin_node_idxs s) = length (ms_axis_var_ids s) \<and>
     length (ms_axis_end_node_idxs s) = length (ms_axis_var_ids s)"

text \<open>
  \<open>in_order specs\<close>: a spec depends only on specs of the same stack listed before it, so
  dispatching in list order has every dependency's result at hand.
\<close>

fun in_order :: "max_reducer_spec list \<Rightarrow> max_reducer_spec list \<Rightarrow> bool" where
  "in_order before [] \<longleftrightarrow> True"
| "in_order before (s # ss) \<longleftrightarrow>
     (\<forall>d \<in> set (ms_dependent_mor_node_idxs s). \<exists>s' \<in> set before. ms_stack_id s' = ms_stack_id s \<and> ms_mor_node_idx s' = d) \<and>
     in_order (before @ [s]) ss"

lemma in_order_snoc:
  "in_order before (ss @ [s]) \<longleftrightarrow> in_order before ss \<and>
     (\<forall>d \<in> set (ms_dependent_mor_node_idxs s). \<exists>s' \<in> set (before @ ss). ms_stack_id s' = ms_stack_id s \<and> ms_mor_node_idx s' = d)"
  by (induction ss arbitrary: before) auto

text \<open>The walk over one stack: captured nodes are the roots of this stack's specs.\<close>

definition recognizer_inv :: "int \<Rightarrow> ser_expr \<Rightarrow> max_reducer_spec list \<Rightarrow> recognizer_state \<Rightarrow> bool" where
  "recognizer_inv stack_id ns old st \<longleftrightarrow>
     (case st of (specs, captured, absorbed) \<Rightarrow>
        in_order [] specs \<and>
        (\<exists>new. specs = old @ new \<and> captured = map ms_mor_node_idx new \<and>
           (\<forall>s \<in> set new. ms_stack_id s = stack_id \<and> spec_ok ns s)))"

lemma represents_fuel: "represents ns i t \<Longrightarrow> depth t < eval_fuel ns"
  using represents_depth [of ns i t] represents_in_range [of ns i t]
  by (auto simp: eval_fuel_def in_range_def)

lemma capture_chain_head:
  "capture_chain f ns captured cur chain deps = (chain', cur', deps') \<Longrightarrow> chain' \<noteq> chain \<Longrightarrow>
   \<exists>ax more. chain' = chain @ ax # more \<and> fst ax = cur"
proof (cases f)
  case (Suc f')
  assume *: "capture_chain f ns captured cur chain deps = (chain', cur', deps')" "chain' \<noteq> chain"
  let ?n = "node_at ns cur"
  have "\<exists>d. capture_chain f' ns captured (sn_body_node_idx ?n)
      (chain @ [(cur, sn_var_id ?n, sn_operand_a ?n, sn_operand_b ?n)]) d = (chain', cur', deps')"
    using * Suc by (auto simp: Let_def split: if_splits prod.splits)
  then show ?thesis using capture_chain_deps by fastforce
qed simp

lemma recognize_node_inv:
  assumes inv: "recognizer_inv stack_id ns old st"
  shows "recognizer_inv stack_id ns old (recognize_node stack_id ns n st)"
proof -
  obtain specs captured absorbed where st: "st = (specs, captured, absorbed)" by (cases st)
  obtain new where new: "specs = old @ new" "captured = map ms_mor_node_idx new" "in_order [] specs"
      "\<forall>s \<in> set new. ms_stack_id s = stack_id \<and> spec_ok ns s"
    using inv by (auto simp: recognizer_inv_def st)
  have closed: "all_closed ns captured" using new by (auto simp: all_closed_def spec_ok_def)
  obtain chain cur deps where cap: "capture_chain (eval_fuel ns) ns captured n [] [] = (chain, cur, deps)"
    by (metis prod_cases3)
  let ?vars = "map (\<lambda>(_, v, _, _). v) chain"
  let ?spec = "\<lparr>ms_stack_id = stack_id, ms_mor_node_idx = fst (hd chain), ms_body_node_idx = cur,
    ms_axis_var_ids = ?vars, ms_axis_begin_node_idxs = map (\<lambda>(_, _, b, _). b) chain,
    ms_axis_end_node_idxs = map (\<lambda>(_, _, _, e). e) chain, ms_dependent_mor_node_idxs = deps\<rparr>"
  show ?thesis
  proof (cases "kind_of (sn_kind (node_at ns n)) \<noteq> Some KMaxOverRange \<or> n \<in> set absorbed \<or> chain = [] \<or>
      \<not> max_reducer_body_is_recognizable (eval_fuel ns) ns cur ?vars")
    case True
    then have "recognize_node stack_id ns n st = st" using cap by (auto simp: recognize_node_def st Let_def)
    then show ?thesis using inv by simp
  next
    case False
    then have step: "recognize_node stack_id ns n st =
        (specs @ [?spec], captured @ [fst (hd chain)], absorbed @ map fst (tl chain))"
      using cap by (simp add: recognize_node_def st)
    have hd: "fst (hd chain) = n" using capture_chain_head [OF cap] False by auto
    have grammar: "body_grammar ?vars t" if "represents ns cur t" for t
      using False body_is_recognizable_iff [OF that represents_fuel [OF that]] by simp
    have vars: "map axis_var chain = ?vars" by auto
    have "fv t \<subseteq> set (map axis_var chain)" if "represents ns cur t" for t
      unfolding vars by (rule body_grammar_fv [OF grammar [OF that]])
    then have "fv u = {}" if "represents ns n u" for u
      using capture_chain_fv [OF cap that closed] by simp
    then have ok: "spec_ok ns ?spec" using grammar hd False by (simp add: spec_ok_def)
    have dep: "set deps \<subseteq> set captured" using capture_chain_deps [OF cap] by simp
    have "\<exists>s \<in> set ([] @ specs). ms_stack_id s = stack_id \<and> ms_mor_node_idx s = d" if d: "d \<in> set deps" for d
    proof -
      obtain s where "s \<in> set new" "ms_mor_node_idx s = d" using dep d new(2) by auto
      then show ?thesis using new(1,4) by auto
    qed
    then have "in_order [] (specs @ [?spec])" using new(3) unfolding in_order_snoc by simp
    then show ?thesis
      unfolding step recognizer_inv_def using new ok by (auto intro!: exI [of _ "new @ [?spec]"])
  qed
qed

lemma recognize_stack_inv:
  assumes "in_order [] specs"
  shows "in_order [] (recognize_stack stack_id ns specs) \<and>
    (\<exists>new. recognize_stack stack_id ns specs = specs @ new \<and>
       (\<forall>s \<in> set new. ms_stack_id s = stack_id \<and> spec_ok ns s))"
proof -
  have "recognizer_inv stack_id ns specs (fold (recognize_node stack_id ns) xs st)"
    if "recognizer_inv stack_id ns specs st" for xs st
    using that by (induction xs arbitrary: st) (simp_all add: recognize_node_inv del: split_paired_All)
  then have "recognizer_inv stack_id ns specs
      (fold (recognize_node stack_id ns) (map int [0..<length ns]) (specs, [], []))"
    using assms by (simp add: recognizer_inv_def)
  then show ?thesis by (auto simp: recognizer_inv_def recognize_stack_def split: prod.splits)
qed

lemma recognize_all_inv:
  "in_order [] specs \<Longrightarrow>
   in_order [] (fold (\<lambda>(sid, ns). recognize_stack sid ns) ps specs) \<and>
   (\<forall>s \<in> set (fold (\<lambda>(sid, ns). recognize_stack sid ns) ps specs).
      s \<in> set specs \<or> (\<exists>(sid, ns) \<in> set ps. ms_stack_id s = sid \<and> spec_ok ns s))"
proof (induction ps arbitrary: specs)
  case (Cons p ps)
  obtain sid ns where p: "p = (sid, ns)" by (cases p)
  from recognize_stack_inv [OF Cons.prems, of sid ns] obtain new
    where new: "in_order [] (recognize_stack sid ns specs)" "recognize_stack sid ns specs = specs @ new"
      "\<forall>s \<in> set new. ms_stack_id s = sid \<and> spec_ok ns s" by blast
  then show ?case using Cons.IH [OF new(1)] by (fastforce simp: p)
qed simp

theorem recognize_specs_ok:
  "in_order [] (recognize_adstack_max_reducer_specs es) \<and>
   (\<forall>s \<in> set (recognize_adstack_max_reducer_specs es).
      \<exists>k < length es. ms_stack_id s = int k \<and> spec_ok (es ! k) s)"
  using recognize_all_inv [of "[]" "zip (map int [0..<length es]) es"]
  by (fastforce simp: recognize_adstack_max_reducer_specs_def set_zip)

text \<open>A closed tree has one value, so a dispatched result can stand for it under any binding.\<close>

lemma closed_value: "fv t = {} \<Longrightarrow> size_value e t bv = size_value e t bv'"
  by (rule size_value_cong) simp

text \<open>Evaluating the substituted expression computes the meaning of the original one.\<close>

lemma readable_substituted: "readable e t \<Longrightarrow> readable e (substituted r ns i t)"
  by (induction t arbitrary: i) (auto split: option.split)

lemma evaluate_substituted:
  assumes "represents ns (int (length ns) - 1) t" "readable e t" "cache_ok e outer"
    and "results_right e (matched results rid sid) ns (int (length ns) - 1) t"
  shows "computes (\<lambda>c. cache_ok e c \<and> (c = None \<longleftrightarrow> outer = None))
           (evaluate_adstack_size_expr_no_cache (substitute_precomputed_max_over_range ns rid sid results) e outer)
           (size_value e t Map.empty)"
proof -
  let ?ns = "substitute_precomputed_max_over_range ns rid sid results"
  let ?t = "substituted (matched results rid sid) ns (int (length ns) - 1) t"
  have "represents ?ns (int (length ?ns) - 1) ?t" using represents_substituted [OF assms(1)] by simp
  from evaluate_root_correct [OF this assms(3), of "Some []"]
  have "computes (\<lambda>(c, rd). cache_ok e c \<and> (c = None \<longleftrightarrow> outer = None) \<and>
            (\<exists>os. rd = map_option (\<lambda>r. r @ os) (Some []) \<and> (Some [] \<noteq> None \<longrightarrow> recorded e os [?t])))
           (evaluate_root ?ns (int (length ?ns) - 1) e outer (Some [])) (size_value e ?t Map.empty)"
    using readable_substituted [OF assms(2)] by simp
  moreover have "ns \<noteq> []" using represents_in_range [OF assms(1)] by (auto simp: in_range_def)
  then have "?ns \<noteq> []" by (metis length_0_conv length_substitute)
  moreover have "size_value e ?t Map.empty = size_value e t Map.empty" by (rule substituted_value [OF assms(4)])
  ultimately show ?thesis
    by (cases "size_value e t Map.empty") (auto simp: evaluate_adstack_size_expr_no_cache_def)
qed

end
