(* ===== verification/MaxReduceRuntime.thy ===== *)
theory MaxReduceRuntime
  imports DeviceInterp
begin

text \<open>
  The device side of the max-reducer (\<^verbatim>\<open>runtime/llvm/runtime_module/adstack_runtime.cpp\<close>): the
  iterative post-order evaluator of a body, the decoding of a flat index into one value per axis,
  the grid-strided per-thread maximum and its reduction into the output slot by compare-and-swap,
  as interleaved steps of the threads.
\<close>

section \<open>The iterative body evaluator\<close>

definition eval_stack_depth :: nat where
  "eval_stack_depth = 32"

text \<open>
  The evaluation stack, top first. The source neither checks the 32 slots on a push nor the
  stack pointer on a pop; an access outside the array is an error value here.
\<close>

definition push_value :: "int \<Rightarrow> int list \<Rightarrow> int list result" where
  "push_value v st = guardE (length st < eval_stack_depth) EvalStackOverrun (Inr (v # st))"

definition pop_two :: "(int \<Rightarrow> int \<Rightarrow> int) \<Rightarrow> int list \<Rightarrow> int list result" where
  "pop_two h st = (case st of rhs # lhs # rest \<Rightarrow> push_value (h lhs rhs) rest | _ \<Rightarrow> Inl EvalStackUnderrun)"

definition body_step :: "dev_env \<Rightarrow> (int \<Rightarrow> int) \<Rightarrow> scope \<Rightarrow> dev_node \<Rightarrow> int list \<Rightarrow> int list result" where
  "body_step de indices sc node st =
     (if dn_kind node = kConst then push_value (dn_const_value node) st
      else if dn_kind node = kBoundVariable then
        push_value (if in_scope (dn_var_id node) then sc (dn_var_id node) else 0) st
      else if dn_kind node = kExternalTensorRead then
        (let data_ptr = load_uint (de_mem de) (de_arg_buffer de + dn_arg_buffer_offset node) 8;
             linear = device_linear indices sc (dn_indices_offset node) (nat (dn_indices_count node)) 0
         in push_value (device_load_element (de_mem de) data_ptr linear (dn_prim_dt node)) st)
      else if dn_kind node = kFieldLoad then
        (case de_roots de of
           None \<Rightarrow> push_value 0 st
         | Some roots \<Rightarrow>
             if dn_arg_buffer_offset node < 0 then push_value 0 st
             else
               (let root_ptr = roots (dn_arg_buffer_offset node);
                    elem_idx = device_linear indices sc (dn_indices_offset node)
                                 (nat (dn_indices_count node)) 0
                in push_value (device_load_element (de_mem de) (root_ptr + dn_const_value node) elem_idx
                     (dn_prim_dt node)) st))
      else if dn_kind node = kAdd then pop_two (\<lambda>x y. wrap64 (x + y)) st
      else if dn_kind node = kSub then
        pop_two (\<lambda>x y. let diff = wrap64 (x - y) in if 0 < diff then diff else 0) st
      else if dn_kind node = kMul then pop_two (\<lambda>x y. wrap64 (x * y)) st
      else if dn_kind node = kMax then pop_two (\<lambda>x y. if y < x then x else y) st
      else push_value 0 st)"

fun body_loop :: "dev_env \<Rightarrow> (int \<Rightarrow> dev_node) \<Rightarrow> (int \<Rightarrow> int) \<Rightarrow> scope \<Rightarrow> int \<Rightarrow> nat \<Rightarrow> int list \<Rightarrow> int list result" where
  "body_loop de nodes indices sc i 0 st = Inr st"
| "body_loop de nodes indices sc i (Suc n) st =
     bindE (body_step de indices sc (nodes i) st) (body_loop de nodes indices sc (i + 1) n)"

definition device_eval_max_reduce_body_iterative ::
  "dev_env \<Rightarrow> (int \<Rightarrow> dev_node) \<Rightarrow> (int \<Rightarrow> int) \<Rightarrow> nat \<Rightarrow> scope \<Rightarrow> int result" where
  "device_eval_max_reduce_body_iterative de nodes indices body_node_count sc =
     bindE (body_loop de nodes indices sc 0 body_node_count [])
       (\<lambda>st. Inr (case st of [] \<Rightarrow> 0 | v # _ \<Rightarrow> v))"

section \<open>One step of the reduction\<close>

text \<open>One captured axis: its length, first value and scope slot.\<close>

type_synonym axis = "nat \<times> int \<times> int"

definition axis_put :: "axis \<Rightarrow> nat \<Rightarrow> scope \<Rightarrow> scope" where
  "axis_put a k sc =
     (case a of (_, begin, var_id) \<Rightarrow> if in_scope var_id then sc(var_id := wrap64 (begin + int k)) else sc)"

text \<open>The axes from the innermost out: the remainder modulo each length is that axis's index.\<close>

fun decode_axes :: "axis list \<Rightarrow> nat \<Rightarrow> scope \<Rightarrow> scope" where
  "decode_axes [] rem sc = sc"
| "decode_axes (a # as) rem sc = decode_axes as (rem div fst a) (axis_put a (rem mod fst a) sc)"

definition runtime_eval_adstack_max_reduce_one_step ::
  "dev_env \<Rightarrow> (int \<Rightarrow> dev_node) \<Rightarrow> (int \<Rightarrow> int) \<Rightarrow> nat \<Rightarrow> axis list \<Rightarrow> nat \<Rightarrow> scope \<Rightarrow> (int \<times> scope) result" where
  "runtime_eval_adstack_max_reduce_one_step de nodes indices body_node_count axes i sc =
     (let sc' = decode_axes (rev axes) i sc
      in bindE (device_eval_max_reduce_body_iterative de nodes indices body_node_count sc')
           (\<lambda>v. Inr (v, sc')))"

section \<open>The kernel of one thread\<close>

definition int64_min :: int where
  "int64_min = - (2 ^ 63)"

definition max_reducer_max_axes :: nat where
  "max_reducer_max_axes = 8"

text \<open>\<open>None\<close> is the early return for no axes, too many axes or an empty one.\<close>

definition total_length :: "axis list \<Rightarrow> nat option" where
  "total_length axes =
     (if axes = [] \<or> max_reducer_max_axes < length axes \<or> 0 \<in> set (map fst axes) then None
      else Some (u64 (prod_list (map fst axes))))"

text \<open>The grid-strided loop of one thread; \<open>n\<close> bounds its iterations and \<open>i < tot\<close> guards them.\<close>

fun thread_loop ::
  "(nat \<Rightarrow> 's \<Rightarrow> (int \<times> 's) result) \<Rightarrow> nat \<Rightarrow> nat \<Rightarrow> nat \<Rightarrow> nat \<Rightarrow> int \<Rightarrow> 's \<Rightarrow> int result" where
  "thread_loop step tot stride 0 i running st = Inr running"
| "thread_loop step tot stride (Suc n) i running st =
     (if i < tot
      then bindE (step i st) (\<lambda>(v, st').
             thread_loop step tot stride n (i + stride) (if running < v then v else running) st')
      else Inr running)"

definition thread_max ::
  "dev_env \<Rightarrow> (int \<Rightarrow> dev_node) \<Rightarrow> (int \<Rightarrow> int) \<Rightarrow> nat \<Rightarrow> axis list \<Rightarrow> nat \<Rightarrow> nat \<Rightarrow> nat \<Rightarrow> int result" where
  "thread_max de nodes indices body_node_count axes tot stride tid =
     thread_loop (runtime_eval_adstack_max_reduce_one_step de nodes indices body_node_count axes)
       tot stride tot tid int64_min (\<lambda>_. 0)"

section \<open>Publishing by compare-and-swap\<close>

text \<open>
  A thread with a result other than the sentinel loads the slot, and while its own value is larger
  tries to swap it in for the value it last saw; a failed swap gives it the current one.
\<close>

datatype cas_state = NotStarted | Trying int | Finished

record cas_world =
  cw_slot :: int
  cw_threads :: "nat \<Rightarrow> cas_state"

fun cas_next :: "int \<Rightarrow> int \<Rightarrow> cas_state \<Rightarrow> int \<times> cas_state" where
  "cas_next running slot NotStarted = (slot, if running \<noteq> int64_min then Trying slot else Finished)"
| "cas_next running slot (Trying old) =
     (if old < running
      then if slot = old then (running, Finished) else (slot, Trying slot)
      else (slot, Finished))"
| "cas_next running slot Finished = (slot, Finished)"

definition cas_step :: "(nat \<Rightarrow> int) \<Rightarrow> nat \<Rightarrow> cas_world \<Rightarrow> cas_world" where
  "cas_step running t w =
     (case cas_next (running t) (cw_slot w) (cw_threads w t) of
        (slot, s) \<Rightarrow> \<lparr>cw_slot = slot, cw_threads = (cw_threads w)(t := s)\<rparr>)"

inductive cas_run :: "nat \<Rightarrow> (nat \<Rightarrow> int) \<Rightarrow> cas_world \<Rightarrow> cas_world \<Rightarrow> bool" for num running where
  stop: "cas_run num running w w"
| step: "t < num \<Longrightarrow> cw_threads w t \<noteq> Finished \<Longrightarrow> cas_run num running (cas_step running t w) w' \<Longrightarrow>
    cas_run num running w w'"

section \<open>The iterative evaluator is the recursive one\<close>

definition binary_kind :: "int \<Rightarrow> bool" where
  "binary_kind k \<longleftrightarrow> k \<in> {kAdd, kSub, kMul, kMax}"

text \<open>
  \<open>post_order nodes lo hi d\<close>: the nodes from \<open>lo\<close> to \<open>hi\<close> are a tree in post-order with its root at
  \<open>hi\<close> and no range maximum in it, and \<open>d\<close> stack slots evaluate it.
\<close>

inductive post_order :: "(int \<Rightarrow> dev_node) \<Rightarrow> int \<Rightarrow> int \<Rightarrow> nat \<Rightarrow> bool" for nodes where
  leaf: "\<not> binary_kind (dn_kind (nodes i)) \<Longrightarrow> dn_kind (nodes i) \<noteq> kMaxOverRange \<Longrightarrow>
    post_order nodes i i 1"
| binary: "post_order nodes lo (dn_operand_a (nodes hi)) d1 \<Longrightarrow>
    post_order nodes (dn_operand_a (nodes hi) + 1) (hi - 1) d2 \<Longrightarrow> dn_operand_b (nodes hi) = hi - 1 \<Longrightarrow>
    binary_kind (dn_kind (nodes hi)) \<Longrightarrow> post_order nodes lo hi (max d1 (Suc d2))"

lemma post_order_le: "post_order nodes lo hi d \<Longrightarrow> lo \<le> hi \<and> 0 < d"
  by (induction rule: post_order.induct) auto

lemma body_loop_append:
  "body_loop de nodes indices sc i (m + n) st =
   bindE (body_loop de nodes indices sc i m st) (body_loop de nodes indices sc (i + int m) n)"
proof (induction m arbitrary: i st)
  case (Suc m)
  then show ?case by (cases "body_step de indices sc (nodes i) st") (simp_all add: algebra_simps)
qed simp

lemma body_step_leaf:
  assumes "\<not> binary_kind (dn_kind (nodes i))" "dn_kind (nodes i) \<noteq> kMaxOverRange"
    and "length st < eval_stack_depth"
  shows "\<exists>v. body_step de indices sc (nodes i) st = Inr (v # st) \<and>
     (\<forall>f. device_eval_node (Suc f) de nodes indices i sc = Inr (v, sc))"
  using assms
  by (simp add: body_step_def push_value_def binary_kind_def Let_def split: option.split)

lemma body_step_binary:
  assumes "binary_kind (dn_kind (nodes i))" "length rest < eval_stack_depth"
    and "device_eval_node f de nodes indices (dn_operand_a (nodes i)) sc = Inr (x, sc)"
    and "device_eval_node f de nodes indices (dn_operand_b (nodes i)) sc = Inr (y, sc)"
  shows "\<exists>v. body_step de indices sc (nodes i) (y # x # rest) = Inr (v # rest) \<and>
     device_eval_node (Suc f) de nodes indices i sc = Inr (v, sc)"
  using assms
  by (auto simp: body_step_def pop_two_def push_value_def binary_kind_def device_kind_defs Let_def)

text \<open>Running the nodes of a tree pushes its value, the one the recursive evaluator returns.\<close>

lemma body_loop_post_order:
  assumes "post_order nodes lo hi d" "length st + d \<le> eval_stack_depth"
  shows "\<exists>v. body_loop de nodes indices sc lo (nat (hi - lo + 1)) st = Inr (v # st) \<and>
     (\<exists>n \<le> nat (hi - lo + 1). \<forall>f \<ge> n. device_eval_node f de nodes indices hi sc = Inr (v, sc))"
  using assms
proof (induction arbitrary: st rule: post_order.induct)
  case (leaf i)
  then have "length st < eval_stack_depth" by simp
  with leaf.hyps obtain v where v: "body_step de indices sc (nodes i) st = Inr (v # st)"
      "\<forall>f. device_eval_node (Suc f) de nodes indices i sc = Inr (v, sc)"
    using body_step_leaf [of nodes i st] by blast
  have "\<forall>f \<ge> 1. device_eval_node f de nodes indices i sc = Inr (v, sc)"
    using v(2) by (metis Suc_le_D One_nat_def)
  then show ?case using v(1) by auto
next
  case (binary lo hi d1 d2)
  let ?a = "dn_operand_a (nodes hi)"
  have le: "lo \<le> ?a" "?a + 1 \<le> hi - 1" using binary.hyps(1,2) [THEN post_order_le] by auto
  have fits: "length st + d1 \<le> eval_stack_depth" "length (x # st) + d2 \<le> eval_stack_depth" for x
    using binary.prems by simp_all
  obtain x n1 where x: "body_loop de nodes indices sc lo (nat (?a - lo + 1)) st = Inr (x # st)"
      "n1 \<le> nat (?a - lo + 1)" "\<forall>f \<ge> n1. device_eval_node f de nodes indices ?a sc = Inr (x, sc)"
    using binary.IH(1) [OF fits(1)] by blast
  obtain y n2 where y: "body_loop de nodes indices sc (?a + 1) (nat (hi - 1 - (?a + 1) + 1)) (x # st) = Inr (y # x # st)"
      "n2 \<le> nat (hi - 1 - (?a + 1) + 1)" "\<forall>f \<ge> n2. device_eval_node f de nodes indices (hi - 1) sc = Inr (y, sc)"
    using binary.IH(2) [OF fits(2)] by blast
  have root: "\<exists>v. body_step de indices sc (nodes hi) (y # x # st) = Inr (v # st) \<and>
      device_eval_node (Suc f) de nodes indices hi sc = Inr (v, sc)" if "max n1 n2 \<le> f" for f
  proof (rule body_step_binary [where nodes = nodes and i = hi])
    show "length st < eval_stack_depth" using fits(2) by simp
  qed (use x(3) y(3) binary.hyps that in auto)
  then obtain v where v: "body_step de indices sc (nodes hi) (y # x # st) = Inr (v # st)" by blast
  have cnt: "nat (hi - lo + 1) = nat (?a - lo + 1) + (nat (hi - 1 - (?a + 1) + 1) + 1)"
    and at: "lo + int (nat (?a - lo + 1)) = ?a + 1" "?a + 1 + int (nat (hi - 1 - (?a + 1) + 1)) = hi"
    using le by auto
  have "body_loop de nodes indices sc hi 1 (y # x # st) = Inr (v # st)" using v by simp
  then have "body_loop de nodes indices sc lo (nat (hi - lo + 1)) st = Inr (v # st)"
    unfolding cnt by (simp only: body_loop_append x(1) y(1) at bindE_simps)
  moreover have "\<forall>f \<ge> Suc (max n1 n2). device_eval_node f de nodes indices hi sc = Inr (v, sc)"
    using root v by (metis Inr_inject Suc_le_D Suc_le_mono list.inject)
  moreover have "Suc (max n1 n2) \<le> nat (hi - lo + 1)" using x(2) y(2) le by auto
  ultimately show ?case by blast
qed

text \<open>
  For a body in post-order that fits the 32 slots, the iterative evaluator returns what the
  recursive \<^verbatim>\<open>device_eval_node\<close> returns at the root, with as much fuel as there are nodes.
\<close>

lemma iterative_eq_recursive:
  assumes "post_order nodes 0 (int n - 1) d" "d \<le> eval_stack_depth" "n \<le> f"
  shows "\<exists>v. device_eval_max_reduce_body_iterative de nodes indices n sc = Inr v \<and>
     device_eval_node f de nodes indices (int n - 1) sc = Inr (v, sc)"
proof -
  have n: "nat (int n - 1 - 0 + 1) = n" by simp
  obtain v m where v: "body_loop de nodes indices sc 0 n [] = Inr [v]" "m \<le> n"
      "\<forall>f \<ge> m. device_eval_node f de nodes indices (int n - 1) sc = Inr (v, sc)"
    using body_loop_post_order [OF assms(1), of "[]" de indices sc] assms(2) unfolding n by auto
  then show ?thesis
    using assms(3) by (auto simp: device_eval_max_reduce_body_iterative_def)
qed

section \<open>The cross product\<close>

text \<open>
  The values a scope takes over the cross product of the axes, given as nested loops with the
  first axis innermost, and the flat indices that the kernel counts through instead.
\<close>

fun axis_scopes :: "axis list \<Rightarrow> scope \<Rightarrow> scope set" where
  "axis_scopes [] sc = {sc}"
| "axis_scopes (a # as) sc = (\<Union>k < fst a. axis_scopes as (axis_put a k sc))"

lemma decode_axes_range:
  "0 \<notin> set (map fst as) \<Longrightarrow> (\<lambda>i. decode_axes as i sc) ` {..< prod_list (map fst as)} = axis_scopes as sc"
proof (induction as arbitrary: sc)
  case (Cons a as)
  let ?n = "fst a" and ?p = "prod_list (map fst as)"
  have n: "0 < ?n" using Cons.prems by auto
  have "(\<lambda>i. decode_axes (a # as) i sc) ` {..< ?n * ?p} =
      (\<Union>k < ?n. (\<lambda>j. decode_axes as j (axis_put a k sc)) ` {..< ?p})" (is "?L = ?R")
  proof (intro equalityI subsetI)
    fix s assume "s \<in> ?L"
    then obtain i where i: "i < ?n * ?p" "s = decode_axes (a # as) i sc" by auto
    then have "i div ?n < ?p" by (simp add: less_mult_imp_div_less mult.commute)
    then show "s \<in> ?R" using i(2) n by (intro UN_I [of "i mod ?n"]) auto
  next
    fix s assume "s \<in> ?R"
    then obtain k j where kj: "k < ?n" "j < ?p" "s = decode_axes as j (axis_put a k sc)" by auto
    let ?i = "j * ?n + k"
    have "?i < ?n * ?p"
    proof -
      have "?i < j * ?n + ?n" using kj(1) by simp
      also have "\<dots> = Suc j * ?n" by simp
      also have "\<dots> \<le> ?p * ?n" using kj(2) by (intro mult_le_mono1) simp
      finally show ?thesis by (simp add: mult.commute)
    qed
    moreover have "s = decode_axes (a # as) ?i sc" using kj n by simp
    ultimately show "s \<in> ?L" by blast
  qed
  then show ?case using Cons by simp
qed auto

section \<open>One thread\<close>

lemma thread_loop_correct:
  assumes step: "\<And>i s. i < tot \<Longrightarrow> P s \<Longrightarrow> \<exists>s'. step i s = Inr (val i, s') \<and> P s'" and "0 < stride"
  shows "P s \<Longrightarrow> tot \<le> i + n * stride \<Longrightarrow>
     thread_loop step tot stride n i running s =
     Inr (Max (insert running (val ` {j. j < tot \<and> (\<exists>m. j = i + m * stride)})))"
proof (induction n arbitrary: i running s)
  case 0
  then have "{j. j < tot \<and> (\<exists>m. j = i + m * stride)} = {}" by auto
  then show ?case by (simp only: thread_loop.simps image_empty) simp
next
  case (Suc n)
  show ?case
  proof (cases "i < tot")
    case True
    obtain s' where s': "step i s = Inr (val i, s')" "P s'" using step [OF True Suc.prems(1)] by blast
    let ?J = "\<lambda>i. {j. j < tot \<and> (\<exists>m. j = i + m * stride)}"
    have J: "?J i = insert i (?J (i + stride))"
    proof (intro equalityI subsetI)
      fix j assume "j \<in> ?J i"
      then obtain m where m: "j < tot" "j = i + m * stride" by auto
      then show "j \<in> insert i (?J (i + stride))"
        by (cases m) (auto simp: algebra_simps intro: exI)
    next
      fix j assume "j \<in> insert i (?J (i + stride))"
      then show "j \<in> ?J i"
      proof
        assume "j = i" then show ?thesis using True by (auto intro: exI [of _ 0])
      next
        assume "j \<in> ?J (i + stride)"
        then obtain m where "j < tot" "j = i + stride + m * stride" by auto
        then have "j < tot" "j = i + Suc m * stride" by auto
        then show ?thesis by blast
      qed
    qed
    have fin: "finite (val ` ?J (i + stride))" by (intro finite_imageI) simp
    have "Max (insert (if running < val i then val i else running) A) = Max (insert running (insert (val i) A))"
      if "finite A" for A :: "int set"
      using that by (cases "A = {}") (auto simp: max_def)
    then have "Max (insert running (val ` ?J i)) =
        Max (insert (if running < val i then val i else running) (val ` ?J (i + stride)))"
      unfolding J image_insert using fin by simp
    moreover have "tot \<le> i + stride + n * stride" using Suc.prems(2) by simp
    ultimately show ?thesis
      using Suc.IH [OF s'(2), of "i + stride" "if running < val i then val i else running"] True s'(1)
      by simp
  next
    case False
    then have "{j. j < tot \<and> (\<exists>m. j = i + m * stride)} = {}" by auto
    then show ?thesis using False by (simp only: thread_loop.simps image_empty if_False) simp
  qed
qed

section \<open>All threads\<close>

text \<open>
  Whatever the interleaving, the slot only grows, never passes the largest value at hand, and a
  finished thread's value is accounted for.
\<close>

fun cas_thread_ok :: "int \<Rightarrow> int \<Rightarrow> cas_state \<Rightarrow> bool" where
  "cas_thread_ok running slot NotStarted \<longleftrightarrow> True"
| "cas_thread_ok running slot (Trying old) \<longleftrightarrow> old \<le> slot"
| "cas_thread_ok running slot Finished \<longleftrightarrow> running \<le> slot"

definition cas_inv :: "nat \<Rightarrow> (nat \<Rightarrow> int) \<Rightarrow> int \<Rightarrow> cas_world \<Rightarrow> bool" where
  "cas_inv num running init w \<longleftrightarrow>
     cw_slot w \<in> insert init (running ` {..< num}) \<and> init \<le> cw_slot w \<and>
     (\<forall>t < num. cas_thread_ok (running t) (cw_slot w) (cw_threads w t))"

lemma cas_thread_ok_mono: "cas_thread_ok r slot s \<Longrightarrow> slot \<le> slot' \<Longrightarrow> cas_thread_ok r slot' s"
  by (cases s) auto

lemma cas_next_ok:
  assumes "cas_next r slot s = (slot', s')" "cas_thread_ok r slot s" "int64_min \<le> slot"
  shows "(slot' = slot \<or> slot' = r) \<and> slot \<le> slot' \<and> cas_thread_ok r slot' s'"
  using assms by (cases s) (auto split: if_splits)

lemma cas_step_inv:
  assumes "cas_inv num running int64_min w" "t < num"
  shows "cas_inv num running int64_min (cas_step running t w)"
proof -
  obtain slot s where n: "cas_next (running t) (cw_slot w) (cw_threads w t) = (slot, s)" by fastforce
  have w': "cas_step running t w = \<lparr>cw_slot = slot, cw_threads = (cw_threads w)(t := s)\<rparr>"
    by (simp add: cas_step_def n)
  have ok: "slot = cw_slot w \<or> slot = running t" "cw_slot w \<le> slot" "cas_thread_ok (running t) slot s"
    using cas_next_ok [OF n] assms by (auto simp: cas_inv_def)
  have "cas_thread_ok (running u) slot (cw_threads w u)" if "u < num" for u
    using assms(1) that ok(2) cas_thread_ok_mono by (auto simp: cas_inv_def)
  then show ?thesis using assms ok unfolding w' cas_inv_def by auto
qed

lemma cas_run_inv:
  assumes "cas_run num running w w'" "cas_inv num running int64_min w"
  shows "cas_inv num running int64_min w'"
  using assms by (induction rule: cas_run.induct) (auto intro: cas_step_inv)

definition cas_start :: "int \<Rightarrow> cas_world" where
  "cas_start init = \<lparr>cw_slot = init, cw_threads = (\<lambda>_. NotStarted)\<rparr>"

lemma cas_final:
  assumes "cas_run num running (cas_start int64_min) w" "\<forall>t < num. cw_threads w t = Finished"
  shows "cw_slot w = Max (insert int64_min (running ` {..< num}))"
proof -
  have "cas_inv num running int64_min (cas_start int64_min)" by (simp add: cas_inv_def cas_start_def)
  from cas_run_inv [OF assms(1) this] have inv: "cas_inv num running int64_min w" .
  show ?thesis
  proof (rule Max_eqI [symmetric])
    show "cw_slot w \<in> insert int64_min (running ` {..<num})" using inv by (simp add: cas_inv_def)
    fix y assume "y \<in> insert int64_min (running ` {..<num})"
    then show "y \<le> cw_slot w" using inv assms(2) by (fastforce simp: cas_inv_def)
  qed simp
qed

text \<open>
  The swap loops end: a step either finishes a thread or brings one up to date, and only a step
  that finishes a thread puts the others behind.
\<close>

definition behind :: "cas_world \<Rightarrow> nat \<Rightarrow> bool" where
  "behind w t \<longleftrightarrow> cw_threads w t = NotStarted \<or> (\<exists>old. cw_threads w t = Trying old \<and> old \<noteq> cw_slot w)"

definition cas_measure :: "nat \<Rightarrow> cas_world \<Rightarrow> nat \<times> nat" where
  "cas_measure num w = (card {t. t < num \<and> cw_threads w t \<noteq> Finished}, card {t. t < num \<and> behind w t})"

lemma cas_step_measure:
  assumes "t < num" "cw_threads w t \<noteq> Finished"
  shows "(cas_measure num (cas_step running t w), cas_measure num w) \<in> less_than <*lex*> less_than"
proof (cases "cw_threads (cas_step running t w) t = Finished")
  case True
  have left: "{u. u < num \<and> cw_threads (cas_step running t w) u \<noteq> Finished} =
      {u. u < num \<and> cw_threads w u \<noteq> Finished} - {t}"
    using True by (auto simp: cas_step_def split: prod.splits if_splits)
  have "card {u. u < num \<and> cw_threads (cas_step running t w) u \<noteq> Finished} <
      card {u. u < num \<and> cw_threads w u \<noteq> Finished}"
    unfolding left by (rule card_Diff1_less) (simp_all add: assms)
  then show ?thesis by (simp add: cas_measure_def)
next
  case False
  then have st: "cas_step running t w = w\<lparr>cw_threads := (cw_threads w)(t := Trying (cw_slot w))\<rparr>" "behind w t"
    using assms(2) by (cases "cw_threads w t"; auto simp: cas_step_def behind_def split: if_splits)+
  have "{u. u < num \<and> cw_threads (cas_step running t w) u \<noteq> Finished} =
      {u. u < num \<and> cw_threads w u \<noteq> Finished}"
    using assms by (auto simp: st(1))
  moreover have late: "{u. u < num \<and> behind (cas_step running t w) u} = {u. u < num \<and> behind w u} - {t}"
    by (auto simp: st(1) behind_def)
  have "card {u. u < num \<and> behind (cas_step running t w) u} < card {u. u < num \<and> behind w u}"
    unfolding late by (rule card_Diff1_less) (simp_all add: assms(1) st(2))
  with calculation show ?thesis by (simp add: cas_measure_def)
qed

text \<open>From any state some run reaches the end, and no run is infinite.\<close>

lemma cas_finishes:
  "\<exists>w'. cas_run num running w w' \<and> (\<forall>t < num. cw_threads w' t = Finished)"
proof (induction w rule: wf_induct [OF wf_inv_image [OF wf_lex_prod [OF wf_less_than wf_less_than], of "cas_measure num"]])
  case (1 w)
  show ?case
  proof (cases "\<forall>t < num. cw_threads w t = Finished")
    case True
    then show ?thesis using cas_run.stop by blast
  next
    case False
    then obtain t where t: "t < num" "cw_threads w t \<noteq> Finished" by blast
    then have "(cas_step running t w, w) \<in> inv_image (less_than <*lex*> less_than) (cas_measure num)"
      using cas_step_measure by (simp add: inv_image_def)
    then obtain w' where "cas_run num running (cas_step running t w) w'" "\<forall>t < num. cw_threads w' t = Finished"
      using 1 by blast
    then show ?thesis using t cas_run.step by blast
  qed
qed

section \<open>The whole reduction\<close>

text \<open>A thread's scope keeps the last iteration's axis values; the next iteration overwrites them all.\<close>

definition axis_vars :: "axis list \<Rightarrow> int set" where
  "axis_vars as = set (map (\<lambda>(_, _, v). v) as)"

lemma decode_axes_agree:
  "(\<And>v. v \<notin> axis_vars as \<Longrightarrow> s v = s' v) \<Longrightarrow> (\<And>v. \<not> in_scope v \<Longrightarrow> s v = s' v) \<Longrightarrow>
   decode_axes as i s = decode_axes as i s'"
proof (induction as arbitrary: i s s')
  case (Cons a as)
  obtain n b v where a: "a = (n, b, v)" by (cases a)
  show ?case
    unfolding decode_axes.simps
    by (rule Cons.IH) (use Cons.prems in \<open>auto simp: a axis_put_def axis_vars_def\<close>)
qed (auto simp: axis_vars_def)

lemma decode_axes_outside:
  "v \<notin> axis_vars as \<or> \<not> in_scope v \<Longrightarrow> decode_axes as i s v = s v"
  by (induction as arbitrary: i s) (auto simp: axis_put_def axis_vars_def split: prod.splits)

text \<open>The value of a body, read off the recursive evaluator.\<close>

definition body_value :: "dev_env \<Rightarrow> (int \<Rightarrow> dev_node) \<Rightarrow> (int \<Rightarrow> int) \<Rightarrow> nat \<Rightarrow> scope \<Rightarrow> int" where
  "body_value de nodes indices n sc =
     (case device_eval_node n de nodes indices (int n - 1) sc of Inl _ \<Rightarrow> 0 | Inr (v, _) \<Rightarrow> v)"

lemma body_iterative_value:
  assumes "post_order nodes 0 (int n - 1) d" "d \<le> eval_stack_depth"
  shows "device_eval_max_reduce_body_iterative de nodes indices n sc = Inr (body_value de nodes indices n sc)"
  using iterative_eq_recursive [OF assms order_refl, of de indices sc] by (auto simp: body_value_def)

lemma thread_max_value:
  assumes body: "post_order nodes 0 (int n - 1) d" "d \<le> eval_stack_depth" and "0 < stride"
  shows "thread_max de nodes indices n axes tot stride tid =
     Inr (Max (insert int64_min ((\<lambda>i. body_value de nodes indices n (decode_axes (rev axes) i (\<lambda>_. 0))) `
       {j. j < tot \<and> (\<exists>m. j = tid + m * stride)})))"
  unfolding thread_max_def
proof (rule thread_loop_correct [where P = "\<lambda>s. \<forall>v. v \<notin> axis_vars axes \<or> \<not> in_scope v \<longrightarrow> s v = 0"])
  fix i and s :: scope assume s: "\<forall>v. v \<notin> axis_vars axes \<or> \<not> in_scope v \<longrightarrow> s v = 0"
  have rev: "axis_vars (rev axes) = axis_vars axes" by (simp add: axis_vars_def)
  have eq: "decode_axes (rev axes) i s = decode_axes (rev axes) i (\<lambda>_. 0)"
    by (rule decode_axes_agree) (use s in \<open>simp_all add: rev\<close>)
  show "\<exists>s'. runtime_eval_adstack_max_reduce_one_step de nodes indices n axes i s =
      Inr (body_value de nodes indices n (decode_axes (rev axes) i (\<lambda>_. 0)), s') \<and>
      (\<forall>v. v \<notin> axis_vars axes \<or> \<not> in_scope v \<longrightarrow> s' v = 0)"
    using body_iterative_value [OF body] decode_axes_outside [of _ "rev axes"]
    by (simp add: runtime_eval_adstack_max_reduce_one_step_def eq rev Let_def)
next
  show "tot \<le> tid + tot * stride" using assms(3) by (cases stride) auto
qed (use assms(3) in auto)

lemma Max_union_threads:
  fixes f :: "nat \<Rightarrow> int"
  assumes "0 < num"
  shows "Max (insert m ((\<lambda>t. Max (insert m (f ` {j. j < tot \<and> (\<exists>k. j = t + k * num)}))) ` {..< num})) =
    Max (insert m (f ` {..< tot}))" (is "?L = ?R")
proof (rule antisym)
  show "?L \<le> ?R" by (auto intro!: Max.boundedI Max_ge)
  show "?R \<le> ?L"
  proof (rule Max.boundedI)
    fix y assume "y \<in> insert m (f ` {..<tot})"
    then consider "y = m" | j where "j < tot" "y = f j" by auto
    then show "y \<le> ?L"
    proof cases
      case (2 j)
      let ?J = "\<lambda>t. {j. j < tot \<and> (\<exists>k. j = t + k * num)}"
      have "j = j mod num + (j div num) * num" by simp
      then have "j \<in> ?J (j mod num)" using 2 by blast
      then have "y \<le> Max (insert m (f ` ?J (j mod num)))" using 2 by (intro Max_ge) auto
      also have "\<dots> \<le> ?L" using assms by (intro Max_ge) auto
      finally show ?thesis .
    qed (auto intro!: Max_ge)
  qed auto
qed

theorem max_reduce_correct:
  assumes body: "post_order nodes 0 (int n - 1) d" "d \<le> eval_stack_depth" and num: "0 < num"
    and len: "total_length axes = Some tot" "prod_list (map fst axes) < 2 ^ 64"
    and threads: "\<And>t. t < num \<Longrightarrow> thread_max de nodes indices n axes tot num t = Inr (running t)"
    and run: "cas_run num running (cas_start int64_min) w" "\<forall>t < num. cw_threads w t = Finished"
  shows "cw_slot w = Max (insert int64_min (body_value de nodes indices n ` axis_scopes (rev axes) (\<lambda>_. 0)))"
proof -
  let ?f = "\<lambda>i. body_value de nodes indices n (decode_axes (rev axes) i (\<lambda>_. 0))"
  have tot: "tot = prod_list (map fst (rev axes))" and pos: "0 \<notin> set (map fst (rev axes))"
    using len by (auto simp: total_length_def u64_def simp flip: rev_map split: if_splits)
  have "running t = Max (insert int64_min (?f ` {j. j < tot \<and> (\<exists>m. j = t + m * num)}))" if "t < num" for t
    using threads [OF that] thread_max_value [OF body num] by simp
  then have "running ` {..< num} =
      (\<lambda>t. Max (insert int64_min (?f ` {j. j < tot \<and> (\<exists>m. j = t + m * num)}))) ` {..< num}"
    by (intro image_cong) auto
  then have "cw_slot w = Max (insert int64_min (?f ` {..< tot}))"
    using cas_final [OF run] Max_union_threads [OF num, of int64_min ?f tot] by simp
  also have "?f ` {..< tot} = body_value de nodes indices n ` axis_scopes (rev axes) (\<lambda>_. 0)"
    using decode_axes_range [OF pos, of "\<lambda>_. 0"] unfolding tot by (metis image_image)
  finally show ?thesis .
qed

end
