(* ===== verification/GraphDoWhile.thy ===== *)
theory GraphDoWhile
  imports Prelude
begin

text \<open>
  The host-side driver of nested device loops (\<^verbatim>\<open>program/graph_do_while_driver.h\<close>). A kernel is a
  flat list of tasks, each tagged with its innermost loop level; the driver recovers the nesting
  from the parent pointers of the levels. It is shown to run exactly the structured program that
  the tags describe: tasks in order, each loop body once and again while its flag asks for it, and
  nothing after a task that aborts.
\<close>

section \<open>The driver\<close>

record do_while_level =
  dw_cond_arg_id :: int
  dw_parent_id :: int
  dw_flag_dev_ptr :: int

text \<open>An access outside the level table is \<open>None\<close>, as is a walk that never ends.\<close>

definition level_at :: "do_while_level list \<Rightarrow> int \<Rightarrow> do_while_level option" where
  "level_at levels c = (if 0 \<le> c \<and> c < int (length levels) then Some (levels ! nat c) else None)"

partial_function (option) is_descendant_or_self :: "do_while_level list \<Rightarrow> int \<Rightarrow> int \<Rightarrow> bool option" where
  "is_descendant_or_self levels c ancestor =
     (if c = -1 then Some False
      else if c = ancestor then Some True
      else Option.bind (level_at levels c)
             (\<lambda>l. is_descendant_or_self levels (dw_parent_id l) ancestor))"

partial_function (option) child_of :: "do_while_level list \<Rightarrow> int \<Rightarrow> int \<Rightarrow> int option" where
  "child_of levels parent c =
     Option.bind (level_at levels c)
       (\<lambda>l. if dw_parent_id l = parent then Some c else child_of levels parent (dw_parent_id l))"

text \<open>The end of the run of tasks from \<open>r\<close>, among \<open>n\<close>, that belong to \<open>child\<close>.\<close>

fun run_end :: "do_while_level list \<Rightarrow> int list \<Rightarrow> int \<Rightarrow> nat \<Rightarrow> nat \<Rightarrow> nat option" where
  "run_end levels ids child r 0 = Some r"
| "run_end levels ids child r (Suc n) =
     Option.bind (is_descendant_or_self levels (ids ! r) child)
       (\<lambda>b. if b then run_end levels ids child (Suc r) n else Some r)"

text \<open>
  \<^verbatim>\<open>process_level\<close> with its cursor as an argument: \<open>begin\<close> is where the next pass starts. The callbacks
  act on a state; both report a truth value.
\<close>

partial_function (option) process_level ::
  "(nat \<Rightarrow> 's \<Rightarrow> bool \<times> 's) \<Rightarrow> (int \<Rightarrow> 's \<Rightarrow> bool \<times> 's) \<Rightarrow> int list \<Rightarrow> do_while_level list \<Rightarrow>
   int \<Rightarrow> nat \<Rightarrow> nat \<Rightarrow> nat \<Rightarrow> 's \<Rightarrow> (bool \<times> 's) option" where
  "process_level launch_task continue_level ids levels parent_id begin cursor stop s =
     (if cursor < stop then
        (if ids ! cursor = parent_id then
           (case launch_task cursor s of
              (ok, s') \<Rightarrow>
                if ok then process_level launch_task continue_level ids levels parent_id begin (Suc cursor) stop s'
                else Some (False, s'))
         else
           Option.bind (child_of levels parent_id (ids ! cursor)) (\<lambda>child.
           Option.bind (run_end levels ids child cursor (stop - cursor)) (\<lambda>r.
           Option.bind (process_level launch_task continue_level ids levels child cursor cursor r s) (\<lambda>(ok, s').
             if ok then process_level launch_task continue_level ids levels parent_id begin r stop s'
             else Some (False, s')))))
      else if 0 \<le> parent_id then
        (case continue_level parent_id s of
           (again, s') \<Rightarrow>
             if again then process_level launch_task continue_level ids levels parent_id begin begin stop s'
             else Some (True, s'))
      else Some (True, s))"

definition run_graph_do_while ::
  "nat \<Rightarrow> int list \<Rightarrow> do_while_level list \<Rightarrow> (nat \<Rightarrow> 's \<Rightarrow> bool \<times> 's) \<Rightarrow> (int \<Rightarrow> 's \<Rightarrow> bool \<times> 's) \<Rightarrow>
   's \<Rightarrow> (bool \<times> 's) option" where
  "run_graph_do_while num_tasks ids levels launch_task continue_level s =
     process_level launch_task continue_level ids levels (-1) 0 0 num_tasks s"

section \<open>The structured program\<close>

datatype block = Task nat | Loop int "block list"

text \<open>
  \<open>nest levels ids p i bs j\<close>: the tasks from \<open>i\<close> up to \<open>j\<close> are the blocks \<open>bs\<close> of the body of level \<open>p\<close>.
  A loop takes in all the tasks below its level that follow each other.
\<close>

inductive nest :: "do_while_level list \<Rightarrow> int list \<Rightarrow> int \<Rightarrow> nat \<Rightarrow> block list \<Rightarrow> nat \<Rightarrow> bool"
  for levels ids where
  nil: "nest levels ids p i [] i"
| task: "ids ! i = p \<Longrightarrow> nest levels ids p (Suc i) bs j \<Longrightarrow> nest levels ids p i (Task i # bs) j"
| loop: "level_at levels l = Some lv \<Longrightarrow> dw_parent_id lv = p \<Longrightarrow> nest levels ids l i body k \<Longrightarrow> i < k \<Longrightarrow>
    (k < j \<longrightarrow> is_descendant_or_self levels (ids ! k) l = Some False) \<Longrightarrow>
    nest levels ids p k bs j \<Longrightarrow> nest levels ids p i (Loop l body # bs) j"

inductive exec :: "(nat \<Rightarrow> 's \<Rightarrow> bool \<times> 's) \<Rightarrow> (int \<Rightarrow> 's \<Rightarrow> bool \<times> 's) \<Rightarrow> block list \<Rightarrow> 's \<Rightarrow> bool \<times> 's \<Rightarrow> bool"
  and iterate :: "(nat \<Rightarrow> 's \<Rightarrow> bool \<times> 's) \<Rightarrow> (int \<Rightarrow> 's \<Rightarrow> bool \<times> 's) \<Rightarrow> int \<Rightarrow> block list \<Rightarrow> 's \<Rightarrow> bool \<times> 's \<Rightarrow> bool"
  for launch cont where
  exec_nil: "exec launch cont [] s (True, s)"
| exec_task: "launch i s = (True, s') \<Longrightarrow> exec launch cont bs s' r \<Longrightarrow> exec launch cont (Task i # bs) s r"
| exec_abort: "launch i s = (False, s') \<Longrightarrow> exec launch cont (Task i # bs) s (False, s')"
| exec_loop: "iterate launch cont l body s (True, s') \<Longrightarrow> exec launch cont bs s' r \<Longrightarrow>
    exec launch cont (Loop l body # bs) s r"
| exec_loop_abort: "iterate launch cont l body s (False, s') \<Longrightarrow> exec launch cont (Loop l body # bs) s (False, s')"
| iterate_abort: "exec launch cont body s (False, s') \<Longrightarrow> iterate launch cont l body s (False, s')"
| iterate_exit: "exec launch cont body s (True, s1) \<Longrightarrow> cont l s1 = (False, s2) \<Longrightarrow>
    iterate launch cont l body s (True, s2)"
| iterate_again: "exec launch cont body s (True, s1) \<Longrightarrow> cont l s1 = (True, s2) \<Longrightarrow>
    iterate launch cont l body s2 r \<Longrightarrow> iterate launch cont l body s r"

inductive_cases nest_nilE [elim!]: "nest levels ids p i [] j"
inductive_cases nest_taskE [elim!]: "nest levels ids p i (Task m # bs) j"
inductive_cases nest_loopE [elim!]: "nest levels ids p i (Loop l body # bs) j"

section \<open>Levels\<close>

text \<open>Levels are appended with their parent already in the table.\<close>

definition levels_ok :: "do_while_level list \<Rightarrow> bool" where
  "levels_ok levels \<longleftrightarrow> (\<forall>c < length levels. -1 \<le> dw_parent_id (levels ! c) \<and> dw_parent_id (levels ! c) < int c)"

definition level_id :: "do_while_level list \<Rightarrow> int \<Rightarrow> bool" where
  "level_id levels c \<longleftrightarrow> -1 \<le> c \<and> c < int (length levels)"

lemma level_at_SomeD:
  "level_at levels c = Some l \<Longrightarrow> 0 \<le> c \<and> c < int (length levels) \<and> l = levels ! nat c"
  by (auto simp: level_at_def split: if_splits)

lemma level_parent:
  assumes "levels_ok levels" "level_at levels c = Some l"
  shows "level_id levels (dw_parent_id l)" "dw_parent_id l < c" "-1 \<le> dw_parent_id l"
  using level_at_SomeD [OF assms(2)] assms(1) unfolding levels_ok_def level_id_def
  by (metis le_less_trans less_imp_le nat_0_le nat_less_iff order.strict_trans zero_less_imp_eq_int)+

lemma level_at_id: "level_id levels c \<Longrightarrow> c \<noteq> -1 \<Longrightarrow> \<exists>l. level_at levels c = Some l"
  by (auto simp: level_at_def level_id_def)

text \<open>Walks up the parents, by induction on the level.\<close>

lemma level_induct [consumes 2, case_names top up]:
  assumes "levels_ok levels" "level_id levels c"
    and "P (-1)"
    and "\<And>c l. level_at levels c = Some l \<Longrightarrow> 0 \<le> c \<Longrightarrow> P (dw_parent_id l) \<Longrightarrow> P c"
  shows "P c"
  using assms(2)
proof (induction "nat (c + 1)" arbitrary: c rule: less_induct)
  case less
  show ?case
  proof (cases "c = -1")
    case False
    then obtain l where l: "level_at levels c = Some l" using level_at_id less.prems by blast
    have "P (dw_parent_id l)"
      using level_parent [OF assms(1) l] less.prems less.hyps [of "dw_parent_id l"]
      by (auto simp: level_id_def)
    then show ?thesis using assms(4) [OF l] level_at_SomeD [OF l] by blast
  qed (use assms(3) in simp)
qed

lemma descendant_returns:
  assumes "levels_ok levels" "level_id levels c"
  shows "\<exists>b. is_descendant_or_self levels c a = Some b"
  using assms
proof (induction rule: level_induct)
  case top
  show ?case by (rule exI [of _ False]) (simp add: is_descendant_or_self.simps)
next
  case (up c l)
  then show ?case by (subst is_descendant_or_self.simps) auto
qed

lemma descendant_ge:
  assumes "levels_ok levels" "level_id levels c"
  shows "is_descendant_or_self levels c a = Some True \<Longrightarrow> a \<le> c"
  using assms
proof (induction rule: level_induct)
  case top
  then show ?case by (simp add: is_descendant_or_self.simps)
next
  case (up c l)
  from up.prems have "c = a \<or> is_descendant_or_self levels (dw_parent_id l) a = Some True"
    by (subst (asm) is_descendant_or_self.simps) (use up in \<open>auto split: if_splits\<close>)
  then show ?case using up.IH level_parent [OF assms(1) up.hyps(1)] by auto
qed

lemma descendant_self: "level_at levels c = Some l \<Longrightarrow> is_descendant_or_self levels c c = Some True"
  using level_at_SomeD [of levels c l] by (simp add: is_descendant_or_self.simps)

lemma descendant_trans:
  assumes "levels_ok levels" "level_id levels c" "level_at levels l = Some lv"
  shows "is_descendant_or_self levels c l = Some True \<Longrightarrow>
    is_descendant_or_self levels (dw_parent_id lv) a = Some True \<Longrightarrow> is_descendant_or_self levels c a = Some True"
  using assms(1,2)
proof (induction rule: level_induct)
  case top
  then show ?case by (simp add: is_descendant_or_self.simps)
next
  case (up c lc)
  show ?case
  proof (cases "c = l")
    case True
    then show ?thesis using up assms(3) by (subst is_descendant_or_self.simps) auto
  next
    case False
    then have "is_descendant_or_self levels (dw_parent_id lc) l = Some True"
      using up.prems(1) up.hyps by (subst (asm) is_descendant_or_self.simps) auto
    then show ?thesis using up by (subst is_descendant_or_self.simps) auto
  qed
qed

text \<open>The child of \<open>p\<close> that a task belongs to is the only one it is below.\<close>

lemma child_of_below:
  assumes "levels_ok levels" "level_at levels l = Some lv"
  shows "level_id levels c \<Longrightarrow> is_descendant_or_self levels c l = Some True \<Longrightarrow>
    child_of levels (dw_parent_id lv) c = Some l"
proof -
  have "is_descendant_or_self levels c l = Some True \<longrightarrow> child_of levels (dw_parent_id lv) c = Some l"
    if "level_id levels c"
    using assms(1) that
  proof (induction rule: level_induct)
    case top
    then show ?case by (simp add: is_descendant_or_self.simps)
  next
    case (up c lc)
    show ?case
    proof (cases "c = l")
      case True
      then show ?thesis using up assms(2) by (subst child_of.simps) auto
    next
      case False
      have "child_of levels (dw_parent_id lv) c = Some l"
        if "is_descendant_or_self levels (dw_parent_id lc) l = Some True"
      proof -
        have "l \<le> dw_parent_id lc"
          using descendant_ge [OF assms(1) _ that] level_parent [OF assms(1) up.hyps(1)] by blast
        then have "dw_parent_id lc \<noteq> dw_parent_id lv" using level_parent [OF assms(1,2)] by auto
        then show ?thesis using up that by (subst child_of.simps) auto
      qed
      then show ?thesis using False up.hyps by (subst is_descendant_or_self.simps) auto
    qed
  qed
  then show "level_id levels c \<Longrightarrow> is_descendant_or_self levels c l = Some True \<Longrightarrow> ?thesis" by blast
qed

lemma child_of_exists:
  assumes "levels_ok levels" "level_id levels c" "c \<noteq> p" "p = -1 \<or> is_descendant_or_self levels c p = Some True"
  shows "\<exists>l lv. level_at levels l = Some lv \<and> dw_parent_id lv = p \<and> is_descendant_or_self levels c l = Some True"
proof -
  have "c \<noteq> p \<longrightarrow> p = -1 \<or> is_descendant_or_self levels c p = Some True \<longrightarrow>
    (\<exists>l lv. level_at levels l = Some lv \<and> dw_parent_id lv = p \<and> is_descendant_or_self levels c l = Some True)"
    using assms(1,2)
  proof (induction rule: level_induct)
    case top
    then show ?case by (simp add: is_descendant_or_self.simps)
  next
    case (up c lc)
    show ?case
    proof (cases "dw_parent_id lc = p")
      case True
      then show ?thesis using up.hyps(1) descendant_self by blast
    next
      case False
      have step: "is_descendant_or_self levels c a = is_descendant_or_self levels (dw_parent_id lc) a"
        if "c \<noteq> a" for a
        using that up.hyps by (subst is_descendant_or_self.simps) auto
      show ?thesis
      proof (intro impI)
        assume "c \<noteq> p" "p = -1 \<or> is_descendant_or_self levels c p = Some True"
        then obtain l lv where l: "level_at levels l = Some lv" "dw_parent_id lv = p"
            "is_descendant_or_self levels (dw_parent_id lc) l = Some True"
          using up.IH False step by metis
        moreover have "is_descendant_or_self levels c l = Some True"
          using l(3) step descendant_self [OF up.hyps(1)] by (cases "c = l") auto
        ultimately show "\<exists>l lv. level_at levels l = Some lv \<and> dw_parent_id lv = p \<and>
            is_descendant_or_self levels c l = Some True" by blast
      qed
    qed
  qed
  then show ?thesis using assms(3,4) by blast
qed

section \<open>The nesting is what the driver sees\<close>

lemma nest_le: "nest levels ids p i bs j \<Longrightarrow> i \<le> j"
  by (induction rule: nest.induct) auto

definition ids_ok :: "do_while_level list \<Rightarrow> int list \<Rightarrow> nat \<Rightarrow> bool" where
  "ids_ok levels ids n \<longleftrightarrow> (\<forall>t < n. level_id levels (ids ! t))"

lemma nest_below:
  assumes "levels_ok levels" "ids_ok levels ids n"
  shows "nest levels ids p i bs j \<Longrightarrow> j \<le> n \<Longrightarrow> level_at levels p \<noteq> None \<Longrightarrow> t \<in> {i..<j} \<Longrightarrow>
    is_descendant_or_self levels (ids ! t) p = Some True"
proof (induction arbitrary: t rule: nest.induct)
  case (task i p bs j)
  then show ?case using descendant_self [of levels p] by (cases "t = i") auto
next
  case (loop l lv p i body k j bs)
  then have kj: "k \<le> j" using nest_le by blast
  show ?case
  proof (cases "t < k")
    case True
    then have "is_descendant_or_self levels (ids ! t) l = Some True" using loop kj by auto
    moreover have "is_descendant_or_self levels p p = Some True" using loop.prems(2) descendant_self by auto
    moreover have "level_id levels (ids ! t)" using assms(2) True loop.prems(1) kj by (auto simp: ids_ok_def)
    ultimately show ?thesis using descendant_trans [OF assms(1) _ loop.hyps(1)] loop.hyps(2) by blast
  next
    case False
    then show ?thesis using loop by auto
  qed
qed simp

lemma run_end_eq:
  assumes "\<And>t. t \<in> {r..<k} \<Longrightarrow> is_descendant_or_self levels (ids ! t) l = Some True"
    and "r \<le> k" "k \<le> r + n" "k < r + n \<Longrightarrow> is_descendant_or_self levels (ids ! k) l = Some False"
  shows "run_end levels ids l r n = Some k"
  using assms
proof (induction n arbitrary: r)
  case (Suc n)
  show ?case
  proof (cases "r = k")
    case False
    then have "is_descendant_or_self levels (ids ! r) l = Some True" using Suc.prems(1,2) by auto
    then show ?thesis using Suc.IH [of "Suc r"] Suc.prems False by auto
  qed (use Suc.prems in simp)
qed simp

text \<open>At the head of a loop the driver picks that loop and its whole run.\<close>

lemma driver_at_loop:
  assumes ok: "levels_ok levels" "ids_ok levels ids n" and nest: "nest levels ids p i (Loop l body # bs) j" "j \<le> n"
  obtains k where "nest levels ids l i body k" "nest levels ids p k bs j" "i < k" "k \<le> j" "0 \<le> l" "ids ! i \<noteq> p"
    "child_of levels p (ids ! i) = Some l" "run_end levels ids l i (j - i) = Some k"
proof -
  from nest(1) obtain lv k where k: "level_at levels l = Some lv" "dw_parent_id lv = p" "nest levels ids l i body k" "i < k"
      "k < j \<longrightarrow> is_descendant_or_self levels (ids ! k) l = Some False" "nest levels ids p k bs j"
    by auto
  have kj: "k \<le> j" using nest_le [OF k(6)] .
  have below: "is_descendant_or_self levels (ids ! t) l = Some True" if "t \<in> {i..<k}" for t
    using nest_below [OF ok k(3) _ _ that] k(1) kj nest(2) by auto
  have id: "level_id levels (ids ! i)" using ok(2) k(4) kj nest(2) by (auto simp: ids_ok_def)
  have "l \<le> ids ! i" using descendant_ge [OF ok(1) id] below k(4) by auto
  then have ne: "ids ! i \<noteq> p" using level_parent [OF ok(1) k(1)] k(2) by auto
  have "child_of levels p (ids ! i) = Some l"
    using child_of_below [OF ok(1) k(1) id] below k(2,4) by auto
  moreover have "run_end levels ids l i (j - i) = Some k"
    using below k(4,5) kj by (intro run_end_eq) auto
  ultimately show ?thesis using that [of k] k kj ne level_at_SomeD [OF k(1)] by blast
qed

lemmas process_step = process_level.simps

lemma exec_driven:
  assumes ok: "levels_ok levels" "ids_ok levels ids n"
  shows "exec launch cont bs s r \<Longrightarrow> nest levels ids p i bs j \<Longrightarrow> j \<le> n \<Longrightarrow>
      process_level launch cont ids levels p b i j s =
        (if fst r then process_level launch cont ids levels p b j j (snd r) else Some r)"
    and "iterate launch cont l body s r \<Longrightarrow> nest levels ids l i body k \<Longrightarrow> k \<le> n \<Longrightarrow> 0 \<le> l \<Longrightarrow>
      process_level launch cont ids levels l i i k s = Some r"
proof (induction arbitrary: p i j b and i k rule: exec_iterate.inducts)
  case (exec_task m s s' bs r)
  then have "ids ! i = p" "m = i" "nest levels ids p (Suc i) bs j" by auto
  moreover from this have "i < j" using nest_le by fastforce
  ultimately show ?case using exec_task by (subst process_step) auto
next
  case (exec_abort m s s' bs)
  then have "ids ! i = p" "m = i" "nest levels ids p (Suc i) bs j" by auto
  moreover from this have "i < j" using nest_le by fastforce
  ultimately show ?case using exec_abort by (subst process_step) auto
next
  case (exec_loop l body s s' bs r)
  obtain k where k: "nest levels ids l i body k" "nest levels ids p k bs j" "i < k" "k \<le> j" "0 \<le> l" "ids ! i \<noteq> p"
      "child_of levels p (ids ! i) = Some l" "run_end levels ids l i (j - i) = Some k"
    using driver_at_loop [OF ok exec_loop.prems] .
  have "process_level launch cont ids levels l i i k s = Some (True, s')"
    using exec_loop.IH(2) [OF k(1)] k exec_loop.prems by simp
  then show ?case using k exec_loop.IH(4) [OF k(2)] exec_loop.prems by (subst process_step) auto
next
  case (exec_loop_abort l body s s' bs)
  obtain k where k: "nest levels ids l i body k" "nest levels ids p k bs j" "i < k" "k \<le> j" "0 \<le> l" "ids ! i \<noteq> p"
      "child_of levels p (ids ! i) = Some l" "run_end levels ids l i (j - i) = Some k"
    using driver_at_loop [OF ok exec_loop_abort.prems] .
  have "process_level launch cont ids levels l i i k s = Some (False, s')"
    using exec_loop_abort.IH(2) [OF k(1)] k exec_loop_abort.prems by simp
  then show ?case using k by (subst process_step) auto
next
  case (iterate_abort body s s' l)
  then show ?case by simp
next
  case (iterate_exit body s s1 l s2)
  have "process_level launch cont ids levels l i k k s1 = Some (True, s2)"
    using iterate_exit by (subst process_step) simp
  then show ?case using iterate_exit by simp
next
  case (iterate_again body s s1 l s2 r)
  have "process_level launch cont ids levels l i k k s1 = process_level launch cont ids levels l i i k s2"
    using iterate_again by (subst process_step) simp
  then show ?case using iterate_again by simp
qed auto

text \<open>
  The other direction. In the middle of a pass over the body \<open>body\<close> of level \<open>p\<close>, with \<open>bs\<close> still to
  run, the driver runs \<open>bs\<close> and then asks whether to go round again.
\<close>

inductive rest_of_pass ::
  "(nat \<Rightarrow> 's \<Rightarrow> bool \<times> 's) \<Rightarrow> (int \<Rightarrow> 's \<Rightarrow> bool \<times> 's) \<Rightarrow> int \<Rightarrow> block list \<Rightarrow> block list \<Rightarrow> 's \<Rightarrow> bool \<times> 's \<Rightarrow> bool"
  for launch cont p body where
  top: "p < 0 \<Longrightarrow> exec launch cont bs s r \<Longrightarrow> rest_of_pass launch cont p body bs s r"
| abort: "0 \<le> p \<Longrightarrow> exec launch cont bs s (False, s1) \<Longrightarrow> rest_of_pass launch cont p body bs s (False, s1)"
| leave: "0 \<le> p \<Longrightarrow> exec launch cont bs s (True, s1) \<Longrightarrow> cont p s1 = (False, s2) \<Longrightarrow>
    rest_of_pass launch cont p body bs s (True, s2)"
| again: "0 \<le> p \<Longrightarrow> exec launch cont bs s (True, s1) \<Longrightarrow> cont p s1 = (True, s2) \<Longrightarrow>
    iterate launch cont p body s2 r \<Longrightarrow> rest_of_pass launch cont p body bs s r"

lemma rest_of_pass_iterate:
  assumes "0 \<le> p" "rest_of_pass launch cont p body body s r"
  shows "iterate launch cont p body s r"
  using assms(2) by cases (use assms(1) in \<open>auto intro: iterate_abort iterate_exit iterate_again\<close>)

text \<open>A first block that runs to its end leaves the rest of the pass.\<close>

lemma rest_of_pass_Cons:
  assumes "\<And>r. exec launch cont bs s' r \<Longrightarrow> exec launch cont (x # bs) s r" "rest_of_pass launch cont p body bs s' r"
  shows "rest_of_pass launch cont p body (x # bs) s r"
  using assms(2) by cases (auto intro: rest_of_pass.intros assms(1))

lemma rest_of_pass_abort:
  assumes "exec launch cont bs s (False, s')"
  shows "rest_of_pass launch cont p body bs s (False, s')"
proof (cases "p < 0")
  case True
  then show ?thesis using assms by (rule rest_of_pass.top)
next
  case False
  then have "0 \<le> p" by simp
  then show ?thesis using assms by (rule rest_of_pass.abort)
qed

lemma nest_empty: "nest levels ids p i bs i \<Longrightarrow> bs = []"
  by (cases bs; cases "hd bs") (auto dest: nest_le)

definition driven ::
  "(nat \<Rightarrow> 's \<Rightarrow> bool \<times> 's) \<Rightarrow> (int \<Rightarrow> 's \<Rightarrow> bool \<times> 's) \<Rightarrow> int list \<Rightarrow> do_while_level list \<Rightarrow> int \<Rightarrow> nat \<Rightarrow> nat \<Rightarrow> nat \<Rightarrow>
   's \<Rightarrow> bool \<times> 's \<Rightarrow> bool" where
  "driven launch cont ids levels p b c e s r \<longleftrightarrow>
     (\<forall>n body bs. levels_ok levels \<longrightarrow> ids_ok levels ids n \<longrightarrow> e \<le> n \<longrightarrow> nest levels ids p b body e \<longrightarrow>
        nest levels ids p c bs e \<longrightarrow> rest_of_pass launch cont p body bs s r)"

lemma drivenD:
  assumes "driven launch cont ids levels p b c e s r" "levels_ok levels" "ids_ok levels ids n" "e \<le> n"
    and "nest levels ids p b body e" "nest levels ids p c bs e"
  shows "rest_of_pass launch cont p body bs s r"
  using assms unfolding driven_def by blast

lemma driven_step:
  assumes IH: "\<And>p b c e s r. f launch cont ids levels p b c e s = Some r \<Longrightarrow> driven launch cont ids levels p b c e s r"
    and step: "(if c < e then
        (if ids ! c = p then
           (case launch c s of (ok, s') \<Rightarrow> if ok then f launch cont ids levels p b (Suc c) e s' else Some (False, s'))
         else
           Option.bind (child_of levels p (ids ! c)) (\<lambda>child.
           Option.bind (run_end levels ids child c (e - c)) (\<lambda>k.
           Option.bind (f launch cont ids levels child c c k s) (\<lambda>(ok, s').
             if ok then f launch cont ids levels p b k e s' else Some (False, s')))))
      else if 0 \<le> p then
        (case cont p s of (again, s') \<Rightarrow> if again then f launch cont ids levels p b b e s' else Some (True, s'))
      else Some (True, s)) = Some r"
  shows "driven launch cont ids levels p b c e s r"
  unfolding driven_def
proof (intro allI impI)
  fix n body bs
  assume ok: "levels_ok levels" "ids_ok levels ids n" "e \<le> n" and body: "nest levels ids p b body e"
    and bs: "nest levels ids p c bs e"
  note IH' = drivenD [OF IH ok(1,2)]
  show "rest_of_pass launch cont p body bs s r"
  proof (cases "c < e")
    case False
    then have "c = e" using nest_le [OF bs] by simp
    then have "bs = []" using bs nest_empty by blast
    obtain again s' where co: "cont p s = (again, s')" by (cases "cont p s")
    have "iterate launch cont p body s' r" if "0 \<le> p" again
      by (rule rest_of_pass_iterate [OF that(1) IH' [OF _ ok(3) body body]]) (use step co \<open>c = e\<close> that in simp)
    then show ?thesis
      using step co \<open>c = e\<close> \<open>bs = []\<close> exec_nil [of launch cont s]
      by (cases "0 \<le> p"; cases again) (auto intro: rest_of_pass.intros)
  next
    case True
    then obtain x bs' where x: "bs = x # bs'" using bs by (cases bs) auto
    show ?thesis
    proof (cases x)
      case (Task m)
      then have t: "m = c" "ids ! c = p" "nest levels ids p (Suc c) bs' e" using bs x by auto
      obtain ok' s' where la: "launch c s = (ok', s')" by (cases "launch c s")
      show ?thesis
      proof (cases ok')
        case True
        then have "rest_of_pass launch cont p body bs' s' r"
          using IH' [OF _ ok(3) body t(3)] step la t \<open>c < e\<close> by simp
        moreover have "exec launch cont bs' s' r' \<Longrightarrow> exec launch cont (Task c # bs') s r'" for r'
          using exec_task [of launch c s s' cont bs' r'] la True by simp
        ultimately show ?thesis unfolding x Task t(1) by (rule rest_of_pass_Cons [rotated])
      next
        case False
        then show ?thesis
          using step la t \<open>c < e\<close> x Task rest_of_pass_abort exec_abort [of launch c s s' cont bs'] by auto
      qed
    next
      case (Loop l bd)
      obtain k where k: "nest levels ids l c bd k" "nest levels ids p k bs' e" "k \<le> e" "0 \<le> l" "ids ! c \<noteq> p"
          "child_of levels p (ids ! c) = Some l" "run_end levels ids l c (e - c) = Some k"
        using driver_at_loop [OF ok(1,2) bs [unfolded x Loop] ok(3)] by metis
      obtain ok' s' where ru: "f launch cont ids levels l c c k s = Some (ok', s')"
          "(if ok' then f launch cont ids levels p b k e s' else Some (False, s')) = Some r"
        using step k \<open>c < e\<close> by (auto split: option.splits prod.splits bind_splits)
      have "k \<le> n" using k(3) ok(3) by simp
      then have it: "iterate launch cont l bd s (ok', s')"
        by (rule rest_of_pass_iterate [OF k(4) IH' [OF ru(1) _ k(1) k(1)]])
      show ?thesis
      proof (cases ok')
        case True
        then have "rest_of_pass launch cont p body bs' s' r" using IH' [OF _ ok(3) body k(2)] ru(2) by simp
        moreover have "exec launch cont bs' s' r' \<Longrightarrow> exec launch cont (Loop l bd # bs') s r'" for r'
          using exec_loop [of launch cont l bd s s' bs' r'] it True by simp
        ultimately show ?thesis unfolding x Loop by (rule rest_of_pass_Cons [rotated])
      next
        case False
        then have "r = (False, s')" "iterate launch cont l bd s (False, s')" using ru(2) it by auto
        then show ?thesis unfolding x Loop by (simp add: rest_of_pass_abort exec_loop_abort)
      qed
    qed
  qed
qed

lemma process_driven:
  "process_level launch cont ids levels p b c e s = Some r \<Longrightarrow> driven launch cont ids levels p b c e s r"
proof (rule process_level.raw_induct [where P = driven])
  fix f :: "(nat \<Rightarrow> 'a \<Rightarrow> bool \<times> 'a) \<Rightarrow> (int \<Rightarrow> 'a \<Rightarrow> bool \<times> 'a) \<Rightarrow> int list \<Rightarrow> do_while_level list \<Rightarrow>
   int \<Rightarrow> nat \<Rightarrow> nat \<Rightarrow> nat \<Rightarrow> 'a \<Rightarrow> (bool \<times> 'a) option"
  fix launch cont ids levels p b c e s r
  assume "\<And>launch cont ids levels p b c e s r. f launch cont ids levels p b c e s = Some r \<Longrightarrow>
      driven launch cont ids levels p b c e s r"
    and "(if c < e then
        (if ids ! c = p then
           (case launch c s of (ok, s') \<Rightarrow> if ok then f launch cont ids levels p b (Suc c) e s' else Some (False, s'))
         else
           Option.bind (child_of levels p (ids ! c)) (\<lambda>child.
           Option.bind (run_end levels ids child c (e - c)) (\<lambda>k.
           Option.bind (f launch cont ids levels child c c k s) (\<lambda>(ok, s').
             if ok then f launch cont ids levels p b k e s' else Some (False, s')))))
      else if 0 \<le> p then
        (case cont p s of (again, s') \<Rightarrow> if again then f launch cont ids levels p b b e s' else Some (True, s'))
      else Some (True, s)) = Some r"
  then show "driven launch cont ids levels p b c e s r" by (rule driven_step)
qed

section \<open>Every tagged task list is a structured program\<close>

lemma run_split:
  assumes "i < j" "P (ids ! i)"
  shows "\<exists>k. i < k \<and> k \<le> j \<and> (\<forall>t \<in> {i..<k}. P (ids ! t)) \<and> (k < j \<longrightarrow> \<not> P (ids ! k))"
proof (cases "\<exists>k. i < k \<and> k < j \<and> \<not> P (ids ! k)")
  case True
  define k where "k = (LEAST k. i < k \<and> k < j \<and> \<not> P (ids ! k))"
  have k: "i < k" "k < j" "\<not> P (ids ! k)" using LeastI_ex [OF True] by (auto simp: k_def)
  have "P (ids ! t)" if "t \<in> {i..<k}" for t
    using not_less_Least [of t "\<lambda>k. i < k \<and> k < j \<and> \<not> P (ids ! k)"] that k assms(2)
    by (cases "t = i") (auto simp: k_def)
  then show ?thesis using k by (intro exI [of _ k]) auto
next
  case False
  then show ?thesis using assms by (intro exI [of _ j]) (auto simp: le_less)
qed

lemma nest_exists:
  assumes ok: "levels_ok levels" "ids_ok levels ids n"
  shows "i \<le> j \<Longrightarrow> j \<le> n \<Longrightarrow> -1 \<le> p \<Longrightarrow>
    (\<And>t. t \<in> {i..<j} \<Longrightarrow> p = -1 \<or> is_descendant_or_self levels (ids ! t) p = Some True) \<Longrightarrow>
    \<exists>bs. nest levels ids p i bs j"
proof (induction "(j - i, nat (int (length levels) - p))" arbitrary: i j p
    rule: wf_induct [OF wf_lex_prod [OF wf_less_than wf_less_than]])
  case (1 i j p)
  note prems = 1(2-5)
  have IH: "\<exists>bs. nest levels ids p' i' bs j'"
    if "j' - i' < j - i \<or> j' - i' = j - i \<and> nat (int (length levels) - p') < nat (int (length levels) - p)"
      "i' \<le> j'" "j' \<le> n" "-1 \<le> p'"
      "\<And>t. t \<in> {i'..<j'} \<Longrightarrow> p' = -1 \<or> is_descendant_or_self levels (ids ! t) p' = Some True" for i' j' p'
    by (rule 1(1) [rule_format, OF _ refl that(2-5)]) (use that(1) in auto)
  show ?case
  proof (cases "i = j")
    case True
    then show ?thesis using nest.nil by blast
  next
    case False
    then have ij: "i < j" using prems(1) by simp
    have id: "level_id levels (ids ! i)" using ok(2) ij prems(2) by (auto simp: ids_ok_def)
    show ?thesis
    proof (cases "ids ! i = p")
      case True
      have "\<exists>bs. nest levels ids p (Suc i) bs j" by (rule IH) (use ij prems in auto)
      then show ?thesis using nest.task [OF True] by blast
    next
      case False
      obtain l lv where l: "level_at levels l = Some lv" "dw_parent_id lv = p" "is_descendant_or_self levels (ids ! i) l = Some True"
        using child_of_exists [OF ok(1) id False] prems(4) [of i] ij by auto
      have lp: "p < l" "l < int (length levels)" using level_parent [OF ok(1) l(1)] l(2) level_at_SomeD [OF l(1)] by auto
      obtain k where k: "i < k" "k \<le> j" "\<forall>t \<in> {i..<k}. is_descendant_or_self levels (ids ! t) l = Some True"
          "k < j \<longrightarrow> is_descendant_or_self levels (ids ! k) l \<noteq> Some True"
        using run_split [OF ij, of "\<lambda>c. is_descendant_or_self levels c l = Some True" ids] l(3) by auto
      have stop: "k < j \<longrightarrow> is_descendant_or_self levels (ids ! k) l = Some False"
        using k(4) descendant_returns [OF ok(1), of "ids ! k" l] ok(2) prems(2)
        by (metis (full_types) ids_ok_def order_less_le_trans)
      have "\<exists>body. nest levels ids l i body k"
        by (rule IH) (use k prems lp in auto)
      moreover have "\<exists>bs. nest levels ids p k bs j"
        by (rule IH) (use k prems in auto)
      ultimately show ?thesis using nest.loop [OF l(1,2) _ k(1) stop] by blast
    qed
  qed
qed

lemma run_graph_do_while_nest:
  assumes "levels_ok levels" "ids_ok levels ids n" "nest levels ids (-1) 0 bs n"
  shows "run_graph_do_while n ids levels launch cont s = Some r \<longleftrightarrow> exec launch cont bs s r"
proof
  assume "run_graph_do_while n ids levels launch cont s = Some r"
  then have "rest_of_pass launch cont (-1) bs bs s r"
    by (intro drivenD [OF process_driven assms(1,2) order_refl assms(3,3)]) (simp add: run_graph_do_while_def)
  then show "exec launch cont bs s r" by cases auto
next
  assume "exec launch cont bs s r"
  moreover have "process_level launch cont ids levels (-1) 0 n n (snd r) = Some (True, snd r)"
    by (subst process_step) simp
  ultimately show "run_graph_do_while n ids levels launch cont s = Some r"
    using exec_driven(1) [OF assms(1,2) _ assms(3) order_refl, of launch cont s r 0] by (cases r) (auto simp: run_graph_do_while_def)
qed

lemma run_graph_do_while_structured:
  assumes "levels_ok levels" "ids_ok levels ids n"
  shows "\<exists>bs. nest levels ids (-1) 0 bs n \<and>
    (\<forall>s r. run_graph_do_while n ids levels launch cont s = Some r \<longleftrightarrow> exec launch cont bs s r)"
proof -
  obtain bs where bs: "nest levels ids (-1) 0 bs n"
    using nest_exists [OF assms, of 0 n "-1"] by auto
  then show ?thesis
    by (intro exI [of _ bs] conjI allI run_graph_do_while_nest [OF assms])
qed

text \<open>Tasks that all belong to the only level are the body of one loop.\<close>

lemma nest_tasks: "i \<le> n \<Longrightarrow> (\<And>t. i \<le> t \<Longrightarrow> t < n \<Longrightarrow> ids ! t = l) \<Longrightarrow> nest levels ids l i (map Task [i..<n]) n"
proof (induction "n - i" arbitrary: i)
  case 0
  then show ?case by (simp add: nest.nil)
next
  case (Suc k)
  then have "nest levels ids l (Suc i) (map Task [Suc i..<n]) n" by simp
  moreover have "[i..<n] = i # [Suc i..<n]" using Suc.hyps(2) by (simp add: upt_conv_Cons)
  ultimately show ?case using nest.task [of ids i l levels] Suc.prems(2) [of i] Suc.hyps(2) by simp
qed

lemma nest_single_loop:
  assumes "levels_ok levels" "length levels = 1" "0 < n" "\<And>t. t < n \<Longrightarrow> ids ! t = 0"
  shows "nest levels ids (-1) 0 [Loop 0 (map Task [0..<n])] n"
proof -
  have "dw_parent_id (levels ! 0) = -1" "level_at levels 0 = Some (levels ! 0)"
    using assms(1,2) by (auto simp: levels_ok_def level_at_def)
  then show ?thesis
    using nest_tasks [of 0 n ids 0 levels] assms(3,4) by (intro nest.loop [where k = n]) (auto intro: nest.nil)
qed

end
