(* ===== verification/CpuLauncher.thy ===== *)
theory CpuLauncher
  imports GraphDoWhile
begin

text \<open>
  The CPU kernel launcher (\<^verbatim>\<open>runtime/cpu/kernel_launcher.cpp\<close>): the order in which the tasks of a
  kernel run, checkpoint gating and yields, and the two ways a kernel with device loops is driven.
  A task itself (metadata publication and the compiled function) is a parameter \<open>run\<close> that maps the
  memory to the memory after the task and whether an assertion fired in it; \<open>prep\<close> is the adstack
  setup at the start of a pass.
\<close>

section \<open>State\<close>

record launcher_ctx =
  lx_num_tasks :: nat
  lx_checkpoint_id_per_task :: "int list"
  lx_is_last_task_of_yielding_checkpoint :: "bool list"
  lx_has_any_checkpoint :: bool
  lx_graph_do_while_level_per_task :: "int list"

record launch_state =
  ls_mem :: memory
  ls_cpu_assert_failed :: bool
  ls_resume_point :: int
  ls_yield_signal :: int
  ls_resume_from_checkpoint :: int
  ls_last_yield_cp_id :: int

type_synonym task_run = "nat \<Rightarrow> memory \<Rightarrow> memory \<times> bool"

text \<open>
  What registration computes from the checkpoint ids: the last task of each run of equal ids, and
  whether there is any checkpoint at all.
\<close>

definition mark_checkpoints :: "int list \<Rightarrow> bool list \<times> bool" where
  "mark_checkpoints ids =
     (map (\<lambda>i. 0 \<le> ids ! i \<and> (i + 1 = length ids \<or> ids ! (i + 1) \<noteq> ids ! i)) [0..<length ids],
      list_ex (\<lambda>c. 0 \<le> c) ids)"

definition flag_set :: "memory \<Rightarrow> int \<Rightarrow> bool" where
  "flag_set m p \<longleftrightarrow> load_uint m p 4 \<noteq> 0"

section \<open>Running tasks\<close>

definition run_one_offloaded_task :: "task_run \<Rightarrow> nat \<Rightarrow> launch_state \<Rightarrow> bool \<times> launch_state" where
  "run_one_offloaded_task run i st =
     (case run i (ls_mem st) of
        (m, failed) \<Rightarrow>
          (let st' = st\<lparr>ls_mem := m, ls_cpu_assert_failed := ls_cpu_assert_failed st \<or> failed\<rparr>
           in (\<not> ls_cpu_assert_failed st', st')))"

definition run_gated_task ::
  "launcher_ctx \<Rightarrow> int list \<Rightarrow> task_run \<Rightarrow> nat \<Rightarrow> launch_state \<Rightarrow> bool \<times> launch_state" where
  "run_gated_task lx yield_on run i st =
     (let cp_id = (if i < length (lx_checkpoint_id_per_task lx) then lx_checkpoint_id_per_task lx ! i else -1) in
      if 0 \<le> cp_id \<and> (cp_id < ls_resume_point st \<or> ls_yield_signal st \<noteq> -1) then (True, st)
      else
        (case run_one_offloaded_task run i st of
           (ok, st') \<Rightarrow>
             if \<not> ok then (False, st')
             else if 0 \<le> cp_id \<and> i < length (lx_is_last_task_of_yielding_checkpoint lx) \<and>
                     lx_is_last_task_of_yielding_checkpoint lx ! i \<and> nat cp_id < length yield_on \<and>
                     yield_on ! nat cp_id \<noteq> 0 \<and> flag_set (ls_mem st') (yield_on ! nat cp_id) \<and>
                     ls_yield_signal st' = -1
             then (True, st'\<lparr>ls_yield_signal := cp_id, ls_last_yield_cp_id := cp_id\<rparr>)
             else (True, st')))"

fun task_loop :: "(nat \<Rightarrow> 's \<Rightarrow> bool \<times> 's) \<Rightarrow> nat \<Rightarrow> nat \<Rightarrow> 's \<Rightarrow> bool \<times> 's" where
  "task_loop step i 0 s = (True, s)"
| "task_loop step i (Suc n) s =
     (case step i s of (ok, s') \<Rightarrow> if ok then task_loop step (Suc i) n s' else (False, s'))"

definition prepare_offloaded_tasks :: "(memory \<Rightarrow> memory) \<Rightarrow> launch_state \<Rightarrow> launch_state" where
  "prepare_offloaded_tasks prep st = st\<lparr>ls_cpu_assert_failed := False, ls_mem := prep (ls_mem st)\<rparr>"

definition start_gating :: "launch_state \<Rightarrow> launch_state" where
  "start_gating st =
     st\<lparr>ls_resume_point := (if ls_resume_from_checkpoint st < 0 then 0 else ls_resume_from_checkpoint st),
        ls_yield_signal := -1\<rparr>"

definition launch_offloaded_tasks ::
  "launcher_ctx \<Rightarrow> int list \<Rightarrow> (memory \<Rightarrow> memory) \<Rightarrow> task_run \<Rightarrow> launch_state \<Rightarrow> launch_state" where
  "launch_offloaded_tasks lx yield_on prep run st =
     (let st1 = prepare_offloaded_tasks prep st in
      if \<not> lx_has_any_checkpoint lx
      then snd (task_loop (run_one_offloaded_task run) 0 (lx_num_tasks lx) st1)
      else snd (task_loop (run_gated_task lx yield_on run) 0 (lx_num_tasks lx) (start_gating st1)))"

section \<open>Device loops\<close>

definition continue_level_fast :: "do_while_level list \<Rightarrow> int \<Rightarrow> launch_state \<Rightarrow> bool \<times> launch_state" where
  "continue_level_fast levels level st =
     (\<not> ls_cpu_assert_failed st \<and> flag_set (ls_mem st) (dw_flag_dev_ptr (levels ! nat level)), st)"

definition continue_level :: "do_while_level list \<Rightarrow> int \<Rightarrow> launch_state \<Rightarrow> bool \<times> launch_state" where
  "continue_level levels level st =
     (let st' = st\<lparr>ls_resume_point := 0\<rparr> in
      if ls_yield_signal st' \<noteq> -1 then (False, st')
      else (\<not> ls_cpu_assert_failed st' \<and> flag_set (ls_mem st') (dw_flag_dev_ptr (levels ! nat level)), st'))"

text \<open>The loop for a kernel whose tasks all sit in its only loop.\<close>

partial_function (option) single_loop ::
  "launcher_ctx \<Rightarrow> int list \<Rightarrow> (memory \<Rightarrow> memory) \<Rightarrow> task_run \<Rightarrow> int \<Rightarrow> launch_state \<Rightarrow> launch_state option" where
  "single_loop lx yield_on prep run flag st =
     (let st1 = launch_offloaded_tasks lx yield_on prep run st in
      if ls_last_yield_cp_id st1 \<noteq> -1 then Some st1
      else
        (let st2 = st1\<lparr>ls_resume_from_checkpoint := -1\<rparr> in
         if \<not> ls_cpu_assert_failed st2 \<and> flag_set (ls_mem st2) flag
         then single_loop lx yield_on prep run flag st2
         else Some st2))"

text \<open>The general path: the driver of nested loops, with or without checkpoint gating.\<close>

definition drive_levels ::
  "launcher_ctx \<Rightarrow> do_while_level list \<Rightarrow> int list \<Rightarrow> (memory \<Rightarrow> memory) \<Rightarrow> task_run \<Rightarrow> launch_state \<Rightarrow>
   launch_state option" where
  "drive_levels lx levels yield_on prep run st =
     (let ids = lx_graph_do_while_level_per_task lx; st1 = prepare_offloaded_tasks prep st in
      if \<not> lx_has_any_checkpoint lx
      then map_option snd (run_graph_do_while (lx_num_tasks lx) ids levels
             (run_one_offloaded_task run) (continue_level_fast levels) st1)
      else map_option snd (run_graph_do_while (lx_num_tasks lx) ids levels
             (run_gated_task lx yield_on run) (continue_level levels) (start_gating st1)))"

definition launch_offloaded_tasks_with_do_while ::
  "launcher_ctx \<Rightarrow> do_while_level list \<Rightarrow> int list \<Rightarrow> (memory \<Rightarrow> memory) \<Rightarrow> task_run \<Rightarrow> launch_state \<Rightarrow>
   launch_state option" where
  "launch_offloaded_tasks_with_do_while lx levels yield_on prep run st =
     (let has_top_level_task = list_ex (\<lambda>l. l < 0) (lx_graph_do_while_level_per_task lx) in
      if length levels = 1 \<and> \<not> has_top_level_task
      then single_loop lx yield_on prep run (dw_flag_dev_ptr (levels ! 0)) st
      else drive_levels lx levels yield_on prep run st)"

text \<open>
  The launch itself, once the array arguments are resolved: \<open>arrays\<close> gives the data pointer bound to an
  argument. A level whose flag was never resolved is an assertion failure (\<open>Inl\<close>).
\<close>

definition resolve_yield_on :: "(int \<Rightarrow> int option) \<Rightarrow> int list \<Rightarrow> int list" where
  "resolve_yield_on arrays arg_ids =
     map (\<lambda>a. if a < 0 then 0 else case arrays a of None \<Rightarrow> 0 | Some p \<Rightarrow> p) arg_ids"

definition resolve_graph_do_while_flag :: "int \<Rightarrow> int \<Rightarrow> do_while_level list \<Rightarrow> do_while_level list" where
  "resolve_graph_do_while_flag arg_id p levels =
     map (\<lambda>l. if dw_cond_arg_id l = arg_id then l\<lparr>dw_flag_dev_ptr := p\<rparr> else l) levels"

definition launch_llvm_kernel ::
  "launcher_ctx \<Rightarrow> do_while_level list \<Rightarrow> (int \<Rightarrow> int option) \<Rightarrow> int list \<Rightarrow> (memory \<Rightarrow> memory) \<Rightarrow> task_run \<Rightarrow>
   launch_state \<Rightarrow> launch_state option result" where
  "launch_llvm_kernel lx levels arrays yield_on_arg_ids prep run st =
     (let yield_on = (if lx_has_any_checkpoint lx then resolve_yield_on arrays yield_on_arg_ids else []);
          kernel_can_yield = list_ex (\<lambda>a. 0 \<le> a) yield_on_arg_ids;
          st1 = (if lx_has_any_checkpoint lx \<and> kernel_can_yield then st\<lparr>ls_last_yield_cp_id := -1\<rparr> else st)
      in if levels \<noteq> []
         then guardE (list_all (\<lambda>l. dw_flag_dev_ptr l \<noteq> 0) levels) FlagUnresolved
                (Inr (launch_offloaded_tasks_with_do_while lx levels yield_on prep run st1))
         else Inr (Some (launch_offloaded_tasks lx yield_on prep run st1)))"

section \<open>The nested path runs the structured program\<close>

inductive_simps exec_simps: "exec launch cont [] s r" "exec launch cont (Task i # bs) s r"
  "exec launch cont (Loop l body # bs) s r"
inductive_simps iterate_simp: "iterate launch cont l body s r"

lemma task_loop_exec:
  "exec launch cont (map Task [i..<i + n]) s r \<longleftrightarrow> r = task_loop launch i n s"
proof (induction n arbitrary: i s r)
  case (Suc n)
  have "[i..<i + Suc n] = i # [Suc i..<Suc i + n]" by (simp add: upt_conv_Cons)
  then show ?case using Suc.IH [of "Suc i"] by (auto simp: exec_simps split: prod.splits if_splits)
qed (auto simp: exec_simps)

text \<open>The two versions of the callbacks, chosen by whether the kernel has a checkpoint.\<close>

definition task_step :: "launcher_ctx \<Rightarrow> int list \<Rightarrow> task_run \<Rightarrow> nat \<Rightarrow> launch_state \<Rightarrow> bool \<times> launch_state" where
  "task_step lx yield_on run =
     (if lx_has_any_checkpoint lx then run_gated_task lx yield_on run else run_one_offloaded_task run)"

definition level_test :: "launcher_ctx \<Rightarrow> do_while_level list \<Rightarrow> int \<Rightarrow> launch_state \<Rightarrow> bool \<times> launch_state" where
  "level_test lx levels = (if lx_has_any_checkpoint lx then continue_level levels else continue_level_fast levels)"

definition start_launch :: "launcher_ctx \<Rightarrow> (memory \<Rightarrow> memory) \<Rightarrow> launch_state \<Rightarrow> launch_state" where
  "start_launch lx prep st =
     (let st1 = prepare_offloaded_tasks prep st in if lx_has_any_checkpoint lx then start_gating st1 else st1)"

definition all_in_only_loop :: "launcher_ctx \<Rightarrow> do_while_level list \<Rightarrow> bool" where
  "all_in_only_loop lx levels \<longleftrightarrow> length levels = 1 \<and> \<not> list_ex (\<lambda>l. l < 0) (lx_graph_do_while_level_per_task lx)"

lemma launch_offloaded_tasks_alt:
  "launch_offloaded_tasks lx yield_on prep run st =
     snd (task_loop (task_step lx yield_on run) 0 (lx_num_tasks lx) (start_launch lx prep st))"
  by (simp add: launch_offloaded_tasks_def task_step_def start_launch_def Let_def)

lemma do_while_alt:
  "launch_offloaded_tasks_with_do_while lx levels yield_on prep run st =
     (if all_in_only_loop lx levels then single_loop lx yield_on prep run (dw_flag_dev_ptr (levels ! 0)) st
      else map_option snd (run_graph_do_while (lx_num_tasks lx) (lx_graph_do_while_level_per_task lx) levels
             (task_step lx yield_on run) (level_test lx levels) (start_launch lx prep st)))"
  by (simp add: launch_offloaded_tasks_with_do_while_def drive_levels_def all_in_only_loop_def task_step_def level_test_def
      start_launch_def Let_def)

lemma do_while_nested:
  assumes "levels_ok levels" "ids_ok levels (lx_graph_do_while_level_per_task lx) (lx_num_tasks lx)"
    and "\<not> all_in_only_loop lx levels"
  shows "\<exists>bs. nest levels (lx_graph_do_while_level_per_task lx) (-1) 0 bs (lx_num_tasks lx) \<and>
    (\<forall>st st'. launch_offloaded_tasks_with_do_while lx levels yield_on prep run st = Some st' \<longleftrightarrow>
       (\<exists>ok. exec (task_step lx yield_on run) (level_test lx levels) bs (start_launch lx prep st) (ok, st')))"
proof -
  note structured = run_graph_do_while_structured [OF assms(1,2), of "task_step lx yield_on run" "level_test lx levels"]
  then show ?thesis
    using assms(3) by (fastforce simp: do_while_alt)
qed

section \<open>The single loop agrees with the driver\<close>

text \<open>The resume request is read at the start of a pass only.\<close>

lemma task_step_resume_from:
  "task_step lx yield_on run i (st\<lparr>ls_resume_from_checkpoint := x\<rparr>) =
     map_prod id (ls_resume_from_checkpoint_update (\<lambda>_. x)) (task_step lx yield_on run i st)"
  by (auto simp: task_step_def run_gated_task_def run_one_offloaded_task_def Let_def split: prod.splits)

lemma task_loop_resume_from:
  "task_loop (task_step lx yield_on run) i n (st\<lparr>ls_resume_from_checkpoint := x\<rparr>) =
     map_prod id (ls_resume_from_checkpoint_update (\<lambda>_. x)) (task_loop (task_step lx yield_on run) i n st)"
  by (induction n arbitrary: i st) (auto simp: task_step_resume_from split: prod.splits)

text \<open>Within a launch, the recorded yield is the yield signal.\<close>

definition yield_in_sync :: "launcher_ctx \<Rightarrow> launch_state \<Rightarrow> bool" where
  "yield_in_sync lx st \<longleftrightarrow>
     (if lx_has_any_checkpoint lx then ls_last_yield_cp_id st = ls_yield_signal st else ls_last_yield_cp_id st = -1)"

lemma task_step_keeps:
  assumes "task_step lx yield_on run i st = (ok, st')" "\<not> ls_cpu_assert_failed st"
  shows "yield_in_sync lx st \<Longrightarrow> yield_in_sync lx st'" "ok \<longleftrightarrow> \<not> ls_cpu_assert_failed st'"
  using assms
  by (auto simp: task_step_def run_gated_task_def run_one_offloaded_task_def yield_in_sync_def Let_def
      split: prod.splits if_splits)

lemma task_loop_keeps:
  assumes "task_loop (task_step lx yield_on run) i n st = (ok, st')" "\<not> ls_cpu_assert_failed st"
    "yield_in_sync lx st"
  shows "yield_in_sync lx st' \<and> (ok \<longleftrightarrow> \<not> ls_cpu_assert_failed st')"
  using assms
proof (induction n arbitrary: i st)
  case (Suc n)
  obtain ok1 st1 where "task_step lx yield_on run i st = (ok1, st1)" by fastforce
  then show ?case using Suc task_step_keeps by (auto split: if_splits)
qed simp

definition observed :: "launch_state \<Rightarrow> memory \<times> bool \<times> int" where
  "observed st = (ls_mem st, ls_cpu_assert_failed st, ls_last_yield_cp_id st)"

definition runs_again :: "int \<Rightarrow> launch_state \<Rightarrow> bool" where
  "runs_again flag st \<longleftrightarrow> ls_last_yield_cp_id st = -1 \<and> \<not> ls_cpu_assert_failed st \<and> flag_set (ls_mem st) flag"

lemma iterate_tasks:
  "iterate launch cont l (map Task [0..<n]) s r \<longleftrightarrow>
     (case task_loop launch 0 n s of (ok, t) \<Rightarrow>
        if \<not> ok then r = (False, t)
        else case cont l t of (again, u) \<Rightarrow> if again then iterate launch cont l (map Task [0..<n]) u r else r = (True, u))"
proof -
  obtain ok t where t: "task_loop launch 0 n s = (ok, t)" by fastforce
  obtain again u where u: "cont l t = (again, u)" by fastforce
  have body: "exec launch cont (map Task [0..<n]) s r' \<longleftrightarrow> r' = (ok, t)" for r'
    using task_loop_exec [of launch cont 0 n s r'] t by simp
  show ?thesis
    unfolding t using u body
    by (subst iterate_simp) (cases ok; cases again; simp; blast?)
qed

lemma start_in_sync:
  "ls_last_yield_cp_id st = -1 \<Longrightarrow> yield_in_sync lx (start_launch lx prep st) \<and> \<not> ls_cpu_assert_failed (start_launch lx prep st)"
  by (simp add: yield_in_sync_def start_launch_def start_gating_def prepare_offloaded_tasks_def Let_def)

text \<open>One pass: what the driver's test says, and the state both continue from.\<close>

lemma level_test_pass:
  assumes "yield_in_sync lx t"
  shows "\<exists>u. level_test lx levels 0 (t\<lparr>ls_resume_from_checkpoint := x\<rparr>) = (runs_again (dw_flag_dev_ptr (levels ! 0)) t, u) \<and>
    observed u = observed t \<and>
    (runs_again (dw_flag_dev_ptr (levels ! 0)) t \<longrightarrow>
       u = (start_launch lx id (t\<lparr>ls_resume_from_checkpoint := -1\<rparr>))\<lparr>ls_resume_from_checkpoint := x\<rparr>)"
  using assms
  by (cases t; cases "lx_has_any_checkpoint lx") (auto simp: level_test_def continue_level_def continue_level_fast_def yield_in_sync_def runs_again_def
      observed_def start_launch_def start_gating_def prepare_offloaded_tasks_def Let_def)

lemma single_loop_unfold:
  "single_loop lx yield_on prep run flag st =
     (let t = launch_offloaded_tasks lx yield_on prep run st in
      if runs_again flag t then single_loop lx yield_on prep run flag (t\<lparr>ls_resume_from_checkpoint := -1\<rparr>)
      else Some (if ls_last_yield_cp_id t = -1 then t\<lparr>ls_resume_from_checkpoint := -1\<rparr> else t))"
  by (subst single_loop.simps) (simp add: runs_again_def Let_def)

abbreviation drives :: "launcher_ctx \<Rightarrow> do_while_level list \<Rightarrow> int list \<Rightarrow> task_run \<Rightarrow> launch_state \<Rightarrow> bool \<times> launch_state \<Rightarrow> bool" where
  "drives lx levels yield_on run \<equiv>
     iterate (task_step lx yield_on run) (level_test lx levels) 0 (map Task [0..<lx_num_tasks lx])"

text \<open>One pass of the single loop beside one body of the driver.\<close>

lemma pass_facts:
  fixes lx yield_on run st x
  defines "t \<equiv> launch_offloaded_tasks lx yield_on id run st"
  assumes "ls_last_yield_cp_id st = -1"
  shows "\<exists>ok u. task_loop (task_step lx yield_on run) 0 (lx_num_tasks lx)
       ((start_launch lx id st)\<lparr>ls_resume_from_checkpoint := x\<rparr>) = (ok, t\<lparr>ls_resume_from_checkpoint := x\<rparr>) \<and>
     (ok \<longleftrightarrow> \<not> ls_cpu_assert_failed t) \<and>
     level_test lx levels 0 (t\<lparr>ls_resume_from_checkpoint := x\<rparr>) = (runs_again (dw_flag_dev_ptr (levels ! 0)) t, u) \<and>
     observed u = observed t \<and>
     (runs_again (dw_flag_dev_ptr (levels ! 0)) t \<longrightarrow>
        u = (start_launch lx id (t\<lparr>ls_resume_from_checkpoint := -1\<rparr>))\<lparr>ls_resume_from_checkpoint := x\<rparr>)"
proof -
  obtain ok where ok: "task_loop (task_step lx yield_on run) 0 (lx_num_tasks lx) (start_launch lx id st) = (ok, t)"
    unfolding t_def launch_offloaded_tasks_alt by (metis prod.collapse)
  have t: "yield_in_sync lx t" "ok \<longleftrightarrow> \<not> ls_cpu_assert_failed t"
    using task_loop_keeps [OF ok] start_in_sync [OF assms(2)] by blast+
  show ?thesis
    using level_test_pass [OF t(1), of levels x] t(2) ok by (auto simp: task_loop_resume_from)
qed

lemma drives_pass:
  fixes lx yield_on run st x
  defines "t \<equiv> launch_offloaded_tasks lx yield_on id run st"
  assumes "ls_last_yield_cp_id st = -1"
  shows "\<exists>ok u. (\<forall>r. drives lx levels yield_on run ((start_launch lx id st)\<lparr>ls_resume_from_checkpoint := x\<rparr>) r \<longleftrightarrow>
     (if runs_again (dw_flag_dev_ptr (levels ! 0)) t
      then drives lx levels yield_on run
        ((start_launch lx id (t\<lparr>ls_resume_from_checkpoint := -1\<rparr>))\<lparr>ls_resume_from_checkpoint := x\<rparr>) r
      else r = (ok, u))) \<and> observed u = observed t"
proof -
  obtain ok u where u: "task_loop (task_step lx yield_on run) 0 (lx_num_tasks lx)
       ((start_launch lx id st)\<lparr>ls_resume_from_checkpoint := x\<rparr>) = (ok, t\<lparr>ls_resume_from_checkpoint := x\<rparr>)"
     "ok \<longleftrightarrow> \<not> ls_cpu_assert_failed t"
     "level_test lx levels 0 (t\<lparr>ls_resume_from_checkpoint := x\<rparr>) = (runs_again (dw_flag_dev_ptr (levels ! 0)) t, u)"
     "observed u = observed t"
     "runs_again (dw_flag_dev_ptr (levels ! 0)) t \<Longrightarrow>
        u = (start_launch lx id (t\<lparr>ls_resume_from_checkpoint := -1\<rparr>))\<lparr>ls_resume_from_checkpoint := x\<rparr>"
    using pass_facts [OF assms(2)] unfolding t_def by blast
  have "observed (t\<lparr>ls_resume_from_checkpoint := x\<rparr>) = observed t" by (simp add: observed_def)
  then show ?thesis
    using u
    by (subst iterate_tasks, intro exI [of _ ok] exI [of _ "if ok then u else t\<lparr>ls_resume_from_checkpoint := x\<rparr>"])
      (auto simp: runs_again_def)
qed

definition driver_agrees ::
  "do_while_level list \<Rightarrow> int \<Rightarrow> launcher_ctx \<Rightarrow> int list \<Rightarrow> (memory \<Rightarrow> memory) \<Rightarrow> task_run \<Rightarrow> int \<Rightarrow>
   launch_state \<Rightarrow> launch_state \<Rightarrow> bool" where
  "driver_agrees levels x lx yield_on prep run flag st st' \<longleftrightarrow>
     (prep = id \<longrightarrow> flag = dw_flag_dev_ptr (levels ! 0) \<longrightarrow> ls_last_yield_cp_id st = -1 \<longrightarrow>
      (\<exists>ok u. drives lx levels yield_on run ((start_launch lx id st)\<lparr>ls_resume_from_checkpoint := x\<rparr>) (ok, u) \<and>
        observed u = observed st'))"

lemma driver_agrees_stop:
  assumes "\<not> runs_again flag (launch_offloaded_tasks lx yield_on prep run st)"
    "observed st' = observed (launch_offloaded_tasks lx yield_on prep run st)"
  shows "driver_agrees levels x lx yield_on prep run flag st st'"
  unfolding driver_agrees_def
proof (intro impI)
  assume eq: "prep = id" "flag = dw_flag_dev_ptr (levels ! 0)" "ls_last_yield_cp_id st = -1"
  then show "\<exists>ok u. drives lx levels yield_on run ((start_launch lx id st)\<lparr>ls_resume_from_checkpoint := x\<rparr>) (ok, u) \<and>
      observed u = observed st'"
    using drives_pass [OF eq(3), where lx = lx and levels = levels and yield_on = yield_on and run = run and x = x] assms by auto
qed

lemma driver_agrees_again:
  assumes "runs_again flag (launch_offloaded_tasks lx yield_on prep run st)"
    "driver_agrees levels x lx yield_on prep run flag
       ((launch_offloaded_tasks lx yield_on prep run st)\<lparr>ls_resume_from_checkpoint := -1\<rparr>) st'"
  shows "driver_agrees levels x lx yield_on prep run flag st st'"
  unfolding driver_agrees_def
proof (intro impI)
  assume eq: "prep = id" "flag = dw_flag_dev_ptr (levels ! 0)" "ls_last_yield_cp_id st = -1"
  then show "\<exists>ok u. drives lx levels yield_on run ((start_launch lx id st)\<lparr>ls_resume_from_checkpoint := x\<rparr>) (ok, u) \<and>
      observed u = observed st'"
    using drives_pass [OF eq(3), where lx = lx and levels = levels and yield_on = yield_on and run = run and x = x] assms by (auto simp: driver_agrees_def runs_again_def)
qed

lemma single_loop_agrees:
  "single_loop lx yield_on prep run flag st = Some st' \<Longrightarrow> driver_agrees levels x lx yield_on prep run flag st st'"
  by (rule single_loop.raw_induct [where P = "driver_agrees levels x"])
    (auto simp: Let_def runs_again_def observed_def split: if_splits intro: driver_agrees_stop driver_agrees_again)

definition loop_agrees ::
  "launcher_ctx \<Rightarrow> do_while_level list \<Rightarrow> int list \<Rightarrow> task_run \<Rightarrow> launch_state \<Rightarrow> bool \<times> launch_state \<Rightarrow> bool" where
  "loop_agrees lx levels yield_on run s r \<longleftrightarrow>
     (\<forall>st x. s = (start_launch lx id st)\<lparr>ls_resume_from_checkpoint := x\<rparr> \<longrightarrow> ls_last_yield_cp_id st = -1 \<longrightarrow>
        (\<exists>st'. single_loop lx yield_on id run (dw_flag_dev_ptr (levels ! 0)) st = Some st' \<and>
           observed st' = observed (snd r)))"

lemma loop_agrees_pass:
  assumes "task_loop (task_step lx yield_on run) 0 (lx_num_tasks lx) s = (ok, s1)"
    and "if ok then \<exists>again s2. level_test lx levels 0 s1 = (again, s2) \<and>
           (if again then loop_agrees lx levels yield_on run s2 r else r = (True, s2))
         else r = (False, s1)"
  shows "loop_agrees lx levels yield_on run s r"
  unfolding loop_agrees_def
proof (intro allI impI)
  fix st x
  assume s: "s = (start_launch lx id st)\<lparr>ls_resume_from_checkpoint := x\<rparr>" "ls_last_yield_cp_id st = -1"
  let ?t = "launch_offloaded_tasks lx yield_on id run st"
  let ?flag = "dw_flag_dev_ptr (levels ! 0)"
  obtain u where u: "s1 = ?t\<lparr>ls_resume_from_checkpoint := x\<rparr>" "ok \<longleftrightarrow> \<not> ls_cpu_assert_failed ?t"
     "level_test lx levels 0 s1 = (runs_again ?flag ?t, u)" "observed u = observed ?t"
     "runs_again ?flag ?t \<Longrightarrow> u = (start_launch lx id (?t\<lparr>ls_resume_from_checkpoint := -1\<rparr>))\<lparr>ls_resume_from_checkpoint := x\<rparr>"
    using pass_facts [OF s(2), where lx = lx and levels = levels and yield_on = yield_on and run = run and x = x]
      assms(1) s(1) by auto
  show "\<exists>st'. single_loop lx yield_on id run ?flag st = Some st' \<and> observed st' = observed (snd r)"
  proof (cases "runs_again ?flag ?t")
    case True
    then have "loop_agrees lx levels yield_on run u r" using assms(2) u(2,3) by (auto simp: runs_again_def split: if_splits)
    then show ?thesis using True u(5) by (subst single_loop_unfold) (auto simp: loop_agrees_def runs_again_def Let_def)
  next
    case False
    then have "observed (snd r) = observed ?t" using assms(2) u by (auto simp: observed_def split: if_splits)
    then show ?thesis using False by (subst single_loop_unfold) (auto simp: observed_def Let_def)
  qed
qed

lemma drives_agrees:
  "iterate (task_step lx yield_on run) (level_test lx levels) l body s r \<Longrightarrow>
     l = 0 \<longrightarrow> body = map Task [0..<lx_num_tasks lx] \<longrightarrow> loop_agrees lx levels yield_on run s r"
proof (induction rule: exec_iterate.inducts(2) [where ?P1.0 = "\<lambda>_ _ _. True"])
  case (iterate_abort body s s' l)
  then show ?case
    using task_loop_exec [of "task_step lx yield_on run" "level_test lx levels" 0 "lx_num_tasks lx" s "(False, s')"]
    by (intro impI loop_agrees_pass [where ok = False and ?s1.0 = s']) auto
next
  case (iterate_exit body s s1 l s2)
  then show ?case
    using task_loop_exec [of "task_step lx yield_on run" "level_test lx levels" 0 "lx_num_tasks lx" s "(True, s1)"]
    by (intro impI loop_agrees_pass [where ok = True and ?s1.0 = s1]) auto
next
  case (iterate_again body s s1 l s2 r)
  then show ?case
    using task_loop_exec [of "task_step lx yield_on run" "level_test lx levels" 0 "lx_num_tasks lx" s "(True, s1)"]
    by (intro impI loop_agrees_pass [where ok = True and ?s1.0 = s1]) auto
qed simp_all

lemma single_loop_driver:
  assumes "ls_last_yield_cp_id st = -1"
  shows "(\<exists>st'. single_loop lx yield_on id run (dw_flag_dev_ptr (levels ! 0)) st = Some st' \<and> observed st' = obs) \<longleftrightarrow>
    (\<exists>ok st'. exec (task_step lx yield_on run) (level_test lx levels) [Loop 0 (map Task [0..<lx_num_tasks lx])]
       (start_launch lx id st) (ok, st') \<and> observed st' = obs)"
proof -
  have start: "(start_launch lx id st)\<lparr>ls_resume_from_checkpoint := ls_resume_from_checkpoint (start_launch lx id st)\<rparr> =
      start_launch lx id st" by simp
  have exec: "exec (task_step lx yield_on run) (level_test lx levels) [Loop 0 (map Task [0..<lx_num_tasks lx])] s (ok, u) \<longleftrightarrow>
      drives lx levels yield_on run s (ok, u)" for s ok u
    by (cases ok) (auto simp: exec_simps)
  show ?thesis
    unfolding exec
    using single_loop_agrees [of lx yield_on id run "dw_flag_dev_ptr (levels ! 0)" st _ levels
        "ls_resume_from_checkpoint (start_launch lx id st)"]
      drives_agrees [of lx yield_on run levels 0 "map Task [0..<lx_num_tasks lx]" "start_launch lx id st"]
      assms start
    unfolding driver_agrees_def loop_agrees_def by (metis snd_conv)
qed

lemma drive_levels_alt:
  "drive_levels lx levels yield_on prep run st =
     map_option snd (run_graph_do_while (lx_num_tasks lx) (lx_graph_do_while_level_per_task lx) levels
       (task_step lx yield_on run) (level_test lx levels) (start_launch lx prep st))"
  by (simp add: drive_levels_def task_step_def level_test_def start_launch_def Let_def)

lemma single_loop_drives:
  assumes "levels_ok levels" "ids_ok levels (lx_graph_do_while_level_per_task lx) (lx_num_tasks lx)" "all_in_only_loop lx levels"
    and "length (lx_graph_do_while_level_per_task lx) = lx_num_tasks lx" "0 < lx_num_tasks lx" "ls_last_yield_cp_id st = -1"
  shows "(\<exists>st'. launch_offloaded_tasks_with_do_while lx levels yield_on id run st = Some st' \<and> observed st' = obs) \<longleftrightarrow>
    (\<exists>st'. drive_levels lx levels yield_on id run st = Some st' \<and> observed st' = obs)"
proof -
  let ?ids = "lx_graph_do_while_level_per_task lx"
  have "?ids ! t = 0" if "t < lx_num_tasks lx" for t
  proof -
    have "level_id levels (?ids ! t)" "\<not> ?ids ! t < 0" "length levels = 1"
      using assms(2-4) that by (auto simp: ids_ok_def all_in_only_loop_def list_ex_length)
    then show ?thesis by (simp add: level_id_def)
  qed
  then have "nest levels ?ids (-1) 0 [Loop 0 (map Task [0..<lx_num_tasks lx])] (lx_num_tasks lx)"
    using nest_single_loop [OF assms(1) _ assms(5)] assms(3) by (simp add: all_in_only_loop_def)
  note driver = run_graph_do_while_nest [OF assms(1,2) this]
  show ?thesis
    using single_loop_driver [OF assms(6), of lx yield_on run levels obs] assms(3)
    by (simp add: do_while_alt drive_levels_alt driver) blast
qed

text \<open>
  A yield recorded by an earlier launch is not cleared for a kernel that cannot yield, and its loop
  then runs once whatever its flag says.
\<close>

lemma stale_yield_one_pass:
  assumes "ls_last_yield_cp_id st \<noteq> -1" "\<not> lx_has_any_checkpoint lx"
  shows "single_loop lx yield_on prep run flag st = Some (launch_offloaded_tasks lx yield_on prep run st)"
proof -
  have "ls_last_yield_cp_id (snd (task_loop (run_one_offloaded_task run) i n s)) = ls_last_yield_cp_id s" for i n s
    by (induction n arbitrary: i s) (auto simp: run_one_offloaded_task_def Let_def split: prod.splits)
  then show ?thesis
    using assms by (subst single_loop.simps) (simp add: launch_offloaded_tasks_def prepare_offloaded_tasks_def Let_def)
qed

section \<open>A yield unwinds every loop\<close>

text \<open>The tasks of a program in order, each loop body once, and the ones outside every checkpoint.\<close>

fun block_tasks :: "block \<Rightarrow> nat list" where
  "block_tasks (Task i) = [i]"
| "block_tasks (Loop l bs) = concat (map block_tasks bs)"

definition outside_checkpoints :: "launcher_ctx \<Rightarrow> nat \<Rightarrow> bool" where
  "outside_checkpoints lx i \<longleftrightarrow>
     \<not> (i < length (lx_checkpoint_id_per_task lx) \<and> 0 \<le> lx_checkpoint_id_per_task lx ! i)"

definition task_mem :: "task_run \<Rightarrow> nat \<Rightarrow> memory \<Rightarrow> memory" where
  "task_mem run i m = fst (run i m)"

definition no_asserts :: "task_run \<Rightarrow> bool" where
  "no_asserts run \<longleftrightarrow> (\<forall>i m. \<not> snd (run i m))"

lemma no_assertsD:
  assumes "no_asserts run"
  obtains m' where "run i m = (m', False)"
  using assms unfolding no_asserts_def by (metis eq_snd_iff)

definition yielded_rest :: "launcher_ctx \<Rightarrow> task_run \<Rightarrow> nat list \<Rightarrow> launch_state \<Rightarrow> launch_state \<Rightarrow> bool" where
  "yielded_rest lx run ts st st' \<longleftrightarrow>
     ls_mem st' = fold (task_mem run) (filter (outside_checkpoints lx) ts) (ls_mem st) \<and>
     ls_yield_signal st' = ls_yield_signal st \<and> ls_last_yield_cp_id st' = ls_last_yield_cp_id st \<and>
     \<not> ls_cpu_assert_failed st'"

lemma gated_task_yielded:
  assumes "ls_yield_signal st \<noteq> -1" "\<not> ls_cpu_assert_failed st" "no_asserts run"
  shows "\<exists>st'. run_gated_task lx yield_on run i st = (True, st') \<and> yielded_rest lx run [i] st st'"
proof -
  obtain m where "run i (ls_mem st) = (m, False)" using no_assertsD [OF assms(3)] .
  then show ?thesis
    using assms(1,2)
    by (auto simp: run_gated_task_def run_one_offloaded_task_def yielded_rest_def outside_checkpoints_def task_mem_def Let_def)
qed

lemma yielded_rest_append:
  "yielded_rest lx run ts st st1 \<Longrightarrow> yielded_rest lx run us st1 st2 \<Longrightarrow> yielded_rest lx run (ts @ us) st st2"
  by (simp add: yielded_rest_def)

lemma yield_unwinds:
  assumes "ls_yield_signal st \<noteq> -1" "\<not> ls_cpu_assert_failed st" "no_asserts run"
  shows "\<exists>st'. exec (run_gated_task lx yield_on run) (continue_level levels) bs st (True, st') \<and>
    yielded_rest lx run (concat (map block_tasks bs)) st st'"
  using assms(1,2)
proof (induction "size_list size bs" arbitrary: bs st rule: less_induct)
  case less
  let ?exec = "exec (run_gated_task lx yield_on run) (continue_level levels)"
  show ?case
  proof (cases bs)
    case Nil
    then show ?thesis using less.prems by (intro exI [of _ st]) (auto simp: yielded_rest_def exec_nil)
  next
    case (Cons b bs')
    have "\<exists>st1. (\<forall>r. ?exec bs' st1 r \<longrightarrow> ?exec (b # bs') st r) \<and> yielded_rest lx run (block_tasks b) st st1"
    proof (cases b)
      case (Task i)
      then show ?thesis
        using gated_task_yielded [where st = st and run = run and lx = lx and yield_on = yield_on and i = i] less.prems assms(3) by (auto simp: exec_simps)
    next
      case (Loop l body)
      obtain st1 where st1: "?exec body st (True, st1)" "yielded_rest lx run (concat (map block_tasks body)) st st1"
        using less.hyps [of body st] less.prems Cons Loop by auto
      let ?st2 = "st1\<lparr>ls_resume_point := 0\<rparr>"
      have "ls_yield_signal st1 \<noteq> -1" using st1(2) less.prems by (simp add: yielded_rest_def)
      then have "continue_level levels l st1 = (False, ?st2)" by (simp add: continue_level_def Let_def)
      then have "iterate (run_gated_task lx yield_on run) (continue_level levels) l body st (True, ?st2)"
        using st1(1) by (rule iterate_exit [rotated])
      moreover have "yielded_rest lx run (concat (map block_tasks body)) st ?st2"
        using st1(2) by (simp add: yielded_rest_def)
      ultimately show ?thesis using Loop by (auto intro: exec_loop)
    qed
    then obtain st1 where st1: "\<And>r. ?exec bs' st1 r \<Longrightarrow> ?exec (b # bs') st r" "yielded_rest lx run (block_tasks b) st st1"
      by blast
    then obtain st2 where "?exec bs' st1 (True, st2)" "yielded_rest lx run (concat (map block_tasks bs')) st1 st2"
      using less.hyps [of bs' st1] less.prems Cons by (auto simp: yielded_rest_def)
    then show ?thesis using st1 yielded_rest_append Cons by fastforce
  qed
qed

section \<open>What a launch with checkpoints runs\<close>

definition cp_of :: "launcher_ctx \<Rightarrow> nat \<Rightarrow> int" where
  "cp_of lx i = (if i < length (lx_checkpoint_id_per_task lx) then lx_checkpoint_id_per_task lx ! i else -1)"

text \<open>The tasks a launch resumed at \<open>rp\<close> does not skip, and the test made after the last task of a checkpoint.\<close>

definition selected :: "launcher_ctx \<Rightarrow> int \<Rightarrow> nat \<Rightarrow> bool" where
  "selected lx rp i \<longleftrightarrow> cp_of lx i < 0 \<or> rp \<le> cp_of lx i"

definition yields_at :: "launcher_ctx \<Rightarrow> int list \<Rightarrow> nat \<Rightarrow> memory \<Rightarrow> bool" where
  "yields_at lx yield_on i m \<longleftrightarrow>
     0 \<le> cp_of lx i \<and> i < length (lx_is_last_task_of_yielding_checkpoint lx) \<and>
     lx_is_last_task_of_yielding_checkpoint lx ! i \<and> nat (cp_of lx i) < length yield_on \<and>
     yield_on ! nat (cp_of lx i) \<noteq> 0 \<and> flag_set m (yield_on ! nat (cp_of lx i))"

lemma outside_checkpoints_cp: "outside_checkpoints lx i \<longleftrightarrow> cp_of lx i < 0"
  by (auto simp: outside_checkpoints_def cp_of_def)

lemma gated_step:
  assumes "ls_yield_signal st = -1" "\<not> ls_cpu_assert_failed st" "no_asserts run"
  shows "run_gated_task lx yield_on run i st =
    (True, if \<not> selected lx (ls_resume_point st) i then st
           else let st' = st\<lparr>ls_mem := task_mem run i (ls_mem st)\<rparr> in
             if yields_at lx yield_on i (ls_mem st')
             then st'\<lparr>ls_yield_signal := cp_of lx i, ls_last_yield_cp_id := cp_of lx i\<rparr> else st')"
proof -
  obtain m where m: "run i (ls_mem st) = (m, False)" using no_assertsD [OF assms(3)] .
  show ?thesis
    unfolding run_gated_task_def cp_of_def [symmetric]
    using assms(1,2) m
    by (cases st) (auto simp: selected_def yields_at_def run_one_offloaded_task_def task_mem_def Let_def)
qed

text \<open>Up to task \<open>k\<close> the selected tasks run; from \<open>k\<close> on, after a yield, only those outside every checkpoint.\<close>

definition gated_schedule :: "launcher_ctx \<Rightarrow> int \<Rightarrow> nat \<Rightarrow> nat \<Rightarrow> nat \<Rightarrow> nat list" where
  "gated_schedule lx rp i k j = filter (selected lx rp) [i..<k] @ filter (outside_checkpoints lx) [k..<j]"

text \<open>
  The first task from \<open>i\<close> on, before \<open>j\<close>, after which the launch yields: it is selected, ends a checkpoint and
  leaves the flag of that checkpoint set, in the memory the selected tasks up to it produce from \<open>m\<close>.
\<close>

definition first_yield :: "launcher_ctx \<Rightarrow> int list \<Rightarrow> task_run \<Rightarrow> int \<Rightarrow> nat \<Rightarrow> nat \<Rightarrow> memory \<Rightarrow> nat option" where
  "first_yield lx yield_on run rp i j m =
     find (\<lambda>k. selected lx rp k \<and> yields_at lx yield_on k (fold (task_mem run) (filter (selected lx rp) [i..<Suc k]) m)) [i..<j]"

definition launch_outcome ::
  "launcher_ctx \<Rightarrow> int list \<Rightarrow> task_run \<Rightarrow> int \<Rightarrow> nat \<Rightarrow> nat \<Rightarrow> memory \<Rightarrow> memory \<times> int" where
  "launch_outcome lx yield_on run rp i j m =
     (case first_yield lx yield_on run rp i j m of
        None \<Rightarrow> (fold (task_mem run) (filter (selected lx rp) [i..<j]) m, -1)
      | Some k \<Rightarrow> (fold (task_mem run) (gated_schedule lx rp i (Suc k) j) m, cp_of lx k))"

lemma selected_Cons:
  "i < k \<Longrightarrow> fold (task_mem run) (filter (selected lx rp) [i..<k]) m =
     fold (task_mem run) (filter (selected lx rp) [Suc i..<k]) (if selected lx rp i then task_mem run i m else m)"
  by (simp add: upt_conv_Cons)

lemma first_yield_Cons:
  assumes "i < j"
  shows "first_yield lx yield_on run rp i j m =
    (if selected lx rp i \<and> yields_at lx yield_on i (task_mem run i m) then Some i
     else first_yield lx yield_on run rp (Suc i) j (if selected lx rp i then task_mem run i m else m))"
proof -
  have "find (\<lambda>k. selected lx rp k \<and> yields_at lx yield_on k (fold (task_mem run) (filter (selected lx rp) [i..<Suc k]) m)) [Suc i..<j] =
      first_yield lx yield_on run rp (Suc i) j (if selected lx rp i then task_mem run i m else m)"
    unfolding first_yield_def by (rule find_cong) (simp_all add: selected_Cons)
  moreover have "[i..<j] = i # [Suc i..<j]"
    using assms by (simp add: upt_conv_Cons)
  ultimately show ?thesis
    by (simp add: first_yield_def)
qed

lemma schedule_Cons:
  "i < k \<Longrightarrow> gated_schedule lx rp i k j = (if selected lx rp i then [i] else []) @ gated_schedule lx rp (Suc i) k j"
  by (simp add: gated_schedule_def upt_conv_Cons)

lemma first_yield_bounds: "first_yield lx yield_on run rp i j m = Some k \<Longrightarrow> i \<le> k \<and> k < j"
  by (auto simp: first_yield_def find_Some_iff)

lemma first_yield_cp: "first_yield lx yield_on run rp i j m = Some k \<Longrightarrow> 0 \<le> cp_of lx k"
  by (auto simp: first_yield_def find_Some_iff yields_at_def)

lemma launch_outcome_Cons:
  assumes "i < j" "\<not> (selected lx rp i \<and> yields_at lx yield_on i (task_mem run i m))"
  shows "launch_outcome lx yield_on run rp i j m =
    launch_outcome lx yield_on run rp (Suc i) j (if selected lx rp i then task_mem run i m else m)"
proof (cases "first_yield lx yield_on run rp i j m")
  case None
  then show ?thesis
    using assms by (auto simp: launch_outcome_def first_yield_Cons [of i j] selected_Cons [of i j])
next
  case (Some k)
  then have "first_yield lx yield_on run rp (Suc i) j (if selected lx rp i then task_mem run i m else m) = Some k"
    using assms(2) by (simp only: first_yield_Cons [OF assms(1)] if_False)
  moreover from first_yield_bounds [OF this] have "i < Suc k" by simp
  ultimately show ?thesis
    using Some by (simp add: launch_outcome_def schedule_Cons [of i "Suc k"])
qed

lemma yielded_task_loop:
  assumes "ls_yield_signal st \<noteq> -1" "\<not> ls_cpu_assert_failed st" "no_asserts run"
  shows "\<exists>st'. task_loop (run_gated_task lx yield_on run) i n st = (True, st') \<and> yielded_rest lx run [i..<i + n] st st'"
proof -
  have tasks: "concat (map block_tasks (map Task xs)) = xs" for xs by (induction xs) auto
  show ?thesis
    using yield_unwinds [OF assms, where lx = lx and yield_on = yield_on and levels = "[]" and bs = "map Task [i..<i + n]"] unfolding tasks task_loop_exec by metis
qed

lemma gated_task_loop:
  assumes "ls_yield_signal st = -1" "\<not> ls_cpu_assert_failed st" "no_asserts run" "ls_last_yield_cp_id st = -1"
  shows "\<exists>st'. task_loop (run_gated_task lx yield_on run) i n st = (True, st') \<and>
    (ls_mem st', ls_last_yield_cp_id st') = launch_outcome lx yield_on run (ls_resume_point st) i (i + n) (ls_mem st)"
  using assms(1,2,4)
proof (induction n arbitrary: i st)
  case 0
  then show ?case by (simp add: launch_outcome_def first_yield_def)
next
  case (Suc n)
  let ?rp = "ls_resume_point st"
  let ?st1 = "if selected lx ?rp i then st\<lparr>ls_mem := task_mem run i (ls_mem st)\<rparr> else st"
  show ?case
  proof (cases "selected lx ?rp i \<and> yields_at lx yield_on i (task_mem run i (ls_mem st))")
    case True
    let ?st2 = "?st1\<lparr>ls_yield_signal := cp_of lx i, ls_last_yield_cp_id := cp_of lx i\<rparr>"
    have "run_gated_task lx yield_on run i st = (True, ?st2)"
      using gated_step [OF Suc.prems(1,2) assms(3)] True by (auto simp: Let_def)
    moreover obtain st' where st': "task_loop (run_gated_task lx yield_on run) (Suc i) n ?st2 = (True, st')"
        "yielded_rest lx run [Suc i..<Suc i + n] ?st2 st'"
      using yielded_task_loop [of ?st2 run lx yield_on "Suc i" n] True Suc.prems(2) assms(3) by (auto simp: yields_at_def)
    moreover have "(ls_mem st', ls_last_yield_cp_id st') = launch_outcome lx yield_on run ?rp i (i + Suc n) (ls_mem st)"
      using st'(2) True by (simp add: launch_outcome_def first_yield_Cons yielded_rest_def gated_schedule_def)
    ultimately show ?thesis by auto
  next
    case False
    then have step: "run_gated_task lx yield_on run i st = (True, ?st1)"
      using gated_step [OF Suc.prems(1,2) assms(3)] by (auto simp: Let_def)
    have "ls_yield_signal ?st1 = -1" "\<not> ls_cpu_assert_failed ?st1" "ls_last_yield_cp_id ?st1 = -1" using Suc.prems by auto
    from Suc.IH [OF this, of "Suc i"] show ?thesis
      using step False by (auto simp: launch_outcome_Cons split: if_splits)
  qed
qed

lemma gated_launch:
  assumes "lx_has_any_checkpoint lx" "no_asserts run" "ls_last_yield_cp_id st = -1"
    and "st' = launch_offloaded_tasks lx yield_on prep run st"
  shows "(ls_mem st', ls_last_yield_cp_id st') =
    launch_outcome lx yield_on run (max 0 (ls_resume_from_checkpoint st)) 0 (lx_num_tasks lx) (prep (ls_mem st))"
proof -
  let ?st = "start_gating (prepare_offloaded_tasks prep st)"
  have st: "ls_yield_signal ?st = -1" "\<not> ls_cpu_assert_failed ?st" "ls_resume_point ?st = max 0 (ls_resume_from_checkpoint st)"
    "ls_mem ?st = prep (ls_mem st)" "ls_last_yield_cp_id ?st = -1"
    using assms(3) by (auto simp: start_gating_def prepare_offloaded_tasks_def)
  show ?thesis
    using gated_task_loop [OF st(1,2) assms(2) st(5), where lx = lx and yield_on = yield_on and i = 0 and n = "lx_num_tasks lx"]
      st(3,4) assms(1,4) by (auto simp: launch_offloaded_tasks_def Let_def)
qed

section \<open>Leaving a loop\<close>

lemma iterate_drops_resume:
  "iterate launch (continue_level levels) l body s r \<Longrightarrow> fst r \<longrightarrow> ls_resume_point (snd r) = 0"
  by (induction rule: exec_iterate.inducts(2) [where ?P1.0 = "\<lambda>_ _ _. True"])
    (auto simp: continue_level_def Let_def split: if_splits)

lemma loop_exit_reruns:
  assumes "exec (run_gated_task lx yield_on run) (continue_level levels) [Loop l body] st (True, st')"
    and "ls_yield_signal st' = -1"
  shows "ls_resume_point st' = 0 \<and>
    ls_mem (snd (run_gated_task lx yield_on run i st')) = fst (run i (ls_mem st'))"
proof -
  have "ls_resume_point st' = 0"
    using assms(1) iterate_drops_resume by (fastforce simp: exec_simps)
  then show ?thesis
    using assms(2) by (auto simp: run_gated_task_def run_one_offloaded_task_def Let_def split: prod.splits)
qed

lemma stale_yield_launch:
  assumes "ls_last_yield_cp_id st \<noteq> -1" "\<not> lx_has_any_checkpoint lx" "all_in_only_loop lx levels"
    and "dw_flag_dev_ptr (levels ! 0) \<noteq> 0"
  shows "launch_llvm_kernel lx levels arrays yield_on_arg_ids prep run st =
    Inr (Some (launch_offloaded_tasks lx [] prep run st))"
proof -
  obtain l where "levels = [l]" using assms(3) by (auto simp: all_in_only_loop_def length_Suc_conv)
  then show ?thesis
    using assms(2-4) stale_yield_one_pass [OF assms(1,2)]
    by (simp add: launch_llvm_kernel_def do_while_alt guardE_def Let_def)
qed

end
