(* ===== verification/SampleRuns.thy ===== *)
theory SampleRuns
  imports Samples SizerCorrect AdStackLayout AdStackOps CacheLaws Registry Diagnose MaxReducer MaxReduceRuntime CpuLauncher
begin

text \<open>
  Concrete states that instantiate the theorems of the other components: the launch of
  \<open>sample_env\<close> with an empty cache, its bytecode in memory, an adstack in memory, a reducer body
  and a registry with one task.
\<close>

section \<open>A world for the cache\<close>

definition sample_world :: world where
  "sample_world = \<lparr>wd_prog = sample_prog, wd_mem = sample_mem, wd_ext = (\<lambda>p. if p = 1000 then 12 else 0),
     wd_shape = (\<lambda>_ _. 0), wd_cache = empty_cache, wd_pending_snodes = {}, wd_pending_ptrs = {}\<rparr>"

lemma sample_env_at: "env_at sample_world sample_ctx = sample_env"
  by (simp add: env_at_def sample_world_def sample_env_def)

lemma sample_tree_reads: "tree_reads sample_tree = {([0], 1)}" "tree_snodes sample_tree = {7}"
  by (auto simp: sample_tree_def)

lemma sample_ptrs: "tree_ptrs sample_ctx sample_tree = {1000}"
  by (auto simp: tree_ptrs_def sample_tree_reads sample_ctx_def data_ptr_of_def)

lemma sample_reads_within: "reads_within (wd_ext sample_world) sample_env sample_tree Map.empty"
  by code_simp

lemma sample_can_evaluate: "can_evaluate sample_world sample_ctx sample_tree"
  unfolding can_evaluate_def sample_env_at
  using sample_fits sample_readable sample_reads_within
  by (auto simp: shapes_agree_def sample_tree_reads sample_ptrs) (simp_all add: sample_world_def)

lemma sample_run: "cache_run (\<lambda>_. sample_tree) sample_world"
  by (rule cache_run.start) (simp add: sample_world_def)

text \<open>The cache after one evaluation of the tree, and the world with it.\<close>

definition sample_cached :: adstack_cache where
  "sample_cached =
     (case evaluate_adstack_size_expr 3 (serialize sample_tree) sample_env None empty_cache of
        Inr (_, _, ac) \<Rightarrow> ac | Inl _ \<Rightarrow> empty_cache)"

definition sample_obs :: "read_obs list" where
  "sample_obs = snd (the (ac_size_expr sample_cached 3))"

definition sample_world_cached :: world where
  "sample_world_cached = sample_world\<lparr>wd_cache := sample_cached\<rparr>"

lemma sample_run_cached: "cache_run (\<lambda>_. sample_tree) sample_world_cached"
proof -
  have "map_sum id fst (evaluate_adstack_size_expr 3 (serialize sample_tree) sample_env None empty_cache) = Inr 14"
    by code_simp
  then obtain c ac where "evaluate_adstack_size_expr 3 (serialize sample_tree) sample_env None empty_cache = Inr (14, c, ac)"
    by (cases "evaluate_adstack_size_expr 3 (serialize sample_tree) sample_env None empty_cache") auto
  then show ?thesis
    using cache_run.evaluate [OF sample_run sample_can_evaluate, of None 3] sample_env_at
    by (simp add: sample_world_cached_def sample_cached_def sample_world_def)
qed

lemma sample_can_evaluate_cached: "can_evaluate sample_world_cached sample_ctx sample_tree"
  using sample_can_evaluate
  by (simp add: can_evaluate_def sample_world_cached_def env_at_def shapes_agree_def)

lemma sample_entry: "ac_size_expr sample_cached 3 = Some (14, sample_obs)"
  by code_simp

lemma sample_replay: "replay_all sample_obs (genv_at sample_world_cached sample_ctx) = Inr True"
  by code_simp

section \<open>Bytecode in memory\<close>

definition sample_headers :: "dev_stack_header list" where
  "sample_headers = [\<lparr>dh_root_node_idx = -1, dh_entry_size_bytes = 8, dh_max_size_compile_time = 0, dh_heap_kind = 0\<rparr>,
     \<lparr>dh_root_node_idx = -1, dh_entry_size_bytes = 4, dh_max_size_compile_time = 16, dh_heap_kind = 1\<rparr>]"

definition sample_slots :: "ser_expr option list" where
  "sample_slots = [Some (serialize sample_tree), None]"

text \<open>What the encoder makes of the two stacks: the shape and the field fold to constants.\<close>

definition sample_dev_nodes :: "dev_node list" where
  "sample_dev_nodes =
     [(make_empty_device_node kConst),
      (make_empty_device_node kConst)\<lparr>dn_const_value := 3\<rparr>,
      (make_empty_device_node kExternalTensorRead)\<lparr>dn_prim_dt := 5, dn_arg_buffer_offset := 8, dn_indices_count := 1\<rparr>,
      (make_empty_device_node kConst)\<lparr>dn_const_value := 1\<rparr>,
      (make_empty_device_node kAdd)\<lparr>dn_operand_a := 2, dn_operand_b := 3\<rparr>,
      (make_empty_device_node kMaxOverRange)\<lparr>dn_operand_a := 0, dn_operand_b := 1, dn_body_node_idx := 4, dn_var_id := 0\<rparr>,
      (make_empty_device_node kConst)\<lparr>dn_const_value := 9\<rparr>,
      (make_empty_device_node kAdd)\<lparr>dn_operand_a := 5, dn_operand_b := 6\<rparr>]"

definition sample_dev_indices :: "int list" where
  "sample_dev_indices = [-1, 1]"

definition sample_dev_headers :: "dev_stack_header list" where
  "sample_dev_headers = [(sample_headers ! 0)\<lparr>dh_root_node_idx := 7\<rparr>, sample_headers ! 1]"

definition sample_blob :: "8 word list" where
  "sample_blob = pack_bytecode sample_dev_headers sample_dev_nodes sample_dev_indices"

definition sample_blob_mem :: memory where
  "sample_blob_mem a = (if 4000 \<le> a \<and> a < 4440 then sample_blob ! nat (a - 4000) else sample_mem a)"

definition sample_blob_env :: env where
  "sample_blob_env = sample_env\<lparr>en_mem := sample_blob_mem\<rparr>"

definition sample_dev :: dev_env where
  "sample_dev = \<lparr>de_mem = sample_blob_mem, de_arg_buffer = 2000, de_roots = None\<rparr>"

lemma sample_encode:
  "\<exists>st. encode_stacks sample_blob_env None 0 (zip sample_headers sample_slots)
          \<lparr>ec_nodes = [], ec_indices = [], ec_cache = None, ec_reads = None\<rparr> = Inr (sample_dev_headers, st) \<and>
        ec_nodes st = sample_dev_nodes \<and> ec_indices st = sample_dev_indices"
proof -
  let ?r = "encode_stacks sample_blob_env None 0 (zip sample_headers sample_slots)
        \<lparr>ec_nodes = [], ec_indices = [], ec_cache = None, ec_reads = None\<rparr>"
  have "map_sum id (\<lambda>(shs, st). (shs, ec_nodes st, ec_indices st))
      (encode_stacks sample_blob_env None 0 (zip sample_headers sample_slots)
        \<lparr>ec_nodes = [], ec_indices = [], ec_cache = None, ec_reads = None\<rparr>) =
      Inr (sample_dev_headers, sample_dev_nodes, sample_dev_indices)"
    by code_simp
  then show ?thesis by (cases ?r) auto
qed

lemma sample_blob_length: "length sample_blob = 440"
  by code_simp

lemma sample_blob_in_memory: "reads_as (de_mem sample_dev) 4000 sample_blob"
  by (simp add: reads_as_def sample_dev_def sample_blob_mem_def sample_blob_length)

lemma sample_blob_fits: 
  "ec_nodes st = sample_dev_nodes \<Longrightarrow> ec_indices st = sample_dev_indices \<Longrightarrow> blob_fits sample_dev_headers st"
  by (simp add: blob_fits_def sample_dev_nodes_def sample_dev_indices_def sample_dev_headers_def
      sample_headers_def header_fits_def node_fits_def fits32_def fits64_def fits_u32_def
      make_empty_device_node_def device_kind_defs)

definition sample_runtime :: adstack_runtime where
  "sample_runtime = \<lparr>ar_max_sizes = (\<lambda>_. 0), ar_offsets = (\<lambda>_. 0), ar_per_thread_stride = 0,
     ar_per_thread_stride_float = 0, ar_per_thread_stride_int = 0\<rparr>"

lemma sample_env_caps:
  "de_mem sample_dev = en_mem sample_blob_env" "max_over_range_iterations sample_blob_env = 2 ^ 24"
  by (simp_all add: sample_dev_def sample_blob_env_def sample_env_def sample_prog_def max_over_range_iterations_def)

lemma sample_slot_trees: "list_all2 slot_tree sample_slots [Some sample_tree, None]"
  by (simp add: sample_slots_def slot_tree_def sample_fits serialize_represents)

lemma sample_tree_ok: "list_all (tree_ok sample_blob_env sample_dev) [Some sample_tree, None]"
  by code_simp

lemma sample_value_blob: "size_value sample_blob_env sample_tree Map.empty = Inr 14"
  by code_simp

lemma sample_capacities:
  "list_all2 (\<lambda>(h, t) m. capacity sample_blob_env h t m) (zip sample_headers [Some sample_tree, None]) [14, 16]"
  by (simp add: sample_headers_def capacity_def sample_value_blob)

lemma sample_sized:
  "runtime_eval_adstack_size_expr sample_dev 4000 sample_runtime =
     Inr (publish_layout sample_dev_headers [14, 16] 0 0 0 sample_runtime)"
proof -
  obtain st where "encode_stacks sample_blob_env None 0 (zip sample_headers sample_slots)
      \<lparr>ec_nodes = [], ec_indices = [], ec_cache = None, ec_reads = None\<rparr> = Inr (sample_dev_headers, st)"
      "ec_nodes st = sample_dev_nodes" "ec_indices st = sample_dev_indices"
    using sample_encode by blast
  then show ?thesis
    using sizer_correct [OF _ _ sample_blob_fits _ sample_slot_trees sample_tree_ok sample_capacities]
      sample_blob_in_memory sample_env_caps
    by (simp add: sample_blob_def sample_headers_def sample_slots_def)
qed

lemma sample_blob_headers: "blob_headers (de_mem sample_dev) 4000 = sample_dev_headers"
proof -
  obtain st :: enc_state where "ec_nodes st = sample_dev_nodes" "ec_indices st = sample_dev_indices"
    using sample_encode by blast
  then have "blob_fits sample_dev_headers st" by (rule sample_blob_fits)
  then show ?thesis
    using unpack_bytecode(1,3) [OF sample_blob_in_memory [unfolded sample_blob_def]]
      \<open>ec_nodes st = _\<close> \<open>ec_indices st = _\<close>
    by (auto simp: blob_headers_def blob_fits_def reads_as_def intro: nth_equalityI)
qed

lemma sample_layout_fits: "layout_fits sample_dev_headers [14, 16]"
  by (simp add: layout_fits_def sample_dev_headers_def sample_headers_def slice_bytes_def adstack_step_def
      align_up_8_def u64_def)

lemma sample_blob_parts_fit:
  "list_all header_fits sample_dev_headers" "list_all node_fits sample_dev_nodes" "list_all fits32 sample_dev_indices"
proof -
  obtain st :: enc_state where "ec_nodes st = sample_dev_nodes" "ec_indices st = sample_dev_indices"
    using sample_encode by blast
  with sample_blob_fits [OF this] show "list_all header_fits sample_dev_headers"
    "list_all node_fits sample_dev_nodes" "list_all fits32 sample_dev_indices"
    by (simp_all add: blob_fits_def)
qed

section \<open>An adstack of capacity one\<close>

definition sample_machine :: stack_machine where
  "sample_machine = \<lparr>sm_mem = sample_mem, sm_overflow_flag_ptr = 9000, sm_overflow_task_id_ptr = 9008\<rparr>"

lemma sample_slots_outside: "slots_outside 8000 1 4 sample_machine"
  by (simp add: slots_outside_def slice_end_def sample_machine_def)

lemma sample_pushes:
  "stack_reach 8000 1 4 7 sample_machine (stack_push 8000 1 4 7 (stack_push 8000 1 4 7 (stack_init 8000 sample_machine)))"
  using stack_reach.step [OF stack_reach.step [OF stack_reach.start, where op = Push], where op = Push] by simp

lemma sample_one_push: "load_u64 (sm_mem (stack_push 8000 1 4 7 (stack_init 8000 sample_machine))) 8000 = 1"
  using push_count [of 8000 1 4 "stack_init 8000 sample_machine" 7]
    stack_reach_inv [OF stack_reach.start sample_slots_outside] by simp

lemma sample_cached_recordings: "ac_any_recordings sample_cached" "7 \<in> ac_observed_snode_ids sample_cached"
  by code_simp+

text \<open>An observation of field 7 at a generation the cache has not reached.\<close>

definition sample_stale_obs :: read_obs where
  "sample_stale_obs = field_load_obs 7 [] 9"

section \<open>A registry with one task\<close>

definition sample_registry :: registry where
  "sample_registry = snd (the (register_adstack_sizing_info 1 ''k'' 0 [4] [] empty_registry))"

lemma sample_registered:
  "register_adstack_sizing_info 1 ''k'' 0 [4] [] empty_registry = Some (fnv1a32_for_registry ''k'' 0, sample_registry)"
  by (simp add: sample_registry_def register_adstack_sizing_info_def register_by_content_def
      empty_registry_def probe_id.simps)

lemma sample_registry_entry:
  "rg_entries sample_registry (fnv1a32_for_registry ''k'' 0) = Some \<lparr>si_identity_key = 1, si_kernel_name = ''k'',
     si_task_id_in_kernel = 0, si_allocated_max_sizes = [4], si_size_exprs = []\<rparr>"
  by (simp add: sample_registry_def register_adstack_sizing_info_def register_by_content_def
      empty_registry_def probe_id.simps)

lemma sample_registry_ptr: "rg_id_by_ptr sample_registry 1 = Some (fnv1a32_for_registry ''k'' 0)"
  by (simp add: sample_registry_def register_adstack_sizing_info_def register_by_content_def
      empty_registry_def probe_id.simps)

lemma sample_registered_again:
  "register_adstack_sizing_info 2 ''k'' 0 [8] [] sample_registry =
     Some (fnv1a32_for_registry ''k'' 0, snd (the (register_adstack_sizing_info 2 ''k'' 0 [8] [] sample_registry)))"
  by (simp add: sample_registry_def register_adstack_sizing_info_def register_by_content_def
      empty_registry_def probe_id.simps same_content_def)

definition sample_recycled :: offloaded_ad_stack where
  "sample_recycled = \<lparr>oa_address = 1, oa_has_max_reducer_specs = True, oa_kernel_name = ''other'',
     oa_task_id_in_kernel = 3, oa_max_sizes_compile_time = [], oa_size_exprs = [], oa_registry_id = 0\<rparr>"

definition sample_access :: task_access where
  "sample_access = \<lparr>ta_snode_writes = [7], ta_arr_writes = [0], ta_arr_reads = []\<rparr>"

section \<open>A dispatched maximum\<close>

lemma sample_max_node:
  "results_right sample_env (matched [(pack_max_reducer_key 7 0 5, 5)] 7 0) (serialize sample_tree) 5
     (MaxOverRange 5 (Const 0) (ExternalTensorShape [0] 0) (Binary OpAdd (ExternalTensorRead [0] [-6] 5) (Const 1)))"
proof -
  let ?m = "MaxOverRange 5 (Const 0) (ExternalTensorShape [0] 0) (Binary OpAdd (ExternalTensorRead [0] [-6] 5) (Const 1))"
  have "size_value sample_env ?m Map.empty = Inr 5" by code_simp
  moreover have "fv ?m = {}" by (auto simp: index_vars_def)
  ultimately have "size_value sample_env ?m bv = Inr 5" for bv
    using closed_value [of ?m sample_env bv Map.empty] by metis
  then show ?thesis by simp
qed

lemma sample_results_right:
  "results_right sample_env (matched [(pack_max_reducer_key 7 0 5, 5)] 7 0) (serialize sample_tree)
     (int (length (serialize sample_tree)) - 1) sample_tree"
proof -
  have "int (length (serialize sample_tree)) - 1 = 7" "sn_operand_a (node_at (serialize sample_tree) 7) = 5"
    by code_simp+
  then show ?thesis using sample_max_node by (simp add: sample_tree_def)
qed

text \<open>The body \<open>i + 1\<close> in scope slot 0, in post-order.\<close>

definition sample_body :: "int \<Rightarrow> dev_node" where
  "sample_body k =
     (if k = 0 then (make_empty_device_node kBoundVariable)\<lparr>dn_var_id := 0\<rparr>
      else if k = 1 then (make_empty_device_node kConst)\<lparr>dn_const_value := 1\<rparr>
      else (make_empty_device_node kAdd)\<lparr>dn_operand_a := 0, dn_operand_b := 1\<rparr>)"

lemma sample_body_post_order: "post_order sample_body 0 2 2"
proof -
  have a: "post_order sample_body 0 0 1" "post_order sample_body 1 1 1"
    by (rule post_order.leaf; simp add: sample_body_def make_empty_device_node_def binary_kind_def device_kind_defs)+
  show ?thesis
    using post_order.binary [of sample_body 0 2 1 1] a
    by (simp add: sample_body_def make_empty_device_node_def binary_kind_def device_kind_defs numeral_2_eq_2)
qed

lemma sample_threads:
  "t < 2 \<Longrightarrow> thread_max sample_dev sample_body (\<lambda>_. 0) 3 [(2, 0, 0)] 2 2 t = Inr (int t + 1)"
proof -
  have "thread_max sample_dev sample_body (\<lambda>_. 0) 3 [(2, 0, 0)] 2 2 0 = Inr 1"
      "thread_max sample_dev sample_body (\<lambda>_. 0) 3 [(2, 0, 0)] 2 2 1 = Inr 2"
    by code_simp+
  then show "t < 2 \<Longrightarrow> ?thesis" by (auto simp: less_Suc_eq numeral_2_eq_2)
qed

section \<open>An overflow\<close>

definition sample_snapshot :: diagnose_snapshot where
  "sample_snapshot = \<lparr>dg_data_ptrs = (\<lambda>a. if a = 0 then Some 1000 else None),
     dg_dev_alloc_types = (\<lambda>a. if a = 0 then Some AllocNone else None),
     dg_shapes = (\<lambda>a. if a = 0 then Some [3] else None)\<rparr>"

lemma sample_snapshot_agrees: "snapshot_agrees sample_env (\<lambda>_ _ _. None) sample_snapshot sample_tree"
proof -
  have "external_shape_value sample_env [0] 0 = Inr 3" by code_simp
  then show ?thesis
    by (auto simp: sample_tree_def sample_snapshot_def sample_env_def sample_ctx_def data_ptr_of_def split: if_splits)
qed

lemma sample_diagnosed:
  "\<exists>c. evaluate_adstack_size_expr_for_diagnose (serialize sample_tree) sample_env (\<lambda>_ _ _. None)
     (Some sample_snapshot) None = Inr (14, c)"
proof -
  let ?r = "evaluate_adstack_size_expr_for_diagnose (serialize sample_tree) sample_env (\<lambda>_ _ _. None)
     (Some sample_snapshot) None"
  have "map_sum id fst ?r = Inr 14" by code_simp
  then show ?thesis by (cases ?r) auto
qed

text \<open>A task allocated 4 entries for a stack that needs 14.\<close>

definition sample_overflowed :: registry where
  "sample_overflowed = \<lparr>rg_entries = (\<lambda>i. if i = 1
       then Some \<lparr>si_identity_key = 1, si_kernel_name = ''t'', si_task_id_in_kernel = 0,
                  si_allocated_max_sizes = [4], si_size_exprs = [serialize sample_tree]\<rparr> else None),
     rg_id_by_ptr = Map.empty\<rparr>"

lemma sample_confirmed:
  "\<exists>d ac. diagnose_adstack_overflow 1 sample_overflowed sample_env
      (\<lambda>_ _ _. None) (Some sample_snapshot) int empty_cache = Inr (d, ac) \<and> dx_confirmed_invalid_cache d"
proof -
  let ?r = "diagnose_adstack_overflow 1 sample_overflowed sample_env
      (\<lambda>_ _ _. None) (Some sample_snapshot) int empty_cache"
  have "map_sum id (\<lambda>(d, _). dx_confirmed_invalid_cache d) ?r = Inr True" by code_simp
  then show ?thesis by (cases ?r) auto
qed

section \<open>A reused address\<close>

text \<open>The launch of \<open>sample_env\<close> with another array at address 1000, whose first element is 50.\<close>

definition sample_env_reused :: env where
  "sample_env_reused = sample_env\<lparr>en_mem := (\<lambda>a. if a = 1000 then 50 else sample_mem a)\<rparr>"

text \<open>
  Freeing an ndarray restarts the generation of its address. When the allocator hands the same address
  out again, an entry recorded for the freed array at generation zero replays as fresh and the cached
  entry point returns the old array's bound.
\<close>

lemma freed_address_restarts:
  "map_sum id fst (evaluate_adstack_size_expr 3 (serialize sample_tree) sample_env_reused None
       (erase_ndarray_data_gen 1000 (bump_ndarray_data_gen 1000 sample_cached))) = Inr 14 \<and>
   size_value sample_env_reused sample_tree Map.empty = Inr 60"
  by (intro conjI; code_simp)

definition sample_matrix :: snode where
  "sample_matrix = sample_snode\<lparr>sd_num_active_indices := 2, sd_shape_along_axis := (\<lambda>i. if i = 0 then 3 else 4)\<rparr>"

section \<open>Kernels with loops and checkpoints\<close>

text \<open>
  Task \<open>i\<close> counts its runs at address \<open>500 + i\<close>. The kernel has three checkpoints, the first in a
  loop whose flag, at address 600, is clear; the flag of the middle checkpoint is set.
\<close>

definition sample_run :: task_run where
  "sample_run i m = (m(500 + int i := m (500 + int i) + 1), False)"

definition sample_levels :: "do_while_level list" where
  "sample_levels = [\<lparr>dw_cond_arg_id = 0, dw_parent_id = -1, dw_flag_dev_ptr = 600\<rparr>]"

definition sample_lx :: launcher_ctx where
  "sample_lx = \<lparr>lx_num_tasks = 3, lx_checkpoint_id_per_task = [0, 1, 2],
     lx_is_last_task_of_yielding_checkpoint = fst (mark_checkpoints [0, 1, 2]),
     lx_has_any_checkpoint = snd (mark_checkpoints [0, 1, 2]),
     lx_graph_do_while_level_per_task = [0, -1, -1]\<rparr>"

definition sample_launch :: launch_state where
  "sample_launch = \<lparr>ls_mem = (\<lambda>a. if a = 700 then 1 else 0), ls_cpu_assert_failed = False, ls_resume_point = 0,
     ls_yield_signal = -1, ls_resume_from_checkpoint = 2, ls_last_yield_cp_id = -1\<rparr>"

text \<open>The same loop around the only task of a kernel without checkpoints.\<close>

definition sample_plain_lx :: launcher_ctx where
  "sample_plain_lx = \<lparr>lx_num_tasks = 1, lx_checkpoint_id_per_task = [-1],
     lx_is_last_task_of_yielding_checkpoint = [False], lx_has_any_checkpoint = False,
     lx_graph_do_while_level_per_task = [0]\<rparr>"

lemma sample_no_asserts: "no_asserts sample_run"
  by (simp add: no_asserts_def sample_run_def)

lemma sample_levels_ok: "levels_ok sample_levels" "ids_ok sample_levels [0, -1, -1] 3"
  by (auto simp: levels_ok_def ids_ok_def level_id_def sample_levels_def less_Suc_eq numeral_3_eq_3)

text \<open>Resumed at the last checkpoint, the loop skips its task and ends.\<close>

lemma sample_loop_skipped:
  "exec (run_gated_task sample_lx [] sample_run) (continue_level sample_levels) [Loop 0 [Task 0]]
     (sample_launch\<lparr>ls_resume_point := 2\<rparr>) (True, sample_launch)"
proof -
  have "run_gated_task sample_lx [] sample_run 0 (sample_launch\<lparr>ls_resume_point := 2\<rparr>) =
      (True, sample_launch\<lparr>ls_resume_point := 2\<rparr>)"
    by (simp add: run_gated_task_def sample_lx_def sample_launch_def)
  moreover have "continue_level sample_levels 0 (sample_launch\<lparr>ls_resume_point := 2\<rparr>) = (False, sample_launch)"
    by (simp add: continue_level_def sample_levels_def sample_launch_def flag_set_def eval_nat_numeral)
  ultimately show ?thesis by (blast intro: exec_iterate.intros)
qed

text \<open>Started from the beginning, the kernel yields after its middle checkpoint.\<close>

lemma sample_first_yield:
  "first_yield sample_lx [0, 700, 0] sample_run 0 0 3 (ls_mem sample_launch) = Some 1" "cp_of sample_lx 1 = 1"
  by code_simp+

lemma sample_lx_num_tasks: "lx_num_tasks sample_lx = 3"
  by (simp add: sample_lx_def)

text \<open>The only loop of the plain kernel ends after one pass.\<close>

lemma sample_plain_launch:
  "\<exists>st'. launch_offloaded_tasks_with_do_while sample_plain_lx sample_levels [] id sample_run sample_launch = Some st' \<and>
     observed st' = ((\<lambda>a. if a = 700 then 1 else 0)(500 := 1), False, -1)"
  unfolding do_while_alt
  by (subst single_loop_unfold)
    (simp add: all_in_only_loop_def sample_plain_lx_def sample_levels_def launch_offloaded_tasks_def prepare_offloaded_tasks_def
      run_one_offloaded_task_def sample_run_def sample_launch_def runs_again_def flag_set_def observed_def Let_def
      eval_nat_numeral fun_eq_iff)

lemma sample_plain_ok:
  "levels_ok sample_levels" "ids_ok sample_levels (lx_graph_do_while_level_per_task sample_plain_lx) (lx_num_tasks sample_plain_lx)"
  "all_in_only_loop sample_plain_lx sample_levels" "0 < lx_num_tasks sample_plain_lx"
  "length (lx_graph_do_while_level_per_task sample_plain_lx) = lx_num_tasks sample_plain_lx"
  by (rule sample_levels_ok) (simp_all add: ids_ok_def level_id_def all_in_only_loop_def sample_plain_lx_def sample_levels_def)

end
