(* ===== verification/MaxReducerBody.thy ===== *)
theory MaxReducerBody
  imports MaxReducer MaxReduceRuntime SizerCorrect
begin

text \<open>
  The encoder of reducer bodies (\<^verbatim>\<open>encode_max_reducer_body_bytecode\<close> in
  \<^verbatim>\<open>program/adstack/max_reducer.cpp\<close>): a post-order walk over the body, one device node per
  visited node with the axes of the captured chain as scope slots, and the index table. The
  bytecode of a recognised body computes the body's meaning on the device.
\<close>

section \<open>The encoder\<close>

record encoded_body =
  eb_bytes :: "8 word list"
  eb_body_node_count :: nat
  eb_indices_count :: nat
  eb_body_reads :: "read_obs list"

text \<open>\<^verbatim>\<open>EncodedMaxReducerBody{}\<close>, which signals failure.\<close>

definition empty_body :: encoded_body where
  "empty_body = \<lparr>eb_bytes = [], eb_body_node_count = 0, eb_indices_count = 0, eb_body_reads = []\<rparr>"

definition is_binary :: "ser_node \<Rightarrow> bool" where
  "is_binary n \<longleftrightarrow> kind_of (sn_kind n) \<in> {Some KAdd, Some KSub, Some KMul, Some KMax}"

text \<open>
  \<^verbatim>\<open>visit\<close>: the list of visited nodes is both \<^verbatim>\<open>post_order\<close> and, by position, \<^verbatim>\<open>old_to_new\<close>.
  Running out of fuel stands for the endless recursion on a cyclic vector.
\<close>

fun visit :: "nat \<Rightarrow> ser_expr \<Rightarrow> int \<Rightarrow> int list \<Rightarrow> int list result" where
  "visit 0 ns i po = Inl Diverges"
| "visit (Suc f) ns i po =
     (if i < 0 \<or> i \<in> set po then Inr po
      else if is_binary (node_at ns i)
      then bindE (visit f ns (sn_operand_a (node_at ns i)) po) (\<lambda>po1.
           bindE (visit f ns (sn_operand_b (node_at ns i)) po1) (\<lambda>po2.
           Inr (po2 @ [i])))
      else Inr (po @ [i]))"

definition old_to_new :: "int list \<Rightarrow> int \<Rightarrow> int" where
  "old_to_new po i = (case map_of (zip po (map int [0..<length po])) i of None \<Rightarrow> -1 | Some k \<Rightarrow> k)"

text \<open>\<^verbatim>\<open>remap_chain_var\<close> takes the first axis with the variable, as a lookup in this list does.\<close>

definition chain_remap :: "int list \<Rightarrow> var_remap" where
  "chain_remap bound_var_ids = zip bound_var_ids (map int [0..<length bound_var_ids])"

definition chain_index :: "var_remap \<Rightarrow> int \<Rightarrow> int option" where
  "chain_index remap raw =
     (if 0 \<le> raw then Some raw else map_option (\<lambda>slot. - (slot + 1)) (map_of remap (- (raw + 1))))"

record body_state =
  bo_indices :: "int list"
  bo_reads :: "read_obs list"
  bo_cache :: "read_cache option"

text \<open>One node of the body; no node is an early \<^verbatim>\<open>return EncodedMaxReducerBody{}\<close>.\<close>

type_synonym body_result = "(dev_node option \<times> body_state) result"

definition body_leaf_obs :: "obs_kind \<Rightarrow> int \<Rightarrow> int list \<Rightarrow> int \<Rightarrow> read_obs" where
  "body_leaf_obs k s p dt = \<lparr>ob_kind = k, ob_snode_id = s, ob_indices = [], ob_arg_id_path = p,
     ob_arg_shape_axis = 0, ob_prim_dt = dt, ob_observed_value = 0, ob_observed_gen = 0, ob_observed_devalloc = 0\<rparr>"

definition body_strides :: "env \<Rightarrow> ser_node \<Rightarrow> int list result" where
  "body_strides e node =
     (let n_axes = length (sn_indices node) in
      case en_ctx e of
        None \<Rightarrow> Inr (replicate n_axes 1)
      | Some ctx \<Rightarrow>
          if 1 < n_axes
          then etr_strides (\<lambda>k. shape_at (en_mem e) ctx (sn_arg_id_path node) (int k)) n_axes [1]
          else Inr (replicate n_axes 1))"

definition body_external_read ::
  "(int list \<Rightarrow> int) \<Rightarrow> var_remap \<Rightarrow> env \<Rightarrow> ser_node \<Rightarrow> body_state \<Rightarrow> body_result" where
  "body_external_read resolver remap e node st =
     (let arg_buf_off = resolver (sn_arg_id_path node) in
      if arg_buf_off < 0 then Inr (None, st)
      else
        bindE (body_strides e node) (\<lambda>strides.
          case those (map (chain_index remap) (sn_indices node)) of
            None \<Rightarrow> Inr (None, st)
          | Some raws \<Rightarrow>
              Inr (Some ((make_empty_device_node kExternalTensorRead)
                     \<lparr>dn_prim_dt := wrap32 (sn_const_value node), dn_arg_buffer_offset := arg_buf_off,
                      dn_indices_offset := int (length (bo_indices st)),
                      dn_indices_count := int (length (sn_indices node))\<rparr>),
                   st\<lparr>bo_indices := bo_indices st @ interleave raws strides,
                      bo_reads := bo_reads st @
                        [body_leaf_obs ExternalReadObs (-1) (sn_arg_id_path node) (wrap32 (sn_const_value node))]\<rparr>)))"

text \<open>A leaf folded on the host: the shape of an ndarray or a field cell at constant indices.\<close>

definition body_folded :: "(int \<times> eval_state) result \<Rightarrow> body_state \<Rightarrow> body_result" where
  "body_folded r st =
     bindE r (\<lambda>(v, s).
       Inr (Some ((make_empty_device_node kConst)\<lparr>dn_const_value := v\<rparr>),
         st\<lparr>bo_reads := bo_reads st @ (case es_reads s of None \<Rightarrow> [] | Some os \<Rightarrow> os), bo_cache := es_cache s\<rparr>))"

definition fold_state :: "body_state \<Rightarrow> eval_state" where
  "fold_state st = \<lparr>es_bound = Map.empty, es_cache = bo_cache st, es_reads = Some []\<rparr>"

text \<open>
  A field load with a bound index. \<open>place\<close> gives the tree id and the byte offset of the field in
  its tree (\<^verbatim>\<open>get_snode_tree_id\<close>, \<^verbatim>\<open>get_field_in_tree_offset\<close>).
\<close>

definition body_field_load ::
  "(snode \<Rightarrow> int \<times> int) \<Rightarrow> fl_emitter \<Rightarrow> var_remap \<Rightarrow> env \<Rightarrow> ser_node \<Rightarrow> body_state \<Rightarrow> body_result" where
  "body_field_load place fl remap e node st =
     (case en_prog e of
        None \<Rightarrow> Inr (None, st)
      | Some prog \<Rightarrow>
          if \<not> list_ex (\<lambda>raw. raw < 0) (sn_indices node)
          then body_folded (evaluate_field_load node e (fold_state st)) st
          else
            (case pg_get_snode_by_id prog (sn_snode_id node) of
               None \<Rightarrow> Inr (None, st)
             | Some snode \<Rightarrow>
                 if prim_of_id (sd_dt snode) \<notin> {Some I8, Some I16, Some I32, Some U8, Some U16, Some U32}
                 then Inr (None, st)
                 else
                   (case compute_dense_snode_strides (Some snode) of
                      None \<Rightarrow> Inr (None, st)
                    | Some strides \<Rightarrow>
                        if length strides \<noteq> length (sn_indices node) then Inr (None, st)
                        else
                          (case (case fl of None \<Rightarrow> Some (place snode)
                                 | Some fetch \<Rightarrow> map_option (\<lambda>(base, _). (-1, wrap64 base)) (fetch snode)) of
                             None \<Rightarrow> Inr (None, st)
                           | Some (root_id, base) \<Rightarrow>
                               (case those (map (chain_index remap) (sn_indices node)) of
                                  None \<Rightarrow> Inr (None, st)
                                | Some raws \<Rightarrow>
                                    Inr (Some ((make_empty_device_node kFieldLoad)
                                           \<lparr>dn_prim_dt := sd_dt snode, dn_arg_buffer_offset := root_id,
                                            dn_const_value := base,
                                            dn_indices_offset := int (length (bo_indices st)),
                                            dn_indices_count := int (length (sn_indices node))\<rparr>),
                                         st\<lparr>bo_indices := bo_indices st @ interleave raws strides,
                                            bo_reads := bo_reads st @
                                              [body_leaf_obs FieldLoadObs (sn_snode_id node) [] (sd_dt snode)]\<rparr>))))))"

definition encode_body_node ::
  "(int list \<Rightarrow> int) \<Rightarrow> (snode \<Rightarrow> int \<times> int) \<Rightarrow> fl_emitter \<Rightarrow> var_remap \<Rightarrow> int list \<Rightarrow> env \<Rightarrow> ser_node \<Rightarrow>
   body_state \<Rightarrow> body_result" where
  "encode_body_node resolver place fl remap po e node st =
     (case kind_of (sn_kind node) of
        Some KConst \<Rightarrow>
          Inr (Some ((make_empty_device_node kConst)\<lparr>dn_const_value := sn_const_value node\<rparr>), st)
      | Some KBoundVariable \<Rightarrow>
          (case map_of remap (sn_var_id node) of
             None \<Rightarrow> Inr (None, st)
           | Some slot \<Rightarrow> Inr (Some ((make_empty_device_node kBoundVariable)\<lparr>dn_var_id := slot\<rparr>), st))
      | Some KExternalTensorRead \<Rightarrow> body_external_read resolver remap e node st
      | Some KExternalTensorShape \<Rightarrow> body_folded (evaluate_external_tensor_shape node e (fold_state st)) st
      | Some KFieldLoad \<Rightarrow> body_field_load place fl remap e node st
      | Some KMaxOverRange \<Rightarrow> Inr (None, st)
      | Some k \<Rightarrow>
          Inr (Some ((make_empty_device_node (device_bin_kind k))
             \<lparr>dn_operand_a := old_to_new po (sn_operand_a node), dn_operand_b := old_to_new po (sn_operand_b node)\<rparr>), st)
      | None \<Rightarrow> Inr (None, st))"

fun encode_body_nodes ::
  "(ser_node \<Rightarrow> body_state \<Rightarrow> body_result) \<Rightarrow> ser_node list \<Rightarrow> body_state \<Rightarrow> (dev_node list option \<times> body_state) result" where
  "encode_body_nodes enc [] st = Inr (Some [], st)"
| "encode_body_nodes enc (n # ns) st =
     bindE (enc n st) (\<lambda>(r, st1). case r of
        None \<Rightarrow> Inr (None, st1)
      | Some dn \<Rightarrow>
          bindE (encode_body_nodes enc ns st1) (\<lambda>(r', st2). Inr (map_option ((#) dn) r', st2)))"

text \<open>
  The device nodes and the index table of a body; none when a node was refused. The state returned
  has the observations and the launch-scoped read cache that folding may have filled.
\<close>

definition encode_body ::
  "ser_expr \<Rightarrow> int \<Rightarrow> int list \<Rightarrow> (int list \<Rightarrow> int) \<Rightarrow> (snode \<Rightarrow> int \<times> int) \<Rightarrow> fl_emitter \<Rightarrow> env \<Rightarrow>
   read_cache option \<Rightarrow> ((dev_node list \<times> int list) option \<times> body_state) result" where
  "encode_body ns body_node_idx bound_var_ids resolver place fl e cache =
     (let st0 = \<lparr>bo_indices = [], bo_reads = [], bo_cache = cache\<rparr> in
      if \<not> in_range ns body_node_idx then Inr (None, st0)
      else
        bindE (visit (eval_fuel ns) ns body_node_idx []) (\<lambda>po.
        bindE (encode_body_nodes (encode_body_node resolver place fl (chain_remap bound_var_ids) po e)
                 (map (node_at ns) po) st0) (\<lambda>(r, st).
          Inr (map_option (\<lambda>nodes. (nodes, bo_indices st)) r, st))))"

definition encode_max_reducer_body_bytecode ::
  "ser_expr \<Rightarrow> int \<Rightarrow> int list \<Rightarrow> (int list \<Rightarrow> int) \<Rightarrow> (snode \<Rightarrow> int \<times> int) \<Rightarrow> fl_emitter \<Rightarrow> env \<Rightarrow>
   read_cache option \<Rightarrow> (encoded_body \<times> read_cache option) result" where
  "encode_max_reducer_body_bytecode ns body_node_idx bound_var_ids resolver place fl e cache =
     bindE (encode_body ns body_node_idx bound_var_ids resolver place fl e cache) (\<lambda>(r, st).
       Inr (case r of
              None \<Rightarrow> empty_body
            | Some (nodes, table) \<Rightarrow>
                \<lparr>eb_bytes = concat (map pack_node nodes) @ concat (map bytes_i32 table),
                 eb_body_node_count = length nodes, eb_indices_count = length table,
                 eb_body_reads = bo_reads st\<rparr>,
            bo_cache st))"

section \<open>The walk over a body\<close>

text \<open>
  \<open>spans ns lo hi t\<close>: the nodes from \<open>lo\<close> to \<open>hi\<close> are \<open>t\<close> in post-order, none shared. The serialiser
  produces such vectors.
\<close>

fun spans :: "ser_expr \<Rightarrow> int \<Rightarrow> int \<Rightarrow> size_expr \<Rightarrow> bool" where
  "spans ns lo hi (Binary f a b) \<longleftrightarrow> represents ns hi (Binary f a b) \<and>
     spans ns lo (sn_operand_a (node_at ns hi)) a \<and>
     spans ns (sn_operand_a (node_at ns hi) + 1) (hi - 1) b \<and> sn_operand_b (node_at ns hi) = hi - 1"
| "spans ns lo hi (MaxOverRange v a b c) \<longleftrightarrow> represents ns hi (MaxOverRange v a b c) \<and>
     spans ns lo (sn_operand_a (node_at ns hi)) a \<and>
     spans ns (sn_operand_a (node_at ns hi) + 1) (sn_operand_b (node_at ns hi)) b \<and>
     spans ns (sn_operand_b (node_at ns hi) + 1) (hi - 1) c \<and> sn_body_node_idx (node_at ns hi) = hi - 1"
| "spans ns lo hi t \<longleftrightarrow> represents ns hi t \<and> lo = hi"

lemma spans_represents: "spans ns lo hi t \<Longrightarrow> represents ns hi t"
  by (cases t) (simp_all del: represents.simps)

lemma spans_le: "spans ns lo hi t \<Longrightarrow> 0 \<le> lo \<and> lo \<le> hi"
proof (induction t arbitrary: lo hi)
  case (Binary f a b)
  then show ?case by fastforce
next
  case (MaxOverRange v a b c)
  then show ?case by fastforce
qed (auto dest: represents_nonneg simp: in_range_def)

lemma spans_depth: "spans ns lo hi t \<Longrightarrow> int (depth t) \<le> hi - lo"
proof (induction t arbitrary: lo hi)
  case (Binary f a b)
  let ?a = "sn_operand_a (node_at ns hi)"
  have sp: "spans ns lo ?a a" "spans ns (?a + 1) (hi - 1) b" using Binary.prems by simp_all
  then show ?case using Binary.IH(1) [OF sp(1)] Binary.IH(2) [OF sp(2)] spans_le by fastforce
next
  case (MaxOverRange v a b c)
  let ?a = "sn_operand_a (node_at ns hi)" and ?b = "sn_operand_b (node_at ns hi)"
  have sp: "spans ns lo ?a a" "spans ns (?a + 1) ?b b" "spans ns (?b + 1) (hi - 1) c"
    using MaxOverRange.prems by simp_all
  then show ?case
    using MaxOverRange.IH(1) [OF sp(1)] MaxOverRange.IH(2) [OF sp(2)] MaxOverRange.IH(3) [OF sp(3)] spans_le by fastforce
qed auto

lemma spans_append: "spans ns lo hi t \<Longrightarrow> spans (ns @ ms) lo hi t"
proof (induction t arbitrary: lo hi)
  case (Binary f a b)
  then show ?case by (auto simp: node_at_append represents_append in_range_append)
next
  case (MaxOverRange v a b c)
  then show ?case by (auto simp: node_at_append represents_append in_range_append)
qed (auto simp: represents_append node_at_append in_range_append)

lemma flatten_spans:
  "flatten_recursive t out = (i, out') \<Longrightarrow> indices_fit t \<Longrightarrow>
     spans out' (int (length out)) i t \<and> i = int (length out') - 1 \<and> (\<exists>ms. out' = out @ ms)"
proof (induction t arbitrary: out i out')
  case (Binary f a b)
  obtain ia o1 where a: "flatten_recursive a out = (ia, o1)" by (cases "flatten_recursive a out")
  obtain ib o2 where b: "flatten_recursive b o1 = (ib, o2)" by (cases "flatten_recursive b o1")
  have A: "spans o1 (int (length out)) ia a" "ia = int (length o1) - 1" "\<exists>ms. o1 = out @ ms"
    using Binary.IH(1) [OF a] Binary.prems by auto
  have B: "spans o2 (int (length o1)) ib b" "ib = int (length o2) - 1" "\<exists>ms. o2 = o1 @ ms"
    using Binary.IH(2) [OF b] Binary.prems by auto
  let ?n = "(node_head (Binary f a b))\<lparr>sn_operand_a := ia, sn_operand_b := ib\<rparr>"
  have out': "out' = o2 @ [?n]" "i = int (length o2)"
    using Binary.prems(1) a b by (auto simp: Let_def)
  have "represents out' i (Binary f a b)" using flatten_recursive_spec [OF Binary.prems] by blast
  moreover have "spans out' (int (length out)) ia a" "spans out' (int (length o1)) ib b"
    using A B out' spans_append by (metis append_assoc)+
  moreover have "node_at out' i = ?n" unfolding out' by (rule node_at_snoc)
  ultimately show ?case using A B out' by auto
next
  case (MaxOverRange v a b c)
  obtain ia o1 where a: "flatten_recursive a out = (ia, o1)" by (cases "flatten_recursive a out")
  obtain ib o2 where b: "flatten_recursive b o1 = (ib, o2)" by (cases "flatten_recursive b o1")
  obtain ic o3 where c: "flatten_recursive c o2 = (ic, o3)" by (cases "flatten_recursive c o2")
  have A: "spans o1 (int (length out)) ia a" "ia = int (length o1) - 1" "\<exists>ms. o1 = out @ ms"
    using MaxOverRange.IH(1) [OF a] MaxOverRange.prems by auto
  have B: "spans o2 (int (length o1)) ib b" "ib = int (length o2) - 1" "\<exists>ms. o2 = o1 @ ms"
    using MaxOverRange.IH(2) [OF b] MaxOverRange.prems by auto
  have C: "spans o3 (int (length o2)) ic c" "ic = int (length o3) - 1" "\<exists>ms. o3 = o2 @ ms"
    using MaxOverRange.IH(3) [OF c] MaxOverRange.prems by auto
  let ?n = "(node_head (MaxOverRange v a b c))\<lparr>sn_operand_a := ia, sn_operand_b := ib, sn_body_node_idx := ic\<rparr>"
  have out': "out' = o3 @ [?n]" "i = int (length o3)"
    using MaxOverRange.prems(1) a b c by (auto simp: Let_def)
  have "represents out' i (MaxOverRange v a b c)" using flatten_recursive_spec [OF MaxOverRange.prems] by blast
  moreover have "spans out' (int (length out)) ia a" "spans out' (int (length o1)) ib b" "spans out' (int (length o2)) ic c"
    using A B C out' spans_append by (metis append_assoc)+
  moreover have "node_at out' i = ?n" unfolding out' by (rule node_at_snoc)
  ultimately show ?case using A B C out' by auto
qed (use flatten_recursive_spec in fastforce)+

lemma visit_spans:
  assumes "spans ns lo hi t" "body_grammar vs t" "set po \<inter> {lo..hi} = {}" "depth t < f"
  shows "visit f ns hi po = Inr (po @ [lo..hi])"
  using assms
proof (induction t arbitrary: f lo hi po)
  case (Binary g a b)
  obtain f' where f: "f = Suc f'" using Binary.prems(4) by (cases f) auto
  let ?a = "sn_operand_a (node_at ns hi)"
  have sp: "spans ns lo ?a a" "spans ns (?a + 1) (hi - 1) b" "sn_operand_b (node_at ns hi) = hi - 1"
    and kind: "is_binary (node_at ns hi)"
    using Binary.prems(1) by (cases g; auto simp: is_binary_def)+
  have le: "0 \<le> lo" "lo \<le> ?a" "?a + 1 \<le> hi - 1" using sp(1,2) spans_le by blast+
  have "visit f' ns ?a po = Inr (po @ [lo..?a])"
    by (rule Binary.IH(1) [OF sp(1)]) (use Binary.prems(2-4) le f in auto)
  moreover have "visit f' ns (hi - 1) (po @ [lo..?a]) = Inr ((po @ [lo..?a]) @ [?a + 1..hi - 1])"
    by (rule Binary.IH(2) [OF sp(2)]) (use Binary.prems(2-4) le f in auto)
  moreover have "[lo..hi] = [lo..?a] @ [?a + 1..hi - 1] @ [hi]"
    using le by (metis append.assoc order_trans upto_rec2 upto_split2 linorder_linear
        add.commute diff_add_cancel order_less_imp_le zle_diff1_eq zless_add1_eq)
  moreover have "hi \<notin> set po" "\<not> hi < 0" using Binary.prems(3) le by auto
  ultimately show ?case using kind sp(3) by (simp add: f)
qed (case_tac f; auto simp: is_binary_def in_range_def)+

section \<open>The loop over the visited nodes\<close>

lemma old_to_new_upto:
  assumes "lo \<le> i" "i \<le> hi"
  shows "old_to_new [lo..hi] i = i - lo"
proof -
  let ?po = "[lo..hi]"
  have "distinct ?po" by simp
  moreover have "?po ! nat (i - lo) = i" "nat (i - lo) < length ?po" using assms by auto
  ultimately have "map_of (zip ?po (map int [0..<length ?po])) i = Some (int (nat (i - lo)))"
    by (metis (no_types, lifting) length_map length_upt map_of_zip_nth minus_nat.diff_0 nth_map_upt add_0)
  then show ?thesis using assms by (simp add: old_to_new_def)
qed

definition body_grows :: "body_state \<Rightarrow> body_state \<Rightarrow> bool" where
  "body_grows st st' \<longleftrightarrow> (\<exists>is. bo_indices st' = bo_indices st @ is)"

lemma encode_body_node_grows:
  assumes "encode_body_node resolver place fl remap po e node st = Inr (Some dn, st')"
  shows "body_grows st st'"
  using assms
  by (auto simp: encode_body_node_def body_grows_def body_external_read_def body_field_load_def body_folded_def
      result_simps Let_def split: option.splits size_kind.splits if_splits prod.splits)

lemma encode_body_nodes_nth:
  assumes "encode_body_nodes enc xs st = Inr (Some dns, st')"
    and grows: "\<And>n s dn s'. enc n s = Inr (Some dn, s') \<Longrightarrow> body_grows s s'"
    and keeps: "\<And>n s dn s'. P s \<Longrightarrow> enc n s = Inr (Some dn, s') \<Longrightarrow> P s'" and "P st"
  shows "length dns = length xs \<and> body_grows st st' \<and> P st' \<and>
    (\<forall>k < length xs. \<exists>s s'. enc (xs ! k) s = Inr (Some (dns ! k), s') \<and> P s \<and> body_grows s' st')"
  using assms(1,4)
proof (induction xs arbitrary: st dns)
  case (Cons x xs)
  then obtain dn st1 dns1 where x: "enc x st = Inr (Some dn, st1)"
      "encode_body_nodes enc xs st1 = Inr (Some dns1, st')" "dns = dn # dns1"
    by (auto simp: result_simps split: option.splits)
  have "P st1" "body_grows st st1" using keeps grows x(1) Cons.prems(2) by blast+
  moreover from Cons.IH [OF x(2) this(1)] have
    "length dns1 = length xs" "body_grows st1 st'" "P st'"
    "\<forall>k < length xs. \<exists>s s'. enc (xs ! k) s = Inr (Some (dns1 ! k), s') \<and> P s \<and> body_grows s' st'" by auto
  ultimately show ?case
    using x(1,3) Cons.prems(2) by (auto simp: less_Suc_eq_0_disj body_grows_def)
qed (auto simp: body_grows_def)

section \<open>What the device computes\<close>

text \<open>
  The bindings a body is evaluated under are those in \<open>B\<close>. Without a range maximum inside, the
  scope stays as it is.
\<close>

definition body_computes ::
  "(bound_vars \<Rightarrow> bool) \<Rightarrow> env \<Rightarrow> dev_env \<Rightarrow> var_remap \<Rightarrow> size_expr \<Rightarrow> (int \<Rightarrow> dev_node) \<Rightarrow> (int \<Rightarrow> int) \<Rightarrow>
   nat \<Rightarrow> int \<Rightarrow> bool" where
  "body_computes B e de remap t nodes indices fd idx \<longleftrightarrow>
     (\<forall>sc bv val. B bv \<longrightarrow> scope_ok remap bv sc (fv t) \<longrightarrow> size_value e t bv = Inr val \<longrightarrow>
        device_eval_node fd de nodes indices idx sc = Inr (val, sc))"

lemma dev_body_computes:
  assumes "dev_computes e de remap t nodes indices fd idx" "binders t = {}"
  shows "body_computes B e de remap t nodes indices fd idx"
  unfolding body_computes_def
proof (intro allI impI)
  fix sc bv val
  assume *: "scope_ok remap bv sc (fv t)" "size_value e t bv = Inr val"
  obtain sc' where sc': "device_eval_node fd de nodes indices idx sc = Inr (val, sc')" "scope_frame remap (binders t) sc sc'"
    using dev_computesD [OF assms(1) *] by blast
  have "sc' = sc" using sc'(2) assms(2) by (auto simp: scope_frame_def)
  then show "device_eval_node fd de nodes indices idx sc = Inr (val, sc)" using sc'(1) by simp
qed

lemma body_computes_Binary:
  assumes "nodes idx = (make_empty_device_node (device_bin_kind (bin_kind g)))\<lparr>dn_operand_a := ia, dn_operand_b := ib\<rparr>"
    and "body_computes B e de remap a nodes indices fd ia" "body_computes B e de remap b nodes indices fd ib"
  shows "body_computes B e de remap (Binary g a b) nodes indices (Suc fd) idx"
  unfolding body_computes_def
proof (intro allI impI)
  fix sc bv val
  assume bv: "B bv" and sc: "scope_ok remap bv sc (fv (Binary g a b))"
    and val: "size_value e (Binary g a b) bv = Inr val"
  from val obtain x y where xy: "size_value e a bv = Inr x" "size_value e b bv = Inr y"
    "val = binary_value (bin_kind g) x y" by (auto simp: result_simps)
  have "scope_ok remap bv sc (fv a)" "scope_ok remap bv sc (fv b)" using sc by (auto simp: scope_ok_def)
  then have "device_eval_node fd de nodes indices ia sc = Inr (x, sc)" "device_eval_node fd de nodes indices ib sc = Inr (y, sc)"
    using assms(2,3) bv xy unfolding body_computes_def by blast+
  then show "device_eval_node (Suc fd) de nodes indices idx sc = Inr (val, sc)"
    using assms(1) xy(3)
    by (cases g) (auto simp: make_empty_device_node_def device_bin_kind_def device_kind_defs binary_value_def Let_def)
qed

lemma chain_index_encode: "chain_index remap raw = Some r \<longleftrightarrow> encode_index remap raw = Inr r"
  by (auto simp: chain_index_def encode_index_def remap_var_id_def split: option.splits)

lemma those_chain_index:
  "those (map (chain_index remap) is) = Some raws \<Longrightarrow> mapE (encode_index remap) is = Inr raws"
  by (induction "is" arbitrary: raws) (auto simp: chain_index_encode result_simps split: option.splits)

lemma chain_remap_ok:
  assumes "length vs \<le> max_bound_vars"
  shows "remap_ok (chain_remap vs)"
proof -
  have at: "\<exists>k < length vs. vs ! k = v \<and> d = int k" if "map_of (chain_remap vs) v = Some d" for v d
    using map_of_SomeD [OF that] by (auto simp: chain_remap_def set_zip)
  have "v = w" if "map_of (chain_remap vs) v = Some d" "map_of (chain_remap vs) w = Some d" for v w d
    using at [OF that(1)] at [OF that(2)] by auto
  moreover have "in_scope d" if "map_of (chain_remap vs) v = Some d" for v d
    using at [OF that] assms by (auto simp: in_scope_def)
  ultimately show ?thesis unfolding remap_ok_def by blast
qed

text \<open>
  A field read with bound indices agrees with the device when the field lies in its tree as the
  device addresses it: element strides from the tree's root plus the field's offset.
\<close>

definition field_laid_out ::
  "(bound_vars \<Rightarrow> bool) \<Rightarrow> env \<Rightarrow> dev_env \<Rightarrow> (snode \<Rightarrow> int \<times> int) \<Rightarrow> int \<Rightarrow> int list \<Rightarrow> bool" where
  "field_laid_out B e de place s is \<longleftrightarrow>
     (\<forall>prog sn strides bv ix. en_prog e = Some prog \<longrightarrow> pg_get_snode_by_id prog s = Some sn \<longrightarrow>
        compute_dense_snode_strides (Some sn) = Some strides \<longrightarrow> B bv \<longrightarrow> mapE (resolve_index bv) is = Inr ix \<longrightarrow>
        mapE (resolve_index32 bv) is = Inr ix \<and> 0 \<le> fst (place sn) \<and>
        (\<exists>roots. de_roots de = Some roots \<and>
           device_load_element (de_mem de) (roots (fst (place sn)) + snd (place sn))
             (wrap64 (sum_list (map2 (*) ix strides))) (sd_dt sn) = pg_read_int prog s ix))"

fun body_ok :: "(bound_vars \<Rightarrow> bool) \<Rightarrow> env \<Rightarrow> dev_env \<Rightarrow> (snode \<Rightarrow> int \<times> int) \<Rightarrow> size_expr \<Rightarrow> bool" where
  "body_ok B e de place (Binary f a b) \<longleftrightarrow> body_ok B e de place a \<and> body_ok B e de place b"
| "body_ok B e de place (FieldLoad s is) \<longleftrightarrow> (list_ex (\<lambda>raw. raw < 0) is \<longrightarrow> field_laid_out B e de place s is)"
| "body_ok B e de place t \<longleftrightarrow> device_ok e de t"

lemma resolve_32_64:
  "mapE (resolve_index32 bv) is = Inr ix32 \<Longrightarrow> \<exists>ix. mapE (resolve_index bv) is = Inr ix"
  by (induction "is" arbitrary: ix32) (fastforce simp: result_simps resolve_index_def resolve_index32_def split: option.splits if_splits)+

lemma body_computes_FieldLoad:
  assumes node: "nodes idx = (make_empty_device_node kFieldLoad)
      \<lparr>dn_prim_dt := sd_dt sn, dn_arg_buffer_offset := fst (place sn), dn_const_value := snd (place sn),
       dn_indices_offset := off, dn_indices_count := int (length is)\<rparr>"
    and sn: "en_prog e = Some prog" "pg_get_snode_by_id prog s = Some sn"
      "compute_dense_snode_strides (Some sn) = Some strides" "length strides = length is"
    and raws: "mapE (encode_index remap) is = Inr raws"
    and reads: "reads_as indices off (interleave raws strides)"
    and ok: "remap_ok remap" "field_laid_out B e de place s is"
  shows "body_computes B e de remap (FieldLoad s is) nodes indices (Suc fd) idx"
  unfolding body_computes_def
proof (intro allI impI)
  fix sc bv val
  assume bv: "B bv" and sc: "scope_ok remap bv sc (fv (FieldLoad s is))"
    and val: "size_value e (FieldLoad s is) bv = Inr val"
  obtain ix32 where ix32: "mapE (resolve_index32 bv) is = Inr ix32" "val = pg_read_int prog s ix32"
    using val sn(1,2) by (auto simp: field_value_def result_simps)
  obtain ix where ix: "mapE (resolve_index bv) is = Inr ix" using resolve_32_64 [OF ix32(1)] by blast
  obtain roots where laid: "ix32 = ix" "0 \<le> fst (place sn)" "de_roots de = Some roots"
      "device_load_element (de_mem de) (roots (fst (place sn)) + snd (place sn))
         (wrap64 (sum_list (map2 (*) ix strides))) (sd_dt sn) = pg_read_int prog s ix"
    using ok(2) [unfolded field_laid_out_def, rule_format, OF sn(1-3) bv ix] ix32(1) by auto
  have ixs: "map (scope_index sc) raws = ix"
    using scope_indices_encoded [OF raws ix _ ok(1)] sc by simp
  have len: "length raws = length is" using mapE_length [OF raws] by simp
  have "device_linear indices sc off (length is) 0 = wrap64 (sum_list (map2 (*) ix strides))"
    using device_linear_interleave [of raws strides indices off 0 sc] reads len sn(4)
    by (simp add: fits64_def ixs [symmetric] zip_map1 comp_def case_prod_unfold)
  then show "device_eval_node (Suc fd) de nodes indices idx sc = Inr (val, sc)"
    using node laid ix32(2)
    by (simp add: make_empty_device_node_def device_kind_defs Let_def)
qed

section \<open>The encoded body computes the meaning\<close>

definition resolves :: "env \<Rightarrow> (int list \<Rightarrow> int) \<Rightarrow> bool" where
  "resolves e resolver \<longleftrightarrow>
     (\<forall>ctx off p. en_ctx e = Some ctx \<longrightarrow> lc_args_type ctx = Some off \<longrightarrow> 0 \<le> resolver p \<longrightarrow>
        resolver p = wrap32 (off (p @ [data_ptr_pos])))"

lemma body_folded_keeps:
  assumes "body_folded r st = Inr (Some dn, st')" "computes (eval_post e ts s) r m"
  shows "cache_ok e (bo_cache st') \<and> (\<exists>v. m = Inr v \<and> dn = (make_empty_device_node kConst)\<lparr>dn_const_value := v\<rparr>)"
  using assms by (cases m) (auto simp: body_folded_def eval_post_def result_simps)

lemma encode_body_node_cache:
  assumes "encode_body_node resolver place fl remap po e node st = Inr (Some dn, st')" "cache_ok e (bo_cache st)"
  shows "cache_ok e (bo_cache st')"
proof -
  have c: "cache_ok e (es_cache (fold_state st))" using assms(2) by (simp add: fold_state_def)
  show ?thesis
    using assms body_folded_keeps [OF _ evaluate_field_load_correct [OF c refl refl]]
      body_folded_keeps [OF _ evaluate_external_tensor_shape_correct [OF c refl refl]]
    by (auto simp: encode_body_node_def body_external_read_def body_field_load_def result_simps Let_def
        split: option.splits size_kind.splits if_splits prod.splits)
qed

text \<open>A leaf.\<close>

fun is_leaf :: "size_expr \<Rightarrow> bool" where
  "is_leaf (Binary f a b) \<longleftrightarrow> False"
| "is_leaf (MaxOverRange v a b c) \<longleftrightarrow> False"
| "is_leaf t \<longleftrightarrow> True"

lemma reads_as_suffix:
  assumes "reads_as g 0 xs" "xs = ys @ zs @ ws"
  shows "reads_as g (int (length ys)) zs"
  using assms by (simp add: reads_as_append)

lemma body_strides_etr:
  assumes "body_strides e node = Inr strides" "en_ctx e = Some ctx" "sn_indices node \<noteq> []"
  shows "etr_strides (\<lambda>k. shape_at (en_mem e) ctx (sn_arg_id_path node) (int k)) (length (sn_indices node)) [1] = Inr strides"
  using assms by (cases "sn_indices node"; cases "tl (sn_indices node)") (auto simp: body_strides_def Let_def)

lemma encode_leaf_computes:
  assumes rep: "represents ns i t" "is_leaf t" "body_grammar vs t" "body_ok B e de place t"
    and remap: "remap_ok remap" and env: "resolves e resolver" "de_mem de = en_mem e"
    and enc: "encode_body_node resolver place None remap po e (node_at ns i) s = Inr (Some dn, s')"
      "cache_ok e (bo_cache s)"
    and at: "nodes idx = dn" "reads_as indices 0 (bo_indices s' @ rest)"
  shows "body_computes B e de remap t nodes indices (Suc fd) idx"
proof -
  have c: "cache_ok e (es_cache (fold_state s))" using enc(2) by (simp add: fold_state_def)
  show ?thesis
  proof (cases t)
    case (Const c)
    then show ?thesis
      using rep enc at by (intro dev_body_computes dev_computes_Const) (auto simp: encode_body_node_def)
  next
    case (ExternalTensorShape p ax)
    then obtain v where "external_shape_value e p ax = Inr v" "dn = (make_empty_device_node kConst)\<lparr>dn_const_value := v\<rparr>"
      using body_folded_keeps [OF _ evaluate_external_tensor_shape_correct [OF c]] rep(1) enc(1)
      by (fastforce simp: encode_body_node_def)
    then show ?thesis
      using ExternalTensorShape at(1) by (intro dev_body_computes dev_computes_Const) auto
  next
    case (ExternalTensorRead p ix dt)
    let ?node = "node_at ns i"
    have n: "sn_arg_id_path ?node = p" "sn_indices ?node = ix" "sn_const_value ?node = dt" "ix \<noteq> []"
      "kind_of (sn_kind ?node) = Some KExternalTensorRead"
      using rep(1,3) ExternalTensorRead by auto
    obtain ctx off where ctx: "en_ctx e = Some ctx" "lc_args_type ctx = Some off"
      using rep(4) ExternalTensorRead by (auto split: option.splits)
    obtain strides raws where enc': "0 \<le> resolver p" "body_strides e ?node = Inr strides"
        "those (map (chain_index remap) ix) = Some raws"
        "dn = (make_empty_device_node kExternalTensorRead)\<lparr>dn_prim_dt := wrap32 dt, dn_arg_buffer_offset := resolver p,
           dn_indices_offset := int (length (bo_indices s)), dn_indices_count := int (length ix)\<rparr>"
        "bo_indices s' = bo_indices s @ interleave raws strides"
      using enc(1) n by (auto simp: encode_body_node_def body_external_read_def result_simps Let_def split: if_splits option.splits)
    have "reads_as indices (int (length (bo_indices s))) (interleave raws strides)"
      by (rule reads_as_suffix [OF at(2)]) (simp add: enc'(5))
    moreover have "resolver p = wrap32 (off (p @ [data_ptr_pos]))" using env(1) ctx enc'(1) unfolding resolves_def by blast
    ultimately have "dev_computes e de remap (ExternalTensorRead p ix dt) nodes indices (Suc fd) idx"
      using body_strides_etr [OF enc'(2) ctx(1)] rep(4) n ExternalTensorRead at(1) enc'(4)
      by (intro dev_computes_ExternalTensorRead [OF _ ctx _ those_chain_index [OF enc'(3)] _ remap _ env(2)])
        (simp_all add: make_empty_device_node_def)
    then show ?thesis unfolding ExternalTensorRead by (rule dev_body_computes) simp
  next
    case (FieldLoad sid ix)
    let ?node = "node_at ns i"
    have n: "sn_snode_id ?node = sid" "sn_indices ?node = ix" "kind_of (sn_kind ?node) = Some KFieldLoad"
      using rep(1) FieldLoad by auto
    obtain prog where prog: "en_prog e = Some prog"
      using enc(1) n by (auto simp: encode_body_node_def body_field_load_def split: option.splits)
    show ?thesis
    proof (cases "list_ex (\<lambda>raw. raw < 0) ix")
      case False
      then have "body_folded (evaluate_field_load ?node e (fold_state s)) s = Inr (Some dn, s')"
        using enc(1) n prog by (simp add: encode_body_node_def body_field_load_def)
      then obtain v where v: "field_value e Map.empty sid ix = Inr v" "dn = (make_empty_device_node kConst)\<lparr>dn_const_value := v\<rparr>"
        using body_folded_keeps [OF _ evaluate_field_load_correct [OF c n(1,2)]] by (fastforce simp: fold_state_def)
      have "index_vars ix = {}" using False by (auto simp: index_vars_def list_ex_iff)
      then have "size_value e t bv = size_value e t Map.empty" for bv
        using FieldLoad by (intro size_value_cong) simp
      then show ?thesis
        using v at(1) FieldLoad by (intro dev_body_computes dev_computes_Const) auto
    next
      case True
      obtain sn strides raws where sn: "pg_get_snode_by_id prog sid = Some sn"
          "compute_dense_snode_strides (Some sn) = Some strides" "length strides = length ix"
          "those (map (chain_index remap) ix) = Some raws"
          "dn = (make_empty_device_node kFieldLoad)\<lparr>dn_prim_dt := sd_dt sn, dn_arg_buffer_offset := fst (place sn),
             dn_const_value := snd (place sn), dn_indices_offset := int (length (bo_indices s)),
             dn_indices_count := int (length ix)\<rparr>"
          "bo_indices s' = bo_indices s @ interleave raws strides"
        using enc(1) n True prog
        by (auto simp: encode_body_node_def body_field_load_def split: if_splits option.splits prod.splits)
      have "reads_as indices (int (length (bo_indices s))) (interleave raws strides)"
        by (rule reads_as_suffix [OF at(2)]) (simp add: sn(6))
      then show ?thesis
        unfolding FieldLoad
        using body_computes_FieldLoad [where nodes = nodes and idx = idx and sn = sn and place = place and
            off = "int (length (bo_indices s))" and ?is = ix and e = e and prog = prog and s = sid and strides = strides and
            remap = remap and raws = raws and indices = indices and B = B and de = de and fd = fd]
          sn those_chain_index [OF sn(4)] at(1) prog remap rep(4) True FieldLoad by simp
    qed
  qed (use rep(2,3) in auto)
qed

text \<open>Stack slots the iterative evaluator needs for a body.\<close>

fun slots :: "size_expr \<Rightarrow> nat" where
  "slots (Binary f a b) = max (slots a) (Suc (slots b))"
| "slots t = 1"

text \<open>
  \<open>emitted\<close>: the device nodes \<open>dns\<close> are what the encoder emitted for the vector's nodes from \<open>lo\<close> to \<open>hi\<close>.
\<close>

definition emitted ::
  "(int list \<Rightarrow> int) \<Rightarrow> (snode \<Rightarrow> int \<times> int) \<Rightarrow> var_remap \<Rightarrow> env \<Rightarrow> ser_expr \<Rightarrow> int \<Rightarrow> int \<Rightarrow>
   (int \<Rightarrow> dev_node) \<Rightarrow> int list \<Rightarrow> bool" where
  "emitted resolver place remap e ns lo hi nodes table \<longleftrightarrow>
     (\<forall>i. lo \<le> i \<longrightarrow> i \<le> hi \<longrightarrow>
        (\<exists>s s' rest. encode_body_node resolver place None remap [lo..hi] e (node_at ns i) s = Inr (Some (nodes (i - lo)), s') \<and>
           cache_ok e (bo_cache s) \<and> table = bo_indices s' @ rest))"

lemma encode_body_nodes_emitted:
  assumes "encode_body_nodes (encode_body_node resolver place None remap [lo..hi] e) (map (node_at ns) [lo..hi]) st =
      Inr (Some dns, st')"
    and "cache_ok e (bo_cache st)" "reads_as nodes 0 dns"
  shows "emitted resolver place remap e ns lo hi nodes (bo_indices st') \<and> length dns = length [lo..hi]"
proof -
  let ?enc = "encode_body_node resolver place None remap [lo..hi] e"
  have all: "length dns = length (map (node_at ns) [lo..hi]) \<and> body_grows st st' \<and> cache_ok e (bo_cache st') \<and>
    (\<forall>k < length (map (node_at ns) [lo..hi]). \<exists>s s'. ?enc (map (node_at ns) [lo..hi] ! k) s = Inr (Some (dns ! k), s') \<and>
       cache_ok e (bo_cache s) \<and> body_grows s' st')"
    by (rule encode_body_nodes_nth [OF assms(1)]) (use encode_body_node_grows encode_body_node_cache assms(2) in blast)+
  have "\<exists>s s' rest. ?enc (node_at ns i) s = Inr (Some (nodes (i - lo)), s') \<and> cache_ok e (bo_cache s) \<and>
      bo_indices st' = bo_indices s' @ rest" if "lo \<le> i" "i \<le> hi" for i
  proof -
    have k: "nat (i - lo) < length [lo..hi]" "[lo..hi] ! nat (i - lo) = i" using that by auto
    then have "nodes (i - lo) = dns ! nat (i - lo)"
      using assms(3) [unfolded reads_as_def, rule_format, of "nat (i - lo)"] all that by simp
    moreover obtain s s' where "?enc (map (node_at ns) [lo..hi] ! nat (i - lo)) s = Inr (Some (dns ! nat (i - lo)), s')"
        "cache_ok e (bo_cache s)" "body_grows s' st'"
      using all k(1) by (metis length_map)
    ultimately show ?thesis using k by (auto simp: body_grows_def)
  qed
  then show ?thesis using all by (simp add: emitted_def)
qed

lemma encode_leaf_kind:
  assumes "represents ns i t" "is_leaf t"
    and "encode_body_node resolver place fl remap po e (node_at ns i) s = Inr (Some dn, s')"
  shows "\<not> binary_kind (dn_kind dn) \<and> dn_kind dn \<noteq> kMaxOverRange"
  using assms
  by (cases t) (auto simp: encode_body_node_def body_external_read_def body_field_load_def body_folded_def
      make_empty_device_node_def binary_kind_def device_kind_defs result_simps Let_def split: option.splits if_splits prod.splits)

lemma emitted_leaf:
  assumes em: "emitted resolver place remap e ns lo hi nodes table" "reads_as indices 0 table"
    and env: "remap_ok remap" "resolves e resolver" "de_mem de = en_mem e"
    and t: "represents ns h t" "is_leaf t" "lo \<le> h" "h \<le> hi" "body_grammar vs t" "body_ok B e de place t" "0 < fd"
  shows "body_computes B e de remap t nodes indices fd (h - lo) \<and> post_order nodes (h - lo) (h - lo) (Suc 0)"
proof -
  obtain s s' rest where enc: "encode_body_node resolver place None remap [lo..hi] e (node_at ns h) s = Inr (Some (nodes (h - lo)), s')"
      "cache_ok e (bo_cache s)" "table = bo_indices s' @ rest"
    using em(1) t(3,4) unfolding emitted_def by blast
  have "body_computes B e de remap t nodes indices (Suc (fd - 1)) (h - lo)"
    by (rule encode_leaf_computes [where nodes = nodes and idx = "h - lo", OF t(1,2,5,6) env enc(1,2) refl])
      (use em(2) enc(3) in simp)
  then show ?thesis
    using encode_leaf_kind [OF t(1,2) enc(1)] t(7) post_order.leaf [of nodes "h - lo"] by auto
qed

lemma emitted_computes:
  assumes em: "emitted resolver place remap e ns lo hi nodes table" "reads_as indices 0 table"
    and env: "remap_ok remap" "resolves e resolver" "de_mem de = en_mem e"
  shows "spans ns l h t \<Longrightarrow> lo \<le> l \<Longrightarrow> h \<le> hi \<Longrightarrow> body_grammar vs t \<Longrightarrow> body_ok B e de place t \<Longrightarrow> depth t < fd \<Longrightarrow>
    body_computes B e de remap t nodes indices fd (h - lo) \<and> post_order nodes (l - lo) (h - lo) (slots t)"
proof (induction t arbitrary: l h fd)
  case (Binary g a b)
  let ?a = "sn_operand_a (node_at ns h)"
  have sp: "spans ns l ?a a" "spans ns (?a + 1) (h - 1) b" "sn_operand_b (node_at ns h) = h - 1"
    and kind: "kind_of (sn_kind (node_at ns h)) = Some (bin_kind g)"
    using Binary.prems(1) by auto
  have le: "l \<le> ?a" "?a + 1 \<le> h - 1" using sp(1,2) spans_le by blast+
  obtain fd' where fd: "fd = Suc fd'" using Binary.prems(6) by (cases fd) auto
  have a: "body_computes B e de remap a nodes indices fd' (?a - lo) \<and> post_order nodes (l - lo) (?a - lo) (slots a)"
    by (rule Binary.IH(1) [OF sp(1)]) (use Binary.prems le fd in auto)
  have b: "body_computes B e de remap b nodes indices fd' (h - 1 - lo) \<and> post_order nodes (?a + 1 - lo) (h - 1 - lo) (slots b)"
    by (rule Binary.IH(2) [OF sp(2)]) (use Binary.prems le fd in auto)
  obtain s s' rest where "encode_body_node resolver place None remap [lo..hi] e (node_at ns h) s = Inr (Some (nodes (h - lo)), s')"
    using em(1) Binary.prems(2,3) le unfolding emitted_def by (metis dual_order.trans order_less_imp_le zle_diff1_eq zless_add1_eq)
  moreover have "old_to_new [lo..hi] ?a = ?a - lo" "old_to_new [lo..hi] (h - 1) = h - 1 - lo"
    by (rule old_to_new_upto; use Binary.prems(2,3) le in linarith)+
  ultimately have node: "nodes (h - lo) = (make_empty_device_node (device_bin_kind (bin_kind g)))
      \<lparr>dn_operand_a := ?a - lo, dn_operand_b := h - 1 - lo\<rparr>"
    using kind sp(3) by (cases g) (simp_all add: encode_body_node_def)
  have "body_computes B e de remap (Binary g a b) nodes indices fd (h - lo)"
    unfolding fd by (rule body_computes_Binary [where nodes = nodes and idx = "h - lo", OF node]) (use a b in auto)
  moreover have "post_order nodes (l - lo) (h - lo) (max (slots a) (Suc (slots b)))"
    by (rule post_order.binary)
      (use a b node in \<open>auto simp: make_empty_device_node_def binary_kind_def device_bin_kind_def algebra_simps split: size_kind.split\<close>)
  ultimately show ?case by simp
qed (use emitted_leaf [OF em env] in \<open>auto simp del: represents.simps\<close>)

section \<open>The cross product of the bindings\<close>

text \<open>The bindings a chain of range maxima takes its body through; an axis is a variable and its range.\<close>

type_synonym range_axis = "int \<times> int \<times> int"

fun axis_bindings :: "range_axis list \<Rightarrow> bound_vars \<Rightarrow> bound_vars set" where
  "axis_bindings [] bv = {bv}"
| "axis_bindings ((v, lo, hi) # as) bv = (\<Union>i \<in> {lo..<hi}. axis_bindings as (bv(v \<mapsto> i)))"

text \<open>The kernel's parameters for a chain: axis \<open>k\<close> fills scope slot \<open>k\<close>.\<close>

definition device_axes :: "range_axis list \<Rightarrow> axis list" where
  "device_axes as = map (\<lambda>k. case as ! k of (v, lo, hi) \<Rightarrow> (nat (hi - lo), lo, int k)) [0..<length as]"

lemma axis_scopes_iff:
  assumes "distinct (map (\<lambda>(_, _, v). v) as)" "\<forall>(_, _, v) \<in> set as. in_scope v"
  shows "s \<in> axis_scopes as sc \<longleftrightarrow>
    (\<forall>(n, b, v) \<in> set as. \<exists>k < n. s v = wrap64 (b + int k)) \<and> (\<forall>v. v \<notin> axis_vars as \<longrightarrow> s v = sc v)"
  using assms
proof (induction as arbitrary: sc)
  case (Cons a as)
  obtain n b v where a: "a = (n, b, v)" by (cases a)
  have v: "in_scope v" "v \<notin> axis_vars as" using Cons.prems by (auto simp: a axis_vars_def)
  have IH: "s \<in> axis_scopes as sc' \<longleftrightarrow>
      (\<forall>(n, b, v) \<in> set as. \<exists>k < n. s v = wrap64 (b + int k)) \<and> (\<forall>v. v \<notin> axis_vars as \<longrightarrow> s v = sc' v)" for sc'
    by (rule Cons.IH) (use Cons.prems in auto)
  have vars: "axis_vars (a # as) = insert v (axis_vars as)" by (auto simp: axis_vars_def a)
  have "s \<in> axis_scopes (a # as) sc \<longleftrightarrow> (\<exists>k < n. s \<in> axis_scopes as (sc(v := wrap64 (b + int k))))"
    using v(1) by (auto simp: a axis_put_def)
  also have "\<dots> \<longleftrightarrow> (\<forall>(n, b, v) \<in> set as. \<exists>k < n. s v = wrap64 (b + int k)) \<and>
      (\<exists>k < n. s v = wrap64 (b + int k)) \<and> (\<forall>u. u \<notin> insert v (axis_vars as) \<longrightarrow> s u = sc u)"
    unfolding IH using v(2) by (auto split: if_splits)
  finally show ?case unfolding vars unfolding a by auto
qed (auto simp: axis_vars_def)

lemma axis_bindings_iff:
  assumes "distinct (map fst as)"
  shows "b \<in> axis_bindings as bv \<longleftrightarrow>
    (\<forall>(v, lo, hi) \<in> set as. \<exists>i. lo \<le> i \<and> i < hi \<and> b v = Some i) \<and> (\<forall>v. v \<notin> fst ` set as \<longrightarrow> b v = bv v)"
  using assms
proof (induction as arbitrary: bv)
  case (Cons a as)
  obtain v lo hi where a: "a = (v, lo, hi)" by (cases a)
  have v: "v \<notin> fst ` set as" using Cons.prems by (auto simp: a)
  have IH: "b \<in> axis_bindings as bv' \<longleftrightarrow>
      (\<forall>(v, lo, hi) \<in> set as. \<exists>i. lo \<le> i \<and> i < hi \<and> b v = Some i) \<and> (\<forall>v. v \<notin> fst ` set as \<longrightarrow> b v = bv' v)" for bv'
    by (rule Cons.IH) (use Cons.prems in auto)
  have "b \<in> axis_bindings (a # as) bv \<longleftrightarrow> (\<exists>i. lo \<le> i \<and> i < hi \<and> b \<in> axis_bindings as (bv(v \<mapsto> i)))"
    by (auto simp: a)
  also have "\<dots> \<longleftrightarrow> (\<forall>(v, lo, hi) \<in> set as. \<exists>i. lo \<le> i \<and> i < hi \<and> b v = Some i) \<and>
      (\<exists>i. lo \<le> i \<and> i < hi \<and> b v = Some i) \<and> (\<forall>u. u \<notin> insert v (fst ` set as) \<longrightarrow> b u = bv u)"
    unfolding IH using v by (auto split: if_splits)
  finally show ?case by (auto simp: a)
qed auto

lemma axis_bindings_nth:
  assumes "distinct (map fst as)"
  shows "b \<in> axis_bindings as bv \<longleftrightarrow>
    (\<forall>k < length as. \<exists>i. fst (snd (as ! k)) \<le> i \<and> i < snd (snd (as ! k)) \<and> b (fst (as ! k)) = Some i) \<and>
    (\<forall>v. v \<notin> fst ` set as \<longrightarrow> b v = bv v)"
  unfolding axis_bindings_iff [OF assms] all_set_conv_all_nth case_prod_unfold ..

definition axes_ok :: "range_axis list \<Rightarrow> bool" where
  "axes_ok as \<longleftrightarrow> distinct (map fst as) \<and> length as \<le> max_reducer_max_axes \<and>
     (\<forall>(v, lo, hi) \<in> set as. 0 \<le> lo \<and> lo < hi \<and> hi < 2 ^ 63)"

lemma device_axes_scopes:
  assumes "axes_ok as"
  shows "s \<in> axis_scopes (rev (device_axes as)) sc \<longleftrightarrow>
    (\<forall>k < length as. fst (snd (as ! k)) \<le> s (int k) \<and> s (int k) < snd (snd (as ! k))) \<and>
    (\<forall>v. v \<notin> int ` {..< length as} \<longrightarrow> s v = sc v)"
proof -
  let ?axes = "rev (device_axes as)"
  have set: "set (device_axes as) = (\<lambda>k. (nat (snd (snd (as ! k)) - fst (snd (as ! k))), fst (snd (as ! k)), int k)) ` {..< length as}"
    by (auto simp: device_axes_def case_prod_unfold)
  have vs: "map (\<lambda>(_, _, v). v) ?axes = rev (map int [0..<length as])"
    by (simp add: device_axes_def rev_map case_prod_unfold comp_def)
  have "length as \<le> max_bound_vars" using assms by (simp add: axes_ok_def max_reducer_max_axes_def max_bound_vars_def)
  then have "s \<in> axis_scopes ?axes sc \<longleftrightarrow>
      (\<forall>(n, b, v) \<in> set ?axes. \<exists>k < n. s v = wrap64 (b + int k)) \<and> (\<forall>v. v \<notin> axis_vars ?axes \<longrightarrow> s v = sc v)"
    by (intro axis_scopes_iff) (auto simp: vs set in_scope_def distinct_map)
  moreover have "axis_vars ?axes = int ` {..< length as}" unfolding axis_vars_def vs by auto
  moreover have "(\<forall>(n, b, v) \<in> set ?axes. \<exists>k < n. s v = wrap64 (b + int k)) \<longleftrightarrow>
      (\<forall>k < length as. fst (snd (as ! k)) \<le> s (int k) \<and> s (int k) < snd (snd (as ! k)))"
  proof -
    have "(\<exists>j < nat (hi - lo). x = wrap64 (lo + int j)) \<longleftrightarrow> lo \<le> x \<and> x < hi" if "0 \<le> lo" "hi < 2 ^ 63" for lo hi x
    proof -
      have "wrap64 y = y" if "lo \<le> y" "y < hi" for y
        using that \<open>0 \<le> lo\<close> \<open>hi < 2 ^ 63\<close> by (intro wrap64_id) (auto simp: fits64_def)
      then show ?thesis by (auto intro!: exI [of _ "nat (x - lo)"])
    qed
    moreover have "0 \<le> fst (snd (as ! k)) \<and> snd (snd (as ! k)) < 2 ^ 63" if "k < length as" for k
      using assms nth_mem [OF that] by (auto simp: axes_ok_def)
    ultimately show ?thesis unfolding set_rev set by auto
  qed
  ultimately show ?thesis by simp
qed

text \<open>A scope of the kernel and a binding of the chain with the same values.\<close>

definition bind_of :: "range_axis list \<Rightarrow> scope \<Rightarrow> bound_vars" where
  "bind_of as sc v = map_option sc (map_of (chain_remap (map fst as)) v)"

lemma chain_remap_nth:
  assumes "distinct vs" "k < length vs"
  shows "map_of (chain_remap vs) (vs ! k) = Some (int k)"
  using assms by (auto simp: chain_remap_def map_of_zip_nth)

lemma chain_remap_None: "v \<notin> set vs \<Longrightarrow> map_of (chain_remap vs) v = None"
  by (simp add: chain_remap_def map_of_zip_is_None)

lemma bind_of_scope:
  assumes "axes_ok as" "s \<in> axis_scopes (rev (device_axes as)) (\<lambda>_. 0)"
  shows "bind_of as s \<in> axis_bindings as Map.empty" "scope_ok (chain_remap (map fst as)) (bind_of as s) s (fst ` set as)"
proof -
  have d: "distinct (map fst as)" using assms(1) by (simp add: axes_ok_def)
  have at: "bind_of as s (fst (as ! k)) = Some (s (int k))" if "k < length as" for k
    using chain_remap_nth [OF d, of k] that by (simp add: bind_of_def)
  have "fst (snd (as ! k)) \<le> s (int k) \<and> s (int k) < snd (snd (as ! k))" if "k < length as" for k
    using assms device_axes_scopes that by blast
  moreover have "bind_of as s v = None" if "v \<notin> fst ` set as" for v
    using chain_remap_None [of v "map fst as"] that by (simp add: bind_of_def)
  ultimately show "bind_of as s \<in> axis_bindings as Map.empty"
    unfolding axis_bindings_nth [OF d] using at by simp
  show "scope_ok (chain_remap (map fst as)) (bind_of as s) s (fst ` set as)"
    unfolding scope_ok_def
  proof
    fix v assume "v \<in> fst ` set as"
    then obtain k where "k < length as" "v = fst (as ! k)" by (auto simp: in_set_conv_nth)
    then show "\<exists>da. map_of (chain_remap (map fst as)) v = Some da \<and> bind_of as s v = Some (s da)"
      using at chain_remap_nth [OF d, of k] by auto
  qed
qed

lemma binding_scope:
  assumes "axes_ok as" "b \<in> axis_bindings as Map.empty"
  shows "\<exists>s \<in> axis_scopes (rev (device_axes as)) (\<lambda>_. 0). bind_of as s = b"
proof -
  let ?s = "\<lambda>d. if 0 \<le> d \<and> d < int (length as) then the (b (fst (as ! nat d))) else 0"
  have d: "distinct (map fst as)" using assms(1) by (simp add: axes_ok_def)
  have b: "\<exists>i. fst (snd (as ! k)) \<le> i \<and> i < snd (snd (as ! k)) \<and> b (fst (as ! k)) = Some i" if "k < length as" for k
    using assms(2) that unfolding axis_bindings_nth [OF d] by blast
  have out: "b v = None" if "v \<notin> fst ` set as" for v
    using assms(2) that unfolding axis_bindings_nth [OF d] by simp
  have "?s \<in> axis_scopes (rev (device_axes as)) (\<lambda>_. 0)"
    unfolding device_axes_scopes [OF assms(1)]
  proof (intro conjI allI impI)
    fix k assume "k < length as"
    then show "fst (snd (as ! k)) \<le> ?s (int k)" "?s (int k) < snd (snd (as ! k))" using b [of k] by auto
  next
    fix v :: int assume "v \<notin> int ` {..<length as}"
    then have "\<not> (0 \<le> v \<and> v < int (length as))" by (metis imageI lessThan_iff nat_0_le nat_less_iff)
    then show "?s v = 0" by auto
  qed
  moreover have "bind_of as ?s v = b v" for v
  proof (cases "v \<in> fst ` set as")
    case True
    then obtain k where k: "k < length as" "v = fst (as ! k)" by (auto simp: in_set_conv_nth)
    then show ?thesis using b [OF k(1)] chain_remap_nth [OF d, of k] by (auto simp: bind_of_def)
  next
    case False
    then show ?thesis using out chain_remap_None [of v "map fst as"] by (simp add: bind_of_def)
  qed
  ultimately show ?thesis by blast
qed

section \<open>The reduction of a recognised chain\<close>

text \<open>Values of the body over the cross product.\<close>

definition chain_values :: "env \<Rightarrow> range_axis list \<Rightarrow> size_expr \<Rightarrow> int set" where
  "chain_values e as t = {x. \<exists>bv \<in> axis_bindings as Map.empty. size_value e t bv = Inr x}"

definition body_defined :: "env \<Rightarrow> range_axis list \<Rightarrow> size_expr \<Rightarrow> bool" where
  "body_defined e as t \<longleftrightarrow> (\<forall>bv \<in> axis_bindings as Map.empty. \<exists>x. size_value e t bv = Inr x)"

lemma body_values_image:
  assumes "axes_ok as" "body_defined e as t" "fv t \<subseteq> fst ` set as"
    and "body_computes (\<lambda>bv. bv \<in> axis_bindings as Map.empty) e de (chain_remap (map fst as)) t nodes indices n (int n - 1)"
  shows "body_value de nodes indices n ` axis_scopes (rev (device_axes as)) (\<lambda>_. 0) = chain_values e as t"
proof -
  have val: "size_value e t (bind_of as s) = Inr (body_value de nodes indices n s)"
    if s: "s \<in> axis_scopes (rev (device_axes as)) (\<lambda>_. 0)" for s
  proof -
    obtain x where x: "size_value e t (bind_of as s) = Inr x"
      using assms(2) bind_of_scope(1) [OF assms(1) s] by (auto simp: body_defined_def)
    have "scope_ok (chain_remap (map fst as)) (bind_of as s) s (fv t)"
      using scope_ok_mono [OF bind_of_scope(2) [OF assms(1) s] assms(3)] .
    then have "device_eval_node n de nodes indices (int n - 1) s = Inr (x, s)"
      using assms(4) bind_of_scope(1) [OF assms(1) s] x unfolding body_computes_def by blast
    then show ?thesis using x by (simp add: body_value_def)
  qed
  show ?thesis
  proof (intro equalityI subsetI)
    fix x assume "x \<in> body_value de nodes indices n ` axis_scopes (rev (device_axes as)) (\<lambda>_. 0)"
    then show "x \<in> chain_values e as t" using val bind_of_scope(1) [OF assms(1)] by (auto simp: chain_values_def)
  next
    fix x assume "x \<in> chain_values e as t"
    then obtain b where b: "b \<in> axis_bindings as Map.empty" "size_value e t b = Inr x" by (auto simp: chain_values_def)
    obtain s where s: "s \<in> axis_scopes (rev (device_axes as)) (\<lambda>_. 0)" "bind_of as s = b"
      using binding_scope [OF assms(1) b(1)] by blast
    then have "x = body_value de nodes indices n s" using val [OF s(1)] b(2) by simp
    then show "x \<in> body_value de nodes indices n ` axis_scopes (rev (device_axes as)) (\<lambda>_. 0)" using s(1) by blast
  qed
qed

lemma total_length_device:
  assumes "axes_ok as" "as \<noteq> []"
  shows "total_length (device_axes as) = Some (u64 (prod_list (map fst (device_axes as))))"
proof -
  have "0 < fst x" if "x \<in> set (device_axes as)" for x
  proof -
    obtain k where "k < length as" "fst x = nat (snd (snd (as ! k)) - fst (snd (as ! k)))"
      using \<open>x \<in> _\<close> by (auto simp: device_axes_def case_prod_unfold)
    moreover from this(1) have "fst (snd (as ! k)) < snd (snd (as ! k))"
      using assms(1) nth_mem by (fastforce simp: axes_ok_def)
    ultimately show ?thesis by simp
  qed
  moreover have "length (device_axes as) = length as" by (simp add: device_axes_def)
  ultimately show ?thesis
    using assms by (fastforce simp: total_length_def axes_ok_def)
qed

text \<open>The nodes and the index table read back from the bytes.\<close>

lemma unpack_body:
  assumes "reads_as m p (concat (map pack_node nodes) @ concat (map bytes_i32 table))"
    and "list_all node_fits nodes" "list_all fits32 table"
  shows "reads_as (node_ptr m p) 0 nodes" "reads_as (index_ptr m (p + 48 * int (length nodes))) 0 table"
proof -
  have "length (concat (map pack_node nodes)) = 48 * length nodes" by (rule length_concat_map) simp
  then have parts: "reads_as m p (concat (map pack_node nodes))"
    "reads_as m (p + 48 * int (length nodes)) (concat (map bytes_i32 table))"
    using assms(1) by (auto simp: reads_as_append)
  show "reads_as (node_ptr m p) 0 nodes"
    using reads_as_concat [OF parts(1)] assms(2)
    by (auto simp: reads_as_def [of "node_ptr m p"] list_all_length intro!: node_ptr_pack)
  show "reads_as (index_ptr m (p + 48 * int (length nodes))) 0 table"
    using reads_as_concat [OF parts(2), of 4, THEN load_bytes_i32] assms(3)
    by (auto simp: reads_as_def list_all_length index_ptr_def)
qed

text \<open>A body's bytecode in device memory evaluates the body, with the chain's axes in the scope.\<close>

lemma encoded_body_computes:
  assumes enc: "encode_body ns hi vs resolver place None e cache = Inr (Some (nodes, table), st)" "cache_ok e cache"
    and body: "spans ns lo hi t" "body_grammar vs t" "body_ok B e de place t" "length vs \<le> max_bound_vars"
    and env: "resolves e resolver" "de_mem de = en_mem e"
    and reads: "reads_as nd 0 nodes" "reads_as ix 0 table"
  shows "body_computes B e de (chain_remap vs) t nd ix (length nodes) (int (length nodes) - 1) \<and>
    post_order nd 0 (int (length nodes) - 1) (slots t)"
proof -
  let ?st = "\<lparr>bo_indices = [], bo_reads = [], bo_cache = cache\<rparr>"
  have rep: "represents ns hi t" by (rule spans_represents [OF body(1)])
  have "visit (eval_fuel ns) ns hi [] = Inr [lo..hi]"
    using visit_spans [OF body(1,2), of "[]" "eval_fuel ns"] represents_fuel [OF rep] by simp
  then have em: "encode_body_nodes (encode_body_node resolver place None (chain_remap vs) [lo..hi] e) (map (node_at ns) [lo..hi]) ?st =
      Inr (Some nodes, st)" "table = bo_indices st"
    using enc(1) represents_in_range [OF rep] by (auto simp: encode_body_def result_simps split: option.splits)
  have e: "emitted resolver place (chain_remap vs) e ns lo hi nd (bo_indices st)" "length nodes = length [lo..hi]"
    using encode_body_nodes_emitted [OF em(1) _ reads(1)] enc(2) by auto
  have le: "0 \<le> lo" "lo \<le> hi" using spans_le [OF body(1)] by auto
  then have n: "int (length nodes) - 1 = hi - lo" using e(2) by simp
  have "int (depth t) \<le> hi - lo" by (rule spans_depth [OF body(1)])
  then have "depth t < length nodes" using n by linarith
  then show ?thesis
    using emitted_computes [OF e(1) _ chain_remap_ok [OF body(4)] env body(1) order_refl order_refl body(2,3)]
      reads(2) em(2) n by simp
qed

theorem encoded_chain_reduces:
  assumes enc: "encode_body ns hi (map fst as) resolver place None e cache = Inr (Some (nodes, table), st)" "cache_ok e cache"
    and mem: "reads_as m p (concat (map pack_node nodes) @ concat (map bytes_i32 table))"
      "list_all node_fits nodes" "list_all fits32 table"
    and body: "spans ns lo hi t" "body_grammar (map fst as) t"
      "body_ok (\<lambda>bv. bv \<in> axis_bindings as Map.empty) e de place t" "slots t \<le> eval_stack_depth"
    and axes: "axes_ok as" "as \<noteq> []" "prod_list (map fst (device_axes as)) < 2 ^ 64" "body_defined e as t"
    and env: "resolves e resolver" "de_mem de = en_mem e"
    and kernel: "0 < num" "total_length (device_axes as) = Some tot"
      "\<And>k. k < num \<Longrightarrow> thread_max de (node_ptr m p) (index_ptr m (p + 48 * int (length nodes)))
         (length nodes) (device_axes as) tot num k = Inr (running k)"
      "cas_run num running (cas_start int64_min) w" "\<forall>k < num. cw_threads w k = Finished"
  shows "cw_slot w = Max (insert int64_min (chain_values e as t))"
proof -
  let ?nd = "node_ptr m p" and ?ix = "index_ptr m (p + 48 * int (length nodes))"
  have "length (map fst as) \<le> max_bound_vars"
    using axes(1) by (simp add: axes_ok_def max_reducer_max_axes_def max_bound_vars_def)
  from encoded_body_computes [OF enc body(1-3) this env unpack_body [OF mem]]
  have c: "body_computes (\<lambda>bv. bv \<in> axis_bindings as Map.empty) e de (chain_remap (map fst as)) t ?nd ?ix
      (length nodes) (int (length nodes) - 1)" "post_order ?nd 0 (int (length nodes) - 1) (slots t)" by auto
  have "fv t \<subseteq> fst ` set as" using body_grammar_fv [OF body(2)] by simp
  from body_values_image [OF axes(1,4) this c(1)]
  show ?thesis using max_reduce_correct [OF c(2) body(4) kernel(1,2) axes(3) kernel(3-5)] by simp
qed

section \<open>The chain's own meaning\<close>

fun mor_chain :: "(int \<times> size_expr \<times> size_expr) list \<Rightarrow> size_expr \<Rightarrow> size_expr" where
  "mor_chain [] t = t"
| "mor_chain ((v, a, b) # cs) t = MaxOverRange v a b (mor_chain cs t)"

definition axis_evaluates :: "env \<Rightarrow> int \<times> size_expr \<times> size_expr \<Rightarrow> range_axis \<Rightarrow> bool" where
  "axis_evaluates e c ax \<longleftrightarrow>
     (case (c, ax) of ((v, a, b), (v', lo, hi)) \<Rightarrow> v' = v \<and> fv a = {} \<and> fv b = {} \<and>
        size_value e a Map.empty = Inr lo \<and> size_value e b Map.empty = Inr hi)"

lemma finite_axis_bindings: "finite (axis_bindings as bv)"
  by (induction as bv rule: axis_bindings.induct) (auto simp del: fun_upd_apply)

lemma Max_floor_UN:
  fixes V :: "'a \<Rightarrow> int set"
  assumes "finite I" "\<And>i. i \<in> I \<Longrightarrow> finite (V i)"
  shows "Max (insert 0 ((\<lambda>i. Max (insert 0 (V i))) ` I)) = Max (insert 0 (\<Union>i \<in> I. V i))"
proof (rule antisym)
  show "Max (insert 0 ((\<lambda>i. Max (insert 0 (V i))) ` I)) \<le> Max (insert 0 (\<Union>i \<in> I. V i))"
    using assms by (auto intro!: Max.boundedI Max_ge)
  show "Max (insert 0 (\<Union>i \<in> I. V i)) \<le> Max (insert 0 ((\<lambda>i. Max (insert 0 (V i))) ` I))"
  proof (rule Max.boundedI)
    fix x assume "x \<in> insert 0 (\<Union>i \<in> I. V i)"
    then consider "x = 0" | i where "i \<in> I" "x \<in> V i" by auto
    then show "x \<le> Max (insert 0 ((\<lambda>i. Max (insert 0 (V i))) ` I))"
    proof cases
      case (2 i)
      then have "x \<le> Max (insert 0 (V i))" using assms(2) by (auto intro: Max_ge)
      also have "\<dots> \<le> Max (insert 0 ((\<lambda>i. Max (insert 0 (V i))) ` I))" using 2 assms(1) by (auto intro: Max_ge)
      finally show ?thesis .
    qed (use assms in \<open>auto intro: Max_ge\<close>)
  qed (use assms in auto)
qed

definition values_from :: "env \<Rightarrow> range_axis list \<Rightarrow> size_expr \<Rightarrow> bound_vars \<Rightarrow> int set" where
  "values_from e as t bv = {x. \<exists>b \<in> axis_bindings as bv. size_value e t b = Inr x}"

lemma finite_values: "finite (values_from e as t bv)"
proof -
  have "values_from e as t bv \<subseteq> (\<lambda>b. case size_value e t b of Inl _ \<Rightarrow> 0 | Inr x \<Rightarrow> x) ` axis_bindings as bv"
    by (force simp: values_from_def)
  then show ?thesis using finite_axis_bindings finite_subset by blast
qed

lemma mapE_values: "mapE f xs = Inr ys \<Longrightarrow> set ys = {y. \<exists>x \<in> set xs. f x = Inr y}"
  by (induction xs arbitrary: ys) (auto simp: result_simps)

lemma chain_meaning:
  assumes "size_value e (mor_chain cs t) bv = Inr x" "list_all2 (axis_evaluates e) cs as" "cs \<noteq> []"
  shows "x = Max (insert 0 (values_from e as t bv)) \<and> (\<forall>b \<in> axis_bindings as bv. \<exists>y. size_value e t b = Inr y)"
  using assms
proof (induction cs arbitrary: as bv x)
  case (Cons c cs)
  obtain v a b where c: "c = (v, a, b)" by (cases c)
  obtain ax as' where as: "as = ax # as'" "axis_evaluates e c ax" "list_all2 (axis_evaluates e) cs as'"
    using Cons.prems(2) by (cases as) auto
  obtain lo hi where ax: "ax = (v, lo, hi)" and closed: "fv a = {}" "fv b = {}"
      "size_value e a Map.empty = Inr lo" "size_value e b Map.empty = Inr hi"
    using as(2) by (cases ax) (auto simp: axis_evaluates_def c)
  have "size_value e a bv = Inr lo" "size_value e b bv = Inr hi"
    using closed closed_value by metis+
  then obtain ys where ys: "mapE (\<lambda>i. size_value e (mor_chain cs t) (bv(v \<mapsto> i))) [lo..hi - 1] = Inr ys" "x = Max (insert 0 (set ys))"
    using Cons.prems(1) by (auto simp: c result_simps)
  have all: "\<exists>y. size_value e (mor_chain cs t) (bv(v \<mapsto> i)) = Inr y" if "i \<in> {lo..<hi}" for i
    using mapE_all [OF ys(1), of i] that by auto
  have floor: "Max (insert 0 {y. size_value e (mor_chain cs t) (bv(v \<mapsto> i)) = Inr y}) = Max (insert 0 (values_from e as' t (bv(v \<mapsto> i))))
      \<and> (\<forall>b \<in> axis_bindings as' (bv(v \<mapsto> i)). \<exists>y. size_value e t b = Inr y)" if i: "i \<in> {lo..<hi}" for i
  proof (cases "cs = []")
    case True
    then show ?thesis using as(3) all [OF i] by (simp add: values_from_def)
  next
    case False
    obtain y where y: "size_value e (mor_chain cs t) (bv(v \<mapsto> i)) = Inr y" using all [OF i] by blast
    then have "{y. size_value e (mor_chain cs t) (bv(v \<mapsto> i)) = Inr y} = {y}" by auto
    moreover have "0 \<le> Max (insert 0 (values_from e as' t (bv(v \<mapsto> i))))" using finite_values by (intro Max_ge) auto
    ultimately show ?thesis using Cons.IH [OF y as(3) False] by (simp del: fun_upd_apply)
  qed
  have set: "set ys = (\<Union>i \<in> {lo..<hi}. {y. size_value e (mor_chain cs t) (bv(v \<mapsto> i)) = Inr y})"
    using mapE_values [OF ys(1)] by auto
  have fin: "finite {y. size_value e (mor_chain cs t) (bv(v \<mapsto> i)) = Inr y}" for i
    by (cases "size_value e (mor_chain cs t) (bv(v \<mapsto> i))") auto
  have "x = Max (insert 0 ((\<lambda>i. Max (insert 0 {y. size_value e (mor_chain cs t) (bv(v \<mapsto> i)) = Inr y})) ` {lo..<hi}))"
    unfolding ys(2) set using fin by (subst Max_floor_UN) auto
  also have "(\<lambda>i. Max (insert 0 {y. size_value e (mor_chain cs t) (bv(v \<mapsto> i)) = Inr y})) ` {lo..<hi} =
      (\<lambda>i. Max (insert 0 (values_from e as' t (bv(v \<mapsto> i))))) ` {lo..<hi}"
    by (rule image_cong [OF refl]) (use floor in blast)
  also have "Max (insert 0 ((\<lambda>i. Max (insert 0 (values_from e as' t (bv(v \<mapsto> i))))) ` {lo..<hi})) =
      Max (insert 0 (\<Union>i \<in> {lo..<hi}. values_from e as' t (bv(v \<mapsto> i))))"
    using finite_values by (intro Max_floor_UN) auto
  also have "(\<Union>i \<in> {lo..<hi}. values_from e as' t (bv(v \<mapsto> i))) = values_from e as t bv"
    by (auto simp: values_from_def as ax)
  finally show ?case using floor by (auto simp: as(1) ax)
qed simp

text \<open>
  What the reduction publishes is the meaning of the chain, but for the floor at zero that the
  evaluators apply and the reduction does not.
\<close>

lemma reduced_chain_meaning:
  assumes "size_value e (mor_chain cs t) Map.empty = Inr x" "list_all2 (axis_evaluates e) cs as" "cs \<noteq> []"
    and "slot = Max (insert int64_min (chain_values e as t))"
  shows "x = max 0 slot" and "body_defined e as t"
proof -
  let ?V = "values_from e as t Map.empty"
  have V: "chain_values e as t = ?V" by (simp add: chain_values_def values_from_def)
  have x: "x = Max (insert 0 ?V)" and def: "\<forall>b \<in> axis_bindings as Map.empty. \<exists>y. size_value e t b = Inr y"
    using chain_meaning [OF assms(1-3)] by auto
  have "Max (insert 0 ?V) = max 0 (Max (insert int64_min ?V))"
    using finite_values [of e as t] by (cases "?V = {}") (auto simp: int64_min_def)
  then show "x = max 0 slot" using x assms(4) V by simp
  show "body_defined e as t" using def by (simp add: body_defined_def)
qed

section \<open>A dispatched chain\<close>

text \<open>
  One launch of \<^verbatim>\<open>runtime_eval_adstack_max_reduce\<close> on the bytecode at \<open>p\<close> of \<open>m\<close>, its output slot seeded with
  the sentinel: \<open>w\<close> is a state in which all threads are done. The host reads the slot back and
  turns an untouched sentinel into 0.
\<close>

definition kernel_run :: "memory \<Rightarrow> dev_env \<Rightarrow> int \<Rightarrow> nat \<Rightarrow> axis list \<Rightarrow> nat \<Rightarrow> cas_world \<Rightarrow> bool" where
  "kernel_run m de p n axes num w \<longleftrightarrow>
     (\<exists>running tot. 0 < num \<and> total_length axes = Some tot \<and>
        (\<forall>k < num. thread_max de (node_ptr m p) (index_ptr m (p + 48 * int n)) n axes tot num k =
           Inr (running k)) \<and>
        cas_run num running (cas_start int64_min) w \<and> (\<forall>k < num. cw_threads w k = Finished))"

definition dispatched_value :: "int \<Rightarrow> int" where
  "dispatched_value v = (if v = int64_min then 0 else v)"

lemma dispatched_chain:
  assumes enc: "encode_body ns hi (map fst as) resolver place None e cache = Inr (Some (nodes, table), st)" "cache_ok e cache"
    and mem: "reads_as m p (concat (map pack_node nodes) @ concat (map bytes_i32 table))"
      "list_all node_fits nodes" "list_all fits32 table"
    and body: "spans ns lo hi t" "body_grammar (map fst as) t"
      "body_ok (\<lambda>bv. bv \<in> axis_bindings as Map.empty) e de place t" "slots t \<le> eval_stack_depth"
    and axes: "axes_ok as" "prod_list (map fst (device_axes as)) < 2 ^ 64"
    and env: "resolves e resolver" "de_mem de = en_mem e"
    and kernel: "kernel_run m de p (length nodes) (device_axes as) num w"
    and chain: "list_all2 (axis_evaluates e) cs as" "cs \<noteq> []" "size_value e (mor_chain cs t) Map.empty = Inr x"
  shows "cw_slot w = Max (insert int64_min (chain_values e as t))" and "x = max 0 (dispatched_value (cw_slot w))"
proof -
  have as: "as \<noteq> []" using chain(1,2) by (cases cs) auto
  have def: "body_defined e as t" using reduced_chain_meaning(2) [OF chain(3,1,2) refl] .
  obtain running tot where k: "0 < num" "total_length (device_axes as) = Some tot"
      "\<And>k. k < num \<Longrightarrow> thread_max de (node_ptr m p) (index_ptr m (p + 48 * int (length nodes)))
         (length nodes) (device_axes as) tot num k = Inr (running k)"
      "cas_run num running (cas_start int64_min) w" "\<forall>k < num. cw_threads w k = Finished"
    using kernel unfolding kernel_run_def by blast
  show slot: "cw_slot w = Max (insert int64_min (chain_values e as t))"
    by (rule encoded_chain_reduces [OF enc mem body axes(1) as axes(2) def env k])
  have "x = max 0 (cw_slot w)" by (rule reduced_chain_meaning(1) [OF chain(3,1,2) slot])
  then show "x = max 0 (dispatched_value (cw_slot w))" by (simp add: dispatched_value_def int64_min_def)
qed

text \<open>The kernel always has a finishing run.\<close>

lemma kernel_run_exists:
  assumes "post_order (node_ptr m p) 0 (int n - 1) d" "d \<le> eval_stack_depth" "0 < num"
    and "total_length axes = Some tot"
  shows "\<exists>w. kernel_run m de p n axes num w"
proof -
  let ?tm = "thread_max de (node_ptr m p) (index_ptr m (p + 48 * int n)) n axes tot num"
  have "\<forall>k. \<exists>r. ?tm k = Inr r" using thread_max_value [OF assms(1-3)] by blast
  from choice [OF this] obtain running where "\<forall>k. ?tm k = Inr (running k)" ..
  moreover obtain w where "cas_run num running (cas_start int64_min) w" "\<forall>k < num. cw_threads w k = Finished"
    using cas_finishes by blast
  ultimately show ?thesis using assms(3,4) unfolding kernel_run_def by blast
qed

lemma dispatched_chain_finishes:
  assumes "encode_body ns hi (map fst as) resolver place None e cache = Inr (Some (nodes, table), st)" "cache_ok e cache"
    and "reads_as m p (concat (map pack_node nodes) @ concat (map bytes_i32 table))"
      "list_all node_fits nodes" "list_all fits32 table"
    and "spans ns lo hi t" "body_grammar (map fst as) t"
      "body_ok (\<lambda>bv. bv \<in> axis_bindings as Map.empty) e de place t" "slots t \<le> eval_stack_depth"
    and "axes_ok as" "as \<noteq> []" "resolves e resolver" "de_mem de = en_mem e" "0 < num"
  shows "\<exists>w. kernel_run m de p (length nodes) (device_axes as) num w"
proof -
  have "length (map fst as) \<le> max_bound_vars"
    using assms(10) by (simp add: axes_ok_def max_reducer_max_axes_def max_bound_vars_def)
  from encoded_body_computes [OF assms(1,2,6-8) this assms(12,13) unpack_body [OF assms(3-5)]]
  show ?thesis
    using kernel_run_exists [OF _ assms(9,14) total_length_device [OF assms(10,11)]] by blast
qed

end
