(* ===== verification/SampleReducer.thy ===== *)
theory SampleReducer
  imports SampleRuns MaxReducerBody
begin

text \<open>
  The range maximum of \<open>sample_tree\<close> reduced on the device: its body's bytecode at address 5000
  and one thread that walks the three elements of the array.
\<close>

definition sample_mor_body :: size_expr where
  "sample_mor_body = Binary OpAdd (ExternalTensorRead [0] [-6] 5) (Const 1)"

definition sample_chain :: "(int \<times> size_expr \<times> size_expr) list" where
  "sample_chain = [(5, Const 0, ExternalTensorShape [0] 0)]"

definition sample_axes :: "range_axis list" where
  "sample_axes = [(5, 0, 3)]"

definition sample_resolver :: "int list \<Rightarrow> int" where
  "sample_resolver p = (if p = [0] then 8 else 0)"

definition sample_body_nodes :: "dev_node list" where
  "sample_body_nodes =
     [(make_empty_device_node kExternalTensorRead)\<lparr>dn_prim_dt := 5, dn_arg_buffer_offset := 8, dn_indices_count := 1\<rparr>,
      (make_empty_device_node kConst)\<lparr>dn_const_value := 1\<rparr>,
      (make_empty_device_node kAdd)\<lparr>dn_operand_a := 0, dn_operand_b := 1\<rparr>]"

definition sample_body_bytes :: "8 word list" where
  "sample_body_bytes = concat (map pack_node sample_body_nodes) @ concat (map bytes_i32 [-1, 1])"

definition sample_reduce_mem :: memory where
  "sample_reduce_mem a = (if 5000 \<le> a \<and> a < 5152 then sample_body_bytes ! nat (a - 5000) else sample_mem a)"

definition sample_reduce_env :: env where
  "sample_reduce_env = sample_env\<lparr>en_mem := sample_reduce_mem\<rparr>"

definition sample_reduce_dev :: dev_env where
  "sample_reduce_dev = \<lparr>de_mem = sample_reduce_mem, de_arg_buffer = 2000, de_roots = None\<rparr>"

lemma sample_body_encoded:
  "\<exists>st. encode_body (serialize sample_tree) 4 (map fst sample_axes) sample_resolver (\<lambda>_. (0, 0)) None sample_reduce_env None =
     Inr (Some (sample_body_nodes, [-1, 1]), st)"
proof -
  let ?r = "encode_body (serialize sample_tree) 4 (map fst sample_axes) sample_resolver (\<lambda>_. (0, 0)) None sample_reduce_env None"
  have "map_sum id fst ?r = Inr (Some (sample_body_nodes, [-1, 1]))" by code_simp
  then show ?thesis by (cases ?r) auto
qed

lemma sample_body_length: "length sample_body_bytes = 152"
  by code_simp

lemma sample_body_in_memory: "reads_as sample_reduce_mem 5000 sample_body_bytes"
  by (simp add: reads_as_def sample_reduce_mem_def sample_body_length)

lemma sample_body_fits: "list_all node_fits sample_body_nodes" "list_all fits32 [-1, 1]"
  by (simp_all add: sample_body_nodes_def node_fits_def fits32_def fits64_def make_empty_device_node_def device_kind_defs)

lemma sample_body_spans: "spans (serialize sample_tree) 2 4 sample_mor_body"
  by code_simp

lemma sample_body_grammar: "body_grammar (map fst sample_axes) sample_mor_body" "slots sample_mor_body \<le> eval_stack_depth"
  by code_simp+

lemma sample_body_ok: "body_ok B sample_reduce_env sample_reduce_dev place sample_mor_body"
proof -
  have "device_ok sample_reduce_env sample_reduce_dev (ExternalTensorRead [0] [-6] 5)" by code_simp
  then show ?thesis by (simp add: sample_mor_body_def del: device_ok.simps) simp
qed

lemma sample_axes_ok: "axes_ok sample_axes" "prod_list (map fst (device_axes sample_axes)) < 2 ^ 64"
  by (simp_all add: axes_ok_def sample_axes_def max_reducer_max_axes_def device_axes_def)

lemma sample_resolves: "resolves sample_reduce_env sample_resolver"
  by (auto simp: resolves_def sample_reduce_env_def sample_env_def sample_ctx_def sample_resolver_def wrap32_def)

lemma sample_chain_axes: "list_all2 (axis_evaluates sample_reduce_env) sample_chain sample_axes" "sample_chain \<noteq> []"
proof -
  have "size_value sample_reduce_env (ExternalTensorShape [0] 0) Map.empty = Inr 3" by code_simp
  then show "list_all2 (axis_evaluates sample_reduce_env) sample_chain sample_axes"
    by (simp add: axis_evaluates_def sample_chain_def sample_axes_def)
qed (simp add: sample_chain_def)

lemma sample_chain_value: "size_value sample_reduce_env (mor_chain sample_chain sample_mor_body) Map.empty = Inr 5"
  by code_simp

lemma sample_kernel_run: "\<exists>w. kernel_run sample_reduce_mem sample_reduce_dev 5000 (length sample_body_nodes) (device_axes sample_axes) 1 w"
proof -
  have "de_mem sample_reduce_dev = en_mem sample_reduce_env" by (simp add: sample_reduce_dev_def sample_reduce_env_def)
  then show ?thesis
    using dispatched_chain_finishes [OF _ cache_ok_None _ sample_body_fits sample_body_spans sample_body_grammar(1)
        sample_body_ok sample_body_grammar(2) sample_axes_ok(1) _ sample_resolves]
      sample_body_encoded sample_body_in_memory
    by (fastforce simp: sample_body_bytes_def sample_axes_def)
qed

end
