(* ===== verification/MaxReducerDispatch.thy ===== *)
theory MaxReducerDispatch
  imports MaxReducerBody
begin

text \<open>
  The dispatcher of the LLVM executor (\<^verbatim>\<open>dispatch_max_reducers_impl\<close> in
  \<^verbatim>\<open>runtime/llvm/adstack_lazy_claim/bound_eval.cpp\<close>): cache lookups, then rounds that dispatch every
  spec whose dependencies have results, with the results so far substituted into its expression.
  Device allocation and the copies to and from the device are left out; \<open>reduce\<close> gives the value
  read back from the output slot of a launch.
\<close>

section \<open>The dispatcher\<close>

text \<open>The part of \<^verbatim>\<open>AdStackSizingInfo\<close> the dispatcher reads.\<close>

record dispatch_task =
  dt_registry_id :: nat
  dt_size_exprs :: "ser_expr list"
  dt_specs :: "max_reducer_spec list"

text \<open>
  \<^verbatim>\<open>PendingMaxReducerDispatch\<close>. A spec that was dispatched or dropped leaves the list, which keeps
  its order.
\<close>

record pending_dispatch =
  pd_registry_id :: nat
  pd_expr :: ser_expr
  pd_spec :: max_reducer_spec

definition pending_key :: "pending_dispatch \<Rightarrow> nat" where
  "pending_key p = pack_max_reducer_key (pd_registry_id p) (ms_stack_id (pd_spec p)) (ms_mor_node_idx (pd_spec p))"

record dispatch_state =
  ds_results :: max_reducer_results
  ds_adstack_cache :: "adstack_cache option"
  ds_read_cache :: "read_cache option"

text \<open>Pass 1 on one spec: a hit goes into the results, a miss to the pending list.\<close>

definition lookup_spec ::
  "env \<Rightarrow> dispatch_task \<Rightarrow> max_reducer_spec \<Rightarrow> pending_dispatch list \<times> dispatch_state \<Rightarrow>
   (pending_dispatch list \<times> dispatch_state) result" where
  "lookup_spec e task spec pst =
     (case pst of (pending, st) \<Rightarrow>
      let key = (dt_registry_id task, ms_stack_id spec, ms_mor_node_idx spec);
          p = \<lparr>pd_registry_id = dt_registry_id task, pd_expr = dt_size_exprs task ! nat (ms_stack_id spec), pd_spec = spec\<rparr>
      in case ds_adstack_cache st of
           None \<Rightarrow> Inr (pending @ [p], st)
         | Some ac \<Rightarrow>
             bindE (try_max_reducer_cache_hit e key ac) (\<lambda>(hit, ac').
               let st' = st\<lparr>ds_adstack_cache := Some ac'\<rparr>
               in case hit of
                    Some v \<Rightarrow> Inr (pending, st'\<lparr>ds_results := (pending_key p, v) # ds_results st'\<rparr>)
                  | None \<Rightarrow> Inr (pending @ [p], st')))"

fun foldE :: "('a \<Rightarrow> 's \<Rightarrow> 's result) \<Rightarrow> 'a list \<Rightarrow> 's \<Rightarrow> 's result" where
  "foldE f [] s = Inr s"
| "foldE f (x # xs) s = bindE (f x s) (foldE f xs)"

definition lookup_task ::
  "env \<Rightarrow> dispatch_task \<Rightarrow> pending_dispatch list \<times> dispatch_state \<Rightarrow>
   (pending_dispatch list \<times> dispatch_state) result" where
  "lookup_task e task pst =
     (if dt_specs task = [] \<or> dt_registry_id task = 0 then Inr pst
      else foldE (lookup_spec e task) (dt_specs task) pst)"

definition arg_buffer_offset_resolver :: "(int list \<Rightarrow> int) \<Rightarrow> int list \<Rightarrow> int" where
  "arg_buffer_offset_resolver get_element_offset path =
     (let byte_off = get_element_offset (path @ [data_ptr_pos]) in if 2 ^ 31 - 1 < byte_off then -1 else byte_off)"

definition deps_ok :: "max_reducer_results \<Rightarrow> pending_dispatch \<Rightarrow> bool" where
  "deps_ok results p \<longleftrightarrow>
     list_all (\<lambda>d. map_of results (pack_max_reducer_key (pd_registry_id p) (ms_stack_id (pd_spec p)) d) \<noteq> None)
       (ms_dependent_mor_node_idxs (pd_spec p))"

text \<open>
  The ranges of the axes, evaluated on the host over the substituted expression; \<open>None\<close> when a bound
  is negative, a range is empty or the running product of the lengths passes \<^verbatim>\<open>UINT32_MAX\<close>.
\<close>

fun prepare_axes ::
  "ser_expr \<Rightarrow> env \<Rightarrow> (int \<times> int) list \<Rightarrow> nat \<Rightarrow> read_cache option \<Rightarrow>
   ((int \<times> int) list option \<times> read_cache option) result" where
  "prepare_axes ns e [] tot rc = Inr (Some [], rc)"
| "prepare_axes ns e ((b, n) # bs) tot rc =
     bindE (evaluate_adstack_size_expr_at_node ns b e rc) (\<lambda>(bv, rc1).
     bindE (evaluate_adstack_size_expr_at_node ns n e rc1) (\<lambda>(ev, rc2).
       if bv < 0 \<or> ev < 0 \<or> ev \<le> bv then Inr (None, rc2)
       else
         (let tot' = u64 (tot * nat (ev - bv)) in
          if 2 ^ 32 - 1 < tot' then Inr (None, rc2)
          else bindE (prepare_axes ns e bs tot' rc2) (\<lambda>(r, rc3).
                 Inr (map_option (\<lambda>as. (bv, ev) # as) r, rc3)))))"

text \<open>The kernel's per-axis parameters, lengths narrowed to 32 bits.\<close>

definition axis_params :: "(int \<times> int) list \<Rightarrow> axis list" where
  "axis_params ranges =
     map (\<lambda>k. case ranges ! k of (lo, hi) \<Rightarrow> (nat (hi - lo) mod 2 ^ 32, lo, int k)) [0..<length ranges]"

definition prepare_spec ::
  "(snode \<Rightarrow> int \<times> int) \<Rightarrow> env \<Rightarrow> (int list \<Rightarrow> int) \<Rightarrow> max_reducer_results \<Rightarrow> pending_dispatch \<Rightarrow> read_cache option \<Rightarrow>
   ((axis list \<times> encoded_body) option \<times> read_cache option) result" where
  "prepare_spec place e get_off results p rc =
     (let spec = pd_spec p; num_axes = length (ms_axis_var_ids spec) in
      if num_axes = 0 \<or> max_reducer_max_axes < num_axes then Inr (None, rc)
      else
        (let substituted = substitute_precomputed_max_over_range (pd_expr p) (pd_registry_id p) (ms_stack_id spec) results in
         bindE (prepare_axes substituted e (zip (ms_axis_begin_node_idxs spec) (ms_axis_end_node_idxs spec)) 1 rc) (\<lambda>(r, rc1).
           case r of
             None \<Rightarrow> Inr (None, rc1)
           | Some ranges \<Rightarrow>
               bindE (encode_max_reducer_body_bytecode substituted (ms_body_node_idx spec) (ms_axis_var_ids spec)
                        (arg_buffer_offset_resolver get_off) place None e rc1) (\<lambda>(eb, rc2).
                 Inr (if eb_body_node_count eb = 0 then None else Some (axis_params ranges, eb), rc2)))))"

text \<open>All ready specs of a round are prepared against the same results.\<close>

fun prepare_level ::
  "(snode \<Rightarrow> int \<times> int) \<Rightarrow> env \<Rightarrow> (int list \<Rightarrow> int) \<Rightarrow> max_reducer_results \<Rightarrow> pending_dispatch list \<Rightarrow>
   read_cache option \<Rightarrow> ((pending_dispatch \<times> axis list \<times> encoded_body) list \<times> read_cache option) result" where
  "prepare_level place e get_off results [] rc = Inr ([], rc)"
| "prepare_level place e get_off results (p # ps) rc =
     bindE (prepare_spec place e get_off results p rc) (\<lambda>(r, rc1).
     bindE (prepare_level place e get_off results ps rc1) (\<lambda>(rs, rc2).
       Inr (case r of None \<Rightarrow> rs | Some d \<Rightarrow> (p, d) # rs, rc2)))"

definition finish_spec ::
  "(axis list \<Rightarrow> encoded_body \<Rightarrow> int) \<Rightarrow> env \<Rightarrow> pending_dispatch \<times> axis list \<times> encoded_body \<Rightarrow> dispatch_state \<Rightarrow> dispatch_state" where
  "finish_spec reduce e pd st =
     (case pd of (p, axes, eb) \<Rightarrow>
      let v = dispatched_value (reduce axes eb);
          key = (pd_registry_id p, ms_stack_id (pd_spec p), ms_mor_node_idx (pd_spec p))
      in st\<lparr>ds_results := (pending_key p, v) # ds_results st,
            ds_adstack_cache := map_option (\<lambda>ac. record_max_reducer_eval key v
              (populate_max_reducer_body_observations (eb_body_reads eb) e (Some ac)) ac) (ds_adstack_cache st)\<rparr>)"

lemma bindE_cong [fundef_cong]:
  "m = m' \<Longrightarrow> (\<And>x. m' = Inr x \<Longrightarrow> f x = f' x) \<Longrightarrow> bindE m f = bindE m' f'"
  by (cases m') auto

text \<open>A round with nothing ready drops what is left.\<close>

function dispatch_rounds ::
  "(axis list \<Rightarrow> encoded_body \<Rightarrow> int) \<Rightarrow> (snode \<Rightarrow> int \<times> int) \<Rightarrow> env \<Rightarrow> (int list \<Rightarrow> int) \<Rightarrow> pending_dispatch list \<Rightarrow>
   dispatch_state \<Rightarrow> dispatch_state result" where
  "dispatch_rounds reduce place e get_off todo st =
     (let ready = filter (deps_ok (ds_results st)) todo in
      if ready = [] then Inr st
      else
        bindE (prepare_level place e get_off (ds_results st) ready (ds_read_cache st)) (\<lambda>(level, rc).
          dispatch_rounds reduce place e get_off (filter (\<lambda>p. \<not> deps_ok (ds_results st) p) todo)
            (fold (finish_spec reduce e) level (st\<lparr>ds_read_cache := rc\<rparr>))))"
  by pat_completeness auto
termination
proof (relation "measure (\<lambda>(_, _, _, _, todo, _). length todo)")
  fix reduce :: "axis list \<Rightarrow> encoded_body \<Rightarrow> int" and place e get_off todo and st :: dispatch_state and ready x level rc
  assume ready: "ready = filter (deps_ok (ds_results st)) todo" "ready \<noteq> []"
  then obtain p where "p \<in> set todo" "deps_ok (ds_results st) p" by (auto simp: filter_empty_conv)
  then have "length (filter (\<lambda>p. \<not> deps_ok (ds_results st) p) todo) < length todo"
    by (intro length_filter_less [of p]) auto
  then show "((reduce, place, e, get_off, filter (\<lambda>p. \<not> deps_ok (ds_results st) p) todo,
      fold (finish_spec reduce e) level (st\<lparr>ds_read_cache := rc\<rparr>)), reduce, place, e, get_off, todo, st)
      \<in> measure (\<lambda>(_, _, _, _, todo, _). length todo)" by simp
qed simp

declare dispatch_rounds.simps [simp del]

definition dispatch_max_reducers_impl ::
  "(axis list \<Rightarrow> encoded_body \<Rightarrow> int) \<Rightarrow> (snode \<Rightarrow> int \<times> int) \<Rightarrow> int \<Rightarrow> dispatch_task list \<Rightarrow> env \<Rightarrow>
   adstack_cache option \<Rightarrow> read_cache option \<Rightarrow> dispatch_state result" where
  "dispatch_max_reducers_impl reduce place launch_cache_key tasks e ac rc =
     (let st0 = \<lparr>ds_results = [], ds_adstack_cache = ac, ds_read_cache = rc\<rparr> in
      case en_ctx e of
        None \<Rightarrow> Inr st0
      | Some ctx \<Rightarrow>
          (case lc_args_type ctx of
             None \<Rightarrow> Inr st0
           | Some get_off \<Rightarrow>
               (case Option.bind ac (try_max_reducer_launch_cache_hit launch_cache_key (Some ctx)) of
                  Some hit \<Rightarrow> Inr (st0\<lparr>ds_results := hit\<rparr>)
                | None \<Rightarrow>
                    bindE (foldE (lookup_task e) tasks ([], st0)) (\<lambda>(pending, st).
                    bindE (dispatch_rounds reduce place e get_off pending st) (\<lambda>st'.
                      Inr (st'\<lparr>ds_adstack_cache := map_option
                        (record_max_reducer_launch_cache launch_cache_key
                           (map (\<lambda>t. (dt_registry_id t, map (\<lambda>s. (ms_stack_id s, ms_mor_node_idx s)) (dt_specs t))) tasks)
                           (ds_results st') (Some ctx)) (ds_adstack_cache st')\<rparr>))))))"

text \<open>Where all values are negative, the dispatched value is negative although the range maximum is \<open>0\<close>.\<close>

lemma dispatched_misses_floor:
  assumes "size_value e (mor_chain cs t) Map.empty = Inr x" "list_all2 (axis_evaluates e) cs as" "cs \<noteq> []"
    and "slot = Max (insert int64_min (chain_values e as t))" "int64_min < slot" "slot < 0"
  shows "x = 0 \<and> dispatched_value slot < 0"
  using reduced_chain_meaning(1) [OF assms(1-4)] assms(5,6) by (simp add: dispatched_value_def)

end
