(* ===== verification/DispatchCorrect.thy ===== *)
theory DispatchCorrect
  imports MaxReducerDispatch CacheLaws
begin

text \<open>
  What the dispatcher's results are worth: every result it publishes, from whatever round, is the
  value of the range maximum its key names, so evaluating the substituted expression computes the
  meaning of the original one; and a spec without a result has a reason.
\<close>

section \<open>What a recognised spec captures\<close>

fun root_kind :: "size_expr \<Rightarrow> size_kind" where
  "root_kind (Const c) = KConst"
| "root_kind (FieldLoad s is) = KFieldLoad"
| "root_kind (Binary f a b) = bin_kind f"
| "root_kind (MaxOverRange v a b c) = KMaxOverRange"
| "root_kind (BoundVariable v) = KBoundVariable"
| "root_kind (ExternalTensorShape p ax) = KExternalTensorShape"
| "root_kind (ExternalTensorRead p is dt) = KExternalTensorRead"

lemma represents_kind: "represents ns i t \<Longrightarrow> kind_of (sn_kind (node_at ns i)) = Some (root_kind t)"
  by (cases t) simp_all

lemma bin_kind_inj [simp]: "bin_kind f = bin_kind g \<longleftrightarrow> f = g"
  by (cases f; cases g) simp_all

lemma bin_kind_neq [simp]: "bin_kind f \<noteq> KConst" "bin_kind f \<noteq> KFieldLoad" "bin_kind f \<noteq> KMaxOverRange"
  "bin_kind f \<noteq> KBoundVariable" "bin_kind f \<noteq> KExternalTensorShape" "bin_kind f \<noteq> KExternalTensorRead"
  by (cases f; simp)+

lemmas bin_kind_neq_sym [simp] = bin_kind_neq [symmetric]

lemma represents_unique:
  assumes "represents ns i t" "represents ns i u"
  shows "t = u"
  using assms
proof (induction t arbitrary: i u)
  case (Binary f a b)
  have "root_kind u = bin_kind f" using Binary.prems [THEN represents_kind] by simp
  then obtain c d where "u = Binary f c d" by (cases u) (auto dest: sym)
  then show ?case using Binary by auto
next
  case (MaxOverRange v a b c)
  have "root_kind u = KMaxOverRange" using MaxOverRange.prems [THEN represents_kind] by simp
  then obtain w x y z where "u = MaxOverRange w x y z" by (cases u) auto
  then show ?case using MaxOverRange by auto
next
  case (Const c)
  then show ?case using Const.prems [THEN represents_kind] by (cases u) auto
next
  case (FieldLoad s ix)
  then show ?case using FieldLoad.prems [THEN represents_kind] by (cases u) auto
next
  case (BoundVariable v)
  then show ?case using BoundVariable.prems [THEN represents_kind] by (cases u) auto
next
  case (ExternalTensorShape p ax)
  then show ?case using ExternalTensorShape.prems [THEN represents_kind] by (cases u) auto
next
  case (ExternalTensorRead p ix dt)
  then show ?case using ExternalTensorRead.prems [THEN represents_kind] by (cases u) auto
qed

lemma spans_leaf_inside:
  "is_leaf t \<Longrightarrow> spans ns lo hi t \<Longrightarrow> lo \<le> i \<Longrightarrow> i \<le> hi \<Longrightarrow> \<exists>l u. lo \<le> l \<and> spans ns l i u"
  by (rule exI [of _ lo], rule exI [of _ t], cases t) (simp_all del: represents.simps)

text \<open>Every node inside a spanned range is the root of a spanned subtree.\<close>

lemma spans_inside:
  assumes "spans ns lo hi t" "lo \<le> i" "i \<le> hi"
  shows "\<exists>l u. lo \<le> l \<and> spans ns l i u"
  using assms
proof (induction t arbitrary: lo hi)
  case (Binary f a b)
  let ?a = "sn_operand_a (node_at ns hi)"
  have sp: "spans ns lo ?a a" "spans ns (?a + 1) (hi - 1) b" using Binary.prems(1) by simp_all
  consider "i \<le> ?a" | "?a + 1 \<le> i" "i \<le> hi - 1" | "i = hi" using Binary.prems(3) by linarith
  then show ?case
  proof cases
    case 1 then show ?thesis using Binary.IH(1) [OF sp(1)] Binary.prems by blast
  next
    case 2
    then obtain l u where "?a + 1 \<le> l" "spans ns l i u" using Binary.IH(2) [OF sp(2)] by blast
    then show ?thesis using spans_le [OF sp(1)] by (intro exI [of _ l] exI [of _ u]) auto
  next
    case 3 then show ?thesis using Binary.prems(1) by blast
  qed
next
  case (MaxOverRange v a b c)
  let ?a = "sn_operand_a (node_at ns hi)" and ?b = "sn_operand_b (node_at ns hi)"
  have sp: "spans ns lo ?a a" "spans ns (?a + 1) ?b b" "spans ns (?b + 1) (hi - 1) c" using MaxOverRange.prems(1) by simp_all
  note le = sp [THEN spans_le]
  consider "i \<le> ?a" | "?a + 1 \<le> i" "i \<le> ?b" | "?b + 1 \<le> i" "i \<le> hi - 1" | "i = hi" using MaxOverRange.prems(3) by linarith
  then show ?case
  proof cases
    case 1 then show ?thesis using MaxOverRange.IH(1) [OF sp(1)] MaxOverRange.prems by blast
  next
    case 2
    then obtain l u where "?a + 1 \<le> l" "spans ns l i u" using MaxOverRange.IH(2) [OF sp(2)] by blast
    then show ?thesis using le by (intro exI [of _ l] exI [of _ u]) auto
  next
    case 3
    then obtain l u where "?b + 1 \<le> l" "spans ns l i u" using MaxOverRange.IH(3) [OF sp(3)] by blast
    then show ?thesis using le by (intro exI [of _ l] exI [of _ u]) auto
  next
    case 4 then show ?thesis using MaxOverRange.prems(1) by blast
  qed
qed (erule spans_leaf_inside [rotated 1]; simp)+

text \<open>A spec captures a chain of range maxima with closed bounds over a recognisable body.\<close>

definition bounds_at :: "ser_expr \<Rightarrow> int \<times> int \<Rightarrow> int \<times> size_expr \<times> size_expr \<Rightarrow> bool" where
  "bounds_at ns is c \<longleftrightarrow>
     (case (is, c) of ((ia, ib), (v, a, b)) \<Rightarrow> represents ns ia a \<and> represents ns ib b \<and> fv a = {} \<and> fv b = {})"

definition spec_chain :: "ser_expr \<Rightarrow> max_reducer_spec \<Rightarrow> (int \<times> size_expr \<times> size_expr) list \<Rightarrow> size_expr \<Rightarrow> bool" where
  "spec_chain ns s cs t \<longleftrightarrow>
     represents ns (ms_mor_node_idx s) (mor_chain cs t) \<and> cs \<noteq> [] \<and> ms_axis_var_ids s = map fst cs \<and>
     list_all2 (bounds_at ns) (zip (ms_axis_begin_node_idxs s) (ms_axis_end_node_idxs s)) cs \<and>
     represents ns (ms_body_node_idx s) t \<and> body_grammar (ms_axis_var_ids s) t"

definition axis_at :: "ser_expr \<Rightarrow> chain_axis \<Rightarrow> int \<times> size_expr \<times> size_expr \<Rightarrow> bool" where
  "axis_at ns ax c \<longleftrightarrow> (case ax of (_, v, ia, ib) \<Rightarrow> fst c = v \<and> bounds_at ns (ia, ib) c)"

lemma capture_chain_chain:
  assumes "capture_chain f ns captured cur chain deps = (chain', cur', deps')" "represents ns cur u" "all_closed ns captured"
  shows "\<exists>new cs t. chain' = chain @ new \<and> u = mor_chain cs t \<and> represents ns cur' t \<and> list_all2 (axis_at ns) new cs"
  using assms(1,2)
proof (induction f arbitrary: cur chain deps u)
  case 0
  then show ?case by (intro exI [of _ "[]"]) auto
next
  case (Suc f)
  let ?n = "node_at ns cur"
  obtain oka d1 where a: "max_reducer_bound_is_closed (eval_fuel ns) ns (sn_operand_a ?n) captured deps = (oka, d1)"
    by fastforce
  obtain okb d2 where b: "max_reducer_bound_is_closed (eval_fuel ns) ns (sn_operand_b ?n) captured d1 = (okb, d2)"
    by fastforce
  show ?case
  proof (cases "kind_of (sn_kind ?n) = Some KMaxOverRange \<and> oka \<and> okb")
    case False
    then have "cur' = cur \<and> chain' = chain" using Suc.prems(1) a b by (auto simp: Let_def split: if_splits)
    then show ?thesis using Suc.prems(2) by (intro exI [of _ "[]"] exI [of _ u]) auto
  next
    case True
    then have "root_kind u = KMaxOverRange" using represents_kind [OF Suc.prems(2)] by simp
    then obtain v ta tb tc where u: "u = MaxOverRange v ta tb tc" by (cases u) auto
    have rep: "represents ns (sn_operand_a ?n) ta" "represents ns (sn_operand_b ?n) tb" "represents ns (sn_body_node_idx ?n) tc"
      "sn_var_id ?n = v" using Suc.prems(2) u by auto
    have closed: "fv ta = {}" "fv tb = {}"
      using bound_is_closed_fv [OF rep(1), of "eval_fuel ns" captured deps] bound_is_closed_fv [OF rep(2), of "eval_fuel ns" captured d1]
        a b True assms(3) by auto
    have "capture_chain f ns captured (sn_body_node_idx ?n) (chain @ [(cur, v, sn_operand_a ?n, sn_operand_b ?n)]) d2 = (chain', cur', deps')"
      using Suc.prems(1) True a b rep(4) by (simp add: Let_def)
    from Suc.IH [OF this rep(3)] obtain new cs t where
      "chain' = (chain @ [(cur, v, sn_operand_a ?n, sn_operand_b ?n)]) @ new" "tc = mor_chain cs t" "represents ns cur' t"
      "list_all2 (axis_at ns) new cs" by blast
    moreover have "axis_at ns (cur, v, sn_operand_a ?n, sn_operand_b ?n) (v, ta, tb)"
      using rep closed by (simp add: axis_at_def bounds_at_def)
    ultimately show ?thesis
      using u
      by (intro exI [of _ "(cur, v, sn_operand_a ?n, sn_operand_b ?n) # new"] exI [of _ "(v, ta, tb) # cs"] exI [of _ t]) simp
  qed
qed

lemma axes_at:
  "list_all2 (axis_at ns) chain cs \<Longrightarrow>
   map (\<lambda>(_, v, _, _). v) chain = map fst cs \<and>
   list_all2 (bounds_at ns) (zip (map (\<lambda>(_, _, b, _). b) chain) (map (\<lambda>(_, _, _, e). e) chain)) cs"
  by (induction chain cs rule: list_all2_induct) (auto simp: axis_at_def)

lemma recognize_node_chains:
  assumes inv: "recognizer_inv stack_id ns old st" and u: "represents ns n u" and s: "s \<in> set (fst (recognize_node stack_id ns n st))"
  shows "s \<in> set (fst st) \<or> ms_stack_id s = stack_id \<and> (\<exists>cs t. spec_chain ns s cs t)"
proof -
  obtain specs captured absorbed where st: "st = (specs, captured, absorbed)" by (cases st)
  have closed: "all_closed ns captured"
    using inv by (auto simp: recognizer_inv_def st all_closed_def spec_ok_def)
  obtain chain cur deps where cap: "capture_chain (eval_fuel ns) ns captured n [] [] = (chain, cur, deps)"
    by (metis prod_cases3)
  let ?vars = "map (\<lambda>(_, v, _, _). v) chain"
  let ?spec = "\<lparr>ms_stack_id = stack_id, ms_mor_node_idx = fst (hd chain), ms_body_node_idx = cur,
    ms_axis_var_ids = ?vars, ms_axis_begin_node_idxs = map (\<lambda>(_, _, b, _). b) chain,
    ms_axis_end_node_idxs = map (\<lambda>(_, _, _, e). e) chain, ms_dependent_mor_node_idxs = deps\<rparr>"
  show ?thesis
  proof (cases "s \<in> set specs")
    case False
    then have new: "s = ?spec" "chain \<noteq> []" "max_reducer_body_is_recognizable (eval_fuel ns) ns cur ?vars"
      using s cap by (auto simp: recognize_node_def st Let_def split: if_splits)
    obtain cs t where c: "u = mor_chain cs t" "represents ns cur t" "list_all2 (axis_at ns) chain cs"
      using capture_chain_chain [OF cap u closed] by auto
    have "fst (hd chain) = n" using capture_chain_head [OF cap] new(2) by auto
    moreover have "cs \<noteq> []" using c(3) new(2) by auto
    moreover have "body_grammar ?vars t"
      using new(3) body_is_recognizable_iff [OF c(2) represents_fuel [OF c(2)]] by simp
    ultimately have "spec_chain ns s cs t"
      using axes_at [OF c(3)] c u by (simp add: spec_chain_def new(1))
    then show ?thesis using new(1) by auto
  qed (simp add: st)
qed

definition well_formed :: "ser_expr \<Rightarrow> bool" where
  "well_formed ns \<longleftrightarrow> (\<forall>i. in_range ns i \<longrightarrow> (\<exists>l u. spans ns l i u))"

lemma serialize_well_formed:
  assumes "indices_fit t"
  shows "well_formed (serialize t)"
proof -
  obtain i ns where f: "flatten_recursive t [] = (i, ns)" by fastforce
  have "spans ns 0 i t" "i = int (length ns) - 1" using flatten_spans [OF f assms] by auto
  then have "\<exists>l u. spans ns l j u" if "in_range ns j" for j
    using spans_inside [of ns 0 i t j] that by (auto simp: in_range_def)
  then show ?thesis by (simp add: well_formed_def serialize_def f)
qed

lemma recognize_stack_chains:
  assumes "in_order [] specs" "well_formed ns" "s \<in> set (recognize_stack stack_id ns specs)"
  shows "s \<in> set specs \<or> ms_stack_id s = stack_id \<and> (\<exists>cs t. spec_chain ns s cs t)"
proof -
  let ?ok = "\<lambda>s. s \<in> set specs \<or> ms_stack_id s = stack_id \<and> (\<exists>cs t. spec_chain ns s cs t)"
  have "recognizer_inv stack_id ns specs (fold (recognize_node stack_id ns) xs st) \<and>
      (\<forall>s \<in> set (fst (fold (recognize_node stack_id ns) xs st)). ?ok s)"
    if "recognizer_inv stack_id ns specs st" "\<forall>s \<in> set (fst st). ?ok s" "\<forall>i \<in> set xs. in_range ns i" for xs st
    using that
  proof (induction xs arbitrary: st)
    case (Cons n xs)
    obtain u where "represents ns n u"
      using assms(2) Cons.prems(3) spans_represents unfolding well_formed_def by fastforce
    then have "\<forall>s \<in> set (fst (recognize_node stack_id ns n st)). ?ok s"
      using recognize_node_chains [OF Cons.prems(1)] Cons.prems(2) by blast
    then show ?case using Cons.IH [OF recognize_node_inv [OF Cons.prems(1)]] Cons.prems(3) by simp
  qed simp
  from this [of "(specs, [], [])" "map int [0..<length ns]"] show ?thesis
    using assms(1,3) by (auto simp: recognizer_inv_def recognize_stack_def in_range_def)
qed

lemma recognized_chain:
  assumes "\<forall>ns \<in> set es. well_formed ns" "s \<in> set (recognize_adstack_max_reducer_specs es)"
  shows "\<exists>k < length es. ms_stack_id s = int k \<and> (\<exists>cs t. spec_chain (es ! k) s cs t)"
proof -
  let ?rec = "\<lambda>ps. fold (\<lambda>(sid, ns). recognize_stack sid ns) ps"
  let ?ok = "\<lambda>s. \<exists>k < length es. ms_stack_id s = int k \<and> (\<exists>cs t. spec_chain (es ! k) s cs t)"
  have all: "\<forall>s \<in> set (?rec ps specs). ?ok s"
    if "in_order [] specs" "\<forall>s \<in> set specs. ?ok s" "\<forall>p \<in> set ps. \<exists>k < length es. p = (int k, es ! k)" for ps specs
    using that
  proof (induction ps arbitrary: specs)
    case (Cons p ps)
    obtain k where k: "k < length es" "p = (int k, es ! k)" using Cons.prems(3) by auto
    have ord: "in_order [] (recognize_stack (int k) (es ! k) specs)" using recognize_stack_inv [OF Cons.prems(1)] by blast
    have "well_formed (es ! k)" using assms(1) k(1) by simp
    then have "\<forall>s \<in> set (recognize_stack (int k) (es ! k) specs). ?ok s"
      using recognize_stack_chains [OF Cons.prems(1)] Cons.prems(2) k(1) by blast
    from Cons.IH [OF ord this] show ?case using Cons.prems(3) k(2) by simp
  qed simp
  have zip: "\<forall>p \<in> set (zip (map int [0..<length es]) es). \<exists>k < length es. p = (int k, es ! k)"
    by (auto simp: set_zip)
  have "\<forall>s \<in> set (?rec (zip (map int [0..<length es]) es) []). ?ok s" by (rule all [OF _ _ zip]) simp_all
  then show ?thesis using assms(2) unfolding recognize_adstack_max_reducer_specs_def by blast
qed

section \<open>Substituting right results\<close>

text \<open>
  Results for one stack are right when each of them stands for a closed range maximum and is its
  value wherever that is defined; a maximum too large for the host to enumerate has none.
\<close>

definition right :: "env \<Rightarrow> (int \<Rightarrow> int option) \<Rightarrow> ser_expr \<Rightarrow> bool" where
  "right e r ns \<longleftrightarrow>
     (\<forall>i u x. represents ns i u \<longrightarrow> root_kind u = KMaxOverRange \<longrightarrow> r i = Some x \<longrightarrow>
        fv u = {} \<and> (\<forall>v. size_value e u Map.empty = Inr v \<longrightarrow> v = x))"

lemma rightD:
  assumes "right e r ns" "represents ns i (MaxOverRange v a b c)" "r i = Some x" "size_value e (MaxOverRange v a b c) bv = Inr y"
  shows "y = x"
proof -
  have "fv (MaxOverRange v a b c) = {}" "\<forall>y. size_value e (MaxOverRange v a b c) Map.empty = Inr y \<longrightarrow> y = x"
    using assms(1-3) unfolding right_def by (metis root_kind.simps(4))+
  then show ?thesis using closed_value [of "MaxOverRange v a b c" e bv Map.empty] assms(4) by simp
qed

lemma mapE_agrees:
  "mapE f xs = Inr ys \<Longrightarrow> (\<And>x y. x \<in> set xs \<Longrightarrow> f x = Inr y \<Longrightarrow> g x = Inr y) \<Longrightarrow> mapE g xs = Inr ys"
  by (induction xs arbitrary: ys) (auto simp: result_simps)

lemma substituted_agrees:
  assumes "right e r ns"
  shows "represents ns i t \<Longrightarrow> size_value e t bv = Inr v \<Longrightarrow> size_value e (substituted r ns i t) bv = Inr v"
proof (induction t arbitrary: i bv v)
  case (Binary f a b)
  then show ?case by (fastforce simp: result_simps)
next
  case (MaxOverRange w a b c)
  show ?case
  proof (cases "r i")
    case (Some x)
    then show ?thesis using rightD [OF assms MaxOverRange.prems(1) Some MaxOverRange.prems(2)] by simp
  next
    case None
    let ?n = "node_at ns i"
    have rep: "represents ns (sn_operand_a ?n) a" "represents ns (sn_operand_b ?n) b" "represents ns (sn_body_node_idx ?n) c"
      using MaxOverRange.prems(1) by simp_all
    obtain lo hi ys where v: "size_value e a bv = Inr lo" "size_value e b bv = Inr hi"
        "mapE (\<lambda>i. size_value e c (bv(w \<mapsto> i))) [lo..hi - 1] = Inr ys" "v = Max (insert 0 (set ys))"
      and cap: "\<not> (lo < hi \<and> max_over_range_iterations e < wrap64 (hi - lo))"
      using MaxOverRange.prems(2) by (fastforce simp: result_simps split: if_splits)
    have "mapE (\<lambda>i. size_value e (substituted r ns (sn_body_node_idx ?n) c) (bv(w \<mapsto> i))) [lo..hi - 1] = Inr ys"
      by (rule mapE_agrees [OF v(3)]) (rule MaxOverRange.IH(3) [OF rep(3)])
    then show ?thesis
      using MaxOverRange.IH(1) [OF rep(1) v(1)] MaxOverRange.IH(2) [OF rep(2) v(2)] v(4) cap None
      by (simp add: result_simps del: fun_upd_apply)
  qed
qed simp_all

text \<open>A body has no range maximum: neither its tree nor its nodes change.\<close>

lemma substituted_body: "body_grammar vs t \<Longrightarrow> substituted r ns i t = t"
  by (induction t arbitrary: i) auto

lemma body_nodes_kept:
  "spans ns lo hi t \<Longrightarrow> body_grammar vs t \<Longrightarrow> lo \<le> i \<Longrightarrow> i \<le> hi \<Longrightarrow>
   node_at (substitute_precomputed_max_over_range ns rid sid results) i = node_at ns i"
proof (induction t arbitrary: lo hi)
  case (Binary f a b)
  let ?a = "sn_operand_a (node_at ns hi)"
  have sp: "spans ns lo ?a a" "spans ns (?a + 1) (hi - 1) b" using Binary.prems(1) by simp_all
  consider "i \<le> ?a" | "?a + 1 \<le> i" "i \<le> hi - 1" | "i = hi" using Binary.prems(4) by linarith
  then show ?case
  proof cases
    case 1 then show ?thesis using Binary.IH(1) [OF sp(1)] Binary.prems(2,3) by simp
  next
    case 2 then show ?thesis using Binary.IH(2) [OF sp(2)] Binary.prems(2) by simp
  next
    case 3
    have "represents ns hi (Binary f a b)" using spans_represents [OF Binary.prems(1)] .
    from represents_in_range [OF this] represents_kind [OF this] show ?thesis
      by (simp add: node_at_substitute substitute_node_def 3)
  qed
qed (auto simp: node_at_substitute substitute_node_def dest: represents_in_range)

lemma spans_substituted:
  "spans ns lo hi t \<Longrightarrow> body_grammar vs t \<Longrightarrow> spans (substitute_precomputed_max_over_range ns rid sid results) lo hi t"
proof (induction t arbitrary: lo hi)
  case (Binary f a b)
  let ?ns = "substitute_precomputed_max_over_range ns rid sid results"
  have "represents ?ns hi (Binary f a b)"
    using represents_substituted [OF spans_represents [OF Binary.prems(1)], of rid sid results]
      substituted_body [OF Binary.prems(2)] by (simp del: represents.simps substituted.simps)
  moreover have "node_at ?ns hi = node_at ns hi"
    using body_nodes_kept [OF Binary.prems] spans_le [OF Binary.prems(1)] by simp
  ultimately show ?case using Binary by (simp del: represents.simps)
qed (use represents_substituted spans_represents substituted_body in \<open>fastforce simp del: represents.simps\<close>)+

lemma encode_substituted:
  assumes "spans ns lo hi t" "body_grammar vs t"
  shows "encode_body (substitute_precomputed_max_over_range ns rid sid results) hi ws resolver place fl e cache =
    encode_body ns hi ws resolver place fl e cache"
proof -
  let ?ns = "substitute_precomputed_max_over_range ns rid sid results"
  have fuel: "depth t < eval_fuel ns" "eval_fuel ?ns = eval_fuel ns"
    using represents_fuel [OF spans_represents [OF assms(1)]] by (simp_all add: eval_fuel_def)
  have "visit (eval_fuel ns) ns hi [] = Inr [lo..hi]" "visit (eval_fuel ns) ?ns hi [] = Inr [lo..hi]"
    using visit_spans [OF assms, of "[]"] visit_spans [OF spans_substituted [OF assms] assms(2), of "[]"] fuel by simp_all
  moreover have "map (node_at ?ns) [lo..hi] = map (node_at ns) [lo..hi]"
    using body_nodes_kept [OF assms] by simp
  ultimately show ?thesis unfolding encode_body_def fuel(2) by (simp only: in_range_substitute bindE_simps)
qed

section \<open>Preparing a spec\<close>

lemma bounds_at_iff [simp]:
  "bounds_at ns (ia, ib) (v, a, b) \<longleftrightarrow> represents ns ia a \<and> represents ns ib b \<and> fv a = {} \<and> fv b = {}"
  by (simp add: bounds_at_def)

lemma axis_evaluates_iff [simp]:
  "axis_evaluates e (v, a, b) (w, lo, hi) \<longleftrightarrow> w = v \<and> fv a = {} \<and> fv b = {} \<and>
     size_value e a Map.empty = Inr lo \<and> size_value e b Map.empty = Inr hi"
  by (simp add: axis_evaluates_def)

lemma short_range:
  fixes lo hi :: int
  assumes "hi - lo < 2 ^ 32"
  shows "nat (hi - lo) < 2 ^ 32" "nat (hi - lo) mod 2 ^ 32 = nat (hi - lo)"
proof -
  show *: "nat (hi - lo) < 2 ^ 32" using assms by (cases "lo < hi") (auto simp: nat_less_iff)
  then show "nat (hi - lo) mod 2 ^ 32 = nat (hi - lo)" by simp
qed

lemma at_node_value:
  assumes "evaluate_adstack_size_expr_at_node ns i e rc = Inr (v, rc')" "represents ns i t" "cache_ok e rc"
  shows "size_value e t Map.empty = Inr v \<and> cache_ok e rc'"
proof -
  have "in_range ns i" using represents_in_range [OF assms(2)] .
  then have "\<exists>rd. evaluate_root ns i e rc None = Inr (v, rc', rd)"
    using assms(1) by (auto simp: evaluate_adstack_size_expr_at_node_def result_simps split: prod.splits)
  then show ?thesis
    using evaluate_root_correct [OF assms(2,3), of None] by (cases "size_value e t Map.empty") auto
qed

text \<open>The range found for an axis is the one its bounds mean wherever they are defined.\<close>

definition range_of :: "env \<Rightarrow> int \<times> size_expr \<times> size_expr \<Rightarrow> int \<times> int \<Rightarrow> bool" where
  "range_of e c rg \<longleftrightarrow>
     (case (c, rg) of ((v, a, b), (lo, hi)) \<Rightarrow> fv a = {} \<and> fv b = {} \<and> 0 \<le> lo \<and> lo < hi \<and>
        (\<forall>x. size_value e a Map.empty = Inr x \<longrightarrow> x = lo) \<and> (\<forall>x. size_value e b Map.empty = Inr x \<longrightarrow> x = hi))"

lemma prepare_axes_values:
  assumes right: "right e (matched results rid sid) ns"
  shows "prepare_axes (substitute_precomputed_max_over_range ns rid sid results) e bs tot rc = Inr (r, rc') \<Longrightarrow>
    list_all2 (bounds_at ns) bs cs \<Longrightarrow> cache_ok e rc \<Longrightarrow>
    cache_ok e rc' \<and> (\<forall>ranges. r = Some ranges \<longrightarrow> list_all2 (range_of e) cs ranges)"
proof (induction bs arbitrary: cs tot rc r)
  case (Cons b bs)
  let ?ns = "substitute_precomputed_max_over_range ns rid sid results"
  let ?sub = "substituted (matched results rid sid) ns"
  obtain ia ib where b: "b = (ia, ib)" by (cases b)
  obtain v ta tb cs' where cs: "cs = (v, ta, tb) # cs'" "represents ns ia ta" "represents ns ib tb" "fv ta = {}" "fv tb = {}"
      "list_all2 (bounds_at ns) bs cs'"
    using Cons.prems(2) by (auto simp: list_all2_Cons1 b)
  obtain bv rc1 ev rc2 where ev: "evaluate_adstack_size_expr_at_node ?ns ia e rc = Inr (bv, rc1)"
      "evaluate_adstack_size_expr_at_node ?ns ib e rc1 = Inr (ev, rc2)"
    using Cons.prems(1) by (auto simp: b result_simps)
  have lo: "size_value e (?sub ia ta) Map.empty = Inr bv" "cache_ok e rc1"
    using at_node_value [OF ev(1) represents_substituted [OF cs(2)] Cons.prems(3)] by auto
  have hi: "size_value e (?sub ib tb) Map.empty = Inr ev" "cache_ok e rc2"
    using at_node_value [OF ev(2) represents_substituted [OF cs(3)] lo(2)] by auto
  have agree: "\<forall>x. size_value e ta Map.empty = Inr x \<longrightarrow> x = bv" "\<forall>x. size_value e tb Map.empty = Inr x \<longrightarrow> x = ev"
    using substituted_agrees [OF right cs(2)] substituted_agrees [OF right cs(3)] lo(1) hi(1) by auto
  let ?tot = "u64 (tot * nat (ev - bv))"
  show ?case
  proof (cases "bv < 0 \<or> ev < 0 \<or> ev \<le> bv \<or> 2 ^ 32 - 1 < ?tot")
    case True
    then have "r = None \<and> rc' = rc2" using Cons.prems(1) ev by (auto simp: b Let_def split: if_splits)
    then show ?thesis using hi(2) by simp
  next
    case False
    then obtain r' where r': "prepare_axes ?ns e bs ?tot rc2 = Inr (r', rc')" "r = map_option (\<lambda>as. (bv, ev) # as) r'"
      using Cons.prems(1) ev by (auto simp: b Let_def result_simps)
    then show ?thesis
      using Cons.IH [OF r'(1) cs(6) hi(2)] cs(4,5) agree False by (auto simp: cs(1) range_of_def)
  qed
qed simp

lemma prepare_axes_product:
  "prepare_axes ns e bs tot rc = Inr (Some ranges, rc') \<Longrightarrow> tot < 2 ^ 32 \<Longrightarrow> \<forall>(lo, hi) \<in> set ranges. hi - lo < 2 ^ 32 \<Longrightarrow>
   tot * prod_list (map (\<lambda>(lo, hi). nat (hi - lo)) ranges) < 2 ^ 32"
proof (induction bs arbitrary: tot rc ranges)
  case (Cons b bs)
  obtain ia ib where b: "b = (ia, ib)" by (cases b)
  obtain bv ev rc2 ranges' where p: "prepare_axes ns e bs (u64 (tot * nat (ev - bv))) rc2 = Inr (Some ranges', rc')"
      "ranges = (bv, ev) # ranges'" "\<not> 2 ^ 32 - 1 < u64 (tot * nat (ev - bv))"
    using Cons.prems(1) by (auto simp: b Let_def result_simps split: if_splits)
  have "nat (ev - bv) < 2 ^ 32" by (rule short_range) (use Cons.prems(3) in \<open>simp add: p(2)\<close>)
  then have "tot * nat (ev - bv) < 2 ^ 32 * 2 ^ 32" using Cons.prems(2) by (intro mult_strict_mono) auto
  then have u: "u64 (tot * nat (ev - bv)) = tot * nat (ev - bv)" by (simp add: u64_def)
  then have "tot * nat (ev - bv) * prod_list (map (\<lambda>(lo, hi). nat (hi - lo)) ranges') < 2 ^ 32"
    using Cons.IH [OF p(1)] p(3) Cons.prems(3) by (simp add: p(2))
  then show ?case by (simp add: p(2) mult.assoc)
qed simp

definition zip_axes :: "(int \<times> size_expr \<times> size_expr) list \<Rightarrow> (int \<times> int) list \<Rightarrow> range_axis list" where
  "zip_axes cs ranges = map2 (\<lambda>c rg. (fst c, rg)) cs ranges"

lemma zip_axes_simps [simp]:
  "zip_axes [] rs = []" "zip_axes (c # cs) (rg # rs) = (fst c, rg) # zip_axes cs rs"
  by (simp_all add: zip_axes_def)

lemma zip_axes_fst: "length cs = length ranges \<Longrightarrow> map fst (zip_axes cs ranges) = map fst cs"
  by (induction cs ranges rule: list_induct2) simp_all

lemma chain_axes_evaluate:
  assumes "list_all2 (range_of e) cs ranges" "size_value e (mor_chain cs t) bv = Inr x"
  shows "list_all2 (axis_evaluates e) cs (zip_axes cs ranges)"
  using assms
proof (induction cs ranges arbitrary: bv x rule: list_all2_induct)
  case (Cons c cs rg ranges)
  obtain v a b lo hi where c: "c = (v, a, b)" "rg = (lo, hi)" by (cases c; cases rg) auto
  have rg: "fv a = {}" "fv b = {}" "lo < hi" using Cons.hyps(1) by (simp_all add: range_of_def c)
  obtain x y ys where v: "size_value e a bv = Inr x" "size_value e b bv = Inr y"
      "mapE (\<lambda>i. size_value e (mor_chain cs t) (bv(v \<mapsto> i))) [x..y - 1] = Inr ys"
    using Cons.prems by (fastforce simp: c result_simps split: if_splits)
  have "size_value e a Map.empty = Inr x" "size_value e b Map.empty = Inr y"
    using v(1,2) closed_value [OF rg(1)] closed_value [OF rg(2)] by metis+
  then have ev: "size_value e a Map.empty = Inr lo" "size_value e b Map.empty = Inr hi" "x = lo" "y = hi"
    using Cons.hyps(1) by (auto simp: range_of_def c)
  have "\<exists>z. size_value e (mor_chain cs t) (bv(v \<mapsto> lo)) = Inr z"
    using mapE_all [OF v(3), of lo] rg(3) ev by auto
  then have "list_all2 (axis_evaluates e) cs (zip_axes cs ranges)" using Cons.IH by blast
  then show ?case using rg ev by (simp add: c)
qed simp

lemma device_axes_params:
  assumes "length cs = length ranges" "\<forall>(lo, hi) \<in> set ranges. hi - lo < 2 ^ 32"
  shows "device_axes (zip_axes cs ranges) = axis_params ranges"
proof -
  have "nat (snd (ranges ! k) - fst (ranges ! k)) mod 2 ^ 32 = nat (snd (ranges ! k) - fst (ranges ! k))"
    if "k < length ranges" for k
    by (rule short_range) (use assms(2) nth_mem [OF that] in \<open>auto simp: case_prod_unfold\<close>)
  then show ?thesis
    unfolding device_axes_def axis_params_def using assms(1)
    by (auto simp: zip_axes_def case_prod_unfold)
qed

lemma axis_params_lengths:
  assumes "\<forall>(lo, hi) \<in> set ranges. hi - lo < 2 ^ 32"
  shows "map fst (axis_params ranges) = map (\<lambda>(lo, hi). nat (hi - lo)) ranges"
proof (rule nth_equalityI)
  fix k assume "k < length (map fst (axis_params ranges))"
  then have k: "k < length ranges" by (simp add: axis_params_def)
  have "snd (ranges ! k) - fst (ranges ! k) < 2 ^ 32" using assms nth_mem [OF k] by (auto simp: case_prod_unfold)
  from short_range(2) [OF this] show "map fst (axis_params ranges) ! k = map (\<lambda>(lo, hi). nat (hi - lo)) ranges ! k"
    using k by (simp add: axis_params_def case_prod_unfold)
qed (simp add: axis_params_def)

section \<open>A dispatched spec\<close>

lemma arg_buffer_offset_resolves:
  assumes "en_ctx e = Some ctx" "lc_args_type ctx = Some get_off"
  shows "resolves e (arg_buffer_offset_resolver get_off)"
  using assms by (auto simp: resolves_def arg_buffer_offset_resolver_def Let_def fits32_def intro!: wrap32_id [symmetric])

lemma encode_body_node_refused:
  assumes "encode_body_node resolver place fl remap po e node st = Inr (None, st')"
  shows "st' = st"
  using assms
  by (auto simp: encode_body_node_def body_external_read_def body_field_load_def body_folded_def
      result_simps Let_def split: option.splits size_kind.splits if_splits prod.splits)

lemma encode_body_nodes_keep:
  assumes "\<And>n s r s'. P s \<Longrightarrow> enc n s = Inr (r, s') \<Longrightarrow> P s'"
  shows "encode_body_nodes enc ns st = Inr (r, st') \<Longrightarrow> P st \<Longrightarrow> P st'"
proof (induction ns arbitrary: st r)
  case (Cons n ns)
  obtain q s1 where n: "enc n st = Inr (q, s1)" and
    "q = None \<and> s1 = st' \<or> (\<exists>r'. encode_body_nodes enc ns s1 = Inr (r', st'))"
    using Cons.prems(1) by (auto simp: result_simps split: option.splits)
  then show ?case using assms [OF Cons.prems(2) n] Cons.IH by auto
qed simp

lemma encode_body_cache:
  assumes "encode_body ns i vs resolver place fl e cache = Inr (r, st)" "cache_ok e cache"
  shows "cache_ok e (bo_cache st)"
proof -
  have keep: "cache_ok e (bo_cache s')"
    if "cache_ok e (bo_cache s)" "encode_body_node resolver place fl remap po e n s = Inr (q, s')" for remap po n s q s'
    using that encode_body_node_refused encode_body_node_cache by (cases q) blast+
  show ?thesis
  proof (cases "in_range ns i")
    case True
    then obtain po r' where
      "encode_body_nodes (encode_body_node resolver place fl (chain_remap vs) po e) (map (node_at ns) po)
         \<lparr>bo_indices = [], bo_reads = [], bo_cache = cache\<rparr> = Inr (r', st)"
      using assms(1) by (auto simp: encode_body_def Let_def result_simps)
    from encode_body_nodes_keep [where P = "\<lambda>s. cache_ok e (bo_cache s)", OF keep this] show ?thesis
      using assms(2) by simp
  qed (use assms in \<open>auto simp: encode_body_def\<close>)
qed

text \<open>
  What makes a captured chain run on the device as it means: distinct axes, a body within the
  evaluator's stack, ranges that fit the kernel's parameters, and fields laid out as addressed
  (\<open>chain_fits\<close>); and no negative value of the body, because the evaluator starts its maximum at zero
  and the reduction does not (\<open>chain_not_negative\<close>).
\<close>

definition chain_fits :: "env \<Rightarrow> dev_env \<Rightarrow> (snode \<Rightarrow> int \<times> int) \<Rightarrow> (int \<times> size_expr \<times> size_expr) list \<Rightarrow> size_expr \<Rightarrow> bool" where
  "chain_fits e de place cs t \<longleftrightarrow>
     distinct (map fst cs) \<and> slots t \<le> eval_stack_depth \<and>
     (\<forall>as. list_all2 (axis_evaluates e) cs as \<longrightarrow>
        (\<forall>(v, lo, hi) \<in> set as. hi - lo < 2 ^ 32 \<and> hi < 2 ^ 63) \<and>
        body_ok (\<lambda>bv. bv \<in> axis_bindings as Map.empty) e de place t)"

definition chain_not_negative :: "env \<Rightarrow> (int \<times> size_expr \<times> size_expr) list \<Rightarrow> size_expr \<Rightarrow> bool" where
  "chain_not_negative e cs t \<longleftrightarrow> (\<forall>as. list_all2 (axis_evaluates e) cs as \<longrightarrow> (\<forall>x \<in> chain_values e as t. 0 \<le> x))"

definition chain_runs :: "env \<Rightarrow> dev_env \<Rightarrow> (snode \<Rightarrow> int \<times> int) \<Rightarrow> (int \<times> size_expr \<times> size_expr) list \<Rightarrow> size_expr \<Rightarrow> bool" where
  "chain_runs e de place cs t \<longleftrightarrow> chain_fits e de place cs t \<and> chain_not_negative e cs t"

lemmas chain_runs_defs = chain_runs_def chain_fits_def chain_not_negative_def

definition encodes_fit :: "env \<Rightarrow> (snode \<Rightarrow> int \<times> int) \<Rightarrow> (int list \<Rightarrow> int) \<Rightarrow> ser_expr \<Rightarrow> max_reducer_spec \<Rightarrow> bool" where
  "encodes_fit e place get_off ns s \<longleftrightarrow>
     (\<forall>cache nodes table st.
        encode_body ns (ms_body_node_idx s) (ms_axis_var_ids s) (arg_buffer_offset_resolver get_off) place None e cache =
          Inr (Some (nodes, table), st) \<longrightarrow> list_all node_fits nodes \<and> list_all fits32 table)"

text \<open>
  A launch of the reducer kernel on the body's bytes returns the slot some run of its threads ends
  with.
\<close>

definition bytes_mem :: "8 word list \<Rightarrow> memory" where
  "bytes_mem bs a = (if 0 \<le> a \<and> nat a < length bs then bs ! nat a else 0)"

lemma reads_as_bytes_mem: "reads_as (bytes_mem bs) 0 bs"
  by (simp add: reads_as_def bytes_mem_def)

definition reduces :: "(axis list \<Rightarrow> encoded_body \<Rightarrow> int) \<Rightarrow> dev_env \<Rightarrow> bool" where
  "reduces reduce de \<longleftrightarrow>
     (\<forall>axes eb. (\<exists>num w. kernel_run (bytes_mem (eb_bytes eb)) de 0 (eb_body_node_count eb) axes num w) \<longrightarrow>
        (\<exists>num w. kernel_run (bytes_mem (eb_bytes eb)) de 0 (eb_body_node_count eb) axes num w \<and> reduce axes eb = cw_slot w))"

abbreviation pending_results :: "max_reducer_results \<Rightarrow> pending_dispatch \<Rightarrow> int \<Rightarrow> int option" where
  "pending_results results p \<equiv> matched results (pd_registry_id p) (ms_stack_id (pd_spec p))"

definition pending_ok :: "env \<Rightarrow> dev_env \<Rightarrow> (snode \<Rightarrow> int \<times> int) \<Rightarrow> (int list \<Rightarrow> int) \<Rightarrow> pending_dispatch \<Rightarrow> bool" where
  "pending_ok e de place get_off p \<longleftrightarrow>
     well_formed (pd_expr p) \<and> encodes_fit e place get_off (pd_expr p) (pd_spec p) \<and>
     (\<exists>cs t. spec_chain (pd_expr p) (pd_spec p) cs t \<and> chain_runs e de place cs t)"

lemma prepare_spec_Some:
  assumes "prepare_spec place e get_off results p rc = Inr (Some (axes, eb), rc')"
  obtains ranges rc1 nodes table st where
    "prepare_axes (substitute_precomputed_max_over_range (pd_expr p) (pd_registry_id p) (ms_stack_id (pd_spec p)) results) e
       (zip (ms_axis_begin_node_idxs (pd_spec p)) (ms_axis_end_node_idxs (pd_spec p))) 1 rc = Inr (Some ranges, rc1)"
    "encode_body (substitute_precomputed_max_over_range (pd_expr p) (pd_registry_id p) (ms_stack_id (pd_spec p)) results)
       (ms_body_node_idx (pd_spec p)) (ms_axis_var_ids (pd_spec p)) (arg_buffer_offset_resolver get_off) place None e rc1 =
       Inr (Some (nodes, table), st)"
    "axes = axis_params ranges" "eb_bytes eb = concat (map pack_node nodes) @ concat (map bytes_i32 table)"
    "eb_body_node_count eb = length nodes" "length (ms_axis_var_ids (pd_spec p)) \<le> max_reducer_max_axes"
  using assms
  by (fastforce simp: prepare_spec_def encode_max_reducer_body_bytecode_def empty_body_def Let_def result_simps
      split: if_splits option.splits prod.splits)

lemma zip_axes_snd: "length cs = length ranges \<Longrightarrow> map snd (zip_axes cs ranges) = ranges"
  by (induction cs ranges rule: list_induct2) simp_all

lemma range_of_nonempty: "list_all2 (range_of e) cs ranges \<Longrightarrow> \<forall>(lo, hi) \<in> set ranges. 0 \<le> lo \<and> lo < hi"
  by (induction cs ranges rule: list_all2_induct) (auto simp: range_of_def)

text \<open>The axes of a spec whose chain has a value, as the kernel gets them.\<close>

lemma prepared_axes:
  assumes ax: "prepare_axes ns e bs 1 rc = Inr (Some ranges, rc1)" "list_all2 (range_of e) cs ranges"
    and runs: "chain_runs e de place cs t" "length cs \<le> max_reducer_max_axes"
    and x: "size_value e (mor_chain cs t) Map.empty = Inr x"
  defines "as \<equiv> zip_axes cs ranges"
  shows "list_all2 (axis_evaluates e) cs as" "map fst as = map fst cs" "axes_ok as"
    and "device_axes as = axis_params ranges" "prod_list (map fst (device_axes as)) < 2 ^ 64"
proof -
  have len: "length cs = length ranges" using ax(2) list_all2_lengthD by blast
  show ev: "list_all2 (axis_evaluates e) cs as" unfolding as_def by (rule chain_axes_evaluate [OF ax(2) x])
  show vars: "map fst as = map fst cs" unfolding as_def by (rule zip_axes_fst [OF len])
  have snd: "set ranges = snd ` set as" using arg_cong [OF zip_axes_snd [OF len], of set] by (simp add: as_def)
  have lim: "\<forall>(v, lo, hi) \<in> set as. hi - lo < 2 ^ 32 \<and> hi < 2 ^ 63" using runs(1) ev unfolding chain_runs_defs by blast
  then have short: "\<forall>(lo, hi) \<in> set ranges. hi - lo < 2 ^ 32" unfolding snd by (simp add: case_prod_unfold)
  have "distinct (map fst as)" unfolding vars using runs(1) by (simp add: chain_runs_defs)
  moreover have "length as \<le> max_reducer_max_axes" using runs(2) len by (simp add: as_def zip_axes_def)
  moreover have "\<forall>(v, lo, hi) \<in> set as. 0 \<le> lo \<and> lo < hi \<and> hi < 2 ^ 63"
    using lim range_of_nonempty [OF ax(2)] unfolding snd by (simp add: case_prod_unfold)
  ultimately show "axes_ok as" unfolding axes_ok_def by blast
  show params: "device_axes as = axis_params ranges" unfolding as_def by (rule device_axes_params [OF len short])
  show "prod_list (map fst (device_axes as)) < 2 ^ 64"
    using prepare_axes_product [OF ax(1) _ short] unfolding params axis_params_lengths [OF short] by simp
qed

text \<open>The value read back for a spec is the value of its chain.\<close>

lemma reduced_value:
  assumes enc: "encode_body ns hi (map fst as) resolver place None e rc = Inr (Some (nodes, table), st)" "cache_ok e rc"
      "list_all node_fits nodes" "list_all fits32 table"
    and eb: "eb_bytes eb = concat (map pack_node nodes) @ concat (map bytes_i32 table)" "eb_body_node_count eb = length nodes"
    and body: "spans ns l hi t" "body_grammar (map fst as) t"
      "body_ok (\<lambda>bv. bv \<in> axis_bindings as Map.empty) e de place t" "slots t \<le> eval_stack_depth"
    and axes: "axes_ok as" "prod_list (map fst (device_axes as)) < 2 ^ 64"
    and env: "resolves e resolver" "de_mem de = en_mem e" "reduces reduce de"
    and chain: "list_all2 (axis_evaluates e) cs as" "cs \<noteq> []" "size_value e (mor_chain cs t) Map.empty = Inr x"
    and nonneg: "\<forall>x \<in> chain_values e as t. 0 \<le> x"
  shows "dispatched_value (reduce (device_axes as) eb) = x"
proof -
  have mem: "reads_as (bytes_mem (eb_bytes eb)) 0 (concat (map pack_node nodes) @ concat (map bytes_i32 table))"
    using reads_as_bytes_mem [of "eb_bytes eb"] by (simp add: eb(1))
  have "as \<noteq> []" using chain(1,2) by (cases cs) auto
  then have "\<exists>w. kernel_run (bytes_mem (eb_bytes eb)) de 0 (length nodes) (device_axes as) 1 w"
    using dispatched_chain_finishes [OF enc(1,2) mem enc(3,4) body axes(1) _ env(1,2), of 1] by simp
  then obtain num w where w: "kernel_run (bytes_mem (eb_bytes eb)) de 0 (length nodes) (device_axes as) num w"
      "reduce (device_axes as) eb = cw_slot w"
    using env(3) unfolding reduces_def eb(2) [symmetric] by blast
  note run = dispatched_chain [OF enc(1,2) mem enc(3,4) body axes env(1,2) w(1) chain]
  have "finite (chain_values e as t)" using finite_values [of e as t Map.empty] by (simp add: chain_values_def values_from_def)
  then have "0 \<le> dispatched_value (cw_slot w)"
    using nonneg unfolding run(1) dispatched_value_def
    by (cases "chain_values e as t = {}") (auto simp: int64_min_def Max_ge_iff)
  then show ?thesis using run(2) w(2) by simp
qed

lemma prepared_value:
  assumes prep: "prepare_spec place e get_off results p rc = Inr (Some (axes, eb), rc')" "cache_ok e rc"
    and right: "right e (pending_results results p) (pd_expr p)"
    and wf: "well_formed (pd_expr p)" "encodes_fit e place get_off (pd_expr p) (pd_spec p)"
    and spec: "spec_chain (pd_expr p) (pd_spec p) cs t" "chain_runs e de place cs t"
    and env: "en_ctx e = Some ctx" "lc_args_type ctx = Some get_off" "de_mem de = en_mem e" "reduces reduce de"
    and x: "size_value e (mor_chain cs t) Map.empty = Inr x"
  shows "dispatched_value (reduce axes eb) = x"
proof -
  let ?ns = "pd_expr p" and ?s = "pd_spec p"
  obtain ranges rc1 nodes table st where
    ax: "prepare_axes (substitute_precomputed_max_over_range ?ns (pd_registry_id p) (ms_stack_id ?s) results) e
       (zip (ms_axis_begin_node_idxs ?s) (ms_axis_end_node_idxs ?s)) 1 rc = Inr (Some ranges, rc1)"
    and enc: "encode_body (substitute_precomputed_max_over_range ?ns (pd_registry_id p) (ms_stack_id ?s) results)
       (ms_body_node_idx ?s) (ms_axis_var_ids ?s) (arg_buffer_offset_resolver get_off) place None e rc1 =
       Inr (Some (nodes, table), st)"
    and eb: "axes = axis_params ranges" "eb_bytes eb = concat (map pack_node nodes) @ concat (map bytes_i32 table)"
      "eb_body_node_count eb = length nodes" "length (ms_axis_var_ids ?s) \<le> max_reducer_max_axes"
    using prepare_spec_Some [OF prep(1)] .
  have chain: "cs \<noteq> []" "ms_axis_var_ids ?s = map fst cs" "represents ?ns (ms_body_node_idx ?s) t"
      "body_grammar (map fst cs) t" "list_all2 (bounds_at ?ns) (zip (ms_axis_begin_node_idxs ?s) (ms_axis_end_node_idxs ?s)) cs"
    using spec(1) by (auto simp: spec_chain_def)
  have rg: "list_all2 (range_of e) cs ranges" and rc1: "cache_ok e rc1"
    using prepare_axes_values [OF right ax chain(5) prep(2)] by auto
  have "length cs \<le> max_reducer_max_axes" using eb(4) chain(2) by simp
  note axes = prepared_axes [OF ax rg spec(2) this x]
  let ?as = "zip_axes cs ranges"
  have runs: "body_ok (\<lambda>bv. bv \<in> axis_bindings ?as Map.empty) e de place t" "slots t \<le> eval_stack_depth"
      "\<forall>x \<in> chain_values e ?as t. 0 \<le> x"
    using spec(2) axes(1) unfolding chain_runs_defs by blast+
  obtain l where sp: "spans ?ns l (ms_body_node_idx ?s) t"
    using wf(1) represents_in_range [OF chain(3)] represents_unique [OF chain(3) spans_represents]
    unfolding well_formed_def by metis
  have enc': "encode_body ?ns (ms_body_node_idx ?s) (map fst ?as) (arg_buffer_offset_resolver get_off) place None e rc1 =
      Inr (Some (nodes, table), st)"
    using enc unfolding encode_substituted [OF sp chain(4)] chain(2) axes(2) .
  have fits: "list_all node_fits nodes" "list_all fits32 table"
    using wf(2) enc' unfolding encodes_fit_def axes(2) chain(2) by blast+
  show ?thesis
    unfolding eb(1) axes(4) [symmetric]
    by (rule reduced_value [OF enc' rc1 fits eb(2,3) sp chain(4) [folded axes(2)] runs(1,2) axes(3,5)
          arg_buffer_offset_resolves [OF env(1,2)] env(3,4) axes(1) chain(1) x runs(3)])
qed

lemma prepare_spec_cache:
  assumes prep: "prepare_spec place e get_off results p rc = Inr (r, rc')" "cache_ok e rc"
    and spec: "right e (pending_results results p) (pd_expr p)" "spec_chain (pd_expr p) (pd_spec p) cs t"
  shows "cache_ok e rc'"
proof (cases "length (ms_axis_var_ids (pd_spec p)) = 0 \<or> max_reducer_max_axes < length (ms_axis_var_ids (pd_spec p))")
  case True
  then show ?thesis using prep by (auto simp: prepare_spec_def)
next
  case False
  let ?ns = "substitute_precomputed_max_over_range (pd_expr p) (pd_registry_id p) (ms_stack_id (pd_spec p)) results"
  let ?bs = "zip (ms_axis_begin_node_idxs (pd_spec p)) (ms_axis_end_node_idxs (pd_spec p))"
  obtain q rc1 where ax: "prepare_axes ?ns e ?bs 1 rc = Inr (q, rc1)"
    using prep(1) False by (auto simp: prepare_spec_def Let_def result_simps)
  have "list_all2 (bounds_at (pd_expr p)) ?bs cs" using spec(2) by (simp add: spec_chain_def)
  then have rc1: "cache_ok e rc1" using prepare_axes_values [OF spec(1) ax _ prep(2)] by blast
  show ?thesis
  proof (cases q)
    case None
    then show ?thesis using prep(1) False ax rc1 by (auto simp: prepare_spec_def Let_def)
  next
    case (Some ranges)
    then obtain b st where "encode_body ?ns (ms_body_node_idx (pd_spec p)) (ms_axis_var_ids (pd_spec p))
        (arg_buffer_offset_resolver get_off) place None e rc1 = Inr (b, st)" "rc' = bo_cache st"
      using prep(1) False ax by (auto simp: prepare_spec_def encode_max_reducer_body_bytecode_def Let_def result_simps)
    then show ?thesis using encode_body_cache rc1 by blast
  qed
qed

section \<open>The rounds\<close>

lemma prepare_level_entries:
  assumes "prepare_level place e get_off results ps rc = Inr (level, rc')" "cache_ok e rc"
    and "\<forall>p \<in> set ps. right e (pending_results results p) (pd_expr p) \<and> (\<exists>cs t. spec_chain (pd_expr p) (pd_spec p) cs t)"
  shows "cache_ok e rc' \<and>
    (\<forall>(p, axes, eb) \<in> set level. p \<in> set ps \<and>
       (\<exists>rc1 rc2. cache_ok e rc1 \<and> prepare_spec place e get_off results p rc1 = Inr (Some (axes, eb), rc2)))"
  using assms
proof (induction ps arbitrary: rc level)
  case (Cons p ps)
  obtain r rc1 rs where p: "prepare_spec place e get_off results p rc = Inr (r, rc1)"
      "prepare_level place e get_off results ps rc1 = Inr (rs, rc')"
      "level = (case r of None \<Rightarrow> rs | Some d \<Rightarrow> (p, d) # rs)"
    using Cons.prems(1) by (auto simp: result_simps)
  have "cache_ok e rc1" using prepare_spec_cache [OF p(1) Cons.prems(2)] Cons.prems(3) by auto
  with Cons.IH [OF p(2)] Cons.prems(3) have "cache_ok e rc' \<and>
    (\<forall>(p, axes, eb) \<in> set rs. p \<in> set ps \<and>
       (\<exists>rc1 rc2. cache_ok e rc1 \<and> prepare_spec place e get_off results p rc1 = Inr (Some (axes, eb), rc2)))" by simp
  then show ?case using p(1,3) Cons.prems(2) by (fastforce split: option.splits)
qed simp

text \<open>The stacks a launch has results for, each with a key of its own.\<close>

type_synonym stacks = "(nat \<times> int \<times> ser_expr) set"

definition keyed :: "stacks \<Rightarrow> bool" where
  "keyed U \<longleftrightarrow>
     (\<forall>(rid, sid, ns) \<in> U. rid < 2 ^ 32 \<and> 0 \<le> sid \<and> sid < 2 ^ 16 \<and> length ns \<le> 2 ^ 16) \<and>
     (\<forall>(rid, sid, ns) \<in> U. \<forall>(rid', sid', ns') \<in> U. rid = rid' \<longrightarrow> sid = sid' \<longrightarrow> ns = ns')"

lemma keyed_unique: "keyed U \<Longrightarrow> (rid, sid, ns) \<in> U \<Longrightarrow> (rid, sid, ns') \<in> U \<Longrightarrow> ns = ns'"
  unfolding keyed_def by fast

definition all_right :: "env \<Rightarrow> stacks \<Rightarrow> max_reducer_results \<Rightarrow> bool" where
  "all_right e U results \<longleftrightarrow> (\<forall>(rid, sid, ns) \<in> U. right e (matched results rid sid) ns)"

lemma all_right_Cons:
  assumes right: "all_right e U results" and U: "keyed U" "(rid, sid, ns) \<in> U"
    and i: "represents ns i w" "fv w = {}" "\<And>v. size_value e w Map.empty = Inr v \<Longrightarrow> v = x"
  shows "all_right e U ((pack_max_reducer_key rid sid i, x) # results)"
  unfolding all_right_def
proof clarify
  fix rid' sid' ns' assume U': "(rid', sid', ns') \<in> U"
  show "right e (matched ((pack_max_reducer_key rid sid i, x) # results) rid' sid') ns'"
    unfolding right_def
  proof (intro allI impI)
    fix j u y
    assume j: "represents ns' j u" "root_kind u = KMaxOverRange"
      and y: "matched ((pack_max_reducer_key rid sid i, x) # results) rid' sid' j = Some y"
    show "fv u = {} \<and> (\<forall>v. size_value e u Map.empty = Inr v \<longrightarrow> v = y)"
    proof (cases "pack_max_reducer_key rid' sid' j = pack_max_reducer_key rid sid i")
      case True
      have ids: "rid < 2 ^ 32" "0 \<le> sid" "sid < 2 ^ 16" "length ns \<le> 2 ^ 16"
          "rid' < 2 ^ 32" "0 \<le> sid'" "sid' < 2 ^ 16" "length ns' \<le> 2 ^ 16"
        using U U' unfolding keyed_def by blast+
      have "0 \<le> i" "i < 2 ^ 16" "0 \<le> j" "j < 2 ^ 16"
        using represents_in_range [OF i(1)] represents_in_range [OF j(1)] ids(4,8) by (auto simp: in_range_def)
      then have eq: "rid' = rid \<and> sid' = sid \<and> j = i"
        by (intro pack_max_reducer_key_inject [OF ids(5,1,6,7,2,3) _ _ _ _ True])
      then have "ns' = ns" using U' keyed_unique [OF U] by blast
      then have "u = w" using represents_unique j(1) i(1) eq by blast
      then show ?thesis using i(2,3) y True by auto
    next
      case False
      then have "matched results rid' sid' j = Some y" using y by (simp split: if_splits)
      then show ?thesis using right U' j unfolding all_right_def right_def by blast
    qed
  qed
qed

lemma mor_chain_fv: "list_all2 (bounds_at ns) bs cs \<Longrightarrow> fv t \<subseteq> set (map fst cs) \<union> V \<Longrightarrow> fv (mor_chain cs t) \<subseteq> V"
proof (induction bs cs arbitrary: V rule: list_all2_induct)
  case (Cons b bs c cs)
  obtain v ta tb where c: "c = (v, ta, tb)" by (cases c)
  have "fv ta = {}" "fv tb = {}" using Cons.hyps(1) by (auto simp: c bounds_at_def)
  moreover have "fv (mor_chain cs t) \<subseteq> insert v V" by (rule Cons.IH) (use Cons.prems in \<open>auto simp: c\<close>)
  ultimately show ?case by (auto simp: c)
qed simp

lemma spec_chain_closed: "spec_chain ns s cs t \<Longrightarrow> fv (mor_chain cs t) = {}"
  using mor_chain_fv [of ns "zip (ms_axis_begin_node_idxs s) (ms_axis_end_node_idxs s)" cs t "{}"] body_grammar_fv
  by (fastforce simp: spec_chain_def)

lemma finish_specs [simp]:
  "ds_results (fold (finish_spec reduce e) level st) =
     rev (map (\<lambda>(p, axes, eb). (pending_key p, dispatched_value (reduce axes eb))) level) @ ds_results st"
  "ds_read_cache (fold (finish_spec reduce e) level st) = ds_read_cache st"
  by (induction level arbitrary: st) (auto simp: finish_spec_def Let_def)

text \<open>
  What the results rest on: a launch with arguments, a device that sees the host's memory, a kernel
  that reduces, and stacks with keys of their own, to which every pending spec belongs.
\<close>

definition dispatch_ok ::
  "(axis list \<Rightarrow> encoded_body \<Rightarrow> int) \<Rightarrow> (snode \<Rightarrow> int \<times> int) \<Rightarrow> env \<Rightarrow> dev_env \<Rightarrow> (int list \<Rightarrow> int) \<Rightarrow> stacks \<Rightarrow> bool" where
  "dispatch_ok reduce place e de get_off U \<longleftrightarrow>
     (\<exists>ctx. en_ctx e = Some ctx \<and> lc_args_type ctx = Some get_off) \<and> de_mem de = en_mem e \<and> reduces reduce de \<and> keyed U"

definition pending_in :: "stacks \<Rightarrow> pending_dispatch \<Rightarrow> bool" where
  "pending_in U p \<longleftrightarrow> (pd_registry_id p, ms_stack_id (pd_spec p), pd_expr p) \<in> U"

lemma all_rightD: "all_right e U results \<Longrightarrow> pending_in U p \<Longrightarrow> right e (pending_results results p) (pd_expr p)"
  unfolding all_right_def pending_in_def by fast

lemma finished_right:
  assumes ok: "dispatch_ok reduce place e de get_off U" "all_right e U results"
    and p: "pending_ok e de place get_off p" "pending_in U p"
    and prep: "prepare_spec place e get_off results p rc = Inr (Some (axes, eb), rc')" "cache_ok e rc"
    and more: "all_right e U results'"
  shows "all_right e U ((pending_key p, dispatched_value (reduce axes eb)) # results')"
proof -
  obtain ctx where env: "en_ctx e = Some ctx" "lc_args_type ctx = Some get_off" "de_mem de = en_mem e" "reduces reduce de"
    and U: "keyed U" using ok(1) by (auto simp: dispatch_ok_def)
  obtain cs t where spec: "spec_chain (pd_expr p) (pd_spec p) cs t" "chain_runs e de place cs t"
    and wf: "well_formed (pd_expr p)" "encodes_fit e place get_off (pd_expr p) (pd_spec p)"
    using p(1) by (auto simp: pending_ok_def)
  have rep: "represents (pd_expr p) (ms_mor_node_idx (pd_spec p)) (mor_chain cs t)" using spec(1) by (simp add: spec_chain_def)
  have "x = dispatched_value (reduce axes eb)" if "size_value e (mor_chain cs t) Map.empty = Inr x" for x
    using prepared_value [OF prep all_rightD [OF ok(2) p(2)] wf spec env that] by simp
  then show ?thesis
    unfolding pending_key_def
    using all_right_Cons [OF more U _ rep spec_chain_closed [OF spec(1)]] p(2) by (simp add: pending_in_def)
qed

text \<open>The loop ends or runs one more round on fewer specs.\<close>

lemma dispatch_rounds_step:
  assumes "dispatch_rounds reduce place e get_off todo st = Inr st'"
  obtains (last) "st' = st" "\<forall>p \<in> set todo. \<not> deps_ok (ds_results st) p"
  | (round) level rc where
      "prepare_level place e get_off (ds_results st) (filter (deps_ok (ds_results st)) todo) (ds_read_cache st) = Inr (level, rc)"
      "dispatch_rounds reduce place e get_off (filter (\<lambda>p. \<not> deps_ok (ds_results st) p) todo)
         (fold (finish_spec reduce e) level (st\<lparr>ds_read_cache := rc\<rparr>)) = Inr st'"
      "length (filter (\<lambda>p. \<not> deps_ok (ds_results st) p) todo) < length todo"
proof (cases "filter (deps_ok (ds_results st)) todo = []")
  case True
  then have "st' = st" using assms by (subst (asm) dispatch_rounds.simps) simp
  then show thesis using last True by (auto simp: filter_empty_conv)
next
  case False
  then obtain p where "p \<in> set todo" "deps_ok (ds_results st) p" by (auto simp: filter_empty_conv)
  then have "length (filter (\<lambda>p. \<not> deps_ok (ds_results st) p) todo) < length todo"
    by (intro length_filter_less [of p]) auto
  then show thesis
    using round assms False by (subst (asm) dispatch_rounds.simps) (auto simp: Let_def result_simps)
qed

lemma dispatch_rounds_right:
  assumes ok: "dispatch_ok reduce place e de get_off U"
  shows "dispatch_rounds reduce place e get_off todo st = Inr st' \<Longrightarrow>
    \<forall>p \<in> set todo. pending_ok e de place get_off p \<and> pending_in U p \<Longrightarrow>
    all_right e U (ds_results st) \<Longrightarrow> cache_ok e (ds_read_cache st) \<Longrightarrow>
    all_right e U (ds_results st') \<and> cache_ok e (ds_read_cache st')"
proof (induction "length todo" arbitrary: todo st rule: less_induct)
  case less
  let ?r = "ds_results st"
  from less.prems(1) show ?case
  proof (cases rule: dispatch_rounds_step)
    case last
    then show ?thesis using less.prems by simp
  next
    case (round level rc)
    have "\<forall>p \<in> set (filter (deps_ok ?r) todo). right e (pending_results ?r p) (pd_expr p) \<and>
        (\<exists>cs t. spec_chain (pd_expr p) (pd_spec p) cs t)"
      using less.prems(2) all_rightD [OF less.prems(3)] by (fastforce simp: pending_ok_def)
    note entries = prepare_level_entries [OF round(1) less.prems(4) this]
    have "all_right e U (rev (map (\<lambda>(p, axes, eb). (pending_key p, dispatched_value (reduce axes eb))) xs) @ ?r)"
      if "set xs \<subseteq> set level" for xs
      using that
    proof (induction xs rule: rev_induct)
      case (snoc x xs)
      obtain p axes eb where x: "x = (p, axes, eb)" by (cases x)
      obtain rc1 rc2 where "p \<in> set todo" "cache_ok e rc1" "prepare_spec place e get_off ?r p rc1 = Inr (Some (axes, eb), rc2)"
        using entries snoc.prems by (auto simp: x)
      then show ?case using finished_right [OF ok less.prems(3)] less.prems(2) snoc by (simp add: x)
    qed (use less.prems(3) in simp)
    from less.hyps [OF round(3,2)] this [of level] show ?thesis using less.prems(2) entries by simp
  qed
qed

text \<open>A spec without a result misses a dependency or could not be prepared.\<close>

definition refused :: "(snode \<Rightarrow> int \<times> int) \<Rightarrow> env \<Rightarrow> (int list \<Rightarrow> int) \<Rightarrow> pending_dispatch \<Rightarrow> bool" where
  "refused place e get_off p \<longleftrightarrow> (\<exists>results rc rc'. prepare_spec place e get_off results p rc = Inr (None, rc'))"

lemma prepare_level_covers:
  assumes "prepare_level place e get_off results ps rc = Inr (level, rc')" "p \<in> set ps"
  shows "p \<in> fst ` set level \<or> refused place e get_off p"
  using assms
proof (induction ps arbitrary: rc level)
  case (Cons q ps)
  obtain r rc1 rs where q: "prepare_spec place e get_off results q rc = Inr (r, rc1)"
      "prepare_level place e get_off results ps rc1 = Inr (rs, rc')"
      "level = (case r of None \<Rightarrow> rs | Some d \<Rightarrow> (q, d) # rs)"
    using Cons.prems(1) by (auto simp: result_simps)
  show ?case
  proof (cases "p = q")
    case True
    then show ?thesis using q(1,3) by (cases r) (auto simp: refused_def)
  next
    case False
    then show ?thesis using Cons.IH [OF q(2)] Cons.prems(2) q(3) by (auto split: option.splits)
  qed
qed simp

abbreviation has_result :: "max_reducer_results \<Rightarrow> nat \<Rightarrow> bool" where
  "has_result results k \<equiv> map_of results k \<noteq> None"

lemma dispatch_rounds_cover:
  "dispatch_rounds reduce place e get_off todo st = Inr st' \<Longrightarrow>
   (\<forall>k. has_result (ds_results st) k \<longrightarrow> has_result (ds_results st') k) \<and>
   (\<forall>p \<in> set todo. has_result (ds_results st') (pending_key p) \<or> \<not> deps_ok (ds_results st') p \<or> refused place e get_off p)"
proof (induction "length todo" arbitrary: todo st rule: less_induct)
  case less
  let ?r = "ds_results st"
  from less.prems show ?case
  proof (cases rule: dispatch_rounds_step)
    case last
    then show ?thesis by simp
  next
    case (round level rc)
    let ?rest = "filter (\<lambda>p. \<not> deps_ok ?r p) todo"
    let ?r1 = "rev (map (\<lambda>(p, axes, eb). (pending_key p, dispatched_value (reduce axes eb))) level) @ ?r"
    have IH: "\<forall>k. has_result ?r1 k \<longrightarrow> has_result (ds_results st') k"
      "\<forall>p \<in> set ?rest. has_result (ds_results st') (pending_key p) \<or> \<not> deps_ok (ds_results st') p \<or> refused place e get_off p"
      using less.hyps [OF round(3,2)] by simp_all
    have grow: "has_result ?r1 k" if "has_result ?r k \<or> k \<in> pending_key ` fst ` set level" for k
      using that by (force simp: map_add_def map_of_eq_None_iff rev_map [symmetric] split: option.split)
    have "has_result (ds_results st') (pending_key p) \<or> refused place e get_off p" if "p \<in> set (filter (deps_ok ?r) todo)" for p
      using prepare_level_covers [OF round(1) that] IH(1) grow by blast
    moreover have "p \<in> set (filter (deps_ok ?r) todo) \<or> p \<in> set ?rest" if "p \<in> set todo" for p
      using that by auto
    ultimately show ?thesis using IH grow by blast
  qed
qed

section \<open>The dispatcher\<close>

lemma foldE_inv:
  assumes "foldE f xs s = Inr s'" "P s" "\<And>x s s'. x \<in> set xs \<Longrightarrow> P s \<Longrightarrow> f x s = Inr s' \<Longrightarrow> P s'"
  shows "P s'"
  using assms by (induction xs arbitrary: s) (auto simp: result_simps)

lemma foldE_covers:
  assumes "foldE f xs s = Inr s'" "\<And>x s s'. f x s = Inr s' \<Longrightarrow> Q x s'" "\<And>x y s s'. Q x s \<Longrightarrow> f y s = Inr s' \<Longrightarrow> Q x s'"
  shows "\<forall>x \<in> set xs. Q x s'"
  using assms(1)
proof (induction xs arbitrary: s)
  case (Cons x xs)
  then obtain s1 where s1: "f x s = Inr s1" "foldE f xs s1 = Inr s'" by (auto simp: result_simps)
  have "Q x s'" using foldE_inv [where P = "Q x", OF s1(2) assms(2) [OF s1(1)]] assms(3) by blast
  then show ?case using Cons.IH [OF s1(2)] by simp
qed simp

abbreviation task_stack :: "dispatch_task \<Rightarrow> max_reducer_spec \<Rightarrow> ser_expr" where
  "task_stack task s \<equiv> dt_size_exprs task ! nat (ms_stack_id s)"

abbreviation pending_of :: "dispatch_task \<Rightarrow> max_reducer_spec \<Rightarrow> pending_dispatch" where
  "pending_of task s \<equiv> \<lparr>pd_registry_id = dt_registry_id task, pd_expr = task_stack task s, pd_spec = s\<rparr>"

text \<open>The per-spec cache holds right values for the launch wherever its observations replay as fresh.\<close>

definition entries_right :: "env \<Rightarrow> stacks \<Rightarrow> adstack_cache \<Rightarrow> bool" where
  "entries_right e U ac \<longleftrightarrow>
     (\<forall>rid sid ns i w v os x. (rid, sid, ns) \<in> U \<longrightarrow> represents ns i w \<longrightarrow>
        ac_max_reducer ac (pack_max_reducer_key rid sid i) = Some (v, os) \<longrightarrow>
        replay_all os (with_gens ac e) = Inr True \<longrightarrow> size_value e w Map.empty = Inr x \<longrightarrow> x = v)"

definition from_tasks :: "dispatch_task set \<Rightarrow> pending_dispatch \<Rightarrow> bool" where
  "from_tasks T p \<longleftrightarrow> (\<exists>task \<in> T. \<exists>s \<in> set (dt_specs task). p = pending_of task s)"

lemma from_tasksI: "task \<in> T \<Longrightarrow> s \<in> set (dt_specs task) \<Longrightarrow> from_tasks T (pending_of task s)"
  unfolding from_tasks_def by blast

definition lookup_inv ::
  "env \<Rightarrow> stacks \<Rightarrow> dispatch_task set \<Rightarrow> read_cache option \<Rightarrow> pending_dispatch list \<times> dispatch_state \<Rightarrow> bool" where
  "lookup_inv e U T rc pst \<longleftrightarrow>
     (case pst of (pending, st) \<Rightarrow>
        all_right e U (ds_results st) \<and> (\<forall>ac. ds_adstack_cache st = Some ac \<longrightarrow> entries_right e U ac) \<and>
        ds_read_cache st = rc \<and> (\<forall>p \<in> set pending. from_tasks T p))"

lemma cache_hit_right:
  assumes hit: "try_max_reducer_cache_hit e (rid, sid, i) ac = Inr (h, ac')" "entries_right e U ac"
  shows "entries_right e U ac' \<and>
    (\<forall>v ns w x. h = Some v \<longrightarrow> (rid, sid, ns) \<in> U \<longrightarrow> represents ns i w \<longrightarrow> size_value e w Map.empty = Inr x \<longrightarrow> x = v)"
proof (cases "ac_max_reducer ac (pack_max_reducer_key rid sid i)")
  case None
  then show ?thesis using hit by (auto simp: try_max_reducer_cache_hit_def)
next
  case (Some entry)
  obtain v os where entry: "entry = (v, os)" by (cases entry)
  obtain fresh where fresh: "replay_all os (with_gens ac e) = Inr fresh"
    using hit(1) Some entry by (auto simp: try_max_reducer_cache_hit_def Let_def result_simps)
  show ?thesis
  proof (cases fresh)
    case True
    then have "h = Some v" "ac' = ac" using hit(1) Some entry fresh by (auto simp: try_max_reducer_cache_hit_def Let_def)
    moreover have "x = v" if "(rid, sid, ns) \<in> U" "represents ns i w" "size_value e w Map.empty = Inr x" for ns w x
    proof -
      have "replay_all os (with_gens ac e) = Inr True" using fresh True by simp
      then show ?thesis using hit(2) [unfolded entries_right_def] that Some [unfolded entry] by blast
    qed
    ultimately show ?thesis using hit(2) by auto
  next
    case False
    then have "h = None" "ac' = ac\<lparr>ac_max_reducer := (ac_max_reducer ac)(pack_max_reducer_key rid sid i := None)\<rparr>"
      using hit(1) Some entry fresh by (auto simp: try_max_reducer_cache_hit_def Let_def)
    moreover from this(2) have "with_gens ac' e = with_gens ac e"
      by (simp add: with_gens_def snode_write_gen_def [abs_def] ndarray_data_gen_def [abs_def])
    ultimately show ?thesis using hit(2) by (auto simp: entries_right_def split: if_splits)
  qed
qed

text \<open>
  What the dispatcher takes for granted of a task: serialised expressions, the specs the recogniser
  found in them, and chains that run on the device; and that no captured body is negative anywhere.
\<close>

definition task_fits_device :: "env \<Rightarrow> dev_env \<Rightarrow> (snode \<Rightarrow> int \<times> int) \<Rightarrow> (int list \<Rightarrow> int) \<Rightarrow> dispatch_task \<Rightarrow> bool" where
  "task_fits_device e de place get_off task \<longleftrightarrow>
     (\<forall>ns \<in> set (dt_size_exprs task). well_formed ns) \<and>
     dt_specs task = recognize_adstack_max_reducer_specs (dt_size_exprs task) \<and>
     (\<forall>s \<in> set (dt_specs task). encodes_fit e place get_off (task_stack task s) s \<and>
        (\<forall>cs t. spec_chain (task_stack task s) s cs t \<longrightarrow> chain_fits e de place cs t))"

definition bodies_not_negative :: "env \<Rightarrow> dispatch_task \<Rightarrow> bool" where
  "bodies_not_negative e task \<longleftrightarrow>
     (\<forall>s \<in> set (dt_specs task). \<forall>cs t. spec_chain (task_stack task s) s cs t \<longrightarrow> chain_not_negative e cs t)"

definition task_ok :: "env \<Rightarrow> dev_env \<Rightarrow> (snode \<Rightarrow> int \<times> int) \<Rightarrow> (int list \<Rightarrow> int) \<Rightarrow> dispatch_task \<Rightarrow> bool" where
  "task_ok e de place get_off task \<longleftrightarrow> task_fits_device e de place get_off task \<and> bodies_not_negative e task"

lemmas task_ok_defs = task_ok_def task_fits_device_def bodies_not_negative_def

definition stacks_of :: "dispatch_task set \<Rightarrow> stacks" where
  "stacks_of T = {(dt_registry_id task, int k, dt_size_exprs task ! k) | task k. task \<in> T \<and> k < length (dt_size_exprs task)}"

lemma pending_of_ok:
  assumes "task_ok e de place get_off task" "task \<in> T" "s \<in> set (dt_specs task)"
  shows "pending_ok e de place get_off (pending_of task s)" "pending_in (stacks_of T) (pending_of task s)"
proof -
  obtain k where k: "k < length (dt_size_exprs task)" "ms_stack_id s = int k"
      "\<exists>cs t. spec_chain (dt_size_exprs task ! k) s cs t"
    using recognized_chain [of "dt_size_exprs task" s] assms by (auto simp: task_ok_defs)
  then show "pending_in (stacks_of T) (pending_of task s)"
    using assms(2) by (auto simp: pending_in_def stacks_of_def)
  have "encodes_fit e place get_off (task_stack task s) s"
      "\<forall>cs t. spec_chain (task_stack task s) s cs t \<longrightarrow> chain_runs e de place cs t" "well_formed (task_stack task s)"
    using assms(1,3) k(1,2) unfolding task_ok_defs chain_runs_def by (blast, blast, simp)
  then show "pending_ok e de place get_off (pending_of task s)" using k by (auto simp: pending_ok_def)
qed

lemma lookup_spec_inv:
  assumes inv: "lookup_inv e (stacks_of T) T rc pst" and U: "keyed (stacks_of T)"
    and step: "lookup_spec e task s pst = Inr pst'" "task \<in> T" "s \<in> set (dt_specs task)" "task_ok e de place get_off task"
  shows "lookup_inv e (stacks_of T) T rc pst'"
proof -
  let ?p = "pending_of task s"
  obtain pending st where pst: "pst = (pending, st)" by (cases pst)
  note ok = pending_of_ok [OF step(4,2,3)]
  show ?thesis
  proof (cases "ds_adstack_cache st")
    case None
    then show ?thesis using inv step from_tasksI [OF step(2,3)] by (auto simp: lookup_spec_def lookup_inv_def pst Let_def)
  next
    case (Some ac)
    then obtain h ac' where hit: "try_max_reducer_cache_hit e (dt_registry_id task, ms_stack_id s, ms_mor_node_idx s) ac = Inr (h, ac')"
      using step(1) by (auto simp: lookup_spec_def pst Let_def result_simps)
    have entries: "entries_right e (stacks_of T) ac" using inv Some by (simp add: lookup_inv_def pst)
    note right = cache_hit_right [OF hit entries]
    show ?thesis
    proof (cases h)
      case None
      then have "pst' = (pending @ [?p], st\<lparr>ds_adstack_cache := Some ac'\<rparr>)"
        using step(1) Some hit by (simp add: lookup_spec_def pst)
      then show ?thesis using inv right from_tasksI [OF step(2,3)] by (auto simp: lookup_inv_def pst)
    next
      case (Some v)
      then have pst': "pst' = (pending, st\<lparr>ds_adstack_cache := Some ac', ds_results := (pending_key ?p, v) # ds_results st\<rparr>)"
        using step(1) \<open>ds_adstack_cache st = Some ac\<close> hit by (simp add: lookup_spec_def pst)
      obtain cs t where spec: "spec_chain (task_stack task s) s cs t" using ok(1) by (auto simp: pending_ok_def)
      have mem: "(dt_registry_id task, ms_stack_id s, task_stack task s) \<in> stacks_of T" using ok(2) by (simp add: pending_in_def)
      have "all_right e (stacks_of T) ((pending_key ?p, v) # ds_results st)"
        using all_right_Cons [OF _ U mem _ spec_chain_closed [OF spec], of e "ds_results st" "ms_mor_node_idx s" v]
          inv right Some mem spec by (auto simp: pending_key_def lookup_inv_def pst spec_chain_def)
      then show ?thesis using inv right unfolding pst' by (simp add: lookup_inv_def pst)
    qed
  qed
qed

lemma lookups_inv:
  assumes "foldE (lookup_task e) tasks ([], \<lparr>ds_results = [], ds_adstack_cache = ac, ds_read_cache = rc\<rparr>) = Inr pst"
    and "\<forall>task \<in> set tasks. task_ok e de place get_off task" "keyed (stacks_of (set tasks))"
    and "\<forall>a. ac = Some a \<longrightarrow> entries_right e (stacks_of (set tasks)) a"
  shows "lookup_inv e (stacks_of (set tasks)) (set tasks) rc pst"
proof (rule foldE_inv [OF assms(1)])
  show "lookup_inv e (stacks_of (set tasks)) (set tasks) rc ([], \<lparr>ds_results = [], ds_adstack_cache = ac, ds_read_cache = rc\<rparr>)"
    using assms(4) by (auto simp: lookup_inv_def all_right_def right_def)
next
  fix task pst pst'
  assume *: "task \<in> set tasks" "lookup_inv e (stacks_of (set tasks)) (set tasks) rc pst" "lookup_task e task pst = Inr pst'"
  show "lookup_inv e (stacks_of (set tasks)) (set tasks) rc pst'"
  proof (cases "dt_specs task = [] \<or> dt_registry_id task = 0")
    case False
    then have "foldE (lookup_spec e task) (dt_specs task) pst = Inr pst'" using *(3) by (simp add: lookup_task_def)
    then show ?thesis
      by (rule foldE_inv [where P = "lookup_inv e (stacks_of (set tasks)) (set tasks) rc"])
        (use * assms(2,3) lookup_spec_inv in blast)+
  qed (use * in \<open>auto simp: lookup_task_def\<close>)
qed

text \<open>Every spec of a registered task is pending or has a result.\<close>

definition looked_up :: "dispatch_task \<Rightarrow> pending_dispatch list \<times> dispatch_state \<Rightarrow> max_reducer_spec \<Rightarrow> bool" where
  "looked_up task pst s \<longleftrightarrow>
     pending_of task s \<in> set (fst pst) \<or> has_result (ds_results (snd pst)) (pending_key (pending_of task s))"

lemma lookup_spec_looks_up:
  assumes "lookup_spec e task s pst = Inr pst'"
  shows "looked_up task pst' s" "looked_up task' pst s' \<Longrightarrow> looked_up task' pst' s'"
proof -
  show "looked_up task pst' s"
    using assms by (auto simp: lookup_spec_def looked_up_def Let_def result_simps split: prod.splits option.splits)
  show "looked_up task' pst' s'" if "looked_up task' pst s'"
    using assms that
    by (auto simp: lookup_spec_def looked_up_def Let_def result_simps split: prod.splits option.splits if_splits)
qed

lemma lookups_cover:
  assumes "foldE (lookup_task e) tasks pst0 = Inr pst"
  shows "\<forall>task \<in> set tasks. dt_registry_id task \<noteq> 0 \<longrightarrow> (\<forall>s \<in> set (dt_specs task). looked_up task pst s)"
proof (rule foldE_covers [OF assms])
  fix task p p' assume *: "lookup_task e task p = Inr p'"
  show "dt_registry_id task \<noteq> 0 \<longrightarrow> (\<forall>s \<in> set (dt_specs task). looked_up task p' s)"
  proof (cases "dt_specs task = [] \<or> dt_registry_id task = 0")
    case False
    then have "foldE (lookup_spec e task) (dt_specs task) p = Inr p'" using * by (simp add: lookup_task_def)
    from foldE_covers [OF this, where Q = "\<lambda>s p. looked_up task p s"] show ?thesis using lookup_spec_looks_up by blast
  qed auto
next
  fix task task' p p'
  assume *: "dt_registry_id task \<noteq> 0 \<longrightarrow> (\<forall>s \<in> set (dt_specs task). looked_up task p s)" "lookup_task e task' p = Inr p'"
  have "looked_up task p' s" if "looked_up task p s" for s
  proof (cases "dt_specs task' = [] \<or> dt_registry_id task' = 0")
    case False
    then have "foldE (lookup_spec e task') (dt_specs task') p = Inr p'" using *(2) by (simp add: lookup_task_def)
    then show ?thesis by (rule foldE_inv [where P = "\<lambda>p. looked_up task p s"]) (use that lookup_spec_looks_up in blast)+
  qed (use *(2) that in \<open>auto simp: lookup_task_def\<close>)
  then show "dt_registry_id task \<noteq> 0 \<longrightarrow> (\<forall>s \<in> set (dt_specs task). looked_up task p' s)" using *(1) by blast
qed

section \<open>What a launch gets\<close>

text \<open>The dispatcher past its early returns and the launch cache.\<close>

lemma dispatch_impl_slow:
  assumes "dispatch_max_reducers_impl reduce place key tasks e ac rc = Inr st"
    and "en_ctx e = Some ctx" "lc_args_type ctx = Some get_off"
    and "Option.bind ac (try_max_reducer_launch_cache_hit key (Some ctx)) = None"
  obtains pending st1 st2 where
    "foldE (lookup_task e) tasks ([], \<lparr>ds_results = [], ds_adstack_cache = ac, ds_read_cache = rc\<rparr>) = Inr (pending, st1)"
    "dispatch_rounds reduce place e get_off pending st1 = Inr st2" "ds_results st = ds_results st2"
    "ds_read_cache st = ds_read_cache st2"
  using assms by (auto simp: dispatch_max_reducers_impl_def Let_def result_simps)

lemma dispatch_impl_right:
  assumes run: "dispatch_max_reducers_impl reduce place key tasks e ac rc = Inr st"
    and ok: "dispatch_ok reduce place e de get_off (stacks_of (set tasks))"
    and tasks: "\<forall>task \<in> set tasks. task_ok e de place get_off task"
    and entries: "\<forall>a. ac = Some a \<longrightarrow> entries_right e (stacks_of (set tasks)) a"
    and launch: "\<And>a hit. ac = Some a \<Longrightarrow> try_max_reducer_launch_cache_hit key (en_ctx e) a = Some hit \<Longrightarrow>
      all_right e (stacks_of (set tasks)) hit"
    and rc: "cache_ok e rc"
  shows "all_right e (stacks_of (set tasks)) (ds_results st)" "cache_ok e (ds_read_cache st)"
proof -
  obtain ctx where ctx: "en_ctx e = Some ctx" "lc_args_type ctx = Some get_off" and U: "keyed (stacks_of (set tasks))"
    using ok by (auto simp: dispatch_ok_def)
  have "all_right e (stacks_of (set tasks)) (ds_results st) \<and> cache_ok e (ds_read_cache st)"
  proof (cases "Option.bind ac (try_max_reducer_launch_cache_hit key (Some ctx))")
    case (Some hit)
    then have "ds_results st = hit" "ds_read_cache st = rc"
      using run ctx by (auto simp: dispatch_max_reducers_impl_def Let_def)
    then show ?thesis using Some launch ctx rc by (auto simp: bind_eq_Some_conv)
  next
    case None
    from dispatch_impl_slow [OF run ctx None] obtain pending st1 st2 where
      look: "foldE (lookup_task e) tasks ([], \<lparr>ds_results = [], ds_adstack_cache = ac, ds_read_cache = rc\<rparr>) = Inr (pending, st1)"
      and rounds: "dispatch_rounds reduce place e get_off pending st1 = Inr st2"
      and st: "ds_results st = ds_results st2" "ds_read_cache st = ds_read_cache st2" .
    have inv: "lookup_inv e (stacks_of (set tasks)) (set tasks) rc (pending, st1)"
      by (rule lookups_inv [OF look tasks U entries])
    then have "\<forall>p \<in> set pending. pending_ok e de place get_off p \<and> pending_in (stacks_of (set tasks)) p"
      using pending_of_ok tasks by (fastforce simp: lookup_inv_def from_tasks_def)
    then show ?thesis
      using dispatch_rounds_right [OF ok rounds] inv rc st by (simp add: lookup_inv_def)
  qed
  then show "all_right e (stacks_of (set tasks)) (ds_results st)" "cache_ok e (ds_read_cache st)" by auto
qed

lemma evaluate_dispatched:
  assumes "all_right e U results" "(rid, sid, ns) \<in> U" "represents ns (int (length ns) - 1) t" "readable e t" "cache_ok e outer"
    and "size_value e t Map.empty = Inr v"
  shows "\<exists>c. evaluate_adstack_size_expr_no_cache (substitute_precomputed_max_over_range ns rid sid results) e outer = Inr (v, c)"
proof -
  let ?ns = "substitute_precomputed_max_over_range ns rid sid results"
  let ?t = "substituted (matched results rid sid) ns (int (length ns) - 1) t"
  have rep: "represents ?ns (int (length ?ns) - 1) ?t" using represents_substituted [OF assms(3)] by simp
  have "right e (matched results rid sid) ns" using assms(1,2) unfolding all_right_def by fast
  then have "size_value e ?t Map.empty = Inr v" by (rule substituted_agrees [OF _ assms(3,6)])
  moreover have "ns \<noteq> []" using represents_in_range [OF assms(3)] by (auto simp: in_range_def)
  then have "?ns \<noteq> []" by (metis length_0_conv length_substitute)
  ultimately show ?thesis
    using evaluate_root_correct [OF rep assms(5), of "Some []"] readable_substituted [OF assms(4)]
    by (auto simp: evaluate_adstack_size_expr_no_cache_def)
qed

lemma dispatch_covers:
  assumes run: "dispatch_max_reducers_impl reduce place key tasks e ac rc = Inr st"
    and ctx: "en_ctx e = Some ctx" "lc_args_type ctx = Some get_off"
    and miss: "Option.bind ac (try_max_reducer_launch_cache_hit key (Some ctx)) = None"
    and task: "task \<in> set tasks" "dt_registry_id task \<noteq> 0" "s \<in> set (dt_specs task)"
  shows "has_result (ds_results st) (pending_key (pending_of task s)) \<or> \<not> deps_ok (ds_results st) (pending_of task s) \<or>
    refused place e get_off (pending_of task s)"
proof -
  from dispatch_impl_slow [OF run ctx miss] obtain pending st1 st2 where
    look: "foldE (lookup_task e) tasks ([], \<lparr>ds_results = [], ds_adstack_cache = ac, ds_read_cache = rc\<rparr>) = Inr (pending, st1)"
    and rounds: "dispatch_rounds reduce place e get_off pending st1 = Inr st2" and st: "ds_results st = ds_results st2" .
  have "looked_up task (pending, st1) s" using lookups_cover [OF look] task by blast
  then show ?thesis using dispatch_rounds_cover [OF rounds] unfolding st looked_up_def by auto
qed

text \<open>Without refusals the order of the specs lets every one of them have its dependencies.\<close>

lemma in_order_all:
  assumes "in_order before specs" "\<forall>s \<in> set before. P s"
    and "\<And>s. s \<in> set specs \<Longrightarrow> (\<forall>d \<in> set (ms_dependent_mor_node_idxs s). \<exists>s'. P s' \<and> ms_stack_id s' = ms_stack_id s \<and> ms_mor_node_idx s' = d) \<Longrightarrow> P s"
  shows "\<forall>s \<in> set specs. P s"
  using assms
proof (induction specs arbitrary: before)
  case (Cons s specs)
  have "\<forall>d \<in> set (ms_dependent_mor_node_idxs s). \<exists>s'. P s' \<and> ms_stack_id s' = ms_stack_id s \<and> ms_mor_node_idx s' = d"
    using Cons.prems(1,2) unfolding in_order.simps by blast
  then have "P s" by (intro Cons.prems(3)) simp_all
  moreover have "\<forall>s \<in> set specs. P s"
    by (rule Cons.IH [of "before @ [s]"]) (use Cons.prems \<open>P s\<close> in auto)
  ultimately show ?case by simp
qed simp

lemma dispatch_all:
  assumes run: "dispatch_max_reducers_impl reduce place key tasks e ac rc = Inr st"
    and ctx: "en_ctx e = Some ctx" "lc_args_type ctx = Some get_off"
    and miss: "Option.bind ac (try_max_reducer_launch_cache_hit key (Some ctx)) = None"
    and task: "task \<in> set tasks" "dt_registry_id task \<noteq> 0" "dt_specs task = recognize_adstack_max_reducer_specs es"
    and none: "\<forall>s \<in> set (dt_specs task). \<not> refused place e get_off (pending_of task s)"
  shows "\<forall>s \<in> set (dt_specs task). has_result (ds_results st) (pending_key (pending_of task s))"
proof (rule in_order_all [of "[]"])
  show "in_order [] (dt_specs task)" using recognize_specs_ok task(3) by simp
next
  fix s assume s: "s \<in> set (dt_specs task)"
    and deps: "\<forall>d \<in> set (ms_dependent_mor_node_idxs s). \<exists>s'. has_result (ds_results st) (pending_key (pending_of task s')) \<and>
      ms_stack_id s' = ms_stack_id s \<and> ms_mor_node_idx s' = d"
  have "deps_ok (ds_results st) (pending_of task s)"
    unfolding deps_ok_def list_all_iff using deps by (fastforce simp: pending_key_def)
  then show "has_result (ds_results st) (pending_key (pending_of task s))"
    using dispatch_covers [OF run ctx miss task(1,2) s] none s by blast
qed simp

end
