(* ===== verification/SampleDispatch.thy ===== *)
theory SampleDispatch
  imports SampleReducer DispatchCorrect
begin

text \<open>
  Two launches of the dispatcher: one for the range maximum of \<open>sample_tree\<close>, and one whose range
  is bounded by a field that changes between the launches.
\<close>

definition sample_off :: "int list \<Rightarrow> int" where
  "sample_off path = (if path = [0, data_ptr_pos] then 8 else 0)"

definition sample_task :: dispatch_task where
  "sample_task = \<lparr>dt_registry_id = 9, dt_size_exprs = [serialize sample_tree],
     dt_specs = recognize_adstack_max_reducer_specs [serialize sample_tree]\<rparr>"

definition sample_place :: "snode \<Rightarrow> int \<times> int" where
  "sample_place s = (0, 0)"

definition sample_spec :: max_reducer_spec where
  "sample_spec = \<lparr>ms_stack_id = 0, ms_mor_node_idx = 5, ms_body_node_idx = 4, ms_axis_var_ids = [5],
     ms_axis_begin_node_idxs = [0], ms_axis_end_node_idxs = [1], ms_dependent_mor_node_idxs = []\<rparr>"

lemma sample_specs: "dt_specs sample_task = [sample_spec]"
  by code_simp

lemma sample_mor: "represents (serialize sample_tree) 5 (mor_chain sample_chain sample_mor_body)"
  by code_simp

definition sample_dispatch_dev :: dev_env where
  "sample_dispatch_dev = \<lparr>de_mem = sample_mem, de_arg_buffer = 2000, de_roots = None\<rparr>"

lemma sample_visit: "visit (eval_fuel (serialize sample_tree)) (serialize sample_tree) 4 [] = Inr [2, 3, 4]"
  by code_simp

lemma at_node_meaning:
  assumes "represents ns i t" "size_value e t Map.empty = Inr v"
  shows "evaluate_adstack_size_expr_at_node ns i e None = Inr (v, None)"
  using evaluate_root_correct [OF assms(1) cache_ok_None, of None e] assms represents_in_range [OF assms(1)]
  by (auto simp: evaluate_adstack_size_expr_at_node_def)

lemma sample_bounds:
  "evaluate_adstack_size_expr_at_node (serialize sample_tree) 0 sample_env None = Inr (0, None)"
  "evaluate_adstack_size_expr_at_node (serialize sample_tree) 1 sample_env None = Inr (3, None)"
proof -
  have r: "represents (serialize sample_tree) 0 (Const 0)" "represents (serialize sample_tree) 1 (ExternalTensorShape [0] 0)"
      "size_value sample_env (ExternalTensorShape [0] 0) Map.empty = Inr 3" by code_simp+
  show "evaluate_adstack_size_expr_at_node (serialize sample_tree) 0 sample_env None = Inr (0, None)"
    "evaluate_adstack_size_expr_at_node (serialize sample_tree) 1 sample_env None = Inr (3, None)"
    by (rule at_node_meaning [OF r(1)], simp) (rule at_node_meaning [OF r(2,3)])
qed

lemma sample_axes_prepared: "prepare_axes (serialize sample_tree) sample_env [(0, 1)] 1 None = Inr (Some [(0, 3)], None)"
  by (simp add: sample_bounds u64_def)

lemma sample_encoded:
  "\<exists>st. encode_body (serialize sample_tree) 4 [5] (arg_buffer_offset_resolver sample_off) sample_place None sample_env cache =
     Inr (Some (sample_body_nodes, [-1, 1]), st)"
proof -
  have nodes: "map (node_at (serialize sample_tree)) [2, 3, 4] =
      [default_node\<lparr>sn_kind := 9, sn_const_value := 5, sn_indices := [-6], sn_arg_id_path := [0]\<rparr>,
       default_node\<lparr>sn_kind := 0, sn_const_value := 1\<rparr>,
       default_node\<lparr>sn_kind := 2, sn_operand_a := 2, sn_operand_b := 3\<rparr>]" by code_simp
  have r: "in_range (serialize sample_tree) 4" "arg_buffer_offset_resolver sample_off [0] = 8"
      "old_to_new [2, 3, 4] 2 = 0" "old_to_new [2, 3, 4] 3 = 1" "map_of (chain_remap [5]) 5 = Some 0" "wrap32 5 = 5"
    by code_simp+
  show ?thesis
    unfolding encode_body_def Let_def sample_visit nodes bindE_simps
    using r by (simp add: encode_body_node_def body_external_read_def default_node_def chain_index_def body_strides_def
        sample_body_nodes_def sample_env_def make_empty_device_node_def device_bin_kind_def Let_def)
qed


lemma sample_prepared:
  "\<exists>eb rc. prepare_spec sample_place sample_env sample_off [] (pending_of sample_task sample_spec) None =
     Inr (Some ([(3, 0, 0)], eb), rc)"
proof -
  obtain st where st: "encode_body (serialize sample_tree) 4 [5] (arg_buffer_offset_resolver sample_off) sample_place None
      sample_env None = Inr (Some (sample_body_nodes, [-1, 1]), st)" using sample_encoded by blast
  have "length sample_body_nodes = 3" "axis_params [(0, 3)] = [(3, 0, 0)]"
    by (simp_all add: sample_body_nodes_def axis_params_def)
  then show ?thesis
    using st sample_axes_prepared
    by (simp add: prepare_spec_def sample_spec_def sample_task_def max_reducer_max_axes_def
        substitute_precomputed_max_over_range_def encode_max_reducer_body_bytecode_def)
qed

lemma sample_dispatch_runs:
  "\<exists>st. dispatch_max_reducers_impl reduce sample_place 77 [sample_task] sample_env (Some empty_cache) None = Inr st"
proof -
  let ?p = "pending_of sample_task sample_spec"
  obtain eb rc where prep: "prepare_spec sample_place sample_env sample_off [] ?p None = Inr (Some ([(3, 0, 0)], eb), rc)"
    using sample_prepared by blast
  have miss: "try_max_reducer_launch_cache_hit 77 (Some sample_ctx) empty_cache = None"
      "try_max_reducer_cache_hit sample_env (9, 0, 5) empty_cache = Inr (None, empty_cache)"
    by (simp_all add: try_max_reducer_launch_cache_hit_def try_max_reducer_cache_hit_def empty_cache_def)
  have look: "foldE (lookup_task sample_env) [sample_task] ([], \<lparr>ds_results = [], ds_adstack_cache = Some empty_cache, ds_read_cache = None\<rparr>) =
      Inr ([?p], \<lparr>ds_results = [], ds_adstack_cache = Some empty_cache, ds_read_cache = None\<rparr>)"
    using miss(2) by (simp add: lookup_task_def sample_specs lookup_spec_def) (simp add: sample_task_def sample_spec_def)
  have "deps_ok [] ?p" by (simp add: deps_ok_def sample_spec_def)
  then have "\<exists>st. dispatch_rounds reduce sample_place sample_env sample_off [?p]
      \<lparr>ds_results = [], ds_adstack_cache = Some empty_cache, ds_read_cache = None\<rparr> = Inr st"
    using prep by (subst dispatch_rounds.simps) (simp, subst dispatch_rounds.simps, simp)
  moreover have "en_ctx sample_env = Some sample_ctx" "lc_args_type sample_ctx = Some sample_off"
    by (simp_all add: sample_env_def sample_ctx_def sample_off_def [abs_def])
  ultimately show ?thesis using look miss(1) by (auto simp: dispatch_max_reducers_impl_def)
qed


lemma sample_chain_unique:
  assumes "spec_chain (serialize sample_tree) sample_spec cs t"
  shows "cs = sample_chain \<and> t = sample_mor_body"
proof -
  have "mor_chain cs t = mor_chain sample_chain sample_mor_body" "cs \<noteq> []" "body_grammar [5] t"
    using assms represents_unique [OF _ sample_mor] by (auto simp: spec_chain_def sample_spec_def)
  moreover from this(2) obtain v a b cs' where cs: "cs = (v, a, b) # cs'" by (cases cs) auto
  ultimately have "mor_chain cs' t = sample_mor_body" "(v, a, b) = (5, Const 0, ExternalTensorShape [0] 0)"
    by (auto simp: sample_chain_def)
  moreover from this(1) have "cs' = []" by (cases cs') (auto simp: sample_mor_body_def)
  ultimately show ?thesis by (simp add: cs sample_chain_def)
qed

lemma sample_chain_runs: "chain_runs sample_env sample_dispatch_dev sample_place sample_chain sample_mor_body"
proof -
  have shape: "size_value sample_env (ExternalTensorShape [0] 0) Map.empty = Inr 3" by code_simp
  have only: "as = [(5, 0, 3)]" if "list_all2 (axis_evaluates sample_env) sample_chain as" for as
    using that shape by (auto simp: sample_chain_def list_all2_Cons1)
  have "device_ok sample_env sample_dispatch_dev (ExternalTensorRead [0] [-6] 5)" by code_simp
  then have body: "body_ok B sample_env sample_dispatch_dev sample_place sample_mor_body" for B
    by (simp add: sample_mor_body_def del: device_ok.simps) simp
  have "{0..<3} = {0, 1, 2::int}" by auto
  then have "axis_bindings [(5, 0, 3)] Map.empty = {[5 \<mapsto> 0], [5 \<mapsto> 1], [5 \<mapsto> 2]}" by auto
  moreover have "size_value sample_env sample_mor_body [5 \<mapsto> 0] = Inr 4" "size_value sample_env sample_mor_body [5 \<mapsto> 1] = Inr 2"
      "size_value sample_env sample_mor_body [5 \<mapsto> 2] = Inr 5" by code_simp+
  ultimately have vals: "\<forall>x \<in> chain_values sample_env [(5, 0, 3)] sample_mor_body. 0 \<le> x"
    unfolding chain_values_def by (auto simp del: fun_upd_apply axis_bindings.simps)
  show ?thesis
    unfolding chain_runs_defs
  proof (intro conjI allI impI)
    fix as assume "list_all2 (axis_evaluates sample_env) sample_chain as"
    note as = only [OF this]
    show "\<forall>(v, lo, hi) \<in> set as. hi - lo < 2 ^ 32 \<and> hi < 2 ^ 63" "\<forall>x \<in> chain_values sample_env as sample_mor_body. 0 \<le> x"
        "body_ok (\<lambda>bv. bv \<in> axis_bindings as Map.empty) sample_env sample_dispatch_dev sample_place sample_mor_body"
      unfolding as using vals body by auto
  qed (use sample_body_grammar(2) in \<open>simp_all add: sample_chain_def\<close>)
qed

lemma sample_task_ok: "task_ok sample_env sample_dispatch_dev sample_place sample_off sample_task"
proof -
  have "encodes_fit sample_env sample_place sample_off (serialize sample_tree) sample_spec"
    unfolding encodes_fit_def
  proof (intro allI impI)
    fix cache nodes table st
    assume "encode_body (serialize sample_tree) (ms_body_node_idx sample_spec) (ms_axis_var_ids sample_spec)
      (arg_buffer_offset_resolver sample_off) sample_place None sample_env cache = Inr (Some (nodes, table), st)"
    then have "nodes = sample_body_nodes" "table = [-1, 1]"
      using sample_encoded [of cache] by (auto simp: sample_spec_def)
    then show "list_all node_fits nodes \<and> list_all fits32 table" using sample_body_fits by simp
  qed
  moreover have "task_stack sample_task sample_spec = serialize sample_tree" by (simp add: sample_task_def sample_spec_def)
  ultimately show ?thesis
    using sample_chain_unique sample_chain_runs serialize_well_formed [OF sample_fits]
    unfolding task_ok_defs sample_specs chain_runs_def
    by (auto simp: sample_task_def) (simp add: sample_specs [unfolded sample_task_def, simplified])
qed

lemma sample_stacks: "stacks_of {sample_task} = {(9, 0, serialize sample_tree)}"
  by (auto simp: stacks_of_def sample_task_def)

lemma sample_keyed: "keyed (stacks_of {sample_task})"
proof -
  have "length (serialize sample_tree) = 8" by code_simp
  then show ?thesis by (simp add: sample_stacks keyed_def)
qed

text \<open>A launch that returns what some run of the kernel leaves in the slot.\<close>

lemma reduces_exists: "\<exists>reduce. reduces reduce de"
proof (rule exI [of _ "\<lambda>axes eb. cw_slot (SOME w. \<exists>num. kernel_run (bytes_mem (eb_bytes eb)) de 0 (eb_body_node_count eb) axes num w)"])
  show "reduces (\<lambda>axes eb. cw_slot (SOME w. \<exists>num. kernel_run (bytes_mem (eb_bytes eb)) de 0 (eb_body_node_count eb) axes num w)) de"
    unfolding reduces_def
  proof (intro allI impI)
    fix axes eb
    let ?run = "kernel_run (bytes_mem (eb_bytes eb)) de 0 (eb_body_node_count eb) axes"
    assume "\<exists>num w. ?run num w"
    then have "\<exists>num. ?run num (SOME w. \<exists>num. ?run num w)" by (intro someI_ex [of "\<lambda>w. \<exists>num. ?run num w"]) blast
    then show "\<exists>num w. ?run num w \<and> cw_slot (SOME w. \<exists>num. ?run num w) = cw_slot w" by blast
  qed
qed

lemma sample_dispatch_ok:
  "reduces reduce sample_dispatch_dev \<Longrightarrow>
   dispatch_ok reduce sample_place sample_env sample_dispatch_dev sample_off (stacks_of {sample_task})"
  using sample_keyed
  by (simp add: dispatch_ok_def sample_dispatch_dev_def sample_env_def sample_ctx_def sample_off_def [abs_def])

lemma sample_cache_right: "entries_right e U empty_cache" "try_max_reducer_launch_cache_hit key ctx empty_cache = None"
  by (auto simp: entries_right_def try_max_reducer_launch_cache_hit_def empty_cache_def)

text \<open>The spec is prepared whatever results and reads there are.\<close>

lemma sample_nodes:
  "node_at (serialize sample_tree) 0 = default_node"
  "node_at (serialize sample_tree) 1 = default_node\<lparr>sn_kind := 8, sn_arg_id_path := [0], sn_arg_shape_axis := 0\<rparr>"
  "in_range (serialize sample_tree) 0" "in_range (serialize sample_tree) 1"
  by code_simp+

lemma sample_not_refused: "\<not> refused sample_place sample_env sample_off (pending_of sample_task sample_spec)"
  unfolding refused_def
proof clarify
  fix results rc rc'
  let ?ns = "substitute_precomputed_max_over_range (serialize sample_tree) 9 0 results"
  have shape: "shape_at sample_mem sample_ctx [0] 0 = Inr 3" by code_simp
  have fuel: "eval_fuel ?ns = Suc (length (serialize sample_tree))" by (simp add: eval_fuel_def)
  have nodes: "node_at ?ns 0 = default_node"
      "node_at ?ns 1 = default_node\<lparr>sn_kind := 8, sn_arg_id_path := [0], sn_arg_shape_axis := 0\<rparr>"
    using sample_nodes by (simp_all add: node_at_substitute substitute_node_def default_node_def)
  have lo: "\<exists>c. evaluate_adstack_size_expr_at_node ?ns 0 sample_env outer = Inr (0, c)" for outer
    using nodes sample_nodes fuel
    by (simp add: evaluate_adstack_size_expr_at_node_def evaluate_root_def default_node_def)
  have hi: "\<exists>c. evaluate_adstack_size_expr_at_node ?ns 1 sample_env outer = Inr (3, c)" for outer
    using nodes sample_nodes fuel shape
    by (simp add: evaluate_adstack_size_expr_at_node_def evaluate_root_def default_node_def
        evaluate_external_tensor_shape_def sample_env_def)
  obtain c1 c2 where "evaluate_adstack_size_expr_at_node ?ns 0 sample_env rc = Inr (0, c1)"
      "evaluate_adstack_size_expr_at_node ?ns 1 sample_env c1 = Inr (3, c2)" using lo hi by metis
  then have "prepare_axes ?ns sample_env [(0, 1)] 1 rc = Inr (Some [(0, 3)], c2)" by (simp add: u64_def)
  moreover obtain st where "encode_body ?ns 4 [5] (arg_buffer_offset_resolver sample_off) sample_place None sample_env c2 =
      Inr (Some (sample_body_nodes, [-1, 1]), st)"
    using sample_encoded [of c2] unfolding encode_substituted [OF sample_body_spans sample_body_grammar(1)] by blast
  moreover have "length sample_body_nodes = 3" by (simp add: sample_body_nodes_def)
  moreover assume "prepare_spec sample_place sample_env sample_off results (pending_of sample_task sample_spec) rc = Inr (None, rc')"
  ultimately show False
    by (simp add: prepare_spec_def sample_spec_def sample_task_def max_reducer_max_axes_def
        encode_max_reducer_body_bytecode_def del: prepare_axes.simps)
qed

lemma sample_launch_ctx: "en_ctx sample_env = Some sample_ctx" "lc_args_type sample_ctx = Some sample_off"
  by (simp_all add: sample_env_def sample_ctx_def sample_off_def [abs_def])

section \<open>A range bounded by another array\<close>

text \<open>
  \<open>max_{i < shape(b)} a[i]\<close>: the first launch binds an array of one element as \<open>b\<close>, the second one of
  three. The array \<open>a\<close> does not change.
\<close>

definition bound_tree :: size_expr where
  "bound_tree = MaxOverRange 5 (Const 0) (ExternalTensorShape [1] 0) (ExternalTensorRead [0] [-6] 5)"

definition bound_off :: "int list \<Rightarrow> int" where
  "bound_off path = (if path = [0, data_ptr_pos] then 8 else if path = [1, shape_pos, 0] then 16 else 0)"

definition bound_ctx :: launch_ctx where
  "bound_ctx = sample_ctx\<lparr>lc_arg_buffer_size := 24, lc_args_type := Some bound_off\<rparr>"

definition bound_env :: "8 word \<Rightarrow> env" where
  "bound_env n = \<lparr>en_prog = Some sample_prog, en_ctx = Some bound_ctx, en_mem = sample_mem(2016 := n)\<rparr>"

definition bound_task :: dispatch_task where
  "bound_task = \<lparr>dt_registry_id = 9, dt_size_exprs = [serialize bound_tree],
     dt_specs = recognize_adstack_max_reducer_specs [serialize bound_tree]\<rparr>"

definition bound_spec :: max_reducer_spec where
  "bound_spec = \<lparr>ms_stack_id = 0, ms_mor_node_idx = 3, ms_body_node_idx = 2, ms_axis_var_ids = [5],
     ms_axis_begin_node_idxs = [0], ms_axis_end_node_idxs = [1], ms_dependent_mor_node_idxs = []\<rparr>"

lemma bound_specs: "dt_specs bound_task = [bound_spec]"
  by code_simp

lemma bound_values:
  "size_value (bound_env 1) bound_tree Map.empty = Inr 3" "size_value (bound_env 3) bound_tree Map.empty = Inr 4"
  by code_simp+

definition bound_node :: dev_node where
  "bound_node = (make_empty_device_node kExternalTensorRead)\<lparr>dn_prim_dt := 5, dn_arg_buffer_offset := 8, dn_indices_count := 1\<rparr>"

definition bound_body :: encoded_body where
  "bound_body = \<lparr>eb_bytes = pack_node bound_node @ bytes_i32 (-1) @ bytes_i32 1, eb_body_node_count = 1, eb_indices_count = 2,
     eb_body_reads = [body_leaf_obs ExternalReadObs (-1) [0] 5]\<rparr>"

lemma bound_prepared:
  "prepare_spec sample_place (bound_env 1) bound_off [] (pending_of bound_task bound_spec) None =
     Inr (Some ([(1, 0, 0)], bound_body), None)"
proof -
  have r: "represents (serialize bound_tree) 0 (Const 0)" "represents (serialize bound_tree) 1 (ExternalTensorShape [1] 0)"
      "size_value (bound_env 1) (ExternalTensorShape [1] 0) Map.empty = Inr 1" by code_simp+
  have "evaluate_adstack_size_expr_at_node (serialize bound_tree) 0 (bound_env 1) None = Inr (0, None)"
    "evaluate_adstack_size_expr_at_node (serialize bound_tree) 1 (bound_env 1) None = Inr (1, None)"
    by (rule at_node_meaning [OF r(1)], simp) (rule at_node_meaning [OF r(2,3)])
  then have axes: "prepare_axes (serialize bound_tree) (bound_env 1) [(0, 1)] 1 None = Inr (Some [(0, 1)], None)"
    by (simp add: u64_def)
  have v: "visit (eval_fuel (serialize bound_tree)) (serialize bound_tree) 2 [] = Inr [2]"
    and node: "node_at (serialize bound_tree) 2 =
      default_node\<lparr>sn_kind := 9, sn_const_value := 5, sn_indices := [-6], sn_arg_id_path := [0]\<rparr>"
    and r: "in_range (serialize bound_tree) 2" "arg_buffer_offset_resolver bound_off [0] = 8"
      "map_of (chain_remap [5]) 5 = Some 0" "wrap32 5 = 5"
    by code_simp+
  have "encode_max_reducer_body_bytecode (serialize bound_tree) 2 [5] (arg_buffer_offset_resolver bound_off) sample_place None
      (bound_env 1) None = Inr (bound_body, None)"
    unfolding encode_max_reducer_body_bytecode_def encode_body_def Let_def v bindE_simps using r
    by (simp add: node encode_body_node_def body_external_read_def default_node_def chain_index_def body_strides_def
        bound_node_def bound_body_def bound_env_def make_empty_device_node_def Let_def)
  then show ?thesis
    using axes by (simp add: prepare_spec_def bound_spec_def bound_task_def max_reducer_max_axes_def
        substitute_precomputed_max_over_range_def axis_params_def bound_body_def)
qed

text \<open>The cache after the first launch: one entry, whose only observation is the array.\<close>

definition bound_obs :: read_obs where
  "bound_obs = (body_leaf_obs ExternalReadObs (-1) [0] 5)\<lparr>ob_observed_devalloc := 1000\<rparr>"

lemma bound_populated:
  "populate_max_reducer_body_observations (eb_body_reads bound_body) (bound_env n) (Some empty_cache) = [bound_obs]"
  by (simp add: populate_max_reducer_body_observations_def populate_max_reducer_body_observation_def bound_body_def bound_obs_def
      body_leaf_obs_def bound_env_def bound_ctx_def sample_ctx_def data_ptr_of_def ndarray_data_gen_def empty_cache_def)

definition bound_cache :: "int \<Rightarrow> int \<Rightarrow> adstack_cache" where
  "bound_cache key v = record_max_reducer_launch_cache key [(9, [(0, 3)])] [(pack_max_reducer_key 9 0 3, v)] (Some bound_ctx)
     (record_max_reducer_eval (9, 0, 3) v [bound_obs] empty_cache)"

lemma bound_first_launch:
  "dispatch_max_reducers_impl reduce sample_place key [bound_task] (bound_env 1) (Some empty_cache) None =
     Inr \<lparr>ds_results = [(pack_max_reducer_key 9 0 3, dispatched_value (reduce [(1, 0, 0)] bound_body))],
       ds_adstack_cache = Some (bound_cache key (dispatched_value (reduce [(1, 0, 0)] bound_body))), ds_read_cache = None\<rparr>"
proof -
  let ?p = "pending_of bound_task bound_spec"
  let ?st = "\<lparr>ds_results = [], ds_adstack_cache = Some empty_cache, ds_read_cache = None\<rparr>"
  let ?v = "dispatched_value (reduce [(1, 0, 0)] bound_body)"
  have miss: "try_max_reducer_launch_cache_hit key (Some bound_ctx) empty_cache = None"
      "try_max_reducer_cache_hit (bound_env 1) (9, 0, 3) empty_cache = Inr (None, empty_cache)"
    by (simp_all add: try_max_reducer_launch_cache_hit_def try_max_reducer_cache_hit_def empty_cache_def)
  have look: "foldE (lookup_task (bound_env 1)) [bound_task] ([], ?st) = Inr ([?p], ?st)"
    using miss(2) by (simp add: lookup_task_def bound_specs lookup_spec_def) (simp add: bound_task_def bound_spec_def)
  have "deps_ok [] ?p" by (simp add: deps_ok_def bound_spec_def)
  then have rounds: "dispatch_rounds reduce sample_place (bound_env 1) bound_off [?p] ?st = Inr (finish_spec reduce (bound_env 1) (?p, [(1, 0, 0)], bound_body) ?st)"
    using bound_prepared by (subst dispatch_rounds.simps) (simp, subst dispatch_rounds.simps, simp)
  have fin: "finish_spec reduce (bound_env 1) (?p, [(1, 0, 0)], bound_body) ?st = \<lparr>ds_results = [(pack_max_reducer_key 9 0 3, ?v)],
      ds_adstack_cache = Some (record_max_reducer_eval (9, 0, 3) ?v [bound_obs] empty_cache), ds_read_cache = None\<rparr>"
    by (simp add: finish_spec_def bound_populated Let_def) (simp add: pending_key_def bound_task_def bound_spec_def)
  have ctx: "en_ctx (bound_env 1) = Some bound_ctx" "lc_args_type bound_ctx = Some bound_off"
    by (simp_all add: bound_env_def bound_ctx_def)
  have ids: "(dt_registry_id bound_task, map (\<lambda>s. (ms_stack_id s, ms_mor_node_idx s)) (dt_specs bound_task)) = (9, [(0, 3)])"
    by (simp add: bound_specs) (simp add: bound_spec_def bound_task_def)
  show ?thesis
    unfolding dispatch_max_reducers_impl_def Let_def ctx option.case look rounds fin bindE_simps
    using miss(1) look rounds fin ids by (simp add: bound_cache_def)
qed


text \<open>The second launch finds the first one's result, through the launch cache or the per-spec cache.\<close>

lemma bound_second_launch:
  "\<exists>st. dispatch_max_reducers_impl reduce sample_place key [bound_task] (bound_env 3) (Some (bound_cache key v)) None = Inr st \<and>
     ds_results st = [(pack_max_reducer_key 9 0 3, v)]"
proof -
  let ?ac = "record_max_reducer_eval (9, 0, 3) v [bound_obs] empty_cache"
  have ctx: "en_ctx (bound_env 3) = Some bound_ctx" "lc_args_type bound_ctx = Some bound_off"
    by (simp_all add: bound_env_def bound_ctx_def)
  have ptr: "data_ptr_of bound_ctx 0 = Some 1000" by (simp add: data_ptr_of_def bound_ctx_def sample_ctx_def)
  show ?thesis
  proof (cases "key = 0")
    case True
    have hit: "try_max_reducer_cache_hit (bound_env 3) (9, 0, 3) ?ac = Inr (Some v, ?ac)"
      by (rule max_reducer_cache.try_record)
        (simp add: replay_observation_is_fresh_def bound_obs_def body_leaf_obs_def with_gens_def bound_env_def ptr
          ndarray_data_gen_def empty_cache_def)
    have ac: "bound_cache key v = ?ac" using True by (simp add: bound_cache_def record_max_reducer_launch_cache_def)
    have look: "foldE (lookup_task (bound_env 3)) [bound_task] ([], \<lparr>ds_results = [], ds_adstack_cache = Some ?ac, ds_read_cache = None\<rparr>) =
        Inr ([], \<lparr>ds_results = [(pack_max_reducer_key 9 0 3, v)], ds_adstack_cache = Some ?ac, ds_read_cache = None\<rparr>)"
      using hit by (simp add: lookup_task_def bound_specs lookup_spec_def)
        (simp add: bound_task_def bound_spec_def pending_key_def)
    have "try_max_reducer_launch_cache_hit key (Some bound_ctx) ?ac = None"
      using True by (simp add: try_max_reducer_launch_cache_hit_def)
    then show ?thesis
      unfolding ac dispatch_max_reducers_impl_def Let_def ctx option.case
      using look by (simp add: dispatch_rounds.simps)
  next
    case False
    have obs: "lookup_max_reducer_reads 9 0 3 ?ac = Some [bound_obs]"
      by (simp add: lookup_max_reducer_reads_def record_max_reducer_eval_def Let_def)
    have deps: "launch_deps_obs ?ac bound_ctx bound_obs ([], []) = ([], [(0, 1000, ndarray_data_gen ?ac 1000)])"
      by (simp add: launch_deps_obs_def bound_obs_def body_leaf_obs_def current_devalloc_def ptr dep_put_def Let_def)
    have "try_max_reducer_launch_cache_hit key (Some bound_ctx) (bound_cache key v) = Some [(pack_max_reducer_key 9 0 3, v)]"
      using False obs deps
      by (simp add: try_max_reducer_launch_cache_hit_def bound_cache_def record_max_reducer_launch_cache_def
          launch_deps_task_def launch_deps_spec_def deps_fresh_def arg_dep_fresh_def current_devalloc_def ptr Let_def
          note_per_task_dependencies_def ndarray_data_gen_def)
    then show ?thesis unfolding dispatch_max_reducers_impl_def Let_def ctx option.case by simp
  qed
qed

end
