(* ===== verification/MemBlocks.thy ===== *)
theory MemBlocks
  imports Prelude "HOL-Library.Multiset"
begin

text \<open>
  Blocks of an address space and the contract the memory allocators of the runtime share: a block
  handed out does not overlap any block that is still live. The contract is a locale over an
  allocator's invariant and its two transitions; \<open>alloc_run\<close> collects the states and live blocks
  that any sequence of them reaches.
\<close>

section \<open>Blocks\<close>

text \<open>First byte and size.\<close>

type_synonym block = "nat \<times> nat"

definition apart :: "block \<Rightarrow> block \<Rightarrow> bool" where
  "apart b c \<longleftrightarrow> fst b + snd b \<le> fst c \<or> fst c + snd c \<le> fst b"

definition inside :: "block \<Rightarrow> block \<Rightarrow> bool" where
  "inside b c \<longleftrightarrow> fst c \<le> fst b \<and> fst b + snd b \<le> fst c + snd c"

fun all_apart :: "block list \<Rightarrow> bool" where
  "all_apart [] \<longleftrightarrow> True"
| "all_apart (b # bs) \<longleftrightarrow> list_all (apart b) bs \<and> all_apart bs"

lemma apart_sym: "apart b c \<longleftrightarrow> apart c b"
  by (auto simp: apart_def)

lemma apart_inside: "apart b c \<Longrightarrow> inside b' b \<Longrightarrow> inside c' c \<Longrightarrow> apart b' c'"
  by (auto simp: apart_def inside_def)

lemma inside_refl [simp]: "inside b b"
  by (simp add: inside_def)

lemma apart_same_start: "apart b c \<Longrightarrow> fst b = fst c \<Longrightarrow> 0 < snd b \<Longrightarrow> 0 < snd c \<Longrightarrow> False"
  by (simp add: apart_def)

lemma all_apart_remove1 [simp]: "all_apart bs \<Longrightarrow> all_apart (remove1 b bs)"
proof (induction bs)
  case (Cons c bs)
  have "set (remove1 b bs) \<subseteq> set bs"
    by (rule set_remove1_subset)
  with Cons show ?case
    by (auto simp: list_all_iff)
qed simp

lemma all_apart_mset:
  assumes "all_apart bs" "mset cs = mset bs"
  shows "all_apart cs"
  using assms
proof (induction bs arbitrary: cs)
  case (Cons b bs)
  then obtain xs ys where cs: "cs = xs @ b # ys"
    by (metis list.set_intros(1) set_mset_mset split_list)
  have "all_apart (xs @ ys)" "set (xs @ ys) = set bs"
    using Cons.IH [of "xs @ ys"] Cons.prems cs mset_eq_setD [of "xs @ ys" bs] by simp_all
  moreover have "all_apart (xs @ b # ys)" if "all_apart (xs @ ys)" "\<forall>c \<in> set (xs @ ys). apart b c"
    using that by (induction xs) (auto simp: list_all_iff apart_sym)
  ultimately show ?case
    using Cons.prems(1) cs by (auto simp: list_all_iff)
qed simp

lemma all_apart_remove1_D: "all_apart bs \<Longrightarrow> b \<in> set bs \<Longrightarrow> c \<in> set (remove1 b bs) \<Longrightarrow> apart b c"
proof -
  assume a: "all_apart bs" "b \<in> set bs" "c \<in> set (remove1 b bs)"
  have "all_apart (b # remove1 b bs)"
    using a by (intro all_apart_mset [OF a(1)]) simp
  then show "apart b c"
    using a(3) by (simp add: list_all_iff)
qed

lemma all_apart_snoc: "all_apart bs \<Longrightarrow> (\<And>b. b \<in> set bs \<Longrightarrow> apart b x) \<Longrightarrow> all_apart (bs @ [x])"
  by (induction bs) (auto simp: list_all_iff)

lemma all_apart_nth:
  assumes "all_apart bs" "i < length bs" "j < length bs" "i \<noteq> j"
  shows "apart (bs ! i) (bs ! j)"
  using assms
proof (induction bs arbitrary: i j)
  case (Cons b bs)
  show ?case
    using Cons.prems Cons.IH [of "i - 1" "j - 1"]
    by (cases i; cases j) (auto simp: list_all_iff apart_sym)
qed simp

section \<open>The contract of an allocator\<close>

inductive alloc_run ::
  "('s \<Rightarrow> block \<Rightarrow> 's \<Rightarrow> bool) \<Rightarrow> ('s \<Rightarrow> block \<Rightarrow> 's \<Rightarrow> bool) \<Rightarrow> 's \<Rightarrow> 's \<Rightarrow> block list \<Rightarrow> bool"
  for gives takes s0 where
  run_start: "alloc_run gives takes s0 s0 []"
| run_give: "alloc_run gives takes s0 s live \<Longrightarrow> gives s b s' \<Longrightarrow> alloc_run gives takes s0 s' (b # live)"
| run_take: "alloc_run gives takes s0 s live \<Longrightarrow> b \<in> set live \<Longrightarrow> takes s b s' \<Longrightarrow>
    alloc_run gives takes s0 s' (remove1 b live)"

locale block_allocator =
  fixes inv :: "'s \<Rightarrow> block list \<Rightarrow> bool"
    and gives :: "'s \<Rightarrow> block \<Rightarrow> 's \<Rightarrow> bool"
    and takes :: "'s \<Rightarrow> block \<Rightarrow> 's \<Rightarrow> bool"
  assumes gives_inv: "inv s live \<Longrightarrow> gives s b s' \<Longrightarrow> inv s' (b # live)"
    and gives_apart: "inv s live \<Longrightarrow> gives s b s' \<Longrightarrow> c \<in> set live \<Longrightarrow> apart b c"
    and takes_inv: "inv s live \<Longrightarrow> b \<in> set live \<Longrightarrow> takes s b s' \<Longrightarrow> inv s' (remove1 b live)"
begin

lemma run_inv:
  assumes "alloc_run gives takes s0 s live" "inv s0 []"
  shows "inv s live \<and> all_apart live"
  using assms
proof (induction rule: alloc_run.induct)
  case (run_give s live b s')
  then show ?case
    by (auto simp: list_all_iff intro: gives_inv gives_apart)
next
  case (run_take s live b s')
  then show ?case
    by (auto intro: takes_inv)
qed simp

end

end
