(* ===== verification/HostPool.thy ===== *)
theory HostPool
  imports MemBlocks
begin

text \<open>
  Host memory: the bump allocator \<^verbatim>\<open>UnifiedAllocator\<close> (\<^verbatim>\<open>rhi/common/unified_allocator.cpp\<close>), the pool
  that owns the mapped regions (\<^verbatim>\<open>rhi/common/host_memory_pool.cpp\<close>) and the CPU device built on it
  (\<^verbatim>\<open>rhi/cpu/cpu_device.cpp\<close>). Addresses are natural numbers with \<open>0\<close> for the null pointer. The
  operating system is an argument of each call: what \<^verbatim>\<open>mmap\<close> returned (\<open>None\<close> for \<^verbatim>\<open>MAP_FAILED\<close>) and
  whether \<^verbatim>\<open>munmap\<close> succeeds. The mutex makes every operation of the pool one step.
\<close>

section \<open>The bump allocator\<close>

record memory_chunk =
  mc_is_exclusive :: bool
  mc_data :: nat
  mc_head :: nat
  mc_tail :: nat

record host_pool =
  hp_allocator :: "memory_chunk list option"
  hp_raw_memory_chunks :: "block list"

definition page_size :: nat where
  "page_size = 4096"

definition default_allocator_size :: nat where
  "default_allocator_size = 2 ^ 30"

definition align_head :: "nat \<Rightarrow> nat \<Rightarrow> nat" where
  "align_head alignment head = (let h = u64 (head + alignment - 1) in h - h mod alignment)"

fun search_chunks :: "nat \<Rightarrow> nat \<Rightarrow> memory_chunk list \<Rightarrow> (nat \<times> memory_chunk list) option" where
  "search_chunks sz alignment [] = None"
| "search_chunks sz alignment (c # cs) =
     (let ret = align_head alignment (mc_head c); head = u64 (ret + sz)
      in if \<not> mc_is_exclusive c \<and> head \<le> mc_tail c then Some (ret, c\<lparr>mc_head := head\<rparr> # cs)
         else map_option (\<lambda>(r, cs'). (r, c # cs')) (search_chunks sz alignment cs))"

definition allocate_raw_memory :: "nat option \<Rightarrow> nat \<Rightarrow> block list \<Rightarrow> (nat \<times> block list) result" where
  "allocate_raw_memory mapped sz raw =
     (case mapped of
        None \<Rightarrow> Inl (MapFailed sz)
      | Some p \<Rightarrow>
          guardE (p mod page_size = 0) (NotPageAligned p)
            (guardE (p \<notin> set (map fst raw)) (AlreadyAllocated p) (Inr (p, (p, sz) # raw))))"

definition allocation_size :: "nat \<Rightarrow> bool \<Rightarrow> nat" where
  "allocation_size sz exclusive = (if exclusive then sz else max sz default_allocator_size)"

definition ua_allocate ::
  "nat option \<Rightarrow> nat \<Rightarrow> nat \<Rightarrow> bool \<Rightarrow> memory_chunk list \<Rightarrow> block list \<Rightarrow>
   (nat \<times> memory_chunk list \<times> block list) result" where
  "ua_allocate mapped sz alignment exclusive cs raw =
     (case (if exclusive then None else search_chunks sz alignment cs) of
        Some (ret, cs') \<Rightarrow> Inr (ret, cs', raw)
      | None \<Rightarrow>
          bindE (allocate_raw_memory mapped (allocation_size sz exclusive) raw) (\<lambda>(p, raw').
            guardE (p \<noteq> 0) AssertFailed
              (Inr (p, cs @ [\<lparr>mc_is_exclusive = exclusive, mc_data = p, mc_head = u64 (p + sz),
                              mc_tail = u64 (p + allocation_size sz exclusive)\<rparr>], raw'))))"

definition swap_erase :: "'a list \<Rightarrow> nat \<Rightarrow> 'a list" where
  "swap_erase xs i =
     (if i = length xs - 1 then butlast xs else butlast (xs[i := last xs, length xs - 1 := xs ! i]))"

text \<open>The scan of \<open>release\<close>: the last chunk that starts at the pointer, each of them exclusive.\<close>

fun release_index :: "nat \<Rightarrow> memory_chunk list \<Rightarrow> nat \<Rightarrow> nat option \<Rightarrow> nat option result" where
  "release_index ptr [] i found = Inr found"
| "release_index ptr (c # cs) i found =
     (if mc_data c = ptr then guardE (mc_is_exclusive c) AssertFailed (release_index ptr cs (Suc i) (Some i))
      else release_index ptr cs (Suc i) found)"

definition ua_release :: "nat \<Rightarrow> memory_chunk list \<Rightarrow> (bool \<times> memory_chunk list) result" where
  "ua_release ptr cs =
     bindE (release_index ptr cs 0 None) (\<lambda>found.
       Inr (case found of Some i \<Rightarrow> (True, swap_erase cs i) | None \<Rightarrow> (False, cs)))"

section \<open>The pool\<close>

definition new_pool :: host_pool where
  "new_pool = \<lparr>hp_allocator = Some [], hp_raw_memory_chunks = []\<rparr>"

definition hp_allocate :: "nat option \<Rightarrow> nat \<Rightarrow> nat \<Rightarrow> bool \<Rightarrow> host_pool \<Rightarrow> (nat \<times> host_pool) result" where
  "hp_allocate mapped sz alignment exclusive P =
     (case hp_allocator P of
        None \<Rightarrow> Inl PoolDestroyed
      | Some cs \<Rightarrow>
          bindE (ua_allocate mapped sz alignment exclusive cs (hp_raw_memory_chunks P)) (\<lambda>(ret, cs', raw).
            Inr (ret, \<lparr>hp_allocator = Some cs', hp_raw_memory_chunks = raw\<rparr>)))"

definition deallocate_raw_memory :: "(block \<Rightarrow> bool) \<Rightarrow> nat \<Rightarrow> block list \<Rightarrow> block list result" where
  "deallocate_raw_memory unmaps ptr raw =
     (case map_of raw ptr of
        None \<Rightarrow> Inl (NotAllocated ptr)
      | Some sz \<Rightarrow>
          guardE (unmaps (ptr, sz)) (UnmapFailed sz) (Inr (filter (\<lambda>b. fst b \<noteq> ptr) raw)))"

definition hp_release :: "(block \<Rightarrow> bool) \<Rightarrow> nat \<Rightarrow> host_pool \<Rightarrow> host_pool result" where
  "hp_release unmaps ptr P =
     (case hp_allocator P of
        None \<Rightarrow> Inl PoolDestroyed
      | Some cs \<Rightarrow>
          bindE (ua_release ptr cs) (\<lambda>(released, cs').
            if released
            then bindE (deallocate_raw_memory unmaps ptr (hp_raw_memory_chunks P)) (\<lambda>raw.
                   Inr \<lparr>hp_allocator = Some cs', hp_raw_memory_chunks = raw\<rparr>)
            else Inr (P\<lparr>hp_allocator := Some cs'\<rparr>)))"

fun deallocate_all :: "(block \<Rightarrow> bool) \<Rightarrow> nat list \<Rightarrow> block list \<Rightarrow> block list result" where
  "deallocate_all unmaps [] raw = Inr raw"
| "deallocate_all unmaps (p # ps) raw =
     bindE (deallocate_raw_memory unmaps p raw) (deallocate_all unmaps ps)"

definition hp_reset :: "(block \<Rightarrow> bool) \<Rightarrow> host_pool \<Rightarrow> host_pool result" where
  "hp_reset unmaps P =
     bindE (deallocate_all unmaps (sort (map fst (hp_raw_memory_chunks P))) (hp_raw_memory_chunks P))
       (\<lambda>raw. Inr \<lparr>hp_allocator = Some [], hp_raw_memory_chunks = raw\<rparr>)"

section \<open>Invariant\<close>

text \<open>
  What \<^verbatim>\<open>mmap\<close> promises of a region it returns: not null, page aligned, not empty, in the lower half
  of the address space and apart from the regions still mapped.
\<close>

definition mapping_ok :: "nat option \<Rightarrow> nat \<Rightarrow> block list \<Rightarrow> bool" where
  "mapping_ok mapped n raw =
     (case mapped of
        None \<Rightarrow> True
      | Some p \<Rightarrow> p \<noteq> 0 \<and> p mod page_size = 0 \<and> 0 < n \<and> p + n \<le> 2 ^ 63 \<and> list_all (apart (p, n)) raw)"

definition chunk_block :: "memory_chunk \<Rightarrow> block" where
  "chunk_block c = (mc_data c, mc_tail c - mc_data c)"

definition chunk_ok :: "memory_chunk \<Rightarrow> bool" where
  "chunk_ok c \<longleftrightarrow> mc_data c \<le> mc_head c \<and> mc_head c \<le> mc_tail c"

text \<open>A live block lies below the head of a chunk and, in an exclusive chunk, is its first one.\<close>

definition owned_by :: "block \<Rightarrow> memory_chunk \<Rightarrow> bool" where
  "owned_by b c \<longleftrightarrow> mc_data c \<le> fst b \<and> fst b + snd b \<le> mc_head c \<and> (mc_is_exclusive c \<longrightarrow> fst b = mc_data c)"

definition raw_ok :: "block list \<Rightarrow> bool" where
  "raw_ok raw \<longleftrightarrow> all_apart raw \<and> list_all (\<lambda>b. 0 < fst b \<and> 0 < snd b \<and> fst b + snd b \<le> 2 ^ 63) raw"

definition pool_inv :: "host_pool \<Rightarrow> block list \<Rightarrow> bool" where
  "pool_inv P live \<longleftrightarrow>
     raw_ok (hp_raw_memory_chunks P) \<and>
     (\<exists>cs. hp_allocator P = Some cs \<and> list_all chunk_ok cs \<and>
       mset (map chunk_block cs) = mset (hp_raw_memory_chunks P) \<and>
       list_all (\<lambda>b. 0 < snd b \<and> list_ex (owned_by b) cs) live) \<and>
     all_apart live"

text \<open>A transition of the pool: one call, with what the operating system answered.\<close>

definition pool_gives :: "host_pool \<Rightarrow> block \<Rightarrow> host_pool \<Rightarrow> bool" where
  "pool_gives P b P' \<longleftrightarrow>
     (\<exists>mapped alignment exclusive.
        mapping_ok mapped (allocation_size (snd b) exclusive) (hp_raw_memory_chunks P) \<and>
        0 < alignment \<and> alignment \<le> page_size \<and> 0 < snd b \<and> snd b < 2 ^ 62 \<and>
        hp_allocate mapped (snd b) alignment exclusive P = Inr (fst b, P'))"

definition pool_takes :: "host_pool \<Rightarrow> block \<Rightarrow> host_pool \<Rightarrow> bool" where
  "pool_takes P b P' \<longleftrightarrow> (\<exists>unmaps. hp_release unmaps (fst b) P = Inr P')"

lemma align_head_props:
  assumes "0 < alignment" "alignment \<le> page_size" "head \<le> 2 ^ 63"
  shows "head \<le> align_head alignment head" "align_head alignment head < head + alignment"
    "alignment dvd align_head alignment head"
proof -
  define h where "h = head + alignment - 1"
  have small: "h < 2 ^ 64" and h: "head + alignment = Suc h"
    using assms by (simp_all add: h_def page_size_def)
  have al: "align_head alignment head = h - h mod alignment"
    using small unfolding align_head_def Let_def h_def [symmetric] by (simp add: u64_def)
  have m: "h mod alignment < alignment" "h mod alignment \<le> h"
    using assms by simp_all
  show "head \<le> align_head alignment head" "align_head alignment head < head + alignment"
    using m h unfolding al by linarith+
  show "alignment dvd align_head alignment head"
    unfolding al by (simp add: minus_mod_eq_div_mult)
qed

lemma raw_distinct: "raw_ok raw \<Longrightarrow> distinct raw \<and> distinct (map fst raw)"
proof (induction raw)
  case (Cons b raw)
  then have "raw_ok raw"
    by (simp add: raw_ok_def)
  moreover have "fst b \<notin> set (map fst raw)"
    using Cons.prems by (auto simp: raw_ok_def list_all_iff dest!: apart_same_start)
  ultimately show ?case
    using Cons.IH by auto
qed simp

lemma search_chunks_Some:
  assumes "search_chunks sz alignment cs = Some (ret, cs')"
  shows "\<exists>xs c ys. cs = xs @ c # ys \<and> \<not> mc_is_exclusive c \<and> ret = align_head alignment (mc_head c) \<and>
    u64 (ret + sz) \<le> mc_tail c \<and> cs' = xs @ c\<lparr>mc_head := u64 (ret + sz)\<rparr> # ys"
  using assms
proof (induction cs arbitrary: cs')
  case (Cons d cs)
  let ?r = "align_head alignment (mc_head d)"
  show ?case
  proof (cases "\<not> mc_is_exclusive d \<and> u64 (?r + sz) \<le> mc_tail d")
    case True
    then show ?thesis
      using Cons.prems by (intro exI [of _ "[]"]) (auto simp: Let_def)
  next
    case False
    then obtain ds where ds: "search_chunks sz alignment cs = Some (ret, ds)" "cs' = d # ds"
      using Cons.prems by (auto simp: Let_def)
    then obtain xs c ys where "cs = xs @ c # ys" "\<not> mc_is_exclusive c" "ret = align_head alignment (mc_head c)"
      "u64 (ret + sz) \<le> mc_tail c" "ds = xs @ c\<lparr>mc_head := u64 (ret + sz)\<rparr> # ys"
      using Cons.IH by blast
    then show ?thesis
      using ds by (intro exI [of _ "d # xs"]) auto
  qed
qed simp

text \<open>Chunks of the pool are mapped regions, so two of them never share an address.\<close>

lemma chunks_all_apart:
  assumes "raw_ok raw" "mset (map chunk_block cs) = mset raw"
  shows "all_apart (map chunk_block cs)"
  using assms all_apart_mset by (auto simp: raw_ok_def)

lemma chunk_in_raw:
  assumes "mset (map chunk_block cs) = mset raw" "c \<in> set cs"
  shows "chunk_block c \<in> set raw"
  using assms by (metis image_eqI list.set_map mset_eq_setD)

lemma chunk_region:
  assumes "raw_ok raw" "mset (map chunk_block cs) = mset raw" "c \<in> set cs"
  shows "0 < mc_data c" "mc_data c < mc_tail c" "mc_tail c \<le> 2 ^ 63"
proof -
  have "chunk_block c \<in> set raw"
    using assms(2,3) by (rule chunk_in_raw)
  then have "0 < fst (chunk_block c) \<and> 0 < snd (chunk_block c) \<and> fst (chunk_block c) + snd (chunk_block c) \<le> 2 ^ 63"
    using assms(1) by (auto simp: raw_ok_def list_all_iff)
  then show "0 < mc_data c" "mc_data c < mc_tail c" "mc_tail c \<le> 2 ^ 63"
    by (auto simp: chunk_block_def)
qed

lemma owned_inside: "owned_by b c \<Longrightarrow> chunk_ok c \<Longrightarrow> inside b (chunk_block c)"
  by (auto simp: owned_by_def chunk_ok_def inside_def chunk_block_def)

section \<open>The pool keeps its blocks apart\<close>

lemma give_from_chunk:
  assumes raw: "raw_ok raw" "mset (map chunk_block cs) = mset raw" and ok: "list_all chunk_ok cs"
    and live: "list_all (\<lambda>b. 0 < snd b \<and> list_ex (owned_by b) cs) live"
    and search: "search_chunks sz alignment cs = Some (ret, cs')"
    and small: "0 < alignment" "alignment \<le> page_size" "sz < 2 ^ 62"
  shows "mset (map chunk_block cs') = mset raw \<and> list_all chunk_ok cs' \<and> list_ex (owned_by (ret, sz)) cs' \<and>
    list_all (\<lambda>b. 0 < snd b \<and> list_ex (owned_by b) cs') live \<and> list_all (apart (ret, sz)) live"
proof -
  obtain xs c ys where cs: "cs = xs @ c # ys" "\<not> mc_is_exclusive c" "ret = align_head alignment (mc_head c)"
    "u64 (ret + sz) \<le> mc_tail c" "cs' = xs @ c\<lparr>mc_head := u64 (ret + sz)\<rparr> # ys"
    using search_chunks_Some [OF search] by blast
  have c: "c \<in> set cs" "chunk_ok c"
    using cs(1) ok by (auto simp: list_all_iff)
  note region = chunk_region [OF raw c(1)]
  have head: "mc_head c \<le> 2 ^ 63" "mc_data c \<le> mc_head c"
    using region c(2) by (simp_all add: chunk_ok_def)
  note ret = align_head_props [OF small(1,2) head(1)]
  have eq: "u64 (ret + sz) = ret + sz"
    using ret(2) head small by (simp add: u64_def cs(3) page_size_def)
  have new: "owned_by (ret, sz) (c\<lparr>mc_head := ret + sz\<rparr>)" "inside (ret, sz) (chunk_block c)"
    using cs(2,4) ret(1) head(2) eq unfolding cs(3) [symmetric]
    by (auto simp: owned_by_def inside_def chunk_block_def)
  have "all_apart (map chunk_block (c # xs @ ys))"
    using chunks_all_apart [OF raw] by (rule all_apart_mset) (simp add: cs(1))
  then have other: "apart (chunk_block c) (chunk_block d)" if "d \<in> set (xs @ ys)" for d
    using that by (auto simp: list_all_iff)
  have apart: "apart (ret, sz) b" if b: "b \<in> set live" for b
  proof -
    obtain d where d: "d \<in> set cs" "owned_by b d"
      using live b by (auto simp: list_all_iff list_ex_iff)
    show ?thesis
    proof (cases "d = c")
      case True
      then show ?thesis
        using d(2) ret(1) unfolding cs(3) [symmetric] by (simp add: owned_by_def apart_def)
    next
      case False
      then have "d \<in> set (xs @ ys)" "chunk_ok d"
        using d(1) ok by (auto simp: cs(1) list_all_iff)
      then show ?thesis
        using other owned_inside [OF d(2)] apart_inside [OF _ new(2)] by blast
    qed
  qed
  have owned: "list_ex (owned_by b) cs'" if b: "b \<in> set live" for b
  proof -
    obtain d where d: "d \<in> set cs" "owned_by b d"
      using live b by (auto simp: list_all_iff list_ex_iff)
    have "owned_by b (c\<lparr>mc_head := ret + sz\<rparr>)" if "d = c"
      using d(2) that ret(1) unfolding cs(3) [symmetric] by (simp add: owned_by_def)
    then show ?thesis
      using d by (auto simp: cs(1,5) eq list_ex_iff)
  qed
  have "mset (map chunk_block cs') = mset raw" "list_all chunk_ok cs'"
    using raw(2) ok cs(4) head(2) ret(1) unfolding cs(3) [symmetric]
    by (auto simp: cs(1,5) eq chunk_block_def chunk_ok_def list_all_iff)
  then show ?thesis
    using new(1) apart owned live by (auto simp: cs(5) eq list_all_iff)
qed

lemma give_new_chunk:
  assumes raw: "raw_ok raw" "mset (map chunk_block cs) = mset raw" and ok: "list_all chunk_ok cs"
    and live: "list_all (\<lambda>b. 0 < snd b \<and> list_ex (owned_by b) cs) live"
    and fresh: "mapping_ok (Some p) n raw" and n: "sz \<le> n"
    and c: "c = \<lparr>mc_is_exclusive = exclusive, mc_data = p, mc_head = u64 (p + sz), mc_tail = u64 (p + n)\<rparr>"
  shows "raw_ok ((p, n) # raw) \<and> mset (map chunk_block (cs @ [c])) = mset ((p, n) # raw) \<and>
    list_all chunk_ok (cs @ [c]) \<and> owned_by (p, sz) c \<and> list_all (apart (p, sz)) live"
proof -
  have small: "p + n \<le> 2 ^ 63" "0 < p" "0 < n" "list_all (apart (p, n)) raw"
    using fresh by (simp_all add: mapping_ok_def)
  have eq: "u64 (p + sz) = p + sz" "u64 (p + n) = p + n"
    using small n by (simp_all add: u64_def)
  have "apart (p, sz) b" if b: "b \<in> set live" for b
  proof -
    obtain d where d: "d \<in> set cs" "owned_by b d"
      using live b by (auto simp: list_all_iff list_ex_iff)
    then have "chunk_block d \<in> set raw" "inside b (chunk_block d)"
      using raw(2) ok owned_inside chunk_in_raw by (auto simp: list_all_iff)
    moreover have "inside (p, sz) (p, n)"
      using n by (simp add: inside_def)
    ultimately show ?thesis
      using small(4) apart_inside unfolding list_all_iff by blast
  qed
  then show ?thesis
    using raw ok small n by (auto simp: c eq raw_ok_def chunk_ok_def chunk_block_def owned_by_def list_all_iff)
qed

lemma pool_gives_step:
  assumes "pool_inv P live" "pool_gives P b P'"
  shows "pool_inv P' (b # live) \<and> list_all (apart b) live"
proof -
  obtain cs where inv: "raw_ok (hp_raw_memory_chunks P)" "hp_allocator P = Some cs" "list_all chunk_ok cs"
    "mset (map chunk_block cs) = mset (hp_raw_memory_chunks P)"
    "list_all (\<lambda>b. 0 < snd b \<and> list_ex (owned_by b) cs) live" "all_apart live"
    using assms(1) by (auto simp: pool_inv_def)
  obtain mapped alignment exclusive where g:
    "mapping_ok mapped (allocation_size (snd b) exclusive) (hp_raw_memory_chunks P)"
    "0 < alignment" "alignment \<le> page_size" "0 < snd b" "snd b < 2 ^ 62"
    "hp_allocate mapped (snd b) alignment exclusive P = Inr (fst b, P')"
    using assms(2) by (auto simp: pool_gives_def)
  show ?thesis
  proof (cases "if exclusive then None else search_chunks (snd b) alignment cs")
    case (Some r)
    then have "search_chunks (snd b) alignment cs = Some (fst b, snd r)"
      and P': "P' = \<lparr>hp_allocator = Some (snd r), hp_raw_memory_chunks = hp_raw_memory_chunks P\<rparr>"
      using g(6) inv(2) by (cases r; simp add: hp_allocate_def ua_allocate_def split: if_splits)+
    from give_from_chunk [OF inv(1,4,3,5) this(1) g(2,3,5)] show ?thesis
      using inv(1,6) g(4) by (auto simp: pool_inv_def P')
  next
    case None
    let ?n = "allocation_size (snd b) exclusive"
    let ?c = "\<lparr>mc_is_exclusive = exclusive, mc_data = fst b, mc_head = u64 (fst b + snd b), mc_tail = u64 (fst b + ?n)\<rparr>"
    have mp: "mapped = Some (fst b)"
      and P': "P' = \<lparr>hp_allocator = Some (cs @ [?c]), hp_raw_memory_chunks = (fst b, ?n) # hp_raw_memory_chunks P\<rparr>"
      using g(6) inv(2) None
      by (auto simp: hp_allocate_def ua_allocate_def allocate_raw_memory_def result_simps split: option.splits)
    have "snd b \<le> ?n"
      by (simp add: allocation_size_def)
    from give_new_chunk [OF inv(1,4,3,5) g(1) [unfolded mp] this refl] show ?thesis
      using inv(5,6) g(4) by (auto simp: pool_inv_def P' list_all_iff)
  qed
qed

lemma mset_swap_erase:
  assumes "i < length xs"
  shows "mset (swap_erase xs i) = mset xs - {#xs ! i#}"
proof -
  have drop_last: "mset (butlast ys) = mset ys - {#last ys#}" if "ys \<noteq> []" for ys :: "'a list"
    using that by (cases ys rule: rev_cases) simp_all
  show ?thesis
  proof (cases "i = length xs - 1")
    case True
    have "xs \<noteq> []"
      using assms by auto
    then show ?thesis
      using True by (simp add: swap_erase_def drop_last last_conv_nth)
  next
    case False
    let ?ys = "xs[i := xs ! (length xs - 1), length xs - 1 := xs ! i]"
    have ne: "xs \<noteq> []"
      using assms by auto
    have "?ys \<noteq> []"
      using assms by auto
    moreover from this have "last ?ys = xs ! i"
      using ne by (subst last_conv_nth) simp_all
    moreover have "mset ?ys = mset xs"
      using assms by (intro mset_swap) simp_all
    ultimately show ?thesis
      using False drop_last [of ?ys] by (simp add: swap_erase_def last_conv_nth [OF ne])
  qed
qed

lemma release_index_Inr:
  assumes "release_index ptr cs i found = Inr (Some k)"
  shows "found = Some k \<or> (i \<le> k \<and> k < i + length cs \<and> mc_data (cs ! (k - i)) = ptr \<and> mc_is_exclusive (cs ! (k - i)))"
  using assms
proof (induction cs arbitrary: i found)
  case (Cons c cs)
  show ?case
  proof (cases "mc_data c = ptr")
    case True
    then show ?thesis
      using Cons.prems Cons.IH [of "Suc i" "Some i"] by (auto simp: result_simps nth_Cons')
  next
    case False
    then show ?thesis
      using Cons.prems Cons.IH [of "Suc i" found] by (auto simp: nth_Cons')
  qed
qed simp

lemma take_exclusive_chunk:
  assumes inv: "pool_inv P live" and b: "b \<in> set live" and cs: "hp_allocator P = Some cs"
    and k: "k < length cs" "mc_data (cs ! k) = fst b" "mc_is_exclusive (cs ! k)"
  shows "pool_inv \<lparr>hp_allocator = Some (swap_erase cs k),
           hp_raw_memory_chunks = filter (\<lambda>r. fst r \<noteq> fst b) (hp_raw_memory_chunks P)\<rparr> (remove1 b live)"
proof -
  let ?c = "cs ! k" and ?raw = "hp_raw_memory_chunks P"
  have i: "raw_ok ?raw" "list_all chunk_ok cs" "mset (map chunk_block cs) = mset ?raw"
    "list_all (\<lambda>b. 0 < snd b \<and> list_ex (owned_by b) cs) live" "all_apart live"
    using inv cs by (auto simp: pool_inv_def)
  have es: "mset (swap_erase cs k) = mset cs - {#?c#}"
    using k(1) by (rule mset_swap_erase)
  have in_raw: "chunk_block ?c \<in> set ?raw" and fst_c: "fst (chunk_block ?c) = fst b"
    using chunk_in_raw [OF i(3), of ?c] k by (simp_all add: chunk_block_def)
  have "filter (\<lambda>r. fst r \<noteq> fst b) ?raw = remove1 (chunk_block ?c) ?raw"
  proof -
    have "fst r \<noteq> fst b \<longleftrightarrow> chunk_block ?c \<noteq> r" if "r \<in> set ?raw" for r
      using raw_distinct [OF i(1)] that in_raw fst_c by (metis inj_onD distinct_map)
    then show ?thesis
      using raw_distinct [OF i(1)] by (simp add: distinct_remove1_removeAll removeAll_filter_not_eq cong: filter_cong)
  qed
  note raw' = this
  have "set (remove1 (chunk_block ?c) ?raw) \<subseteq> set ?raw"
    by (rule set_remove1_subset)
  then have "raw_ok (remove1 (chunk_block ?c) ?raw)"
    using i(1) by (auto simp: raw_ok_def list_all_iff)
  moreover have "mset (map chunk_block (swap_erase cs k)) = mset (remove1 (chunk_block ?c) ?raw)"
    using k(1) i(3) [symmetric] by (simp add: es image_mset_Diff)
  moreover have "list_all chunk_ok (swap_erase cs k)"
    using i(2) es by (auto simp: list_all_iff dest!: arg_cong [of _ _ set_mset] in_diffD)
  moreover have "list_ex (owned_by d) (swap_erase cs k)" if d: "d \<in> set (remove1 b live)" for d
  proof -
    have dl: "d \<in> set live"
      using d set_remove1_subset by fast
    then obtain c where c: "c \<in> set cs" "owned_by d c"
      using i(4) by (auto simp: list_all_iff list_ex_iff)
    have "apart b d" "0 < snd b" "0 < snd d"
      using all_apart_remove1_D [OF i(5) b d] i(4) b dl by (auto simp: list_all_iff)
    then have "c \<noteq> ?c"
      using c(2) k(2,3) apart_same_start [of b d] by (auto simp: owned_by_def)
    then have "c \<in># mset (swap_erase cs k)"
      using c(1) by (auto simp: es in_diff_count)
    then show ?thesis
      using c(2) by (auto simp: list_ex_iff)
  qed
  moreover have "0 < snd d" if "d \<in> set (remove1 b live)" for d
    using i(4) set_remove1_subset that by (fastforce simp: list_all_iff)
  ultimately show ?thesis
    using i(5) by (auto simp: pool_inv_def raw' list_all_iff)
qed

lemma pool_takes_step:
  assumes inv: "pool_inv P live" and b: "b \<in> set live" and t: "pool_takes P b P'"
  shows "pool_inv P' (remove1 b live)"
proof -
  obtain cs where cs: "hp_allocator P = Some cs" and i: "all_apart live"
    "list_all (\<lambda>b. 0 < snd b \<and> list_ex (owned_by b) cs) live"
    using inv by (auto simp: pool_inv_def)
  obtain unmaps where rel: "hp_release unmaps (fst b) P = Inr P'"
    using t by (auto simp: pool_takes_def)
  obtain found where found: "release_index (fst b) cs 0 None = Inr found"
    using rel cs by (auto simp: hp_release_def ua_release_def result_simps)
  show ?thesis
  proof (cases found)
    case None
    then have "P' = P"
      using rel cs found by (cases P) (simp add: hp_release_def ua_release_def)
    moreover have "set (remove1 b live) \<subseteq> set live"
      by (rule set_remove1_subset)
    ultimately show ?thesis
      using inv cs i by (auto simp: pool_inv_def list_all_iff)
  next
    case (Some k)
    have k: "k < length cs" "mc_data (cs ! k) = fst b" "mc_is_exclusive (cs ! k)"
      using release_index_Inr [of "fst b" cs 0 None k] found Some by simp_all
    have "P' = \<lparr>hp_allocator = Some (swap_erase cs k),
        hp_raw_memory_chunks = filter (\<lambda>r. fst r \<noteq> fst b) (hp_raw_memory_chunks P)\<rparr>"
      using rel cs found Some
      by (auto simp: hp_release_def ua_release_def deallocate_raw_memory_def result_simps split: option.splits)
    then show ?thesis
      using take_exclusive_chunk [OF inv b cs k] by simp
  qed
qed

interpretation host: block_allocator pool_inv pool_gives pool_takes
proof
  show "pool_inv P' (b # live)" if "pool_inv P live" "pool_gives P b P'" for P live b P'
    using pool_gives_step [OF that] by simp
  show "apart b c" if "pool_inv P live" "pool_gives P b P'" "c \<in> set live" for P live b P' c
    using pool_gives_step [OF that(1,2)] that(3) by (simp add: list_all_iff)
  show "pool_inv P' (remove1 b live)" if "pool_inv P live" "b \<in> set live" "pool_takes P b P'" for P live b P'
    using that by (rule pool_takes_step)
qed

lemma pool_inv_new: "pool_inv new_pool []"
  by (simp add: pool_inv_def new_pool_def raw_ok_def)

text \<open>Every block lies in a region that is still mapped.\<close>

lemma pool_inv_mapped:
  assumes "pool_inv P live" "b \<in> set live"
  shows "0 < fst b \<and> (\<exists>r \<in> set (hp_raw_memory_chunks P). inside b r)"
proof -
  obtain cs where i: "raw_ok (hp_raw_memory_chunks P)" "list_all chunk_ok cs"
    "mset (map chunk_block cs) = mset (hp_raw_memory_chunks P)"
    "list_all (\<lambda>b. 0 < snd b \<and> list_ex (owned_by b) cs) live"
    using assms(1) by (auto simp: pool_inv_def)
  obtain c where c: "c \<in> set cs" "owned_by b c"
    using i(4) assms(2) by (auto simp: list_all_iff list_ex_iff)
  then show ?thesis
    using chunk_region [OF i(1,3) c(1)] chunk_in_raw [OF i(3) c(1)] owned_inside [OF c(2)] i(2)
    by (auto simp: list_all_iff owned_by_def)
qed

text \<open>The alignment asked for is honoured when it divides the page size.\<close>

lemma hp_allocate_aligned:
  assumes inv: "pool_inv P live" and al: "0 < alignment" "alignment dvd page_size"
    and alloc: "hp_allocate mapped sz alignment exclusive P = Inr (ret, P')"
  shows "alignment dvd ret"
proof -
  obtain cs where i: "hp_allocator P = Some cs" "raw_ok (hp_raw_memory_chunks P)" "list_all chunk_ok cs"
    "mset (map chunk_block cs) = mset (hp_raw_memory_chunks P)"
    using inv by (auto simp: pool_inv_def)
  have le: "alignment \<le> page_size"
    using al by (auto intro: dvd_imp_le simp: page_size_def)
  show ?thesis
  proof (cases "if exclusive then None else search_chunks sz alignment cs")
    case None
    then have "page_size dvd ret"
      using alloc i(1)
      by (auto simp: hp_allocate_def ua_allocate_def allocate_raw_memory_def result_simps split: option.splits)
    then show ?thesis
      using al(2) by (rule dvd_trans [rotated])
  next
    case (Some r)
    then have "search_chunks sz alignment cs = Some (ret, snd r)"
      using alloc i(1) by (cases r) (simp add: hp_allocate_def ua_allocate_def split: if_splits)
    then obtain xs c ys where c: "cs = xs @ c # ys" "ret = align_head alignment (mc_head c)"
      using search_chunks_Some by blast
    then have "mc_head c \<le> 2 ^ 63"
      using chunk_region(3) [OF i(2,4), of c] i(3) by (auto simp: chunk_ok_def)
    then show ?thesis
      using align_head_props(3) [OF al(1) le] c(2) by simp
  qed
qed

text \<open>
  Resetting unmaps every region. The copy of the map that the loop walks has no duplicate keys, so
  no \<open>NotAllocated\<close> error is possible.
\<close>

lemma deallocate_all_Inr:
  assumes "distinct ps" "set ps \<subseteq> set (map fst raw)" "\<And>b. b \<in> set raw \<Longrightarrow> unmaps b"
  shows "deallocate_all unmaps ps raw = Inr (filter (\<lambda>b. fst b \<notin> set ps) raw)"
  using assms
proof (induction ps arbitrary: raw)
  case Nil
  then show ?case by simp
next
  case (Cons p ps)
  let ?raw = "filter (\<lambda>b. fst b \<noteq> p) raw"
  obtain n where n: "map_of raw p = Some n"
    using Cons.prems(2) by (auto simp: dom_map_of_conv_image_fst [symmetric])
  then have "unmaps (p, n)"
    using Cons.prems(3) map_of_SomeD by metis
  moreover have "deallocate_all unmaps ps ?raw = Inr (filter (\<lambda>b. fst b \<notin> set ps) ?raw)"
  proof (rule Cons.IH)
    show "set ps \<subseteq> set (map fst ?raw)"
    proof
      fix q
      assume q: "q \<in> set ps"
      then obtain n where "(q, n) \<in> set raw"
        using Cons.prems(2) by auto
      then show "q \<in> set (map fst ?raw)"
        using q Cons.prems(1) by force
    qed
  qed (use Cons.prems in auto)
  moreover have "filter (\<lambda>b. fst b \<notin> set ps) ?raw = filter (\<lambda>b. fst b \<notin> set (p # ps)) raw"
    by (simp add: conj_commute)
  ultimately show ?case
    using n by (simp add: deallocate_raw_memory_def)
qed

lemma hp_reset_unmaps_all:
  assumes "pool_inv P live" "\<And>b. b \<in> set (hp_raw_memory_chunks P) \<Longrightarrow> unmaps b"
  shows "hp_reset unmaps P = Inr new_pool"
proof -
  have "distinct (map fst (hp_raw_memory_chunks P))"
    using assms(1) raw_distinct by (auto simp: pool_inv_def)
  then have "deallocate_all unmaps (sort (map fst (hp_raw_memory_chunks P))) (hp_raw_memory_chunks P) =
      Inr (filter (\<lambda>b. fst b \<notin> set (sort (map fst (hp_raw_memory_chunks P)))) (hp_raw_memory_chunks P))"
    using assms(2) by (intro deallocate_all_Inr) simp_all
  moreover have "filter (\<lambda>b. fst b \<notin> set (sort (map fst (hp_raw_memory_chunks P)))) (hp_raw_memory_chunks P) = []"
    by (auto simp: filter_empty_conv)
  ultimately show ?thesis
    by (simp add: hp_reset_def new_pool_def)
qed

text \<open>
  The first block of a shared chunk starts where the chunk does; releasing it trips the assertion
  that only exclusive chunks are released.
\<close>

lemma release_index_shared:
  assumes "c \<in> set cs" "mc_data c = ptr" "\<not> mc_is_exclusive c"
  shows "release_index ptr cs i found = Inl AssertFailed"
  using assms
proof (induction cs arbitrary: i found)
  case (Cons d cs)
  then show ?case
    by (cases "mc_data d = ptr"; cases "mc_is_exclusive d") auto
qed simp

lemma release_of_shared_chunk_raises:
  assumes "hp_allocator P = Some cs" "c \<in> set cs" "mc_data c = ptr" "\<not> mc_is_exclusive c"
  shows "hp_release unmaps ptr P = Inl AssertFailed"
  using assms by (simp add: hp_release_def ua_release_def release_index_shared)

section \<open>The CPU device\<close>

datatype rhi_result = RhiSuccess | RhiError | RhiInvalidUsage | RhiNotSupported | RhiOutOfMemory

record alloc_info =
  ai_ptr :: nat
  ai_size :: nat
  ai_use_cached :: bool

record cpu_device =
  cd_allocations :: "alloc_info list"
  cd_pool :: host_pool
  cd_mem :: "nat \<Rightarrow> 8 word"

definition get_alloc_info :: "nat \<Rightarrow> cpu_device \<Rightarrow> alloc_info result" where
  "get_alloc_info alloc_id D =
     guardE (alloc_id < length (cd_allocations D)) (InvalidDeviceAllocation alloc_id)
       (Inr (cd_allocations D ! alloc_id))"

definition cpu_allocate_memory :: "nat option \<Rightarrow> nat \<Rightarrow> cpu_device \<Rightarrow> (rhi_result \<times> nat \<times> cpu_device) result" where
  "cpu_allocate_memory mapped sz D =
     (let push = \<lambda>ptr pool. (RhiSuccess, length (cd_allocations D),
            D\<lparr>cd_allocations := cd_allocations D @ [\<lparr>ai_ptr = ptr, ai_size = sz, ai_use_cached = False\<rparr>],
              cd_pool := pool\<rparr>)
      in if sz = 0 then Inr (push 0 (cd_pool D))
         else bindE (hp_allocate mapped sz page_size True (cd_pool D)) (\<lambda>(ptr, pool).
                Inr (if ptr = 0 then (RhiOutOfMemory, 0, D\<lparr>cd_pool := pool\<rparr>) else push ptr pool)))"

definition cpu_dealloc_memory :: "(block \<Rightarrow> bool) \<Rightarrow> nat \<Rightarrow> cpu_device \<Rightarrow> cpu_device result" where
  "cpu_dealloc_memory unmaps alloc_id D =
     bindE (get_alloc_info alloc_id D) (\<lambda>info.
       if ai_size info = 0 then Inr D
       else guardE (ai_ptr info \<noteq> 0) (DeallocatedTwice alloc_id)
         (if ai_use_cached info then Inr D
          else bindE (hp_release unmaps (ai_ptr info) (cd_pool D)) (\<lambda>pool.
                 Inr (D\<lparr>cd_allocations := (cd_allocations D)[alloc_id := info\<lparr>ai_ptr := 0\<rparr>],
                        cd_pool := pool\<rparr>))))"

definition cpu_import_memory :: "nat \<Rightarrow> nat \<Rightarrow> cpu_device \<Rightarrow> nat \<times> cpu_device" where
  "cpu_import_memory ptr sz D =
     (length (cd_allocations D),
      D\<lparr>cd_allocations := cd_allocations D @ [\<lparr>ai_ptr = ptr, ai_size = sz, ai_use_cached = False\<rparr>]\<rparr>)"

text \<open>A device pointer: the device, the allocation and the offset in it; \<open>None\<close> is null data.\<close>

record device_ptr =
  dp_device :: nat
  dp_alloc_id :: nat
  dp_offset :: nat

definition put_bytes :: "nat \<Rightarrow> 8 word list \<Rightarrow> (nat \<Rightarrow> 8 word) \<Rightarrow> nat \<Rightarrow> 8 word" where
  "put_bytes a bs m x = (if a \<le> x \<and> x < a + length bs then bs ! (x - a) else m x)"

definition get_bytes :: "nat \<Rightarrow> nat \<Rightarrow> (nat \<Rightarrow> 8 word) \<Rightarrow> 8 word list" where
  "get_bytes a n m = map (\<lambda>i. m (a + i)) [0..<n]"

definition device_addr :: "cpu_device \<Rightarrow> device_ptr \<Rightarrow> nat" where
  "device_addr D p = ai_ptr (cd_allocations D ! dp_alloc_id p) + dp_offset p"

text \<open>One list stands for the three parallel arrays; \<open>None\<close> for one of them being null.\<close>

fun upload_loop :: "nat \<Rightarrow> (device_ptr \<times> 8 word list option) list \<Rightarrow> cpu_device \<Rightarrow> rhi_result \<times> cpu_device" where
  "upload_loop this [] D = (RhiSuccess, D)"
| "upload_loop this ((p, data) # rest) D =
     (case data of
        None \<Rightarrow> (RhiInvalidUsage, D)
      | Some bs \<Rightarrow>
          if dp_device p \<noteq> this then (RhiInvalidUsage, D)
          else upload_loop this rest (D\<lparr>cd_mem := put_bytes (device_addr D p) bs (cd_mem D)\<rparr>))"

definition cpu_upload_data ::
  "nat \<Rightarrow> (device_ptr \<times> 8 word list option) list option \<Rightarrow> cpu_device \<Rightarrow> rhi_result \<times> cpu_device" where
  "cpu_upload_data this reqs D =
     (case reqs of None \<Rightarrow> (RhiInvalidUsage, D) | Some rs \<Rightarrow> upload_loop this rs D)"

text \<open>Where data is read to: \<open>False\<close> for a null destination. The bytes copied so far are the result.\<close>

fun readback_loop :: "nat \<Rightarrow> (device_ptr \<times> bool \<times> nat) list \<Rightarrow> cpu_device \<Rightarrow> rhi_result \<times> 8 word list list" where
  "readback_loop this [] D = (RhiSuccess, [])"
| "readback_loop this ((p, dst, n) # rest) D =
     (if dp_device p \<noteq> this \<or> \<not> dst then (RhiInvalidUsage, [])
      else (case readback_loop this rest D of
              (r, out) \<Rightarrow> (r, get_bytes (device_addr D p) n (cd_mem D) # out)))"

definition cpu_readback_data ::
  "nat \<Rightarrow> (device_ptr \<times> bool \<times> nat) list option \<Rightarrow> cpu_device \<Rightarrow> rhi_result \<times> 8 word list list" where
  "cpu_readback_data this reqs D =
     (case reqs of None \<Rightarrow> (RhiInvalidUsage, []) | Some rs \<Rightarrow> readback_loop this rs D)"

definition cpu_map_range :: "device_ptr \<Rightarrow> cpu_device \<Rightarrow> rhi_result \<times> nat option" where
  "cpu_map_range p D =
     (if ai_ptr (cd_allocations D ! dp_alloc_id p) = 0 then (RhiError, None)
      else (RhiSuccess, Some (device_addr D p)))"

definition cpu_map :: "nat \<Rightarrow> cpu_device \<Rightarrow> rhi_result \<times> nat option" where
  "cpu_map alloc_id D =
     (if ai_ptr (cd_allocations D ! alloc_id) = 0 then (RhiError, None)
      else (RhiSuccess, Some (ai_ptr (cd_allocations D ! alloc_id))))"

definition cpu_memcpy_internal :: "device_ptr \<Rightarrow> device_ptr \<Rightarrow> nat \<Rightarrow> cpu_device \<Rightarrow> cpu_device" where
  "cpu_memcpy_internal dst src n D =
     D\<lparr>cd_mem := put_bytes (device_addr D dst) (get_bytes (device_addr D src) n (cd_mem D)) (cd_mem D)\<rparr>"

section \<open>Device allocations do not overlap\<close>

definition is_live :: "alloc_info \<Rightarrow> bool" where
  "is_live a \<longleftrightarrow> ai_ptr a \<noteq> 0 \<and> ai_size a \<noteq> 0"

definition device_blocks :: "cpu_device \<Rightarrow> block list" where
  "device_blocks D = map (\<lambda>a. (ai_ptr a, ai_size a)) (filter is_live (cd_allocations D))"

definition in_allocation :: "cpu_device \<Rightarrow> device_ptr \<Rightarrow> nat \<Rightarrow> bool" where
  "in_allocation D p n \<longleftrightarrow>
     dp_alloc_id p < length (cd_allocations D) \<and> is_live (cd_allocations D ! dp_alloc_id p) \<and>
     dp_offset p + n \<le> ai_size (cd_allocations D ! dp_alloc_id p)"

text \<open>What the program does to the device between its creation and a given moment.\<close>

inductive cpu_step :: "cpu_device \<Rightarrow> cpu_device \<Rightarrow> bool" where
  step_allocate: "mapping_ok mapped sz (hp_raw_memory_chunks (cd_pool D)) \<Longrightarrow> sz < 2 ^ 62 \<Longrightarrow>
    cpu_allocate_memory mapped sz D = Inr (r, i, D') \<Longrightarrow> cpu_step D D'"
| step_dealloc: "cpu_dealloc_memory unmaps i D = Inr D' \<Longrightarrow> cpu_step D D'"
| step_upload: "cpu_upload_data this reqs D = (r, D') \<Longrightarrow> cpu_step D D'"
| step_copy: "cpu_step D (cpu_memcpy_internal dst src n D)"

definition new_device :: "(nat \<Rightarrow> 8 word) \<Rightarrow> cpu_device" where
  "new_device m = \<lparr>cd_allocations = [], cd_pool = new_pool, cd_mem = m\<rparr>"

lemma pool_inv_mset:
  assumes "pool_inv P live" "mset live' = mset live"
  shows "pool_inv P live'"
proof -
  have "set live' = set live"
    using assms(2) by (rule mset_eq_setD)
  moreover have "all_apart live'"
    using all_apart_mset assms by (auto simp: pool_inv_def)
  ultimately show ?thesis
    using assms(1) unfolding pool_inv_def list_all_iff by simp
qed

lemma upload_loop_keeps_blocks:
  "cd_allocations (snd (upload_loop this reqs D)) = cd_allocations D \<and>
   cd_pool (snd (upload_loop this reqs D)) = cd_pool D"
  by (induction this reqs D rule: upload_loop.induct) (simp_all split: option.split)

lemma upload_keeps_blocks:
  "cd_allocations (snd (cpu_upload_data this reqs D)) = cd_allocations D \<and>
   cd_pool (snd (cpu_upload_data this reqs D)) = cd_pool D"
  using upload_loop_keeps_blocks by (simp add: cpu_upload_data_def split: option.split)

lemma device_blocks_kill:
  assumes "i < length as" "is_live (as ! i)"
  shows "filter_mset is_live (mset (as[i := (as ! i)\<lparr>ai_ptr := 0\<rparr>])) = filter_mset is_live (mset as) - {#as ! i#}"
proof -
  have "mset as = mset (take i as @ as ! i # drop (Suc i) as)"
    using assms(1) by (metis id_take_nth_drop)
  then show ?thesis
    using assms by (simp add: upd_conv_take_nth_drop is_live_def)
qed

lemma cpu_step_inv:
  assumes "cpu_step D D'" "pool_inv (cd_pool D) (device_blocks D)"
  shows "pool_inv (cd_pool D') (device_blocks D')"
  using assms
proof (induction rule: cpu_step.induct)
  case (step_allocate mapped sz D r i D')
  show ?case
  proof (cases "sz = 0")
    case True
    then show ?thesis
      using step_allocate by (auto simp: cpu_allocate_memory_def Let_def device_blocks_def is_live_def)
  next
    case False
    obtain ptr P where al: "hp_allocate mapped sz page_size True (cd_pool D) = Inr (ptr, P)"
      using step_allocate(3) False by (auto simp: cpu_allocate_memory_def Let_def result_simps)
    have "pool_gives (cd_pool D) (ptr, sz) P"
      unfolding pool_gives_def using step_allocate(1,2) False al
      by (intro exI [of _ mapped] exI [of _ page_size] exI [of _ True]) (simp add: allocation_size_def page_size_def)
    then have inv: "pool_inv P ((ptr, sz) # device_blocks D)"
      using host.gives_inv step_allocate(4) by blast
    then have "ptr \<noteq> 0"
      using pool_inv_mapped by fastforce
    then have "D' = D\<lparr>cd_allocations := cd_allocations D @ [\<lparr>ai_ptr = ptr, ai_size = sz, ai_use_cached = False\<rparr>],
        cd_pool := P\<rparr>"
      using step_allocate(3) False al by (auto simp: cpu_allocate_memory_def Let_def)
    then show ?thesis
      using pool_inv_mset [OF inv] False \<open>ptr \<noteq> 0\<close> by (simp add: device_blocks_def is_live_def)
  qed
next
  case (step_dealloc unmaps i D D')
  let ?a = "cd_allocations D ! i"
  have i: "i < length (cd_allocations D)"
    using step_dealloc(1) by (auto simp: cpu_dealloc_memory_def get_alloc_info_def result_simps)
  show ?case
  proof (cases "ai_size ?a = 0 \<or> ai_use_cached ?a")
    case True
    then have "D' = D"
      using step_dealloc(1) i by (auto simp: cpu_dealloc_memory_def get_alloc_info_def result_simps split: if_splits)
    then show ?thesis
      using step_dealloc(2) by simp
  next
    case False
    then obtain P where rel: "hp_release unmaps (ai_ptr ?a) (cd_pool D) = Inr P" "is_live ?a"
      and D': "D' = D\<lparr>cd_allocations := (cd_allocations D)[i := ?a\<lparr>ai_ptr := 0\<rparr>], cd_pool := P\<rparr>"
      using step_dealloc(1) i
      by (auto simp: cpu_dealloc_memory_def get_alloc_info_def result_simps is_live_def)
    have mem: "?a \<in> set (filter is_live (cd_allocations D))"
      using i rel(2) by simp
    have "pool_takes (cd_pool D) (ai_ptr ?a, ai_size ?a) P"
      using rel(1) by (auto simp: pool_takes_def)
    then have "pool_inv P (remove1 (ai_ptr ?a, ai_size ?a) (device_blocks D))"
      using host.takes_inv step_dealloc(2) mem by (auto simp: device_blocks_def)
    moreover have "mset (device_blocks D') = mset (remove1 (ai_ptr ?a, ai_size ?a) (device_blocks D))"
      using mem by (simp add: D' device_blocks_def device_blocks_kill [OF i rel(2)] image_mset_Diff)
    ultimately show ?thesis
      using pool_inv_mset by (simp add: D')
  qed
next
  case (step_upload this reqs D r D')
  then show ?case
    using upload_keeps_blocks [of this reqs D] by (simp add: device_blocks_def)
next
  case (step_copy D dst src n)
  then show ?case
    by (simp add: cpu_memcpy_internal_def device_blocks_def)
qed

lemma cpu_reach_inv:
  assumes "cpu_step\<^sup>*\<^sup>* (new_device m) D"
  shows "pool_inv (cd_pool D) (device_blocks D)"
  using assms
proof (induction rule: rtranclp_induct)
  case base
  then show ?case
    by (simp add: new_device_def device_blocks_def pool_inv_new)
next
  case (step D D')
  then show ?case
    by (auto intro: cpu_step_inv)
qed

text \<open>Two live handles own disjoint memory.\<close>

lemma live_handles_apart:
  assumes "pool_inv (cd_pool D) (device_blocks D)" "i \<noteq> j"
    and "i < length (cd_allocations D)" "is_live (cd_allocations D ! i)"
    and "j < length (cd_allocations D)" "is_live (cd_allocations D ! j)"
  shows "apart (ai_ptr (cd_allocations D ! i), ai_size (cd_allocations D ! i))
    (ai_ptr (cd_allocations D ! j), ai_size (cd_allocations D ! j))"
proof -
  have gen: "apart (g (as ! i)) (g (as ! j))"
    if "all_apart (map g (filter P as))" "i \<noteq> j" "i < length as" "P (as ! i)" "j < length as" "P (as ! j)"
    for g :: "alloc_info \<Rightarrow> block" and P as i j
    using that
  proof (induction as arbitrary: i j)
    case (Cons a as)
    then show ?case
      by (cases i; cases j) (auto simp: list_all_iff intro: apart_sym [THEN iffD1] split: if_splits)
  qed simp
  have "all_apart (device_blocks D)"
    using assms(1) by (auto simp: pool_inv_def)
  then show ?thesis
    unfolding device_blocks_def by (rule gen) (use assms(2-) in auto)
qed

lemma get_put_bytes [simp]: "get_bytes a (length bs) (put_bytes a bs m) = bs"
  by (rule nth_equalityI) (simp_all add: get_bytes_def put_bytes_def)

lemma get_put_bytes_apart:
  assumes "apart (a, n) (b, length bs)"
  shows "get_bytes a n (put_bytes b bs m) = get_bytes a n m"
  using assms by (auto simp: get_bytes_def put_bytes_def apart_def)

lemma upload_frame:
  assumes inv: "pool_inv (cd_pool D) (device_blocks D)"
    and p: "in_allocation D p (length bs)" and q: "in_allocation D q n" and ne: "dp_alloc_id q \<noteq> dp_alloc_id p"
  shows "get_bytes (device_addr D q) n (put_bytes (device_addr D p) bs m) = get_bytes (device_addr D q) n m"
proof (rule get_put_bytes_apart)
  let ?blk = "\<lambda>r. (ai_ptr (cd_allocations D ! dp_alloc_id r), ai_size (cd_allocations D ! dp_alloc_id r))"
  have "apart (?blk q) (?blk p)"
    using p q by (intro live_handles_apart [OF inv ne]) (simp_all add: in_allocation_def)
  moreover have "inside (device_addr D q, n) (?blk q)" "inside (device_addr D p, length bs) (?blk p)"
    using p q by (simp_all add: inside_def device_addr_def in_allocation_def)
  ultimately show "apart (device_addr D q, n) (device_addr D p, length bs)"
    by (rule apart_inside)
qed

end
