(* ===== verification/DeviceMem.thy ===== *)
theory DeviceMem
  imports HostPool "HOL-Library.Product_Lexorder"
begin

text \<open>
  Device memory of the CUDA and AMDGPU back ends: the free-block cache \<^verbatim>\<open>CachingAllocator\<close>
  (\<^verbatim>\<open>rhi/llvm/allocator.cpp\<close>), the bump allocator over the preallocated chunk in the runtime module
  (\<^verbatim>\<open>LLVMRuntime::allocate_from_reserved_memory\<close>), the pool of driver allocations
  (\<^verbatim>\<open>rhi/llvm/device_memory_pool.cpp\<close>) and the device calls that combine them
  (\<^verbatim>\<open>allocate_memory_runtime\<close> and \<^verbatim>\<open>dealloc_memory\<close> of \<^verbatim>\<open>rhi/cuda/cuda_device.cpp\<close>).
\<close>

section \<open>The cache of free blocks\<close>

text \<open>
  \<^verbatim>\<open>mem_blocks_\<close> is an ordered set of (size, address) pairs and \<^verbatim>\<open>ptr_map_\<close> an ordered map from
  address to size: lists in ascending order here.
\<close>

record caching_allocator =
  ca_mem_blocks :: "(nat \<times> nat) list"
  ca_ptr_map :: "(nat \<times> nat) list"
  ca_merge_upon_release :: bool

definition new_caching_allocator :: "bool \<Rightarrow> caching_allocator" where
  "new_caching_allocator merge = \<lparr>ca_mem_blocks = [], ca_ptr_map = [], ca_merge_upon_release = merge\<rparr>"

definition iroundup :: "nat \<Rightarrow> nat \<Rightarrow> nat" where
  "iroundup a b = u64 (u64 (a + b - 1) div b * b)"

definition pm_erase :: "nat \<Rightarrow> (nat \<times> nat) list \<Rightarrow> (nat \<times> nat) list" where
  "pm_erase k m = filter (\<lambda>e. fst e \<noteq> k) m"

text \<open>\<^verbatim>\<open>m[k] = v\<close> overwrites, \<^verbatim>\<open>m.insert({k, v})\<close> keeps an entry that is there.\<close>

definition pm_put :: "nat \<Rightarrow> nat \<Rightarrow> (nat \<times> nat) list \<Rightarrow> (nat \<times> nat) list" where
  "pm_put k v m = insort_key fst (k, v) (pm_erase k m)"

definition pm_insert :: "nat \<Rightarrow> nat \<Rightarrow> (nat \<times> nat) list \<Rightarrow> (nat \<times> nat) list" where
  "pm_insert k v m = (if k \<in> set (map fst m) then m else insort_key fst (k, v) m)"

text \<open>Reading \<^verbatim>\<open>m[k]\<close> creates an entry with value \<open>0\<close> when there is none.\<close>

definition pm_touch :: "nat \<Rightarrow> (nat \<times> nat) list \<Rightarrow> nat \<times> (nat \<times> nat) list" where
  "pm_touch k m = (case map_of m k of Some v \<Rightarrow> (v, m) | None \<Rightarrow> (0, pm_insert k 0 m))"

text \<open>\<^verbatim>\<open>--m.lower_bound(k)\<close>: the last entry below \<open>k\<close>.\<close>

definition pm_below :: "nat \<Rightarrow> (nat \<times> nat) list \<Rightarrow> (nat \<times> nat) option" where
  "pm_below k m = (case takeWhile (\<lambda>e. fst e < k) m of [] \<Rightarrow> None | es \<Rightarrow> Some (last es))"

definition merge_right :: "nat \<Rightarrow> nat \<Rightarrow> caching_allocator \<Rightarrow> nat \<times> caching_allocator" where
  "merge_right ptr sz ca =
     (case pm_touch (ptr + sz) (ca_ptr_map ca) of
        (tmp, m) \<Rightarrow>
          if tmp \<noteq> 0
          then (sz + tmp, ca\<lparr>ca_mem_blocks := remove1 (tmp, ptr + sz) (ca_mem_blocks ca),
                             ca_ptr_map := pm_erase (ptr + sz) m\<rparr>)
          else (sz, ca\<lparr>ca_ptr_map := m\<rparr>))"

definition merge_left :: "nat \<Rightarrow> nat \<Rightarrow> caching_allocator \<Rightarrow> nat \<times> nat \<times> caching_allocator" where
  "merge_left ptr sz ca =
     (case pm_below ptr (ca_ptr_map ca) of
        None \<Rightarrow> (ptr, sz, ca)
      | Some (q, n) \<Rightarrow>
          if q + n = ptr
          then (q, sz + n, ca\<lparr>ca_mem_blocks := remove1 (n, q) (ca_mem_blocks ca),
                              ca_ptr_map := pm_erase q (ca_ptr_map ca)\<rparr>)
          else (ptr, sz, ca))"

definition merge_and_insert :: "nat \<Rightarrow> nat \<Rightarrow> caching_allocator \<Rightarrow> caching_allocator" where
  "merge_and_insert ptr sz ca =
     (case merge_right ptr sz ca of
        (sz1, ca1) \<Rightarrow>
          (case merge_left ptr sz1 ca1 of
             (ptr2, sz2, ca2) \<Rightarrow>
               ca2\<lparr>ca_mem_blocks := insort_insert (sz2, ptr2) (ca_mem_blocks ca2),
                   ca_ptr_map := pm_put ptr2 sz2 (ca_ptr_map ca2)\<rparr>))"

definition ca_release :: "nat \<Rightarrow> nat \<Rightarrow> caching_allocator \<Rightarrow> caching_allocator" where
  "ca_release sz ptr ca =
     (if ca_merge_upon_release ca then merge_and_insert ptr sz ca
      else if page_size \<le> sz then ca\<lparr>ca_mem_blocks := insort_insert (sz, ptr) (ca_mem_blocks ca)\<rparr>
      else ca)"

text \<open>A hit in the cache; \<open>None\<close> sends the request to the runtime module.\<close>

definition ca_allocate :: "nat \<Rightarrow> caching_allocator \<Rightarrow> (nat \<times> caching_allocator) option result" where
  "ca_allocate sz ca =
     (let size_aligned = iroundup sz page_size in
      case find (\<lambda>b. size_aligned \<le> fst b) (ca_mem_blocks ca) of
        None \<Rightarrow> Inr None
      | Some (n, p) \<Rightarrow>
          (let remaining_sz = n - size_aligned;
               take_out = \<lambda>ca. ca\<lparr>ca_mem_blocks := remove1 (n, p) (ca_mem_blocks ca),
                                   ca_ptr_map := pm_erase p (ca_ptr_map ca)\<rparr>
           in if 0 < remaining_sz
              then guardE (remaining_sz mod page_size = 0) AssertFailed
                (Inr (Some (p, take_out (ca\<lparr>
                   ca_mem_blocks := insort_insert (remaining_sz, p + size_aligned) (ca_mem_blocks ca),
                   ca_ptr_map := pm_insert (p + size_aligned) remaining_sz (ca_ptr_map ca)\<rparr>))))
              else Inr (Some (p, take_out ca))))"

section \<open>The preallocated chunk\<close>

record prealloc_chunk =
  pc_head :: nat
  pc_tail :: nat

text \<open>\<open>None\<close> is the failed assertion \<^verbatim>\<open>Out of pre-allocated memory\<close>; the result is then null.\<close>

definition allocate_from_reserved_memory :: "nat \<Rightarrow> nat \<Rightarrow> prealloc_chunk \<Rightarrow> (nat \<times> prealloc_chunk) option" where
  "allocate_from_reserved_memory sz alignment pc =
     (let alignment_bytes = alignment - 1 - u64 (pc_head pc + alignment - 1) mod alignment;
          sz' = u64 (sz + alignment_bytes)
      in if u64 (pc_head pc + sz') \<le> pc_tail pc
         then Some (pc_head pc + alignment_bytes, pc\<lparr>pc_head := u64 (pc_head pc + sz')\<rparr>)
         else None)"

definition gpu_pool_alloc :: "nat \<Rightarrow> caching_allocator \<Rightarrow> prealloc_chunk \<Rightarrow> (nat \<times> caching_allocator \<times> prealloc_chunk) result" where
  "gpu_pool_alloc sz ca pc =
     bindE (ca_allocate sz ca) (\<lambda>hit.
       case hit of
         Some (p, ca') \<Rightarrow> Inr (p, ca', pc)
       | None \<Rightarrow>
           (case allocate_from_reserved_memory sz page_size pc of
              None \<Rightarrow> Inl (AllocationFailed sz)
            | Some (p, pc') \<Rightarrow> Inr (p, ca, pc')))"

section \<open>Invariant of the cache\<close>

definition free_blocks :: "caching_allocator \<Rightarrow> block list" where
  "free_blocks ca = map prod.swap (ca_mem_blocks ca)"

text \<open>
  Every entry of the address map with a size stands for a cached block; the entries left by a lookup
  have none. \<open>L\<close> are the blocks in use and \<open>H\<close> bounds all of them.
\<close>

definition map_ok :: "caching_allocator \<Rightarrow> bool" where
  "map_ok ca \<longleftrightarrow> list_all (\<lambda>e. snd e = 0 \<or> prod.swap e \<in> set (ca_mem_blocks ca)) (ca_ptr_map ca)"

definition free_ok :: "nat \<Rightarrow> caching_allocator \<Rightarrow> block list \<Rightarrow> bool" where
  "free_ok H ca L \<longleftrightarrow>
     all_apart (L @ free_blocks ca) \<and>
     list_all (\<lambda>b. 0 < snd b \<and> fst b + snd b \<le> H) (L @ free_blocks ca) \<and> map_ok ca"

lemma apart_join:
  "apart (p, n) c \<Longrightarrow> apart (p + n, m) c \<Longrightarrow> 0 < snd c \<Longrightarrow> 0 < n \<Longrightarrow> 0 < m \<Longrightarrow> apart (p, n + m) c"
  by (auto simp: apart_def)

lemma set_pm_put: "set (pm_put k v m) = insert (k, v) (set (pm_erase k m))"
  by (simp add: pm_put_def set_insort_key)

lemma set_pm_erase: "set (pm_erase k m) = {e \<in> set m. fst e \<noteq> k}"
  by (auto simp: pm_erase_def)

lemma set_pm_insert: "set (pm_insert k v m) \<subseteq> insert (k, v) (set m)"
  by (auto simp: pm_insert_def set_insort_key)

lemma pm_touch_set:
  "pm_touch k m = (v, m') \<Longrightarrow> set m' \<subseteq> insert (k, 0) (set m) \<and> (v \<noteq> 0 \<longrightarrow> (k, v) \<in> set m \<and> m' = m)"
  using set_pm_insert [of k 0 m] by (auto simp: pm_touch_def dest: map_of_SomeD split: option.splits)

lemma pm_below_in: "pm_below k m = Some e \<Longrightarrow> e \<in> set m \<and> fst e < k"
proof -
  assume "pm_below k m = Some e"
  then have "takeWhile (\<lambda>e. fst e < k) m \<noteq> []" "e = last (takeWhile (\<lambda>e. fst e < k) m)"
    by (auto simp: pm_below_def split: list.splits)
  then have "e \<in> set (takeWhile (\<lambda>e. fst e < k) m)"
    using last_in_set by metis
  then show ?thesis
    by (auto dest: set_takeWhileD)
qed

lemma free_blocks_remove1:
  assumes "(n, p) \<in> set (ca_mem_blocks ca)"
  shows "mset (free_blocks ca) = add_mset (p, n) (mset (map prod.swap (remove1 (n, p) (ca_mem_blocks ca))))"
  using assms by (simp add: free_blocks_def image_mset_Diff)

text \<open>Blocks may move between the cache and the blocks in use, and be joined or split there.\<close>

lemma free_ok_move:
  assumes "free_ok H ca L" "mset (L' @ free_blocks ca') = mset (L @ free_blocks ca)" "map_ok ca'"
  shows "free_ok H ca' L'"
proof -
  have "set (L' @ free_blocks ca') = set (L @ free_blocks ca)"
    using assms(2) by (rule mset_eq_setD)
  moreover have "all_apart (L' @ free_blocks ca')"
    using assms(1,2) all_apart_mset unfolding free_ok_def by blast
  ultimately show ?thesis
    using assms(1,3) unfolding free_ok_def list_all_iff by simp
qed

lemma free_ok_perm: "free_ok H ca L \<Longrightarrow> mset L' = mset L \<Longrightarrow> free_ok H ca L'"
  by (rule free_ok_move) (simp_all add: free_ok_def)

lemma free_ok_join:
  assumes "free_ok H ca ((p, n) # (p + n, m) # L)"
  shows "free_ok H ca ((p, n + m) # L)"
  using assms apart_join [of p n _ m] unfolding free_ok_def
  by (auto simp: list_all_iff add.assoc)

lemma free_ok_split:
  assumes "free_ok H ca ((p, n) # L)" "0 < k" "k < n"
  shows "free_ok H ca ((p, k) # (p + k, n - k) # L)"
proof -
  have "apart (p, k) c \<and> apart (p + k, n - k) c" if "apart (p, n) c" for c
    using that assms(2,3) by (auto simp: apart_def)
  moreover have "apart (p, k) (p + k, n - k)"
    by (simp add: apart_def)
  ultimately show ?thesis
    using assms unfolding free_ok_def by (auto simp: list_all_iff)
qed

lemma free_ok_take:
  assumes ok: "free_ok H ca L" and mem: "(m, r) \<in> set (ca_mem_blocks ca)"
    and pm: "set pm \<subseteq> insert (r, 0) (set (ca_ptr_map ca))"
  shows "free_ok H (ca\<lparr>ca_mem_blocks := remove1 (m, r) (ca_mem_blocks ca), ca_ptr_map := pm_erase r pm\<rparr>) ((r, m) # L)"
    (is "free_ok H ?ca _")
proof (rule free_ok_move [OF ok])
  show "mset (((r, m) # L) @ free_blocks ?ca) = mset (L @ free_blocks ca)"
    using free_blocks_remove1 [OF mem] by (simp add: free_blocks_def)
  show "map_ok ?ca"
    unfolding map_ok_def list_all_iff
  proof
    fix e
    assume "e \<in> set (ca_ptr_map ?ca)"
    then have e: "e \<in> set (ca_ptr_map ca)" "fst e \<noteq> r"
      using pm by (auto simp: set_pm_erase)
    then have "snd e = 0 \<or> prod.swap e \<in> set (ca_mem_blocks ca)"
      using ok by (auto simp: free_ok_def map_ok_def list_all_iff)
    moreover have "prod.swap e \<noteq> (m, r)"
      using e(2) by (cases e) simp
    ultimately show "snd e = 0 \<or> prod.swap e \<in> set (ca_mem_blocks ?ca)"
      by (auto simp: in_set_remove1)
  qed
qed

lemma free_ok_put:
  assumes ok: "free_ok H ca ((p, n) # L)" and pm: "set pm \<subseteq> insert (p, n) (set (ca_ptr_map ca))"
  shows "free_ok H (ca\<lparr>ca_mem_blocks := insort_insert (n, p) (ca_mem_blocks ca), ca_ptr_map := pm\<rparr>) L"
    (is "free_ok H ?ca _")
proof (rule free_ok_move [OF ok])
  have "(p, n) \<notin> set (free_blocks ca)"
    using ok apart_same_start [of "(p, n)" "(p, n)"] by (auto simp: free_ok_def list_all_iff)
  then have new: "(n, p) \<notin> set (ca_mem_blocks ca)"
    by (auto simp: free_blocks_def)
  then show "mset (L @ free_blocks ?ca) = mset (((p, n) # L) @ free_blocks ca)"
    by (simp add: free_blocks_def insort_insert_insort)
  show "map_ok ?ca"
    unfolding map_ok_def list_all_iff
  proof
    fix e
    assume "e \<in> set (ca_ptr_map ?ca)"
    then have "e = (p, n) \<or> e \<in> set (ca_ptr_map ca)"
      using pm by auto
    then show "snd e = 0 \<or> prod.swap e \<in> set (ca_mem_blocks ?ca)"
      using ok by (auto simp: free_ok_def map_ok_def list_all_iff set_insort_insert)
  qed
qed

lemma free_ok_map:
  assumes "free_ok H ca L" "set pm \<subseteq> insert (k, 0) (set (ca_ptr_map ca))"
  shows "free_ok H (ca\<lparr>ca_ptr_map := pm\<rparr>) L"
  by (rule free_ok_move [OF assms(1)])
    (use assms in \<open>auto simp: free_blocks_def free_ok_def map_ok_def list_all_iff\<close>)

lemma merge_right_ok:
  assumes ok: "free_ok H ca ((p, n) # L)" and m: "merge_right p n ca = (n', ca')"
  shows "free_ok H ca' ((p, n') # L)"
proof -
  obtain tmp pm where t: "pm_touch (p + n) (ca_ptr_map ca) = (tmp, pm)"
    by fastforce
  note st = pm_touch_set [OF t]
  show ?thesis
  proof (cases "tmp = 0")
    case True
    then show ?thesis
      using m t st free_ok_map [OF ok] by (auto simp: merge_right_def)
  next
    case False
    then have "(tmp, p + n) \<in> set (ca_mem_blocks ca)"
      using st ok by (auto simp: free_ok_def map_ok_def list_all_iff)
    from free_ok_take [OF ok this, of pm]
    have "free_ok H ca' ((p + n, tmp) # (p, n) # L)"
      using m t st False by (auto simp: merge_right_def)
    then have "free_ok H ca' ((p, n) # (p + n, tmp) # L)"
      by (rule free_ok_perm) simp
    then show ?thesis
      using m t False free_ok_join by (auto simp: merge_right_def)
  qed
qed

lemma merge_left_ok:
  assumes ok: "free_ok H ca ((p, n) # L)" and m: "merge_left p n ca = (p', n', ca')"
  shows "free_ok H ca' ((p', n') # L)"
proof (cases "pm_below p (ca_ptr_map ca)")
  case None
  then show ?thesis
    using ok m by (simp add: merge_left_def)
next
  case (Some e)
  obtain q k where e: "e = (q, k)"
    by fastforce
  show ?thesis
  proof (cases "q + k = p")
    case False
    then show ?thesis
      using ok m Some e by (simp add: merge_left_def)
  next
    case True
    then have "(k, q) \<in> set (ca_mem_blocks ca)"
      using pm_below_in [OF Some] ok by (auto simp: e free_ok_def map_ok_def list_all_iff)
    from free_ok_take [OF ok this, of "ca_ptr_map ca"]
    have "free_ok H ca' ((q, k) # (q + k, n) # L)"
      using m Some e True by (auto simp: merge_left_def)
    then show ?thesis
      using m Some e True free_ok_join [of H ca' q k n L] by (auto simp: merge_left_def add.commute)
  qed
qed

lemma ca_release_ok:
  assumes ok: "free_ok H ca ((p, n) # L)"
  shows "free_ok H (ca_release n p ca) L"
proof (cases "ca_merge_upon_release ca")
  case True
  obtain n1 ca1 where r: "merge_right p n ca = (n1, ca1)"
    by fastforce
  obtain p2 n2 ca2 where l: "merge_left p n1 ca1 = (p2, n2, ca2)"
    by (metis prod_cases3)
  have "free_ok H ca2 ((p2, n2) # L)"
    using merge_left_ok [OF merge_right_ok [OF ok r] l] .
  then have "free_ok H (ca2\<lparr>ca_mem_blocks := insort_insert (n2, p2) (ca_mem_blocks ca2),
      ca_ptr_map := pm_put p2 n2 (ca_ptr_map ca2)\<rparr>) L"
    by (rule free_ok_put) (auto simp: set_pm_put set_pm_erase)
  then show ?thesis
    using True r l by (simp add: ca_release_def merge_and_insert_def)
next
  case False
  have "free_ok H ca L"
    using ok by (auto simp: free_ok_def)
  then show ?thesis
    using False free_ok_put [OF ok, of "ca_ptr_map ca"] by (auto simp: ca_release_def)
qed

lemma not_cached:
  assumes "free_ok H ca ((p, n) # L)"
  shows "(n, p) \<notin> set (ca_mem_blocks ca)"
proof -
  have "(p, n) \<notin> set (free_blocks ca)"
    using assms apart_same_start [of "(p, n)" "(p, n)"] by (auto simp: free_ok_def list_all_iff)
  then show ?thesis
    by (auto simp: free_blocks_def)
qed

lemma ca_allocate_ok:
  assumes ok: "free_ok H ca L" and pos: "0 < iroundup sz page_size"
    and al: "ca_allocate sz ca = Inr (Some (p, ca'))"
  shows "free_ok H ca' ((p, iroundup sz page_size) # L)"
proof -
  let ?sz = "iroundup sz page_size"
  obtain n where f: "find (\<lambda>b. ?sz \<le> fst b) (ca_mem_blocks ca) = Some (n, p)"
    using al by (auto simp: ca_allocate_def Let_def result_simps split: option.splits if_splits)
  then have mem: "(n, p) \<in> set (ca_mem_blocks ca)" and le: "?sz \<le> n"
    unfolding find_Some_iff by (metis nth_mem, metis fst_conv)
  let ?out = "ca\<lparr>ca_mem_blocks := remove1 (n, p) (ca_mem_blocks ca), ca_ptr_map := pm_erase p (ca_ptr_map ca)\<rparr>"
  have out: "free_ok H ?out ((p, n) # L)"
    using free_ok_take [OF ok mem] by blast
  show ?thesis
  proof (cases "?sz = n")
    case True
    then show ?thesis
      using al f out by (simp add: ca_allocate_def Let_def)
  next
    case False
    let ?y = "(n - ?sz, p + ?sz)"
    let ?pm = "pm_erase p (pm_insert (p + ?sz) (n - ?sz) (ca_ptr_map ca))"
    have ca': "ca' = ca\<lparr>ca_mem_blocks := remove1 (n, p) (insort_insert ?y (ca_mem_blocks ca)), ca_ptr_map := ?pm\<rparr>"
      using al f False le by (auto simp: ca_allocate_def Let_def result_simps split: if_splits)
    have "free_ok H ?out ((p, ?sz) # (p + ?sz, n - ?sz) # L)"
      using free_ok_split [OF out pos] False le by simp
    then have sp: "free_ok H ?out ((p + ?sz, n - ?sz) # (p, ?sz) # L)"
      by (rule free_ok_perm) simp
    have pm: "set ?pm \<subseteq> insert (p + ?sz, n - ?sz) (set (ca_ptr_map ?out))"
      using set_pm_insert by (fastforce simp: set_pm_erase)
    have y: "?y \<notin> set (remove1 (n, p) (ca_mem_blocks ca))" "?y \<noteq> (n, p)"
      using not_cached [OF sp] pos by simp_all
    then have y': "?y \<notin> set (ca_mem_blocks ca)"
      by (metis in_set_remove1)
    have ms: "mset (remove1 (n, p) (insort_insert ?y (ca_mem_blocks ca))) =
        mset (insort_insert ?y (remove1 (n, p) (ca_mem_blocks ca)))"
      using y y' mem by (simp add: insort_insert_insort)
    have put: "free_ok H (?out\<lparr>ca_mem_blocks := insort_insert ?y (ca_mem_blocks ?out), ca_ptr_map := ?pm\<rparr>) ((p, ?sz) # L)"
      by (rule free_ok_put [OF sp pm])
    then show ?thesis
    proof (rule free_ok_move)
      show "mset (((p, ?sz) # L) @ free_blocks ca') = mset (((p, ?sz) # L) @
          free_blocks (?out\<lparr>ca_mem_blocks := insort_insert ?y (ca_mem_blocks ?out), ca_ptr_map := ?pm\<rparr>))"
        using ms by (simp add: ca' free_blocks_def)
      show "map_ok ca'"
        using put mset_eq_setD [OF ms] by (simp add: ca' free_ok_def map_ok_def)
    qed
  qed
qed

lemma bump_props:
  assumes "0 < alignment" "alignment \<le> page_size" "pc_head pc \<le> 2 ^ 62" "sz < 2 ^ 62"
    and "allocate_from_reserved_memory sz alignment pc = Some (p, pc')"
  shows "pc_head pc \<le> p" "alignment dvd p" "pc' = pc\<lparr>pc_head := p + sz\<rparr>" "p + sz \<le> pc_tail pc"
proof -
  define h where "h = pc_head pc + alignment - 1"
  define k where "k = alignment - 1 - h mod alignment"
  have h: "pc_head pc + alignment = Suc h" "h < 2 ^ 64"
    using assms(1-3) by (simp_all add: h_def page_size_def)
  have m: "h mod alignment < alignment" "h mod alignment \<le> h"
    using assms(1) by simp_all
  have k: "pc_head pc + k = h - h mod alignment" "k < alignment"
    unfolding k_def using m h(1) assms(1) by linarith+
  have small: "u64 h = h" "u64 (sz + k) = sz + k" "u64 (pc_head pc + (sz + k)) = pc_head pc + (sz + k)"
    using h(2) assms(2-4) k(2) by (simp_all add: u64_def page_size_def)
  have "allocate_from_reserved_memory sz alignment pc =
      (if pc_head pc + (sz + k) \<le> pc_tail pc then Some (pc_head pc + k, pc\<lparr>pc_head := pc_head pc + (sz + k)\<rparr>) else None)"
    unfolding allocate_from_reserved_memory_def Let_def h_def [symmetric] small(1) k_def [symmetric] small(2,3)
    by (rule refl)
  then have res: "p = pc_head pc + k" "pc' = pc\<lparr>pc_head := pc_head pc + (sz + k)\<rparr>" "pc_head pc + (sz + k) \<le> pc_tail pc"
    using assms(5) by (auto split: if_splits)
  show "pc_head pc \<le> p" "pc' = pc\<lparr>pc_head := p + sz\<rparr>" "p + sz \<le> pc_tail pc"
    using res by (simp_all add: ac_simps)
  show "alignment dvd p"
    unfolding res(1) k(1) by (simp add: minus_mod_eq_div_mult)
qed

lemma iroundup_id:
  assumes "page_size dvd sz" "sz < 2 ^ 62"
  shows "iroundup sz page_size = sz"
proof -
  obtain q where q: "sz = 4096 * q"
    using assms(1) by (auto simp: page_size_def elim: dvdE)
  then have "u64 (sz + page_size - 1) = 4095 + 4096 * q"
    using assms(2) by (simp add: u64_def page_size_def)
  then show ?thesis
    using assms(2) q by (simp add: iroundup_def u64_def page_size_def)
qed

section \<open>Blocks handed out by the device\<close>

text \<open>
  Requests in whole pages, served from the cache or the chunk, and objects the runtime module places
  in the chunk itself (\<^verbatim>\<open>runtime_allocate_ambient\<close>, \<^verbatim>\<open>LLVMRuntime::create\<close>) with any size and alignment.
\<close>

definition device_gives :: "caching_allocator \<times> prealloc_chunk \<Rightarrow> block \<Rightarrow> caching_allocator \<times> prealloc_chunk \<Rightarrow> bool" where
  "device_gives s b s' \<longleftrightarrow>
     0 < snd b \<and> snd b < 2 ^ 62 \<and>
     (page_size dvd snd b \<and> gpu_pool_alloc (snd b) (fst s) (snd s) = Inr (fst b, s') \<or>
      (\<exists>alignment > 0. alignment \<le> page_size \<and> fst s' = fst s \<and>
         allocate_from_reserved_memory (snd b) alignment (snd s) = Some (fst b, snd s')))"

definition device_takes :: "caching_allocator \<times> prealloc_chunk \<Rightarrow> block \<Rightarrow> caching_allocator \<times> prealloc_chunk \<Rightarrow> bool" where
  "device_takes s b s' \<longleftrightarrow> s' = (ca_release (snd b) (fst b) (fst s), snd s)"

definition device_inv :: "caching_allocator \<times> prealloc_chunk \<Rightarrow> block list \<Rightarrow> bool" where
  "device_inv s live \<longleftrightarrow>
     free_ok (pc_head (snd s)) (fst s) live \<and> pc_head (snd s) \<le> pc_tail (snd s) \<and> pc_tail (snd s) \<le> 2 ^ 62"

lemma free_ok_above:
  assumes "free_ok H ca L" "H \<le> p" "0 < n"
  shows "free_ok (p + n) ca ((p, n) # L) \<and> list_all (apart (p, n)) L"
proof -
  have "fst b + snd b \<le> H" if "b \<in> set (L @ free_blocks ca)" for b
    using that assms(1) unfolding free_ok_def list_all_iff by blast
  then have "apart (p, n) b \<and> fst b + snd b \<le> p + n" if "b \<in> set (L @ free_blocks ca)" for b
    using that assms(2) by (fastforce simp: apart_def)
  then show ?thesis
    using assms by (auto simp: free_ok_def list_all_iff)
qed

lemma device_gives_step:
  assumes inv: "device_inv s live" and g: "device_gives s b s'"
  shows "device_inv s' (b # live) \<and> list_all (apart b) live"
proof -
  obtain ca pc where s: "s = (ca, pc)"
    by fastforce
  have i: "free_ok (pc_head pc) ca live" "pc_head pc \<le> pc_tail pc" "pc_tail pc \<le> 2 ^ 62"
    using inv by (simp_all add: s device_inv_def)
  have b: "0 < snd b" "snd b < 2 ^ 62"
    using g by (auto simp: device_gives_def)
  have bump: ?thesis
    if "allocate_from_reserved_memory (snd b) alignment pc = Some (fst b, pc')" "0 < alignment"
      "alignment \<le> page_size" "s' = (ca, pc')" for alignment pc'
  proof -
    have head: "pc_head pc \<le> 2 ^ 62"
      using i by simp
    note p = bump_props [OF that(2,3) head b(2) that(1)]
    show ?thesis
      using free_ok_above [OF i(1) p(1) b(1)] p i(3) that(4) by (auto simp: device_inv_def)
  qed
  have hit: ?thesis
    if "ca_allocate (snd b) ca = Inr (Some (fst b, ca'))" "s' = (ca', pc)" "page_size dvd snd b" for ca'
  proof -
    have r: "iroundup (snd b) page_size = snd b"
      using iroundup_id that(3) b(2) by simp
    then have "free_ok (pc_head pc) ca' (b # live)"
      using ca_allocate_ok [OF i(1) _ that(1)] b(1) by simp
    moreover from this have "list_all (apart b) live"
      by (simp add: free_ok_def)
    ultimately show ?thesis
      using i that(2) by (simp add: device_inv_def)
  qed
  consider (pool) "page_size dvd snd b" "gpu_pool_alloc (snd b) ca pc = Inr (fst b, s')"
    | (own) alignment where "0 < alignment" "alignment \<le> page_size" "fst s' = ca"
        "allocate_from_reserved_memory (snd b) alignment pc = Some (fst b, snd s')"
    using g by (auto simp: device_gives_def s)
  then show ?thesis
  proof cases
    case pool
    obtain r where r: "ca_allocate (snd b) ca = Inr r"
      using pool(2) by (auto simp: gpu_pool_alloc_def result_simps)
    show ?thesis
    proof (cases r)
      case None
      then obtain pc' where "allocate_from_reserved_memory (snd b) page_size pc = Some (fst b, pc')" "s' = (ca, pc')"
        using pool(2) r by (auto simp: gpu_pool_alloc_def split: option.splits)
      then show ?thesis
        by (intro bump [of page_size pc']) (simp_all add: page_size_def)
    next
      case (Some q)
      then show ?thesis
        using hit [of "snd q"] pool r by (auto simp: gpu_pool_alloc_def split: prod.splits)
    qed
  next
    case own
    then show ?thesis
      by (intro bump) (auto simp: prod_eq_iff)
  qed
qed

lemma device_takes_step:
  assumes inv: "device_inv s live" and b: "b \<in> set live" and t: "device_takes s b s'"
  shows "device_inv s' (remove1 b live)"
proof -
  have "free_ok (pc_head (snd s)) (fst s) live"
    using inv by (simp add: device_inv_def)
  then have "free_ok (pc_head (snd s)) (fst s) ((fst b, snd b) # remove1 b live)"
    by (rule free_ok_perm) (use b in simp)
  then show ?thesis
    using ca_release_ok inv t by (auto simp: device_inv_def device_takes_def)
qed

interpretation gpu: block_allocator device_inv device_gives device_takes
proof
  show "device_inv s' (b # live)" if "device_inv s live" "device_gives s b s'" for s live b s'
    using device_gives_step [OF that] by simp
  show "apart b c" if "device_inv s live" "device_gives s b s'" "c \<in> set live" for s live b s' c
    using device_gives_step [OF that(1,2)] that(3) by (simp add: list_all_iff)
  show "device_inv s' (remove1 b live)" if "device_inv s live" "b \<in> set live" "device_takes s b s'" for s live b s'
    using that by (rule device_takes_step)
qed

lemma device_inv_new:
  "pc_head pc \<le> pc_tail pc \<Longrightarrow> pc_tail pc \<le> 2 ^ 62 \<Longrightarrow> device_inv (new_caching_allocator merge, pc) []"
  by (simp add: device_inv_def new_caching_allocator_def free_ok_def free_blocks_def map_ok_def)

text \<open>
  A hit is a best fit: no cached block that is large enough is smaller than the one used.
\<close>

lemma ca_allocate_best_fit:
  assumes "sorted (ca_mem_blocks ca)" "ca_allocate sz ca = Inr (Some (p, ca'))"
  shows "\<exists>n. (n, p) \<in> set (ca_mem_blocks ca) \<and> iroundup sz page_size \<le> n \<and>
    (\<forall>(m, q) \<in> set (ca_mem_blocks ca). iroundup sz page_size \<le> m \<longrightarrow> (n, p) \<le> (m, q))"
proof -
  obtain n where f: "find (\<lambda>b. iroundup sz page_size \<le> fst b) (ca_mem_blocks ca) = Some (n, p)"
    using assms(2) by (auto simp: ca_allocate_def Let_def result_simps split: option.splits if_splits)
  then obtain i where i: "i < length (ca_mem_blocks ca)" "iroundup sz page_size \<le> n" "ca_mem_blocks ca ! i = (n, p)"
    "\<And>j. j < i \<Longrightarrow> \<not> iroundup sz page_size \<le> fst (ca_mem_blocks ca ! j)"
    unfolding find_Some_iff by (metis fst_conv)
  have "(n, p) \<le> (m, q)" if "(m, q) \<in> set (ca_mem_blocks ca)" "iroundup sz page_size \<le> m" for m q
  proof -
    obtain j where j: "j < length (ca_mem_blocks ca)" "ca_mem_blocks ca ! j = (m, q)"
      using \<open>(m, q) \<in> set (ca_mem_blocks ca)\<close> by (metis in_set_conv_nth)
    then have "i \<le> j"
      using i(4) [of j] that(2) by (metis fst_conv not_le)
    then show ?thesis
      using sorted_nth_mono [OF assms(1)] j i(3) by metis
  qed
  then show ?thesis
    using i nth_mem [OF i(1)] by auto
qed

section \<open>Device calls\<close>

record gpu_device =
  gd_allocations :: "alloc_info list"
  gd_cache :: caching_allocator
  gd_chunk :: prealloc_chunk
  gd_mem :: "nat \<Rightarrow> 8 word"

definition fill_bytes :: "nat \<Rightarrow> nat \<Rightarrow> 8 word \<Rightarrow> (nat \<Rightarrow> 8 word) \<Rightarrow> nat \<Rightarrow> 8 word" where
  "fill_bytes a n v m x = (if a \<le> x \<and> x < a + n then v else m x)"

text \<open>
  Without the driver's own memory pool. The reservation is made with the requested size, the
  bookkeeping and the zeroing with the size rounded up to pages.
\<close>

definition gpu_allocate_memory_runtime :: "nat \<Rightarrow> gpu_device \<Rightarrow> (nat \<times> gpu_device) result" where
  "gpu_allocate_memory_runtime sz D =
     (let n = iroundup sz page_size;
          push = \<lambda>ptr D. (length (gd_allocations D),
            D\<lparr>gd_allocations := gd_allocations D @ [\<lparr>ai_ptr = ptr, ai_size = n, ai_use_cached = True\<rparr>]\<rparr>)
      in if n = 0 then Inr (push 0 D)
         else bindE (gpu_pool_alloc sz (gd_cache D) (gd_chunk D)) (\<lambda>(ptr, ca, pc).
           Inr (push ptr (D\<lparr>gd_cache := ca, gd_chunk := pc, gd_mem := fill_bytes ptr n 0 (gd_mem D)\<rparr>))))"

definition gpu_dealloc_memory :: "nat \<Rightarrow> gpu_device \<Rightarrow> gpu_device result" where
  "gpu_dealloc_memory alloc_id D =
     (if gd_allocations D = [] then Inr D
      else guardE (alloc_id < length (gd_allocations D)) (InvalidDeviceAllocation alloc_id)
        (let info = gd_allocations D ! alloc_id in
         if ai_size info = 0 then Inr D
         else guardE (ai_ptr info \<noteq> 0) (DeallocatedTwice alloc_id)
           (Inr (D\<lparr>gd_allocations := (gd_allocations D)[alloc_id := info\<lparr>ai_ptr := 0\<rparr>],
                   gd_cache := (if ai_use_cached info then ca_release (ai_size info) (ai_ptr info) (gd_cache D)
                                else gd_cache D)\<rparr>))))"

definition runtime_allocate_ambient :: "nat \<Rightarrow> gpu_device \<Rightarrow> (nat \<times> gpu_device) option" where
  "runtime_allocate_ambient sz D =
     map_option (\<lambda>(p, pc). (p, D\<lparr>gd_chunk := pc\<rparr>)) (allocate_from_reserved_memory sz 128 (gd_chunk D))"

section \<open>Blocks that reach past their reservation\<close>

lemma iroundup_bounds:
  assumes "0 < b" "a + b \<le> 2 ^ 63"
  shows "b dvd iroundup a b" "a \<le> iroundup a b" "iroundup a b < a + b"
proof -
  define h where "h = a + b - 1"
  have h: "a + b = Suc h" "h < 2 ^ 63"
    using assms by (simp_all add: h_def)
  have m: "h mod b < b" "h mod b \<le> h"
    using assms(1) by simp_all
  have "h div b * b = h - h mod b"
    by (simp add: minus_mod_eq_div_mult)
  then have up: "iroundup a b = h - h mod b"
    using h(2) unfolding iroundup_def h_def [symmetric] by (simp add: u64_def)
  then show "b dvd iroundup a b"
    by (simp add: minus_mod_eq_div_mult)
  show "a \<le> iroundup a b" "iroundup a b < a + b"
    unfolding up using h(1) m assms(1) by linarith+
qed

lemma multiple_in_window:
  fixes a b x d :: nat
  assumes "d dvd a" "d dvd b" "x \<le> a" "a < x + d" "x \<le> b" "b < x + d"
  shows "a = b"
proof -
  have "a < b + d" "b < a + d"
    using assms(3-6) by linarith+
  moreover obtain i j where ij: "a = d * i" "b = d * j"
    using assms(1,2) by (auto elim!: dvdE)
  ultimately have "d * i < d * Suc j" "d * j < d * Suc i"
    by simp_all
  then have "i < Suc j" "j < Suc i"
    by (simp_all only: mult_less_cancel1)
  then show ?thesis
    using ij by simp
qed

lemma reserved_memory_given:
  assumes "0 < a" "pc_head pc + a + sz \<le> pc_tail pc" "pc_tail pc \<le> 2 ^ 62"
  shows "\<exists>p. allocate_from_reserved_memory sz a pc = Some (p, pc\<lparr>pc_head := p + sz\<rparr>) \<and> a dvd p \<and> pc_head pc \<le> p \<and> p < pc_head pc + a"
proof -
  define h where "h = pc_head pc + a - 1"
  define k where "k = a - 1 - h mod a"
  have h: "pc_head pc + a = Suc h" "h < 2 ^ 63" "h mod a < a"
    using assms by (simp_all add: h_def)
  then have k: "pc_head pc + k = h - h mod a" "k < a"
    using assms(1) mod_less_eq_dividend [of h a] unfolding k_def by linarith+
  have u: "u64 h = h" "u64 (sz + k) = sz + k" "u64 (pc_head pc + (sz + k)) = pc_head pc + k + sz"
    using h k(2) assms(2,3) by (simp_all add: u64_def)
  then have al: "a - 1 - u64 (pc_head pc + a - 1) mod a = k"
    by (simp only: k_def h_def)
  have "allocate_from_reserved_memory sz a pc = Some (pc_head pc + k, pc\<lparr>pc_head := pc_head pc + k + sz\<rparr>)"
    using assms(2) k(2) unfolding allocate_from_reserved_memory_def Let_def al u by simp
  moreover have "a dvd pc_head pc + k"
    unfolding k(1) by (simp add: minus_mod_eq_div_mult)
  ultimately show ?thesis
    using k(2) by (intro exI [of _ "pc_head pc + k"]) simp
qed

text \<open>A block released into an empty cache is what the next request of its size takes out.\<close>

lemma released_block_reused:
  assumes "n = iroundup sz page_size" "page_size \<le> n" "ca = ca_release n p (new_caching_allocator merge)"
  shows "\<exists>ca'. ca_allocate sz ca = Inr (Some (p, ca'))"
proof -
  have "ca_mem_blocks ca = [(n, p)]"
    using assms(2,3) by (simp add: ca_release_def new_caching_allocator_def merge_and_insert_def merge_right_def merge_left_def
        pm_touch_def pm_insert_def pm_below_def insort_insert_key_def)
  then show ?thesis
    using assms(1) by (simp add: ca_allocate_def Let_def)
qed

text \<open>
  The rounding of a request is not part of its reservation, but it is part of what its release puts into
  the cache: an object placed behind the request and before the end of its last page comes to lie inside a
  block that the cache hands out again.
\<close>

lemma object_inside_rounding:
  assumes "gd_cache D = new_caching_allocator merge" "0 < pc_head (gd_chunk D)" "pc_tail (gd_chunk D) \<le> 2 ^ 62"
    and "pc_head (gd_chunk D) + 2 * page_size + iroundup s1 page_size \<le> pc_tail (gd_chunk D)"
    and "0 < s1" "s1 < 2 ^ 62" "0 < s2" "iroundup s1 128 + s2 \<le> s3" "s3 \<le> iroundup s1 page_size"
  shows "\<exists>D1 q D2 D3 D4. gpu_allocate_memory_runtime s1 D = Inr (length (gd_allocations D), D1) \<and>
     runtime_allocate_ambient s2 D1 = Some (q, D2) \<and>
     gpu_dealloc_memory (length (gd_allocations D)) (D2\<lparr>gd_mem := (gd_mem D2)(q := v)\<rparr>) = Inr D3 \<and> gd_mem D3 q = v \<and>
     gpu_allocate_memory_runtime s3 D3 = Inr (Suc (length (gd_allocations D)), D4) \<and>
     inside (q, s2) (ai_ptr (gd_allocations D4 ! Suc (length (gd_allocations D))), s3) \<and> gd_mem D4 q = 0"
proof -
  define n where "n = iroundup s1 page_size"
  define k where "k = iroundup s1 128"
  let ?l = "length (gd_allocations D)"
  note page = page_size_def
  have n: "page_size dvd n" "s1 \<le> n" "n < s1 + page_size" and k: "128 dvd k" "s1 \<le> k" "k < s1 + 128"
    using iroundup_bounds [of page_size s1] iroundup_bounds [of 128 s1] assms(6) by (simp_all add: n_def k_def page)
  have n0: "0 < n" "page_size \<le> n"
    using n assms(5) by (auto dest: dvd_imp_le)
  have "\<exists>p. allocate_from_reserved_memory s1 page_size (gd_chunk D) = Some (p, gd_chunk D\<lparr>pc_head := p + s1\<rparr>) \<and>
      page_size dvd p \<and> pc_head (gd_chunk D) \<le> p \<and> p < pc_head (gd_chunk D) + page_size"
    using assms(3,4) n(2) by (intro reserved_memory_given) (simp_all add: page n_def)
  then obtain p where p: "allocate_from_reserved_memory s1 page_size (gd_chunk D) = Some (p, gd_chunk D\<lparr>pc_head := p + s1\<rparr>)"
    "page_size dvd p" "pc_head (gd_chunk D) \<le> p" "p < pc_head (gd_chunk D) + page_size"
    by blast
  let ?info = "\<lparr>ai_ptr = p, ai_size = n, ai_use_cached = True\<rparr>"
  let ?D1 = "D\<lparr>gd_allocations := gd_allocations D @ [?info], gd_chunk := gd_chunk D\<lparr>pc_head := p + s1\<rparr>,
      gd_mem := fill_bytes p n 0 (gd_mem D)\<rparr>"
  have 1: "gpu_allocate_memory_runtime s1 D = Inr (?l, ?D1)"
    using n0(1) p(1) assms(1)
    by (simp add: gpu_allocate_memory_runtime_def gpu_pool_alloc_def ca_allocate_def new_caching_allocator_def result_simps Let_def flip: n_def)
  have "\<exists>q. allocate_from_reserved_memory s2 128 (gd_chunk ?D1) = Some (q, gd_chunk ?D1\<lparr>pc_head := q + s2\<rparr>) \<and>
      128 dvd q \<and> pc_head (gd_chunk ?D1) \<le> q \<and> q < pc_head (gd_chunk ?D1) + 128"
    using assms(3,4,8,9) p(4) k(2) by (intro reserved_memory_given) (simp_all add: page n_def k_def)
  then obtain q where q: "allocate_from_reserved_memory s2 128 (gd_chunk ?D1) = Some (q, gd_chunk ?D1\<lparr>pc_head := q + s2\<rparr>)"
    "128 dvd q" "p + s1 \<le> q" "q < p + s1 + 128"
    by auto
  have "128 dvd p + k"
    using p(2) k(1) by (auto simp: page intro: dvd_add dvd_trans [of 128 4096])
  then have qk: "q = p + k"
    using multiple_in_window [OF q(2) _ q(3,4)] k(2,3) by simp
  let ?D2 = "?D1\<lparr>gd_chunk := gd_chunk ?D1\<lparr>pc_head := q + s2\<rparr>\<rparr>"
  have 2: "runtime_allocate_ambient s2 ?D1 = Some (q, ?D2)"
    using q(1) by (simp add: runtime_allocate_ambient_def)
  let ?D3 = "?D2\<lparr>gd_allocations := gd_allocations D @ [?info\<lparr>ai_ptr := 0\<rparr>], gd_cache := ca_release n p (gd_cache D),
      gd_mem := (gd_mem ?D2)(q := v)\<rparr>"
  have 3: "gpu_dealloc_memory ?l (?D2\<lparr>gd_mem := (gd_mem ?D2)(q := v)\<rparr>) = Inr ?D3"
    using p(3) n0(1) assms(2) by (simp add: gpu_dealloc_memory_def result_simps Let_def)
  have s3: "0 < s3" "s1 \<le> s3"
    using assms(7,8) k(2) by (simp_all add: k_def)
  have s3n: "iroundup s3 page_size = n"
  proof (rule multiple_in_window [of page_size _ _ s3])
    show "page_size dvd iroundup s3 page_size" "s3 \<le> iroundup s3 page_size" "iroundup s3 page_size < s3 + page_size"
      using iroundup_bounds [of page_size s3] assms(3,4,9) by (simp_all add: page)
    show "page_size dvd n" "s3 \<le> n" "n < s3 + page_size"
      using n s3(2) assms(9) by (simp_all add: n_def)
  qed
  obtain ca' where ca': "ca_allocate s3 (ca_release n p (gd_cache D)) = Inr (Some (p, ca'))"
    using released_block_reused [OF s3n [symmetric] n0(2) refl] assms(1) by metis
  let ?D4 = "?D3\<lparr>gd_cache := ca', gd_mem := fill_bytes p n 0 (gd_mem ?D3), gd_allocations := gd_allocations ?D3 @ [?info]\<rparr>"
  have 4: "gpu_allocate_memory_runtime s3 ?D3 = Inr (Suc ?l, ?D4)"
    using n0(1) ca' by (simp add: gpu_allocate_memory_runtime_def gpu_pool_alloc_def s3n result_simps Let_def)
  have 5: "inside (q, s2) (ai_ptr (gd_allocations ?D4 ! Suc ?l), s3)" "gd_mem ?D4 q = 0"
    using assms(7-9) by (simp_all add: inside_def fill_bytes_def nth_append qk flip: k_def n_def)
  have "gd_mem ?D3 q = v"
    by simp
  with 1 2 3 4 5 show ?thesis
    by blast
qed

section \<open>Driver allocations\<close>

text \<open>
  \<^verbatim>\<open>DeviceMemoryPool::allocate_raw_memory\<close>: the driver promises less alignment than asked for, so the
  pool over-allocates and remembers the driver's own address under the aligned one. \<open>base\<close> is what the
  driver returned, \<open>0\<close> for a failure.
\<close>

type_synonym raw_chunks = "(nat \<times> block) list"

definition device_allocate_raw :: "nat \<Rightarrow> nat \<Rightarrow> nat \<Rightarrow> raw_chunks \<Rightarrow> (nat \<times> raw_chunks) result" where
  "device_allocate_raw base sz alignment raw =
     guardE (0 < alignment) AssertFailed
       (let raw_size = u64 (sz + alignment - 1); aligned = iroundup base alignment
        in guardE (base \<noteq> 0) (AllocationFailed raw_size)
             (guardE (aligned \<notin> set (map fst raw)) (AlreadyAllocated aligned)
               (Inr (aligned, (aligned, base, raw_size) # raw))))"

text \<open>The address given back to the driver, and the remaining chunks.\<close>

definition device_deallocate_raw :: "nat \<Rightarrow> raw_chunks \<Rightarrow> (nat \<times> raw_chunks) result" where
  "device_deallocate_raw ptr raw =
     (case map_of raw ptr of
        None \<Rightarrow> Inl (NotAllocated ptr)
      | Some (base, _) \<Rightarrow> Inr (base, filter (\<lambda>e. fst e \<noteq> ptr) raw))"

lemma device_allocate_raw_props:
  assumes "device_allocate_raw base sz alignment raw = Inr (p, raw')" "sz + alignment + base < 2 ^ 64"
  shows "alignment dvd p \<and> inside (p, sz) (base, sz + alignment - 1) \<and>
    device_deallocate_raw p raw' = Inr (base, raw)"
proof -
  have al: "0 < alignment" "p = iroundup base alignment" "p \<notin> set (map fst raw)"
    "raw' = (p, base, u64 (sz + alignment - 1)) # raw"
    using assms(1) by (auto simp: device_allocate_raw_def Let_def result_simps)
  define h where "h = base + alignment - 1"
  have h: "base + alignment = Suc h" "h < 2 ^ 64"
    using al(1) assms(2) by (simp_all add: h_def)
  have m: "h mod alignment < alignment" "h mod alignment \<le> h"
    using al(1) by simp_all
  have "h div alignment * alignment = h - h mod alignment"
    by (simp add: minus_mod_eq_div_mult)
  then have p: "p = h - h mod alignment"
    using h(2) m unfolding al(2) iroundup_def h_def [symmetric] by (simp add: u64_def)
  then have "alignment dvd p"
    by (simp add: minus_mod_eq_div_mult)
  moreover have "base \<le> p" "p + sz \<le> base + (sz + alignment - 1)"
    unfolding p using h(1) m al(1) by linarith+
  moreover have "filter (\<lambda>e. fst e \<noteq> p) raw = raw"
    using al(3) by (auto simp: filter_id_conv)
  ultimately show ?thesis
    using al(4) by (simp add: inside_def device_deallocate_raw_def)
qed

end
