(* ===== verification/NodeList.thy ===== *)
theory NodeList
  imports DeviceMem
begin

text \<open>
  Sparse data in the runtime module (\<^verbatim>\<open>runtime/llvm/runtime_module/runtime.cpp\<close>): the chunked list
  \<^verbatim>\<open>ListManager\<close>, the node allocator \<^verbatim>\<open>NodeManager\<close> built from three of them, and its garbage
  collection, once by one thread and once by three parallel kernels. Addresses and sizes are natural
  numbers; a failed \<^verbatim>\<open>quadrants_assert_runtime\<close> is an error value.
\<close>

unbundle bit_operations_syntax

section \<open>Chunked lists\<close>

definition max_num_chunks :: nat where
  "max_num_chunks = 128 * 1024"

text \<open>The table of chunks, \<open>0\<close> for a chunk that is not allocated yet.\<close>

record list_manager =
  lm_chunks :: "nat \<Rightarrow> nat"
  lm_element_size :: nat
  lm_max_num_elements_per_chunk :: nat
  lm_log2chunk_num_elements :: nat
  lm_num_elements :: nat

definition is_power_of_two :: "nat \<Rightarrow> bool" where
  "is_power_of_two x \<longleftrightarrow> x \<noteq> 0 \<and> x AND (x - 1) = 0"

fun log2int :: "nat \<Rightarrow> nat" where
  "log2int value = (if value div 2 = 0 then 0 else Suc (log2int (value div 2)))"

declare log2int.simps [simp del]

definition new_list_manager :: "nat \<Rightarrow> nat \<Rightarrow> list_manager result" where
  "new_list_manager element_size num_elements_per_chunk =
     guardE (is_power_of_two num_elements_per_chunk) AssertFailed
       (Inr \<lparr>lm_chunks = \<lambda>_. 0, lm_element_size = element_size,
             lm_max_num_elements_per_chunk = num_elements_per_chunk,
             lm_log2chunk_num_elements = log2int num_elements_per_chunk, lm_num_elements = 0\<rparr>)"

definition touch_chunk :: "nat \<Rightarrow> list_manager \<Rightarrow> prealloc_chunk \<Rightarrow> (list_manager \<times> prealloc_chunk) result" where
  "touch_chunk chunk_id lm pc =
     guardE (chunk_id < max_num_chunks) AssertFailed
       (if lm_chunks lm chunk_id \<noteq> 0 then Inr (lm, pc)
        else (case allocate_from_reserved_memory (u64 (lm_max_num_elements_per_chunk lm * lm_element_size lm)) 4096 pc of
                None \<Rightarrow> Inl AssertFailed
              | Some (p, pc') \<Rightarrow> Inr (lm\<lparr>lm_chunks := (lm_chunks lm)(chunk_id := p)\<rparr>, pc')))"

definition get_element_ptr :: "list_manager \<Rightarrow> nat \<Rightarrow> nat" where
  "get_element_ptr lm i =
     lm_chunks lm (drop_bit (lm_log2chunk_num_elements lm) i) +
     lm_element_size lm * (i AND (push_bit (lm_log2chunk_num_elements lm) 1 - 1))"

definition reserve_new_element :: "list_manager \<Rightarrow> prealloc_chunk \<Rightarrow> (nat \<times> list_manager \<times> prealloc_chunk) result" where
  "reserve_new_element lm pc =
     (let i = lm_num_elements lm in
      bindE (touch_chunk (drop_bit (lm_log2chunk_num_elements lm) i) (lm\<lparr>lm_num_elements := Suc i\<rparr>) pc)
        (\<lambda>(lm', pc'). Inr (i, lm', pc')))"

text \<open>\<open>i\<close> counts the chunks searched so far, \<open>n\<close> those left; \<open>-1\<close> when none holds the pointer.\<close>

fun ptr2index_loop :: "list_manager \<Rightarrow> nat \<Rightarrow> nat \<Rightarrow> nat \<Rightarrow> int result" where
  "ptr2index_loop lm ptr i 0 = Inr (-1)"
| "ptr2index_loop lm ptr i (Suc n) =
     (let base = lm_chunks lm i; chunk_size = lm_max_num_elements_per_chunk lm * lm_element_size lm in
      guardE (base \<noteq> 0) AssertFailed
        (if base \<le> ptr \<and> ptr < base + chunk_size
         then Inr (int (push_bit (lm_log2chunk_num_elements lm) i + (ptr - base) div lm_element_size lm))
         else ptr2index_loop lm ptr (Suc i) n))"

definition ptr2index :: "list_manager \<Rightarrow> nat \<Rightarrow> int result" where
  "ptr2index lm ptr = ptr2index_loop lm ptr 0 max_num_chunks"

section \<open>The node allocator\<close>

text \<open>
  A chunked list of 32-bit indices: its chunks come from the preallocated chunk like those of any other
  list, while its slots, which keep their values when the list shrinks, are kept beside the memory of the
  nodes.
\<close>

record index_list =
  il_get :: "nat \<Rightarrow> nat"
  il_list :: list_manager

abbreviation il_size :: "index_list \<Rightarrow> nat" where
  "il_size l \<equiv> lm_num_elements (il_list l)"

definition il_resize :: "nat \<Rightarrow> index_list \<Rightarrow> index_list" where
  "il_resize n l = l\<lparr>il_list := (il_list l)\<lparr>lm_num_elements := n\<rparr>\<rparr>"

definition il_push_back :: "nat \<Rightarrow> index_list \<Rightarrow> prealloc_chunk \<Rightarrow> (index_list \<times> prealloc_chunk) result" where
  "il_push_back v l pc =
     bindE (reserve_new_element (il_list l) pc) (\<lambda>(i, lm, pc').
       Inr (\<lparr>il_get = (il_get l)(i := v), il_list = lm\<rparr>, pc'))"

definition il_contents :: "index_list \<Rightarrow> nat list" where
  "il_contents l = map (il_get l) [0..<il_size l]"

record node_manager =
  nm_free_list_used :: nat
  nm_free_list :: index_list
  nm_recycled_list :: index_list
  nm_data_list :: list_manager
  nm_recycle_list_size_backup :: nat
  nm_chunk :: prealloc_chunk
  nm_mem :: "nat \<Rightarrow> 8 word"

function halve_chunk :: "nat \<Rightarrow> nat \<Rightarrow> nat" where
  "halve_chunk chunk_num_elements element_size =
     (if 1 < chunk_num_elements \<and> 128 * 1024 * 1024 < u64 (chunk_num_elements * element_size)
      then halve_chunk (chunk_num_elements div 2) element_size else chunk_num_elements)"
  by pat_completeness auto

termination halve_chunk
  by (relation "measure fst") auto

declare halve_chunk.simps [simp del]

definition new_node_manager :: "nat \<Rightarrow> nat option \<Rightarrow> prealloc_chunk \<Rightarrow> (nat \<Rightarrow> 8 word) \<Rightarrow> node_manager result" where
  "new_node_manager element_size chunk_num_elements pc m =
     (let n = halve_chunk (case chunk_num_elements of None \<Rightarrow> 128 * 1024 | Some n \<Rightarrow> n) element_size in
      bindE (new_list_manager 4 n) (\<lambda>indices.
        bindE (new_list_manager element_size n) (\<lambda>data_list.
          (let empty = \<lparr>il_get = \<lambda>_. 0, il_list = indices\<rparr>
           in Inr \<lparr>nm_free_list_used = 0, nm_free_list = empty, nm_recycled_list = empty, nm_data_list = data_list,
                nm_recycle_list_size_backup = 0, nm_chunk = pc, nm_mem = m\<rparr>))))"

definition nm_allocate :: "node_manager \<Rightarrow> (nat \<times> node_manager) result" where
  "nm_allocate nm =
     (let old_cursor = nm_free_list_used nm; nm1 = nm\<lparr>nm_free_list_used := Suc old_cursor\<rparr> in
      if il_size (nm_free_list nm) \<le> old_cursor
      then bindE (reserve_new_element (nm_data_list nm) (nm_chunk nm)) (\<lambda>(l, data, pc).
             Inr (get_element_ptr data l, nm1\<lparr>nm_data_list := data, nm_chunk := pc\<rparr>))
      else Inr (get_element_ptr (nm_data_list nm) (il_get (nm_free_list nm) old_cursor), nm1))"

text \<open>A pointer in none of the chunks would be recorded as index \<open>-1\<close>; here it is an error.\<close>

definition nm_recycle :: "nat \<Rightarrow> node_manager \<Rightarrow> node_manager result" where
  "nm_recycle ptr nm =
     bindE (ptr2index (nm_data_list nm) ptr) (\<lambda>index.
       guardE (0 \<le> index) (NotAllocated ptr)
         (bindE (il_push_back (nat index) (nm_recycled_list nm) (nm_chunk nm)) (\<lambda>(l, pc).
           Inr (nm\<lparr>nm_recycled_list := l, nm_chunk := pc\<rparr>))))"

section \<open>Garbage collection by one thread\<close>

definition compact_free_list :: "nat \<Rightarrow> nat \<Rightarrow> (nat \<Rightarrow> nat) \<Rightarrow> nat \<Rightarrow> nat" where
  "compact_free_list used sz g = foldl (\<lambda>g i. g(i - used := g i)) g [used..<sz]"

text \<open>
  The loop over recycled entries of both collections: \<open>clr k\<close> clears the node of entry \<open>k\<close>, whose index then
  goes to the free list, which may have to grow.
\<close>

primrec recycle_all ::
  "(nat \<Rightarrow> nat \<Rightarrow> nat \<Rightarrow> (nat \<Rightarrow> 8 word) \<Rightarrow> nat \<Rightarrow> 8 word) \<Rightarrow> nat list \<Rightarrow> node_manager \<Rightarrow> node_manager result" where
  "recycle_all clr [] nm = Inr nm"
| "recycle_all clr (k # ks) nm =
     (let idx = il_get (nm_recycled_list nm) k in
      bindE (il_push_back idx (nm_free_list nm) (nm_chunk nm)) (\<lambda>(l, pc).
        recycle_all clr ks
          (nm\<lparr>nm_mem := clr k (get_element_ptr (nm_data_list nm) idx) (lm_element_size (nm_data_list nm)) (nm_mem nm),
              nm_free_list := l, nm_chunk := pc\<rparr>)))"

definition gc_serial :: "node_manager \<Rightarrow> node_manager result" where
  "gc_serial nm =
     (let used = nm_free_list_used nm; fl = nm_free_list nm;
          nm1 = nm\<lparr>nm_free_list_used := 0,
                   nm_free_list := il_resize (il_size fl - used)
                     (fl\<lparr>il_get := compact_free_list used (il_size fl) (il_get fl)\<rparr>)\<rparr>
      in bindE (recycle_all (\<lambda>k ptr n m. fill_bytes ptr n 0 m) [0..<il_size (nm_recycled_list nm1)] nm1) (\<lambda>nm2.
           Inr (nm2\<lparr>nm_recycled_list := il_resize 0 (nm_recycled_list nm2)\<rparr>)))"

section \<open>Garbage collection by three parallel kernels\<close>

text \<open>
  The first kernel: the copies \<open>(destination, source)\<close> the grid makes. Thread \<open>t\<close> of \<open>n\<close> takes every
  \<open>n\<close>-th of them from its own index on.
\<close>

definition gc_copies :: "nat \<Rightarrow> nat \<Rightarrow> (nat \<times> nat) list" where
  "gc_copies used sz =
     (if int sz < wrap32 (int used * 2)
      then map (\<lambda>i. (i, used + i)) [0..<sz - used]
      else map (\<lambda>i. (i, sz - used + i)) [0..<used])"

text \<open>\<^verbatim>\<open>i = t; while (i < cnt) { ...; i += n; }\<close>.\<close>

function strided :: "nat \<Rightarrow> nat \<Rightarrow> nat \<Rightarrow> nat list" where
  "strided n cnt i = (if i < cnt \<and> 0 < n then i # strided n cnt (i + n) else [])"
  by pat_completeness auto

termination strided
  by (relation "measure (\<lambda>(n, cnt, i). cnt - i)") auto

declare strided.simps [simp del]

definition grid_indices :: "nat \<Rightarrow> nat \<Rightarrow> nat list" where
  "grid_indices n cnt = concat (map (strided n cnt) [0..<n])"

text \<open>\<open>order\<close> is the order in which the copies of all threads take effect.\<close>

definition gc_parallel_0 :: "nat list \<Rightarrow> node_manager \<Rightarrow> node_manager" where
  "gc_parallel_0 order nm =
     (let fl = nm_free_list nm; copies = gc_copies (nm_free_list_used nm) (il_size fl)
      in nm\<lparr>nm_free_list := fl\<lparr>il_get := foldl (\<lambda>g k. g(fst (copies ! k) := g (snd (copies ! k)))) (il_get fl) order\<rparr>\<rparr>)"

definition gc_parallel_1 :: "node_manager \<Rightarrow> node_manager" where
  "gc_parallel_1 nm =
     nm\<lparr>nm_free_list := il_resize (il_size (nm_free_list nm) - nm_free_list_used nm) (nm_free_list nm),
        nm_free_list_used := 0,
        nm_recycle_list_size_backup := il_size (nm_recycled_list nm),
        nm_recycled_list := il_resize 0 (nm_recycled_list nm)\<rparr>"

text \<open>What one thread of a block clears: whole words, \<open>block_dim\<close> apart, then single bytes to the end.\<close>

function clear_words :: "nat \<Rightarrow> nat \<Rightarrow> nat \<Rightarrow> (nat \<Rightarrow> 8 word) \<Rightarrow> nat \<times> (nat \<Rightarrow> 8 word)" where
  "clear_words block_dim ptr ptr_stop m =
     (if ptr + 4 \<le> ptr_stop \<and> 0 < block_dim
      then clear_words block_dim (ptr + 4 * block_dim) ptr_stop (fill_bytes ptr 4 0 m) else (ptr, m))"
  by pat_completeness auto

termination clear_words
  by (relation "measure (\<lambda>(bd, ptr, stop, m). stop - ptr)") auto

declare clear_words.simps [simp del]

definition clear_from :: "nat \<Rightarrow> nat \<Rightarrow> nat \<Rightarrow> (nat \<Rightarrow> 8 word) \<Rightarrow> nat \<Rightarrow> 8 word" where
  "clear_from block_dim ptr ptr_stop m =
     (case clear_words block_dim ptr ptr_stop m of (p, m') \<Rightarrow> fill_bytes p (ptr_stop - p) 0 m')"

definition clear_thread :: "nat \<Rightarrow> nat \<Rightarrow> nat \<Rightarrow> nat \<Rightarrow> (nat \<Rightarrow> 8 word) \<Rightarrow> nat \<Rightarrow> 8 word" where
  "clear_thread block_dim ptr element_size t m =
     (let ptr_stop = ptr + element_size in
      if ptr mod 4 \<noteq> 0
      then (let new_ptr = ptr + 4 - ptr mod 4; m' = (if t = 0 then fill_bytes ptr (new_ptr - ptr) 0 m else m)
            in clear_from block_dim (new_ptr + t * 4) ptr_stop m')
      else clear_from block_dim (ptr + t * 4) ptr_stop m)"

definition clear_block :: "nat list \<Rightarrow> nat \<Rightarrow> nat \<Rightarrow> nat \<Rightarrow> (nat \<Rightarrow> 8 word) \<Rightarrow> nat \<Rightarrow> 8 word" where
  "clear_block threads block_dim ptr element_size m = foldl (\<lambda>m t. clear_thread block_dim ptr element_size t m) m threads"

text \<open>
  The third kernel: \<open>order\<close> lists the recycled entries as their blocks get to them, \<open>threads k\<close> the
  threads of a block in the order in which they clear entry \<open>k\<close>.
\<close>

definition gc_parallel_2 :: "nat list \<Rightarrow> (nat \<Rightarrow> nat list) \<Rightarrow> nat \<Rightarrow> node_manager \<Rightarrow> node_manager result" where
  "gc_parallel_2 order threads block_dim nm =
     recycle_all (\<lambda>k ptr n m. clear_block (threads k) block_dim ptr n m) order nm"

definition gc_parallel :: "nat list \<Rightarrow> nat list \<Rightarrow> (nat \<Rightarrow> nat list) \<Rightarrow> nat \<Rightarrow> node_manager \<Rightarrow> node_manager result" where
  "gc_parallel order0 order2 threads block_dim nm =
     gc_parallel_2 order2 threads block_dim (gc_parallel_1 (gc_parallel_0 order0 nm))"

section \<open>What the collections do\<close>

lemma compact_free_list_eq:
  "compact_free_list used sz g x = (if x < sz - used then g (used + x) else g x)"
proof (induction sz arbitrary: x)
  case 0
  then show ?case
    by (simp add: compact_free_list_def)
next
  case (Suc sz)
  show ?case
  proof (cases "used \<le> sz")
    case True
    then have "compact_free_list used (Suc sz) g =
        (compact_free_list used sz g)(sz - used := compact_free_list used sz g sz)"
      by (simp add: compact_free_list_def)
    then show ?thesis
      using Suc [of x] Suc [of sz] True by (auto simp: Suc_diff_le less_Suc_eq)
  next
    case False
    then show ?thesis
      by (simp add: compact_free_list_def)
  qed
qed

lemma clear_from_eq:
  assumes "0 < block_dim"
  shows "clear_from block_dim p stop m x =
    (if p \<le> x \<and> x < stop \<and> ((x - p) div 4) mod block_dim = 0 then 0 else m x)"
  using assms
proof (induction block_dim p stop m rule: clear_words.induct)
  case (1 bd p stop m)
  show ?case
  proof (cases "p + 4 \<le> stop")
    case True
    let ?q = "p + 4 * bd"
    have IH: "clear_from bd p stop m x =
        (if ?q \<le> x \<and> x < stop \<and> ((x - ?q) div 4) mod bd = 0 then 0 else fill_bytes p 4 0 m x)"
      using 1 True by (simp add: clear_from_def clear_words.simps [of bd p stop m])
    consider "x < p" | "p \<le> x" "x < p + 4" | "p + 4 \<le> x" "x < ?q" | "?q \<le> x"
      by linarith
    then show ?thesis
    proof cases
      case 3
      then have "0 < (x - p) div 4" "(x - p) div 4 < bd"
        by auto
      then have "((x - p) div 4) mod bd \<noteq> 0"
        by simp
      then show ?thesis
        using IH 3 by (simp add: fill_bytes_def)
    next
      case 4
      have "x - p = (x - ?q) + 4 * bd"
        using 4 by simp
      then have "(x - p) div 4 = bd + (x - ?q) div 4"
        by simp
      then show ?thesis
        using IH 4 "1.prems" by (simp add: fill_bytes_def)
    qed (use IH True in \<open>auto simp: fill_bytes_def\<close>)
  next
    case False
    then show ?thesis
      by (auto simp: clear_from_def clear_words.simps [of bd p stop m] fill_bytes_def)
  qed
qed

text \<open>A thread clears the words of its own residue class, the first thread also the bytes before them.\<close>

lemma clear_thread_eq:
  assumes "t < block_dim"
  shows "clear_thread block_dim ptr esz t m x =
    (let first = (if ptr mod 4 = 0 then ptr else ptr + 4 - ptr mod 4)
     in if t = 0 \<and> ptr \<le> x \<and> x < first \<or>
           first \<le> x \<and> x < ptr + esz \<and> ((x - first) div 4) mod block_dim = t then 0 else m x)"
proof -
  have bd: "0 < block_dim"
    using assms by simp
  have own: "(f + t * 4 \<le> x \<and> x < stop \<and> ((x - (f + t * 4)) div 4) mod block_dim = 0) \<longleftrightarrow>
      (f \<le> x \<and> x < stop \<and> ((x - f) div 4) mod block_dim = t)" for f stop
  proof (cases "f + t * 4 \<le> x")
    case True
    have "x - f = (x - (f + t * 4)) + 4 * t"
      using True by simp
    then have "(x - f) div 4 = t + (x - (f + t * 4)) div 4"
      by simp
    moreover have "(t + w) mod block_dim = t \<longleftrightarrow> w mod block_dim = 0" for w
      using assms mod_eq_dvd_iff_nat [of t "t + w" block_dim] by (simp add: dvd_eq_mod_eq_0)
    ultimately show ?thesis
      using True by auto
  next
    case False
    have "((x - f) div 4) mod block_dim \<noteq> t" if "f \<le> x"
    proof -
      have "(x - f) div 4 < t"
        using that False by auto
      then show ?thesis
        using mod_less_eq_dividend [of "(x - f) div 4" block_dim] by linarith
    qed
    then show ?thesis
      using False by auto
  qed
  have cf: "clear_from block_dim (f + t * 4) stop m x =
      (if f \<le> x \<and> x < stop \<and> ((x - f) div 4) mod block_dim = t then 0 else m x)" for f stop m
    unfolding clear_from_eq [OF bd] own by (rule refl)
  define f where "f = ptr + 4 - ptr mod 4"
  have "ptr \<le> f"
    using mod_less_divisor [of 4 ptr] by (simp add: f_def)
  then show ?thesis
    unfolding clear_thread_def Let_def f_def [symmetric]
    by (cases "ptr mod 4 = 0") (simp_all add: cf fill_bytes_def)
qed

definition no_overrun :: "nat \<Rightarrow> nat \<Rightarrow> bool" where
  "no_overrun ptr esz \<longleftrightarrow> ptr mod 4 = 0 \<or> 4 - ptr mod 4 \<le> esz"

text \<open>A block whose threads all run clears exactly the element, in whatever order they do.\<close>

lemma clear_block_eq:
  assumes "set threads = {..<block_dim}" "no_overrun ptr esz" "0 < block_dim"
  shows "clear_block threads block_dim ptr esz m = fill_bytes ptr esz 0 m"
proof
  fix x
  define f where "f = (if ptr mod 4 = 0 then ptr else ptr + 4 - ptr mod 4)"
  define own where "own t \<longleftrightarrow> t = 0 \<and> ptr \<le> x \<and> x < f \<or>
      f \<le> x \<and> x < ptr + esz \<and> ((x - f) div 4) mod block_dim = t" for t
  have step: "clear_thread block_dim ptr esz t m x = (if own t then 0 else m x)" if "t < block_dim" for t m
    unfolding clear_thread_eq [OF that] Let_def f_def [symmetric] own_def by (rule refl)
  have gen: "clear_block ts block_dim ptr esz m x = (if \<exists>t \<in> set ts. own t then 0 else m x)"
    if "set ts \<subseteq> {..<block_dim}" for ts
    using that
  proof (induction ts rule: rev_induct)
    case (snoc t ts)
    have "clear_block (ts @ [t]) block_dim ptr esz m x = (if own t then 0 else clear_block ts block_dim ptr esz m x)"
      using step [of t] snoc.prems by (simp add: clear_block_def)
    then show ?case
      using snoc by simp
  qed (simp add: clear_block_def)
  have f: "ptr \<le> f" "f \<le> ptr + esz"
    using assms(2) mod_less_divisor [of 4 ptr] by (auto simp: no_overrun_def f_def)
  have "(\<exists>t \<in> set threads. own t) \<longleftrightarrow> ptr \<le> x \<and> x < ptr + esz"
  proof
    show "ptr \<le> x \<and> x < ptr + esz" if "\<exists>t \<in> set threads. own t"
      using that f by (auto simp: own_def)
    show "\<exists>t \<in> set threads. own t" if "ptr \<le> x \<and> x < ptr + esz"
    proof (cases "x < f")
      case True
      then show ?thesis
        using that assms(1,3) by (intro bexI [of _ 0]) (simp_all add: own_def)
    next
      case False
      then show ?thesis
        using that assms(1,3) by (intro bexI [of _ "((x - f) div 4) mod block_dim"]) (simp_all add: own_def)
    qed
  qed
  then show "clear_block threads block_dim ptr esz m x = fill_bytes ptr esz 0 m x"
    using gen [of threads] assms(1) by (simp add: fill_bytes_def)
qed

text \<open>Elements of a chunk that starts on a word boundary are cleared exactly unless they are single bytes.\<close>

lemma no_overrun_element:
  assumes "base mod 4 = 0" "esz \<noteq> 1"
  shows "no_overrun (base + esz * k) esz"
proof (cases "esz \<le> 2")
  case True
  then have "esz = 0 \<or> esz = 2"
    using assms(2) by auto
  moreover have "(base + 2 * k) mod 4 = 0 \<or> (base + 2 * k) mod 4 = 2"
    using assms(1) by presburger
  ultimately show ?thesis
    using assms(1) by (auto simp: no_overrun_def)
next
  case False
  then show ?thesis
    unfolding no_overrun_def by linarith
qed

lemma il_resize_simps [simp]: "il_get (il_resize n l) = il_get l" "il_list (il_resize n l) = (il_list l)\<lparr>lm_num_elements := n\<rparr>"
  by (simp_all add: il_resize_def)

lemma reserve_index:
  "reserve_new_element lm pc = Inr (i, lm', pc') \<Longrightarrow> i = lm_num_elements lm \<and> lm_num_elements lm' = Suc (lm_num_elements lm)"
  by (auto simp: reserve_new_element_def touch_chunk_def Let_def result_simps split: option.splits if_splits)

lemma il_push_back_contents:
  "il_push_back v l pc = Inr (l', pc') \<Longrightarrow> il_contents l' = il_contents l @ [v]"
  by (auto simp: il_push_back_def result_simps il_contents_def dest!: reserve_index)

text \<open>Appending \<open>n\<close> entries to a list, and the slots they fill.\<close>

primrec grow_list :: "nat \<Rightarrow> list_manager \<Rightarrow> prealloc_chunk \<Rightarrow> (list_manager \<times> prealloc_chunk) result" where
  "grow_list 0 lm pc = Inr (lm, pc)"
| "grow_list (Suc n) lm pc = bindE (reserve_new_element lm pc) (\<lambda>(i, lm', pc'). grow_list n lm' pc')"

primrec put_all :: "nat list \<Rightarrow> nat \<Rightarrow> (nat \<Rightarrow> nat) \<Rightarrow> nat \<Rightarrow> nat" where
  "put_all [] i g = g"
| "put_all (v # vs) i g = put_all vs (Suc i) (g(i := v))"

lemma grow_list_size: "grow_list n lm pc = Inr (lm', pc') \<Longrightarrow> lm_num_elements lm' = lm_num_elements lm + n"
  by (induction n arbitrary: lm pc) (auto simp: result_simps dest!: reserve_index)

lemma map_put_all: "map (put_all vs i g) [0..<i + length vs] = map g [0..<i] @ vs"
proof (induction vs arbitrary: i g)
  case (Cons v vs)
  have "map (g(i := v)) [0..<Suc i] = map g [0..<i] @ [v]"
    by simp
  with Cons [of "Suc i" "g(i := v)"] show ?case
    by (simp only: put_all.simps list.size add_Suc add_Suc_right add_0_right append.simps append_assoc)
qed simp

lemma grown_contents:
  assumes "grow_list (length vs) (il_list l) pc = Inr (lm, pc')"
  shows "il_contents \<lparr>il_get = put_all vs (il_size l) (il_get l), il_list = lm\<rparr> = il_contents l @ vs"
  using grow_list_size [OF assms] by (simp add: il_contents_def map_put_all)

lemma gc_copies_apart:
  assumes "used < 2 ^ 30"
  shows "length (gc_copies used sz) = (if sz < used * 2 then sz - used else used)"
    and "k < length (gc_copies used sz) \<Longrightarrow>
      gc_copies used sz ! k = (k, if sz < used * 2 then used + k else sz - used + k)"
proof -
  have "wrap32 (int used * 2) = int used * 2"
    using assms by (intro wrap32_id) (simp add: fits32_def)
  then have "int sz < wrap32 (int used * 2) \<longleftrightarrow> sz < used * 2"
    by linarith
  then show "length (gc_copies used sz) = (if sz < used * 2 then sz - used else used)"
    and "k < length (gc_copies used sz) \<Longrightarrow>
      gc_copies used sz ! k = (k, if sz < used * 2 then used + k else sz - used + k)"
    by (simp_all add: gc_copies_def split: if_splits)
qed

text \<open>Copies from above a range into it may run in any order.\<close>

lemma copies_any_order:
  assumes "\<And>k. k < n \<Longrightarrow> fst (c ! k) = k \<and> n \<le> snd (c ! k)" "set ks \<subseteq> {..<n}"
  shows "foldl (\<lambda>g k. g(fst (c ! k) := g (snd (c ! k)))) g ks y = (if y \<in> set ks then g (snd (c ! y)) else g y)"
  using assms(2)
proof (induction ks arbitrary: y rule: rev_induct)
  case (snoc k ks)
  have "snd (c ! k) \<notin> set ks" "fst (c ! k) = k"
    using snoc.prems assms(1) [of k] by auto
  then show ?case
    using snoc by simp
qed simp

lemma gc_parallel_0_eq:
  assumes small: "nm_free_list_used nm < 2 ^ 30"
    and order: "set order = {..<length (gc_copies (nm_free_list_used nm) (il_size (nm_free_list nm)))}"
  shows "il_get (nm_free_list (gc_parallel_0 order nm)) x =
    (let used = nm_free_list_used nm; sz = il_size (nm_free_list nm); g = il_get (nm_free_list nm)
     in if sz < used * 2 then (if x < sz - used then g (used + x) else g x)
        else (if x < used then g (sz - used + x) else g x))"
proof -
  let ?used = "nm_free_list_used nm" and ?sz = "il_size (nm_free_list nm)"
  let ?c = "gc_copies ?used ?sz"
  note c = gc_copies_apart [OF small, where sz = ?sz]
  have "fst (?c ! k) = k \<and> length ?c \<le> snd (?c ! k)" if "k < length ?c" for k
    using that c by (auto split: if_splits)
  note any = copies_any_order [of "length ?c" ?c order "il_get (nm_free_list nm)" x, OF this]
  have "il_get (nm_free_list (gc_parallel_0 order nm)) x =
      foldl (\<lambda>g k. g(fst (?c ! k) := g (snd (?c ! k)))) (il_get (nm_free_list nm)) order x"
    by (simp add: gc_parallel_0_def Let_def)
  also have "\<dots> = (if x < length ?c then il_get (nm_free_list nm) (snd (?c ! x)) else il_get (nm_free_list nm) x)"
    using order by (subst any) simp_all
  finally show ?thesis
    using c by (auto simp: Let_def split: if_splits)
qed

text \<open>The entries not handed out yet survive both ways, the parallel one in another order.\<close>

definition unused_entries :: "node_manager \<Rightarrow> nat list" where
  "unused_entries nm = map (il_get (nm_free_list nm)) [nm_free_list_used nm..<il_size (nm_free_list nm)]"

lemma compact_contents:
  "il_contents (il_resize (sz - used) (l\<lparr>il_get := compact_free_list used sz g\<rparr>)) = map g [used..<sz]"
  by (rule nth_equalityI) (simp_all add: il_contents_def compact_free_list_eq)

lemma gc_parallel_1_contents:
  assumes small: "nm_free_list_used nm < 2 ^ 30"
    and order: "set order = {..<length (gc_copies (nm_free_list_used nm) (il_size (nm_free_list nm)))}"
  shows "mset (il_contents (nm_free_list (gc_parallel_1 (gc_parallel_0 order nm)))) = mset (unused_entries nm)"
proof -
  let ?used = "nm_free_list_used nm" and ?sz = "il_size (nm_free_list nm)" and ?g = "il_get (nm_free_list nm)"
  let ?g' = "il_get (nm_free_list (gc_parallel_0 order nm))"
  note g' = gc_parallel_0_eq [OF small order]
  have c: "il_contents (nm_free_list (gc_parallel_1 (gc_parallel_0 order nm))) = map ?g' [0..<?sz - ?used]"
    by (simp add: gc_parallel_1_def il_contents_def gc_parallel_0_def Let_def)
  show ?thesis
  proof (cases "?sz < ?used * 2")
    case True
    then have "map ?g' [0..<?sz - ?used] = map ?g [?used..<?sz]"
      by (intro nth_equalityI) (simp_all add: g' Let_def)
    then show ?thesis
      by (simp add: c unused_entries_def)
  next
    case False
    then have le: "?used \<le> ?sz - ?used"
      by simp
    have 1: "[0..<?sz - ?used] = [0..<?used] @ [?used..<?sz - ?used]"
      using le upt_add_eq_append [of 0 ?used "?sz - ?used - ?used"] by simp
    have 2: "map ?g' [0..<?used] = map ?g [?sz - ?used..<?sz]"
      using False by (intro nth_equalityI) (simp_all add: g' Let_def)
    have 3: "map ?g' [?used..<?sz - ?used] = map ?g [?used..<?sz - ?used]"
      using False by (simp add: g' Let_def)
    have 4: "[?used..<?sz] = [?used..<?sz - ?used] @ [?sz - ?used..<?sz]"
      using upt_add_eq_append [OF le, of ?used] False by simp
    show ?thesis
      unfolding c unused_entries_def 1 4 map_append 2 3 by simp
  qed
qed

lemma fill_fold:
  "foldl (\<lambda>m k. fill_bytes (a k) n 0 m) m ks x = (if \<exists>k \<in> set ks. a k \<le> x \<and> x < a k + n then 0 else m x)"
  by (induction ks rule: rev_induct) (auto simp: fill_bytes_def)

text \<open>The loops over the recycled entries, with their effect on the memory and on the free list.\<close>

lemma recycle_all_eq:
  "recycle_all clr ks nm =
     bindE (grow_list (length ks) (il_list (nm_free_list nm)) (nm_chunk nm)) (\<lambda>(lm, pc).
       Inr (nm\<lparr>nm_mem := foldl (\<lambda>m k. clr k (get_element_ptr (nm_data_list nm) (il_get (nm_recycled_list nm) k))
              (lm_element_size (nm_data_list nm)) m) (nm_mem nm) ks,
          nm_free_list := \<lparr>il_get = put_all (map (il_get (nm_recycled_list nm)) ks) (il_size (nm_free_list nm)) (il_get (nm_free_list nm)),
            il_list = lm\<rparr>, nm_chunk := pc\<rparr>))"
proof (induction ks arbitrary: nm)
  case (Cons k ks)
  show ?case
  proof (cases "reserve_new_element (il_list (nm_free_list nm)) (nm_chunk nm)")
    case (Inr r)
    obtain i lm pc where r: "r = (i, lm, pc)"
      by (cases r)
    then have "i = il_size (nm_free_list nm)" "lm_num_elements lm = Suc i"
      using reserve_index Inr by blast+
    then show ?thesis
      using Inr r by (simp add: il_push_back_def Let_def Cons)
  qed (simp add: il_push_back_def Let_def)
qed simp

text \<open>The grid-strided loops of all threads cover every index once.\<close>

lemma set_strided: "0 < n \<Longrightarrow> set (strided n cnt i) = {j. i \<le> j \<and> j < cnt \<and> n dvd j - i}"
proof (induction n cnt i rule: strided.induct)
  case (1 n cnt i)
  show ?case
  proof (cases "i < cnt")
    case True
    have "n dvd j - i \<longleftrightarrow> j = i \<or> i + n \<le> j \<and> n dvd j - (i + n)" if "i \<le> j" for j
    proof (cases "i + n \<le> j")
      case True
      then have "j - i = (j - (i + n)) + n"
        by simp
      then show ?thesis
        using True "1.prems" by (metis add_le_same_cancel1 dvd_add_triv_right_iff not_less)
    next
      case False
      then show ?thesis
        using that "1.prems" by (auto dest: dvd_imp_le)
    qed
    then have "{j. i \<le> j \<and> j < cnt \<and> n dvd j - i} = insert i {j. i + n \<le> j \<and> j < cnt \<and> n dvd j - (i + n)}"
      using True by auto
    then show ?thesis
      using 1 True by (simp add: strided.simps [of n cnt i])
  qed (auto simp: strided.simps [of n cnt i])
qed

lemma distinct_strided: "distinct (strided n cnt i)"
proof (induction n cnt i rule: strided.induct)
  case (1 n cnt i)
  then show ?case
    using set_strided [of n cnt "i + n"] by (auto simp: strided.simps [of n cnt i])
qed

lemma mset_grid_indices:
  assumes "0 < n"
  shows "mset (grid_indices n cnt) = mset [0..<cnt]"
proof (rule set_eq_iff_mset_eq_distinct [THEN iffD1])
  have own: "j mod n = t" if "j \<in> set (strided n cnt t)" "t < n" for j t
    using that assms mod_eq_dvd_iff_nat [of t j n] by (auto simp: set_strided)
  have "distinct (concat (map (strided n cnt) ts))" if "distinct ts" "set ts \<subseteq> {..<n}" for ts
    using that
  proof (induction ts)
    case (Cons t ts)
    have "j \<notin> set (strided n cnt t')" if "j \<in> set (strided n cnt t)" "t' \<in> set ts" for j t'
      using own [of j t] own [of j t'] that Cons.prems by auto
    then show ?case
      using Cons distinct_strided by auto
  qed simp
  from this [of "[0..<n]"] show "distinct (grid_indices n cnt)"
    by (simp add: grid_indices_def atLeast0LessThan)
  show "distinct [0..<cnt]"
    by simp
  have "j \<in> set (strided n cnt (j mod n))" if "j < cnt" for j
    using that assms by (simp add: set_strided)
  note here = this
  show "set (grid_indices n cnt) = set [0..<cnt]"
  proof (intro set_eqI iffI)
    show "j \<in> set [0..<cnt]" if "j \<in> set (grid_indices n cnt)" for j
      using that assms by (auto simp: grid_indices_def set_strided)
    show "j \<in> set (grid_indices n cnt)" if "j \<in> set [0..<cnt]" for j
      using here [of j] that assms by (auto simp: grid_indices_def intro!: bexI [of _ "j mod n"])
  qed
qed

text \<open>
  Three kernels with any interleaving of their threads do what the serial collection does, up to the
  order of the free list.
\<close>

lemma gc_serial_eq:
  "gc_serial nm =
     bindE (grow_list (il_size (nm_recycled_list nm))
         ((il_list (nm_free_list nm))\<lparr>lm_num_elements := il_size (nm_free_list nm) - nm_free_list_used nm\<rparr>) (nm_chunk nm)) (\<lambda>(lm, pc).
       Inr (nm\<lparr>nm_free_list_used := 0,
          nm_mem := foldl (\<lambda>m k. fill_bytes (get_element_ptr (nm_data_list nm) (il_get (nm_recycled_list nm) k))
            (lm_element_size (nm_data_list nm)) 0 m) (nm_mem nm) [0..<il_size (nm_recycled_list nm)],
          nm_free_list := \<lparr>il_get = put_all (il_contents (nm_recycled_list nm)) (il_size (nm_free_list nm) - nm_free_list_used nm)
              (compact_free_list (nm_free_list_used nm) (il_size (nm_free_list nm)) (il_get (nm_free_list nm))), il_list = lm\<rparr>,
          nm_chunk := pc, nm_recycled_list := il_resize 0 (nm_recycled_list nm)\<rparr>))"
  by (auto simp: gc_serial_def Let_def recycle_all_eq il_contents_def bindE_def split: sum.splits)

lemma gc_parallel_eq:
  assumes "\<And>k. set (threads k) = {..<block_dim}" "0 < block_dim" "lm_element_size (nm_data_list nm) \<noteq> 1"
    and "\<And>i. lm_chunks (nm_data_list nm) i mod 4 = 0"
  shows "gc_parallel order0 order2 threads block_dim nm =
     bindE (grow_list (length order2)
         ((il_list (nm_free_list nm))\<lparr>lm_num_elements := il_size (nm_free_list nm) - nm_free_list_used nm\<rparr>) (nm_chunk nm)) (\<lambda>(lm, pc).
       Inr (nm\<lparr>nm_free_list_used := 0, nm_recycle_list_size_backup := il_size (nm_recycled_list nm),
          nm_mem := foldl (\<lambda>m k. fill_bytes (get_element_ptr (nm_data_list nm) (il_get (nm_recycled_list nm) k))
            (lm_element_size (nm_data_list nm)) 0 m) (nm_mem nm) order2,
          nm_free_list := \<lparr>il_get = put_all (map (il_get (nm_recycled_list nm)) order2) (il_size (nm_free_list nm) - nm_free_list_used nm)
              (il_get (nm_free_list (gc_parallel_0 order0 nm))), il_list = lm\<rparr>,
          nm_chunk := pc, nm_recycled_list := il_resize 0 (nm_recycled_list nm)\<rparr>))"
proof -
  have "no_overrun (get_element_ptr (nm_data_list nm) j) (lm_element_size (nm_data_list nm))" for j
    unfolding get_element_ptr_def by (rule no_overrun_element [OF assms(4,3)])
  then have "clear_block (threads k) block_dim (get_element_ptr (nm_data_list nm) j) (lm_element_size (nm_data_list nm)) m =
      fill_bytes (get_element_ptr (nm_data_list nm) j) (lm_element_size (nm_data_list nm)) 0 m" for k j m
    using clear_block_eq assms(1,2) by blast
  then show ?thesis
    by (auto simp: gc_parallel_def gc_parallel_2_def recycle_all_eq gc_parallel_1_def gc_parallel_0_def Let_def bindE_def split: sum.splits)
qed

lemma gc_parallel_like_serial:
  assumes small: "nm_free_list_used nm < 2 ^ 30" and dims: "0 < threads_0" "0 < grid_dim" "0 < block_dim"
    and o0: "mset order0 = mset (grid_indices threads_0 (length (gc_copies (nm_free_list_used nm) (il_size (nm_free_list nm)))))"
    and o2: "mset order2 = mset (grid_indices grid_dim (il_size (nm_recycled_list nm)))"
    and th: "\<And>k. mset (threads k) = mset [0..<block_dim]"
    and chunks: "\<And>i. lm_chunks (nm_data_list nm) i mod 4 = 0" and esz: "lm_element_size (nm_data_list nm) \<noteq> 1"
  shows "case gc_serial nm of
      Inl er \<Rightarrow> gc_parallel order0 order2 threads block_dim nm = Inl er
    | Inr S \<Rightarrow> \<exists>P. gc_parallel order0 order2 threads block_dim nm = Inr P \<and>
        mset (il_contents (nm_free_list P)) = mset (il_contents (nm_free_list S)) \<and> il_list (nm_free_list P) = il_list (nm_free_list S) \<and>
        nm_free_list_used P = nm_free_list_used S \<and> nm_recycled_list P = nm_recycled_list S \<and> nm_mem P = nm_mem S \<and>
        nm_data_list P = nm_data_list S \<and> nm_chunk P = nm_chunk S"
proof -
  let ?n1 = "gc_parallel_1 (gc_parallel_0 order0 nm)" and ?left = "il_size (nm_free_list nm) - nm_free_list_used nm"
  let ?rec = "il_get (nm_recycled_list nm)" and ?n = "il_size (nm_recycled_list nm)"
  let ?lm = "(il_list (nm_free_list nm))\<lparr>lm_num_elements := ?left\<rparr>"
  have set0: "set order0 = {..<length (gc_copies (nm_free_list_used nm) (il_size (nm_free_list nm)))}"
    using mset_eq_setD [OF o0 [unfolded mset_grid_indices [OF dims(1)]]] by (simp add: atLeast0LessThan)
  have ms2: "mset order2 = mset [0..<?n]"
    using o2 mset_grid_indices [OF dims(2)] by simp
  have "set (threads k) = {..<block_dim}" for k
    using mset_eq_setD [OF th [of k]] by (simp add: atLeast0LessThan)
  note par = gc_parallel_eq [OF this dims(3) esz chunks, of order0 order2]
  have len: "length order2 = ?n"
    using mset_eq_length [OF ms2] by simp
  have mem: "foldl (\<lambda>m k. fill_bytes (get_element_ptr (nm_data_list nm) (?rec k)) (lm_element_size (nm_data_list nm)) 0 m) (nm_mem nm) order2 =
      foldl (\<lambda>m k. fill_bytes (get_element_ptr (nm_data_list nm) (?rec k)) (lm_element_size (nm_data_list nm)) 0 m) (nm_mem nm) [0..<?n]"
    using mset_eq_setD [OF ms2] by (auto simp: fill_fold intro!: ext)
  show ?thesis
  proof (cases "grow_list ?n ?lm (nm_chunk nm)")
    case (Inr r)
    obtain lm pc where r: "grow_list ?n ?lm (nm_chunk nm) = Inr (lm, pc)"
      using Inr by (cases r) simp
    let ?l1 = "nm_free_list ?n1" and ?l2 = "il_resize ?left ((nm_free_list nm)\<lparr>il_get :=
        compact_free_list (nm_free_list_used nm) (il_size (nm_free_list nm)) (il_get (nm_free_list nm))\<rparr>)"
    have l1: "il_list ?l1 = ?lm" "il_get ?l1 = il_get (nm_free_list (gc_parallel_0 order0 nm))"
      by (simp_all add: gc_parallel_1_def gc_parallel_0_def Let_def)
    have "il_contents \<lparr>il_get = put_all (map ?rec order2) ?left (il_get (nm_free_list (gc_parallel_0 order0 nm))), il_list = lm\<rparr> =
        il_contents ?l1 @ map ?rec order2"
      using grown_contents [of "map ?rec order2" ?l1 "nm_chunk nm" lm pc] r len by (simp add: l1)
    moreover have "il_contents \<lparr>il_get = put_all (il_contents (nm_recycled_list nm)) ?left
          (compact_free_list (nm_free_list_used nm) (il_size (nm_free_list nm)) (il_get (nm_free_list nm))), il_list = lm\<rparr> =
        unused_entries nm @ map ?rec [0..<?n]"
      using grown_contents [of "il_contents (nm_recycled_list nm)" ?l2 "nm_chunk nm" lm pc] r
      by (simp add: compact_contents unused_entries_def il_contents_def [of "nm_recycled_list nm"])
    ultimately show ?thesis
      using gc_parallel_1_contents [OF small set0] ms2 r by (simp add: par len gc_serial_eq mem)
  qed (simp add: par len gc_serial_eq)
qed

end
