(* ===== verification/NodeAlloc.thy ===== *)
theory NodeAlloc
  imports NodeList
begin

text \<open>
  The node allocator keeps its promises: elements of a chunked list never overlap and are found again
  by their address, every node is in use, recycled or free but only one of these, and so no node is
  handed out twice, with collections of either kind in between.
\<close>

section \<open>Elements do not overlap\<close>

text \<open>
  \<open>n\<close> chunks are allocated, each a block of its own; every index below the size of the list lies in
  one of them. \<open>H\<close> is the head of the preallocated chunk they come from.
\<close>

definition chunk_bytes :: "list_manager \<Rightarrow> nat" where
  "chunk_bytes lm = lm_max_num_elements_per_chunk lm * lm_element_size lm"

definition lm_ok :: "nat \<Rightarrow> nat \<Rightarrow> list_manager \<Rightarrow> bool" where
  "lm_ok H n lm \<longleftrightarrow>
     lm_max_num_elements_per_chunk lm = 2 ^ lm_log2chunk_num_elements lm \<and> 0 < lm_element_size lm \<and>
     chunk_bytes lm < 2 ^ 62 \<and> n \<le> max_num_chunks \<and>
     all_apart (map (\<lambda>c. (lm_chunks lm c, chunk_bytes lm)) [0..<n]) \<and>
     (\<forall>c < n. 0 < lm_chunks lm c \<and> lm_chunks lm c mod 4096 = 0 \<and> lm_chunks lm c + chunk_bytes lm \<le> H) \<and>
     (\<forall>c \<ge> n. lm_chunks lm c = 0) \<and>
     lm_num_elements lm \<le> n * lm_max_num_elements_per_chunk lm"

lemma get_element_ptr_eq:
  assumes "lm_max_num_elements_per_chunk lm = 2 ^ lm_log2chunk_num_elements lm"
  shows "get_element_ptr lm i = lm_chunks lm (i div lm_max_num_elements_per_chunk lm) +
    lm_element_size lm * (i mod lm_max_num_elements_per_chunk lm)"
proof -
  have "(push_bit (lm_log2chunk_num_elements lm) 1 - 1 :: nat) = mask (lm_log2chunk_num_elements lm)"
    by (simp add: mask_eq_exp_minus_1 push_bit_eq_mult)
  then show ?thesis
    using assms by (simp add: get_element_ptr_def drop_bit_eq_div take_bit_eq_mod flip: take_bit_eq_mask)
qed

lemma element_in_chunk:
  assumes ok: "lm_ok H n lm" and i: "i < n * lm_max_num_elements_per_chunk lm"
  shows "i div lm_max_num_elements_per_chunk lm < n"
    "inside (get_element_ptr lm i, lm_element_size lm)
       (lm_chunks lm (i div lm_max_num_elements_per_chunk lm), chunk_bytes lm)"
proof -
  let ?m = "lm_max_num_elements_per_chunk lm"
  have m: "0 < ?m" "?m = 2 ^ lm_log2chunk_num_elements lm"
    using ok by (simp_all add: lm_ok_def)
  show "i div ?m < n"
    using i by (simp add: less_mult_imp_div_less)
  have "Suc (i mod ?m) \<le> ?m"
    using m(1) by (simp add: Suc_leI)
  then have "lm_element_size lm * Suc (i mod ?m) \<le> ?m * lm_element_size lm"
    by (metis mult.commute mult_le_mono2)
  then show "inside (get_element_ptr lm i, lm_element_size lm) (lm_chunks lm (i div ?m), chunk_bytes lm)"
    by (simp add: inside_def get_element_ptr_eq [OF m(2)] chunk_bytes_def)
qed

lemma elements_apart:
  assumes ok: "lm_ok H n lm" and i: "i < n * lm_max_num_elements_per_chunk lm"
    and j: "j < n * lm_max_num_elements_per_chunk lm" and ne: "i \<noteq> j"
  shows "apart (get_element_ptr lm i, lm_element_size lm) (get_element_ptr lm j, lm_element_size lm)"
proof (cases "i div lm_max_num_elements_per_chunk lm = j div lm_max_num_elements_per_chunk lm")
  case False
  let ?b = "\<lambda>c. (lm_chunks lm c, chunk_bytes lm)"
  have aa: "all_apart (map ?b [0..<n])"
    using ok by (simp add: lm_ok_def)
  have "apart (map ?b [0..<n] ! (i div lm_max_num_elements_per_chunk lm)) (map ?b [0..<n] ! (j div lm_max_num_elements_per_chunk lm))"
    using element_in_chunk(1) [OF ok] i j False by (intro all_apart_nth [OF aa]) simp_all
  then have "apart (?b (i div lm_max_num_elements_per_chunk lm)) (?b (j div lm_max_num_elements_per_chunk lm))"
    using element_in_chunk(1) [OF ok] i j by simp
  then show ?thesis
    using element_in_chunk(2) [OF ok i] element_in_chunk(2) [OF ok j] by (rule apart_inside)
next
  case True
  let ?m = "lm_max_num_elements_per_chunk lm"
  have m: "?m = 2 ^ lm_log2chunk_num_elements lm"
    using ok by (simp add: lm_ok_def)
  have "i mod ?m \<noteq> j mod ?m"
    using True ne by (metis div_mult_mod_eq)
  then have "Suc (i mod ?m) \<le> j mod ?m \<or> Suc (j mod ?m) \<le> i mod ?m"
    by linarith
  then have "lm_element_size lm * Suc (i mod ?m) \<le> lm_element_size lm * (j mod ?m) \<or>
      lm_element_size lm * Suc (j mod ?m) \<le> lm_element_size lm * (i mod ?m)"
    using mult_le_mono2 by blast
  then show ?thesis
    using True by (auto simp: apart_def get_element_ptr_eq [OF m])
qed

text \<open>Searching the chunks finds the index of an element again.\<close>

lemma ptr2index_element:
  assumes ok: "lm_ok H n lm" and i: "i < n * lm_max_num_elements_per_chunk lm"
  shows "ptr2index lm (get_element_ptr lm i) = Inr (int i)"
proof -
  let ?m = "lm_max_num_elements_per_chunk lm" and ?p = "get_element_ptr lm i"
  have m: "?m = 2 ^ lm_log2chunk_num_elements lm" and esz: "0 < lm_element_size lm"
    and ch: "\<And>c. c < n \<Longrightarrow> lm_chunks lm c \<noteq> 0" and n: "n \<le> max_num_chunks"
    and aa: "all_apart (map (\<lambda>c. (lm_chunks lm c, chunk_bytes lm)) [0..<n])"
    using ok by (auto simp: lm_ok_def)
  define c where "c = i div ?m"
  have c: "c < n" "inside (?p, lm_element_size lm) (lm_chunks lm c, chunk_bytes lm)"
    using element_in_chunk [OF ok i] by (simp_all add: c_def)
  have off: "?p - lm_chunks lm c = lm_element_size lm * (i mod ?m)"
    by (simp add: get_element_ptr_eq [OF m] c_def)
  have here: "lm_chunks lm c \<le> ?p \<and> ?p < lm_chunks lm c + chunk_bytes lm"
    using c(2) esz by (auto simp: inside_def)
  have other: "\<not> (lm_chunks lm d \<le> ?p \<and> ?p < lm_chunks lm d + chunk_bytes lm)" if "d < n" "d \<noteq> c" for d
    using all_apart_nth [OF aa, of d c] that c(1) here by (auto simp: apart_def)
  have res: "push_bit (lm_log2chunk_num_elements lm) c + (?p - lm_chunks lm c) div lm_element_size lm = i"
    unfolding off push_bit_eq_mult m [symmetric] using esz by (simp add: c_def)
  have "ptr2index_loop lm ?p k cnt = Inr (int i)" if "k \<le> c" "c < k + cnt" for k cnt
    using that
  proof (induction cnt arbitrary: k)
    case (Suc cnt)
    have k: "k < n" "lm_chunks lm k \<noteq> 0"
      using Suc.prems c(1) ch by auto
    show ?case
    proof (cases "k = c")
      case True
      then show ?thesis
        using here res k by (simp add: Let_def chunk_bytes_def)
    next
      case False
      then have "ptr2index_loop lm ?p k (Suc cnt) = ptr2index_loop lm ?p (Suc k) cnt"
        using other [OF k(1) False] k by (auto simp: Let_def chunk_bytes_def)
      then show ?thesis
        using Suc False by simp
    qed
  qed simp
  then show ?thesis
    using c(1) n by (simp add: ptr2index_def)
qed

section \<open>Nodes are handed out once\<close>

definition node_blocks :: "list_manager \<Rightarrow> nat list \<Rightarrow> block list" where
  "node_blocks lm is = map (\<lambda>i. (get_element_ptr lm i, lm_element_size lm)) is"

text \<open>The chunks of the lists of indices are small enough to be requested without wrapping.\<close>

definition indices_ok :: "index_list \<Rightarrow> bool" where
  "indices_ok l \<longleftrightarrow> chunk_bytes (il_list l) < 2 ^ 62"

text \<open>Every index is in use, recycled or waiting in the free list, and only one of them.\<close>

definition nm_inv :: "node_manager \<Rightarrow> block list \<Rightarrow> bool" where
  "nm_inv nm live \<longleftrightarrow>
     (\<exists>n is. lm_ok (pc_head (nm_chunk nm)) n (nm_data_list nm) \<and>
        0 < pc_head (nm_chunk nm) \<and> pc_head (nm_chunk nm) \<le> pc_tail (nm_chunk nm) \<and> pc_tail (nm_chunk nm) \<le> 2 ^ 62 \<and>
        indices_ok (nm_free_list nm) \<and> indices_ok (nm_recycled_list nm) \<and>
        live = node_blocks (nm_data_list nm) is \<and>
        mset (is @ il_contents (nm_recycled_list nm) @ unused_entries nm) = mset [0..<lm_num_elements (nm_data_list nm)])"

definition gc_step :: "node_manager \<Rightarrow> node_manager \<Rightarrow> bool" where
  "gc_step nm nm' \<longleftrightarrow>
     gc_serial nm = Inr nm' \<or>
     (\<exists>threads_0 grid_dim block_dim order0 order2 threads.
        nm_free_list_used nm < 2 ^ 30 \<and> 0 < threads_0 \<and> 0 < grid_dim \<and> 0 < block_dim \<and>
        mset order0 = mset (grid_indices threads_0 (length (gc_copies (nm_free_list_used nm) (il_size (nm_free_list nm))))) \<and>
        mset order2 = mset (grid_indices grid_dim (il_size (nm_recycled_list nm))) \<and>
        (\<forall>k. mset (threads k) = mset [0..<block_dim]) \<and> lm_element_size (nm_data_list nm) \<noteq> 1 \<and>
        gc_parallel order0 order2 threads block_dim nm = Inr nm')"

definition node_gives :: "node_manager \<Rightarrow> block \<Rightarrow> node_manager \<Rightarrow> bool" where
  "node_gives nm b nm' \<longleftrightarrow>
     (\<exists>nm1. (nm1 = nm \<or> gc_step nm nm1) \<and> nm_allocate nm1 = Inr (fst b, nm') \<and>
        snd b = lm_element_size (nm_data_list nm))"

definition node_takes :: "node_manager \<Rightarrow> block \<Rightarrow> node_manager \<Rightarrow> bool" where
  "node_takes nm b nm' \<longleftrightarrow> nm_recycle (fst b) nm = Inr nm'"

text \<open>A list that grows takes its chunks from the head of the preallocated chunk.\<close>

definition chunk_grows :: "prealloc_chunk \<Rightarrow> prealloc_chunk \<Rightarrow> bool" where
  "chunk_grows pc pc' \<longleftrightarrow> pc_head pc \<le> pc_head pc' \<and> pc_head pc' \<le> pc_tail pc' \<and> pc_tail pc' = pc_tail pc"

lemma reserve_grows:
  assumes r: "reserve_new_element lm pc = Inr (i, lm', pc')" and pc: "chunk_bytes lm < 2 ^ 62" "pc_head pc \<le> pc_tail pc" "pc_tail pc \<le> 2 ^ 62"
  shows "chunk_grows pc pc' \<and> chunk_bytes lm' = chunk_bytes lm"
proof -
  let ?c = "drop_bit (lm_log2chunk_num_elements lm) (lm_num_elements lm)"
  have t: "touch_chunk ?c (lm\<lparr>lm_num_elements := Suc (lm_num_elements lm)\<rparr>) pc = Inr (lm', pc')"
    using r by (auto simp: reserve_new_element_def Let_def result_simps)
  show ?thesis
  proof (cases "lm_chunks lm ?c = 0")
    case True
    have "u64 (lm_max_num_elements_per_chunk lm * lm_element_size lm) = chunk_bytes lm"
      using pc(1) by (simp add: chunk_bytes_def u64_def)
    then obtain p where al: "allocate_from_reserved_memory (chunk_bytes lm) 4096 pc = Some (p, pc')"
      and lm': "lm' = lm\<lparr>lm_num_elements := Suc (lm_num_elements lm), lm_chunks := (lm_chunks lm)(?c := p)\<rparr>"
      using t True by (auto simp: touch_chunk_def result_simps split: option.splits)
    have "pc_head pc \<le> 2 ^ 62"
      using pc by simp
    from bump_props [OF _ _ this pc(1) al] show ?thesis
      by (simp add: chunk_grows_def lm' chunk_bytes_def page_size_def)
  qed (use t pc in \<open>auto simp: touch_chunk_def result_simps chunk_grows_def chunk_bytes_def\<close>)
qed

lemma chunk_grows_trans: "chunk_grows a b \<Longrightarrow> chunk_grows b c \<Longrightarrow> chunk_grows a c"
  by (simp add: chunk_grows_def)

lemma grow_list_grows:
  assumes "grow_list n lm pc = Inr (lm', pc')" "chunk_bytes lm < 2 ^ 62" "pc_head pc \<le> pc_tail pc" "pc_tail pc \<le> 2 ^ 62"
  shows "chunk_grows pc pc' \<and> chunk_bytes lm' = chunk_bytes lm"
  using assms
proof (induction n arbitrary: lm pc)
  case (Suc n)
  then obtain i lm1 pc1 where r: "reserve_new_element lm pc = Inr (i, lm1, pc1)" "grow_list n lm1 pc1 = Inr (lm', pc')"
    by (auto simp: result_simps)
  note g = reserve_grows [OF r(1) Suc.prems(2-4)]
  with Suc.IH [OF r(2)] Suc.prems(2-4) show ?case
    using chunk_grows_trans by (auto simp: chunk_grows_def)
qed (simp add: chunk_grows_def)

lemma lm_ok_grows: "lm_ok (pc_head pc) n lm \<Longrightarrow> chunk_grows pc pc' \<Longrightarrow> lm_ok (pc_head pc') n lm"
  unfolding lm_ok_def chunk_grows_def by (auto intro: order.trans)

lemma gc_serial_parts:
  assumes "gc_serial nm = Inr S"
  shows "nm_data_list S = nm_data_list nm" "nm_free_list_used S = 0" "nm_recycled_list S = il_resize 0 (nm_recycled_list nm)"
    and "il_contents (nm_free_list S) = unused_entries nm @ il_contents (nm_recycled_list nm)"
    and "grow_list (il_size (nm_recycled_list nm))
      ((il_list (nm_free_list nm))\<lparr>lm_num_elements := il_size (nm_free_list nm) - nm_free_list_used nm\<rparr>) (nm_chunk nm) =
      Inr (il_list (nm_free_list S), nm_chunk S)"
proof -
  let ?left = "il_size (nm_free_list nm) - nm_free_list_used nm"
  let ?l = "il_resize ?left ((nm_free_list nm)\<lparr>il_get :=
        compact_free_list (nm_free_list_used nm) (il_size (nm_free_list nm)) (il_get (nm_free_list nm))\<rparr>)"
  show "nm_data_list S = nm_data_list nm" "nm_free_list_used S = 0" "nm_recycled_list S = il_resize 0 (nm_recycled_list nm)"
    using assms by (auto simp: gc_serial_eq result_simps)
  show g: "grow_list (il_size (nm_recycled_list nm)) ((il_list (nm_free_list nm))\<lparr>lm_num_elements := ?left\<rparr>) (nm_chunk nm) =
      Inr (il_list (nm_free_list S), nm_chunk S)"
    using assms by (auto simp: gc_serial_eq result_simps)
  have "nm_free_list S = \<lparr>il_get = put_all (il_contents (nm_recycled_list nm)) ?left (il_get ?l), il_list = il_list (nm_free_list S)\<rparr>"
    using assms by (auto simp: gc_serial_eq result_simps)
  then show "il_contents (nm_free_list S) = unused_entries nm @ il_contents (nm_recycled_list nm)"
    using grown_contents [of "il_contents (nm_recycled_list nm)" ?l "nm_chunk nm" "il_list (nm_free_list S)" "nm_chunk S"] g
    by (simp add: compact_contents unused_entries_def il_contents_def [of "nm_recycled_list nm"])
qed

text \<open>A collection of either kind leaves what the serial one leaves, up to the order of the free list.\<close>

lemma gc_step_serial:
  assumes inv: "nm_inv nm live" and gc: "gc_step nm nm'"
  obtains S where "gc_serial nm = Inr S" "mset (il_contents (nm_free_list nm')) = mset (il_contents (nm_free_list S))"
    "il_list (nm_free_list nm') = il_list (nm_free_list S)" "nm_free_list_used nm' = nm_free_list_used S"
    "nm_recycled_list nm' = nm_recycled_list S" "nm_mem nm' = nm_mem S" "nm_data_list nm' = nm_data_list S" "nm_chunk nm' = nm_chunk S"
proof -
  have chunks: "lm_chunks (nm_data_list nm) c mod 4 = 0" for c
  proof -
    obtain n where ok: "lm_ok (pc_head (nm_chunk nm)) n (nm_data_list nm)"
      using inv by (auto simp: nm_inv_def)
    then have "lm_chunks (nm_data_list nm) c mod 4096 = 0"
      by (cases "c < n") (simp_all add: lm_ok_def)
    then show ?thesis
      using mod_mod_cancel [of 4 4096 "lm_chunks (nm_data_list nm) c"] by simp
  qed
  show ?thesis
    using gc unfolding gc_step_def
  proof (elim disjE exE conjE)
    assume "gc_serial nm = Inr nm'"
    then show ?thesis
      using that by blast
  next
    fix threads_0 grid_dim block_dim order0 order2 threads
    assume a: "nm_free_list_used nm < 2 ^ 30" "0 < threads_0" "0 < grid_dim" "0 < block_dim"
      "mset order0 = mset (grid_indices threads_0 (length (gc_copies (nm_free_list_used nm) (il_size (nm_free_list nm)))))"
      "mset order2 = mset (grid_indices grid_dim (il_size (nm_recycled_list nm)))"
      "\<forall>k. mset (threads k) = mset [0..<block_dim]" "lm_element_size (nm_data_list nm) \<noteq> 1"
      "gc_parallel order0 order2 threads block_dim nm = Inr nm'"
    have "mset (threads k) = mset [0..<block_dim]" for k
      using a(7) by blast
    note like = gc_parallel_like_serial [where nm = nm and threads = threads, OF a(1-6) this chunks a(8)]
    show ?thesis
    proof (cases "gc_serial nm")
      case (Inl er)
      then show ?thesis
        using like a(9) by simp
    next
      case (Inr S)
      then show ?thesis
        using like a(9) that [OF Inr] by simp
    qed
  qed
qed

lemma unused_entries_0: "nm_free_list_used nm = 0 \<Longrightarrow> unused_entries nm = il_contents (nm_free_list nm)"
  by (simp add: unused_entries_def il_contents_def)

lemma gc_step_inv:
  assumes inv: "nm_inv nm live" and gc: "gc_step nm nm'"
  shows "nm_inv nm' live \<and> nm_data_list nm' = nm_data_list nm \<and> chunk_grows (nm_chunk nm) (nm_chunk nm')"
proof -
  obtain n "is" where i: "lm_ok (pc_head (nm_chunk nm)) n (nm_data_list nm)"
    "0 < pc_head (nm_chunk nm)" "pc_head (nm_chunk nm) \<le> pc_tail (nm_chunk nm)" "pc_tail (nm_chunk nm) \<le> 2 ^ 62"
    "indices_ok (nm_free_list nm)" "indices_ok (nm_recycled_list nm)" "live = node_blocks (nm_data_list nm) is"
    "mset (is @ il_contents (nm_recycled_list nm) @ unused_entries nm) = mset [0..<lm_num_elements (nm_data_list nm)]"
    using inv unfolding nm_inv_def by blast
  obtain S where s: "gc_serial nm = Inr S" "mset (il_contents (nm_free_list nm')) = mset (il_contents (nm_free_list S))"
    "il_list (nm_free_list nm') = il_list (nm_free_list S)" "nm_free_list_used nm' = nm_free_list_used S"
    "nm_recycled_list nm' = nm_recycled_list S" "nm_data_list nm' = nm_data_list S" "nm_chunk nm' = nm_chunk S"
    using gc_step_serial [OF inv gc] by metis
  note parts = gc_serial_parts [OF s(1)]
  have g: "chunk_grows (nm_chunk nm) (nm_chunk nm')" "indices_ok (nm_free_list nm')"
    using grow_list_grows [OF parts(5) _ i(3,4)] i(5) by (simp_all add: s indices_ok_def chunk_bytes_def)
  moreover have "indices_ok (nm_recycled_list nm')" "il_contents (nm_recycled_list nm') = []"
    using i(6) by (simp_all add: s parts indices_ok_def chunk_bytes_def il_contents_def)
  moreover have "mset (unused_entries nm') = mset (unused_entries nm @ il_contents (nm_recycled_list nm))"
    using unused_entries_0 [of nm'] s(2,4) parts(2,4) by simp
  ultimately show ?thesis
    using i lm_ok_grows [OF i(1) g(1)] unfolding nm_inv_def
    by (auto simp: s(6) parts(1) chunk_grows_def ac_simps intro!: exI [of _ n] exI [of _ "is"])
qed

text \<open>Reserving an element allocates at most the next chunk and leaves the other elements where they are.\<close>

lemma reserve_ok:
  assumes ok: "lm_ok (pc_head pc) n lm" and pc: "pc_head pc \<le> pc_tail pc" "pc_tail pc \<le> 2 ^ 62" "0 < pc_head pc"
    and r: "reserve_new_element lm pc = Inr (i, lm', pc')"
  shows "\<exists>n'. lm_ok (pc_head pc') n' lm' \<and> 0 < pc_head pc' \<and> pc_head pc' \<le> pc_tail pc' \<and> pc_tail pc' \<le> 2 ^ 62 \<and>
    i = lm_num_elements lm \<and> lm_num_elements lm' = Suc i \<and> lm_element_size lm' = lm_element_size lm \<and>
    (\<forall>j < lm_num_elements lm. get_element_ptr lm' j = get_element_ptr lm j)"
proof -
  let ?m = "lm_max_num_elements_per_chunk lm"
  have m: "?m = 2 ^ lm_log2chunk_num_elements lm" "0 < ?m" "chunk_bytes lm < 2 ^ 62" "lm_num_elements lm \<le> n * ?m"
    "0 < lm_element_size lm"
    using ok by (auto simp: lm_ok_def)
  let ?c = "lm_num_elements lm div ?m"
  have t: "touch_chunk ?c (lm\<lparr>lm_num_elements := Suc (lm_num_elements lm)\<rparr>) pc = Inr (lm', pc')"
    and i: "i = lm_num_elements lm"
    using r m(1) by (auto simp: reserve_new_element_def Let_def result_simps drop_bit_eq_div)
  have c: "?c \<le> n" "?c < max_num_chunks"
    using div_le_mono [OF m(4), of ?m] m(2) t by (auto simp: touch_chunk_def result_simps)
  show ?thesis
  proof (cases "?c < n")
    case True
    then have eq: "lm' = lm\<lparr>lm_num_elements := Suc (lm_num_elements lm)\<rparr>" "pc' = pc"
      using t ok by (auto simp: touch_chunk_def lm_ok_def result_simps)
    have "Suc (lm_num_elements lm) \<le> n * ?m"
      using True m(2) by (simp add: Suc_le_eq div_less_iff_less_mult)
    then show ?thesis
      using ok pc by (auto simp: eq i lm_ok_def chunk_bytes_def get_element_ptr_def intro!: exI [of _ n])
  next
    case False
    then have cn: "?c = n" and num: "lm_num_elements lm = n * ?m"
      using c(1) m(2,4) by (simp_all add: div_less_iff_less_mult [OF m(2)])
    have null: "lm_chunks lm n = 0" and small: "u64 (?m * lm_element_size lm) = chunk_bytes lm"
      using ok m(3) by (simp_all add: lm_ok_def chunk_bytes_def u64_def)
    obtain p where al: "allocate_from_reserved_memory (chunk_bytes lm) 4096 pc = Some (p, pc')"
      and lm': "lm' = lm\<lparr>lm_num_elements := Suc (lm_num_elements lm), lm_chunks := (lm_chunks lm)(n := p)\<rparr>"
      using t null small unfolding cn by (auto simp: touch_chunk_def result_simps split: option.splits)
    have head: "pc_head pc \<le> 2 ^ 62"
      using pc by simp
    note p = bump_props [OF _ _ head m(3) al, unfolded page_size_def, simplified]
    have p0: "0 < p" "p mod 4096 = 0"
      using p(1,2) pc(3) by auto
    have new: "chunk_bytes lm' = chunk_bytes lm" "lm_chunks lm' = (lm_chunks lm)(n := p)"
      by (simp_all add: lm' chunk_bytes_def)
    have old: "lm_chunks lm c + chunk_bytes lm \<le> p" if "c < n" for c
      using ok that p(1) by (fastforce simp: lm_ok_def)
    let ?b = "\<lambda>c. (lm_chunks lm c, chunk_bytes lm)"
    have "all_apart (map ?b [0..<n])"
      using ok by (simp add: lm_ok_def)
    then have "all_apart (map ?b [0..<n] @ [(p, chunk_bytes lm)])"
      by (rule all_apart_snoc) (use old in \<open>auto simp: apart_def\<close>)
    also have "map ?b [0..<n] @ [(p, chunk_bytes lm)] = map (\<lambda>c. (lm_chunks lm' c, chunk_bytes lm')) [0..<Suc n]"
      by (simp add: new)
    finally have aa: "all_apart (map (\<lambda>c. (lm_chunks lm' c, chunk_bytes lm')) [0..<Suc n])" .
    have head': "pc_head pc' = p + chunk_bytes lm" "pc_tail pc' = pc_tail pc"
      using p(3) by simp_all
    have "0 < lm_chunks lm' c \<and> lm_chunks lm' c mod 4096 = 0 \<and> lm_chunks lm' c + chunk_bytes lm' \<le> pc_head pc'"
      if "c < Suc n" for c
      using ok that p0 old [of c] by (auto simp: new head' lm_ok_def less_Suc_eq)
    moreover have "lm_chunks lm' c = 0" if "Suc n \<le> c" for c
      using ok that by (simp add: new lm_ok_def)
    ultimately have "lm_ok (pc_head pc') (Suc n) lm'"
      using ok aa c(2) m(2,3) unfolding lm_ok_def cn by (simp add: lm' num chunk_bytes_def)
    moreover have "get_element_ptr lm' j = get_element_ptr lm j" if "j < lm_num_elements lm" for j
    proof -
      have "j div ?m < n"
        using that num by (simp add: div_less_iff_less_mult [OF m(2)])
      then show ?thesis
        using m(1) by (simp add: lm' get_element_ptr_eq)
    qed
    ultimately show ?thesis
      using p(4) p0(1) pc(2) head' by (auto simp: i lm' intro!: exI [of _ "Suc n"])
  qed
qed

lemma node_blocks_cong:
  "lm_element_size lm' = lm_element_size lm \<Longrightarrow> (\<And>i. i \<in> set is \<Longrightarrow> get_element_ptr lm' i = get_element_ptr lm i) \<Longrightarrow>
   node_blocks lm' is = node_blocks lm is"
  by (simp add: node_blocks_def)

lemma node_blocks_apart:
  assumes "lm_ok H n lm" "distinct is" "set is \<subseteq> {..<n * lm_max_num_elements_per_chunk lm}"
  shows "all_apart (node_blocks lm is)"
  using assms(2,3)
proof (induction "is")
  case (Cons i "is")
  have "apart (get_element_ptr lm i, lm_element_size lm) (get_element_ptr lm j, lm_element_size lm)" if "j \<in> set is" for j
    using that Cons.prems by (intro elements_apart [OF assms(1)]) auto
  then show ?case
    using Cons by (auto simp: node_blocks_def list_all_iff)
qed (simp add: node_blocks_def)

lemma in_use:
  assumes ok: "lm_ok H n lm" and ms: "mset (is @ rest) = mset [0..<lm_num_elements lm]"
  shows "distinct is" "j \<in> set is \<Longrightarrow> j < lm_num_elements lm"
    "j \<in> set is \<Longrightarrow> j < n * lm_max_num_elements_per_chunk lm"
proof -
  have "distinct (is @ rest)"
    using mset_eq_imp_distinct_iff [OF ms] by simp
  then show "distinct is"
    by simp
  have "j \<in> set (is @ rest) \<longleftrightarrow> j \<in> set [0..<lm_num_elements lm]"
    using mset_eq_setD [OF ms] by simp
  then show lt: "j < lm_num_elements lm" if "j \<in> set is"
    using that by simp
  have "lm_num_elements lm \<le> n * lm_max_num_elements_per_chunk lm"
    using ok unfolding lm_ok_def by blast
  then show "j < n * lm_max_num_elements_per_chunk lm" if "j \<in> set is"
    using lt [OF that] by (rule less_le_trans [rotated])
qed

lemma allocate_inv:
  assumes inv: "nm_inv nm live" and al: "nm_allocate nm = Inr (p, nm')"
  shows "nm_inv nm' ((p, lm_element_size (nm_data_list nm)) # live)"
proof -
  let ?data = "nm_data_list nm" and ?pc = "nm_chunk nm"
  obtain n "is" where i: "lm_ok (pc_head ?pc) n ?data" "pc_head ?pc \<le> pc_tail ?pc" "pc_tail ?pc \<le> 2 ^ 62" "0 < pc_head ?pc"
    "live = node_blocks ?data is"
    "mset (is @ il_contents (nm_recycled_list nm) @ unused_entries nm) = mset [0..<lm_num_elements ?data]"
    "indices_ok (nm_free_list nm)" "indices_ok (nm_recycled_list nm)"
    using inv by (auto simp: nm_inv_def)
  note used = in_use(2) [OF i(1,6)]
  show ?thesis
  proof (cases "il_size (nm_free_list nm) \<le> nm_free_list_used nm")
    case True
    then obtain l data pc where r: "reserve_new_element ?data ?pc = Inr (l, data, pc)"
      and nm': "p = get_element_ptr data l"
        "nm' = nm\<lparr>nm_free_list_used := Suc (nm_free_list_used nm), nm_data_list := data, nm_chunk := pc\<rparr>"
      using al by (auto simp: nm_allocate_def Let_def result_simps)
    obtain n' where n': "lm_ok (pc_head pc) n' data" "0 < pc_head pc" "pc_head pc \<le> pc_tail pc" "pc_tail pc \<le> 2 ^ 62"
      "l = lm_num_elements ?data" "lm_num_elements data = Suc l" "lm_element_size data = lm_element_size ?data"
      "\<And>j. j < lm_num_elements ?data \<Longrightarrow> get_element_ptr data j = get_element_ptr ?data j"
      using reserve_ok [OF i(1-4) r] by blast
    have "node_blocks data (l # is) = (p, lm_element_size ?data) # live"
      using node_blocks_cong [of data ?data "is"] n'(7,8) used by (simp add: i(5) nm'(1) node_blocks_def)
    moreover have "unused_entries nm = []" "unused_entries nm' = []"
      using True by (simp_all add: unused_entries_def nm'(2))
    ultimately show ?thesis
      using n' i(6-8) unfolding nm_inv_def
      by (intro exI [of _ n'] exI [of _ "l # is"]) (simp add: nm'(2) ac_simps)
  next
    case False
    let ?l = "il_get (nm_free_list nm) (nm_free_list_used nm)"
    have nm': "p = get_element_ptr ?data ?l" "nm' = nm\<lparr>nm_free_list_used := Suc (nm_free_list_used nm)\<rparr>"
      using al False by (auto simp: nm_allocate_def Let_def)
    have "unused_entries nm = ?l # unused_entries nm'"
      using False by (simp add: unused_entries_def nm'(2) upt_conv_Cons)
    moreover have "node_blocks ?data (?l # is) = (p, lm_element_size ?data) # live"
      by (simp add: i(5) nm'(1) node_blocks_def)
    ultimately show ?thesis
      using i unfolding nm_inv_def
      by (intro exI [of _ n] exI [of _ "?l # is"]) (simp add: nm'(2) ac_simps)
  qed
qed

lemma nm_inv_apart: "nm_inv nm live \<Longrightarrow> all_apart live"
proof -
  assume "nm_inv nm live"
  then obtain n "is" where i: "lm_ok (pc_head (nm_chunk nm)) n (nm_data_list nm)"
    "live = node_blocks (nm_data_list nm) is"
    "mset (is @ il_contents (nm_recycled_list nm) @ unused_entries nm) = mset [0..<lm_num_elements (nm_data_list nm)]"
    by (auto simp: nm_inv_def)
  then show ?thesis
    using node_blocks_apart [OF i(1) in_use(1) [OF i(1,3)]] in_use(3) [OF i(1,3)] by auto
qed

lemma recycle_inv:
  assumes inv: "nm_inv nm live" and b: "b \<in> set live" and rc: "nm_recycle (fst b) nm = Inr nm'"
  shows "nm_inv nm' (remove1 b live) \<and> chunk_grows (nm_chunk nm) (nm_chunk nm')"
proof -
  let ?data = "nm_data_list nm" and ?f = "\<lambda>i. (get_element_ptr (nm_data_list nm) i, lm_element_size (nm_data_list nm))"
  obtain n "is" where i: "lm_ok (pc_head (nm_chunk nm)) n ?data" "0 < pc_head (nm_chunk nm)"
    "pc_head (nm_chunk nm) \<le> pc_tail (nm_chunk nm)" "pc_tail (nm_chunk nm) \<le> 2 ^ 62" "live = map ?f is"
    "mset (is @ il_contents (nm_recycled_list nm) @ unused_entries nm) = mset [0..<lm_num_elements ?data]"
    "indices_ok (nm_free_list nm)" "indices_ok (nm_recycled_list nm)"
    using inv by (auto simp: nm_inv_def node_blocks_def)
  note index = ptr2index_element [OF i(1) in_use(3) [OF i(1,6)]]
  have inj: "inj_on ?f (set is)"
  proof (rule inj_onI)
    fix x y
    assume x: "x \<in> set is" and y: "y \<in> set is" and "?f x = ?f y"
    then have "get_element_ptr ?data x = get_element_ptr ?data y"
      by blast
    then have "(Inr (int x) :: int result) = Inr (int y)"
      using index [OF x] index [OF y] by metis
    then show "x = y"
      by simp
  qed
  obtain k where k: "k \<in> set is" "b = ?f k"
    using b i(5) by auto
  obtain l pc where push: "il_push_back k (nm_recycled_list nm) (nm_chunk nm) = Inr (l, pc)"
    and nm': "nm' = nm\<lparr>nm_recycled_list := l, nm_chunk := pc\<rparr>"
    using rc index [OF k(1)] k(2) by (auto simp: nm_recycle_def result_simps)
  obtain j where "reserve_new_element (il_list (nm_recycled_list nm)) (nm_chunk nm) = Inr (j, il_list l, pc)"
    using push by (auto simp: il_push_back_def result_simps)
  then have g: "chunk_grows (nm_chunk nm) pc" "indices_ok l"
    using reserve_grows [OF _ _ i(3,4)] i(8) unfolding indices_ok_def by auto
  have "remove1 b live = map ?f (remove1 k is)"
  proof -
    have "remove1 (?f k) (map ?f js) = map ?f (remove1 k js)" if "set js \<subseteq> set is" for js
      using that
    proof (induction js)
      case (Cons j js)
      then have "?f j = ?f k \<longleftrightarrow> j = k"
        using inj k(1) by (auto dest: inj_onD)
      then show ?case
        using Cons by auto
    qed simp
    then show ?thesis
      by (simp add: i(5) k(2))
  qed
  moreover have "mset (remove1 k is @ il_contents (nm_recycled_list nm') @ unused_entries nm') = mset [0..<lm_num_elements ?data]"
  proof -
    have "unused_entries nm' = unused_entries nm" "il_contents (nm_recycled_list nm') = il_contents (nm_recycled_list nm) @ [k]"
      using il_push_back_contents [OF push] by (simp_all add: nm' unused_entries_def)
    moreover have "mset is = add_mset k (mset (remove1 k is))"
      using k(1) by simp
    ultimately show ?thesis
      using i(6) by (simp del: mset_remove1 mset_upt)
  qed
  ultimately show ?thesis
    using i g lm_ok_grows [OF i(1) g(1)] unfolding nm_inv_def
    by (intro conjI exI [of _ n] exI [of _ "remove1 k is"]) (auto simp: nm' node_blocks_def chunk_grows_def)
qed

interpretation nodes: block_allocator nm_inv node_gives node_takes
proof
  show gives: "nm_inv nm' (b # live)" if i: "nm_inv nm live" and g: "node_gives nm b nm'" for nm live b nm'
  proof -
    obtain nm1 where nm1: "nm1 = nm \<or> gc_step nm nm1" "nm_allocate nm1 = Inr (fst b, nm')"
      "snd b = lm_element_size (nm_data_list nm)"
      using g by (auto simp: node_gives_def)
    have "nm_inv nm1 live \<and> nm_data_list nm1 = nm_data_list nm"
      using nm1(1) i gc_step_inv by blast
    then show ?thesis
      using allocate_inv [of nm1 live "fst b" nm'] nm1(2,3) by (cases b) simp
  qed
  show "apart b c" if "nm_inv nm live" "node_gives nm b nm'" "c \<in> set live" for nm live b nm' c
    using nm_inv_apart [OF gives [OF that(1,2)]] that(3) by (simp add: list_all_iff)
  show "nm_inv nm' (remove1 b live)" if "nm_inv nm live" "b \<in> set live" "node_takes nm b nm'" for nm live b nm'
    using recycle_inv that by (simp add: node_takes_def)
qed

lemma log2int_power [simp]: "log2int (2 ^ k) = k"
  by (induction k) (simp_all add: log2int.simps)

text \<open>A new node manager with chunks of \<open>2 ^ k\<close> elements that fit in 128 MB satisfies the invariant.\<close>

lemma new_node_manager_inv:
  assumes "new_node_manager esz (Some (2 ^ k)) pc m = Inr nm" "2 ^ k * esz \<le> 128 * 1024 * 1024" "0 < esz"
    and "0 < pc_head pc" "pc_head pc \<le> pc_tail pc" "pc_tail pc \<le> 2 ^ 62"
  shows "nm_inv nm []"
proof -
  have "halve_chunk (2 ^ k) esz = 2 ^ k"
    using assms(2) by (simp add: halve_chunk.simps u64_def)
  moreover define il where "il = \<lparr>il_get = \<lambda>_::nat. 0::nat, il_list = \<lparr>lm_chunks = \<lambda>_. 0, lm_element_size = 4,
      lm_max_num_elements_per_chunk = 2 ^ k, lm_log2chunk_num_elements = k, lm_num_elements = 0\<rparr>\<rparr>"
  ultimately have nm: "nm = \<lparr>nm_free_list_used = 0, nm_free_list = il, nm_recycled_list = il,
      nm_data_list = \<lparr>lm_chunks = \<lambda>_. 0, lm_element_size = esz, lm_max_num_elements_per_chunk = 2 ^ k,
        lm_log2chunk_num_elements = k, lm_num_elements = 0\<rparr>,
      nm_recycle_list_size_backup = 0, nm_chunk = pc, nm_mem = m\<rparr>"
    using assms(1) by (auto simp: new_node_manager_def new_list_manager_def Let_def result_simps)
  have "2 ^ k * 1 \<le> 2 ^ k * esz"
    using assms(3) by (intro mult_le_mono2) simp
  then have small: "2 ^ k \<le> (128 * 1024 * 1024 :: nat)"
    using assms(2) by linarith
  have "2 ^ k * esz < (2 ^ 62 :: nat)" "indices_ok il"
    using assms(2) le_less_trans [OF small] by (simp_all add: indices_ok_def chunk_bytes_def il_def)
  then show ?thesis
    unfolding nm_inv_def using assms(3-)
    by (intro exI [of _ 0] exI [of _ "[]"])
      (simp add: nm il_def lm_ok_def chunk_bytes_def node_blocks_def il_contents_def unused_entries_def)
qed

end
