(* ===== verification/SampleMemory.thy ===== *)
theory SampleMemory
  imports NodeAlloc
begin

text \<open>Concrete runs of the memory allocators, at which the properties about them are applied.\<close>

section \<open>Host memory\<close>

text \<open>Two blocks of one shared chunk and an exclusive one, which is released again.\<close>

definition sample_pool :: "nat \<Rightarrow> host_pool" where
  "sample_pool k =
     (let chunk = \<lambda>h. \<lparr>mc_is_exclusive = False, mc_data = 65536, mc_head = h, mc_tail = 65536 + 2 ^ 30\<rparr>;
          own = \<lparr>mc_is_exclusive = True, mc_data = 4096, mc_head = 4196, mc_tail = 4196\<rparr>
      in if k = 0 then new_pool
         else if k = 1 then \<lparr>hp_allocator = Some [chunk 65636], hp_raw_memory_chunks = [(65536, 2 ^ 30)]\<rparr>
         else if k = 2 then \<lparr>hp_allocator = Some [chunk 65840], hp_raw_memory_chunks = [(65536, 2 ^ 30)]\<rparr>
         else if k = 3 then \<lparr>hp_allocator = Some [chunk 65840, own], hp_raw_memory_chunks = [(4096, 100), (65536, 2 ^ 30)]\<rparr>
         else \<lparr>hp_allocator = Some [chunk 65840], hp_raw_memory_chunks = [(65536, 2 ^ 30)]\<rparr>)"

lemma sample_pool_gives:
  "pool_gives (sample_pool 0) (65536, 100) (sample_pool 1)"
  "pool_gives (sample_pool 1) (65640, 200) (sample_pool 2)"
  "pool_gives (sample_pool 2) (4096, 100) (sample_pool 3)"
proof -
  show "pool_gives (sample_pool 0) (65536, 100) (sample_pool 1)"
    unfolding pool_gives_def
    by (rule exI [of _ "Some 65536"], rule exI [of _ 16], rule exI [of _ False])
      (simp add: sample_pool_def new_pool_def mapping_ok_def allocation_size_def default_allocator_size_def
        page_size_def hp_allocate_def ua_allocate_def allocate_raw_memory_def u64_def)
  show "pool_gives (sample_pool 1) (65640, 200) (sample_pool 2)"
    unfolding pool_gives_def
    by (rule exI [of _ None], rule exI [of _ 8], rule exI [of _ False])
      (simp add: sample_pool_def mapping_ok_def page_size_def hp_allocate_def ua_allocate_def align_head_def u64_def)
  show "pool_gives (sample_pool 2) (4096, 100) (sample_pool 3)"
    unfolding pool_gives_def
    by (rule exI [of _ "Some 4096"], rule exI [of _ 8], rule exI [of _ True])
      (simp add: sample_pool_def mapping_ok_def allocation_size_def page_size_def hp_allocate_def ua_allocate_def
        allocate_raw_memory_def apart_def u64_def)
qed

lemma sample_pool_takes: "pool_takes (sample_pool 3) (4096, 100) (sample_pool 4)"
  unfolding pool_takes_def
  by (rule exI [of _ "\<lambda>_. True"])
    (simp add: sample_pool_def hp_release_def ua_release_def deallocate_raw_memory_def swap_erase_def)

lemma sample_pool_run:
  "alloc_run pool_gives pool_takes new_pool (sample_pool 4) [(65640, 200), (65536, 100)]"
proof -
  let ?run = "alloc_run pool_gives pool_takes (sample_pool 0)"
  have "?run (sample_pool 0) []"
    by (rule run_start)
  then have "?run (sample_pool 1) [(65536, 100)]"
    using sample_pool_gives(1) by (rule run_give)
  then have "?run (sample_pool 2) [(65640, 200), (65536, 100)]"
    using sample_pool_gives(2) by (rule run_give)
  then have "?run (sample_pool 3) [(4096, 100), (65640, 200), (65536, 100)]"
    using sample_pool_gives(3) by (rule run_give)
  then have "?run (sample_pool 4) (remove1 (4096, 100) [(4096, 100), (65640, 200), (65536, 100)])"
    by (rule run_take) (simp_all add: sample_pool_takes)
  then show ?thesis
    by (simp add: sample_pool_def [of 0])
qed

section \<open>The CPU device\<close>

text \<open>Two allocations of 64 bytes.\<close>

definition sample_device :: "nat \<Rightarrow> cpu_device" where
  "sample_device k =
     (let info = \<lambda>p. \<lparr>ai_ptr = p, ai_size = 64, ai_use_cached = False\<rparr>;
          own = \<lambda>p. \<lparr>mc_is_exclusive = True, mc_data = p, mc_head = p + 64, mc_tail = p + 64\<rparr>
      in if k = 0 then new_device (\<lambda>_. 0)
         else if k = 1 then \<lparr>cd_allocations = [info 4096],
           cd_pool = \<lparr>hp_allocator = Some [own 4096], hp_raw_memory_chunks = [(4096, 64)]\<rparr>, cd_mem = (\<lambda>_. 0)\<rparr>
         else \<lparr>cd_allocations = [info 4096, info 8192],
           cd_pool = \<lparr>hp_allocator = Some [own 4096, own 8192], hp_raw_memory_chunks = [(8192, 64), (4096, 64)]\<rparr>,
           cd_mem = (\<lambda>_. 0)\<rparr>)"

lemma sample_device_reached: "cpu_step\<^sup>*\<^sup>* (new_device (\<lambda>_. 0)) (sample_device 2)"
proof -
  have "cpu_step (sample_device 0) (sample_device 1)"
    by (rule step_allocate [of "Some 4096" 64 _ RhiSuccess 0])
      (simp_all add: sample_device_def new_device_def new_pool_def mapping_ok_def allocation_size_def page_size_def
        cpu_allocate_memory_def hp_allocate_def ua_allocate_def allocate_raw_memory_def u64_def)
  moreover have "cpu_step (sample_device 1) (sample_device 2)"
    by (rule step_allocate [of "Some 8192" 64 _ RhiSuccess 1])
      (simp_all add: sample_device_def mapping_ok_def allocation_size_def page_size_def apart_def
        cpu_allocate_memory_def hp_allocate_def ua_allocate_def allocate_raw_memory_def u64_def)
  ultimately show ?thesis
    by (simp add: sample_device_def [of 0])
qed

section \<open>Device memory\<close>

definition sample_chunk :: "nat \<Rightarrow> prealloc_chunk" where
  "sample_chunk h = \<lparr>pc_head = h, pc_tail = 1048576\<rparr>"

lemmas release_simps = new_caching_allocator_def ca_release_def merge_and_insert_def merge_right_def
  merge_left_def pm_touch_def pm_insert_def pm_below_def pm_put_def pm_erase_def insort_insert_key_def

text \<open>One page, an object of the runtime behind it, and the page released.\<close>

lemma sample_gpu_run:
  "alloc_run device_gives device_takes (new_caching_allocator True, sample_chunk 4096)
     (\<lparr>ca_mem_blocks = [(4096, 4096)], ca_ptr_map = [(4096, 4096), (8192, 0)], ca_merge_upon_release = True\<rparr>,
      sample_chunk 8256) [(8192, 64)]"
proof -
  let ?ca = "new_caching_allocator True"
  have g1: "device_gives (?ca, sample_chunk 4096) (4096, 4096) (?ca, sample_chunk 8192)"
    by (simp add: device_gives_def gpu_pool_alloc_def ca_allocate_def new_caching_allocator_def sample_chunk_def
        allocate_from_reserved_memory_def page_size_def u64_def)
  have g2: "device_gives (?ca, sample_chunk 8192) (8192, 64) (?ca, sample_chunk 8256)"
    unfolding device_gives_def
    by (simp add: page_size_def)
      (rule exI [of _ 128], simp add: sample_chunk_def allocate_from_reserved_memory_def u64_def)
  have t: "device_takes (?ca, sample_chunk 8256) (4096, 4096)
      (\<lparr>ca_mem_blocks = [(4096, 4096)], ca_ptr_map = [(4096, 4096), (8192, 0)], ca_merge_upon_release = True\<rparr>,
       sample_chunk 8256)"
    by (simp add: device_takes_def release_simps)
  let ?run = "alloc_run device_gives device_takes (?ca, sample_chunk 4096)"
  have "?run (?ca, sample_chunk 4096) []"
    by (rule run_start)
  then have "?run (?ca, sample_chunk 8192) [(4096, 4096)]"
    using g1 by (rule run_give)
  then have r: "?run (?ca, sample_chunk 8256) [(8192, 64), (4096, 4096)]"
    using g2 by (rule run_give)
  have "(4096, 4096) \<in> set [(8192, 64), (4096, 4096)]"
    by simp
  from run_take [where gives = device_gives and takes = device_takes, OF r this t] show ?thesis
    by simp
qed

definition sample_gpu :: gpu_device where
  "sample_gpu =
     \<lparr>gd_allocations = [], gd_cache = new_caching_allocator True, gd_chunk = sample_chunk 4096, gd_mem = \<lambda>_. 255\<rparr>"

section \<open>Nodes\<close>

text \<open>A node manager with chunks of four elements of 8 bytes.\<close>

definition no_indices :: index_list where
  "no_indices = \<lparr>il_get = \<lambda>_. 0, il_list = \<lparr>lm_chunks = \<lambda>_. 0, lm_element_size = 4, lm_max_num_elements_per_chunk = 4,
     lm_log2chunk_num_elements = 2, lm_num_elements = 0\<rparr>\<rparr>"

definition sample_nodes :: "(nat \<Rightarrow> nat) \<Rightarrow> nat \<Rightarrow> nat \<Rightarrow> index_list \<Rightarrow> node_manager" where
  "sample_nodes chunks n h recycled =
     \<lparr>nm_free_list_used = n, nm_free_list = no_indices, nm_recycled_list = recycled,
      nm_data_list = \<lparr>lm_chunks = chunks, lm_element_size = 8, lm_max_num_elements_per_chunk = 4,
        lm_log2chunk_num_elements = 2, lm_num_elements = n\<rparr>,
      nm_recycle_list_size_backup = 0, nm_chunk = sample_chunk h, nm_mem = \<lambda>_. 0\<rparr>"

lemma sample_nodes_new:
  "new_node_manager 8 (Some (2 ^ 2)) (sample_chunk 4096) (\<lambda>_. 0) = Inr (sample_nodes (\<lambda>_. 0) 0 4096 no_indices)"
proof -
  have "log2int 4 = 2"
    using log2int_power [of 2] by simp
  then show ?thesis
    by (simp add: new_node_manager_def halve_chunk.simps u64_def new_list_manager_def is_power_of_two_def
        sample_nodes_def no_indices_def Let_def)
qed

text \<open>Two nodes are handed out.\<close>

lemma sample_nodes_run:
  "alloc_run node_gives node_takes (sample_nodes (\<lambda>_. 0) 0 4096 no_indices)
     (sample_nodes ((\<lambda>_. 0)(0 := 4096)) 2 4128 no_indices) [(4104, 8), (4096, 8)]"
proof -
  let ?s = "\<lambda>ch n h. sample_nodes ch n h no_indices" and ?ch = "(\<lambda>_. 0)(0 := 4096)"
  let ?run = "alloc_run node_gives node_takes (?s (\<lambda>_. 0) 0 4096)"
  have g1: "node_gives (?s (\<lambda>_. 0) 0 4096) (4096, 8) (?s ?ch 1 4128)"
    unfolding node_gives_def
    by (rule exI [of _ "?s (\<lambda>_. 0) 0 4096"])
      (simp add: nm_allocate_def sample_nodes_def no_indices_def reserve_new_element_def touch_chunk_def max_num_chunks_def
        sample_chunk_def allocate_from_reserved_memory_def u64_def get_element_ptr_def Let_def fun_eq_iff)
  have g2: "node_gives (?s ?ch 1 4128) (4104, 8) (?s ?ch 2 4128)"
    unfolding node_gives_def
    by (rule exI [of _ "?s ?ch 1 4128"])
      (simp add: nm_allocate_def sample_nodes_def no_indices_def reserve_new_element_def touch_chunk_def max_num_chunks_def
        get_element_ptr_def Let_def fun_eq_iff drop_bit_eq_div)
  have "?run (?s (\<lambda>_. 0) 0 4096) []"
    by (rule run_start)
  then have "?run (?s ?ch 1 4128) [(4096, 8)]"
    using g1 by (rule run_give)
  then show ?thesis
    using g2 by (rule run_give)
qed

text \<open>
  Collecting: of a free list of three entries one is handed out, one node is recycled. The second
  state has nodes of a single byte, of which number \<open>1\<close> is recycled and number \<open>2\<close> holds \<open>7\<close>.
\<close>

definition index_chunk :: "nat \<Rightarrow> nat \<Rightarrow> list_manager" where
  "index_chunk a n = \<lparr>lm_chunks = (\<lambda>c. if c = 0 then a else 0), lm_element_size = 4, lm_max_num_elements_per_chunk = 8,
     lm_log2chunk_num_elements = 3, lm_num_elements = n\<rparr>"

definition sample_collect :: "nat \<Rightarrow> node_manager" where
  "sample_collect esz =
     \<lparr>nm_free_list_used = 1, nm_free_list = \<lparr>il_get = (\<lambda>i. i + 2), il_list = index_chunk 8192 3\<rparr>,
      nm_recycled_list = \<lparr>il_get = (\<lambda>_. 1), il_list = index_chunk 12288 1\<rparr>,
      nm_data_list = \<lparr>lm_chunks = (\<lambda>c. if c = 0 then 4096 else 0), lm_element_size = esz,
        lm_max_num_elements_per_chunk = 8, lm_log2chunk_num_elements = 3, lm_num_elements = 5\<rparr>,
      nm_recycle_list_size_backup = 0, nm_chunk = sample_chunk 12320, nm_mem = \<lambda>_. 7\<rparr>"

lemmas sample_collect_defs = sample_collect_def index_chunk_def

lemma sample_collect_orders:
  "length (gc_copies (nm_free_list_used (sample_collect esz)) (il_size (nm_free_list (sample_collect esz)))) = 1"
  "mset [0] = mset (grid_indices 2 1)"
  by (simp_all add: sample_collect_defs gc_copies_def wrap32_def mset_grid_indices)

text \<open>Released in ascending order three adjacent blocks stay apart, released in descending order they join.\<close>

lemma late_merge_missed:
  "let release_all = \<lambda>ps. foldl (\<lambda>ca p. ca_release 4096 p ca) (new_caching_allocator True) ps;
       up = release_all [4096, 8192, 12288]; down = release_all [12288, 8192, 4096]
   in free_blocks up = [(12288, 4096), (4096, 8192)] \<and> ca_allocate 12288 up = Inr None \<and>
      free_blocks down = [(4096, 12288)] \<and> map_sum id (map_option fst) (ca_allocate 12288 down) = Inr (Some 4096)"
  by (simp add: release_simps free_blocks_def ca_allocate_def iroundup_def u64_def page_size_def)

text \<open>For nodes of one byte the first thread of a block clears up to the next word, and with it a neighbour.\<close>

lemma collection_clears_neighbour:
  "\<exists>P S. gc_parallel [0] [0] (\<lambda>_. [0]) 1 (sample_collect 1) = Inr P \<and> gc_serial (sample_collect 1) = Inr S \<and>
     nm_mem P (get_element_ptr (nm_data_list (sample_collect 1)) 2) = 0 \<and>
     nm_mem S (get_element_ptr (nm_data_list (sample_collect 1)) 2) = 7"
  by (simp add: sample_collect_defs gc_parallel_def gc_parallel_2_def gc_parallel_1_def gc_parallel_0_def Let_def
      clear_block_def clear_thread_def clear_from_def clear_words.simps fill_bytes_def get_element_ptr_def
      gc_serial_def il_push_back_def reserve_new_element_def touch_chunk_def max_num_chunks_def drop_bit_eq_div)

text \<open>Collecting the nodes of 8 bytes succeeds.\<close>

lemma sample_collect_serial: "\<exists>S. gc_serial (sample_collect 8) = Inr S"
  by (simp add: sample_collect_defs Let_def gc_serial_def il_push_back_def reserve_new_element_def touch_chunk_def max_num_chunks_def
      drop_bit_eq_div)

end
