(* ===== verification/FloatBits.thy ===== *)
theory FloatBits
  imports Prelude
begin

text \<open>
  The comparisons of \<^verbatim>\<open>float\<close> and \<^verbatim>\<open>double\<close> (IEEE 754 binary32 and binary64) on bit patterns. A format
  has \<open>m\<close> fraction bits and \<open>e\<close> exponent bits; a pattern is a natural number below \<open>2 ^ (e + m + 1)\<close>
  whose top bit is the sign and whose remaining bits are its magnitude.
\<close>

section \<open>Comparison\<close>

definition fp_negative :: "nat \<Rightarrow> nat \<Rightarrow> nat \<Rightarrow> bool" where
  "fp_negative e m x \<longleftrightarrow> odd (x div 2 ^ (e + m))"

definition fp_magnitude :: "nat \<Rightarrow> nat \<Rightarrow> nat \<Rightarrow> nat" where
  "fp_magnitude e m x = x mod 2 ^ (e + m)"

definition fp_infinity :: "nat \<Rightarrow> nat \<Rightarrow> nat" where
  "fp_infinity e m = (2 ^ e - 1) * 2 ^ m"

definition fp_is_nan :: "nat \<Rightarrow> nat \<Rightarrow> nat \<Rightarrow> bool" where
  "fp_is_nan e m x \<longleftrightarrow> fp_infinity e m < fp_magnitude e m x"

definition fp_key :: "nat \<Rightarrow> nat \<Rightarrow> nat \<Rightarrow> int" where
  "fp_key e m x = (if fp_negative e m x then - int (fp_magnitude e m x) else int (fp_magnitude e m x))"

definition fp_less :: "nat \<Rightarrow> nat \<Rightarrow> nat \<Rightarrow> nat \<Rightarrow> bool" where
  "fp_less e m x y \<longleftrightarrow> \<not> fp_is_nan e m x \<and> \<not> fp_is_nan e m y \<and> fp_key e m x < fp_key e m y"

definition fp_equal :: "nat \<Rightarrow> nat \<Rightarrow> nat \<Rightarrow> nat \<Rightarrow> bool" where
  "fp_equal e m x y \<longleftrightarrow> \<not> fp_is_nan e m x \<and> \<not> fp_is_nan e m y \<and> fp_key e m x = fp_key e m y"

definition f32_less :: "nat \<Rightarrow> nat \<Rightarrow> bool" where
  "f32_less = fp_less 8 23"

definition f32_equal :: "nat \<Rightarrow> nat \<Rightarrow> bool" where
  "f32_equal = fp_equal 8 23"

definition f64_less :: "nat \<Rightarrow> nat \<Rightarrow> bool" where
  "f64_less = fp_less 11 52"

definition f64_equal :: "nat \<Rightarrow> nat \<Rightarrow> bool" where
  "f64_equal = fp_equal 11 52"

section \<open>The values behind the patterns\<close>

text \<open>
  A finite pattern with exponent field \<open>E\<close> and fraction \<open>F\<close> denotes \<open>F\<close> (subnormal) or
  \<open>(2 ^ m + F) * 2 ^ (E - 1)\<close> (normal), in units of the smallest subnormal; \<open>fp_value\<close> is that number
  with its sign. Comparing patterns is comparing these values.
\<close>

definition magnitude_value :: "nat \<Rightarrow> nat \<Rightarrow> nat" where
  "magnitude_value m n =
     (let E = n div 2 ^ m; F = n mod 2 ^ m in if E = 0 then F else (2 ^ m + F) * 2 ^ (E - 1))"

definition fp_value :: "nat \<Rightarrow> nat \<Rightarrow> nat \<Rightarrow> int" where
  "fp_value e m x =
     (let v = int (magnitude_value m (fp_magnitude e m x)) in if fp_negative e m x then - v else v)"

lemma magnitude_value_step: "magnitude_value m n < magnitude_value m (Suc n)"
proof (cases "Suc (n mod 2 ^ m) = 2 ^ m")
  case True
  then have "Suc n mod 2 ^ m = 0" "Suc n div 2 ^ m = Suc (n div 2 ^ m)"
    by (simp_all add: mod_Suc div_Suc)
  then have next_val: "magnitude_value m (Suc n) = 2 ^ m * 2 ^ (n div 2 ^ m)"
    by (simp add: magnitude_value_def)
  have small: "n mod 2 ^ m < 2 ^ m" by simp
  show ?thesis
  proof (cases "n div 2 ^ m")
    case 0
    then show ?thesis using next_val small by (simp add: magnitude_value_def)
  next
    case (Suc k)
    have "(2 ^ m + n mod 2 ^ m) * 2 ^ k < (2 ^ m + 2 ^ m) * (2::nat) ^ k"
      using small by (intro mult_strict_right_mono) simp_all
    then show ?thesis using next_val Suc by (simp add: magnitude_value_def algebra_simps)
  qed
next
  case False
  then have "Suc n mod 2 ^ m = Suc (n mod 2 ^ m)" "Suc n div 2 ^ m = n div 2 ^ m"
    by (simp_all add: mod_Suc div_Suc)
  then show ?thesis by (simp add: magnitude_value_def Let_def)
qed

lemma magnitude_value_less_iff: "magnitude_value m a < magnitude_value m b \<longleftrightarrow> a < b"
proof -
  have "strict_mono (magnitude_value m)"
    by (simp add: strict_mono_Suc_iff magnitude_value_step)
  then show ?thesis by (rule strict_mono_less)
qed

lemma magnitude_value_eq_iff: "magnitude_value m a = magnitude_value m b \<longleftrightarrow> a = b"
  by (metis magnitude_value_less_iff linorder_neq_iff)

lemma magnitude_value_0 [simp]: "magnitude_value m 0 = 0"
  by (simp add: magnitude_value_def)

lemma magnitude_value_le_iff: "magnitude_value m a \<le> magnitude_value m b \<longleftrightarrow> a \<le> b"
  by (metis magnitude_value_less_iff linorder_not_less)

text \<open>On patterns that are not NaN the two comparisons are those of the values.\<close>

lemma signed_less_iff:
  assumes "\<And>a b. (f a < f b) = (a < b)" "f 0 = (0::nat)"
  shows "((if p then - int (f a) else int (f a)) < (if q then - int (f b) else int (f b))) =
         ((if p then - int a else int a) < (if q then - int b else int b))"
proof -
  have pos: "0 < f c \<longleftrightarrow> 0 < c" for c
    using assms(1) [of 0 c] assms(2) by simp
  then have "0 < int (f a) + int (f b) \<longleftrightarrow> 0 < int a + int b"
    using pos [of a] pos [of b] by linarith
  then show ?thesis using assms(1) [of a b] assms(1) [of b a] by (cases p; cases q) auto
qed

lemma fp_compare_values:
  assumes "\<not> fp_is_nan e m x" "\<not> fp_is_nan e m y"
  shows "fp_less e m x y \<longleftrightarrow> fp_value e m x < fp_value e m y"
    and "fp_equal e m x y \<longleftrightarrow> fp_value e m x = fp_value e m y"
proof -
  have less: "fp_key e m a < fp_key e m b \<longleftrightarrow> fp_value e m a < fp_value e m b" for a b
    unfolding fp_key_def fp_value_def Let_def
    by (rule signed_less_iff [symmetric, OF magnitude_value_less_iff]) simp
  show "fp_less e m x y \<longleftrightarrow> fp_value e m x < fp_value e m y"
    using assms less by (simp add: fp_less_def)
  show "fp_equal e m x y \<longleftrightarrow> fp_value e m x = fp_value e m y"
    using assms less [of x y] less [of y x] by (auto simp: fp_equal_def)
qed

lemma fp_nan_unordered:
  assumes "fp_is_nan e m x \<or> fp_is_nan e m y"
  shows "\<not> fp_less e m x y" "\<not> fp_equal e m x y"
  using assms by (auto simp: fp_less_def fp_equal_def)

end
