(* ===== verification/BoundCount.thy ===== *)
theory BoundCount
  imports FloatBits AdStackOps WriteGen
begin

text \<open>
  The static bound count (\<^verbatim>\<open>runtime/llvm/adstack_lazy_claim/bound_eval.{h,cpp}\<close> and
  \<^verbatim>\<open>runtime_eval_static_bound_count\<close> of the runtime module). A reverse kernel whose float stacks are used
  only under a gate \<^verbatim>\<open>field[i] <cmp> literal\<close> gets one heap row per cell that passes the gate. The cells
  are counted on the host for a CPU launch and by a device function otherwise; both write the count
  into the task's slot of \<^verbatim>\<open>adstack_bound_row_capacities\<close>.
\<close>

section \<open>The captured gate\<close>

datatype arch = X64 | Arm64 | Js | Cuda | Metal | Opencl | Amdgpu | Vulkan

datatype field_source_kind = SNodeSource | NdArraySource

text \<open>\<^verbatim>\<open>StaticAdStackBoundExpr\<close>. The float literals are bit patterns.\<close>

record bound_expr =
  be_cmp_op :: int
  be_field_dtype_is_float :: bool
  be_field_dtype_is_double :: bool
  be_literal_f32 :: nat
  be_literal_f64 :: nat
  be_literal_i32 :: int
  be_polarity :: bool
  be_field_source_kind :: field_source_kind
  be_ndarray_arg_id :: "int list"
  be_ndarray_ndim :: int
  be_snode_root_id :: int
  be_snode_byte_base_offset :: nat
  be_snode_byte_cell_stride :: nat
  be_snode_iter_count :: nat
  be_trip :: bound_trip

text \<open>
  The comparison members of \<^verbatim>\<open>BinaryOpType\<close> by their position in \<^verbatim>\<open>inc/binary_op.inc.h\<close>, and the codes of
  \<^verbatim>\<open>ir/static_adstack_bound_reducer_device.h\<close>.
\<close>

definition eval_cmp :: "('v \<Rightarrow> 'v \<Rightarrow> bool) \<Rightarrow> ('v \<Rightarrow> 'v \<Rightarrow> bool) \<Rightarrow> int \<Rightarrow> 'v \<Rightarrow> 'v \<Rightarrow> bool" where
  "eval_cmp lt eqv cmp_op lhs rhs =
     (if cmp_op = 15 then lt lhs rhs
      else if cmp_op = 16 then lt lhs rhs \<or> eqv lhs rhs
      else if cmp_op = 17 then lt rhs lhs
      else if cmp_op = 18 then lt rhs lhs \<or> eqv lhs rhs
      else if cmp_op = 19 then eqv lhs rhs
      else if cmp_op = 20 then \<not> eqv lhs rhs
      else False)"

definition encode_cmp_op_for_llvm_reducer :: "int \<Rightarrow> nat" where
  "encode_cmp_op_for_llvm_reducer captured_cmp_op =
     (if captured_cmp_op = 15 then 0 else if captured_cmp_op = 16 then 1
      else if captured_cmp_op = 17 then 2 else if captured_cmp_op = 18 then 3
      else if captured_cmp_op = 19 then 4 else if captured_cmp_op = 20 then 5
      else 2 ^ 32 - 1)"

text \<open>The loop that counts: \<open>n\<close> cells to go, the next one at \<open>i\<close>.\<close>

fun count_loop :: "(nat \<Rightarrow> bool) \<Rightarrow> nat \<Rightarrow> nat \<Rightarrow> nat \<Rightarrow> nat" where
  "count_loop hit 0 i c = c"
| "count_loop hit (Suc n) i c = count_loop hit n (Suc i) (if hit i then u32 (c + 1) else c)"

section \<open>The arrays of the lazy claim\<close>

text \<open>
  The executor's side (\<open>lz_capacity\<close>, the two allocations, 0 when there is none, and whether the field
  addresses have been fetched) and the two fields of \<^verbatim>\<open>LLVMRuntime\<close> that compiled code goes through.
\<close>

record lazy_claim =
  lz_capacity :: nat
  lz_row_counters_alloc :: int
  lz_bound_row_capacities_alloc :: int
  lz_fields_cached :: bool
  lz_rt_row_counters :: int
  lz_rt_bound_row_capacities :: int
  lz_mem :: memory

definition store_u32 :: "memory \<Rightarrow> int \<Rightarrow> nat \<Rightarrow> memory" where
  "store_u32 m a n = store_bytes m a (le_bytes 4 (int (u32 n)))"

definition u32_buffer :: "nat list \<Rightarrow> 8 word list" where
  "u32_buffer ns = concat (map (\<lambda>n. le_bytes 4 (int (u32 n))) ns)"

text \<open>
  \<^verbatim>\<open>publish_adstack_lazy_claim_buffers\<close>; \<open>alloc1\<close> and \<open>alloc2\<close> are what the device returns for a request of
  so many bytes.
\<close>

definition publish_adstack_lazy_claim_buffers ::
  "(nat \<Rightarrow> int option) \<Rightarrow> (nat \<Rightarrow> int option) \<Rightarrow> nat \<Rightarrow> lazy_claim \<Rightarrow> lazy_claim result" where
  "publish_adstack_lazy_claim_buffers alloc1 alloc2 num_tasks s =
     (if num_tasks = 0 then Inr s
      else
        bindE
          (if lz_capacity s < num_tasks then
             (let new_cap = max num_tasks (2 * lz_capacity s) in
              case alloc1 (new_cap * 4) of
                None \<Rightarrow> Inl (AllocationFailed (new_cap * 4))
              | Some a \<Rightarrow>
                  (case alloc2 (new_cap * 4) of
                     None \<Rightarrow> Inl (AllocationFailed (new_cap * 4))
                   | Some b \<Rightarrow>
                       Inr (s\<lparr>lz_capacity := new_cap, lz_row_counters_alloc := a,
                              lz_bound_row_capacities_alloc := b, lz_fields_cached := True,
                              lz_rt_row_counters := a, lz_rt_bound_row_capacities := b\<rparr>)))
           else Inr (s\<lparr>lz_fields_cached := True\<rparr>))
          (\<lambda>t. Inr (t\<lparr>lz_mem :=
             store_bytes
               (store_bytes (lz_mem t) (lz_row_counters_alloc t) (u32_buffer (replicate num_tasks 0)))
               (lz_bound_row_capacities_alloc t) (u32_buffer (replicate num_tasks (2 ^ 32 - 1)))\<rparr>)))"

section \<open>Counting on the host\<close>

text \<open>Base address and stride of the gating field, where it can be resolved.\<close>

definition gate_field ::
  "memory \<Rightarrow> launch_ctx option \<Rightarrow> (int \<Rightarrow> int) option \<Rightarrow> bound_expr \<Rightarrow> (int \<times> nat) option" where
  "gate_field m ctx roots be =
     (case be_field_source_kind be of
        NdArraySource \<Rightarrow>
          (case ctx of
             None \<Rightarrow> None
           | Some c \<Rightarrow>
               (case lc_args_type c of
                  None \<Rightarrow> None
                | Some get_element_offset \<Rightarrow>
                    if lc_arg_buffer c = 0 then None
                    else
                      (let off = get_element_offset (be_ndarray_arg_id be @ [data_ptr_pos]);
                           data_ptr = load_uint m (lc_arg_buffer c + off) 8
                       in if data_ptr = 0 then None
                          else Some (data_ptr, if be_field_dtype_is_double be then 8 else 4))))
      | SNodeSource \<Rightarrow>
          (if be_snode_root_id be < 0 then None
           else
             (case roots of
                None \<Rightarrow> None
              | Some r \<Rightarrow>
                  if r (be_snode_root_id be) = 0 then None
                  else Some (r (be_snode_root_id be) + int (be_snode_byte_base_offset be),
                             be_snode_byte_cell_stride be))))"

definition host_match :: "memory \<Rightarrow> bound_expr \<Rightarrow> int \<Rightarrow> bool" where
  "host_match m be p =
     (if be_field_dtype_is_float be then
        (if be_field_dtype_is_double be
         then eval_cmp f64_less f64_equal (be_cmp_op be) (nat (load_uint m p 8)) (be_literal_f64 be)
         else eval_cmp f32_less f32_equal (be_cmp_op be) (nat (load_uint m p 4)) (be_literal_f32 be))
      else eval_cmp (<) (=) (be_cmp_op be) (load_i32 m p) (be_literal_i32 be))"

text \<open>
  \<^verbatim>\<open>publish_per_task_bound_count_cpu\<close>. \<open>roots\<close> is \<^verbatim>\<open>runtime->roots\<close>, \<open>None\<close> before the runtime exists.
\<close>

definition publish_per_task_bound_count_cpu ::
  "arch \<Rightarrow> (int \<Rightarrow> int) option \<Rightarrow> nat \<Rightarrow> bound_expr option \<Rightarrow> nat \<Rightarrow> launch_ctx option \<Rightarrow> lazy_claim \<Rightarrow>
   nat \<times> lazy_claim" where
  "publish_per_task_bound_count_cpu ar roots task_index bound len ctx s =
     (if ar \<noteq> X64 \<and> ar \<noteq> Arm64 then (2 ^ 32 - 1, s)
      else
        (case bound of
           None \<Rightarrow> (2 ^ 32 - 1, s)
         | Some be \<Rightarrow>
             (case gate_field (lz_mem s) ctx roots be of
                None \<Rightarrow> (2 ^ 32 - 1, s)
              | Some (field_base, stride) \<Rightarrow>
                  (let c = count_loop
                             (\<lambda>i. host_match (lz_mem s) be (field_base + int (i * stride)) = be_polarity be)
                             len 0 0
                   in if \<not> lz_fields_cached s \<or> lz_bound_row_capacities_alloc s = 0 then (c, s)
                      else (c, s\<lparr>lz_mem := store_u32 (lz_mem s)
                                            (lz_bound_row_capacities_alloc s + 4 * int task_index) c\<rparr>)))))"

section \<open>Counting on the device\<close>

text \<open>\<^verbatim>\<open>LlvmAdStackBoundReducerDeviceParams\<close>, a blob of unsigned words.\<close>

record bound_params =
  bp_task_index :: nat
  bp_length :: nat
  bp_cmp_op :: nat
  bp_field_dtype_is_float :: nat
  bp_field_dtype_is_double :: nat
  bp_polarity :: nat
  bp_threshold_bits :: nat
  bp_threshold_bits_high :: nat
  bp_field_source_is_snode :: nat
  bp_arg_word_offset :: nat
  bp_snode_root_id :: nat
  bp_snode_byte_base_offset :: nat
  bp_snode_byte_cell_stride :: nat

definition reducer_match :: "('v \<Rightarrow> 'v \<Rightarrow> bool) \<Rightarrow> ('v \<Rightarrow> 'v \<Rightarrow> bool) \<Rightarrow> nat \<Rightarrow> 'v \<Rightarrow> 'v \<Rightarrow> bool" where
  "reducer_match lt eqv cmp_op v threshold =
     (if cmp_op = 0 then lt v threshold
      else if cmp_op = 1 then lt v threshold \<or> eqv v threshold
      else if cmp_op = 2 then lt threshold v
      else if cmp_op = 3 then lt threshold v \<or> eqv v threshold
      else if cmp_op = 4 then eqv v threshold
      else if cmp_op = 5 then \<not> eqv v threshold
      else False)"

text \<open>
  \<^verbatim>\<open>runtime_eval_static_bound_count\<close>: the value it stores in the slot of its task. \<open>arg_buffer\<close> and \<open>roots\<close>
  are what the runtime context and \<^verbatim>\<open>LLVMRuntime\<close> hold on the device.
\<close>

definition reducer_field :: "memory \<Rightarrow> int \<Rightarrow> (int \<Rightarrow> int) \<Rightarrow> bound_params \<Rightarrow> int \<times> nat" where
  "reducer_field m arg_buffer roots bp =
     (if bp_field_source_is_snode bp \<noteq> 0 then
        (roots (int (bp_snode_root_id bp)) + int (bp_snode_byte_base_offset bp), bp_snode_byte_cell_stride bp)
      else
        (let lo = load_u32 m (arg_buffer + 4 * int (bp_arg_word_offset bp));
             hi = load_u32 m (arg_buffer + 4 * (int (bp_arg_word_offset bp) + 1))
         in (lo + hi * 2 ^ 32,
             if bp_field_dtype_is_float bp \<noteq> 0 \<and> bp_field_dtype_is_double bp \<noteq> 0 then 8 else 4)))"

definition reducer_hit :: "memory \<Rightarrow> bound_params \<Rightarrow> int \<Rightarrow> bool" where
  "reducer_hit m bp p =
     ((if bp_field_dtype_is_float bp \<noteq> 0 \<and> bp_field_dtype_is_double bp \<noteq> 0
       then reducer_match f64_less f64_equal (bp_cmp_op bp) (nat (load_uint m p 8))
              (bp_threshold_bits bp + bp_threshold_bits_high bp * 2 ^ 32)
       else if bp_field_dtype_is_float bp \<noteq> 0
       then reducer_match f32_less f32_equal (bp_cmp_op bp) (nat (load_uint m p 4)) (bp_threshold_bits bp)
       else reducer_match (<) (=) (bp_cmp_op bp) (load_i32 m p) (wrap32 (int (bp_threshold_bits bp))))
      = (bp_polarity bp \<noteq> 0))"

definition runtime_eval_static_bound_count ::
  "memory \<Rightarrow> int \<Rightarrow> (int \<Rightarrow> int) \<Rightarrow> bound_params \<Rightarrow> nat" where
  "runtime_eval_static_bound_count m arg_buffer roots bp =
     (let (field_base, stride) = reducer_field m arg_buffer roots bp
      in count_loop (\<lambda>i. reducer_hit m bp (field_base + int (i * stride))) (bp_length bp) 0 0)"

text \<open>
  The parameters \<^verbatim>\<open>publish_per_task_bound_count_device\<close> fills in, \<open>None\<close> where it returns before the
  dispatch.
\<close>

definition fill_bound_params :: "nat \<Rightarrow> bound_expr \<Rightarrow> nat \<Rightarrow> (int list \<Rightarrow> int) \<Rightarrow> bound_params option" where
  "fill_bound_params task_index be len get_element_offset =
     (let is_snode_source = (be_field_source_kind be = SNodeSource);
          op = encode_cmp_op_for_llvm_reducer (be_cmp_op be);
          lo = (if be_field_dtype_is_double be then be_literal_f64 be mod 2 ^ 32
                else if be_field_dtype_is_float be then be_literal_f32 be
                else nat (be_literal_i32 be mod 2 ^ 32));
          hi = (if be_field_dtype_is_double be then u32 (be_literal_f64 be div 2 ^ 32) else 0);
          data_ptr_byte_off = get_element_offset (be_ndarray_arg_id be @ [data_ptr_pos]);
          bp = \<lparr>bp_task_index = u32 task_index,
                bp_length = u32 (if is_snode_source then be_snode_iter_count be else len),
                bp_cmp_op = op,
                bp_field_dtype_is_float = (if be_field_dtype_is_float be then 1 else 0),
                bp_field_dtype_is_double = (if be_field_dtype_is_double be then 1 else 0),
                bp_polarity = (if be_polarity be then 1 else 0),
                bp_threshold_bits = lo, bp_threshold_bits_high = hi,
                bp_field_source_is_snode = (if is_snode_source then 1 else 0),
                bp_arg_word_offset = 0, bp_snode_root_id = 0, bp_snode_byte_base_offset = 0,
                bp_snode_byte_cell_stride = 0\<rparr>
      in if op = 2 ^ 32 - 1 then None
         else if is_snode_source
         then Some (bp\<lparr>bp_snode_root_id := nat (be_snode_root_id be mod 2 ^ 32),
                       bp_snode_byte_base_offset := be_snode_byte_base_offset be,
                       bp_snode_byte_cell_stride := be_snode_byte_cell_stride be\<rparr>)
         else if data_ptr_byte_off mod 4 \<noteq> 0 then None
         else Some (bp\<lparr>bp_arg_word_offset := u32 (nat (data_ptr_byte_off div 4))\<rparr>))"

text \<open>
  The device mirror of the argument buffer is at \<open>dev_arg_buffer\<close>; the parameter blob has a buffer of
  its own, so the reducer reads it as it was filled.
\<close>

definition publish_per_task_bound_count_device ::
  "arch \<Rightarrow> (int \<Rightarrow> int) \<Rightarrow> int \<Rightarrow> nat \<Rightarrow> bound_expr option \<Rightarrow> nat \<Rightarrow> launch_ctx option \<Rightarrow> lazy_claim \<Rightarrow>
   lazy_claim" where
  "publish_per_task_bound_count_device ar roots dev_arg_buffer task_index bound len ctx s =
     (if ar \<noteq> Cuda \<and> ar \<noteq> Amdgpu then s
      else
        (case (bound, Option.bind ctx lc_args_type) of
           (Some be, Some get_element_offset) \<Rightarrow>
             (case fill_bound_params task_index be len get_element_offset of
                None \<Rightarrow> s
              | Some bp \<Rightarrow>
                  s\<lparr>lz_mem := store_u32 (lz_mem s) (lz_rt_bound_row_capacities s + 4 * int (bp_task_index bp))
                                (runtime_eval_static_bound_count (lz_mem s) dev_arg_buffer roots bp)\<rparr>)
         | _ \<Rightarrow> s))"

text \<open>
  The length the launchers pass (\<^verbatim>\<open>runtime/cpu/kernel_launcher.cpp\<close> and its GPU siblings): the number of
  elements of the gating ndarray, from its shape slots.
\<close>

fun shape_product :: "memory \<Rightarrow> launch_ctx \<Rightarrow> int list \<Rightarrow> nat \<Rightarrow> nat \<Rightarrow> int \<Rightarrow> int result" where
  "shape_product m ctx arg_id 0 axis flat_len = Inr flat_len"
| "shape_product m ctx arg_id (Suc n) axis flat_len =
     bindE (shape_at m ctx arg_id (int axis)) (\<lambda>d.
       shape_product m ctx arg_id n (Suc axis) (wrap64 (flat_len * d)))"

definition bound_count_length :: "memory \<Rightarrow> launch_ctx \<Rightarrow> bound_expr \<Rightarrow> nat \<Rightarrow> nat result" where
  "bound_count_length m ctx be num_threads =
     (if be_field_source_kind be = NdArraySource \<and> be_ndarray_arg_id be \<noteq> [] \<and> 0 < be_ndarray_ndim be \<and>
         lc_args_type ctx \<noteq> None
      then bindE (shape_product m ctx (be_ndarray_arg_id be) (nat (be_ndarray_ndim be)) 0 1) (\<lambda>l.
             Inr (nat (max 0 l)))
      else if be_field_source_kind be = SNodeSource then Inr (be_snode_iter_count be)
      else Inr num_threads)"

section \<open>Both counts are the number of cells that pass\<close>

definition gate_open :: "memory \<Rightarrow> bound_expr \<Rightarrow> int \<times> nat \<Rightarrow> nat \<Rightarrow> bool" where
  "gate_open m be fld i \<longleftrightarrow> host_match m be (fst fld + int (i * snd fld)) = be_polarity be"

text \<open>What the gate recogniser guarantees: a comparison, a consistent type, literals of their width.\<close>

definition gate_ok :: "bound_expr \<Rightarrow> bool" where
  "gate_ok be \<longleftrightarrow> 15 \<le> be_cmp_op be \<and> be_cmp_op be \<le> 20 \<and>
     (be_field_dtype_is_double be \<longrightarrow> be_field_dtype_is_float be) \<and>
     be_literal_f64 be < 2 ^ 64 \<and> fits32 (be_literal_i32 be) \<and> fits32 (be_snode_root_id be)"

lemma u32_u32_add [simp]: "u32 (u32 a + b) = u32 (a + b)"
  by (simp add: u32_def mod_add_left_eq)

lemma count_loop_eq: "count_loop hit n i (u32 c) = u32 (c + card {j. i \<le> j \<and> j < i + n \<and> hit j})"
proof (induction n arbitrary: i c)
  case 0
  have "{j. i \<le> j \<and> j < i + 0 \<and> hit j} = {}" by auto
  then show ?case by (simp only: count_loop.simps card.empty add_0_right)
next
  case (Suc n)
  have "{j. i \<le> j \<and> j < i + Suc n \<and> hit j} =
      (if hit i then insert i {j. Suc i \<le> j \<and> j < Suc i + n \<and> hit j}
       else {j. Suc i \<le> j \<and> j < Suc i + n \<and> hit j})"
    by (auto simp: le_less)
  moreover have "finite {j. Suc i \<le> j \<and> j < Suc i + n \<and> hit j}" by simp
  ultimately have "card {j. i \<le> j \<and> j < i + Suc n \<and> hit j} =
      (if hit i then 1 else 0) + card {j. Suc i \<le> j \<and> j < Suc i + n \<and> hit j}"
    by simp
  then show ?case
    using Suc.IH [of "Suc i" "if hit i then c + 1 else c"] u32_u32_add [of c 1] by (cases "hit i") simp_all
qed

lemma card_below_le: "card {j. j < n \<and> hit j} \<le> n"
  using card_mono [of "{..<n}" "{j. j < n \<and> hit j}"] by auto

lemma count_loop_card:
  assumes "n < 2 ^ 32"
  shows "count_loop hit n 0 0 = card {j. j < n \<and> hit j}"
  using count_loop_eq [of hit n 0 0] card_below_le [of n hit] assms by (simp add: u32_def)

lemma load_uint_split:
  "load_uint m a (n + k) = load_uint m a n + 256 ^ n * load_uint m (a + int n) k"
proof (induction n arbitrary: a)
  case (Suc n)
  then show ?case by (simp add: algebra_simps)
qed simp

lemma reducer_match_eval_cmp:
  assumes "15 \<le> op" "op \<le> 20"
  shows "reducer_match lt eqv (encode_cmp_op_for_llvm_reducer op) v t = eval_cmp lt eqv op v t"
    and "encode_cmp_op_for_llvm_reducer op \<noteq> 2 ^ 32 - 1"
proof -
  have "op = 15 \<or> op = 16 \<or> op = 17 \<or> op = 18 \<or> op = 19 \<or> op = 20" using assms by arith
  then show "reducer_match lt eqv (encode_cmp_op_for_llvm_reducer op) v t = eval_cmp lt eqv op v t"
    and "encode_cmp_op_for_llvm_reducer op \<noteq> 2 ^ 32 - 1"
    by (auto simp: reducer_match_def eval_cmp_def encode_cmp_op_for_llvm_reducer_def)
qed

lemma wrap32_of_u32_bits: "fits32 x \<Longrightarrow> wrap32 (int (nat (x mod 2 ^ 32))) = x"
proof -
  assume "fits32 x"
  moreover have "wrap32 (x mod 2 ^ 32) = wrap32 x"
    by (simp add: wrap32_def mod_add_left_eq)
  ultimately show ?thesis by simp
qed

lemma reducer_hit_eq:
  assumes "fill_bound_params t be len geo = Some bp" "gate_ok be"
  shows "reducer_hit m bp p \<longleftrightarrow> host_match m be p = be_polarity be"
proof -
  have join: "be_literal_f64 be mod 2 ^ 32 + u32 (be_literal_f64 be div 2 ^ 32) * 2 ^ 32 = be_literal_f64 be"
    using assms(2) mod_div_mult_eq [of "be_literal_f64 be" "2 ^ 32"]
    by (simp add: u32_def gate_ok_def div_less_iff_less_mult)
  have lit: "wrap32 (int (nat (be_literal_i32 be mod 2 ^ 32))) = be_literal_i32 be"
    by (rule wrap32_of_u32_bits) (use assms(2) in \<open>simp add: gate_ok_def\<close>)
  have op: "15 \<le> be_cmp_op be" "be_cmp_op be \<le> 20" "be_field_dtype_is_double be \<Longrightarrow> be_field_dtype_is_float be"
    using assms(2) by (simp_all add: gate_ok_def)
  have shape: "bp_cmp_op bp = encode_cmp_op_for_llvm_reducer (be_cmp_op be)"
    "bp_field_dtype_is_float bp = (if be_field_dtype_is_float be then 1 else 0)"
    "bp_field_dtype_is_double bp = (if be_field_dtype_is_double be then 1 else 0)"
    "bp_polarity bp = (if be_polarity be then 1 else 0)"
    "bp_threshold_bits bp = (if be_field_dtype_is_double be then be_literal_f64 be mod 2 ^ 32
                else if be_field_dtype_is_float be then be_literal_f32 be
                else nat (be_literal_i32 be mod 2 ^ 32))"
    "bp_threshold_bits_high bp = (if be_field_dtype_is_double be then u32 (be_literal_f64 be div 2 ^ 32) else 0)"
    using assms(1) by (auto simp: fill_bound_params_def Let_def split: if_splits)
  show ?thesis
    using op(3) join lit
    by (auto simp: reducer_hit_def host_match_def shape reducer_match_eval_cmp [OF op(1,2)])
qed

lemma reducer_field_eq:
  assumes "fill_bound_params t be len geo = Some bp" "gate_ok be"
    and "gate_field m (Some c) (Some roots) be = Some fld" "lc_args_type c = Some geo"
    and "0 \<le> geo (be_ndarray_arg_id be @ [data_ptr_pos])" "geo (be_ndarray_arg_id be @ [data_ptr_pos]) < 2 ^ 32"
  shows "reducer_field m (lc_arg_buffer c) roots bp = fld"
proof (cases "be_field_source_kind be")
  case SNodeSource
  then have "0 \<le> be_snode_root_id be" "be_snode_root_id be < 2 ^ 32"
    using assms(2,3) by (auto simp: gate_field_def gate_ok_def fits32_def split: if_splits)
  then show ?thesis
    using assms(1,3) SNodeSource
    by (auto simp: fill_bound_params_def gate_field_def reducer_field_def Let_def split: if_splits)
next
  case NdArraySource
  define off where "off = geo (be_ndarray_arg_id be @ [data_ptr_pos])"
  have mult: "off mod 4 = 0"
    and word: "bp_arg_word_offset bp = u32 (nat (off div 4))" "bp_field_source_is_snode bp = 0"
      "bp_field_dtype_is_float bp \<noteq> 0 \<longleftrightarrow> be_field_dtype_is_float be"
      "bp_field_dtype_is_double bp \<noteq> 0 \<longleftrightarrow> be_field_dtype_is_double be"
    using assms(1) NdArraySource by (auto simp: fill_bound_params_def Let_def off_def split: if_splits)
  have range: "0 \<le> off" "off < 2 ^ 32" using assms(5,6) by (simp_all add: off_def)
  have words: "4 * int (bp_arg_word_offset bp) = off"
    using mult range word(1) by (auto simp: u32_def nat_mod_distrib)
  have "load_uint m (lc_arg_buffer c + off) 8 =
      load_uint m (lc_arg_buffer c + off) 4 + 2 ^ 32 * load_uint m (lc_arg_buffer c + off + 4) 4"
    using load_uint_split [of m "lc_arg_buffer c + off" 4 4] by simp
  moreover have "fld = (load_uint m (lc_arg_buffer c + off) 8, if be_field_dtype_is_double be then 8 else 4)"
    using assms(3,4) NdArraySource by (auto simp: gate_field_def Let_def off_def split: if_splits)
  ultimately show ?thesis
    using words word assms(2)
    by (auto simp: reducer_field_def Let_def load_u32_def gate_ok_def algebra_simps)
qed

text \<open>
  Both publications leave the same state behind: the slot of the task holds the number of cells that
  pass.
\<close>

definition arrays_published :: "lazy_claim \<Rightarrow> bool" where
  "arrays_published s \<longleftrightarrow> lz_fields_cached s \<and> lz_bound_row_capacities_alloc s \<noteq> 0 \<and>
     lz_rt_row_counters s = lz_row_counters_alloc s \<and>
     lz_rt_bound_row_capacities s = lz_bound_row_capacities_alloc s"

definition set_capacity :: "nat \<Rightarrow> nat \<Rightarrow> lazy_claim \<Rightarrow> lazy_claim" where
  "set_capacity task_index n s =
     s\<lparr>lz_mem := store_u32 (lz_mem s) (lz_bound_row_capacities_alloc s + 4 * int task_index) n\<rparr>"

lemma cpu_count:
  assumes "ar = X64 \<or> ar = Arm64" "gate_field (lz_mem s) ctx roots be = Some fld" "arrays_published s" "len < 2 ^ 32"
  shows "publish_per_task_bound_count_cpu ar roots t (Some be) len ctx s =
    (card {i. i < len \<and> gate_open (lz_mem s) be fld i},
     set_capacity t (card {i. i < len \<and> gate_open (lz_mem s) be fld i}) s)"
  using assms
  by (cases fld)
    (auto simp: publish_per_task_bound_count_cpu_def count_loop_card gate_open_def arrays_published_def set_capacity_def Let_def)

lemma fill_bound_params_Some:
  assumes "gate_ok be" "be_field_source_kind be = SNodeSource \<or> geo (be_ndarray_arg_id be @ [data_ptr_pos]) mod 4 = 0"
  shows "\<exists>bp. fill_bound_params t be len geo = Some bp \<and> bp_task_index bp = u32 t \<and>
    bp_length bp = u32 (if be_field_source_kind be = SNodeSource then be_snode_iter_count be else len)"
  using assms reducer_match_eval_cmp(2) [of "be_cmp_op be"]
  by (cases "be_field_source_kind be") (auto simp: fill_bound_params_def Let_def gate_ok_def)

lemma device_count:
  assumes "ar = Cuda \<or> ar = Amdgpu" "gate_ok be" "lc_args_type c = Some geo" "t < 2 ^ 32"
    and "gate_field (lz_mem s) (Some c) (Some roots) be = Some fld" "arrays_published s"
    and "be_field_source_kind be = SNodeSource \<or> geo (be_ndarray_arg_id be @ [data_ptr_pos]) mod 4 = 0"
    and "0 \<le> geo (be_ndarray_arg_id be @ [data_ptr_pos])" "geo (be_ndarray_arg_id be @ [data_ptr_pos]) < 2 ^ 32"
    and "n = (if be_field_source_kind be = SNodeSource then be_snode_iter_count be else len)" "n < 2 ^ 32"
  shows "publish_per_task_bound_count_device ar roots (lc_arg_buffer c) t (Some be) len (Some c) s =
     set_capacity t (card {i. i < n \<and> gate_open (lz_mem s) be fld i}) s"
proof -
  obtain bp where bp: "fill_bound_params t be len geo = Some bp" "bp_task_index bp = t" "bp_length bp = n"
    using fill_bound_params_Some [where be = be and geo = geo and t = t and len = len] assms(2,4,7,10,11) by (auto simp: u32_def)
  have "runtime_eval_static_bound_count (lz_mem s) (lc_arg_buffer c) roots bp =
      card {i. i < n \<and> gate_open (lz_mem s) be fld i}"
    using reducer_field_eq [OF bp(1) assms(2,5,3,8,9)] reducer_hit_eq [OF bp(1) assms(2)] bp(3) assms(11)
    by (cases fld) (simp add: runtime_eval_static_bound_count_def count_loop_card gate_open_def)
  then show ?thesis
    using assms(1,3,6) bp
    by (auto simp: publish_per_task_bound_count_device_def set_capacity_def arrays_published_def)
qed

text \<open>An array of words in memory, read back word by word.\<close>

lemma load_store_u32 [simp]: "load_u32 (store_u32 m a n) a = int (u32 n)"
  using load_le_bytes [OF reads_as_store_bytes, of m a 4 "int (u32 n)"]
  by (simp add: load_u32_def store_u32_def u32_def)

lemma length_u32_buffer [simp]: "length (u32_buffer ns) = 4 * length ns"
  by (induction ns) (simp_all add: u32_buffer_def)

lemma store_bytes_append:
  "store_bytes m a (bs @ cs) = store_bytes (store_bytes m (a + int (length bs)) cs) a bs"
proof
  fix x
  have "nat (x - a) - length bs = nat (x - (a + int (length bs)))" by arith
  then show "store_bytes m a (bs @ cs) x = store_bytes (store_bytes m (a + int (length bs)) cs) a bs x"
    by (auto simp: store_bytes_def nth_append nat_less_iff)
qed

lemma load_u32_store_other:
  "a + 4 \<le> b \<or> b + int (length bs) \<le> a \<Longrightarrow> load_u32 (store_bytes m b bs) a = load_u32 m a"
  unfolding load_u32_def by (intro load_uint_cong store_bytes_other) auto

lemma load_u32_buffer:
  "i < length ns \<Longrightarrow> load_u32 (store_bytes m a (u32_buffer ns)) (a + 4 * int i) = int (u32 (ns ! i))"
proof (induction ns arbitrary: m a i)
  case (Cons n ns)
  have cons: "store_bytes m a (u32_buffer (n # ns)) = store_u32 (store_bytes m (a + 4) (u32_buffer ns)) a n"
    by (simp add: u32_buffer_def store_bytes_append store_u32_def)
  show ?case
  proof (cases i)
    case 0
    then show ?thesis by (simp add: cons)
  next
    case (Suc j)
    have "load_u32 (store_u32 (store_bytes m (a + 4) (u32_buffer ns)) a n) (a + 4 * int i) =
        load_u32 (store_bytes m (a + 4) (u32_buffer ns)) (a + 4 * int i)"
      unfolding store_u32_def by (rule load_u32_store_other) (simp add: Suc)
    also have "\<dots> = int (u32 (ns ! j))"
      using Cons.IH [of j m "a + 4"] Cons.prems by (simp add: Suc algebra_simps)
    finally show ?thesis by (simp add: cons Suc)
  qed
qed simp

end
