(* ===== verification/LazyClaim.thy ===== *)
theory LazyClaim
  imports BoundCount AdStackLayout Diagnose
begin

unbundle bit_operations_syntax

text \<open>
  Rows of the float heap (\<^verbatim>\<open>runtime/llvm/adstack_lazy_claim/heap_grow.cpp\<close> and the row claim that
  \<^verbatim>\<open>codegen/llvm/codegen_llvm.cpp\<close> emits). Threads that reach the gate draw rows from a counter, clamped to
  the published capacity; the executor sizes the heap from that capacity before the launch, and checks
  after it whether a claim or a push ran over.
\<close>

section \<open>Claiming a row\<close>

text \<open>
  The code \<^verbatim>\<open>emit_ad_stack_row_claim_llvm\<close> emits, run by one thread. The capacity slot is not written while
  the task runs, so the atomic increment decides the row; \<open>flag_ptr\<close> and \<open>id_ptr\<close> are the pinned slots.
\<close>

definition signal_claim_overflow :: "int \<Rightarrow> int \<Rightarrow> nat \<Rightarrow> memory \<Rightarrow> memory" where
  "signal_claim_overflow flag_ptr id_ptr registry_id m =
     (let m1 = store_u64 m flag_ptr (load_u64 m flag_ptr OR 1)
      in if registry_id \<noteq> 0 \<and> load_u64 m1 id_ptr = 0 then store_u64 m1 id_ptr registry_id else m1)"

definition row_claim :: "int \<Rightarrow> int \<Rightarrow> nat \<Rightarrow> nat \<Rightarrow> lazy_claim \<Rightarrow> nat \<times> lazy_claim" where
  "row_claim flag_ptr id_ptr registry_id task_codegen_id s =
     (let counter_slot = lz_rt_row_counters s + 4 * int task_codegen_id;
          claimed_row = nat (load_u32 (lz_mem s) counter_slot);
          m1 = store_u32 (lz_mem s) counter_slot (claimed_row + 1);
          capacity = nat (load_u32 m1 (lz_rt_bound_row_capacities s + 4 * int task_codegen_id));
          clamp_upper = (if capacity = 0 then 0 else capacity - 1)
      in (if clamp_upper < claimed_row then clamp_upper else claimed_row,
          s\<lparr>lz_mem := (if clamp_upper < claimed_row then signal_claim_overflow flag_ptr id_ptr registry_id m1
                        else m1)\<rparr>))"

text \<open>The claims of a task in the order its threads reach the gate.\<close>

fun row_claims :: "int \<Rightarrow> int \<Rightarrow> nat \<Rightarrow> nat \<Rightarrow> nat \<Rightarrow> lazy_claim \<Rightarrow> nat list \<times> lazy_claim" where
  "row_claims flag_ptr id_ptr registry_id t 0 s = ([], s)"
| "row_claims flag_ptr id_ptr registry_id t (Suc k) s =
     (let (r, s1) = row_claim flag_ptr id_ptr registry_id t s;
          (rs, s2) = row_claims flag_ptr id_ptr registry_id t k s1
      in (r # rs, s2))"

text \<open>
  \<^verbatim>\<open>get_ad_stack_base_llvm\<close> for a lazily claimed float stack, and the base
  \<^verbatim>\<open>visit(AdStackAllocaStmt *)\<close> gives every other stack.
\<close>

definition lazy_stack_base :: "adstack_runtime \<Rightarrow> int \<Rightarrow> nat \<Rightarrow> nat \<Rightarrow> int" where
  "lazy_stack_base rt heap_float row_id stack_id =
     heap_float + int (u64 (u64 (row_id * ar_per_thread_stride_float rt) + ar_offsets rt stack_id))"

definition eager_stack_base :: "adstack_runtime \<Rightarrow> bool \<Rightarrow> int \<Rightarrow> int \<Rightarrow> nat \<Rightarrow> nat \<Rightarrow> int" where
  "eager_stack_base rt float_kind heap_float heap_int linear_tid stack_id =
     (if float_kind then heap_float else heap_int) +
     int (u64 (u64 (linear_tid * (if float_kind then ar_per_thread_stride_float rt else ar_per_thread_stride_int rt))
               + ar_offsets rt stack_id))"

section \<open>The heaps\<close>

text \<open>
  The two heaps as the executor knows them, the fields of \<^verbatim>\<open>LLVMRuntime\<close> behind the four cached
  addresses, and whether those have been fetched.
\<close>

record adstack_heaps =
  hp_size_float :: nat
  hp_alloc_float :: int
  hp_size_int :: nat
  hp_alloc_int :: int
  hp_fields_cached :: bool
  hp_rt_buffer_float :: int
  hp_rt_size_float :: nat
  hp_rt_buffer_int :: int
  hp_rt_size_int :: nat

definition ensure_adstack_heap_int ::
  "(nat \<Rightarrow> int option) \<Rightarrow> nat \<Rightarrow> adstack_heaps \<Rightarrow> adstack_heaps result" where
  "ensure_adstack_heap_int allocate_memory needed_bytes h =
     (if needed_bytes = 0 \<or> needed_bytes \<le> hp_size_int h then Inr h
      else
        (let new_size = max needed_bytes (u64 (2 * hp_size_int h)) in
         case allocate_memory new_size of
           None \<Rightarrow> Inl (AllocationFailed new_size)
         | Some new_ptr \<Rightarrow>
             Inr (h\<lparr>hp_fields_cached := True, hp_rt_buffer_int := new_ptr, hp_rt_size_int := new_size,
                    hp_alloc_int := new_ptr, hp_size_int := new_size\<rparr>)))"

definition ensure_adstack_heap_float ::
  "(nat \<Rightarrow> int option) \<Rightarrow> nat \<Rightarrow> adstack_heaps \<Rightarrow> adstack_heaps result" where
  "ensure_adstack_heap_float allocate_memory needed_bytes h =
     (if needed_bytes = 0 \<or> needed_bytes \<le> hp_size_float h then Inr h
      else
        (let new_size = max needed_bytes (u64 (2 * hp_size_float h)) in
         case allocate_memory new_size of
           None \<Rightarrow> Inl (AllocationFailed new_size)
         | Some new_ptr \<Rightarrow>
             Inr (h\<lparr>hp_fields_cached := True, hp_rt_buffer_float := new_ptr, hp_rt_size_float := new_size,
                    hp_alloc_float := new_ptr, hp_size_float := new_size\<rparr>)))"

text \<open>
  \<^verbatim>\<open>ensure_per_task_float_heap_post_reducer\<close>; \<open>stride_float_bytes\<close> is the stride the publication of this task
  stored in \<^verbatim>\<open>last_published_stride_float_bytes_\<close>.
\<close>

definition published_capacity :: "lazy_claim \<Rightarrow> nat \<Rightarrow> nat" where
  "published_capacity s task_index =
     (if lz_bound_row_capacities_alloc s \<noteq> 0
      then nat (load_u32 (lz_mem s) (lz_bound_row_capacities_alloc s + 4 * int task_index))
      else 2 ^ 32 - 1)"

definition ensure_per_task_float_heap_post_reducer ::
  "(nat \<Rightarrow> int option) \<Rightarrow> nat \<Rightarrow> bound_expr option \<Rightarrow> nat \<Rightarrow> nat \<Rightarrow> nat \<Rightarrow> env \<Rightarrow> read_cache option \<Rightarrow>
   adstack_cache \<Rightarrow> lazy_claim \<Rightarrow> adstack_heaps \<Rightarrow>
   (adstack_heaps \<times> read_cache option \<times> adstack_cache) result" where
  "ensure_per_task_float_heap_post_reducer allocate_memory task_index bound per_thread_stride_float num_threads
       stride_float_bytes e outer ac s h =
     (case bound of
        None \<Rightarrow> Inr (h, outer, ac)
      | Some be \<Rightarrow>
          if per_thread_stride_float = 0 then Inr (h, outer, ac)
          else
            (let c = published_capacity s task_index in
             bindE
               (if c = 2 ^ 32 - 1 then Inr (num_threads, outer, ac)
                else clip_effective_rows_by_loop_trip_count (max c 1) (be_trip be) (2 ^ 64 - 1) e outer ac)
               (\<lambda>(effective_rows, outer', ac').
                  bindE (ensure_adstack_heap_float allocate_memory (u64 (effective_rows * stride_float_bytes)) h)
                    (\<lambda>h'. Inr (h', outer', ac')))))"

section \<open>Checking for an overflow\<close>

text \<open>
  \<^verbatim>\<open>check_adstack_overflow\<close>. \<open>drain\<close> is what \<^verbatim>\<open>synchronize()\<close> does to memory: the writes still in flight land.
  The check returns the diagnosis it raises with (\<open>None\<close> inside when there is no program), or nothing.
\<close>

datatype overflow_check = Quiet | OverflowRaised "diagnosis option"

definition check_adstack_overflow ::
  "(memory \<Rightarrow> memory) \<Rightarrow> int \<Rightarrow> int \<Rightarrow> registry \<Rightarrow> env \<Rightarrow> device_reader \<Rightarrow> diagnose_snapshot option \<Rightarrow>
   (nat \<Rightarrow> int) \<Rightarrow> memory \<Rightarrow> adstack_cache \<Rightarrow> (overflow_check \<times> memory \<times> adstack_cache) result" where
  "check_adstack_overflow drain flag_ptr id_ptr rg e rd snap key_of m ac =
     (if flag_ptr = 0 \<or> load_u64 m flag_ptr = 0 then Inr (Quiet, m, ac)
      else
        (let m1 = store_u64 (drain m) flag_ptr 0;
             task_id = (if id_ptr \<noteq> 0 then u32 (load_u64 m1 id_ptr) else 0);
             m2 = (if id_ptr \<noteq> 0 then store_u64 m1 id_ptr 0 else m1)
         in case en_prog e of
              None \<Rightarrow> Inr (OverflowRaised None, m2, ac)
            | Some _ \<Rightarrow>
                bindE (diagnose_adstack_overflow task_id rg (e\<lparr>en_mem := m2\<rparr>) rd snap key_of ac)
                  (\<lambda>(dx, ac'). Inr (OverflowRaised (Some dx), m2,
                     if dx_confirmed_invalid_cache dx then invalidate_all_per_task ac' else ac'))))"

section \<open>The rows a task gets\<close>

definition slots_separate :: "int \<Rightarrow> int \<Rightarrow> nat \<Rightarrow> lazy_claim \<Rightarrow> bool" where
  "slots_separate flag_ptr id_ptr t s \<longleftrightarrow>
     (let c = lz_rt_row_counters s + 4 * int t; b = lz_rt_bound_row_capacities s + 4 * int t in
      (c + 4 \<le> b \<or> b + 4 \<le> c) \<and> (flag_ptr + 8 \<le> c \<or> c + 4 \<le> flag_ptr) \<and>
      (flag_ptr + 8 \<le> b \<or> b + 4 \<le> flag_ptr) \<and> (id_ptr + 8 \<le> c \<or> c + 4 \<le> id_ptr) \<and>
      (id_ptr + 8 \<le> b \<or> b + 4 \<le> id_ptr) \<and> (flag_ptr + 8 \<le> id_ptr \<or> id_ptr + 8 \<le> flag_ptr))"

definition counter_at :: "nat \<Rightarrow> lazy_claim \<Rightarrow> nat" where
  "counter_at t s = nat (load_u32 (lz_mem s) (lz_rt_row_counters s + 4 * int t))"

definition capacity_at :: "nat \<Rightarrow> lazy_claim \<Rightarrow> nat" where
  "capacity_at t s = nat (load_u32 (lz_mem s) (lz_rt_bound_row_capacities s + 4 * int t))"

abbreviation clamp_of :: "nat \<Rightarrow> nat" where
  "clamp_of c \<equiv> max c 1 - 1"

lemma load_u32_store_u32_other:
  "a + 4 \<le> b \<or> b + 4 \<le> a \<Longrightarrow> load_u32 (store_u32 m b n) a = load_u32 m a"
  by (simp add: store_u32_def load_u32_store_other)

lemma load_u32_store_u64_other:
  "a + 4 \<le> b \<or> b + 8 \<le> a \<Longrightarrow> load_u32 (store_u64 m b n) a = load_u32 m a"
  by (simp add: store_u64_def load_u32_store_other)

lemma load_u64_store_u32_other:
  "a + 8 \<le> b \<or> b + 4 \<le> a \<Longrightarrow> load_u64 (store_u32 m b n) a = load_u64 m a"
  by (simp add: store_u32_def load_u64_store_other)

lemmas word_frame = load_u32_store_u32_other load_u32_store_u64_other load_u64_store_u32_other
  load_u64_store_u64_other

lemma or_one_nonzero [simp]: "u64 (n OR 1) \<noteq> 0"
proof -
  have "odd (n OR 1)" by (simp add: even_or_iff)
  then have "odd (u64 (n OR 1))" by (simp add: u64_def dvd_mod_iff)
  then show ?thesis by (metis even_zero)
qed

lemma or_one_pos [simp]: "0 < u64 (n OR Suc 0)"
  using or_one_nonzero [of n] by simp

lemma signal_claim_overflow_frame:
  assumes "flag_ptr + 8 \<le> id_ptr \<or> id_ptr + 8 \<le> flag_ptr"
  shows "load_u64 (signal_claim_overflow flag_ptr id_ptr r m) flag_ptr \<noteq> 0"
    and "flag_ptr + 8 \<le> a \<or> a + 4 \<le> flag_ptr \<Longrightarrow> id_ptr + 8 \<le> a \<or> a + 4 \<le> id_ptr \<Longrightarrow>
      load_u32 (signal_claim_overflow flag_ptr id_ptr r m) a = load_u32 m a"
  using assms by (auto simp: signal_claim_overflow_def Let_def word_frame)

text \<open>One claim.\<close>

lemma row_claim_step:
  assumes "slots_separate flag_ptr id_ptr t s" "row_claim flag_ptr id_ptr r t s = (row, s')"
  shows "row = min (counter_at t s) (clamp_of (capacity_at t s))"
    and "counter_at t s' = u32 (counter_at t s + 1)" "capacity_at t s' = capacity_at t s"
    and "slots_separate flag_ptr id_ptr t s'"
    and "load_u64 (lz_mem s') flag_ptr \<noteq> 0 \<longleftrightarrow>
           load_u64 (lz_mem s) flag_ptr \<noteq> 0 \<or> clamp_of (capacity_at t s) < counter_at t s"
proof -
  define c where "c = lz_rt_row_counters s + 4 * int t"
  define b where "b = lz_rt_bound_row_capacities s + 4 * int t"
  define m1 where "m1 = store_u32 (lz_mem s) c (counter_at t s + 1)"
  have sep: "c + 4 \<le> b \<or> b + 4 \<le> c" "flag_ptr + 8 \<le> c \<or> c + 4 \<le> flag_ptr"
    "flag_ptr + 8 \<le> b \<or> b + 4 \<le> flag_ptr" "id_ptr + 8 \<le> c \<or> c + 4 \<le> id_ptr"
    "id_ptr + 8 \<le> b \<or> b + 4 \<le> id_ptr" "flag_ptr + 8 \<le> id_ptr \<or> id_ptr + 8 \<le> flag_ptr"
    using assms(1) by (simp_all add: slots_separate_def Let_def c_def b_def)
  have cap: "nat (load_u32 m1 b) = capacity_at t s"
    using sep(1) by (simp add: m1_def capacity_at_def b_def [symmetric] load_u32_store_u32_other disj_commute)
  have clamp: "(if n = 0 then 0 else n - 1) = clamp_of n" for n :: nat by simp
  have res: "row = (if clamp_of (capacity_at t s) < counter_at t s then clamp_of (capacity_at t s) else counter_at t s)"
    "s' = s\<lparr>lz_mem := (if clamp_of (capacity_at t s) < counter_at t s
              then signal_claim_overflow flag_ptr id_ptr r m1 else m1)\<rparr>"
    using assms(2)
    unfolding row_claim_def Let_def counter_at_def [symmetric]
    unfolding c_def [symmetric] b_def [symmetric] m1_def [symmetric] cap clamp
    by simp_all
  show "row = min (counter_at t s) (clamp_of (capacity_at t s))"
    using res(1) by simp
  show "counter_at t s' = u32 (counter_at t s + 1)" "capacity_at t s' = capacity_at t s"
    using sep cap res(2) signal_claim_overflow_frame(2) [OF sep(6), of c r m1]
      signal_claim_overflow_frame(2) [OF sep(6), of b r m1]
    by (auto simp: counter_at_def capacity_at_def c_def [symmetric] b_def [symmetric] m1_def)
  show "slots_separate flag_ptr id_ptr t s'"
    using assms(1) res(2) by (simp add: slots_separate_def)
  show "load_u64 (lz_mem s') flag_ptr \<noteq> 0 \<longleftrightarrow>
           load_u64 (lz_mem s) flag_ptr \<noteq> 0 \<or> clamp_of (capacity_at t s) < counter_at t s"
    using res(2) signal_claim_overflow_frame(1) [OF sep(6), of r m1] sep(2)
    by (auto simp: m1_def load_u64_store_u32_other disj_commute)
qed

text \<open>A run of claims: rows count up from the counter and stick at the clamp, where the flag is raised.\<close>

lemma row_claims_rows:
  assumes "slots_separate flag_ptr id_ptr t s" "counter_at t s + k \<le> 2 ^ 32"
    and "row_claims flag_ptr id_ptr r t k s = (rows, s')"
  shows "rows = map (\<lambda>j. min (counter_at t s + j) (clamp_of (capacity_at t s))) [0..<k] \<and>
    (load_u64 (lz_mem s') flag_ptr \<noteq> 0 \<longleftrightarrow>
       load_u64 (lz_mem s) flag_ptr \<noteq> 0 \<or> 0 < k \<and> clamp_of (capacity_at t s) < counter_at t s + k - 1)"
  using assms
proof (induction k arbitrary: s rows)
  case (Suc k)
  obtain row s1 where one: "row_claim flag_ptr id_ptr r t s = (row, s1)" by (cases "row_claim flag_ptr id_ptr r t s")
  obtain rs s2 where rest: "row_claims flag_ptr id_ptr r t k s1 = (rs, s2)"
    by (cases "row_claims flag_ptr id_ptr r t k s1")
  note step = row_claim_step [OF Suc.prems(1) one]
  have result: "rows = row # rs" "s2 = s'"
    using Suc.prems(3) one rest by simp_all
  show ?case
  proof (cases k)
    case 0
    then show ?thesis using result rest step by auto
  next
    case (Suc l)
    have count: "counter_at t s1 = counter_at t s + 1"
      using step(2) Suc.prems(2) Suc by (simp add: u32_def)
    have IH: "rs = map (\<lambda>j. min (counter_at t s1 + j) (clamp_of (capacity_at t s1))) [0..<k] \<and>
        (load_u64 (lz_mem s') flag_ptr \<noteq> 0 \<longleftrightarrow>
          load_u64 (lz_mem s1) flag_ptr \<noteq> 0 \<or> 0 < k \<and> clamp_of (capacity_at t s1) < counter_at t s1 + k - 1)"
      by (rule Suc.IH) (use step(4) count Suc.prems(2) rest result(2) in auto)
    have "map (\<lambda>j. min (counter_at t s + j) (clamp_of (capacity_at t s))) [0..<Suc k] =
        row # map (\<lambda>j. min (counter_at t s + Suc j) (clamp_of (capacity_at t s))) [0..<k]"
      by (simp add: step(1) upt_conv_Cons map_Suc_upt [symmetric] o_def del: upt_Suc)
    then show ?thesis
      using IH step count result Suc by auto
  qed
qed simp

text \<open>Below the clamp no row is given out twice.\<close>

lemma rows_distinct:
  assumes "k \<le> max c 1"
  shows "distinct (map (\<lambda>j. min j (clamp_of c)) [0..<k])"
proof -
  have "map (\<lambda>j. min j (clamp_of c)) [0..<k] = [0..<k]"
    by (rule map_idI) (use assms in \<open>auto simp: min_def\<close>)
  then show ?thesis by simp
qed

section \<open>The heap covers the rows\<close>

definition heaps_ok :: "adstack_heaps \<Rightarrow> bool" where
  "heaps_ok h \<longleftrightarrow> (hp_size_float h = 0 \<or> hp_rt_buffer_float h = hp_alloc_float h \<and> hp_rt_size_float h = hp_size_float h) \<and>
     (hp_size_int h = 0 \<or> hp_rt_buffer_int h = hp_alloc_int h \<and> hp_rt_size_int h = hp_size_int h)"

lemma ensure_adstack_heap_float_props:
  assumes "ensure_adstack_heap_float al n h = Inr h'"
  shows "n \<le> hp_size_float h'" "hp_size_float h \<le> hp_size_float h'" "heaps_ok h \<Longrightarrow> heaps_ok h'"
  using assms by (auto simp: ensure_adstack_heap_float_def heaps_ok_def Let_def split: if_splits option.splits)

lemma ensure_adstack_heap_int_props:
  assumes "ensure_adstack_heap_int al n h = Inr h'"
  shows "n \<le> hp_size_int h'" "hp_size_int h \<le> hp_size_int h'" "heaps_ok h \<Longrightarrow> heaps_ok h'"
  using assms by (auto simp: ensure_adstack_heap_int_def heaps_ok_def Let_def split: if_splits option.splits)

text \<open>
  \<open>trip_bounds\<close>: the captured trip count, where there is one, is an upper bound of the number of claims,
  since an iteration claims at most once.
\<close>

definition trip_bounds :: "nat \<Rightarrow> bound_expr \<Rightarrow> env \<Rightarrow> read_cache option \<Rightarrow> adstack_cache \<Rightarrow> bool" where
  "trip_bounds k be e outer ac \<longleftrightarrow>
     (if 0 < bt_loop_iter_static (be_trip be) then int k \<le> bt_loop_iter_static (be_trip be)
      else if bt_loop_iter_size_expr (be_trip be) = [] \<or> en_prog e = None \<or> en_ctx e = None then True
      else (case evaluate_adstack_size_expr (bt_key (be_trip be)) (bt_loop_iter_size_expr (be_trip be)) e outer ac of
              Inl _ \<Rightarrow> True
            | Inr (v, _) \<Rightarrow> 0 < v \<longrightarrow> int k \<le> v))"

lemma clip_keeps_claims:
  assumes "clip_effective_rows_by_loop_trip_count rows (be_trip be) cl e outer ac = Inr (rows', o', ac')"
    and "trip_bounds k be e outer ac" "j < k" "j < rows"
  shows "j < rows'"
  using assms
  by (auto simp: clip_effective_rows_by_loop_trip_count_def trip_bounds_def bindE_def
      split: if_splits sum.splits prod.splits)

lemma min_row_less:
  assumes "j < k" "clip_effective_rows_by_loop_trip_count (max c 1) (be_trip be) cl e outer ac = Inr (rows', o', ac')"
    and "trip_bounds k be e outer ac"
  shows "min j (clamp_of c) < rows'"
  by (rule clip_keeps_claims [OF assms(2,3)]) (use assms(1) in auto)

lemma float_heap_rows:
  assumes "ensure_per_task_float_heap_post_reducer al t (Some be) pts num_threads stride e outer ac s h = Inr (h', o', ac')"
    and "0 < pts" "published_capacity s t = capacity_at t s" "capacity_at t s = 2 ^ 32 - 1 \<longrightarrow> k \<le> num_threads"
    and "trip_bounds k be e outer ac" "max num_threads (max (capacity_at t s) 1) * stride < 2 ^ 64" "j < k"
  shows "(min j (clamp_of (capacity_at t s)) + 1) * stride \<le> hp_size_float h'"
proof -
  define c where "c = capacity_at t s"
  obtain rows o1 ac1 where rows: "(if c = 2 ^ 32 - 1 then Inr (num_threads, outer, ac)
        else clip_effective_rows_by_loop_trip_count (max c 1) (be_trip be) (2 ^ 64 - 1) e outer ac) = Inr (rows, o1, ac1)"
    and heap: "ensure_adstack_heap_float al (u64 (rows * stride)) h = Inr h'"
    using assms(1,2,3)
    by (auto simp: ensure_per_task_float_heap_post_reducer_def Let_def c_def bindE_def
        split: sum.splits prod.splits if_splits)
  have room: "min j (clamp_of c) + 1 \<le> rows" "rows \<le> max num_threads (max c 1)"
  proof -
    show "min j (clamp_of c) + 1 \<le> rows"
    proof (cases "c = 2 ^ 32 - 1")
      case True
      then show ?thesis using rows assms(4,7) by (simp add: c_def)
    next
      case False
      then show ?thesis
        using rows min_row_less [OF assms(7) _ assms(5), of c] by (simp add: Suc_le_eq)
    qed
    show "rows \<le> max num_threads (max c 1)"
      using rows clip_bounds [of "max c 1" "be_trip be"] by (cases "c = 2 ^ 32 - 1") (fastforce simp: le_max_iff_disj)+
  qed
  have "rows * stride \<le> max num_threads (max c 1) * stride"
    using room(2) by (rule mult_le_mono1)
  also have "\<dots> < 2 ^ 64" using assms(6) by (simp only: c_def)
  finally have "u64 (rows * stride) = rows * stride" by (simp add: u64_def)
  then show ?thesis
    using mult_le_mono1 [OF room(1), of stride] ensure_adstack_heap_float_props(1) [OF heap]
    by (simp add: c_def)
qed

text \<open>
  A stack of a claimed row lies in the heap, and stacks of different rows, or different stacks of one
  row, do not meet.
\<close>

lemma lazy_stack_in_heap:
  assumes "slot_ok rt shs i" "is_float (shs ! i)" "(row + 1) * ar_per_thread_stride_float rt \<le> heap_size"
    and "heap_size < 2 ^ 64"
  shows "heap \<le> lazy_stack_base rt heap row i \<and>
    lazy_stack_base rt heap row i + int (slice_bytes (shs ! i) (ar_max_sizes rt i)) \<le> heap + int heap_size \<and>
    lazy_stack_base rt heap row i = heap + int (row * ar_per_thread_stride_float rt + ar_offsets rt i)"
proof -
  have "ar_offsets rt i + slice_bytes (shs ! i) (ar_max_sizes rt i) \<le> ar_per_thread_stride_float rt"
    using assms(1,2) by (simp add: slot_ok_def Let_def)
  then have fits: "row * ar_per_thread_stride_float rt + ar_offsets rt i + slice_bytes (shs ! i) (ar_max_sizes rt i) \<le> heap_size"
    using assms(3) by (simp add: algebra_simps)
  then have "lazy_stack_base rt heap row i = heap + int (row * ar_per_thread_stride_float rt + ar_offsets rt i)"
    using assms(4) by (simp add: lazy_stack_base_def u64_def)
  then show ?thesis using fits by linarith
qed

lemma eager_stack_in_heap:
  assumes "slot_ok rt shs i" "tid < num_threads" "heap_size < 2 ^ 64"
    and "num_threads * (if is_float (shs ! i) then ar_per_thread_stride_float rt else ar_per_thread_stride_int rt) \<le> heap_size"
    and "heap = (if is_float (shs ! i) then heap_float else heap_int)"
  shows "heap \<le> eager_stack_base rt (is_float (shs ! i)) heap_float heap_int tid i \<and>
    eager_stack_base rt (is_float (shs ! i)) heap_float heap_int tid i +
      int (slice_bytes (shs ! i) (ar_max_sizes rt i)) \<le> heap + int heap_size"
proof -
  define stride where "stride = (if is_float (shs ! i) then ar_per_thread_stride_float rt else ar_per_thread_stride_int rt)"
  have "ar_offsets rt i + slice_bytes (shs ! i) (ar_max_sizes rt i) \<le> stride"
    using assms(1) by (simp add: slot_ok_def Let_def stride_def)
  moreover have "(tid + 1) * stride \<le> heap_size"
    using assms(2,4) mult_le_mono1 [of "tid + 1" num_threads stride] by (simp add: stride_def)
  ultimately have fits: "tid * stride + ar_offsets rt i + slice_bytes (shs ! i) (ar_max_sizes rt i) \<le> heap_size"
    by (simp add: algebra_simps)
  then have "eager_stack_base rt (is_float (shs ! i)) heap_float heap_int tid i = heap + int (tid * stride + ar_offsets rt i)"
    unfolding eager_stack_base_def stride_def [symmetric] assms(5) using assms(3) by (simp add: u64_def)
  then show ?thesis using fits by linarith
qed

section \<open>The overflow check\<close>

text \<open>
  A raised flag is reported at the next check and consumed by it, whatever the diagnosis says; a check
  that stays quiet changes nothing.
\<close>

lemma check_quiet:
  assumes "check_adstack_overflow drain flag_ptr id_ptr rg e rd snap key_of m ac = Inr (Quiet, m', ac')"
  shows "m' = m \<and> ac' = ac \<and> (flag_ptr = 0 \<or> load_u64 m flag_ptr = 0)"
  using assms
  by (auto simp: check_adstack_overflow_def Let_def bindE_def split: if_splits option.splits sum.splits prod.splits)

lemma check_raises:
  assumes "flag_ptr \<noteq> 0" "load_u64 m flag_ptr \<noteq> 0" "id_ptr = 0 \<or> flag_ptr + 8 \<le> id_ptr \<or> id_ptr + 8 \<le> flag_ptr"
    and "check_adstack_overflow drain flag_ptr id_ptr rg e rd snap key_of m ac = Inr (out, m', ac')"
  shows "(\<exists>d. out = OverflowRaised d) \<and> load_u64 m' flag_ptr = 0 \<and>
    (id_ptr \<noteq> 0 \<longrightarrow> load_u64 m' id_ptr = 0) \<and>
    check_adstack_overflow drain flag_ptr id_ptr rg e rd snap key_of m' ac' = Inr (Quiet, m', ac')"
proof -
  have "load_u64 (if id_ptr \<noteq> 0 then store_u64 (store_u64 (drain m) flag_ptr 0) id_ptr 0
           else store_u64 (drain m) flag_ptr 0) flag_ptr = 0"
    using assms(3) by (auto simp: load_u64_store_u64_other u64_def)
  then show ?thesis
    using assms(1,2,4)
    by (auto simp: check_adstack_overflow_def Let_def bindE_def u64_def split: option.splits sum.splits prod.splits)
qed

text \<open>The pinned slots agree: either both are clear or the flag is up and the id is the task's.\<close>

definition overflow_recorded :: "int \<Rightarrow> int \<Rightarrow> nat \<Rightarrow> memory \<Rightarrow> bool" where
  "overflow_recorded flag_ptr id_ptr r m \<longleftrightarrow>
     (if load_u64 m flag_ptr = 0 then load_u64 m id_ptr = 0 else load_u64 m id_ptr = u64 r)"

lemma signal_claim_overflow_recorded:
  assumes "flag_ptr + 8 \<le> id_ptr \<or> id_ptr + 8 \<le> flag_ptr" "overflow_recorded flag_ptr id_ptr r m" "u64 r \<noteq> 0"
  shows "overflow_recorded flag_ptr id_ptr r (signal_claim_overflow flag_ptr id_ptr r m)"
proof -
  have "r \<noteq> 0" using assms(3) by (auto simp: u64_def)
  then show ?thesis
    using assms signal_claim_overflow_frame(1) [OF assms(1), of r m]
    by (auto simp: overflow_recorded_def signal_claim_overflow_def Let_def load_u64_store_u64_other split: if_splits)
qed

lemma row_claims_recorded:
  assumes "slots_separate flag_ptr id_ptr t s" "overflow_recorded flag_ptr id_ptr r (lz_mem s)" "u64 r \<noteq> 0"
    and "row_claims flag_ptr id_ptr r t k s = (rows, s')"
  shows "overflow_recorded flag_ptr id_ptr r (lz_mem s')"
  using assms
proof (induction k arbitrary: s rows)
  case (Suc k)
  obtain row s1 where one: "row_claim flag_ptr id_ptr r t s = (row, s1)" by (cases "row_claim flag_ptr id_ptr r t s")
  obtain rs s2 where rest: "row_claims flag_ptr id_ptr r t k s1 = (rs, s2)"
    by (cases "row_claims flag_ptr id_ptr r t k s1")
  define m1 where "m1 = store_u32 (lz_mem s) (lz_rt_row_counters s + 4 * int t) (counter_at t s + 1)"
  have sep: "flag_ptr + 8 \<le> id_ptr \<or> id_ptr + 8 \<le> flag_ptr"
    using Suc.prems(1) by (simp add: slots_separate_def Let_def)
  have "overflow_recorded flag_ptr id_ptr r m1"
    using Suc.prems(1,2)
    by (simp add: overflow_recorded_def m1_def slots_separate_def Let_def load_u64_store_u32_other disj_commute)
  moreover have "lz_mem s1 = m1 \<or> lz_mem s1 = signal_claim_overflow flag_ptr id_ptr r m1"
    using one unfolding row_claim_def Let_def counter_at_def [symmetric] m1_def [symmetric] by auto
  ultimately have "overflow_recorded flag_ptr id_ptr r (lz_mem s1)"
    using signal_claim_overflow_recorded [OF sep _ Suc.prems(3)] by auto
  moreover have "s2 = s'" using Suc.prems(4) one rest by simp
  ultimately show ?case
    using Suc.IH [OF row_claim_step(4) [OF Suc.prems(1) one] _ Suc.prems(3)] rest by simp
qed simp

text \<open>
  From clear slots: the check after the claims of one task raises exactly when more rows were claimed
  than the capacity allows, and then it is that task the diagnosis is about.
\<close>

lemma overrun_reported:
  assumes "slots_separate flag_ptr id_ptr t s" "flag_ptr \<noteq> 0" "id_ptr \<noteq> 0" "counter_at t s = 0" "k \<le> 2 ^ 32"
    and "load_u64 (lz_mem s) flag_ptr = 0" "load_u64 (lz_mem s) id_ptr = 0" "0 < r" "r < 2 ^ 32" "en_prog e \<noteq> None"
    and "row_claims flag_ptr id_ptr r t k s = (rows, s')"
    and "check_adstack_overflow (\<lambda>m. m) flag_ptr id_ptr rg e rd snap key_of (lz_mem s') ac = Inr (out, m', ac')"
  shows "if k \<le> max (capacity_at t s) 1 then out = Quiet \<and> ac' = ac
    else \<exists>dx ac1. out = OverflowRaised (Some dx) \<and>
           diagnose_adstack_overflow r rg (e\<lparr>en_mem := m'\<rparr>) rd snap key_of ac = Inr (dx, ac1) \<and>
           ac' = (if dx_confirmed_invalid_cache dx then invalidate_all_per_task ac1 else ac1)"
proof -
  have raised: "load_u64 (lz_mem s') flag_ptr \<noteq> 0 \<longleftrightarrow> \<not> k \<le> max (capacity_at t s) 1"
    using row_claims_rows [OF assms(1) _ assms(11)] assms(4,5,6) by auto
  have u: "u64 r = r" "u32 r = r" using assms(9) by (simp_all add: u64_def u32_def)
  have "overflow_recorded flag_ptr id_ptr r (lz_mem s')"
    by (rule row_claims_recorded [OF assms(1) _ _ assms(11)])
      (use assms(6,7,8) u in \<open>simp_all add: overflow_recorded_def\<close>)
  moreover have "flag_ptr + 8 \<le> id_ptr \<or> id_ptr + 8 \<le> flag_ptr"
    using assms(1) by (simp add: slots_separate_def Let_def)
  ultimately have id: "load_u64 (store_u64 (lz_mem s') flag_ptr 0) id_ptr = r" if "load_u64 (lz_mem s') flag_ptr \<noteq> 0"
    using that u by (simp add: overflow_recorded_def load_u64_store_u64_other disj_commute)
  show ?thesis
  proof (cases "load_u64 (lz_mem s') flag_ptr = 0")
    case True
    then show ?thesis using assms(12) raised by (simp add: check_adstack_overflow_def)
  next
    case False
    define m2 where "m2 = store_u64 (store_u64 (lz_mem s') flag_ptr 0) id_ptr 0"
    obtain dx ac1 where "diagnose_adstack_overflow r rg (e\<lparr>en_mem := m2\<rparr>) rd snap key_of ac = Inr (dx, ac1)"
      "out = OverflowRaised (Some dx)" "m' = m2"
      "ac' = (if dx_confirmed_invalid_cache dx then invalidate_all_per_task ac1 else ac1)"
      using assms(2,3,10,12) False id [OF False] u
      by (auto simp: check_adstack_overflow_def Let_def bindE_def m2_def [symmetric] split: sum.splits)
    moreover have "\<not> k \<le> max (capacity_at t s) 1" using raised False by blast
    ultimately show ?thesis by auto
  qed
qed

section \<open>One launch of a gated task\<close>

text \<open>The executor and the runtime agree on the arrays, and the arrays do not overlap.\<close>

definition lazy_ok :: "lazy_claim \<Rightarrow> bool" where
  "lazy_ok s \<longleftrightarrow> lz_capacity s = 0 \<or>
     lz_bound_row_capacities_alloc s \<noteq> 0 \<and> lz_rt_row_counters s = lz_row_counters_alloc s \<and>
     lz_rt_bound_row_capacities s = lz_bound_row_capacities_alloc s \<and>
     (lz_row_counters_alloc s + 4 * int (lz_capacity s) \<le> lz_bound_row_capacities_alloc s \<or>
      lz_bound_row_capacities_alloc s + 4 * int (lz_capacity s) \<le> lz_row_counters_alloc s)"

text \<open>The device hands out blocks that are not null and do not overlap.\<close>

definition blocks_apart :: "(nat \<Rightarrow> int option) \<Rightarrow> (nat \<Rightarrow> int option) \<Rightarrow> bool" where
  "blocks_apart alloc1 alloc2 \<longleftrightarrow>
     (\<forall>n a b. alloc1 n = Some a \<longrightarrow> alloc2 n = Some b \<longrightarrow> b \<noteq> 0 \<and> (a + int n \<le> b \<or> b + int n \<le> a))"

lemma publish_buffers_resets:
  assumes "publish_adstack_lazy_claim_buffers al1 al2 n s = Inr s'" "lazy_ok s" "blocks_apart al1 al2" "t < n"
  shows "lazy_ok s'" "arrays_published s'" "n \<le> lz_capacity s'" "counter_at t s' = 0" "capacity_at t s' = 2 ^ 32 - 1"
proof -
  obtain u where u: "lazy_ok u" "n \<le> lz_capacity u" "lz_fields_cached u"
    and s': "s' = u\<lparr>lz_mem := store_bytes
               (store_bytes (lz_mem u) (lz_row_counters_alloc u) (u32_buffer (replicate n 0)))
               (lz_bound_row_capacities_alloc u) (u32_buffer (replicate n (2 ^ 32 - 1)))\<rparr>"
  proof (cases "lz_capacity s < n")
    case False
    then show ?thesis
      using assms(1,2,4) that [of "s\<lparr>lz_fields_cached := True\<rparr>"]
      by (auto simp: publish_adstack_lazy_claim_buffers_def lazy_ok_def)
  next
    case True
    define cap where "cap = max n (2 * lz_capacity s)"
    obtain a b where ab: "al1 (cap * 4) = Some a" "al2 (cap * 4) = Some b"
      using assms(1,4) True
      by (auto simp: publish_adstack_lazy_claim_buffers_def Let_def cap_def [symmetric] split: option.splits)
    have "b \<noteq> 0 \<and> (a + int (cap * 4) \<le> b \<or> b + int (cap * 4) \<le> a)"
      using assms(3) ab unfolding blocks_apart_def by blast
    then show ?thesis
      using assms(1,4) True ab
        that [of "s\<lparr>lz_capacity := cap, lz_row_counters_alloc := a, lz_bound_row_capacities_alloc := b,
          lz_fields_cached := True, lz_rt_row_counters := a, lz_rt_bound_row_capacities := b\<rparr>"]
      by (auto simp: publish_adstack_lazy_claim_buffers_def Let_def cap_def [symmetric] lazy_ok_def)
        (auto simp: cap_def)
  qed
  have pos: "0 < lz_capacity u" using u(2) assms(4) by simp
  then have ptrs: "lz_rt_row_counters u = lz_row_counters_alloc u" "lz_bound_row_capacities_alloc u \<noteq> 0"
    "lz_rt_bound_row_capacities u = lz_bound_row_capacities_alloc u"
    "lz_row_counters_alloc u + 4 * int (lz_capacity u) \<le> lz_bound_row_capacities_alloc u \<or>
      lz_bound_row_capacities_alloc u + 4 * int (lz_capacity u) \<le> lz_row_counters_alloc u"
    using u(1) by (auto simp: lazy_ok_def)
  show "lazy_ok s'" "arrays_published s'" "n \<le> lz_capacity s'"
    using u pos ptrs s' by (auto simp: lazy_ok_def arrays_published_def)
  have far: "lz_row_counters_alloc u + 4 * int t + 4 \<le> lz_bound_row_capacities_alloc u \<or>
      lz_bound_row_capacities_alloc u + int (length (u32_buffer (replicate n (2 ^ 32 - 1)))) \<le>
        lz_row_counters_alloc u + 4 * int t"
    using ptrs(4) u(2) assms(4) by auto
  show "counter_at t s' = 0"
    using s' ptrs(1) load_u32_store_other [OF far] load_u32_buffer [of t "replicate n 0"] assms(4)
    by (simp add: counter_at_def u32_def)
  show "capacity_at t s' = 2 ^ 32 - 1"
    using s' ptrs(3) load_u32_buffer [of t "replicate n (2 ^ 32 - 1)"] assms(4)
    by (simp add: capacity_at_def u32_def)
qed

lemma set_capacity_effect:
  assumes "arrays_published s" "lazy_ok s" "t < lz_capacity s" "c < 2 ^ 32"
  shows "capacity_at t (set_capacity t c s) = c" "published_capacity (set_capacity t c s) t = c"
    and "counter_at t (set_capacity t c s) = counter_at t s"
proof -
  have sep: "lz_row_counters_alloc s + 4 * int t + 4 \<le> lz_bound_row_capacities_alloc s + 4 * int t \<or>
      lz_bound_row_capacities_alloc s + 4 * int t + 4 \<le> lz_row_counters_alloc s + 4 * int t"
    using assms(2,3) by (auto simp: lazy_ok_def)
  show "capacity_at t (set_capacity t c s) = c" "published_capacity (set_capacity t c s) t = c"
    using assms(1,4) by (simp_all add: capacity_at_def published_capacity_def set_capacity_def arrays_published_def u32_def)
  show "counter_at t (set_capacity t c s) = counter_at t s"
    using assms(1) load_u32_store_u32_other [OF sep] by (simp add: counter_at_def set_capacity_def arrays_published_def)
qed

text \<open>
  After the reset, the count and the heap growth: the claims of a launch that enters the gate no more
  often than cells pass get rows of their own inside the heap, and no overflow is signalled.
\<close>

lemma gated_rows:
  assumes "publish_adstack_lazy_claim_buffers al1 al2 n s = Inr s1" "lazy_ok s" "blocks_apart al1 al2" "t < n"
    and "s2 = set_capacity t c s1" "c < 2 ^ 32 - 1"
    and "ensure_per_task_float_heap_post_reducer al t (Some be) pts num_threads stride e outer ac s2 h = Inr (h', o', ac')"
    and "0 < pts" "max num_threads (max c 1) * stride < 2 ^ 64" "trip_bounds k be e outer ac" "k \<le> c"
    and "slots_separate flag_ptr id_ptr t s2" "load_u64 (lz_mem s2) flag_ptr = 0"
    and "row_claims flag_ptr id_ptr r t k s2 = (rows, s3)"
  shows "distinct rows \<and> length rows = k \<and> list_all (\<lambda>row. (row + 1) * stride \<le> hp_size_float h') rows \<and>
    load_u64 (lz_mem s3) flag_ptr = 0"
proof -
  note ready = publish_buffers_resets [OF assms(1-4)]
  have effect: "capacity_at t s2 = c" "published_capacity s2 t = c" "counter_at t s2 = 0"
    using set_capacity_effect [OF ready(2,1)] ready(3,4) assms(4,5,6) by simp_all
  have rows: "rows = map (\<lambda>j. min j (clamp_of c)) [0..<k]"
    and quiet: "load_u64 (lz_mem s3) flag_ptr \<noteq> 0 \<longleftrightarrow> 0 < k \<and> clamp_of c < k - 1"
    using row_claims_rows [OF assms(12) _ assms(14)] effect assms(6,11,13) by simp_all
  have "(min j (clamp_of c) + 1) * stride \<le> hp_size_float h'" if "j < k" for j
    using float_heap_rows [OF assms(7,8) _ _ assms(10) _ that] effect assms(6,9) by simp
  then show ?thesis
    using rows quiet assms(11) rows_distinct [of k c] by (auto simp: list_all_iff)
qed

end
