(* ===== verification/SampleGate.thy ===== *)
theory SampleGate
  imports LazyClaim
begin

text \<open>
  A gated task to apply the theorems to: the gate \<^verbatim>\<open>x[i] > 0.0\<close> over four \<^verbatim>\<open>f32\<close> cells 1.0, -2.0, NaN and 3.5
  of an ndarray argument, of which two pass.
\<close>

definition gate_mem :: memory where
  "gate_mem a =
     (if a = 1008 then 208 else if a = 1009 then 7
      else if a = 2002 then 128 else if a = 2003 then 63
      else if a = 2007 then 192
      else if a = 2010 then 192 else if a = 2011 then 127
      else if a = 2014 then 96 else if a = 2015 then 64 else 0)"

definition gate_ctx :: launch_ctx where
  "gate_ctx = \<lparr>lc_array_ptrs = (\<lambda>_ _. None), lc_arg_buffer = 1000, lc_arg_buffer_size = 16,
     lc_args_type = Some (\<lambda>path. if path = [0, 1] then 8 else 0), lc_device_allocation_type = (\<lambda>_. None)\<rparr>"

definition sample_gate :: bound_expr where
  "sample_gate = \<lparr>be_cmp_op = 17, be_field_dtype_is_float = True, be_field_dtype_is_double = False,
     be_literal_f32 = 0, be_literal_f64 = 0, be_literal_i32 = 0, be_polarity = True,
     be_field_source_kind = NdArraySource, be_ndarray_arg_id = [0], be_ndarray_ndim = 1,
     be_snode_root_id = -1, be_snode_byte_base_offset = 0, be_snode_byte_cell_stride = 0,
     be_snode_iter_count = 0,
     be_trip = \<lparr>bt_loop_iter_static = 4, bt_loop_iter_size_expr = [], bt_key = 0\<rparr>\<rparr>"

definition gate_start :: lazy_claim where
  "gate_start = \<lparr>lz_capacity = 0, lz_row_counters_alloc = 0, lz_bound_row_capacities_alloc = 0,
     lz_fields_cached = False, lz_rt_row_counters = 0, lz_rt_bound_row_capacities = 0, lz_mem = gate_mem\<rparr>"

definition gate_reset :: lazy_claim where
  "gate_reset = \<lparr>lz_capacity = 1, lz_row_counters_alloc = 5000, lz_bound_row_capacities_alloc = 6000,
     lz_fields_cached = True, lz_rt_row_counters = 5000, lz_rt_bound_row_capacities = 6000,
     lz_mem = store_bytes (store_bytes gate_mem 5000 (u32_buffer [0])) 6000 (u32_buffer [2 ^ 32 - 1])\<rparr>"

definition no_heaps :: adstack_heaps where
  "no_heaps = \<lparr>hp_size_float = 0, hp_alloc_float = 0, hp_size_int = 0, hp_alloc_int = 0, hp_fields_cached = False,
     hp_rt_buffer_float = 0, hp_rt_size_float = 0, hp_rt_buffer_int = 0, hp_rt_size_int = 0\<rparr>"

lemma load_uint_numeral:
  "load_uint m a (numeral k) = uint (m a) + 256 * load_uint m (a + 1) (pred_numeral k)"
  by (simp add: numeral_eq_Suc)

lemma gate_reset_run:
  "publish_adstack_lazy_claim_buffers (\<lambda>n. if n \<le> 4 then Some 5000 else None) (\<lambda>_. Some 6000) 1 gate_start = Inr gate_reset"
  by (simp add: publish_adstack_lazy_claim_buffers_def gate_start_def gate_reset_def result_simps)

lemma gate_start_ok: "lazy_ok gate_start" "blocks_apart (\<lambda>n. if n \<le> 4 then Some 5000 else None) (\<lambda>_. Some 6000)"
  by (simp_all add: lazy_ok_def gate_start_def blocks_apart_def)

lemma sample_gate_ok: "gate_ok sample_gate"
  by (simp add: gate_ok_def sample_gate_def fits32_def)

lemma gate_reset_published: "arrays_published gate_reset"
  by (simp add: arrays_published_def gate_reset_def)

lemma gate_mem_frame:
  "x < 5000 \<Longrightarrow> lz_mem gate_reset x = gate_mem x"
  by (simp add: gate_reset_def store_bytes_other)

lemma gate_load_frame:
  assumes "a + int n \<le> 5000"
  shows "load_uint (lz_mem gate_reset) a n = load_uint gate_mem a n"
  by (rule load_uint_cong) (use assms gate_mem_frame in auto)

lemma sample_gate_field:
  "gate_field (lz_mem gate_reset) (Some gate_ctx) roots sample_gate = Some (2000, 4)"
  by (simp add: gate_field_def sample_gate_def gate_ctx_def data_ptr_pos_def gate_load_frame)
    (simp add: gate_mem_def load_uint_numeral)

lemma sample_gate_cells:
  "gate_open (lz_mem gate_reset) sample_gate (2000, 4) 0" "\<not> gate_open (lz_mem gate_reset) sample_gate (2000, 4) 1"
  "\<not> gate_open (lz_mem gate_reset) sample_gate (2000, 4) 2" "gate_open (lz_mem gate_reset) sample_gate (2000, 4) 3"
  by (simp_all add: gate_open_def host_match_def sample_gate_def gate_load_frame)
    (simp_all add: gate_mem_def eval_cmp_def load_uint_numeral f32_less_def fp_less_def
      fp_is_nan_def fp_key_def fp_negative_def fp_magnitude_def fp_infinity_def)

lemma sample_gate_count: "card {i. i < 4 \<and> gate_open (lz_mem gate_reset) sample_gate (2000, 4) i} = 2"
proof -
  have "{i. i < 4 \<and> gate_open (lz_mem gate_reset) sample_gate (2000, 4) i} = {0, 3}"
  proof (rule set_eqI)
    fix i :: nat
    have "i < 4 \<longleftrightarrow> i = 0 \<or> i = 1 \<or> i = 2 \<or> i = 3" by auto
    then show "i \<in> {i. i < 4 \<and> gate_open (lz_mem gate_reset) sample_gate (2000, 4) i} \<longleftrightarrow> i \<in> {0, 3}"
      using sample_gate_cells by auto
  qed
  then show ?thesis by simp
qed

definition gate_counted :: lazy_claim where
  "gate_counted = set_capacity 0 2 gate_reset"

lemma gate_counted_run:
  "publish_per_task_bound_count_cpu X64 None 0 (Some sample_gate) 4 (Some gate_ctx) gate_reset = (2, gate_counted)"
  using cpu_count [where s = gate_reset and be = sample_gate and ar = X64 and len = 4 and t = 0,
      OF _ sample_gate_field gate_reset_published] sample_gate_count
  by (simp add: gate_counted_def)

lemma gate_counted_state: "capacity_at 0 gate_counted = 2" "published_capacity gate_counted 0 = 2" "counter_at 0 gate_counted = 0"
proof -
  have ready: "lazy_ok gate_reset" "counter_at 0 gate_reset = 0"
    using publish_buffers_resets [OF gate_reset_run gate_start_ok, of 0] by simp_all
  then show "capacity_at 0 gate_counted = 2" "published_capacity gate_counted 0 = 2" "counter_at 0 gate_counted = 0"
    using set_capacity_effect [OF gate_reset_published ready(1), of 0 2]
    by (simp_all add: gate_counted_def gate_reset_def)
qed

lemma gate_slots: "slots_separate 9000 9008 0 gate_counted"
  by (simp add: slots_separate_def gate_counted_def set_capacity_def gate_reset_def)

lemma gate_slots_clear: "load_u64 (lz_mem gate_counted) 9000 = 0" "load_u64 (lz_mem gate_counted) 9008 = 0"
proof -
  have zero: "load_u64 gate_mem 9000 = 0" "load_u64 gate_mem 9008 = 0"
    by (simp_all add: load_u64_def load_uint_numeral gate_mem_def)
  then show "load_u64 (lz_mem gate_counted) 9000 = 0" "load_u64 (lz_mem gate_counted) 9008 = 0"
    by (simp_all add: gate_counted_def set_capacity_def gate_reset_def load_u64_store_u32_other load_u64_store_other)
qed

definition gate_env :: env where
  "gate_env = \<lparr>en_prog = None, en_ctx = None, en_mem = gate_mem\<rparr>"

lemma gate_heap_run:
  "ensure_per_task_float_heap_post_reducer (\<lambda>_. Some 20000) 0 (Some sample_gate) 1 8 64 gate_env None ac gate_counted no_heaps =
     Inr (no_heaps\<lparr>hp_fields_cached := True, hp_rt_buffer_float := 20000, hp_rt_size_float := 128,
       hp_alloc_float := 20000, hp_size_float := 128\<rparr>, None, ac)"
  by (simp add: ensure_per_task_float_heap_post_reducer_def gate_counted_state Let_def sample_gate_def
      clip_effective_rows_by_loop_trip_count_def result_simps ensure_adstack_heap_float_def no_heaps_def u64_def)

lemma gate_trip: "trip_bounds 2 sample_gate gate_env None ac"
  by (simp add: trip_bounds_def sample_gate_def)

end
