(* ===== verification/PublishMetadata.thy ===== *)
theory PublishMetadata
  imports LazyClaim MaxReducer CacheSound
begin

text \<open>
  Publication of a task's stacks before its launch
  (\<^verbatim>\<open>runtime/llvm/adstack_lazy_claim/metadata_publish.cpp\<close>). The capacities come from the host evaluator, from
  the per-task cache, or from the device sizer; offsets and strides follow from them; the heaps are grown
  to one row per thread.
\<close>

section \<open>The task\<close>

text \<open>\<^verbatim>\<open>AdStackAllocaInfo\<close>, and the part of \<^verbatim>\<open>AdStackSizingInfo\<close> the publication reads.\<close>

record alloca_info =
  ai_max_size_compile_time :: nat
  ai_entry_size_bytes :: nat
  ai_heap_is_float :: bool

text \<open>\<open>sk_key\<close> is the address of the struct, and every size expression comes with its own.\<close>

record stack_task =
  sk_key :: int
  sk_registry_id :: nat
  sk_allocas :: "alloca_info list"
  sk_size_exprs :: "(int \<times> ser_expr) list"
  sk_bound_expr :: "bound_expr option"

text \<open>
  The executor's publication state: what the next kernel on the stream finds in \<^verbatim>\<open>LLVMRuntime\<close>, the
  capacities of the scratch buffers, the device memory the sizer reads, the heaps and
  \<^verbatim>\<open>last_published_stride_float_bytes_\<close>.
\<close>

record publish_state =
  pb_rt :: adstack_runtime
  pb_metadata_capacity :: nat
  pb_bytecode_capacity :: nat
  pb_bytecode_ptr :: int
  pb_mem :: memory
  pb_heaps :: adstack_heaps
  pb_last_stride_float :: nat

section \<open>Capacities on the host\<close>

definition host_max_size ::
  "stack_task \<Rightarrow> max_reducer_results \<Rightarrow> env \<Rightarrow> nat \<Rightarrow> read_cache option \<Rightarrow> adstack_cache \<Rightarrow>
   (nat \<times> read_cache option \<times> adstack_cache) result" where
  "host_max_size tk results e i outer ac =
     bindE
       (if i < length (sk_size_exprs tk) \<and> snd (sk_size_exprs tk ! i) \<noteq> [] \<and> en_prog e \<noteq> None then
          (if results = []
           then evaluate_adstack_size_expr (fst (sk_size_exprs tk ! i)) (snd (sk_size_exprs tk ! i)) e outer ac
           else bindE (evaluate_adstack_size_expr_no_cache
                         (substitute_precomputed_max_over_range (snd (sk_size_exprs tk ! i)) (sk_registry_id tk)
                            (int i) results) e outer)
                  (\<lambda>(v, c). Inr (v, c, ac)))
        else Inr (-1, outer, ac))
       (\<lambda>(v, c, ac').
          let v' = (if v < 0 then wrap64 (int (ai_max_size_compile_time (sk_allocas tk ! i))) else v)
          in Inr (nat (max v' 1), c, ac'))"

text \<open>The loop over the stacks, \<open>i\<close> the current one, \<open>n\<close> still to go.\<close>

fun host_max_sizes ::
  "stack_task \<Rightarrow> max_reducer_results \<Rightarrow> env \<Rightarrow> nat \<Rightarrow> nat \<Rightarrow> read_cache option \<Rightarrow> adstack_cache \<Rightarrow>
   (nat list \<times> read_cache option \<times> adstack_cache) result" where
  "host_max_sizes tk results e 0 i outer ac = Inr ([], outer, ac)"
| "host_max_sizes tk results e (Suc n) i outer ac =
     bindE (host_max_size tk results e i outer ac) (\<lambda>(m, c, ac1).
     bindE (host_max_sizes tk results e n (Suc i) c ac1) (\<lambda>(ms, c', ac2). Inr (m # ms, c', ac2)))"

text \<open>The second loop: offsets within the slice of each kind, and the two strides.\<close>

fun host_offsets :: "alloca_info list \<Rightarrow> nat list \<Rightarrow> nat \<Rightarrow> nat \<Rightarrow> nat list \<times> nat \<times> nat" where
  "host_offsets (a # as) (m # ms) stride_float stride_int =
     (let step = adstack_step (ai_entry_size_bytes a) m in
      if ai_heap_is_float a
      then (case host_offsets as ms (u64 (stride_float + step)) stride_int of (os, r) \<Rightarrow> (stride_float # os, r))
      else (case host_offsets as ms stride_float (u64 (stride_int + step)) of (os, r) \<Rightarrow> (stride_int # os, r)))"
| "host_offsets _ _ stride_float stride_int = ([], stride_float, stride_int)"

definition store_array :: "nat list \<Rightarrow> (nat \<Rightarrow> nat) \<Rightarrow> nat \<Rightarrow> nat" where
  "store_array xs f = (\<lambda>i. if i < length xs then xs ! i else f i)"

text \<open>
  The five writes that publish offsets, capacities and strides, by \<^verbatim>\<open>copy_h2d\<close> on the CPU and through
  pinned memory on a GPU.
\<close>

definition store_metadata :: "nat list \<Rightarrow> nat list \<Rightarrow> nat \<Rightarrow> nat \<Rightarrow> nat \<Rightarrow> adstack_runtime \<Rightarrow> adstack_runtime" where
  "store_metadata offsets max_sizes stride stride_float stride_int rt =
     rt\<lparr>ar_max_sizes := store_array max_sizes (ar_max_sizes rt),
        ar_offsets := store_array offsets (ar_offsets rt),
        ar_per_thread_stride := stride, ar_per_thread_stride_float := stride_float,
        ar_per_thread_stride_int := stride_int\<rparr>"

definition publish_on_host ::
  "stack_task \<Rightarrow> max_reducer_results \<Rightarrow> env \<Rightarrow> read_cache option \<Rightarrow> adstack_cache \<Rightarrow> publish_state \<Rightarrow>
   (publish_state \<times> read_cache option \<times> adstack_cache) result" where
  "publish_on_host tk results e outer ac s =
     bindE (host_max_sizes tk results e (length (sk_allocas tk)) 0 (launch_scope_enter outer) ac) (\<lambda>(ms, c, ac').
       case host_offsets (sk_allocas tk) ms 0 0 of
         (os, stride_float, stride_int) \<Rightarrow>
           Inr (s\<lparr>pb_rt := store_metadata os ms stride_int stride_float stride_int (pb_rt s)\<rparr>,
                launch_scope_leave outer c, ac'))"

section \<open>Capacities from the device sizer\<close>

text \<open>\<^verbatim>\<open>encode_adstack_size_expr_device_bytecode\<close>.\<close>

definition alloca_header :: "alloca_info \<Rightarrow> dev_stack_header" where
  "alloca_header a = \<lparr>dh_root_node_idx = 0, dh_entry_size_bytes = int (u32 (ai_entry_size_bytes a)),
     dh_max_size_compile_time = int (u32 (ai_max_size_compile_time a)),
     dh_heap_kind = (if ai_heap_is_float a then 0 else 1)\<rparr>"

definition task_expr :: "stack_task \<Rightarrow> max_reducer_results \<Rightarrow> nat \<Rightarrow> ser_expr option" where
  "task_expr tk results i =
     (if i < length (sk_size_exprs tk)
      then Some (if results \<noteq> []
                 then substitute_precomputed_max_over_range (snd (sk_size_exprs tk ! i)) (sk_registry_id tk)
                        (int i) results
                 else snd (sk_size_exprs tk ! i))
      else None)"

definition encode_adstack_size_expr_device_bytecode ::
  "stack_task \<Rightarrow> max_reducer_results \<Rightarrow> env \<Rightarrow> read_cache option \<Rightarrow>
   (8 word list \<times> read_cache option) result" where
  "encode_adstack_size_expr_device_bytecode tk results e cache =
     bindE (encode_bytecode_common (map alloca_header (sk_allocas tk))
              (map (task_expr tk results) [0..<length (sk_allocas tk)]) e None 0 cache None)
       (\<lambda>(bytes, c, reads). Inr (bytes, c))"

text \<open>The keys of the cached publication: the ids of the fields and the arguments the expressions name.\<close>

definition dependency_snodes :: "ser_expr \<Rightarrow> int list" where
  "dependency_snodes ns = map sn_snode_id
     (filter (\<lambda>n. kind_of (sn_kind n) = Some KFieldLoad \<and> 0 \<le> sn_snode_id n) ns)"

definition dependency_args :: "ser_expr \<Rightarrow> int list" where
  "dependency_args ns = map (\<lambda>n. hd (sn_arg_id_path n))
     (filter (\<lambda>n. (kind_of (sn_kind n) = Some KExternalTensorShape \<or>
                   kind_of (sn_kind n) = Some KExternalTensorRead) \<and> sn_arg_id_path n \<noteq> []) ns)"

definition record_publication ::
  "stack_task \<Rightarrow> launch_ctx option \<Rightarrow> adstack_runtime \<Rightarrow> adstack_cache \<Rightarrow> adstack_cache" where
  "record_publication tk ctx rt ac =
     (let n = length (sk_allocas tk);
          exprs = map snd (sk_size_exprs tk);
          snode_ids = remdups (concat (map dependency_snodes exprs));
          arg_ids = remdups (concat (map dependency_args exprs))
      in record_llvm_per_task_ad_stack (sk_key tk) (map (ar_offsets rt) [0..<n]) (map (ar_max_sizes rt) [0..<n])
           (ar_per_thread_stride rt) (ar_per_thread_stride_float rt) (ar_per_thread_stride_int rt)
           (map (\<lambda>i. (i, snode_write_gen ac i)) snode_ids)
           (map (\<lambda>a. let p = current_devalloc ctx a in (a, p, ndarray_data_gen ac p)) arg_ids) ac)"

text \<open>
  Encode, upload, run the sizer, and record what it published. \<open>alloc_code\<close> is what the device returns for
  the bytecode buffer.
\<close>

definition run_device_sizer ::
  "(nat \<Rightarrow> int option) \<Rightarrow> int \<Rightarrow> (int \<Rightarrow> int) option \<Rightarrow> stack_task \<Rightarrow> max_reducer_results \<Rightarrow> env \<Rightarrow> read_cache option \<Rightarrow>
   adstack_cache \<Rightarrow> publish_state \<Rightarrow> (publish_state \<times> read_cache option \<times> adstack_cache) result" where
  "run_device_sizer alloc_code dev_arg_buffer roots tk results e outer ac s =
     bindE (encode_adstack_size_expr_device_bytecode tk results e outer) (\<lambda>(bytes, c).
     bindE
       (if pb_bytecode_capacity s < length bytes then
          (let new_cap = max (length bytes) (2 * pb_bytecode_capacity s) in
           case alloc_code new_cap of
             None \<Rightarrow> Inl (AllocationFailed new_cap)
           | Some p \<Rightarrow> Inr (s\<lparr>pb_bytecode_capacity := new_cap, pb_bytecode_ptr := p\<rparr>))
        else Inr s)
       (\<lambda>s1.
          let m = store_bytes (pb_mem s1) (pb_bytecode_ptr s1) bytes
          in bindE (runtime_eval_adstack_size_expr
                      \<lparr>de_mem = m, de_arg_buffer = dev_arg_buffer, de_roots = roots\<rparr> (pb_bytecode_ptr s1) (pb_rt s1))
               (\<lambda>rt. Inr (s1\<lparr>pb_mem := m, pb_rt := rt\<rparr>, c,
                          if en_prog e = None then ac else record_publication tk (en_ctx e) rt ac))))"

definition publish_on_device ::
  "(nat \<Rightarrow> int option) \<Rightarrow> int \<Rightarrow> (int \<Rightarrow> int) option \<Rightarrow> stack_task \<Rightarrow> max_reducer_results \<Rightarrow> env \<Rightarrow> read_cache option \<Rightarrow>
   adstack_cache \<Rightarrow> publish_state \<Rightarrow> (publish_state \<times> read_cache option \<times> adstack_cache) result" where
  "publish_on_device alloc_code dev_arg_buffer roots tk results e outer ac s =
     (case (if en_prog e = None then (None, ac)
            else try_llvm_per_task_ad_stack_cache_hit (sk_key tk) (en_ctx e) ac) of
        (Some entry, ac1) \<Rightarrow>
          guardE (length (lt_offsets entry) = length (sk_allocas tk) \<and>
                  length (lt_max_sizes entry) = length (sk_allocas tk)) AssertFailed
            (Inr (s\<lparr>pb_rt := store_metadata (lt_offsets entry) (lt_max_sizes entry) (lt_stride_combined entry)
                              (lt_stride_float entry) (lt_stride_int entry) (pb_rt s)\<rparr>, outer, ac1))
      | (None, ac1) \<Rightarrow> run_device_sizer alloc_code dev_arg_buffer roots tk results e outer ac1 s)"

section \<open>The publication\<close>

definition host_resolvable :: "stack_task \<Rightarrow> bool" where
  "host_resolvable tk \<longleftrightarrow>
     list_all (\<lambda>(_, ns). \<not> list_ex (\<lambda>n. kind_of (sn_kind n) = Some KExternalTensorRead) ns)
       (take (length (sk_allocas tk)) (sk_size_exprs tk))"

definition grow_metadata :: "(nat \<Rightarrow> int option) \<Rightarrow> (nat \<Rightarrow> int option) \<Rightarrow> nat \<Rightarrow> publish_state \<Rightarrow> publish_state result" where
  "grow_metadata alloc_offsets alloc_sizes n_stacks s =
     (if pb_metadata_capacity s < n_stacks then
        (let new_cap = max n_stacks (2 * pb_metadata_capacity s) in
         if alloc_offsets (new_cap * 8) = None \<or> alloc_sizes (new_cap * 8) = None
         then Inl (AllocationFailed (new_cap * 8))
         else Inr (s\<lparr>pb_metadata_capacity := new_cap\<rparr>))
      else Inr s)"

definition grow_heaps :: "(nat \<Rightarrow> int option) \<Rightarrow> (nat \<Rightarrow> int option) \<Rightarrow> stack_task \<Rightarrow> nat \<Rightarrow> publish_state \<Rightarrow> publish_state result" where
  "grow_heaps alloc_int alloc_float tk num_threads s =
     (let stride_float = ar_per_thread_stride_float (pb_rt s); stride_int = ar_per_thread_stride_int (pb_rt s) in
      bindE (if 0 < stride_int then ensure_adstack_heap_int alloc_int (u64 (stride_int * num_threads)) (pb_heaps s)
             else Inr (pb_heaps s))
        (\<lambda>h1.
      bindE (if 0 < stride_float \<and> sk_bound_expr tk = None
             then ensure_adstack_heap_float alloc_float (u64 (stride_float * num_threads)) h1
             else Inr h1)
        (\<lambda>h2. Inr (s\<lparr>pb_heaps := h2, pb_last_stride_float := stride_float\<rparr>))))"

text \<open>
  \<^verbatim>\<open>publish_adstack_metadata\<close>; \<open>al\<close> gives the device's answers for the five buffers. The arrays of
  \<^verbatim>\<open>LLVMRuntime\<close> are reached through pointers that are published when they change, so that they are here
  the arrays themselves.
\<close>

definition publish_adstack_metadata ::
  "arch \<Rightarrow> (nat \<Rightarrow> nat \<Rightarrow> int option) \<Rightarrow> int \<Rightarrow> (int \<Rightarrow> int) option \<Rightarrow> stack_task \<Rightarrow> nat \<Rightarrow> max_reducer_results \<Rightarrow> env \<Rightarrow>
   read_cache option \<Rightarrow> adstack_cache \<Rightarrow> publish_state \<Rightarrow>
   (publish_state \<times> read_cache option \<times> adstack_cache) result" where
  "publish_adstack_metadata ar al dev_arg_buffer roots tk num_threads results e outer ac s =
     (if sk_allocas tk = [] \<or> num_threads = 0 then Inr (s, outer, ac)
      else
        bindE (grow_metadata (al 0) (al 1) (length (sk_allocas tk)) s) (\<lambda>s1.
        bindE
          (if \<not> (ar = Cuda \<or> ar = Amdgpu) \<or> host_resolvable tk
           then publish_on_host tk results e outer ac s1
           else publish_on_device (al 2) dev_arg_buffer roots tk results e outer ac s1)
          (\<lambda>(s2, c, ac').
        bindE (grow_heaps (al 3) (al 4) tk num_threads s2) (\<lambda>s3. Inr (s3, c, ac')))))"

section \<open>Every route publishes a layout\<close>

abbreviation task_headers :: "stack_task \<Rightarrow> dev_stack_header list" where
  "task_headers tk \<equiv> map alloca_header (sk_allocas tk)"

definition task_fits :: "stack_task \<Rightarrow> bool" where
  "task_fits tk \<longleftrightarrow> list_all (\<lambda>a. ai_entry_size_bytes a < 2 ^ 32 \<and> ai_max_size_compile_time a < 2 ^ 32) (sk_allocas tk) \<and>
     length (sk_allocas tk) < 2 ^ 32"

text \<open>The host loops write what the sizer writes for the same capacities.\<close>

fun put :: "nat \<Rightarrow> nat list \<Rightarrow> (nat \<Rightarrow> nat) \<Rightarrow> nat \<Rightarrow> nat" where
  "put i [] g = g"
| "put i (x # xs) g = put (Suc i) xs (g(i := x))"

lemma put_nth: "put i xs g k = (if i \<le> k \<and> k < i + length xs then xs ! (k - i) else g k)"
  by (induction xs arbitrary: i g) (auto simp: nth_Cons' Suc_le_eq)

lemma store_array_put: "store_array xs g = put 0 xs g"
  by (rule ext) (simp add: put_nth store_array_def)

lemma host_offsets_layout:
  assumes "length as = length ms" "list_all (\<lambda>a. ai_entry_size_bytes a < 2 ^ 32) as"
    and "host_offsets as ms f n = (os, sf, si)"
  shows "length os = length ms \<and>
    publish_layout (map alloca_header as) ms i f n rt =
      rt\<lparr>ar_max_sizes := put i ms (ar_max_sizes rt), ar_offsets := put i os (ar_offsets rt),
         ar_per_thread_stride := si, ar_per_thread_stride_float := sf, ar_per_thread_stride_int := si\<rparr>"
  using assms
proof (induction as ms arbitrary: f n os i rt rule: list_induct2)
  case Nil
  then show ?case by simp
next
  case (Cons a as m ms)
  have "nat (dh_entry_size_bytes (alloca_header a)) = ai_entry_size_bytes a"
    using Cons.prems(1) by (simp add: alloca_header_def u32_def)
  moreover have "dh_heap_kind (alloca_header a) = 0 \<longleftrightarrow> ai_heap_is_float a"
    by (simp add: alloca_header_def)
  moreover have "list_all (\<lambda>a. ai_entry_size_bytes a < 2 ^ 32) as" using Cons.prems(1) by simp
  ultimately show ?case
    using Cons.IH Cons.prems(2)
    by (auto simp: Let_def split: prod.splits if_splits)
qed

definition layout_of :: "stack_task \<Rightarrow> nat list \<Rightarrow> adstack_runtime \<Rightarrow> adstack_runtime" where
  "layout_of tk ms rt = publish_layout (task_headers tk) ms 0 0 0 rt"

lemma host_publication:
  assumes "task_fits tk" "length ms = length (sk_allocas tk)" "host_offsets (sk_allocas tk) ms 0 0 = (os, sf, si)"
  shows "store_metadata os ms si sf si rt = layout_of tk ms rt"
proof -
  have "list_all (\<lambda>a. ai_entry_size_bytes a < 2 ^ 32) (sk_allocas tk)"
    using assms(1) by (auto simp: task_fits_def list_all_iff)
  from host_offsets_layout [OF assms(2) [symmetric] this assms(3), of 0 rt]
  show ?thesis by (simp add: store_metadata_def layout_of_def store_array_put)
qed

text \<open>The sizer reads the sizes and kinds of the headers that were packed.\<close>

definition same_shape :: "dev_stack_header \<Rightarrow> dev_stack_header \<Rightarrow> bool" where
  "same_shape h sh \<longleftrightarrow> dh_entry_size_bytes sh = dh_entry_size_bytes h \<and> dh_heap_kind sh = dh_heap_kind h"

lemma publish_layout_same_shape:
  "list_all2 same_shape hs shs \<Longrightarrow> publish_layout shs ms i f n rt = publish_layout hs ms i f n rt"
proof (induction hs ms i f n rt arbitrary: shs rule: publish_layout.induct)
  case (1 sh shs' m ms i f n rt)
  then show ?case by (auto simp: list_all2_Cons1 same_shape_def Let_def)
qed (auto simp: list_all2_Cons1)

lemma encode_stacks_same_shape:
  "encode_stacks e fl mx (zip hs xs) st = Inr (shs, st') \<Longrightarrow> length hs = length xs \<Longrightarrow> list_all2 same_shape hs shs"
proof (induction hs arbitrary: xs st shs)
  case (Cons h hs)
  then obtain x xs' where xs: "xs = x # xs'" by (cases xs) auto
  with Cons.prems obtain sh st1 shs' where parts: "encode_stack e fl mx (h, x) st = Inr (sh, st1)"
    "encode_stacks e fl mx (zip hs xs') st1 = Inr (shs', st')" "shs = sh # shs'"
    by (auto simp: result_simps)
  have "same_shape h sh"
    using parts(1) by (auto simp: encode_stack_def same_shape_def Let_def result_simps guardE_def split: option.splits if_splits)
  then show ?case using Cons.IH [OF parts(2)] Cons.prems(2) xs parts(3) by simp
qed simp

lemma blob_headers_same_shape:
  assumes "reads_as m base (pack_bytecode shs nodes indices)" "length shs < 2 ^ 32"
    and "list_all (\<lambda>sh. fits_u32 (dh_entry_size_bytes sh) \<and> fits_u32 (dh_heap_kind sh)) shs"
  shows "list_all2 same_shape shs (blob_headers m base)"
proof -
  have parts: "reads_as m base (pack_header (length shs) (length nodes) (length indices))"
    "reads_as m (base + 16) (concat (map pack_stack_header shs))"
    using assms(1) by (auto simp: pack_bytecode_def reads_as_append algebra_simps)
  have len: "load_u32 m base = int (length shs)"
    using parts(1) assms(2) by (auto simp: pack_header_def reads_as_append dest: load_bytes_u32)
  have "same_shape (shs ! k) (header_ptr m (base + 16) (int k))" if "k < length shs" for k
  proof -
    have "reads_as m (base + 16 + 16 * int k) (pack_stack_header (shs ! k))"
      using reads_as_concat [OF parts(2) _ that, of 16] by simp
    then have "load_u32 m (base + 16 + 16 * int k + 4) = dh_entry_size_bytes (shs ! k) mod 2 ^ 32"
      "load_u32 m (base + 16 + 16 * int k + 12) = dh_heap_kind (shs ! k) mod 2 ^ 32"
      by (auto simp: pack_stack_header_def reads_as_append ac_simps dest: load_bytes_u32)
    then show ?thesis
      using assms(3) that by (auto simp: same_shape_def header_ptr_def Let_def list_all_length fits_u32_def)
  qed
  then show ?thesis by (simp add: blob_headers_def len list_all2_conv_all_nth)
qed

text \<open>
  What the cache must hold for a task: a layout of its own stacks. Every publication keeps this, since it
  records what the sizer published.
\<close>

definition entry_is_layout :: "stack_task \<Rightarrow> llvm_per_task_entry \<Rightarrow> bool" where
  "entry_is_layout tk en \<longleftrightarrow> length (lt_max_sizes en) = length (sk_allocas tk) \<and> list_all (\<lambda>m. 1 \<le> m) (lt_max_sizes en) \<and>
     host_offsets (sk_allocas tk) (lt_max_sizes en) 0 0 = (lt_offsets en, lt_stride_float en, lt_stride_int en) \<and>
     lt_stride_combined en = lt_stride_int en"

definition cached_layout :: "stack_task \<Rightarrow> adstack_cache \<Rightarrow> bool" where
  "cached_layout tk ac \<longleftrightarrow> (case ac_llvm_per_task ac (sk_key tk) of None \<Rightarrow> True | Some en \<Rightarrow> entry_is_layout tk en)"

lemma note_observations_llvm [simp]: "ac_llvm_per_task (note_observations os ac) = ac_llvm_per_task ac"
  by (induction os ac rule: note_observations.induct) (auto simp: Let_def split: obs_kind.splits)

lemma try_size_expr_llvm:
  "try_size_expr_cache_hit e k ac = Inr (hit, ac') \<Longrightarrow> ac_llvm_per_task ac' = ac_llvm_per_task ac"
  by (auto simp: try_size_expr_cache_hit_def bindE_def split: option.splits sum.splits if_splits)

lemma record_size_expr_llvm [simp]: "ac_llvm_per_task (record_size_expr_eval k v rd ac) = ac_llvm_per_task ac"
  by (simp add: record_size_expr_eval_def Let_def)

lemma evaluate_keeps_llvm:
  assumes "evaluate_adstack_size_expr k ns e outer ac = Inr (v, c, ac')"
  shows "ac_llvm_per_task ac' = ac_llvm_per_task ac"
proof (cases "ns = []")
  case False
  with assms obtain hit ac1 where "(if en_prog e = None then Inr (None, ac) else try_size_expr_cache_hit e k ac) = Inr (hit, ac1)"
    and rest: "ac' = ac1 \<or> (\<exists>rd. ac' = record_size_expr_eval k v rd ac1)"
    by (auto simp: evaluate_adstack_size_expr_def bindE_def split: sum.splits option.splits prod.splits if_splits)
  then have "ac_llvm_per_task ac1 = ac_llvm_per_task ac"
    by (auto split: if_splits dest: try_size_expr_llvm)
  then show ?thesis using rest by auto
qed (use assms in \<open>simp add: evaluate_adstack_size_expr_def\<close>)

lemma host_max_size_props:
  "host_max_size tk results e i outer ac = Inr (m, c, ac') \<Longrightarrow> 1 \<le> m \<and> ac_llvm_per_task ac' = ac_llvm_per_task ac"
  by (auto simp: host_max_size_def result_simps Let_def dest: evaluate_keeps_llvm split: if_splits)

lemma host_max_sizes_props:
  "host_max_sizes tk results e n i outer ac = Inr (ms, c, ac') \<Longrightarrow>
     length ms = n \<and> list_all (\<lambda>m. 1 \<le> m) ms \<and> ac_llvm_per_task ac' = ac_llvm_per_task ac"
proof (induction n arbitrary: i outer ac ms)
  case (Suc n)
  then obtain m c1 ac1 ms' where parts: "host_max_size tk results e i outer ac = Inr (m, c1, ac1)"
    "host_max_sizes tk results e n (Suc i) c1 ac1 = Inr (ms', c, ac')" "ms = m # ms'"
    by (auto simp: result_simps)
  then show ?case using Suc.IH [OF parts(2)] host_max_size_props [OF parts(1)] by simp
qed simp

text \<open>The common outcome of the three routes.\<close>

definition published :: "stack_task \<Rightarrow> publish_state \<Rightarrow> adstack_cache \<Rightarrow> publish_state \<Rightarrow> adstack_cache \<Rightarrow> bool" where
  "published tk s ac s' ac' \<longleftrightarrow>
     (\<exists>ms. length ms = length (sk_allocas tk) \<and> list_all (\<lambda>m. 1 \<le> m) ms \<and> pb_rt s' = layout_of tk ms (pb_rt s)) \<and>
     pb_heaps s' = pb_heaps s \<and> cached_layout tk ac'"

lemma publish_on_host_published:
  assumes "publish_on_host tk results e outer ac s = Inr (s', c, ac')" "task_fits tk" "cached_layout tk ac"
  shows "published tk s ac s' ac'"
proof -
  obtain ms c1 ac1 where sizes: "host_max_sizes tk results e (length (sk_allocas tk)) 0 (launch_scope_enter outer) ac = Inr (ms, c1, ac1)"
    using assms(1) by (auto simp: publish_on_host_def bindE_def split: sum.splits)
  obtain os sf si where os: "host_offsets (sk_allocas tk) ms 0 0 = (os, sf, si)" by (metis prod_cases3)
  have ms: "host_max_sizes tk results e (length (sk_allocas tk)) 0 (launch_scope_enter outer) ac = Inr (ms, c1, ac')"
    "host_offsets (sk_allocas tk) ms 0 0 = (os, sf, si)"
    "s' = s\<lparr>pb_rt := store_metadata os ms si sf si (pb_rt s)\<rparr>"
    using assms(1) sizes os by (auto simp: publish_on_host_def bindE_def)
  note props = host_max_sizes_props [OF ms(1)]
  then have "pb_rt s' = layout_of tk ms (pb_rt s)"
    using host_publication [OF assms(2) _ ms(2)] ms(3) by simp
  then show ?thesis using props ms(3) assms(3) by (auto simp: published_def cached_layout_def)
qed

lemma cached_publication:
  assumes "entry_is_layout tk en" "task_fits tk"
  shows "store_metadata (lt_offsets en) (lt_max_sizes en) (lt_stride_combined en) (lt_stride_float en) (lt_stride_int en) rt =
    layout_of tk (lt_max_sizes en) rt"
  using assms host_publication [OF assms(2), of "lt_max_sizes en"] by (simp add: entry_is_layout_def)

lemma recorded_is_layout:
  assumes "task_fits tk" "length ms = length (sk_allocas tk)" "list_all (\<lambda>m. 1 \<le> m) ms" "rt' = layout_of tk ms rt"
  shows "cached_layout tk (record_publication tk ctx rt' ac)"
proof -
  obtain os sf si where os: "host_offsets (sk_allocas tk) ms 0 0 = (os, sf, si)" by (metis prod_cases3)
  have "list_all (\<lambda>a. ai_entry_size_bytes a < 2 ^ 32) (sk_allocas tk)"
    using assms(1) by (auto simp: task_fits_def list_all_iff)
  then have len: "length os = length ms"
    using host_offsets_layout [OF assms(2) [symmetric] _ os] by blast
  have rt': "rt' = store_metadata os ms si sf si rt"
    using host_publication [OF assms(1,2) os] assms(4) by simp
  have "map (ar_offsets rt') [0..<length (sk_allocas tk)] = os" "map (ar_max_sizes rt') [0..<length (sk_allocas tk)] = ms"
    using rt' len assms(2) by (auto simp: store_metadata_def store_array_def intro!: nth_equalityI)
  then show ?thesis
    using os rt' assms(2,3)
    by (simp add: cached_layout_def entry_is_layout_def record_publication_def record_llvm_per_task_ad_stack_def Let_def
        store_metadata_def)
qed

lemma sizer_publication:
  assumes "encode_adstack_size_expr_device_bytecode tk results e outer = Inr (bytes, c)" "task_fits tk"
    and "runtime_eval_adstack_size_expr \<lparr>de_mem = store_bytes m p bytes, de_arg_buffer = ab, de_roots = rs\<rparr> p rt = Inr rt'"
  shows "\<exists>ms. length ms = length (sk_allocas tk) \<and> list_all (\<lambda>m. 1 \<le> m) ms \<and> rt' = layout_of tk ms rt"
proof -
  define hs where "hs = task_headers tk"
  obtain shs st where enc: "encode_stacks e None 0 (zip hs (map (task_expr tk results) [0..<length (sk_allocas tk)]))
      \<lparr>ec_nodes = [], ec_indices = [], ec_cache = outer, ec_reads = None\<rparr> = Inr (shs, st)"
    and bytes: "bytes = pack_bytecode shs (ec_nodes st) (ec_indices st)"
    using assms(1)
    by (auto simp: encode_adstack_size_expr_device_bytecode_def encode_bytecode_common_def hs_def result_simps guardE_def)
  have shape: "list_all2 same_shape hs shs"
    by (rule encode_stacks_same_shape [OF enc]) (simp add: hs_def)
  have len: "length hs = length (sk_allocas tk)" "length shs = length (sk_allocas tk)" "length shs < 2 ^ 32"
    using list_all2_lengthD [OF shape] assms(2) by (simp_all add: hs_def task_fits_def)
  have "fits_u32 (dh_entry_size_bytes (alloca_header a)) \<and> fits_u32 (dh_heap_kind (alloca_header a))" for a
    by (simp add: alloca_header_def fits_u32_def u32_def)
  then have "list_all (\<lambda>sh. fits_u32 (dh_entry_size_bytes sh) \<and> fits_u32 (dh_heap_kind sh)) shs"
    using shape by (auto simp: hs_def list_all_length list_all2_conv_all_nth same_shape_def)
  then have "list_all2 same_shape shs (blob_headers (store_bytes m p bytes) p)"
    by (rule blob_headers_same_shape [OF reads_as_store_bytes [of m p bytes, unfolded bytes], OF len(3), folded bytes])
  then have both: "list_all2 same_shape hs (blob_headers (store_bytes m p bytes) p)"
    using shape by (auto simp: list_all2_conv_all_nth same_shape_def)
  define ms where "ms = published_sizes rt' (length (blob_headers (store_bytes m p bytes) p))"
  have "rt' = publish_layout (blob_headers (store_bytes m p bytes) p) ms 0 0 0 rt" "list_all (\<lambda>m. 1 \<le> m) ms"
    using sizer_publishes_layout [OF assms(3)] by (simp_all add: ms_def)
  moreover have "length ms = length (sk_allocas tk)"
    using list_all2_lengthD [OF both] len(1) by (simp add: ms_def published_sizes_def)
  ultimately show ?thesis
    using publish_layout_same_shape [OF both] by (auto simp: layout_of_def hs_def)
qed

lemma run_device_sizer_published:
  assumes "run_device_sizer al ab rs tk results e outer ac s = Inr (s', c, ac')" "task_fits tk" "cached_layout tk ac"
  shows "published tk s ac s' ac'"
proof -
  obtain bytes c1 where enc: "encode_adstack_size_expr_device_bytecode tk results e outer = Inr (bytes, c1)"
    using assms(1) by (auto simp: run_device_sizer_def bindE_def split: sum.splits)
  obtain s1 where s1: "(if pb_bytecode_capacity s < length bytes then
          (let new_cap = max (length bytes) (2 * pb_bytecode_capacity s) in
           case al new_cap of None \<Rightarrow> Inl (AllocationFailed new_cap)
           | Some p \<Rightarrow> Inr (s\<lparr>pb_bytecode_capacity := new_cap, pb_bytecode_ptr := p\<rparr>))
        else Inr s) = Inr s1"
    using assms(1) enc by (auto simp: run_device_sizer_def bindE_def split: sum.splits)
  then have same: "pb_rt s1 = pb_rt s" "pb_heaps s1 = pb_heaps s"
    by (auto simp: Let_def split: if_splits option.splits)
  define m where "m = store_bytes (pb_mem s1) (pb_bytecode_ptr s1) bytes"
  obtain rt where rt: "runtime_eval_adstack_size_expr \<lparr>de_mem = m, de_arg_buffer = ab, de_roots = rs\<rparr> (pb_bytecode_ptr s1) (pb_rt s1) = Inr rt"
    and s': "s' = s1\<lparr>pb_mem := m, pb_rt := rt\<rparr>" "ac' = (if en_prog e = None then ac else record_publication tk (en_ctx e) rt ac)"
    using assms(1) enc s1
    by (auto simp: run_device_sizer_def bindE_def Let_def m_def [symmetric] split: sum.splits)
  obtain ms where ms: "length ms = length (sk_allocas tk)" "list_all (\<lambda>m. 1 \<le> m) ms" "rt = layout_of tk ms (pb_rt s)"
    using sizer_publication [OF enc assms(2) rt [unfolded m_def]] same by auto
  then show ?thesis
    using s' same recorded_is_layout [OF assms(2) ms] assms(3) by (auto simp: published_def)
qed

lemma publish_on_device_published:
  assumes "publish_on_device al ab rs tk results e outer ac s = Inr (s', c, ac')" "task_fits tk" "cached_layout tk ac"
  shows "published tk s ac s' ac'"
proof -
  obtain hit ac1 where look: "(if en_prog e = None then (None, ac) else try_llvm_per_task_ad_stack_cache_hit (sk_key tk) (en_ctx e) ac) = (hit, ac1)"
    by (meson surj_pair)
  have cached: "cached_layout tk ac1"
    using look assms(3)
    by (auto simp: try_llvm_per_task_ad_stack_cache_hit_def cached_layout_def split: if_splits option.splits)
  show ?thesis
  proof (cases hit)
    case None
    then show ?thesis
      using assms(1) look run_device_sizer_published [OF _ assms(2) cached]
      by (auto simp: publish_on_device_def published_def)
  next
    case (Some en)
    then have "entry_is_layout tk en"
      using look assms(3)
      by (auto simp: try_llvm_per_task_ad_stack_cache_hit_def cached_layout_def split: if_splits option.splits)
    then show ?thesis
      using assms(1) look Some cached cached_publication [OF _ assms(2)]
      by (auto simp: publish_on_device_def published_def guardE_def entry_is_layout_def split: if_splits)
  qed
qed

lemma ensure_adstack_heap_float_int:
  assumes "ensure_adstack_heap_float al n h = Inr h'"
  shows "hp_size_int h' = hp_size_int h"
proof -
  have "h' = h \<or> (\<exists>p m. h' = h\<lparr>hp_fields_cached := True, hp_rt_buffer_float := p, hp_rt_size_float := m,
      hp_alloc_float := p, hp_size_float := m\<rparr>)"
    using assms by (auto simp: ensure_adstack_heap_float_def Let_def split: if_splits option.splits)
  then show ?thesis by auto
qed

section \<open>Every thread has room\<close>

text \<open>
  After a publication, the slice of every thread for every stack that is not drawn lazily lies in its heap;
  the cache entry of the task is again a layout.
\<close>

lemma publication_room:
  assumes "publish_adstack_metadata ar al ab rs tk num_threads results e outer ac s = Inr (s', c, ac')"
    and "task_fits tk" "cached_layout tk ac" "sk_allocas tk \<noteq> []" "tid < num_threads"
    and "layout_fits (task_headers tk) (published_sizes (pb_rt s') (length (sk_allocas tk)))"
    and "ar_per_thread_stride_float (pb_rt s') * num_threads < 2 ^ 64" "ar_per_thread_stride_int (pb_rt s') * num_threads < 2 ^ 64"
    and "k < length (sk_allocas tk)" "ai_heap_is_float (sk_allocas tk ! k) \<longrightarrow> sk_bound_expr tk = None"
  shows "cached_layout tk ac' \<and> slot_ok (pb_rt s') (task_headers tk) k \<and>
    (if ai_heap_is_float (sk_allocas tk ! k)
     then num_threads * ar_per_thread_stride_float (pb_rt s') \<le> hp_size_float (pb_heaps s')
     else num_threads * ar_per_thread_stride_int (pb_rt s') \<le> hp_size_int (pb_heaps s'))"
proof -
  obtain s1 s2 where s1: "grow_metadata (al 0) (al 1) (length (sk_allocas tk)) s = Inr s1"
    and route: "(if \<not> (ar = Cuda \<or> ar = Amdgpu) \<or> host_resolvable tk
           then publish_on_host tk results e outer ac s1
           else publish_on_device (al 2) ab rs tk results e outer ac s1) = Inr (s2, c, ac')"
    and grown: "grow_heaps (al 3) (al 4) tk num_threads s2 = Inr s'"
    using assms(1,4,5) by (auto simp: publish_adstack_metadata_def bindE_def split: sum.splits if_splits)
  have "published tk s1 ac s2 ac'"
    using route publish_on_host_published [OF _ assms(2,3)] publish_on_device_published [OF _ assms(2,3)]
    by (auto split: if_splits)
  then obtain ms where ms: "length ms = length (sk_allocas tk)" "list_all (\<lambda>m. 1 \<le> m) ms" "pb_rt s2 = layout_of tk ms (pb_rt s1)"
    and cached: "cached_layout tk ac'"
    by (auto simp: published_def)
  have rt: "pb_rt s' = pb_rt s2"
    using grown by (auto simp: grow_heaps_def Let_def bindE_def split: sum.splits)
  have "published_sizes (pb_rt s') (length (sk_allocas tk)) = ms"
    using publish_layout_sizes [of "task_headers tk" ms _ 0] ms rt
    by (intro nth_equalityI) (auto simp: published_sizes_def layout_of_def)
  then have slot: "slot_ok (pb_rt s') (task_headers tk) k"
    using publish_layout_slots [of "task_headers tk" ms k] ms assms(6,9) rt by (simp add: layout_of_def)
  obtain h1 where h1: "(if 0 < ar_per_thread_stride_int (pb_rt s2)
       then ensure_adstack_heap_int (al 3) (u64 (ar_per_thread_stride_int (pb_rt s2) * num_threads)) (pb_heaps s2)
       else Inr (pb_heaps s2)) = Inr h1"
    and h2: "(if 0 < ar_per_thread_stride_float (pb_rt s2) \<and> sk_bound_expr tk = None
       then ensure_adstack_heap_float (al 4) (u64 (ar_per_thread_stride_float (pb_rt s2) * num_threads)) h1
       else Inr h1) = Inr (pb_heaps s')"
    using grown by (auto simp: grow_heaps_def Let_def bindE_def split: sum.splits)
  have int_kept: "hp_size_int (pb_heaps s') = hp_size_int h1"
    using h2 ensure_adstack_heap_float_int by (auto split: if_splits)
  have "ar_per_thread_stride_int (pb_rt s2) * num_threads \<le> hp_size_int h1"
    using h1 assms(8) rt ensure_adstack_heap_int_props(1) by (fastforce simp: u64_def split: if_splits)
  moreover have "ar_per_thread_stride_float (pb_rt s2) * num_threads \<le> hp_size_float (pb_heaps s')" if "sk_bound_expr tk = None"
    using that h2 assms(7) rt ensure_adstack_heap_float_props(1) by (fastforce simp: u64_def split: if_splits)
  ultimately show ?thesis
    using cached slot int_kept rt assms(10) by (auto simp: mult.commute)
qed

section \<open>The published capacities\<close>

text \<open>
  On the host: the capacity of a stack is the meaning of its expression, at least one, in every
  state the caches can be in and with any right results of the max reducer substituted. A negative
  value is replaced by the bound the compiler proved.
\<close>

definition meant_size :: "env \<Rightarrow> alloca_info \<Rightarrow> size_expr \<Rightarrow> nat" where
  "meant_size e a t =
     (case size_value e t Map.empty of
        Inl _ \<Rightarrow> 1
      | Inr v \<Rightarrow> nat (max (if v < 0 then wrap64 (int (ai_max_size_compile_time a)) else v) 1))"

text \<open>The stacks of a task carry the expressions the keys name, all of which can be evaluated.\<close>

definition stacks_of_task :: "(int \<Rightarrow> size_expr) \<Rightarrow> world \<Rightarrow> launch_ctx \<Rightarrow> stack_task \<Rightarrow> int list \<Rightarrow> bool" where
  "stacks_of_task T w ctx tk ks \<longleftrightarrow> sk_size_exprs tk = map (\<lambda>k. (k, serialize (T k))) ks \<and>
     length ks = length (sk_allocas tk) \<and> list_all (\<lambda>k. can_evaluate w ctx (T k)) ks"

text \<open>The values the max reducer dispatched for a stack are those of the range maxima they replace.\<close>

definition stack_results_right :: "env \<Rightarrow> max_reducer_results \<Rightarrow> stack_task \<Rightarrow> nat \<Rightarrow> size_expr \<Rightarrow> bool" where
  "stack_results_right e results tk i t \<longleftrightarrow>
     results_right e (matched results (sk_registry_id tk) (int i)) (serialize t) (int (length (serialize t)) - 1) t"

lemma env_at_cache [simp]: "env_at (w\<lparr>wd_cache := ac\<rparr>) ctx = env_at w ctx"
  by (simp add: env_at_def)

lemma can_evaluate_cache [simp]: "can_evaluate (w\<lparr>wd_cache := ac\<rparr>) ctx t = can_evaluate w ctx t"
  by (simp add: can_evaluate_def shapes_agree_def)

lemma host_value_meaning:
  assumes "cache_run T (w\<lparr>wd_cache := ac\<rparr>)" "can_evaluate w ctx (T k)" "cache_ok (env_at w ctx) outer"
    and "size_value (env_at w ctx) (T k) Map.empty = Inr v"
  shows "\<exists>c ac'. evaluate_adstack_size_expr k (serialize (T k)) (env_at w ctx) outer ac = Inr (v, c, ac') \<and>
    cache_ok (env_at w ctx) c \<and> cache_run T (w\<lparr>wd_cache := ac'\<rparr>)"
proof -
  have can: "can_evaluate (w\<lparr>wd_cache := ac\<rparr>) ctx (T k)" using assms(2) by simp
  have ok: "cache_ok (env_at (w\<lparr>wd_cache := ac\<rparr>) ctx) outer" using assms(3) by simp
  obtain c ac' where ev: "evaluate_adstack_size_expr k (serialize (T k)) (env_at w ctx) outer ac = Inr (v, c, ac')"
    and c: "cache_ok (env_at w ctx) c"
    using evaluate_cached [OF cache_run_inv [OF assms(1)] can ok] assms(4) by auto
  then show ?thesis using cache_run.evaluate [OF assms(1) can ok] by fastforce
qed

lemma host_substituted_meaning:
  assumes "can_evaluate w ctx t" "cache_ok (env_at w ctx) outer" "size_value (env_at w ctx) t Map.empty = Inr v"
    and "stack_results_right (env_at w ctx) results tk i t"
  shows "\<exists>c. evaluate_adstack_size_expr_no_cache
      (substitute_precomputed_max_over_range (serialize t) (sk_registry_id tk) (int i) results) (env_at w ctx) outer = Inr (v, c) \<and>
    cache_ok (env_at w ctx) c"
  using evaluate_substituted [OF serialize_represents _ assms(2) assms(4) [unfolded stack_results_right_def]] assms(1,3)
  by (auto simp: can_evaluate_def)

lemma host_max_size_meaning:
  assumes "cache_run T (w\<lparr>wd_cache := ac\<rparr>)" "stacks_of_task T w ctx tk ks" "i < length ks" "cache_ok (env_at w ctx) outer"
    and "\<exists>v. size_value (env_at w ctx) (T (ks ! i)) Map.empty = Inr v"
    and "stack_results_right (env_at w ctx) results tk i (T (ks ! i))"
  shows "\<exists>c ac'. host_max_size tk results (env_at w ctx) i outer ac =
      Inr (meant_size (env_at w ctx) (sk_allocas tk ! i) (T (ks ! i)), c, ac') \<and>
    cache_ok (env_at w ctx) c \<and> cache_run T (w\<lparr>wd_cache := ac'\<rparr>)"
proof -
  have stack: "sk_size_exprs tk ! i = (ks ! i, serialize (T (ks ! i)))" "i < length (sk_size_exprs tk)"
    "can_evaluate w ctx (T (ks ! i))"
    using assms(2,3) by (auto simp: stacks_of_task_def list_all_length)
  obtain v where v: "size_value (env_at w ctx) (T (ks ! i)) Map.empty = Inr v" using assms(5) by blast
  have "serialize (T (ks ! i)) \<noteq> []" by (rule serialize_not_Nil)
  then show ?thesis
    using host_value_meaning [OF assms(1) stack(3) assms(4) v] host_substituted_meaning [OF stack(3) assms(4) v assms(6)]
      assms(1) stack v
    by (auto simp: host_max_size_def meant_size_def result_simps env_at_def)
qed

lemma host_max_sizes_meaning:
  assumes "cache_run T (w\<lparr>wd_cache := ac\<rparr>)" "stacks_of_task T w ctx tk ks" "i + n = length ks" "cache_ok (env_at w ctx) outer"
    and "\<forall>k \<in> set ks. \<exists>v. size_value (env_at w ctx) (T k) Map.empty = Inr v"
    and "\<forall>i < length ks. stack_results_right (env_at w ctx) results tk i (T (ks ! i))"
  shows "\<exists>c ac'. host_max_sizes tk results (env_at w ctx) n i outer ac =
      Inr (map2 (\<lambda>a k. meant_size (env_at w ctx) a (T k)) (drop i (sk_allocas tk)) (drop i ks), c, ac') \<and>
    cache_ok (env_at w ctx) c \<and> cache_run T (w\<lparr>wd_cache := ac'\<rparr>)"
  using assms
proof (induction n arbitrary: i outer ac)
  case (Suc n)
  have i: "i < length ks" "i < length (sk_allocas tk)" using Suc.prems(2,3) by (simp_all add: stacks_of_task_def)
  have "\<exists>v. size_value (env_at w ctx) (T (ks ! i)) Map.empty = Inr v" "stack_results_right (env_at w ctx) results tk i (T (ks ! i))"
    using Suc.prems(5,6) i(1) by simp_all
  then obtain c1 ac1 where one: "host_max_size tk results (env_at w ctx) i outer ac =
      Inr (meant_size (env_at w ctx) (sk_allocas tk ! i) (T (ks ! i)), c1, ac1)"
    "cache_ok (env_at w ctx) c1" "cache_run T (w\<lparr>wd_cache := ac1\<rparr>)"
    using host_max_size_meaning [OF Suc.prems(1,2) i(1) Suc.prems(4)] by blast
  have next_i: "Suc i + n = length ks" using Suc.prems(3) by simp
  obtain c ac' where "host_max_sizes tk results (env_at w ctx) n (Suc i) c1 ac1 =
      Inr (map2 (\<lambda>a k. meant_size (env_at w ctx) a (T k)) (drop (Suc i) (sk_allocas tk)) (drop (Suc i) ks), c, ac')"
    "cache_ok (env_at w ctx) c" "cache_run T (w\<lparr>wd_cache := ac'\<rparr>)"
    using Suc.IH [OF one(3) Suc.prems(2) next_i one(2) Suc.prems(5,6)] by blast
  then show ?case
    using one(1) by (auto simp: result_simps Cons_nth_drop_Suc [OF i(1), symmetric] Cons_nth_drop_Suc [OF i(2), symmetric])
qed simp

lemma grow_heaps_returns:
  assumes "\<And>i n. al (i :: nat) n \<noteq> None"
  shows "\<exists>s'. grow_heaps (al 3) (al 4) tk num_threads s = Inr s' \<and> pb_rt s' = pb_rt s"
proof -
  have none: "al i n = None \<longleftrightarrow> False" for i n using assms by simp
  have "\<exists>h'. ensure_adstack_heap_int (al 3) n h = Inr h'" "\<exists>h'. ensure_adstack_heap_float (al 4) n h = Inr h'" for n h
    by (auto simp: ensure_adstack_heap_int_def ensure_adstack_heap_float_def Let_def none split: option.split)
  then show ?thesis
    by (auto simp: grow_heaps_def Let_def bindE_def split: sum.splits if_splits) (metis Inl_Inr_False)+
qed

lemma host_publication_meaning:
  assumes "cache_run T w" "stacks_of_task T w ctx tk ks" "cache_ok (env_at w ctx) outer" "task_fits tk"
    and "ar \<noteq> Cuda \<and> ar \<noteq> Amdgpu \<or> host_resolvable tk" "\<And>i n. al i n \<noteq> None" "0 < num_threads"
    and "\<forall>k \<in> set ks. \<exists>v. size_value (env_at w ctx) (T k) Map.empty = Inr v"
    and "\<forall>i < length ks. stack_results_right (env_at w ctx) results tk i (T (ks ! i))"
  shows "\<exists>s' c ac'. publish_adstack_metadata ar al ab rs tk num_threads results (env_at w ctx) outer (wd_cache w) s = Inr (s', c, ac') \<and>
    published_sizes (pb_rt s') (length ks) = map2 (\<lambda>a k. meant_size (env_at w ctx) a (T k)) (sk_allocas tk) ks \<and>
    cache_run T (w\<lparr>wd_cache := ac'\<rparr>)"
proof (cases "sk_allocas tk = []")
  case True
  then show ?thesis
    using assms(1,2) by (simp add: publish_adstack_metadata_def stacks_of_task_def published_sizes_def)
next
  case False
  define ms where "ms = map2 (\<lambda>a k. meant_size (env_at w ctx) a (T k)) (sk_allocas tk) ks"
  have len: "length ms = length (sk_allocas tk)" "length ks = length (sk_allocas tk)"
    using assms(2) by (simp_all add: ms_def stacks_of_task_def)
  have "cache_run T (w\<lparr>wd_cache := wd_cache w\<rparr>)" using assms(1) by simp
  from host_max_sizes_meaning [OF this assms(2) _ cache_ok_enter [OF assms(3)] assms(8,9), of 0 "length ks"]
  obtain c ac' where sizes: "host_max_sizes tk results (env_at w ctx) (length (sk_allocas tk)) 0 (launch_scope_enter outer) (wd_cache w) = Inr (ms, c, ac')"
    and run: "cache_run T (w\<lparr>wd_cache := ac'\<rparr>)"
    by (auto simp: ms_def len(2))
  obtain os sf si where os: "host_offsets (sk_allocas tk) ms 0 0 = (os, sf, si)" by (metis prod_cases3)
  have none: "al i n = None \<longleftrightarrow> False" for i n using assms(6) by simp
  have "\<exists>s1. grow_metadata (al 0) (al 1) (length (sk_allocas tk)) s = Inr s1"
    by (simp add: grow_metadata_def Let_def none)
  then obtain s1 where s1: "grow_metadata (al 0) (al 1) (length (sk_allocas tk)) s = Inr s1" by blast
  define s2 where "s2 = s1\<lparr>pb_rt := store_metadata os ms si sf si (pb_rt s1)\<rparr>"
  have route: "publish_on_host tk results (env_at w ctx) outer (wd_cache w) s1 = Inr (s2, launch_scope_leave outer c, ac')"
    using sizes os by (simp add: publish_on_host_def result_simps s2_def)
  obtain s3 where s3: "grow_heaps (al 3) (al 4) tk num_threads s2 = Inr s3" "pb_rt s3 = pb_rt s2"
    using grow_heaps_returns [where al = al, OF assms(6)] by blast
  have "published_sizes (pb_rt s3) (length ks) = ms"
    using publish_layout_sizes [of "task_headers tk" ms _ 0] len s3(2) host_publication [OF assms(4) len(1) os]
    by (intro nth_equalityI) (auto simp: published_sizes_def layout_of_def s2_def)
  moreover have "publish_adstack_metadata ar al ab rs tk num_threads results (env_at w ctx) outer (wd_cache w) s =
      Inr (s3, launch_scope_leave outer c, ac')"
    using False assms(5,7) s1 route s3(1) by (auto simp: publish_adstack_metadata_def result_simps)
  ultimately show ?thesis using run by (auto simp: ms_def)
qed

end
