(* ===== verification/PinnedMetadata.thy ===== *)
theory PinnedMetadata
  imports PublishMetadata
begin

text \<open>
  The asynchronous half of a publication on a GPU (\<^verbatim>\<open>publish_metadata_pinned_async\<close> in
  \<^verbatim>\<open>metadata_publish.cpp\<close>). The host packs the metadata into one pinned buffer, queues five copies that
  read the buffer only when the stream reaches them, and records an event; it reuses the buffer for the
  next publication after waiting for that event. Kernels run in stream order between copies.
\<close>

section \<open>The stream\<close>

text \<open>\<^verbatim>\<open>[stride_combined, stride_float, stride_int, offsets[n], max_sizes[n]]\<close>.\<close>

record stack_metadata =
  md_stride :: nat
  md_stride_float :: nat
  md_stride_int :: nat
  md_offsets :: "nat list"
  md_max_sizes :: "nat list"

datatype meta_copy = CopyStride | CopyStrideFloat | CopyStrideInt | CopyOffsets nat | CopyMaxSizes nat

text \<open>A kernel in the queue carries the metadata it was launched with, which only the claims below look at.\<close>

datatype stream_op = Copy meta_copy | Event | Kernel stack_metadata

record pinned_world =
  pw_scratch :: "nat \<Rightarrow> nat"
  pw_capacity :: nat
  pw_pending :: bool
  pw_queue :: "stream_op list"
  pw_rt :: adstack_runtime
  pw_last :: "stack_metadata option"

text \<open>A copy moves words of the pinned buffer as they are when it runs.\<close>

fun run_copy :: "(nat \<Rightarrow> nat) \<Rightarrow> meta_copy \<Rightarrow> adstack_runtime \<Rightarrow> adstack_runtime" where
  "run_copy pinned CopyStride rt = rt\<lparr>ar_per_thread_stride := pinned 0\<rparr>"
| "run_copy pinned CopyStrideFloat rt = rt\<lparr>ar_per_thread_stride_float := pinned 1\<rparr>"
| "run_copy pinned CopyStrideInt rt = rt\<lparr>ar_per_thread_stride_int := pinned 2\<rparr>"
| "run_copy pinned (CopyOffsets n) rt =
     rt\<lparr>ar_offsets := store_array (map (\<lambda>i. pinned (3 + i)) [0..<n]) (ar_offsets rt)\<rparr>"
| "run_copy pinned (CopyMaxSizes n) rt =
     rt\<lparr>ar_max_sizes := store_array (map (\<lambda>i. pinned (3 + n + i)) [0..<n]) (ar_max_sizes rt)\<rparr>"

fun run_stream_op :: "(nat \<Rightarrow> nat) \<Rightarrow> stream_op \<Rightarrow> adstack_runtime \<Rightarrow> adstack_runtime" where
  "run_stream_op pinned (Copy c) rt = run_copy pinned c rt"
| "run_stream_op pinned Event rt = rt"
| "run_stream_op pinned (Kernel md) rt = rt"

section \<open>The host\<close>

text \<open>
  \<^verbatim>\<open>wait_pending\<close>: \<^verbatim>\<open>event_synchronize\<close> returns once the stream has passed the event, so everything up to it
  has run; an event the stream has already passed is not in the queue any more.
\<close>

fun until_event :: "stream_op list \<Rightarrow> stream_op list" where
  "until_event [] = []"
| "until_event (x # q) = (if Event \<in> set (x # q) then x # (if x = Event \<and> Event \<notin> set q then [] else until_event q) else [])"

definition wait_pending :: "pinned_world \<Rightarrow> pinned_world" where
  "wait_pending w =
     (if \<not> pw_pending w then w
      else
        (let done_ops = until_event (pw_queue w)
         in w\<lparr>pw_rt := fold (run_stream_op (pw_scratch w)) done_ops (pw_rt w),
              pw_queue := drop (length done_ops) (pw_queue w), pw_pending := False\<rparr>))"

definition pack_pinned :: "stack_metadata \<Rightarrow> (nat \<Rightarrow> nat) \<Rightarrow> nat \<Rightarrow> nat" where
  "pack_pinned md pinned =
     store_array ([md_stride md, md_stride_float md, md_stride_int md] @ md_offsets md @ md_max_sizes md) pinned"

definition meta_copies :: "nat \<Rightarrow> stream_op list" where
  "meta_copies n = map Copy [CopyStride, CopyStrideFloat, CopyStrideInt, CopyOffsets n, CopyMaxSizes n]"

text \<open>
  \<^verbatim>\<open>publish_metadata_pinned_async\<close>; \<open>fresh\<close> is what a newly allocated pinned buffer holds.
\<close>

definition publish_metadata_pinned_async ::
  "(nat \<Rightarrow> nat) \<Rightarrow> stack_metadata \<Rightarrow> pinned_world \<Rightarrow> pinned_world" where
  "publish_metadata_pinned_async fresh md w =
     (let n = length (md_offsets md);
          total_bytes = 3 * 8 + 2 * (n * 8);
          w1 = (if pw_capacity w < total_bytes
                then (wait_pending w)\<lparr>pw_scratch := fresh, pw_capacity := max total_bytes (2 * pw_capacity w)\<rparr>
                else w);
          w2 = wait_pending w1
      in w2\<lparr>pw_scratch := pack_pinned md (pw_scratch w2),
            pw_queue := pw_queue w2 @ meta_copies n @ [Event], pw_pending := True, pw_last := Some md\<rparr>)"

text \<open>
  Publications, kernel launches and the stream making progress, in any order. The arrays of one
  publication have equal lengths.
\<close>

inductive pinned_run :: "pinned_world \<Rightarrow> pinned_world \<Rightarrow> bool" where
  start: "pinned_run w w"
| publish: "pinned_run w v \<Longrightarrow> length (md_max_sizes md) = length (md_offsets md) \<Longrightarrow>
    pinned_run w (publish_metadata_pinned_async fresh md v)"
| launch: "pinned_run w v \<Longrightarrow> pw_last v = Some md \<Longrightarrow> pinned_run w (v\<lparr>pw_queue := pw_queue v @ [Kernel md]\<rparr>)"
| stream: "pinned_run w v \<Longrightarrow> pw_queue v = x # q \<Longrightarrow>
    pinned_run w (v\<lparr>pw_queue := q, pw_rt := run_stream_op (pw_scratch v) x (pw_rt v)\<rparr>)"

section \<open>A kernel finds the metadata it was launched with\<close>

definition matches :: "adstack_runtime \<Rightarrow> stack_metadata \<Rightarrow> bool" where
  "matches rt md \<longleftrightarrow> ar_per_thread_stride rt = md_stride md \<and> ar_per_thread_stride_float rt = md_stride_float md \<and>
     ar_per_thread_stride_int rt = md_stride_int md \<and>
     map (ar_offsets rt) [0..<length (md_offsets md)] = md_offsets md \<and>
     map (ar_max_sizes rt) [0..<length (md_max_sizes md)] = md_max_sizes md"

fun kernels_served :: "(nat \<Rightarrow> nat) \<Rightarrow> stream_op list \<Rightarrow> adstack_runtime \<Rightarrow> bool" where
  "kernels_served pinned [] rt = True"
| "kernels_served pinned (Kernel md # q) rt = (matches rt md \<and> kernels_served pinned q rt)"
| "kernels_served pinned (x # q) rt = kernels_served pinned q (run_stream_op pinned x rt)"

fun is_copy :: "stream_op \<Rightarrow> bool" where
  "is_copy (Copy c) = True"
| "is_copy _ = False"

text \<open>No copy comes after the last event, and with no event pending there is none at all.\<close>

fun copies_covered :: "stream_op list \<Rightarrow> bool" where
  "copies_covered [] = True"
| "copies_covered (x # q) = ((is_copy x \<longrightarrow> Event \<in> set q) \<and> copies_covered q)"

definition pinned_inv :: "pinned_world \<Rightarrow> bool" where
  "pinned_inv w \<longleftrightarrow> kernels_served (pw_scratch w) (pw_queue w) (pw_rt w) \<and> copies_covered (pw_queue w) \<and>
     (\<not> pw_pending w \<longrightarrow> \<not> list_ex is_copy (pw_queue w)) \<and>
     (case pw_last w of None \<Rightarrow> True
      | Some md \<Rightarrow> matches (fold (run_stream_op (pw_scratch w)) (pw_queue w) (pw_rt w)) md)"

lemma kernels_served_append:
  "kernels_served p (q @ r) rt \<longleftrightarrow> kernels_served p q rt \<and> kernels_served p r (fold (run_stream_op p) q rt)"
  by (induction p q rt rule: kernels_served.induct) auto

lemma copies_covered_drop: "copies_covered q \<Longrightarrow> copies_covered (drop n q)"
  by (induction q arbitrary: n) (auto simp: drop_Cons split: nat.splits)

lemma copies_covered_no_event: "copies_covered q \<Longrightarrow> Event \<notin> set q \<Longrightarrow> \<not> list_ex is_copy q"
  by (induction q) auto

lemma copies_covered_snoc: "copies_covered q \<Longrightarrow> \<not> is_copy x \<Longrightarrow> copies_covered (q @ [x])"
  by (induction q) auto

lemma copies_covered_event: "\<not> list_ex is_copy q \<Longrightarrow> copies_covered (q @ map Copy cs @ [Event])"
proof (induction q)
  case Nil
  then show ?case by (induction cs) auto
qed auto

lemma until_event_prefix: "until_event q @ drop (length (until_event q)) q = q"
  by (induction q) auto

lemma until_event_rest: "Event \<notin> set (drop (length (until_event q)) q)"
  by (induction q) auto

lemma no_copies_run:
  assumes "\<not> list_ex is_copy q"
  shows "fold (run_stream_op p) q rt = rt" "kernels_served p q rt = kernels_served p' q rt"
  using assms by (induction p q rt rule: kernels_served.induct) auto

lemma wait_pending_inv:
  assumes "pinned_inv w"
  shows "pinned_inv (wait_pending w)" "\<not> list_ex is_copy (pw_queue (wait_pending w))"
    "\<not> pw_pending (wait_pending w)" "pw_last (wait_pending w) = pw_last w" "pw_scratch (wait_pending w) = pw_scratch w"
proof -
  define a b where "a = until_event (pw_queue w)" and "b = drop (length a) (pw_queue w)"
  have split: "pw_queue w = a @ b"
    unfolding a_def b_def by (rule until_event_prefix [symmetric])
  have no_copies: "\<not> list_ex is_copy b"
    using copies_covered_no_event [of b] copies_covered_drop until_event_rest assms
    by (auto simp: a_def b_def pinned_inv_def)
  have covered: "copies_covered b"
    using assms copies_covered_drop by (auto simp: b_def pinned_inv_def)
  have served: "kernels_served (pw_scratch w) b (fold (run_stream_op (pw_scratch w)) a (pw_rt w))"
    using assms by (simp add: pinned_inv_def split kernels_served_append)
  have last: "case pw_last w of None \<Rightarrow> True
      | Some md \<Rightarrow> matches (fold (run_stream_op (pw_scratch w)) b (fold (run_stream_op (pw_scratch w)) a (pw_rt w))) md"
    using assms by (auto simp: pinned_inv_def split split: option.splits)
  have waited: "wait_pending w = (if pw_pending w then w\<lparr>pw_rt := fold (run_stream_op (pw_scratch w)) a (pw_rt w),
      pw_queue := b, pw_pending := False\<rparr> else w)"
    by (simp add: wait_pending_def Let_def a_def b_def)
  show "pinned_inv (wait_pending w)" "\<not> list_ex is_copy (pw_queue (wait_pending w))"
    "\<not> pw_pending (wait_pending w)" "pw_last (wait_pending w) = pw_last w" "pw_scratch (wait_pending w) = pw_scratch w"
    unfolding waited using assms no_copies covered served last by (simp_all add: pinned_inv_def cong: option.case_cong)
qed

text \<open>A buffer no queued copy reads may be overwritten.\<close>

lemma scratch_free:
  assumes "pinned_inv w" "\<not> list_ex is_copy (pw_queue w)"
  shows "pinned_inv (w\<lparr>pw_scratch := p, pw_capacity := n\<rparr>)"
  using assms no_copies_run(1) [OF assms(2)] no_copies_run(2) [OF assms(2), of "pw_scratch w" _ p]
  by (auto simp: pinned_inv_def split: option.splits)

lemma run_meta_copies:
  assumes "length (md_max_sizes md) = length (md_offsets md)"
  shows "matches (fold (run_stream_op (pack_pinned md p)) (meta_copies (length (md_offsets md)) @ [Event]) rt) md"
proof -
  define n where "n = length (md_offsets md)"
  define pk where "pk = pack_pinned md p"
  have words: "pk 0 = md_stride md" "pk (Suc 0) = md_stride_float md" "pk 2 = md_stride_int md"
    by (simp_all add: pk_def pack_pinned_def store_array_def numeral_2_eq_2)
  have "pk (3 + i) = md_offsets md ! i" "pk (3 + n + i) = md_max_sizes md ! i" if "i < n" for i
    using that assms by (simp_all add: pk_def pack_pinned_def store_array_def n_def nth_append numeral_3_eq_3)
  then have "map (\<lambda>i. pk (3 + i)) [0..<n] = md_offsets md" "map (\<lambda>i. pk (3 + n + i)) [0..<n] = md_max_sizes md"
    using assms by (auto simp: n_def intro!: nth_equalityI)
  then show ?thesis
    using words assms
    unfolding n_def [symmetric] pk_def [symmetric]
    by (auto simp: meta_copies_def matches_def store_array_def n_def intro!: nth_equalityI)
qed

lemma publish_inv:
  assumes "pinned_inv w" "length (md_max_sizes md) = length (md_offsets md)"
  shows "pinned_inv (publish_metadata_pinned_async fresh md w)"
proof -
  define w1 where "w1 = (if pw_capacity w < 3 * 8 + 2 * (length (md_offsets md) * 8)
      then (wait_pending w)\<lparr>pw_scratch := fresh, pw_capacity := max (3 * 8 + 2 * (length (md_offsets md) * 8)) (2 * pw_capacity w)\<rparr>
      else w)"
  define w2 where "w2 = wait_pending w1"
  define p where "p = pack_pinned md (pw_scratch w2)"
  have "pinned_inv w1"
    using scratch_free [OF wait_pending_inv(1,2) [OF assms(1)]] assms(1) by (simp add: w1_def)
  then have w2: "pinned_inv w2" "\<not> list_ex is_copy (pw_queue w2)"
    using wait_pending_inv by (simp_all add: w2_def)
  note free = no_copies_run [OF w2(2)]
  have "kernels_served p (pw_queue w2) (pw_rt w2)"
    using w2(1) free(2) by (auto simp: pinned_inv_def)
  moreover have "kernels_served p (meta_copies n @ [Event]) rt" for n rt
    by (simp add: meta_copies_def)
  moreover have "copies_covered (pw_queue w2 @ meta_copies (length (md_offsets md)) @ [Event])"
    unfolding meta_copies_def by (rule copies_covered_event [OF w2(2)])
  moreover have "publish_metadata_pinned_async fresh md w =
      w2\<lparr>pw_scratch := p, pw_queue := pw_queue w2 @ meta_copies (length (md_offsets md)) @ [Event], pw_pending := True, pw_last := Some md\<rparr>"
    unfolding publish_metadata_pinned_async_def Let_def w1_def [symmetric] w2_def [symmetric] p_def [symmetric] ..
  ultimately show ?thesis
    using run_meta_copies [OF assms(2), of "pw_scratch w2" "pw_rt w2"] free(1)
    by (simp add: pinned_inv_def kernels_served_append p_def)
qed

lemma pinned_run_inv:
  assumes "pinned_run w v" "pinned_inv w"
  shows "pinned_inv v"
  using assms
proof (induction rule: pinned_run.induct)
  case (publish w v md fresh)
  then show ?case by (simp add: publish_inv)
next
  case (launch w v md)
  then show ?case by (auto simp: pinned_inv_def kernels_served_append copies_covered_snoc)
next
  case (stream w v x q)
  then show ?case by (cases x) (auto simp: pinned_inv_def split: option.splits)
qed

definition pinned_start :: "adstack_runtime \<Rightarrow> pinned_world" where
  "pinned_start rt = \<lparr>pw_scratch = (\<lambda>_. 0), pw_capacity = 0, pw_pending = False, pw_queue = [], pw_rt = rt, pw_last = None\<rparr>"

lemma kernel_finds_metadata:
  assumes "pinned_run (pinned_start rt) v" "pw_queue v = Kernel md # q"
  shows "matches (pw_rt v) md"
  using pinned_run_inv [OF assms(1)] assms(2) by (simp add: pinned_inv_def pinned_start_def)

end
