(* ===== verification/SamplePublish.thy ===== *)
theory SamplePublish
  imports PinnedMetadata SampleRuns
begin

text \<open>A task with one integer stack, published by a CPU launch, and a short run of the stream.\<close>

definition plain_task :: stack_task where
  "plain_task = \<lparr>sk_key = 500, sk_registry_id = 7,
     sk_allocas = [\<lparr>ai_max_size_compile_time = 4, ai_entry_size_bytes = 8, ai_heap_is_float = False\<rparr>],
     sk_size_exprs = [], sk_bound_expr = None\<rparr>"

definition sized_task :: stack_task where
  "sized_task = plain_task\<lparr>sk_size_exprs := [(3, serialize sample_tree)]\<rparr>"

definition publish_start :: publish_state where
  "publish_start = \<lparr>pb_rt = sample_runtime, pb_metadata_capacity = 0, pb_bytecode_capacity = 0, pb_bytecode_ptr = 0,
     pb_mem = sample_mem,
     pb_heaps = \<lparr>hp_size_float = 0, hp_alloc_float = 0, hp_size_int = 0, hp_alloc_int = 0, hp_fields_cached = False,
       hp_rt_buffer_float = 0, hp_rt_size_float = 0, hp_rt_buffer_int = 0, hp_rt_size_int = 0\<rparr>,
     pb_last_stride_float = 0\<rparr>"

lemma plain_task_fits: "task_fits plain_task" "task_fits sized_task" "sk_allocas plain_task \<noteq> []"
  by (simp_all add: task_fits_def plain_task_def sized_task_def)

definition plain_published :: publish_state where
  "plain_published = publish_start\<lparr>pb_metadata_capacity := 1,
     pb_rt := store_metadata [0] [4] 40 0 40 sample_runtime,
     pb_heaps := (pb_heaps publish_start)\<lparr>hp_fields_cached := True, hp_rt_buffer_int := 7000, hp_rt_size_int := 320,
       hp_alloc_int := 7000, hp_size_int := 320\<rparr>\<rparr>"

lemma plain_publishes:
  "publish_adstack_metadata X64 (\<lambda>_ _. Some 7000) 0 None plain_task 8 [] e None ac publish_start = Inr (plain_published, None, ac)"
  by (simp add: publish_adstack_metadata_def plain_task_def grow_metadata_def publish_start_def publish_on_host_def
      host_max_size_def launch_scope_enter_def launch_scope_leave_def wrap64_def adstack_step_def align_up_8_def u64_def
      grow_heaps_def store_metadata_def ensure_adstack_heap_int_def result_simps plain_published_def Let_def)

lemma plain_cached: "cached_layout plain_task empty_cache"
  by (simp add: cached_layout_def empty_cache_def)

lemma plain_layout:
  "layout_fits (task_headers plain_task) (published_sizes (pb_rt plain_published) (length (sk_allocas plain_task)))"
  by (simp add: layout_fits_def plain_task_def published_sizes_def plain_published_def store_metadata_def store_array_def
      alloca_header_def slice_bytes_def adstack_step_def align_up_8_def u64_def u32_def)

lemma plain_strides:
  "ar_per_thread_stride_float (pb_rt plain_published) = 0" "ar_per_thread_stride_int (pb_rt plain_published) = 40"
  "hp_size_int (pb_heaps plain_published) = 320" "hp_size_float (pb_heaps plain_published) = 0"
  "ar_max_sizes (pb_rt plain_published) 0 = 4"
  by (simp_all add: plain_published_def store_metadata_def store_array_def publish_start_def)

lemma sized_stacks: "stacks_of_task (\<lambda>_. sample_tree) sample_world sample_ctx sized_task [3]"
  using sample_can_evaluate
  by (simp add: stacks_of_task_def sized_task_def plain_task_def)

text \<open>The range maximum of the stack was dispatched, with its value.\<close>

lemma sized_results_right:
  "stack_results_right (env_at sample_world sample_ctx) [(pack_max_reducer_key 7 0 5, 5)] sized_task 0 sample_tree"
  using sample_results_right by (simp add: stack_results_right_def sized_task_def plain_task_def sample_env_at)

lemma sized_allocas: "\<exists>a. sk_allocas sized_task = [a]"
  by (simp add: sized_task_def plain_task_def)

text \<open>The stream can always be drained.\<close>

lemma pinned_run_drains:
  "pinned_run w v \<Longrightarrow> pw_queue v = q @ r \<Longrightarrow> \<exists>v'. pinned_run w v' \<and> pw_queue v' = r"
proof (induction q arbitrary: v)
  case (Cons x q)
  have "pinned_run w (v\<lparr>pw_queue := q @ r, pw_rt := run_stream_op (pw_scratch v) x (pw_rt v)\<rparr>)"
    by (rule pinned_run.stream [OF Cons.prems(1)]) (use Cons.prems(2) in simp)
  then show ?case by (rule Cons.IH) simp
qed auto

definition plain_metadata :: stack_metadata where
  "plain_metadata = \<lparr>md_stride = 40, md_stride_float = 0, md_stride_int = 40, md_offsets = [0], md_max_sizes = [4]\<rparr>"

lemma sample_kernel_runs:
  "\<exists>v. pinned_run (pinned_start sample_runtime) v \<and> pw_queue v = [Kernel plain_metadata]"
proof -
  define v where "v = publish_metadata_pinned_async (\<lambda>_. 0) plain_metadata (pinned_start sample_runtime)"
  have "pinned_run (pinned_start sample_runtime) v"
    unfolding v_def by (rule pinned_run.publish [OF pinned_run.start]) (simp add: plain_metadata_def)
  moreover have "pw_last v = Some plain_metadata"
    by (simp add: v_def publish_metadata_pinned_async_def Let_def)
  ultimately have "pinned_run (pinned_start sample_runtime) (v\<lparr>pw_queue := pw_queue v @ [Kernel plain_metadata]\<rparr>)"
    by (rule pinned_run.launch)
  then show ?thesis by (rule pinned_run_drains) simp
qed

end
