(* ===== verification/ThreadPool.thy ===== *)
theory ThreadPool
  imports Prelude "HOL-Library.Multiset"
begin

text \<open>
  The thread pool behind every parallel loop on the CPU (\<^verbatim>\<open>system/threading.{h,cpp}\<close>). One master
  calls \<^verbatim>\<open>run\<close>; workers sleep on a condition variable, draw task numbers from an atomic counter and
  report back under the mutex. The steps of master and workers interleave. A block under the mutex is one
  step, except that \<^verbatim>\<open>run\<close> writes the head and the tail of the task range one after the other, because a
  worker draws tasks without the mutex.
\<close>

section \<open>The pool\<close>

text \<open>Where a worker stands in \<^verbatim>\<open>target\<close>.\<close>

datatype worker_pc = Asleep | Fetching | InTask int | Leaving | Gone

record worker =
  wk_pc :: worker_pc
  wk_last_timestamp :: nat

datatype master_pc = MIdle | MWriting int | MWaiting

text \<open>
  Workers are known by their \<^verbatim>\<open>thread_id\<close>; one that has not drawn its number yet is asleep. \<open>tp_done\<close>
  records who finished which task of the current run.
\<close>

record thread_pool =
  tp_max_num_threads :: nat
  tp_desired_num_threads :: int
  tp_task_head :: int
  tp_task_tail :: int
  tp_running_threads :: int
  tp_timestamp :: nat
  tp_last_finished :: nat
  tp_started :: bool
  tp_exiting :: bool
  tp_workers :: "nat \<Rightarrow> worker"
  tp_master :: master_pc
  tp_done :: "(nat \<times> int) list"

text \<open>The constructor leaves \<^verbatim>\<open>desired_num_threads\<close> uninitialised: \<open>garbage\<close> is what it happens to be.\<close>

definition new_thread_pool :: "nat \<Rightarrow> int \<Rightarrow> thread_pool" where
  "new_thread_pool n garbage =
     \<lparr>tp_max_num_threads = n, tp_desired_num_threads = garbage, tp_task_head = 0, tp_task_tail = 0,
      tp_running_threads = 0, tp_timestamp = 1, tp_last_finished = 0, tp_started = False, tp_exiting = False,
      tp_workers = \<lambda>_. \<lparr>wk_pc = Asleep, wk_last_timestamp = 0\<rparr>, tp_master = MIdle, tp_done = []\<rparr>"

section \<open>The master\<close>

definition run_begin :: "int \<Rightarrow> int \<Rightarrow> thread_pool \<Rightarrow> thread_pool result" where
  "run_begin splits desired s =
     (let d = min desired (int (tp_max_num_threads s)) in
      guardE (0 < d) AssertFailed
        (Inr (s\<lparr>tp_desired_num_threads := d, tp_started := False, tp_task_head := 0,
                tp_master := MWriting splits, tp_done := []\<rparr>)))"

definition run_publish :: "int \<Rightarrow> thread_pool \<Rightarrow> thread_pool result" where
  "run_publish splits s =
     guardE (Suc (tp_timestamp s) < 2 ^ 62) AssertFailed
       (Inr (s\<lparr>tp_task_tail := splits, tp_timestamp := Suc (tp_timestamp s), tp_master := MWaiting\<rparr>))"

text \<open>The condition of \<^verbatim>\<open>master_cv.wait\<close>, and the assertion after it.\<close>

definition run_may_return :: "thread_pool \<Rightarrow> bool" where
  "run_may_return s \<longleftrightarrow> tp_started s \<and> tp_running_threads s = 0"

definition run_return :: "thread_pool \<Rightarrow> thread_pool result" where
  "run_return s = guardE (tp_task_tail s \<le> tp_task_head s) AssertFailed (Inr (s\<lparr>tp_master := MIdle\<rparr>))"

section \<open>The workers\<close>

definition set_worker :: "nat \<Rightarrow> worker_pc \<Rightarrow> nat \<Rightarrow> thread_pool \<Rightarrow> thread_pool" where
  "set_worker i pc ts s = s\<lparr>tp_workers := (tp_workers s)(i := \<lparr>wk_pc = pc, wk_last_timestamp = ts\<rparr>)\<rparr>"

definition may_wake :: "nat \<Rightarrow> thread_pool \<Rightarrow> bool" where
  "may_wake i s \<longleftrightarrow>
     wk_last_timestamp (tp_workers s i) < tp_timestamp s \<and> int i < tp_desired_num_threads s \<or> tp_exiting s"

definition wake :: "nat \<Rightarrow> thread_pool \<Rightarrow> thread_pool" where
  "wake i s =
     (if tp_exiting s then set_worker i Gone (tp_timestamp s) s
      else if tp_timestamp s \<le> tp_last_finished s then set_worker i Asleep (tp_timestamp s) s
      else (set_worker i Fetching (tp_timestamp s) s)
             \<lparr>tp_started := True, tp_running_threads := tp_running_threads s + 1\<rparr>)"

definition fetch :: "nat \<Rightarrow> thread_pool \<Rightarrow> thread_pool" where
  "fetch i s =
     (let task_id = tp_task_head s in
      (set_worker i (if tp_task_tail s \<le> task_id then Leaving else InTask task_id)
         (wk_last_timestamp (tp_workers s i)) s)\<lparr>tp_task_head := wrap32 (task_id + 1)\<rparr>)"

definition finish_task :: "nat \<Rightarrow> int \<Rightarrow> thread_pool \<Rightarrow> thread_pool" where
  "finish_task i t s =
     (set_worker i Fetching (wk_last_timestamp (tp_workers s i)) s)\<lparr>tp_done := tp_done s @ [(i, t)]\<rparr>"

definition leave :: "nat \<Rightarrow> thread_pool \<Rightarrow> thread_pool" where
  "leave i s =
     (let n = tp_running_threads s - 1; ts = wk_last_timestamp (tp_workers s i) in
      (set_worker i Asleep ts s)
        \<lparr>tp_running_threads := n, tp_last_finished := if n = 0 then ts else tp_last_finished s\<rparr>)"

section \<open>Interleavings\<close>

text \<open>The mutex is free unless the master is between the two writes.\<close>

definition mutex_free :: "thread_pool \<Rightarrow> bool" where
  "mutex_free s \<longleftrightarrow> (case tp_master s of MWriting splits \<Rightarrow> False | _ \<Rightarrow> True)"

inductive tp_step :: "thread_pool \<Rightarrow> thread_pool \<Rightarrow> bool" where
  master_begin: "tp_master s = MIdle \<Longrightarrow> \<not> tp_exiting s \<Longrightarrow> run_begin splits desired s = Inr t \<Longrightarrow>
    max 0 splits + int (tp_max_num_threads s) < 2 ^ 31 \<Longrightarrow> tp_step s t"
| master_publish: "tp_master s = MWriting splits \<Longrightarrow> run_publish splits s = Inr t \<Longrightarrow> tp_step s t"
| master_return: "tp_master s = MWaiting \<Longrightarrow> run_may_return s \<Longrightarrow> run_return s = Inr t \<Longrightarrow> tp_step s t"
| master_exit: "tp_master s = MIdle \<Longrightarrow> tp_step s (s\<lparr>tp_exiting := True\<rparr>)"
| worker_wake: "i < tp_max_num_threads s \<Longrightarrow> wk_pc (tp_workers s i) = Asleep \<Longrightarrow> mutex_free s \<Longrightarrow> may_wake i s \<Longrightarrow>
    tp_step s (wake i s)"
| worker_fetch: "i < tp_max_num_threads s \<Longrightarrow> wk_pc (tp_workers s i) = Fetching \<Longrightarrow> tp_step s (fetch i s)"
| worker_finish: "i < tp_max_num_threads s \<Longrightarrow> wk_pc (tp_workers s i) = InTask t \<Longrightarrow> tp_step s (finish_task i t s)"
| worker_leave: "i < tp_max_num_threads s \<Longrightarrow> wk_pc (tp_workers s i) = Leaving \<Longrightarrow> mutex_free s \<Longrightarrow> tp_step s (leave i s)"

abbreviation tp_reach :: "thread_pool \<Rightarrow> thread_pool \<Rightarrow> bool" where
  "tp_reach \<equiv> tp_step\<^sup>*\<^sup>*"

section \<open>The invariant\<close>

fun active :: "worker \<Rightarrow> bool" where
  "active w = (wk_pc w \<noteq> Asleep \<and> wk_pc w \<noteq> Gone)"

definition task_of :: "worker \<Rightarrow> int multiset" where
  "task_of w = (case wk_pc w of InTask t \<Rightarrow> {#t#} | _ \<Rightarrow> {#})"

text \<open>Workers that found the range used up in the current run.\<close>

definition spent :: "nat \<Rightarrow> worker \<Rightarrow> int" where
  "spent ts w = of_bool (wk_last_timestamp w = ts \<and> (wk_pc w = Leaving \<or> wk_pc w = Asleep))"

text \<open>A quantity summed over the workers, and its part apart from one of them.\<close>

definition over :: "nat \<Rightarrow> (nat \<Rightarrow> worker) \<Rightarrow> (worker \<Rightarrow> 'a::comm_monoid_add) \<Rightarrow> 'a" where
  "over n w f = (\<Sum>i<n. f (w i))"

definition others :: "nat \<Rightarrow> (nat \<Rightarrow> worker) \<Rightarrow> nat \<Rightarrow> (worker \<Rightarrow> 'a::comm_monoid_add) \<Rightarrow> 'a" where
  "others n w i f = (\<Sum>j\<in>{..<n} - {i}. f (w j))"

definition working :: "worker \<Rightarrow> int" where
  "working w = of_bool (active w)"

abbreviation over_workers :: "thread_pool \<Rightarrow> (worker \<Rightarrow> 'a::comm_monoid_add) \<Rightarrow> 'a" where
  "over_workers s f \<equiv> over (tp_max_num_threads s) (tp_workers s) f"

definition waiting_inv :: "thread_pool \<Rightarrow> bool" where
  "waiting_inv s \<longleftrightarrow> \<not> tp_exiting s \<and> 0 < tp_desired_num_threads s \<and>
     tp_desired_num_threads s \<le> int (tp_max_num_threads s) \<and>
     (\<forall>i < tp_max_num_threads s. active (tp_workers s i) \<longrightarrow>
        wk_last_timestamp (tp_workers s i) = tp_timestamp s \<and> int i < tp_desired_num_threads s) \<and>
     (tp_started s \<longrightarrow> (tp_running_threads s = 0 \<longleftrightarrow> tp_last_finished s = tp_timestamp s)) \<and>
     (\<not> tp_started s \<longrightarrow> tp_running_threads s = 0 \<and> tp_last_finished s < tp_timestamp s \<and>
        (\<forall>i < tp_max_num_threads s. wk_last_timestamp (tp_workers s i) < tp_timestamp s)) \<and>
     (tp_last_finished s = tp_timestamp s \<longrightarrow> tp_task_tail s \<le> tp_task_head s) \<and>
     (\<forall>i < tp_max_num_threads s. wk_pc (tp_workers s i) = Leaving \<longrightarrow> tp_task_tail s \<le> tp_task_head s)"

definition tasks_inv :: "thread_pool \<Rightarrow> bool" where
  "tasks_inv s \<longleftrightarrow> 0 \<le> tp_task_head s \<and>
     tp_task_head s \<le> max 0 (tp_task_tail s) + over_workers s (spent (tp_timestamp s)) \<and>
     max 0 (tp_task_tail s) + int (tp_max_num_threads s) < 2 ^ 31 \<and>
     mset (map snd (tp_done s)) + over_workers s task_of = mset [0..min (tp_task_head s) (tp_task_tail s) - 1] \<and>
     (\<forall>(i, t) \<in> set (tp_done s). int i < tp_desired_num_threads s)"

definition pool_inv :: "thread_pool \<Rightarrow> bool" where
  "pool_inv s \<longleftrightarrow> tp_running_threads s = over_workers s working \<and>
     (\<forall>i < tp_max_num_threads s. wk_last_timestamp (tp_workers s i) \<le> tp_timestamp s \<and>
        (wk_pc (tp_workers s i) = Gone \<longrightarrow> tp_exiting s)) \<and>
     tp_last_finished s \<le> tp_timestamp s \<and>
     (case tp_master s of
        MIdle \<Rightarrow> tp_running_threads s = 0 \<and>
          (tp_timestamp s \<le> tp_last_finished s \<or> tp_desired_num_threads s \<le> 0)
      | MWriting splits \<Rightarrow> tp_running_threads s = 0 \<and> tp_task_head s = 0 \<and> \<not> tp_started s \<and> tp_done s = [] \<and>
          max 0 splits + int (tp_max_num_threads s) < 2 ^ 31 \<and> \<not> tp_exiting s \<and> 0 < tp_desired_num_threads s \<and>
          tp_desired_num_threads s \<le> int (tp_max_num_threads s)
      | MWaiting \<Rightarrow> waiting_inv s \<and> tasks_inv s)"

lemma new_thread_pool_inv: "garbage \<le> 0 \<Longrightarrow> pool_inv (new_thread_pool n garbage)"
  by (simp add: pool_inv_def new_thread_pool_def over_def working_def)

section \<open>Every step keeps the invariant\<close>

lemma over_at: "i < n \<Longrightarrow> over n w f = f (w i) + others n w i f"
  unfolding over_def others_def by (rule sum.remove) simp_all

lemma over_upd: "i < n \<Longrightarrow> over n (w(i := x)) f = f x + others n w i f"
  using over_at [of i n "w(i := x)" f] by (simp add: others_def)

lemma working_nonneg: "0 \<le> over n w working" "0 \<le> others n w i working"
  by (simp_all add: over_def others_def working_def sum_nonneg)

lemma no_active:
  assumes "pool_inv s" "tp_running_threads s = 0" "i < tp_max_num_threads s"
  shows "\<not> active (tp_workers s i)"
proof
  assume "active (tp_workers s i)"
  then have "working (tp_workers s i) = 1"
    by (simp add: working_def)
  then show False
    using assms over_at [OF assms(3), of "tp_workers s" working]
      working_nonneg(2) [of "tp_max_num_threads s" "tp_workers s" i]
    by (simp add: pool_inv_def)
qed

lemma active_running:
  assumes "pool_inv s" "i < tp_max_num_threads s" "active (tp_workers s i)"
  shows "tp_master s = MWaiting" "tp_running_threads s \<noteq> 0"
proof -
  show nz: "tp_running_threads s \<noteq> 0"
    using no_active [OF assms(1) _ assms(2)] assms(3) by blast
  then show "tp_master s = MWaiting"
    using assms(1) by (auto simp: pool_inv_def split: master_pc.splits)
qed

lemma set_worker_simps [simp]:
  "tp_workers (set_worker i pc ts s) = (tp_workers s)(i := \<lparr>wk_pc = pc, wk_last_timestamp = ts\<rparr>)"
  "tp_max_num_threads (set_worker i pc ts s) = tp_max_num_threads s"
  "tp_desired_num_threads (set_worker i pc ts s) = tp_desired_num_threads s"
  "tp_task_head (set_worker i pc ts s) = tp_task_head s"
  "tp_task_tail (set_worker i pc ts s) = tp_task_tail s"
  "tp_running_threads (set_worker i pc ts s) = tp_running_threads s"
  "tp_timestamp (set_worker i pc ts s) = tp_timestamp s"
  "tp_last_finished (set_worker i pc ts s) = tp_last_finished s"
  "tp_started (set_worker i pc ts s) = tp_started s"
  "tp_exiting (set_worker i pc ts s) = tp_exiting s"
  "tp_master (set_worker i pc ts s) = tp_master s"
  "tp_done (set_worker i pc ts s) = tp_done s"
  by (simp_all add: set_worker_def)

text \<open>A worker that has not found the range used up leaves room below the bound of the counter.\<close>

lemma fetch_no_wrap:
  assumes "tasks_inv s" "i < tp_max_num_threads s" "wk_pc (tp_workers s i) = Fetching"
  shows "wrap32 (tp_task_head s + 1) = tp_task_head s + 1"
proof -
  let ?n = "tp_max_num_threads s"
  have "others ?n (tp_workers s) i (spent (tp_timestamp s)) \<le> (\<Sum>j\<in>{..<?n} - {i}. 1)"
    unfolding others_def by (rule sum_mono) (simp add: spent_def)
  then have "over_workers s (spent (tp_timestamp s)) \<le> int ?n - 1"
    using over_at [OF assms(2), of "tp_workers s" "spent (tp_timestamp s)"] assms(2,3)
    by (simp add: spent_def)
  then have "tp_task_head s + 1 < 2 ^ 31"
    using assms(1) unfolding tasks_inv_def by linarith
  then show ?thesis
    using assms(1) by (simp add: tasks_inv_def fits32_def)
qed

lemma worker_values [simp]:
  "task_of \<lparr>wk_pc = pc, wk_last_timestamp = l\<rparr> = (case pc of InTask t \<Rightarrow> {#t#} | _ \<Rightarrow> {#})"
  "spent ts \<lparr>wk_pc = pc, wk_last_timestamp = l\<rparr> = of_bool (l = ts \<and> (pc = Leaving \<or> pc = Asleep))"
  "working \<lparr>wk_pc = pc, wk_last_timestamp = l\<rparr> = of_bool (pc \<noteq> Asleep \<and> pc \<noteq> Gone)"
  by (simp_all add: task_of_def spent_def working_def)

lemma worker_at:
  "task_of w = (case wk_pc w of InTask t \<Rightarrow> {#t#} | _ \<Rightarrow> {#})"
  "spent ts w = of_bool (wk_last_timestamp w = ts \<and> (wk_pc w = Leaving \<or> wk_pc w = Asleep))"
  "working w = of_bool (wk_pc w \<noteq> Asleep \<and> wk_pc w \<noteq> Gone)"
  by (simp_all add: task_of_def spent_def working_def)

lemma wake_inv:
  assumes inv: "pool_inv s" and i: "i < tp_max_num_threads s" "wk_pc (tp_workers s i) = Asleep"
    and w: "mutex_free s" "may_wake i s"
  shows "pool_inv (wake i s)"
proof -
  let ?ts = "tp_timestamp s" and ?w = "tp_workers s"
  note at = over_at [OF i(1), of ?w] over_upd [OF i(1), of ?w] worker_at [where w = "?w i"]
  show ?thesis
  proof (cases "tp_master s")
    case MIdle
    then have "tp_exiting s \<or> ?ts \<le> tp_last_finished s"
      using inv w(2) by (auto simp: pool_inv_def may_wake_def)
    then show ?thesis
      using inv i MIdle by (auto simp: pool_inv_def wake_def at)
  next
    case (MWriting splits)
    then show ?thesis
      using w(1) by (simp add: mutex_free_def)
  next
    case MWaiting
    then have inv': "waiting_inv s" "tasks_inv s"
      using inv by (simp_all add: pool_inv_def)
    have less: "wk_last_timestamp (?w i) < ?ts" "int i < tp_desired_num_threads s" "\<not> tp_exiting s"
      using w(2) inv'(1) by (auto simp: may_wake_def waiting_inv_def)
    have tasks: "tasks_inv (wake i s)"
      using inv'(2) less i(2) by (auto simp: tasks_inv_def wake_def at)
    have nn: "0 \<le> tp_running_threads s"
      using inv working_nonneg(1) by (simp add: pool_inv_def)
    have "waiting_inv (wake i s)"
      using inv'(1) i less nn by (auto simp: waiting_inv_def wake_def)
    then show ?thesis
      using inv i MWaiting less(3) tasks by (auto simp: pool_inv_def wake_def at)
  qed
qed

lemma upto_snoc: "0 \<le> j \<Longrightarrow> mset [0..j] = add_mset j (mset [0..j - 1])"
  by (simp add: upto_rec2)

lemma fetch_inv:
  assumes inv: "pool_inv s" and i: "i < tp_max_num_threads s" "wk_pc (tp_workers s i) = Fetching"
  shows "pool_inv (fetch i s)"
proof -
  let ?ts = "tp_timestamp s" and ?w = "tp_workers s"
  note at = over_at [OF i(1), of ?w] over_upd [OF i(1), of ?w] worker_at [where w = "?w i"]
  have MWaiting: "tp_master s = MWaiting" "tp_running_threads s \<noteq> 0"
    using active_running [OF inv i(1)] i(2) by simp_all
  then have inv': "waiting_inv s" "tasks_inv s"
    using inv by (simp_all add: pool_inv_def)
  note wrap = fetch_no_wrap [OF inv'(2) i]
  have last: "wk_last_timestamp (?w i) = ?ts"
    using inv'(1) i by (simp add: waiting_inv_def)
  have waiting: "waiting_inv (fetch i s)"
    using inv'(1) i last MWaiting(2) by (auto simp: waiting_inv_def fetch_def Let_def wrap)
  have spent: "0 \<le> others (tp_max_num_threads s) ?w i (spent ?ts)"
    by (simp add: others_def spent_def sum_nonneg)
  have "tasks_inv (fetch i s)"
  proof (cases "tp_task_tail s \<le> tp_task_head s")
    case True
    then show ?thesis
      using inv'(2) i last by (auto simp: tasks_inv_def fetch_def Let_def wrap min_absorb2 at)
  next
    case False
    then have "min (tp_task_head s) (tp_task_tail s) = tp_task_head s"
      "min (tp_task_head s + 1) (tp_task_tail s) = tp_task_head s + 1"
      by simp_all
    then show ?thesis
      using inv'(2) i last False spent by (auto simp: tasks_inv_def fetch_def Let_def wrap upto_snoc at)
  qed
  then show ?thesis
    using inv i MWaiting last waiting by (auto simp: pool_inv_def fetch_def Let_def at)
qed

lemma finish_inv:
  assumes inv: "pool_inv s" and i: "i < tp_max_num_threads s" "wk_pc (tp_workers s i) = InTask t"
  shows "pool_inv (finish_task i t s)"
proof -
  let ?w = "tp_workers s"
  note at = over_at [OF i(1), of ?w] over_upd [OF i(1), of ?w] worker_at [where w = "?w i"]
  have MWaiting: "tp_master s = MWaiting"
    using active_running [OF inv i(1)] i(2) by simp
  then have inv': "waiting_inv s" "tasks_inv s"
    using inv by (simp_all add: pool_inv_def)
  have waiting: "waiting_inv (finish_task i t s)"
    using inv'(1) i by (auto simp: waiting_inv_def finish_task_def)
  have "int i < tp_desired_num_threads s"
    using inv'(1) i by (simp add: waiting_inv_def)
  then have "tasks_inv (finish_task i t s)"
    using inv'(2) i by (auto simp: tasks_inv_def finish_task_def at)
  then show ?thesis
    using inv i MWaiting waiting by (auto simp: pool_inv_def finish_task_def at)
qed

lemma leave_inv:
  assumes inv: "pool_inv s" and i: "i < tp_max_num_threads s" "wk_pc (tp_workers s i) = Leaving"
  shows "pool_inv (leave i s)"
proof -
  let ?w = "tp_workers s"
  note at = over_at [OF i(1), of ?w] over_upd [OF i(1), of ?w] worker_at [where w = "?w i"]
  have MWaiting: "tp_master s = MWaiting" "tp_running_threads s \<noteq> 0"
    using active_running [OF inv i(1)] i(2) by simp_all
  then have inv': "waiting_inv s" "tasks_inv s"
    using inv by (simp_all add: pool_inv_def)
  then have facts: "wk_last_timestamp (?w i) = tp_timestamp s" "tp_task_tail s \<le> tp_task_head s" "tp_started s"
      "tp_last_finished s \<noteq> tp_timestamp s"
    using i MWaiting(2) by (auto simp: waiting_inv_def)
  have waiting: "waiting_inv (leave i s)"
    using inv'(1) i facts MWaiting(2) by (auto simp: waiting_inv_def leave_def Let_def)
  have "tasks_inv (leave i s)"
    using inv'(2) i facts by (auto simp: tasks_inv_def leave_def Let_def at)
  then show ?thesis
    using inv i MWaiting waiting facts by (auto simp: pool_inv_def leave_def Let_def at)
qed

lemma idle_task: "\<not> active w \<Longrightarrow> task_of w = {#}"
  by (auto simp: task_of_def)

lemma no_tasks:
  assumes "pool_inv s" "tp_running_threads s = 0"
  shows "over_workers s task_of = {#}"
  unfolding over_def by (rule sum.neutral) (use no_active [OF assms] idle_task in blast)

lemma begin_inv:
  assumes "pool_inv s" "tp_master s = MIdle" "\<not> tp_exiting s" "run_begin splits desired s = Inr t"
    and "max 0 splits + int (tp_max_num_threads s) < 2 ^ 31"
  shows "pool_inv t"
  using assms by (auto simp: run_begin_def Let_def guardE_def pool_inv_def split: if_splits)

lemma run_publish_inv:
  assumes "pool_inv s" "tp_master s = MWriting splits" "run_publish splits s = Inr t"
  shows "pool_inv t"
proof -
  have t: "t = s\<lparr>tp_task_tail := splits, tp_timestamp := Suc (tp_timestamp s), tp_master := MWaiting\<rparr>"
    using assms(3) by (simp add: run_publish_def guardE_def split: if_splits)
  have r: "tp_running_threads s = 0"
    using assms(1,2) by (simp add: pool_inv_def)
  have idle: "\<not> active (tp_workers s i)" if "i < tp_max_num_threads s" for i
    using no_active [OF assms(1) r that] .
  have not_leaving: "wk_pc (tp_workers s i) \<noteq> Leaving" if "i < tp_max_num_threads s" for i
    using idle [OF that] by auto
  have "over_workers s task_of = {#}"
    by (rule no_tasks [OF assms(1) r])
  moreover have "0 \<le> over_workers s (spent (Suc (tp_timestamp s)))"
    by (simp add: over_def spent_def sum_nonneg)
  ultimately show ?thesis
    using assms(1,2) idle not_leaving by (auto simp: t pool_inv_def waiting_inv_def tasks_inv_def le_imp_less_Suc simp del: active.simps)
qed

lemma return_inv:
  assumes "pool_inv s" "tp_master s = MWaiting" "run_may_return s" "run_return s = Inr t"
  shows "pool_inv t"
  using assms by (auto simp: run_return_def run_may_return_def guardE_def pool_inv_def waiting_inv_def split: if_splits)

lemma tp_step_inv: "tp_step s t \<Longrightarrow> pool_inv s \<Longrightarrow> pool_inv t"
proof (induction rule: tp_step.induct)
  case (master_exit s)
  then show ?case
    by (simp add: pool_inv_def)
qed (blast intro: begin_inv run_publish_inv return_inv wake_inv fetch_inv finish_inv leave_inv)+

lemma tp_reach_inv:
  assumes "tp_reach (new_thread_pool n garbage) s" "garbage \<le> 0"
  shows "pool_inv s"
  using assms by (induction rule: rtranclp_induct) (auto intro: new_thread_pool_inv tp_step_inv)

section \<open>What a run does\<close>

text \<open>When the wait of the master ends, no worker is in a task any more and every task ran once.\<close>

lemma run_complete:
  assumes inv: "pool_inv s" and m: "tp_master s = MWaiting" "run_may_return s"
  shows "run_return s = Inr (s\<lparr>tp_master := MIdle\<rparr>)"
    and "mset (map snd (tp_done s)) = mset [0..tp_task_tail s - 1]"
    and "\<forall>(i, t) \<in> set (tp_done s). int i < tp_desired_num_threads s"
proof -
  have inv': "waiting_inv s" "tasks_inv s"
    using inv m(1) by (simp_all add: pool_inv_def)
  then have head: "tp_task_tail s \<le> tp_task_head s"
    using m(2) by (simp add: waiting_inv_def run_may_return_def)
  then show "run_return s = Inr (s\<lparr>tp_master := MIdle\<rparr>)"
    by (simp add: run_return_def guardE_def)
  have "over_workers s task_of = {#}"
    using no_tasks [OF inv] m(2) by (simp add: run_may_return_def)
  then show "mset (map snd (tp_done s)) = mset [0..tp_task_tail s - 1]"
    using inv'(2) head by (simp add: tasks_inv_def min_absorb2)
  show "\<forall>(i, t) \<in> set (tp_done s). int i < tp_desired_num_threads s"
    using inv'(2) by (simp add: tasks_inv_def)
qed


text \<open>
  What is left to do in a run: \<open>4\<close> for a worker that has not looked at it yet, less for the stages it
  goes through, and \<open>2\<close> for each task not drawn.
\<close>

definition effort :: "nat \<Rightarrow> worker \<Rightarrow> int" where
  "effort ts w = (case wk_pc w of Asleep \<Rightarrow> if wk_last_timestamp w < ts then 4 else 0
     | Fetching \<Rightarrow> 2 | InTask t \<Rightarrow> 3 | Leaving \<Rightarrow> 1 | Gone \<Rightarrow> 0)"

definition run_effort :: "thread_pool \<Rightarrow> int" where
  "run_effort s = over_workers s (effort (tp_timestamp s)) + 2 * max 0 (tp_task_tail s - tp_task_head s) +
     of_bool (tp_master s = MWaiting)"

lemma run_effort_nonneg: "0 \<le> run_effort s"
proof -
  have "0 \<le> over_workers s (effort (tp_timestamp s))"
    by (simp add: over_def effort_def sum_nonneg split: worker_pc.splits)
  then show ?thesis
    by (simp add: run_effort_def)
qed

lemma effort_value [simp]:
  "effort ts \<lparr>wk_pc = pc, wk_last_timestamp = l\<rparr> = (case pc of Asleep \<Rightarrow> if l < ts then 4 else 0
     | Fetching \<Rightarrow> 2 | InTask t \<Rightarrow> 3 | Leaving \<Rightarrow> 1 | Gone \<Rightarrow> 0)"
  by (simp add: effort_def)

lemma run_step_decreases:
  assumes inv: "pool_inv s" and m: "tp_master s = MWaiting" and "tp_step s t"
  shows "run_effort t < run_effort s"
proof -
  have inv': "waiting_inv s" "tasks_inv s"
    using inv m by (simp_all add: pool_inv_def)
  let ?w = "tp_workers s"
  have at: "over_workers s f = f (?w i) + others (tp_max_num_threads s) ?w i f"
    "over (tp_max_num_threads s) (?w(i := x)) f = f x + others (tp_max_num_threads s) ?w i f"
    if "i < tp_max_num_threads s" for i x and f :: "worker \<Rightarrow> int"
    using over_at [OF that] over_upd [OF that] by blast+
  from assms(3) show ?thesis
  proof cases
    case (worker_wake i)
    then have "wk_last_timestamp (?w i) < tp_timestamp s" "\<not> tp_exiting s"
      using inv'(1) by (auto simp: may_wake_def waiting_inv_def)
    then show ?thesis
      using worker_wake m by (simp add: run_effort_def wake_def at effort_def)
  next
    case (worker_fetch i)
    note wrap = fetch_no_wrap [OF inv'(2) worker_fetch(2,3)]
    show ?thesis
      using worker_fetch m by (simp add: run_effort_def fetch_def Let_def at effort_def wrap)
  next
    case (worker_finish i u)
    then show ?thesis
      using m by (simp add: run_effort_def finish_task_def at effort_def)
  next
    case (worker_leave i)
    moreover have "wk_last_timestamp (?w i) = tp_timestamp s"
      using inv'(1) worker_leave by (simp add: waiting_inv_def)
    ultimately show ?thesis
      using m by (simp add: run_effort_def leave_def Let_def at effort_def)
  next
    case master_return
    then show ?thesis
      using m by (auto simp: run_return_def guardE_def run_effort_def split: if_splits)
  qed (use m in simp_all)
qed

lemma run_not_stuck:
  assumes inv: "pool_inv s" and m: "tp_master s = MWaiting"
  shows "\<exists>t. tp_step s t"
proof -
  have inv': "waiting_inv s"
    using inv m by (simp add: pool_inv_def)
  consider (quiet) "run_may_return s" | (busy) i where "i < tp_max_num_threads s" "active (tp_workers s i)"
    | (fresh) "\<not> tp_started s"
  proof (cases "tp_running_threads s = 0")
    case True
    then show thesis
      using that(1,3) by (auto simp: run_may_return_def)
  next
    case False
    then have "over_workers s working \<noteq> 0"
      using inv by (simp add: pool_inv_def)
    then obtain i where "i < tp_max_num_threads s" "working (tp_workers s i) \<noteq> 0"
      by (metis lessThan_iff over_def sum.neutral)
    then show thesis
      using that(2) by (auto simp: working_def simp del: active.simps)
  qed
  then show ?thesis
  proof cases
    case quiet
    then show ?thesis
      using run_complete(1) [OF inv m] tp_step.master_return [OF m] by blast
  next
    case busy
    have free: "mutex_free s"
      by (simp add: mutex_free_def m)
    show ?thesis
      using busy tp_step.worker_fetch [OF busy(1)] tp_step.worker_finish [OF busy(1)]
        tp_step.worker_leave [OF busy(1) _ free]
      by (cases "wk_pc (tp_workers s i)") auto
  next
    case fresh
    then have "0 < tp_max_num_threads s" "may_wake 0 s" "tp_running_threads s = 0" "\<not> tp_exiting s"
      using inv' by (auto simp: waiting_inv_def may_wake_def)
    moreover have "wk_pc (tp_workers s 0) = Asleep"
      using no_active [OF inv calculation(3,1)] inv calculation(1,4) by (auto simp: pool_inv_def)
    ultimately show ?thesis
      using tp_step.worker_wake [of 0 s] m by (auto simp: mutex_free_def)
  qed
qed


section \<open>The first run\<close>

text \<open>
  A worker that wakes before the first \<^verbatim>\<open>run\<close>, because the uninitialised number of threads exceeds its own,
  may draw a task between the two writes of \<^verbatim>\<open>run\<close> and find it beyond the old tail: the task is lost.
\<close>

text \<open>The states of a pool with one worker.\<close>

definition solo_pool ::
  "int \<Rightarrow> (nat \<times> int) list \<Rightarrow> int \<Rightarrow> int \<Rightarrow> int \<Rightarrow> nat \<Rightarrow> nat \<Rightarrow> bool \<Rightarrow> worker_pc \<Rightarrow> nat \<Rightarrow> master_pc \<Rightarrow> thread_pool" where
  "solo_pool d dn h t r ts finished started pc l m =
     \<lparr>tp_max_num_threads = 1, tp_desired_num_threads = d, tp_task_head = h, tp_task_tail = t,
      tp_running_threads = r, tp_timestamp = ts, tp_last_finished = finished, tp_started = started,
      tp_exiting = False, tp_workers = (\<lambda>_. \<lparr>wk_pc = Asleep, wk_last_timestamp = 0\<rparr>)
        (0 := \<lparr>wk_pc = pc, wk_last_timestamp = l\<rparr>), tp_master = m, tp_done = dn\<rparr>"

lemma solo_start: "new_thread_pool 1 d = solo_pool d [] 0 0 0 1 0 False Asleep 0 MIdle"
  by (simp add: new_thread_pool_def solo_pool_def fun_upd_idem)

lemma solo_wake:
  "finished < ts \<Longrightarrow> l < ts \<Longrightarrow> 0 < d \<Longrightarrow> m = MIdle \<or> m = MWaiting \<Longrightarrow> r' = r + 1 \<Longrightarrow>
   tp_step (solo_pool d dn h t r ts finished b Asleep l m) (solo_pool d dn h t r' ts finished True Fetching ts m)"
  using tp_step.worker_wake [of 0 "solo_pool d dn h t r ts finished b Asleep l m"]
  by (auto simp: solo_pool_def wake_def set_worker_def may_wake_def mutex_free_def)

lemma solo_fetch:
  "h' = h + 1 \<Longrightarrow> fits32 h' \<Longrightarrow> pc = (if t \<le> h then Leaving else InTask h) \<Longrightarrow>
   tp_step (solo_pool d dn h t r ts finished b Fetching l m) (solo_pool d dn h' t r ts finished b pc l m)"
  using tp_step.worker_fetch [of 0 "solo_pool d dn h t r ts finished b Fetching l m"]
  by (simp add: solo_pool_def fetch_def set_worker_def)

lemma solo_finish:
  "tp_step (solo_pool d dn h t r ts finished b (InTask k) l m) (solo_pool d (dn @ [(0, k)]) h t r ts finished b Fetching l m)"
  using tp_step.worker_finish [of 0 "solo_pool d dn h t r ts finished b (InTask k) l m" k]
  by (simp add: solo_pool_def finish_task_def set_worker_def)

lemma solo_leave:
  "tp_step (solo_pool d dn h t 1 ts finished b Leaving l MWaiting) (solo_pool d dn h t 0 ts l b Asleep l MWaiting)"
  using tp_step.worker_leave [of 0 "solo_pool d dn h t 1 ts finished b Leaving l MWaiting"]
  by (simp add: solo_pool_def leave_def set_worker_def mutex_free_def)

lemma solo_begin:
  "tp_step (solo_pool d dn h t r ts finished b pc l MIdle) (solo_pool 1 [] 0 t r ts finished False pc l (MWriting 1))"
  by (rule tp_step.master_begin [where splits = 1 and desired = 1])
    (simp_all add: solo_pool_def run_begin_def guardE_def)

lemma solo_publish:
  "ts' = Suc ts \<Longrightarrow> ts' < 2 ^ 62 \<Longrightarrow>
   tp_step (solo_pool d dn h t r ts finished b pc l (MWriting n)) (solo_pool d dn h n r ts' finished b pc l MWaiting)"
  by (rule tp_step.master_publish [where splits = n])
    (simp_all add: solo_pool_def run_publish_def guardE_def)

lemma solo_return:
  "t \<le> h \<Longrightarrow> tp_step (solo_pool d dn h t 0 ts finished True pc l MWaiting) (solo_pool d dn h t 0 ts finished True pc l MIdle)"
  by (rule tp_step.master_return)
    (simp_all add: solo_pool_def run_may_return_def run_return_def guardE_def)

lemma race_reach: "tp_reach (new_thread_pool 1 1) (solo_pool 1 [] 2 1 0 2 2 True Asleep 2 MIdle)"
proof -
  note [trans] = rtranclp.rtrancl_into_rtrancl
  have "tp_reach (new_thread_pool 1 1) (solo_pool 1 [] 0 0 0 1 0 False Asleep 0 MIdle)"
    by (simp only: solo_start rtranclp.rtrancl_refl)
  also have "tp_step \<dots> (solo_pool 1 [] 0 0 1 1 0 True Fetching 1 MIdle)"
    by (rule solo_wake) simp_all
  also have "tp_step \<dots> (solo_pool 1 [] 0 0 1 1 0 False Fetching 1 (MWriting 1))"
    by (rule solo_begin)
  also have "tp_step \<dots> (solo_pool 1 [] 1 0 1 1 0 False Leaving 1 (MWriting 1))"
    by (rule solo_fetch) (simp_all add: fits32_def)
  also have "tp_step \<dots> (solo_pool 1 [] 1 1 1 2 0 False Leaving 1 MWaiting)"
    by (rule solo_publish) simp_all
  also have "tp_step \<dots> (solo_pool 1 [] 1 1 0 2 1 False Asleep 1 MWaiting)"
    by (rule solo_leave)
  also have "tp_step \<dots> (solo_pool 1 [] 1 1 1 2 1 True Fetching 2 MWaiting)"
    by (rule solo_wake) simp_all
  also have "tp_step \<dots> (solo_pool 1 [] 2 1 1 2 1 True Leaving 2 MWaiting)"
    by (rule solo_fetch) (simp_all add: fits32_def)
  also have "tp_step \<dots> (solo_pool 1 [] 2 1 0 2 2 True Asleep 2 MWaiting)"
    by (rule solo_leave)
  also have "tp_step \<dots> (solo_pool 1 [] 2 1 0 2 2 True Asleep 2 MIdle)"
    by (rule solo_return) simp
  finally show ?thesis .
qed

text \<open>The same run on a pool that starts with no threads wanted does its task.\<close>

lemma solo_reach: "tp_reach (new_thread_pool 1 0) (solo_pool 1 [(0, 0)] 2 1 0 2 2 True Asleep 2 MWaiting)"
proof -
  note [trans] = rtranclp.rtrancl_into_rtrancl
  have "tp_reach (new_thread_pool 1 0) (solo_pool 0 [] 0 0 0 1 0 False Asleep 0 MIdle)"
    by (simp only: solo_start rtranclp.rtrancl_refl)
  also have "tp_step \<dots> (solo_pool 1 [] 0 0 0 1 0 False Asleep 0 (MWriting 1))"
    by (rule solo_begin)
  also have "tp_step \<dots> (solo_pool 1 [] 0 1 0 2 0 False Asleep 0 MWaiting)"
    by (rule solo_publish) simp_all
  also have "tp_step \<dots> (solo_pool 1 [] 0 1 1 2 0 True Fetching 2 MWaiting)"
    by (rule solo_wake) simp_all
  also have "tp_step \<dots> (solo_pool 1 [] 1 1 1 2 0 True (InTask 0) 2 MWaiting)"
    by (rule solo_fetch) (simp_all add: fits32_def)
  also have "tp_step \<dots> (solo_pool 1 ([] @ [(0, 0)]) 1 1 1 2 0 True Fetching 2 MWaiting)"
    by (rule solo_finish)
  also have "tp_step \<dots> (solo_pool 1 [(0, 0)] 2 1 1 2 0 True Leaving 2 MWaiting)"
    unfolding append.simps by (rule solo_fetch) (simp_all add: fits32_def)
  also have "tp_step \<dots> (solo_pool 1 [(0, 0)] 2 1 0 2 2 True Asleep 2 MWaiting)"
    by (rule solo_leave)
  finally show ?thesis .
qed

end
