(* ===== verification/PoolNotify.thy ===== *)
theory PoolNotify
  imports ThreadPool
begin

text \<open>
  The condition variables of the thread pool. In \<open>ThreadPool\<close> a thread goes on as soon as the condition it
  waits for holds; here a thread that found its condition false is blocked until somebody notifies it, and
  notifications are steps of their own: \<^verbatim>\<open>slave_cv.notify_all\<close> after the master has left the mutex,
  \<^verbatim>\<open>master_cv.notify_one\<close> by the last worker after it has. Wake-ups without a notification are left out; they
  could only let a blocked thread look at its condition once more.
\<close>

section \<open>Waiting and notifying\<close>

text \<open>
  Who is blocked in \<^verbatim>\<open>slave_cv.wait\<close> and \<^verbatim>\<open>master_cv.wait\<close>, whether the master still has to call
  \<^verbatim>\<open>notify_all\<close>, and which workers still have to call \<^verbatim>\<open>notify_one\<close>.
\<close>

record notified_pool =
  np_pool :: thread_pool
  np_slaves_blocked :: "nat set"
  np_master_blocked :: bool
  np_notify_slaves :: bool
  np_notify_master :: "nat set"

definition new_notified_pool :: "nat \<Rightarrow> int \<Rightarrow> notified_pool" where
  "new_notified_pool n garbage =
     \<lparr>np_pool = new_thread_pool n garbage, np_slaves_blocked = {}, np_master_blocked = False,
      np_notify_slaves = False, np_notify_master = {}\<rparr>"

text \<open>The condition is tested when \<^verbatim>\<open>wait\<close> is called and after a notification.\<close>

definition slave_cv_wait :: "nat \<Rightarrow> notified_pool \<Rightarrow> notified_pool" where
  "slave_cv_wait i s =
     (if may_wake i (np_pool s) then s\<lparr>np_pool := wake i (np_pool s)\<rparr>
      else s\<lparr>np_slaves_blocked := insert i (np_slaves_blocked s)\<rparr>)"

definition master_cv_wait :: "notified_pool \<Rightarrow> notified_pool result" where
  "master_cv_wait s =
     (if run_may_return (np_pool s) then map_sum id (\<lambda>p. s\<lparr>np_pool := p\<rparr>) (run_return (np_pool s))
      else Inr (s\<lparr>np_master_blocked := True\<rparr>))"

definition slave_cv_notify_all :: "notified_pool \<Rightarrow> notified_pool" where
  "slave_cv_notify_all s = s\<lparr>np_slaves_blocked := {}, np_notify_slaves := False\<rparr>"

definition master_cv_notify_one :: "nat \<Rightarrow> notified_pool \<Rightarrow> notified_pool" where
  "master_cv_notify_one i s = s\<lparr>np_master_blocked := False, np_notify_master := np_notify_master s - {i}\<rparr>"

text \<open>The steps of the pool after which somebody has to notify.\<close>

definition publish_notifying :: "int \<Rightarrow> notified_pool \<Rightarrow> notified_pool result" where
  "publish_notifying splits s =
     map_sum id (\<lambda>p. s\<lparr>np_pool := p, np_notify_slaves := True\<rparr>) (run_publish splits (np_pool s))"

definition leave_notifying :: "nat \<Rightarrow> notified_pool \<Rightarrow> notified_pool" where
  "leave_notifying i s =
     (let p = leave i (np_pool s); all_finished = (tp_running_threads p = 0) in
      s\<lparr>np_pool := p, np_notify_master := (if all_finished then insert i (np_notify_master s) else np_notify_master s)\<rparr>)"

definition exit_notifying :: "notified_pool \<Rightarrow> notified_pool" where
  "exit_notifying s = s\<lparr>np_pool := (np_pool s)\<lparr>tp_exiting := True\<rparr>, np_notify_slaves := True\<rparr>"

inductive np_step :: "notified_pool \<Rightarrow> notified_pool \<Rightarrow> bool" where
  n_begin: "tp_master (np_pool s) = MIdle \<Longrightarrow> \<not> tp_exiting (np_pool s) \<Longrightarrow> run_begin splits desired (np_pool s) = Inr p \<Longrightarrow>
    max 0 splits + int (tp_max_num_threads (np_pool s)) < 2 ^ 31 \<Longrightarrow> np_step s (s\<lparr>np_pool := p\<rparr>)"
| n_publish: "tp_master (np_pool s) = MWriting splits \<Longrightarrow> publish_notifying splits s = Inr t \<Longrightarrow> np_step s t"
| n_notify_all: "np_notify_slaves s \<Longrightarrow> np_step s (slave_cv_notify_all s)"
| n_master_wait: "tp_master (np_pool s) = MWaiting \<Longrightarrow> \<not> np_notify_slaves s \<Longrightarrow> \<not> np_master_blocked s \<Longrightarrow>
    master_cv_wait s = Inr t \<Longrightarrow> np_step s t"
| n_exit: "tp_master (np_pool s) = MIdle \<Longrightarrow> np_step s (exit_notifying s)"
| n_slave_wait: "i < tp_max_num_threads (np_pool s) \<Longrightarrow> wk_pc (tp_workers (np_pool s) i) = Asleep \<Longrightarrow>
    i \<notin> np_slaves_blocked s \<Longrightarrow> i \<notin> np_notify_master s \<Longrightarrow> mutex_free (np_pool s) \<Longrightarrow> np_step s (slave_cv_wait i s)"
| n_fetch: "i < tp_max_num_threads (np_pool s) \<Longrightarrow> wk_pc (tp_workers (np_pool s) i) = Fetching \<Longrightarrow>
    np_step s (s\<lparr>np_pool := fetch i (np_pool s)\<rparr>)"
| n_finish: "i < tp_max_num_threads (np_pool s) \<Longrightarrow> wk_pc (tp_workers (np_pool s) i) = InTask t \<Longrightarrow>
    np_step s (s\<lparr>np_pool := finish_task i t (np_pool s)\<rparr>)"
| n_leave: "i < tp_max_num_threads (np_pool s) \<Longrightarrow> wk_pc (tp_workers (np_pool s) i) = Leaving \<Longrightarrow> mutex_free (np_pool s) \<Longrightarrow>
    np_step s (leave_notifying i s)"
| n_notify_one: "i \<in> np_notify_master s \<Longrightarrow> np_step s (master_cv_notify_one i s)"

abbreviation np_reach :: "notified_pool \<Rightarrow> notified_pool \<Rightarrow> bool" where
  "np_reach \<equiv> np_step\<^sup>*\<^sup>*"

section \<open>Nobody sleeps through a notification\<close>

lemmas np_defs = slave_cv_wait_def master_cv_wait_def slave_cv_notify_all_def master_cv_notify_one_def publish_notifying_def
  leave_notifying_def exit_notifying_def Let_def

text \<open>Each step is one of the pool, a notification, or a thread that blocks.\<close>

lemma np_step_pool [consumes 1, case_names pool notify_all notify_one master_blocks slave_blocks]:
  assumes "np_step s t"
  obtains "tp_step (np_pool s) (np_pool t)"
  | "np_notify_slaves s" "t = slave_cv_notify_all s"
  | i where "i \<in> np_notify_master s" "t = master_cv_notify_one i s"
  | "\<not> np_master_blocked s" "t = s\<lparr>np_master_blocked := True\<rparr>"
  | i where "i < tp_max_num_threads (np_pool s)" "i \<notin> np_slaves_blocked s" "t = s\<lparr>np_slaves_blocked := insert i (np_slaves_blocked s)\<rparr>"
  using assms
proof cases
  case (n_begin splits desired p)
  then show thesis
    using that(1) tp_step.master_begin by auto
next
  case (n_publish splits)
  then show thesis
    using that(1) tp_step.master_publish [of "np_pool s" splits]
    by (cases "run_publish splits (np_pool s)") (auto simp: publish_notifying_def)
next
  case n_master_wait
  then show thesis
    using that(1,4) tp_step.master_return [of "np_pool s"]
    by (cases "run_return (np_pool s)") (auto simp: master_cv_wait_def split: if_splits)
next
  case (n_slave_wait i)
  then show thesis
    using that(1) that(5) [of i] tp_step.worker_wake [of i "np_pool s"] by (cases "may_wake i (np_pool s)") (simp_all add: slave_cv_wait_def)
next
  case (n_leave i)
  then show thesis
    using that(1) tp_step.worker_leave [of i "np_pool s"] by (simp add: leave_notifying_def Let_def)
next
  case n_exit
  then show thesis
    using that(1) tp_step.master_exit [of "np_pool s"] by (simp add: exit_notifying_def)
qed (use that tp_step.worker_fetch tp_step.worker_finish in auto)

text \<open>
  A worker that is blocked although it may go on, or a master that is, has a notification coming. The master
  changes what workers wait for while it holds the mutex.
\<close>

definition np_inv :: "notified_pool \<Rightarrow> bool" where
  "np_inv s \<longleftrightarrow> pool_inv (np_pool s) \<and>
     (\<forall>i \<in> np_slaves_blocked s. i < tp_max_num_threads (np_pool s) \<and> wk_pc (tp_workers (np_pool s) i) = Asleep \<and>
        (may_wake i (np_pool s) \<longrightarrow> np_notify_slaves s \<or> \<not> mutex_free (np_pool s))) \<and>
     (np_master_blocked s \<longrightarrow> tp_master (np_pool s) = MWaiting \<and> (run_may_return (np_pool s) \<longrightarrow> np_notify_master s \<noteq> {})) \<and>
     np_notify_master s \<subseteq> {..<tp_max_num_threads (np_pool s)}"

lemma new_notified_inv: "garbage \<le> 0 \<Longrightarrow> np_inv (new_notified_pool n garbage)"
  by (simp add: np_inv_def new_notified_pool_def new_thread_pool_inv)

text \<open>The steps of a worker change nobody else's condition.\<close>

lemma worker_step_others:
  assumes "j \<noteq> i" "p' \<in> {wake i p, fetch i p, finish_task i t p, leave i p}"
  shows "tp_workers p' j = tp_workers p j" "may_wake j p' = may_wake j p"
  using assms by (auto simp: wake_def fetch_def finish_task_def leave_def may_wake_def Let_def split: if_splits)

lemma worker_step_frame:
  assumes "p' \<in> {wake i p, fetch i p, finish_task i t p, leave i p}"
  shows "tp_max_num_threads p' = tp_max_num_threads p" "tp_master p' = tp_master p" "mutex_free p' = mutex_free p"
  using assms by (auto simp: wake_def fetch_def finish_task_def leave_def mutex_free_def Let_def split: if_splits)

lemma np_inv_worker:
  assumes inv: "np_inv s" and p: "p \<in> {wake i (np_pool s), fetch i (np_pool s), finish_task i t (np_pool s), leave i (np_pool s)}"
    and i: "i \<notin> np_slaves_blocked s" "pool_inv p" "N \<subseteq> {..<tp_max_num_threads p}"
    and m: "np_master_blocked s \<Longrightarrow> run_may_return p \<Longrightarrow> N \<noteq> {}"
  shows "np_inv (s\<lparr>np_pool := p, np_notify_master := N\<rparr>)"
proof -
  have "j \<noteq> i" if "j \<in> np_slaves_blocked s" for j
    using that i(1) by blast
  then show ?thesis
    using inv worker_step_others [OF _ p] worker_step_frame [OF p] i(2,3) m unfolding np_inv_def by auto
qed

lemma np_inv_task_step:
  assumes inv: "np_inv s" and i: "wk_pc (tp_workers (np_pool s) i) \<noteq> Asleep"
    and p: "p \<in> {fetch i (np_pool s), finish_task i u (np_pool s)}" "pool_inv p"
  shows "np_inv (s\<lparr>np_pool := p\<rparr>)"
proof -
  have "run_may_return p = run_may_return (np_pool s)" "tp_max_num_threads p = tp_max_num_threads (np_pool s)"
    using p(1) by (auto simp: fetch_def finish_task_def run_may_return_def Let_def)
  moreover have "i \<notin> np_slaves_blocked s" "np_notify_master s \<subseteq> {..<tp_max_num_threads (np_pool s)}"
    "np_master_blocked s \<Longrightarrow> run_may_return (np_pool s) \<Longrightarrow> np_notify_master s \<noteq> {}"
    using inv i unfolding np_inv_def by blast+
  moreover have "p \<in> {wake i (np_pool s), fetch i (np_pool s), finish_task i u (np_pool s), leave i (np_pool s)}"
    using p(1) by blast
  ultimately have "np_inv (s\<lparr>np_pool := p, np_notify_master := np_notify_master s\<rparr>)"
    using np_inv_worker [OF inv _ _ p(2), where i = i and t = u and N = "np_notify_master s"] by simp
  then show ?thesis
    by simp
qed

lemma np_step_inv:
  assumes "np_step s t" "np_inv s"
  shows "np_inv t"
proof -
  have inv: "pool_inv (np_pool s)" "np_notify_master s \<subseteq> {..<tp_max_num_threads (np_pool s)}"
    and quiet: "np_master_blocked s \<Longrightarrow> tp_master (np_pool s) = MWaiting \<and> (run_may_return (np_pool s) \<longrightarrow> np_notify_master s \<noteq> {})"
    and asleep: "\<And>i. i \<in> np_slaves_blocked s \<Longrightarrow> wk_pc (tp_workers (np_pool s) i) = Asleep"
    using assms(2) by (auto simp: np_inv_def)
  have p: "pool_inv (np_pool t)"
    using assms(1) inv(1) by (cases rule: np_step_pool) (auto simp: np_defs intro: tp_step_inv)
  have running: "0 \<le> tp_running_threads (np_pool s)"
    using inv(1) working_nonneg(1) by (simp add: pool_inv_def)
  from assms(1) show ?thesis
  proof cases
    case (n_begin splits desired p)
    then have "\<not> mutex_free p" "\<not> np_master_blocked s" "tp_workers p = tp_workers (np_pool s)"
      "tp_max_num_threads p = tp_max_num_threads (np_pool s)"
      using quiet by (auto simp: run_begin_def Let_def guardE_def mutex_free_def split: if_splits)
    then show ?thesis
      using n_begin p assms(2) by (simp add: np_inv_def)
  next
    case (n_publish splits)
    then show ?thesis
      using p assms(2) quiet
      by (auto simp: np_inv_def publish_notifying_def run_publish_def guardE_def map_sum_def split: if_splits sum.splits)
  next
    case n_notify_all
    then show ?thesis
      using assms(2) by (simp add: np_inv_def slave_cv_notify_all_def)
  next
    case n_master_wait
    then show ?thesis
      using p assms(2)
      by (auto simp: np_inv_def master_cv_wait_def run_return_def guardE_def may_wake_def mutex_free_def split: if_splits)
  next
    case n_exit
    then show ?thesis
      using p assms(2) quiet by (auto simp: np_inv_def exit_notifying_def)
  next
    case (n_slave_wait i)
    show ?thesis
    proof (cases "may_wake i (np_pool s)")
      case True
      then have t: "t = s\<lparr>np_pool := wake i (np_pool s), np_notify_master := np_notify_master s\<rparr>"
        using n_slave_wait by (simp add: slave_cv_wait_def)
      have "np_notify_master s \<noteq> {}" if "np_master_blocked s" "run_may_return (wake i (np_pool s))"
        using that quiet running by (auto simp: wake_def run_may_return_def split: if_splits)
      moreover have "pool_inv (wake i (np_pool s))" "i \<notin> np_slaves_blocked s"
        using p n_slave_wait by (simp_all add: t)
      ultimately show ?thesis
        unfolding t using assms(2) inv(2) worker_step_frame(1) [of "wake i (np_pool s)" i "np_pool s"]
        by (intro np_inv_worker [where i = i]) auto
    next
      case False
      then show ?thesis
        using n_slave_wait assms(2) by (auto simp: np_inv_def slave_cv_wait_def)
    qed
  next
    case (n_fetch i)
    then show ?thesis
      using np_inv_task_step [OF assms(2), of i "fetch i (np_pool s)"] p by simp
  next
    case (n_finish i u)
    then show ?thesis
      using np_inv_task_step [OF assms(2), of i "finish_task i u (np_pool s)" u] p by simp
  next
    case (n_leave i)
    let ?p = "leave i (np_pool s)" and ?N = "if tp_running_threads (leave i (np_pool s)) = 0 then insert i (np_notify_master s) else np_notify_master s"
    have t: "t = s\<lparr>np_pool := ?p, np_notify_master := ?N\<rparr>"
      using n_leave by (simp add: leave_notifying_def Let_def)
    have "?N \<noteq> {}" if "run_may_return ?p"
      using that by (auto simp: run_may_return_def)
    moreover have "pool_inv ?p" "i \<notin> np_slaves_blocked s"
      using p asleep [of i] n_leave by (simp_all add: t) auto
    moreover have "?N \<subseteq> {..<tp_max_num_threads ?p}"
      using inv(2) n_leave(2) worker_step_frame(1) [of ?p i "np_pool s"] by auto
    ultimately show ?thesis
      unfolding t using assms(2) by (intro np_inv_worker [where i = i]) auto
  next
    case (n_notify_one i)
    then show ?thesis
      using assms(2) by (auto simp: np_inv_def master_cv_notify_one_def)
  qed
qed

lemma np_reach_inv:
  assumes "np_reach (new_notified_pool n garbage) s" "garbage \<le> 0"
  shows "np_inv s"
  using assms by (induction rule: rtranclp_induct) (auto intro: new_notified_inv np_step_inv)

section \<open>The run ends\<close>

lemma np_not_stuck:
  assumes inv: "np_inv s" and m: "tp_master (np_pool s) = MWaiting"
  shows "\<exists>t. np_step s t"
proof (cases "np_notify_slaves s \<or> np_notify_master s \<noteq> {}")
  case True
  then show ?thesis
    using n_notify_all n_notify_one by blast
next
  case False
  have free: "mutex_free (np_pool s)"
    by (simp add: mutex_free_def m)
  have blocked: "\<not> may_wake i (np_pool s)" if "i \<in> np_slaves_blocked s" for i
    using inv that False free unfolding np_inv_def by blast
  have master: "\<not> run_may_return (np_pool s)" if "np_master_blocked s"
    using inv that False by (simp add: np_inv_def)
  have "pool_inv (np_pool s)"
    using inv by (simp add: np_inv_def)
  then obtain t where "tp_step (np_pool s) t"
    using run_not_stuck m by blast
  then show ?thesis
  proof cases
    case master_return
    then have "master_cv_wait s = Inr (s\<lparr>np_pool := t\<rparr>)" "\<not> np_master_blocked s"
      using master by (auto simp: master_cv_wait_def)
    then show ?thesis
      using n_master_wait m False by blast
  next
    case (worker_wake i)
    then have "i \<notin> np_slaves_blocked s"
      using blocked by blast
    then show ?thesis
      using n_slave_wait worker_wake False by blast
  next
    case (worker_finish i u)
    then show ?thesis
      using n_finish by blast
  next
    case (worker_leave i)
    then show ?thesis
      using n_leave by blast
  qed (use m n_fetch in auto)
qed

text \<open>What is left to do of a run: the work of the pool, then notifications and tests of conditions.\<close>

definition np_effort :: "notified_pool \<Rightarrow> nat \<times> nat" where
  "np_effort s =
     (nat (run_effort (np_pool s)),
      of_bool (np_notify_slaves s) * Suc (tp_max_num_threads (np_pool s)) +
      card ({..<tp_max_num_threads (np_pool s)} - np_slaves_blocked s) + 2 * card (np_notify_master s) + of_bool (\<not> np_master_blocked s))"

lemma np_step_decreases:
  assumes inv: "np_inv s" and m: "tp_master (np_pool s) = MWaiting" and step: "np_step s t"
  shows "(np_effort t, np_effort s) \<in> less_than <*lex*> less_than"
proof -
  let ?n = "tp_max_num_threads (np_pool s)"
  have pool: "pool_inv (np_pool s)" and fin: "finite (np_notify_master s)"
    using inv finite_subset by (auto simp: np_inv_def)
  from step show ?thesis
  proof (cases rule: np_step_pool)
    case pool
    then show ?thesis
      using run_step_decreases [OF \<open>pool_inv _\<close> m, of "np_pool t"] run_effort_nonneg [of "np_pool t"] by (simp add: np_effort_def)
  next
    case notify_all
    then show ?thesis
      by (simp add: np_effort_def slave_cv_notify_all_def)
  next
    case (notify_one i)
    then have "card (np_notify_master s - {i}) < card (np_notify_master s)"
      using fin by (intro psubset_card_mono) auto
    then show ?thesis
      using notify_one by (simp add: np_effort_def master_cv_notify_one_def)
  next
    case master_blocks
    then show ?thesis
      by (simp add: np_effort_def)
  next
    case (slave_blocks i)
    then have "card ({..<?n} - insert i (np_slaves_blocked s)) < card ({..<?n} - np_slaves_blocked s)"
      by (intro psubset_card_mono) auto
    then show ?thesis
      using slave_blocks by (simp add: np_effort_def)
  qed
qed

lemma np_run_ends:
  assumes "np_inv s"
  shows "\<not> (\<exists>f. f 0 = s \<and> (\<forall>k. tp_master (np_pool (f k)) = MWaiting \<and> np_step (f k) (f (Suc k))))"
proof
  assume "\<exists>f. f 0 = s \<and> (\<forall>k. tp_master (np_pool (f k)) = MWaiting \<and> np_step (f k) (f (Suc k)))"
  then obtain f where f: "f 0 = s" "\<And>k. tp_master (np_pool (f k)) = MWaiting" "\<And>k. np_step (f k) (f (Suc k))"
    by blast
  have "np_inv (f k)" for k
    by (induction k) (use f assms np_step_inv in auto)
  then have "(np_effort (f (Suc k)), np_effort (f k)) \<in> less_than <*lex*> less_than" for k
    using np_step_decreases f(2,3) by blast
  then have "\<exists>g. \<forall>k. (g (Suc k), g k) \<in> less_than <*lex*> less_than"
    by (intro exI [of _ "np_effort \<circ> f"]) simp
  then show False
    using wf_lex_prod [OF wf_less_than wf_less_than] unfolding wf_iff_no_infinite_down_chain by blast
qed

section \<open>A pool with one worker\<close>

text \<open>The first run has been published while the worker was blocked.\<close>

definition blocked_pool :: notified_pool where
  "blocked_pool =
     \<lparr>np_pool = solo_pool 1 [] 0 1 0 2 0 False Asleep 0 MWaiting, np_slaves_blocked = {0}, np_master_blocked = False,
      np_notify_slaves = True, np_notify_master = {}\<rparr>"

lemma blocked_pool_reach: "np_reach (new_notified_pool 1 0) blocked_pool"
proof -
  let ?s = "\<lambda>p b n. \<lparr>np_pool = p, np_slaves_blocked = b, np_master_blocked = False, np_notify_slaves = n, np_notify_master = {}\<rparr>"
  let ?p = "solo_pool 0 [] 0 0 0 1 0 False Asleep 0 MIdle" and ?q = "solo_pool 1 [] 0 0 0 1 0 False Asleep 0 (MWriting 1)"
  have new: "new_notified_pool 1 0 = ?s ?p {} False"
    by (simp only: new_notified_pool_def solo_start)
  have "np_step (?s ?p {} False) (?s ?p {0} False)"
    using n_slave_wait [of 0 "?s ?p {} False"] by (simp add: slave_cv_wait_def solo_pool_def may_wake_def mutex_free_def)
  moreover have "np_step (?s ?p {0} False) (?s ?q {0} False)"
    using n_begin [of "?s ?p {0} False" 1 1 ?q] by (simp add: solo_pool_def run_begin_def guardE_def)
  moreover have "np_step (?s ?q {0} False) blocked_pool"
    by (rule n_publish [where splits = 1]) (simp_all add: blocked_pool_def solo_pool_def publish_notifying_def run_publish_def guardE_def)
  ultimately show ?thesis
    unfolding new by (meson converse_rtranclp_into_rtranclp r_into_rtranclp)
qed

end
