(* ===== verification/ParallelFor.thy ===== *)
theory ParallelFor
  imports Prelude "HOL-Library.Multiset" "HOL-Library.Signed_Division"
begin

text \<open>
  The loops a kernel is made of (\<^verbatim>\<open>runtime/llvm/runtime_module/runtime.cpp\<close>): range-for and mesh-for on the
  thread pool of the CPU and on a GPU grid, and struct-for over an element list. A loop is modelled by the
  events it causes: the thread-local prologue, the body at an index, the epilogue.
\<close>

section \<open>Strided loops\<close>

text \<open>\<^verbatim>\<open>for (i = start; i < end; i += n)\<close>.\<close>

function strided_int :: "int \<Rightarrow> int \<Rightarrow> int \<Rightarrow> int list" where
  "strided_int n e i = (if i < e \<and> 0 < n then i # strided_int n e (i + n) else [])"
  by pat_completeness auto

termination strided_int
  by (relation "measure (\<lambda>(n, e, i). nat (e - i))") auto

declare strided_int.simps [simp del]

lemma set_strided_int: "0 < n \<Longrightarrow> set (strided_int n e i) = {x. i \<le> x \<and> x < e \<and> n dvd x - i}"
proof (induction n e i rule: strided_int.induct)
  case (1 n e i)
  show ?case
  proof (cases "i < e")
    case True
    have "(x = i \<or> i + n \<le> x \<and> n dvd x - (i + n)) \<longleftrightarrow> (i \<le> x \<and> n dvd x - i)" for x
    proof -
      have d: "n dvd x - (i + n) \<longleftrightarrow> n dvd x - i"
        by (metis add.commute diff_diff_eq dvd_add_right_iff dvd_refl diff_add_cancel)
      moreover have "i + n \<le> x" if "n dvd x - i" "i \<le> x" "x \<noteq> i"
        using zdvd_imp_le [OF that(1)] that(2,3) by simp
      ultimately show ?thesis
        using \<open>0 < n\<close> by auto
    qed
    then show ?thesis
      using 1 True by (auto simp: strided_int.simps [of n e i])
  qed (use 1 in \<open>auto simp: strided_int.simps [of n e i]\<close>)
qed

lemma distinct_strided_int: "distinct (strided_int n e i)"
proof (induction n e i rule: strided_int.induct)
  case (1 n e i)
  then show ?case
    by (auto simp: strided_int.simps [of n e i] set_strided_int)
qed

lemma distinct_concat_map:
  assumes "distinct xs" "\<And>x. x \<in> set xs \<Longrightarrow> distinct (f x)"
    and "\<And>x y v. x \<in> set xs \<Longrightarrow> y \<in> set xs \<Longrightarrow> v \<in> set (f x) \<Longrightarrow> v \<in> set (f y) \<Longrightarrow> x = y"
  shows "distinct (concat (map f xs))"
  using assms
proof (induction xs)
  case (Cons x xs)
  then show ?case
    by (auto simp: disjoint_iff)
qed simp

text \<open>The loops of \<open>n\<close> threads that start one apart and take strides of \<open>n\<close> share out the range.\<close>

lemma grid_shares_range:
  assumes "0 < n"
  shows "mset (concat (map (\<lambda>t. strided_int (int n) e (b + int t)) [0..<n])) = mset [b..e - 1]"
proof -
  let ?f = "\<lambda>t. strided_int (int n) e (b + int t)"
  have n: "0 < int n"
    using assms by simp
  have own: "t = nat ((x - b) mod int n)" if "x \<in> set (?f t)" "t < n" for x t
  proof -
    have "int n dvd (x - b) - int t"
      using that(1) by (simp add: set_strided_int [OF n] algebra_simps)
    then have "(x - b) mod int n = int t mod int n"
      by (simp add: mod_eq_dvd_iff)
    then show ?thesis
      using that(2) by simp
  qed
  have "distinct (concat (map ?f [0..<n]))"
    by (rule distinct_concat_map) (use own in \<open>auto simp: distinct_strided_int\<close>)
  moreover have "set (concat (map ?f [0..<n])) = set [b..e - 1]"
  proof (intro equalityI subsetI)
    fix x
    assume x: "x \<in> set [b..e - 1]"
    let ?t = "nat ((x - b) mod int n)"
    have t: "int ?t = (x - b) mod int n" "?t < n"
      using n by (simp_all add: nat_less_iff)
    moreover have "(x - b) mod int n \<le> x - b"
      using x n by (simp add: zmod_le_nonneg_dividend)
    moreover have "int n dvd x - (b + (x - b) mod int n)"
      by (metis diff_diff_eq dvd_minus_mod)
    ultimately have "x \<in> set (?f ?t)"
      using x by (simp add: set_strided_int [OF n])
    then have "\<exists>t \<in> set [0..<n]. x \<in> set (?f t)"
      using t(2) by (intro bexI [of _ ?t]) simp_all
    then show "x \<in> set (concat (map ?f [0..<n]))"
      by simp
  qed (auto simp: set_strided_int [OF n])
  ultimately show ?thesis
    by (metis set_eq_iff_mset_eq_distinct distinct_upto)
qed

section \<open>Range-for\<close>

datatype loop_event = Prologue | Body int | Epilogue | PatchPrologue int | PatchEpilogue int

text \<open>
  What a thread did so far decides whether its context reports a failed assertion: \<open>fails\<close> is asked with
  the events up to and including the last one.
\<close>

type_synonym fail_check = "loop_event list \<Rightarrow> bool"

definition emit :: "fail_check \<Rightarrow> loop_event \<Rightarrow> loop_event list \<Rightarrow> loop_event list \<times> bool" where
  "emit fails ev tr = (tr @ [ev], fails (tr @ [ev]))"

record range_task_context =
  rg_prologue :: bool
  rg_epilogue :: bool
  rg_begin :: int
  rg_end :: int
  rg_body_loop_size :: int
  rg_step :: int

text \<open>The two inner loops: ascending below \<open>e\<close>, descending down to \<open>e\<close>.\<close>

function body_up :: "fail_check \<Rightarrow> loop_event list \<Rightarrow> int \<Rightarrow> int \<Rightarrow> loop_event list \<times> bool" where
  "body_up fails tr i e =
     (if i < e then (case emit fails (Body i) tr of (tr', failed) \<Rightarrow>
        if failed then (tr', True) else body_up fails tr' (i + 1) e)
      else (tr, False))"
  by pat_completeness auto

termination body_up
  by (relation "measure (\<lambda>(f, tr, i, e). nat (e - i))") auto

function body_down :: "fail_check \<Rightarrow> loop_event list \<Rightarrow> int \<Rightarrow> int \<Rightarrow> loop_event list \<times> bool" where
  "body_down fails tr i e =
     (if e \<le> i then (case emit fails (Body i) tr of (tr', failed) \<Rightarrow>
        if failed then (tr', True) else body_down fails tr' (i - 1) e)
      else (tr, False))"
  by pat_completeness auto

termination body_down
  by (relation "measure (\<lambda>(f, tr, i, e). nat (i - e + 1))") auto

declare body_up.simps [simp del] body_down.simps [simp del]

definition cpu_parallel_range_for_task :: "fail_check \<Rightarrow> range_task_context \<Rightarrow> int \<Rightarrow> loop_event list \<times> bool" where
  "cpu_parallel_range_for_task fails rc task_id =
     (case (if rg_prologue rc then emit fails Prologue [] else ([], False)) of (tr, failed) \<Rightarrow>
        if failed then (tr, True)
        else
          (case (if rg_step rc = 1 then
                   (let body_loop_start = wrap32 (rg_begin rc + wrap32 (task_id * rg_body_loop_size rc));
                        body_loop_end = min (wrap32 (body_loop_start + rg_body_loop_size rc)) (rg_end rc)
                    in body_up fails tr body_loop_start body_loop_end)
                 else if rg_step rc = -1 then
                   (let body_loop_start = wrap32 (rg_end rc - wrap32 (task_id * rg_body_loop_size rc));
                        body_loop_end = max (rg_begin rc) (wrap32 (body_loop_start - rg_body_loop_size rc))
                    in body_down fails tr (wrap32 (body_loop_start - 1)) body_loop_end)
                 else (tr, False)) of
             (tr1, failed1) \<Rightarrow>
               if \<not> failed1 \<and> rg_epilogue rc then emit fails Epilogue tr1 else (tr1, failed1)))"

text \<open>The tasks handed to the pool: their context and how many there are.\<close>

definition cpu_parallel_range_for ::
  "int \<Rightarrow> int \<Rightarrow> int \<Rightarrow> int \<Rightarrow> bool \<Rightarrow> bool \<Rightarrow> (range_task_context \<times> int) result" where
  "cpu_parallel_range_for begin_idx end_idx step block_dim prologue epilogue =
     (if step \<noteq> 1 \<and> step \<noteq> -1 then Inl ProcessExit
      else Inr (\<lparr>rg_prologue = prologue, rg_epilogue = epilogue, rg_begin = begin_idx, rg_end = end_idx,
                 rg_body_loop_size = block_dim, rg_step = step\<rparr>,
                wrap32 (wrap32 (wrap32 (end_idx - begin_idx) + block_dim) - 1) sdiv block_dim))"

text \<open>One thread of the grid; with the wrap of \<^verbatim>\<open>idx\<close> the loop may not end.\<close>

partial_function (option) gpu_range_loop :: "int \<Rightarrow> int \<Rightarrow> int \<Rightarrow> int list option" where
  "gpu_range_loop stride e idx =
     (if idx < e then Option.bind (gpu_range_loop stride e (wrap32 (idx + stride))) (\<lambda>xs. Some (idx # xs))
      else Some [])"

definition gpu_parallel_range_for ::
  "bool \<Rightarrow> bool \<Rightarrow> int \<Rightarrow> int \<Rightarrow> int \<Rightarrow> int \<Rightarrow> int \<Rightarrow> int \<Rightarrow> loop_event list option" where
  "gpu_parallel_range_for prologue epilogue grid_dim block_dim block_idx thread_idx begin_idx end_idx =
     (case gpu_range_loop (wrap32 (block_dim * grid_dim)) end_idx
             (wrap32 (wrap32 (thread_idx + wrap32 (block_dim * block_idx)) + begin_idx)) of
        None \<Rightarrow> None
      | Some xs \<Rightarrow> Some ((if prologue then [Prologue] else []) @ map Body xs @ (if epilogue then [Epilogue] else [])))"

text \<open>\<^verbatim>\<open>get_cpu_per_worker_block_start_index\<close> (\<^verbatim>\<open>cpu_range_for.h\<close>).\<close>

definition get_cpu_per_worker_block_start_index :: "int \<Rightarrow> int \<Rightarrow> int \<Rightarrow> int \<Rightarrow> int \<Rightarrow> int" where
  "get_cpu_per_worker_block_start_index range_begin range_end num_blocks min_block_size boundary_index =
     (let count = max 0 (range_end - range_begin);
          block_size = max ((count + num_blocks - 1) sdiv num_blocks) min_block_size;
          boundary = wrap64 (range_begin + wrap64 (block_size * boundary_index))
      in wrap32 (min range_end boundary))"

section \<open>Mesh-for\<close>

text \<open>The events of one patch and whether they end the loop.\<close>

definition mesh_patch :: "fail_check \<Rightarrow> bool \<Rightarrow> bool \<Rightarrow> int \<Rightarrow> loop_event list \<Rightarrow> loop_event list \<times> bool" where
  "mesh_patch fails prologue epilogue idx tr =
     (case (if prologue then emit fails (PatchPrologue idx) tr else (tr, False)) of (tr1, failed1) \<Rightarrow>
        if failed1 then (tr1, True)
        else (case emit fails (Body idx) tr1 of (tr2, failed2) \<Rightarrow>
          if failed2 then (tr2, True)
          else if epilogue then emit fails (PatchEpilogue idx) tr2 else (tr2, False)))"

function mesh_loop :: "fail_check \<Rightarrow> bool \<Rightarrow> bool \<Rightarrow> loop_event list \<Rightarrow> int \<Rightarrow> int \<Rightarrow> loop_event list \<times> bool" where
  "mesh_loop fails prologue epilogue tr idx e =
     (if idx < e then (case mesh_patch fails prologue epilogue idx tr of (tr', failed) \<Rightarrow>
        if failed then (tr', True) else mesh_loop fails prologue epilogue tr' (idx + 1) e)
      else (tr, False))"
  by pat_completeness auto

termination mesh_loop
  by (relation "measure (\<lambda>(f, p, q, tr, i, e). nat (e - i))") auto

declare mesh_loop.simps [simp del]

definition cpu_parallel_mesh_for_task :: "fail_check \<Rightarrow> bool \<Rightarrow> bool \<Rightarrow> int \<Rightarrow> int \<Rightarrow> int \<Rightarrow> loop_event list \<times> bool" where
  "cpu_parallel_mesh_for_task fails prologue epilogue num_patches block_size task_id =
     (let block_start = wrap32 (task_id * block_size); block_end = min (wrap32 (block_start + block_size)) num_patches
      in mesh_loop fails prologue epilogue [] block_start block_end)"

text \<open>The block size, adaptive when the kernel asks for 0, and the number of tasks.\<close>

definition cpu_parallel_mesh_for :: "int \<Rightarrow> int \<Rightarrow> int \<Rightarrow> int \<times> int" where
  "cpu_parallel_mesh_for num_threads num_patches block_dim =
     (let bd = (if block_dim = 0 then min 512 (max 1 (num_patches sdiv wrap32 (num_threads * 32))) else block_dim)
      in (bd, wrap32 (wrap32 (num_patches + bd) - 1) sdiv bd))"

definition gpu_parallel_mesh_for :: "bool \<Rightarrow> bool \<Rightarrow> int \<Rightarrow> int \<Rightarrow> int \<Rightarrow> loop_event list option" where
  "gpu_parallel_mesh_for prologue epilogue grid_dim block_idx num_patches =
     map_option (\<lambda>xs. concat (map (\<lambda>idx. (if prologue then [PatchPrologue idx] else []) @ [Body idx] @
       (if epilogue then [PatchEpilogue idx] else [])) xs)) (gpu_range_loop grid_dim num_patches block_idx)"

section \<open>Every index once\<close>

fun bodies :: "loop_event list \<Rightarrow> int list" where
  "bodies [] = []"
| "bodies (Body i # tr) = i # bodies tr"
| "bodies (ev # tr) = bodies tr"

lemma bodies_append [simp]: "bodies (tr @ tr') = bodies tr @ bodies tr'"
  by (induction tr rule: bodies.induct) auto

lemma bodies_Body [simp]: "bodies (map Body xs) = xs"
  by (induction xs) auto

abbreviation no_fail :: fail_check where
  "no_fail \<equiv> \<lambda>_. False"

lemma body_up_no_fail: "body_up no_fail tr i e = (tr @ map Body [i..e - 1], False)"
proof (induction "nat (e - i)" arbitrary: tr i)
  case 0
  then show ?case
    by (simp add: body_up.simps [of _ tr i e])
next
  case (Suc n)
  then have "[i..e - 1] = i # [i + 1..e - 1]" "n = nat (e - (i + 1))"
    by (simp_all add: upto_rec1)
  then show ?case
    using Suc.hyps(1) [of "i + 1" "tr @ [Body i]"] Suc.hyps(2)
    by (simp add: body_up.simps [of _ tr i e] emit_def)
qed

lemma body_down_no_fail: "body_down no_fail tr i e = (tr @ map Body (rev [e..i]), False)"
proof (induction "nat (i - e + 1)" arbitrary: tr i)
  case 0
  then show ?case
    by (simp add: body_down.simps [of _ tr i e])
next
  case (Suc n)
  then have "[e..i] = [e..i - 1] @ [i]" "n = nat (i - 1 - e + 1)"
    by (simp_all add: upto_rec2)
  then show ?case
    using Suc.hyps(1) [of "i - 1" "tr @ [Body i]"] Suc.hyps(2)
    by (simp add: body_down.simps [of _ tr i e] emit_def)
qed

text \<open>A failing body cuts the loop short: the indices run are a prefix.\<close>

lemma body_up_prefix: "\<exists>k. bodies (fst (body_up fails tr i e)) = bodies tr @ take k [i..e - 1]"
proof (induction fails tr i e rule: body_up.induct)
  case (1 fails tr i e)
  show ?case
  proof (cases "i < e")
    case True
    then have up: "[i..e - 1] = i # [i + 1..e - 1]"
      by (simp add: upto_rec1)
    show ?thesis
    proof (cases "fails (tr @ [Body i])")
      case True
      then show ?thesis
        using \<open>i < e\<close> by (intro exI [of _ 1]) (simp add: body_up.simps [of fails tr i e] emit_def up)
    next
      case False
      then obtain k where "bodies (fst (body_up fails (tr @ [Body i]) (i + 1) e)) = bodies (tr @ [Body i]) @ take k [i + 1..e - 1]"
        using 1 \<open>i < e\<close> by (metis (no_types, lifting) emit_def)
      then show ?thesis
        using \<open>i < e\<close> False by (intro exI [of _ "Suc k"]) (simp add: body_up.simps [of fails tr i e] emit_def up)
    qed
  qed (simp add: body_up.simps [of fails tr i e])
qed


lemma mset_concat_order:
  assumes "mset ts = mset us"
  shows "mset (concat (map f ts)) = mset (concat (map f us))"
proof -
  have "mset (concat (map f ts)) = sum_mset (image_mset (\<lambda>t. mset (f t)) (mset ts))" for ts
    by (induction ts) auto
  then show ?thesis
    using assms by simp
qed

lemma chunks_up:
  assumes "0 \<le> bs"
  shows "concat (map (\<lambda>k. [b + int k * bs..min (b + int k * bs + bs) e - 1]) [0..<m]) = [b..min (b + int m * bs) e - 1]"
proof (induction m)
  case (Suc m)
  let ?c = "b + int m * bs"
  have "[b..min ?c e - 1] @ [?c..min (?c + bs) e - 1] = [b..min (?c + bs) e - 1]"
  proof (cases "?c \<le> e")
    case True
    show ?thesis
    proof (cases "?c = min (?c + bs) e")
      case False
      then have "?c \<le> min (?c + bs) e - 1" "b \<le> ?c"
        using True assms by (simp_all add: min_def split: if_splits)
      then show ?thesis
        using upto_split1 [of b ?c "min (?c + bs) e - 1"] True by (simp add: min_absorb1)
    qed (use True in simp)
  next
    case False
    then show ?thesis
      using assms by (simp add: min_def)
  qed
  then show ?case
    using Suc by (simp add: algebra_simps)
qed simp

lemma chunks_down:
  assumes "0 \<le> bs"
  shows "concat (map (\<lambda>k. rev [max b (e - int k * bs - bs)..e - int k * bs - 1]) [0..<m]) =
    rev [max b (e - int m * bs)..e - 1]"
proof (induction m)
  case (Suc m)
  let ?c = "e - int m * bs"
  have "[max b (?c - bs)..?c - 1] @ [max b ?c..e - 1] = [max b (?c - bs)..e - 1]"
  proof (cases "b \<le> ?c")
    case True
    have "?c \<le> e"
      using assms by simp
    then show ?thesis
      using True upto_split1 [of "max b (?c - bs)" ?c "e - 1"] assms by (cases "?c = e") auto
  next
    case False
    then show ?thesis
      using assms by (simp add: max_def)
  qed
  then have "rev [max b ?c..e - 1] @ rev [max b (?c - bs)..?c - 1] = rev [max b (?c - bs)..e - 1]"
    by (metis rev_append)
  then show ?case
    using Suc by (simp add: algebra_simps)
qed simp

definition range_fits :: "int \<Rightarrow> int \<Rightarrow> int \<Rightarrow> bool" where
  "range_fits b e bs \<longleftrightarrow> 0 < bs \<and> fits32 b \<and> fits32 e \<and> fits32 (e - b) \<and> fits32 (e - b + bs) \<and>
     fits32 (e + bs) \<and> fits32 (b - bs)"

text \<open>The number of blocks of \<open>bs\<close> indices in a range.\<close>

lemma sdiv_nonneg: "0 \<le> (a::int) \<Longrightarrow> 0 < b \<Longrightarrow> a sdiv b = a div b"
  by (cases "a = 0") (simp_all add: signed_divide_int_def)

lemma block_count:
  fixes d bs :: int
  assumes "0 < bs"
  shows "d \<le> 0 \<Longrightarrow> (d + bs - 1) sdiv bs \<le> 0"
    and "0 < d \<Longrightarrow> 0 \<le> (d + bs - 1) sdiv bs \<and> d \<le> (d + bs - 1) sdiv bs * bs"
    and "0 < d \<Longrightarrow> k < (d + bs - 1) sdiv bs \<Longrightarrow> k * bs < d"
proof -
  show "(d + bs - 1) sdiv bs \<le> 0" if "d \<le> 0"
  proof (cases "0 \<le> d + bs - 1")
    case True
    then show ?thesis
      using that assms by (simp add: sdiv_nonneg)
  next
    case False
    then show ?thesis
      using assms by (simp add: signed_divide_int_def pos_imp_zdiv_nonneg_iff)
  qed
  assume d: "0 < d"
  then have q: "(d + bs - 1) sdiv bs = (d + bs - 1) div bs"
    using assms by (simp add: sdiv_nonneg)
  have split: "d + bs - 1 = (d + bs - 1) div bs * bs + (d + bs - 1) mod bs" "(d + bs - 1) mod bs < bs"
      "0 \<le> (d + bs - 1) mod bs"
    using assms by simp_all
  have "0 \<le> (d + bs - 1) div bs"
    using d assms by (simp add: pos_imp_zdiv_nonneg_iff)
  then show "0 \<le> (d + bs - 1) sdiv bs \<and> d \<le> (d + bs - 1) sdiv bs * bs"
    using split unfolding q by linarith
  assume "k < (d + bs - 1) sdiv bs"
  then have "(k + 1) * bs \<le> (d + bs - 1) div bs * bs"
    using assms unfolding q by (intro mult_right_mono) simp_all
  then have "k * bs + bs \<le> (d + bs - 1) div bs * bs"
    by (simp add: algebra_simps)
  then show "k * bs < d"
    using split by linarith
qed

lemma task_indices:
  assumes fit: "range_fits b e bs" and k: "0 \<le> k" "k * bs < e - b"
    and rc: "rc = \<lparr>rg_prologue = p, rg_epilogue = q, rg_begin = b, rg_end = e, rg_body_loop_size = bs, rg_step = step\<rparr>"
  shows "step = 1 \<Longrightarrow> bodies (fst (cpu_parallel_range_for_task no_fail rc k)) = [b + k * bs..min (b + k * bs + bs) e - 1]"
    and "step = -1 \<Longrightarrow> bodies (fst (cpu_parallel_range_for_task no_fail rc k)) = rev [max b (e - k * bs - bs)..e - k * bs - 1]"
proof -
  have "0 \<le> k * bs" "0 < bs"
    using k(1) fit by (simp_all add: range_fits_def)
  then have "fits32 (k * bs)" "fits32 (b + k * bs)" "fits32 (b + k * bs + bs)" "fits32 (e - k * bs)"
    "fits32 (e - k * bs - bs)" "fits32 (e - k * bs - 1)"
    using fit k(2) by (auto simp: range_fits_def fits32_def)
  then have w: "wrap32 (k * bs) = k * bs" "wrap32 (b + k * bs) = b + k * bs" "wrap32 (b + k * bs + bs) = b + k * bs + bs"
    "wrap32 (e - k * bs) = e - k * bs" "wrap32 (e - k * bs - bs) = e - k * bs - bs" "wrap32 (e - k * bs - 1) = e - k * bs - 1"
    by simp_all
  show "bodies (fst (cpu_parallel_range_for_task no_fail rc k)) = [b + k * bs..min (b + k * bs + bs) e - 1]" if "step = 1"
    using that by (simp add: rc cpu_parallel_range_for_task_def emit_def w Let_def body_up_no_fail)
  show "bodies (fst (cpu_parallel_range_for_task no_fail rc k)) = rev [max b (e - k * bs - bs)..e - k * bs - 1]" if "step = -1"
    using that by (simp add: rc cpu_parallel_range_for_task_def emit_def w Let_def body_down_no_fail)
qed

lemma upto_nat: "[0..n - 1] = map int [0..<nat n]"
proof (cases "0 \<le> n")
  case True
  then obtain m where "n = int m"
    using nonneg_int_cases by blast
  moreover have "[0..int m - 1] = map int [0..<m]"
    by (induction m) (simp_all add: upto_rec2)
  ultimately show ?thesis
    by simp
qed simp

lemma cpu_range_for_indices:
  assumes fit: "range_fits b e bs" and call: "cpu_parallel_range_for b e step bs p q = Inr (rc, n)"
    and order: "mset ts = mset [0..n - 1]"
  shows "mset (concat (map (\<lambda>t. bodies (fst (cpu_parallel_range_for_task no_fail rc t))) ts)) = mset [b..e - 1]"
proof -
  let ?run = "\<lambda>t. bodies (fst (cpu_parallel_range_for_task no_fail rc t))"
  have bs: "0 < bs" "fits32 (e - b + bs)" "fits32 (e - b)" "fits32 (e - b + bs - 1)"
    using fit by (auto simp: range_fits_def fits32_def)
  have step: "step = 1 \<or> step = -1"
    and rc: "rc = \<lparr>rg_prologue = p, rg_epilogue = q, rg_begin = b, rg_end = e, rg_body_loop_size = bs, rg_step = step\<rparr>"
    and n: "n = (e - b + bs - 1) sdiv bs"
    using call bs by (auto simp: cpu_parallel_range_for_def split: if_splits)
  have "mset (concat (map ?run (map int [0..<nat n]))) = mset [b..e - 1]"
  proof (cases "b < e")
    case False
    then show ?thesis
      using block_count(1) [OF bs(1), of "e - b"] by (simp add: n)
  next
    case True
    then have n': "0 \<le> n" "e - b \<le> n * bs"
      using block_count(2) [OF bs(1), of "e - b"] by (simp_all add: n)
    have small: "int k * bs < e - b" if "k \<in> set [0..<nat n]" for k
      using block_count(3) [OF bs(1), of "e - b" "int k"] that True by (simp add: n)
    note run = task_indices [OF fit _ small rc]
    show ?thesis
      using step
    proof
      assume "step = 1"
      then have eq: "map ?run (map int [0..<nat n]) = map (\<lambda>k. [b + int k * bs..min (b + int k * bs + bs) e - 1]) [0..<nat n]"
        using run(1) by auto
      show ?thesis
        unfolding eq using chunks_up [of bs b e "nat n"] bs(1) n' by (simp add: min_absorb2)
    next
      assume "step = -1"
      then have eq: "map ?run (map int [0..<nat n]) = map (\<lambda>k. rev [max b (e - int k * bs - bs)..e - int k * bs - 1]) [0..<nat n]"
        using run(2) by auto
      show ?thesis
        unfolding eq using chunks_down [of bs b e "nat n"] bs(1) n' by (simp add: max_absorb1)
    qed
  qed
  then show ?thesis
    using mset_concat_order [OF order] by (metis upto_nat)
qed


text \<open>Blocks of a range for a fixed number of workers.\<close>

lemma worker_blocks_share_range:
  assumes "fits32 b" "fits32 e" "0 < nb" "int nb < 2 ^ 31" "0 \<le> ms" "ms < 2 ^ 31"
  shows "concat (map (\<lambda>k. [get_cpu_per_worker_block_start_index b e (int nb) ms (int k)..
      get_cpu_per_worker_block_start_index b e (int nb) ms (int k + 1) - 1]) [0..<nb]) = [b..e - 1]"
proof -
  let ?d = "max 0 (e - b)" and ?n = "int nb"
  let ?bs = "max ((?d + ?n - 1) sdiv ?n) ms"
  have d: "0 \<le> ?d" "?d < 2 ^ 32" and n: "0 < ?n"
    using assms by (auto simp: fits32_def)
  then have q: "(?d + ?n - 1) sdiv ?n = (?d + ?n - 1) div ?n"
    by (simp add: sdiv_nonneg)
  have "(?d + ?n - 1) div ?n \<le> ?d"
  proof (cases "?d = 0")
    case False
    then have "0 \<le> (?d - 1) * (?n - 1)"
      using d n by simp
    then have "?d + ?n - 1 \<le> ?d * ?n"
      by (simp add: algebra_simps)
    then have "(?d + ?n - 1) div ?n \<le> ?d * ?n div ?n"
      using n by (rule zdiv_mono1)
    then show ?thesis
      using n by simp
  qed (use n in simp)
  then have bs: "0 \<le> ?bs" "?bs < 2 ^ 32"
    using assms(5,6) d n unfolding q by auto
  have start: "get_cpu_per_worker_block_start_index b e ?n ms k = min e (b + k * ?bs)" if "0 \<le> k" "k \<le> ?n" for k
  proof -
    have "k * ?bs \<le> (2 ^ 31 - 1) * 2 ^ 32"
      using that assms(4) bs by (intro mult_mono) simp_all
    moreover have "0 \<le> k * ?bs"
      using that bs(1) by simp
    ultimately have w: "fits64 (?bs * k)" "fits64 (b + ?bs * k)" "fits32 (min e (b + k * ?bs))"
      using assms(1,2) by (auto simp: fits64_def fits32_def mult.commute)
    then show ?thesis
      by (simp add: get_cpu_per_worker_block_start_index_def Let_def mult.commute)
  qed
  have piece: "[min e (b + k * ?bs)..min e (b + (k + 1) * ?bs) - 1] = [b + k * ?bs..min (b + k * ?bs + ?bs) e - 1]" for k
  proof -
    have "(k + 1) * ?bs = k * ?bs + ?bs"
      by (simp add: distrib_right)
    then show ?thesis
      using bs(1) by (cases "b + k * ?bs \<le> e") (simp_all add: min.commute min_absorb1 min_absorb2 add.assoc del: max.absorb1 max.absorb2)
  qed
  have eq: "map (\<lambda>k. [get_cpu_per_worker_block_start_index b e ?n ms (int k)..
      get_cpu_per_worker_block_start_index b e ?n ms (int k + 1) - 1]) [0..<nb] =
    map (\<lambda>k. [b + int k * ?bs..min (b + int k * ?bs + ?bs) e - 1]) [0..<nb]"
    using start piece by auto
  have "e \<le> b + ?n * ?bs"
  proof -
    have "?d \<le> (?d + ?n - 1) sdiv ?n * ?n"
    proof (cases "?d = 0")
      case True
      then show ?thesis
        using n by (simp only: True) (simp add: sdiv_nonneg)
    next
      case False
      then show ?thesis
        using block_count(2) [OF n, of ?d] d(1) by linarith
    qed
    also have "\<dots> \<le> ?bs * ?n"
      using n by (intro mult_right_mono) simp_all
    finally show ?thesis
      by (simp add: mult.commute)
  qed
  then show ?thesis
    unfolding eq using chunks_up [OF bs(1), of b e nb] by (simp add: min_absorb2)
qed

section \<open>The grid\<close>

definition grid_threads :: "nat \<Rightarrow> nat \<Rightarrow> (int \<times> int) list" where
  "grid_threads grid_dim block_dim = concat (map (\<lambda>bi. map (\<lambda>ti. (int bi, int ti)) [0..<block_dim]) [0..<grid_dim])"

lemma grid_threads_linear:
  "map (\<lambda>(bi, ti). f (ti + int bd * bi)) (grid_threads g bd) = map (\<lambda>t. f (int t)) [0..<g * bd]"
proof (induction g)
  case (Suc g)
  have "[0..<Suc g * bd] = [0..<g * bd] @ map (\<lambda>t. t + g * bd) [0..<bd]"
    by (metis add.commute add.left_neutral map_add_upt mult_Suc upt_add_eq_append zero_le)
  then show ?case
    using Suc by (simp add: grid_threads_def comp_def algebra_simps)
qed (simp add: grid_threads_def)

lemma gpu_range_loop_strided:
  assumes "0 < n" "e + n \<le> 2 ^ 31" "fits32 i"
  shows "gpu_range_loop n e i = Some (strided_int n e i)"
  using assms
proof (induction n e i rule: strided_int.induct)
  case (1 n e i)
  show ?case
  proof (cases "i < e")
    case True
    then have "fits32 (i + n)"
      using "1.prems" by (simp add: fits32_def)
    then show ?thesis
      using 1 True by (simp add: gpu_range_loop.simps [of n e i] strided_int.simps [of n e i])
  qed (simp add: gpu_range_loop.simps [of n e i] strided_int.simps [of n e i])
qed

definition grid_fits :: "nat \<Rightarrow> nat \<Rightarrow> int \<Rightarrow> int \<Rightarrow> bool" where
  "grid_fits g bd b e \<longleftrightarrow> 0 < g \<and> 0 < bd \<and> fits32 b \<and> b + int (g * bd) \<le> 2 ^ 31 \<and> e + int (g * bd) \<le> 2 ^ 31 \<and> int (g * bd) < 2 ^ 31"

text \<open>What one thread of a grid runs.\<close>

lemma gpu_range_for_thread:
  assumes "grid_fits g bd b e" "(bi, ti) \<in> set (grid_threads g bd)"
  shows "gpu_parallel_range_for p q (int g) (int bd) bi ti b e =
    Some ((if p then [Prologue] else []) @ map Body (strided_int (int (g * bd)) e (b + (ti + int bd * bi))) @
      (if q then [Epilogue] else []))"
proof -
  obtain m k where bt: "bi = int m" "ti = int k" "m < g" "k < bd"
    using assms(2) by (auto simp: grid_threads_def)
  have "Suc m * bd \<le> g * bd"
    using bt(3) by (intro mult_right_mono) simp_all
  moreover have "Suc m * bd = bd + bd * m"
    by simp
  ultimately have t: "k + bd * m < g * bd" "bd * m < g * bd"
    using bt(4) by linarith+
  then have "int k + int bd * int m < int (g * bd)" "int bd * int m < int (g * bd)"
    by (metis of_nat_add of_nat_less_iff of_nat_mult)+
  moreover have "0 \<le> int bd * int m"
    by simp
  moreover have c: "b + int (g * bd) \<le> 2 ^ 31" "int (g * bd) < 2 ^ 31" "- (2 ^ 31) \<le> b" "b < 2 ^ 31"
    using assms(1) by (auto simp: grid_fits_def fits32_def)
  ultimately have w: "fits32 (int bd * int m)" "fits32 (int k + int bd * int m)" "fits32 (int k + int bd * int m + b)"
    using c unfolding fits32_def by linarith+
  have "int bd * int g = int (g * bd)"
    by (simp add: mult.commute)
  then have "fits32 (int bd * int g)"
    using c(2) of_nat_0_le_iff [of "g * bd"] unfolding fits32_def by linarith
  then have g: "wrap32 (int bd * int g) = int (g * bd)" "0 < int (g * bd)"
    using assms(1) by (simp_all add: grid_fits_def mult.commute)
  have "gpu_range_loop (int (g * bd)) e (int k + int bd * int m + b) =
      Some (strided_int (int (g * bd)) e (int k + int bd * int m + b))"
    using assms(1) g(2) w(3) by (intro gpu_range_loop_strided) (simp_all add: grid_fits_def)
  then show ?thesis
    using w by (simp add: gpu_parallel_range_for_def bt g(1) add.commute del: of_nat_mult)
qed

lemma gpu_range_for_indices:
  assumes "grid_fits g bd b e"
  shows "\<exists>trs. map (\<lambda>(bi, ti). gpu_parallel_range_for p q (int g) (int bd) bi ti b e) (grid_threads g bd) = map Some trs \<and>
    mset (concat (map bodies trs)) = mset [b..e - 1]"
proof -
  let ?loop = "\<lambda>t. strided_int (int (g * bd)) e (b + t)"
  let ?tr = "\<lambda>t. (if p then [Prologue] else []) @ map Body (?loop t) @ (if q then [Epilogue] else [])"
  let ?trs = "map (\<lambda>(bi, ti). ?tr (ti + int bd * bi)) (grid_threads g bd)"
  have "map (\<lambda>(bi, ti). gpu_parallel_range_for p q (int g) (int bd) bi ti b e) (grid_threads g bd) = map Some ?trs"
    using gpu_range_for_thread [OF assms] by auto
  moreover have "map bodies ?trs = map (\<lambda>t. ?loop (int t)) [0..<g * bd]"
    using grid_threads_linear [of ?loop bd g] by (simp add: comp_def case_prod_unfold)
  moreover have "0 < g * bd"
    using assms by (simp add: grid_fits_def)
  ultimately show ?thesis
    using grid_shares_range [of "g * bd" e b] by metis
qed


text \<open>A range that ends at the largest integer: indices of one parity never reach the end, they wrap.\<close>

lemma even_wrap32: "even (wrap32 x) \<longleftrightarrow> even x"
  by (simp add: wrap32_def dvd_mod_iff)

lemma gpu_range_loop_parity:
  assumes "gpu_range_loop n e i = Some xs"
  shows "e = 2 ^ 31 - 1 \<longrightarrow> even n \<longrightarrow> even i \<longrightarrow> fits32 i \<longrightarrow> False"
proof (rule gpu_range_loop.raw_induct [where P = "\<lambda>n e i _. e = 2 ^ 31 - 1 \<longrightarrow> even n \<longrightarrow> even i \<longrightarrow> fits32 i \<longrightarrow> False", OF _ assms])
  fix loop n e i xs
  assume IH: "\<And>n e i xs. loop n e i = Some xs \<Longrightarrow> e = 2 ^ 31 - 1 \<longrightarrow> even n \<longrightarrow> even i \<longrightarrow> fits32 i \<longrightarrow> False"
    and eq: "(if i < e then Option.bind (loop n e (wrap32 (i + n))) (\<lambda>xs. Some (i # xs)) else Some []) = Some xs"
  show "e = 2 ^ 31 - 1 \<longrightarrow> even n \<longrightarrow> even i \<longrightarrow> fits32 i \<longrightarrow> False"
  proof (intro impI)
    assume i: "e = 2 ^ 31 - 1" "even n" "even i" "fits32 i"
    then have "i \<noteq> e"
      by auto
    then have "i < e"
      using i by (simp add: fits32_def)
    then obtain ys where "loop n e (wrap32 (i + n)) = Some ys"
      using eq by (auto simp: bind_eq_Some_conv)
    then show False
      using IH [of n e "wrap32 (i + n)" ys] i by (simp add: even_wrap32)
  qed
qed

lemma gpu_range_for_hangs:
  assumes "even (ti + bd * bi + b)" "even (bd * g)"
  shows "gpu_parallel_range_for p q g bd bi ti b (2 ^ 31 - 1) = None"
proof -
  let ?i = "wrap32 (wrap32 (ti + wrap32 (bd * bi)) + b)"
  have "even ?i"
    using assms(1) by (simp add: even_wrap32)
  then have "gpu_range_loop (wrap32 (bd * g)) (2 ^ 31 - 1) ?i = None"
    using gpu_range_loop_parity [of "wrap32 (bd * g)" "2 ^ 31 - 1" ?i] assms(2)
    by (cases "gpu_range_loop (wrap32 (bd * g)) (2 ^ 31 - 1) ?i") (auto simp: even_wrap32)
  then show ?thesis
    by (simp add: gpu_parallel_range_for_def)
qed

section \<open>Mesh-for\<close>

lemma mesh_loop_no_fail: "bodies (fst (mesh_loop no_fail p q tr i e)) = bodies tr @ [i..e - 1]"
proof (induction "nat (e - i)" arbitrary: tr i)
  case 0
  then show ?case
    by (simp add: mesh_loop.simps [of _ _ _ tr i e])
next
  case (Suc n)
  then have i: "i < e" "[i..e - 1] = i # [i + 1..e - 1]" "n = nat (e - (i + 1))"
    by (simp_all add: upto_rec1)
  obtain tr' where tr': "mesh_patch no_fail p q i tr = (tr', False)" "bodies tr' = bodies tr @ [i]"
    by (cases p; cases q) (simp_all add: mesh_patch_def emit_def)
  then show ?case
    using Suc.hyps(1) [OF i(3), of tr'] i by (simp add: mesh_loop.simps [of _ _ _ tr i e])
qed

lemma cpu_mesh_for_patches:
  assumes call: "cpu_parallel_mesh_for num_threads n bd = (bs, tasks)" and "0 \<le> n" "0 \<le> bd"
    and fit: "fits32 (n + max bd 512)" and order: "mset ts = mset [0..tasks - 1]"
  shows "mset (concat (map (\<lambda>t. bodies (fst (cpu_parallel_mesh_for_task no_fail p q n bs t))) ts)) = mset [0..n - 1]"
proof -
  have bs: "0 < bs" "bs \<le> max bd 512"
    using call assms(3) by (auto simp: cpu_parallel_mesh_for_def Let_def split: if_splits)
  then have "fits32 (n + bs)" "fits32 (n + bs - 1)"
    using fit assms(2) by (auto simp: fits32_def)
  then have tasks: "tasks = (n + bs - 1) sdiv bs"
    using call by (auto simp: cpu_parallel_mesh_for_def Let_def)
  have run: "bodies (fst (cpu_parallel_mesh_for_task no_fail p q n bs (int k))) = [0 + int k * bs..min (0 + int k * bs + bs) n - 1]"
    if "k \<in> set [0..<nat tasks]" for k
  proof -
    have "int k * bs < n"
    proof (cases "0 < n")
      case True
      then show ?thesis
        using block_count(3) [OF bs(1), of n "int k"] that by (simp add: tasks)
    next
      case False
      then show ?thesis
        using block_count(1) [OF bs(1), of n] that by (simp add: tasks)
    qed
    moreover have "0 \<le> int k * bs"
      using bs(1) by simp
    ultimately have "fits32 (int k * bs)" "fits32 (int k * bs + bs)"
      using bs(1) \<open>fits32 (n + bs)\<close> unfolding fits32_def by linarith+
    then show ?thesis
      by (simp add: cpu_parallel_mesh_for_task_def Let_def mesh_loop_no_fail)
  qed
  have eq: "map (\<lambda>t. bodies (fst (cpu_parallel_mesh_for_task no_fail p q n bs t))) (map int [0..<nat tasks]) =
      map (\<lambda>k. [0 + int k * bs..min (0 + int k * bs + bs) n - 1]) [0..<nat tasks]"
    using run by auto
  have "n \<le> int (nat tasks) * bs"
  proof (cases "n = 0")
    case False
    then show ?thesis
      using block_count(2) [OF bs(1), of n] assms(2) by (simp add: tasks)
  qed (use bs(1) in simp)
  then have "concat (map (\<lambda>t. bodies (fst (cpu_parallel_mesh_for_task no_fail p q n bs t))) (map int [0..<nat tasks])) = [0..n - 1]"
    unfolding eq using chunks_up [of bs 0 n "nat tasks"] bs(1) by (simp add: min_absorb2)
  then show ?thesis
    using mset_concat_order [OF order] by (metis upto_nat)
qed

end
