(* ===== verification/StructFor.thy ===== *)
theory StructFor
  imports ParallelFor
begin

text \<open>
  Loops over sparse fields (\<^verbatim>\<open>runtime/llvm/runtime_module/runtime.cpp\<close>). Before a struct-for, one kernel per
  level of the SNode path turns the element list of the parent into that of the child; the struct-for then
  runs over the element list of the leaf. The loops that stride by the size of the grid compute in 32 bits
  and may run forever once their index wraps (\<open>None\<close>). The two loops inside them, over the elements of one
  container and over the cells of one element, are \<^const>\<open>strided_int\<close>, which is what they compute as long
  as the index does not reach \<open>2 ^ 31\<close> (\<open>gpu_range_loop_strided\<close>); \<open>sizes_fit\<close> and \<open>struct_grid_fits\<close> say so.
\<close>

section \<open>Containers and elements\<close>

type_synonym coords = "nat \<Rightarrow> int"

text \<open>\<^verbatim>\<open>Element\<close>: cells \<open>el_lower\<close> to \<open>el_upper\<close> of one container, and the coordinates of the container.\<close>

record elem =
  el_element :: nat
  el_lower :: int
  el_upper :: int
  el_pcoord :: coords

text \<open>
  \<^verbatim>\<open>StructMeta\<close>: the functions of one SNode. They read memory that no kernel changes while lists are
  generated and loops run over them. \<open>mt_tested\<close>: the SNode is of type bitmasked or pointer, so that a loop
  over it tests each cell.
\<close>

record struct_meta =
  mt_tested :: bool
  mt_max_num_elements :: int
  mt_lookup_element :: "nat \<Rightarrow> int \<Rightarrow> nat"
  mt_from_parent_element :: "nat \<Rightarrow> nat"
  mt_is_active :: "nat \<Rightarrow> int \<Rightarrow> bool"
  mt_get_num_elements :: "nat \<Rightarrow> int"
  mt_refine_coordinates :: "coords \<Rightarrow> int \<Rightarrow> coords"

definition quadrants_listgen_max_element_size :: int where
  "quadrants_listgen_max_element_size = 1024"

section \<open>Generating element lists\<close>

text \<open>The elements of one container, \<open>size\<close> cells each: \<^verbatim>\<open>for (ch_lower = 0; ch_lower < n; ch_lower += size)\<close>.\<close>

definition container_elements :: "nat \<Rightarrow> int \<Rightarrow> coords \<Rightarrow> elem list" where
  "container_elements ch_element ch_num_elements pcoord =
     (let ch_element_size = min ch_num_elements quadrants_listgen_max_element_size in
      map (\<lambda>ch_lower. \<lparr>el_element = ch_element, el_lower = ch_lower,
             el_upper = min (wrap32 (ch_lower + ch_element_size)) ch_num_elements, el_pcoord = pcoord\<rparr>)
        (strided_int ch_element_size ch_num_elements 0))"

text \<open>
  \<^verbatim>\<open>element_listgen_root\<close>, the elements one thread appends: \<open>c_start\<close> is its index in the grid and
  \<open>c_step\<close> the number of threads, or 0 and 1 on the CPU.
\<close>

partial_function (option) root_elements :: "nat \<Rightarrow> int \<Rightarrow> coords \<Rightarrow> int \<Rightarrow> int \<Rightarrow> int \<Rightarrow> elem list option" where
  "root_elements ch_element n pcoord sz step c =
     (if wrap32 (c * sz) < n
      then Option.bind (root_elements ch_element n pcoord sz step (wrap32 (c + step)))
             (\<lambda>es. Some (\<lparr>el_element = ch_element, el_lower = wrap32 (c * sz), el_upper = min (wrap32 (wrap32 (c + 1) * sz)) n,
                el_pcoord = pcoord\<rparr> # es))
      else Some [])"

definition element_listgen_root :: "struct_meta \<Rightarrow> struct_meta \<Rightarrow> elem list \<Rightarrow> int \<Rightarrow> int \<Rightarrow> elem list option" where
  "element_listgen_root parent child parent_list c_start c_step =
     (let element = hd parent_list;
          ch_element = mt_from_parent_element child (mt_lookup_element parent (el_element element) 0);
          ch_num_elements = mt_get_num_elements child ch_element;
          ch_element_size = min ch_num_elements quadrants_listgen_max_element_size
      in root_elements ch_element ch_num_elements (el_pcoord element) ch_element_size c_step c_start)"

text \<open>\<^verbatim>\<open>element_listgen_nonroot\<close>: block \<open>i_start\<close> of \<open>i_step\<close>, thread \<open>j_start\<close> of \<open>j_step\<close>.\<close>

definition cell_elements :: "struct_meta \<Rightarrow> struct_meta \<Rightarrow> elem \<Rightarrow> int \<Rightarrow> elem list" where
  "cell_elements parent child element j =
     (let refined_coord = mt_refine_coordinates parent (el_pcoord element) j in
      if mt_is_active parent (el_element element) j
      then (let ch_element = mt_from_parent_element child (mt_lookup_element parent (el_element element) j)
            in container_elements ch_element (mt_get_num_elements child ch_element) refined_coord)
      else [])"

definition concat_options :: "'a list option list \<Rightarrow> 'a list option" where
  "concat_options xs = map_option concat (those xs)"

definition element_listgen_nonroot ::
  "struct_meta \<Rightarrow> struct_meta \<Rightarrow> elem list \<Rightarrow> int \<Rightarrow> int \<Rightarrow> int \<Rightarrow> int \<Rightarrow> elem list option" where
  "element_listgen_nonroot parent child parent_list i_start i_step j_start j_step =
     Option.bind (gpu_range_loop i_step (int (length parent_list)) i_start) (\<lambda>is.
       concat_options (map (\<lambda>i. let element = parent_list ! nat i in
         map_option (\<lambda>js. concat (map (cell_elements parent child element) js))
           (gpu_range_loop j_step (el_upper element) (wrap32 (el_lower element + j_start)))) is))"

section \<open>Struct-for\<close>

text \<open>The calls of the loop body: an element with the bounds it is called with.\<close>

definition element_part :: "elem \<Rightarrow> int \<Rightarrow> int \<Rightarrow> (elem \<times> int \<times> int) option" where
  "element_part e part_id part_size =
     (let lower = wrap32 (el_lower e + wrap32 (part_id * part_size));
          upper = min (wrap32 (el_lower e + wrap32 ((part_id + 1) * part_size))) (el_upper e)
      in if lower < upper then Some (e, lower, upper) else None)"

definition cpu_struct_for_block_helper :: "elem list \<Rightarrow> int \<Rightarrow> int \<Rightarrow> int \<Rightarrow> (elem \<times> int \<times> int) option" where
  "cpu_struct_for_block_helper elems element_size element_split task_id =
     element_part (elems ! nat (task_id sdiv element_split)) (task_id smod element_split) (element_size sdiv element_split)"

text \<open>\<^verbatim>\<open>parallel_struct_for\<close>: the number of tasks for the pool, and the calls a block of the grid makes.\<close>

definition cpu_parallel_struct_for :: "elem list \<Rightarrow> int \<Rightarrow> int" where
  "cpu_parallel_struct_for elems element_split = wrap32 (int (length elems) * element_split)"

definition gpu_parallel_struct_for :: "elem list \<Rightarrow> int \<Rightarrow> int \<Rightarrow> int \<Rightarrow> (elem \<times> int \<times> int) list option" where
  "gpu_parallel_struct_for elems element_size grid_dim block_idx =
     (let element_split = 1; part_size = element_size sdiv element_split in
      map_option (\<lambda>is. concat (map (\<lambda>i. case element_part (elems ! nat (i sdiv element_split)) (i smod element_split) part_size of
          None \<Rightarrow> [] | Some c \<Rightarrow> [c]) is))
        (gpu_range_loop grid_dim (int (length elems)) block_idx))"

text \<open>
  The generated body: from \<^verbatim>\<open>lower + thread_idx\<close> in steps of \<^verbatim>\<open>block_dim\<close>, which are 0 and 1 on the CPU; the
  coordinates of a cell come from those of the container. The statements of the loop run for the cells
  that pass \<^verbatim>\<open>exec_cond\<close>.
\<close>

definition call_cells :: "int \<Rightarrow> int \<Rightarrow> elem \<times> int \<times> int \<Rightarrow> (nat \<times> coords \<times> int) list" where
  "call_cells thread_idx block_dim call =
     (case call of (e, lower, upper) \<Rightarrow>
        map (\<lambda>j. (el_element e, el_pcoord e, j)) (strided_int block_dim upper (lower + thread_idx)))"

definition exec_cond :: "struct_meta \<Rightarrow> nat \<times> coords \<times> int \<Rightarrow> bool" where
  "exec_cond leaf cell = (case cell of (p, c, j) \<Rightarrow> mt_tested leaf \<longrightarrow> mt_is_active leaf p j)"

definition struct_for_body :: "struct_meta \<Rightarrow> int \<Rightarrow> int \<Rightarrow> elem \<times> int \<times> int \<Rightarrow> (nat \<times> coords \<times> int) list" where
  "struct_for_body leaf thread_idx block_dim call = filter (exec_cond leaf) (call_cells thread_idx block_dim call)"

text \<open>What code generation passes: the size of the list elements of the leaf and into how many tasks they split.\<close>

definition list_element_size :: "struct_meta \<Rightarrow> int" where
  "list_element_size leaf = min (mt_max_num_elements leaf) quadrants_listgen_max_element_size"

definition num_splits :: "int \<Rightarrow> int \<Rightarrow> int" where
  "num_splits sz block_dim = max 1 (sz sdiv block_dim + of_bool (sz smod block_dim \<noteq> 0))"

definition cpu_struct_for_block_dim :: "struct_meta \<Rightarrow> int \<Rightarrow> int" where
  "cpu_struct_for_block_dim parent block_dim = min (mt_max_num_elements parent) block_dim"

text \<open>The block size the offload pass chooses, 0 standing for an adaptive one.\<close>

definition offload_struct_for_block_dim :: "int \<Rightarrow> int \<Rightarrow> int \<Rightarrow> int" where
  "offload_struct_for_block_dim snode_num_elements default_gpu_block_dim block_dim =
     (if block_dim = 0 then min snode_num_elements default_gpu_block_dim
      else if snode_num_elements < block_dim then snode_num_elements else block_dim)"

section \<open>Sums over a grid\<close>

lemma mset_concat_map: "mset (concat (map f xs)) = (\<Sum>x\<leftarrow>xs. mset (f x))"
  by (induction xs) auto

lemma sum_list_swap:
  fixes f :: "'a \<Rightarrow> 'b \<Rightarrow> 'c::comm_monoid_add"
  shows "(\<Sum>x\<leftarrow>xs. \<Sum>y\<leftarrow>ys. f x y) = (\<Sum>y\<leftarrow>ys. \<Sum>x\<leftarrow>xs. f x y)"
  by (induction xs) (simp_all add: sum_list_addf)

lemma sum_list_order:
  fixes f :: "'a \<Rightarrow> 'c::comm_monoid_add"
  assumes "mset xs = mset ys"
  shows "(\<Sum>x\<leftarrow>xs. f x) = (\<Sum>x\<leftarrow>ys. f x)"
  by (metis assms mset_map sum_mset_sum_list)

lemma sum_list_concat_map:
  fixes f :: "'b \<Rightarrow> 'c::comm_monoid_add"
  shows "(\<Sum>x\<leftarrow>concat (map g ts). f x) = (\<Sum>t\<leftarrow>ts. \<Sum>x\<leftarrow>g t. f x)"
  by (induction ts) auto

lemma stride_sum:
  fixes f :: "int \<Rightarrow> 'c::comm_monoid_add"
  assumes "0 < n"
  shows "(\<Sum>t\<leftarrow>[0..<n]. \<Sum>x\<leftarrow>strided_int (int n) e (b + int t). f x) = (\<Sum>x\<leftarrow>[b..e - 1]. f x)"
  using sum_list_order [OF grid_shares_range [OF assms, of e b], of f] by (simp only: sum_list_concat_map)

text \<open>Blocks share out the outer loop, the threads of a block the inner one.\<close>

lemma block_grid_sum:
  fixes F :: "int \<Rightarrow> int \<Rightarrow> 'c::comm_monoid_add"
  assumes "0 < g" "0 < bd"
  shows "(\<Sum>(bi, ti)\<leftarrow>grid_threads g bd. \<Sum>i\<leftarrow>strided_int (int g) n bi. \<Sum>j\<leftarrow>strided_int (int bd) (up i) (lo i + ti). F i j)
    = (\<Sum>i\<leftarrow>[0..n - 1]. \<Sum>j\<leftarrow>[lo i..up i - 1]. F i j)"
proof -
  let ?G = "\<lambda>bi ti. \<Sum>i\<leftarrow>strided_int (int g) n bi. \<Sum>j\<leftarrow>strided_int (int bd) (up i) (lo i + ti). F i j"
  have "(\<Sum>(bi, ti)\<leftarrow>grid_threads g bd. ?G bi ti) = (\<Sum>bi\<leftarrow>[0..<g]. \<Sum>ti\<leftarrow>[0..<bd]. ?G (int bi) (int ti))"
    by (simp add: grid_threads_def sum_list_concat_map comp_def)
  also have "\<dots> = (\<Sum>bi\<leftarrow>[0..<g]. \<Sum>i\<leftarrow>strided_int (int g) n (int bi). \<Sum>j\<leftarrow>[lo i..up i - 1]. F i j)"
    by (subst sum_list_swap) (simp only: stride_sum [OF assms(2)])
  also have "\<dots> = (\<Sum>i\<leftarrow>[0..n - 1]. \<Sum>j\<leftarrow>[lo i..up i - 1]. F i j)"
    using stride_sum [OF assms(1), where e = n and b = 0] by simp
  finally show ?thesis .
qed

text \<open>The loops of a thread of the grid, as long as no index wraps.\<close>

lemma concat_options_Some:
  assumes "\<And>x. x \<in> set xs \<Longrightarrow> f x = Some (g x)"
  shows "concat_options (map f xs) = Some (concat (map g xs))"
proof -
  have "those (map f xs) = Some (map g xs)"
    using assms by (induction xs) simp_all
  then show ?thesis
    by (simp add: concat_options_def)
qed

lemma grid_index:
  assumes "(bi, ti) \<in> set (grid_threads g bd)" "int (g * bd) < 2 ^ 31"
  shows "wrap32 (wrap32 (int bd * bi) + ti) = ti + int bd * bi" "0 \<le> ti + int bd * bi" "ti + int bd * bi < int (g * bd)"
    and "wrap32 (int g * int bd) = int (g * bd)" "0 \<le> bi" "bi < int g" "0 \<le> ti" "ti < int bd"
proof -
  obtain m k where bt: "bi = int m" "ti = int k" "m < g" "k < bd"
    using assms(1) by (auto simp: grid_threads_def)
  have "Suc m * bd \<le> g * bd"
    using bt(3) by (intro mult_right_mono) simp_all
  then have t: "k + bd * m < g * bd"
    using bt(4) by (simp add: mult.commute)
  then have u: "ti + int bd * bi < int (g * bd)" "0 \<le> int bd * bi" "0 \<le> ti"
    using of_nat_less_iff [of "k + bd * m" "g * bd", where 'a = int] by (simp_all add: bt)
  then show "wrap32 (wrap32 (int bd * bi) + ti) = ti + int bd * bi"
    using assms(2) by (simp add: fits32_def add.commute del: of_nat_mult)
  have "fits32 (int (g * bd))"
    using assms(2) of_nat_0_le_iff [of "g * bd"] unfolding fits32_def by linarith
  then show "wrap32 (int g * int bd) = int (g * bd)"
    by simp
  show "0 \<le> ti + int bd * bi" "ti + int bd * bi < int (g * bd)" "0 \<le> bi" "bi < int g" "0 \<le> ti" "ti < int bd"
    using u bt by simp_all
qed

section \<open>Lists that stand for cells\<close>

text \<open>The cells a list of elements covers; a cell is its container, the coordinates of that and an index.\<close>

definition cells_of :: "elem list \<Rightarrow> (nat \<times> coords \<times> int) list" where
  "cells_of elems = concat (map (\<lambda>e. map (\<lambda>j. (el_element e, el_pcoord e, j)) [el_lower e..el_upper e - 1]) elems)"

text \<open>The containers below active cells, and all cells of containers.\<close>

definition child_containers :: "struct_meta \<Rightarrow> struct_meta \<Rightarrow> (nat \<times> coords \<times> int) list \<Rightarrow> (nat \<times> coords) list" where
  "child_containers parent child cells =
     concat (map (\<lambda>(p, c, j). if mt_is_active parent p j
       then [(mt_from_parent_element child (mt_lookup_element parent p j), mt_refine_coordinates parent c j)] else []) cells)"

definition container_cells :: "struct_meta \<Rightarrow> (nat \<times> coords) list \<Rightarrow> (nat \<times> coords \<times> int) list" where
  "container_cells meta cs = concat (map (\<lambda>(p, c). map (\<lambda>j. (p, c, j)) [0..mt_get_num_elements meta p - 1]) cs)"

lemma cells_of_append [simp]: "cells_of (xs @ ys) = cells_of xs @ cells_of ys"
  by (simp add: cells_of_def)

lemma cells_of_concat: "cells_of (concat xss) = concat (map cells_of xss)"
  by (induction xss) (simp_all add: cells_of_def)

lemma upto_chunk: "0 \<le> s \<Longrightarrow> i < n \<Longrightarrow> [i..min (i + s) n - 1] @ [i + s..n - 1] = [i..n - 1]"
  using upto_split1 [of i "i + s" "n - 1"] by (cases "i + s < n") (auto simp: min_def)

lemma strided_chunks: "0 < s \<Longrightarrow> concat (map (\<lambda>l. [l..min (l + s) n - 1]) (strided_int s n i)) = [i..n - 1]"
proof (induction s n i rule: strided_int.induct)
  case (1 s n i)
  then show ?case
    using upto_chunk [of s i n] by (cases "i < n") (simp_all add: strided_int.simps [of s n i])
qed

lemma strided_nonpos: "n \<le> 0 \<Longrightarrow> strided_int n e i = []"
  by (simp add: strided_int.simps)

lemma cells_of_container:
  assumes "fits32 (n + quadrants_listgen_max_element_size)"
  shows "cells_of (container_elements p n c) = map (\<lambda>j. (p, c, j)) [0..n - 1]"
proof -
  define s where "s = min n quadrants_listgen_max_element_size"
  have "cells_of (container_elements p n c) =
      map (\<lambda>j. (p, c, j)) (concat (map (\<lambda>l. [l..min (wrap32 (l + s)) n - 1]) (strided_int s n 0)))"
    by (simp add: container_elements_def cells_of_def s_def Let_def comp_def map_concat)
  moreover have "concat (map (\<lambda>l. [l..min (wrap32 (l + s)) n - 1]) (strided_int s n 0)) = [0..n - 1]"
  proof (cases "0 < s")
    case True
    have "wrap32 (l + s) = l + s" if "l \<in> set (strided_int s n 0)" for l
    proof -
      have "0 \<le> l \<and> l < n"
        using that by (simp add: set_strided_int [OF True])
      moreover have "s \<le> quadrants_listgen_max_element_size"
        by (simp add: s_def)
      ultimately have "fits32 (l + s)"
        using True assms unfolding fits32_def by linarith
      then show ?thesis
        by simp
    qed
    then have eq: "map (\<lambda>l. [l..min (wrap32 (l + s)) n - 1]) (strided_int s n 0) =
        map (\<lambda>l. [l..min (l + s) n - 1]) (strided_int s n 0)"
      by simp
    show ?thesis
      unfolding eq by (rule strided_chunks [OF True])
  next
    case False
    then show ?thesis
      by (simp add: strided_nonpos s_def quadrants_listgen_max_element_size_def)
  qed
  ultimately show ?thesis
    by simp
qed

text \<open>How many cells the containers of a level may have.\<close>

definition sizes_fit :: "struct_meta \<Rightarrow> bool" where
  "sizes_fit meta \<longleftrightarrow> mt_max_num_elements meta + quadrants_listgen_max_element_size < 2 ^ 31 \<and>
     (\<forall>p. 0 \<le> mt_get_num_elements meta p \<and> mt_get_num_elements meta p \<le> mt_max_num_elements meta)"

lemma sizes_fit_cells: "sizes_fit meta \<Longrightarrow> fits32 (mt_get_num_elements meta p + quadrants_listgen_max_element_size)"
  unfolding sizes_fit_def fits32_def quadrants_listgen_max_element_size_def by (auto intro: le_less_trans)

lemma cells_of_cell:
  assumes "sizes_fit child"
  shows "cells_of (cell_elements parent child e j) =
    container_cells child (child_containers parent child [(el_element e, el_pcoord e, j)])"
  using sizes_fit_cells [OF assms]
  by (simp add: cell_elements_def child_containers_def container_cells_def Let_def cells_of_container cells_of_def [of "[]"])

lemma child_cells_concat:
  "container_cells child (child_containers parent child xs) =
     concat (map (\<lambda>x. container_cells child (child_containers parent child [x])) xs)"
  by (induction xs) (auto simp: container_cells_def child_containers_def)

text \<open>What a thread of the grid appends as long as no index wraps.\<close>

definition nonroot_share ::
  "struct_meta \<Rightarrow> struct_meta \<Rightarrow> elem list \<Rightarrow> int \<Rightarrow> int \<Rightarrow> int \<Rightarrow> int \<Rightarrow> elem list" where
  "nonroot_share parent child parent_list i_start i_step j_start j_step =
     concat (map (\<lambda>i. let element = parent_list ! nat i in
       concat (map (cell_elements parent child element)
         (strided_int j_step (el_upper element) (el_lower element + j_start))))
       (strided_int i_step (int (length parent_list)) i_start))"

definition elem_in_grid :: "nat \<Rightarrow> elem \<Rightarrow> bool" where
  "elem_in_grid bd e \<longleftrightarrow> 0 \<le> el_lower e \<and> el_lower e + int bd \<le> 2 ^ 31 \<and> el_upper e + int bd \<le> 2 ^ 31"

lemma listgen_nonroot_share:
  assumes "int (length parent_list) + int g \<le> 2 ^ 31" "list_all (elem_in_grid bd) parent_list"
    and "0 \<le> bi" "bi < int g" "0 \<le> ti" "ti < int bd"
  shows "element_listgen_nonroot parent child parent_list bi (int g) ti (int bd) =
    Some (nonroot_share parent child parent_list bi (int g) ti (int bd))"
proof -
  let ?n = "int (length parent_list)"
  have outer: "gpu_range_loop (int g) ?n bi = Some (strided_int (int g) ?n bi)"
    using assms(1,3,4) by (intro gpu_range_loop_strided) (auto simp: fits32_def)
  have inner: "gpu_range_loop (int bd) (el_upper e) (wrap32 (el_lower e + ti)) =
      Some (strided_int (int bd) (el_upper e) (el_lower e + ti))" if "e \<in> set parent_list" for e
  proof -
    have e: "elem_in_grid bd e"
      using assms(2) that by (simp add: list_all_iff)
    then have "fits32 (el_lower e + ti)"
      using assms(5,6) by (auto simp: elem_in_grid_def fits32_def)
    then show ?thesis
      using e assms(5,6) gpu_range_loop_strided [of "int bd" "el_upper e" "el_lower e + ti"] by (simp add: elem_in_grid_def)
  qed
  have "parent_list ! nat i \<in> set parent_list" if "i \<in> set (strided_int (int g) ?n bi)" for i
    using that assms(3,4) by (auto simp: set_strided_int nat_less_iff)
  then show ?thesis
    unfolding element_listgen_nonroot_def nonroot_share_def outer Option.bind.bind_lunit
    by (intro concat_options_Some) (simp add: Let_def inner)
qed

text \<open>One level of list generation.\<close>

lemma listgen_nonroot_cells:
  assumes "sizes_fit child" "0 < g" "0 < bd"
    and "mset elems = mset (concat (map (\<lambda>(bi, ti). nonroot_share parent child parent_list bi (int g) ti (int bd))
      (grid_threads g bd)))"
  shows "mset (cells_of elems) = mset (container_cells child (child_containers parent child (cells_of parent_list)))"
proof -
  let ?F = "\<lambda>e j. mset (container_cells child (child_containers parent child [(el_element e, el_pcoord e, j)]))"
  let ?at = "\<lambda>i. parent_list ! nat i"
  have step: "mset (cells_of (nonroot_share parent child parent_list bi (int g) ti (int bd))) =
      (\<Sum>i\<leftarrow>strided_int (int g) (int (length parent_list)) bi.
         \<Sum>j\<leftarrow>strided_int (int bd) (el_upper (?at i)) (el_lower (?at i) + ti). ?F (?at i) j)" for bi ti
    by (simp add: nonroot_share_def Let_def cells_of_concat mset_concat_map comp_def cells_of_cell [OF assms(1)])
  have "mset (cells_of elems) = mset (cells_of (concat (map (\<lambda>(bi, ti).
      nonroot_share parent child parent_list bi (int g) ti (int bd)) (grid_threads g bd))))"
    unfolding cells_of_def by (rule mset_concat_order [OF assms(4)])
  also have "\<dots> = (\<Sum>(bi, ti)\<leftarrow>grid_threads g bd. \<Sum>i\<leftarrow>strided_int (int g) (int (length parent_list)) bi.
         \<Sum>j\<leftarrow>strided_int (int bd) (el_upper (?at i)) (el_lower (?at i) + ti). ?F (?at i) j)"
    by (simp add: cells_of_concat mset_concat_map comp_def case_prod_unfold step)
  also have "\<dots> = (\<Sum>i\<leftarrow>[0..int (length parent_list) - 1]. \<Sum>j\<leftarrow>[el_lower (?at i)..el_upper (?at i) - 1]. ?F (?at i) j)"
    by (rule block_grid_sum [OF assms(2,3)])
  also have "\<dots> = (\<Sum>e\<leftarrow>parent_list. \<Sum>j\<leftarrow>[el_lower e..el_upper e - 1]. ?F e j)"
    by (subst (3) map_nth [symmetric]) (simp only: upto_nat map_map comp_def nat_int)
  also have "\<dots> = (\<Sum>x\<leftarrow>cells_of parent_list. mset (container_cells child (child_containers parent child [x])))"
    by (simp add: cells_of_def sum_list_concat_map comp_def)
  also have "\<dots> = mset (container_cells child (child_containers parent child (cells_of parent_list)))"
    by (simp only: child_cells_concat [of child parent "cells_of parent_list"] mset_concat_map)
  finally show ?thesis .
qed


text \<open>The list below the root.\<close>

lemma chunk_index:
  fixes n s c :: int
  assumes "0 < s"
  shows "c * s < n \<longleftrightarrow> c < (n + s - 1) div s"
proof -
  let ?q = "(n + s - 1) div s" and ?r = "(n + s - 1) mod s"
  have split: "n + s - 1 = ?q * s + ?r" "0 \<le> ?r" "?r < s"
    using assms by simp_all
  show ?thesis
  proof
    assume "c * s < n"
    show "c < ?q"
    proof (rule ccontr)
      assume "\<not> c < ?q"
      then have "?q * s \<le> c * s"
        using assms by (intro mult_right_mono) simp_all
      then show False
        using split \<open>c * s < n\<close> by linarith
    qed
  next
    assume "c < ?q"
    then have "(c + 1) * s \<le> ?q * s"
      using assms by (intro mult_right_mono) simp_all
    then have "c * s + s \<le> ?q * s"
      by (simp add: distrib_right)
    then show "c * s < n"
      using split by linarith
  qed
qed

definition root_share :: "nat \<Rightarrow> int \<Rightarrow> coords \<Rightarrow> int \<Rightarrow> int \<Rightarrow> int \<Rightarrow> elem list" where
  "root_share p n c s step i =
     map (\<lambda>i. \<lparr>el_element = p, el_lower = i * s, el_upper = min ((i + 1) * s) n, el_pcoord = c\<rparr>)
       (strided_int step ((n + s - 1) div s) i)"

lemma less_sum: "a < n \<Longrightarrow> n + (b + c) \<le> m \<Longrightarrow> 0 < b \<Longrightarrow> 0 < c \<Longrightarrow> a + b < m \<and> a + c < m" for a b c m n :: int
  by simp

lemma root_elements_strided:
  assumes "0 < s" "0 < step" "n + (step + 1) * s \<le> 2 ^ 31" "0 \<le> i" "i * s < 2 ^ 31"
  shows "root_elements p n c s step i = Some (root_share p n c s step i)"
  using assms(2-5)
proof (induction step "(n + s - 1) div s" i rule: strided_int.induct)
  case (1 step i)
  have le: "x \<le> x * s" if "0 \<le> x" for x
    using that assms(1) mult_left_mono [of 1 s x] by simp
  have fits: "fits32 (i * s)"
    using "1.prems"(4) mult_nonneg_nonneg [OF "1.prems"(3) less_imp_le [OF assms(1)]] unfolding fits32_def by linarith
  show ?case
  proof (cases "i * s < n")
    case True
    have sums: "(i + step) * s = i * s + step * s" "(i + 1) * s = i * s + s" "(step + 1) * s = step * s + s"
      by (simp_all add: distrib_right)
    have pos: "0 \<le> i * s" "0 < step * s"
      using "1.prems" assms(1) by simp_all
    have bounds: "(i + step) * s < 2 ^ 31" "(i + 1) * s < 2 ^ 31"
      using less_sum [OF True _ pos(2) assms(1)] "1.prems"(2) unfolding sums by blast+
    have small: "fits32 x" if "0 \<le> x" "x < 2 ^ 31" for x
      using that by (simp add: fits32_def)
    have "0 \<le> i + step" "0 \<le> i + 1" "0 \<le> (i + 1) * s"
      using "1.prems"(1,3) assms(1) by simp_all
    then have "fits32 (i + step)" "fits32 (i + 1)" "fits32 ((i + 1) * s)"
      using bounds le [of "i + step"] le [of "i + 1"] small by (blast intro: le_less_trans)+
    then show ?thesis
      using 1 True fits bounds(1) assms(1)
      by (simp add: root_elements.simps [of p n c s step i] root_share_def strided_int.simps [of step _ i] chunk_index)
  qed (use 1 fits assms(1) in \<open>simp add: root_elements.simps [of p n c s step i] root_share_def strided_int.simps [of step _ i] chunk_index\<close>)
qed

text \<open>The root list is generated by a grid for which no product of a chunk index and a chunk size wraps.\<close>

definition root_grid_fits :: "struct_meta \<Rightarrow> nat \<Rightarrow> nat \<Rightarrow> bool" where
  "root_grid_fits child g bd \<longleftrightarrow> 0 < g \<and> 0 < bd \<and>
     mt_max_num_elements child + (int (g * bd) + 1) * quadrants_listgen_max_element_size \<le> 2 ^ 31"

lemma listgen_root_share:
  assumes "sizes_fit child" "root_grid_fits child g bd" "(bi, ti) \<in> set (grid_threads g bd)"
    and parent: "parent_list = [\<lparr>el_element = r, el_lower = 0, el_upper = 1, el_pcoord = c\<rparr>]"
    and p: "p = mt_from_parent_element child (mt_lookup_element parent r 0)" "n = mt_get_num_elements child p"
  shows "element_listgen_root parent child parent_list (wrap32 (wrap32 (int bd * bi) + ti)) (wrap32 (int g * int bd)) =
    Some (root_share p n c (min n quadrants_listgen_max_element_size) (int (g * bd)) (ti + int bd * bi))"
proof -
  define s where "s = min n quadrants_listgen_max_element_size"
  let ?N = "int (g * bd)" and ?t = "ti + int bd * bi"
  have n: "0 \<le> n" "n \<le> mt_max_num_elements child"
    using assms(1) p(2) by (simp_all add: sizes_fit_def)
  have N: "0 < ?N" "mt_max_num_elements child + (?N + 1) * 1024 \<le> 2 ^ 31"
    using assms(2) by (simp_all add: root_grid_fits_def quadrants_listgen_max_element_size_def del: of_nat_mult)
  moreover have "N < 2 ^ 31" if "0 < N" "m + (N + 1) * 1024 \<le> 2 ^ 31" "0 \<le> m" for N m :: int
    using that by simp
  ultimately have "?N < 2 ^ 31"
    using n order.trans by blast
  note t = grid_index [OF assms(3) this]
  have "root_elements p n c s ?N ?t = Some (root_share p n c s ?N ?t)"
  proof (cases "0 < s")
    case True
    have "s \<le> 1024"
      by (simp add: s_def quadrants_listgen_max_element_size_def)
    then have "(?N + 1) * s \<le> (?N + 1) * 1024" "?t * s \<le> ?N * s"
      using True t(3) N(1) by (intro mult_left_mono mult_right_mono; simp del: of_nat_mult)+
    moreover have "(?N + 1) * s = ?N * s + s"
      by (simp add: distrib_right)
    ultimately have "n + (?N + 1) * s \<le> 2 ^ 31" "?t * s < 2 ^ 31"
      using n N(2) True by linarith+
    then show ?thesis
      by (rule root_elements_strided [OF True N(1) _ t(2)])
  next
    case False
    then have "n = 0" "s = 0"
      using n(1) by (simp_all add: s_def quadrants_listgen_max_element_size_def)
    then show ?thesis
      using t(2) by (simp add: root_elements.simps root_share_def strided_int.simps wrap32_def)
  qed
  then show ?thesis
    by (simp only: element_listgen_root_def parent Let_def list.sel elem.simps t(1,4) flip: p s_def)
qed

lemma listgen_root_parts:
  assumes "sizes_fit child" "root_grid_fits child g bd" and parent: "parent_list = [\<lparr>el_element = r, el_lower = 0, el_upper = 1, el_pcoord = c\<rparr>]"
    and parts: "map (\<lambda>(bi, ti). element_listgen_root parent child parent_list (wrap32 (wrap32 (int bd * bi) + ti)) (wrap32 (int g * int bd)))
      (grid_threads g bd) = map Some parts"
    and p: "p = mt_from_parent_element child (mt_lookup_element parent r 0)" "n = mt_get_num_elements child p"
  shows "parts = map (\<lambda>(bi, ti). root_share p n c (min n quadrants_listgen_max_element_size) (int (g * bd)) (ti + int bd * bi)) (grid_threads g bd)"
proof -
  have "map Some parts = map Some (map (\<lambda>(bi, ti). root_share p n c (min n quadrants_listgen_max_element_size) (int (g * bd)) (ti + int bd * bi))
      (grid_threads g bd))"
    unfolding parts [symmetric] map_map by (rule map_cong) (auto simp: listgen_root_share [OF assms(1,2) _ parent p])
  then show ?thesis
    by (simp only: inj_map_eq_map inj_Some)
qed

lemma listgen_root_cells:
  assumes "sizes_fit child" "root_grid_fits child g bd" and parent: "parent_list = [\<lparr>el_element = r, el_lower = 0, el_upper = 1, el_pcoord = c\<rparr>]"
    and parts: "map (\<lambda>(bi, ti). element_listgen_root parent child parent_list (wrap32 (wrap32 (int bd * bi) + ti)) (wrap32 (int g * int bd)))
      (grid_threads g bd) = map Some parts"
    and "mset elems = mset (concat parts)"
  shows "mset (cells_of elems) = mset (container_cells child [(mt_from_parent_element child (mt_lookup_element parent r 0), c)])"
proof -
  define p where "p = mt_from_parent_element child (mt_lookup_element parent r 0)"
  define n where "n = mt_get_num_elements child p"
  define s where "s = min n quadrants_listgen_max_element_size"
  define m where "m = (n + s - 1) div s"
  let ?run = "\<lambda>t. root_share p n c s (int (g * bd)) t"
  have "parts = map (\<lambda>(bi, ti). ?run (ti + int bd * bi)) (grid_threads g bd)"
    using listgen_root_parts [OF assms(1,2) parent parts p_def n_def] by (simp only: s_def)
  then have "mset (cells_of elems) = mset (cells_of (concat (map (\<lambda>(bi, ti). ?run (ti + int bd * bi)) (grid_threads g bd))))"
    unfolding cells_of_def by (intro mset_concat_order) (simp add: assms(5))
  also have "\<dots> = (\<Sum>t\<leftarrow>[0..<g * bd]. mset (cells_of (?run (int t))))"
    unfolding grid_threads_linear [of ?run bd g] by (simp add: cells_of_concat mset_concat_map comp_def)
  also have "\<dots> = mset (map (\<lambda>j. (p, c, j)) [0..n - 1])"
  proof (cases "0 < s")
    case True
    have gb: "0 < g * bd"
      using assms(2) by (simp add: root_grid_fits_def)
    let ?cells = "\<lambda>i. mset (map (\<lambda>j. (p, c, j)) [i * s..min ((i + 1) * s) n - 1])"
    have "(\<Sum>t\<leftarrow>[0..<g * bd]. mset (cells_of (?run (int t)))) =
        (\<Sum>t\<leftarrow>[0..<g * bd]. \<Sum>i\<leftarrow>strided_int (int (g * bd)) m (0 + int t). ?cells i)"
      using gb True by (simp add: root_share_def m_def cells_of_def mset_concat_map comp_def del: of_nat_mult)
    also have "\<dots> = (\<Sum>i\<leftarrow>[0..m - 1]. ?cells i)"
      by (rule stride_sum [OF gb])
    also have "\<dots> = mset (map (\<lambda>j. (p, c, j)) (concat (map (\<lambda>k. [0 + int k * s..min (0 + int k * s + s) n - 1]) [0..<nat m])))"
      by (simp add: upto_nat map_concat mset_concat_map comp_def distrib_right)
    also have "concat (map (\<lambda>k. [0 + int k * s..min (0 + int k * s + s) n - 1]) [0..<nat m]) = [0..min (0 + int (nat m) * s) n - 1]"
      using True by (intro chunks_up) simp
    also have "\<dots> = [0..n - 1]"
    proof -
      have "0 < n"
        using True by (simp add: s_def)
      then have "n \<le> m * s" "0 \<le> m"
        using True chunk_index [OF True, of m n] by (simp_all add: m_def not_less pos_imp_zdiv_nonneg_iff flip: chunk_index)
      then show ?thesis
        by (simp add: min_absorb2)
    qed
    finally show ?thesis .
  next
    case False
    then have "n = 0" "s = 0"
      using assms(1) by (simp_all add: s_def n_def sizes_fit_def quadrants_listgen_max_element_size_def)
        (metis dual_order.antisym linorder_not_less min_def zero_less_numeral)+
    then show ?thesis
      by (simp add: root_share_def strided_int.simps cells_of_def sum_list_0)
  qed
  finally show ?thesis
    by (simp add: container_cells_def p_def n_def)
qed

section \<open>All active cells of the leaf\<close>

definition zero_coords :: coords where
  "zero_coords = (\<lambda>_. 0)"

text \<open>A grid of \<open>g\<close> blocks of \<open>bd\<close> threads strides over a list, and over the cells of its elements, without wrapping.\<close>

definition struct_grid_fits :: "struct_meta \<Rightarrow> elem list \<Rightarrow> nat \<Rightarrow> nat \<Rightarrow> bool" where
  "struct_grid_fits meta elems g bd \<longleftrightarrow> 0 < g \<and> 0 < bd \<and> int (length elems) + int g \<le> 2 ^ 31 \<and>
     mt_max_num_elements meta + int bd \<le> 2 ^ 31"

text \<open>
  The lists of the SNodes on a path, leaf first: the list of the root is written when the tree is
  created, the others by the kernels above, on grids small enough for their 32-bit indices and in any order
  of the appends of the threads.
\<close>

inductive list_generated :: "nat \<Rightarrow> struct_meta list \<Rightarrow> elem list \<Rightarrow> bool" for r where
  root_list: "list_generated r [root] [\<lparr>el_element = r, el_lower = 0, el_upper = 1, el_pcoord = zero_coords\<rparr>]"
| below_root: "list_generated r [root] parent_list \<Longrightarrow> root_grid_fits child g bd \<Longrightarrow>
    map (\<lambda>(bi, ti). element_listgen_root root child parent_list (wrap32 (wrap32 (int bd * bi) + ti)) (wrap32 (int g * int bd)))
      (grid_threads g bd) = map Some parts \<Longrightarrow>
    mset elems = mset (concat parts) \<Longrightarrow> list_generated r [child, root] elems"
| below: "list_generated r (parent # m # ms) parent_list \<Longrightarrow> struct_grid_fits parent parent_list g bd \<Longrightarrow>
    map (\<lambda>(bi, ti). element_listgen_nonroot parent child parent_list bi (int g) ti (int bd)) (grid_threads g bd) = map Some parts \<Longrightarrow>
    mset elems = mset (concat parts) \<Longrightarrow> list_generated r (child # parent # m # ms) elems"

text \<open>The cells below active cells, from the root down.\<close>

fun tree_cells :: "nat \<Rightarrow> struct_meta list \<Rightarrow> (nat \<times> coords \<times> int) list" where
  "tree_cells r [] = []"
| "tree_cells r [root] = [(r, zero_coords, 0)]"
| "tree_cells r (child # parent # ms) =
     container_cells child (child_containers parent child (tree_cells r (parent # ms)))"

text \<open>The root has one cell, always active, and does not refine coordinates.\<close>

definition root_meta :: "struct_meta \<Rightarrow> bool" where
  "root_meta m \<longleftrightarrow> (\<forall>p j. mt_is_active m p j) \<and> (\<forall>c j. mt_refine_coordinates m c j = c)"

lemma mset_child_cells:
  assumes "mset xs = mset ys"
  shows "mset (container_cells child (child_containers parent child xs)) =
    mset (container_cells child (child_containers parent child ys))"
  by (simp only: child_cells_concat [of child parent xs] child_cells_concat [of child parent ys])
    (rule mset_concat_order [OF assms])

definition elem_ok :: "struct_meta \<Rightarrow> elem \<Rightarrow> bool" where
  "elem_ok meta e \<longleftrightarrow> (let n = mt_get_num_elements meta (el_element e) in
     0 \<le> el_lower e \<and> el_lower e < n \<and> el_upper e \<le> n \<and> el_upper e - el_lower e \<le> min n quadrants_listgen_max_element_size)"

lemma container_elements_ok:
  assumes "sizes_fit meta" "e \<in> set (container_elements p (mt_get_num_elements meta p) c)"
  shows "elem_ok meta e"
proof -
  define n where "n = mt_get_num_elements meta p"
  define s where "s = min n quadrants_listgen_max_element_size"
  obtain l where l: "l \<in> set (strided_int s n 0)"
    and e: "e = \<lparr>el_element = p, el_lower = l, el_upper = min (wrap32 (l + s)) n, el_pcoord = c\<rparr>"
    using assms(2) by (auto simp: container_elements_def Let_def n_def s_def)
  have s: "0 < s"
    using l by (cases "0 < s") (simp_all add: strided_nonpos)
  then have l': "0 \<le> l \<and> l < n"
    using l by (simp add: set_strided_int)
  moreover have "n + quadrants_listgen_max_element_size < 2 ^ 31" "s \<le> quadrants_listgen_max_element_size"
    using sizes_fit_cells [OF assms(1), of p] by (simp_all add: fits32_def n_def s_def)
  ultimately have "fits32 (l + s)"
    using s unfolding fits32_def by linarith
  moreover have "min (l + s) n - l \<le> n" "min (l + s) n - l \<le> quadrants_listgen_max_element_size"
    using \<open>s \<le> quadrants_listgen_max_element_size\<close> l' by linarith+
  ultimately show ?thesis
    using l' by (simp add: e elem_ok_def flip: n_def)
qed

lemma root_share_ok:
  assumes "0 < step" "0 \<le> i" "e \<in> set (root_share p n c (min n quadrants_listgen_max_element_size) step i)"
    and "n = mt_get_num_elements meta p" "0 \<le> n"
  shows "elem_ok meta e"
proof -
  define s where "s = min n quadrants_listgen_max_element_size"
  obtain k where k: "k \<in> set (strided_int step ((n + s - 1) div s) i)"
    and e: "e = \<lparr>el_element = p, el_lower = k * s, el_upper = min ((k + 1) * s) n, el_pcoord = c\<rparr>"
    using assms(3) by (auto simp: s_def root_share_def)
  have s: "0 < s"
  proof (rule ccontr)
    assume "\<not> 0 < s"
    then have "s = 0"
      using assms(5) by (simp add: s_def quadrants_listgen_max_element_size_def)
    then show False
      using k assms(1,2) by (simp add: set_strided_int)
  qed
  have "i \<le> k" "k * s < n"
    using k assms(1) by (auto simp: set_strided_int chunk_index [OF s])
  moreover have "0 \<le> k * s" "(k + 1) * s - k * s = s"
    using \<open>i \<le> k\<close> assms(2) s by (simp_all add: distrib_right)
  moreover have "s \<le> n" "s \<le> quadrants_listgen_max_element_size"
    by (simp_all add: s_def)
  ultimately show ?thesis
    by (simp add: e elem_ok_def flip: assms(4)) linarith
qed

lemma concat_options_D: "concat_options xs = Some ys \<Longrightarrow> \<exists>yss. xs = map Some yss \<and> ys = concat yss"
proof -
  have "those xs = Some yss \<Longrightarrow> xs = map Some yss" for yss
    by (induction xs arbitrary: yss) (auto split: option.splits)
  then show "concat_options xs = Some ys \<Longrightarrow> \<exists>yss. xs = map Some yss \<and> ys = concat yss"
    by (auto simp: concat_options_def)
qed

lemma listgen_nonroot_from_cell:
  assumes "element_listgen_nonroot parent child parent_list bi g ti bd = Some part" "e \<in> set part"
  shows "\<exists>el j. e \<in> set (cell_elements parent child el j)"
proof -
  obtain ixs yss where "map (\<lambda>i. let element = parent_list ! nat i in
         map_option (\<lambda>js. concat (map (cell_elements parent child element) js))
           (gpu_range_loop bd (el_upper element) (wrap32 (el_lower element + ti)))) ixs = map Some yss" "part = concat yss"
    using assms(1) by (auto simp: element_listgen_nonroot_def bind_eq_Some_conv dest!: concat_options_D)
  moreover from this obtain ys where ys: "ys \<in> set yss" "e \<in> set ys"
    using assms(2) by auto
  ultimately obtain i where "i \<in> set ixs" "(let element = parent_list ! nat i in
         map_option (\<lambda>js. concat (map (cell_elements parent child element) js))
           (gpu_range_loop bd (el_upper element) (wrap32 (el_lower element + ti)))) = Some ys"
    by (metis (no_types, lifting) imageE image_eqI list.set_map)
  then show ?thesis
    using ys(2) by (force simp: Let_def)
qed

lemma some_parts:
  assumes "map f xs = map Some parts" "mset elems = mset (concat parts)" "e \<in> set elems"
  shows "\<exists>x part. x \<in> set xs \<and> f x = Some part \<and> e \<in> set part"
proof -
  obtain part where "part \<in> set parts" "e \<in> set part"
    using mset_eq_setD [OF assms(2)] assms(3) by auto
  then show ?thesis
    by (metis (no_types, lifting) assms(1) imageE image_eqI list.set_map)
qed

lemma list_generated_ok:
  assumes "list_generated r (leaf # m # ms) elems" "sizes_fit leaf" "e \<in> set elems"
  shows "elem_ok leaf e"
  using assms(1)
proof cases
  case (below_root parent_list g bd parts)
  from below_root(2) have root: "parent_list = [\<lparr>el_element = r, el_lower = 0, el_upper = 1, el_pcoord = zero_coords\<rparr>]"
    by cases
  note parts = listgen_root_parts [OF assms(2) below_root(3) root below_root(4) refl refl]
  obtain bi ti p n where t: "(bi, ti) \<in> set (grid_threads g bd)" "n = mt_get_num_elements leaf p"
    "e \<in> set (root_share p n zero_coords (min n quadrants_listgen_max_element_size) (int (g * bd)) (ti + int bd * bi))"
    using assms(3) mset_eq_setD [OF below_root(5)] unfolding parts by auto
  moreover have "0 \<le> ti + int bd * bi"
    using t(1) by (auto simp: grid_threads_def)
  moreover have "0 < int (g * bd)" "0 \<le> n"
    using below_root(3) assms(2) t(2) by (simp_all add: root_grid_fits_def sizes_fit_def)
  ultimately show ?thesis
    using root_share_ok by blast
next
  case (below m' ms' parent_list g bd parts)
  obtain bi ti part where "element_listgen_nonroot m leaf parent_list bi (int g) ti (int bd) = Some part" "e \<in> set part"
    using some_parts [OF below(4,5) assms(3)] by auto
  then obtain el j where "e \<in> set (cell_elements m leaf el j)"
    using listgen_nonroot_from_cell by blast
  then show ?thesis
    using container_elements_ok [OF assms(2)] by (auto simp: cell_elements_def Let_def split: if_splits)
qed

lemma elem_ok_in_grid:
  assumes "elem_ok meta e" "sizes_fit meta" "struct_grid_fits meta elems g bd"
  shows "elem_in_grid bd e"
proof -
  have "mt_get_num_elements meta (el_element e) \<le> mt_max_num_elements meta"
    using assms(2) by (simp add: sizes_fit_def)
  then show ?thesis
    using assms(1,3) unfolding elem_ok_def Let_def elem_in_grid_def struct_grid_fits_def by linarith
qed

lemma list_generated_cells:
  assumes "list_generated r ms elems" "list_all sizes_fit (butlast ms)" "root_meta (last ms)"
  shows "mset (cells_of elems) = mset (tree_cells r ms)"
  using assms
proof (induction rule: list_generated.induct)
  case (root_list root)
  then show ?case
    by (simp add: cells_of_def)
next
  case (below_root root parent_list child g bd parts elems)
  from below_root.hyps(1) have "parent_list = [\<lparr>el_element = r, el_lower = 0, el_upper = 1, el_pcoord = zero_coords\<rparr>]"
    by cases
  then show ?case
    using listgen_root_cells [OF _ below_root.hyps(2) _ below_root.hyps(3,4)] below_root.prems
    by (simp add: child_containers_def root_meta_def)
next
  case (below parent m ms parent_list g bd child parts elems)
  have parent: "sizes_fit parent" "list_all (elem_in_grid bd) parent_list"
    using list_generated_ok [OF below.hyps(1)] elem_ok_in_grid [OF _ _ below.hyps(2)] below.prems(1) by (auto simp: list_all_iff)
  have grid: "0 < g" "0 < bd" "int (length parent_list) + int g \<le> 2 ^ 31"
    using below.hyps(2) by (simp_all add: struct_grid_fits_def)
  have "map Some parts = map Some (map (\<lambda>(bi, ti). nonroot_share parent child parent_list bi (int g) ti (int bd)) (grid_threads g bd))"
    unfolding below.hyps(3) [symmetric] map_map
    by (rule map_cong) (auto simp: grid_threads_def listgen_nonroot_share [OF grid(3) parent(2)])
  then have "parts = map (\<lambda>(bi, ti). nonroot_share parent child parent_list bi (int g) ti (int bd)) (grid_threads g bd)"
    by (simp only: inj_map_eq_map inj_Some)
  then show ?case
    using listgen_nonroot_cells [OF _ grid(1,2), of child elems parent parent_list] below.hyps(4) mset_child_cells [OF below.IH]
      below.prems by simp
qed

section \<open>Struct-for on a GPU\<close>

text \<open>The calls a block makes as long as the index of its loop does not wrap.\<close>

definition struct_for_share :: "elem list \<Rightarrow> int \<Rightarrow> int \<Rightarrow> int \<Rightarrow> (elem \<times> int \<times> int) list" where
  "struct_for_share elems element_size grid_dim block_idx =
     concat (map (\<lambda>i. case element_part (elems ! nat i) 0 element_size of None \<Rightarrow> [] | Some c \<Rightarrow> [c])
       (strided_int grid_dim (int (length elems)) block_idx))"

definition gpu_call_cells :: "elem list \<Rightarrow> int \<Rightarrow> nat \<Rightarrow> nat \<Rightarrow> (nat \<times> coords \<times> int) list" where
  "gpu_call_cells elems element_size g bd =
     concat (map (\<lambda>(bi, ti). concat (map (call_cells ti (int bd)) (struct_for_share elems element_size (int g) bi)))
       (grid_threads g bd))"

definition elem_fits :: "int \<Rightarrow> elem \<Rightarrow> bool" where
  "elem_fits element_size e \<longleftrightarrow> 0 \<le> el_lower e \<and> el_lower e + element_size < 2 ^ 31 \<and> el_upper e - el_lower e \<le> element_size"

lemma concat_map_concat: "concat (map f (concat (map g xs))) = concat (map (\<lambda>x. concat (map f (g x))) xs)"
  by (induction xs) auto

lemma mset_map_sum: "(\<Sum>x\<leftarrow>xs. {#f x#}) = mset (map f xs)"
  by (induction xs) auto

lemma smod_nonneg: "0 \<le> (a::int) \<Longrightarrow> 0 < b \<Longrightarrow> a smod b = a mod b"
  using minus_mult_sdiv_eq_smod [of a b] by (simp add: sdiv_nonneg minus_mult_div_eq_mod)

lemma smod_one [simp]: "(i::int) smod 1 = 0"
  by (simp add: signed_modulo_int_def)

lemma gpu_parallel_struct_for_share:
  assumes "int (length elems) + int g \<le> 2 ^ 31" "0 \<le> bi" "bi < int g"
  shows "gpu_parallel_struct_for elems sz (int g) bi = Some (struct_for_share elems sz (int g) bi)"
proof -
  have "gpu_range_loop (int g) (int (length elems)) bi = Some (strided_int (int g) (int (length elems)) bi)"
    using assms by (intro gpu_range_loop_strided) (auto simp: fits32_def)
  then show ?thesis
    by (simp add: gpu_parallel_struct_for_def struct_for_share_def)
qed

lemma gpu_struct_for_elems:
  assumes "list_all (elem_fits sz) elems" "0 \<le> sz" "0 < g" "0 < bd"
  shows "mset (gpu_call_cells elems sz g bd) = mset (cells_of elems)"
proof -
  let ?at = "\<lambda>i. elems ! nat i" and ?cell = "\<lambda>e j. (el_element e, el_pcoord e, j)"
  have part: "concat (map (call_cells ti (int bd)) (case element_part e 0 sz of None \<Rightarrow> [] | Some c \<Rightarrow> [c])) =
      map (?cell e) (strided_int (int bd) (el_upper e) (el_lower e + ti))" if "elem_fits sz e" "0 \<le> ti" for e ti
  proof -
    have "fits32 (el_lower e)" "fits32 sz" "fits32 (el_lower e + sz)" "wrap32 0 = 0"
      using that assms(2) by (auto simp: elem_fits_def fits32_def wrap32_def)
    moreover have "strided_int (int bd) (el_upper e) (el_lower e + ti) = []" if "\<not> el_lower e < el_upper e"
      using that \<open>0 \<le> ti\<close> by (simp add: strided_int.simps)
    ultimately show ?thesis
      using that by (auto simp: element_part_def call_cells_def elem_fits_def Let_def min_absorb2)
  qed
  have thread: "mset (concat (map (call_cells ti (int bd)) (struct_for_share elems sz (int g) bi))) =
      (\<Sum>i\<leftarrow>strided_int (int g) (int (length elems)) bi. \<Sum>j\<leftarrow>strided_int (int bd) (el_upper (?at i)) (el_lower (?at i) + ti).
         {#?cell (?at i) j#})" if "0 \<le> bi" "0 \<le> ti" for bi ti
  proof -
    have "elem_fits sz (?at i)" if "i \<in> set (strided_int (int g) (int (length elems)) bi)" for i
      using that assms(1,3) \<open>0 \<le> bi\<close> by (auto simp: set_strided_int list_all_length nat_less_iff)
    then have "concat (map (call_cells ti (int bd)) (struct_for_share elems sz (int g) bi)) =
        concat (map (\<lambda>i. map (?cell (?at i)) (strided_int (int bd) (el_upper (?at i)) (el_lower (?at i) + ti)))
          (strided_int (int g) (int (length elems)) bi))"
      using part that by (simp add: struct_for_share_def Let_def concat_map_concat cong: map_cong)
    then show ?thesis
      by (simp add: mset_concat_map mset_map_sum)
  qed
  have "mset (gpu_call_cells elems sz g bd) =
      (\<Sum>(bi, ti)\<leftarrow>grid_threads g bd. \<Sum>i\<leftarrow>strided_int (int g) (int (length elems)) bi.
         \<Sum>j\<leftarrow>strided_int (int bd) (el_upper (?at i)) (el_lower (?at i) + ti). {#?cell (?at i) j#})"
    unfolding gpu_call_cells_def mset_concat_map
    by (rule arg_cong [where f = sum_list], rule map_cong) (auto simp: grid_threads_def thread)
  also have "\<dots> = (\<Sum>i\<leftarrow>[0..int (length elems) - 1]. \<Sum>j\<leftarrow>[el_lower (?at i)..el_upper (?at i) - 1]. {#?cell (?at i) j#})"
    by (rule block_grid_sum [OF assms(3,4)])
  also have "\<dots> = (\<Sum>e\<leftarrow>elems. \<Sum>j\<leftarrow>[el_lower e..el_upper e - 1]. {#?cell e j#})"
    by (subst (3) map_nth [symmetric]) (simp only: upto_nat map_map comp_def nat_int)
  also have "\<dots> = mset (cells_of elems)"
    by (simp add: cells_of_def mset_concat_map mset_map_sum)
  finally show ?thesis .
qed


section \<open>Struct-for on the CPU\<close>

definition cpu_call_cells :: "elem list \<Rightarrow> int \<Rightarrow> int \<Rightarrow> int \<Rightarrow> (nat \<times> coords \<times> int) list" where
  "cpu_call_cells elems element_size element_split task_id =
     (case cpu_struct_for_block_helper elems element_size element_split task_id of
        None \<Rightarrow> [] | Some c \<Rightarrow> call_cells 0 1 c)"

text \<open>What the tasks of an element reach: whole parts, no more.\<close>

definition reached_part :: "int \<Rightarrow> int \<Rightarrow> elem \<Rightarrow> elem" where
  "reached_part element_size element_split e =
     e\<lparr>el_upper := min (el_lower e + element_split * (element_size sdiv element_split)) (el_upper e)\<rparr>"

lemma strided_one: "strided_int 1 e i = [i..e - 1]"
proof -
  have "strided_int 1 e i = [i..e - 1]" if "n = (1::int)" for n
  proof (induction "nat (e - i)" arbitrary: i)
    case 0
    then show ?case
      by (simp add: strided_int.simps [of 1 e i])
  next
    case (Suc m)
    then have "[i..e - 1] = i # [i + 1..e - 1]" "m = nat (e - (i + 1))" "i < e"
      by (simp_all add: upto_rec1)
    then show ?case
      using Suc.hyps(1) [of "i + 1"] by (simp add: strided_int.simps [of 1 e i])
  qed
  then show ?thesis
    by blast
qed

lemma cpu_struct_for_elems:
  assumes fits: "list_all (elem_fits sz) elems" "0 \<le> sz" and split: "0 < k" "int (length elems * k) < 2 ^ 31"
    and order: "mset ts = mset [0..cpu_parallel_struct_for elems (int k) - 1]"
  shows "mset (concat (map (cpu_call_cells elems sz (int k)) ts)) = mset (cells_of (map (reached_part sz (int k)) elems))"
proof -
  let ?ps = "sz sdiv int k" and ?run = "cpu_call_cells elems sz (int k)" and ?n = "length elems"
  have ps: "0 \<le> ?ps" "int k * ?ps \<le> sz"
  proof -
    have "?ps = sz div int k"
      using split(1) fits(2) by (simp add: sdiv_nonneg)
    moreover have "int k * (sz div int k) \<le> sz"
      using mult_div_mod_eq [of "int k" sz] split(1) pos_mod_sign [of "int k" sz] by linarith
    ultimately show "0 \<le> ?ps" "int k * ?ps \<le> sz"
      using split(1) fits(2) by (simp_all add: pos_imp_zdiv_nonneg_iff)
  qed
  have task: "?run (ti + int k * bi) = map (\<lambda>j. (el_element e, el_pcoord e, j))
      [el_lower e + ti * ?ps..min (el_lower e + ti * ?ps + ?ps) (el_upper e) - 1]"
    if t: "bi = int b" "ti = int t" "b < ?n" "t < k" "e = elems ! b" for bi ti b t e
  proof -
    have q: "(ti + int k * bi) sdiv int k = bi" "(ti + int k * bi) smod int k = ti"
      using t(1,2,4) by (simp_all add: sdiv_nonneg smod_nonneg)
    have e: "elem_fits sz e"
      using fits(1) t(3,5) by (simp add: list_all_length)
    have "(ti + 1) * ?ps \<le> int k * ?ps" "0 \<le> ti * ?ps"
      using t(2,4) ps(1) by (auto intro!: mult_right_mono)
    then have m: "ti * ?ps + ?ps \<le> sz" "0 \<le> ti * ?ps" "(ti + 1) * ?ps = ti * ?ps + ?ps"
      using ps(2) by (simp_all add: distrib_right)
    have "fits32 (ti * ?ps)" "fits32 ((ti + 1) * ?ps)" "fits32 (el_lower e + ti * ?ps)" "fits32 (el_lower e + (ti + 1) * ?ps)"
      using m e ps(1) unfolding fits32_def elem_fits_def by auto
    then have part: "element_part e ti ?ps = (if el_lower e + ti * ?ps < min (el_lower e + ti * ?ps + ?ps) (el_upper e)
        then Some (e, el_lower e + ti * ?ps, min (el_lower e + ti * ?ps + ?ps) (el_upper e)) else None)"
      by (simp add: element_part_def Let_def m(3) add.assoc)
    have "elems ! nat bi = e"
      using t(1,5) by simp
    then have "cpu_struct_for_block_helper elems sz (int k) (ti + int k * bi) = element_part e ti ?ps"
      by (simp only: cpu_struct_for_block_helper_def q)
    then show ?thesis
      by (simp add: cpu_call_cells_def part call_cells_def strided_one) linarith
  qed
  have "mset (concat (map ?run ts)) = mset (concat (map ?run [0..int (?n * k) - 1]))"
  proof (rule mset_concat_order)
    have "fits32 (int ?n * int k)"
      using split(2) of_nat_0_le_iff [of "?n * k"] unfolding fits32_def of_nat_mult [symmetric] by linarith
    then show "mset ts = mset [0..int (?n * k) - 1]"
      using order by (simp add: cpu_parallel_struct_for_def)
  qed
  also have "concat (map ?run [0..int (?n * k) - 1]) = concat (map (\<lambda>(bi, ti). ?run (ti + int k * bi)) (grid_threads ?n k))"
    by (simp only: grid_threads_linear upto_nat nat_int map_map comp_def)
  also have "\<dots> = concat (map (\<lambda>b. concat (map (\<lambda>t. ?run (int t + int k * int b)) [0..<k])) [0..<?n])"
    by (simp add: grid_threads_def concat_map_concat comp_def)
  also have "\<dots> = concat (map (\<lambda>e. map (\<lambda>j. (el_element e, el_pcoord e, j))
      [el_lower e..min (el_lower e + int k * ?ps) (el_upper e) - 1]) elems)"
  proof -
    have "concat (map (\<lambda>t. ?run (int t + int k * int b)) [0..<k]) = map (\<lambda>j. (el_element e, el_pcoord e, j))
        [el_lower e..min (el_lower e + int k * ?ps) (el_upper e) - 1]" if "b < ?n" "e = elems ! b" for b e
    proof -
      have "map (\<lambda>t. ?run (int t + int k * int b)) [0..<k] = map (\<lambda>t. map (\<lambda>j. (el_element e, el_pcoord e, j))
          [el_lower e + int t * ?ps..min (el_lower e + int t * ?ps + ?ps) (el_upper e) - 1]) [0..<k]"
        using task that by simp
      then have "concat (map (\<lambda>t. ?run (int t + int k * int b)) [0..<k]) = map (\<lambda>j. (el_element e, el_pcoord e, j))
          (concat (map (\<lambda>t. [el_lower e + int t * ?ps..min (el_lower e + int t * ?ps + ?ps) (el_upper e) - 1]) [0..<k]))"
        by (simp only: map_concat map_map comp_def)
      then show ?thesis
        by (simp only: chunks_up [OF ps(1)])
    qed
    then show ?thesis
      by (intro arg_cong [where f = concat] nth_equalityI) simp_all
  qed
  finally show ?thesis
    by (simp add: cells_of_def reached_part_def comp_def)
qed

lemma reached_all:
  assumes "elem_fits sz e" "0 < k" "k dvd sz" "0 \<le> sz"
  shows "reached_part sz k e = e"
proof -
  have "k * (sz sdiv k) = sz"
    using assms by (simp add: sdiv_nonneg)
  then show ?thesis
    using assms(1) by (simp add: reached_part_def elem_fits_def min_absorb2)
qed


section \<open>The loop over the leaf\<close>

text \<open>The cells for which the threads of a grid, or a task of the pool, run the loop.\<close>

definition gpu_struct_for_cells :: "struct_meta \<Rightarrow> elem list \<Rightarrow> int \<Rightarrow> nat \<Rightarrow> nat \<Rightarrow> (nat \<times> coords \<times> int) list option" where
  "gpu_struct_for_cells leaf elems element_size g bd =
     concat_options (map (\<lambda>(bi, ti). map_option (\<lambda>calls. concat (map (struct_for_body leaf ti (int bd)) calls))
       (gpu_parallel_struct_for elems element_size (int g) bi)) (grid_threads g bd))"

definition cpu_struct_for_cells :: "struct_meta \<Rightarrow> elem list \<Rightarrow> int \<Rightarrow> int \<Rightarrow> int \<Rightarrow> (nat \<times> coords \<times> int) list" where
  "cpu_struct_for_cells leaf elems element_size element_split task_id =
     (case cpu_struct_for_block_helper elems element_size element_split task_id of
        None \<Rightarrow> [] | Some c \<Rightarrow> struct_for_body leaf 0 1 c)"

lemma gpu_struct_for_filter:
  assumes "int (length elems) + int g \<le> 2 ^ 31"
  shows "gpu_struct_for_cells leaf elems sz g bd = Some (filter (exec_cond leaf) (gpu_call_cells elems sz g bd))"
proof -
  have "gpu_struct_for_cells leaf elems sz g bd =
      Some (concat (map (\<lambda>(bi, ti). concat (map (struct_for_body leaf ti (int bd)) (struct_for_share elems sz (int g) bi))) (grid_threads g bd)))"
    unfolding gpu_struct_for_cells_def
    by (rule concat_options_Some) (auto simp: grid_threads_def gpu_parallel_struct_for_share [OF assms])
  then show ?thesis
    by (simp add: gpu_call_cells_def struct_for_body_def [abs_def] filter_concat comp_def case_prod_unfold)
qed

lemma cpu_struct_for_filter: "cpu_struct_for_cells leaf elems sz k t = filter (exec_cond leaf) (cpu_call_cells elems sz k t)"
  by (simp add: cpu_struct_for_cells_def cpu_call_cells_def struct_for_body_def split: option.split)

lemma cpu_struct_for_concat:
  "concat (map (cpu_struct_for_cells leaf elems sz k) ts) = filter (exec_cond leaf) (concat (map (cpu_call_cells elems sz k) ts))"
  by (simp add: filter_concat comp_def cpu_struct_for_filter [abs_def])

text \<open>The active cells of the leaf. A leaf that is not tested has only active cells.\<close>

definition active_cells :: "nat \<Rightarrow> struct_meta \<Rightarrow> struct_meta list \<Rightarrow> (nat \<times> coords \<times> int) list" where
  "active_cells r leaf ms = filter (\<lambda>(p, c, j). mt_is_active leaf p j) (tree_cells r (leaf # ms))"

definition tested_or_active :: "struct_meta \<Rightarrow> bool" where
  "tested_or_active leaf \<longleftrightarrow> mt_tested leaf \<or>
     (\<forall>p j. 0 \<le> j \<longrightarrow> j < mt_get_num_elements leaf p \<longrightarrow> mt_is_active leaf p j)"

lemma exec_cond_active:
  assumes "tested_or_active leaf"
  shows "filter (exec_cond leaf) (tree_cells r (leaf # m # ms)) = active_cells r leaf (m # ms)"
  unfolding active_cells_def
  by (rule filter_cong) (use assms in \<open>auto simp: exec_cond_def tested_or_active_def container_cells_def\<close>)

lemma generated_fits:
  assumes "list_generated r (leaf # m # ms) elems" "sizes_fit leaf"
  shows "list_all (elem_fits (list_element_size leaf)) elems" "0 \<le> list_element_size leaf"
proof -
  have sz: "list_element_size leaf \<le> quadrants_listgen_max_element_size"
    "mt_max_num_elements leaf + quadrants_listgen_max_element_size < 2 ^ 31"
    using assms(2) by (simp_all add: list_element_size_def sizes_fit_def)
  have "elem_fits (list_element_size leaf) e" if "e \<in> set elems" for e
  proof -
    let ?n = "mt_get_num_elements leaf (el_element e)"
    have "?n \<le> mt_max_num_elements leaf"
      using assms(2) by (simp add: sizes_fit_def)
    moreover have "0 \<le> el_lower e" "el_lower e < ?n" "el_upper e - el_lower e \<le> min ?n quadrants_listgen_max_element_size"
      using list_generated_ok [OF assms that] by (simp_all add: elem_ok_def Let_def)
    ultimately show ?thesis
      using sz unfolding elem_fits_def list_element_size_def by (auto simp: min_def split: if_splits)
  qed
  then show "list_all (elem_fits (list_element_size leaf)) elems"
    by (simp add: list_all_iff)
  have "0 \<le> mt_max_num_elements leaf"
    using assms(2) by (meson order.trans sizes_fit_def)
  then show "0 \<le> list_element_size leaf"
    by (simp add: list_element_size_def quadrants_listgen_max_element_size_def)
qed

lemma gpu_struct_for_tree:
  assumes "list_generated r (leaf # m # ms) elems" "list_all sizes_fit (butlast (leaf # m # ms))" "root_meta (last (leaf # m # ms))"
    and "tested_or_active leaf" "struct_grid_fits leaf elems g bd"
  shows "\<exists>cells. gpu_struct_for_cells leaf elems (list_element_size leaf) g bd = Some cells \<and> mset cells = mset (active_cells r leaf (m # ms))"
  using list_generated_cells [OF assms(1-3)] generated_fits [OF assms(1)] gpu_struct_for_elems [of _ elems g bd]
    assms(2) assms(5) [unfolded struct_grid_fits_def]
  by (simp add: gpu_struct_for_filter mset_filter flip: exec_cond_active [OF assms(4)] del: tree_cells.simps)

lemma num_splits_pos: "0 < num_splits sz bd"
  by (simp add: num_splits_def)

lemma cpu_struct_for_tree:
  assumes "list_generated r (leaf # m # ms) elems" "list_all sizes_fit (butlast (leaf # m # ms))" "root_meta (last (leaf # m # ms))"
    and "tested_or_active leaf"
    and k: "k = num_splits (list_element_size leaf) bd" "k dvd list_element_size leaf" "int (length elems) * k < 2 ^ 31"
    and order: "mset ts = mset [0..cpu_parallel_struct_for elems k - 1]"
  shows "mset (concat (map (cpu_struct_for_cells leaf elems (list_element_size leaf) k) ts)) = mset (active_cells r leaf (m # ms))"
proof -
  let ?sz = "list_element_size leaf"
  note fits = generated_fits [OF assms(1)]
  have leaf: "sizes_fit leaf"
    using assms(2) by simp
  obtain n where n: "k = int n" "0 < n"
    using num_splits_pos [of ?sz bd] k(1) by (metis pos_int_cases)
  have "map (reached_part ?sz k) elems = elems"
    using fits [OF leaf] reached_all [OF _ _ k(2)] num_splits_pos [of ?sz bd] k(1)
    by (intro map_idI) (simp add: list_all_iff)
  then have "mset (concat (map (cpu_call_cells elems ?sz k) ts)) = mset (tree_cells r (leaf # m # ms))"
    using cpu_struct_for_elems [OF fits [OF leaf] n(2), of ts] list_generated_cells [OF assms(1-3)] k(3) order by (simp add: n(1))
  then show ?thesis
    by (simp add: cpu_struct_for_concat mset_filter flip: exec_cond_active [OF assms(4)] del: tree_cells.simps)
qed

text \<open>
  When the number of splits does not divide the size of an element, the parts do not reach its end: ten
  cells under a container of four.
\<close>

lemma struct_for_misses_cell:
  assumes "mt_max_num_elements leaf = 10" "mt_max_num_elements parent = 4"
    and k: "k = num_splits (list_element_size leaf) (cpu_struct_for_block_dim parent (offload_struct_for_block_dim 10 128 0))"
    and elems: "elems = container_elements p 10 c" and order: "mset ts = mset [0..cpu_parallel_struct_for elems k - 1]"
  shows "(p, c, 9) \<notin> set (concat (map (cpu_struct_for_cells leaf elems (list_element_size leaf) k) ts))"
    and "(p, c, 9) \<in> set (cells_of elems)"
proof -
  have sz: "list_element_size leaf = 10" "k = 3"
    using assms(1,2) by (simp_all add: list_element_size_def quadrants_listgen_max_element_size_def k num_splits_def
        cpu_struct_for_block_dim_def offload_struct_for_block_dim_def sdiv_nonneg smod_nonneg)
  have el: "elems = [\<lparr>el_element = p, el_lower = 0, el_upper = 10, el_pcoord = c\<rparr>]"
    by (simp add: elems container_elements_def quadrants_listgen_max_element_size_def strided_int.simps Let_def wrap32_def)
  then have "mset (concat (map (cpu_call_cells elems 10 3) ts)) = mset (cells_of (map (reached_part 10 3) elems))"
    using cpu_struct_for_elems [of 10 elems 3 ts] order sz(2) by (simp add: elem_fits_def)
  also have "\<dots> = mset (map (\<lambda>j. (p, c, j)) [0..8])"
    by (simp add: el cells_of_def reached_part_def sdiv_nonneg)
  finally have "set (concat (map (cpu_call_cells elems 10 3) ts)) = set (map (\<lambda>j. (p, c, j)) [0..8])"
    by (rule mset_eq_setD)
  then show "(p, c, 9) \<notin> set (concat (map (cpu_struct_for_cells leaf elems (list_element_size leaf) k) ts))"
    by (simp only: sz cpu_struct_for_concat) auto
  show "(p, c, 9) \<in> set (cells_of elems)"
    by (simp add: el cells_of_def)
qed

end
