(* ===== verification/SampleLoops.thy ===== *)
theory SampleLoops
  imports PoolNotify ThreadPool StructFor
begin

text \<open>A pool that has run one task, and a small sparse tree: root, a pointer node with one active cell, a leaf.\<close>

definition sample_threads :: thread_pool where
  "sample_threads = solo_pool 1 [(0, 0)] 2 1 0 2 2 True Asleep 2 MWaiting"

lemma sample_threads_reach: "tp_reach (new_thread_pool 1 0) sample_threads"
  unfolding sample_threads_def by (rule solo_reach)

lemma sample_threads_simps [simp]:
  "tp_master sample_threads = MWaiting" "run_may_return sample_threads" "tp_task_tail sample_threads = 1" "tp_done sample_threads = [(0, 0)]"
  by (simp_all add: sample_threads_def solo_pool_def run_may_return_def)

definition sample_root_meta :: struct_meta where
  "sample_root_meta = \<lparr>mt_tested = False, mt_max_num_elements = 1, mt_lookup_element = \<lambda>p j. p, mt_from_parent_element = \<lambda>p. p,
     mt_is_active = \<lambda>p j. True, mt_get_num_elements = \<lambda>p. 1, mt_refine_coordinates = \<lambda>c j. c\<rparr>"

definition sample_pointer_meta :: struct_meta where
  "sample_pointer_meta = \<lparr>mt_tested = True, mt_max_num_elements = 2, mt_lookup_element = \<lambda>p j. p + 10 * nat j, mt_from_parent_element = \<lambda>p. p,
     mt_is_active = \<lambda>p j. j = 1, mt_get_num_elements = \<lambda>p. 2, mt_refine_coordinates = \<lambda>c j. c(0 := 2 * c 0 + j)\<rparr>"

definition sample_leaf_meta :: struct_meta where
  "sample_leaf_meta = \<lparr>mt_tested = True, mt_max_num_elements = 4, mt_lookup_element = \<lambda>p j. p + 4 * nat j, mt_from_parent_element = \<lambda>p. p,
     mt_is_active = \<lambda>p j. j \<noteq> 2, mt_get_num_elements = \<lambda>p. 4, mt_refine_coordinates = \<lambda>c j. c(0 := 4 * c 0 + j)\<rparr>"

lemmas sample_metas = sample_root_meta_def sample_pointer_meta_def sample_leaf_meta_def

abbreviation sample_path :: "struct_meta list" where
  "sample_path \<equiv> [sample_leaf_meta, sample_pointer_meta, sample_root_meta]"

definition sample_leaf_list :: "elem list" where
  "sample_leaf_list = [\<lparr>el_element = 110, el_lower = 0, el_upper = 4, el_pcoord = zero_coords(0 := 1)\<rparr>]"

lemma grid_one: "grid_threads (Suc 0) (Suc 0) = [(0, 0)]"
  by (simp add: grid_threads_def)

lemma sample_generated: "list_generated 100 sample_path sample_leaf_list"
proof -
  have "list_generated 100 [sample_root_meta] [\<lparr>el_element = 100, el_lower = 0, el_upper = 1, el_pcoord = zero_coords\<rparr>]"
    by (rule list_generated.root_list)
  then have "list_generated 100 [sample_pointer_meta, sample_root_meta]
      [\<lparr>el_element = 100, el_lower = 0, el_upper = 2, el_pcoord = zero_coords\<rparr>]"
    by (rule list_generated.below_root [where g = 1 and bd = 1 and parts = "[[\<lparr>el_element = 100, el_lower = 0, el_upper = 2, el_pcoord = zero_coords\<rparr>]]"])
      (simp_all add: grid_one element_listgen_root_def Let_def sample_metas quadrants_listgen_max_element_size_def root_elements.simps
        root_grid_fits_def wrap32_def)
  then show ?thesis
    by (rule list_generated.below [where g = 1 and bd = 1 and parts = "[sample_leaf_list]"])
      (simp_all add: grid_one struct_grid_fits_def concat_options_def gpu_range_loop.simps element_listgen_nonroot_def cell_elements_def container_elements_def Let_def sample_metas
        quadrants_listgen_max_element_size_def strided_int.simps sample_leaf_list_def zero_coords_def wrap32_def)
qed

lemma sample_sizes: "list_all sizes_fit (butlast sample_path)" "root_meta (last sample_path)"
  by (simp_all add: sizes_fit_def root_meta_def sample_metas quadrants_listgen_max_element_size_def)

lemma sample_tree:
  "active_cells 100 sample_leaf_meta [sample_pointer_meta, sample_root_meta] = map (\<lambda>j. (110, zero_coords(0 := 1), j)) [0, 1, 3]"
  by (simp add: active_cells_def container_cells_def child_containers_def sample_metas upto_rec1 zero_coords_def)

lemma sample_tested: "tested_or_active sample_leaf_meta"
  by (simp add: tested_or_active_def sample_metas)

lemma sample_leaf_size: "list_element_size sample_leaf_meta = 4"
  by (simp add: list_element_size_def sample_metas quadrants_listgen_max_element_size_def)

lemma sample_grid_fits: "struct_grid_fits sample_leaf_meta sample_leaf_list 2 3"
  by (simp add: struct_grid_fits_def sample_metas sample_leaf_list_def)

lemma sample_splits: "num_splits 4 4 = 1" "cpu_parallel_struct_for sample_leaf_list 1 = 1"
  by (simp_all add: num_splits_def cpu_parallel_struct_for_def sample_leaf_list_def wrap32_def sdiv_nonneg smod_nonneg)

end
