(* ===== verification/SparseCells.thy ===== *)
theory SparseCells
  imports MemBlocks
begin

text \<open>
  What kernels rely on when they use a sparse field, whatever its nodes are: cells are activated, found,
  written and deactivated, an active cell keeps its place and its contents until it is deactivated, and
  distinct cells do not overlap. \<open>cell_run\<close> pairs the states of a field with the map from active cells to
  contents that the same operations have on a plain map.
\<close>

section \<open>Operations on cells\<close>

record ('c, 's) cell_ops =
  co_cells :: "'c set"
  co_size :: nat
  co_activate :: "'c \<Rightarrow> 's \<Rightarrow> 's result"
  co_is_active :: "'c \<Rightarrow> 's \<Rightarrow> bool"
  co_lookup :: "'c \<Rightarrow> 's \<Rightarrow> nat"
  co_mem :: "'s \<Rightarrow> nat \<Rightarrow> 8 word"
  co_put :: "nat \<Rightarrow> 8 word \<Rightarrow> 's \<Rightarrow> 's"
  co_enables :: "'c \<Rightarrow> 'c set"
  co_fresh :: "'c \<Rightarrow> 's \<Rightarrow> nat \<Rightarrow> 8 word"

text \<open>The contents of a cell, and the field as a map.\<close>

definition cell_bytes :: "('c, 's) cell_ops \<Rightarrow> 'c \<Rightarrow> 's \<Rightarrow> nat \<Rightarrow> 8 word" where
  "cell_bytes ops c s k = (if k < co_size ops then co_mem ops s (co_lookup ops c s + k) else 0)"

definition cell_view :: "('c, 's) cell_ops \<Rightarrow> 's \<Rightarrow> 'c \<Rightarrow> (nat \<Rightarrow> 8 word) option" where
  "cell_view ops s c = (if c \<in> co_cells ops \<and> co_is_active ops c s then Some (cell_bytes ops c s) else None)"

text \<open>What activating and deactivating cells does to the map.\<close>

definition map_enable :: "'c set \<Rightarrow> ('c \<Rightarrow> 'b) \<Rightarrow> ('c \<Rightarrow> 'b option) \<Rightarrow> 'c \<Rightarrow> 'b option" where
  "map_enable C f A d = (if d \<in> C \<and> A d = None then Some (f d) else A d)"

definition map_disable :: "'c set \<Rightarrow> ('c \<Rightarrow> 'b option) \<Rightarrow> 'c \<Rightarrow> 'b option" where
  "map_disable C A d = (if d \<in> C then None else A d)"

lemma map_enable_single: "map_enable {c} f A = (if A c = None then A(c \<mapsto> f c) else A)"
  by (auto simp: map_enable_def fun_eq_iff)

lemma map_disable_single: "map_disable {c} A = A(c := None)"
  by (auto simp: map_disable_def fun_eq_iff)

inductive cell_run :: "('c, 's) cell_ops \<Rightarrow> ('c \<Rightarrow> 's \<Rightarrow> 's result) \<Rightarrow> ('c \<Rightarrow> 'c set) \<Rightarrow> ('s \<Rightarrow> 's \<Rightarrow> bool) \<Rightarrow> 's \<Rightarrow>
    's \<Rightarrow> ('c \<Rightarrow> (nat \<Rightarrow> 8 word) option) \<Rightarrow> bool"
  for ops deactivate disables collect s0 where
  run_start: "cell_run ops deactivate disables collect s0 s0 (cell_view ops s0)"
| run_activate: "cell_run ops deactivate disables collect s0 s A \<Longrightarrow> c \<in> co_cells ops \<Longrightarrow> co_activate ops c s = Inr s' \<Longrightarrow>
    cell_run ops deactivate disables collect s0 s' (map_enable (co_enables ops c) (\<lambda>d. co_fresh ops d s) A)"
| run_put: "cell_run ops deactivate disables collect s0 s A \<Longrightarrow> A c = Some f \<Longrightarrow> k < co_size ops \<Longrightarrow>
    cell_run ops deactivate disables collect s0 (co_put ops (co_lookup ops c s + k) v s) (A(c := Some (f(k := v))))"
| run_deactivate: "cell_run ops deactivate disables collect s0 s A \<Longrightarrow> c \<in> co_cells ops \<Longrightarrow> deactivate c s = Inr s' \<Longrightarrow>
    cell_run ops deactivate disables collect s0 s' (map_disable (disables c) A)"
| run_collect: "cell_run ops deactivate disables collect s0 s A \<Longrightarrow> collect s s' \<Longrightarrow>
    cell_run ops deactivate disables collect s0 s' A"

section \<open>The contract\<close>

locale cell_container =
  fixes ops :: "('c, 's) cell_ops" and inv :: "'s \<Rightarrow> bool"
  assumes activate_inv: "inv s \<Longrightarrow> c \<in> co_cells ops \<Longrightarrow> co_activate ops c s = Inr s' \<Longrightarrow> inv s'"
    and enables_cells: "c \<in> co_cells ops \<Longrightarrow> c \<in> co_enables ops c \<and> co_enables ops c \<subseteq> co_cells ops"
    and activate_view: "inv s \<Longrightarrow> c \<in> co_cells ops \<Longrightarrow> co_activate ops c s = Inr s' \<Longrightarrow>
      cell_view ops s' = map_enable (co_enables ops c) (\<lambda>d. co_fresh ops d s) (cell_view ops s)"
    and activate_stays: "inv s \<Longrightarrow> c \<in> co_cells ops \<Longrightarrow> co_activate ops c s = Inr s' \<Longrightarrow>
      d \<in> co_cells ops \<Longrightarrow> co_is_active ops d s \<Longrightarrow> co_lookup ops d s' = co_lookup ops d s"
    and cells_apart: "inv s \<Longrightarrow> c \<in> co_cells ops \<Longrightarrow> d \<in> co_cells ops \<Longrightarrow> co_is_active ops c s \<Longrightarrow> co_is_active ops d s \<Longrightarrow>
      c \<noteq> d \<Longrightarrow> apart (co_lookup ops c s, co_size ops) (co_lookup ops d s, co_size ops)"
    and put_inv: "inv s \<Longrightarrow> c \<in> co_cells ops \<Longrightarrow> co_is_active ops c s \<Longrightarrow> k < co_size ops \<Longrightarrow>
      inv (co_put ops (co_lookup ops c s + k) v s)"
    and put_stays: "inv s \<Longrightarrow> c \<in> co_cells ops \<Longrightarrow> co_is_active ops c s \<Longrightarrow> k < co_size ops \<Longrightarrow> d \<in> co_cells ops \<Longrightarrow>
      co_is_active ops d (co_put ops (co_lookup ops c s + k) v s) = co_is_active ops d s \<and>
      co_lookup ops d (co_put ops (co_lookup ops c s + k) v s) = co_lookup ops d s"
    and mem_put: "co_mem ops (co_put ops a v s) = (co_mem ops s)(a := v)"
begin

lemma put_view:
  assumes "inv s" "cell_view ops s c = Some f" "k < co_size ops"
  shows "cell_view ops (co_put ops (co_lookup ops c s + k) v s) = (cell_view ops s)(c := Some (f(k := v)))"
proof
  fix d
  let ?s = "co_put ops (co_lookup ops c s + k) v s"
  have c: "c \<in> co_cells ops" "co_is_active ops c s" "f = cell_bytes ops c s"
    using assms(2) by (auto simp: cell_view_def split: if_splits)
  note stays = put_stays [OF assms(1) c(1,2) assms(3), of _ v]
  have "cell_bytes ops d ?s = (if d = c then f(k := v) else cell_bytes ops d s)"
    if d: "d \<in> co_cells ops" "co_is_active ops d s"
  proof
    fix j
    show "cell_bytes ops d ?s j = (if d = c then f(k := v) else cell_bytes ops d s) j"
    proof (cases "d = c")
      case True
      then show ?thesis
        using stays [OF c(1)] assms(3) by (simp add: c(3) cell_bytes_def mem_put)
    next
      case False
      then have "apart (co_lookup ops d s, co_size ops) (co_lookup ops c s, co_size ops)"
        using cells_apart [OF assms(1) d(1) c(1) d(2) c(2)] by blast
      then have "co_lookup ops d s + j \<noteq> co_lookup ops c s + k" if "j < co_size ops"
        using that assms(3) by (auto simp: apart_def)
      then show ?thesis
        using False stays [OF d(1)] by (simp add: cell_bytes_def mem_put)
    qed
  qed
  then show "cell_view ops ?s d = ((cell_view ops s)(c := Some (f(k := v)))) d"
    using stays [of d] c by (cases "d = c") (auto simp: cell_view_def)
qed

text \<open>Activating a cell finds it active.\<close>

lemma activate_lookup:
  assumes "inv s" "c \<in> co_cells ops" "co_activate ops c s = Inr s'"
  shows "co_is_active ops c s'"
proof -
  have "cell_view ops s' c \<noteq> None"
    using activate_view [OF assms] enables_cells [OF assms(2)] by (simp add: map_enable_def)
  then show ?thesis
    by (auto simp: cell_view_def split: if_splits)
qed

end

text \<open>Containers whose cells are given back, with a collection in between.\<close>

locale releasing_container = cell_container +
  fixes deactivate :: "'a \<Rightarrow> 'b \<Rightarrow> 'b result" and disables :: "'a \<Rightarrow> 'a set" and collect :: "'b \<Rightarrow> 'b \<Rightarrow> bool"
  assumes deactivate_inv: "inv s \<Longrightarrow> c \<in> co_cells ops \<Longrightarrow> deactivate c s = Inr s' \<Longrightarrow> inv s'"
    and deactivate_view: "inv s \<Longrightarrow> c \<in> co_cells ops \<Longrightarrow> deactivate c s = Inr s' \<Longrightarrow>
      cell_view ops s' = map_disable (disables c) (cell_view ops s)"
    and collect_inv: "inv s \<Longrightarrow> collect s s' \<Longrightarrow> inv s'"
    and collect_view: "inv s \<Longrightarrow> collect s s' \<Longrightarrow> cell_view ops s' = cell_view ops s"
begin

lemma run_view:
  assumes "cell_run ops deactivate disables collect s0 s A" "inv s0"
  shows "inv s \<and> cell_view ops s = A"
  using assms
proof (induction rule: cell_run.induct)
  case (run_activate s A c s')
  then show ?case
    using activate_inv activate_view by blast
next
  case (run_put s A c f k v)
  then have i: "inv s" "cell_view ops s c = Some f" "cell_view ops s = A"
    by auto
  then have "c \<in> co_cells ops" "co_is_active ops c s"
    by (auto simp: cell_view_def split: if_splits)
  then show ?case
    using put_inv [OF i(1)] put_view [OF i(1,2) run_put.hyps(3)] run_put.hyps(3) i(3) by simp
next
  case (run_deactivate s A c s')
  then show ?case
    using deactivate_inv deactivate_view by blast
next
  case (run_collect s A s')
  then show ?case
    using collect_inv collect_view by blast
qed simp

end

end
