(* ===== verification/NodeMemory.thy ===== *)
theory NodeMemory
  imports NodeAlloc
begin

text \<open>
  What the node allocator does to memory: nodes in use and memory outside its chunks keep their contents,
  and a node that is handed out is clear.
\<close>

section \<open>Memory outside the chunks, and clear nodes\<close>

type_synonym bytes = "nat \<Rightarrow> 8 word"

definition in_block :: "nat \<Rightarrow> block \<Rightarrow> bool" where
  "in_block x b \<longleftrightarrow> fst b \<le> x \<and> x < fst b + snd b"

definition el_block :: "node_manager \<Rightarrow> nat \<Rightarrow> block" where
  "el_block nm j = (get_element_ptr (nm_data_list nm) j, lm_element_size (nm_data_list nm))"

definition outside :: "node_manager \<Rightarrow> block \<Rightarrow> bool" where
  "outside nm b \<longleftrightarrow> fst b + snd b \<le> pc_head (nm_chunk nm) \<and>
     (\<forall>c. lm_chunks (nm_data_list nm) c \<noteq> 0 \<longrightarrow> apart b (lm_chunks (nm_data_list nm) c, chunk_bytes (nm_data_list nm)))"

definition clear :: "bytes \<Rightarrow> block \<Rightarrow> bool" where
  "clear m b \<longleftrightarrow> (\<forall>x. in_block x b \<longrightarrow> m x = 0)"

text \<open>Nodes of the free list, nodes not drawn yet and memory not reserved yet are clear.\<close>

definition free_clear :: "node_manager \<Rightarrow> bool" where
  "free_clear nm \<longleftrightarrow>
     (\<forall>j \<in> set (unused_entries nm). clear (nm_mem nm) (el_block nm j)) \<and>
     (\<forall>j \<ge> lm_num_elements (nm_data_list nm).
        lm_chunks (nm_data_list nm) (j div lm_max_num_elements_per_chunk (nm_data_list nm)) \<noteq> 0 \<longrightarrow> clear (nm_mem nm) (el_block nm j)) \<and>
     (\<forall>x. pc_head (nm_chunk nm) \<le> x \<longrightarrow> x < pc_tail (nm_chunk nm) \<longrightarrow> nm_mem nm x = 0)"

lemma apart_not_in: "apart b c \<Longrightarrow> in_block x b \<Longrightarrow> \<not> in_block x c"
  by (auto simp: apart_def in_block_def)

lemma in_inside: "inside b c \<Longrightarrow> in_block x b \<Longrightarrow> in_block x c"
  by (auto simp: inside_def in_block_def)

section \<open>Where nodes are\<close>

lemma nm_inv_parts:
  assumes "nm_inv nm live"
  obtains n "is" where "lm_ok (pc_head (nm_chunk nm)) n (nm_data_list nm)" "0 < pc_head (nm_chunk nm)"
    "pc_head (nm_chunk nm) \<le> pc_tail (nm_chunk nm)" "pc_tail (nm_chunk nm) \<le> 2 ^ 62" "live = map (el_block nm) is"
    "mset (is @ il_contents (nm_recycled_list nm) @ unused_entries nm) = mset [0..<lm_num_elements (nm_data_list nm)]"
  using assms that unfolding nm_inv_def node_blocks_def el_block_def by blast

text \<open>Every index of an allocated chunk.\<close>

definition placed :: "node_manager \<Rightarrow> nat \<Rightarrow> bool" where
  "placed nm j \<longleftrightarrow> lm_chunks (nm_data_list nm) (j div lm_max_num_elements_per_chunk (nm_data_list nm)) \<noteq> 0"

lemma placed_iff:
  assumes "lm_ok H n (nm_data_list nm)"
  shows "placed nm j \<longleftrightarrow> j < n * lm_max_num_elements_per_chunk (nm_data_list nm)"
proof -
  let ?m = "lm_max_num_elements_per_chunk (nm_data_list nm)"
  have m: "0 < ?m"
    using assms by (simp add: lm_ok_def)
  have "placed nm j \<longleftrightarrow> j div ?m < n"
    unfolding placed_def
  proof
    show "j div ?m < n" if "lm_chunks (nm_data_list nm) (j div ?m) \<noteq> 0"
      using assms that by (meson lm_ok_def not_less)
    show "lm_chunks (nm_data_list nm) (j div ?m) \<noteq> 0" if "j div ?m < n"
      using assms that by (simp add: lm_ok_def)
  qed
  then show ?thesis
    using m by (simp add: div_less_iff_less_mult)
qed

lemma placed_apart:
  assumes "nm_inv nm live" "placed nm i" "placed nm j" "i \<noteq> j"
  shows "apart (el_block nm i) (el_block nm j)"
proof -
  obtain n "is" where ok: "lm_ok (pc_head (nm_chunk nm)) n (nm_data_list nm)"
    using nm_inv_parts [OF assms(1)] by blast
  then show ?thesis
    using elements_apart [OF ok _ _ assms(4)] assms(2,3) by (simp add: placed_iff [OF ok] el_block_def)
qed

lemma placed_inside:
  assumes "nm_inv nm live" "placed nm j"
  shows "inside (el_block nm j) (lm_chunks (nm_data_list nm) (j div lm_max_num_elements_per_chunk (nm_data_list nm)), chunk_bytes (nm_data_list nm))"
    and "fst (el_block nm j) + snd (el_block nm j) \<le> pc_head (nm_chunk nm)" "0 < fst (el_block nm j)"
proof -
  let ?c = "j div lm_max_num_elements_per_chunk (nm_data_list nm)"
  obtain n "is" where ok: "lm_ok (pc_head (nm_chunk nm)) n (nm_data_list nm)"
    using nm_inv_parts [OF assms(1)] by blast
  note el = element_in_chunk [OF ok, of j] assms(2) [unfolded placed_iff [OF ok]]
  then show ins: "inside (el_block nm j) (lm_chunks (nm_data_list nm) ?c, chunk_bytes (nm_data_list nm))"
    by (simp add: el_block_def)
  have "0 < lm_chunks (nm_data_list nm) ?c" "lm_chunks (nm_data_list nm) ?c + chunk_bytes (nm_data_list nm) \<le> pc_head (nm_chunk nm)"
    using ok el by (auto simp: lm_ok_def)
  then show "fst (el_block nm j) + snd (el_block nm j) \<le> pc_head (nm_chunk nm)" "0 < fst (el_block nm j)"
    using ins by (auto simp: inside_def)
qed

lemma outside_placed:
  assumes "nm_inv nm live" "outside nm b" "placed nm j"
  shows "apart b (el_block nm j)"
  using assms(2,3) placed_inside(1) [OF assms(1,3)] apart_inside [of b _ b "el_block nm j"]
  unfolding outside_def placed_def by auto

lemma in_use_placed:
  assumes "nm_inv nm live"
  shows "j < lm_num_elements (nm_data_list nm) \<Longrightarrow> placed nm j"
proof -
  obtain n "is" where ok: "lm_ok (pc_head (nm_chunk nm)) n (nm_data_list nm)"
    using nm_inv_parts [OF assms] by blast
  moreover have "lm_num_elements (nm_data_list nm) \<le> n * lm_max_num_elements_per_chunk (nm_data_list nm)"
    using ok unfolding lm_ok_def by blast
  ultimately show "j < lm_num_elements (nm_data_list nm) \<Longrightarrow> placed nm j"
    by (simp add: placed_iff [OF ok])
qed

text \<open>The three kinds of indices, with the nodes in use given by theirs.\<close>

lemma live_indices:
  assumes "nm_inv nm live"
  obtains "is" where "live = map (el_block nm) is" "distinct (is @ il_contents (nm_recycled_list nm) @ unused_entries nm)"
    "\<And>j. j \<in> set (is @ il_contents (nm_recycled_list nm) @ unused_entries nm) \<Longrightarrow>
       j < lm_num_elements (nm_data_list nm) \<and> placed nm j"
proof -
  obtain n "is" where i: "live = map (el_block nm) is"
    "mset (is @ il_contents (nm_recycled_list nm) @ unused_entries nm) = mset [0..<lm_num_elements (nm_data_list nm)]"
    using nm_inv_parts [OF assms] by blast
  have "distinct (is @ il_contents (nm_recycled_list nm) @ unused_entries nm)"
    using mset_eq_imp_distinct_iff [OF i(2)] by simp
  moreover have "j < lm_num_elements (nm_data_list nm)" if "j \<in> set (is @ il_contents (nm_recycled_list nm) @ unused_entries nm)" for j
    using mset_eq_setD [OF i(2)] that by simp
  ultimately show ?thesis
    using that i(1) in_use_placed [OF assms] by blast
qed

lemma live_outside: "nm_inv nm live \<Longrightarrow> b \<in> set live \<Longrightarrow> outside nm c \<Longrightarrow> apart c b"
  by (metis (no_types, lifting) Un_iff imageE list.set_map live_indices outside_placed set_append)

lemma live_address:
  assumes "nm_inv nm live" "b \<in> set live"
  shows "0 < fst b" "fst b < 2 ^ 62" "snd b = lm_element_size (nm_data_list nm)" "0 < snd b"
proof -
  obtain "is" where i: "live = map (el_block nm) is"
    "\<And>j. j \<in> set (is @ il_contents (nm_recycled_list nm) @ unused_entries nm) \<Longrightarrow>
       j < lm_num_elements (nm_data_list nm) \<and> placed nm j"
    using live_indices [OF assms(1)] by blast
  then obtain j where j: "b = el_block nm j" "placed nm j"
    using assms(2) by auto
  obtain n js where ok: "lm_ok (pc_head (nm_chunk nm)) n (nm_data_list nm)" "pc_head (nm_chunk nm) \<le> pc_tail (nm_chunk nm)"
    "pc_tail (nm_chunk nm) \<le> 2 ^ 62"
    using nm_inv_parts [OF assms(1)] by blast
  show sz: "snd b = lm_element_size (nm_data_list nm)" "0 < snd b"
    using ok(1) by (simp_all add: j(1) el_block_def lm_ok_def)
  show "0 < fst b" "fst b < 2 ^ 62"
    using placed_inside(2,3) [OF assms(1) j(2)] ok(2,3) sz(2) by (simp_all add: j(1))
qed

section \<open>Writes by kernels\<close>

text \<open>A change that touches nodes in use and memory outside the chunks only.\<close>

definition kernel_write :: "node_manager \<Rightarrow> block list \<Rightarrow> bytes \<Rightarrow> bool" where
  "kernel_write nm live m \<longleftrightarrow>
     (\<forall>x. m x \<noteq> nm_mem nm x \<longrightarrow> (\<exists>b \<in> set live. in_block x b) \<or> (\<exists>b. outside nm b \<and> in_block x b))"

lemma nm_inv_mem [simp]: "nm_inv (nm\<lparr>nm_mem := m\<rparr>) live \<longleftrightarrow> nm_inv nm live"
  by (simp add: nm_inv_def unused_entries_def)

lemma outside_mem [simp]: "outside (nm\<lparr>nm_mem := m\<rparr>) b \<longleftrightarrow> outside nm b"
  by (simp add: outside_def)

lemma el_block_mem [simp]: "el_block (nm\<lparr>nm_mem := m\<rparr>) j = el_block nm j"
  by (simp add: el_block_def)

lemma write_elsewhere:
  assumes inv: "nm_inv nm live" and w: "kernel_write nm live m" and j: "placed nm j" "el_block nm j \<notin> set live" and x: "in_block x (el_block nm j)"
  shows "m x = nm_mem nm x"
proof (rule ccontr)
  assume "m x \<noteq> nm_mem nm x"
  then consider b where "b \<in> set live" "in_block x b" | b where "outside nm b" "in_block x b"
    using w unfolding kernel_write_def by blast
  then show False
  proof cases
    case 1
    obtain "is" where i: "live = map (el_block nm) is"
      "\<And>j. j \<in> set (is @ il_contents (nm_recycled_list nm) @ unused_entries nm) \<Longrightarrow>
         j < lm_num_elements (nm_data_list nm) \<and> placed nm j"
      using live_indices [OF inv] by blast
    then obtain k where "b = el_block nm k" "placed nm k"
      using 1(1) by auto
    moreover from this have "k \<noteq> j"
      using 1(1) j(2) by blast
    ultimately show False
      using placed_apart [OF inv _ j(1), of k] 1(2) x apart_not_in by blast
  next
    case 2
    then show False
      using outside_placed [OF inv _ j(1)] x apart_not_in by blast
  qed
qed

lemma free_clear_write:
  assumes inv: "nm_inv nm live" and c: "free_clear nm" and w: "kernel_write nm live m"
  shows "free_clear (nm\<lparr>nm_mem := m\<rparr>)"
proof -
  obtain "is" where i: "live = map (el_block nm) is" "distinct (is @ il_contents (nm_recycled_list nm) @ unused_entries nm)"
    "\<And>j. j \<in> set (is @ il_contents (nm_recycled_list nm) @ unused_entries nm) \<Longrightarrow>
       j < lm_num_elements (nm_data_list nm) \<and> placed nm j"
    using live_indices [OF inv] by blast
  have esz: "0 < lm_element_size (nm_data_list nm)"
    using inv by (auto simp: nm_inv_def lm_ok_def)
  have "el_block nm j \<notin> set live" if "j \<notin> set is" "placed nm j" for j
  proof
    assume "el_block nm j \<in> set live"
    then obtain k where k: "k \<in> set is" "el_block nm j = el_block nm k"
      using i(1) by auto
    then have "apart (el_block nm j) (el_block nm j)"
      using placed_apart [OF inv that(2), of k] i(3) [of k] that(1) by auto
    then show False
      using esz by (simp add: apart_def el_block_def)
  qed
  then have keep: "m x = nm_mem nm x" if "j \<notin> set is" "placed nm j" "in_block x (el_block nm j)" for j x
    using write_elsewhere [OF inv w that(2) _ that(3)] that by blast
  have "m x = nm_mem nm x" if "pc_head (nm_chunk nm) \<le> x" for x
  proof (rule ccontr)
    assume "m x \<noteq> nm_mem nm x"
    then consider b where "b \<in> set live" "in_block x b" | b where "outside nm b" "in_block x b"
      using w unfolding kernel_write_def by blast
    then show False
    proof cases
      case 1
      then obtain k where "k \<in> set is" "b = el_block nm k"
        using i(1) by auto
      then show False
        using placed_inside(2) [OF inv, of k] i(3) [of k] 1(2) that by (auto simp: in_block_def)
    next
      case 2
      then show False
        using that by (auto simp: outside_def in_block_def)
    qed
  qed
  moreover have "clear m (el_block nm j)" if "j \<in> set (unused_entries nm)" for j
  proof -
    have "j \<notin> set is" "placed nm j" "clear (nm_mem nm) (el_block nm j)"
      using c that i(2) i(3) [of j] by (auto simp: free_clear_def)
    then show ?thesis
      using keep [of j] by (simp add: clear_def)
  qed
  moreover have "clear m (el_block nm j)" if "lm_num_elements (nm_data_list nm) \<le> j" "placed nm j" for j
  proof -
    have "j \<notin> set is"
      using that(1) i(3) [of j] by auto
    then show ?thesis
      using c that keep [of j] unfolding free_clear_def clear_def placed_def by metis
  qed
  ultimately show ?thesis
    using c by (simp add: free_clear_def placed_def unused_entries_def)
qed

section \<open>Drawing and recycling a node\<close>

lemma reserve_frame:
  assumes "lm_ok (pc_head pc) n lm" "pc_head pc \<le> pc_tail pc" "pc_tail pc \<le> 2 ^ 62"
    and r: "reserve_new_element lm pc = Inr (i, lm', pc')"
  obtains (same) "lm' = lm\<lparr>lm_num_elements := Suc (lm_num_elements lm)\<rparr>" "pc' = pc" "i = lm_num_elements lm"
  | (new) c p where "lm' = lm\<lparr>lm_num_elements := Suc (lm_num_elements lm), lm_chunks := (lm_chunks lm)(c := p)\<rparr>"
      "lm_chunks lm c = 0" "pc_head pc \<le> p" "p + chunk_bytes lm \<le> pc_tail pc" "pc' = pc\<lparr>pc_head := p + chunk_bytes lm\<rparr>"
      "i = lm_num_elements lm"
proof -
  define c where "c = drop_bit (lm_log2chunk_num_elements lm) (lm_num_elements lm)"
  have t: "touch_chunk c (lm\<lparr>lm_num_elements := Suc (lm_num_elements lm)\<rparr>) pc = Inr (lm', pc')" and i: "i = lm_num_elements lm"
    using r by (auto simp: reserve_new_element_def Let_def result_simps c_def)
  have cb: "chunk_bytes lm < 2 ^ 62"
    using assms(1) unfolding lm_ok_def by blast
  then have u: "u64 (lm_max_num_elements_per_chunk lm * lm_element_size lm) = chunk_bytes lm"
    by (simp add: chunk_bytes_def u64_def)
  show ?thesis
  proof (cases "lm_chunks lm c = 0")
    case False
    then show ?thesis
      using t i by (intro same) (auto simp: touch_chunk_def result_simps)
  next
    case True
    then obtain p where al: "allocate_from_reserved_memory (chunk_bytes lm) 4096 pc = Some (p, pc')"
      and lm': "lm' = lm\<lparr>lm_num_elements := Suc (lm_num_elements lm), lm_chunks := (lm_chunks lm)(c := p)\<rparr>"
      using t u by (auto simp: touch_chunk_def result_simps split: option.splits)
    have "pc_head pc \<le> 2 ^ 62"
      using assms(2,3) by simp
    note p = bump_props [OF _ _ this cb al, unfolded page_size_def, simplified]
    show ?thesis
      by (rule new [OF lm' True p(1,4,3) i])
  qed
qed

text \<open>The node drawn is clear, and the rest of the memory that nobody uses stays clear.\<close>

lemma allocate_memory:
  assumes inv: "nm_inv nm live" and al: "nm_allocate nm = Inr (p, nm')"
  shows "nm_mem nm' = nm_mem nm" "lm_element_size (nm_data_list nm') = lm_element_size (nm_data_list nm)"
    "outside nm b \<Longrightarrow> outside nm' b"
    "free_clear nm \<Longrightarrow> free_clear nm' \<and> clear (nm_mem nm) (p, lm_element_size (nm_data_list nm))"
proof -
  obtain n "is" where i: "lm_ok (pc_head (nm_chunk nm)) n (nm_data_list nm)"
    "pc_head (nm_chunk nm) \<le> pc_tail (nm_chunk nm)" "pc_tail (nm_chunk nm) \<le> 2 ^ 62"
    using nm_inv_parts [OF inv] by blast
  have "nm_mem nm' = nm_mem nm \<and> lm_element_size (nm_data_list nm') = lm_element_size (nm_data_list nm) \<and>
    (outside nm b \<longrightarrow> outside nm' b) \<and>
    (free_clear nm \<longrightarrow> free_clear nm' \<and> clear (nm_mem nm) (p, lm_element_size (nm_data_list nm)))"
  proof (cases "il_size (nm_free_list nm) \<le> nm_free_list_used nm")
    case False
    let ?l = "il_get (nm_free_list nm) (nm_free_list_used nm)"
    have nm': "p = get_element_ptr (nm_data_list nm) ?l" "nm' = nm\<lparr>nm_free_list_used := Suc (nm_free_list_used nm)\<rparr>"
      using al False by (auto simp: nm_allocate_def Let_def)
    have "unused_entries nm = ?l # unused_entries nm'"
      using False by (simp add: unused_entries_def nm'(2) upt_conv_Cons)
    then show ?thesis
      by (auto simp: free_clear_def outside_def el_block_def nm')
  next
    case True
    then obtain l data pc where r: "reserve_new_element (nm_data_list nm) (nm_chunk nm) = Inr (l, data, pc)"
      and nm': "p = get_element_ptr data l"
        "nm' = nm\<lparr>nm_free_list_used := Suc (nm_free_list_used nm), nm_data_list := data, nm_chunk := pc\<rparr>"
      using al by (auto simp: nm_allocate_def Let_def result_simps)
    note frame = reserve_frame [OF i r, case_names same new]
    have none: "unused_entries nm = []" "unused_entries nm' = []"
      using True by (simp_all add: unused_entries_def nm'(2))
    have "0 < pc_head (nm_chunk nm)"
      using inv by (auto simp: nm_inv_def)
    from reserve_ok [OF i this r] obtain n' where n': "lm_ok (pc_head pc) n' data" and l: "l = lm_num_elements (nm_data_list nm)"
      "lm_num_elements data = Suc l" "lm_element_size data = lm_element_size (nm_data_list nm)"
      by blast
    have "lm_num_elements data \<le> n' * lm_max_num_elements_per_chunk data"
      using n' unfolding lm_ok_def by blast
    then have here: "placed nm' l"
      using n' l(2) placed_iff [of "pc_head pc" n' nm' l] by (simp add: nm'(2))
    have all: "clear (nm_mem nm') (el_block nm' j)"
      if "free_clear nm" "lm_num_elements (nm_data_list nm) \<le> j" "placed nm' j" for j
    proof (cases rule: frame)
      case same
      then have "el_block nm' j = el_block nm j" "placed nm j"
        using that(3) by (simp_all add: nm'(2) el_block_def get_element_ptr_def placed_def)
      then show ?thesis
        using that(1,2) by (simp add: nm'(2) free_clear_def placed_def)
    next
      case (new c q)
      show ?thesis
      proof (cases "j div lm_max_num_elements_per_chunk data = c")
        case False
        have "el_block nm' j = el_block nm j" "placed nm j"
          using that(3) False i(1) n' new(1)
          by (simp_all add: nm'(2) el_block_def get_element_ptr_eq lm_ok_def placed_def)
        then show ?thesis
          using that(1,2) by (simp add: nm'(2) free_clear_def placed_def)
      next
        case True
        have "j < n' * lm_max_num_elements_per_chunk data"
          using that(3) placed_iff [of "pc_head pc" n' nm' j] n' by (simp add: nm'(2))
        then have "inside (el_block nm' j) (q, chunk_bytes data)"
          using element_in_chunk(2) [OF n', of j] True new(1) by (simp add: el_block_def nm'(2))
        moreover have "chunk_bytes data = chunk_bytes (nm_data_list nm)"
          using new(1) by (simp add: chunk_bytes_def)
        ultimately show ?thesis
          using that(1) new(3,4) by (auto simp: clear_def in_block_def inside_def free_clear_def nm'(2))
      qed
    qed
    have out: "outside nm' b" if "outside nm b"
    proof (cases rule: frame)
      case same
      then show ?thesis
        using that by (simp add: outside_def nm'(2) chunk_bytes_def)
    next
      case (new c q)
      then show ?thesis
        using that by (auto simp: outside_def nm'(2) chunk_bytes_def apart_def)
    qed
    have top: "nm_mem nm x = 0" if "free_clear nm" "pc_head pc \<le> x" "x < pc_tail pc" for x
    proof (cases rule: frame)
      case same
      then show ?thesis
        using that by (simp add: free_clear_def)
    next
      case (new c q)
      then show ?thesis
        using that by (simp add: free_clear_def)
    qed
    have fc: "free_clear nm'" if "free_clear nm"
      using that all [OF that] top [OF that] l none(2) unfolding free_clear_def placed_def
      by (simp add: nm'(2))
    then show ?thesis
      using all [of l] here out l by (auto simp: nm' el_block_def)
  qed
  then show "nm_mem nm' = nm_mem nm" "lm_element_size (nm_data_list nm') = lm_element_size (nm_data_list nm)"
    "outside nm b \<Longrightarrow> outside nm' b"
    "free_clear nm \<Longrightarrow> free_clear nm' \<and> clear (nm_mem nm) (p, lm_element_size (nm_data_list nm))"
    by blast+
qed

text \<open>Recycling a node in use leaves memory alone; it fails only when the list of recycled nodes cannot grow.\<close>

lemma recycle_result:
  assumes inv: "nm_inv nm live" and b: "b \<in> set live"
  obtains k where "nm_recycle (fst b) nm =
    bindE (il_push_back k (nm_recycled_list nm) (nm_chunk nm)) (\<lambda>(l, pc). Inr (nm\<lparr>nm_recycled_list := l, nm_chunk := pc\<rparr>))"
proof -
  obtain n "is" where i: "lm_ok (pc_head (nm_chunk nm)) n (nm_data_list nm)" "live = map (el_block nm) is"
    "mset (is @ il_contents (nm_recycled_list nm) @ unused_entries nm) = mset [0..<lm_num_elements (nm_data_list nm)]"
    using nm_inv_parts [OF inv] by metis
  obtain k where k: "k \<in> set is" "b = el_block nm k"
    using b i(2) by auto
  show ?thesis
    using that ptr2index_element [OF i(1) in_use(3) [OF i(1,3) k(1)]] by (simp add: nm_recycle_def k(2) el_block_def)
qed

lemma recycle_fails:
  assumes "nm_inv nm live" "b \<in> set live" "nm_recycle (fst b) nm = Inl er"
  shows "reserve_new_element (il_list (nm_recycled_list nm)) (nm_chunk nm) = Inl er"
proof -
  obtain k where eq: "nm_recycle (fst b) nm =
      bindE (il_push_back k (nm_recycled_list nm) (nm_chunk nm)) (\<lambda>(l, pc). Inr (nm\<lparr>nm_recycled_list := l, nm_chunk := pc\<rparr>))"
    using recycle_result [OF assms(1,2)] by blast
  show ?thesis
    using assms(3) unfolding eq by (auto simp: il_push_back_def bindE_def split: sum.splits)
qed

lemma recycle_memory:
  assumes inv: "nm_inv nm live" and b: "b \<in> set live" and r: "nm_recycle (fst b) nm = Inr nm'"
  shows "nm_inv nm' (remove1 b live)" "nm_mem nm' = nm_mem nm" "nm_data_list nm' = nm_data_list nm"
    "chunk_grows (nm_chunk nm) (nm_chunk nm')" "unused_entries nm' = unused_entries nm"
proof -
  obtain k where eq: "nm_recycle (fst b) nm =
      bindE (il_push_back k (nm_recycled_list nm) (nm_chunk nm)) (\<lambda>(l, pc). Inr (nm\<lparr>nm_recycled_list := l, nm_chunk := pc\<rparr>))"
    using recycle_result [OF inv b] by blast
  obtain l pc where "nm' = nm\<lparr>nm_recycled_list := l, nm_chunk := pc\<rparr>"
    using r unfolding eq by (auto simp: result_simps)
  then show "nm_mem nm' = nm_mem nm" "nm_data_list nm' = nm_data_list nm" "unused_entries nm' = unused_entries nm"
    by (simp_all add: unused_entries_def)
  show "nm_inv nm' (remove1 b live)" "chunk_grows (nm_chunk nm) (nm_chunk nm')"
    using recycle_inv [OF inv b r] by simp_all
qed

text \<open>Memory taken by a list that grows was clear and belongs to nobody.\<close>

lemma free_clear_grows:
  assumes "nm_mem nm' = nm_mem nm" "nm_data_list nm' = nm_data_list nm" "chunk_grows (nm_chunk nm) (nm_chunk nm')"
    and "unused_entries nm' = unused_entries nm" "free_clear nm"
  shows "free_clear nm'"
  using assms by (auto simp: free_clear_def el_block_def chunk_grows_def)

lemma outside_grows:
  assumes "nm_data_list nm' = nm_data_list nm" "chunk_grows (nm_chunk nm) (nm_chunk nm')" "outside nm b"
  shows "outside nm' b"
  using assms by (auto simp: outside_def chunk_grows_def)

section \<open>Collections\<close>

lemma gc_serial_mem:
  "gc_serial nm = Inr S \<Longrightarrow>
   nm_mem S x = (if \<exists>j \<in> set (il_contents (nm_recycled_list nm)). in_block x (el_block nm j) then 0 else nm_mem nm x)"
  by (auto simp: gc_serial_eq result_simps fill_fold il_contents_def in_block_def el_block_def)

lemma gc_step_memory:
  assumes inv: "nm_inv nm live" and gc: "gc_step nm nm'"
  shows "nm_mem nm' x = (if \<exists>j \<in> set (il_contents (nm_recycled_list nm)). in_block x (el_block nm j) then 0 else nm_mem nm x)"
    and "chunk_grows (nm_chunk nm) (nm_chunk nm')" "nm_data_list nm' = nm_data_list nm"
    and "set (unused_entries nm') = set (unused_entries nm @ il_contents (nm_recycled_list nm))"
proof -
  obtain S where s: "gc_serial nm = Inr S" "mset (il_contents (nm_free_list nm')) = mset (il_contents (nm_free_list S))"
    "nm_free_list_used nm' = nm_free_list_used S" "nm_mem nm' = nm_mem S"
    using gc_step_serial [OF inv gc] by metis
  show "nm_mem nm' x = (if \<exists>j \<in> set (il_contents (nm_recycled_list nm)). in_block x (el_block nm j) then 0 else nm_mem nm x)"
    unfolding s(4) by (rule gc_serial_mem [OF s(1)])
  show "set (unused_entries nm') = set (unused_entries nm @ il_contents (nm_recycled_list nm))"
    using mset_eq_setD [OF s(2)] s(3) by (simp add: unused_entries_0 gc_serial_parts [OF s(1)])
  show "chunk_grows (nm_chunk nm) (nm_chunk nm')" "nm_data_list nm' = nm_data_list nm"
    using gc_step_inv [OF inv gc] by blast+
qed

text \<open>A collection clears recycled nodes and nothing else.\<close>

lemma collect_memory:
  assumes inv: "nm_inv nm live" and gc: "gc_step nm nm'"
  shows "nm_inv nm' live" "outside nm b \<Longrightarrow> outside nm' b" "free_clear nm \<Longrightarrow> free_clear nm'"
    "b \<in> set live \<or> outside nm b \<Longrightarrow> in_block x b \<Longrightarrow> nm_mem nm' x = nm_mem nm x"
proof -
  note gm = gc_step_memory [OF inv gc]
  obtain "is" where i: "live = map (el_block nm) is" "distinct (is @ il_contents (nm_recycled_list nm) @ unused_entries nm)"
    "\<And>j. j \<in> set (is @ il_contents (nm_recycled_list nm) @ unused_entries nm) \<Longrightarrow>
       j < lm_num_elements (nm_data_list nm) \<and> placed nm j"
    using live_indices [OF inv] by blast
  show "nm_inv nm' live"
    using gc_step_inv [OF inv gc] by blast
  show "outside nm b \<Longrightarrow> outside nm' b"
    by (rule outside_grows [OF gm(3,2)])
  have el: "el_block nm' j = el_block nm j" for j
    by (simp add: el_block_def gm)
  show "nm_mem nm' x = nm_mem nm x" if "b \<in> set live \<or> outside nm b" "in_block x b"
  proof -
    have "\<not> in_block x (el_block nm j)" if j: "j \<in> set (il_contents (nm_recycled_list nm))" for j
      using \<open>b \<in> set live \<or> outside nm b\<close>
    proof
      assume "b \<in> set live"
      then obtain k where k: "k \<in> set is" "b = el_block nm k"
        using i(1) by auto
      then have "k \<noteq> j"
        using i(2) j by auto
      then show ?thesis
        using placed_apart [OF inv, of k j] i(3) [of k] i(3) [of j] k j \<open>in_block x b\<close> apart_not_in by auto
    next
      assume "outside nm b"
      then show ?thesis
        using outside_placed [OF inv, of b j] i(3) [of j] j \<open>in_block x b\<close> apart_not_in by auto
    qed
    then show ?thesis
      by (simp add: gm(1))
  qed
  show "free_clear nm'" if "free_clear nm"
  proof -
    have "clear (nm_mem nm') (el_block nm j)" if "clear (nm_mem nm) (el_block nm j) \<or> j \<in> set (il_contents (nm_recycled_list nm))" for j
      using that by (auto simp: clear_def gm(1))
    moreover have "nm_mem nm' x = 0" if "nm_mem nm x = 0" for x
      using that by (simp add: gm(1))
    ultimately show ?thesis
      using that gm(2) by (auto simp: free_clear_def el gm(3,4) chunk_grows_def)
  qed
qed

end
