(* ===== verification/SparseNode.thy ===== *)
theory SparseNode
  imports SparseCells NodeMemory
begin

text \<open>
  The nodes of sparse fields (\<^verbatim>\<open>runtime/llvm/runtime_module/node_{root,dense,bitmasked,pointer,dynamic}.h\<close>): how
  each kind of container finds, activates and deactivates its cells, over byte memory and the node
  allocator of the SNode. Cell indices are not negative and a container has less than \<open>2 ^ 31\<close> cells. A task under the lock of a node is one step.
\<close>

section \<open>Words in memory\<close>

fun read_le :: "bytes \<Rightarrow> nat \<Rightarrow> nat \<Rightarrow> nat" where
  "read_le m a 0 = 0"
| "read_le m a (Suc n) = unat (m a) + 256 * read_le m (Suc a) n"

fun write_le :: "nat \<Rightarrow> nat \<Rightarrow> nat \<Rightarrow> bytes \<Rightarrow> bytes" where
  "write_le a 0 v m = m"
| "write_le a (Suc n) v m = write_le (Suc a) n (v div 256) (m(a := of_nat v))"

lemma write_le_other: "x < a \<or> a + n \<le> x \<Longrightarrow> write_le a n v m x = m x"
  by (induction n arbitrary: a v m) auto

lemma read_le_cong: "(\<And>x. a \<le> x \<Longrightarrow> x < a + n \<Longrightarrow> m x = m' x) \<Longrightarrow> read_le m a n = read_le m' a n"
  by (induction n arbitrary: a) simp_all

lemma read_le_write_le [simp]: "read_le (write_le a n v m) a n = v mod 256 ^ n"
proof (induction n arbitrary: a v m)
  case (Suc n)
  have "unat (of_nat v :: 8 word) = v mod 256"
    by (simp add: unat_of_nat)
  then show ?case
    using Suc by (simp add: write_le_other mod_mult2_eq ac_simps)
qed simp

lemma read_le_apart:
  assumes "apart (a, n) (b, k)"
  shows "read_le (write_le b k v m) a n = read_le m a n"
  using assms by (intro read_le_cong write_le_other) (auto simp: apart_def)

lemma read_le_zero: "(\<And>x. a \<le> x \<Longrightarrow> x < a + n \<Longrightarrow> m x = 0) \<Longrightarrow> read_le m a n = 0"
  by (induction n arbitrary: a) simp_all

lemma read_le_less: "read_le m a n < 256 ^ n"
proof (induction n arbitrary: a)
  case (Suc n)
  have "unat (m a) < 256"
    using unsigned_less [of "m a"] by simp
  then show ?case
    using Suc [of "Suc a"] by simp
qed simp

section \<open>Kinds of nodes\<close>

text \<open>What the generated code passes of an SNode; \<open>sm_ambient\<close> is its entry of \<^verbatim>\<open>ambient_elements\<close>.\<close>

record snode_meta =
  sm_element_size :: nat
  sm_max_num_elements :: nat
  sm_chunk_size :: nat
  sm_ambient :: nat

subsection \<open>Root and dense nodes\<close>

definition Root_activate :: "snode_meta \<Rightarrow> nat \<Rightarrow> nat \<Rightarrow> node_manager \<Rightarrow> node_manager result" where
  "Root_activate meta node i nm = Inr nm"

definition Root_is_active :: "snode_meta \<Rightarrow> nat \<Rightarrow> nat \<Rightarrow> node_manager \<Rightarrow> bool" where
  "Root_is_active meta node i nm = True"

definition Root_lookup_element :: "snode_meta \<Rightarrow> nat \<Rightarrow> nat \<Rightarrow> node_manager \<Rightarrow> nat" where
  "Root_lookup_element meta node i nm = node"

definition Root_get_num_elements :: "snode_meta \<Rightarrow> nat \<Rightarrow> node_manager \<Rightarrow> nat" where
  "Root_get_num_elements meta node nm = 1"

definition Dense_activate :: "snode_meta \<Rightarrow> nat \<Rightarrow> nat \<Rightarrow> node_manager \<Rightarrow> node_manager result" where
  "Dense_activate meta node i nm = Inr nm"

definition Dense_is_active :: "snode_meta \<Rightarrow> nat \<Rightarrow> nat \<Rightarrow> node_manager \<Rightarrow> bool" where
  "Dense_is_active meta node i nm = True"

definition Dense_lookup_element :: "snode_meta \<Rightarrow> nat \<Rightarrow> nat \<Rightarrow> node_manager \<Rightarrow> nat" where
  "Dense_lookup_element meta node i nm = node + sm_element_size meta * i"

definition Dense_get_num_elements :: "snode_meta \<Rightarrow> nat \<Rightarrow> node_manager \<Rightarrow> nat" where
  "Dense_get_num_elements meta node nm = sm_max_num_elements meta"

subsection \<open>Bitmasked nodes\<close>

text \<open>
  The mask follows the data. Activation works on words of 32 bits (\<^verbatim>\<open>atomic_or_u32\<close>, \<^verbatim>\<open>atomic_and_u32\<close>), the
  test on single bytes.
\<close>

definition Bitmasked_get_num_elements :: "snode_meta \<Rightarrow> nat \<Rightarrow> node_manager \<Rightarrow> nat" where
  "Bitmasked_get_num_elements meta node nm = sm_max_num_elements meta"

definition mask_begin :: "snode_meta \<Rightarrow> nat \<Rightarrow> nat" where
  "mask_begin meta node = node + sm_element_size meta * sm_max_num_elements meta"

definition atomic_word :: "(32 word \<Rightarrow> 32 word) \<Rightarrow> nat \<Rightarrow> bytes \<Rightarrow> bytes" where
  "atomic_word f a m = write_le a 4 (unat (f (of_nat (read_le m a 4)))) m"

definition Bitmasked_activate :: "snode_meta \<Rightarrow> nat \<Rightarrow> nat \<Rightarrow> node_manager \<Rightarrow> node_manager result" where
  "Bitmasked_activate meta node i nm =
     Inr (nm\<lparr>nm_mem := atomic_word (\<lambda>w. w OR push_bit (i mod 32) 1) (mask_begin meta node + 4 * (i div 32)) (nm_mem nm)\<rparr>)"

definition Bitmasked_deactivate :: "snode_meta \<Rightarrow> nat \<Rightarrow> nat \<Rightarrow> node_manager \<Rightarrow> node_manager result" where
  "Bitmasked_deactivate meta node i nm =
     Inr (nm\<lparr>nm_mem := atomic_word (\<lambda>w. w AND NOT (push_bit (i mod 32) 1)) (mask_begin meta node + 4 * (i div 32)) (nm_mem nm)\<rparr>)"

definition Bitmasked_is_active :: "snode_meta \<Rightarrow> nat \<Rightarrow> nat \<Rightarrow> node_manager \<Rightarrow> bool" where
  "Bitmasked_is_active meta node i nm \<longleftrightarrow> bit (nm_mem nm (mask_begin meta node + i div 8)) (i mod 8)"

definition Bitmasked_lookup_element :: "snode_meta \<Rightarrow> nat \<Rightarrow> nat \<Rightarrow> node_manager \<Rightarrow> nat" where
  "Bitmasked_lookup_element meta node i nm = node + sm_element_size meta * i"

subsection \<open>Pointer nodes\<close>

text \<open>Locks of 8 bytes, then the pointers. The offset of a pointer is computed in 32 bits.\<close>

definition Pointer_get_num_elements :: "snode_meta \<Rightarrow> nat \<Rightarrow> node_manager \<Rightarrow> nat" where
  "Pointer_get_num_elements meta node nm = sm_max_num_elements meta"

definition data_ptr :: "snode_meta \<Rightarrow> nat \<Rightarrow> nat \<Rightarrow> nat" where
  "data_ptr meta node i = nat (int node + wrap32 (8 * wrap32 (int (sm_max_num_elements meta) + int i)))"

definition Pointer_activate :: "snode_meta \<Rightarrow> nat \<Rightarrow> nat \<Rightarrow> node_manager \<Rightarrow> node_manager result" where
  "Pointer_activate meta node i nm =
     (if read_le (nm_mem nm) (data_ptr meta node i) 8 = 0
      then bindE (nm_allocate nm) (\<lambda>(allocated, nm').
             Inr (nm'\<lparr>nm_mem := write_le (data_ptr meta node i) 8 allocated (nm_mem nm')\<rparr>))
      else Inr nm)"

definition Pointer_deactivate :: "snode_meta \<Rightarrow> nat \<Rightarrow> nat \<Rightarrow> node_manager \<Rightarrow> node_manager result" where
  "Pointer_deactivate meta node i nm =
     (let p = read_le (nm_mem nm) (data_ptr meta node i) 8 in
      if p \<noteq> 0 then bindE (nm_recycle p nm) (\<lambda>nm'.
             Inr (nm'\<lparr>nm_mem := write_le (data_ptr meta node i) 8 0 (nm_mem nm')\<rparr>))
      else Inr nm)"

definition Pointer_is_active :: "snode_meta \<Rightarrow> nat \<Rightarrow> nat \<Rightarrow> node_manager \<Rightarrow> bool" where
  "Pointer_is_active meta node i nm \<longleftrightarrow> read_le (nm_mem nm) (data_ptr meta node i) 8 \<noteq> 0"

definition Pointer_lookup_element :: "snode_meta \<Rightarrow> nat \<Rightarrow> nat \<Rightarrow> node_manager \<Rightarrow> nat" where
  "Pointer_lookup_element meta node i nm =
     (let p = read_le (nm_mem nm) (data_ptr meta node i) 8 in if p = 0 then sm_ambient meta else p)"

subsection \<open>Dynamic nodes\<close>

text \<open>
  A lock and the number of elements (4 bytes each), then the pointer to the first chunk. A chunk starts with
  the pointer to the next one.
\<close>

definition dynamic_n :: "nat \<Rightarrow> bytes \<Rightarrow> int" where
  "dynamic_n node m = sign_extend 4 (int (read_le m (node + 4) 4))"

definition set_dynamic_n :: "nat \<Rightarrow> int \<Rightarrow> bytes \<Rightarrow> bytes" where
  "set_dynamic_n node n m = write_le (node + 4) 4 (nat (n mod 2 ^ 32)) m"

text \<open>
  The loop that \<^verbatim>\<open>Dynamic_activate\<close> and \<^verbatim>\<open>Dynamic_allocate\<close> share: to the chunk of element \<open>i\<close>, with the chunks
  that are missing on the way. It returns that chunk and its first index.
\<close>

definition fill_chunk_ptr :: "nat \<Rightarrow> node_manager \<Rightarrow> node_manager result" where
  "fill_chunk_ptr p_chunk_ptr nm =
     (if read_le (nm_mem nm) p_chunk_ptr 8 = 0
      then bindE (nm_allocate nm) (\<lambda>(allocated, nm').
             Inr (nm'\<lparr>nm_mem := write_le p_chunk_ptr 8 allocated (nm_mem nm')\<rparr>))
      else Inr nm)"

function reach_chunk :: "nat \<Rightarrow> nat \<Rightarrow> nat \<Rightarrow> nat \<Rightarrow> node_manager \<Rightarrow> (nat \<times> nat \<times> node_manager) result" where
  "reach_chunk chunk_size p_chunk_ptr chunk_start i nm =
     (case fill_chunk_ptr p_chunk_ptr nm of
        Inl er \<Rightarrow> Inl er
      | Inr nm' \<Rightarrow>
          (let chunk = read_le (nm_mem nm') p_chunk_ptr 8 in
           if i < chunk_start + chunk_size then Inr (chunk, chunk_start, nm')
           else if chunk_size = 0 then Inl Diverges
           else reach_chunk chunk_size chunk (chunk_start + chunk_size) i nm'))"
  by pat_completeness auto

termination reach_chunk
  by (relation "measure (\<lambda>(cs, p, start, i, nm). Suc i - start)") auto

declare reach_chunk.simps [simp del]

definition Dynamic_activate :: "snode_meta \<Rightarrow> nat \<Rightarrow> nat \<Rightarrow> node_manager \<Rightarrow> node_manager result" where
  "Dynamic_activate meta node i nm =
     (let m = set_dynamic_n node (max (dynamic_n node (nm_mem nm)) (wrap32 (int i + 1))) (nm_mem nm) in
      bindE (reach_chunk (sm_chunk_size meta) (node + 8) 0 i (nm\<lparr>nm_mem := m\<rparr>)) (\<lambda>(chunk, start, nm'). Inr nm'))"

text \<open>The address of the new element, its index and the state.\<close>

definition Dynamic_allocate :: "snode_meta \<Rightarrow> nat \<Rightarrow> node_manager \<Rightarrow> (nat \<times> int \<times> node_manager) result" where
  "Dynamic_allocate meta node nm =
     (let i = dynamic_n node (nm_mem nm); m = set_dynamic_n node (wrap32 (i + 1)) (nm_mem nm) in
      bindE (reach_chunk (sm_chunk_size meta) (node + 8) 0 (nat i) (nm\<lparr>nm_mem := m\<rparr>)) (\<lambda>(chunk, start, nm').
        Inr (chunk + 8 + (nat i - start) * sm_element_size meta, i, nm')))"

text \<open>\<^verbatim>\<open>while (*p_chunk_ptr) ...\<close>: over a cyclic chain it would not end.\<close>

partial_function (option) recycle_chunks :: "nat \<Rightarrow> node_manager \<Rightarrow> node_manager result option" where
  "recycle_chunks p_chunk_ptr nm =
     (let chunk = read_le (nm_mem nm) p_chunk_ptr 8 in
      if chunk = 0 then Some (Inr nm)
      else (case nm_recycle chunk nm of Inl er \<Rightarrow> Some (Inl er) | Inr nm' \<Rightarrow> recycle_chunks chunk nm'))"

definition Dynamic_deactivate :: "snode_meta \<Rightarrow> nat \<Rightarrow> node_manager \<Rightarrow> node_manager result option" where
  "Dynamic_deactivate meta node nm =
     (if 0 < dynamic_n node (nm_mem nm)
      then (case recycle_chunks (node + 8) (nm\<lparr>nm_mem := set_dynamic_n node 0 (nm_mem nm)\<rparr>) of
              None \<Rightarrow> None
            | Some (Inl er) \<Rightarrow> Some (Inl er)
            | Some (Inr nm') \<Rightarrow> Some (Inr (nm'\<lparr>nm_mem := write_le (node + 8) 8 0 (nm_mem nm')\<rparr>)))
      else Some (Inr nm))"

definition Dynamic_is_active :: "snode_meta \<Rightarrow> nat \<Rightarrow> nat \<Rightarrow> node_manager \<Rightarrow> bool" where
  "Dynamic_is_active meta node i nm \<longleftrightarrow> int i < dynamic_n node (nm_mem nm)"

function find_chunk :: "nat \<Rightarrow> bytes \<Rightarrow> nat \<Rightarrow> nat \<Rightarrow> nat \<Rightarrow> (nat \<times> nat) option" where
  "find_chunk chunk_size m chunk_ptr chunk_start i =
     (if i < chunk_start + chunk_size then Some (chunk_ptr, chunk_start)
      else if chunk_size = 0 then None
      else find_chunk chunk_size m (read_le m chunk_ptr 8) (chunk_start + chunk_size) i)"
  by pat_completeness auto

termination find_chunk
  by (relation "measure (\<lambda>(cs, m, p, start, i). Suc i - start)") auto

declare find_chunk.simps [simp del]

definition Dynamic_lookup_element :: "snode_meta \<Rightarrow> nat \<Rightarrow> nat \<Rightarrow> node_manager \<Rightarrow> nat option" where
  "Dynamic_lookup_element meta node i nm =
     (if Dynamic_is_active meta node i nm
      then map_option (\<lambda>(chunk_ptr, chunk_start). chunk_ptr + 8 + (i - chunk_start) * sm_element_size meta)
             (find_chunk (sm_chunk_size meta) (nm_mem nm) (read_le (nm_mem nm) (node + 8) 8) 0 i)
      else Some (sm_ambient meta))"

definition Dynamic_get_num_elements :: "snode_meta \<Rightarrow> nat \<Rightarrow> node_manager \<Rightarrow> int" where
  "Dynamic_get_num_elements meta node nm = dynamic_n node (nm_mem nm)"

end
