(* ===== verification/SparseFields.thy ===== *)
theory SparseFields
  imports SparseNode
begin

text \<open>
  Dense, bitmasked and pointer nodes keep the contract of cells. A cell is a container and an index in it;
  \<open>nodes\<close> are the containers of the SNode, which the parent SNode owns.
\<close>

definition node_cells :: "snode_meta \<Rightarrow> nat set \<Rightarrow> (nat \<times> nat) set" where
  "node_cells meta nodes = {(c, i). c \<in> nodes \<and> i < sm_max_num_elements meta}"

definition nodes_apart :: "nat \<Rightarrow> nat set \<Rightarrow> bool" where
  "nodes_apart sz nodes \<longleftrightarrow> (\<forall>c \<in> nodes. \<forall>d \<in> nodes. c \<noteq> d \<longrightarrow> apart (c, sz) (d, sz))"

definition nm_put :: "nat \<Rightarrow> 8 word \<Rightarrow> node_manager \<Rightarrow> node_manager" where
  "nm_put a v nm = nm\<lparr>nm_mem := (nm_mem nm)(a := v)\<rparr>"

lemma node_cells_iff [simp]: "(c, i) \<in> node_cells meta nodes \<longleftrightarrow> c \<in> nodes \<and> i < sm_max_num_elements meta"
  by (simp add: node_cells_def)

lemma slots_apart:
  assumes "i \<noteq> (j::nat)"
  shows "apart (c + e * i, e) (c + e * j, e)"
proof -
  have "Suc i \<le> j \<or> Suc j \<le> i"
    using assms by linarith
  then have "e * Suc i \<le> e * j \<or> e * Suc j \<le> e * i"
    using mult_le_mono2 by blast
  then show ?thesis
    by (auto simp: apart_def)
qed

lemma slot_inside: "i < n \<Longrightarrow> e * n + r \<le> sz \<Longrightarrow> inside (c + e * i, e) (c, sz)"
  using mult_le_mono2 [of "Suc i" n e] by (simp add: inside_def)

section \<open>Dense nodes\<close>

definition dense_ops :: "snode_meta \<Rightarrow> nat set \<Rightarrow> (nat \<times> nat, node_manager) cell_ops" where
  "dense_ops meta nodes =
     \<lparr>co_cells = node_cells meta nodes, co_size = sm_element_size meta,
      co_activate = \<lambda>(c, i). Dense_activate meta c i, co_is_active = \<lambda>(c, i). Dense_is_active meta c i,
      co_lookup = \<lambda>(c, i). Dense_lookup_element meta c i, co_mem = nm_mem, co_put = nm_put,
      co_enables = \<lambda>c. {c}, co_fresh = \<lambda>_ _ _. 0\<rparr>"

definition dense_inv :: "snode_meta \<Rightarrow> nat set \<Rightarrow> node_manager \<Rightarrow> bool" where
  "dense_inv meta nodes nm \<longleftrightarrow> nodes_apart (sm_element_size meta * sm_max_num_elements meta) nodes"

lemma container_slots_apart:
  assumes "nodes_apart sz nodes" "sm_element_size meta * sm_max_num_elements meta \<le> sz"
    and "(c, i) \<in> node_cells meta nodes" "(d, j) \<in> node_cells meta nodes" "(c, i) \<noteq> (d, j)"
  shows "apart (c + sm_element_size meta * i, sm_element_size meta) (d + sm_element_size meta * j, sm_element_size meta)"
proof (cases "c = d")
  case True
  then show ?thesis
    using assms(5) by (simp add: slots_apart)
next
  case False
  then have "apart (c, sz) (d, sz)"
    using assms(1,3,4) by (simp add: nodes_apart_def)
  then show ?thesis
    using assms(2-4) slot_inside [of _ "sm_max_num_elements meta" "sm_element_size meta" 0] by (auto intro: apart_inside)
qed

interpretation dense: cell_container "dense_ops meta nodes" "dense_inv meta nodes"
  for meta nodes
proof
  show "apart (co_lookup (dense_ops meta nodes) c s, co_size (dense_ops meta nodes)) (co_lookup (dense_ops meta nodes) d s, co_size (dense_ops meta nodes))"
    if "dense_inv meta nodes s" "c \<in> co_cells (dense_ops meta nodes)" "d \<in> co_cells (dense_ops meta nodes)" "c \<noteq> d" for s c d
    using container_slots_apart [OF that(1) [unfolded dense_inv_def]] that(2-4)
    by (cases c; cases d) (auto simp: dense_ops_def Dense_lookup_element_def)
qed (auto simp: dense_ops_def dense_inv_def Dense_activate_def Dense_is_active_def Dense_lookup_element_def nm_put_def
    map_enable_def cell_view_def cell_bytes_def intro!: ext)

section \<open>Bitmasked nodes\<close>

lemma bit_low: "b < 8 \<Longrightarrow> bit (x + 256 * r :: nat) b \<longleftrightarrow> bit x b"
proof -
  assume b: "b < 8"
  have "take_bit 8 (x + 256 * r) = take_bit 8 x"
    by (simp add: take_bit_eq_mod)
  then show ?thesis
    using b by (metis bit_take_bit_iff)
qed

lemma bit_high: "x < 256 \<Longrightarrow> bit (x + 256 * r :: nat) (8 + t) \<longleftrightarrow> bit r t"
proof -
  assume "x < 256"
  then have "drop_bit 8 (x + 256 * r) = r"
    by (simp add: drop_bit_eq_div)
  then show ?thesis
    by (metis bit_drop_bit_eq comp_apply)
qed

lemma bit_read_le: "k < n \<Longrightarrow> b < 8 \<Longrightarrow> bit (read_le m a n) (8 * k + b) \<longleftrightarrow> bit (m (a + k)) b"
proof (induction n arbitrary: a k)
  case (Suc n)
  have lt: "unat (m a) < 256"
    using unsigned_less [of "m a"] by simp
  show ?case
  proof (cases k)
    case 0
    then show ?thesis
      using Suc.prems(2) by (simp add: bit_low bit_unsigned_iff)
  next
    case (Suc l)
    then have "8 * k + b = 8 + (8 * l + b)"
      by simp
    then show ?thesis
      using Suc.IH [of l "Suc a"] Suc.prems Suc lt by (simp only: read_le.simps bit_high) simp
  qed
qed simp

lemma write_le_nth: "k < n \<Longrightarrow> write_le a n v m (a + k) = of_nat (v div 256 ^ k)"
proof (induction n arbitrary: a k v m)
  case (Suc n)
  show ?case
  proof (cases k)
    case 0
    then show ?thesis
      by (simp add: write_le_other)
  next
    case (Suc l)
    then show ?thesis
      using Suc.IH [of l "Suc a" "v div 256"] Suc.prems by (simp add: div_mult2_eq)
  qed
qed simp

lemma bit_write_le: "k < n \<Longrightarrow> b < 8 \<Longrightarrow> bit (write_le a n v m (a + k)) b \<longleftrightarrow> bit v (8 * k + b)"
proof -
  assume "k < n" "b < 8"
  moreover have "v div 256 ^ k = drop_bit (8 * k) v"
    by (simp add: drop_bit_eq_div power_mult)
  ultimately show ?thesis
    by (simp add: write_le_nth bit_simps)
qed

text \<open>A word operation on the mask as seen by the byte test.\<close>

lemma atomic_word_bit:
  assumes "k < 4" "b < 8"
  shows "bit (atomic_word f a m (a + k)) b \<longleftrightarrow> bit (f (of_nat (read_le m a 4))) (8 * k + b)"
    and "bit (of_nat (read_le m a 4) :: 32 word) (8 * k + b) \<longleftrightarrow> bit (m (a + k)) b"
  using assms by (simp_all add: atomic_word_def bit_write_le bit_simps bit_read_le)

lemma atomic_word_other: "x < a \<or> a + 4 \<le> x \<Longrightarrow> atomic_word f a m x = m x"
  by (simp add: atomic_word_def write_le_other)

definition bitmasked_size :: "snode_meta \<Rightarrow> nat" where
  "bitmasked_size meta = sm_element_size meta * sm_max_num_elements meta + 4 * ((sm_max_num_elements meta + 31) div 32)"

lemma mask_inside: "i < sm_max_num_elements meta \<Longrightarrow> inside (mask_begin meta c + 4 * (i div 32), 4) (c, bitmasked_size meta)"
proof -
  assume "i < sm_max_num_elements meta"
  then have "Suc (i div 32) \<le> (sm_max_num_elements meta + 31) div 32"
    using div_le_mono [of "i + 32" "sm_max_num_elements meta + 31" 32] by simp
  then show ?thesis
    by (simp add: inside_def mask_begin_def bitmasked_size_def)
qed

lemma mask_byte: "j div 8 = 4 * (j div 32) + j mod 32 div 8" "8 * (j mod 32 div 8) + j mod 8 = j mod 32" "j mod 32 div 8 < 4" for j :: nat
proof -
  show "j div 8 = 4 * (j div 32) + j mod 32 div 8"
    using mult_div_mod_eq [of 32 j] div_mult_self4 [of 8 "4 * (j div 32)" "j mod 32"] by (simp add: ac_simps)
  have "j mod 8 = j mod 32 mod 8"
    by (simp add: mod_mod_cancel)
  then show "8 * (j mod 32 div 8) + j mod 8 = j mod 32"
    by (simp only: mult_div_mod_eq)
  show "j mod 32 div 8 < 4"
    by (simp add: div_less_iff_less_mult)
qed

lemma mask_after:
  assumes f: "\<And>w p. p < 32 \<Longrightarrow> p \<noteq> i mod 32 \<Longrightarrow> bit (f w) p = bit w p" "\<And>w. bit (f w) (i mod 32) = v"
    and nodes: "nodes_apart (bitmasked_size meta) nodes"
    and c: "(c, i) \<in> node_cells meta nodes" and d: "(d, j) \<in> node_cells meta nodes"
  shows "bit (atomic_word f (mask_begin meta c + 4 * (i div 32)) m (mask_begin meta d + j div 8)) (j mod 8) =
    (if (d, j) = (c, i) then v else bit (m (mask_begin meta d + j div 8)) (j mod 8))"
proof (cases "d = c \<and> j div 32 = i div 32")
  case True
  let ?a = "mask_begin meta c + 4 * (i div 32)"
  have a: "mask_begin meta d + j div 8 = ?a + j mod 32 div 8"
    using True mask_byte(1) [of j] by simp
  have "j mod 32 = i mod 32 \<longleftrightarrow> j = i"
    using True by (metis div_mult_mod_eq)
  moreover have "bit (atomic_word f ?a m (?a + j mod 32 div 8)) (j mod 8) = bit (f (of_nat (read_le m ?a 4))) (j mod 32)"
    "bit (of_nat (read_le m ?a 4) :: 32 word) (j mod 32) = bit (m (?a + j mod 32 div 8)) (j mod 8)"
    using atomic_word_bit [OF mask_byte(3) [of j], of "j mod 8"] by (simp_all add: mask_byte(2))
  ultimately show ?thesis
    unfolding a using f(1) [of "j mod 32"] f(2) True by auto
next
  case False
  have "mask_begin meta d + j div 8 < mask_begin meta c + 4 * (i div 32) \<or>
      mask_begin meta c + 4 * (i div 32) + 4 \<le> mask_begin meta d + j div 8"
  proof (cases "d = c")
    case True
    then have "j div 32 < i div 32 \<or> i div 32 < j div 32"
      using False by linarith
    then show ?thesis
      using mask_byte(1,3) [of j] unfolding True by linarith
  next
    case False
    then have "apart (c, bitmasked_size meta) (d, bitmasked_size meta)"
      using nodes c d by (simp add: nodes_apart_def)
    then have "apart (mask_begin meta c + 4 * (i div 32), 4) (mask_begin meta d + 4 * (j div 32), 4)"
      using mask_inside c d by (blast intro: apart_inside node_cells_iff [THEN iffD1, THEN conjunct2])
    then show ?thesis
      using mask_byte(1,3) [of j] by (simp add: apart_def) linarith
  qed
  then show ?thesis
    using False by (auto simp: atomic_word_other)
qed

definition bitmasked_ops :: "snode_meta \<Rightarrow> nat set \<Rightarrow> (nat \<times> nat, node_manager) cell_ops" where
  "bitmasked_ops meta nodes =
     \<lparr>co_cells = node_cells meta nodes, co_size = sm_element_size meta,
      co_activate = \<lambda>(c, i). Bitmasked_activate meta c i, co_is_active = \<lambda>(c, i). Bitmasked_is_active meta c i,
      co_lookup = \<lambda>(c, i). Bitmasked_lookup_element meta c i, co_mem = nm_mem, co_put = nm_put, co_enables = \<lambda>c. {c},
      co_fresh = \<lambda>(c, i) nm k. if k < sm_element_size meta then nm_mem nm (c + sm_element_size meta * i + k) else 0\<rparr>"

definition bitmasked_inv :: "snode_meta \<Rightarrow> nat set \<Rightarrow> node_manager \<Rightarrow> bool" where
  "bitmasked_inv meta nodes nm \<longleftrightarrow> nodes_apart (bitmasked_size meta) nodes"

abbreviation bitmasked_deactivate :: "snode_meta \<Rightarrow> nat \<times> nat \<Rightarrow> node_manager \<Rightarrow> node_manager result" where
  "bitmasked_deactivate meta \<equiv> \<lambda>(c, i). Bitmasked_deactivate meta c i"

lemmas bitmasked_defs = bitmasked_ops_def Bitmasked_activate_def Bitmasked_deactivate_def Bitmasked_is_active_def
  Bitmasked_lookup_element_def

text \<open>Data and masks do not overlap.\<close>

lemma mask_not_data:
  assumes "nodes_apart (bitmasked_size meta) nodes" "(c, i) \<in> node_cells meta nodes" "(d, j) \<in> node_cells meta nodes"
  shows "apart (mask_begin meta c + 4 * (i div 32), 4) (d + sm_element_size meta * j, sm_element_size meta)"
proof (cases "c = d")
  case True
  have "sm_element_size meta * Suc j \<le> sm_element_size meta * sm_max_num_elements meta"
    using assms(3) by (intro mult_le_mono2) simp
  then show ?thesis
    using True by (simp add: apart_def mask_begin_def)
next
  case False
  then have "apart (c, bitmasked_size meta) (d, bitmasked_size meta)"
    using assms by (simp add: nodes_apart_def)
  moreover have "inside (d + sm_element_size meta * j, sm_element_size meta) (d, bitmasked_size meta)"
    using assms(3) slot_inside [of j "sm_max_num_elements meta" "sm_element_size meta" 0 "bitmasked_size meta" d] by (simp add: bitmasked_size_def)
  ultimately show ?thesis
    using mask_inside [of i meta c] assms(2) by (auto intro: apart_inside)
qed

lemma mask_view:
  assumes "bitmasked_inv meta nodes nm" "(c, i) \<in> node_cells meta nodes"
    and f: "\<And>w p. p < 32 \<Longrightarrow> p \<noteq> i mod 32 \<Longrightarrow> bit (f w) p = bit w p" "\<And>w. bit (f w) (i mod 32) = v"
  shows "cell_view (bitmasked_ops meta nodes) (nm\<lparr>nm_mem := atomic_word f (mask_begin meta c + 4 * (i div 32)) (nm_mem nm)\<rparr>) (d, j) =
    (if (d, j) = (c, i) then if v then Some (cell_bytes (bitmasked_ops meta nodes) (c, i) nm) else None
     else cell_view (bitmasked_ops meta nodes) nm (d, j))"
proof (cases "(d, j) \<in> node_cells meta nodes")
  case True
  let ?nm = "nm\<lparr>nm_mem := atomic_word f (mask_begin meta c + 4 * (i div 32)) (nm_mem nm)\<rparr>"
  have nodes: "nodes_apart (bitmasked_size meta) nodes"
    using assms(1) by (simp add: bitmasked_inv_def)
  have "cell_bytes (bitmasked_ops meta nodes) (d, j) ?nm = cell_bytes (bitmasked_ops meta nodes) (d, j) nm"
    using mask_not_data [OF nodes assms(2) True]
    by (auto simp: cell_bytes_def bitmasked_defs apart_def intro!: ext atomic_word_other)
  moreover have "Bitmasked_is_active meta d j ?nm = (if (d, j) = (c, i) then v else Bitmasked_is_active meta d j nm)"
    using mask_after [OF f nodes assms(2) True] by (simp add: Bitmasked_is_active_def)
  ultimately show ?thesis
    using True by (auto simp: cell_view_def bitmasked_ops_def)
qed (use assms(2) in \<open>auto simp: cell_view_def bitmasked_ops_def\<close>)

interpretation bitmasked: releasing_container "bitmasked_ops meta nodes" "bitmasked_inv meta nodes"
    "bitmasked_deactivate meta" "\<lambda>c. {c}" "\<lambda>s s'. s' = s"
  for meta nodes
proof
  let ?ops = "bitmasked_ops meta nodes"
  show "cell_view ?ops s' = map_enable (co_enables ?ops c) (\<lambda>d. co_fresh ?ops d s) (cell_view ?ops s)"
    if "bitmasked_inv meta nodes s" "c \<in> co_cells ?ops" "co_activate ?ops c s = Inr s'" for s s' c
  proof
    fix d :: "nat \<times> nat"
    obtain a i b j where p: "c = (a, i)" "d = (b, j)"
      by (cases c; cases d)
    have c: "(a, i) \<in> node_cells meta nodes"
      using that(2) by (simp add: p bitmasked_ops_def)
    have s': "s' = s\<lparr>nm_mem := atomic_word (\<lambda>w. w OR push_bit (i mod 32) 1) (mask_begin meta a + 4 * (i div 32)) (nm_mem s)\<rparr>"
      using that(3) by (simp add: p bitmasked_defs)
    have "cell_view ?ops s' (b, j) = (if (b, j) = (a, i) then Some (cell_bytes ?ops (a, i) s) else cell_view ?ops s (b, j))"
      unfolding s' by (subst mask_view [OF that(1) c, where v = True]) (auto simp: bit_simps)
    moreover have "cell_bytes ?ops (a, i) s = co_fresh ?ops (a, i) s"
      by (simp add: cell_bytes_def bitmasked_defs fun_eq_iff)
    ultimately show "cell_view ?ops s' d = map_enable (co_enables ?ops c) (\<lambda>d. co_fresh ?ops d s) (cell_view ?ops s) d"
      using c by (auto simp: p map_enable_def bitmasked_ops_def cell_view_def split: if_splits)
  qed
  show "cell_view ?ops s' = map_disable {c} (cell_view ?ops s)"
    if "bitmasked_inv meta nodes s" "c \<in> co_cells ?ops" "bitmasked_deactivate meta c s = Inr s'" for s s' c
  proof
    fix d :: "nat \<times> nat"
    obtain a i b j where p: "c = (a, i)" "d = (b, j)"
      by (cases c; cases d)
    have c: "(a, i) \<in> node_cells meta nodes"
      using that(2) by (simp add: p bitmasked_ops_def)
    have s': "s' = s\<lparr>nm_mem := atomic_word (\<lambda>w. w AND NOT (push_bit (i mod 32) 1)) (mask_begin meta a + 4 * (i div 32)) (nm_mem s)\<rparr>"
      using that(3) by (simp add: p bitmasked_defs)
    have "cell_view ?ops s' (b, j) = (if (b, j) = (a, i) then None else cell_view ?ops s (b, j))"
      unfolding s' by (subst mask_view [OF that(1) c, where v = False]) (auto simp: bit_simps)
    then show "cell_view ?ops s' d = map_disable {c} (cell_view ?ops s) d"
      by (simp add: p map_disable_def)
  qed
  show "apart (co_lookup ?ops c s, co_size ?ops) (co_lookup ?ops d s, co_size ?ops)"
    if "bitmasked_inv meta nodes s" "c \<in> co_cells ?ops" "d \<in> co_cells ?ops" "c \<noteq> d" for s c d
    using container_slots_apart [OF that(1) [unfolded bitmasked_inv_def]] that(2-4)
    by (cases c; cases d) (auto simp: bitmasked_defs bitmasked_size_def)
  show "co_is_active ?ops d (co_put ?ops (co_lookup ?ops c s + k) v s) = co_is_active ?ops d s \<and>
      co_lookup ?ops d (co_put ?ops (co_lookup ?ops c s + k) v s) = co_lookup ?ops d s"
    if "bitmasked_inv meta nodes s" "c \<in> co_cells ?ops" "k < co_size ?ops" "d \<in> co_cells ?ops" for s c d k v
  proof -
    obtain a i b j where p: "c = (a, i)" "d = (b, j)"
      by (cases c; cases d)
    have "apart (mask_begin meta b + 4 * (j div 32), 4) (a + sm_element_size meta * i, sm_element_size meta)"
      using mask_not_data [OF that(1) [unfolded bitmasked_inv_def]] that(2,4) by (simp add: p bitmasked_ops_def)
    then have "mask_begin meta b + j div 8 \<noteq> a + sm_element_size meta * i + k"
      using that(3) mask_byte(1,3) [of j] by (auto simp: apart_def bitmasked_ops_def)
    then show ?thesis
      by (simp add: p bitmasked_defs nm_put_def)
  qed
qed (auto simp: bitmasked_defs bitmasked_inv_def nm_put_def)

section \<open>New fields\<close>

text \<open>
  A node allocator that has just been made, over memory that is clear (the device clears its allocations), and
  containers below it, clear as well (the root buffer is cleared too).
\<close>

definition fresh_field :: "nat \<Rightarrow> nat set \<Rightarrow> nat \<Rightarrow> node_manager \<Rightarrow> bool" where
  "fresh_field sz nodes esz nm \<longleftrightarrow>
     (\<exists>k pc m. new_node_manager esz (Some (2 ^ k)) pc m = Inr nm \<and> 2 ^ k * esz \<le> 128 * 1024 * 1024 \<and> 0 < esz \<and>
        0 < pc_head pc \<and> pc_head pc \<le> pc_tail pc \<and> pc_tail pc \<le> 2 ^ 62 \<and> clear m (pc_head pc, pc_tail pc - pc_head pc) \<and>
        nodes_apart sz nodes \<and> (\<forall>c \<in> nodes. c + sz \<le> pc_head pc \<and> clear m (c, sz)))"

lemma fresh_field_parts:
  assumes "fresh_field sz nodes esz nm"
  shows "nm_inv nm []" "lm_element_size (nm_data_list nm) = esz" "free_clear nm" "nodes_apart sz nodes"
    "\<And>c. c \<in> nodes \<Longrightarrow> outside nm (c, sz)" "\<And>c. c \<in> nodes \<Longrightarrow> clear (nm_mem nm) (c, sz)"
proof -
  obtain k pc m where new: "new_node_manager esz (Some (2 ^ k)) pc m = Inr nm" "2 ^ k * esz \<le> 128 * 1024 * 1024" "0 < esz"
    "0 < pc_head pc" "pc_head pc \<le> pc_tail pc" "pc_tail pc \<le> 2 ^ 62"
    and cl: "clear m (pc_head pc, pc_tail pc - pc_head pc)" and ap: "nodes_apart sz nodes"
    and nodes: "\<And>c. c \<in> nodes \<Longrightarrow> c + sz \<le> pc_head pc \<and> clear m (c, sz)"
    using assms unfolding fresh_field_def by blast
  have nm: "nm_mem nm = m" "nm_chunk nm = pc" "lm_chunks (nm_data_list nm) = (\<lambda>_. 0)" "unused_entries nm = []" "lm_element_size (nm_data_list nm) = esz"
    using new(1) by (auto simp: new_node_manager_def new_list_manager_def Let_def result_simps unused_entries_def il_contents_def split: if_splits)
  show "nm_inv nm []"
    using new by (rule new_node_manager_inv)
  show "lm_element_size (nm_data_list nm) = esz" "nodes_apart sz nodes"
    using nm ap by simp_all
  show "free_clear nm"
    using cl by (simp add: free_clear_def nm clear_def in_block_def)
  show "outside nm (c, sz)" "clear (nm_mem nm) (c, sz)" if "c \<in> nodes" for c
    using nodes [OF that] by (simp_all add: outside_def nm)
qed

lemma clear_read: "clear m b \<Longrightarrow> inside (a, n) b \<Longrightarrow> read_le m a n = 0"
  by (intro read_le_zero) (auto simp: clear_def in_block_def inside_def)

end
