(* ===== verification/PointerField.thy ===== *)
theory PointerField
  imports SparseFields
begin

text \<open>
  Pointer nodes keep the contract of cells: an active cell owns one node of the allocator, which was clear
  when it was activated, and nothing else is in use.
\<close>

section \<open>Pointers and nodes\<close>

text \<open>The cells of containers of less than 2 GB: the offsets of their pointers fit in 32 bits.\<close>

definition pointer_cells :: "snode_meta \<Rightarrow> nat set \<Rightarrow> (nat \<times> nat) set" where
  "pointer_cells meta nodes = {c \<in> node_cells meta nodes. 16 * sm_max_num_elements meta < 2 ^ 31}"

lemma pointer_cells_iff [simp]:
  "(c, i) \<in> pointer_cells meta nodes \<longleftrightarrow> c \<in> nodes \<and> i < sm_max_num_elements meta \<and> 16 * sm_max_num_elements meta < 2 ^ 31"
  by (auto simp: pointer_cells_def)

lemma data_ptr_fits:
  assumes "(c, i) \<in> pointer_cells meta nodes"
  shows "data_ptr meta c i = c + 8 * (sm_max_num_elements meta + i)"
proof -
  let ?o = "int (sm_max_num_elements meta) + int i"
  have "0 \<le> ?o" "8 * ?o < 2 ^ 31"
    using assms by simp_all
  then have "wrap32 ?o = ?o" "wrap32 (8 * ?o) = 8 * ?o"
    by (auto intro!: wrap32_id simp: fits32_def)
  then show ?thesis
    by (simp add: data_ptr_def nat_add_distrib nat_mult_distrib)
qed

text \<open>In a larger container the pointers are sought outside it.\<close>

lemma large_offset_wraps:
  "data_ptr \<lparr>sm_element_size = 8, sm_max_num_elements = 2 ^ 28, sm_chunk_size = 0, sm_ambient = 0\<rparr> (2 ^ 40) 0 = 2 ^ 40 - 2 ^ 31"
  by (simp add: data_ptr_def wrap32_def)

definition pointer_at :: "snode_meta \<Rightarrow> node_manager \<Rightarrow> nat \<times> nat \<Rightarrow> nat" where
  "pointer_at meta nm = (\<lambda>(c, i). read_le (nm_mem nm) (data_ptr meta c i) 8)"

definition active_set :: "snode_meta \<Rightarrow> nat set \<Rightarrow> node_manager \<Rightarrow> (nat \<times> nat) set" where
  "active_set meta nodes nm = {c \<in> pointer_cells meta nodes. pointer_at meta nm c \<noteq> 0}"

definition pointer_ops :: "snode_meta \<Rightarrow> nat set \<Rightarrow> (nat \<times> nat, node_manager) cell_ops" where
  "pointer_ops meta nodes =
     \<lparr>co_cells = pointer_cells meta nodes, co_size = sm_element_size meta,
      co_activate = \<lambda>(c, i). Pointer_activate meta c i, co_is_active = \<lambda>(c, i). Pointer_is_active meta c i,
      co_lookup = \<lambda>(c, i). Pointer_lookup_element meta c i, co_mem = nm_mem, co_put = nm_put,
      co_enables = \<lambda>c. {c}, co_fresh = \<lambda>_ _ _. 0\<rparr>"

abbreviation pointer_deactivate :: "snode_meta \<Rightarrow> nat \<times> nat \<Rightarrow> node_manager \<Rightarrow> node_manager result" where
  "pointer_deactivate meta \<equiv> \<lambda>(c, i). Pointer_deactivate meta c i"

text \<open>\<open>live\<close> are the nodes in use: one for each active cell, and no others.\<close>

definition pointer_live :: "snode_meta \<Rightarrow> nat set \<Rightarrow> node_manager \<Rightarrow> block list \<Rightarrow> bool" where
  "pointer_live meta nodes nm live \<longleftrightarrow>
     nm_inv nm live \<and> lm_element_size (nm_data_list nm) = sm_element_size meta \<and> free_clear nm \<and>
     nodes_apart (16 * sm_max_num_elements meta) nodes \<and> (\<forall>c \<in> nodes. outside nm (c, 16 * sm_max_num_elements meta)) \<and>
     inj_on (pointer_at meta nm) (active_set meta nodes nm) \<and>
     set live = (\<lambda>c. (pointer_at meta nm c, sm_element_size meta)) ` active_set meta nodes nm"

definition pointer_inv :: "snode_meta \<Rightarrow> nat set \<Rightarrow> node_manager \<Rightarrow> bool" where
  "pointer_inv meta nodes nm \<longleftrightarrow> (\<exists>live. pointer_live meta nodes nm live)"

lemma pointer_ops_simps [simp]:
  "co_cells (pointer_ops meta nodes) = pointer_cells meta nodes" "co_size (pointer_ops meta nodes) = sm_element_size meta"
  "co_activate (pointer_ops meta nodes) c nm = Pointer_activate meta (fst c) (snd c) nm"
  "co_is_active (pointer_ops meta nodes) c nm \<longleftrightarrow> pointer_at meta nm c \<noteq> 0"
  "co_lookup (pointer_ops meta nodes) c nm = (if pointer_at meta nm c = 0 then sm_ambient meta else pointer_at meta nm c)"
  "co_mem (pointer_ops meta nodes) = nm_mem" "co_put (pointer_ops meta nodes) = nm_put"
  "co_enables (pointer_ops meta nodes) c = {c}" "co_fresh (pointer_ops meta nodes) c nm = (\<lambda>_. 0)"
  by (simp_all add: pointer_ops_def pointer_at_def Pointer_is_active_def Pointer_lookup_element_def Let_def split_beta)

lemma slot_in_node: "(c, i) \<in> pointer_cells meta nodes \<Longrightarrow> inside (data_ptr meta c i, 8) (c, 16 * sm_max_num_elements meta)"
  by (simp add: inside_def data_ptr_fits [where nodes = nodes])

lemma slots_pairwise:
  assumes "nodes_apart (16 * sm_max_num_elements meta) nodes" "(c, i) \<in> pointer_cells meta nodes" "(d, j) \<in> pointer_cells meta nodes"
    "(c, i) \<noteq> (d, j)"
  shows "apart (data_ptr meta c i, 8) (data_ptr meta d j, 8)"
proof (cases "c = d")
  case True
  then have "i < j \<or> j < i"
    using assms(4) by auto
  then show ?thesis
    using True data_ptr_fits [OF assms(2)] data_ptr_fits [OF assms(3)] by (auto simp: apart_def)
next
  case False
  then have "apart (c, 16 * sm_max_num_elements meta) (d, 16 * sm_max_num_elements meta)"
    using assms(1-3) by (simp add: nodes_apart_def)
  then show ?thesis
    using slot_in_node [OF assms(2)] slot_in_node [OF assms(3)] by (rule apart_inside)
qed

lemma pointer_at_cong:
  assumes "\<And>x. in_block x (fst c, 16 * sm_max_num_elements meta) \<Longrightarrow> nm_mem nm' x = nm_mem nm x" "c \<in> pointer_cells meta nodes"
  shows "pointer_at meta nm' c = pointer_at meta nm c"
proof -
  obtain a i where c: "c = (a, i)"
    by (cases c)
  show ?thesis
    using assms slot_in_node [of a i meta nodes] unfolding c pointer_at_def
    by (auto intro!: read_le_cong simp: in_block_def inside_def)
qed

text \<open>Changing one pointer.\<close>

lemma pointer_at_write:
  assumes "nodes_apart (16 * sm_max_num_elements meta) nodes" "(c, i) \<in> pointer_cells meta nodes" "d \<in> pointer_cells meta nodes" "p < 2 ^ 64"
  shows "pointer_at meta (nm\<lparr>nm_mem := write_le (data_ptr meta c i) 8 p m\<rparr>) d = (if d = (c, i) then p else pointer_at meta (nm\<lparr>nm_mem := m\<rparr>) d)"
proof -
  obtain a j where d: "d = (a, j)"
    by (cases d)
  show ?thesis
    using slots_pairwise [OF assms(1) assms(3) [unfolded d] assms(2)] assms(4)
    by (auto simp: d pointer_at_def read_le_apart)
qed

lemma slot_write_outside:
  assumes "outside nm (c, 16 * sm_max_num_elements meta)" "(c, i) \<in> pointer_cells meta nodes"
  shows "kernel_write nm live (write_le (data_ptr meta c i) 8 p (nm_mem nm))"
  unfolding kernel_write_def
proof (intro allI impI disjI2)
  fix x
  assume "write_le (data_ptr meta c i) 8 p (nm_mem nm) x \<noteq> nm_mem nm x"
  then have "in_block x (data_ptr meta c i, 8)"
    using write_le_other [of x "data_ptr meta c i" 8 p "nm_mem nm"] unfolding in_block_def by (metis fst_conv not_le snd_conv)
  then show "\<exists>b. outside nm b \<and> in_block x b"
    using assms(1) in_inside [OF slot_in_node [OF assms(2)]] by blast
qed

lemma slot_write_live:
  assumes "nm_inv nm live" "outside nm (c, 16 * sm_max_num_elements meta)" "(c, i) \<in> pointer_cells meta nodes" "b \<in> set live" "in_block x b"
  shows "write_le (data_ptr meta c i) 8 p m x = m x"
proof -
  have "apart (data_ptr meta c i, 8) b"
    using live_outside [OF assms(1,4,2)] slot_in_node [OF assms(3)] by (auto intro: apart_inside)
  then show ?thesis
    using assms(5) by (intro write_le_other) (auto simp: apart_def in_block_def)
qed

lemma pointer_bytes:
  "cell_view (pointer_ops meta nodes) nm c =
     (if c \<in> active_set meta nodes nm then Some (\<lambda>k. if k < sm_element_size meta then nm_mem nm (pointer_at meta nm c + k) else 0) else None)"
  by (auto simp: cell_view_def active_set_def cell_bytes_def)

lemma live_block: "pointer_live meta nodes nm live \<Longrightarrow> c \<in> active_set meta nodes nm \<Longrightarrow> (pointer_at meta nm c, sm_element_size meta) \<in> set live"
  by (simp add: pointer_live_def)

lemma live_distinct: "nm_inv nm live \<Longrightarrow> distinct live"
proof -
  assume inv: "nm_inv nm live"
  then have "all_apart live" "\<And>b. b \<in> set live \<Longrightarrow> 0 < snd b"
    by (auto intro: nm_inv_apart live_address(4))
  then show ?thesis
    by (induction live) (auto simp: list_all_iff dest: apart_same_start)
qed

section \<open>Activating a cell\<close>

lemma activate_live:
  assumes live: "pointer_live meta nodes nm live" and c: "(a, i) \<in> pointer_cells meta nodes" "pointer_at meta nm (a, i) = 0"
    and act: "Pointer_activate meta a i nm = Inr nm'"
  obtains p where "pointer_live meta nodes nm' ((p, sm_element_size meta) # live)" "p \<noteq> 0"
    "\<And>d. d \<in> pointer_cells meta nodes \<Longrightarrow> pointer_at meta nm' d = (if d = (a, i) then p else pointer_at meta nm d)"
    "\<And>b x. b \<in> set live \<Longrightarrow> in_block x b \<Longrightarrow> nm_mem nm' x = nm_mem nm x" "clear (nm_mem nm') (p, sm_element_size meta)"
proof -
  have inv: "nm_inv nm live" and esz: "lm_element_size (nm_data_list nm) = sm_element_size meta" and fc: "free_clear nm"
    and nodes: "nodes_apart (16 * sm_max_num_elements meta) nodes"
    and out: "\<And>c. c \<in> nodes \<Longrightarrow> outside nm (c, 16 * sm_max_num_elements meta)"
    and inj: "inj_on (pointer_at meta nm) (active_set meta nodes nm)"
    and set_live: "set live = (\<lambda>c. (pointer_at meta nm c, sm_element_size meta)) ` active_set meta nodes nm"
    using live by (simp_all add: pointer_live_def)
  let ?slot = "data_ptr meta a i"
  obtain p nm1 where al: "nm_allocate nm = Inr (p, nm1)" and nm': "nm' = nm1\<lparr>nm_mem := write_le ?slot 8 p (nm_mem nm1)\<rparr>"
    using act c(2) by (auto simp: Pointer_activate_def pointer_at_def result_simps)
  let ?b = "(p, sm_element_size meta)"
  note am = allocate_memory [OF inv al]
  have inv1: "nm_inv nm1 (?b # live)"
    using allocate_inv [OF inv al] by (simp add: esz)
  have p: "0 < p" "p < 2 ^ 62"
    using live_address(1,2) [OF inv1, of ?b] by simp_all
  have out1: "outside nm1 (c, 16 * sm_max_num_elements meta)" if "c \<in> nodes" for c
    using am(3) out [OF that] by blast
  have at: "pointer_at meta nm' d = (if d = (a, i) then p else pointer_at meta nm d)" if "d \<in> pointer_cells meta nodes" for d
  proof -
    have "pointer_at meta (nm1\<lparr>nm_mem := nm_mem nm1\<rparr>) d = pointer_at meta nm d"
      by (simp add: pointer_at_def am(1))
    then show ?thesis
      using pointer_at_write [OF nodes c(1) that, where p = p and nm = nm1 and m = "nm_mem nm1"] p(2) by (simp add: nm')
  qed
  have act': "active_set meta nodes nm' = insert (a, i) (active_set meta nodes nm)"
    using at c p(1) by (auto simp: active_set_def split: if_splits)
  have keep: "nm_mem nm' x = nm_mem nm x" if "b \<in> set (?b # live)" "in_block x b" for b x
    using slot_write_live [OF inv1 out1 c(1) that, of p "nm_mem nm1"] c(1) by (simp add: nm' am(1))
  have new: "pointer_at meta nm d \<noteq> p" if "d \<in> active_set meta nodes nm" for d
  proof -
    have "apart ?b (pointer_at meta nm d, sm_element_size meta)"
      using nm_inv_apart [OF inv1] live_block [OF live that] by (auto simp: list_all_iff)
    moreover have "0 < sm_element_size meta"
      using live_address(4) [OF inv1, of ?b] by simp
    ultimately show ?thesis
      by (auto simp: apart_def)
  qed
  have cells: "d \<in> pointer_cells meta nodes" if "d \<in> active_set meta nodes nm" for d
    using that by (simp add: active_set_def)
  have old: "pointer_at meta nm' d = pointer_at meta nm d" if "d \<in> active_set meta nodes nm" for d
    using at [OF cells [OF that]] that c(2) by (auto simp: active_set_def)
  have "inj_on (pointer_at meta nm') (active_set meta nodes nm)"
    using inj by (simp add: old cong: inj_on_cong)
  then have "inj_on (pointer_at meta nm') (active_set meta nodes nm')"
    using new old at [OF c(1)] by (force simp: act')
  moreover have "set (?b # live) = (\<lambda>c. (pointer_at meta nm' c, sm_element_size meta)) ` active_set meta nodes nm'"
    using old at [OF c(1)] by (auto simp: act' set_live image_iff)
  moreover have "free_clear nm'"
    using free_clear_write [OF inv1 _ slot_write_outside [OF out1 c(1)]] am(4) [OF fc] c(1) by (simp add: nm')
  ultimately have "pointer_live meta nodes nm' (?b # live)"
    using inv1 nodes out1 am(2) esz by (simp add: pointer_live_def nm')
  moreover have "clear (nm_mem nm') ?b"
    using am(4) [OF fc] keep [of ?b] by (simp add: clear_def esz)
  moreover have "nm_mem nm' x = nm_mem nm x" if "b \<in> set live" "in_block x b" for b x
    using keep [of b] that by simp
  moreover have "p \<noteq> 0"
    using p(1) by simp
  ultimately show ?thesis
    using that at by blast
qed

section \<open>Deactivating a cell\<close>

lemma deactivate_live:
  assumes live: "pointer_live meta nodes nm live" and c: "(a, i) \<in> active_set meta nodes nm"
    and de: "Pointer_deactivate meta a i nm = Inr nm'"
  shows "pointer_live meta nodes nm' (remove1 (pointer_at meta nm (a, i), sm_element_size meta) live)"
    "\<And>d. d \<in> pointer_cells meta nodes \<Longrightarrow> pointer_at meta nm' d = (if d = (a, i) then 0 else pointer_at meta nm d)"
    "\<And>b x. b \<in> set live \<Longrightarrow> in_block x b \<Longrightarrow> nm_mem nm' x = nm_mem nm x"
proof -
  have inv: "nm_inv nm live" and esz: "lm_element_size (nm_data_list nm) = sm_element_size meta" and fc: "free_clear nm"
    and nodes: "nodes_apart (16 * sm_max_num_elements meta) nodes"
    and out: "\<And>c. c \<in> nodes \<Longrightarrow> outside nm (c, 16 * sm_max_num_elements meta)"
    and inj: "inj_on (pointer_at meta nm) (active_set meta nodes nm)"
    and set_live: "set live = (\<lambda>c. (pointer_at meta nm c, sm_element_size meta)) ` active_set meta nodes nm"
    using live by (simp_all add: pointer_live_def)
  let ?slot = "data_ptr meta a i" and ?b = "(pointer_at meta nm (a, i), sm_element_size meta)"
  have cell: "(a, i) \<in> pointer_cells meta nodes" "pointer_at meta nm (a, i) \<noteq> 0"
    using c by (simp_all add: active_set_def)
  obtain nm1 where re: "nm_recycle (fst ?b) nm = Inr nm1" and nm'_def: "nm' = nm1\<lparr>nm_mem := write_le ?slot 8 0 (nm_mem nm1)\<rparr>"
    using de cell(2) by (auto simp: Pointer_deactivate_def pointer_at_def Let_def result_simps)
  note r = recycle_memory [OF inv live_block [OF live c] re]
  have at: "pointer_at meta nm' d = (if d = (a, i) then 0 else pointer_at meta nm d)" if "d \<in> pointer_cells meta nodes" for d
    using pointer_at_write [OF nodes cell(1) that, where p = 0 and nm = nm1 and m = "nm_mem nm1"] by (simp add: nm'_def pointer_at_def r(2) split_beta)
  have act': "active_set meta nodes nm' = active_set meta nodes nm - {(a, i)}"
    using at by (auto simp: active_set_def split: if_splits)
  have old: "pointer_at meta nm' d = pointer_at meta nm d" if "d \<in> active_set meta nodes nm'" for d
    using at [of d] that unfolding act' by (simp add: active_set_def)
  have out1: "outside nm1 (c, 16 * sm_max_num_elements meta)" if "c \<in> nodes" for c
    by (rule outside_grows [OF r(3,4) out [OF that]])
  have "free_clear nm1"
    by (rule free_clear_grows [OF r(2-5) fc])
  then have "free_clear nm'"
    using free_clear_write [OF r(1) _ slot_write_outside [OF out1 cell(1)]] cell(1) by (simp add: nm'_def)
  moreover have "inj_on (pointer_at meta nm') (active_set meta nodes nm')"
    using inj_on_subset [OF inj, of "active_set meta nodes nm'"]
      inj_on_cong [of "active_set meta nodes nm'" "pointer_at meta nm'" "pointer_at meta nm", OF old] by (simp add: act')
  moreover have "set (remove1 ?b live) = (\<lambda>c. (pointer_at meta nm' c, sm_element_size meta)) ` active_set meta nodes nm'"
  proof -
    have "set (remove1 ?b live) = set live - {?b}"
      using live_distinct [OF inv] by simp
    also have "\<dots> = (\<lambda>c. (pointer_at meta nm c, sm_element_size meta)) ` (active_set meta nodes nm - {(a, i)})"
      using inj c by (auto simp: set_live dest: inj_onD)
    also have "\<dots> = (\<lambda>c. (pointer_at meta nm' c, sm_element_size meta)) ` active_set meta nodes nm'"
      unfolding act' [symmetric] by (rule image_cong) (simp_all add: old)
    finally show ?thesis .
  qed
  ultimately show "pointer_live meta nodes nm' (remove1 ?b live)"
    using r(1,3) nodes out1 esz by (simp add: pointer_live_def nm'_def)
  show "nm_mem nm' x = nm_mem nm x" if "b \<in> set live" "in_block x b" for b x
    using slot_write_live [OF inv out cell(1) that, of 0 "nm_mem nm"] cell(1) by (simp add: nm'_def r(2))
  show "pointer_at meta nm' d = (if d = (a, i) then 0 else pointer_at meta nm d)" if "d \<in> pointer_cells meta nodes" for d
    by (rule at [OF that])
qed

section \<open>The contract\<close>

lemma same_pointers:
  assumes "\<And>d. d \<in> pointer_cells meta nodes \<Longrightarrow> pointer_at meta nm' d = pointer_at meta nm d"
  shows "active_set meta nodes nm' = active_set meta nodes nm"
    "inj_on (pointer_at meta nm') (active_set meta nodes nm) = inj_on (pointer_at meta nm) (active_set meta nodes nm)"
    "(\<lambda>c. (pointer_at meta nm' c, sm_element_size meta)) ` active_set meta nodes nm =
     (\<lambda>c. (pointer_at meta nm c, sm_element_size meta)) ` active_set meta nodes nm"
  using assms by (auto simp: active_set_def intro!: inj_on_cong image_cong)

lemma put_live:
  assumes live: "pointer_live meta nodes nm live" and c: "c \<in> active_set meta nodes nm" and k: "k < sm_element_size meta"
  shows "pointer_live meta nodes (nm_put (pointer_at meta nm c + k) v nm) live"
    "d \<in> pointer_cells meta nodes \<Longrightarrow> pointer_at meta (nm_put (pointer_at meta nm c + k) v nm) d = pointer_at meta nm d"
proof -
  let ?x = "pointer_at meta nm c + k" and ?b = "(pointer_at meta nm c, sm_element_size meta)"
  have inv: "nm_inv nm live" and out: "\<And>c. c \<in> nodes \<Longrightarrow> outside nm (c, 16 * sm_max_num_elements meta)"
    using live by (simp_all add: pointer_live_def)
  have x: "in_block ?x ?b" "?b \<in> set live"
    using k live_block [OF live c] by (simp_all add: in_block_def)
  have at: "pointer_at meta (nm_put ?x v nm) d = pointer_at meta nm d" if "d \<in> pointer_cells meta nodes" for d
  proof (rule pointer_at_cong [OF _ that])
    fix y
    assume y: "in_block y (fst d, 16 * sm_max_num_elements meta)"
    have "apart (fst d, 16 * sm_max_num_elements meta) ?b"
      using live_outside [OF inv x(2) out] that by (cases d) simp
    then show "nm_mem (nm_put ?x v nm) y = nm_mem nm y"
      using apart_not_in [OF _ y] x(1) by (auto simp: nm_put_def)
  qed
  then show "d \<in> pointer_cells meta nodes \<Longrightarrow> pointer_at meta (nm_put ?x v nm) d = pointer_at meta nm d"
    by blast
  have "kernel_write nm live ((nm_mem nm)(?x := v))"
    using x by (auto simp: kernel_write_def)
  then have "free_clear (nm_put ?x v nm)"
    using free_clear_write [OF inv] live by (simp add: nm_put_def pointer_live_def)
  then show "pointer_live meta nodes (nm_put ?x v nm) live"
    using live same_pointers [of meta nodes "nm_put ?x v nm" nm, OF at] unfolding pointer_live_def by (simp add: nm_put_def)
qed

lemma collect_live:
  assumes live: "pointer_live meta nodes nm live" and gc: "gc_step nm nm'"
  shows "pointer_live meta nodes nm' live" "d \<in> pointer_cells meta nodes \<Longrightarrow> pointer_at meta nm' d = pointer_at meta nm d"
    "b \<in> set live \<Longrightarrow> in_block x b \<Longrightarrow> nm_mem nm' x = nm_mem nm x"
proof -
  have inv: "nm_inv nm live" and out: "\<And>c. c \<in> nodes \<Longrightarrow> outside nm (c, 16 * sm_max_num_elements meta)"
    using live by (simp_all add: pointer_live_def)
  note cm = collect_memory [OF inv gc]
  show "b \<in> set live \<Longrightarrow> in_block x b \<Longrightarrow> nm_mem nm' x = nm_mem nm x"
    using cm(4) by blast
  have at: "pointer_at meta nm' d = pointer_at meta nm d" if "d \<in> pointer_cells meta nodes" for d
    using cm(4) out that by (intro pointer_at_cong [OF _ that]) (cases d, auto)
  then show "d \<in> pointer_cells meta nodes \<Longrightarrow> pointer_at meta nm' d = pointer_at meta nm d"
    by blast
  show "pointer_live meta nodes nm' live"
    using live cm(1,2,3) gc_step_memory(3) [OF inv gc] same_pointers [of meta nodes nm' nm, OF at]
    unfolding pointer_live_def by simp
qed

text \<open>States with the same pointers, and the same bytes behind those that are active in the first, up to one cell.\<close>

lemma pointer_view_eq:
  assumes live: "pointer_live meta nodes nm live"
    and at: "\<And>d. d \<in> pointer_cells meta nodes \<Longrightarrow> d \<noteq> c \<Longrightarrow> pointer_at meta nm' d = pointer_at meta nm d"
    and mem: "\<And>b x. b \<in> set live \<Longrightarrow> in_block x b \<Longrightarrow> nm_mem nm' x = nm_mem nm x" and "d \<noteq> c"
  shows "cell_view (pointer_ops meta nodes) nm' d = cell_view (pointer_ops meta nodes) nm d"
proof (cases "d \<in> active_set meta nodes nm")
  case True
  then have "d \<in> active_set meta nodes nm'" "pointer_at meta nm' d = pointer_at meta nm d"
    using at [of d] assms(4) by (simp_all add: active_set_def)
  moreover have "nm_mem nm' (pointer_at meta nm d + k) = nm_mem nm (pointer_at meta nm d + k)" if "k < sm_element_size meta" for k
    using mem [OF live_block [OF live True]] that by (simp add: in_block_def)
  ultimately show ?thesis
    using True by (auto simp: pointer_bytes)
next
  case False
  then show ?thesis
    using at [of d] assms(4) by (auto simp: pointer_bytes active_set_def)
qed

interpretation pointer: releasing_container "pointer_ops meta nodes" "pointer_inv meta nodes" "pointer_deactivate meta" "\<lambda>c. {c}" gc_step
  for meta nodes
proof
  let ?ops = "pointer_ops meta nodes"
  have act: "pointer_inv meta nodes s' \<and> cell_view ?ops s' = map_enable {c} (\<lambda>d. co_fresh ?ops d s) (cell_view ?ops s) \<and>
      (\<forall>d \<in> pointer_cells meta nodes. pointer_at meta s d \<noteq> 0 \<longrightarrow> pointer_at meta s' d = pointer_at meta s d)"
    if i: "pointer_inv meta nodes s" and c: "c \<in> co_cells ?ops" and a: "co_activate ?ops c s = Inr s'" for s s' c
  proof (cases "pointer_at meta s c = 0")
    case False
    then have "s' = s" "cell_view ?ops s c \<noteq> None"
      using a c by (auto simp: Pointer_activate_def pointer_at_def pointer_bytes active_set_def split_beta)
    then show ?thesis
      using i by (auto simp: map_enable_def fun_eq_iff)
  next
    case True
    obtain live where live: "pointer_live meta nodes s live"
      using i by (auto simp: pointer_inv_def)
    obtain p where p: "pointer_live meta nodes s' ((p, sm_element_size meta) # live)" "p \<noteq> 0"
      "\<And>d. d \<in> pointer_cells meta nodes \<Longrightarrow> pointer_at meta s' d = (if d = c then p else pointer_at meta s d)"
      "\<And>b x. b \<in> set live \<Longrightarrow> in_block x b \<Longrightarrow> nm_mem s' x = nm_mem s x" "clear (nm_mem s') (p, sm_element_size meta)"
      using activate_live [OF live, of "fst c" "snd c" s'] c a True by auto
    have "cell_view ?ops s' d = map_enable {c} (\<lambda>d. co_fresh ?ops d s) (cell_view ?ops s) d" for d
    proof (cases "d = c")
      case True
      have "pointer_at meta s' c = p"
        using p(3) [of c] c by simp
      then show ?thesis
        using p(2,5) c True \<open>pointer_at meta s c = 0\<close>
        by (auto simp: map_enable_def pointer_bytes active_set_def clear_def in_block_def fun_eq_iff)
    next
      case False
      then show ?thesis
        using pointer_view_eq [where nm' = s' and c = c and d = d, OF live _ p(4)] p(3) by (simp add: map_enable_def)
    qed
    then show ?thesis
      using p(1,3) True by (auto simp: pointer_inv_def)
  qed
  show "pointer_inv meta nodes s'" if "pointer_inv meta nodes s" "c \<in> co_cells ?ops" "co_activate ?ops c s = Inr s'" for s s' c
    using act [OF that] by blast
  show "cell_view ?ops s' = map_enable (co_enables ?ops c) (\<lambda>d. co_fresh ?ops d s) (cell_view ?ops s)"
    if "pointer_inv meta nodes s" "c \<in> co_cells ?ops" "co_activate ?ops c s = Inr s'" for s s' c
    using act [OF that] by simp
  show "co_lookup ?ops d s' = co_lookup ?ops d s"
    if "pointer_inv meta nodes s" "c \<in> co_cells ?ops" "co_activate ?ops c s = Inr s'" "d \<in> co_cells ?ops" "co_is_active ?ops d s" for s s' c d
    using act [OF that(1-3)] that(4,5) by simp
  show "apart (co_lookup ?ops c s, co_size ?ops) (co_lookup ?ops d s, co_size ?ops)"
    if i: "pointer_inv meta nodes s" and "c \<in> co_cells ?ops" "d \<in> co_cells ?ops" "co_is_active ?ops c s" "co_is_active ?ops d s" "c \<noteq> d" for s c d
  proof -
    obtain live where live: "pointer_live meta nodes s live"
      using i by (auto simp: pointer_inv_def)
    have cd: "c \<in> active_set meta nodes s" "d \<in> active_set meta nodes s"
      using that by (simp_all add: active_set_def)
    then have "pointer_at meta s c \<noteq> pointer_at meta s d"
      using live that(6) by (auto simp: pointer_live_def dest: inj_onD)
    moreover have "apart b b'" if "b \<in> set live" "b' \<in> set live" "b \<noteq> b'" for b b'
      using nm_inv_apart [of s live] live that all_apart_remove1_D [of live b b'] by (auto simp: pointer_live_def)
    ultimately have "apart (pointer_at meta s c, sm_element_size meta) (pointer_at meta s d, sm_element_size meta)"
      using live_block [OF live] cd by blast
    then show ?thesis
      using that(4,5) by simp
  qed
  show "pointer_inv meta nodes (co_put ?ops (co_lookup ?ops c s + k) v s)"
    if "pointer_inv meta nodes s" "c \<in> co_cells ?ops" "co_is_active ?ops c s" "k < co_size ?ops" for s c k v
    using that put_live(1) [of meta nodes s _ c k v] by (auto simp: pointer_inv_def active_set_def)
  show "co_is_active ?ops d (co_put ?ops (co_lookup ?ops c s + k) v s) = co_is_active ?ops d s \<and>
      co_lookup ?ops d (co_put ?ops (co_lookup ?ops c s + k) v s) = co_lookup ?ops d s"
    if "pointer_inv meta nodes s" "c \<in> co_cells ?ops" "co_is_active ?ops c s" "k < co_size ?ops" "d \<in> co_cells ?ops" for s c d k v
    using that put_live(2) [of meta nodes s _ c k d v] by (auto simp: pointer_inv_def active_set_def)
  have dea: "pointer_inv meta nodes s' \<and> cell_view ?ops s' = map_disable {c} (cell_view ?ops s)"
    if i: "pointer_inv meta nodes s" and c: "c \<in> co_cells ?ops" and a: "pointer_deactivate meta c s = Inr s'" for s s' c
  proof (cases "c \<in> active_set meta nodes s")
    case False
    then have "s' = s" "cell_view ?ops s c = None"
      using a c by (auto simp: Pointer_deactivate_def pointer_at_def pointer_bytes active_set_def Let_def split_beta)
    then show ?thesis
      using i by (auto simp: map_disable_def fun_eq_iff)
  next
    case True
    obtain live where live: "pointer_live meta nodes s live"
      using i by (auto simp: pointer_inv_def)
    obtain e i where ci: "c = (e, i)"
      by (cases c)
    have "Pointer_deactivate meta e i s = Inr s'"
      using a by (simp add: ci)
    note t = deactivate_live [OF live True [unfolded ci] this]
    then have p: "pointer_inv meta nodes s'"
      "\<And>d. d \<in> pointer_cells meta nodes \<Longrightarrow> pointer_at meta s' d = (if d = c then 0 else pointer_at meta s d)"
      "\<And>b x. b \<in> set live \<Longrightarrow> in_block x b \<Longrightarrow> nm_mem s' x = nm_mem s x"
      by (auto simp: pointer_inv_def ci)
    have "cell_view ?ops s' d = map_disable {c} (cell_view ?ops s) d" for d
      using pointer_view_eq [where nm' = s' and c = c and d = d, OF live _ p(3)] p(2) c
      by (cases "d = c") (auto simp: map_disable_def pointer_bytes active_set_def)
    then show ?thesis
      using p(1) by blast
  qed
  show "pointer_inv meta nodes s'" if "pointer_inv meta nodes s" "c \<in> co_cells ?ops" "pointer_deactivate meta c s = Inr s'" for s s' c
    using dea [OF that] by blast
  show "cell_view ?ops s' = map_disable {c} (cell_view ?ops s)"
    if "pointer_inv meta nodes s" "c \<in> co_cells ?ops" "pointer_deactivate meta c s = Inr s'" for s s' c
    using dea [OF that] by blast
  show "pointer_inv meta nodes s'" if "pointer_inv meta nodes s" "gc_step s s'" for s s'
    using that collect_live(1) unfolding pointer_inv_def by blast
  show "cell_view ?ops s' = cell_view ?ops s" if i: "pointer_inv meta nodes s" and gc: "gc_step s s'" for s s'
  proof
    fix d
    obtain live where live: "pointer_live meta nodes s live"
      using i by (auto simp: pointer_inv_def)
    have "cell_view ?ops s' d = cell_view ?ops s d" if "c \<noteq> d" for c
      using pointer_view_eq [where nm' = s' and c = c and d = d, OF live _ collect_live(3) [OF live gc]] collect_live(2) [OF live gc] that by simp
    from this [of "(Suc (fst d), 0)"] show "cell_view ?ops s' d = cell_view ?ops s d"
      by (cases d) simp
  qed
qed (auto simp: nm_put_def)

section \<open>New fields\<close>

lemma fresh_pointer:
  assumes "fresh_field (16 * sm_max_num_elements meta) nodes (sm_element_size meta) nm"
  shows "pointer_inv meta nodes nm" "cell_view (pointer_ops meta nodes) nm = Map.empty"
proof -
  note fresh = fresh_field_parts [OF assms]
  have "pointer_at meta nm c = 0" if "c \<in> pointer_cells meta nodes" for c
  proof -
    obtain a i where c: "c = (a, i)"
      by (cases c)
    then have "a \<in> nodes"
      using that by (simp add: pointer_cells_def)
    then show ?thesis
      using clear_read [OF fresh(6) slot_in_node [of a i meta nodes]] that by (simp add: c pointer_at_def)
  qed
  then have none: "active_set meta nodes nm = {}"
    by (simp add: active_set_def)
  then have "pointer_live meta nodes nm []"
    using fresh(1-5) by (simp add: pointer_live_def)
  then show "pointer_inv meta nodes nm"
    unfolding pointer_inv_def by blast
  show "cell_view (pointer_ops meta nodes) nm = Map.empty"
    by (simp add: fun_eq_iff pointer_bytes none)
qed

text \<open>As many nodes are in use as cells are active.\<close>

lemma pointer_live_card:
  assumes "pointer_live meta nodes nm live"
  shows "card (active_set meta nodes nm) = length live"
proof -
  have "inj_on (\<lambda>c. (pointer_at meta nm c, sm_element_size meta)) (active_set meta nodes nm)"
    using assms by (auto simp: pointer_live_def inj_on_def)
  then have "card (set live) = card (active_set meta nodes nm)"
    using assms by (simp add: pointer_live_def card_image)
  then show ?thesis
    using assms live_distinct distinct_card by (metis pointer_live_def)
qed

text \<open>
  The next element of a list has no place: its chunk is beyond the table of chunks, or not allocated yet
  with too little of the preallocated memory left.
\<close>

definition cannot_grow :: "list_manager \<Rightarrow> prealloc_chunk \<Rightarrow> bool" where
  "cannot_grow lm pc \<longleftrightarrow>
     (let c = drop_bit (lm_log2chunk_num_elements lm) (lm_num_elements lm) in
      max_num_chunks \<le> c \<or>
      lm_chunks lm c = 0 \<and> allocate_from_reserved_memory (u64 (lm_max_num_elements_per_chunk lm * lm_element_size lm)) 4096 pc = None)"

lemma reserve_fails: "reserve_new_element lm pc = Inl er \<longleftrightarrow> er = AssertFailed \<and> cannot_grow lm pc"
  by (auto simp: reserve_new_element_def touch_chunk_def cannot_grow_def Let_def result_simps bindE_def guardE_def not_less
      split: option.splits sum.splits if_splits)

text \<open>Deactivating a cell fails only when the list of recycled nodes has to grow and cannot.\<close>

lemma deactivate_fails:
  assumes "pointer_inv meta nodes nm" "c \<in> pointer_cells meta nodes"
  shows "pointer_deactivate meta c nm = Inl er \<longleftrightarrow>
    er = AssertFailed \<and> c \<in> active_set meta nodes nm \<and> cannot_grow (il_list (nm_recycled_list nm)) (nm_chunk nm)"
proof (cases "c \<in> active_set meta nodes nm")
  case True
  obtain live where live: "pointer_live meta nodes nm live"
    using assms(1) by (auto simp: pointer_inv_def)
  obtain a i where c: "c = (a, i)"
    by (cases c)
  let ?b = "(pointer_at meta nm (a, i), sm_element_size meta)"
  have b: "nm_inv nm live" "?b \<in> set live"
    using live live_block [OF live True [unfolded c]] by (simp_all add: pointer_live_def)
  obtain k where "nm_recycle (fst ?b) nm =
      bindE (il_push_back k (nm_recycled_list nm) (nm_chunk nm)) (\<lambda>(l, pc). Inr (nm\<lparr>nm_recycled_list := l, nm_chunk := pc\<rparr>))"
    using recycle_result [OF b] by blast
  then have "nm_recycle (fst ?b) nm = Inl er \<longleftrightarrow> reserve_new_element (il_list (nm_recycled_list nm)) (nm_chunk nm) = Inl er"
    by (auto simp: il_push_back_def bindE_def split: sum.splits)
  moreover have "pointer_deactivate meta c nm = Inl er \<longleftrightarrow> nm_recycle (fst ?b) nm = Inl er"
    using True by (auto simp: c active_set_def Pointer_deactivate_def pointer_at_def Let_def bindE_def split: sum.splits)
  ultimately show ?thesis
    using True reserve_fails by blast
next
  case False
  then show ?thesis
    using assms(2) by (cases c) (auto simp: active_set_def pointer_at_def Pointer_deactivate_def)
qed

text \<open>The cells of the map are the active ones.\<close>

lemma dom_pointer_view: "dom (cell_view (pointer_ops meta nodes) nm) = active_set meta nodes nm"
  by (auto simp: pointer_bytes split: if_splits)

end
