(* ===== verification/DynamicField.thy ===== *)
theory DynamicField
  imports PointerField
begin

text \<open>
  Dynamic nodes keep the contract of cells: a container is a number of elements and a chain of chunks long
  enough for them; activating an element activates those before it, appending activates the next one.
\<close>

section \<open>Chains of chunks\<close>

text \<open>The pointer slots along a chain: that of the container, then the head of each chunk.\<close>

definition chain :: "bytes \<Rightarrow> nat \<Rightarrow> nat list \<Rightarrow> bool" where
  "chain m a ps \<longleftrightarrow> 0 \<notin> set ps \<and> (\<forall>k \<le> length ps. read_le m ((a # ps) ! k) 8 = (ps @ [0]) ! k)"

lemma chain_cong:
  assumes "chain m a ps" "\<And>q. q \<in> set (a # ps) \<Longrightarrow> read_le m' q 8 = read_le m q 8"
  shows "chain m' a ps"
proof -
  have "(a # ps) ! k \<in> set (a # ps)" if "k \<le> length ps" for k
    using that by (intro nth_mem) simp
  then show ?thesis
    using assms by (simp add: chain_def)
qed

lemma chain_snoc:
  assumes "chain m a ps" "p \<noteq> 0" "read_le m' ((a # ps) ! length ps) 8 = p" "read_le m' p 8 = 0"
    and "\<And>k. k < length ps \<Longrightarrow> read_le m' ((a # ps) ! k) 8 = read_le m ((a # ps) ! k) 8"
  shows "chain m' a (ps @ [p])"
  unfolding chain_def
proof (intro conjI allI impI)
  show "0 \<notin> set (ps @ [p])"
    using assms(1,2) by (auto simp: chain_def)
  fix k
  assume "k \<le> length (ps @ [p])"
  then consider "k < length ps" | "k = length ps" | "k = Suc (length ps)"
    by fastforce
  then show "read_le m' ((a # ps @ [p]) ! k) 8 = ((ps @ [p]) @ [0]) ! k"
  proof cases
    case 1
    then have "(a # ps @ [p]) ! k = (a # ps) ! k" "((ps @ [p]) @ [0]) ! k = (ps @ [0]) ! k"
      by (auto simp: nth_Cons nth_append split: nat.splits)
    then show ?thesis
      using assms(1,5) 1 by (simp add: chain_def)
  next
    case 2
    then have "(a # ps @ [p]) ! k = (a # ps) ! length ps"
      by (auto simp: nth_Cons nth_append split: nat.splits)
    then show ?thesis
      using assms(3) 2 by (simp add: nth_append)
  next
    case 3
    then show ?thesis
      using assms(4) by (simp add: nth_append)
  qed
qed

lemma chain_next: "chain m a ps \<Longrightarrow> k < length ps \<Longrightarrow> read_le m ((a # ps) ! k) 8 = ps ! k \<and> ps ! k \<noteq> 0"
  by (auto simp: chain_def nth_append in_set_conv_nth)

lemma chain_end: "chain m a ps \<Longrightarrow> read_le m ((a # ps) ! length ps) 8 = 0"
  unfolding chain_def by (metis nth_append_length order_refl)

text \<open>Walking a chain finds the chunk of an element.\<close>

lemma find_chunk_chain:
  assumes "chain m a ps" "0 < cs" "i < cs * length ps" "k \<le> i div cs"
  shows "find_chunk cs m (ps ! k) (cs * k) i = Some (ps ! (i div cs), cs * (i div cs))"
  using assms(4)
proof (induction "i div cs - k" arbitrary: k)
  case 0
  then have "k = i div cs"
    by simp
  moreover have "i < cs * (i div cs) + cs"
    using assms(2) by (metis add.commute dividend_less_times_div)
  ultimately show ?case
    by (simp add: find_chunk.simps [of cs m "ps ! (i div cs)" "cs * (i div cs)" i])
next
  case (Suc n)
  then have "Suc k \<le> i div cs" "n = i div cs - Suc k"
    by simp_all
  then have "cs * Suc k \<le> i"
    using mult_le_mono2 [of "Suc k" "i div cs" cs] times_div_less_eq_dividend [of cs i] by linarith
  moreover have "i div cs < length ps"
    using assms(2,3) by (simp add: div_less_iff_less_mult mult.commute)
  then have "read_le m (ps ! k) 8 = ps ! Suc k"
    using chain_next [OF assms(1), of "Suc k"] \<open>Suc k \<le> i div cs\<close> by simp
  ultimately show ?case
    using Suc.hyps(1) [OF \<open>n = _\<close>] \<open>Suc k \<le> i div cs\<close> assms(2)
    by (simp add: find_chunk.simps [of cs m "ps ! k" "cs * k" i] add.commute)
qed

section \<open>The invariant\<close>

definition chunk_bytes_of :: "snode_meta \<Rightarrow> nat" where
  "chunk_bytes_of meta = 8 + sm_chunk_size meta * sm_element_size meta"

definition element_at :: "snode_meta \<Rightarrow> nat list \<Rightarrow> nat \<Rightarrow> nat" where
  "element_at meta ps i = ps ! (i div sm_chunk_size meta) + 8 + (i mod sm_chunk_size meta) * sm_element_size meta"

text \<open>
  \<open>ch c\<close> is the chain of container \<open>c\<close>; the elements of its chunks from number \<open>cnt c\<close> on are clear. The
  nodes in use are those of the chains.
\<close>

definition dynamic_core :: "snode_meta \<Rightarrow> nat set \<Rightarrow> node_manager \<Rightarrow> block list \<Rightarrow> (nat \<Rightarrow> nat list) \<Rightarrow> (nat \<Rightarrow> nat) \<Rightarrow> bool" where
  "dynamic_core meta nodes nm live ch cnt \<longleftrightarrow>
     nm_inv nm live \<and> lm_element_size (nm_data_list nm) = chunk_bytes_of meta \<and> 0 < sm_chunk_size meta \<and> free_clear nm \<and>
     nodes_apart 16 nodes \<and> (\<forall>c \<in> nodes. outside nm (c, 16) \<and> chain (nm_mem nm) (c + 8) (ch c) \<and> distinct (ch c)) \<and>
     (\<forall>c \<in> nodes. \<forall>d \<in> nodes. c \<noteq> d \<longrightarrow> set (ch c) \<inter> set (ch d) = {}) \<and>
     set live = (\<lambda>p. (p, chunk_bytes_of meta)) ` (\<Union>c \<in> nodes. set (ch c)) \<and>
     (\<forall>c \<in> nodes. \<forall>i \<ge> cnt c. i < sm_chunk_size meta * length (ch c) \<longrightarrow> clear (nm_mem nm) (element_at meta (ch c) i, sm_element_size meta))"

definition dynamic_inv :: "snode_meta \<Rightarrow> nat set \<Rightarrow> node_manager \<Rightarrow> bool" where
  "dynamic_inv meta nodes nm \<longleftrightarrow>
     (\<exists>live ch. dynamic_core meta nodes nm live ch (\<lambda>c. nat (dynamic_n c (nm_mem nm))) \<and>
        (\<forall>c \<in> nodes. 0 \<le> dynamic_n c (nm_mem nm) \<and> dynamic_n c (nm_mem nm) \<le> int (sm_chunk_size meta * length (ch c))))"

lemma dynamic_core_parts:
  assumes "dynamic_core meta nodes nm live ch cnt"
  shows "nm_inv nm live" "lm_element_size (nm_data_list nm) = chunk_bytes_of meta" "0 < sm_chunk_size meta" "free_clear nm"
    "nodes_apart 16 nodes" "\<And>c. c \<in> nodes \<Longrightarrow> outside nm (c, 16)" "\<And>c. c \<in> nodes \<Longrightarrow> chain (nm_mem nm) (c + 8) (ch c)"
    "\<And>c. c \<in> nodes \<Longrightarrow> distinct (ch c)" "\<And>c d. c \<in> nodes \<Longrightarrow> d \<in> nodes \<Longrightarrow> c \<noteq> d \<Longrightarrow> set (ch c) \<inter> set (ch d) = {}"
    "set live = (\<lambda>p. (p, chunk_bytes_of meta)) ` (\<Union>c \<in> nodes. set (ch c))"
    "\<And>c i. c \<in> nodes \<Longrightarrow> cnt c \<le> i \<Longrightarrow> i < sm_chunk_size meta * length (ch c) \<Longrightarrow>
       clear (nm_mem nm) (element_at meta (ch c) i, sm_element_size meta)"
  using assms unfolding dynamic_core_def by auto

lemma dynamic_coreI:
  assumes "nm_inv nm live" "lm_element_size (nm_data_list nm) = chunk_bytes_of meta" "0 < sm_chunk_size meta" "free_clear nm"
    "nodes_apart 16 nodes" "\<And>c. c \<in> nodes \<Longrightarrow> outside nm (c, 16)" "\<And>c. c \<in> nodes \<Longrightarrow> chain (nm_mem nm) (c + 8) (ch c)"
    "\<And>c. c \<in> nodes \<Longrightarrow> distinct (ch c)" "\<And>c d. c \<in> nodes \<Longrightarrow> d \<in> nodes \<Longrightarrow> c \<noteq> d \<Longrightarrow> set (ch c) \<inter> set (ch d) = {}"
    "set live = (\<lambda>p. (p, chunk_bytes_of meta)) ` (\<Union>c \<in> nodes. set (ch c))"
    "\<And>c i. c \<in> nodes \<Longrightarrow> cnt c \<le> i \<Longrightarrow> i < sm_chunk_size meta * length (ch c) \<Longrightarrow>
       clear (nm_mem nm) (element_at meta (ch c) i, sm_element_size meta)"
  shows "dynamic_core meta nodes nm live ch cnt"
  using assms unfolding dynamic_core_def by simp

lemma chunk_live: "dynamic_core meta nodes nm live ch cnt \<Longrightarrow> c \<in> nodes \<Longrightarrow> p \<in> set (ch c) \<Longrightarrow> (p, chunk_bytes_of meta) \<in> set live"
  using dynamic_core_parts(10) by fastforce

text \<open>Elements lie behind the head of their chunk.\<close>

lemma element_in_chunk_data:
  assumes "0 < sm_chunk_size meta" "i < sm_chunk_size meta * length ps"
  shows "ps ! (i div sm_chunk_size meta) \<in> set ps"
    "inside (element_at meta ps i, sm_element_size meta) (ps ! (i div sm_chunk_size meta) + 8, sm_chunk_size meta * sm_element_size meta)"
proof -
  let ?k = "i div sm_chunk_size meta" and ?r = "i mod sm_chunk_size meta"
  have "?k < length ps"
    using assms by (simp add: div_less_iff_less_mult mult.commute)
  then show "ps ! ?k \<in> set ps"
    by simp
  have "Suc ?r \<le> sm_chunk_size meta"
    using assms(1) by (simp add: Suc_leI)
  then have "Suc ?r * sm_element_size meta \<le> sm_chunk_size meta * sm_element_size meta"
    by (rule mult_le_mono1)
  then show "inside (element_at meta ps i, sm_element_size meta) (ps ! ?k + 8, sm_chunk_size meta * sm_element_size meta)"
    by (simp add: inside_def element_at_def)
qed

lemma element_inside_chunk:
  assumes "0 < sm_chunk_size meta" "i < sm_chunk_size meta * length ps"
  shows "inside (element_at meta ps i, sm_element_size meta) (ps ! (i div sm_chunk_size meta), chunk_bytes_of meta)"
  using element_in_chunk_data(2) [OF assms] by (auto simp: inside_def chunk_bytes_of_def)

lemma live_pairs_apart: "nm_inv nm live \<Longrightarrow> b \<in> set live \<Longrightarrow> b' \<in> set live \<Longrightarrow> b \<noteq> b' \<Longrightarrow> apart b b'"
  using nm_inv_apart all_apart_remove1_D [of live b b'] by auto

lemma elements_pairwise:
  assumes core: "dynamic_core meta nodes nm live ch cnt" and c: "c \<in> nodes" "d \<in> nodes"
    and i: "i < sm_chunk_size meta * length (ch c)" "j < sm_chunk_size meta * length (ch d)" and ne: "(c, i) \<noteq> (d, j)"
  shows "apart (element_at meta (ch c) i, sm_element_size meta) (element_at meta (ch d) j, sm_element_size meta)"
proof -
  let ?cs = "sm_chunk_size meta"
  let ?p = "ch c ! (i div ?cs)" and ?q = "ch d ! (j div ?cs)"
  note cs = dynamic_core_parts(3) [OF core]
  have k: "i div ?cs < length (ch c)" "j div ?cs < length (ch d)"
    using i cs by (simp_all add: div_less_iff_less_mult mult.commute)
  show ?thesis
  proof (cases "?p = ?q")
    case False
    then have "apart (?p, chunk_bytes_of meta) (?q, chunk_bytes_of meta)"
      using live_pairs_apart [OF dynamic_core_parts(1) [OF core]] chunk_live [OF core] c k by simp
    then show ?thesis
      using element_inside_chunk [OF cs i(1)] element_inside_chunk [OF cs i(2)] by (rule apart_inside)
  next
    case True
    have "?p \<in> set (ch c)" "?p \<in> set (ch d)"
      using nth_mem [OF k(1)] nth_mem [OF k(2)] True by simp_all
    then have "c = d"
      using dynamic_core_parts(9) [OF core c] by blast
    moreover from this have "i div ?cs = j div ?cs"
      using True k dynamic_core_parts(8) [OF core c(1)] by (simp add: nth_eq_iff_index_eq)
    ultimately have "i mod ?cs \<noteq> j mod ?cs"
      using ne by (metis div_mult_mod_eq)
    from slots_apart [OF this, of "?p + 8" "sm_element_size meta"] show ?thesis
      using True by (simp add: element_at_def mult.commute)
  qed
qed

section \<open>Pointer slots\<close>

text \<open>Where the chains keep their pointers. They do not overlap each other nor any element.\<close>

definition chain_slots :: "nat set \<Rightarrow> (nat \<Rightarrow> nat list) \<Rightarrow> nat set" where
  "chain_slots nodes ch = (\<lambda>c. c + 8) ` nodes \<union> (\<Union>c \<in> nodes. set (ch c))"

lemma slot_cases:
  assumes "dynamic_core meta nodes nm live ch cnt" "s \<in> chain_slots nodes ch"
  obtains c where "c \<in> nodes" "s = c + 8" "outside nm (c, 16)" "inside (s, 8) (c, 16)"
  | "(s, chunk_bytes_of meta) \<in> set live" "inside (s, 8) (s, chunk_bytes_of meta)"
  using assms dynamic_core_parts(6) [OF assms(1)] chunk_live [OF assms(1)]
  by (auto simp: chain_slots_def inside_def chunk_bytes_of_def)

lemma container_slot:
  assumes "c \<in> nodes" "k \<le> length (ch c)"
  shows "((c + 8) # ch c) ! k \<in> chain_slots nodes ch"
proof -
  have "((c + 8) # ch c) ! k \<in> set ((c + 8) # ch c)"
    using assms(2) by (intro nth_mem) simp
  then show ?thesis
    using assms(1) by (auto simp: chain_slots_def)
qed

lemma container_chunk_apart:
  assumes "dynamic_core meta nodes nm live ch cnt" "c \<in> nodes" "b \<in> set live"
  shows "apart (c, 16) b"
  using live_outside [OF dynamic_core_parts(1) [OF assms(1)] assms(3) dynamic_core_parts(6) [OF assms(1,2)]] .

lemma slot_not_chunk:
  assumes "dynamic_core meta nodes nm live ch cnt" "c \<in> nodes" "d \<in> nodes"
  shows "c + 8 \<notin> set (ch d)"
proof
  assume "c + 8 \<in> set (ch d)"
  then have "apart (c, 16) (c + 8, chunk_bytes_of meta)"
    using container_chunk_apart [OF assms(1,2) chunk_live [OF assms(1,3)]] by blast
  then show False
    by (simp add: apart_def chunk_bytes_of_def)
qed

lemma slots_apart_pairwise:
  assumes core: "dynamic_core meta nodes nm live ch cnt" and s: "s \<in> chain_slots nodes ch" "t \<in> chain_slots nodes ch" "s \<noteq> t"
  shows "apart (s, 8) (t, 8)"
proof -
  note pairs = live_pairs_apart [OF dynamic_core_parts(1) [OF core]]
  show ?thesis
  proof (cases rule: slot_cases [OF core s(1), case_names ca la])
    case (ca c)
    show ?thesis
    proof (cases rule: slot_cases [OF core s(2), case_names cb lb])
      case (cb d)
      then have "apart (c, 16) (d, 16)"
        using ca s(3) dynamic_core_parts(5) [OF core] by (auto simp: nodes_apart_def)
      then show ?thesis
        using ca(4) cb(4) by (rule apart_inside)
    next
      case lb
      show ?thesis
        by (rule apart_inside [OF container_chunk_apart [OF core ca(1) lb(1)] ca(4) lb(2)])
    qed
  next
    case la
    show ?thesis
    proof (cases rule: slot_cases [OF core s(2), case_names cb lb])
      case (cb d)
      show ?thesis
        using apart_inside [OF container_chunk_apart [OF core cb(1) la(1)] cb(4) la(2)] by (simp add: apart_sym)
    next
      case lb
      then have "apart (s, chunk_bytes_of meta) (t, chunk_bytes_of meta)"
        using pairs [OF la(1) lb(1)] s(3) by simp
      then show ?thesis
        using la(2) lb(2) by (rule apart_inside)
    qed
  qed
qed

lemma slot_element_apart:
  assumes core: "dynamic_core meta nodes nm live ch cnt" and s: "s \<in> chain_slots nodes ch"
    and q: "(q, chunk_bytes_of meta) \<in> set live"
  shows "apart (s, 8) (q + 8, sm_chunk_size meta * sm_element_size meta)"
proof -
  have ins: "inside (q + 8, sm_chunk_size meta * sm_element_size meta) (q, chunk_bytes_of meta)"
    by (simp add: inside_def chunk_bytes_of_def)
  show ?thesis
  proof (cases rule: slot_cases [OF core s, case_names ca la])
    case (ca c)
    show ?thesis
      by (rule apart_inside [OF container_chunk_apart [OF core ca(1) q] ca(4) ins])
  next
    case la
    show ?thesis
    proof (cases "s = q")
      case True
      then show ?thesis
        by (simp add: apart_def)
    next
      case False
      then have "apart (s, chunk_bytes_of meta) (q, chunk_bytes_of meta)"
        using live_pairs_apart [OF dynamic_core_parts(1) [OF core] la(1) q] by simp
      then show ?thesis
        using la(2) ins by (rule apart_inside)
    qed
  qed
qed

lemma slot_write_kernel:
  assumes "dynamic_core meta nodes nm live ch cnt" "s \<in> chain_slots nodes ch"
    and "set live \<subseteq> set live'" "\<And>b. outside nm b \<Longrightarrow> outside nm' b"
  shows "kernel_write nm' live' (write_le s 8 p (nm_mem nm'))"
  unfolding kernel_write_def
proof (intro allI impI)
  fix x
  assume "write_le s 8 p (nm_mem nm') x \<noteq> nm_mem nm' x"
  then have x: "in_block x (s, 8)"
    using write_le_other [of x s 8 p "nm_mem nm'"] unfolding in_block_def by (metis fst_conv not_le snd_conv)
  show "(\<exists>b \<in> set live'. in_block x b) \<or> (\<exists>b. outside nm' b \<and> in_block x b)"
  proof (cases rule: slot_cases [OF assms(1,2), case_names ca la])
    case (ca c)
    then show ?thesis
      using assms(4) in_inside [OF ca(4) x] by blast
  next
    case la
    then show ?thesis
      using assms(3) in_inside [OF la(2) x] by blast
  qed
qed

lemma write_slot_apart: "apart (s, 8) b \<Longrightarrow> in_block x b \<Longrightarrow> write_le s 8 p m x = m x"
  by (rule write_le_other) (auto simp: apart_def in_block_def)

section \<open>A new chunk\<close>

lemma append_chunk:
  assumes core: "dynamic_core meta nodes nm live ch cnt" and c: "c \<in> nodes"
    and f: "fill_chunk_ptr (((c + 8) # ch c) ! length (ch c)) nm = Inr nm'"
  obtains p where "dynamic_core meta nodes nm' ((p, chunk_bytes_of meta) # live) (ch(c := ch c @ [p])) cnt"
    "read_le (nm_mem nm') (((c + 8) # ch c) ! length (ch c)) 8 = p"
    "\<And>x. \<not> in_block x (((c + 8) # ch c) ! length (ch c), 8) \<Longrightarrow> nm_mem nm' x = nm_mem nm x"
proof -
  note parts = dynamic_core_parts [OF core]
  let ?s = "((c + 8) # ch c) ! length (ch c)"
  have s: "?s \<in> chain_slots nodes ch"
    using container_slot [OF c] by blast
  obtain p nm1 where al: "nm_allocate nm = Inr (p, nm1)" and nm': "nm' = nm1\<lparr>nm_mem := write_le ?s 8 p (nm_mem nm1)\<rparr>"
    using f chain_end [OF parts(7) [OF c]] by (auto simp: fill_chunk_ptr_def result_simps)
  let ?b = "(p, chunk_bytes_of meta)"
  note am = allocate_memory [OF parts(1) al]
  have inv1: "nm_inv nm1 (?b # live)"
    using allocate_inv [OF parts(1) al] by (simp add: parts(2))
  have p: "0 < p" "p < 2 ^ 62"
    using live_address(1,2) [OF inv1, of ?b] by simp_all
  have b_apart: "apart ?b b" if "b \<in> set live" for b
    using nm_inv_apart [OF inv1] that by (auto simp: list_all_iff)
  have new: "p \<notin> set (ch d)" if "d \<in> nodes" for d
    using b_apart [OF chunk_live [OF core that, of p]] by (auto simp: apart_def chunk_bytes_of_def)
  have out1: "outside nm1 (d, 16)" if "d \<in> nodes" for d
    using am(3) parts(6) that by blast
  have sb: "apart (?s, 8) ?b"
  proof (cases rule: slot_cases [OF core s, case_names ca la])
    case (ca d)
    have "apart (d, 16) ?b"
      using live_outside [OF inv1 _ out1 [OF ca(1)]] by simp
    then show ?thesis
      using ca(4) inside_refl by (rule apart_inside)
  next
    case la
    have "apart (?s, chunk_bytes_of meta) ?b"
      using b_apart [OF la(1)] by (simp add: apart_sym)
    then show ?thesis
      using la(2) inside_refl by (rule apart_inside)
  qed
  have mem: "nm_mem nm' x = nm_mem nm x" if "\<not> in_block x (?s, 8)" for x
    using that am(1) by (auto simp: nm' in_block_def intro: write_le_other)
  have fresh: "nm_mem nm' x = 0" if "in_block x ?b" for x
    using mem [of x] apart_not_in [OF sb] that am(4) [OF parts(4)] by (auto simp: clear_def parts(2))
  have read: "read_le (nm_mem nm') t 8 = read_le (nm_mem nm) t 8" if "t \<in> chain_slots nodes ch" "t \<noteq> ?s" for t
    using slots_apart_pairwise [OF core that(1) s that(2)] by (simp add: nm' am(1) read_le_apart)
  have rs: "read_le (nm_mem nm') ?s 8 = p"
    using p(2) by (simp add: nm')
  have other: "chain (nm_mem nm') (d + 8) (ch d)" if d: "d \<in> nodes" "d \<noteq> c" for d
  proof (rule chain_cong [OF parts(7) [OF d(1)]])
    fix q
    assume q: "q \<in> set ((d + 8) # ch d)"
    have "?s \<noteq> q"
    proof
      assume "?s = q"
      moreover have "?s \<in> set ((c + 8) # ch c)"
        by (rule nth_mem) simp
      ultimately show False
        using q d parts(9) [OF c d(1)] slot_not_chunk [OF core c d(1)] slot_not_chunk [OF core d(1) c] by auto
    qed
    moreover have "q \<in> chain_slots nodes ch"
      using q d(1) by (auto simp: chain_slots_def)
    ultimately show "read_le (nm_mem nm') q 8 = read_le (nm_mem nm) q 8"
      using read by blast
  qed
  have distinct_slots: "((c + 8) # ch c) ! k \<noteq> ?s" if "k < length (ch c)" for k
  proof -
    have "distinct ((c + 8) # ch c)"
      using parts(8) [OF c] slot_not_chunk [OF core c c] by simp
    then show ?thesis
      using that by (simp add: nth_eq_iff_index_eq)
  qed
  have "chain (nm_mem nm') (c + 8) (ch c @ [p])"
  proof (rule chain_snoc [OF parts(7) [OF c] _ rs])
    show "p \<noteq> 0"
      using p(1) by simp
    show "read_le (nm_mem nm') p 8 = 0"
      using fresh by (intro read_le_zero) (simp add: in_block_def chunk_bytes_of_def)
    show "read_le (nm_mem nm') (((c + 8) # ch c) ! k) 8 = read_le (nm_mem nm) (((c + 8) # ch c) ! k) 8" if "k < length (ch c)" for k
      using read [OF container_slot [OF c] distinct_slots [OF that]] that by simp
  qed
  note here = this
  have old: "clear (nm_mem nm') (element_at meta (ch d) i, sm_element_size meta)"
    if "d \<in> nodes" "cnt d \<le> i" "i < sm_chunk_size meta * length (ch d)" for d i
  proof -
    let ?q = "ch d ! (i div sm_chunk_size meta)"
    have "apart (?s, 8) (?q + 8, sm_chunk_size meta * sm_element_size meta)"
      using slot_element_apart [OF core s chunk_live [OF core that(1)]] element_in_chunk_data(1) [OF parts(3) that(3)] by blast
    then have "apart (?s, 8) (element_at meta (ch d) i, sm_element_size meta)"
      using inside_refl element_in_chunk_data(2) [OF parts(3) that(3)] by (rule apart_inside)
    then show ?thesis
      using parts(11) [OF that] mem apart_not_in by (metis clear_def)
  qed
  have own: "clear (nm_mem nm') (element_at meta (ch c @ [p]) i, sm_element_size meta)"
    if "cnt c \<le> i" "i < sm_chunk_size meta * length (ch c @ [p])" for i
  proof (cases "i < sm_chunk_size meta * length (ch c)")
    case True
    then have "i div sm_chunk_size meta < length (ch c)"
      using parts(3) by (simp add: div_less_iff_less_mult mult.commute)
    then show ?thesis
      using old [OF c that(1) True] by (simp add: element_at_def nth_append)
  next
    case False
    then have "length (ch c) \<le> i div sm_chunk_size meta"
      using parts(3) by (simp add: less_eq_div_iff_mult_less_eq mult.commute)
    moreover have "i div sm_chunk_size meta < length (ch c @ [p])"
      using that(2) parts(3) by (simp only: div_less_iff_less_mult mult.commute)
    ultimately have "i div sm_chunk_size meta = length (ch c)"
      by simp
    then have "inside (element_at meta (ch c @ [p]) i, sm_element_size meta) ?b"
      using element_inside_chunk [OF parts(3) that(2)] by simp
    then show ?thesis
      using fresh in_inside by (metis clear_def)
  qed
  have "free_clear nm'"
    using free_clear_write [OF inv1 _ slot_write_kernel [OF core s, of "?b # live" nm1 p]] am(3,4) parts(4) by (auto simp: nm')
  moreover have "(\<Union>d \<in> nodes. set ((ch(c := ch c @ [p])) d)) = insert p (\<Union>d \<in> nodes. set (ch d))"
    using c by (auto split: if_splits)
  moreover have "nm_inv nm' (?b # live)" "lm_element_size (nm_data_list nm') = chunk_bytes_of meta" "\<And>d. d \<in> nodes \<Longrightarrow> outside nm' (d, 16)"
    using inv1 am(2) parts(2) out1 by (simp_all add: nm')
  moreover have "chain (nm_mem nm') (d + 8) ((ch(c := ch c @ [p])) d) \<and> distinct ((ch(c := ch c @ [p])) d)" if "d \<in> nodes" for d
    using other [OF that] here new [OF that] parts(8) [OF that] by auto
  moreover have "set ((ch(c := ch c @ [p])) d) \<inter> set ((ch(c := ch c @ [p])) e) = {}" if "d \<in> nodes" "e \<in> nodes" "d \<noteq> e" for d e
    using parts(9) [OF that] new [OF that(1)] new [OF that(2)] that(3) by auto
  moreover have "clear (nm_mem nm') (element_at meta ((ch(c := ch c @ [p])) d) i, sm_element_size meta)"
    if "d \<in> nodes" "cnt d \<le> i" "i < sm_chunk_size meta * length ((ch(c := ch c @ [p])) d)" for d i
    using old [OF that(1,2)] own [of i] that by (cases "d = c") simp_all
  ultimately have "dynamic_core meta nodes nm' (?b # live) (ch(c := ch c @ [p])) cnt"
    by (intro dynamic_coreI parts(3,5)) (simp_all add: parts(10))
  then show ?thesis
    using that rs mem by blast
qed

text \<open>Memory that chunks and their pointers leave alone: lengths and locks of containers, and element data.\<close>

definition kept :: "snode_meta \<Rightarrow> nat set \<Rightarrow> block list \<Rightarrow> nat \<Rightarrow> bool" where
  "kept meta nodes live x \<longleftrightarrow>
     (\<exists>d \<in> nodes. in_block x (d, 8)) \<or>
     (\<exists>p. (p, chunk_bytes_of meta) \<in> set live \<and> in_block x (p + 8, sm_chunk_size meta * sm_element_size meta))"

lemma kept_not_slot:
  assumes core: "dynamic_core meta nodes nm live ch cnt" and s: "s \<in> chain_slots nodes ch" and k: "kept meta nodes live x"
  shows "\<not> in_block x (s, 8)"
  using k unfolding kept_def
proof (elim disjE bexE exE conjE)
  fix d
  assume d: "d \<in> nodes" "in_block x (d, 8)"
  have "apart (d, 8) (s, 8)"
  proof (cases rule: slot_cases [OF core s, case_names ca la])
    case (ca c)
    show ?thesis
    proof (cases "c = d")
      case False
      then have "apart (d, 16) (c, 16)"
        using ca(1) d(1) dynamic_core_parts(5) [OF core] by (simp add: nodes_apart_def)
      then show ?thesis
        using ca(2) by (auto simp: apart_def)
    qed (simp add: ca(2) apart_def)
  next
    case la
    then show ?thesis
      using container_chunk_apart [OF core d(1) la(1)] by (auto simp: apart_def chunk_bytes_of_def)
  qed
  then show ?thesis
    using d(2) apart_not_in by blast
next
  fix p
  assume p: "(p, chunk_bytes_of meta) \<in> set live" "in_block x (p + 8, sm_chunk_size meta * sm_element_size meta)"
  then show ?thesis
    using slot_element_apart [OF core s p(1)] apart_not_in by blast
qed

lemma reach_chunk_core:
  assumes "dynamic_core meta nodes nm live ch cnt" "c \<in> nodes" "k \<le> length (ch c)" "sm_chunk_size meta * k \<le> i"
    and "reach_chunk (sm_chunk_size meta) (((c + 8) # ch c) ! k) (sm_chunk_size meta * k) i nm = Inr (chunk, start, nm')"
  shows "\<exists>live' qs. dynamic_core meta nodes nm' live' (ch(c := ch c @ qs)) cnt \<and> i < sm_chunk_size meta * length (ch c @ qs) \<and>
    chunk = (ch c @ qs) ! (i div sm_chunk_size meta) \<and> start = sm_chunk_size meta * (i div sm_chunk_size meta) \<and>
    (\<forall>x. kept meta nodes live x \<longrightarrow> nm_mem nm' x = nm_mem nm x)"
  using assms
proof (induction "Suc i - sm_chunk_size meta * k" arbitrary: nm live ch k rule: less_induct)
  case less
  let ?cs = "sm_chunk_size meta" and ?s = "((c + 8) # ch c) ! k"
  note core = less.prems(1) and parts = dynamic_core_parts [OF less.prems(1)]
  have cs: "0 < ?cs"
    by (rule parts(3))
  have stop: "i div ?cs = k" if "i < ?cs * k + ?cs"
    using that less.prems(4) cs by (intro div_nat_eqI) (simp_all add: mult.commute)
  have more: "?cs * Suc k \<le> i" "Suc i - ?cs * Suc k < Suc i - ?cs * k" if "\<not> i < ?cs * k + ?cs"
    using that cs by simp_all
  obtain nm1 where f: "fill_chunk_ptr ?s nm = Inr nm1"
    and r: "(if i < ?cs * k + ?cs then Inr (read_le (nm_mem nm1) ?s 8, ?cs * k, nm1)
      else reach_chunk ?cs (read_le (nm_mem nm1) ?s 8) (?cs * Suc k) i nm1) = Inr (chunk, start, nm')"
    using less.prems(5) cs by (subst (asm) reach_chunk.simps) (auto simp: Let_def add.commute split: sum.splits if_splits)
  show ?case
  proof (cases "k < length (ch c)")
    case True
    have next_chunk: "read_le (nm_mem nm) ?s 8 = ch c ! k" "ch c ! k \<noteq> 0"
      using chain_next [OF parts(7) [OF less.prems(2)] True] by simp_all
    then have nm1: "nm1 = nm"
      using f by (simp add: fill_chunk_ptr_def)
    show ?thesis
    proof (cases "i < ?cs * k + ?cs")
      case last: True
      have "?cs * Suc k \<le> ?cs * length (ch c)"
        using True by (intro mult_le_mono2) simp
      then show ?thesis
        using last r core stop [OF last] next_chunk by (intro exI [of _ live] exI [of _ "[]"]) (simp add: nm1)
    next
      case go: False
      have "reach_chunk ?cs (((c + 8) # ch c) ! Suc k) (?cs * Suc k) i nm = Inr (chunk, start, nm')"
        using r go next_chunk by (simp add: nm1)
      then show ?thesis
        using less.hyps [OF more(2) [OF go] core less.prems(2) _ more(1) [OF go]] True by simp
    qed
  next
    case False
    then have k: "k = length (ch c)"
      using less.prems(3) by simp
    obtain p where p: "dynamic_core meta nodes nm1 ((p, chunk_bytes_of meta) # live) (ch(c := ch c @ [p])) cnt"
      "read_le (nm_mem nm1) ?s 8 = p" "\<And>x. \<not> in_block x (?s, 8) \<Longrightarrow> nm_mem nm1 x = nm_mem nm x"
      using append_chunk [OF core less.prems(2)] f unfolding k by blast
    have keep: "nm_mem nm1 x = nm_mem nm x" if "kept meta nodes live x" for x
      using p(3) kept_not_slot [OF core container_slot [where ch = ch, OF less.prems(2,3)] that] by blast
    show ?thesis
    proof (cases "i < ?cs * k + ?cs")
      case last: True
      have "chunk = p" "start = ?cs * k" "nm' = nm1"
        using r last p(2) by auto
      then show ?thesis
        using last p(1) stop [OF last] keep k
        by (intro exI [of _ "(p, chunk_bytes_of meta) # live"] exI [of _ "[p]"]) (simp add: nth_append)
    next
      case go: False
      let ?ch = "ch(c := ch c @ [p])"
      have "reach_chunk ?cs (((c + 8) # ?ch c) ! Suc k) (?cs * Suc k) i nm1 = Inr (chunk, start, nm')"
        using r go p(2) by (simp add: k)
      then obtain live' qs where q: "dynamic_core meta nodes nm' live' (?ch(c := ?ch c @ qs)) cnt" "i < ?cs * length (?ch c @ qs)"
        "chunk = (?ch c @ qs) ! (i div ?cs)" "start = ?cs * (i div ?cs)"
        "\<And>x. kept meta nodes ((p, chunk_bytes_of meta) # live) x \<Longrightarrow> nm_mem nm' x = nm_mem nm1 x"
        using less.hyps [OF more(2) [OF go] p(1) less.prems(2) _ more(1) [OF go]] k by auto
      moreover have "kept meta nodes ((p, chunk_bytes_of meta) # live) x" if "kept meta nodes live x" for x
        using that by (auto simp: kept_def)
      ultimately show ?thesis
        using keep by (intro exI [of _ live'] exI [of _ "p # qs"]) simp
    qed
  qed
qed

section \<open>Writes that respect the chains\<close>

lemma core_write:
  assumes core: "dynamic_core meta nodes nm live ch cnt" and w: "kernel_write nm live m"
    and slots: "\<And>s x. s \<in> chain_slots nodes ch \<Longrightarrow> in_block x (s, 8) \<Longrightarrow> m x = nm_mem nm x"
    and elems: "\<And>c i x. c \<in> nodes \<Longrightarrow> cnt c \<le> i \<Longrightarrow> i < sm_chunk_size meta * length (ch c) \<Longrightarrow>
      in_block x (element_at meta (ch c) i, sm_element_size meta) \<Longrightarrow> m x = nm_mem nm x"
  shows "dynamic_core meta nodes (nm\<lparr>nm_mem := m\<rparr>) live ch cnt"
proof -
  note parts = dynamic_core_parts [OF core]
  have "chain m (c + 8) (ch c)" if "c \<in> nodes" for c
  proof (rule chain_cong [OF parts(7) [OF that]])
    fix q
    assume "q \<in> set ((c + 8) # ch c)"
    then have "q \<in> chain_slots nodes ch"
      using that by (auto simp: chain_slots_def)
    then show "read_le m q 8 = read_le (nm_mem nm) q 8"
      using slots by (intro read_le_cong) (simp add: in_block_def)
  qed
  moreover have "clear m (element_at meta (ch c) i, sm_element_size meta)"
    if "c \<in> nodes" "cnt c \<le> i" "i < sm_chunk_size meta * length (ch c)" for c i
    using parts(11) [OF that] elems [OF that] by (simp add: clear_def)
  ultimately show ?thesis
    using free_clear_write [OF parts(1,4) w] parts(1-3,5,6,8-10)
    by (intro dynamic_coreI) simp_all
qed

lemma dynamic_n_set [simp]: "0 \<le> v \<Longrightarrow> v < 2 ^ 31 \<Longrightarrow> dynamic_n c (set_dynamic_n c v m) = v"
  by (simp add: dynamic_n_def set_dynamic_n_def sign_extend_def)

lemma dynamic_n_cong: "(\<And>x. in_block x (c, 8) \<Longrightarrow> m' x = m x) \<Longrightarrow> dynamic_n c m' = dynamic_n c m"
  unfolding dynamic_n_def by (intro arg_cong [where f = "\<lambda>n. sign_extend 4 (int n)"] read_le_cong) (simp add: in_block_def)

lemma set_n_other: "\<not> in_block x (c + 4, 4) \<Longrightarrow> set_dynamic_n c v m x = m x"
  by (auto simp: set_dynamic_n_def in_block_def intro: write_le_other)

lemma set_n_core:
  assumes core: "dynamic_core meta nodes nm live ch cnt" and c: "c \<in> nodes"
  shows "dynamic_core meta nodes (nm\<lparr>nm_mem := set_dynamic_n c v (nm_mem nm)\<rparr>) live ch cnt"
proof (rule core_write [OF core])
  note parts = dynamic_core_parts [OF core]
  have in16: "in_block x (c, 16)" "in_block x (c, 8)" if "in_block x (c + 4, 4)" for x
    using that by (auto simp: in_block_def)
  show "kernel_write nm live (set_dynamic_n c v (nm_mem nm))"
    using parts(6) [OF c] in16 set_n_other unfolding kernel_write_def by metis
  show "set_dynamic_n c v (nm_mem nm) x = nm_mem nm x" if "s \<in> chain_slots nodes ch" "in_block x (s, 8)" for s x
  proof (rule set_n_other, rule notI)
    assume "in_block x (c + 4, 4)"
    then have "kept meta nodes live x"
      using in16(2) c by (auto simp: kept_def)
    then show False
      using kept_not_slot [OF core that(1)] that(2) by blast
  qed
  show "set_dynamic_n c v (nm_mem nm) x = nm_mem nm x"
    if "d \<in> nodes" "i < sm_chunk_size meta * length (ch d)" "in_block x (element_at meta (ch d) i, sm_element_size meta)" for d i x
  proof (rule set_n_other, rule notI)
    assume x: "in_block x (c + 4, 4)"
    have "apart (c, 16) (ch d ! (i div sm_chunk_size meta), chunk_bytes_of meta)"
      using container_chunk_apart [OF core c chunk_live [OF core that(1)]] element_in_chunk_data(1) [OF parts(3) that(2)] by blast
    then show False
      using in_inside [OF element_inside_chunk [OF parts(3) that(2)] that(3)] in16(1) [OF x] apart_not_in by blast
  qed
qed

section \<open>The operations\<close>

definition dynamic_cells :: "nat set \<Rightarrow> (nat \<times> nat) set" where
  "dynamic_cells nodes = {(c, i). c \<in> nodes \<and> int i + 1 < 2 ^ 31}"

lemma dynamic_cells_iff [simp]: "(c, i) \<in> dynamic_cells nodes \<longleftrightarrow> c \<in> nodes \<and> int i + 1 < 2 ^ 31"
  by (simp add: dynamic_cells_def)

text \<open>A state with its chains, and enough chunks for the lengths.\<close>

definition dynamic_state :: "snode_meta \<Rightarrow> nat set \<Rightarrow> node_manager \<Rightarrow> block list \<Rightarrow> (nat \<Rightarrow> nat list) \<Rightarrow> bool" where
  "dynamic_state meta nodes nm live ch \<longleftrightarrow>
     dynamic_core meta nodes nm live ch (\<lambda>c. nat (dynamic_n c (nm_mem nm))) \<and>
     (\<forall>c \<in> nodes. 0 \<le> dynamic_n c (nm_mem nm) \<and> dynamic_n c (nm_mem nm) \<le> int (sm_chunk_size meta * length (ch c)))"

lemma dynamic_inv_state: "dynamic_inv meta nodes nm \<longleftrightarrow> (\<exists>live ch. dynamic_state meta nodes nm live ch)"
  by (simp add: dynamic_inv_def dynamic_state_def)

lemma lookup_element:
  assumes "dynamic_state meta nodes nm live ch" "c \<in> nodes" "Dynamic_is_active meta c i nm"
  shows "i < sm_chunk_size meta * length (ch c)" "Dynamic_lookup_element meta c i nm = Some (element_at meta (ch c) i)"
proof -
  have core: "dynamic_core meta nodes nm live ch (\<lambda>c. nat (dynamic_n c (nm_mem nm)))"
    using assms(1) by (simp add: dynamic_state_def)
  note parts = dynamic_core_parts [OF core]
  have "int i < int (sm_chunk_size meta * length (ch c))"
    using assms unfolding dynamic_state_def Dynamic_is_active_def by fastforce
  then show i: "i < sm_chunk_size meta * length (ch c)"
    by linarith
  then have "0 < length (ch c)"
    by (cases "ch c") auto
  then have "read_le (nm_mem nm) (c + 8) 8 = ch c ! 0"
    using chain_next [OF parts(7) [OF assms(2)], of 0] by simp
  then show "Dynamic_lookup_element meta c i nm = Some (element_at meta (ch c) i)"
    using find_chunk_chain [OF parts(7) [OF assms(2)] parts(3) i, of 0] assms(3)
    by (simp add: Dynamic_lookup_element_def element_at_def minus_mult_div_eq_mod)
qed

lemma lookup_inactive: "\<not> Dynamic_is_active meta c i nm \<Longrightarrow> Dynamic_lookup_element meta c i nm = Some (sm_ambient meta)"
  by (simp add: Dynamic_lookup_element_def)

lemma core_mono: "dynamic_core meta nodes nm live ch cnt \<Longrightarrow> (\<And>c. c \<in> nodes \<Longrightarrow> cnt c \<le> cnt' c) \<Longrightarrow> dynamic_core meta nodes nm live ch cnt'"
  unfolding dynamic_core_def by (meson order_trans)

lemma activate_state:
  assumes st: "dynamic_state meta nodes nm live ch" and c: "(c, i) \<in> dynamic_cells nodes" and a: "Dynamic_activate meta c i nm = Inr nm'"
  obtains live' qs where "dynamic_state meta nodes nm' live' (ch(c := ch c @ qs))" "set live \<subseteq> set live'"
    "dynamic_n c (nm_mem nm') = max (dynamic_n c (nm_mem nm)) (int i + 1)"
    "\<And>d. d \<in> nodes \<Longrightarrow> d \<noteq> c \<Longrightarrow> dynamic_n d (nm_mem nm') = dynamic_n d (nm_mem nm)"
    "dynamic_core meta nodes nm' live' (ch(c := ch c @ qs)) (\<lambda>c. nat (dynamic_n c (nm_mem nm)))"
    "\<And>p x. (p, chunk_bytes_of meta) \<in> set live \<Longrightarrow> in_block x (p + 8, sm_chunk_size meta * sm_element_size meta) \<Longrightarrow> nm_mem nm' x = nm_mem nm x"
proof -
  let ?n = "\<lambda>c. dynamic_n c (nm_mem nm)" and ?v = "max (dynamic_n c (nm_mem nm)) (int i + 1)"
  let ?nm = "nm\<lparr>nm_mem := set_dynamic_n c ?v (nm_mem nm)\<rparr>"
  have core: "dynamic_core meta nodes nm live ch (\<lambda>c. nat (?n c))" and n: "\<And>c. c \<in> nodes \<Longrightarrow> 0 \<le> ?n c \<and> ?n c \<le> int (sm_chunk_size meta * length (ch c))"
    using st by (simp_all add: dynamic_state_def)
  note parts = dynamic_core_parts [OF core]
  have cn: "c \<in> nodes" "int i + 1 < 2 ^ 31"
    using c by simp_all
  have "?n c < 2 ^ 31"
    using sign_extend_bounds [of 4] by (simp add: dynamic_n_def)
  then have v: "0 \<le> ?v" "?v < 2 ^ 31"
    using n [OF cn(1)] cn(2) by simp_all
  have "wrap32 (int i + 1) = int i + 1"
    using cn(2) by (intro wrap32_id) (simp add: fits32_def)
  then obtain chunk start where r: "reach_chunk (sm_chunk_size meta) (c + 8) 0 i ?nm = Inr (chunk, start, nm')"
    using a by (auto simp: Dynamic_activate_def Let_def result_simps)
  have "\<exists>live' qs. dynamic_core meta nodes nm' live' (ch(c := ch c @ qs)) (\<lambda>c. nat (?n c)) \<and> i < sm_chunk_size meta * length (ch c @ qs) \<and>
    chunk = (ch c @ qs) ! (i div sm_chunk_size meta) \<and> start = sm_chunk_size meta * (i div sm_chunk_size meta) \<and>
    (\<forall>x. kept meta nodes live x \<longrightarrow> nm_mem nm' x = nm_mem ?nm x)"
    by (rule reach_chunk_core [OF set_n_core [OF core cn(1)] cn(1), where k = 0]) (use r in simp_all)
  then obtain live' qs where q: "dynamic_core meta nodes nm' live' (ch(c := ch c @ qs)) (\<lambda>c. nat (?n c))"
    "i < sm_chunk_size meta * length (ch c @ qs)" "\<And>x. kept meta nodes live x \<Longrightarrow> nm_mem nm' x = nm_mem ?nm x"
    by blast
  have nc: "dynamic_n d (nm_mem nm') = dynamic_n d (nm_mem ?nm)" if "d \<in> nodes" for d
    using q(3) that by (intro dynamic_n_cong) (auto simp: kept_def)
  have n_c: "dynamic_n c (nm_mem nm') = ?v"
    using nc [OF cn(1)] v by simp
  have n_d: "dynamic_n d (nm_mem nm') = ?n d" if "d \<in> nodes" "d \<noteq> c" for d
  proof -
    have "apart (d, 16) (c, 16)"
      using parts(5) that cn(1) by (simp add: nodes_apart_def)
    then have "dynamic_n d (nm_mem ?nm) = ?n d"
      by (intro dynamic_n_cong) (auto simp: apart_def in_block_def intro!: set_n_other)
    then show ?thesis
      using nc [OF that(1)] by simp
  qed
  have mem: "nm_mem nm' x = nm_mem nm x"
    if "(p, chunk_bytes_of meta) \<in> set live" "in_block x (p + 8, sm_chunk_size meta * sm_element_size meta)" for p x
  proof -
    have "\<not> in_block x (c + 4, 4)"
      using container_chunk_apart [OF core cn(1) that(1)] that(2) by (auto simp: apart_def in_block_def chunk_bytes_of_def)
    then show ?thesis
      using q(3) [of x] that set_n_other by (auto simp: kept_def)
  qed
  have "int i < int (sm_chunk_size meta * length (ch c @ qs))"
    using q(2) by (simp only: of_nat_less_iff)
  moreover have "int (sm_chunk_size meta * length (ch c)) \<le> int (sm_chunk_size meta * length (ch c @ qs))"
    by (simp only: of_nat_le_iff) simp
  ultimately have "?v \<le> int (sm_chunk_size meta * length (ch c @ qs))"
    using n [OF cn(1)] by (simp only: max.bounded_iff) linarith
  then have "0 \<le> dynamic_n d (nm_mem nm') \<and> dynamic_n d (nm_mem nm') \<le> int (sm_chunk_size meta * length ((ch(c := ch c @ qs)) d))"
    if "d \<in> nodes" for d
    using n [OF that] n_c n_d [OF that] v(1) by (cases "d = c") (simp_all only: fun_upd_apply if_True if_False simp_thms)
  moreover have "nat (?n d) \<le> nat (dynamic_n d (nm_mem nm'))" if "d \<in> nodes" for d
    using n_c n_d [OF that] by (cases "d = c") simp_all
  ultimately have "dynamic_state meta nodes nm' live' (ch(c := ch c @ qs))"
    using core_mono [OF q(1), of "\<lambda>c. nat (dynamic_n c (nm_mem nm'))"] unfolding dynamic_state_def by blast
  moreover have "(\<Union>d \<in> nodes. set (ch d)) \<subseteq> (\<Union>d \<in> nodes. set ((ch(c := ch c @ qs)) d))"
    by (rule UN_mono) auto
  then have "set live \<subseteq> set live'"
    unfolding parts(10) dynamic_core_parts(10) [OF q(1)] by (rule image_mono)
  ultimately show ?thesis
    using that n_c n_d q(1) mem by blast
qed

text \<open>Recycling a chain ends; unless the list of recycled nodes cannot grow, it gives back the chunks.\<close>

lemma set_remove_all: "distinct xs \<Longrightarrow> set (foldl (\<lambda>l p. remove1 (f p) l) xs ps) = set xs - f ` set ps"
  by (induction ps arbitrary: xs) auto

definition recycled_from :: "node_manager \<Rightarrow> block list \<Rightarrow> node_manager \<Rightarrow> bool" where
  "recycled_from nm live nm' \<longleftrightarrow> nm_inv nm' live \<and> nm_mem nm' = nm_mem nm \<and> nm_data_list nm' = nm_data_list nm \<and>
     chunk_grows (nm_chunk nm) (nm_chunk nm') \<and> unused_entries nm' = unused_entries nm"

lemma recycle_chain:
  assumes "nm_inv nm live" "chain (nm_mem nm) a ps" "distinct ps" "k \<le> length ps"
    and "\<And>p. p \<in> set (drop k ps) \<Longrightarrow> (p, sz) \<in> set live"
  shows "\<exists>r. recycle_chunks ((a # ps) ! k) nm = Some r \<and>
    (\<forall>nm'. r = Inr nm' \<longrightarrow> recycled_from nm (foldl (\<lambda>l p. remove1 (p, sz) l) live (drop k ps)) nm')"
  using assms
proof (induction "length ps - k" arbitrary: nm live k)
  case 0
  then have "k = length ps"
    by simp
  moreover have "chunk_grows (nm_chunk nm) (nm_chunk nm)"
    using 0(2) by (auto simp: nm_inv_def chunk_grows_def)
  ultimately show ?case
    using chain_end [OF 0(3)] 0(2) by (simp add: recycle_chunks.simps recycled_from_def)
next
  case (Suc n)
  then have k: "k < length ps" "drop k ps = ps ! k # drop (Suc k) ps"
    by (simp_all add: Cons_nth_drop_Suc)
  note next_chunk = chain_next [OF Suc.prems(2) k(1)]
  have b: "(ps ! k, sz) \<in> set live"
    using Suc.prems(5) k(2) by simp
  show ?case
  proof (cases "nm_recycle (ps ! k) nm")
    case (Inl er)
    then show ?thesis
      using next_chunk by (simp add: recycle_chunks.simps [of "(a # ps) ! k" nm] Let_def)
  next
    case (Inr nm1)
    note r = recycle_memory [OF Suc.prems(1) b, of nm1, unfolded fst_conv, OF Inr]
    have "(p, sz) \<in> set (remove1 (ps ! k, sz) live)" if "p \<in> set (drop (Suc k) ps)" for p
    proof -
      have "distinct (drop k ps)"
        using Suc.prems(3) by (rule distinct_drop)
      then have "p \<noteq> ps ! k"
        using that k(2) by auto
      then show ?thesis
        using Suc.prems(5) that k(2) by simp
    qed
    moreover have "n = length ps - Suc k"
      using Suc.hyps(2) by simp
    ultimately obtain res where res: "recycle_chunks ((a # ps) ! Suc k) nm1 = Some res"
      "\<And>nm'. res = Inr nm' \<Longrightarrow> recycled_from nm1 (foldl (\<lambda>l p. remove1 (p, sz) l) (remove1 (ps ! k, sz) live) (drop (Suc k) ps)) nm'"
      using Suc.hyps(1) [of "Suc k" nm1 "remove1 (ps ! k, sz) live"] Suc.prems(2,3) k(1) r(1,2) by auto
    have "recycle_chunks ((a # ps) ! k) nm = Some res"
      using next_chunk Inr res(1) by (simp add: recycle_chunks.simps [of "(a # ps) ! k" nm] Let_def)
    then show ?thesis
      using res(2) r(2-5) chunk_grows_trans [OF r(4)] by (auto simp: k(2) recycled_from_def)
  qed
qed

lemma deactivate_state:
  assumes st: "dynamic_state meta nodes nm live ch" and c: "c \<in> nodes" and n: "0 < dynamic_n c (nm_mem nm)"
    and de: "Dynamic_deactivate meta c nm = Some (Inr nm')"
  obtains live' where "dynamic_state meta nodes nm' live' (ch(c := []))"
    "dynamic_n c (nm_mem nm') = 0" "\<And>d. d \<in> nodes \<Longrightarrow> d \<noteq> c \<Longrightarrow> dynamic_n d (nm_mem nm') = dynamic_n d (nm_mem nm)"
    "\<And>p x. (p, chunk_bytes_of meta) \<in> set live \<Longrightarrow> in_block x (p + 8, sm_chunk_size meta * sm_element_size meta) \<Longrightarrow> nm_mem nm' x = nm_mem nm x"
proof -
  define nm0 where "nm0 = nm\<lparr>nm_mem := set_dynamic_n c 0 (nm_mem nm)\<rparr>"
  let ?cnt = "\<lambda>c. nat (dynamic_n c (nm_mem nm))"
  have old: "dynamic_core meta nodes nm live ch ?cnt"
    using st by (simp add: dynamic_state_def)
  have core: "dynamic_core meta nodes nm0 live ch ?cnt"
    unfolding nm0_def by (rule set_n_core [OF old c])
  note parts = dynamic_core_parts [OF core]
  let ?live = "foldl (\<lambda>l p. remove1 (p, chunk_bytes_of meta) l) live (ch c)"
  obtain nm1 where re: "recycle_chunks (c + 8) nm0 = Some (Inr nm1)"
    and nm'_def: "nm' = nm1\<lparr>nm_mem := write_le (c + 8) 8 0 (nm_mem nm1)\<rparr>"
    using de n by (auto simp: Dynamic_deactivate_def nm0_def split: option.splits sum.splits)
  have "recycled_from nm0 ?live nm1"
    using recycle_chain [OF parts(1,7,8), of c 0 "chunk_bytes_of meta"] c chunk_live [OF core c] re by auto
  then have r: "nm_inv nm1 ?live" "nm_mem nm1 = nm_mem nm0" "nm_data_list nm1 = nm_data_list nm0"
    "chunk_grows (nm_chunk nm0) (nm_chunk nm1)" "unused_entries nm1 = unused_entries nm0"
    by (simp_all add: recycled_from_def)
  have slot: "c + 8 \<in> chain_slots nodes ch"
    using c by (simp add: chain_slots_def)
  have out: "outside nm1 (d, 16)" if "d \<in> nodes" for d
    by (rule outside_grows [OF r(3,4) parts(6) [OF that]])
  have mem: "nm_mem nm' x = nm_mem nm0 x" if "\<not> in_block x (c + 8, 8)" for x
    using that by (auto simp: nm'_def r(2) in_block_def intro: write_le_other)
  have keep: "nm_mem nm' x = nm_mem nm0 x" if "kept meta nodes live x" for x
    using mem kept_not_slot [OF core slot that] by blast
  have fc: "free_clear nm'"
  proof -
    have "kernel_write nm1 ?live (write_le (c + 8) 8 0 (nm_mem nm1))"
      unfolding kernel_write_def
    proof (intro allI impI disjI2)
      fix x
      assume "write_le (c + 8) 8 0 (nm_mem nm1) x \<noteq> nm_mem nm1 x"
      then have "\<not> (x < c + 8 \<or> c + 8 + 8 \<le> x)"
        using write_le_other [of x "c + 8" 8 0 "nm_mem nm1"] by blast
      then have "in_block x (c, 16)"
        by (auto simp: in_block_def)
      then show "\<exists>b. outside nm1 b \<and> in_block x b"
        using out [OF c] by blast
    qed
    then show ?thesis
      using free_clear_write [OF r(1)] free_clear_grows [OF r(2-5) parts(4)] by (simp add: nm'_def)
  qed
  have chains: "chain (nm_mem nm') (d + 8) (ch d)" if "d \<in> nodes" "d \<noteq> c" for d
  proof (rule chain_cong [OF parts(7) [OF that(1)]])
    fix q
    assume q: "q \<in> set ((d + 8) # ch d)"
    then have "q \<in> chain_slots nodes ch" "q \<noteq> c + 8"
      using that slot_not_chunk [OF core c that(1)] by (auto simp: chain_slots_def)
    then show "read_le (nm_mem nm') q 8 = read_le (nm_mem nm0) q 8"
      using slots_apart_pairwise [OF core _ slot] by (simp add: nm'_def r(2) read_le_apart)
  qed
  have "set ?live = (\<lambda>p. (p, chunk_bytes_of meta)) ` (\<Union>d \<in> nodes. set ((ch(c := [])) d))"
  proof -
    have "(\<Union>d \<in> nodes. set ((ch(c := [])) d)) = (\<Union>d \<in> nodes - {c}. set (ch d))"
    proof (intro equalityI subsetI)
      show "x \<in> (\<Union>d \<in> nodes - {c}. set (ch d))" if "x \<in> (\<Union>d \<in> nodes. set ((ch(c := [])) d))" for x
        using that by (auto split: if_splits)
      show "x \<in> (\<Union>d \<in> nodes. set ((ch(c := [])) d))" if "x \<in> (\<Union>d \<in> nodes - {c}. set (ch d))" for x
        using that by (elim UN_E, intro UN_I) auto
    qed
    also have "\<dots> = (\<Union>d \<in> nodes. set (ch d)) - set (ch c)"
      using parts(9) [OF c] c by blast
    finally show ?thesis
      using set_remove_all [OF live_distinct [OF parts(1)], of "\<lambda>p. (p, chunk_bytes_of meta)" "ch c"]
      by (simp add: parts(10) image_set_diff inj_on_def)
  qed
  moreover have "clear (nm_mem nm') (element_at meta (ch d) i, sm_element_size meta)"
    if "d \<in> nodes" "?cnt d \<le> i" "i < sm_chunk_size meta * length (ch d)" for d i
  proof -
    have "kept meta nodes live x" if "in_block x (element_at meta (ch d) i, sm_element_size meta)" for x
      using in_inside [OF element_in_chunk_data(2) [OF parts(3) \<open>i < _\<close>] that] chunk_live [OF core \<open>d \<in> nodes\<close>]
        element_in_chunk_data(1) [OF parts(3) \<open>i < _\<close>] unfolding kept_def by blast
    then show ?thesis
      using parts(11) [OF that] keep by (simp add: clear_def)
  qed
  moreover have "chain (nm_mem nm') (c + 8) []"
    by (simp add: chain_def nm'_def)
  ultimately have core': "dynamic_core meta nodes nm' ?live (ch(c := [])) ?cnt"
    using r(1,3) fc parts(2,3,5,8,9) out chains
    by (intro dynamic_coreI) (auto simp: nm'_def split: if_splits)
  have n0: "dynamic_n d (nm_mem nm') = dynamic_n d (nm_mem nm0)" if "d \<in> nodes" for d
    using keep that by (intro dynamic_n_cong) (auto simp: kept_def)
  have n_c: "dynamic_n c (nm_mem nm') = 0"
    using n0 [OF c] by (simp add: nm0_def)
  have n_d: "dynamic_n d (nm_mem nm') = dynamic_n d (nm_mem nm)" if "d \<in> nodes" "d \<noteq> c" for d
  proof -
    have "apart (d, 16) (c, 16)"
      using parts(5) that c by (simp add: nodes_apart_def)
    then have "dynamic_n d (nm_mem nm0) = dynamic_n d (nm_mem nm)"
      unfolding nm0_def by (intro dynamic_n_cong) (auto simp: apart_def in_block_def intro!: set_n_other)
    then show ?thesis
      using n0 [OF that(1)] by simp
  qed
  have "nm_mem nm' x = nm_mem nm x"
    if "(p, chunk_bytes_of meta) \<in> set live" "in_block x (p + 8, sm_chunk_size meta * sm_element_size meta)" for p x
  proof -
    have "\<not> in_block x (c + 4, 4)"
      using container_chunk_apart [OF core c that(1)] that(2) by (auto simp: apart_def in_block_def chunk_bytes_of_def)
    moreover have "kept meta nodes live x"
      using that by (auto simp: kept_def)
    ultimately show ?thesis
      using keep set_n_other by (simp add: nm0_def)
  qed
  moreover have "dynamic_state meta nodes nm' ?live (ch(c := []))"
  proof -
    have "dynamic_core meta nodes nm' ?live (ch(c := [])) (\<lambda>d. nat (dynamic_n d (nm_mem nm')))"
      using core' n_c n_d unfolding dynamic_core_def by auto
    then show ?thesis
      using st n_c n_d unfolding dynamic_state_def by auto
  qed
  ultimately show ?thesis
    using that n_c n_d by blast
qed

lemma deactivate_ends:
  assumes "dynamic_state meta nodes nm live ch" "c \<in> nodes"
  shows "\<exists>r. Dynamic_deactivate meta c nm = Some r"
proof -
  have core: "dynamic_core meta nodes (nm\<lparr>nm_mem := set_dynamic_n c 0 (nm_mem nm)\<rparr>) live ch (\<lambda>c. nat (dynamic_n c (nm_mem nm)))"
    using assms by (intro set_n_core) (simp_all add: dynamic_state_def)
  note parts = dynamic_core_parts [OF core]
  have "\<exists>r. recycle_chunks (c + 8) (nm\<lparr>nm_mem := set_dynamic_n c 0 (nm_mem nm)\<rparr>) = Some r"
    using recycle_chain [OF parts(1,7,8), of c 0 "chunk_bytes_of meta"] assms(2) chunk_live [OF core assms(2)] by auto
  then show ?thesis
    by (auto simp: Dynamic_deactivate_def split: sum.split)
qed

lemma put_state:
  assumes st: "dynamic_state meta nodes nm live ch" and c: "c \<in> nodes" "Dynamic_is_active meta c i nm" and k: "k < sm_element_size meta"
  shows "dynamic_state meta nodes (nm_put (element_at meta (ch c) i + k) v nm) live ch"
    "d \<in> nodes \<Longrightarrow> dynamic_n d (nm_mem (nm_put (element_at meta (ch c) i + k) v nm)) = dynamic_n d (nm_mem nm)"
proof -
  let ?x = "element_at meta (ch c) i + k" and ?e = "(element_at meta (ch c) i, sm_element_size meta)"
  have core: "dynamic_core meta nodes nm live ch (\<lambda>c. nat (dynamic_n c (nm_mem nm)))"
    using st by (simp add: dynamic_state_def)
  note parts = dynamic_core_parts [OF core]
  have i: "i < sm_chunk_size meta * length (ch c)"
    by (rule lookup_element(1) [OF st c])
  let ?p = "ch c ! (i div sm_chunk_size meta)"
  have p: "(?p, chunk_bytes_of meta) \<in> set live"
    using chunk_live [OF core c(1)] element_in_chunk_data(1) [OF parts(3) i] by blast
  have x: "in_block ?x ?e"
    using k by (simp add: in_block_def)
  have xp: "in_block ?x (?p, chunk_bytes_of meta)" "in_block ?x (?p + 8, sm_chunk_size meta * sm_element_size meta)"
    using in_inside [OF element_inside_chunk [OF parts(3) i] x] in_inside [OF element_in_chunk_data(2) [OF parts(3) i] x] by blast+
  have core': "dynamic_core meta nodes (nm_put ?x v nm) live ch (\<lambda>c. nat (dynamic_n c (nm_mem nm)))"
    unfolding nm_put_def
  proof (rule core_write [OF core])
    show "kernel_write nm live ((nm_mem nm)(?x := v))"
      using xp(1) p by (auto simp: kernel_write_def)
    show "((nm_mem nm)(?x := v)) y = nm_mem nm y" if "s \<in> chain_slots nodes ch" "in_block y (s, 8)" for s y
      using apart_not_in [OF slot_element_apart [OF core that(1) p] that(2)] xp(2) by auto
    show "((nm_mem nm)(?x := v)) y = nm_mem nm y"
      if "d \<in> nodes" "nat (dynamic_n d (nm_mem nm)) \<le> j" "j < sm_chunk_size meta * length (ch d)" "in_block y (element_at meta (ch d) j, sm_element_size meta)"
      for d j y
    proof -
      have "(d, j) \<noteq> (c, i)"
        using that(2) c(2) by (auto simp: Dynamic_is_active_def)
      then show ?thesis
        using apart_not_in [OF elements_pairwise [OF core that(1) c(1) that(3) i] that(4)] x by auto
    qed
  qed
  have n: "dynamic_n d (nm_mem (nm_put ?x v nm)) = dynamic_n d (nm_mem nm)" if "d \<in> nodes" for d
  proof (rule dynamic_n_cong)
    fix y
    assume "in_block y (d, 8)"
    then have "in_block y (d, 16)"
      by (simp add: in_block_def)
    then show "nm_mem (nm_put ?x v nm) y = nm_mem nm y"
      using apart_not_in [OF container_chunk_apart [OF core that p]] xp(1) by (auto simp: nm_put_def)
  qed
  then show "d \<in> nodes \<Longrightarrow> dynamic_n d (nm_mem (nm_put ?x v nm)) = dynamic_n d (nm_mem nm)"
    by blast
  have "dynamic_core meta nodes (nm_put ?x v nm) live ch (\<lambda>c. nat (dynamic_n c (nm_mem (nm_put ?x v nm))))"
    using core' n unfolding dynamic_core_def by auto
  then show "dynamic_state meta nodes (nm_put ?x v nm) live ch"
    using st n unfolding dynamic_state_def by auto
qed

lemma collect_state:
  assumes st: "dynamic_state meta nodes nm live ch" and gc: "gc_step nm nm'"
  shows "dynamic_state meta nodes nm' live ch" "d \<in> nodes \<Longrightarrow> dynamic_n d (nm_mem nm') = dynamic_n d (nm_mem nm)"
    "b \<in> set live \<Longrightarrow> in_block x b \<Longrightarrow> nm_mem nm' x = nm_mem nm x"
proof -
  have core: "dynamic_core meta nodes nm live ch (\<lambda>c. nat (dynamic_n c (nm_mem nm)))"
    using st by (simp add: dynamic_state_def)
  note parts = dynamic_core_parts [OF core] and cm = collect_memory [OF dynamic_core_parts(1) [OF core] gc]
  show "b \<in> set live \<Longrightarrow> in_block x b \<Longrightarrow> nm_mem nm' x = nm_mem nm x"
    using cm(4) by blast
  have n: "dynamic_n d (nm_mem nm') = dynamic_n d (nm_mem nm)" if "d \<in> nodes" for d
  proof (rule dynamic_n_cong)
    fix y
    assume "in_block y (d, 8)"
    then have "in_block y (d, 16)"
      by (simp add: in_block_def)
    then show "nm_mem nm' y = nm_mem nm y"
      using cm(4) [of "(d, 16)"] parts(6) [OF that] by blast
  qed
  then show "d \<in> nodes \<Longrightarrow> dynamic_n d (nm_mem nm') = dynamic_n d (nm_mem nm)"
    by blast
  have slots: "read_le (nm_mem nm') s 8 = read_le (nm_mem nm) s 8" if "s \<in> chain_slots nodes ch" for s
  proof (rule read_le_cong)
    fix y
    assume "s \<le> y" "y < s + 8"
    then have y: "in_block y (s, 8)"
      by (simp add: in_block_def)
    show "nm_mem nm' y = nm_mem nm y"
    proof (cases rule: slot_cases [OF core that, case_names ca la])
      case (ca c)
      then show ?thesis
        using cm(4) [of "(c, 16)"] in_inside [OF ca(4) y] by blast
    next
      case la
      then show ?thesis
        using cm(4) in_inside [OF la(2) y] by blast
    qed
  qed
  have "chain (nm_mem nm') (c + 8) (ch c)" if "c \<in> nodes" for c
    using slots that by (intro chain_cong [OF parts(7) [OF that]]) (auto simp: chain_slots_def)
  moreover have "clear (nm_mem nm') (element_at meta (ch c) i, sm_element_size meta)"
    if "c \<in> nodes" "nat (dynamic_n c (nm_mem nm)) \<le> i" "i < sm_chunk_size meta * length (ch c)" for c i
  proof -
    have "(ch c ! (i div sm_chunk_size meta), chunk_bytes_of meta) \<in> set live"
      using chunk_live [OF core that(1)] element_in_chunk_data(1) [OF parts(3) that(3)] by blast
    then show ?thesis
      using parts(11) [OF that] cm(4) in_inside [OF element_inside_chunk [OF parts(3) that(3)]] unfolding clear_def by metis
  qed
  ultimately have "dynamic_core meta nodes nm' live ch (\<lambda>c. nat (dynamic_n c (nm_mem nm')))"
    using cm(1,2,3) parts gc_step_memory(3) [OF parts(1) gc] n by (intro dynamic_coreI) simp_all
  then show "dynamic_state meta nodes nm' live ch"
    using st n unfolding dynamic_state_def by auto
qed

section \<open>The contract\<close>

definition dynamic_ops :: "snode_meta \<Rightarrow> nat set \<Rightarrow> (nat \<times> nat, node_manager) cell_ops" where
  "dynamic_ops meta nodes =
     \<lparr>co_cells = dynamic_cells nodes, co_size = sm_element_size meta,
      co_activate = \<lambda>(c, i). Dynamic_activate meta c i, co_is_active = \<lambda>(c, i). Dynamic_is_active meta c i,
      co_lookup = \<lambda>(c, i) nm. the (Dynamic_lookup_element meta c i nm), co_mem = nm_mem, co_put = nm_put,
      co_enables = \<lambda>(c, i). {(c, j) | j. j \<le> i}, co_fresh = \<lambda>_ _ _. 0\<rparr>"

definition dynamic_deactivate :: "snode_meta \<Rightarrow> nat \<times> nat \<Rightarrow> node_manager \<Rightarrow> node_manager result" where
  "dynamic_deactivate meta = (\<lambda>(c, i) nm. case Dynamic_deactivate meta c nm of None \<Rightarrow> Inl Diverges | Some r \<Rightarrow> r)"

definition container_of :: "nat \<times> nat \<Rightarrow> (nat \<times> nat) set" where
  "container_of = (\<lambda>(c, i). {(c, j) | j. True})"

lemma dynamic_ops_simps [simp]:
  "co_cells (dynamic_ops meta nodes) = dynamic_cells nodes" "co_size (dynamic_ops meta nodes) = sm_element_size meta"
  "co_activate (dynamic_ops meta nodes) (c, i) = Dynamic_activate meta c i"
  "co_is_active (dynamic_ops meta nodes) (c, i) = Dynamic_is_active meta c i"
  "co_lookup (dynamic_ops meta nodes) (c, i) nm = the (Dynamic_lookup_element meta c i nm)"
  "co_mem (dynamic_ops meta nodes) = nm_mem" "co_put (dynamic_ops meta nodes) = nm_put"
  "(d, j) \<in> co_enables (dynamic_ops meta nodes) (c, i) \<longleftrightarrow> d = c \<and> j \<le> i" "co_fresh (dynamic_ops meta nodes) x nm = (\<lambda>_. 0)"
  by (auto simp: dynamic_ops_def)

lemma dynamic_view:
  assumes "dynamic_state meta nodes nm live ch"
  shows "cell_view (dynamic_ops meta nodes) nm (c, i) =
    (if (c, i) \<in> dynamic_cells nodes \<and> int i < dynamic_n c (nm_mem nm)
     then Some (\<lambda>k. if k < sm_element_size meta then nm_mem nm (element_at meta (ch c) i + k) else 0) else None)"
  using lookup_element(2) [OF assms, of c i] by (auto simp: cell_view_def cell_bytes_def Dynamic_is_active_def)

text \<open>An element that both states have at the same place with the same bytes.\<close>

lemma dynamic_view_same:
  assumes st: "dynamic_state meta nodes nm live ch" and st': "dynamic_state meta nodes nm' live' ch'" and c: "(c, i) \<in> dynamic_cells nodes"
    and i: "int i < dynamic_n c (nm_mem nm)" "int i < dynamic_n c (nm_mem nm')" "element_at meta (ch' c) i = element_at meta (ch c) i"
    and mem: "\<And>p x. (p, chunk_bytes_of meta) \<in> set live \<Longrightarrow> in_block x (p + 8, sm_chunk_size meta * sm_element_size meta) \<Longrightarrow> nm_mem nm' x = nm_mem nm x"
  shows "cell_view (dynamic_ops meta nodes) nm' (c, i) = cell_view (dynamic_ops meta nodes) nm (c, i)"
proof -
  have core: "dynamic_core meta nodes nm live ch (\<lambda>c. nat (dynamic_n c (nm_mem nm)))"
    using st by (simp add: dynamic_state_def)
  have len: "i < sm_chunk_size meta * length (ch c)"
    using lookup_element(1) [OF st, of c i] c i(1) by (simp add: Dynamic_is_active_def)
  note el = element_in_chunk_data [OF dynamic_core_parts(3) [OF core] len]
  have "nm_mem nm' (element_at meta (ch c) i + k) = nm_mem nm (element_at meta (ch c) i + k)" if "k < sm_element_size meta" for k
  proof (rule mem)
    show "(ch c ! (i div sm_chunk_size meta), chunk_bytes_of meta) \<in> set live"
      using chunk_live [OF core _ el(1)] c by simp
    show "in_block (element_at meta (ch c) i + k) (ch c ! (i div sm_chunk_size meta) + 8, sm_chunk_size meta * sm_element_size meta)"
      using in_inside [OF el(2)] that by (simp add: in_block_def)
  qed
  then show ?thesis
    using i by (auto simp: dynamic_view [OF st] dynamic_view [OF st'])
qed

lemma element_at_append: "i div sm_chunk_size meta < length ps \<Longrightarrow> element_at meta (ps @ qs) i = element_at meta ps i"
  by (simp add: element_at_def nth_append)

lemma activate_contract:
  assumes inv: "dynamic_inv meta nodes s" and c: "(c, i) \<in> dynamic_cells nodes" and a: "Dynamic_activate meta c i s = Inr s'"
  shows "dynamic_inv meta nodes s'"
    "cell_view (dynamic_ops meta nodes) s' = map_enable (co_enables (dynamic_ops meta nodes) (c, i)) (\<lambda>d _. 0) (cell_view (dynamic_ops meta nodes) s)"
    "(d, j) \<in> dynamic_cells nodes \<Longrightarrow> Dynamic_is_active meta d j s \<Longrightarrow> Dynamic_lookup_element meta d j s' = Dynamic_lookup_element meta d j s"
proof -
  obtain live ch where st: "dynamic_state meta nodes s live ch"
    using inv by (auto simp: dynamic_inv_state)
  then obtain live' qs where st': "dynamic_state meta nodes s' live' (ch(c := ch c @ qs))"
    and n_c: "dynamic_n c (nm_mem s') = max (dynamic_n c (nm_mem s)) (int i + 1)"
    and n_d: "\<And>d. d \<in> nodes \<Longrightarrow> d \<noteq> c \<Longrightarrow> dynamic_n d (nm_mem s') = dynamic_n d (nm_mem s)"
    and core': "dynamic_core meta nodes s' live' (ch(c := ch c @ qs)) (\<lambda>c. nat (dynamic_n c (nm_mem s)))"
    and mem: "\<And>p x. (p, chunk_bytes_of meta) \<in> set live \<Longrightarrow> in_block x (p + 8, sm_chunk_size meta * sm_element_size meta) \<Longrightarrow> nm_mem s' x = nm_mem s x"
    using activate_state [OF st c a] by metis
  show "dynamic_inv meta nodes s'"
    using st' by (auto simp: dynamic_inv_state)
  have grow: "int j < dynamic_n d (nm_mem s')" "element_at meta ((ch(c := ch c @ qs)) d) j = element_at meta (ch d) j"
    if d: "(d, j) \<in> dynamic_cells nodes" "int j < dynamic_n d (nm_mem s)" for d j
  proof -
    show "int j < dynamic_n d (nm_mem s')"
      using d n_c n_d [of d] by (cases "d = c") auto
    have "0 < sm_chunk_size meta" "j < sm_chunk_size meta * length (ch d)"
      using core' lookup_element(1) [OF st, of d j] d by (simp_all add: dynamic_core_def Dynamic_is_active_def)
    then have "j div sm_chunk_size meta < length (ch d)"
      by (simp add: div_less_iff_less_mult mult.commute)
    then show "element_at meta ((ch(c := ch c @ qs)) d) j = element_at meta (ch d) j"
      by (cases "d = c") (simp_all add: element_at_append)
  qed
  show "Dynamic_lookup_element meta d j s' = Dynamic_lookup_element meta d j s"
    if "(d, j) \<in> dynamic_cells nodes" "Dynamic_is_active meta d j s"
    using lookup_element(2) [OF st, of d j] lookup_element(2) [OF st', of d j] grow [OF that(1)] that by (simp add: Dynamic_is_active_def)
  have fresh: "cell_view (dynamic_ops meta nodes) s' (c, j) = Some (\<lambda>_. 0)" if "j \<le> i" "\<not> int j < dynamic_n c (nm_mem s)" for j
  proof -
    have j: "(c, j) \<in> dynamic_cells nodes" "int j < dynamic_n c (nm_mem s')"
      using c that(1) n_c by auto
    have "j < sm_chunk_size meta * length (ch c @ qs)"
      using lookup_element(1) [OF st', of c j] j by (simp add: Dynamic_is_active_def)
    then have "clear (nm_mem s') (element_at meta (ch c @ qs) j, sm_element_size meta)"
      using dynamic_core_parts(11) [OF core', of c j] j(1) that(2) by simp
    then show ?thesis
      using j by (auto simp: dynamic_view [OF st'] clear_def in_block_def fun_eq_iff)
  qed
  show "cell_view (dynamic_ops meta nodes) s' = map_enable (co_enables (dynamic_ops meta nodes) (c, i)) (\<lambda>d _. 0) (cell_view (dynamic_ops meta nodes) s)"
  proof
    fix x :: "nat \<times> nat"
    obtain d j where x: "x = (d, j)"
      by (cases x)
    consider "(d, j) \<in> dynamic_cells nodes" "int j < dynamic_n d (nm_mem s)" | "d = c" "j \<le> i" "\<not> int j < dynamic_n c (nm_mem s)"
      | "\<not> ((d, j) \<in> dynamic_cells nodes \<and> int j < dynamic_n d (nm_mem s))" "\<not> (d = c \<and> j \<le> i)"
      using c by fastforce
    then show "cell_view (dynamic_ops meta nodes) s' x = map_enable (co_enables (dynamic_ops meta nodes) (c, i)) (\<lambda>d _. 0) (cell_view (dynamic_ops meta nodes) s) x"
    proof cases
      case 1
      then show ?thesis
        using dynamic_view_same [OF st st' 1 grow [OF 1] mem] by (simp add: x map_enable_def dynamic_view [OF st])
    next
      case 2
      then show ?thesis
        using fresh c by (simp add: x map_enable_def dynamic_view [OF st])
    next
      case 3
      then show ?thesis
        using n_c n_d [of d] by (cases "d = c") (auto simp: x map_enable_def dynamic_view [OF st] dynamic_view [OF st'])
    qed
  qed
qed

lemma deactivate_contract:
  assumes inv: "dynamic_inv meta nodes s" and c: "(c, i) \<in> dynamic_cells nodes" and de: "dynamic_deactivate meta (c, i) s = Inr s'"
  shows "dynamic_inv meta nodes s' \<and>
    cell_view (dynamic_ops meta nodes) s' = map_disable (container_of (c, i)) (cell_view (dynamic_ops meta nodes) s)"
proof -
  obtain live ch where st: "dynamic_state meta nodes s live ch"
    using inv by (auto simp: dynamic_inv_state)
  have cn: "c \<in> nodes"
    using c by simp
  show ?thesis
  proof (cases "0 < dynamic_n c (nm_mem s)")
    case False
    then have "cell_view (dynamic_ops meta nodes) s = map_disable (container_of (c, i)) (cell_view (dynamic_ops meta nodes) s)"
      by (auto simp: fun_eq_iff map_disable_def container_of_def dynamic_view [OF st])
    then show ?thesis
      using de inv False by (simp add: dynamic_deactivate_def Dynamic_deactivate_def)
  next
    case True
    have "Dynamic_deactivate meta c s = Some (Inr s')"
      using de deactivate_ends [OF st cn] by (auto simp: dynamic_deactivate_def)
    then obtain live' where st': "dynamic_state meta nodes s' live' (ch(c := []))"
      and n_c: "dynamic_n c (nm_mem s') = 0" and n_d: "\<And>d. d \<in> nodes \<Longrightarrow> d \<noteq> c \<Longrightarrow> dynamic_n d (nm_mem s') = dynamic_n d (nm_mem s)"
      and mem: "\<And>p x. (p, chunk_bytes_of meta) \<in> set live \<Longrightarrow> in_block x (p + 8, sm_chunk_size meta * sm_element_size meta) \<Longrightarrow> nm_mem s' x = nm_mem s x"
      using deactivate_state [OF st cn True] by metis
    have "cell_view (dynamic_ops meta nodes) s' (d, j) = map_disable (container_of (c, i)) (cell_view (dynamic_ops meta nodes) s) (d, j)" for d j
    proof (cases "d = c")
      case True
      then show ?thesis
        by (simp add: map_disable_def container_of_def dynamic_view [OF st'] n_c)
    next
      case False
      then show ?thesis
      proof (cases "(d, j) \<in> dynamic_cells nodes \<and> int j < dynamic_n d (nm_mem s)")
        case True
        then show ?thesis
          using False n_d [of d] dynamic_view_same [OF st st', of d j] mem by (simp add: map_disable_def container_of_def)
      next
        case none: False
        then show ?thesis
          using False n_d [of d] by (auto simp: map_disable_def container_of_def dynamic_view [OF st] dynamic_view [OF st'])
      qed
    qed
    then show ?thesis
      using st' by (auto simp: fun_eq_iff dynamic_inv_state)
  qed
qed

interpretation dynamic: releasing_container "dynamic_ops meta nodes" "dynamic_inv meta nodes" "dynamic_deactivate meta" container_of gc_step
  for meta nodes
proof
  let ?ops = "dynamic_ops meta nodes"
  show "dynamic_inv meta nodes s'" if "dynamic_inv meta nodes s" "c \<in> co_cells ?ops" "co_activate ?ops c s = Inr s'" for s s' c
    using activate_contract(1) that by (cases c) simp
  show "c \<in> co_enables ?ops c \<and> co_enables ?ops c \<subseteq> co_cells ?ops" if "c \<in> co_cells ?ops" for c
    using that by (cases c) auto
  show "cell_view ?ops s' = map_enable (co_enables ?ops c) (\<lambda>d. co_fresh ?ops d s) (cell_view ?ops s)"
    if "dynamic_inv meta nodes s" "c \<in> co_cells ?ops" "co_activate ?ops c s = Inr s'" for s s' c
    using activate_contract(2) [of meta nodes s "fst c" "snd c" s'] that by (cases c) simp
  show "co_lookup ?ops d s' = co_lookup ?ops d s"
    if "dynamic_inv meta nodes s" "c \<in> co_cells ?ops" "co_activate ?ops c s = Inr s'" "d \<in> co_cells ?ops" "co_is_active ?ops d s" for s s' c d
    using activate_contract(3) [of meta nodes s "fst c" "snd c" s' "fst d" "snd d"] that by (cases c; cases d) simp
  show "apart (co_lookup ?ops c s, co_size ?ops) (co_lookup ?ops d s, co_size ?ops)"
    if i: "dynamic_inv meta nodes s" and cd: "c \<in> co_cells ?ops" "d \<in> co_cells ?ops" "co_is_active ?ops c s" "co_is_active ?ops d s" "c \<noteq> d" for s c d
  proof -
    obtain live ch where st: "dynamic_state meta nodes s live ch"
      using i by (auto simp: dynamic_inv_state)
    then have core: "dynamic_core meta nodes s live ch (\<lambda>c. nat (dynamic_n c (nm_mem s)))"
      by (simp add: dynamic_state_def)
    show ?thesis
      using elements_pairwise [OF core, of "fst c" "fst d" "snd c" "snd d"] lookup_element [OF st, of "fst c" "snd c"] lookup_element [OF st, of "fst d" "snd d"] cd
      by (cases c; cases d) simp
  qed
  have put: "dynamic_inv meta nodes (nm_put (the (Dynamic_lookup_element meta c i s) + k) v s) \<and>
      (\<forall>d j. (d, j) \<in> dynamic_cells nodes \<longrightarrow>
        Dynamic_is_active meta d j (nm_put (the (Dynamic_lookup_element meta c i s) + k) v s) = Dynamic_is_active meta d j s \<and>
        the (Dynamic_lookup_element meta d j (nm_put (the (Dynamic_lookup_element meta c i s) + k) v s)) = the (Dynamic_lookup_element meta d j s))"
    if inv: "dynamic_inv meta nodes s" and c: "(c, i) \<in> dynamic_cells nodes" "Dynamic_is_active meta c i s" "k < sm_element_size meta" for s c i k v
  proof -
    obtain live ch where st: "dynamic_state meta nodes s live ch"
      using inv by (auto simp: dynamic_inv_state)
    have cn: "c \<in> nodes"
      using c(1) by simp
    let ?s = "nm_put (the (Dynamic_lookup_element meta c i s) + k) v s"
    note put = put_state [where v = v, OF st cn c(2,3)]
    have st': "dynamic_state meta nodes ?s live ch"
      and n: "\<And>d. d \<in> nodes \<Longrightarrow> dynamic_n d (nm_mem ?s) = dynamic_n d (nm_mem s)"
      using put by (simp_all add: lookup_element(2) [OF st cn c(2)])
    have "Dynamic_is_active meta d j ?s = Dynamic_is_active meta d j s" if "d \<in> nodes" for d j
      using n [OF that] by (simp add: Dynamic_is_active_def)
    moreover from this have "Dynamic_lookup_element meta d j ?s = Dynamic_lookup_element meta d j s" if "d \<in> nodes" for d j
      using that lookup_element(2) [OF st that, of j] lookup_element(2) [OF st' that, of j]
      by (cases "Dynamic_is_active meta d j s") (simp_all add: lookup_inactive)
    ultimately show ?thesis
      using st' by (auto simp: dynamic_inv_state)
  qed
  show "dynamic_inv meta nodes (co_put ?ops (co_lookup ?ops c s + k) v s)"
    if "dynamic_inv meta nodes s" "c \<in> co_cells ?ops" "co_is_active ?ops c s" "k < co_size ?ops" for s c k v
    using put [of s "fst c" "snd c" k v] that by (cases c) simp
  show "co_is_active ?ops d (co_put ?ops (co_lookup ?ops c s + k) v s) = co_is_active ?ops d s \<and>
      co_lookup ?ops d (co_put ?ops (co_lookup ?ops c s + k) v s) = co_lookup ?ops d s"
    if "dynamic_inv meta nodes s" "c \<in> co_cells ?ops" "co_is_active ?ops c s" "k < co_size ?ops" "d \<in> co_cells ?ops" for s c d k v
    using put [of s "fst c" "snd c" k v] that by (cases c; cases d) simp
  have dea: "dynamic_inv meta nodes s' \<and> cell_view ?ops s' = map_disable (container_of c) (cell_view ?ops s)"
    if inv: "dynamic_inv meta nodes s" and c: "c \<in> co_cells ?ops" and a: "dynamic_deactivate meta c s = Inr s'" for s s' c
  proof -
    obtain d i where di: "c = (d, i)"
      by (cases c)
    show ?thesis
      using deactivate_contract [OF inv] c a unfolding di dynamic_ops_simps(1) by blast
  qed
  show "dynamic_inv meta nodes s'" if "dynamic_inv meta nodes s" "c \<in> co_cells ?ops" "dynamic_deactivate meta c s = Inr s'" for s s' c
    using dea [OF that] by blast
  show "cell_view ?ops s' = map_disable (container_of c) (cell_view ?ops s)"
    if "dynamic_inv meta nodes s" "c \<in> co_cells ?ops" "dynamic_deactivate meta c s = Inr s'" for s s' c
    using dea [OF that] by blast
  show "dynamic_inv meta nodes s'" if "dynamic_inv meta nodes s" "gc_step s s'" for s s'
    using that collect_state(1) unfolding dynamic_inv_state by blast
  show "cell_view ?ops s' = cell_view ?ops s" if i: "dynamic_inv meta nodes s" and gc: "gc_step s s'" for s s'
  proof
    fix x :: "nat \<times> nat"
    obtain live ch where st: "dynamic_state meta nodes s live ch"
      using i by (auto simp: dynamic_inv_state)
    obtain c j where x: "x = (c, j)"
      by (cases x)
    note col = collect_state [OF st gc]
    show "cell_view ?ops s' x = cell_view ?ops s x"
    proof (cases "(c, j) \<in> dynamic_cells nodes \<and> int j < dynamic_n c (nm_mem s)")
      case True
      have "nm_mem s' y = nm_mem s y" if "(p, chunk_bytes_of meta) \<in> set live" "in_block y (p + 8, sm_chunk_size meta * sm_element_size meta)" for p y
        using col(3) [OF that(1)] that(2) by (auto simp: in_block_def chunk_bytes_of_def)
      then show ?thesis
        using True col(2) [of c] dynamic_view_same [OF st col(1), of c j] by (simp add: x)
    next
      case False
      then show ?thesis
        using col(2) [of c] by (auto simp: x dynamic_view [OF st] dynamic_view [OF col(1)])
    qed
  qed
qed (simp add: nm_put_def)

section \<open>Appending\<close>

text \<open>\<^verbatim>\<open>append\<close> activates the element after the last one and returns where it is.\<close>

lemma append_activates:
  assumes inv: "dynamic_inv meta nodes s" and c: "c \<in> nodes" and n: "dynamic_n c (nm_mem s) + 1 < 2 ^ 31"
    and a: "Dynamic_allocate meta c s = Inr (p, i, s')"
  shows "i = dynamic_n c (nm_mem s)" "Dynamic_activate meta c (nat i) s = Inr s'" "Dynamic_lookup_element meta c (nat i) s' = Some p"
    "dynamic_n c (nm_mem s') = i + 1"
proof -
  let ?n = "dynamic_n c (nm_mem s)"
  obtain live ch where st: "dynamic_state meta nodes s live ch"
    using inv by (auto simp: dynamic_inv_state)
  have core: "dynamic_core meta nodes s live ch (\<lambda>c. nat (dynamic_n c (nm_mem s)))" and n0: "0 \<le> ?n"
    using st c by (simp_all add: dynamic_state_def)
  show i: "i = ?n"
    using a by (auto simp: Dynamic_allocate_def Let_def result_simps)
  let ?s = "s\<lparr>nm_mem := set_dynamic_n c (?n + 1) (nm_mem s)\<rparr>"
  have wr: "wrap32 (?n + 1) = ?n + 1"
    using n n0 by (intro wrap32_id) (simp add: fits32_def)
  then obtain chunk start where r: "reach_chunk (sm_chunk_size meta) (c + 8) 0 (nat ?n) ?s = Inr (chunk, start, s')"
    and p: "p = chunk + 8 + (nat ?n - start) * sm_element_size meta"
    using a by (auto simp: Dynamic_allocate_def Let_def result_simps)
  show act: "Dynamic_activate meta c (nat i) s = Inr s'"
    using r n0 by (simp add: i Dynamic_activate_def Let_def wr)
  have cell: "(c, nat ?n) \<in> dynamic_cells nodes"
    using c n n0 by simp
  have "\<exists>live' qs. dynamic_core meta nodes s' live' (ch(c := ch c @ qs)) (\<lambda>c. nat (dynamic_n c (nm_mem s))) \<and> nat ?n < sm_chunk_size meta * length (ch c @ qs) \<and>
    chunk = (ch c @ qs) ! (nat ?n div sm_chunk_size meta) \<and> start = sm_chunk_size meta * (nat ?n div sm_chunk_size meta) \<and>
    (\<forall>x. kept meta nodes live x \<longrightarrow> nm_mem s' x = nm_mem ?s x)"
    by (rule reach_chunk_core [OF set_n_core [OF core c] c, where k = 0]) (use r in simp_all)
  then obtain live' qs where q: "dynamic_core meta nodes s' live' (ch(c := ch c @ qs)) (\<lambda>c. nat (dynamic_n c (nm_mem s)))"
    "nat ?n < sm_chunk_size meta * length (ch c @ qs)"
    "chunk = (ch c @ qs) ! (nat ?n div sm_chunk_size meta)" "start = sm_chunk_size meta * (nat ?n div sm_chunk_size meta)"
    by blast
  obtain live2 qs2 where st2: "dynamic_state meta nodes s' live2 (ch(c := ch c @ qs2))"
    and n': "dynamic_n c (nm_mem s') = max ?n (int (nat ?n) + 1)"
    using activate_state [OF st cell act [unfolded i]] by metis
  show "dynamic_n c (nm_mem s') = i + 1"
    using n' n0 i by simp
  have "read_le (nm_mem s') (c + 8) 8 = (ch c @ qs) ! 0"
    using chain_next [OF dynamic_core_parts(7) [OF q(1) c], of 0] q(2) by (cases "ch c @ qs") auto
  then have "find_chunk (sm_chunk_size meta) (nm_mem s') (read_le (nm_mem s') (c + 8) 8) 0 (nat ?n) =
      Some (chunk, start)"
    using find_chunk_chain [OF dynamic_core_parts(7) [OF q(1) c] dynamic_core_parts(3) [OF q(1)], of "nat ?n" 0] q(2-4) by simp
  then show "Dynamic_lookup_element meta c (nat i) s' = Some p"
    using n' n0 by (simp add: Dynamic_lookup_element_def Dynamic_is_active_def i p)
qed

text \<open>On the map: the next cell becomes active and clear, and every other cell stays.\<close>

lemma append_view:
  assumes inv: "dynamic_inv meta nodes s" and c: "c \<in> nodes" and n: "dynamic_n c (nm_mem s) + 1 < 2 ^ 31"
    and a: "Dynamic_allocate meta c s = Inr (p, i, s')"
  shows "map_enable (co_enables (dynamic_ops meta nodes) (c, nat i)) (\<lambda>d. co_fresh (dynamic_ops meta nodes) d s)
      (cell_view (dynamic_ops meta nodes) s) = (cell_view (dynamic_ops meta nodes) s)((c, nat i) \<mapsto> \<lambda>_. 0)"
proof -
  obtain live ch where st: "dynamic_state meta nodes s live ch"
    using inv by (auto simp: dynamic_inv_state)
  then have "0 \<le> dynamic_n c (nm_mem s)"
    using c by (simp add: dynamic_state_def)
  then show ?thesis
    using append_activates(1) [OF assms] n c by (auto simp: fun_eq_iff map_enable_def dynamic_view [OF st])
qed

section \<open>New fields\<close>

lemma fresh_dynamic:
  assumes "fresh_field 16 nodes (chunk_bytes_of meta) nm" "0 < sm_chunk_size meta"
  shows "dynamic_inv meta nodes nm" "cell_view (dynamic_ops meta nodes) nm = Map.empty"
proof -
  note fresh = fresh_field_parts [OF assms(1)]
  have n: "dynamic_n c (nm_mem nm) = 0" if "c \<in> nodes" for c
    using clear_read [OF fresh(6) [OF that], of "c + 4" 4] by (simp add: dynamic_n_def inside_def sign_extend_def)
  have p: "chain (nm_mem nm) (c + 8) []" if "c \<in> nodes" for c
    using clear_read [OF fresh(6) [OF that], of "c + 8" 8] by (simp add: chain_def inside_def)
  have "dynamic_core meta nodes nm [] (\<lambda>_. []) (\<lambda>c. nat (dynamic_n c (nm_mem nm)))"
    by (rule dynamic_coreI) (use fresh assms(2) p in auto)
  then have st: "dynamic_state meta nodes nm [] (\<lambda>_. [])"
    using n by (simp add: dynamic_state_def)
  then show "dynamic_inv meta nodes nm"
    by (auto simp: dynamic_inv_state)
  show "cell_view (dynamic_ops meta nodes) nm = Map.empty"
    using n by (auto simp: fun_eq_iff dynamic_view [OF st])
qed

text \<open>The active cells of a container are those below its number of elements.\<close>

lemma dynamic_view_active:
  assumes "dynamic_inv meta nodes nm" "c \<in> nodes"
  shows "cell_view (dynamic_ops meta nodes) nm (c, j) \<noteq> None \<longleftrightarrow> int j < dynamic_n c (nm_mem nm) \<and> int j + 1 < 2 ^ 31"
proof -
  obtain live ch where "dynamic_state meta nodes nm live ch"
    using assms(1) by (auto simp: dynamic_inv_state)
  then show ?thesis
    using assms(2) by (auto simp: dynamic_view)
qed

end
