(* ===== verification/SampleSparse.thy ===== *)
theory SampleSparse
  imports DynamicField SampleMemory
begin

text \<open>Concrete runs of a pointer field and of a dynamic field with one container, at address 1000.\<close>

section \<open>A pointer field\<close>

definition pointer_meta :: snode_meta where
  "pointer_meta = \<lparr>sm_element_size = 8, sm_max_num_elements = 2, sm_chunk_size = 0, sm_ambient = 64\<rparr>"

lemma pointer_sample_fresh:
  "fresh_field (16 * sm_max_num_elements pointer_meta) {1000} (sm_element_size pointer_meta) (sample_nodes (\<lambda>_. 0) 0 4096 no_indices)"
  unfolding fresh_field_def
  by (rule exI [of _ 2], rule exI [of _ "sample_chunk 4096"], rule exI [of _ "\<lambda>_. 0"])
    (use sample_nodes_new in \<open>simp add: pointer_meta_def sample_chunk_def clear_def nodes_apart_def\<close>)

text \<open>A cell is activated and written, the other one activated and deactivated again.\<close>

lemma pointer_sample_run:
  obtains s where "cell_run (pointer_ops pointer_meta {1000}) (pointer_deactivate pointer_meta) (\<lambda>c. {c}) gc_step
    (sample_nodes (\<lambda>_. 0) 0 4096 no_indices) s [(1000, 0) \<mapsto> (\<lambda>_. 0)(3 := 7)]"
proof -
  let ?ops = "pointer_ops pointer_meta {1000}" and ?s0 = "sample_nodes (\<lambda>_. 0) 0 4096 no_indices" and ?ch = "(\<lambda>_. 0)(0 := 4096)"
  let ?run = "cell_run ?ops (pointer_deactivate pointer_meta) (\<lambda>c. {c}) gc_step ?s0"
  have cells: "(1000, 0) \<in> co_cells ?ops" "(1000, 1) \<in> co_cells ?ops"
    by (simp_all add: pointer_cells_def pointer_meta_def)
  have empty: "cell_view ?ops ?s0 = Map.empty" and inv: "pointer_inv pointer_meta {1000} ?s0"
    using fresh_pointer [OF pointer_sample_fresh] by simp_all
  let ?m1 = "write_le 1016 8 4096 (\<lambda>_. 0)"
  let ?s1 = "(sample_nodes ?ch 1 4128 no_indices)\<lparr>nm_mem := ?m1\<rparr>"
  have a1: "co_activate ?ops (1000, 0) ?s0 = Inr ?s1"
    by (simp add: Pointer_activate_def data_ptr_def wrap32_def pointer_meta_def nm_allocate_def sample_nodes_def no_indices_def
        reserve_new_element_def touch_chunk_def max_num_chunks_def sample_chunk_def allocate_from_reserved_memory_def u64_def
        get_element_ptr_def Let_def fun_eq_iff read_le_zero result_simps)
  have r0: "?run ?s0 Map.empty"
    using run_start [of ?ops "pointer_deactivate pointer_meta" "\<lambda>c. {c}" gc_step ?s0] by (simp only: empty)
  have r1: "?run ?s1 [(1000, 0) \<mapsto> \<lambda>_. 0]"
    using run_activate [OF r0 cells(1) a1] by (simp add: map_enable_single)
  let ?m2 = "?m1(4099 := 7)" and ?f = "(\<lambda>_. 0)(3 := 7)"
  have "co_lookup ?ops (1000, 0) ?s1 = 4096"
    by (simp add: pointer_at_def data_ptr_def wrap32_def pointer_meta_def)
  then have r2: "?run (?s1\<lparr>nm_mem := ?m2\<rparr>) [(1000, 0) \<mapsto> ?f]"
    using run_put [OF r1, of "(1000, 0)" "\<lambda>_. 0" 3 7] by (simp add: nm_put_def pointer_meta_def)
  let ?s3 = "(sample_nodes ?ch 2 4128 no_indices)\<lparr>nm_mem := write_le 1024 8 4104 ?m2\<rparr>"
  have "read_le ?m2 1024 8 = 0"
    by (rule read_le_zero) (simp add: write_le_other)
  then have a2: "co_activate ?ops (1000, 1) (?s1\<lparr>nm_mem := ?m2\<rparr>) = Inr ?s3"
    by (simp add: Pointer_activate_def data_ptr_def wrap32_def pointer_meta_def nm_allocate_def sample_nodes_def no_indices_def
        reserve_new_element_def touch_chunk_def max_num_chunks_def get_element_ptr_def Let_def fun_eq_iff drop_bit_eq_div result_simps)
  have r3: "?run ?s3 [(1000, 0) \<mapsto> ?f, (1000, 1) \<mapsto> \<lambda>_. 0]"
    using run_activate [OF r2 cells(2) a2] by (simp add: map_enable_single)
  have "\<not> cannot_grow (il_list (nm_recycled_list ?s3)) (nm_chunk ?s3)"
    by (simp add: cannot_grow_def sample_nodes_def no_indices_def max_num_chunks_def sample_chunk_def
        allocate_from_reserved_memory_def u64_def Let_def)
  then obtain s where "pointer_deactivate pointer_meta (1000, 1) ?s3 = Inr s"
    using deactivate_fails [OF conjunct1 [OF pointer.run_view [OF r3 inv]], of "(1000, 1)"] cells(2)
    by (cases "pointer_deactivate pointer_meta (1000, 1) ?s3") auto
  then have "?run s (map_disable {(1000, 1)} [(1000, 0) \<mapsto> ?f, (1000, 1) \<mapsto> \<lambda>_. 0])"
    by (rule run_deactivate [OF r3 cells(2)])
  then show ?thesis
    using that [of s] by (simp add: map_disable_single)
qed

section \<open>A dynamic field\<close>

text \<open>Chunks of two elements of 4 bytes behind the pointer to the next one.\<close>

definition dynamic_meta :: snode_meta where
  "dynamic_meta = \<lparr>sm_element_size = 4, sm_max_num_elements = 16, sm_chunk_size = 2, sm_ambient = 64\<rparr>"

definition sample_chunks :: "(nat \<Rightarrow> nat) \<Rightarrow> nat \<Rightarrow> nat \<Rightarrow> bytes \<Rightarrow> node_manager" where
  "sample_chunks chunks n h m =
     (sample_nodes chunks n h no_indices)\<lparr>nm_data_list := nm_data_list (sample_nodes chunks n h no_indices)\<lparr>lm_element_size := 16\<rparr>,
        nm_mem := m\<rparr>"

lemma dynamic_sample_fresh: "fresh_field 16 {1000} (chunk_bytes_of dynamic_meta) (sample_chunks (\<lambda>_. 0) 0 4096 (\<lambda>_. 0))"
proof -
  have "log2int 4 = 2"
    using log2int_power [of 2] by simp
  then have "new_node_manager 16 (Some (2 ^ 2)) (sample_chunk 4096) (\<lambda>_. 0) = Inr (sample_chunks (\<lambda>_. 0) 0 4096 (\<lambda>_. 0))"
    by (simp add: new_node_manager_def halve_chunk.simps u64_def new_list_manager_def is_power_of_two_def
        sample_chunks_def sample_nodes_def no_indices_def Let_def)
  then show ?thesis
    unfolding fresh_field_def
    by (intro exI [of _ 2] exI [of _ "sample_chunk 4096"] exI [of _ "\<lambda>_. 0"])
      (simp add: dynamic_meta_def chunk_bytes_of_def sample_chunk_def clear_def nodes_apart_def)
qed

text \<open>The first element is activated and written; the memory afterwards.\<close>

definition sample_dynamic_mem :: bytes where
  "sample_dynamic_mem = (write_le 1008 8 4096 (set_dynamic_n 1000 1 (\<lambda>_. 0)))(4105 := 9)"

lemma sample_dynamic_reads:
  "read_le (write_le 1008 8 4096 (set_dynamic_n 1000 1 (\<lambda>_. 0))) 1008 8 = 4096"
  "read_le sample_dynamic_mem 1008 8 = 4096" "dynamic_n 1000 sample_dynamic_mem = 1"
proof -
  show r: "read_le (write_le 1008 8 4096 (set_dynamic_n 1000 1 (\<lambda>_. 0))) 1008 8 = 4096"
    by simp
  have "read_le sample_dynamic_mem 1008 8 = read_le (write_le 1008 8 4096 (set_dynamic_n 1000 1 (\<lambda>_. 0))) 1008 8"
    unfolding sample_dynamic_mem_def by (rule read_le_cong) simp
  then show "read_le sample_dynamic_mem 1008 8 = 4096"
    by simp
  have "dynamic_n 1000 sample_dynamic_mem = dynamic_n 1000 (set_dynamic_n 1000 1 (\<lambda>_. 0))"
    unfolding sample_dynamic_mem_def by (rule dynamic_n_cong) (simp add: in_block_def write_le_other)
  then show "dynamic_n 1000 sample_dynamic_mem = 1"
    by simp
qed

lemma dynamic_sample_run:
  "cell_run (dynamic_ops dynamic_meta {1000}) (dynamic_deactivate dynamic_meta) container_of gc_step
    (sample_chunks (\<lambda>_. 0) 0 4096 (\<lambda>_. 0)) (sample_chunks ((\<lambda>_. 0)(0 := 4096)) 1 4160 sample_dynamic_mem)
    [(1000, 0) \<mapsto> (\<lambda>_. 0)(1 := 9)]"
proof -
  let ?ops = "dynamic_ops dynamic_meta {1000}" and ?s0 = "sample_chunks (\<lambda>_. 0) 0 4096 (\<lambda>_. 0)" and ?ch = "(\<lambda>_. 0)(0 := 4096)"
  let ?run = "cell_run ?ops (dynamic_deactivate dynamic_meta) container_of gc_step ?s0"
  let ?m = "write_le 1008 8 4096 (set_dynamic_n 1000 1 (\<lambda>_. 0))"
  let ?s1 = "sample_chunks ?ch 1 4160 ?m"
  have cell: "(1000, 0) \<in> co_cells ?ops"
    by simp
  have cs: "0 < sm_chunk_size dynamic_meta"
    by (simp add: dynamic_meta_def)
  have "cell_view ?ops ?s0 = Map.empty"
    using fresh_dynamic(2) [OF dynamic_sample_fresh cs] .
  then have r0: "?run ?s0 Map.empty"
    using run_start [of ?ops "dynamic_deactivate dynamic_meta" container_of gc_step ?s0] by (simp only:)
  have z: "read_le (set_dynamic_n 1000 1 (\<lambda>_. 0)) 1008 8 = 0"
    by (rule read_le_zero) (simp add: set_n_other in_block_def)
  have n0: "dynamic_n 1000 (\<lambda>_. 0) = 0"
    by (simp add: dynamic_n_def read_le_zero sign_extend_def)
  have mem0: "nm_mem (sample_chunks c n h m) = m" for c n h m
    by (simp add: sample_chunks_def)
  have f: "fill_chunk_ptr 1008 (sample_chunks (\<lambda>_. 0) 0 4096 (set_dynamic_n 1000 1 (\<lambda>_. 0))) = Inr ?s1"
    by (simp add: fill_chunk_ptr_def mem0 z)
      (simp add: nm_allocate_def sample_chunks_def sample_nodes_def no_indices_def
        reserve_new_element_def touch_chunk_def max_num_chunks_def sample_chunk_def allocate_from_reserved_memory_def u64_def
        get_element_ptr_def Let_def fun_eq_iff result_simps)
  have "?s0\<lparr>nm_mem := m\<rparr> = sample_chunks (\<lambda>_. 0) 0 4096 m" for m
    by (simp add: sample_chunks_def)
  then have a: "co_activate ?ops (1000, 0) ?s0 = Inr ?s1"
    using f by (simp add: Dynamic_activate_def mem0 n0 Let_def wrap32_def reach_chunk.simps [of _ 1008 0 0] dynamic_meta_def)
  have "map_enable (co_enables ?ops (1000, 0)) (\<lambda>d. co_fresh ?ops d ?s0) Map.empty = [(1000, 0) \<mapsto> \<lambda>_. 0]"
    by (auto simp: map_enable_def fun_eq_iff)
  then have r1: "?run ?s1 [(1000, 0) \<mapsto> \<lambda>_. 0]"
    using run_activate [OF r0 cell a] by (simp only:)
  have "dynamic_n 1000 ?m = dynamic_n 1000 (set_dynamic_n 1000 1 (\<lambda>_. 0))"
    by (rule dynamic_n_cong) (simp add: in_block_def write_le_other)
  then have "co_lookup ?ops (1000, 0) ?s1 = 4104"
    by (simp add: Dynamic_lookup_element_def Dynamic_is_active_def mem0 sample_dynamic_reads find_chunk.simps [of _ _ _ 0 0] dynamic_meta_def)
  then have "co_put ?ops (co_lookup ?ops (1000, 0) ?s1 + 1) 9 ?s1 = sample_chunks ?ch 1 4160 sample_dynamic_mem"
    by (simp add: nm_put_def sample_chunks_def sample_dynamic_mem_def)
  then show ?thesis
    using run_put [OF r1, of "(1000, 0)" "\<lambda>_. 0" 1 9] by (simp add: dynamic_meta_def)
qed

text \<open>The second element goes behind it in the same chunk.\<close>

lemma dynamic_sample_append:
  "\<exists>s. Dynamic_allocate dynamic_meta 1000 (sample_chunks ((\<lambda>_. 0)(0 := 4096)) 1 4160 sample_dynamic_mem) = Inr (4108, 1, s)"
proof -
  have "read_le (set_dynamic_n 1000 2 sample_dynamic_mem) 1008 8 = read_le sample_dynamic_mem 1008 8"
    by (rule read_le_cong) (simp add: set_n_other in_block_def)
  then show ?thesis
    by (simp add: Dynamic_allocate_def sample_chunks_def sample_dynamic_reads Let_def wrap32_def reach_chunk.simps [of _ 1008 0 "Suc 0"]
        fill_chunk_ptr_def dynamic_meta_def)
qed

end
