(* ===== verification/Spec2Isabelle.thy ===== *)
theory Spec2Isabelle
  imports HostEval Samples SampleRuns SampleReducer SampleDispatch SampleMemory SampleGate SamplePublish SampleLoops SampleSparse
begin

text \<open>
  \<^bold>\<open>Adstack sizing in Quadrants.\<close> Reverse-mode kernels keep the values of their forward pass on
  per-thread stacks ("adstacks"). Each stack gets a symbolic size expression at compile time; before
  every launch the runtime evaluates it, sizes the heap, and publishes one slot per stack. Evaluation
  results are cached under generation counters, long range maxima are reduced in parallel on the
  device, and an overflow is diagnosed by re-evaluating the expressions. The development models this
  subsystem (\<^verbatim>\<open>program/adstack/\<close>, \<^verbatim>\<open>ir/adstack_size_expr*\<close> and
  \<^verbatim>\<open>runtime/llvm/runtime_module/adstack_runtime.cpp\<close> under \<^verbatim>\<open>src/quadrants/\<close>), and the
  memory it runs on: the allocators of the host and of the GPU back ends (\<^verbatim>\<open>rhi/\<close>), the node
  allocator of sparse fields and the nodes themselves (\<^verbatim>\<open>runtime/llvm/runtime_module/\<close>), and the parallel loops that
  kernels run: the thread pool (\<^verbatim>\<open>system/\<close>) and the range, mesh and struct loops of the runtime module.

  \<^bold>\<open>Theories.\<close>
  \<^item> \<open>Prelude\<close>: results \<open>qd_error + 'a\<close>, 32- and 64-bit wrap-around, little-endian loads, lists.
  \<^item> \<open>SizeExpr\<close> (\<^verbatim>\<open>ir/adstack_size_expr.{h,cpp}\<close>): the tree \<open>size_expr\<close>, its post-order form
    \<open>ser_expr\<close>, \<open>flatten_recursive\<close> and \<open>serialize\<close>; \<open>represents ns i t\<close> says that slot \<open>i\<close> spells \<open>t\<close>.
  \<^item> \<open>Launch\<close>: what an evaluation reads of \<^verbatim>\<open>Program\<close>, \<^verbatim>\<open>SNode\<close> and \<^verbatim>\<open>LaunchContextBuilder\<close>, as records.
  \<^item> \<open>HostEval\<close> (\<^verbatim>\<open>program/adstack/eval.cpp\<close>): the host evaluator with its read observations, and
    the meaning \<open>size_value\<close> of a tree. The evaluator computes that meaning and its observations cover
    every buffer and shape it depends on.
  \<^item> \<open>DeviceBytecode\<close>, \<open>DeviceInterp\<close> (\<^verbatim>\<open>program/adstack/device_bytecode.cpp\<close> and the interpreter and
    sizer of the runtime module): analyses, encoder, byte packing; interpreter and sizer over memory.
    \<open>EncoderCorrect\<close> and \<open>SizerCorrect\<close> show that encoded code computes the meaning and that the
    sizer publishes it; \<open>AdStackLayout\<close> that published slots are aligned and disjoint.
  \<^item> \<open>AdStackOps\<close>: \<^verbatim>\<open>stack_init/push/pop/top_primal/top_adjoint\<close> over byte memory.
  \<^item> \<open>SizeCache\<close>, \<open>WriteGen\<close> (\<^verbatim>\<open>cache.{h,cpp}\<close>, \<^verbatim>\<open>write_gen.cpp\<close>): the caches, generations and bumps.
    \<open>WriteBarrier\<close> states what a launch back end owes the caches (locale \<open>write_barrier\<close>, interpreted for
    LLVM on GPU and CPU and for SPIR-V); \<open>CacheSound\<close> the runs of the host and the invariant of the
    size-expression cache; \<open>CacheLaws\<close> the laws the caches share (locales \<open>replay_cache\<close>,
    \<open>snapshot_cache\<close>).
  \<^item> \<open>Registry\<close>: the table of adstack tasks. \<open>Diagnose\<close> (\<^verbatim>\<open>diagnose.cpp\<close>): re-evaluation from a launch
    snapshot and classification of an overflow.
  \<^item> \<open>MaxReducer\<close> (\<^verbatim>\<open>max_reducer.cpp\<close>): recogniser and substitution of dispatched maxima;
    \<open>MaxReduceRuntime\<close>: the device kernel and its compare-and-swap publication as interleaved steps;
    \<open>MaxReducerBody\<close>: the encoder of reducer bodies, whose bytecode reduces to the meaning of a captured
    chain of range maxima; \<open>MaxReducerDispatch\<close>
    (\<^verbatim>\<open>runtime/llvm/adstack_lazy_claim/bound_eval.cpp\<close>): the rounds of the dispatcher over the caches, the
    host evaluator and the kernel; \<open>DispatchCorrect\<close>: its results are the values of the maxima they
    stand for and every spec gets one or has a reason not to.
  \<^item> \<open>FloatBits\<close>, \<open>BoundCount\<close> (\<^verbatim>\<open>bound_eval.{h,cpp}\<close> and \<^verbatim>\<open>runtime_eval_static_bound_count\<close>): IEEE comparisons on
    bit patterns, and the two counters of the cells that pass a gate, which agree. \<open>LazyClaim\<close>
    (\<^verbatim>\<open>heap_grow.cpp\<close>, the row claim emitted by \<^verbatim>\<open>codegen/llvm/codegen_llvm.cpp\<close>): rows of the float heap
    are drawn from a counter, the heap is sized from the count, and an overrun is reported.
  \<^item> \<open>PublishMetadata\<close> (\<^verbatim>\<open>runtime/llvm/adstack_lazy_claim/metadata_publish.cpp\<close>): what happens before each
    task: capacities from the host evaluator, the per-task cache or the device sizer, the layout they give
    and the growth of both heaps. All routes publish one layout, which leaves every thread its slices.
    \<open>PinnedMetadata\<close>: the asynchronous copies of a GPU build through one pinned buffer, as interleavings of
    the host and the stream.
  \<^item> \<open>GraphDoWhile\<close> (\<^verbatim>\<open>program/graph_do_while_driver.h\<close>): the driver of nested device loops runs the
    structured program the tasks' level tags describe. \<open>CpuLauncher\<close>
    (\<^verbatim>\<open>runtime/cpu/kernel_launcher.cpp\<close>): task order, checkpoints, yields and resumes, and the two
    ways a kernel with loops is driven.
  \<^item> \<open>MemBlocks\<close>: what an allocator promises, as the locale \<open>block_allocator\<close>: along every run of
    allocations and releases (\<open>alloc_run\<close>) live blocks keep apart. It is interpreted three times:
    \<open>HostPool\<close> (\<^verbatim>\<open>rhi/common/unified_allocator.cpp\<close>, \<^verbatim>\<open>host_memory_pool.cpp\<close>,
    \<^verbatim>\<open>rhi/cpu/cpu_device.cpp\<close>; interpretation \<open>host\<close>, plus mapping and copying of device memory),
    \<open>DeviceMem\<close> (\<^verbatim>\<open>rhi/llvm/allocator.cpp\<close>, \<^verbatim>\<open>device_memory_pool.cpp\<close>, the preallocated chunk of the
    runtime module and \<^verbatim>\<open>rhi/cuda/cuda_device.cpp\<close>; interpretation \<open>gpu\<close>, and the requests that are not in
    whole pages, whose blocks overlap) and \<open>NodeAlloc\<close>
    (interpretation \<open>nodes\<close>) over \<open>NodeList\<close>, the \<^verbatim>\<open>ListManager\<close>, \<^verbatim>\<open>NodeManager\<close> and both
    garbage collections of the runtime module. The free list and the recycled list are chunked lists
    too: they grow into the same preallocated memory as the nodes, and growing may fail.
  \<^item> \<open>SparseCells\<close>: what kernels rely on in a sparse field, as the locales \<open>cell_container\<close> and
    \<open>releasing_container\<close>: runs of activations, writes, deactivations and collections (\<open>cell_run\<close>) are those
    of a map from active cells to contents. \<open>NodeMemory\<close>: what the node allocator does to memory.
    \<open>SparseNode\<close> (\<^verbatim>\<open>runtime/llvm/runtime_module/node_{root,dense,bitmasked,pointer,dynamic}.h\<close>): the operations of
    the nodes over byte memory and that allocator. They keep the contract: \<open>SparseFields\<close> (interpretations \<open>dense\<close>
    and \<open>bitmasked\<close>), \<open>PointerField\<close> (\<open>pointer\<close>) and \<open>DynamicField\<close> (\<open>dynamic\<close>, and that appending
    activates the next element).
  \<^item> \<open>ThreadPool\<close> (\<^verbatim>\<open>system/threading.{h,cpp}\<close>): master and workers as interleaved steps, with the
    invariant that accounts for every task and the effort each step uses up. \<open>PoolNotify\<close>: the same pool with
    its condition variables, where a waiting thread is blocked until it is notified; nobody sleeps through the
    notification it needs. \<open>ParallelFor\<close>: range and mesh
    loops on the pool and on a grid; \<open>StructFor\<close>: generation of element lists along an SNode path and the
    struct-for over them, against the cells of the tree (\<open>active_cells\<close>).
  \<^item> \<open>Samples\<close>, \<open>SampleRuns\<close>, \<open>SampleReducer\<close>, \<open>SampleDispatch\<close>, \<open>SampleMemory\<close>, \<open>SampleGate\<close>,
    \<open>SamplePublish\<close>, \<open>SampleLoops\<close>, \<open>SampleSparse\<close>: concrete states on which the theorems are applied.

  \<^bold>\<open>Modelling.\<close> \<^verbatim>\<open>int32_t\<close> and \<^verbatim>\<open>int64_t\<close> are integers with the wrap written out (\<open>wrap32\<close>,
  \<open>wrap64\<close>), unsigned values naturals modulo \<open>2 ^ 64\<close>; generation counters are unbounded. Memory is
  a function from addresses to bytes and a null pointer is 0. Failed assertions and raised errors are
  values of \<open>qd_error\<close>. Recursive evaluators carry fuel; \<open>eval_fuel\<close> is one more than the number of
  nodes and is enough because operands of a serialised node precede it (\<open>represents_depth\<close>). The probe
  loop of the registry is a partial function that is shown to return while an id is free; so are the
  device loops of a kernel, which return exactly when the structured program does, and the loops that
  stride by the size of a grid, which return on grids that keep their 32-bit index from wrapping. The reader
  kernel behind a field load, the struct layout of the argument buffer, the SPIR-V field-load emitter
  and the staging copy of a device allocation are parameters; so are the results of \<^verbatim>\<open>mmap\<close> and of the
  driver's allocation calls, which are assumed to return memory apart from what they returned before.

  \<^bold>\<open>Assumptions of the main theorems.\<close> The encoder and the sizer see one memory (unified memory, or
  arrays already staged) and the iteration cap of a GPU build; the expressions they are given reuse no bound
  variable where a later operand reads an outer one of that name (\<open>no_clobber\<close>) and index with strides that
  fit 32 bits (\<open>device_ok\<close>). Results of the max reducer stand for their range maxima only when no body is
  negative (\<open>bodies_not_negative\<close>; \<open>dispatched_misses_floor\<close> otherwise) and the specs fit the kernel
  (\<open>task_fits_device\<close>). In \<open>cache_run\<close> a launch writes only what
  it declares and a size expression is not evaluated while the launch in flight writes what it reads;
  a freed ndarray is outside \<open>cache_run\<close>, and \<open>freed_address_restarts\<close> shows why. The shortcut of the CPU
  launcher for a kernel that is one loop is compared with the general driver when no yield of an earlier launch
  is on record (\<open>stale_yield_launch\<close> otherwise) and the adstack setup of a pass changes nothing. The theorems on the
  thread pool suppose that its uninitialised thread number is not positive (\<open>first_run_may_lose_task\<close>
  otherwise), and the one on its liveness leaves out wake-ups without a notification; loop indices stay away
  from \<open>2 ^ 31\<close> (\<open>range_fits\<close>, \<open>grid_fits\<close>, \<open>sizes_fit\<close>, \<open>root_grid_fits\<close>, \<open>struct_grid_fits\<close>), and on the CPU
  the number of splits divides the size of a list element (\<open>struct_for_drops_cells\<close> otherwise). The theorems on
  sparse fields start from clear memory (\<open>fresh_field\<close>), take a task under the lock of a node as one step,
  collect in parallel only nodes of at least two bytes (\<open>gc_step\<close>), and take the first index behind a chunk of
  a dynamic node (\<open>reach_chunk\<close>, \<open>find_chunk\<close>), an \<^verbatim>\<open>int\<close> in the source, as a number that stays below \<open>2 ^ 31\<close>.

  \<^bold>\<open>Not modelled.\<close> The SPIR-V wrapper of the encoder and the SPIR-V launcher; device allocations and copies of the reducer dispatch, whose
  launch is a parameter tied to the modelled kernel by \<open>reduces\<close>; of a CPU launch, the resolution of argument
  pointers and the JIT registration, with the compiled task a parameter; the pre-pass
  \<^verbatim>\<open>determine_ad_stack_size\<close> and the other IR passes, code generation and device back ends, which rest
  on class hierarchies and libraries outside the subsystem; the election of one thread of a warp before a lock is
  taken, and the refinement of coordinates, which is generated code; debug printing.
\<close>

section \<open>Evaluating size expressions on the host\<close>

text \<open>
  (C3) The host evaluator returns the meaning of the size expression it is given in serialised
  form, or raises the error that meaning has, and leaves the launch read cache coherent.
\<close>

theorem host_eval_refines_meaning:
  assumes "indices_fit t" "readable e t" "cache_ok e outer"
  shows "computes (\<lambda>c. cache_ok e c \<and> (c = None \<longleftrightarrow> outer = None))
           (evaluate_adstack_size_expr_no_cache (serialize t) e outer) (size_value e t Map.empty)"
  by (rule evaluate_serialized [OF assms])

theorem host_eval_refines_meaning_witness:
  "\<exists>c. evaluate_adstack_size_expr_no_cache (serialize sample_tree) sample_env None = Inr (14, c)"
  using host_eval_refines_meaning [OF sample_fits sample_readable cache_ok_None]
  by (simp add: sample_value)

section \<open>The generation-checked caches\<close>

text \<open>
  (C1) In every state that launches, the writes they announce, host-side buffer writes, cached
  evaluations and the maintenance of the other caches can lead to, the cached entry point
  computes the meaning of the expression in that state, whether it answers from the cache or
  not, and the state it leaves is again one of these.
\<close>

theorem cached_evaluation_sound:
  assumes "cache_run T w" "can_evaluate w ctx (T k)" "cache_ok (env_at w ctx) outer"
  shows "computes (\<lambda>(c, ac'). cache_ok (env_at w ctx) c \<and> cache_run T (w\<lparr>wd_cache := ac'\<rparr>))
           (evaluate_adstack_size_expr k (serialize (T k)) (env_at w ctx) outer (wd_cache w))
           (size_value (env_at w ctx) (T k) Map.empty)"
  using evaluate_cached [OF cache_run_inv [OF assms(1)] assms(2,3)] cache_run.evaluate [OF assms(1,2), of outer] assms(3)
  by (cases "size_value (env_at w ctx) (T k) Map.empty") auto

theorem cached_evaluation_sound_witness:
  "\<exists>c ac'. evaluate_adstack_size_expr 3 (serialize sample_tree) sample_env None empty_cache = Inr (14, c, ac')"
  using cached_evaluation_sound [OF sample_run, where ctx = sample_ctx and k = 3 and outer = None] sample_can_evaluate
  by (simp add: sample_env_at sample_value) (auto simp: sample_world_def)

section \<open>The device sizer\<close>

text \<open>
  (C2) Running the device sizer on the bytecode the encoder produced publishes, for every stack,
  the meaning of its size expression floored at one entry (or the compile-time bound when no
  expression was captured), with the offsets and strides those capacities give. The expressions
  are assumed not to reuse a bound variable where a later operand still reads an outer one of that
  name (\<open>no_clobber\<close>), the extents and strides they index with to fit 32 bits and the argument
  buffer to hold the pointers of the arrays they read (\<open>device_ok\<close>), their reads to be inside the
  arrays (\<open>readable\<close>) and their values to be defined (\<open>capacity\<close>).
\<close>

theorem sizer_publishes_meaning:
  assumes "encode_stacks e None mx (zip hs xs)
        \<lparr>ec_nodes = [], ec_indices = [], ec_cache = cache, ec_reads = reads\<rparr> = Inr (shs, st)"
    and "reads_as (de_mem de) base (pack_bytecode shs (ec_nodes st) (ec_indices st))" "blob_fits shs st"
    and "length hs = length xs" "list_all2 slot_tree xs ts"
    and "list_all (pred_option no_clobber) ts" "list_all (pred_option (device_ok e de)) ts" "list_all (pred_option (readable e)) ts"
    and "list_all2 (\<lambda>(h, t) m. capacity e h t m) (zip hs ts) ms"
    and "cache_ok e cache" "de_mem de = en_mem e" "max_over_range_iterations e = 2 ^ 24"
  shows "runtime_eval_adstack_size_expr de base rt = Inr (publish_layout shs ms 0 0 0 rt)"
  by (rule sizer_correct [OF assms(1-5) _ assms(9-12)]) (use assms(6-8) in \<open>simp add: tree_ok_all\<close>)

theorem sizer_publishes_meaning_witness:
  "runtime_eval_adstack_size_expr sample_dev 4000 sample_runtime =
     Inr (publish_layout sample_dev_headers [14, 16] 0 0 0 sample_runtime)"
proof -
  obtain st where "encode_stacks sample_blob_env None 0 (zip sample_headers sample_slots)
      \<lparr>ec_nodes = [], ec_indices = [], ec_cache = None, ec_reads = None\<rparr> = Inr (sample_dev_headers, st)"
      "ec_nodes st = sample_dev_nodes" "ec_indices st = sample_dev_indices"
    using sample_encode by blast
  then show ?thesis
    using sizer_publishes_meaning [OF _ _ sample_blob_fits _ sample_slot_trees sample_tree_ok [unfolded tree_ok_all, THEN conjunct1]
        sample_tree_ok [unfolded tree_ok_all, THEN conjunct2, THEN conjunct1]
        sample_tree_ok [unfolded tree_ok_all, THEN conjunct2, THEN conjunct2] sample_capacities]
      sample_blob_in_memory sample_env_caps
    by (simp add: sample_blob_def sample_headers_def sample_slots_def)
qed

text \<open>
  (C5) The slots any successful run of the sizer publishes are usable: every capacity is at least
  one, every offset is 8-byte aligned, each slice has room for the counter and all entries, lies
  inside the stride of its heap and starts after every earlier slice of the same heap.
\<close>

theorem sizer_slots_disjoint:
  assumes "runtime_eval_adstack_size_expr de bytecode rt = Inr rt'"
    and "shs = blob_headers (de_mem de) bytecode" "layout_fits shs (published_sizes rt' (length shs))"
    and "k < length shs"
  shows "slot_ok rt' shs k"
  using publish_layout_slots [OF _ assms(3) _ assms(4), of rt] sizer_publishes_layout [OF assms(1)] assms(2)
  by (simp add: published_sizes_def)

theorem sizer_slots_disjoint_witness:
  "slot_ok (publish_layout sample_dev_headers [14, 16] 0 0 0 sample_runtime) sample_dev_headers 1"
  by (rule sizer_slots_disjoint [OF sample_sized sample_blob_headers [symmetric]])
    (use sample_layout_fits in \<open>simp_all add: sample_dev_headers_def published_sizes_def
      upt_rec numeral_2_eq_2 Let_def sample_headers_def\<close>)

text \<open>
  (C18) The blob the encoder packs and the pointers the sizer forms into it are inverse to each
  other: reading the packed bytes back yields the counts, headers, nodes and indices that went in.
\<close>

theorem bytecode_roundtrip:
  assumes "reads_as m base (pack_bytecode shs nodes indices)"
    and "list_all header_fits shs" "list_all node_fits nodes" "list_all fits32 indices"
    and "length shs < 2 ^ 32" "length nodes < 2 ^ 32"
  shows "blob_headers m base = shs \<and> load_u32 m (base + 4) = int (length nodes) \<and>
    reads_as (node_ptr m (base + 16 + 16 * int (length shs))) 0 nodes \<and>
    reads_as (index_ptr m (base + 16 + 16 * int (length shs) + 48 * int (length nodes))) 0 indices"
  using unpack_bytecode [OF assms]
  by (auto simp: blob_headers_def reads_as_def intro: nth_equalityI)

theorem bytecode_roundtrip_witness:
  "blob_headers sample_blob_mem 4000 = sample_dev_headers \<and> load_u32 sample_blob_mem 4004 = 8 \<and>
   reads_as (node_ptr sample_blob_mem 4048) 0 sample_dev_nodes \<and>
   reads_as (index_ptr sample_blob_mem 4432) 0 sample_dev_indices"
proof -
  have len: "length sample_dev_headers = 2" "length sample_dev_nodes = 8"
    by (simp_all add: sample_dev_headers_def sample_dev_nodes_def)
  show ?thesis
    using bytecode_roundtrip [OF sample_blob_in_memory [unfolded sample_blob_def]] sample_blob_parts_fit
    by (simp add: len sample_dev_def)
qed

section \<open>Adstacks in memory\<close>

text \<open>
  (C6) The operations on a stack write nothing outside the slice of the stack but the two overflow slots.
\<close>

theorem adstack_writes_stay_in_slice:
  assumes "stack_reach stack cap esz tid s t" "slots_outside stack cap esz s" "cap < 2 ^ 64 - 1"
    and "x < stack \<or> slice_end stack cap esz \<le> x" "\<not> in_slot s x"
  shows "sm_mem t x = sm_mem s x"
  by (rule stack_reach_frame [OF assms])

theorem adstack_writes_stay_in_slice_witness:
  "sm_mem (stack_push 8000 1 4 7 (stack_push 8000 1 4 7 (stack_init 8000 sample_machine))) 8016 = sm_mem sample_machine 8016"
  by (rule adstack_writes_stay_in_slice [OF sample_pushes sample_slots_outside])
    (simp_all add: slice_end_def in_slot_def sample_machine_def)

section \<open>Cache laws\<close>

text \<open>
  (C7) Before a launch on any back end starts, every field and every buffer it may write and that
  some recording has observed carries a new generation, no generation has gone back, and nothing
  else of the cache has changed.
\<close>

theorem launch_bumps_what_it_writes:
  assumes "launch_bump ctx l ac = Some ac'" "ac_any_recordings ac"
  shows "bumps ac ac' \<and>
    (\<forall>s \<in> launch_snodes l \<inter> ac_observed_snode_ids ac. snode_write_gen ac s < snode_write_gen ac' s) \<and>
    (\<forall>p \<in> launch_ptrs ctx l \<inter> ac_observed_devalloc_ptrs ac.
       p \<noteq> 0 \<longrightarrow> ac_any_external_read_observed ac \<longrightarrow> ndarray_data_gen ac p < ndarray_data_gen ac' p)"
  using any_launch.bump_bumps [OF assms(1)] any_launch.bump_raises_snode [OF assms] 
    any_launch.bump_raises_ptr [OF assms] by blast

theorem launch_bumps_what_it_writes_witness:
  "\<exists>ac'. launch_bump sample_ctx (GpuLaunch [sample_access]) sample_cached = Some ac' \<and>
     snode_write_gen sample_cached 7 < snode_write_gen ac' 7"
proof -
  obtain ac' where "launch_bump sample_ctx (GpuLaunch [sample_access]) sample_cached = Some ac'"
    by (simp add: gpu_bump_def bump_writes_for_kernel_llvm_gpu_def)
  moreover have "7 \<in> launch_snodes (GpuLaunch [sample_access])"
    by (simp add: gpu_snodes_def sample_access_def)
  ultimately show ?thesis
    using launch_bumps_what_it_writes [OF _ sample_cached_recordings(1)] sample_cached_recordings(2) by blast
qed

section \<open>The registry of adstack tasks\<close>

section \<open>Max-reducer dispatch\<close>

text \<open>
  (C8) Replacing range maxima by the results dispatched for them does not change what the host
  evaluator returns, provided each result is the value of the maximum it stands for.
\<close>

theorem substitution_keeps_meaning:
  assumes "indices_fit t" "readable e t" "cache_ok e outer"
    and "results_right e (matched results rid sid) (serialize t) (int (length (serialize t)) - 1) t"
  shows "computes (\<lambda>c. cache_ok e c \<and> (c = None \<longleftrightarrow> outer = None))
    (evaluate_adstack_size_expr_no_cache (substitute_precomputed_max_over_range (serialize t) rid sid results) e outer)
    (size_value e t Map.empty)"
  by (rule evaluate_substituted [OF serialize_represents [OF assms(1)] assms(2-4)])

theorem substitution_keeps_meaning_witness:
  "\<exists>c. evaluate_adstack_size_expr_no_cache
     (substitute_precomputed_max_over_range (serialize sample_tree) 7 0 [(pack_max_reducer_key 7 0 5, 5)]) sample_env None = Inr (14, c)"
  using substitution_keeps_meaning [OF sample_fits sample_readable cache_ok_None sample_results_right]
  by (simp add: sample_value)

text \<open>
  (C9) Every range maximum the recogniser hands to the device is closed, has a body of the shape
  the device evaluator runs, at least one axis and one begin and end per axis; and each spec
  comes after the specs of its stack whose results it depends on.
\<close>

theorem recognized_specs_dispatchable:
  "in_order [] (recognize_adstack_max_reducer_specs es) \<and>
   (\<forall>s \<in> set (recognize_adstack_max_reducer_specs es).
      \<exists>k < length es. ms_stack_id s = int k \<and> spec_ok (es ! k) s)"
  by (rule recognize_specs_ok)

theorem recognized_specs_dispatchable_witness:
  "spec_ok (serialize sample_tree) (hd (recognize_adstack_max_reducer_specs [serialize sample_tree]))"
proof -
  have "recognize_adstack_max_reducer_specs [serialize sample_tree] \<noteq> []" by code_simp
  then show ?thesis using recognized_specs_dispatchable [of "[serialize sample_tree]"] by auto
qed

text \<open>
  (C4) When the threads of the reduction have finished, the output slot holds the maximum of the
  body over the whole cross product of the axes, in whatever order they interleave.
\<close>

theorem max_reduce_computes_maximum:
  assumes "post_order nodes 0 (int n - 1) d" "d \<le> eval_stack_depth" "0 < num"
    and "total_length axes = Some tot" "prod_list (map fst axes) < 2 ^ 64"
    and "\<And>t. t < num \<Longrightarrow> thread_max de nodes indices n axes tot num t = Inr (running t)"
    and "cas_run num running (cas_start int64_min) w" "\<forall>t < num. cw_threads w t = Finished"
  shows "cw_slot w = Max (insert int64_min (body_value de nodes indices n ` axis_scopes (rev axes) (\<lambda>_. 0)))"
  by (rule max_reduce_correct [OF assms])

theorem max_reduce_computes_maximum_witness:
  "\<exists>w. cas_run 2 (\<lambda>t. int t + 1) (cas_start int64_min) w \<and>
     cw_slot w = Max (insert int64_min (body_value sample_dev sample_body (\<lambda>_. 0) 3 ` axis_scopes [(2, 0, 0)] (\<lambda>_. 0)))"
proof -
  obtain w where w: "cas_run 2 (\<lambda>t. int t + 1) (cas_start int64_min) w" "\<forall>t < 2. cw_threads w t = Finished"
    using cas_finishes by blast
  have tot: "total_length [(2, 0, 0)] = Some 2"
    by (simp add: total_length_def max_reducer_max_axes_def u64_def)
  show ?thesis
    using max_reduce_computes_maximum [of sample_body 3 2 2 "[(2, 0, 0)]" 2, OF _ _ _ tot _ _ w] w(1)
      sample_body_post_order sample_threads
    by (auto simp: eval_stack_depth_def)
qed

text \<open>
  (C10) The compare-and-swap loops end under every schedule: no infinite sequence of thread steps
  exists.
\<close>

theorem cas_loops_terminate:
  "wf {(w', w). \<exists>t < num. cw_threads w t \<noteq> Finished \<and> w' = cas_step running t w}"
proof (rule wf_subset [OF wf_inv_image [OF wf_lex_prod [OF wf_less_than wf_less_than], of "cas_measure num"]])
  show "{(w', w). \<exists>t < num. cw_threads w t \<noteq> Finished \<and> w' = cas_step running t w} \<subseteq>
      inv_image (less_than <*lex*> less_than) (cas_measure num)"
    using cas_step_measure by (auto simp: inv_image_def)
qed

text \<open>
  (C11) The range maximum a reducer spec captured is what the device reduces: the body's bytecode in
  device memory, one kernel launch over the cross product of the axes in any interleaving of its
  threads, and the value read back give the meaning of the whole chain of range maxima, floored at
  zero.
\<close>

theorem reducer_computes_chain:
  assumes "encode_body ns hi (map fst as) resolver place None e cache = Inr (Some (nodes, table), st)" "cache_ok e cache"
    and "reads_as m p (concat (map pack_node nodes) @ concat (map bytes_i32 table))"
      "list_all node_fits nodes" "list_all fits32 table"
    and "spans ns lo hi t" "body_grammar (map fst as) t"
      "body_ok (\<lambda>bv. bv \<in> axis_bindings as Map.empty) e de place t" "slots t \<le> eval_stack_depth"
    and "axes_ok as" "prod_list (map fst (device_axes as)) < 2 ^ 64"
    and "resolves e resolver" "de_mem de = en_mem e"
    and "kernel_run m de p (length nodes) (device_axes as) num w"
    and "list_all2 (axis_evaluates e) cs as" "cs \<noteq> []" "size_value e (mor_chain cs t) Map.empty = Inr x"
  shows "x = max 0 (dispatched_value (cw_slot w))"
  by (rule dispatched_chain(2) [OF assms])

theorem reducer_computes_chain_witness:
  "\<exists>w. kernel_run sample_reduce_mem sample_reduce_dev 5000 (length sample_body_nodes) (device_axes sample_axes) 1 w \<and> 5 = max 0 (dispatched_value (cw_slot w))"
proof -
  obtain w where w: "kernel_run sample_reduce_mem sample_reduce_dev 5000 (length sample_body_nodes) (device_axes sample_axes) 1 w"
    using sample_kernel_run by blast
  obtain st where st: "encode_body (serialize sample_tree) 4 (map fst sample_axes) sample_resolver (\<lambda>_. (0, 0)) None
      sample_reduce_env None = Inr (Some (sample_body_nodes, [-1, 1]), st)"
    using sample_body_encoded by blast
  have mem: "reads_as sample_reduce_mem 5000 (concat (map pack_node sample_body_nodes) @ concat (map bytes_i32 [-1, 1]))"
    using sample_body_in_memory by (simp only: sample_body_bytes_def)
  have "5 = max 0 (dispatched_value (cw_slot w))"
    by (rule reducer_computes_chain [OF st cache_ok_None mem sample_body_fits sample_body_spans sample_body_grammar(1)
          sample_body_ok sample_body_grammar(2) sample_axes_ok sample_resolves _ w sample_chain_axes sample_chain_value])
      (simp add: sample_reduce_dev_def sample_reduce_env_def)
  then show ?thesis using w by blast
qed

text \<open>
  (C12) Whatever rounds the dispatcher needs, each with the results of the rounds before substituted,
  every result it hands out is the value of the range maximum it stands for: evaluating a size
  expression with the results substituted gives its meaning. A result is taken from the caches or
  from a launch of the reducer kernel; the caches are assumed to hold right values. No body of a
  dispatched range maximum may have a negative value at any index (\<open>bodies_not_negative\<close>): the
  kernel starts its slot at the smallest integer and the dispatcher records what it holds, whereas
  the meaning of a range maximum is floored at zero. The expressions must have been recognised
  from well-formed trees and fit the kernel's stack and its 32-bit lengths (\<open>task_fits_device\<close>).
\<close>

theorem dispatch_keeps_meaning:
  assumes "dispatch_max_reducers_impl reduce place key tasks e ac rc = Inr st"
    and "dispatch_ok reduce place e de get_off (stacks_of (set tasks))"
    and "\<forall>task \<in> set tasks. task_fits_device e de place get_off task" "\<forall>task \<in> set tasks. bodies_not_negative e task"
    and "\<forall>a. ac = Some a \<longrightarrow> entries_right e (stacks_of (set tasks)) a"
    and "\<And>a hit. ac = Some a \<Longrightarrow> try_max_reducer_launch_cache_hit key (en_ctx e) a = Some hit \<Longrightarrow>
      all_right e (stacks_of (set tasks)) hit"
    and "cache_ok e rc" "task \<in> set tasks" "k < length (dt_size_exprs task)"
    and "dt_size_exprs task ! k = serialize t" "indices_fit t" "readable e t" "size_value e t Map.empty = Inr v"
  shows "\<exists>c. evaluate_adstack_size_expr_no_cache
    (substitute_precomputed_max_over_range (serialize t) (dt_registry_id task) (int k) (ds_results st)) e (ds_read_cache st) = Inr (v, c)"
proof (rule evaluate_dispatched)
  have "\<forall>task \<in> set tasks. task_ok e de place get_off task" using assms(3,4) by (simp add: task_ok_def)
  from dispatch_impl_right [OF assms(1,2) this assms(5-7)]
  show "all_right e (stacks_of (set tasks)) (ds_results st)" "cache_ok e (ds_read_cache st)" by simp_all
  show "(dt_registry_id task, int k, serialize t) \<in> stacks_of (set tasks)"
    using assms(8-10) unfolding stacks_of_def by force
qed (use assms serialize_represents in auto)

theorem dispatch_keeps_meaning_witness:
  "\<exists>reduce st c. dispatch_max_reducers_impl reduce sample_place 77 [sample_task] sample_env (Some empty_cache) None = Inr st \<and>
     evaluate_adstack_size_expr_no_cache
       (substitute_precomputed_max_over_range (serialize sample_tree) 9 0 (ds_results st)) sample_env (ds_read_cache st) = Inr (14, c)"
proof -
  obtain reduce where r: "reduces reduce sample_dispatch_dev" using reduces_exists by blast
  obtain st where st: "dispatch_max_reducers_impl reduce sample_place 77 [sample_task] sample_env (Some empty_cache) None = Inr st"
    using sample_dispatch_runs by blast
  have "dt_size_exprs sample_task ! 0 = serialize sample_tree" "0 < length (dt_size_exprs sample_task)" "dt_registry_id sample_task = 9"
    by (simp_all add: sample_task_def)
  then show ?thesis
    using dispatch_keeps_meaning [OF st, of sample_dispatch_dev sample_off sample_task 0 sample_tree 14] st sample_dispatch_ok [OF r]
      sample_task_ok [unfolded task_ok_def] sample_cache_right sample_fits sample_readable sample_value cache_ok_None by auto
qed

text \<open>
  (C13) No spec is left behind: when a launch is not answered from the launch cache and no spec of a
  task is refused (axes that are empty or too long, a body the encoder rejects), the rounds end with
  a result for every one of them, dependencies first.
\<close>

theorem dispatch_leaves_none_behind:
  assumes "dispatch_max_reducers_impl reduce place key tasks e ac rc = Inr st"
    and "en_ctx e = Some ctx" "lc_args_type ctx = Some get_off"
    and "Option.bind ac (try_max_reducer_launch_cache_hit key (Some ctx)) = None"
    and "task \<in> set tasks" "dt_registry_id task \<noteq> 0" "dt_specs task = recognize_adstack_max_reducer_specs es"
    and "\<forall>s \<in> set (dt_specs task). \<not> refused place e get_off
      \<lparr>pd_registry_id = dt_registry_id task, pd_expr = dt_size_exprs task ! nat (ms_stack_id s), pd_spec = s\<rparr>"
  shows "\<forall>s \<in> set (dt_specs task).
    map_of (ds_results st) (pack_max_reducer_key (dt_registry_id task) (ms_stack_id s) (ms_mor_node_idx s)) \<noteq> None"
  using dispatch_all [OF assms] by (simp add: pending_key_def)

theorem dispatch_leaves_none_behind_witness:
  "\<exists>st. dispatch_max_reducers_impl (\<lambda>_ _. 5) sample_place 77 [sample_task] sample_env (Some empty_cache) None = Inr st \<and>
     map_of (ds_results st) (pack_max_reducer_key 9 0 5) \<noteq> None"
proof -
  obtain st where st: "dispatch_max_reducers_impl (\<lambda>_ _. 5) sample_place 77 [sample_task] sample_env (Some empty_cache) None = Inr st"
    using sample_dispatch_runs by blast
  have ids: "dt_specs sample_task = recognize_adstack_max_reducer_specs [serialize sample_tree]" "dt_registry_id sample_task = 9"
      "ms_stack_id sample_spec = 0" "ms_mor_node_idx sample_spec = 5"
    by (simp_all add: sample_task_def sample_spec_def)
  have "\<forall>s \<in> set (dt_specs sample_task).
      map_of (ds_results st) (pack_max_reducer_key (dt_registry_id sample_task) (ms_stack_id s) (ms_mor_node_idx s)) \<noteq> None"
    by (rule dispatch_leaves_none_behind [OF st sample_launch_ctx _ _ _ ids(1)])
      (use sample_not_refused in \<open>simp_all add: sample_cache_right ids(2) sample_specs\<close>)
  then show ?thesis using st ids by (auto simp: sample_specs)
qed

text \<open>
  (C32) A cached reduction answers for other ranges: its observations cover the body only, so when the
  shape that bounds the range changes between two launches, the second launch gets the first one's
  result, from the launch cache and from the per-spec cache alike, although the maximum is another.
\<close>

theorem reducer_cache_ignores_bounds:
  "\<exists>st1 st2. dispatch_max_reducers_impl reduce sample_place key [bound_task] (bound_env 1) (Some empty_cache) None = Inr st1 \<and>
     dispatch_max_reducers_impl reduce sample_place key [bound_task] (bound_env 3) (ds_adstack_cache st1) None = Inr st2 \<and>
     ds_results st1 \<noteq> [] \<and> ds_results st2 = ds_results st1 \<and>
     size_value (bound_env 1) bound_tree Map.empty = Inr 3 \<and> size_value (bound_env 3) bound_tree Map.empty = Inr 4"
  using bound_first_launch [of reduce key] bound_second_launch [of reduce key] bound_values by fastforce

section \<open>Overflow diagnosis\<close>

text \<open>
  (C19) A bound the diagnosis re-evaluates from the captured snapshot is the meaning of the size
  expression in the launch the snapshot describes, whenever it is known.
\<close>

theorem diagnosis_bound_is_meaning:
  assumes "indices_fit t" "snapshot_agrees e rd snap t" "en_prog e \<noteq> None"
    and "evaluate_adstack_size_expr_for_diagnose (serialize t) e rd (Some snap) None = Inr (v, c)" "0 \<le> v"
  shows "size_value e t Map.empty = Inr v"
  by (rule diagnose_sound [OF assms])

theorem diagnosis_bound_is_meaning_witness:
  "size_value sample_env sample_tree Map.empty = Inr 14"
proof -
  obtain c where "evaluate_adstack_size_expr_for_diagnose (serialize sample_tree) sample_env (\<lambda>_ _ _. None)
      (Some sample_snapshot) None = Inr (14, c)"
    using sample_diagnosed by blast
  from diagnosis_bound_is_meaning [OF sample_fits sample_snapshot_agrees _ this] show ?thesis
    by (simp add: sample_env_def)
qed

section \<open>Memory allocators\<close>

text \<open>
  (C33) Whatever sequence of allocations and releases the host memory pool serves, the blocks in use
  never overlap and each lies in memory that is still mapped.
\<close>

theorem host_blocks_disjoint:
  assumes "alloc_run pool_gives pool_takes new_pool P live"
  shows "all_apart live \<and> list_all (\<lambda>b. 0 < fst b \<and> list_ex (inside b) (hp_raw_memory_chunks P)) live"
  using host.run_inv [OF assms pool_inv_new] pool_inv_mapped [of P live]
  by (auto simp: list_all_iff list_ex_iff)

theorem host_blocks_disjoint_witness:
  "all_apart [(65640, 200), (65536, 100)] \<and> list_ex (inside (65640, 200)) (hp_raw_memory_chunks (sample_pool 4))"
  using host_blocks_disjoint [OF sample_pool_run] by simp

text \<open>
  (C34) Bytes uploaded to an allocation of the CPU device are read back unchanged, and no upload into
  an allocation changes what another one holds, whatever was allocated and freed before.
\<close>

theorem cpu_upload_roundtrip:
  assumes "cpu_step\<^sup>*\<^sup>* (new_device m) D" "dp_device p = this" "in_allocation D p (length bs)"
    and "cpu_upload_data this (Some [(p, Some bs)]) D = (r, D')"
  shows "r = RhiSuccess \<and> cpu_readback_data this (Some [(p, True, length bs)]) D' = (RhiSuccess, [bs]) \<and>
    (\<forall>q n. in_allocation D q n \<and> dp_alloc_id q \<noteq> dp_alloc_id p \<longrightarrow>
       cpu_readback_data this (Some [(q, True, n)]) D' = cpu_readback_data this (Some [(q, True, n)]) D)"
proof -
  have D': "r = RhiSuccess" "D' = D\<lparr>cd_mem := put_bytes (device_addr D p) bs (cd_mem D)\<rparr>"
    using assms(2,4) by (simp_all add: cpu_upload_data_def)
  have addr: "device_addr D' q = device_addr D q" for q
    by (simp add: D'(2) device_addr_def)
  show ?thesis
    using upload_frame [OF cpu_reach_inv [OF assms(1)] assms(3)] assms(2) D'(1)
    by (simp add: cpu_readback_data_def addr) (simp add: D'(2))
qed

theorem cpu_upload_roundtrip_witness:
  "\<exists>D'. cpu_upload_data 0 (Some [(\<lparr>dp_device = 0, dp_alloc_id = 1, dp_offset = 60\<rparr>, Some [7])]) (sample_device 2) =
      (RhiSuccess, D') \<and>
    cpu_readback_data 0 (Some [(\<lparr>dp_device = 0, dp_alloc_id = 1, dp_offset = 60\<rparr>, True, 1)]) D' = (RhiSuccess, [[7]])"
proof -
  let ?p = "\<lparr>dp_device = 0, dp_alloc_id = 1, dp_offset = 60\<rparr>"
  obtain r D' where up: "cpu_upload_data 0 (Some [(?p, Some [7])]) (sample_device 2) = (r, D')"
    by fastforce
  moreover have "in_allocation (sample_device 2) ?p (length ([7] :: 8 word list))"
    by (simp add: in_allocation_def sample_device_def is_live_def)
  ultimately show ?thesis
    using cpu_upload_roundtrip [OF sample_device_reached _ _ up] by simp
qed

text \<open>
  (C35) On a GPU, as long as requests are in whole pages, the memory blocks in use, the objects the
  runtime places itself and the cached free blocks never overlap, and all of them lie below the
  head of the preallocated chunk.
\<close>

theorem gpu_blocks_disjoint:
  assumes "alloc_run device_gives device_takes (new_caching_allocator merge, pc) s live"
    and "pc_head pc \<le> pc_tail pc" "pc_tail pc \<le> 2 ^ 62"
  shows "all_apart (live @ free_blocks (fst s)) \<and>
    list_all (\<lambda>b. fst b + snd b \<le> pc_head (snd s)) (live @ free_blocks (fst s)) \<and>
    pc_head (snd s) \<le> pc_tail (snd s)"
  using gpu.run_inv [OF assms(1) device_inv_new [OF assms(2,3)]]
  by (auto simp: device_inv_def free_ok_def list_all_iff)

theorem gpu_blocks_disjoint_witness:
  "all_apart ([(8192, 64)] @ free_blocks
     \<lparr>ca_mem_blocks = [(4096, 4096)], ca_ptr_map = [(4096, 4096), (8192, 0)], ca_merge_upon_release = True\<rparr>)"
  using gpu_blocks_disjoint [OF sample_gpu_run] by (simp add: sample_chunk_def)

text \<open>
  (C36) The rounding of a request to whole pages is not part of its reservation, but it is part of the
  block its release puts into the cache. Whenever a request leaves room for an object between its end,
  rounded to the 128 bytes the runtime aligns its objects to, and the end of its last page, the next object
  of the runtime is placed in that room; after the release of the request, a later one of up to its rounded
  size that reaches as far as the object is given the same block: it covers the object, and clearing it
  overwrites the object. The free-block cache is empty at the start and the chunk has memory left.
\<close>

theorem rounded_block_overlaps:
  assumes "gd_cache D = new_caching_allocator merge" "0 < pc_head (gd_chunk D)" "pc_tail (gd_chunk D) \<le> 2 ^ 62"
    and "pc_head (gd_chunk D) + 2 * page_size + iroundup s1 page_size \<le> pc_tail (gd_chunk D)"
    and "0 < s1" "s1 < 2 ^ 62" "0 < s2" "iroundup s1 128 + s2 \<le> s3" "s3 \<le> iroundup s1 page_size"
  shows "\<exists>D1 q D2 D3 D4. gpu_allocate_memory_runtime s1 D = Inr (length (gd_allocations D), D1) \<and>
     runtime_allocate_ambient s2 D1 = Some (q, D2) \<and>
     gpu_dealloc_memory (length (gd_allocations D)) (D2\<lparr>gd_mem := (gd_mem D2)(q := v)\<rparr>) = Inr D3 \<and> gd_mem D3 q = v \<and>
     gpu_allocate_memory_runtime s3 D3 = Inr (Suc (length (gd_allocations D)), D4) \<and>
     inside (q, s2) (ai_ptr (gd_allocations D4 ! Suc (length (gd_allocations D))), s3) \<and> gd_mem D4 q = 0"
  by (rule object_inside_rounding [OF assms])

theorem rounded_block_overlaps_witness:
  "\<exists>D1 q D2 D3 D4. gpu_allocate_memory_runtime 100 sample_gpu = Inr (0, D1) \<and> runtime_allocate_ambient 64 D1 = Some (q, D2) \<and>
     gpu_dealloc_memory 0 (D2\<lparr>gd_mem := (gd_mem D2)(q := 7)\<rparr>) = Inr D3 \<and> gd_mem D3 q = 7 \<and>
     gpu_allocate_memory_runtime 4000 D3 = Inr (1, D4) \<and>
     inside (q, 64) (ai_ptr (gd_allocations D4 ! 1), 4000) \<and> gd_mem D4 q = 0"
  using rounded_block_overlaps [of sample_gpu True 100 64 4000 7]
  by (simp add: sample_gpu_def sample_chunk_def iroundup_def page_size_def u64_def)

section \<open>Sparse nodes and their collection\<close>

text \<open>
  (C37) A node allocator never hands out a node that is still in use, over any sequence of allocations
  and recyclings with collections of either kind in between.
\<close>

theorem nodes_handed_out_once:
  assumes "new_node_manager esz (Some (2 ^ k)) pc m = Inr nm" "2 ^ k * esz \<le> 128 * 1024 * 1024" "0 < esz"
    and "0 < pc_head pc" "pc_head pc \<le> pc_tail pc" "pc_tail pc \<le> 2 ^ 62"
    and "alloc_run node_gives node_takes nm nm' live"
  shows "all_apart live"
  using nodes.run_inv [OF assms(7) new_node_manager_inv [OF assms(1-6)]] by blast

theorem nodes_handed_out_once_witness:
  "all_apart [(4104, 8), (4096, 8)]"
  by (rule nodes_handed_out_once [OF sample_nodes_new _ _ _ _ _ sample_nodes_run]) (simp_all add: sample_chunk_def)

text \<open>
  (C38) The three collection kernels, in any interleaving of their threads, fail exactly when the serial
  collection does, because the free list has to grow and cannot; otherwise they leave its memory, counters,
  recycled list and preallocated chunk and, up to order, its free list, for nodes of at least two bytes.
\<close>

theorem parallel_collection_like_serial:
  assumes "nm_free_list_used nm < 2 ^ 30" "0 < threads_0" "0 < grid_dim" "0 < block_dim"
    and "mset order0 = mset (grid_indices threads_0 (length (gc_copies (nm_free_list_used nm) (il_size (nm_free_list nm)))))"
    and "mset order2 = mset (grid_indices grid_dim (il_size (nm_recycled_list nm)))"
    and "\<And>k. mset (threads k) = mset [0..<block_dim]"
    and "\<And>i. lm_chunks (nm_data_list nm) i mod 4 = 0" "lm_element_size (nm_data_list nm) \<noteq> 1"
  shows "case gc_serial nm of
      Inl er \<Rightarrow> gc_parallel order0 order2 threads block_dim nm = Inl er
    | Inr S \<Rightarrow> \<exists>P. gc_parallel order0 order2 threads block_dim nm = Inr P \<and>
        mset (il_contents (nm_free_list P)) = mset (il_contents (nm_free_list S)) \<and> il_list (nm_free_list P) = il_list (nm_free_list S) \<and>
        nm_free_list_used P = nm_free_list_used S \<and> nm_recycled_list P = nm_recycled_list S \<and> nm_mem P = nm_mem S \<and>
        nm_data_list P = nm_data_list S \<and> nm_chunk P = nm_chunk S"
  by (rule gc_parallel_like_serial [OF assms])

theorem parallel_collection_like_serial_witness:
  "\<exists>P S. gc_parallel [0] [0] (\<lambda>_. [1, 0]) 2 (sample_collect 8) = Inr P \<and> gc_serial (sample_collect 8) = Inr S \<and>
     mset (il_contents (nm_free_list P)) = mset (il_contents (nm_free_list S)) \<and> nm_mem P = nm_mem S"
proof -
  let ?nm = "sample_collect 8"
  have o: "mset [0] = mset (grid_indices 2 (length (gc_copies (nm_free_list_used ?nm) (il_size (nm_free_list ?nm)))))"
    "mset [0] = mset (grid_indices 2 (il_size (nm_recycled_list ?nm)))"
    using sample_collect_orders by (simp_all add: sample_collect_defs)
  have h: "nm_free_list_used ?nm < 2 ^ 30" "(0::nat) < 2" "lm_element_size (nm_data_list ?nm) \<noteq> 1"
    by (simp_all add: sample_collect_def)
  have t: "mset ((\<lambda>_. [1, 0]) k) = mset [0..<2]" for k :: nat
    by (simp add: numeral_2_eq_2)
  have c: "lm_chunks (nm_data_list ?nm) i mod 4 = 0" for i
    by (simp add: sample_collect_def)
  obtain S where S: "gc_serial ?nm = Inr S"
    using sample_collect_serial by blast
  from parallel_collection_like_serial [where nm = ?nm and threads = "\<lambda>_. [1, 0]", OF h(1,2,2,2) o t c h(3)]
  show ?thesis
    unfolding S by auto
qed

text \<open>
  (C39) A pointer field whose containers take less than 2 GB behaves like a map from active cells to contents, over any sequence of activations, writes,
  deactivations and collections of either kind: a cell is clear when it becomes active, keeps its contents until it is
  deactivated, and no write to another cell reaches it. As many nodes are in use as cells are active.
  Deactivating fails exactly for an active cell when the list of recycled nodes has to grow and cannot: its
  chunk table is full or the preallocated memory is exhausted.
\<close>

theorem pointer_fields_are_maps:
  assumes "fresh_field (16 * sm_max_num_elements meta) nodes (sm_element_size meta) s0"
    and "cell_run (pointer_ops meta nodes) (pointer_deactivate meta) (\<lambda>c. {c}) gc_step s0 s A"
  shows "cell_view (pointer_ops meta nodes) s0 = Map.empty \<and> cell_view (pointer_ops meta nodes) s = A \<and>
    (\<exists>live. nm_inv s live \<and> length live = card (dom A)) \<and>
    (\<forall>c \<in> pointer_cells meta nodes. \<forall>er. pointer_deactivate meta c s = Inl er \<longleftrightarrow>
       er = AssertFailed \<and> c \<in> dom A \<and> cannot_grow (il_list (nm_recycled_list s)) (nm_chunk s))"
proof -
  note fresh = fresh_pointer [OF assms(1)]
  have run: "pointer_inv meta nodes s" "cell_view (pointer_ops meta nodes) s = A"
    using pointer.run_view [OF assms(2) fresh(1)] by simp_all
  then obtain live where live: "pointer_live meta nodes s live"
    by (auto simp: pointer_inv_def)
  then have "nm_inv s live" "length live = card (dom A)"
    using pointer_live_card [OF live] by (simp_all add: pointer_live_def dom_pointer_view flip: run(2))
  then show ?thesis
    using fresh(2) run(2) deactivate_fails [OF run(1)] dom_pointer_view [of meta nodes s] by auto
qed

theorem pointer_fields_are_maps_witness:
  "\<exists>s live. cell_view (pointer_ops pointer_meta {1000}) s = [(1000, 0) \<mapsto> (\<lambda>_. 0)(3 := 7)] \<and>
     nm_inv s live \<and> length live = 1"
proof -
  obtain s where "cell_run (pointer_ops pointer_meta {1000}) (pointer_deactivate pointer_meta) (\<lambda>c. {c}) gc_step
      (sample_nodes (\<lambda>_. 0) 0 4096 no_indices) s [(1000, 0) \<mapsto> (\<lambda>_. 0)(3 := 7)]"
    by (rule pointer_sample_run)
  from pointer_fields_are_maps [OF pointer_sample_fresh this] show ?thesis
    by (intro exI [of _ s]) simp
qed

text \<open>
  (C40) A dynamic field whose chunks end below index \<open>2 ^ 31\<close> behaves like a map whose containers hold their elements from 0 on without gaps, over any sequence
  of activations, appends, writes, deactivations and collections: an append returns the number of elements there
  were, the address at which that element is then found, and leaves the map with this one element added, clear.
\<close>

theorem dynamic_append_extends_list:
  assumes "fresh_field 16 nodes (chunk_bytes_of meta) s0" "0 < sm_chunk_size meta"
    and "cell_run (dynamic_ops meta nodes) (dynamic_deactivate meta) container_of gc_step s0 s A" "c \<in> nodes"
    and "Dynamic_get_num_elements meta c s + 1 < 2 ^ 31" "Dynamic_allocate meta c s = Inr (p, i, s')"
  shows "cell_view (dynamic_ops meta nodes) s = A \<and> (\<forall>j. A (c, j) \<noteq> None \<longleftrightarrow> int j < i) \<and>
    i = Dynamic_get_num_elements meta c s \<and> Dynamic_get_num_elements meta c s' = i + 1 \<and>
    Dynamic_lookup_element meta c (nat i) s' = Some p \<and>
    cell_run (dynamic_ops meta nodes) (dynamic_deactivate meta) container_of gc_step s0 s' (A((c, nat i) \<mapsto> \<lambda>_. 0)) \<and>
    cell_view (dynamic_ops meta nodes) s' = A((c, nat i) \<mapsto> \<lambda>_. 0)"
proof -
  let ?ops = "dynamic_ops meta nodes"
  have run: "dynamic_inv meta nodes s" "cell_view ?ops s = A"
    using dynamic.run_view [OF assms(3) fresh_dynamic(1) [OF assms(1,2)]] by simp_all
  have n: "dynamic_n c (nm_mem s) + 1 < 2 ^ 31"
    using assms(5) by (simp add: Dynamic_get_num_elements_def)
  note app = append_activates [OF run(1) assms(4) n assms(6)]
  have "(c, nat i) \<in> co_cells ?ops" "co_activate ?ops (c, nat i) s = Inr s'"
    using app(1,2) n assms(4) by (simp_all add: nat_add_distrib)
  from run_activate [OF assms(3) this]
  have run': "cell_run ?ops (dynamic_deactivate meta) container_of gc_step s0 s' (A((c, nat i) \<mapsto> \<lambda>_. 0))"
    using append_view [OF run(1) assms(4) n assms(6)] by (simp only: run(2))
  then have "cell_view ?ops s' = A((c, nat i) \<mapsto> \<lambda>_. 0)"
    using dynamic.run_view fresh_dynamic(1) [OF assms(1,2)] by blast
  moreover have "A (c, j) \<noteq> None \<longleftrightarrow> int j < i" for j
    using dynamic_view_active [OF run(1) assms(4), of j] app(1) n unfolding run(2) by auto
  ultimately show ?thesis
    using run(2) app run' by (simp add: Dynamic_get_num_elements_def)
qed

theorem dynamic_append_extends_list_witness:
  "\<exists>s. Dynamic_lookup_element dynamic_meta 1000 1 s = Some 4108 \<and>
     cell_view (dynamic_ops dynamic_meta {1000}) s = [(1000, 0) \<mapsto> (\<lambda>_. 0)(1 := 9), (1000, 1) \<mapsto> \<lambda>_. 0]"
proof -
  let ?s = "sample_chunks ((\<lambda>_. 0)(0 := 4096)) 1 4160 sample_dynamic_mem"
  obtain s where s: "Dynamic_allocate dynamic_meta 1000 ?s = Inr (4108, 1, s)"
    using dynamic_sample_append by blast
  have "nm_mem ?s = sample_dynamic_mem"
    by (simp add: sample_chunks_def)
  then have "Dynamic_get_num_elements dynamic_meta 1000 ?s + 1 < 2 ^ 31" "0 < sm_chunk_size dynamic_meta"
    by (simp_all add: Dynamic_get_num_elements_def sample_dynamic_reads dynamic_meta_def)
  from dynamic_append_extends_list [OF dynamic_sample_fresh this(2) dynamic_sample_run _ this(1) s] show ?thesis
    by (intro exI [of _ s]) simp
qed

section \<open>Launching kernels with loops and checkpoints\<close>

text \<open>
  (C14) A kernel with device loops, other than one whose tasks all sit in its only loop, runs as the
  structured program that its tasks' level tags describe: the launcher returns a state exactly when
  executing the nested blocks does, and that state. It diverges only when a loop of the program does.
  Kernels whose tasks all sit in their only loop take the shortcut of the next theorem.
\<close>

theorem do_while_runs_structured_program:
  assumes "levels_ok levels" "ids_ok levels (lx_graph_do_while_level_per_task lx) (lx_num_tasks lx)"
    and "\<not> all_in_only_loop lx levels"
  shows "\<exists>bs. nest levels (lx_graph_do_while_level_per_task lx) (-1) 0 bs (lx_num_tasks lx) \<and>
    (\<forall>st st'. launch_offloaded_tasks_with_do_while lx levels yield_on prep run st = Some st' \<longleftrightarrow>
       (\<exists>ok. exec (task_step lx yield_on run) (level_test lx levels) bs (start_launch lx prep st) (ok, st')))"
  by (rule do_while_nested [OF assms])

theorem do_while_runs_structured_program_witness:
  "\<exists>bs. nest sample_levels (lx_graph_do_while_level_per_task sample_lx) (-1) 0 bs (lx_num_tasks sample_lx) \<and>
    (\<forall>st st'. launch_offloaded_tasks_with_do_while sample_lx sample_levels [0, 700, 0] id sample_run st = Some st' \<longleftrightarrow>
       (\<exists>ok. exec (task_step sample_lx [0, 700, 0] sample_run) (level_test sample_lx sample_levels) bs
          (start_launch sample_lx id st) (ok, st')))"
  by (rule do_while_runs_structured_program)
    (use sample_levels_ok in \<open>simp_all add: sample_lx_def all_in_only_loop_def\<close>)

text \<open>
  (C16) The shortcut for a kernel whose tasks all sit in its only loop, which relaunches the whole
  task list, ends exactly when the driver of nested loops would on that kernel, with the same memory,
  assertion status and recorded yield, checkpoints and resume requests included. This supposes that no
  yield of an earlier launch is on record (the shortcut would stop after one pass) and that the adstack
  setup of a pass changes nothing (the shortcut repeats it in every pass, the driver does it once).
\<close>

theorem single_loop_equals_driver:
  assumes "levels_ok levels" "ids_ok levels (lx_graph_do_while_level_per_task lx) (lx_num_tasks lx)" "all_in_only_loop lx levels"
    and "length (lx_graph_do_while_level_per_task lx) = lx_num_tasks lx" "0 < lx_num_tasks lx" "ls_last_yield_cp_id st = -1"
  shows "(\<exists>st'. launch_offloaded_tasks_with_do_while lx levels yield_on id run st = Some st' \<and> observed st' = obs) \<longleftrightarrow>
    (\<exists>st'. drive_levels lx levels yield_on id run st = Some st' \<and> observed st' = obs)"
  by (rule single_loop_drives [OF assms])

theorem single_loop_equals_driver_witness:
  "\<exists>st'. drive_levels sample_plain_lx sample_levels [] id sample_run sample_launch = Some st' \<and>
     observed st' = ((\<lambda>a. if a = 700 then 1 else 0)(500 := 1), False, -1)"
  using single_loop_equals_driver [of sample_levels sample_plain_lx sample_launch "[]" sample_run] sample_plain_launch sample_plain_ok
  by (simp add: sample_launch_def)

text \<open>
  (C15) A launch with checkpoints and no loop, in which no assertion fails, runs, in order, the tasks
  outside every checkpoint and those of the checkpoints from the resume label on, up to the first of
  them that ends a checkpoint and leaves its flag set; from there only the tasks outside every
  checkpoint. The recorded yield is that checkpoint, and none (\<open>-1\<close>) exactly when no task is such.
\<close>

theorem gated_launch_schedule:
  assumes "lx_has_any_checkpoint lx" "no_asserts run" "ls_last_yield_cp_id st = -1"
    and "st' = launch_offloaded_tasks lx yield_on prep run st" "j = lx_num_tasks lx" "rp = max 0 (ls_resume_from_checkpoint st)"
    and "m = prep (ls_mem st)"
  shows "case first_yield lx yield_on run rp 0 j m of
      None \<Rightarrow> ls_mem st' = fold (task_mem run) (filter (selected lx rp) [0..<j]) m \<and> ls_last_yield_cp_id st' = -1
    | Some k \<Rightarrow> ls_mem st' = fold (task_mem run) (filter (selected lx rp) [0..<Suc k] @ filter (outside_checkpoints lx) [Suc k..<j]) m \<and>
        ls_last_yield_cp_id st' = cp_of lx k \<and> 0 \<le> cp_of lx k"
  using gated_launch [OF assms(1-4)] assms(5-7) first_yield_cp [of lx yield_on run rp 0 j m]
  by (auto simp: launch_outcome_def gated_schedule_def split: option.splits)

theorem gated_launch_schedule_witness:
  "first_yield sample_lx [0, 700, 0] sample_run 0 0 3 (ls_mem sample_launch) = Some 1 \<and>
   ls_last_yield_cp_id (launch_offloaded_tasks sample_lx [0, 700, 0] id sample_run (sample_launch\<lparr>ls_resume_from_checkpoint := -1\<rparr>)) = 1"
proof -
  let ?st = "sample_launch\<lparr>ls_resume_from_checkpoint := -1\<rparr>"
  have "lx_has_any_checkpoint sample_lx" "ls_last_yield_cp_id ?st = -1" by code_simp+
  from gated_launch_schedule [OF this(1) sample_no_asserts this(2) refl refl refl refl, of "[0, 700, 0]" id]
  show ?thesis using sample_first_yield by (simp add: sample_lx_num_tasks)
qed

text \<open>
  (C17) Once a checkpoint has yielded, the rest of the kernel ends whatever the flags of its loops
  say: each task outside every checkpoint runs once more where it stands, no checkpoint runs, and
  every enclosing loop is left. The guide (\<^verbatim>\<open>docs/source/user_guide/graph.md\<close>) says that everything
  after the yielding checkpoint is skipped; the tasks outside checkpoints are not.
\<close>

theorem yield_unwinds_loops:
  assumes "ls_yield_signal st \<noteq> -1" "\<not> ls_cpu_assert_failed st" "no_asserts run"
  shows "\<exists>st'. exec (run_gated_task lx yield_on run) (continue_level levels) bs st (True, st') \<and>
    yielded_rest lx run (concat (map block_tasks bs)) st st'"
  by (rule yield_unwinds [OF assms])

theorem yield_unwinds_loops_witness:
  "\<exists>st'. exec (run_gated_task sample_lx [0, 700, 0] sample_run) (continue_level sample_levels)
      [Loop 0 [Task 0, Task 5]] (sample_launch\<lparr>ls_yield_signal := 1\<rparr>) (True, st') \<and>
    yielded_rest sample_lx sample_run (concat (map block_tasks [Loop 0 [Task 0, Task 5]]))
      (sample_launch\<lparr>ls_yield_signal := 1\<rparr>) st'"
  by (rule yield_unwinds_loops) (simp_all add: sample_launch_def sample_no_asserts)

section \<open>Rows for gated stacks\<close>

text \<open>
  (C20) The host count of a CPU launch and the device reducer of a GPU launch agree: each writes, into
  the capacity slot of its task, the number of cells of the gating field that pass the gate.
\<close>

theorem gate_counts_agree:
  assumes "gate_ok be" "lc_args_type c = Some geo" "gate_field (lz_mem s) (Some c) (Some roots) be = Some fld"
    and "arrays_published s" "t < 2 ^ 32" "n < 2 ^ 32"
    and "n = (if be_field_source_kind be = SNodeSource then be_snode_iter_count be else len)"
    and "be_field_source_kind be = SNodeSource \<or> geo (be_ndarray_arg_id be @ [data_ptr_pos]) mod 4 = 0"
    and "0 \<le> geo (be_ndarray_arg_id be @ [data_ptr_pos])" "geo (be_ndarray_arg_id be @ [data_ptr_pos]) < 2 ^ 32"
    and "cpu = X64 \<or> cpu = Arm64" "gpu = Cuda \<or> gpu = Amdgpu"
  shows "publish_per_task_bound_count_cpu cpu (Some roots) t (Some be) n (Some c) s =
      (card {i. i < n \<and> gate_open (lz_mem s) be fld i},
       set_capacity t (card {i. i < n \<and> gate_open (lz_mem s) be fld i}) s) \<and>
    publish_per_task_bound_count_device gpu roots (lc_arg_buffer c) t (Some be) len (Some c) s =
      set_capacity t (card {i. i < n \<and> gate_open (lz_mem s) be fld i}) s"
  using cpu_count [OF assms(11,3,4,6)] device_count [where ar = gpu and be = be and geo = geo and c = c] assms
  by auto

theorem gate_counts_agree_witness:
  "publish_per_task_bound_count_cpu X64 (Some (\<lambda>_. 0)) 0 (Some sample_gate) 4 (Some gate_ctx) gate_reset = (2, gate_counted) \<and>
   publish_per_task_bound_count_device Cuda (\<lambda>_. 0) 1000 0 (Some sample_gate) 4 (Some gate_ctx) gate_reset = gate_counted"
  using gate_counts_agree [where cpu = X64 and gpu = Cuda and len = 4 and t = 0 and n = 4, OF sample_gate_ok _
      sample_gate_field gate_reset_published] sample_gate_count
  by (simp add: gate_ctx_def sample_gate_def data_ptr_pos_def gate_counted_def)

text \<open>
  (C21) The float heap is large enough and rows are not shared: after the counters are reset, the gate
  counted and the heap grown, the threads of a launch that enter the gate, at most one per passing cell
  and no more than the captured trip count, draw pairwise different rows that lie inside the heap, and
  no overflow is signalled.
\<close>

theorem gated_rows_in_heap:
  assumes "publish_adstack_lazy_claim_buffers al1 al2 n s = Inr s1" "lazy_ok s" "blocks_apart al1 al2" "t < n"
    and "cpu = X64 \<or> cpu = Arm64" "gate_field (lz_mem s1) ctx roots be = Some fld" "len < 2 ^ 32 - 1"
    and "publish_per_task_bound_count_cpu cpu roots t (Some be) len ctx s1 = (c, s2)"
    and "ensure_per_task_float_heap_post_reducer al t (Some be) pts num_threads stride e outer ac s2 h = Inr (h', o', ac')"
    and "0 < pts" "max num_threads (max len 1) * stride < 2 ^ 64" "trip_bounds k be e outer ac" "k \<le> c"
    and "slots_separate flag_ptr id_ptr t s2" "load_u64 (lz_mem s2) flag_ptr = 0"
    and "row_claims flag_ptr id_ptr r t k s2 = (rows, s3)"
  shows "distinct rows \<and> length rows = k \<and> list_all (\<lambda>row. (row + 1) * stride \<le> hp_size_float h') rows \<and>
    load_u64 (lz_mem s3) flag_ptr = 0"
proof -
  have c: "c \<le> len" "s2 = set_capacity t c s1"
    using cpu_count [OF assms(5,6) publish_buffers_resets(2) [OF assms(1-4)], of len t] assms(7,8) card_below_le
    by auto
  have "max num_threads (max c 1) * stride \<le> max num_threads (max len 1) * stride"
    using c(1) by (intro mult_le_mono1) auto
  also have "\<dots> < 2 ^ 64" by (rule assms(11))
  finally show ?thesis
    using gated_rows [OF assms(1-4) c(2) _ assms(9,10) _ assms(12-16)] c(1) assms(7) by (simp only: le_less_trans)
qed

theorem gated_rows_in_heap_witness:
  "\<exists>rows s3. row_claims 9000 9008 7 0 2 gate_counted = (rows, s3) \<and> distinct rows \<and> length rows = 2 \<and>
     list_all (\<lambda>row. (row + 1) * 64 \<le> 128) rows \<and> load_u64 (lz_mem s3) 9000 = 0"
proof -
  obtain rows s3 where "row_claims 9000 9008 7 0 2 gate_counted = (rows, s3)"
    by (cases "row_claims 9000 9008 7 0 2 gate_counted")
  then show ?thesis
    using gated_rows_in_heap [OF gate_reset_run gate_start_ok _ _ sample_gate_field _ gate_counted_run gate_heap_run _ _
        gate_trip _ gate_slots gate_slots_clear(1)]
    by auto
qed

text \<open>
  (C22) Over-claiming is reported and attributed: with the pinned slots clear, the check after a task's
  claims raises exactly when the task claimed more rows than its capacity, a capacity of zero counting
  as one; the diagnosis it raises with is that of the task, and the caches are dropped only when it
  confirms them stale.
\<close>

theorem overrun_is_reported:
  assumes "slots_separate flag_ptr id_ptr t s" "flag_ptr \<noteq> 0" "id_ptr \<noteq> 0" "counter_at t s = 0" "k \<le> 2 ^ 32"
    and "load_u64 (lz_mem s) flag_ptr = 0" "load_u64 (lz_mem s) id_ptr = 0" "0 < r" "r < 2 ^ 32" "en_prog e \<noteq> None"
    and "row_claims flag_ptr id_ptr r t k s = (rows, s')"
    and "check_adstack_overflow (\<lambda>m. m) flag_ptr id_ptr rg e rd snap key_of (lz_mem s') ac = Inr (out, m', ac')"
  shows "if k \<le> max (capacity_at t s) 1 then out = Quiet \<and> ac' = ac
    else \<exists>dx ac1. out = OverflowRaised (Some dx) \<and>
           diagnose_adstack_overflow r rg (e\<lparr>en_mem := m'\<rparr>) rd snap key_of ac = Inr (dx, ac1) \<and>
           ac' = (if dx_confirmed_invalid_cache dx then invalidate_all_per_task ac1 else ac1)"
  by (rule overrun_reported [OF assms])

theorem overrun_is_reported_witness:
  "\<exists>dx m' ac'. check_adstack_overflow (\<lambda>m. m) 9000 9008 empty_registry sample_env (\<lambda>_ _ _. None) None (\<lambda>_. 0)
     (lz_mem (snd (row_claims 9000 9008 7 0 3 gate_counted))) empty_cache = Inr (OverflowRaised (Some dx), m', ac')"
proof -
  obtain rows s3 where claims: "row_claims 9000 9008 7 0 3 gate_counted = (rows, s3)"
    by (cases "row_claims 9000 9008 7 0 3 gate_counted")
  have prog: "en_prog sample_env \<noteq> None" by (simp add: sample_env_def)
  have "\<exists>out m' ac'. check_adstack_overflow (\<lambda>m. m) 9000 9008 empty_registry sample_env (\<lambda>_ _ _. None) None (\<lambda>_. 0)
     (lz_mem s3) empty_cache = Inr (out, m', ac')"
    by (auto simp: check_adstack_overflow_def Let_def diagnose_adstack_overflow_def lookup_adstack_sizing_info_def
        empty_registry_def result_simps split: option.splits)
  then obtain out m' ac' where "check_adstack_overflow (\<lambda>m. m) 9000 9008 empty_registry sample_env (\<lambda>_ _ _. None) None (\<lambda>_. 0)
     (lz_mem s3) empty_cache = Inr (out, m', ac')" by blast
  moreover from this have "\<exists>dx. out = OverflowRaised (Some dx)"
    using overrun_is_reported [OF gate_slots _ _ gate_counted_state(3) _ gate_slots_clear _ _ prog claims]
    by (fastforce simp: gate_counted_state)
  ultimately show ?thesis using claims by auto
qed

section \<open>Publishing a task\<close>

text \<open>
  (C23) Whichever way the capacities of a task were obtained (host evaluation, cached publication or
  device sizer), the slice of every thread for every stack that is not drawn lazily lies inside the heap
  the publication made sure of, and the cached publication of the task stays usable.
\<close>

theorem published_stacks_in_heap:
  assumes "publish_adstack_metadata ar al ab rs tk num_threads results e outer ac s = Inr (s', c, ac')"
    and "task_fits tk" "cached_layout tk ac" "sk_allocas tk \<noteq> []" "tid < num_threads" "k < length (sk_allocas tk)"
    and "layout_fits (task_headers tk) (published_sizes (pb_rt s') (length (sk_allocas tk)))"
    and "ar_per_thread_stride_float (pb_rt s') * num_threads < 2 ^ 64" "ar_per_thread_stride_int (pb_rt s') * num_threads < 2 ^ 64"
    and "ai_heap_is_float (sk_allocas tk ! k) \<longrightarrow> sk_bound_expr tk = None"
    and "heap_size = (if ai_heap_is_float (sk_allocas tk ! k) then hp_size_float (pb_heaps s') else hp_size_int (pb_heaps s'))"
    and "heap = (if ai_heap_is_float (sk_allocas tk ! k) then heap_float else heap_int)" "heap_size < 2 ^ 64"
    and "base = eager_stack_base (pb_rt s') (ai_heap_is_float (sk_allocas tk ! k)) heap_float heap_int tid k"
  shows "heap \<le> base \<and> base + int (slice_bytes (task_headers tk ! k) (ar_max_sizes (pb_rt s') k)) \<le> heap + int heap_size \<and>
    cached_layout tk ac'"
proof -
  have kind: "dh_heap_kind (task_headers tk ! k) = 0 \<longleftrightarrow> ai_heap_is_float (sk_allocas tk ! k)"
    using assms(6) by (simp add: alloca_header_def)
  note room = publication_room [OF assms(1-5,7-9,6,10)]
  show ?thesis
    using room eager_stack_in_heap [where rt = "pb_rt s'" and shs = "task_headers tk" and i = k and heap = heap and
        heap_float = heap_float and heap_int = heap_int, OF _ assms(5,13)] kind assms(11,12,14)
    by (auto split: if_splits)
qed

theorem published_stacks_in_heap_witness:
  "7000 \<le> eager_stack_base (pb_rt plain_published) False 0 7000 5 0 \<and>
   eager_stack_base (pb_rt plain_published) False 0 7000 5 0 + int (slice_bytes (task_headers plain_task ! 0) 4) \<le> 7000 + 320"
  using published_stacks_in_heap [OF plain_publishes plain_task_fits(1) plain_cached plain_task_fits(3) _ _ plain_layout,
      where tid = 5 and k = 0 and heap_int = 7000 and heap_float = 0, OF _ _ _ _ _ refl refl _ refl]
  by (simp add: plain_strides plain_task_def)

text \<open>
  (C24) A publication that evaluates on the host returns, whatever the caches hold in a reachable state
  and whichever right results of the max reducer it substitutes, provided every size expression has a
  value. The capacity it publishes for a stack is that value, at least one; a negative value is replaced
  by the bound the compiler proved for the stack. The allocator is assumed to succeed.
\<close>

theorem host_publication_is_meaning:
  assumes "cache_run T w" "stacks_of_task T w ctx tk ks" "cache_ok (env_at w ctx) outer" "task_fits tk"
    and "ar \<noteq> Cuda \<and> ar \<noteq> Amdgpu \<or> host_resolvable tk" "\<And>i n. al i n \<noteq> None" "0 < num_threads"
    and "\<forall>k \<in> set ks. \<exists>v. size_value (env_at w ctx) (T k) Map.empty = Inr v"
    and "\<forall>i < length ks. stack_results_right (env_at w ctx) results tk i (T (ks ! i))"
  shows "\<exists>s' c ac'. publish_adstack_metadata ar al ab rs tk num_threads results (env_at w ctx) outer (wd_cache w) s = Inr (s', c, ac') \<and>
    published_sizes (pb_rt s') (length ks) = map2 (\<lambda>a k. meant_size (env_at w ctx) a (T k)) (sk_allocas tk) ks \<and>
    cache_run T (w\<lparr>wd_cache := ac'\<rparr>)"
  by (rule host_publication_meaning [OF assms])

theorem host_publication_is_meaning_witness:
  "\<exists>s' c ac'. publish_adstack_metadata Arm64 (\<lambda>_ _. Some 7000) 0 None sized_task 8 [(pack_max_reducer_key 7 0 5, 5)]
      (env_at sample_world sample_ctx) None (wd_cache sample_world) publish_start = Inr (s', c, ac') \<and> published_sizes (pb_rt s') 1 = [14]"
  using host_publication_is_meaning [OF SampleRuns.sample_run sized_stacks cache_ok_None plain_task_fits(2), of Arm64
      "\<lambda>_ _. Some 7000" 8 "[(pack_max_reducer_key 7 0 5, 5)]" 0 None publish_start] sized_results_right sized_allocas
  by (auto simp: meant_size_def sample_env_at sample_value)

text \<open>
  (C25) The pinned buffer is never overwritten too early: however publications, kernel launches and the
  progress of the stream interleave, a kernel that starts finds the strides, offsets and capacities of the
  publication it was launched with.
\<close>

theorem kernel_sees_its_metadata:
  assumes "pinned_run (pinned_start rt) v" "pw_queue v = Kernel md # q"
  shows "matches (pw_rt v) md"
  by (rule kernel_finds_metadata [OF assms])

theorem kernel_sees_its_metadata_witness:
  "\<exists>v :: pinned_world. pw_queue v = [Kernel plain_metadata] \<and> matches (pw_rt v) plain_metadata"
proof -
  obtain v where v: "pinned_run (pinned_start sample_runtime) v" "pw_queue v = [Kernel plain_metadata]"
    using sample_kernel_runs by blast
  then show ?thesis using kernel_sees_its_metadata [OF v] by blast
qed

section \<open>Parallel loops\<close>

text \<open>
  (C26) When the wait of the thread pool ends, its assertion holds and every task of the run was executed
  exactly once, by workers whose number is below the number of threads asked for, over any interleaving
  and any number of earlier runs.
\<close>

theorem pool_runs_every_task_once:
  assumes "tp_reach (new_thread_pool n garbage) s" "garbage \<le> 0" "tp_master s = MWaiting" "run_may_return s"
  shows "run_return s = Inr (s\<lparr>tp_master := MIdle\<rparr>) \<and> mset (map snd (tp_done s)) = mset [0..tp_task_tail s - 1] \<and>
    (\<forall>(i, t) \<in> set (tp_done s). int i < tp_desired_num_threads s)"
  using run_complete [OF tp_reach_inv [OF assms(1,2)] assms(3,4)] by blast

theorem pool_runs_every_task_once_witness:
  "run_return sample_threads = Inr (sample_threads\<lparr>tp_master := MIdle\<rparr>) \<and> mset (map snd (tp_done sample_threads)) = {#0#}"
  using pool_runs_every_task_once [OF sample_threads_reach] by simp

text \<open>
  (C27) A run of the thread pool ends, notifications included: a thread that found its condition false is
  blocked until it is notified, and still, while the run is not over, some thread can make a step, and no
  schedule of steps (other than wake-ups without a notification) goes on forever without the run returning.
\<close>

theorem pool_run_ends:
  assumes "np_reach (new_notified_pool n garbage) s" "garbage \<le> 0" "tp_master (np_pool s) = MWaiting"
  shows "(\<exists>t. np_step s t) \<and>
    \<not> (\<exists>f. f 0 = s \<and> (\<forall>k. tp_master (np_pool (f k)) = MWaiting \<and> np_step (f k) (f (Suc k))))"
  using np_not_stuck [OF np_reach_inv [OF assms(1,2)] assms(3)] np_run_ends [OF np_reach_inv [OF assms(1,2)]] by blast

theorem pool_run_ends_witness:
  "(\<exists>t. np_step blocked_pool t) \<and>
   \<not> (\<exists>f. f 0 = blocked_pool \<and> (\<forall>k. tp_master (np_pool (f k)) = MWaiting \<and> np_step (f k) (f (Suc k))))"
  by (rule pool_run_ends [OF blocked_pool_reach]) (simp_all add: blocked_pool_def solo_pool_def)

text \<open>
  (C30) The constructor does not initialise the number of threads wanted. If it happens to be one, the first
  run of a pool of one worker can return with its only task never executed.
\<close>

theorem first_run_may_lose_task:
  "\<exists>s. tp_reach (new_thread_pool 1 1) s \<and> tp_master s = MIdle \<and> tp_task_tail s = 1 \<and> tp_done s = []"
  using race_reach by (intro exI [of _ "solo_pool 1 [] 2 1 0 2 2 True Asleep 2 MIdle"]) (simp add: solo_pool_def)

text \<open>
  (C28) A range-for executes its body once for every index of the range and for nothing else, whether
  blocks of indices go to the thread pool, ascending or descending, or a grid of any size strides over it.
\<close>

theorem range_for_runs_each_index_once:
  assumes "tp_reach (new_thread_pool n garbage) s" "garbage \<le> 0" "tp_master s = MWaiting" "run_may_return s"
    and "cpu_parallel_range_for b e step bs p q = Inr (rc, tp_task_tail s)" "range_fits b e bs" "grid_fits g bd b e"
  shows "mset (concat (map (\<lambda>(i, t). bodies (fst (cpu_parallel_range_for_task no_fail rc t))) (tp_done s))) = mset [b..e - 1] \<and>
    (\<exists>trs. map (\<lambda>(bi, ti). gpu_parallel_range_for p q (int g) (int bd) bi ti b e) (grid_threads g bd) = map Some trs \<and>
       mset (concat (map bodies trs)) = mset [b..e - 1])"
  using cpu_range_for_indices [OF assms(6,5) run_complete(2) [OF tp_reach_inv [OF assms(1,2)] assms(3,4)]]
    gpu_range_for_indices [OF assms(7)] by (simp add: comp_def case_prod_unfold)

theorem range_for_runs_each_index_once_witness:
  "\<exists>rc. cpu_parallel_range_for 5 8 (-1) 4 True True = Inr (rc, 1) \<and>
     mset (bodies (fst (cpu_parallel_range_for_task no_fail rc 0))) = mset [5..7]"
proof -
  obtain rc where rc: "cpu_parallel_range_for 5 8 (-1) 4 True True = Inr (rc, tp_task_tail sample_threads)"
    by (simp add: cpu_parallel_range_for_def wrap32_def sdiv_nonneg)
  then show ?thesis
    using range_for_runs_each_index_once [OF sample_threads_reach _ _ _ rc, where g = 2 and bd = 2]
    by (auto simp: range_fits_def grid_fits_def fits32_def)
qed

text \<open>
  (C29) After element lists were generated level by level, with the appends of the threads of a grid in any
  order, a struct-for ends and runs exactly once for every active cell of the leaf below active cells of the
  path: on a GPU, and on the thread pool when the number of splits divides the size of a list element. The
  grids must be small enough for the 32-bit loop indices: below the root the cells of the only container
  plus 1024 per thread stay within \<open>2 ^ 31\<close> (\<open>root_grid_fits\<close>), elsewhere the list plus the blocks and the
  cells of a container plus the threads of a block do (\<open>struct_grid_fits\<close>).
\<close>

theorem struct_for_visits_active_cells:
  assumes "list_generated r (leaf # m # ms) elems" "list_all sizes_fit (butlast (leaf # m # ms))" "root_meta (last (leaf # m # ms))"
    and "tested_or_active leaf" "struct_grid_fits leaf elems g bd"
    and "tp_reach (new_thread_pool n garbage) s" "garbage \<le> 0" "tp_master s = MWaiting" "run_may_return s"
    and "k = num_splits (list_element_size leaf) block_dim" "k dvd list_element_size leaf" "int (length elems) * k < 2 ^ 31"
    and "tp_task_tail s = cpu_parallel_struct_for elems k"
  shows "(\<exists>cells. gpu_struct_for_cells leaf elems (list_element_size leaf) g bd = Some cells \<and> mset cells = mset (active_cells r leaf (m # ms))) \<and>
    mset (concat (map (\<lambda>(i, t). cpu_struct_for_cells leaf elems (list_element_size leaf) k t) (tp_done s))) =
      mset (active_cells r leaf (m # ms))"
  using gpu_struct_for_tree [OF assms(1-5)] cpu_struct_for_tree [OF assms(1-4,10-12), of "map snd (tp_done s)"]
    run_complete(2) [OF tp_reach_inv [OF assms(6,7)] assms(8,9)] assms(13) by (simp add: comp_def case_prod_unfold)

theorem struct_for_visits_active_cells_witness:
  "(\<exists>cells. gpu_struct_for_cells sample_leaf_meta sample_leaf_list 4 2 3 = Some cells \<and>
      mset cells = mset (map (\<lambda>j. (110, zero_coords(0 := 1), j)) [0, 1, 3])) \<and>
   mset (cpu_struct_for_cells sample_leaf_meta sample_leaf_list 4 1 0) = mset (map (\<lambda>j. (110, zero_coords(0 := 1), j)) [0, 1, 3])"
  using struct_for_visits_active_cells [OF sample_generated sample_sizes sample_tested sample_grid_fits sample_threads_reach,
      where k = 1 and block_dim = 4]
  by (simp add: sample_leaf_size sample_splits sample_tree) (simp add: sample_leaf_list_def)

text \<open>
  (C31) On the CPU the splits of an element need not reach its end: with ten cells per container under a
  node of four, the last cell of every container is visited by no task, whatever the order of the tasks.
\<close>

theorem struct_for_drops_cells:
  assumes "mt_max_num_elements leaf = 10" "mt_max_num_elements parent = 4"
    and "k = num_splits (list_element_size leaf) (cpu_struct_for_block_dim parent (offload_struct_for_block_dim 10 128 0))"
    and "elems = container_elements p 10 c" "mset ts = mset [0..cpu_parallel_struct_for elems k - 1]"
  shows "(p, c, 9) \<in> set (cells_of elems) \<and>
    (p, c, 9) \<notin> set (concat (map (cpu_struct_for_cells leaf elems (list_element_size leaf) k) ts))"
  using struct_for_misses_cell [OF assms] by blast

theorem struct_for_drops_cells_witness:
  "(9, zero_coords, 9) \<notin> set (concat (map (cpu_struct_for_cells (sample_leaf_meta\<lparr>mt_max_num_elements := 10\<rparr>)
     (container_elements 9 10 zero_coords) 10 3) [0, 1, 2]))"
proof -
  have "cpu_parallel_struct_for (container_elements 9 10 zero_coords) 3 = 3"
    by (simp add: cpu_parallel_struct_for_def container_elements_def quadrants_listgen_max_element_size_def
        strided_int.simps Let_def wrap32_def)
  then show ?thesis
    using struct_for_drops_cells [where leaf = "sample_leaf_meta\<lparr>mt_max_num_elements := 10\<rparr>" and p = 9 and c = zero_coords
        and parent = "sample_pointer_meta\<lparr>mt_max_num_elements := 4\<rparr>" and k = 3 and ts = "[0, 1, 2]", OF _ _ _ refl]
    by (simp add: list_element_size_def quadrants_listgen_max_element_size_def num_splits_def cpu_struct_for_block_dim_def
        offload_struct_for_block_dim_def sdiv_nonneg smod_nonneg upto_rec1 del: set_concat)
qed

end
